(* ===== verification/CPrelude.thy ===== *)
theory CPrelude
  imports Main "HOL-Library.Word"
begin

text \<open>
  Prelude of the development: the machine integer types, the C library's block
  operations on arrays (\<open>memmove\<close>, \<open>memset\<close>, \<open>realloc\<close> followed by
  clearing, \<open>bsearch\<close>) as list functions, and the fact collections the
  component theories use.

  Conventions.  A \<open>size_t\<close> that counts array elements is a \<^typ>\<open>nat\<close>: the code
  never checks an allocation's result, so the model assumes allocations succeed, and
  an array whose element count reaches \<open>2 ^ 61\<close> cannot exist.  An integer whose
  wrap-around is observable is a word.  A pointer into an array is the index it has.
  A failed \<open>assert\<close> is \<^term>\<open>None\<close>.
\<close>

type_synonym u8 = "8 word"
type_synonym u16 = "16 word"
type_synonym u32 = "32 word"
type_synonym u64 = "64 word"

abbreviation SIZE_MAX :: nat where
  "SIZE_MAX \<equiv> 18446744073709551615"

text \<open>Facts that unfold a component's operations, and facts about their abstraction.\<close>

named_theorems c_ops \<open>definitions of the operations of the containers\<close>
named_theorems c_abs \<open>effect of an operation on the abstract value of a container\<close>
named_theorems c_inv \<open>preservation of the representation invariants\<close>

section \<open>Block operations\<close>

text \<open>
  \<open>memmove(base + d, base + s, n * size)\<close>: the \<open>n\<close> elements that start at
  \<open>s\<close> are copied to \<open>d\<close>, as if through a temporary array.
\<close>

definition mem_move :: "'a list \<Rightarrow> nat \<Rightarrow> nat \<Rightarrow> nat \<Rightarrow> 'a list" where
  "mem_move xs d s n = take d xs @ take n (drop s xs) @ drop (d + n) xs"

text \<open>\<open>memset(base + d, v, n * size)\<close> for a value whose bytes are all \<open>v\<close>.\<close>

definition mem_set :: "'a list \<Rightarrow> nat \<Rightarrow> 'a \<Rightarrow> nat \<Rightarrow> 'a list" where
  "mem_set xs d v n = take d xs @ replicate n v @ drop (d + n) xs"

text \<open>
  \<open>realloc\<close> to \<open>n\<close> elements and the \<open>memset\<close> of the new part that follows it
  everywhere in the code: the old elements that fit stay and \<open>z\<close> is the element whose
  bytes are all zero.
\<close>

definition grow_fill :: "'a \<Rightarrow> 'a list \<Rightarrow> nat \<Rightarrow> 'a list" where
  "grow_fill z xs n = take n xs @ replicate (n - length xs) z"

lemma length_mem_move [simp]:
  "d + n \<le> length xs \<Longrightarrow> s + n \<le> length xs \<Longrightarrow> length (mem_move xs d s n) = length xs"
  by (simp add: mem_move_def)

lemma length_mem_set [simp]: "d + n \<le> length xs \<Longrightarrow> length (mem_set xs d v n) = length xs"
  by (simp add: mem_set_def)

lemma length_grow_fill [simp]: "length (grow_fill z xs n) = n"
  by (simp add: grow_fill_def)

lemma nth_grow_fill:
  "i < n \<Longrightarrow> grow_fill z xs n ! i = (if i < length xs then xs ! i else z)"
  by (simp add: grow_fill_def nth_append min_def)

lemma take_grow_fill: "k \<le> length xs \<Longrightarrow> k \<le> n \<Longrightarrow> take k (grow_fill z xs n) = take k xs"
  by (simp add: grow_fill_def min_def)

lemma nth_mem_set:
  "d + n \<le> length xs \<Longrightarrow> i < length xs \<Longrightarrow>
   mem_set xs d v n ! i = (if d \<le> i \<and> i < d + n then v else xs ! i)"
  by (auto simp: mem_set_def nth_append min_def)

text \<open>The two shapes of \<open>memmove\<close> the containers use: opening and closing a gap.\<close>

lemma take_open_gap:
  assumes "i \<le> n" "n < length xs"
  shows "take (Suc n) ((mem_move xs (Suc i) i (n - i))[i := v]) = take i xs @ v # drop i (take n xs)"
    (is "?l = ?r")
proof (rule nth_equalityI)
  have *: "length (mem_move xs (Suc i) i (n - i)) = length xs"
    using assms by (intro length_mem_move) auto
  show "length ?l = length ?r" using assms * by simp
  fix j assume "j < length ?l"
  then have "j < Suc n" using * assms by simp
  then show "?l ! j = ?r ! j"
    using assms * by (auto simp: mem_move_def nth_append nth_list_update nth_Cons' min_def)
qed

lemma take_close_gap:
  assumes "i < n" "n \<le> length xs"
  shows "take (n - 1) (mem_move xs i (Suc i) (n - i - 1)) = take i xs @ drop (Suc i) (take n xs)"
    (is "?l = ?r")
proof (rule nth_equalityI)
  have *: "length (mem_move xs i (Suc i) (n - i - 1)) = length xs"
    using assms by (intro length_mem_move) auto
  show "length ?l = length ?r" using assms * by simp
  fix j assume "j < length ?l"
  then have "j < n - 1" using * assms by simp
  then show "?l ! j = ?r ! j"
    using assms * by (auto simp: mem_move_def nth_append min_def)
qed

lemma set_delete_nth:
  assumes "distinct xs" "i < length xs"
  shows "set (take i xs @ drop (Suc i) xs) = set xs - {xs ! i}"
proof -
  define A B where "A = take i xs" and "B = drop (Suc i) xs"
  have xs: "xs = A @ xs ! i # B" using assms(2) by (simp add: A_def B_def id_take_nth_drop)
  then have "distinct (A @ xs ! i # B)" using assms(1) by simp
  then have "set (A @ B) = set (A @ xs ! i # B) - {xs ! i}" by auto
  with xs show ?thesis by (simp add: A_def B_def)
qed

section \<open>Bytes of an integer on the little-endian host\<close>

fun le_bytes :: "nat \<Rightarrow> u64 \<Rightarrow> u8 list" where
  "le_bytes 0 v = []"
| "le_bytes (Suc n) v = ucast v # le_bytes n (drop_bit 8 v)"

fun of_le_bytes :: "u8 list \<Rightarrow> u64" where
  "of_le_bytes [] = 0"
| "of_le_bytes (c # cs) = Bit_Operations.or (ucast c) (push_bit 8 (of_le_bytes cs))"

lemma of_le_bytes_le_bytes: "of_le_bytes (le_bytes n v) = take_bit (8 * n) v"
proof (induction n arbitrary: v)
  case (Suc n)
  have "Bit_Operations.or (ucast (ucast v :: u8)) (push_bit 8 (take_bit (8 * n) (drop_bit 8 v))) =
      take_bit (8 * Suc n) v"
  proof (rule bit_word_eqI)
    fix k assume "k < LENGTH(64)"
    moreover have "8 + (k - 8) = k" if "8 \<le> k" using that by simp
    ultimately show "bit (Bit_Operations.or (ucast (ucast v :: u8)) (push_bit 8 (take_bit (8 * n) (drop_bit 8 v)))) k =
        bit (take_bit (8 * Suc n) v) k"
      by (cases "8 \<le> k")
        (auto simp: bit_or_iff bit_ucast_iff bit_push_bit_iff bit_take_bit_iff bit_drop_bit_eq)
  qed
  with Suc show ?case by simp
qed simp

lemma length_le_bytes [simp]: "length (le_bytes n v) = n"
  by (induction n arbitrary: v) auto

end
