(* ===== verification/COrder.thy ===== *)
theory COrder
  imports CPrelude
begin

text \<open>
  The contract between the sorted containers (\<open>map.c\<close>, \<open>set.c\<close>) and the comparison
  functions they are given, the binary search both share, and the C library's
  \<open>bsearch\<close>.  A comparison function returns a negative, zero or positive \<open>int\<close>; the
  containers are correct for any function that orders its arguments as a weak order.
\<close>

section \<open>Searching a sorted array\<close>

text \<open>
  The loop of \<open>FindLocation\<close>, in \<open>map.c\<close> and, over other elements, in \<open>set.c\<close>:
  \<open>f\<close> is the comparison of the searched value with an element.  The result is the
  final \<open>high\<close> (or the \<open>mid\<close> of the exact match) and the \<open>found\<close> flag.
\<close>

function find_loop :: "('a \<Rightarrow> int) \<Rightarrow> 'a list \<Rightarrow> nat \<Rightarrow> nat \<Rightarrow> nat \<times> bool" where
  "find_loop f xs low high =
     (if low < high then
        (let mid = low + (high - low) div 2; compval = f (xs ! mid)
         in if compval = 0 then (mid, True)
            else if compval < 0 then find_loop f xs low mid
            else find_loop f xs (mid + 1) high)
      else (high, False))"
  by pat_completeness auto
termination
  by (relation "measure (\<lambda>(f, xs, low, high). high - low)") auto

declare find_loop.simps [simp del]

text \<open>
  \<open>bsearch\<close> of the C library over the elements of an array: the index of a matching
  element, or \<^term>\<open>None\<close> for NULL.
\<close>

definition c_bsearch :: "('a \<Rightarrow> int) \<Rightarrow> 'a list \<Rightarrow> nat option" where
  "c_bsearch f xs = (let (i, found) = find_loop f xs 0 (length xs)
                     in if found then Some i else None)"

text \<open>Along a sorted array the comparison is first positive, then at most once 0, then negative.\<close>

definition cut_by :: "('a \<Rightarrow> int) \<Rightarrow> 'a list \<Rightarrow> bool" where
  "cut_by f xs \<longleftrightarrow> (\<forall>i j. i < j \<longrightarrow> j < length xs \<longrightarrow> 0 \<le> f (xs ! j) \<longrightarrow> 0 < f (xs ! i))"

definition lower_pos :: "('a \<Rightarrow> int) \<Rightarrow> 'a list \<Rightarrow> nat" where
  "lower_pos f xs = length (takeWhile (\<lambda>y. 0 < f y) xs)"

definition hit :: "('a \<Rightarrow> int) \<Rightarrow> 'a list \<Rightarrow> bool" where
  "hit f xs \<longleftrightarrow> lower_pos f xs < length xs \<and> f (xs ! lower_pos f xs) = 0"

lemma lower_pos_le [simp]: "lower_pos f xs \<le> length xs"
  by (simp add: lower_pos_def length_takeWhile_le)

lemma lower_pos_eq:
  assumes "\<And>i. i < n \<Longrightarrow> 0 < f (xs ! i)" "n \<le> length xs" "n < length xs \<Longrightarrow> f (xs ! n) \<le> 0"
  shows "lower_pos f xs = n"
proof -
  have "takeWhile (\<lambda>y. 0 < f y) xs = take n xs"
    using assms by (intro takeWhile_eq_take_P_nth) force+
  with assms(2) show ?thesis by (simp add: lower_pos_def)
qed

lemma lower_pos_before: "i < lower_pos f xs \<Longrightarrow> 0 < f (xs ! i)"
  unfolding lower_pos_def
  by (metis nth_mem set_takeWhileD takeWhile_nth)

lemma lower_pos_at: "lower_pos f xs < length xs \<Longrightarrow> f (xs ! lower_pos f xs) \<le> 0"
  unfolding lower_pos_def using nth_length_takeWhile [of "\<lambda>y. 0 < f y" xs] by auto

lemma lower_pos_after:
  assumes "cut_by f xs" "lower_pos f xs < i" "i < length xs"
  shows "f (xs ! i) < 0"
proof (rule ccontr)
  assume "\<not> f (xs ! i) < 0"
  then have "0 < f (xs ! lower_pos f xs)" using assms by (auto simp: cut_by_def)
  with lower_pos_at [of f xs] assms show False by auto
qed

lemma find_loop_gen:
  assumes "cut_by f xs" "low \<le> high" "high \<le> length xs"
    "\<And>i. i < low \<Longrightarrow> 0 < f (xs ! i)" "\<And>i. high \<le> i \<Longrightarrow> i < length xs \<Longrightarrow> f (xs ! i) < 0"
  shows "find_loop f xs low high = (lower_pos f xs, hit f xs)"
  using assms
proof (induction f xs low high rule: find_loop.induct)
  case (1 f xs low high)
  note up = "1.prems"(1) [unfolded cut_by_def, rule_format]
  show ?case
  proof (cases "low < high")
    case False
    with "1.prems" have "low = high" by simp
    have "lower_pos f xs = high"
      using "1.prems" \<open>low = high\<close> by (intro lower_pos_eq) (auto simp: less_imp_le)
    with False "1.prems"(5) [of high] show ?thesis
      by (auto simp: find_loop.simps [of f xs low high] hit_def)
  next
    case True
    define mid where "mid = low + (high - low) div 2"
    have mid: "low \<le> mid" "mid < high" using True unfolding mid_def by auto
    consider "f (xs ! mid) = 0" | "f (xs ! mid) < 0" | "0 < f (xs ! mid)" by linarith
    then show ?thesis
    proof cases
      case 1
      have "lower_pos f xs = mid"
        using 1 mid "1.prems"(3) by (intro lower_pos_eq) (auto intro: up [of _ mid])
      with 1 True mid "1.prems"(3) show ?thesis
        by (simp add: find_loop.simps [of f xs low high] mid_def [symmetric] hit_def)
    next
      case 2
      have "f (xs ! i) < 0" if "mid \<le> i" "i < length xs" for i
        using 2 that up [of mid i] by (cases "i = mid") force+
      with 2 mid "1.prems" "1.IH"(1) [OF True mid_def refl]
      have "find_loop f xs low mid = (lower_pos f xs, hit f xs)" by simp
      with 2 True show ?thesis
        by (simp add: find_loop.simps [of f xs low high] Let_def mid_def)
    next
      case 3
      have "0 < f (xs ! i)" if "i < mid + 1" for i
        using 3 that up [of i mid] mid "1.prems"(3) by (cases "i = mid") auto
      moreover have "f (xs ! mid) \<noteq> 0" "\<not> f (xs ! mid) < 0" using 3 by auto
      ultimately
      have "find_loop f xs (mid + 1) high = (lower_pos f xs, hit f xs)"
        using mid "1.prems" "1.IH"(2) [OF True mid_def refl] by simp
      with 3 True show ?thesis
        by (simp add: find_loop.simps [of f xs low high] Let_def mid_def)
    qed
  qed
qed

lemma find_loop_spec:
  "cut_by f xs \<Longrightarrow> find_loop f xs 0 (length xs) = (lower_pos f xs, hit f xs)"
  by (rule find_loop_gen) auto

lemma c_bsearch_spec:
  "cut_by f xs \<Longrightarrow> c_bsearch f xs = (if hit f xs then Some (lower_pos f xs) else None)"
  by (simp add: c_bsearch_def find_loop_spec)

lemma find_loop_take: "high \<le> length xs \<Longrightarrow> find_loop f (take n xs) low high = find_loop f xs low high"
  if "high \<le> n" for n
  using that
proof (induction f xs low high rule: find_loop.induct)
  case (1 f xs low high)
  show ?case
  proof (cases "low < high")
    case True
    then have "low + (high - low) div 2 < n" "low + (high - low) div 2 < high"
      using "1.prems" by auto
    with 1 True show ?thesis
      by (simp add: find_loop.simps [of f _ low high] Let_def)
  qed (simp add: find_loop.simps)
qed

section \<open>The contract of a comparison function\<close>

locale c_compare =
  fixes cmp :: "'a \<Rightarrow> 'a \<Rightarrow> int"
  assumes cmp_neg: "cmp a b < 0 \<longleftrightarrow> 0 < cmp b a"
    and cmp_le_trans: "cmp a b \<le> 0 \<Longrightarrow> cmp b c \<le> 0 \<Longrightarrow> cmp a c \<le> 0"

text \<open>Strictly sorted, as every container keeps its array.\<close>

definition sorted_by :: "('a \<Rightarrow> 'a \<Rightarrow> int) \<Rightarrow> 'a list \<Rightarrow> bool" where
  "sorted_by cmp xs \<longleftrightarrow> sorted_wrt (\<lambda>a b. cmp a b < 0) xs"

context c_compare
begin

lemma cmp_self [simp]: "cmp a a = 0"
  using cmp_neg [of a a] by linarith

lemma cmp_ge: "0 \<le> cmp a b \<longleftrightarrow> cmp b a \<le> 0"
  using cmp_neg [of a b] by linarith

lemma cmp_zero_sym: "cmp a b = 0 \<longleftrightarrow> cmp b a = 0"
  using cmp_neg [of a b] cmp_neg [of b a] by linarith

lemma cmp_le_less_trans: "cmp a b \<le> 0 \<Longrightarrow> cmp b c < 0 \<Longrightarrow> cmp a c < 0"
  using cmp_le_trans [of a b c] cmp_le_trans [of c a b] cmp_neg [of b c] cmp_zero_sym [of a c]
  by fastforce

lemma cmp_less_le_trans: "cmp a b < 0 \<Longrightarrow> cmp b c \<le> 0 \<Longrightarrow> cmp a c < 0"
  using cmp_le_trans [of a b c] cmp_le_trans [of b c a] cmp_neg [of a b] cmp_zero_sym [of a c]
  by fastforce

lemma cmp_zero_trans: "cmp a b = 0 \<Longrightarrow> cmp b c = 0 \<Longrightarrow> cmp a c = 0"
  using cmp_le_trans [of a b c] cmp_le_trans [of c b a] cmp_zero_sym [of a b] cmp_zero_sym [of b c]
    cmp_ge [of a c] by linarith

lemma cmp_zero_cong: "cmp a b = 0 \<Longrightarrow> cmp a c = 0 \<longleftrightarrow> cmp b c = 0"
  using cmp_zero_trans cmp_zero_sym by blast

lemma sorted_cut: "sorted_by cmp xs \<Longrightarrow> cut_by (cmp k) xs"
  unfolding cut_by_def sorted_by_def sorted_wrt_iff_nth_less
  by (metis cmp_ge cmp_less_le_trans cmp_neg)

lemma sorted_distinct: "sorted_by cmp xs \<Longrightarrow> distinct xs"
  unfolding sorted_by_def
  by (induction xs) auto

lemma sorted_unique:
  assumes "sorted_by cmp xs" "x \<in> set xs" "y \<in> set xs" "cmp k x = 0" "cmp k y = 0"
  shows "x = y"
proof -
  obtain i j where "x = xs ! i" "y = xs ! j" "i < length xs" "j < length xs"
    using assms by (metis in_set_conv_nth)
  moreover have "cmp x y = 0" "cmp y x = 0"
    using assms(4,5) cmp_zero_cong cmp_zero_sym by blast+
  ultimately show ?thesis
    using assms(1) unfolding sorted_by_def sorted_wrt_iff_nth_less
    by (metis less_irrefl linorder_neqE_nat)
qed

lemma hit_iff: "sorted_by cmp xs \<Longrightarrow> hit (cmp k) xs \<longleftrightarrow> (\<exists>y \<in> set xs. cmp k y = 0)"
proof
  assume s: "sorted_by cmp xs"
  assume "\<exists>y \<in> set xs. cmp k y = 0"
  then obtain i where i: "i < length xs" "cmp k (xs ! i) = 0" by (metis in_set_conv_nth)
  then have "lower_pos (cmp k) xs = i"
    using sorted_cut [OF s, of k] by (intro lower_pos_eq) (auto simp: cut_by_def)
  with i show "hit (cmp k) xs" by (simp add: hit_def)
qed (auto simp: hit_def)

text \<open>Insertion at the found position, and replacement of an equal element, keep the order.\<close>

lemma sorted_insert:
  assumes "sorted_by cmp xs" "\<not> hit (cmp x) xs"
  defines "p \<equiv> lower_pos (cmp x) xs"
  shows "sorted_by cmp (take p xs @ x # drop p xs)"
proof -
  have before: "cmp y x < 0" if "y \<in> set (take p xs)" for y
    using that lower_pos_before [of _ "cmp x" xs] cmp_neg
    by (auto simp: p_def in_set_conv_nth)
  have after: "cmp x y < 0" if "y \<in> set (drop p xs)" for y
  proof -
    obtain j where j: "y = xs ! (p + j)" "p + j < length xs"
      using \<open>y \<in> set (drop p xs)\<close> by (auto simp: in_set_conv_nth)
    show ?thesis
    proof (cases j)
      case 0
      with j assms(2) lower_pos_at [of "cmp x" xs] show ?thesis
        unfolding hit_def p_def by fastforce
    next
      case (Suc j')
      with j lower_pos_after [OF sorted_cut [OF assms(1)]] show ?thesis unfolding p_def by auto
    qed
  qed
  have "sorted_by cmp (take p xs @ drop p xs)" using assms(1) by simp
  moreover have "cmp y z < 0" if "y \<in> set (take p xs)" "z \<in> set (drop p xs)" for y z
    using before [OF that(1)] after [OF that(2)] cmp_less_le_trans [of y x z] by simp
  ultimately show ?thesis
    using before after unfolding sorted_by_def by (simp add: sorted_wrt_append)
qed

lemma sorted_replace:
  assumes "sorted_by cmp xs" "p < length xs" "cmp (xs ! p) x = 0"
  shows "sorted_by cmp (xs[p := x])"
proof -
  have z: "cmp x (xs ! p) = 0" using assms(3) cmp_zero_sym by blast
  have lt: "cmp (xs ! i) (xs ! j) < 0" if "i < j" "j < length xs" for i j
    using assms(1) that unfolding sorted_by_def sorted_wrt_iff_nth_less by blast
  have "cmp (xs[p := x] ! i) (xs[p := x] ! j) < 0" if ij: "i < j" "j < length xs" for i j
  proof -
    consider "p = i" | "p = j" | "p \<noteq> i" "p \<noteq> j" by blast
    then show ?thesis
    proof cases
      case 1
      with cmp_le_less_trans [of x "xs ! i" "xs ! j"] z lt [OF ij] ij show ?thesis by simp
    next
      case 2
      with cmp_less_le_trans [of "xs ! i" "xs ! j" x] assms(3) lt [OF ij] ij show ?thesis by simp
    next
      case 3
      with lt [OF ij] show ?thesis by simp
    qed
  qed
  then show ?thesis unfolding sorted_by_def sorted_wrt_iff_nth_less by simp
qed

lemma sorted_remove: "sorted_by cmp xs \<Longrightarrow> sorted_by cmp (take i xs @ drop (Suc i) xs)"
proof -
  assume "sorted_by cmp xs"
  then have "sorted_by cmp (take i xs @ drop i xs)" by simp
  moreover have "set (drop (Suc i) xs) \<subseteq> set (drop i xs)"
    by (rule set_drop_subset_set_drop) simp
  moreover have "drop (Suc i) xs = drop 1 (drop i xs)" by simp
  ultimately show ?thesis
    unfolding sorted_by_def sorted_wrt_append by (metis in_mono sorted_wrt_drop)
qed

end

end
