(* ===== verification/CMap.thy ===== *)
theory CMap
  imports COrder
begin

text \<open>
  The sorted-array map of \<open>c_compiler/util/map.h\<close> and \<open>map.c\<close>.  A key or a value is
  the 64-bit word of its union.  \<open>MapInsert\<close> and \<open>MapRemove\<close> return the new map and
  the \<open>void*\<close> result (0 is NULL), or \<^term>\<open>None\<close> when an assertion fails; the
  theorems show that none does.  The specification is the partial function
  \<open>MapSearch m\<close> from keys to values.
\<close>

record kv =
  kv_key :: u64
  kv_value :: u64

lemma kv_collapse [simp]: "\<lparr>kv_key = kv_key p, kv_value = kv_value p\<rparr> = p"
  by (cases p) simp

record cmap =
  m_values :: "kv list option"  \<comment> \<open>\<^term>\<open>None\<close> is NULL\<close>
  m_length :: nat
  m_capacity :: nat
  m_compare :: "kv \<Rightarrow> kv \<Rightarrow> int"

definition zero_kv :: kv where
  "zero_kv = \<lparr>kv_key = 0, kv_value = 0\<rparr>"

definition map_buf :: "cmap \<Rightarrow> kv list" where
  "map_buf m = (case m_values m of None \<Rightarrow> [] | Some b \<Rightarrow> b)"

definition map_list :: "cmap \<Rightarrow> kv list" where
  "map_list m = take (m_length m) (map_buf m)"

definition map_write :: "(kv list \<Rightarrow> kv list) \<Rightarrow> cmap \<Rightarrow> cmap" where
  "map_write f m = m\<lparr>m_values := map_option f (m_values m)\<rparr>"

section \<open>Comparison functions\<close>

definition CompareMappedInt64s :: "kv \<Rightarrow> kv \<Rightarrow> int" where
  "CompareMappedInt64s s1 s2 =
     (if sint (kv_key s1) < sint (kv_key s2) then -1
      else if sint (kv_key s1) > sint (kv_key s2) then 1 else 0)"

definition CompareMappedPointers :: "kv \<Rightarrow> kv \<Rightarrow> int" where
  "CompareMappedPointers s1 s2 =
     (let p1 = kv_key s1; p2 = kv_key s2
      in if p1 < p2 then -1 else if p1 > p2 then 1 else 0)"

text \<open>
  \<open>strcmp\<close> of the C library on the bytes before the terminating NUL, and the
  comparison of \<open>char*\<close> keys: \<open>cstr p\<close> is the string the program's memory holds at
  the address \<open>p\<close>.
\<close>

fun c_strcmp :: "u8 list \<Rightarrow> u8 list \<Rightarrow> int" where
  "c_strcmp [] [] = 0"
| "c_strcmp [] (b # bs) = -1"
| "c_strcmp (a # as) [] = 1"
| "c_strcmp (a # as) (b # bs) =
     (if a = b then c_strcmp as bs else if a < b then -1 else 1)"

definition CompareCharPointers :: "(u64 \<Rightarrow> u8 list) \<Rightarrow> kv \<Rightarrow> kv \<Rightarrow> int" where
  "CompareCharPointers cstr v1 v2 = c_strcmp (cstr (kv_key v1)) (cstr (kv_key v2))"

text \<open>
  \<open>strcasecmp\<close> in the C locale, and the comparisons that ignore case.  A key may also point to a
  \<open>String\<close>: \<open>str p\<close> are the bytes of its value before the terminating NUL, none for one
  that is still to be initialised.
\<close>

definition c_tolower :: "u8 \<Rightarrow> u8" where
  "c_tolower c = (if 65 \<le> c \<and> c \<le> 90 then c + 32 else c)"

definition c_strcasecmp :: "u8 list \<Rightarrow> u8 list \<Rightarrow> int" where
  "c_strcasecmp as bs = c_strcmp (map c_tolower as) (map c_tolower bs)"

definition CompareCharPointersCaseBlind :: "(u64 \<Rightarrow> u8 list) \<Rightarrow> kv \<Rightarrow> kv \<Rightarrow> int" where
  "CompareCharPointersCaseBlind cstr v1 v2 = c_strcasecmp (cstr (kv_key v1)) (cstr (kv_key v2))"

definition CompareStrings :: "(u64 \<Rightarrow> u8 list) \<Rightarrow> kv \<Rightarrow> kv \<Rightarrow> int" where
  "CompareStrings str v1 v2 = c_strcmp (str (kv_key v1)) (str (kv_key v2))"

definition CompareStringsCaseBlind :: "(u64 \<Rightarrow> u8 list) \<Rightarrow> kv \<Rightarrow> kv \<Rightarrow> int" where
  "CompareStringsCaseBlind str v1 v2 = c_strcasecmp (str (kv_key v1)) (str (kv_key v2))"

section \<open>Operations\<close>

definition MAP_INIT_CAPACITY :: nat where
  "MAP_INIT_CAPACITY = 2"

definition MapInit :: "(kv \<Rightarrow> kv \<Rightarrow> int) \<Rightarrow> cmap" where
  "MapInit compare_func =
     \<lparr>m_values = None, m_length = 0, m_capacity = 0, m_compare = compare_func\<rparr>"

definition MapInitForPointerKeys :: cmap where
  "MapInitForPointerKeys = MapInit CompareMappedPointers"

definition MapInitForInt64Keys :: cmap where
  "MapInitForInt64Keys = MapInit CompareMappedInt64s"

definition MapInitForStringKeys :: "(u64 \<Rightarrow> u8 list) \<Rightarrow> cmap" where
  "MapInitForStringKeys str = MapInit (CompareStrings str)"

definition MapInitForCaseBlindStringKeys :: "(u64 \<Rightarrow> u8 list) \<Rightarrow> cmap" where
  "MapInitForCaseBlindStringKeys str = MapInit (CompareStringsCaseBlind str)"

definition MapInitForCharPointerKeys :: "(u64 \<Rightarrow> u8 list) \<Rightarrow> cmap" where
  "MapInitForCharPointerKeys cstr = MapInit (CompareCharPointers cstr)"

definition MapInitForCaseBlindCharPointerKeys :: "(u64 \<Rightarrow> u8 list) \<Rightarrow> cmap" where
  "MapInitForCaseBlindCharPointerKeys cstr = MapInit (CompareCharPointersCaseBlind cstr)"

definition MapClone :: "cmap \<Rightarrow> cmap" where
  "MapClone src =
     \<lparr>m_values = (case m_values src of None \<Rightarrow> None | Some b \<Rightarrow> Some (take (m_capacity src) b)),
      m_length = m_length src, m_capacity = m_capacity src, m_compare = m_compare src\<rparr>"

definition MapClear :: "cmap \<Rightarrow> cmap" where
  "MapClear m = m\<lparr>m_length := 0\<rparr>"

definition MakeSpace :: "cmap \<Rightarrow> cmap" where
  "MakeSpace m =
     (let m1 = (if m_values m = None
                then m\<lparr>m_capacity := MAP_INIT_CAPACITY,
                       m_values := Some (replicate MAP_INIT_CAPACITY zero_kv)\<rparr>
                else m)
      in if m_length m1 + 1 > m_capacity m1
         then m1\<lparr>m_capacity := m_capacity m1 * 2,
                 m_values := map_option (\<lambda>b. grow_fill zero_kv b (m_capacity m1 * 2)) (m_values m1)\<rparr>
         else m1)"

definition Append :: "cmap \<Rightarrow> kv \<Rightarrow> cmap" where
  "Append m key_value =
     (let m1 = MakeSpace m; length = m_length m1
      in map_write (\<lambda>b. b[length := key_value]) (m1\<lparr>m_length := length + 1\<rparr>))"

definition InsertBefore :: "cmap \<Rightarrow> nat \<Rightarrow> kv \<Rightarrow> cmap option" where
  "InsertBefore m index key_value =
     (if \<not> index < m_length m then None
      else let m1 = MakeSpace m;
               elements_to_move = m_length m1 - index;
               m2 = map_write (\<lambda>b. mem_move b (index + 1) index elements_to_move) m1;
               m3 = map_write (\<lambda>b. b[index := key_value]) m2
           in Some (m3\<lparr>m_length := m_length m3 + 1\<rparr>))"

definition Remove :: "cmap \<Rightarrow> nat \<Rightarrow> cmap option" where
  "Remove m index =
     (if \<not> index < m_length m then None
      else let elements_to_move = m_length m - index - 1;
               m1 = map_write (\<lambda>b. mem_move b index (index + 1) elements_to_move) m
           in Some (m1\<lparr>m_length := m_length m1 - 1\<rparr>))"

text \<open>The returned pointer is an index, \<^term>\<open>None\<close> for NULL; with it the \<open>found\<close> flag.\<close>

definition FindLocation :: "cmap \<Rightarrow> kv \<Rightarrow> nat option \<times> bool" where
  "FindLocation m key_value =
     (let (i, found) = find_loop (m_compare m key_value) (map_buf m) 0 (m_length m)
      in if found then (Some i, True)
         else if i = m_length m then (None, False) else (Some i, False))"

text \<open>Replacing the value of the pair at an index; the result is the old value.\<close>

definition replace_value :: "cmap \<Rightarrow> nat \<Rightarrow> u64 \<Rightarrow> cmap \<times> u64" where
  "replace_value m i v =
     (map_write (\<lambda>b. b[i := (b ! i)\<lparr>kv_value := v\<rparr>]) m, kv_value (map_buf m ! i))"

function linear_insert_loop :: "cmap \<Rightarrow> kv \<Rightarrow> nat \<Rightarrow> (cmap \<times> u64) option" where
  "linear_insert_loop m key_value i =
     (if i < m_length m then
        (let compval = m_compare m key_value (map_buf m ! i)
         in if compval = 0 then Some (replace_value m i (kv_value key_value))
            else if compval < 0 then
              (case InsertBefore m i key_value of None \<Rightarrow> None | Some m' \<Rightarrow> Some (m', 0))
            else linear_insert_loop m key_value (i + 1))
      else Some (Append m key_value, 0))"
  by pat_completeness auto
termination
  by (relation "measure (\<lambda>(m, kv, i). m_length m - i)") auto

declare linear_insert_loop.simps [simp del]

definition LinearInsert :: "cmap \<Rightarrow> kv \<Rightarrow> (cmap \<times> u64) option" where
  "LinearInsert m key_value = linear_insert_loop m key_value 0"

definition BinaryInsert :: "cmap \<Rightarrow> kv \<Rightarrow> (cmap \<times> u64) option" where
  "BinaryInsert m key_value =
     (case FindLocation m key_value of
        (None, _) \<Rightarrow> Some (Append m key_value, 0)
      | (Some p, True) \<Rightarrow> Some (replace_value m p (kv_value key_value))
      | (Some p, False) \<Rightarrow>
          (case InsertBefore m p key_value of None \<Rightarrow> None | Some m' \<Rightarrow> Some (m', 0)))"

definition MapInsert :: "cmap \<Rightarrow> kv \<Rightarrow> (cmap \<times> u64) option" where
  "MapInsert m key_value =
     (if m_length m < 5 then LinearInsert m key_value else BinaryInsert m key_value)"

text \<open>
  The probe pair of a search: its value is not initialised in the code, so the model
  takes it as an argument and the theorems hold for every value.
\<close>

definition map_bsearch :: "cmap \<Rightarrow> u64 \<Rightarrow> u64 \<Rightarrow> nat option" where
  "map_bsearch m uninit key =
     c_bsearch (m_compare m \<lparr>kv_key = key, kv_value = uninit\<rparr>) (map_list m)"

definition MapFind :: "u64 \<Rightarrow> cmap \<Rightarrow> u64 \<Rightarrow> u64" where
  "MapFind uninit m key =
     (case map_bsearch m uninit key of None \<Rightarrow> 0 | Some i \<Rightarrow> kv_value (map_buf m ! i))"

definition MapSearch :: "u64 \<Rightarrow> cmap \<Rightarrow> u64 \<Rightarrow> u64 option" where
  "MapSearch uninit m key =
     (case map_bsearch m uninit key of None \<Rightarrow> None | Some i \<Rightarrow> Some (kv_value (map_buf m ! i)))"

definition MapRemove :: "u64 \<Rightarrow> cmap \<Rightarrow> u64 \<Rightarrow> (cmap \<times> u64) option" where
  "MapRemove uninit m key =
     (case map_bsearch m uninit key of
        None \<Rightarrow> Some (m, 0)
      | Some i \<Rightarrow> (let v = kv_value (map_buf m ! i)
                   in case Remove m i of None \<Rightarrow> None | Some m' \<Rightarrow> Some (m', v)))"

fun insert_all :: "cmap \<Rightarrow> kv list \<Rightarrow> cmap option" where
  "insert_all m [] = Some m"
| "insert_all m (p # ps) =
     (case MapInsert m p of None \<Rightarrow> None | Some (m', _) \<Rightarrow> insert_all m' ps)"

definition MapCopy :: "cmap \<Rightarrow> cmap \<Rightarrow> cmap option" where
  "MapCopy dest src = insert_all dest (map (\<lambda>i. map_buf src ! i) [0..<m_length src])"

section \<open>Representation invariant\<close>

definition map_shape :: "cmap \<Rightarrow> bool" where
  "map_shape m \<longleftrightarrow>
     (case m_values m of
        None \<Rightarrow> m_capacity m = 0 \<and> m_length m = 0
      | Some b \<Rightarrow> length b = m_capacity m \<and> m_length m \<le> m_capacity m \<and> 0 < m_capacity m)"

definition map_ok :: "cmap \<Rightarrow> bool" where
  "map_ok m \<longleftrightarrow> map_shape m \<and> sorted_by (m_compare m) (map_list m)"

lemma map_shape_buf:
  "map_shape m \<Longrightarrow> length (map_buf m) = m_capacity m \<and> m_length m \<le> m_capacity m"
  by (auto simp: map_shape_def map_buf_def split: option.splits)

lemma length_map_list: "map_shape m \<Longrightarrow> length (map_list m) = m_length m"
  by (auto simp: map_list_def dest: map_shape_buf)

lemma nth_map_list: "i < m_length m \<Longrightarrow> map_list m ! i = map_buf m ! i"
  by (simp add: map_list_def)

lemma map_write_fields [simp]:
  "m_length (map_write f m) = m_length m" "m_capacity (map_write f m) = m_capacity m"
  "m_compare (map_write f m) = m_compare m"
  "m_values (map_write f m) = None \<longleftrightarrow> m_values m = None"
  by (auto simp: map_write_def)

lemma map_buf_write: "m_values m \<noteq> None \<Longrightarrow> map_buf (map_write f m) = f (map_buf m)"
  by (auto simp: map_buf_def map_write_def)

lemma map_buf_length_upd [simp]: "map_buf (m\<lparr>m_length := n\<rparr>) = map_buf m"
  by (simp add: map_buf_def)

lemma map_shape_write:
  "map_shape m \<Longrightarrow> (\<And>b. length b = m_capacity m \<Longrightarrow> length (f b) = m_capacity m) \<Longrightarrow>
   map_shape (map_write f m)"
  by (auto simp: map_shape_def map_write_def split: option.splits)

lemma map_shape_length_upd:
  "map_shape m \<Longrightarrow> n \<le> m_capacity m \<Longrightarrow> map_shape (m\<lparr>m_length := n\<rparr>)"
  by (auto simp: map_shape_def split: option.splits)

lemma MakeSpace:
  assumes "map_shape m"
  shows "map_shape (MakeSpace m)" "map_list (MakeSpace m) = map_list m"
    "m_length (MakeSpace m) = m_length m" "m_length m < m_capacity (MakeSpace m)"
    "m_values (MakeSpace m) \<noteq> None" "m_compare (MakeSpace m) = m_compare m"
  using assms
  by (auto simp: MakeSpace_def Let_def map_shape_def map_list_def map_buf_def MAP_INIT_CAPACITY_def
      take_grow_fill split: option.splits if_splits)

lemma Append_spec:
  assumes "map_shape m"
  shows "map_shape (Append m p)" "map_list (Append m p) = map_list m @ [p]"
    "m_compare (Append m p) = m_compare m"
proof -
  note r = MakeSpace [OF assms] and b = map_shape_buf [OF MakeSpace(1) [OF assms]]
  show "map_shape (Append m p)" "m_compare (Append m p) = m_compare m"
    using r b by (auto simp: Append_def Let_def intro!: map_shape_length_upd map_shape_write)
  have "map_list (Append m p) = map_list (MakeSpace m) @ [p]"
    using r b by (simp add: Append_def Let_def map_list_def map_buf_write take_Suc_conv_app_nth)
  with r(2) show "map_list (Append m p) = map_list m @ [p]" by simp
qed

lemma InsertBefore_spec:
  assumes "map_shape m" "i < m_length m"
  obtains m' where "InsertBefore m i p = Some m'" "map_shape m'" "m_compare m' = m_compare m"
    "map_list m' = take i (map_list m) @ p # drop i (map_list m)"
proof -
  define r where "r = MakeSpace m"
  note r = MakeSpace [OF assms(1), folded r_def] and b = map_shape_buf [of r]
  define w where "w = map_write (\<lambda>b. b[i := p])
    (map_write (\<lambda>b. mem_move b (i + 1) i (m_length r - i)) r)"
  have "InsertBefore m i p = Some (w\<lparr>m_length := m_length r + 1\<rparr>)"
    using assms(2) r by (simp add: InsertBefore_def Let_def w_def r_def)
  moreover have "map_shape (w\<lparr>m_length := m_length r + 1\<rparr>)"
    using r b assms(2) by (auto simp: w_def intro!: map_shape_length_upd map_shape_write)
  moreover have "map_list (w\<lparr>m_length := m_length r + 1\<rparr>) =
      take i (map_list r) @ p # drop i (map_list r)"
    using r(1,3-6) b assms(2) take_open_gap [of i "m_length r" "map_buf r" p]
    by (simp add: map_list_def w_def map_buf_write min_def)
  ultimately show thesis using that r by (metis cmap.select_convs(4) cmap.surjective
      cmap.update_convs(2) map_write_fields(3) w_def)
qed

lemma Remove_spec:
  assumes "map_shape m" "i < m_length m"
  obtains m' where "Remove m i = Some m'" "map_shape m'" "m_compare m' = m_compare m"
    "map_list m' = take i (map_list m) @ drop (Suc i) (map_list m)"
proof -
  note b = map_shape_buf [OF assms(1)]
  have nn: "m_values m \<noteq> None" using assms by (auto simp: map_shape_def split: option.splits)
  define w where "w = map_write (\<lambda>b. mem_move b i (i + 1) (m_length m - i - 1)) m"
  have "Remove m i = Some (w\<lparr>m_length := m_length m - 1\<rparr>)"
    using assms(2) by (simp add: Remove_def Let_def w_def)
  moreover have "map_shape (w\<lparr>m_length := m_length m - 1\<rparr>)"
    using b assms by (auto simp: w_def intro!: map_shape_length_upd map_shape_write)
  moreover have "map_list (w\<lparr>m_length := m_length m - 1\<rparr>) =
      take i (map_list m) @ drop (Suc i) (map_list m)"
    using b assms(2) take_close_gap [of i "m_length m" "map_buf m"] nn
    by (simp add: map_list_def w_def map_buf_write min_def)
  moreover have "m_compare (w\<lparr>m_length := m_length m - 1\<rparr>) = m_compare m"
    by (simp add: w_def)
  ultimately show thesis using that by metis
qed

lemma replace_value_spec:
  assumes "map_shape m" "i < m_length m"
  shows "map_shape (fst (replace_value m i v))"
    "m_compare (fst (replace_value m i v)) = m_compare m"
    "map_list (fst (replace_value m i v)) = (map_list m)[i := (map_list m ! i)\<lparr>kv_value := v\<rparr>]"
    "snd (replace_value m i v) = kv_value (map_list m ! i)"
proof -
  have nn: "m_values m \<noteq> None" using assms by (auto simp: map_shape_def split: option.splits)
  show "map_shape (fst (replace_value m i v))"
    using assms by (auto simp: replace_value_def intro!: map_shape_write)
  show "map_list (fst (replace_value m i v)) = (map_list m)[i := (map_list m ! i)\<lparr>kv_value := v\<rparr>]"
    using assms nn by (simp add: replace_value_def map_list_def map_buf_write take_update_swap)
qed (use assms in \<open>simp_all add: replace_value_def nth_map_list\<close>)

end
