(* ===== verification/CMapSpec.thy ===== *)
theory CMapSpec
  imports CMap
begin

text \<open>
  Correctness of the sorted-array map: linear and binary insertion are the same
  function, and insertion, removal and copying act on \<open>MapSearch\<close> as update, deletion
  and override of a finite map.  \<open>key_compare\<close> is what a comparison function owes the
  map, \<open>keyed_store\<close> what the map owes its clients; the interpretations at the end
  provide both for the program's own comparison functions.
\<close>

section \<open>Both insertions\<close>

definition insert_at :: "cmap \<Rightarrow> kv \<Rightarrow> (cmap \<times> u64) option" where
  "insert_at m p =
     (let f = m_compare m p; i = lower_pos f (map_list m)
      in if hit f (map_list m) then Some (replace_value m i (kv_value p))
         else if i = m_length m then Some (Append m p, 0)
         else (case InsertBefore m i p of None \<Rightarrow> None | Some m' \<Rightarrow> Some (m', 0)))"

lemma linear_insert_loop_spec:
  assumes "map_shape m" "cut_by (m_compare m p) (map_list m)" "i \<le> m_length m"
    "\<And>j. j < i \<Longrightarrow> 0 < m_compare m p (map_list m ! j)"
  shows "linear_insert_loop m p i = insert_at m p"
  using assms
proof (induction m p i rule: linear_insert_loop.induct)
  case (1 m p i)
  let ?f = "m_compare m p" and ?xs = "map_list m"
  note len = length_map_list [OF "1.prems"(1)]
  show ?case
  proof (cases "i < m_length m")
    case False
    then have "lower_pos ?f ?xs = m_length m"
      using "1.prems" len by (intro lower_pos_eq) auto
    with False len show ?thesis
      by (simp add: linear_insert_loop.simps [of m p i] insert_at_def Let_def hit_def)
  next
    case True
    have nth: "map_buf m ! i = ?xs ! i" using True by (simp add: nth_map_list)
    show ?thesis
    proof (cases "0 < ?f (?xs ! i)")
      case pos: True
      have "linear_insert_loop m p (i + 1) = insert_at m p"
        using "1.prems" True pos nth
        by (intro "1.IH" [OF True refl]) (auto simp: less_Suc_eq)
      with True pos nth show ?thesis
        by (simp add: linear_insert_loop.simps [of m p i] Let_def)
    next
      case False
      then have "lower_pos ?f ?xs = i"
        using "1.prems" len True by (intro lower_pos_eq) auto
      with True False nth len show ?thesis
        by (auto simp: linear_insert_loop.simps [of m p i] insert_at_def Let_def hit_def)
    qed
  qed
qed

lemma LinearInsert_eq:
  "map_shape m \<Longrightarrow> cut_by (m_compare m p) (map_list m) \<Longrightarrow> LinearInsert m p = insert_at m p"
  unfolding LinearInsert_def by (rule linear_insert_loop_spec) auto

lemma FindLocation_spec:
  assumes "map_shape m" "cut_by (m_compare m p) (map_list m)"
  defines "i \<equiv> lower_pos (m_compare m p) (map_list m)"
  shows "FindLocation m p =
    (if hit (m_compare m p) (map_list m) then (Some i, True)
     else if i = m_length m then (None, False) else (Some i, False))"
proof -
  have "find_loop (m_compare m p) (map_buf m) 0 (m_length m) =
        find_loop (m_compare m p) (map_list m) 0 (m_length m)"
    unfolding map_list_def using map_shape_buf [OF assms(1)]
    by (intro find_loop_take [symmetric]) auto
  with find_loop_spec [OF assms(2)] length_map_list [OF assms(1)] show ?thesis
    by (simp add: FindLocation_def i_def)
qed

lemma BinaryInsert_eq:
  "map_shape m \<Longrightarrow> cut_by (m_compare m p) (map_list m) \<Longrightarrow> BinaryInsert m p = insert_at m p"
  by (simp add: BinaryInsert_def FindLocation_spec insert_at_def Let_def)

lemma MapInsert_eq:
  "map_shape m \<Longrightarrow> cut_by (m_compare m p) (map_list m) \<Longrightarrow> MapInsert m p = insert_at m p"
  by (simp add: MapInsert_def LinearInsert_eq BinaryInsert_eq)

section \<open>What a comparison function owes the map\<close>

locale key_compare = c_compare cmp for cmp :: "kv \<Rightarrow> kv \<Rightarrow> int" +
  assumes cmp_key: "kv_key a = kv_key a' \<Longrightarrow> kv_key b = kv_key b' \<Longrightarrow> cmp a b = cmp a' b'"
begin

lemma map_ok_cut: "map_ok m \<Longrightarrow> m_compare m = cmp \<Longrightarrow> cut_by (m_compare m p) (map_list m)"
  unfolding map_ok_def using sorted_cut by auto

text \<open>The pairs of the map with a key equal to the searched one.\<close>

lemma MapSearch_iff:
  assumes "map_ok m" "m_compare m = cmp"
  shows "MapSearch u m k = Some v \<longleftrightarrow>
    (\<exists>y \<in> set (map_list m). cmp \<lparr>kv_key = k, kv_value = u\<rparr> y = 0 \<and> kv_value y = v)"
proof -
  let ?p = "\<lparr>kv_key = k, kv_value = u\<rparr>" and ?xs = "map_list m"
  have s: "sorted_by cmp ?xs" and sh: "map_shape m" using assms by (auto simp: map_ok_def)
  have b: "map_bsearch m u k = (if hit (cmp ?p) ?xs then Some (lower_pos (cmp ?p) ?xs) else None)"
    using c_bsearch_spec [OF sorted_cut [OF s]] assms(2) by (simp add: map_bsearch_def)
  show ?thesis
  proof (cases "hit (cmp ?p) ?xs")
    case True
    then have l: "lower_pos (cmp ?p) ?xs < m_length m" "cmp ?p (?xs ! lower_pos (cmp ?p) ?xs) = 0"
      using length_map_list [OF sh] by (auto simp: hit_def)
    then have "?xs ! lower_pos (cmp ?p) ?xs \<in> set ?xs"
      using length_map_list [OF sh] by simp
    with l b True sorted_unique [OF s] show ?thesis
      unfolding MapSearch_def by (auto simp: nth_map_list [symmetric])
  next
    case False
    with b hit_iff [OF s] show ?thesis by (auto simp: MapSearch_def)
  qed
qed

lemma MapSearch_None:
  assumes "map_ok m" "m_compare m = cmp"
  shows "MapSearch u m k = None \<longleftrightarrow> (\<forall>y \<in> set (map_list m). cmp \<lparr>kv_key = k, kv_value = u\<rparr> y \<noteq> 0)"
  using MapSearch_iff [OF assms, of u k] by (metis not_None_eq option.inject)

lemma MapSearch_uninit:
  assumes "map_ok m" "m_compare m = cmp"
  shows "MapSearch u m k = MapSearch u' m k"
proof -
  have "cmp \<lparr>kv_key = k, kv_value = u\<rparr> y = cmp \<lparr>kv_key = k, kv_value = u'\<rparr> y" for y
    by (rule cmp_key) simp_all
  then have "MapSearch u m k = Some v \<longleftrightarrow> MapSearch u' m k = Some v" for v
    using MapSearch_iff [OF assms] by simp
  then show ?thesis by (metis not_None_eq)
qed

lemma MapFind_MapSearch:
  "MapFind u m k = (case MapSearch u m k of None \<Rightarrow> 0 | Some v \<Rightarrow> v)"
  by (simp add: MapFind_def MapSearch_def split: option.splits)

lemma MapInsert_effect:
  assumes "map_ok m" "m_compare m = cmp"
  obtains m' old where "MapInsert m p = Some (m', old)" "map_ok m'" "m_compare m' = cmp"
    "old = (case MapSearch u m (kv_key p) of None \<Rightarrow> 0 | Some v \<Rightarrow> v)"
    "\<And>k. MapSearch u m' k = (if cmp \<lparr>kv_key = k, kv_value = u\<rparr> p = 0 then Some (kv_value p)
                             else MapSearch u m k)"
proof -
  let ?xs = "map_list m" and ?i = "lower_pos (cmp p) (map_list m)"
  have s: "sorted_by cmp ?xs" and sh: "map_shape m" using assms by (auto simp: map_ok_def)
  note len = length_map_list [OF sh] and srch = MapSearch_iff [OF assms]
  have ins: "MapInsert m p = insert_at m p"
    using MapInsert_eq [OF sh map_ok_cut [OF assms]] .
  have eqp: "cmp \<lparr>kv_key = kv_key p, kv_value = u\<rparr> y = cmp p y" for y
    by (rule cmp_key) simp_all
  show thesis
  proof (cases "hit (cmp p) ?xs")
    case True
    define m' where "m' = fst (replace_value m ?i (kv_value p))"
    define q where "q = (?xs ! ?i)\<lparr>kv_value := kv_value p\<rparr>"
    have i: "?i < m_length m" "cmp p (?xs ! ?i) = 0" using True len by (auto simp: hit_def)
    note r = replace_value_spec [OF sh i(1), of "kv_value p", folded m'_def]
    have q: "cmp x q = cmp x (?xs ! ?i)" for x by (rule cmp_key) (simp_all add: q_def)
    have ok: "map_ok m'" "m_compare m' = cmp"
      using r assms(2) sorted_replace [OF s, of ?i q] i len q [of "?xs ! ?i"]
      by (auto simp: map_ok_def q_def)
    have st: "set (map_list m') = insert q (set ?xs - {?xs ! ?i})"
      using r(3) i len sorted_distinct [OF s] by (simp add: set_update_distinct q_def)
    have uniq: "y = ?xs ! ?i" if "y \<in> set ?xs" "cmp x y = 0" "cmp x (?xs ! ?i) = 0" for x y
      using sorted_unique [OF s] that i len by simp
    have zero: "cmp x p = 0 \<longleftrightarrow> cmp x (?xs ! ?i) = 0" for x
      using i(2) cmp_zero_cong cmp_zero_sym by blast
    have "MapSearch u m' k = Some v \<longleftrightarrow>
        (if cmp \<lparr>kv_key = k, kv_value = u\<rparr> p = 0 then Some (kv_value p) else MapSearch u m k) = Some v" for k v
      unfolding MapSearch_iff [OF ok] st using uniq zero q srch
      by (auto simp: q_def)
    then have "MapSearch u m' k =
        (if cmp \<lparr>kv_key = k, kv_value = u\<rparr> p = 0 then Some (kv_value p) else MapSearch u m k)" for k
      by (metis (no_types, lifting) not_None_eq)
    moreover have "MapSearch u m (kv_key p) = Some (kv_value (?xs ! ?i))"
      using srch i len eqp by (metis nth_mem)
    moreover have "MapInsert m p = Some (m', kv_value (?xs ! ?i))"
      using ins True r(4) assms(2) by (simp add: insert_at_def Let_def m'_def prod_eq_iff)
    ultimately show thesis using that ok by auto
  next
    case False
    obtain m' where m': "MapInsert m p = Some (m', 0)" "map_shape m'" "m_compare m' = cmp"
      "map_list m' = take ?i ?xs @ p # drop ?i ?xs"
    proof (cases "?i = m_length m")
      case True
      with False ins assms(2) len Append_spec [OF sh, of p] show ?thesis
        by (intro that [of "Append m p"]) (auto simp: insert_at_def Let_def)
    next
      case ne: False
      then have "?i < m_length m" using len lower_pos_le [of "cmp p" ?xs] by simp
      then obtain m' where "InsertBefore m ?i p = Some m'" "map_shape m'"
        "m_compare m' = m_compare m" "map_list m' = take ?i ?xs @ p # drop ?i ?xs"
        by (rule InsertBefore_spec [OF sh])
      with ne False ins assms(2) show ?thesis
        by (intro that [of m']) (auto simp: insert_at_def Let_def)
    qed
    have ok: "map_ok m'" using m' sorted_insert [OF s False] by (simp add: map_ok_def)
    have st: "set (map_list m') = insert p (set ?xs)"
      using m'(4) by simp (metis append_take_drop_id set_append)
    have no: "cmp x y \<noteq> 0" if "cmp x p = 0" "y \<in> set ?xs" for x y
      using False hit_iff [OF s, of p] that cmp_zero_cong by blast
    have "MapSearch u m' k = Some v \<longleftrightarrow>
        (if cmp \<lparr>kv_key = k, kv_value = u\<rparr> p = 0 then Some (kv_value p) else MapSearch u m k) = Some v" for k v
      unfolding MapSearch_iff [OF ok m'(3)] st using no srch by auto
    then have "MapSearch u m' k =
        (if cmp \<lparr>kv_key = k, kv_value = u\<rparr> p = 0 then Some (kv_value p) else MapSearch u m k)" for k
      by (metis (no_types, lifting) not_None_eq)
    moreover have "MapSearch u m (kv_key p) = None"
      using MapSearch_None [OF assms] False hit_iff [OF s] eqp by auto
    ultimately show thesis using that m' ok by auto
  qed
qed

lemma MapRemove_effect:
  assumes "map_ok m" "m_compare m = cmp"
  obtains m' where "MapRemove u m k = Some (m', MapFind u m k)" "map_ok m'" "m_compare m' = cmp"
    "\<And>k'. MapSearch u m' k' =
       (if cmp \<lparr>kv_key = k', kv_value = u\<rparr> \<lparr>kv_key = k, kv_value = u\<rparr> = 0 then None
        else MapSearch u m k')"
proof -
  let ?p = "\<lparr>kv_key = k, kv_value = u\<rparr>" and ?xs = "map_list m"
  let ?i = "lower_pos (cmp ?p) ?xs"
  have s: "sorted_by cmp ?xs" and sh: "map_shape m" using assms by (auto simp: map_ok_def)
  note len = length_map_list [OF sh] and srch = MapSearch_iff [OF assms]
  have b: "map_bsearch m u k = (if hit (cmp ?p) ?xs then Some ?i else None)"
    using c_bsearch_spec [OF sorted_cut [OF s]] assms(2) by (simp add: map_bsearch_def)
  show thesis
  proof (cases "hit (cmp ?p) ?xs")
    case False
    have "MapSearch u m k' = None" if "cmp \<lparr>kv_key = k', kv_value = u\<rparr> ?p = 0" for k'
      using False hit_iff [OF s] that cmp_zero_cong MapSearch_None [OF assms] by blast
    with False b assms show thesis
      by (intro that [of m]) (auto simp: MapRemove_def MapFind_def)
  next
    case True
    then have i: "?i < m_length m" "cmp ?p (?xs ! ?i) = 0" using len by (auto simp: hit_def)
    obtain m' where m': "Remove m ?i = Some m'" "map_shape m'" "m_compare m' = cmp"
      "map_list m' = take ?i ?xs @ drop (Suc ?i) ?xs"
      using Remove_spec [OF sh i(1)] assms(2) by metis
    have ok: "map_ok m'" using m' sorted_remove [OF s] by (simp add: map_ok_def)
    have st: "set (map_list m') = set ?xs - {?xs ! ?i}"
      unfolding m'(4) using sorted_distinct [OF s] i len by (intro set_delete_nth) simp_all
    have uniq: "y = ?xs ! ?i" if "y \<in> set ?xs" "cmp x y = 0" "cmp x (?xs ! ?i) = 0" for x y
      using sorted_unique [OF s] that i len by simp
    have zero: "cmp x ?p = 0 \<longleftrightarrow> cmp x (?xs ! ?i) = 0" for x
      using i(2) cmp_zero_cong cmp_zero_sym by blast
    have "MapSearch u m' k' = Some v \<longleftrightarrow>
        (if cmp \<lparr>kv_key = k', kv_value = u\<rparr> ?p = 0 then None else MapSearch u m k') = Some v" for k' v
      unfolding MapSearch_iff [OF ok m'(3)] st using uniq zero srch by auto
    then have "MapSearch u m' k' =
        (if cmp \<lparr>kv_key = k', kv_value = u\<rparr> ?p = 0 then None else MapSearch u m k')" for k'
      by (metis (no_types, lifting) not_None_eq)
    with m' ok True b show thesis
      by (intro that [of m']) (auto simp: MapRemove_def MapFind_def Let_def)
  qed
qed

end

section \<open>What the map owes its clients\<close>

locale keyed_store =
  fixes invar :: "'m \<Rightarrow> bool"
    and lookup :: "'m \<Rightarrow> 'k \<Rightarrow> 'v option"
    and insert :: "'m \<Rightarrow> 'k \<times> 'v \<Rightarrow> 'm option"
    and same :: "'k \<Rightarrow> 'k \<Rightarrow> bool"
  assumes insert_effect: "invar m \<Longrightarrow>
    \<exists>m'. insert m (k, v) = Some m' \<and> invar m' \<and>
         (\<forall>x. lookup m' x = (if same x k then Some v else lookup m x))"
begin

text \<open>A sequence of insertions: the last one that concerns a key wins.\<close>

lemma insert_list_effect:
  assumes "invar m"
  shows "\<exists>m'. foldl (\<lambda>r p. case r of None \<Rightarrow> None | Some m \<Rightarrow> insert m p) (Some m) ps = Some m' \<and>
    invar m' \<and>
    (\<forall>x. lookup m' x = (case find (\<lambda>p. same x (fst p)) (rev ps) of
                            None \<Rightarrow> lookup m x | Some p \<Rightarrow> Some (snd p)))"
proof (induction ps rule: rev_induct)
  case Nil
  with assms show ?case by simp
next
  case (snoc p ps)
  then obtain m1 where m1:
    "foldl (\<lambda>r p. case r of None \<Rightarrow> None | Some m \<Rightarrow> insert m p) (Some m) ps = Some m1"
    "invar m1" "\<And>x. lookup m1 x = (case find (\<lambda>p. same x (fst p)) (rev ps) of
                            None \<Rightarrow> lookup m x | Some p \<Rightarrow> Some (snd p))"
    by blast
  obtain m2 where "insert m1 p = Some m2" "invar m2"
    "\<And>x. lookup m2 x = (if same x (fst p) then Some (snd p) else lookup m1 x)"
    using insert_effect [OF m1(2), of "fst p" "snd p"] by auto
  with m1 show ?case by simp
qed

end

text \<open>Every comparison function that keeps its contract turns the sorted array into such a store.\<close>

definition map_insert_pair :: "cmap \<Rightarrow> u64 \<times> u64 \<Rightarrow> cmap option" where
  "map_insert_pair m p =
     map_option fst (MapInsert m \<lparr>kv_key = fst p, kv_value = snd p\<rparr>)"

sublocale key_compare \<subseteq> store: keyed_store
  "\<lambda>m. map_ok m \<and> m_compare m = cmp" "MapSearch 0" map_insert_pair
  "\<lambda>x k. cmp \<lparr>kv_key = x, kv_value = 0\<rparr> \<lparr>kv_key = k, kv_value = 0\<rparr> = 0"
proof
  fix m k v
  assume m: "map_ok m \<and> m_compare m = cmp"
  let ?p = "\<lparr>kv_key = k, kv_value = v\<rparr>"
  obtain m' old where m': "MapInsert m ?p = Some (m', old)" "map_ok m'" "m_compare m' = cmp"
    "\<And>x. MapSearch 0 m' x = (if cmp \<lparr>kv_key = x, kv_value = 0\<rparr> ?p = 0 then Some v else MapSearch 0 m x)"
    by (rule MapInsert_effect [of m ?p 0]) (use m in simp_all)
  moreover have "cmp y ?p = cmp y \<lparr>kv_key = k, kv_value = 0\<rparr>" for y by (rule cmp_key) simp_all
  ultimately show "\<exists>m'. map_insert_pair m (k, v) = Some m' \<and> (map_ok m' \<and> m_compare m' = cmp) \<and>
    (\<forall>x. MapSearch 0 m' x =
      (if cmp \<lparr>kv_key = x, kv_value = 0\<rparr> \<lparr>kv_key = k, kv_value = 0\<rparr> = 0 then Some v else MapSearch 0 m x))"
    by (simp add: map_insert_pair_def)
qed

definition kv_pair :: "kv \<Rightarrow> u64 \<times> u64" where
  "kv_pair p = (kv_key p, kv_value p)"

lemma foldl_insert_None: "foldl (\<lambda>r p. case r of None \<Rightarrow> None | Some m \<Rightarrow> f m p) None ps = None"
  by (induction ps) auto

lemma insert_all_foldl:
  "insert_all m ps =
   foldl (\<lambda>r p. case r of None \<Rightarrow> None | Some m \<Rightarrow> map_insert_pair m p) (Some m) (map kv_pair ps)"
proof (induction m ps rule: insert_all.induct)
  case (2 m p ps)
  then show ?case
    by (cases "MapInsert m p")
      (auto simp: map_insert_pair_def kv_pair_def foldl_insert_None [where f = map_insert_pair])
qed simp

context key_compare
begin

lemma MapCopy_effect:
  assumes "map_ok d" "m_compare d = cmp" "map_ok s" "m_compare s = cmp"
  obtains m' where "MapCopy d s = Some m'" "map_ok m'" "m_compare m' = cmp"
    "\<And>k. MapSearch 0 m' k =
       (case MapSearch 0 s k of None \<Rightarrow> MapSearch 0 d k | Some v \<Rightarrow> Some v)"
proof -
  have sh: "map_shape s" using assms by (simp add: map_ok_def)
  have lst: "map (\<lambda>i. map_buf s ! i) [0..<m_length s] = map_list s"
    using length_map_list [OF sh] by (intro nth_equalityI) (auto simp: nth_map_list)
  obtain m' where m': "MapCopy d s = Some m'" "map_ok m'" "m_compare m' = cmp"
    "\<And>x. MapSearch 0 m' x =
      (case find (\<lambda>p. cmp \<lparr>kv_key = x, kv_value = 0\<rparr> \<lparr>kv_key = fst p, kv_value = 0\<rparr> = 0)
                 (rev (map kv_pair (map_list s))) of
         None \<Rightarrow> MapSearch 0 d x | Some p \<Rightarrow> Some (snd p))"
    using store.insert_list_effect [of d "map kv_pair (map_list s)"] assms
    by (auto simp: MapCopy_def insert_all_foldl lst)
  have eq: "cmp y \<lparr>kv_key = kv_key p, kv_value = 0\<rparr> = cmp y p" for y p
    by (rule cmp_key) simp_all
  have srch: "(case find (\<lambda>p. cmp \<lparr>kv_key = x, kv_value = 0\<rparr> \<lparr>kv_key = fst p, kv_value = 0\<rparr> = 0)
                 (rev (map kv_pair (map_list s))) of None \<Rightarrow> None | Some p \<Rightarrow> Some (snd p))
        = MapSearch 0 s x" (is "(case ?F of None \<Rightarrow> _ | Some _ \<Rightarrow> _) = _") for x
  proof (cases ?F)
    case None
    then have "\<forall>y \<in> set (map_list s). cmp \<lparr>kv_key = x, kv_value = 0\<rparr> y \<noteq> 0"
      by (auto simp: find_None_iff kv_pair_def eq)
    with MapSearch_None [OF assms(3,4), of 0 x] None show ?thesis by simp
  next
    case (Some p)
    then have "p \<in> set (rev (map kv_pair (map_list s)))"
      "cmp \<lparr>kv_key = x, kv_value = 0\<rparr> \<lparr>kv_key = fst p, kv_value = 0\<rparr> = 0"
      unfolding find_Some_iff by (metis nth_mem)+
    then obtain y where "y \<in> set (map_list s)" "p = kv_pair y" "cmp \<lparr>kv_key = x, kv_value = 0\<rparr> y = 0"
      by (auto simp: kv_pair_def eq)
    with MapSearch_iff [OF assms(3,4), of 0 x "kv_value y"] Some show ?thesis
      by (auto simp: kv_pair_def)
  qed
  show thesis
  proof (rule that [of m'])
    fix k
    show "MapSearch 0 m' k = (case MapSearch 0 s k of None \<Rightarrow> MapSearch 0 d k | Some v \<Rightarrow> Some v)"
      unfolding m'(4) srch [of k, symmetric] by (simp split: option.split)
  qed (rule m')+
qed

end

section \<open>The program's comparison functions keep the contract\<close>

interpretation int64_keys: key_compare CompareMappedInt64s
  by unfold_locales (auto simp: CompareMappedInt64s_def split: if_splits)

interpretation pointer_keys: key_compare CompareMappedPointers
  by unfold_locales (auto simp: CompareMappedPointers_def Let_def split: if_splits)

lemma c_strcmp_neg: "c_strcmp as bs < 0 \<longleftrightarrow> 0 < c_strcmp bs as"
  by (induction as bs rule: c_strcmp.induct) auto

lemma c_strcmp_le_trans: "c_strcmp as bs \<le> 0 \<Longrightarrow> c_strcmp bs cs \<le> 0 \<Longrightarrow> c_strcmp as cs \<le> 0"
proof (induction as bs arbitrary: cs rule: c_strcmp.induct)
  case (4 a as b bs)
  then show ?case by (cases cs) (auto split: if_splits)
next
  case (1)
  then show ?case by simp
next
  case (2 b bs)
  then show ?case by (cases cs) (auto split: if_splits)
next
  case (3 a as)
  then show ?case by simp
qed

lemma c_strcmp_zero: "c_strcmp as bs = 0 \<longleftrightarrow> as = bs"
  by (induction as bs rule: c_strcmp.induct) auto

lemma strcmp_key_compare:
  assumes "\<And>a b. cmp a b = c_strcmp (f (kv_key a)) (f (kv_key b))"
  shows "key_compare cmp"
  by unfold_locales (simp_all add: assms c_strcmp_neg, blast intro: c_strcmp_le_trans)

interpretation char_pointer_keys: key_compare "CompareCharPointers cstr" for cstr
  by (rule strcmp_key_compare [where f = cstr]) (simp add: CompareCharPointers_def)

interpretation case_blind_char_pointer_keys: key_compare "CompareCharPointersCaseBlind cstr" for cstr
  by (rule strcmp_key_compare [where f = "\<lambda>p. map c_tolower (cstr p)"])
    (simp add: CompareCharPointersCaseBlind_def c_strcasecmp_def)

interpretation string_keys: key_compare "CompareStrings str" for str
  by (rule strcmp_key_compare [where f = str]) (simp add: CompareStrings_def)

interpretation case_blind_string_keys: key_compare "CompareStringsCaseBlind str" for str
  by (rule strcmp_key_compare [where f = "\<lambda>p. map c_tolower (str p)"])
    (simp add: CompareStringsCaseBlind_def c_strcasecmp_def)

lemma int64_same: "CompareMappedInt64s a b = 0 \<longleftrightarrow> kv_key a = kv_key b"
  by (auto simp: CompareMappedInt64s_def intro: signed_word_eqI split: if_splits)

lemma pointer_same: "CompareMappedPointers a b = 0 \<longleftrightarrow> kv_key a = kv_key b"
  by (auto simp: CompareMappedPointers_def Let_def split: if_splits)

text \<open>
  The six comparison functions of \<open>map.c\<close>; \<open>cstr\<close> are the strings at the addresses of the keys,
  as character arrays or in \<open>String\<close>s.
\<close>

definition program_compare :: "(u64 \<Rightarrow> u8 list) \<Rightarrow> (kv \<Rightarrow> kv \<Rightarrow> int) \<Rightarrow> bool" where
  "program_compare cstr cmp \<longleftrightarrow> cmp \<in> {CompareMappedInt64s, CompareMappedPointers, CompareCharPointers cstr,
     CompareCharPointersCaseBlind cstr, CompareStrings cstr, CompareStringsCaseBlind cstr}"

lemma program_compare_contract: "program_compare cstr cmp \<Longrightarrow> key_compare cmp"
  unfolding program_compare_def
  using int64_keys.key_compare_axioms pointer_keys.key_compare_axioms
    char_pointer_keys.key_compare_axioms case_blind_char_pointer_keys.key_compare_axioms
    string_keys.key_compare_axioms case_blind_string_keys.key_compare_axioms by blast

end
