(* ===== verification/CVector.thy ===== *)
theory CVector
  imports CPrelude
begin

text \<open>
  The dynamic array of \<open>c_compiler/util/vector.h\<close> and \<open>vector.c\<close>, the container every
  other container and every pass of the compiler is built on.  An element is the
  64-bit word a pointer or an \<open>int64_t\<close> occupies.  \<open>vec_ok\<close> is the representation
  invariant, \<open>vec_list\<close> the sequence a vector stands for; each operation keeps the
  first and is a list operation on the second.
\<close>

record cvec =
  vc_value :: "u64 list option"  \<comment> \<open>\<open>value.p\<close>; \<^term>\<open>None\<close> is NULL\<close>
  vc_length :: nat
  vc_capacity :: nat

definition vec_ok :: "cvec \<Rightarrow> bool" where
  "vec_ok v \<longleftrightarrow>
     (case vc_value v of
        None \<Rightarrow> vc_capacity v = 0 \<and> vc_length v = 0
      | Some b \<Rightarrow> length b = vc_capacity v \<and> vc_length v \<le> vc_capacity v)"

definition vec_buf :: "cvec \<Rightarrow> u64 list" where
  "vec_buf v = (case vc_value v of None \<Rightarrow> [] | Some b \<Rightarrow> b)"

definition vec_list :: "cvec \<Rightarrow> u64 list" where
  "vec_list v = take (vc_length v) (vec_buf v)"

text \<open>A store through \<open>value.p\<close>.\<close>

definition vec_write :: "(u64 list \<Rightarrow> u64 list) \<Rightarrow> cvec \<Rightarrow> cvec" where
  "vec_write f v = v\<lparr>vc_value := map_option f (vc_value v)\<rparr>"

section \<open>Operations\<close>

definition INIT_CAPACITY :: nat where
  "INIT_CAPACITY = 2"

definition VectorInit :: cvec where
  "VectorInit = \<lparr>vc_value = None, vc_length = 0, vc_capacity = 0\<rparr>"

definition VectorDestruct :: "cvec \<Rightarrow> cvec" where
  "VectorDestruct v = v\<lparr>vc_length := 0, vc_capacity := 0, vc_value := None\<rparr>"

text \<open>Its assertion \<open>length == capacity\<close> is the guard of each of its call sites.\<close>

definition VectorGrowForAppend :: "cvec \<Rightarrow> cvec" where
  "VectorGrowForAppend v =
     (let old_capacity = vc_capacity v;
          capacity = (if old_capacity = 0 then INIT_CAPACITY else old_capacity * 2)
      in v\<lparr>vc_capacity := capacity,
           vc_value := Some (case vc_value v of
                               None \<Rightarrow> replicate capacity 0
                             | Some b \<Rightarrow> grow_fill 0 b capacity)\<rparr>)"

definition VectorReserve :: "cvec \<Rightarrow> nat \<Rightarrow> cvec" where
  "VectorReserve v n =
     (let v1 = (if vc_value v = None
                then v\<lparr>vc_capacity := n, vc_value := Some (replicate n 0)\<rparr> else v)
      in if n \<le> vc_capacity v1 then v1
         else v1\<lparr>vc_capacity := n,
                 vc_value := map_option (\<lambda>b. grow_fill 0 b n) (vc_value v1)\<rparr>)"

definition VectorClear :: "cvec \<Rightarrow> cvec" where
  "VectorClear v = v\<lparr>vc_length := 0\<rparr>"

definition VectorAppend :: "cvec \<Rightarrow> u64 \<Rightarrow> cvec" where
  "VectorAppend v x =
     (let v1 = (if vc_length v = vc_capacity v then VectorGrowForAppend v else v)
      in (vec_write (\<lambda>b. b[vc_length v1 := x]) v1)\<lparr>vc_length := vc_length v1 + 1\<rparr>)"

definition VectorSet :: "cvec \<Rightarrow> nat \<Rightarrow> u64 \<Rightarrow> cvec" where
  "VectorSet v index x = vec_write (\<lambda>b. b[index := x]) v"

text \<open>The access functions do not check the index: the caller keeps it below the length.\<close>

definition VectorGet :: "cvec \<Rightarrow> nat \<Rightarrow> u64" where
  "VectorGet v index = vec_buf v ! index"

definition VectorFirst :: "cvec \<Rightarrow> u64" where
  "VectorFirst v = (if vc_length v = 0 then 0 else vec_buf v ! 0)"

definition VectorLast :: "cvec \<Rightarrow> u64" where
  "VectorLast v = (if vc_length v = 0 then 0 else vec_buf v ! (vc_length v - 1))"

definition VectorPop :: "cvec \<Rightarrow> cvec" where
  "VectorPop v = (if vc_length v > 0 then v\<lparr>vc_length := vc_length v - 1\<rparr> else v)"

definition VectorCopy :: "cvec \<Rightarrow> cvec \<Rightarrow> cvec" where
  "VectorCopy dest src =
     (let d0 = VectorClear dest
      in if vc_length src = 0 then d0
         else let d1 = VectorReserve d0 (vc_length src);
                  d2 = vec_write (\<lambda>b. take (vc_length src) (vec_buf src)
                                     @ drop (vc_length src) b) d1
              in d2\<lparr>vc_length := vc_length src\<rparr>)"

definition VectorAppendVector :: "cvec \<Rightarrow> cvec \<Rightarrow> cvec" where
  "VectorAppendVector dest src =
     foldl (\<lambda>d i. VectorAppend d (VectorGet src i)) dest [0..<vc_length src]"

definition VectorEqual :: "cvec \<Rightarrow> cvec \<Rightarrow> bool" where
  "VectorEqual a b \<longleftrightarrow>
     (if vc_length a \<noteq> vc_length b then False
      else list_all (\<lambda>i. VectorGet a i = VectorGet b i) [0..<vc_length a])"

definition VectorInsertBefore :: "cvec \<Rightarrow> nat \<Rightarrow> u64 \<Rightarrow> cvec option" where
  "VectorInsertBefore v index x =
     (if \<not> index < vc_length v then None
      else let v1 = (if vc_length v = vc_capacity v then VectorGrowForAppend v else v);
               elements_to_move = vc_length v1 - index;
               v2 = vec_write (\<lambda>b. mem_move b (index + 1) index elements_to_move) v1;
               v3 = vec_write (\<lambda>b. b[index := x]) v2
           in Some (v3\<lparr>vc_length := vc_length v3 + 1\<rparr>))"

definition VectorInsertAfter :: "cvec \<Rightarrow> nat \<Rightarrow> u64 \<Rightarrow> cvec option" where
  "VectorInsertAfter v index x =
     (if \<not> index < vc_length v then None
      else if index = vc_length v - 1 then Some (VectorAppend v x)
      else let v1 = (if vc_length v = vc_capacity v then VectorGrowForAppend v else v);
               elements_to_move = vc_length v1 - index - 1;
               v2 = vec_write (\<lambda>b. mem_move b (index + 2) (index + 1) elements_to_move) v1;
               v3 = vec_write (\<lambda>b. b[index + 1 := x]) v2
           in Some (v3\<lparr>vc_length := vc_length v3 + 1\<rparr>))"

definition VectorDeleteElement :: "cvec \<Rightarrow> nat \<Rightarrow> cvec option" where
  "VectorDeleteElement v index =
     (if \<not> index < vc_length v then None
      else let elements_to_move = vc_length v - index - 1;
               v1 = vec_write (\<lambda>b. mem_move b index (index + 1) elements_to_move) v
           in Some (v1\<lparr>vc_length := vc_length v1 - 1\<rparr>))"

section \<open>Invariant and abstraction\<close>

lemma vec_ok_buf:
  "vec_ok v \<Longrightarrow> length (vec_buf v) = vc_capacity v \<and> vc_length v \<le> vc_capacity v"
  by (auto simp: vec_ok_def vec_buf_def split: option.splits)

lemma length_vec_list [simp]: "vec_ok v \<Longrightarrow> length (vec_list v) = vc_length v"
  by (auto simp: vec_list_def dest: vec_ok_buf)

lemma vec_ok_write:
  "vec_ok v \<Longrightarrow> (\<And>b. length b = vc_capacity v \<Longrightarrow> length (f b) = vc_capacity v) \<Longrightarrow>
   vec_ok (vec_write f v)"
  by (auto simp: vec_ok_def vec_write_def split: option.splits)

lemma vec_buf_write: "vc_value v \<noteq> None \<Longrightarrow> vec_buf (vec_write f v) = f (vec_buf v)"
  by (auto simp: vec_buf_def vec_write_def)

lemma vec_write_fields [simp]:
  "vc_length (vec_write f v) = vc_length v"
  "vc_capacity (vec_write f v) = vc_capacity v"
  "vc_value (vec_write f v) = None \<longleftrightarrow> vc_value v = None"
  by (auto simp: vec_write_def)

lemma vec_buf_length_upd [simp]: "vec_buf (v\<lparr>vc_length := n\<rparr>) = vec_buf v"
  by (simp add: vec_buf_def)

lemma vec_ok_length_upd: "vec_ok v \<Longrightarrow> n \<le> vc_capacity v \<Longrightarrow> vec_ok (v\<lparr>vc_length := n\<rparr>)"
  by (auto simp: vec_ok_def split: option.splits)

text \<open>What the growth step of append and of insertion guarantees.\<close>

definition vec_room :: "cvec \<Rightarrow> cvec" where
  "vec_room v = (if vc_length v = vc_capacity v then VectorGrowForAppend v else v)"

lemma vec_room:
  assumes "vec_ok v"
  shows "vec_ok (vec_room v)" "vec_list (vec_room v) = vec_list v"
    "vc_length (vec_room v) = vc_length v" "vc_length v < vc_capacity (vec_room v)"
    "vc_value (vec_room v) \<noteq> None"
  using assms
  by (auto simp: vec_room_def VectorGrowForAppend_def Let_def vec_ok_def vec_list_def vec_buf_def
      INIT_CAPACITY_def take_grow_fill split: option.splits if_splits)

lemma VectorAppend_alt:
  "VectorAppend v x = (vec_write (\<lambda>b. b[vc_length (vec_room v) := x]) (vec_room v))
     \<lparr>vc_length := vc_length (vec_room v) + 1\<rparr>"
  by (simp add: VectorAppend_def vec_room_def Let_def)

lemma VectorInit_ok [c_inv, simp]: "vec_ok VectorInit" "vec_list VectorInit = []"
  by (simp_all add: VectorInit_def vec_ok_def vec_list_def)

lemma VectorAppend_ok [c_inv]: "vec_ok v \<Longrightarrow> vec_ok (VectorAppend v x)"
  using vec_room [of v]
  by (auto simp: VectorAppend_alt intro!: vec_ok_length_upd vec_ok_write)

lemma VectorAppend_list [c_abs]: "vec_ok v \<Longrightarrow> vec_list (VectorAppend v x) = vec_list v @ [x]"
  using vec_room [of v] vec_ok_buf [of "vec_room v"]
  by (simp add: VectorAppend_alt vec_list_def vec_buf_write take_Suc_conv_app_nth)

lemma VectorInsertBefore_spec [c_abs]:
  assumes "vec_ok v" "i < vc_length v"
  obtains v' where "VectorInsertBefore v i x = Some v'" "vec_ok v'"
    "vec_list v' = take i (vec_list v) @ x # drop i (vec_list v)"
proof -
  define r where "r = vec_room v"
  note r = vec_room [OF assms(1), folded r_def] vec_ok_buf [of r]
  define w where "w = vec_write (\<lambda>b. b[i := x])
    (vec_write (\<lambda>b. mem_move b (i + 1) i (vc_length r - i)) r)"
  have "VectorInsertBefore v i x = Some (w\<lparr>vc_length := vc_length r + 1\<rparr>)"
    using assms(2) r by (simp add: VectorInsertBefore_def Let_def w_def r_def vec_room_def)
  moreover have "vec_ok (w\<lparr>vc_length := vc_length r + 1\<rparr>)"
    using r assms(2) by (auto simp: w_def intro!: vec_ok_length_upd vec_ok_write)
  moreover have "vec_list (w\<lparr>vc_length := vc_length r + 1\<rparr>) =
      take i (vec_list r) @ x # drop i (vec_list r)"
    using r(1,3-6) assms(2) take_open_gap [of i "vc_length r" "vec_buf r" x]
    by (simp add: vec_list_def w_def vec_buf_write min_def)
  ultimately show thesis using that r by metis
qed

lemma VectorDeleteElement_spec [c_abs]:
  assumes "vec_ok v" "i < vc_length v"
  obtains v' where "VectorDeleteElement v i = Some v'" "vec_ok v'"
    "vec_list v' = take i (vec_list v) @ drop (Suc i) (vec_list v)"
proof -
  note r = vec_ok_buf [OF assms(1)]
  have nn: "vc_value v \<noteq> None" using assms by (auto simp: vec_ok_def split: option.splits)
  define w where "w = vec_write (\<lambda>b. mem_move b i (i + 1) (vc_length v - i - 1)) v"
  have "VectorDeleteElement v i = Some (w\<lparr>vc_length := vc_length v - 1\<rparr>)"
    using assms(2) by (simp add: VectorDeleteElement_def Let_def w_def)
  moreover have "vec_ok (w\<lparr>vc_length := vc_length v - 1\<rparr>)"
    using r assms by (auto simp: w_def intro!: vec_ok_length_upd vec_ok_write)
  moreover have "vec_list (w\<lparr>vc_length := vc_length v - 1\<rparr>) =
      take i (vec_list v) @ drop (Suc i) (vec_list v)"
    using r assms(2) take_close_gap [of i "vc_length v" "vec_buf v"] nn
    by (simp add: vec_list_def w_def vec_buf_write min_def)
  ultimately show thesis using that by metis
qed

lemma VectorReserve_spec [c_abs]:
  assumes "vec_ok v"
  shows "vec_ok (VectorReserve v n)" "vec_list (VectorReserve v n) = vec_list v"
    "vc_length (VectorReserve v n) = vc_length v" "n \<le> vc_capacity (VectorReserve v n)"
    "vc_value (VectorReserve v n) \<noteq> None"
  using assms
  by (auto simp: VectorReserve_def Let_def vec_ok_def vec_list_def vec_buf_def take_grow_fill
      split: option.splits if_splits)

lemma VectorClear_spec [c_abs]:
  "vec_ok v \<Longrightarrow> vec_ok (VectorClear v)" "vec_list (VectorClear v) = []"
  by (auto simp: VectorClear_def vec_ok_def vec_list_def split: option.splits)

lemma VectorPop_spec [c_abs]:
  assumes "vec_ok v"
  shows "vec_ok (VectorPop v)" "vec_list (VectorPop v) = butlast (vec_list v)"
proof -
  note r = vec_ok_buf [OF assms]
  show "vec_ok (VectorPop v)"
    using assms r by (auto simp: VectorPop_def intro!: vec_ok_length_upd)
  show "vec_list (VectorPop v) = butlast (vec_list v)"
    using r by (cases "vc_length v = 0") (simp_all add: VectorPop_def vec_list_def butlast_take)
qed

lemma VectorLast_spec [c_abs]:
  assumes "vec_ok v"
  shows "VectorLast v = (if vec_list v = [] then 0 else last (vec_list v))"
proof (cases "vc_length v")
  case 0
  then show ?thesis by (simp add: VectorLast_def vec_list_def)
next
  case (Suc n)
  with vec_ok_buf [OF assms] have "vec_list v = take n (vec_buf v) @ [vec_buf v ! n]"
    by (simp add: vec_list_def take_Suc_conv_app_nth)
  with Suc show ?thesis by (simp add: VectorLast_def)
qed

lemma VectorGet_list: "vec_ok v \<Longrightarrow> i < vc_length v \<Longrightarrow> VectorGet v i = vec_list v ! i"
  by (simp add: VectorGet_def vec_list_def)

lemma map_VectorGet: "vec_ok v \<Longrightarrow> map (VectorGet v) [0..<vc_length v] = vec_list v"
  by (rule nth_equalityI) (auto simp: VectorGet_list)

lemma VectorCopy_spec [c_abs]:
  assumes "vec_ok d" "vec_ok s"
  shows "vec_ok (VectorCopy d s)" "vec_list (VectorCopy d s) = vec_list s"
proof -
  define r where "r = VectorReserve (VectorClear d) (vc_length s)"
  note r = VectorReserve_spec [OF VectorClear_spec(1) [OF assms(1)], of "vc_length s", folded r_def]
  note b = vec_ok_buf [OF r(1)] vec_ok_buf [OF assms(2)]
  show "vec_ok (VectorCopy d s)"
    using r b VectorClear_spec(1) [OF assms(1)]
    by (auto simp: VectorCopy_def Let_def r_def [symmetric] intro!: vec_ok_length_upd vec_ok_write)
  show "vec_list (VectorCopy d s) = vec_list s"
    using r b VectorClear_spec(2)
    by (cases "vc_length s = 0")
      (simp_all add: VectorCopy_def Let_def r_def [symmetric] vec_list_def vec_buf_write)
qed

lemma VectorAppendVector_fold:
  "vec_ok d \<Longrightarrow> vec_ok (foldl (\<lambda>d i. VectorAppend d (f i)) d is) \<and>
     vec_list (foldl (\<lambda>d i. VectorAppend d (f i)) d is) = vec_list d @ map f is"
  by (induction "is" arbitrary: d) (simp_all add: c_abs c_inv)

lemma VectorAppendVector_spec [c_abs]:
  assumes "vec_ok d" "vec_ok s"
  shows "vec_ok (VectorAppendVector d s)"
    "vec_list (VectorAppendVector d s) = vec_list d @ vec_list s"
  using VectorAppendVector_fold [OF assms(1), of "VectorGet s"] map_VectorGet [OF assms(2)]
  by (simp_all add: VectorAppendVector_def)

lemma VectorEqual_spec [c_abs]:
  "vec_ok a \<Longrightarrow> vec_ok b \<Longrightarrow> VectorEqual a b \<longleftrightarrow> vec_list a = vec_list b"
  by (auto simp: VectorEqual_def list_all_iff list_eq_iff_nth_eq VectorGet_list)

lemma VectorInsertAfter_spec [c_abs]:
  assumes "vec_ok v" "i < vc_length v"
  obtains v' where "VectorInsertAfter v i x = Some v'" "vec_ok v'"
    "vec_list v' = take (Suc i) (vec_list v) @ x # drop (Suc i) (vec_list v)"
proof (cases "i = vc_length v - 1")
  case True
  with assms have "VectorInsertAfter v i x = Some (VectorAppend v x)"
    by (simp add: VectorInsertAfter_def)
  then show thesis
    by (rule that) (use True assms in \<open>simp_all add: c_inv c_abs\<close>)
next
  case False
  with assms have "VectorInsertAfter v i x = VectorInsertBefore v (Suc i) x"
    by (auto simp: VectorInsertAfter_def VectorInsertBefore_def Let_def)
  moreover have "Suc i < vc_length v" using False assms(2) by simp
  ultimately show thesis using VectorInsertBefore_spec [OF assms(1), of "Suc i" x] that by metis
qed

end
