(* ===== verification/CSet.thy ===== *)
theory CSet
  imports COrder CVector
begin

text \<open>
  The sorted-vector set of \<open>c_compiler/util/set.h\<close> and \<open>set.c\<close>, a client of the vector.
  The comparison functions take addresses of elements and read the element, which the
  model passes directly.  \<^term>\<open>None\<close> is a failed assertion of the vector; the theorems
  show there is none.
\<close>

record cset =
  s_vec :: cvec
  s_compare :: "u64 \<Rightarrow> u64 \<Rightarrow> int"

abbreviation set_elems :: "cset \<Rightarrow> u64 list" where
  "set_elems s \<equiv> vec_list (s_vec s)"

section \<open>Comparison functions\<close>

definition ComparePointers :: "u64 \<Rightarrow> u64 \<Rightarrow> int" where
  "ComparePointers v1 v2 = (if v1 = v2 then 0 else if v1 < v2 then -1 else 1)"

text \<open>
  \<open>*(int* )a\<close> reads the low half of the element; the difference is computed in a 32-bit
  \<open>int\<close>, which wraps.
\<close>

definition CompareIntegers :: "u64 \<Rightarrow> u64 \<Rightarrow> int" where
  "CompareIntegers a b =
     (let v1 = ucast a :: u32; v2 = ucast b :: u32 in sint (v1 - v2))"

section \<open>Operations\<close>

definition SetInit :: "(u64 \<Rightarrow> u64 \<Rightarrow> int) \<Rightarrow> cset" where
  "SetInit func = \<lparr>s_vec = VectorInit, s_compare = func\<rparr>"

definition SetInitForPointers :: cset where
  "SetInitForPointers = SetInit ComparePointers"

definition SetInitForIntegers :: cset where
  "SetInitForIntegers = SetInit CompareIntegers"

definition SetClear :: "cset \<Rightarrow> cset" where
  "SetClear s = s\<lparr>s_vec := VectorClear (s_vec s)\<rparr>"

definition SetFindLocation :: "cset \<Rightarrow> u64 \<Rightarrow> nat option \<times> bool" where
  "SetFindLocation s v =
     (let (i, found) = find_loop (s_compare s v) (vec_buf (s_vec s)) 0 (vc_length (s_vec s))
      in if found then (Some i, True)
         else if i = vc_length (s_vec s) then (None, False) else (Some i, False))"

definition set_vec :: "cset \<Rightarrow> cvec option \<Rightarrow> cset option" where
  "set_vec s r = map_option (\<lambda>v. s\<lparr>s_vec := v\<rparr>) r"

function set_linear_loop :: "cset \<Rightarrow> u64 \<Rightarrow> nat \<Rightarrow> cset option" where
  "set_linear_loop s v i =
     (if i < vc_length (s_vec s) then
        (let compval = s_compare s v (VectorGet (s_vec s) i)
         in if compval = 0 then Some s
            else if compval < 0 then set_vec s (VectorInsertBefore (s_vec s) i v)
            else set_linear_loop s v (i + 1))
      else Some (s\<lparr>s_vec := VectorAppend (s_vec s) v\<rparr>))"
  by pat_completeness auto
termination
  by (relation "measure (\<lambda>(s, v, i). vc_length (s_vec s) - i)") auto

declare set_linear_loop.simps [simp del]

definition SetLinearInsert :: "cset \<Rightarrow> u64 \<Rightarrow> cset option" where
  "SetLinearInsert s v = set_linear_loop s v 0"

definition SetBinaryInsert :: "cset \<Rightarrow> u64 \<Rightarrow> cset option" where
  "SetBinaryInsert s v =
     (case SetFindLocation s v of
        (None, _) \<Rightarrow> Some (s\<lparr>s_vec := VectorAppend (s_vec s) v\<rparr>)
      | (Some p, True) \<Rightarrow> Some s
      | (Some p, False) \<Rightarrow> set_vec s (VectorInsertBefore (s_vec s) p v))"

definition SetInsert :: "cset \<Rightarrow> u64 \<Rightarrow> cset option" where
  "SetInsert s v =
     (if vc_length (s_vec s) < 5 then SetLinearInsert s v else SetBinaryInsert s v)"

definition SetRemove :: "cset \<Rightarrow> u64 \<Rightarrow> cset option" where
  "SetRemove s v =
     (case SetFindLocation s v of
        (Some p, True) \<Rightarrow> set_vec s (VectorDeleteElement (s_vec s) p)
      | _ \<Rightarrow> Some s)"

definition SetContains :: "cset \<Rightarrow> u64 \<Rightarrow> bool" where
  "SetContains s v \<longleftrightarrow> c_bsearch (s_compare s v) (set_elems s) \<noteq> None"

fun set_insert_all :: "cset \<Rightarrow> u64 list \<Rightarrow> cset option" where
  "set_insert_all s [] = Some s"
| "set_insert_all s (x # xs) =
     (case SetInsert s x of None \<Rightarrow> None | Some s' \<Rightarrow> set_insert_all s' xs)"

text \<open>The two loops of \<open>SetUnion\<close>, over the elements of the first and of the second set.\<close>

definition SetUnion :: "cset \<Rightarrow> cset \<Rightarrow> cset \<Rightarrow> cset option" where
  "SetUnion set1 set2 result =
     (case set_insert_all result (map (VectorGet (s_vec set1)) [0..<vc_length (s_vec set1)]) of
        None \<Rightarrow> None
      | Some r \<Rightarrow> set_insert_all r (map (VectorGet (s_vec set2)) [0..<vc_length (s_vec set2)]))"

function inter_loop :: "cset \<Rightarrow> cset \<Rightarrow> cset \<Rightarrow> nat \<Rightarrow> nat \<Rightarrow> cset option" where
  "inter_loop set1 set2 result i j =
     (if i < vc_length (s_vec set1) \<and> j < vc_length (s_vec set2) then
        (let compval = s_compare set1 (VectorGet (s_vec set1) i) (VectorGet (s_vec set2) j)
         in if compval = 0 then
              (case SetInsert result (VectorGet (s_vec set1) i) of
                 None \<Rightarrow> None
               | Some r \<Rightarrow> inter_loop set1 set2 r (i + 1) (j + 1))
            else if compval < 0 then inter_loop set1 set2 result (i + 1) j
            else inter_loop set1 set2 result i (j + 1))
      else Some result)"
  by pat_completeness auto
termination
  by (relation "measure (\<lambda>(s1, s2, r, i, j).
        (vc_length (s_vec s1) - i) + (vc_length (s_vec s2) - j))") auto

declare inter_loop.simps [simp del]

definition SetIntersection :: "cset \<Rightarrow> cset \<Rightarrow> cset \<Rightarrow> cset option" where
  "SetIntersection set1 set2 result = inter_loop set1 set2 result 0 0"

definition SetCopy :: "cset \<Rightarrow> cset \<Rightarrow> cset" where
  "SetCopy to from_set = to\<lparr>s_vec := VectorCopy (s_vec to) (s_vec from_set)\<rparr>"

definition SetEqual :: "cset \<Rightarrow> cset \<Rightarrow> bool" where
  "SetEqual set1 set2 = VectorEqual (s_vec set1) (s_vec set2)"

section \<open>Invariant; linear and binary insertion agree\<close>

definition set_ok :: "cset \<Rightarrow> bool" where
  "set_ok s \<longleftrightarrow> vec_ok (s_vec s) \<and> sorted_by (s_compare s) (set_elems s)"

definition set_insert_at :: "cset \<Rightarrow> u64 \<Rightarrow> cset option" where
  "set_insert_at s v =
     (let f = s_compare s v; i = lower_pos f (set_elems s)
      in if hit f (set_elems s) then Some s
         else if i = vc_length (s_vec s) then Some (s\<lparr>s_vec := VectorAppend (s_vec s) v\<rparr>)
         else set_vec s (VectorInsertBefore (s_vec s) i v))"

lemma set_linear_loop_spec:
  assumes "vec_ok (s_vec s)" "cut_by (s_compare s v) (set_elems s)" "i \<le> vc_length (s_vec s)"
    "\<And>j. j < i \<Longrightarrow> 0 < s_compare s v (set_elems s ! j)"
  shows "set_linear_loop s v i = set_insert_at s v"
  using assms
proof (induction s v i rule: set_linear_loop.induct)
  case (1 s v i)
  let ?f = "s_compare s v" and ?xs = "set_elems s"
  note len = length_vec_list [OF "1.prems"(1)]
  show ?case
  proof (cases "i < vc_length (s_vec s)")
    case False
    then have "lower_pos ?f ?xs = vc_length (s_vec s)"
      using "1.prems" len by (intro lower_pos_eq) auto
    with False len show ?thesis
      by (simp add: set_linear_loop.simps [of s v i] set_insert_at_def Let_def hit_def)
  next
    case True
    note nth = VectorGet_list [OF "1.prems"(1) True]
    show ?thesis
    proof (cases "0 < ?f (?xs ! i)")
      case pos: True
      have "set_linear_loop s v (i + 1) = set_insert_at s v"
        using "1.prems" True pos nth
        by (intro "1.IH" [OF True refl]) (auto simp: less_Suc_eq)
      with True pos nth show ?thesis
        by (simp add: set_linear_loop.simps [of s v i] Let_def)
    next
      case False
      then have "lower_pos ?f ?xs = i"
        using "1.prems" len True by (intro lower_pos_eq) auto
      with True False nth len show ?thesis
        by (auto simp: set_linear_loop.simps [of s v i] set_insert_at_def Let_def hit_def)
    qed
  qed
qed

lemma SetFindLocation_spec:
  assumes "vec_ok (s_vec s)" "cut_by (s_compare s v) (set_elems s)"
  defines "i \<equiv> lower_pos (s_compare s v) (set_elems s)"
  shows "SetFindLocation s v =
    (if hit (s_compare s v) (set_elems s) then (Some i, True)
     else if i = vc_length (s_vec s) then (None, False) else (Some i, False))"
proof -
  have "find_loop (s_compare s v) (vec_buf (s_vec s)) 0 (vc_length (s_vec s)) =
        find_loop (s_compare s v) (set_elems s) 0 (vc_length (s_vec s))"
    unfolding vec_list_def using vec_ok_buf [OF assms(1)]
    by (intro find_loop_take [symmetric]) auto
  with find_loop_spec [OF assms(2)] length_vec_list [OF assms(1)] show ?thesis
    by (simp add: SetFindLocation_def i_def)
qed

lemma SetLinearInsert_eq:
  "vec_ok (s_vec s) \<Longrightarrow> cut_by (s_compare s v) (set_elems s) \<Longrightarrow>
   SetLinearInsert s v = set_insert_at s v"
  unfolding SetLinearInsert_def by (rule set_linear_loop_spec) auto

lemma SetBinaryInsert_eq:
  "vec_ok (s_vec s) \<Longrightarrow> cut_by (s_compare s v) (set_elems s) \<Longrightarrow>
   SetBinaryInsert s v = set_insert_at s v"
  by (simp add: SetBinaryInsert_def SetFindLocation_spec set_insert_at_def Let_def)

lemma SetInsert_eq:
  "vec_ok (s_vec s) \<Longrightarrow> cut_by (s_compare s v) (set_elems s) \<Longrightarrow>
   SetInsert s v = set_insert_at s v"
  by (simp add: SetInsert_def SetLinearInsert_eq SetBinaryInsert_eq)

section \<open>What a set owes its clients\<close>

locale member_store =
  fixes invar :: "'s \<Rightarrow> bool"
    and mem :: "'s \<Rightarrow> 'a \<Rightarrow> bool"
    and insert :: "'s \<Rightarrow> 'a \<Rightarrow> 's option"
    and same :: "'a \<Rightarrow> 'a \<Rightarrow> bool"
  assumes insert_effect: "invar s \<Longrightarrow>
    \<exists>s'. insert s x = Some s' \<and> invar s' \<and> (\<forall>y. mem s' y \<longleftrightarrow> same y x \<or> mem s y)"
begin

lemma insert_list_effect:
  assumes "invar s"
  shows "\<exists>s'. foldl (\<lambda>r x. case r of None \<Rightarrow> None | Some s \<Rightarrow> insert s x) (Some s) xs = Some s' \<and>
    invar s' \<and> (\<forall>y. mem s' y \<longleftrightarrow> (\<exists>x \<in> set xs. same y x) \<or> mem s y)"
proof (induction xs rule: rev_induct)
  case Nil
  with assms show ?case by simp
next
  case (snoc x xs)
  then obtain s1 where s1:
    "foldl (\<lambda>r x. case r of None \<Rightarrow> None | Some s \<Rightarrow> insert s x) (Some s) xs = Some s1"
    "invar s1" "\<And>y. mem s1 y \<longleftrightarrow> (\<exists>x \<in> set xs. same y x) \<or> mem s y" by blast
  from insert_effect [OF s1(2), of x] obtain s2 where
    "insert s1 x = Some s2" "invar s2" "\<And>y. mem s2 y \<longleftrightarrow> same y x \<or> mem s1 y" by blast
  with s1 show ?case by auto
qed

end

section \<open>A comparison function that keeps its contract gives such a set\<close>

locale elem_compare = c_compare cmp for cmp :: "u64 \<Rightarrow> u64 \<Rightarrow> int"
begin

lemma SetContains_iff:
  assumes "set_ok s" "s_compare s = cmp"
  shows "SetContains s x \<longleftrightarrow> (\<exists>y \<in> set (set_elems s). cmp x y = 0)"
proof -
  have "sorted_by cmp (set_elems s)" using assms by (simp add: set_ok_def)
  with c_bsearch_spec [OF sorted_cut] hit_iff show ?thesis
    using assms(2) by (simp add: SetContains_def)
qed

lemma SetInsert_effect:
  assumes "set_ok s" "s_compare s = cmp"
  obtains s' where "SetInsert s x = Some s'" "set_ok s'" "s_compare s' = cmp"
    "set (set_elems s') =
       (if SetContains s x then set (set_elems s) else insert x (set (set_elems s)))"
proof -
  let ?xs = "set_elems s" and ?i = "lower_pos (cmp x) (set_elems s)"
  have s: "sorted_by cmp ?xs" and v: "vec_ok (s_vec s)" using assms by (auto simp: set_ok_def)
  have ins: "SetInsert s x = set_insert_at s x"
    using SetInsert_eq [OF v] sorted_cut [OF s] assms(2) by simp
  have hit: "hit (cmp x) ?xs = SetContains s x"
    using hit_iff [OF s] SetContains_iff [OF assms] by simp
  show thesis
  proof (cases "hit (cmp x) ?xs")
    case True
    with ins assms hit show thesis
      by (intro that [of s]) (auto simp: set_insert_at_def Let_def)
  next
    case False
    obtain w where w: "SetInsert s x = Some (s\<lparr>s_vec := w\<rparr>)" "vec_ok w"
      "vec_list w = take ?i ?xs @ x # drop ?i ?xs"
    proof (cases "?i = vc_length (s_vec s)")
      case True
      with False ins assms(2) length_vec_list [OF v] show ?thesis
        by (intro that [of "VectorAppend (s_vec s) x"])
          (auto simp: set_insert_at_def Let_def VectorAppend_list [OF v] VectorAppend_ok [OF v])
    next
      case ne: False
      then have "?i < vc_length (s_vec s)"
        using length_vec_list [OF v] lower_pos_le [of "cmp x" ?xs] by simp
      then obtain w where "VectorInsertBefore (s_vec s) ?i x = Some w" "vec_ok w"
        "vec_list w = take ?i ?xs @ x # drop ?i ?xs"
        by (rule VectorInsertBefore_spec [OF v])
      with ne False ins assms(2) show ?thesis
        by (intro that [of w]) (auto simp: set_insert_at_def Let_def set_vec_def)
    qed
    have "set (vec_list w) = insert x (set ?xs)"
      using w(3) by simp (metis append_take_drop_id set_append)
    with w False hit sorted_insert [OF s False] assms(2) show thesis
      by (intro that [of "s\<lparr>s_vec := w\<rparr>"]) (auto simp: set_ok_def)
  qed
qed

lemma SetInsert_contains:
  assumes "set_ok s" "s_compare s = cmp" "SetInsert s x = Some s'"
  shows "set_ok s'" "s_compare s' = cmp" "SetContains s' y \<longleftrightarrow> cmp y x = 0 \<or> SetContains s y"
proof -
  obtain s1 where s1: "SetInsert s x = Some s1" "set_ok s1" "s_compare s1 = cmp"
    "set (set_elems s1) =
       (if SetContains s x then set (set_elems s) else insert x (set (set_elems s)))"
    by (rule SetInsert_effect [OF assms(1,2)])
  have "s1 = s'" using s1 assms(3) by simp
  with s1 show "set_ok s'" "s_compare s' = cmp" by auto
  have "(\<exists>z \<in> set (set_elems s). cmp y z = 0)" if "cmp y x = 0" "SetContains s x"
    using that SetContains_iff [OF assms(1,2), of x] cmp_zero_trans by blast
  then show "SetContains s' y \<longleftrightarrow> cmp y x = 0 \<or> SetContains s y"
    using SetContains_iff [OF s1(2,3)] SetContains_iff [OF assms(1,2)] s1(4) \<open>s1 = s'\<close> by auto
qed

lemma SetRemove_effect:
  assumes "set_ok s" "s_compare s = cmp"
  obtains s' where "SetRemove s x = Some s'" "set_ok s'" "s_compare s' = cmp"
    "\<And>y. SetContains s' y \<longleftrightarrow> cmp y x \<noteq> 0 \<and> SetContains s y"
proof -
  let ?xs = "set_elems s" and ?i = "lower_pos (cmp x) (set_elems s)"
  have s: "sorted_by cmp ?xs" and v: "vec_ok (s_vec s)" using assms by (auto simp: set_ok_def)
  have loc: "SetFindLocation s x =
      (if hit (cmp x) ?xs then (Some ?i, True)
       else if ?i = vc_length (s_vec s) then (None, False) else (Some ?i, False))"
    using SetFindLocation_spec [OF v] sorted_cut [OF s] assms(2) by simp
  note mem = SetContains_iff [OF assms]
  show thesis
  proof (cases "hit (cmp x) ?xs")
    case False
    then have "\<not> SetContains s y" if "cmp y x = 0" for y
      using that mem hit_iff [OF s] cmp_zero_cong by blast
    with False loc assms show thesis
      by (intro that [of s]) (auto simp: SetRemove_def)
  next
    case True
    then have i: "?i < vc_length (s_vec s)" "cmp x (?xs ! ?i) = 0"
      using length_vec_list [OF v] by (auto simp: hit_def)
    obtain w where w: "VectorDeleteElement (s_vec s) ?i = Some w" "vec_ok w"
      "vec_list w = take ?i ?xs @ drop (Suc ?i) ?xs"
      by (rule VectorDeleteElement_spec [OF v i(1)])
    have ok: "set_ok (s\<lparr>s_vec := w\<rparr>)" "s_compare (s\<lparr>s_vec := w\<rparr>) = cmp"
      using w sorted_remove [OF s] assms(2) by (auto simp: set_ok_def)
    have st: "set (vec_list w) = set ?xs - {?xs ! ?i}"
      unfolding w(3) using sorted_distinct [OF s] i length_vec_list [OF v]
      by (intro set_delete_nth) simp_all
    have e: "?xs ! ?i \<in> set ?xs" using i length_vec_list [OF v] by simp
    have "SetContains (s\<lparr>s_vec := w\<rparr>) y \<longleftrightarrow> cmp y x \<noteq> 0 \<and> SetContains s y" for y
    proof -
      have "z = ?xs ! ?i" if "z \<in> set ?xs" "cmp y z = 0" "cmp y x = 0" for z
      proof (rule sorted_unique [OF s that(1) e _ i(2)])
        show "cmp x z = 0" using that cmp_zero_cong by blast
      qed
      moreover have "cmp y x = 0" if "cmp y (?xs ! ?i) = 0"
        by (rule cmp_zero_trans [OF that]) (use i(2) cmp_zero_sym in blast)
      ultimately show ?thesis
        unfolding SetContains_iff [OF ok] mem using st by auto
    qed
    with w True loc ok show thesis
      by (intro that [of "s\<lparr>s_vec := w\<rparr>"]) (auto simp: SetRemove_def set_vec_def)
  qed
qed

end

sublocale elem_compare \<subseteq> store: member_store
  "\<lambda>s. set_ok s \<and> s_compare s = cmp" SetContains SetInsert "\<lambda>y x. cmp y x = 0"
proof
  fix s x
  assume "set_ok s \<and> s_compare s = cmp"
  then have s: "set_ok s" "s_compare s = cmp" by auto
  then obtain s' where s': "SetInsert s x = Some s'" by (rule SetInsert_effect)
  with SetInsert_contains [OF s s'] show "\<exists>s'. SetInsert s x = Some s' \<and>
      (set_ok s' \<and> s_compare s' = cmp) \<and> (\<forall>y. SetContains s' y \<longleftrightarrow> cmp y x = 0 \<or> SetContains s y)"
    by blast
qed

lemma set_insert_all_foldl:
  "set_insert_all s xs =
   foldl (\<lambda>r x. case r of None \<Rightarrow> None | Some s \<Rightarrow> SetInsert s x) (Some s) xs"
proof (induction s xs rule: set_insert_all.induct)
  case (2 s x xs)
  have "foldl (\<lambda>r x. case r of None \<Rightarrow> None | Some s \<Rightarrow> SetInsert s x) None ys = None" for ys
    by (induction ys) auto
  with 2 show ?case by (cases "SetInsert s x") auto
qed simp

text \<open>What the loop of the intersection still has to add: the common elements of the two suffixes.\<close>

definition common_by :: "(u64 \<Rightarrow> u64 \<Rightarrow> int) \<Rightarrow> u64 list \<Rightarrow> u64 list \<Rightarrow> u64 \<Rightarrow> bool" where
  "common_by cmp xs ys y \<longleftrightarrow> (\<exists>a \<in> set xs. \<exists>b \<in> set ys. cmp a b = 0 \<and> cmp y a = 0)"

context elem_compare
begin

lemma set_insert_all_effect:
  assumes "set_ok r" "s_compare r = cmp"
  obtains r' where "set_insert_all r xs = Some r'" "set_ok r'" "s_compare r' = cmp"
    "\<And>y. SetContains r' y \<longleftrightarrow> (\<exists>x \<in> set xs. cmp y x = 0) \<or> SetContains r y"
  using store.insert_list_effect [of r xs] assms by (auto simp: set_insert_all_foldl)

lemma SetUnion_effect:
  assumes "set_ok s1" "s_compare s1 = cmp" "set_ok s2" "s_compare s2 = cmp"
    "set_ok r" "s_compare r = cmp"
  obtains r' where "SetUnion s1 s2 r = Some r'" "set_ok r'" "s_compare r' = cmp"
    "\<And>y. SetContains r' y \<longleftrightarrow> SetContains s1 y \<or> SetContains s2 y \<or> SetContains r y"
proof -
  have v: "vec_ok (s_vec s1)" "vec_ok (s_vec s2)" using assms by (auto simp: set_ok_def)
  obtain r1 where r1: "set_insert_all r (set_elems s1) = Some r1" "set_ok r1" "s_compare r1 = cmp"
    "\<And>y. SetContains r1 y \<longleftrightarrow> (\<exists>x \<in> set (set_elems s1). cmp y x = 0) \<or> SetContains r y"
    using set_insert_all_effect [OF assms(5,6), of "set_elems s1"] by blast
  obtain r2 where r2: "set_insert_all r1 (set_elems s2) = Some r2" "set_ok r2" "s_compare r2 = cmp"
    "\<And>y. SetContains r2 y \<longleftrightarrow> (\<exists>x \<in> set (set_elems s2). cmp y x = 0) \<or> SetContains r1 y"
    using set_insert_all_effect [OF r1(2,3), of "set_elems s2"] by blast
  with r1 v show thesis
    using SetContains_iff [OF assms(1,2)] SetContains_iff [OF assms(3,4)]
    by (intro that [of r2]) (auto simp: SetUnion_def map_VectorGet)
qed

lemma sorted_after:
  assumes "sorted_by cmp xs" "i < length xs" "y \<in> set (drop (Suc i) xs)"
  shows "cmp (xs ! i) y < 0"
proof -
  have "sorted_by cmp (take i xs @ drop i xs)" using assms(1) by simp
  then have "sorted_by cmp (xs ! i # drop (Suc i) xs)"
    using Cons_nth_drop_Suc [OF assms(2)] by (simp add: sorted_by_def sorted_wrt_append)
  with assms(3) show ?thesis by (simp add: sorted_by_def)
qed

lemma common_step:
  assumes "sorted_by cmp xs" "sorted_by cmp ys" "i < length xs" "j < length ys"
  shows
    "cmp (xs ! i) (ys ! j) = 0 \<Longrightarrow>
      common_by cmp (drop i xs) (drop j ys) y \<longleftrightarrow>
      cmp y (xs ! i) = 0 \<or> common_by cmp (drop (Suc i) xs) (drop (Suc j) ys) y"
    "cmp (xs ! i) (ys ! j) < 0 \<Longrightarrow>
      common_by cmp (drop i xs) (drop j ys) y \<longleftrightarrow> common_by cmp (drop (Suc i) xs) (drop j ys) y"
    "0 < cmp (xs ! i) (ys ! j) \<Longrightarrow>
      common_by cmp (drop i xs) (drop j ys) y \<longleftrightarrow> common_by cmp (drop i xs) (drop (Suc j) ys) y"
proof -
  note a = sorted_after [OF assms(1,3)] and b = sorted_after [OF assms(2,4)]
  have xs: "drop i xs = xs ! i # drop (Suc i) xs" and ys: "drop j ys = ys ! j # drop (Suc j) ys"
    using assms(3,4) by (simp_all add: Cons_nth_drop_Suc)
  show "common_by cmp (drop i xs) (drop j ys) y \<longleftrightarrow>
      cmp y (xs ! i) = 0 \<or> common_by cmp (drop (Suc i) xs) (drop (Suc j) ys) y"
    if eq: "cmp (xs ! i) (ys ! j) = 0"
  proof -
    have "cmp (xs ! i) z < 0" if "z \<in> set (drop (Suc j) ys)" for z
      using cmp_le_less_trans [of "xs ! i" "ys ! j" z] eq b [OF that] by simp
    moreover have "0 < cmp z (ys ! j)" if "z \<in> set (drop (Suc i) xs)" for z
      using cmp_le_less_trans [of "ys ! j" "xs ! i" z] eq a [OF that] cmp_zero_sym cmp_neg by force
    ultimately show ?thesis unfolding common_by_def xs ys using eq by fastforce
  qed
  show "common_by cmp (drop i xs) (drop j ys) y \<longleftrightarrow> common_by cmp (drop (Suc i) xs) (drop j ys) y"
    if lt: "cmp (xs ! i) (ys ! j) < 0"
  proof -
    have "cmp (xs ! i) z < 0" if "z \<in> set (drop j ys)" for z
      using that cmp_less_le_trans [of "xs ! i" "ys ! j" z] lt b [of z] unfolding ys by auto
    then show ?thesis unfolding common_by_def xs by fastforce
  qed
  show "common_by cmp (drop i xs) (drop j ys) y \<longleftrightarrow> common_by cmp (drop i xs) (drop (Suc j) ys) y"
    if gt: "0 < cmp (xs ! i) (ys ! j)"
  proof -
    have "0 < cmp z (ys ! j)" if "z \<in> set (drop i xs)" for z
      using that cmp_less_le_trans [of "ys ! j" "xs ! i" z] gt a [of z]
        cmp_neg [of "ys ! j" "xs ! i"] cmp_neg [of "ys ! j" z] less_imp_le
      unfolding xs by auto
    then show ?thesis unfolding common_by_def ys by fastforce
  qed
qed

lemma inter_loop_effect:
  assumes "set_ok s1" "s_compare s1 = cmp" "set_ok s2" "s_compare s2 = cmp"
    "set_ok r" "s_compare r = cmp"
  shows "\<exists>r'. inter_loop s1 s2 r i j = Some r' \<and> set_ok r' \<and> s_compare r' = cmp \<and>
    (\<forall>y. SetContains r' y \<longleftrightarrow>
       SetContains r y \<or> common_by cmp (drop i (set_elems s1)) (drop j (set_elems s2)) y)"
  using assms
proof (induction s1 s2 r i j rule: inter_loop.induct)
  case (1 s1 s2 r i j)
  let ?xs = "set_elems s1" and ?ys = "set_elems s2"
  have v: "vec_ok (s_vec s1)" "vec_ok (s_vec s2)" and s: "sorted_by cmp ?xs" "sorted_by cmp ?ys"
    using "1.prems" by (auto simp: set_ok_def)
  note len = length_vec_list [OF v(1)] length_vec_list [OF v(2)]
  note unf = inter_loop.simps [of s1 s2 r i j]
  show ?case
  proof (cases "i < vc_length (s_vec s1) \<and> j < vc_length (s_vec s2)")
    case False
    then have "drop i ?xs = [] \<or> drop j ?ys = []" using len by auto
    then have "\<not> common_by cmp (drop i ?xs) (drop j ?ys) y" for y by (auto simp: common_by_def)
    moreover have "inter_loop s1 s2 r i j = Some r" unfolding unf if_not_P [OF False] ..
    ultimately show ?thesis using "1.prems" by simp
  next
    case True
    then have ij: "i < length ?xs" "j < length ?ys" using len by auto
    have get: "VectorGet (s_vec s1) i = ?xs ! i" "VectorGet (s_vec s2) j = ?ys ! j"
      using True v by (simp_all add: VectorGet_list)
    note step = common_step [OF s ij]
    consider "cmp (?xs ! i) (?ys ! j) = 0" | "cmp (?xs ! i) (?ys ! j) < 0"
      | "0 < cmp (?xs ! i) (?ys ! j)" by linarith
    then show ?thesis
    proof cases
      case 1
      obtain r1 where r1: "SetInsert r (?xs ! i) = Some r1"
        by (rule SetInsert_effect [OF "1.prems"(5,6)])
      note e = SetInsert_contains [OF "1.prems"(5,6) r1]
      have "\<exists>r'. inter_loop s1 s2 r1 (i + 1) (j + 1) = Some r' \<and> set_ok r' \<and> s_compare r' = cmp \<and>
        (\<forall>y. SetContains r' y \<longleftrightarrow>
           SetContains r1 y \<or> common_by cmp (drop (i + 1) ?xs) (drop (j + 1) ?ys) y)"
        using "1.IH"(1) [OF True refl] 1 get r1 e "1.prems" by simp
      with 1 True get r1 e(3) step(1) "1.prems"(2) show ?thesis by (simp add: unf disj_ac)
    next
      case 2
      with "1.IH"(2) [OF True refl] get step(2) "1.prems" True show ?thesis by (simp add: unf)
    next
      case 3
      with "1.IH"(3) [OF True refl] get step(3) "1.prems" True show ?thesis
        by (simp add: unf not_less)
    qed
  qed
qed

lemma SetIntersection_effect:
  assumes "set_ok s1" "s_compare s1 = cmp" "set_ok s2" "s_compare s2 = cmp"
    "set_ok r" "s_compare r = cmp"
  obtains r' where "SetIntersection s1 s2 r = Some r'" "set_ok r'" "s_compare r' = cmp"
    "\<And>y. SetContains r' y \<longleftrightarrow> (SetContains s1 y \<and> SetContains s2 y) \<or> SetContains r y"
proof -
  obtain r' where r': "inter_loop s1 s2 r 0 0 = Some r'" "set_ok r'" "s_compare r' = cmp"
    "\<And>y. SetContains r' y \<longleftrightarrow> SetContains r y \<or> common_by cmp (set_elems s1) (set_elems s2) y"
    using inter_loop_effect [OF assms, of 0 0] by auto
  have "common_by cmp (set_elems s1) (set_elems s2) y \<longleftrightarrow> SetContains s1 y \<and> SetContains s2 y" for y
  proof -
    have "cmp a b = 0 \<and> cmp y a = 0 \<longleftrightarrow> cmp y a = 0 \<and> cmp y b = 0" for a b
      using cmp_zero_cong [of y a b] by blast
    then show ?thesis
      unfolding common_by_def SetContains_iff [OF assms(1,2)] SetContains_iff [OF assms(3,4)] by blast
  qed
  with r' show thesis by (intro that [of r']) (auto simp: SetIntersection_def)
qed

end

section \<open>Pointer sets\<close>

interpretation pointer_set: elem_compare ComparePointers
  by unfold_locales (auto simp: ComparePointers_def split: if_splits)

lemma ComparePointers_zero: "ComparePointers a b = 0 \<longleftrightarrow> a = b"
  by (simp add: ComparePointers_def)

definition pointer_set_ok :: "cset \<Rightarrow> bool" where
  "pointer_set_ok s \<longleftrightarrow> set_ok s \<and> s_compare s = ComparePointers"

lemma pointer_set_contains:
  "pointer_set_ok s \<Longrightarrow> SetContains s x \<longleftrightarrow> x \<in> set (set_elems s)"
  using pointer_set.SetContains_iff [of s x] by (auto simp: pointer_set_ok_def ComparePointers_zero)

end
