(* ===== verification/CBitSet.thy ===== *)
theory CBitSet
  imports CVector
begin

text \<open>
  The growable bit set of \<open>c_compiler/util/bitset.h\<close> and \<open>bitset.c\<close>: the sets of
  block and node numbers of every data-flow analysis of the compiler.  \<open>bs_set\<close> is the
  set of numbers a bit set stands for.  The operations that write a third set
  (\<open>BitSetIntersection\<close>, \<open>BitSetUnion\<close>) take its old value, because the code
  reuses its storage.
\<close>

record bitset =
  bs_value :: "u64 list option"  \<comment> \<open>\<^term>\<open>None\<close> is NULL\<close>
  bs_capacity :: nat              \<comment> \<open>in words\<close>

definition bs_buf :: "bitset \<Rightarrow> u64 list" where
  "bs_buf s = (case bs_value s of None \<Rightarrow> [] | Some b \<Rightarrow> b)"

definition bs_ok :: "bitset \<Rightarrow> bool" where
  "bs_ok s \<longleftrightarrow> length (bs_buf s) = bs_capacity s"

definition bs_set :: "bitset \<Rightarrow> nat set" where
  "bs_set s = {i. i div 64 < bs_capacity s \<and> bit (bs_buf s ! (i div 64)) (i mod 64)}"

definition bs_write :: "(u64 list \<Rightarrow> u64 list) \<Rightarrow> bitset \<Rightarrow> bitset" where
  "bs_write f s = s\<lparr>bs_value := map_option f (bs_value s)\<rparr>"

section \<open>Operations\<close>

definition BitSetInit :: bitset where
  "BitSetInit = \<lparr>bs_value = None, bs_capacity = 0\<rparr>"

definition BitSetDestruct :: "bitset \<Rightarrow> bitset" where
  "BitSetDestruct s = s\<lparr>bs_value := None, bs_capacity := 0\<rparr>"

definition BitSetClear :: "bitset \<Rightarrow> bitset" where
  "BitSetClear s =
     (if bs_value s = None then s else bs_write (\<lambda>b. mem_set b 0 0 (bs_capacity s)) s)"

text \<open>\<open>__builtin_ctzll\<close> of a nonzero word: the number of trailing zero bits.\<close>

function ctz_from :: "u64 \<Rightarrow> nat \<Rightarrow> nat" where
  "ctz_from w i = (if i < 64 \<and> \<not> bit w i then ctz_from w (i + 1) else i)"
  by pat_completeness auto
termination
  by (relation "measure (\<lambda>(w, i). 64 - i)") auto

declare ctz_from.simps [simp del]

definition ctzll :: "u64 \<Rightarrow> nat" where
  "ctzll w = ctz_from w 0"

definition FindFirstSet64 :: "u64 \<Rightarrow> nat" where
  "FindFirstSet64 value = (if value = 0 then 0 else ctzll value + 1)"

function growth_loop :: "nat \<Rightarrow> nat \<Rightarrow> nat" where
  "growth_loop capacity required =
     (if 0 < capacity \<and> capacity < required
      then (if capacity > SIZE_MAX div 2 then required else growth_loop (capacity * 2) required)
      else capacity)"
  by pat_completeness auto
termination
  by (relation "measure (\<lambda>(c, r). r - c)") auto

declare growth_loop.simps [simp del]

definition GrowthCapacity :: "nat \<Rightarrow> nat \<Rightarrow> nat" where
  "GrowthCapacity current required =
     growth_loop (if current = 0 then 1 else current) required"

text \<open>
  The words for an index: \<open>index + 64\<close> does not wrap below \<open>2 ^ 64 - 64\<close>, and an array for
  an index from there on does not fit the address space.
\<close>

definition MakeRoomFor :: "bitset \<Rightarrow> nat \<Rightarrow> bitset" where
  "MakeRoomFor s index =
     (let words_required = (index + 64) div 64;
          new_capacity = GrowthCapacity (bs_capacity s) words_required
      in case bs_value s of
           None \<Rightarrow> s\<lparr>bs_value := Some (replicate new_capacity 0), bs_capacity := new_capacity\<rparr>
         | Some b \<Rightarrow>
             (if words_required > bs_capacity s
              then s\<lparr>bs_value := Some (grow_fill 0 b new_capacity), bs_capacity := new_capacity\<rparr>
              else s))"

definition MakeRoom :: "bitset \<Rightarrow> nat \<Rightarrow> bitset" where
  "MakeRoom s words =
     (if words = 0 then s
      else let new_capacity = GrowthCapacity (bs_capacity s) words
           in case bs_value s of
                None \<Rightarrow> s\<lparr>bs_value := Some (replicate new_capacity 0), bs_capacity := new_capacity\<rparr>
              | Some b \<Rightarrow>
                  (if words > bs_capacity s
                   then s\<lparr>bs_value := Some (grow_fill 0 b new_capacity), bs_capacity := new_capacity\<rparr>
                   else s))"

definition BitSetFill :: "bitset \<Rightarrow> nat \<Rightarrow> bitset" where
  "BitSetFill s bit_count =
     (let words = ((bit_count + 63) mod 2 ^ 64) div 64;
          s1 = (if words \<noteq> 0
                then let r = bs_write (\<lambda>b. mem_set b 0 (- 1) words) (MakeRoom s words);
                         final_word_bits = bit_count mod 64
                     in if final_word_bits \<noteq> 0
                        then bs_write (\<lambda>b. b[words - 1 := push_bit final_word_bits 1 - 1]) r
                        else r
                else s)
      in if bs_capacity s1 > words
         then bs_write (\<lambda>b. mem_set b words 0 (bs_capacity s1 - words)) s1
         else s1)"

text \<open>\<open>set->value[word] |= 1 << (index % 64)\<close>.\<close>

definition set_bit_in :: "nat \<Rightarrow> u64 list \<Rightarrow> u64 list" where
  "set_bit_in index b = b[index div 64 := Bit_Operations.or (b ! (index div 64)) (push_bit (index mod 64) 1)]"

definition BitSetInsertGrow :: "bitset \<Rightarrow> nat \<Rightarrow> bitset" where
  "BitSetInsertGrow s index = bs_write (set_bit_in index) (MakeRoomFor s index)"

definition BitSetInsert :: "bitset \<Rightarrow> nat \<Rightarrow> bitset" where
  "BitSetInsert s index =
     (if index div 64 \<ge> bs_capacity s then BitSetInsertGrow s index
      else bs_write (set_bit_in index) s)"

definition BitSetContains :: "bitset \<Rightarrow> nat \<Rightarrow> bool" where
  "BitSetContains s index \<longleftrightarrow>
     (if index div 64 \<ge> bs_capacity s then False
      else Bit_Operations.and (bs_buf s ! (index div 64)) (push_bit (index mod 64) 1) \<noteq> 0)"

text \<open>The search loops, with the size of \<open>(size_t)-1\<close> for "no such bit".\<close>

function first_set_loop :: "(u64 \<Rightarrow> u64) \<Rightarrow> bitset \<Rightarrow> nat \<Rightarrow> nat" where
  "first_set_loop f s word =
     (if word < bs_capacity s then
        (let index = FindFirstSet64 (f (bs_buf s ! word))
         in if index \<noteq> 0 then word * 64 + index - 1 else first_set_loop f s (word + 1))
      else SIZE_MAX)"
  by pat_completeness auto
termination
  by (relation "measure (\<lambda>(f, s, w). bs_capacity s - w)") auto

declare first_set_loop.simps [simp del]

definition BitSetFindFirstSet :: "bitset \<Rightarrow> nat" where
  "BitSetFindFirstSet s = first_set_loop (\<lambda>w. w) s 0"

definition BitSetFindFirstClear :: "bitset \<Rightarrow> nat" where
  "BitSetFindFirstClear s = first_set_loop (\<lambda>w. Bit_Operations.not w) s 0"

definition BitSetRemove :: "bitset \<Rightarrow> nat \<Rightarrow> bitset" where
  "BitSetRemove s index =
     (let word = index div 64
      in if word \<ge> bs_capacity s then s
         else bs_write (\<lambda>b. b[word := Bit_Operations.and (b ! word)
                                   (Bit_Operations.not (push_bit (index mod 64) 1))]) s)"

text \<open>A loop that sets \<open>value[i]\<close> for \<open>i < n\<close>, then the clearing of the words from \<open>n\<close> on.\<close>

definition fill_words :: "(nat \<Rightarrow> u64) \<Rightarrow> nat \<Rightarrow> bitset \<Rightarrow> bitset" where
  "fill_words f n r =
     (let r1 = bs_write (\<lambda>b. map f [0..<n] @ drop n b) r
      in if bs_capacity r1 > n
         then bs_write (\<lambda>b. mem_set b n 0 (bs_capacity r1 - n)) r1 else r1)"

definition BitSetIntersection :: "bitset \<Rightarrow> bitset \<Rightarrow> bitset \<Rightarrow> bitset" where
  "BitSetIntersection set1 set2 result =
     (let m = (if bs_capacity set1 > bs_capacity set2 then bs_capacity set2 else bs_capacity set1)
      in if m = 0 then BitSetClear result
         else fill_words (\<lambda>i. Bit_Operations.and (bs_buf set1 ! i) (bs_buf set2 ! i)) m
                (MakeRoom result m))"

definition BitSetUnion :: "bitset \<Rightarrow> bitset \<Rightarrow> bitset \<Rightarrow> bitset" where
  "BitSetUnion set1 set2 result =
     (let m = (if bs_capacity set1 < bs_capacity set2 then bs_capacity set2 else bs_capacity set1);
          left = (\<lambda>i. if i < bs_capacity set1 then bs_buf set1 ! i else 0);
          right = (\<lambda>i. if i < bs_capacity set2 then bs_buf set2 ! i else 0)
      in fill_words (\<lambda>i. Bit_Operations.or (left i) (right i)) m (MakeRoom result m))"

definition BitSetUnionInPlace :: "bitset \<Rightarrow> bitset \<Rightarrow> bitset" where
  "BitSetUnionInPlace dest src =
     (let m = (if bs_capacity dest < bs_capacity src then bs_capacity src else bs_capacity dest)
      in bs_write (\<lambda>b. map (\<lambda>i. if i < bs_capacity src
                                then Bit_Operations.or (b ! i) (bs_buf src ! i)
                                else b ! i) [0..<length b])
           (MakeRoom dest m))"

definition BitSetCopy :: "bitset \<Rightarrow> bitset \<Rightarrow> bitset" where
  "BitSetCopy to from_set =
     (let t = MakeRoom to (bs_capacity from_set);
          t1 = (if bs_capacity from_set > 0
                then bs_write (\<lambda>b. take (bs_capacity from_set) (bs_buf from_set)
                                   @ drop (bs_capacity from_set) b) t
                else t)
      in if bs_capacity t1 > bs_capacity from_set
         then bs_write (\<lambda>b. mem_set b (bs_capacity from_set) 0
                               (bs_capacity t1 - bs_capacity from_set)) t1
         else t1)"

definition BitSetEqual :: "bitset \<Rightarrow> bitset \<Rightarrow> bool" where
  "BitSetEqual set1 set2 \<longleftrightarrow>
     (let (m, larger) = (if bs_capacity set1 > bs_capacity set2
                         then (bs_capacity set2, set1) else (bs_capacity set1, set2))
      in if take m (bs_buf set1) \<noteq> take m (bs_buf set2) then False
         else list_all (\<lambda>i. bs_buf larger ! i = 0) [m..<bs_capacity larger])"

text \<open>The numbers of the set bits of word \<open>word\<close>, in the order the loop over \<open>bit\<close> meets them.\<close>

definition word_bits :: "u64 \<Rightarrow> nat \<Rightarrow> nat list" where
  "word_bits w word =
     map (\<lambda>b. word * 64 + b)
       (filter (\<lambda>b. Bit_Operations.and w (push_bit b 1) \<noteq> 0) [0..<64])"

definition BitSetExpand :: "bitset \<Rightarrow> cvec \<Rightarrow> cvec" where
  "BitSetExpand s vec =
     foldl (\<lambda>v index. VectorAppend v (of_nat index)) vec
       (concat (map (\<lambda>word. word_bits (bs_buf s ! word) word) [0..<bs_capacity s]))"

text \<open>\<open>__builtin_popcountll\<close>: the number of one bits.\<close>

definition popcountll :: "u64 \<Rightarrow> nat" where
  "popcountll w = length (filter (bit w) [0..<64])"

definition BitSetCount :: "bitset \<Rightarrow> nat" where
  "BitSetCount s = foldl (\<lambda>count word. count + popcountll (bs_buf s ! word)) 0 [0..<bs_capacity s]"

section \<open>The iterator\<close>

text \<open>The iterator of a set: its \<open>set\<close> field is the first argument of each operation.\<close>

record bs_iter =
  it_word :: nat
  it_bit :: nat
  it_remaining :: u64

function skip_zero_words :: "bitset \<Rightarrow> nat \<Rightarrow> nat" where
  "skip_zero_words s word =
     (if word < bs_capacity s \<and> bs_buf s ! word = 0 then skip_zero_words s (word + 1) else word)"
  by pat_completeness auto
termination
  by (relation "measure (\<lambda>(s, w). bs_capacity s - w)") auto

declare skip_zero_words.simps [simp del]

definition BitSetIteratorStart :: "bitset \<Rightarrow> bs_iter" where
  "BitSetIteratorStart s =
     (let word = skip_zero_words s 0
      in if word < bs_capacity s
         then \<lparr>it_word = word, it_bit = ctzll (bs_buf s ! word), it_remaining = bs_buf s ! word\<rparr>
         else \<lparr>it_word = word, it_bit = 0, it_remaining = 0\<rparr>)"

definition BitSetIteratorDone :: "bitset \<Rightarrow> bs_iter \<Rightarrow> bool" where
  "BitSetIteratorDone s it \<longleftrightarrow> bs_value s = None \<or> it_word it \<ge> bs_capacity s"

text \<open>
  The \<open>do\<close> loop of \<open>BitSetIteratorNext\<close> advances once, then over zero words; when
  it runs past the last word the other two fields are cleared.
\<close>

definition BitSetIteratorNext :: "bitset \<Rightarrow> bs_iter \<Rightarrow> bs_iter" where
  "BitSetIteratorNext s it =
     (if BitSetIteratorDone s it then it
      else let rem = Bit_Operations.and (it_remaining it) (it_remaining it - 1)
           in if rem \<noteq> 0 then it\<lparr>it_remaining := rem, it_bit := ctzll rem\<rparr>
              else let word = skip_zero_words s (it_word it + 1)
                   in if word < bs_capacity s
                      then \<lparr>it_word = word, it_bit = ctzll (bs_buf s ! word),
                            it_remaining = bs_buf s ! word\<rparr>
                      else \<lparr>it_word = word, it_bit = 0, it_remaining = 0\<rparr>)"

definition BitSetIteratorValue :: "bs_iter \<Rightarrow> nat" where
  "BitSetIteratorValue it = it_word it * 64 + it_bit it"

text \<open>
  The loop every client writes: \<open>Start\<close>, then \<open>Value\<close> and \<open>Next\<close> until \<open>Done\<close>.
  The fuel bounds the number of values; \<open>64 * capacity\<close> is enough.
\<close>

fun iterate :: "nat \<Rightarrow> bitset \<Rightarrow> bs_iter \<Rightarrow> nat list option" where
  "iterate fuel s it =
     (if BitSetIteratorDone s it then Some []
      else case fuel of
             0 \<Rightarrow> None
           | Suc n \<Rightarrow> map_option ((#) (BitSetIteratorValue it)) (iterate n s (BitSetIteratorNext s it)))"

declare iterate.simps [simp del]

definition BitSetValues :: "bitset \<Rightarrow> nat list option" where
  "BitSetValues s = iterate (64 * bs_capacity s) s (BitSetIteratorStart s)"

end
