(* ===== verification/CBitSetSpec.thy ===== *)
theory CBitSetSpec
  imports CBitSet
begin

text \<open>
  Correctness of the bit set: every operation of \<open>bitset.c\<close> is the operation on sets
  of numbers its name says, whatever the capacities of its arguments, and the iterator
  lists the members in increasing order.  \<open>bit_store\<close> states the contract the data-flow
  analyses rely on.
\<close>

section \<open>The set a bit set stands for, word by word\<close>

definition word_at :: "bitset \<Rightarrow> nat \<Rightarrow> u64" where
  "word_at s w = (if w < bs_capacity s then bs_buf s ! w else 0)"

lemma bs_set_word: "i \<in> bs_set s \<longleftrightarrow> bit (word_at s (i div 64)) (i mod 64)"
  by (simp add: bs_set_def word_at_def)

lemma bs_set_eqI:
  assumes "\<And>w j. j < 64 \<Longrightarrow> bit (word_at s w) j = bit (word_at t w) j"
  shows "bs_set s = bs_set t"
  using assms by (auto simp: bs_set_word)

lemma bs_set_mult: "j < 64 \<Longrightarrow> 64 * w + j \<in> bs_set s \<longleftrightarrow> bit (word_at s w) j"
  by (simp add: bs_set_word)

lemma word_at_outside: "bs_capacity s \<le> w \<Longrightarrow> word_at s w = 0"
  by (simp add: word_at_def)

lemma bs_ok_None: "bs_ok s \<Longrightarrow> bs_value s = None \<Longrightarrow> bs_capacity s = 0"
  by (simp add: bs_ok_def bs_buf_def)

lemma bs_ok_length: "bs_ok s \<Longrightarrow> length (bs_buf s) = bs_capacity s"
  by (simp add: bs_ok_def)

lemma finite_bs_set: "finite (bs_set s)"
proof -
  have "bs_set s \<subseteq> {..< 64 * bs_capacity s}"
    unfolding bs_set_def by (auto simp: less_mult_imp_div_less div_less_iff_less_mult mult.commute)
  then show ?thesis by (rule finite_subset) simp
qed

text \<open>Rewriting the buffer in place.\<close>

lemma bs_write_capacity [simp]: "bs_capacity (bs_write f s) = bs_capacity s"
  by (simp add: bs_write_def)

lemma bs_write_value [simp]: "bs_value (bs_write f s) = None \<longleftrightarrow> bs_value s = None"
  by (simp add: bs_write_def)

lemma bs_write_spec:
  assumes "bs_ok s" "bs_value s \<noteq> None" "length (f (bs_buf s)) = length (bs_buf s)"
  shows "bs_ok (bs_write f s)" "bs_buf (bs_write f s) = f (bs_buf s)"
    "word_at (bs_write f s) w = (if w < bs_capacity s then f (bs_buf s) ! w else 0)"
proof -
  from assms(2) obtain b where b: "bs_value s = Some b" by blast
  show "bs_ok (bs_write f s)" "bs_buf (bs_write f s) = f (bs_buf s)"
    using assms(1,3) by (simp_all add: bs_write_def bs_ok_def bs_buf_def b)
  then show "word_at (bs_write f s) w = (if w < bs_capacity s then f (bs_buf s) ! w else 0)"
    by (simp add: word_at_def)
qed

text \<open>Growing.\<close>

lemma growth_loop_ge: "0 < c \<Longrightarrow> r \<le> growth_loop c r \<and> c \<le> growth_loop c r"
proof (induction c r rule: growth_loop.induct)
  case (1 c r)
  show ?case
  proof (cases "c < r \<and> c \<le> SIZE_MAX div 2")
    case True
    have "r \<le> growth_loop (c * 2) r \<and> c * 2 \<le> growth_loop (c * 2) r"
      by (rule "1.IH") (use True "1.prems" in simp_all)
    moreover have "growth_loop c r = growth_loop (c * 2) r"
      using True "1.prems" by (subst growth_loop.simps) simp
    ultimately show ?thesis by linarith
  next
    case False
    then have "growth_loop c r = (if c < r then r else c)"
      using "1.prems" by (subst growth_loop.simps) auto
    then show ?thesis by simp
  qed
qed

lemma GrowthCapacity_ge: "r \<le> GrowthCapacity c r \<and> c \<le> GrowthCapacity c r"
  using growth_loop_ge [of "if c = 0 then 1 else c" r]
  by (auto simp: GrowthCapacity_def split: if_splits)

lemma grown_spec:
  assumes "bs_ok s" "bs_capacity s \<le> n" "t = s\<lparr>bs_value := Some (grow_fill 0 (bs_buf s) n), bs_capacity := n\<rparr>"
  shows "bs_ok t" "word_at t w = word_at s w" "bs_value t \<noteq> None"
  using assms by (auto simp: bs_ok_def bs_buf_def word_at_def nth_grow_fill)

lemma MakeRoom_cases:
  assumes "bs_ok s" "0 < n"
  shows "MakeRoom s n = s \<and> n \<le> bs_capacity s \<and> bs_value s \<noteq> None \<or>
    (\<exists>c. MakeRoom s n = s\<lparr>bs_value := Some (grow_fill 0 (bs_buf s) c), bs_capacity := c\<rparr> \<and>
         n \<le> c \<and> bs_capacity s \<le> c)"
proof (cases "bs_value s")
  case None
  with assms show ?thesis using GrowthCapacity_ge
    by (intro disjI2 exI [of _ "GrowthCapacity (bs_capacity s) n"])
      (auto simp: MakeRoom_def Let_def grow_fill_def bs_buf_def)
next
  case (Some b)
  with assms show ?thesis using GrowthCapacity_ge
    by (auto simp: MakeRoom_def Let_def bs_buf_def)
qed

lemma MakeRoom_spec:
  assumes "bs_ok s" "0 < n"
  shows "bs_ok (MakeRoom s n)" "word_at (MakeRoom s n) w = word_at s w" "bs_value (MakeRoom s n) \<noteq> None"
    "n \<le> bs_capacity (MakeRoom s n)" "bs_capacity s \<le> bs_capacity (MakeRoom s n)"
proof -
  consider "MakeRoom s n = s" "n \<le> bs_capacity s" "bs_value s \<noteq> None" |
    c where "MakeRoom s n = s\<lparr>bs_value := Some (grow_fill 0 (bs_buf s) c), bs_capacity := c\<rparr>"
      "n \<le> c" "bs_capacity s \<le> c"
    using MakeRoom_cases [OF assms] by auto
  then have "bs_ok (MakeRoom s n) \<and> word_at (MakeRoom s n) w = word_at s w \<and>
    bs_value (MakeRoom s n) \<noteq> None \<and> n \<le> bs_capacity (MakeRoom s n) \<and>
    bs_capacity s \<le> bs_capacity (MakeRoom s n)"
    using grown_spec [OF assms(1)] assms(1) by cases auto
  then show "bs_ok (MakeRoom s n)" "word_at (MakeRoom s n) w = word_at s w" "bs_value (MakeRoom s n) \<noteq> None"
    "n \<le> bs_capacity (MakeRoom s n)" "bs_capacity s \<le> bs_capacity (MakeRoom s n)" by auto
qed

lemma MakeRoomFor_MakeRoom: "MakeRoomFor s i = MakeRoom s ((i + 64) div 64)"
  by (simp add: MakeRoomFor_def MakeRoom_def Let_def)

section \<open>Membership, insertion and removal\<close>

lemma bs_ok_init [simp]: "bs_ok BitSetInit" and bs_set_init [simp]: "bs_set BitSetInit = {}"
  by (auto simp: BitSetInit_def bs_ok_def bs_buf_def bs_set_def)

lemma bit_single: "bit (2 ^ k :: u64) j \<longleftrightarrow> j = k \<and> k < 64"
  by (auto simp: bit_exp_iff)

lemma and_single: "k < 64 \<Longrightarrow> Bit_Operations.and w (2 ^ k) \<noteq> 0 \<longleftrightarrow> bit (w :: u64) k"
proof -
  assume k: "k < 64"
  have "bit (Bit_Operations.and w (2 ^ k)) j \<longleftrightarrow> bit w k \<and> j = k" for j
    using k by (auto simp: bit_and_iff bit_single)
  then have b: "bit (Bit_Operations.and w (2 ^ k)) = (\<lambda>j. bit w k \<and> j = k)" by blast
  show ?thesis
  proof
    assume "Bit_Operations.and w (2 ^ k) \<noteq> 0"
    then obtain j where "bit (Bit_Operations.and w (2 ^ k)) j" by (metis bit_0_eq bit_eqI bot_apply bot_bool_def)
    then show "bit w k" by (simp only: b)
  next
    assume "bit w k"
    then have "bit (Bit_Operations.and w (2 ^ k)) k" by (simp only: b)
    then show "Bit_Operations.and w (2 ^ k) \<noteq> 0" by (metis bit_0_eq bot_apply bot_bool_def)
  qed
qed

lemma BitSetContains_iff: "BitSetContains s i \<longleftrightarrow> i \<in> bs_set s"
  by (auto simp: BitSetContains_def bs_set_def and_single)

lemma divmod_64_eq: "i div 64 = n div 64 \<Longrightarrow> i mod 64 = n mod 64 \<Longrightarrow> i = n" for i n :: nat
  by (metis div_mult_mod_eq)

lemma set_bit_spec:
  assumes "bs_ok s" "n div 64 < bs_capacity s"
  shows "bs_ok (bs_write (set_bit_in n) s)" "bs_set (bs_write (set_bit_in n) s) = insert n (bs_set s)"
proof -
  have v: "bs_value s \<noteq> None" using assms bs_ok_None [of s] by (intro notI) simp
  have l: "length (set_bit_in n (bs_buf s)) = length (bs_buf s)" by (simp add: set_bit_in_def)
  note w = bs_write_spec [OF assms(1) v, of "set_bit_in n", OF l]
  show "bs_ok (bs_write (set_bit_in n) s)" by (rule w(1))
  have "i \<in> bs_set (bs_write (set_bit_in n) s) \<longleftrightarrow> i = n \<or> i \<in> bs_set s" for i
    unfolding bs_set_word w(3) using assms bs_ok_length [OF assms(1)] divmod_64_eq [of i n]
    by (auto simp: set_bit_in_def word_at_def bit_or_iff bit_single nth_list_update)
  then show "bs_set (bs_write (set_bit_in n) s) = insert n (bs_set s)" by auto
qed

lemma BitSetInsert_spec:
  assumes "bs_ok s"
  shows "bs_ok (BitSetInsert s n)" "bs_set (BitSetInsert s n) = insert n (bs_set s)"
proof -
  let ?t = "MakeRoom s ((n + 64) div 64)"
  have pos: "0 < (n + 64) div 64" and d: "(n + 64) div 64 = Suc (n div 64)" by auto
  note m = MakeRoom_spec [OF assms pos]
  have "n div 64 < bs_capacity ?t" using m(4) d by linarith
  note g = set_bit_spec [OF m(1) this]
  have "bs_set ?t = bs_set s" using m(2) by (auto simp: bs_set_word)
  with g set_bit_spec [OF assms, of n]
  show "bs_ok (BitSetInsert s n)" "bs_set (BitSetInsert s n) = insert n (bs_set s)"
    by (auto simp: BitSetInsert_def BitSetInsertGrow_def MakeRoomFor_MakeRoom)
qed

lemma BitSetRemove_spec:
  assumes "bs_ok s"
  shows "bs_ok (BitSetRemove s n)" "bs_set (BitSetRemove s n) = bs_set s - {n}"
proof -
  let ?f = "\<lambda>b. b[n div 64 := Bit_Operations.and (b ! (n div 64))
                                   (Bit_Operations.not (push_bit (n mod 64) (1 :: u64)))]"
  have "bs_ok (BitSetRemove s n) \<and> bs_set (BitSetRemove s n) = bs_set s - {n}"
  proof (cases "n div 64 < bs_capacity s")
    case False
    with assms show ?thesis by (auto simp: BitSetRemove_def bs_set_def)
  next
    case True
    then have v: "bs_value s \<noteq> None" using assms bs_ok_None [of s] by (intro notI) simp
    have l: "length (?f (bs_buf s)) = length (bs_buf s)" by simp
    note w = bs_write_spec [OF assms v, of ?f, OF l]
    have r: "BitSetRemove s n = bs_write ?f s" using True by (simp add: BitSetRemove_def Let_def)
    have "i \<in> bs_set (bs_write ?f s) \<longleftrightarrow> i \<noteq> n \<and> i \<in> bs_set s" for i
      unfolding bs_set_word w(3) using True assms bs_ok_length [OF assms] divmod_64_eq [of i n]
      by (auto simp: word_at_def bit_and_iff bit_not_iff bit_single nth_list_update)
    with w(1) show ?thesis unfolding r by auto
  qed
  then show "bs_ok (BitSetRemove s n)" "bs_set (BitSetRemove s n) = bs_set s - {n}" by auto
qed

section \<open>Filling, intersection, union and copying\<close>

text \<open>The two-step writes: \<open>n\<close> words by a function, the remaining words cleared.\<close>

lemma fill_words_spec:
  assumes "bs_ok r" "bs_value r \<noteq> None" "n \<le> bs_capacity r"
  shows "bs_ok (fill_words f n r)" "word_at (fill_words f n r) w = (if w < n then f w else 0)"
proof -
  let ?f = "\<lambda>b. map f [0..<n] @ drop n b" and ?g = "\<lambda>b. mem_set b n 0 (bs_capacity r - n)"
  let ?r1 = "bs_write ?f r"
  have l: "length (?f (bs_buf r)) = length (bs_buf r)" using assms bs_ok_length by simp
  note w1 = bs_write_spec [OF assms(1,2), of ?f, OF l]
  have v1: "bs_value ?r1 \<noteq> None" using assms by simp
  have l2: "length (?g (bs_buf ?r1)) = length (bs_buf ?r1)"
    using assms bs_ok_length [OF w1(1)] by simp
  note w2 = bs_write_spec [OF w1(1) v1, of ?g, OF l2]
  have e: "fill_words f n r = (if bs_capacity r > n then bs_write ?g ?r1 else ?r1)"
    by (simp add: fill_words_def Let_def)
  show "bs_ok (fill_words f n r)" unfolding e using w1(1) w2(1) by simp
  show "word_at (fill_words f n r) w = (if w < n then f w else 0)"
  proof (cases "bs_capacity r > n")
    case True
    then have "word_at (fill_words f n r) w = word_at (bs_write ?g ?r1) w" by (simp add: e)
    also have "\<dots> = (if w < n then f w else 0)"
      unfolding w2(3) w1(2) using True bs_ok_length [OF assms(1)]
      by (auto simp: nth_mem_set nth_append)
    finally show ?thesis .
  next
    case False
    then have "word_at (fill_words f n r) w = word_at ?r1 w" by (simp add: e)
    also have "\<dots> = (if w < n then f w else 0)"
      unfolding w1(3) using False assms(3) by (auto simp: nth_append)
    finally show ?thesis .
  qed
qed

lemma BitSetClear_spec:
  assumes "bs_ok s"
  shows "bs_ok (BitSetClear s)" "bs_set (BitSetClear s) = {}"
proof -
  have "bs_ok (BitSetClear s) \<and> bs_set (BitSetClear s) = {}"
  proof (cases "bs_value s")
    case None
    with assms bs_ok_None [OF assms None] show ?thesis
      by (simp add: BitSetClear_def bs_set_def)
  next
    case (Some b)
    let ?g = "\<lambda>b. mem_set b 0 0 (bs_capacity s)"
    have v: "bs_value s \<noteq> None" using Some by simp
    have l: "length (?g (bs_buf s)) = length (bs_buf s)" using bs_ok_length [OF assms] by simp
    note w = bs_write_spec [OF assms v, of ?g, OF l]
    have "BitSetClear s = bs_write ?g s" using Some by (simp add: BitSetClear_def)
    moreover have "word_at (bs_write ?g s) i = 0" for i
      unfolding w(3) using bs_ok_length [OF assms] by (simp add: nth_mem_set)
    ultimately show ?thesis using w(1) by (auto simp: bs_set_word)
  qed
  then show "bs_ok (BitSetClear s)" "bs_set (BitSetClear s) = {}" by auto
qed

lemma BitSetIntersection_spec:
  assumes "bs_ok a" "bs_ok b" "bs_ok r"
  shows "bs_ok (BitSetIntersection a b r)" "bs_set (BitSetIntersection a b r) = bs_set a \<inter> bs_set b"
proof -
  define m where "m = min (bs_capacity a) (bs_capacity b)"
  have "bs_ok (BitSetIntersection a b r) \<and>
      bs_set (BitSetIntersection a b r) = bs_set a \<inter> bs_set b"
  proof (cases "m = 0")
    case True
    then have "bs_set a \<inter> bs_set b = {}" by (auto simp: bs_set_def m_def min_def split: if_splits)
    with True BitSetClear_spec [OF assms(3)] show ?thesis
      by (auto simp: BitSetIntersection_def Let_def m_def min_def split: if_splits)
  next
    case False
    let ?f = "\<lambda>i. Bit_Operations.and (bs_buf a ! i) (bs_buf b ! i)"
    have e: "BitSetIntersection a b r = fill_words ?f m (MakeRoom r m)"
      using False by (auto simp: BitSetIntersection_def Let_def m_def min_def)
    have pos: "0 < m" using False by simp
    note room = MakeRoom_spec [OF assms(3) pos]
    note w = fill_words_spec [OF room(1,3,4), of ?f]
    have "word_at (BitSetIntersection a b r) i = Bit_Operations.and (word_at a i) (word_at b i)" for i
      unfolding e w(2) by (auto simp: word_at_def m_def)
    with w(1) e show ?thesis by (auto simp: bs_set_word bit_and_iff)
  qed
  then show "bs_ok (BitSetIntersection a b r)"
    "bs_set (BitSetIntersection a b r) = bs_set a \<inter> bs_set b" by auto
qed

lemma BitSetUnion_spec:
  assumes "bs_ok a" "bs_ok b" "bs_ok r"
  shows "bs_ok (BitSetUnion a b r)" "bs_set (BitSetUnion a b r) = bs_set a \<union> bs_set b"
proof -
  define m where "m = max (bs_capacity a) (bs_capacity b)"
  let ?f = "\<lambda>i. Bit_Operations.or (word_at a i) (word_at b i)"
  have e: "BitSetUnion a b r = fill_words ?f m (MakeRoom r m)"
    by (auto simp: BitSetUnion_def Let_def m_def max_def word_at_def)
  have out: "word_at a i = 0" "word_at b i = 0" if "m \<le> i" for i
    using that by (auto simp: word_at_def m_def)
  have "bs_ok (BitSetUnion a b r) \<and> (\<forall>i. word_at (BitSetUnion a b r) i = ?f i)"
  proof (cases "m = 0 \<and> bs_value r = None")
    case True
    then have r: "MakeRoom r m = r" "bs_capacity r = 0" using bs_ok_None [OF assms(3)] by (auto simp: MakeRoom_def)
    then have "fill_words ?f m (MakeRoom r m) = r"
      using True by (simp add: fill_words_def bs_write_def)
    with True r out assms(3) show ?thesis unfolding e by (auto simp: word_at_def)
  next
    case False
    have "bs_ok (MakeRoom r m)" "bs_value (MakeRoom r m) \<noteq> None" "m \<le> bs_capacity (MakeRoom r m)"
      using MakeRoom_spec [OF assms(3), of m] False assms(3) by (cases "m = 0"; simp add: MakeRoom_def)+
    note w = fill_words_spec [OF this, of ?f]
    have "word_at (BitSetUnion a b r) i = ?f i" for i
      unfolding e w(2) using out [of i] by simp
    with w(1) e show ?thesis by simp
  qed
  then show "bs_ok (BitSetUnion a b r)" "bs_set (BitSetUnion a b r) = bs_set a \<union> bs_set b"
    by (auto simp: bs_set_word bit_or_iff)
qed

lemma BitSetUnionInPlace_spec:
  assumes "bs_ok d" "bs_ok s"
  shows "bs_ok (BitSetUnionInPlace d s)" "bs_set (BitSetUnionInPlace d s) = bs_set d \<union> bs_set s"
proof -
  define m where "m = max (bs_capacity d) (bs_capacity s)"
  let ?g = "\<lambda>b. map (\<lambda>i. if i < bs_capacity s then Bit_Operations.or (b ! i) (bs_buf s ! i) else b ! i)
              [0..<length b]"
  have e: "BitSetUnionInPlace d s = bs_write ?g (MakeRoom d m)"
    by (auto simp: BitSetUnionInPlace_def Let_def m_def max_def)
  have "bs_ok (BitSetUnionInPlace d s) \<and>
    (\<forall>i. word_at (BitSetUnionInPlace d s) i = Bit_Operations.or (word_at d i) (word_at s i))"
  proof (cases "m = 0")
    case True
    then have "MakeRoom d m = d" "bs_capacity d = 0" "bs_capacity s = 0" by (auto simp: MakeRoom_def m_def)
    moreover from this have "bs_write ?g d = d \<or> bs_buf d = []"
      using bs_ok_length [OF assms(1)] by auto
    ultimately show ?thesis unfolding e using assms(1)
      by (auto simp: word_at_def bs_write_def bs_ok_def bs_buf_def split: option.splits)
  next
    case False
    then have pos: "0 < m" by simp
    note room = MakeRoom_spec [OF assms(1) pos]
    have l: "length (?g (bs_buf (MakeRoom d m))) = length (bs_buf (MakeRoom d m))" by simp
    note w = bs_write_spec [OF room(1,3), of ?g, OF l]
    have "word_at (BitSetUnionInPlace d s) i = Bit_Operations.or (word_at d i) (word_at s i)" for i
      unfolding e w(3) room(2) [of i, symmetric] using room(4) bs_ok_length [OF room(1)]
      by (auto simp: word_at_def m_def)
    with w(1) e show ?thesis by simp
  qed
  then show "bs_ok (BitSetUnionInPlace d s)" "bs_set (BitSetUnionInPlace d s) = bs_set d \<union> bs_set s"
    by (auto simp: bs_set_word bit_or_iff)
qed

lemma BitSetCopy_fill:
  assumes "bs_ok t" "bs_ok s" "0 < bs_capacity s"
  shows "BitSetCopy t s = fill_words (\<lambda>i. bs_buf s ! i) (bs_capacity s) (MakeRoom t (bs_capacity s))"
proof -
  have "map (\<lambda>i. bs_buf s ! i) [0..<bs_capacity s] = take (bs_capacity s) (bs_buf s)"
    using bs_ok_length [OF assms(2)] by (intro nth_equalityI) auto
  with assms(3) show ?thesis by (simp add: BitSetCopy_def fill_words_def Let_def)
qed

lemma BitSetCopy_spec:
  assumes "bs_ok t" "bs_ok s"
  shows "bs_ok (BitSetCopy t s)" "bs_set (BitSetCopy t s) = bs_set s"
proof -
  have "bs_ok (BitSetCopy t s) \<and> bs_set (BitSetCopy t s) = bs_set s"
  proof (cases "bs_capacity s = 0")
    case True
    then have "BitSetCopy t s = BitSetClear t"
      using bs_ok_None [OF assms(1)] bs_ok_length [OF assms(1)]
      by (auto simp: BitSetCopy_def BitSetClear_def MakeRoom_def Let_def bs_write_def bs_buf_def mem_set_def)
    with True BitSetClear_spec [OF assms(1)] show ?thesis by (auto simp: bs_set_def)
  next
    case False
    then have pos: "0 < bs_capacity s" by simp
    note room = MakeRoom_spec [OF assms(1) pos]
    note w = fill_words_spec [OF room(1,3,4), of "\<lambda>i. bs_buf s ! i", folded BitSetCopy_fill [OF assms pos]]
    have "word_at (BitSetCopy t s) i = word_at s i" for i
      unfolding w(2) by (simp add: word_at_def)
    with w(1) show ?thesis by (auto simp: bs_set_word)
  qed
  then show "bs_ok (BitSetCopy t s)" "bs_set (BitSetCopy t s) = bs_set s" by auto
qed

section \<open>Equality\<close>

lemma word_at_eq_iff: "bs_set s = bs_set t \<longleftrightarrow> (\<forall>w. word_at s w = word_at t w)"
proof
  assume e: "bs_set s = bs_set t"
  have "word_at s w = word_at t w" for w
  proof (rule bit_word_eqI)
    fix j assume "j < LENGTH(64)"
    then have "j < 64" by simp
    from bs_set_mult [OF this, of w s] bs_set_mult [OF this, of w t] e
    show "bit (word_at s w) j = bit (word_at t w) j" by simp
  qed
  then show "\<forall>w. word_at s w = word_at t w" ..
qed (auto simp: bs_set_word)

lemma BitSetEqual_spec:
  assumes "bs_ok a" "bs_ok b"
  shows "BitSetEqual a b \<longleftrightarrow> bs_set a = bs_set b"
proof -
  define m where "m = min (bs_capacity a) (bs_capacity b)"
  define l where "l = (if bs_capacity a > bs_capacity b then a else b)"
  have e: "BitSetEqual a b \<longleftrightarrow> take m (bs_buf a) = take m (bs_buf b) \<and>
      (\<forall>i. m \<le> i \<longrightarrow> i < bs_capacity l \<longrightarrow> bs_buf l ! i = 0)"
    by (auto simp: BitSetEqual_def m_def l_def min_def list_all_iff)
  have t: "take m (bs_buf a) = take m (bs_buf b) \<longleftrightarrow> (\<forall>i < m. word_at a i = word_at b i)"
    using bs_ok_length [OF assms(1)] bs_ok_length [OF assms(2)]
    by (auto simp: list_eq_iff_nth_eq m_def word_at_def)
  have "(\<forall>i. m \<le> i \<longrightarrow> i < bs_capacity l \<longrightarrow> bs_buf l ! i = 0) \<longleftrightarrow> (\<forall>i \<ge> m. word_at a i = word_at b i)"
  proof (cases "bs_capacity a > bs_capacity b")
    case True
    then have "word_at b i = 0" if "m \<le> i" for i using that by (simp add: word_at_def m_def)
    with True show ?thesis by (auto simp: l_def word_at_def)
  next
    case False
    then have "word_at a i = 0" if "m \<le> i" for i using that by (simp add: word_at_def m_def)
    with False show ?thesis by (auto simp: l_def word_at_def)
  qed
  with e t show ?thesis unfolding word_at_eq_iff by (metis not_le)
qed

section \<open>Filling\<close>

lemma nat_in_word: "(i :: nat) < n \<longleftrightarrow>
    i div 64 < n div 64 \<or> i div 64 = n div 64 \<and> i mod 64 < n mod 64"
proof -
  have "i = 64 * (i div 64) + i mod 64" "n = 64 * (n div 64) + n mod 64" "i mod 64 < 64" "n mod 64 < 64"
    by simp_all
  then show ?thesis by linarith
qed

lemma bit_ones_below: "j < 64 \<Longrightarrow> k < 64 \<Longrightarrow> bit (2 ^ k - 1 :: u64) j \<longleftrightarrow> j < k"
  by (simp add: mask_eq_exp_minus_1 [symmetric] bit_mask_iff)

lemma fill_bit:
  assumes "r < 64" "R < 64" "words = (if R = 0 then Q else Suc Q)"
  shows "bit (if q < words then if q = words - 1 \<and> R \<noteq> 0 then push_bit R 1 - 1 else - 1 else 0 :: u64) r
    \<longleftrightarrow> q < Q \<or> q = Q \<and> r < R"
  using assms bit_ones_below [of r R] by (cases "R = 0"; cases q Q rule: linorder_cases) simp_all

lemma words_needed: "(r :: nat) < 64 \<Longrightarrow> (64 * q + r + 63) div 64 = (if r = 0 then q else Suc q)"
  by (rule div_nat_eqI) auto

lemma BitSetFill_spec:
  assumes "bs_ok s" and n: "n + 63 < 2 ^ 64"
  shows "bs_ok (BitSetFill s n)" "bs_set (BitSetFill s n) = {..<n}"
proof -
  define words where "words = (n + 63) div 64"
  have size: "((n + 63) mod 2 ^ 64) div 64 = words" using n by (simp add: words_def)
  let ?f = "\<lambda>i. if i = words - 1 \<and> n mod 64 \<noteq> 0 then push_bit (n mod 64) 1 - 1 else - 1 :: u64"
  have "bs_ok (BitSetFill s n) \<and> bs_set (BitSetFill s n) = {..<n}"
  proof (cases "words = 0")
    case True
    then have "n = 0" by (simp add: words_def)
    moreover have "BitSetFill s n = BitSetClear s"
      using True bs_ok_None [OF assms(1)] bs_ok_length [OF assms(1)] unfolding BitSetFill_def size
      by (cases "bs_value s") (auto simp: BitSetClear_def bs_write_def bs_buf_def mem_set_def)
    ultimately show ?thesis using BitSetClear_spec [OF assms(1)] by simp
  next
    case False
    then have pos: "0 < words" by simp
    let ?r = "MakeRoom s words"
    note room = MakeRoom_spec [OF assms(1) pos]
    obtain b where b: "bs_value ?r = Some b" using room(3) by blast
    then have lb: "length b = bs_capacity ?r" using bs_ok_length [OF room(1)] by (simp add: bs_buf_def)
    have upd: "(mem_set b 0 (- 1) words)[words - 1 := push_bit (n mod 64) 1 - 1] = map ?f [0..<words] @ drop words b"
      if "n mod 64 \<noteq> 0"
      using that pos lb room(4) by (intro nth_equalityI) (auto simp: mem_set_def nth_append nth_list_update)
    have fl: "mem_set b 0 (- 1) words = map ?f [0..<words] @ drop words b" if "n mod 64 = 0"
      using that pos lb room(4) by (intro nth_equalityI) (auto simp: mem_set_def nth_append)
    have w2: "bs_write f (bs_write g ?r) = bs_write (\<lambda>b. f (g b)) ?r" for f g
      by (simp add: bs_write_def b)
    have wc: "bs_write f ?r = bs_write g ?r" if "f b = g b" for f g
      using that by (simp add: bs_write_def b)
    define body where "body = (if n mod 64 \<noteq> 0
        then bs_write (\<lambda>b. b[words - 1 := push_bit (n mod 64) 1 - 1]) (bs_write (\<lambda>b. mem_set b 0 (- 1) words) ?r)
        else bs_write (\<lambda>b. mem_set b 0 (- 1) words) ?r)"
    have body: "body = bs_write (\<lambda>b. map ?f [0..<words] @ drop words b) ?r"
      unfolding body_def w2 using upd fl by (auto intro!: wc)
    have e: "BitSetFill s n = fill_words ?f words ?r"
      unfolding BitSetFill_def fill_words_def Let_def size body [symmetric]
        body_def [symmetric] if_P [OF False] ..
    note w = fill_words_spec [OF room(1,3,4), of ?f]
    have mem: "bit (word_at (BitSetFill s n) (i div 64)) (i mod 64) \<longleftrightarrow> i < n" for i
    proof -
      have j: "i mod 64 < 64" by simp
      have k: "n mod 64 < 64" by simp
      have wd: "words = (if n mod 64 = 0 then n div 64 else Suc (n div 64))"
        using words_needed [of "n mod 64" "n div 64"] by (simp add: words_def)
      show ?thesis unfolding e w(2) nat_in_word [of i n] by (rule fill_bit [OF j k wd])
    qed
    have "bs_set (BitSetFill s n) = {..<n}"
      by (rule set_eqI, simp only: bs_set_word mem lessThan_iff)
    moreover have "bs_ok (BitSetFill s n)" unfolding e by (rule w(1))
    ultimately show ?thesis by simp
  qed
  then show "bs_ok (BitSetFill s n)" "bs_set (BitSetFill s n) = {..<n}" by auto
qed

section \<open>The first set and the first clear bit\<close>

lemma ctz_from_spec:
  assumes "\<exists>j \<ge> i. j < 64 \<and> bit w j"
  shows "i \<le> ctz_from w i \<and> ctz_from w i < 64 \<and> bit w (ctz_from w i) \<and>
    (\<forall>j. i \<le> j \<longrightarrow> j < ctz_from w i \<longrightarrow> \<not> bit w j)"
  using assms
proof (induction w i rule: ctz_from.induct)
  case (1 w i)
  show ?case
  proof (cases "i < 64 \<and> \<not> bit w i")
    case True
    have "\<exists>j \<ge> i + 1. j < 64 \<and> bit w j" using True "1.prems" by (metis Suc_eq_plus1 le_neq_implies_less Suc_leI)
    from "1.IH" [OF True this] True show ?thesis
      by (simp add: ctz_from.simps [of w i]) (metis le_neq_implies_less Suc_leI)
  next
    case False
    with "1.prems" show ?thesis by (auto simp: ctz_from.simps [of w i])
  qed
qed

lemma ctzll_spec:
  assumes "w \<noteq> 0"
  shows "ctzll w < 64" "bit w (ctzll w)" "j < ctzll w \<Longrightarrow> \<not> bit w j"
proof -
  have "\<exists>j. bit w j" using assms by (metis bit_0_eq bit_eqI bot_apply bot_bool_def)
  then have "\<exists>j \<ge> 0. j < 64 \<and> bit w j" using bit_imp_le_length [of w] by fastforce
  from ctz_from_spec [OF this]
  show "ctzll w < 64" "bit w (ctzll w)" "j < ctzll w \<Longrightarrow> \<not> bit w j" by (auto simp: ctzll_def)
qed

text \<open>The numbers found by the search loop, for a function of the words.\<close>

lemma first_set_loop_spec:
  assumes "\<And>v. v < w \<Longrightarrow> v < bs_capacity s \<Longrightarrow> f (bs_buf s ! v) = 0"
  shows "first_set_loop f s w =
    (if \<forall>v < bs_capacity s. f (bs_buf s ! v) = 0 then SIZE_MAX
     else (LEAST i. i div 64 < bs_capacity s \<and> bit (f (bs_buf s ! (i div 64))) (i mod 64)))"
  using assms
proof (induction f s w rule: first_set_loop.induct)
  case (1 f s w)
  note unf = first_set_loop.simps [of f s w]
  show ?case
  proof (cases "w < bs_capacity s")
    case False
    with "1.prems" show ?thesis by (simp add: unf)
  next
    case True
    show ?thesis
    proof (cases "f (bs_buf s ! w) = 0")
      case z: True
      have "first_set_loop f s (w + 1) =
        (if \<forall>v < bs_capacity s. f (bs_buf s ! v) = 0 then SIZE_MAX
         else (LEAST i. i div 64 < bs_capacity s \<and> bit (f (bs_buf s ! (i div 64))) (i mod 64)))"
        using True z "1.prems" by (intro "1.IH" [OF True refl]) (auto simp: FindFirstSet64_def less_Suc_eq)
      moreover have "first_set_loop f s w = first_set_loop f s (w + 1)"
        using True z by (simp add: unf FindFirstSet64_def)
      ultimately show ?thesis by simp
    next
      case nz: False
      let ?P = "\<lambda>i. i div 64 < bs_capacity s \<and> bit (f (bs_buf s ! (i div 64))) (i mod 64)"
      let ?x = "f (bs_buf s ! w)" and ?i = "w * 64 + ctzll (f (bs_buf s ! w))"
      note c = ctzll_spec [OF nz]
      have "(LEAST i. ?P i) = ?i"
      proof (rule Least_equality)
        show "?P ?i" using c(1,2) True by simp
        fix i assume i: "?P i"
        have "\<not> i div 64 < w" using i "1.prems" [of "i div 64"] by auto
        moreover have "\<not> i mod 64 < ctzll ?x" if "i div 64 = w" using i c(3) that by auto
        moreover have "i = 64 * (i div 64) + i mod 64" by simp
        ultimately show "?i \<le> i" using c(1) by linarith
      qed
      then show ?thesis using True nz by (auto simp: unf FindFirstSet64_def)
    qed
  qed
qed

lemma word_nonzero: "(w :: u64) \<noteq> 0 \<longleftrightarrow> (\<exists>j < 64. bit w j)"
  using ctzll_spec(1,2) [of w] by auto

lemma BitSetFindFirstSet_spec:
  "BitSetFindFirstSet s = (if bs_set s = {} then SIZE_MAX else (LEAST i. i \<in> bs_set s))"
proof -
  have "(\<forall>v < bs_capacity s. bs_buf s ! v = 0) \<longleftrightarrow> bs_set s = {}"
  proof
    assume e: "bs_set s = {}"
    have "\<not> bit (bs_buf s ! v) j" if "v < bs_capacity s" "j < 64" for v j
      using bs_set_mult [OF that(2), of v s] e that(1) by (simp add: word_at_def)
    then show "\<forall>v < bs_capacity s. bs_buf s ! v = 0" using word_nonzero by blast
  qed (auto simp: bs_set_def)
  moreover have "(\<lambda>i. i div 64 < bs_capacity s \<and> bit (bs_buf s ! (i div 64)) (i mod 64)) = (\<lambda>i. i \<in> bs_set s)"
    by (simp add: bs_set_def)
  moreover have "BitSetFindFirstSet s = (if \<forall>v < bs_capacity s. bs_buf s ! v = 0 then SIZE_MAX
     else (LEAST i. i div 64 < bs_capacity s \<and> bit (bs_buf s ! (i div 64)) (i mod 64)))"
    unfolding BitSetFindFirstSet_def by (rule first_set_loop_spec) simp
  ultimately show ?thesis by presburger
qed

text \<open>A clear bit is searched only among the numbers the words of the set have room for.\<close>

lemma BitSetFindFirstClear_spec:
  "BitSetFindFirstClear s =
    (if {..< 64 * bs_capacity s} \<subseteq> bs_set s then SIZE_MAX else (LEAST i. i \<notin> bs_set s))"
proof -
  let ?not = "\<lambda>w :: u64. Bit_Operations.not w"
  let ?Q = "\<lambda>i. i div 64 < bs_capacity s \<and> bit (?not (bs_buf s ! (i div 64))) (i mod 64)"
  have Q: "?Q i \<longleftrightarrow> i < 64 * bs_capacity s \<and> i \<notin> bs_set s" for i
  proof -
    have "i div 64 < bs_capacity s \<longleftrightarrow> i < 64 * bs_capacity s" by auto
    then show ?thesis by (auto simp: bs_set_def bit_not_iff)
  qed
  have all: "(\<forall>v < bs_capacity s. ?not (bs_buf s ! v) = 0) \<longleftrightarrow> {..< 64 * bs_capacity s} \<subseteq> bs_set s"
  proof
    assume "\<forall>v < bs_capacity s. ?not (bs_buf s ! v) = 0"
    then have "\<not> ?Q i" for i by auto
    then show "{..< 64 * bs_capacity s} \<subseteq> bs_set s" using Q by blast
  next
    assume sub: "{..< 64 * bs_capacity s} \<subseteq> bs_set s"
    have "\<not> bit (?not (bs_buf s ! v)) j" if "v < bs_capacity s" "j < 64" for v j
      using Q [of "64 * v + j"] that sub by auto
    then show "\<forall>v < bs_capacity s. ?not (bs_buf s ! v) = 0" using word_nonzero by blast
  qed
  have r: "BitSetFindFirstClear s =
      (if \<forall>v < bs_capacity s. ?not (bs_buf s ! v) = 0 then SIZE_MAX else (LEAST i. ?Q i))"
    unfolding BitSetFindFirstClear_def by (rule first_set_loop_spec) simp
  show ?thesis
  proof (cases "{..< 64 * bs_capacity s} \<subseteq> bs_set s")
    case False
    then obtain k where k: "k < 64 * bs_capacity s" "k \<notin> bs_set s" by auto
    have "(LEAST i. ?Q i) = (LEAST i. i \<notin> bs_set s)"
    proof (rule Least_equality)
      let ?l = "LEAST i. i \<notin> bs_set s"
      have "?l \<notin> bs_set s" by (rule LeastI [of "\<lambda>i. i \<notin> bs_set s", OF k(2)])
      moreover have "?l \<le> k" by (rule Least_le) (rule k(2))
      ultimately show "?Q ?l" using Q k(1) by auto
      show "?l \<le> y" if "?Q y" for y using that Q by (intro Least_le) simp
    qed
    with False r show ?thesis unfolding all by presburger
  next
    case True
    with r show ?thesis unfolding all by presburger
  qed
qed

section \<open>Listing the members\<close>

definition members :: "u64 \<Rightarrow> nat list" where
  "members w = filter (bit w) [0..<64]"

definition values_from :: "bitset \<Rightarrow> nat \<Rightarrow> nat list" where
  "values_from s w = concat (map (\<lambda>v. map (\<lambda>b. v * 64 + b) (members (bs_buf s ! v))) [w..<bs_capacity s])"

lemma members_zero [simp]: "members 0 = []"
  by (simp add: members_def)

lemma word_bits_members: "word_bits w v = map (\<lambda>b. v * 64 + b) (members w)"
proof -
  have "filter (\<lambda>b. Bit_Operations.and w (push_bit b 1) \<noteq> 0) [0..<64] = filter (bit w) [0..<64]"
    by (rule filter_cong) (auto simp: and_single)
  then show ?thesis by (simp add: word_bits_def members_def)
qed

lemma concat_filter_upt:
  "concat (map (\<lambda>v. filter P [v * 64..<v * 64 + 64]) [0..<n]) = filter P [0..<n * 64]"
proof (induction n)
  case (Suc n)
  have "[0..<Suc n * 64] = [0..<n * 64] @ [n * 64..<n * 64 + 64]"
    by (subst upt_add_eq_append [symmetric]) (simp_all add: add.commute)
  with Suc show ?case by simp
qed simp

lemma members_upt: "map (\<lambda>b. v * 64 + b) (members w) = filter (\<lambda>i. bit w (i mod 64)) [v * 64..<v * 64 + 64]"
proof -
  have "[v * 64..<v * 64 + 64] = map (\<lambda>b. v * 64 + b) [0..<64]"
    using map_add_upt [of "v * 64" 64] by (simp add: add.commute)
  then have "filter (\<lambda>i. bit w (i mod 64)) [v * 64..<v * 64 + 64] =
      map (\<lambda>b. v * 64 + b) (filter (\<lambda>b. bit w ((v * 64 + b) mod 64)) [0..<64])"
    by (simp only: filter_map o_def)
  moreover have "filter (\<lambda>b. bit w ((v * 64 + b) mod 64)) [0..<64] = members w"
    unfolding members_def by (rule filter_cong) auto
  ultimately show ?thesis by simp
qed

lemma values_filter: "values_from s 0 = filter (\<lambda>i. i \<in> bs_set s) [0..<bs_capacity s * 64]"
proof -
  have "map (\<lambda>b. v * 64 + b) (members (bs_buf s ! v)) = filter (\<lambda>i. i \<in> bs_set s) [v * 64..<v * 64 + 64]"
    if "v < bs_capacity s" for v
  proof -
    have "i div 64 = v" if "i \<in> set [v * 64..<v * 64 + 64]" for i
      by (rule div_nat_eqI) (use that in auto)
    with that show ?thesis unfolding members_upt
      by (intro filter_cong refl) (simp add: bs_set_def)
  qed
  then have "values_from s 0 =
      concat (map (\<lambda>v. filter (\<lambda>i. i \<in> bs_set s) [v * 64..<v * 64 + 64]) [0..<bs_capacity s])"
    unfolding values_from_def by (intro arg_cong [of _ _ concat] map_cong refl) simp
  then show ?thesis unfolding concat_filter_upt .
qed

lemma values_sorted_list: "values_from s 0 = sorted_list_of_set (bs_set s)"
proof -
  have "i < bs_capacity s * 64" if "i \<in> bs_set s" for i
    using that by (auto simp: bs_set_def)
  then have "set (values_from s 0) = bs_set s" by (auto simp: values_filter)
  moreover have "sorted (values_from s 0)" "distinct (values_from s 0)"
    by (simp_all add: values_filter sorted_wrt_filter)
  ultimately show ?thesis using sorted_list_of_set.idem_if_sorted_distinct by metis
qed

lemma length_members: "length (members w) \<le> 64"
  unfolding members_def using length_filter_le [of "bit w" "[0..<64]"] by simp

lemma length_values: "length (values_from s 0) \<le> 64 * bs_capacity s"
  unfolding values_filter using length_filter_le [of "\<lambda>i. i \<in> bs_set s" "[0..<bs_capacity s * 64]"] by simp

text \<open>Clearing the lowest set bit: \<open>w & (w - 1)\<close>.\<close>

lemma bit_clear_lowest:
  fixes w :: u64
  assumes "w \<noteq> 0"
  shows "bit (Bit_Operations.and w (w - 1)) j \<longleftrightarrow> bit w j \<and> j \<noteq> ctzll w"
proof -
  let ?k = "ctzll w"
  define hi where "hi = Bit_Operations.and w (Bit_Operations.not (2 ^ ?k))"
  note k = ctzll_spec [OF assms]
  have bh: "bit hi i \<longleftrightarrow> bit w i \<and> i \<noteq> ?k" for i
    using k(1) bit_imp_le_length [of w i] by (auto simp: hi_def bit_and_iff bit_not_iff bit_single)
  have w: "w = hi + 2 ^ ?k"
  proof -
    have "hi + 2 ^ ?k = Bit_Operations.or hi (2 ^ ?k)"
      by (rule disjunctive_add) (auto simp: bh bit_single)
    also have "\<dots> = w"
      by (rule bit_word_eqI) (use k in \<open>auto simp: bit_or_iff bh bit_single\<close>)
    finally show ?thesis ..
  qed
  have "w - 1 = hi + (2 ^ ?k - 1)" by (subst w) simp
  also have "\<dots> = hi + mask ?k" by (simp add: mask_eq_exp_minus_1)
  also have "\<dots> = Bit_Operations.or hi (mask ?k)"
    by (rule disjunctive_add) (use k bh in \<open>auto simp: bit_mask_iff\<close>)
  finally have m: "w - 1 = Bit_Operations.or hi (mask ?k)" .
  have "bit (Bit_Operations.and w (w - 1)) j \<longleftrightarrow> bit w j \<and> (bit hi j \<or> bit (mask ?k :: u64) j)"
    unfolding m by (simp add: bit_and_iff bit_or_iff)
  with k(3) [of j] bh show ?thesis by (auto simp: bit_mask_iff)
qed

lemma members_step:
  assumes "w \<noteq> 0"
  shows "members w = ctzll w # members (Bit_Operations.and w (w - 1))"
proof -
  let ?k = "ctzll w"
  note k = ctzll_spec [OF assms]
  have u: "[0..<64] = [0..<?k] @ ?k # [Suc ?k..<64]"
    using k(1) by (metis less_imp_add_positive upt_add_eq_append upt_conv_Cons zero_le)
  have c: "filter (bit (Bit_Operations.and w (w - 1))) [Suc ?k..<64] = filter (bit w) [Suc ?k..<64]"
    by (rule filter_cong) (auto simp: bit_clear_lowest [OF assms])
  have z: "filter (bit w) [0..<?k] = []" "filter (bit (Bit_Operations.and w (w - 1))) [0..<?k] = []"
    using k(3) by (auto simp: bit_clear_lowest [OF assms] filter_empty_conv)
  have "\<not> bit (Bit_Operations.and w (w - 1)) ?k" by (simp add: bit_clear_lowest [OF assms])
  with k(2) c z show ?thesis unfolding members_def u by simp
qed

section \<open>The iterator\<close>

definition iter_ok :: "bitset \<Rightarrow> bs_iter \<Rightarrow> bool" where
  "iter_ok s it \<longleftrightarrow> (it_word it < bs_capacity s \<longrightarrow> it_remaining it \<noteq> 0 \<and> it_bit it = ctzll (it_remaining it))"

definition still_to_come :: "bitset \<Rightarrow> bs_iter \<Rightarrow> nat list" where
  "still_to_come s it =
     (if it_word it < bs_capacity s
      then map (\<lambda>b. it_word it * 64 + b) (members (it_remaining it)) @ values_from s (Suc (it_word it))
      else [])"

lemma values_from_Cons:
  "w < bs_capacity s \<Longrightarrow>
   values_from s w = map (\<lambda>b. w * 64 + b) (members (bs_buf s ! w)) @ values_from s (Suc w)"
  by (simp add: values_from_def upt_conv_Cons)

lemma values_from_Nil: "bs_capacity s \<le> w \<Longrightarrow> values_from s w = []"
  by (simp add: values_from_def)

lemma skip_zero_words_spec:
  "values_from s (skip_zero_words s w) = values_from s w \<and>
   (skip_zero_words s w < bs_capacity s \<longrightarrow> bs_buf s ! skip_zero_words s w \<noteq> 0)"
proof (induction s w rule: skip_zero_words.induct)
  case (1 s w)
  show ?case
  proof (cases "w < bs_capacity s \<and> bs_buf s ! w = 0")
    case True
    then have "values_from s w = values_from s (w + 1)" by (simp add: values_from_Cons [of w s])
    moreover have "skip_zero_words s w = skip_zero_words s (w + 1)"
      using True by (subst skip_zero_words.simps) simp
    ultimately show ?thesis using "1.IH" [OF True] by simp
  next
    case False
    then have "skip_zero_words s w = w" unfolding skip_zero_words.simps [of s w] by (rule if_not_P)
    with False show ?thesis by simp
  qed
qed

text \<open>Positioned at a nonzero word, or past the end, the iterator still has \<open>values_from\<close> to list.\<close>

lemma positioned:
  assumes "w < bs_capacity s \<longrightarrow> bs_buf s ! w \<noteq> 0"
    "it = (if w < bs_capacity s
           then \<lparr>it_word = w, it_bit = ctzll (bs_buf s ! w), it_remaining = bs_buf s ! w\<rparr>
           else \<lparr>it_word = w, it_bit = 0, it_remaining = 0\<rparr>)"
  shows "iter_ok s it \<and> still_to_come s it = values_from s w"
proof (cases "w < bs_capacity s")
  case True
  then have "it_word it = w" "it_bit it = ctzll (bs_buf s ! w)" "it_remaining it = bs_buf s ! w"
    using assms(2) by simp_all
  with True assms(1) show ?thesis
    by (simp only: iter_ok_def still_to_come_def values_from_Cons if_True simp_thms)
next
  case False
  then have "it_word it = w" using assms(2) by simp
  with False show ?thesis by (simp add: iter_ok_def still_to_come_def values_from_Nil)
qed

lemma BitSetIteratorStart_spec:
  "iter_ok s (BitSetIteratorStart s)" "still_to_come s (BitSetIteratorStart s) = values_from s 0"
proof -
  let ?w = "skip_zero_words s 0"
  note sk = skip_zero_words_spec [of s 0]
  have "iter_ok s (BitSetIteratorStart s) \<and> still_to_come s (BitSetIteratorStart s) = values_from s ?w"
    by (rule positioned [OF conjunct2 [OF sk]]) (simp only: BitSetIteratorStart_def Let_def)
  with sk show "iter_ok s (BitSetIteratorStart s)"
    "still_to_come s (BitSetIteratorStart s) = values_from s 0" by simp_all
qed

lemma BitSetIteratorDone_iff:
  assumes "bs_ok s" "iter_ok s it"
  shows "BitSetIteratorDone s it \<longleftrightarrow> still_to_come s it = []"
  using assms(2) bs_ok_None [OF assms(1)] members_step [of "it_remaining it"]
  by (cases "bs_value s") (auto simp: BitSetIteratorDone_def still_to_come_def iter_ok_def)

lemma BitSetIteratorNext_spec:
  assumes "bs_ok s" "iter_ok s it" "\<not> BitSetIteratorDone s it"
  shows "iter_ok s (BitSetIteratorNext s it)"
    "still_to_come s it = BitSetIteratorValue it # still_to_come s (BitSetIteratorNext s it)"
proof -
  let ?rem = "Bit_Operations.and (it_remaining it) (it_remaining it - 1)"
  have w: "it_word it < bs_capacity s" using assms(3) by (auto simp: BitSetIteratorDone_def)
  then have r: "it_remaining it \<noteq> 0" "it_bit it = ctzll (it_remaining it)"
    using assms(2) by (auto simp: iter_ok_def)
  have hd: "still_to_come s it = BitSetIteratorValue it #
      map (\<lambda>b. it_word it * 64 + b) (members ?rem) @ values_from s (Suc (it_word it))"
    using w r(2) members_step [OF r(1)] by (simp add: still_to_come_def BitSetIteratorValue_def)
  have "iter_ok s (BitSetIteratorNext s it) \<and>
    still_to_come s (BitSetIteratorNext s it) =
      map (\<lambda>b. it_word it * 64 + b) (members ?rem) @ values_from s (Suc (it_word it))"
  proof (cases "?rem = 0")
    case False
    with assms(3) w show ?thesis
      by (simp add: BitSetIteratorNext_def Let_def iter_ok_def still_to_come_def)
  next
    case True
    let ?w = "skip_zero_words s (it_word it + 1)"
    note sk = skip_zero_words_spec [of s "it_word it + 1"]
    have "iter_ok s (BitSetIteratorNext s it) \<and> still_to_come s (BitSetIteratorNext s it) = values_from s ?w"
      by (rule positioned) (use True assms(3) sk in \<open>simp_all add: BitSetIteratorNext_def Let_def\<close>)
    with True sk show ?thesis by simp
  qed
  with hd show "iter_ok s (BitSetIteratorNext s it)"
    "still_to_come s it = BitSetIteratorValue it # still_to_come s (BitSetIteratorNext s it)" by auto
qed

lemma iterate_spec:
  "bs_ok s \<Longrightarrow> iter_ok s it \<Longrightarrow> length (still_to_come s it) \<le> fuel \<Longrightarrow>
   iterate fuel s it = Some (still_to_come s it)"
proof (induction fuel arbitrary: it)
  case 0
  then show ?case by (simp add: iterate.simps BitSetIteratorDone_iff)
next
  case (Suc n)
  show ?case
  proof (cases "BitSetIteratorDone s it")
    case True
    with Suc.prems show ?thesis by (simp add: iterate.simps BitSetIteratorDone_iff)
  next
    case False
    note nx = BitSetIteratorNext_spec [OF Suc.prems(1,2) False]
    have "iterate n s (BitSetIteratorNext s it) = Some (still_to_come s (BitSetIteratorNext s it))"
      using Suc.prems nx by (intro Suc.IH) auto
    with False nx(2) show ?thesis by (simp add: iterate.simps)
  qed
qed

lemma BitSetValues_spec: "bs_ok s \<Longrightarrow> BitSetValues s = Some (sorted_list_of_set (bs_set s))"
  using iterate_spec [OF _ BitSetIteratorStart_spec(1), of s] length_values [of s]
  by (simp add: BitSetValues_def BitSetIteratorStart_spec(2) values_sorted_list [symmetric])

section \<open>Expansion and counting\<close>

lemma VectorAppend_foldl:
  assumes "vec_ok v"
  shows "vec_ok (foldl VectorAppend v xs) \<and> vec_list (foldl VectorAppend v xs) = vec_list v @ xs"
proof (induction xs rule: rev_induct)
  case (snoc x xs)
  then show ?case by (simp add: VectorAppend_ok VectorAppend_list)
qed (use assms in simp)

lemma BitSetExpand_spec:
  assumes "vec_ok v"
  shows "vec_ok (BitSetExpand s v)"
    "vec_list (BitSetExpand s v) = vec_list v @ map of_nat (sorted_list_of_set (bs_set s))"
proof -
  have fl: "foldl (\<lambda>v index. VectorAppend v (of_nat index)) v is = foldl VectorAppend v (map of_nat is)"
    for v :: cvec and "is" :: "nat list"
    by (induction "is" arbitrary: v) auto
  have "BitSetExpand s v = foldl VectorAppend v (map of_nat (values_from s 0))"
    unfolding BitSetExpand_def fl by (simp add: values_from_def word_bits_members)
  with VectorAppend_foldl [OF assms] show "vec_ok (BitSetExpand s v)"
    "vec_list (BitSetExpand s v) = vec_list v @ map of_nat (sorted_list_of_set (bs_set s))"
    by (simp_all add: values_sorted_list)
qed

lemma BitSetCount_spec: "BitSetCount s = card (bs_set s)"
proof -
  have fl: "foldl (\<lambda>count word. count + popcountll (bs_buf s ! word)) n ws =
      n + length (concat (map (\<lambda>v. map (\<lambda>b. v * 64 + b) (members (bs_buf s ! v))) ws))" for n ws
    by (induction ws arbitrary: n) (auto simp: popcountll_def members_def)
  have "BitSetCount s = length (values_from s 0)"
    unfolding BitSetCount_def fl by (simp add: values_from_def)
  then show ?thesis by (simp add: values_sorted_list)
qed

section \<open>The contract of the data-flow analyses\<close>

text \<open>
  A number set as the analyses use it: membership, insertion, union in place,
  intersection and copy into a set whose old value does not matter, and equality.
\<close>

locale number_set =
  fixes ok :: "'s \<Rightarrow> bool"
    and elems :: "'s \<Rightarrow> nat set"
    and member :: "'s \<Rightarrow> nat \<Rightarrow> bool"
    and add :: "'s \<Rightarrow> nat \<Rightarrow> 's"
    and union_into :: "'s \<Rightarrow> 's \<Rightarrow> 's"
    and inter :: "'s \<Rightarrow> 's \<Rightarrow> 's \<Rightarrow> 's"
    and copy :: "'s \<Rightarrow> 's \<Rightarrow> 's"
    and same :: "'s \<Rightarrow> 's \<Rightarrow> bool"
  assumes member_iff: "ok s \<Longrightarrow> member s i \<longleftrightarrow> i \<in> elems s"
    and add: "ok s \<Longrightarrow> ok (add s i) \<and> elems (add s i) = insert i (elems s)"
    and union_into: "ok s \<Longrightarrow> ok t \<Longrightarrow> ok (union_into s t) \<and> elems (union_into s t) = elems s \<union> elems t"
    and inter: "ok a \<Longrightarrow> ok b \<Longrightarrow> ok r \<Longrightarrow> ok (inter a b r) \<and> elems (inter a b r) = elems a \<inter> elems b"
    and copy: "ok t \<Longrightarrow> ok s \<Longrightarrow> ok (copy t s) \<and> elems (copy t s) = elems s"
    and same_iff: "ok a \<Longrightarrow> ok b \<Longrightarrow> same a b \<longleftrightarrow> elems a = elems b"
begin

lemma add_all:
  assumes "ok s"
  shows "ok (foldl add s is) \<and> elems (foldl add s is) = elems s \<union> set is"
  by (induction "is" rule: rev_induct) (use assms add in auto)

lemma union_all:
  assumes "ok s" "\<forall>t \<in> set ts. ok t"
  shows "ok (foldl union_into s ts) \<and> elems (foldl union_into s ts) = elems s \<union> (\<Union>t \<in> set ts. elems t)"
  using assms(2)
proof (induction ts rule: rev_induct)
  case (snoc t ts)
  then show ?case using union_into [of "foldl union_into s ts" t] by auto
qed (use assms(1) in simp)

lemma inter_all:
  assumes "ok s" "\<forall>t \<in> set ts. ok t"
  shows "ok (foldl (\<lambda>r t. inter r t r) s ts) \<and>
    elems (foldl (\<lambda>r t. inter r t r) s ts) = elems s \<inter> (\<Inter>t \<in> set ts. elems t)"
  using assms(2)
proof (induction ts rule: rev_induct)
  case (snoc t ts)
  then show ?case
    using inter [of "foldl (\<lambda>r t. inter r t r) s ts" t "foldl (\<lambda>r t. inter r t r) s ts"] by auto
qed (use assms(1) in simp)

end

interpretation bit_store: number_set bs_ok bs_set BitSetContains BitSetInsert
  BitSetUnionInPlace BitSetIntersection BitSetCopy BitSetEqual
  by unfold_locales
    (auto simp: BitSetContains_iff BitSetInsert_spec BitSetUnionInPlace_spec BitSetIntersection_spec
      BitSetCopy_spec BitSetEqual_spec)

end
