(* ===== verification/Containers.thy ===== *)
theory Containers
  imports CMapSpec CSet CBitSetSpec
begin

text \<open>
  The theorems about the containers of \<open>c_compiler/util\<close>: what the clients of the map,
  the set, the vector and the bit set may rely on.
\<close>

section \<open>The sorted-array map\<close>

text \<open>
  C17. \<open>MapInsert\<close> is a finite-map update, for each of the six comparison functions of \<open>map.c\<close>
  (64-bit integers, pointers, character strings and \<open>String\<close>s with and without case): it never
  fails its assertion, keeps the array strictly sorted, returns the value the key had (or 0), and
  afterwards every search gives the new value for the keys equal to the inserted one and the
  old answer for the others.
\<close>

theorem MapInsert_update:
  assumes "map_ok m" "program_compare cstr (m_compare m)"
  shows "\<exists>m'. MapInsert m p = Some (m', MapFind u m (kv_key p)) \<and> map_ok m' \<and>
    m_compare m' = m_compare m \<and>
    (\<forall>k. MapSearch u m' k =
       (if m_compare m \<lparr>kv_key = k, kv_value = u\<rparr> p = 0 then Some (kv_value p) else MapSearch u m k))"
  using key_compare.MapInsert_effect [OF program_compare_contract [OF assms(2)] assms(1) refl, of p u]
    key_compare.MapFind_MapSearch [OF program_compare_contract [OF assms(2)], of u m "kv_key p"]
  by metis

theorem MapInsert_update_witness:
  "\<exists>m'. MapInsert \<lparr>m_values = Some [\<lparr>kv_key = 1, kv_value = 7\<rparr>, \<lparr>kv_key = 5, kv_value = 8\<rparr>],
       m_length = 2, m_capacity = 2, m_compare = CompareMappedInt64s\<rparr> \<lparr>kv_key = 3, kv_value = 9\<rparr>
       = Some (m', 0) \<and> MapSearch 0 m' 3 = Some 9 \<and> MapSearch 0 m' 5 = Some 8"
proof -
  let ?m = "\<lparr>m_values = Some [\<lparr>kv_key = 1, kv_value = 7\<rparr>, \<lparr>kv_key = 5, kv_value = 8\<rparr>],
       m_length = 2, m_capacity = 2, m_compare = CompareMappedInt64s\<rparr>"
  have ok: "map_ok ?m"
    by (simp add: map_ok_def map_shape_def map_list_def map_buf_def sorted_by_def CompareMappedInt64s_def)
  have "program_compare (\<lambda>_. []) (m_compare ?m)" by (simp add: program_compare_def)
  from MapInsert_update [OF ok this, of "\<lparr>kv_key = 3, kv_value = 9\<rparr>" 0]
  show ?thesis
    by (fastforce simp: int64_same MapFind_def MapSearch_def map_bsearch_def c_bsearch_def find_loop.simps
      map_list_def map_buf_def CompareMappedInt64s_def)
qed

text \<open>
  C37. The two insertion routines agree. Below five elements the map inserts by a linear scan, from
  five on by a binary search; on every well-formed map the two give the same map and the same
  old value, so the switch at five elements is an optimisation only.
\<close>

theorem LinearInsert_BinaryInsert:
  assumes "map_ok m" "program_compare cstr (m_compare m)"
  shows "LinearInsert m p = BinaryInsert m p"
proof -
  have "cut_by (m_compare m p) (map_list m)"
    by (rule key_compare.map_ok_cut [OF program_compare_contract [OF assms(2)] assms(1) refl])
  moreover have "map_shape m" using assms(1) by (simp add: map_ok_def)
  ultimately show ?thesis by (simp add: LinearInsert_eq BinaryInsert_eq)
qed

theorem LinearInsert_BinaryInsert_witness:
  "LinearInsert \<lparr>m_values = Some [\<lparr>kv_key = 1, kv_value = 7\<rparr>, \<lparr>kv_key = 5, kv_value = 8\<rparr>],
       m_length = 2, m_capacity = 2, m_compare = CompareMappedInt64s\<rparr> \<lparr>kv_key = 3, kv_value = 9\<rparr> =
   BinaryInsert \<lparr>m_values = Some [\<lparr>kv_key = 1, kv_value = 7\<rparr>, \<lparr>kv_key = 5, kv_value = 8\<rparr>],
       m_length = 2, m_capacity = 2, m_compare = CompareMappedInt64s\<rparr> \<lparr>kv_key = 3, kv_value = 9\<rparr>"
  (is "LinearInsert ?m ?p = _")
proof (rule LinearInsert_BinaryInsert)
  show "map_ok ?m"
    by (simp add: map_ok_def map_shape_def map_list_def map_buf_def sorted_by_def CompareMappedInt64s_def)
  show "program_compare (\<lambda>_. []) (m_compare ?m)" by (simp add: program_compare_def)
qed

text \<open>
  C29. \<open>MapRemove\<close> deletes exactly the keys equal to the given one, returns the value
  found (or 0), and keeps the array strictly sorted.
\<close>

theorem MapRemove_delete:
  assumes "map_ok m" "program_compare cstr (m_compare m)"
  shows "\<exists>m'. MapRemove u m k = Some (m', MapFind u m k) \<and> map_ok m' \<and> m_compare m' = m_compare m \<and>
    (\<forall>k'. MapSearch u m' k' =
       (if m_compare m \<lparr>kv_key = k', kv_value = u\<rparr> \<lparr>kv_key = k, kv_value = u\<rparr> = 0 then None
        else MapSearch u m k'))"
  using key_compare.MapRemove_effect [OF program_compare_contract [OF assms(2)] assms(1) refl, of u k]
  by metis

theorem MapRemove_delete_witness:
  "\<exists>m'. MapRemove 0 \<lparr>m_values = Some [\<lparr>kv_key = 1, kv_value = 7\<rparr>, \<lparr>kv_key = 5, kv_value = 8\<rparr>],
       m_length = 2, m_capacity = 2, m_compare = CompareMappedInt64s\<rparr> 5 = Some (m', 8) \<and>
     MapSearch 0 m' 5 = None \<and> MapSearch 0 m' 1 = Some 7"
proof -
  let ?m = "\<lparr>m_values = Some [\<lparr>kv_key = 1, kv_value = 7\<rparr>, \<lparr>kv_key = 5, kv_value = 8\<rparr>],
       m_length = 2, m_capacity = 2, m_compare = CompareMappedInt64s\<rparr>"
  have ok: "map_ok ?m"
    by (simp add: map_ok_def map_shape_def map_list_def map_buf_def sorted_by_def CompareMappedInt64s_def)
  have "program_compare (\<lambda>_. []) (m_compare ?m)" by (simp add: program_compare_def)
  from MapRemove_delete [OF ok this, of 0 5]
  show ?thesis
    by (fastforce simp: int64_same MapFind_def MapSearch_def map_bsearch_def c_bsearch_def find_loop.simps
      map_list_def map_buf_def CompareMappedInt64s_def)
qed

text \<open>
  C24. A map with integer or pointer keys that starts empty is the finite map of its
  insertions: whatever the sequence, no insertion fails and a search finds the value
  inserted last for exactly that key.
\<close>

theorem map_of_insertions:
  fixes init
  assumes "init = MapInitForInt64Keys \<or> init = MapInitForPointerKeys"
  shows "\<exists>m. insert_all init ps = Some m \<and> map_ok m \<and>
    (\<forall>k. MapSearch 0 m k = map_of (rev (map kv_pair ps)) k)"
proof -
  have find: "(case find (\<lambda>p. x = fst p) qs of None \<Rightarrow> d | Some p \<Rightarrow> Some (snd p)) =
      (if map_of qs x = None then d else map_of qs x)"
    for x :: u64 and qs :: "(u64 \<times> u64) list" and d
    by (induction qs) auto
  have empty: "map_ok (MapInit c)" "MapSearch 0 (MapInit c) k = None" for c k
    by (simp_all add: MapInit_def map_ok_def map_shape_def map_list_def map_buf_def sorted_by_def
      MapSearch_def map_bsearch_def c_bsearch_def find_loop.simps)
  show ?thesis
    using assms
  proof
    assume i: "init = MapInitForInt64Keys"
    then have "m_compare init = CompareMappedInt64s" "map_ok init"
      using empty by (simp_all add: MapInitForInt64Keys_def MapInit_def)
    with int64_keys.store.insert_list_effect [of init "map kv_pair ps"] i empty show ?thesis
      by (auto simp: insert_all_foldl int64_same find MapInitForInt64Keys_def)
  next
    assume i: "init = MapInitForPointerKeys"
    then have "m_compare init = CompareMappedPointers" "map_ok init"
      using empty by (simp_all add: MapInitForPointerKeys_def MapInit_def)
    with pointer_keys.store.insert_list_effect [of init "map kv_pair ps"] i empty show ?thesis
      by (auto simp: insert_all_foldl pointer_same find MapInitForPointerKeys_def)
  qed
qed

theorem map_of_insertions_witness:
  "\<exists>m. insert_all MapInitForInt64Keys [\<lparr>kv_key = 4, kv_value = 1\<rparr>, \<lparr>kv_key = 2, kv_value = 5\<rparr>,
       \<lparr>kv_key = 4, kv_value = 6\<rparr>] = Some m \<and> MapSearch 0 m 4 = Some 6 \<and> MapSearch 0 m 3 = None"
  using map_of_insertions [of MapInitForInt64Keys "[\<lparr>kv_key = 4, kv_value = 1\<rparr>, \<lparr>kv_key = 2, kv_value = 5\<rparr>,
       \<lparr>kv_key = 4, kv_value = 6\<rparr>]"]
  by (auto simp: kv_pair_def)

text \<open>
  \<open>MapCopy\<close> overrides the destination by the source: the source's bindings win, the
  destination's other bindings stay.
\<close>

lemma MapCopy_override:
  assumes "map_ok d" "map_ok s" "m_compare s = m_compare d" "program_compare cstr (m_compare d)"
  shows "\<exists>m'. MapCopy d s = Some m' \<and> map_ok m' \<and> MapSearch 0 m' = MapSearch 0 d ++ MapSearch 0 s"
proof -
  obtain m' where "MapCopy d s = Some m'" "map_ok m'"
    "\<And>k. MapSearch 0 m' k = (case MapSearch 0 s k of None \<Rightarrow> MapSearch 0 d k | Some v \<Rightarrow> Some v)"
    using key_compare.MapCopy_effect [OF program_compare_contract [OF assms(4)] assms(1) refl assms(2,3)]
    by metis
  then show ?thesis by (auto simp: map_add_def)
qed

section \<open>The vector\<close>

text \<open>
  Insertion into the middle of a vector, and deletion, fail exactly when the index is
  not below the length, and otherwise are the list operations on the elements, whether or
  not the buffer has to grow.
\<close>

lemma Vector_insert_delete:
  assumes "vec_ok v"
  shows "(case VectorInsertBefore v i x of
      None \<Rightarrow> vc_length v \<le> i
    | Some w \<Rightarrow> i < vc_length v \<and> vec_ok w \<and> vec_list w = take i (vec_list v) @ x # drop i (vec_list v)) \<and>
    (case VectorInsertAfter v i x of
      None \<Rightarrow> vc_length v \<le> i
    | Some w \<Rightarrow> i < vc_length v \<and> vec_ok w \<and>
        vec_list w = take (Suc i) (vec_list v) @ x # drop (Suc i) (vec_list v)) \<and>
    (case VectorDeleteElement v i of
      None \<Rightarrow> vc_length v \<le> i
    | Some w \<Rightarrow> i < vc_length v \<and> vec_ok w \<and> vec_list w = take i (vec_list v) @ drop (Suc i) (vec_list v))"
proof (cases "i < vc_length v")
  case False
  then show ?thesis by (simp add: VectorInsertBefore_def VectorInsertAfter_def VectorDeleteElement_def)
next
  case True
  obtain a b c where "VectorInsertBefore v i x = Some a" "vec_ok a"
    "vec_list a = take i (vec_list v) @ x # drop i (vec_list v)"
    "VectorInsertAfter v i x = Some b" "vec_ok b"
    "vec_list b = take (Suc i) (vec_list v) @ x # drop (Suc i) (vec_list v)"
    "VectorDeleteElement v i = Some c" "vec_ok c"
    "vec_list c = take i (vec_list v) @ drop (Suc i) (vec_list v)"
    using VectorInsertBefore_spec [OF assms True, of x] VectorInsertAfter_spec [OF assms True, of x]
      VectorDeleteElement_spec [OF assms True] by metis
  with True show ?thesis by simp
qed

section \<open>The sorted-vector set\<close>

text \<open>
  C38. Inserting into and removing from a set of pointers: no assertion of the vector
  fails, the vector stays strictly sorted, and the members are the old ones with, or
  without, the given pointer.
\<close>

theorem pointer_set_insert_remove:
  assumes "pointer_set_ok s"
  shows "\<exists>t r. SetInsert s x = Some t \<and> pointer_set_ok t \<and> set (set_elems t) = insert x (set (set_elems s)) \<and>
    SetRemove s x = Some r \<and> pointer_set_ok r \<and> set (set_elems r) = set (set_elems s) - {x}"
proof -
  have s: "set_ok s" "s_compare s = ComparePointers" using assms by (auto simp: pointer_set_ok_def)
  obtain t where t: "SetInsert s x = Some t" by (rule pointer_set.SetInsert_effect [OF s])
  obtain r where r: "SetRemove s x = Some r" "set_ok r" "s_compare r = ComparePointers"
    "\<And>y. SetContains r y \<longleftrightarrow> ComparePointers y x \<noteq> 0 \<and> SetContains s y"
    using pointer_set.SetRemove_effect [OF s, of x] by blast
  note t' = pointer_set.SetInsert_contains [OF s t]
  have ok: "pointer_set_ok t" "pointer_set_ok r" using t' r by (auto simp: pointer_set_ok_def)
  have "y \<in> set (set_elems t) \<longleftrightarrow> y = x \<or> y \<in> set (set_elems s)"
    "y \<in> set (set_elems r) \<longleftrightarrow> y \<noteq> x \<and> y \<in> set (set_elems s)" for y
    using t'(3) [of y] r(4) [of y] pointer_set_contains ok assms by (auto simp: ComparePointers_zero)
  with t r(1) ok show ?thesis by blast
qed

theorem pointer_set_insert_remove_witness:
  "\<exists>t r. SetInsert \<lparr>s_vec = \<lparr>vc_value = Some [1, 3], vc_length = 2, vc_capacity = 2\<rparr>, s_compare = ComparePointers\<rparr> 2 = Some t \<and>
     set (set_elems t) = {1, 2, 3} \<and>
     SetRemove \<lparr>s_vec = \<lparr>vc_value = Some [1, 3], vc_length = 2, vc_capacity = 2\<rparr>, s_compare = ComparePointers\<rparr> 2 = Some r \<and>
     set (set_elems r) = {1, 3}"
proof -
  let ?a = "\<lparr>s_vec = \<lparr>vc_value = Some [1, 3], vc_length = 2, vc_capacity = 2\<rparr>, s_compare = ComparePointers\<rparr>"
  have "pointer_set_ok ?a"
    by (simp_all add: pointer_set_ok_def set_ok_def sorted_by_def vec_ok_def vec_list_def vec_buf_def
      ComparePointers_def)
  moreover have "set (set_elems ?a) = {1, 3}" by (simp add: vec_list_def vec_buf_def)
  ultimately show ?thesis using pointer_set_insert_remove [of ?a 2] by fastforce
qed

text \<open>
  C25. \<open>SetUnion\<close> and \<open>SetIntersection\<close> of pointer sets: the result gains the union, or the
  intersection, of the two sets on top of what it already held (neither function clears
  it), and the merge loop of the intersection misses no common element.
\<close>

theorem pointer_set_union_intersection:
  assumes "pointer_set_ok a" "pointer_set_ok b" "pointer_set_ok r"
  shows "\<exists>u i. SetUnion a b r = Some u \<and> pointer_set_ok u \<and>
      set (set_elems u) = set (set_elems a) \<union> set (set_elems b) \<union> set (set_elems r) \<and>
    SetIntersection a b r = Some i \<and> pointer_set_ok i \<and>
      set (set_elems i) = (set (set_elems a) \<inter> set (set_elems b)) \<union> set (set_elems r)"
proof -
  have s: "set_ok a" "s_compare a = ComparePointers" "set_ok b" "s_compare b = ComparePointers"
    "set_ok r" "s_compare r = ComparePointers"
    using assms by (auto simp: pointer_set_ok_def)
  obtain u where u: "SetUnion a b r = Some u" "set_ok u" "s_compare u = ComparePointers"
    "\<And>y. SetContains u y \<longleftrightarrow> SetContains a y \<or> SetContains b y \<or> SetContains r y"
    using pointer_set.SetUnion_effect [OF s] by blast
  obtain i where i: "SetIntersection a b r = Some i" "set_ok i" "s_compare i = ComparePointers"
    "\<And>y. SetContains i y \<longleftrightarrow> (SetContains a y \<and> SetContains b y) \<or> SetContains r y"
    using pointer_set.SetIntersection_effect [OF s] by blast
  have ok: "pointer_set_ok u" "pointer_set_ok i" using u i by (auto simp: pointer_set_ok_def)
  have "set (set_elems u) = set (set_elems a) \<union> set (set_elems b) \<union> set (set_elems r)"
    "set (set_elems i) = (set (set_elems a) \<inter> set (set_elems b)) \<union> set (set_elems r)"
    using u(4) i(4) pointer_set_contains [OF ok(1)] pointer_set_contains [OF ok(2)]
      pointer_set_contains [OF assms(1)] pointer_set_contains [OF assms(2)] pointer_set_contains [OF assms(3)]
    by auto
  with u(1) i(1) ok show ?thesis by blast
qed

theorem pointer_set_union_intersection_witness:
  "\<exists>i. SetIntersection
      \<lparr>s_vec = \<lparr>vc_value = Some [1, 3], vc_length = 2, vc_capacity = 2\<rparr>, s_compare = ComparePointers\<rparr>
      \<lparr>s_vec = \<lparr>vc_value = Some [3, 4], vc_length = 2, vc_capacity = 2\<rparr>, s_compare = ComparePointers\<rparr>
      (SetInit ComparePointers) = Some i \<and> set (set_elems i) = {3}"
proof -
  let ?a = "\<lparr>s_vec = \<lparr>vc_value = Some [1, 3], vc_length = 2, vc_capacity = 2\<rparr>, s_compare = ComparePointers\<rparr>"
  let ?b = "\<lparr>s_vec = \<lparr>vc_value = Some [3, 4], vc_length = 2, vc_capacity = 2\<rparr>, s_compare = ComparePointers\<rparr>"
  have "pointer_set_ok ?a" "pointer_set_ok ?b"
    by (simp_all add: pointer_set_ok_def set_ok_def sorted_by_def vec_ok_def vec_list_def vec_buf_def
      ComparePointers_def)
  moreover have "pointer_set_ok (SetInit ComparePointers)"
    by (simp add: pointer_set_ok_def set_ok_def SetInit_def sorted_by_def)
  moreover have "set (set_elems ?a) \<inter> set (set_elems ?b) \<union> set (set_elems (SetInit ComparePointers)) = {3}"
    by (simp add: SetInit_def) (simp add: vec_list_def vec_buf_def)
  ultimately show ?thesis using pointer_set_union_intersection [of ?a ?b "SetInit ComparePointers"] by metis
qed

text \<open>
  A set of integers loses elements: \<open>CompareIntegers\<close> subtracts in 32 bits, and after
  the insertion of 2000000000, -2000000000, 0 and -1000000000, in this order, the set does
  not contain -1000000000, although every insertion succeeded and the element is in the
  vector.
\<close>

lemma integer_set_loses_element:
  "case set_insert_all SetInitForIntegers [2000000000, - 2000000000, 0, - 1000000000] of
     None \<Rightarrow> False
   | Some s \<Rightarrow> - 1000000000 \<in> set (set_elems s) \<and> \<not> SetContains s (- 1000000000)"
  by code_simp

section \<open>The bit set\<close>

text \<open>
  C19. The operations of the bit set are the operations on sets of numbers, for arguments
  and results of any capacity, including the case where the result set still holds old
  bits in words the operation does not reach, and for numbers whose words a \<open>size_t\<close> can count:
  insertion, removal, membership, union into a third set and in place, intersection, copy,
  filling, clearing, equality.  \<open>BitSetFindFirstSet\<close> is the least member, or \<open>(size_t)-1\<close> for the
  empty set; \<open>BitSetFindFirstClear\<close> is the least number that is not a member, except that it is
  \<open>(size_t)-1\<close> when every number the words have room for is a member.
\<close>

theorem bitset_operations:
  assumes "bs_ok a" "bs_ok b" "bs_ok r" "n + 64 < 2 ^ 64"
  shows "bs_set (BitSetInsert a n) = insert n (bs_set a) \<and> bs_ok (BitSetInsert a n) \<and>
    bs_set (BitSetRemove a n) = bs_set a - {n} \<and> bs_ok (BitSetRemove a n) \<and>
    bs_set (BitSetUnion a b r) = bs_set a \<union> bs_set b \<and> bs_ok (BitSetUnion a b r) \<and>
    bs_set (BitSetUnionInPlace a b) = bs_set a \<union> bs_set b \<and> bs_ok (BitSetUnionInPlace a b) \<and>
    bs_set (BitSetIntersection a b r) = bs_set a \<inter> bs_set b \<and> bs_ok (BitSetIntersection a b r) \<and>
    bs_set (BitSetCopy r a) = bs_set a \<and> bs_ok (BitSetCopy r a) \<and>
    bs_set (BitSetFill r n) = {..<n} \<and> bs_ok (BitSetFill r n) \<and>
    bs_set (BitSetClear r) = {} \<and> bs_ok (BitSetClear r) \<and>
    (BitSetContains a n \<longleftrightarrow> n \<in> bs_set a) \<and> (BitSetEqual a b \<longleftrightarrow> bs_set a = bs_set b) \<and>
    BitSetFindFirstSet a = (if bs_set a = {} then SIZE_MAX else (LEAST i. i \<in> bs_set a)) \<and>
    BitSetFindFirstClear a =
      (if {..< 64 * bs_capacity a} \<subseteq> bs_set a then SIZE_MAX else (LEAST i. i \<notin> bs_set a))"
proof -
  have n: "n + 63 < 2 ^ 64" using assms(4) by simp
  show ?thesis
    using assms(1-3) BitSetFill_spec [OF assms(3) n] BitSetFindFirstSet_spec [of a] BitSetFindFirstClear_spec [of a]
    by (simp add: BitSetInsert_spec BitSetRemove_spec BitSetUnion_spec BitSetUnionInPlace_spec
      BitSetIntersection_spec BitSetCopy_spec BitSetClear_spec BitSetContains_iff BitSetEqual_spec)
qed

theorem bitset_operations_witness:
  "bs_set (BitSetUnion (BitSetInsert BitSetInit 200) (BitSetInsert BitSetInit 3)
     \<lparr>bs_value = Some [255], bs_capacity = 1\<rparr>) = {3, 200}"
proof -
  have "bs_ok (BitSetInsert BitSetInit 200)" "bs_ok (BitSetInsert BitSetInit 3)"
    "bs_ok \<lparr>bs_value = Some [255], bs_capacity = 1\<rparr>"
    by (simp_all add: BitSetInsert_spec) (simp add: bs_ok_def bs_buf_def)
  from bitset_operations [OF this, of 0] show ?thesis by (auto simp: BitSetInsert_spec)
qed

text \<open>
  C26. The iteration idiom of the clients (start, then value and next until done) ends,
  within 64 steps per word, having visited the members in increasing order, each once;
  \<open>BitSetExpand\<close> appends the same sequence to a vector, and \<open>BitSetCount\<close> is its length.
\<close>

theorem bitset_enumeration:
  assumes "bs_ok s" "vec_ok v"
  shows "BitSetValues s = Some (sorted_list_of_set (bs_set s)) \<and>
    vec_list (BitSetExpand s v) = vec_list v @ map of_nat (sorted_list_of_set (bs_set s)) \<and>
    BitSetCount s = card (bs_set s)"
  using assms by (simp add: BitSetValues_spec BitSetExpand_spec BitSetCount_spec)

theorem bitset_enumeration_witness:
  "BitSetValues (BitSetInsert (BitSetInsert BitSetInit 70) 2) = Some [2, 70]"
proof -
  have "bs_ok (BitSetInsert (BitSetInsert BitSetInit 70) 2)" by (simp add: BitSetInsert_spec)
  from bitset_enumeration [OF this, of VectorInit] show ?thesis by (simp add: BitSetInsert_spec)
qed

end
