(* ===== verification/CWire.thy ===== *)
theory CWire
  imports CPrelude
begin

text \<open>
  The protobuf wire format of \<open>c_compiler/serialize/wireformat.h\<close> and \<open>wireformat.c\<close>, with
  which the compiler writes and reads its precompiled modules.

  The three pointers of a buffer are 64-bit addresses, because the reader's bounds check
  adds a length from the input to one of them and the sum can wrap; \<open>wb_mem\<close> is the memory
  from \<open>start\<close> on.  An operation is a function of the buffer.  Its result is \<^term>\<open>None\<close> when
  the code would access memory outside the buffer, call \<open>abort\<close> or run for ever; otherwise
  it is the value delivered, \<^term>\<open>None\<close> for a function that returns \<open>false\<close>, with the new
  buffer.  The allocator is a parameter \<open>alloc\<close>: the address it returns for an old block and
  a size.  \<open>int\<close>, \<open>double\<close> and \<open>float\<close> values are their bit patterns, and the host is
  little-endian.
\<close>

record wire_buffer =
  wb_start :: u64
  wb_addr :: u64
  wb_end :: u64
  wb_size :: u64
  wb_mem :: "u8 list"
  wb_owned :: bool
  wb_error :: bool

type_synonym 'a wop = "wire_buffer \<Rightarrow> ('a option \<times> wire_buffer) option"

definition wreturn :: "'a \<Rightarrow> 'a wop" where
  "wreturn x b = Some (Some x, b)"

text \<open>\<open>if (!op(buf)) return false;\<close> followed by the rest of the function.\<close>

definition wbind :: "'a wop \<Rightarrow> ('a \<Rightarrow> 'b wop) \<Rightarrow> 'b wop" where
  "wbind m f b =
     (case m b of
        None \<Rightarrow> None
      | Some (None, b') \<Rightarrow> Some (None, b')
      | Some (Some x, b') \<Rightarrow> f x b')"

definition wfail :: "'a wop" where
  "wfail b = Some (None, b\<lparr>wb_error := True\<rparr>)"

section \<open>Buffers\<close>

definition WIRE_MIN_SIZE :: u64 where
  "WIRE_MIN_SIZE = 16"

definition WireBufferInitOwned :: "(u64 \<Rightarrow> u64 \<Rightarrow> u64) \<Rightarrow> u64 \<Rightarrow> wire_buffer option" where
  "WireBufferInitOwned alloc initial_size =
     (let n = (if initial_size < WIRE_MIN_SIZE then WIRE_MIN_SIZE else initial_size);
          p = alloc 0 n
      in if p = 0 then None
         else Some \<lparr>wb_start = p, wb_addr = p, wb_end = p + n, wb_size = n,
                    wb_mem = replicate (unat n) 0, wb_owned = True, wb_error = False\<rparr>)"

definition WireBufferInitReader :: "u64 \<Rightarrow> u8 list \<Rightarrow> wire_buffer" where
  "WireBufferInitReader p data =
     \<lparr>wb_start = p, wb_addr = p, wb_end = p + of_nat (length data), wb_size = of_nat (length data),
      wb_mem = data, wb_owned = False, wb_error = False\<rparr>"

definition WireBufferSize :: "wire_buffer \<Rightarrow> u64" where
  "WireBufferSize b = wb_addr b - wb_start b"

definition WireBufferEof :: "wire_buffer \<Rightarrow> bool" where
  "WireBufferEof b \<longleftrightarrow> wb_addr b \<ge> wb_end b"

definition WireBufferHasError :: "wire_buffer \<Rightarrow> bool" where
  "WireBufferHasError b = wb_error b"

definition WireBufferRewind :: "wire_buffer \<Rightarrow> wire_buffer" where
  "WireBufferRewind b =
     (let b1 = (if wb_owned b then b\<lparr>wb_end := wb_addr b\<rparr> else b)
      in b1\<lparr>wb_addr := wb_start b1\<rparr>)"

section \<open>Integers\<close>

definition WireZigZag64 :: "u64 \<Rightarrow> u64" where
  "WireZigZag64 u = Bit_Operations.xor (push_bit 1 u) (- (drop_bit 63 u))"

definition WireZagZig64 :: "u64 \<Rightarrow> u64" where
  "WireZagZig64 value = Bit_Operations.xor (drop_bit 1 value) (- (Bit_Operations.and value 1))"

function varint_size_loop :: "u64 \<Rightarrow> u64 \<Rightarrow> u64" where
  "varint_size_loop value sz =
     (if value \<ge> 128 then varint_size_loop (drop_bit 7 value) (sz + 1) else sz)"
  by pat_completeness auto

lemma drop_bit_7_less: "128 \<le> v \<Longrightarrow> unat (drop_bit 7 v) < unat (v :: u64)"
proof -
  assume "128 \<le> v"
  then have "128 \<le> unat v" by (simp add: word_le_nat_alt)
  moreover have "unat (drop_bit 7 v) = unat v div 128" by (simp add: drop_bit_eq_div unat_div)
  ultimately show ?thesis by simp
qed

termination varint_size_loop
  by (relation "measure (\<lambda>(v, s). unat v)") (auto simp: drop_bit_7_less)

declare varint_size_loop.simps [simp del]

definition WireVarintSize :: "u64 \<Rightarrow> u64" where
  "WireVarintSize value = varint_size_loop value 1"

definition kWireVarint :: u32 where "kWireVarint = 0"
definition kWireFixed64 :: u32 where "kWireFixed64 = 1"
definition kWireLengthDelimited :: u32 where "kWireLengthDelimited = 2"
definition kWireStartGroup :: u32 where "kWireStartGroup = 3"
definition kWireEndGroup :: u32 where "kWireEndGroup = 4"
definition kWireFixed32 :: u32 where "kWireFixed32 = 5"

lemmas wire_types = kWireVarint_def kWireFixed64_def kWireLengthDelimited_def
  kWireStartGroup_def kWireEndGroup_def kWireFixed32_def

text \<open>The \<open>int\<close> field number is sign-extended to 64 bits.\<close>

definition WireMakeTag :: "u32 \<Rightarrow> u32 \<Rightarrow> u64" where
  "WireMakeTag field_number wire_type =
     Bit_Operations.or (push_bit 3 (scast field_number)) (ucast wire_type)"

definition WireTagSize :: "u32 \<Rightarrow> u32 \<Rightarrow> u64" where
  "WireTagSize field_number wire_type = WireVarintSize (WireMakeTag field_number wire_type)"

section \<open>Room\<close>

text \<open>The doubling loop; a \<open>needed\<close> above \<open>2 ^ 63\<close> makes it run for ever.\<close>

partial_function (option) grow_size :: "u64 \<Rightarrow> u64 \<Rightarrow> u64 option" where
  "grow_size new_size needed =
     (if new_size < needed then grow_size (new_size * 2) needed else Some new_size)"

definition WireHasSpaceFor :: "(u64 \<Rightarrow> u64 \<Rightarrow> u64) \<Rightarrow> u64 \<Rightarrow> unit wop" where
  "WireHasSpaceFor alloc n b =
     (if wb_error b then Some (None, b)
      else let next = wb_addr b + n
           in if next \<le> wb_end b then wreturn () b
              else if \<not> wb_owned b then wfail b
              else case grow_size (if wb_size b = 0 then WIRE_MIN_SIZE else wb_size b) (next - wb_start b) of
                     None \<Rightarrow> None
                   | Some new_size \<Rightarrow>
                       (let new_start = alloc (wb_start b) new_size;
                            offset = wb_addr b - wb_start b
                        in if new_start = 0 then None
                           else wreturn ()
                                  (b\<lparr>wb_start := new_start, wb_addr := new_start + offset,
                                     wb_end := new_start + new_size, wb_size := new_size,
                                     wb_mem := grow_fill 0 (wb_mem b) (unat new_size)\<rparr>)))"

definition WireCheck :: "u64 \<Rightarrow> unit wop" where
  "WireCheck n b =
     (if wb_error b then Some (None, b)
      else if wb_addr b + n \<le> wb_end b then wreturn () b
      else wfail b)"

section \<open>Memory accesses\<close>

definition wb_offset :: "wire_buffer \<Rightarrow> nat" where
  "wb_offset b = unat (wb_addr b - wb_start b)"

text \<open>\<open>*buf->addr++ = c\<close>, and its repetition by \<open>memcpy\<close>.\<close>

definition put_byte :: "u8 \<Rightarrow> unit wop" where
  "put_byte c b =
     (if wb_offset b < length (wb_mem b)
      then wreturn () (b\<lparr>wb_mem := (wb_mem b)[wb_offset b := c], wb_addr := wb_addr b + 1\<rparr>)
      else None)"

fun put_bytes :: "u8 list \<Rightarrow> unit wop" where
  "put_bytes [] = wreturn ()"
| "put_bytes (c # cs) = wbind (put_byte c) (\<lambda>_. put_bytes cs)"

definition get_byte :: "u8 wop" where
  "get_byte b =
     (if wb_offset b < length (wb_mem b)
      then wreturn (wb_mem b ! wb_offset b) (b\<lparr>wb_addr := wb_addr b + 1\<rparr>)
      else None)"

text \<open>The bytes from the cursor on that a \<open>memcpy\<close> reads, with the cursor moved past them.\<close>

definition get_bytes :: "u64 \<Rightarrow> u8 list wop" where
  "get_bytes n b =
     (if wb_offset b + unat n \<le> length (wb_mem b)
      then wreturn (take (unat n) (drop (wb_offset b) (wb_mem b))) (b\<lparr>wb_addr := wb_addr b + n\<rparr>)
      else None)"

section \<open>Writing\<close>

function write_varint_loop :: "u64 \<Rightarrow> unit wop" where
  "write_varint_loop value =
     (if Bit_Operations.and value (Bit_Operations.not 127) = 0 then put_byte (ucast value)
      else wbind (put_byte (ucast (Bit_Operations.or (Bit_Operations.and value 127) 128)))
             (\<lambda>_. write_varint_loop (drop_bit 7 value)))"
  by pat_completeness auto

lemma drop_bit_7_zero: "drop_bit 7 v = 0 \<longleftrightarrow> v < (128 :: u64)"
proof -
  have "drop_bit 7 v = 0 \<longleftrightarrow> unat (drop_bit 7 v) = 0" by (simp add: unat_eq_0)
  also have "\<dots> \<longleftrightarrow> unat v div 128 = 0" by (simp add: drop_bit_eq_div unat_div)
  also have "\<dots> \<longleftrightarrow> v < 128" by (simp add: word_less_nat_alt div_eq_0_iff)
  finally show ?thesis .
qed

lemma high_bits_zero: "Bit_Operations.and v (- 128) = 0 \<longleftrightarrow> v < (128 :: u64)"
proof -
  have "Bit_Operations.not (127 :: u64) = - 128" by simp
  moreover have "(127 :: u64) = mask 7" by (simp add: mask_eq_exp_minus_1)
  ultimately have m: "- 128 = Bit_Operations.not (mask 7 :: u64)" by simp
  have b: "bit (Bit_Operations.and v (Bit_Operations.not (mask 7))) n \<longleftrightarrow> bit v n \<and> 7 \<le> n" for n
    using bit_imp_le_length [of v n] by (auto simp: bit_and_iff bit_not_iff bit_mask_iff)
  have d: "bit (drop_bit 7 v) n \<longleftrightarrow> bit v (7 + n)" for n by (simp add: bit_drop_bit_eq)
  have "Bit_Operations.and v (Bit_Operations.not (mask 7)) = 0 \<longleftrightarrow> (\<forall>n \<ge> 7. \<not> bit v n)"
    unfolding bit_eq_iff using bit_imp_le_length [of v] by (auto simp: b)
  also have "\<dots> \<longleftrightarrow> (\<forall>n. \<not> bit v (7 + n))" by (metis le_Suc_ex le_add1)
  also have "\<dots> \<longleftrightarrow> drop_bit 7 v = 0"
    unfolding bit_eq_iff using bit_imp_le_length [of v] by (auto simp: d) fastforce
  finally show ?thesis unfolding m drop_bit_7_zero .
qed

termination write_varint_loop
  by (relation "measure unat") (auto simp: high_bits_zero drop_bit_7_less not_less)

declare write_varint_loop.simps [simp del]

definition WireWriteRawVarint :: "(u64 \<Rightarrow> u64 \<Rightarrow> u64) \<Rightarrow> u64 \<Rightarrow> unit wop" where
  "WireWriteRawVarint alloc value =
     wbind (WireHasSpaceFor alloc (WireVarintSize value)) (\<lambda>_. write_varint_loop value)"

definition WireWriteRaw :: "(u64 \<Rightarrow> u64 \<Rightarrow> u64) \<Rightarrow> u8 list \<Rightarrow> unit wop" where
  "WireWriteRaw alloc data =
     wbind (WireHasSpaceFor alloc (of_nat (length data))) (\<lambda>_. put_bytes data)"

definition WireWriteTag :: "(u64 \<Rightarrow> u64 \<Rightarrow> u64) \<Rightarrow> u32 \<Rightarrow> u32 \<Rightarrow> unit wop" where
  "WireWriteTag alloc field_number wire_type =
     WireWriteRawVarint alloc (WireMakeTag field_number wire_type)"

definition WireWriteVarint :: "(u64 \<Rightarrow> u64 \<Rightarrow> u64) \<Rightarrow> u32 \<Rightarrow> u64 \<Rightarrow> unit wop" where
  "WireWriteVarint alloc field_number value =
     wbind (WireWriteTag alloc field_number kWireVarint) (\<lambda>_. WireWriteRawVarint alloc value)"

definition WireWriteSignedVarint :: "(u64 \<Rightarrow> u64 \<Rightarrow> u64) \<Rightarrow> u32 \<Rightarrow> u64 \<Rightarrow> unit wop" where
  "WireWriteSignedVarint alloc field_number value =
     wbind (WireWriteTag alloc field_number kWireVarint)
       (\<lambda>_. WireWriteRawVarint alloc (WireZigZag64 value))"

definition WireWriteBool :: "(u64 \<Rightarrow> u64 \<Rightarrow> u64) \<Rightarrow> u32 \<Rightarrow> bool \<Rightarrow> unit wop" where
  "WireWriteBool alloc field_number value =
     WireWriteVarint alloc field_number (if value then 1 else 0)"

definition WireWriteInt32 :: "(u64 \<Rightarrow> u64 \<Rightarrow> u64) \<Rightarrow> u32 \<Rightarrow> u32 \<Rightarrow> unit wop" where
  "WireWriteInt32 alloc field_number value = WireWriteVarint alloc field_number (scast value)"

definition WireWriteUint32 :: "(u64 \<Rightarrow> u64 \<Rightarrow> u64) \<Rightarrow> u32 \<Rightarrow> u32 \<Rightarrow> unit wop" where
  "WireWriteUint32 alloc field_number value = WireWriteVarint alloc field_number (ucast value)"

definition WireWriteInt64 :: "(u64 \<Rightarrow> u64 \<Rightarrow> u64) \<Rightarrow> u32 \<Rightarrow> u64 \<Rightarrow> unit wop" where
  "WireWriteInt64 alloc field_number value = WireWriteVarint alloc field_number value"

definition WireWriteUint64 :: "(u64 \<Rightarrow> u64 \<Rightarrow> u64) \<Rightarrow> u32 \<Rightarrow> u64 \<Rightarrow> unit wop" where
  "WireWriteUint64 alloc field_number value = WireWriteVarint alloc field_number value"

definition WireWriteFixed32 :: "(u64 \<Rightarrow> u64 \<Rightarrow> u64) \<Rightarrow> u32 \<Rightarrow> u32 \<Rightarrow> unit wop" where
  "WireWriteFixed32 alloc field_number value =
     wbind (WireWriteTag alloc field_number kWireFixed32)
       (\<lambda>_. WireWriteRaw alloc (le_bytes 4 (ucast value)))"

definition WireWriteFixed64 :: "(u64 \<Rightarrow> u64 \<Rightarrow> u64) \<Rightarrow> u32 \<Rightarrow> u64 \<Rightarrow> unit wop" where
  "WireWriteFixed64 alloc field_number value =
     wbind (WireWriteTag alloc field_number kWireFixed64)
       (\<lambda>_. WireWriteRaw alloc (le_bytes 8 value))"

text \<open>The argument is the bit pattern that \<open>memcpy\<close> takes from the floating-point value.\<close>

definition WireWriteDouble :: "(u64 \<Rightarrow> u64 \<Rightarrow> u64) \<Rightarrow> u32 \<Rightarrow> u64 \<Rightarrow> unit wop" where
  "WireWriteDouble alloc field_number bits = WireWriteFixed64 alloc field_number bits"

definition WireWriteFloat :: "(u64 \<Rightarrow> u64 \<Rightarrow> u64) \<Rightarrow> u32 \<Rightarrow> u32 \<Rightarrow> unit wop" where
  "WireWriteFloat alloc field_number bits = WireWriteFixed32 alloc field_number bits"

definition WireWriteBytes :: "(u64 \<Rightarrow> u64 \<Rightarrow> u64) \<Rightarrow> u32 \<Rightarrow> u8 list \<Rightarrow> unit wop" where
  "WireWriteBytes alloc field_number data =
     wbind (WireWriteTag alloc field_number kWireLengthDelimited)
       (\<lambda>_. wbind (WireWriteRawVarint alloc (of_nat (length data)))
         (\<lambda>_. WireWriteRaw alloc data))"

definition WireWriteString :: "(u64 \<Rightarrow> u64 \<Rightarrow> u64) \<Rightarrow> u32 \<Rightarrow> u8 list \<Rightarrow> unit wop" where
  "WireWriteString alloc field_number str = WireWriteBytes alloc field_number str"

section \<open>Reading\<close>

function read_varint_loop :: "u64 \<Rightarrow> nat \<Rightarrow> u64 wop" where
  "read_varint_loop value shift =
     (if shift < 64 then
        wbind (WireCheck 1) (\<lambda>_. wbind get_byte (\<lambda>byte.
          let value' = Bit_Operations.or value
                         (push_bit shift (Bit_Operations.and (ucast byte) 127))
          in if Bit_Operations.and byte 128 = 0 then wreturn value'
             else read_varint_loop value' (shift + 7)))
      else wfail)"
  by pat_completeness auto
termination
  by (relation "measure (\<lambda>(v, s). 64 - s)") auto

declare read_varint_loop.simps [simp del]

definition WireReadRawVarint :: "u64 wop" where
  "WireReadRawVarint = read_varint_loop 0 0"

definition WireReadRaw :: "u64 \<Rightarrow> u8 list wop" where
  "WireReadRaw n = wbind (WireCheck n) (\<lambda>_. get_bytes n)"

definition WIRE_TYPE_MASK :: u64 where
  "WIRE_TYPE_MASK = 7"

text \<open>The field number and the wire type.\<close>

definition WireReadTag :: "(u32 \<times> u32) wop" where
  "WireReadTag = wbind WireReadRawVarint
     (\<lambda>tag. wreturn (ucast (drop_bit 3 tag), ucast (Bit_Operations.and tag WIRE_TYPE_MASK)))"

definition WireReadVarint :: "u64 wop" where
  "WireReadVarint = WireReadRawVarint"

definition WireReadSignedVarint :: "u64 wop" where
  "WireReadSignedVarint = wbind WireReadRawVarint (\<lambda>value. wreturn (WireZagZig64 value))"

definition WireReadBool :: "bool wop" where
  "WireReadBool = wbind WireReadRawVarint (\<lambda>value. wreturn (value \<noteq> 0))"

definition WireReadInt32 :: "u32 wop" where
  "WireReadInt32 = wbind WireReadRawVarint (\<lambda>value. wreturn (ucast value))"

definition WireReadUint32 :: "u32 wop" where
  "WireReadUint32 = wbind WireReadRawVarint (\<lambda>value. wreturn (ucast value))"

definition WireReadInt64 :: "u64 wop" where
  "WireReadInt64 = wbind WireReadRawVarint (\<lambda>value. wreturn value)"

definition WireReadUint64 :: "u64 wop" where
  "WireReadUint64 = WireReadRawVarint"

definition WireReadFixed32 :: "u32 wop" where
  "WireReadFixed32 = wbind (WireReadRaw 4) (\<lambda>bs. wreturn (ucast (of_le_bytes bs)))"

definition WireReadFixed64 :: "u64 wop" where
  "WireReadFixed64 = wbind (WireReadRaw 8) (\<lambda>bs. wreturn (of_le_bytes bs))"

definition WireReadDouble :: "u64 wop" where
  "WireReadDouble = WireReadFixed64"

definition WireReadFloat :: "u32 wop" where
  "WireReadFloat = WireReadFixed32"

text \<open>
  The code hands out a pointer and a length and moves the cursor without reading; the
  value is the address and the length.
\<close>

definition advance :: "u64 \<Rightarrow> unit wop" where
  "advance n b = wreturn () (b\<lparr>wb_addr := wb_addr b + n\<rparr>)"

definition WireReadBytes :: "(u64 \<times> u64) wop" where
  "WireReadBytes = wbind WireReadRawVarint (\<lambda>len. wbind (WireCheck len)
     (\<lambda>_ b. wbind (advance len) (\<lambda>_. wreturn (wb_addr b, len)) b))"

definition WireSkip :: "u32 \<Rightarrow> unit wop" where
  "WireSkip wire_type =
     (if wire_type = kWireVarint then wbind WireReadRawVarint (\<lambda>_. wreturn ())
      else if wire_type = kWireFixed64 then wbind (WireCheck 8) (\<lambda>_. advance 8)
      else if wire_type = kWireLengthDelimited
        then wbind WireReadRawVarint (\<lambda>len. wbind (WireCheck len) (\<lambda>_. advance len))
      else if wire_type = kWireFixed32 then wbind (WireCheck 4) (\<lambda>_. advance 4)
      else wfail)"

end
