(* ===== verification/CWireSpec.thy ===== *)
theory CWireSpec
  imports CWire
begin

text \<open>
  Correctness of the wire format.  A writer appends the bytes of an encoding to the bytes
  before its cursor (\<open>wb_done\<close>), growing as needed; a reader is a parser of the bytes
  from its cursor to its end (\<open>wb_rest\<close>) that never leaves the buffer, except through
  the length check, whose wrap-around is shown here too.
\<close>

section \<open>Well-formed buffers\<close>

text \<open>
  Addresses of allocated memory lie in the lower half of the address space, as on the hosts
  of the compiler; a block is at most \<open>2 ^ 62\<close> bytes long.
\<close>

definition wb_ok :: "wire_buffer \<Rightarrow> bool" where
  "wb_ok b \<longleftrightarrow>
     length (wb_mem b) = unat (wb_size b) \<and> unat (wb_size b) \<le> 2 ^ 62 \<and>
     unat (wb_start b) + unat (wb_size b) \<le> 2 ^ 63 \<and>
     wb_start b \<le> wb_addr b \<and> wb_addr b \<le> wb_end b \<and>
     unat (wb_end b) \<le> unat (wb_start b) + unat (wb_size b)"

definition alloc_ok :: "(u64 \<Rightarrow> u64 \<Rightarrow> u64) \<Rightarrow> bool" where
  "alloc_ok alloc \<longleftrightarrow>
     (\<forall>p n. unat n \<le> 2 ^ 62 \<longrightarrow> alloc p n \<noteq> 0 \<and> unat (alloc p n) + unat n \<le> 2 ^ 63)"

definition wb_room :: "wire_buffer \<Rightarrow> nat" where
  "wb_room b = unat (wb_end b) - unat (wb_addr b)"

definition wb_done :: "wire_buffer \<Rightarrow> u8 list" where
  "wb_done b = take (wb_offset b) (wb_mem b)"

definition wb_rest :: "wire_buffer \<Rightarrow> u8 list" where
  "wb_rest b = take (wb_room b) (drop (wb_offset b) (wb_mem b))"

lemma wb_offset_nat: "wb_ok b \<Longrightarrow> wb_offset b = unat (wb_addr b) - unat (wb_start b)"
  by (simp add: wb_ok_def wb_offset_def unat_sub)

lemma wb_bounds:
  assumes "wb_ok b"
  shows "unat (wb_start b) \<le> unat (wb_addr b)" "unat (wb_addr b) \<le> unat (wb_end b)"
    "unat (wb_end b) \<le> unat (wb_start b) + unat (wb_size b)"
    "unat (wb_start b) + unat (wb_size b) \<le> 2 ^ 63" "length (wb_mem b) = unat (wb_size b)"
    "unat (wb_size b) \<le> 2 ^ 62"
  using assms by (simp_all add: wb_ok_def word_le_nat_alt)

lemma length_wb_done: "wb_ok b \<Longrightarrow> length (wb_done b) = wb_offset b"
  using wb_bounds [of b] wb_offset_nat [of b] by (simp add: wb_done_def)

lemma length_wb_rest: "wb_ok b \<Longrightarrow> length (wb_rest b) = wb_room b"
  using wb_bounds [of b] wb_offset_nat [of b] by (simp add: wb_rest_def wb_room_def)

lemma unat_add_small: "unat (a :: u64) + unat b < 2 ^ 64 \<Longrightarrow> unat (a + b) = unat a + unat b"
  using unat_add_lem [of a b] by simp

text \<open>Moving the cursor forward inside the buffer.\<close>

lemma advance_ok:
  assumes "wb_ok b" "unat n \<le> wb_room b"
  defines "b' \<equiv> b\<lparr>wb_addr := wb_addr b + n\<rparr>"
  shows "wb_ok b'" "wb_rest b' = drop (unat n) (wb_rest b)" "wb_room b' = wb_room b - unat n"
    "wb_done b' = wb_done b @ take (unat n) (wb_rest b)" "wb_offset b' = wb_offset b + unat n"
proof -
  note w = wb_bounds [OF assms(1)]
  have e: "unat (wb_addr b + n) = unat (wb_addr b) + unat n"
    using assms(2) w by (intro unat_add_small) (simp add: wb_room_def)
  show ok: "wb_ok b'"
    using assms(2) w e unfolding b'_def by (auto simp: wb_ok_def wb_room_def word_le_nat_alt)
  show o: "wb_offset b' = wb_offset b + unat n"
    using wb_offset_nat [OF ok] wb_offset_nat [OF assms(1)] e w by (simp add: b'_def)
  show r: "wb_room b' = wb_room b - unat n" using e by (simp add: wb_room_def b'_def)
  have m: "wb_mem b' = wb_mem b" by (simp add: b'_def)
  show "wb_rest b' = drop (unat n) (wb_rest b)"
    by (simp add: wb_rest_def o r m drop_take add.commute)
  show "wb_done b' = wb_done b @ take (unat n) (wb_rest b)"
    using assms(2) by (simp add: wb_done_def wb_rest_def o m take_add min_def)
qed

section \<open>The reader's bounds check\<close>

text \<open>Sound as long as the sum does not wrap, which a length below \<open>2 ^ 63\<close> guarantees.\<close>

lemma WireCheck_spec:
  assumes "wb_ok b" "\<not> wb_error b" "unat n < 2 ^ 63"
  shows "WireCheck n b = (if unat n \<le> wb_room b then Some (Some (), b) else Some (None, b\<lparr>wb_error := True\<rparr>))"
proof -
  note w = wb_bounds [OF assms(1)]
  have "unat (wb_addr b + n) = unat (wb_addr b) + unat n"
    using assms(3) w by (intro unat_add_small) simp
  then have "wb_addr b + n \<le> wb_end b \<longleftrightarrow> unat n \<le> wb_room b"
    using w by (auto simp: word_le_nat_alt wb_room_def)
  with assms(2) show ?thesis by (simp add: WireCheck_def wreturn_def wfail_def)
qed

lemma wb_rest_Cons:
  assumes "wb_ok b" "wb_room b \<noteq> 0"
  shows "wb_offset b < length (wb_mem b)"
    "wb_rest b = wb_mem b ! wb_offset b # drop 1 (wb_rest b)"
proof -
  note w = wb_bounds [OF assms(1)]
  show l: "wb_offset b < length (wb_mem b)"
    using w assms(2) wb_offset_nat [OF assms(1)] by (simp add: wb_room_def)
  obtain k where k: "wb_room b = Suc k" using assms(2) by (cases "wb_room b") auto
  have "drop (wb_offset b) (wb_mem b) = wb_mem b ! wb_offset b # drop (Suc (wb_offset b)) (wb_mem b)"
    using l by (simp add: Cons_nth_drop_Suc)
  then show "wb_rest b = wb_mem b ! wb_offset b # drop 1 (wb_rest b)"
    by (simp add: wb_rest_def k)
qed

lemma get_byte_spec:
  assumes "wb_ok b" "wb_rest b = c # cs"
  shows "get_byte b = Some (Some c, b\<lparr>wb_addr := wb_addr b + 1\<rparr>)"
    "wb_ok (b\<lparr>wb_addr := wb_addr b + 1\<rparr>)" "wb_rest (b\<lparr>wb_addr := wb_addr b + 1\<rparr>) = cs"
proof -
  have r: "wb_room b \<noteq> 0" using length_wb_rest [OF assms(1)] assms(2) by auto
  note c = wb_rest_Cons [OF assms(1) r]
  then show "get_byte b = Some (Some c, b\<lparr>wb_addr := wb_addr b + 1\<rparr>)"
    using assms(2) by (simp add: get_byte_def wreturn_def)
  have "unat (1 :: u64) \<le> wb_room b" using r by simp
  from advance_ok [OF assms(1) this]
  show "wb_ok (b\<lparr>wb_addr := wb_addr b + 1\<rparr>)" "wb_rest (b\<lparr>wb_addr := wb_addr b + 1\<rparr>) = cs"
    using assms(2) by simp_all
qed

section \<open>Varints\<close>

text \<open>The parser the reader's loop implements: at most ten groups of seven bits.\<close>

function parse_varint :: "u64 \<Rightarrow> nat \<Rightarrow> u8 list \<Rightarrow> (u64 \<times> u8 list) option" where
  "parse_varint value shift bs =
     (if shift < 64 then
        (case bs of
           [] \<Rightarrow> None
         | byte # rest \<Rightarrow>
             (let value' = Bit_Operations.or value
                         (push_bit shift (Bit_Operations.and (ucast byte) 127))
              in if Bit_Operations.and byte 128 = 0 then Some (value', rest)
                 else parse_varint value' (shift + 7) rest))
      else None)"
  by pat_completeness auto
termination
  by (relation "measure (\<lambda>(v, s, bs). 64 - s)") auto

declare parse_varint.simps [simp del]

lemma read_varint_loop_spec:
  assumes "wb_ok b" "\<not> wb_error b"
  shows "\<exists>b'. wb_ok b' \<and> wb_mem b' = wb_mem b \<and> wb_start b' = wb_start b \<and> wb_end b' = wb_end b \<and>
    (case parse_varint val shift (wb_rest b) of
       None \<Rightarrow> read_varint_loop val shift b = Some (None, b') \<and> wb_error b' \<and>
         unat (wb_addr b) \<le> unat (wb_addr b')
     | Some (v, rest) \<Rightarrow> read_varint_loop val shift b = Some (Some v, b') \<and>
         wb_rest b' = rest \<and> \<not> wb_error b' \<and> unat (wb_addr b) < unat (wb_addr b'))"
  using assms
proof (induction val shift arbitrary: b rule: read_varint_loop.induct)
  case (1 val shift)
  note unf = read_varint_loop.simps [of val shift] parse_varint.simps [of val shift]
  show ?case
  proof (cases "shift < 64")
    case False
    with "1.prems" show ?thesis
      by (intro exI [of _ "b\<lparr>wb_error := True\<rparr>"]) (simp add: unf wfail_def wb_ok_def)
  next
    case True
    show ?thesis
    proof (cases "wb_rest b")
      case Nil
      then have "wb_room b = 0" using length_wb_rest [OF "1.prems"(1)] by simp
      with WireCheck_spec [OF "1.prems", of 1]
      have "WireCheck 1 b = Some (None, b\<lparr>wb_error := True\<rparr>)" by simp
      with True Nil "1.prems" show ?thesis
        by (intro exI [of _ "b\<lparr>wb_error := True\<rparr>"]) (simp add: unf wbind_def wb_ok_def)
    next
      case (Cons c cs)
      then have "wb_room b \<noteq> 0" using length_wb_rest [OF "1.prems"(1)] by auto
      with WireCheck_spec [OF "1.prems", of 1]
      have chk: "WireCheck 1 b = Some (Some (), b)" by simp
      define b1 where "b1 = b\<lparr>wb_addr := wb_addr b + 1\<rparr>"
      note g = get_byte_spec [OF "1.prems"(1) Cons, folded b1_def]
      have e1: "\<not> wb_error b1" "wb_mem b1 = wb_mem b" "wb_start b1 = wb_start b" "wb_end b1 = wb_end b"
        using "1.prems"(2) by (simp_all add: b1_def)
      have a1: "unat (wb_addr b) < unat (wb_addr b1)"
        using unat_add_small [of "wb_addr b" 1] wb_bounds [OF "1.prems"(1)] by (simp add: b1_def)
      define v where "v = Bit_Operations.or val (push_bit shift (Bit_Operations.and (ucast c) 127))"
      show ?thesis
      proof (cases "Bit_Operations.and c 128 = 0")
        case last: True
        have "read_varint_loop val shift b = Some (Some v, b1)"
          using True chk g(1) last by (simp add: unf(1) wbind_def wreturn_def v_def)
        moreover have "parse_varint val shift (wb_rest b) = Some (v, cs)"
          using True last by (simp add: unf(2) Cons v_def)
        ultimately show ?thesis using g e1 a1 by (intro exI [of _ b1]) simp
      next
        case more: False
        have "read_varint_loop val shift b = read_varint_loop v (shift + 7) b1"
          using True chk g(1) more by (simp add: unf(1) wbind_def v_def)
        moreover have "parse_varint val shift (wb_rest b) = parse_varint v (shift + 7) cs"
          using True more by (simp add: unf(2) Cons v_def)
        moreover note "1.IH" [OF True v_def more g(2) e1(1)]
        ultimately show ?thesis using g(3) e1 a1 by (auto split: option.splits)
      qed
    qed
  qed
qed

text \<open>The bytes the writer's loop puts.\<close>

function varint_bytes :: "u64 \<Rightarrow> u8 list" where
  "varint_bytes v =
     (if v < 128 then [ucast v]
      else ucast (Bit_Operations.or (Bit_Operations.and v 127) 128) # varint_bytes (drop_bit 7 v))"
  by pat_completeness auto
termination
  by (relation "measure unat") (auto simp: drop_bit_7_less not_less)

declare varint_bytes.simps [simp del]

lemma varint_size_loop_spec: "varint_size_loop v s = s - 1 + of_nat (length (varint_bytes v))"
proof (induction v s rule: varint_size_loop.induct)
  case (1 v s)
  show ?case
  proof (cases "v < 128")
    case True
    then have "\<not> 128 \<le> v" by simp
    then have "varint_size_loop v s = s" unfolding varint_size_loop.simps [of v s] by (rule if_not_P)
    moreover have "varint_bytes v = [ucast v]" using True by (simp add: varint_bytes.simps [of v])
    ultimately show ?thesis by simp
  next
    case False
    then have "128 \<le> v" by simp
    with "1.IH" False show ?thesis
      by (simp add: varint_size_loop.simps [of v s] varint_bytes.simps [of v])
  qed
qed

lemma length_varint_bytes_le: "unat v < 2 ^ (7 * k) \<Longrightarrow> 0 < k \<Longrightarrow> length (varint_bytes v) \<le> k"
proof (induction v arbitrary: k rule: varint_bytes.induct)
  case (1 v)
  show ?case
  proof (cases "v < 128")
    case True
    with "1.prems" show ?thesis by (simp add: varint_bytes.simps [of v])
  next
    case False
    then have "128 \<le> unat v" by (simp add: word_less_nat_alt)
    then have "k \<noteq> 1" using "1.prems" by auto
    with "1.prems" obtain j where j: "k = Suc j" "0 < j" by (cases k) auto
    have "unat (drop_bit 7 v) = unat v div 128" by (simp add: drop_bit_eq_div unat_div)
    also have "\<dots> < 2 ^ (7 * j)" using "1.prems"(1) j
      by (simp add: less_mult_imp_div_less power_add mult.commute)
    finally have "length (varint_bytes (drop_bit 7 v)) \<le> j" using "1.IH" [OF False] j by blast
    with False j show ?thesis by (simp add: varint_bytes.simps [of v])
  qed
qed

lemma length_varint_bytes: "length (varint_bytes v) \<le> 10" "0 < length (varint_bytes v)"
proof -
  have "unat v < 2 ^ 64" using unsigned_less [of v] by simp
  then have "unat v < 2 ^ (7 * 10)" by simp
  then show "length (varint_bytes v) \<le> 10" by (rule length_varint_bytes_le) simp
  show "0 < length (varint_bytes v)" by (simp add: varint_bytes.simps [of v])
qed

lemma WireVarintSize_spec: "unat (WireVarintSize v) = length (varint_bytes v)"
  using length_varint_bytes [of v]
  by (simp add: WireVarintSize_def varint_size_loop_spec unat_of_nat)

text \<open>Parsing undoes printing.\<close>

lemma and_127: "Bit_Operations.and x 127 = take_bit 7 (x :: u64)"
  by (simp add: take_bit_eq_mask mask_eq_exp_minus_1)

lemma and_128: "Bit_Operations.and x 128 = 0 \<longleftrightarrow> \<not> bit (x :: u8) 7"
  using and_exp_eq_0_iff_not_bit [of x 7] by simp

lemma bit_128: "bit (128 :: u64) n \<longleftrightarrow> n = 7" "bit (128 :: u8) n \<longleftrightarrow> n = 7"
  using bit_exp_iff [of 7 n, where 'a = "64 word"] bit_exp_iff [of 7 n, where 'a = "8 word"] by auto

lemma varint_byte:
  fixes v :: u64
  defines "c \<equiv> ucast (Bit_Operations.or (Bit_Operations.and v 127) 128) :: u8"
  shows "Bit_Operations.and c 128 \<noteq> 0" "Bit_Operations.and (ucast c) 127 = take_bit 7 v"
proof -
  have b: "bit c n \<longleftrightarrow> n < 8 \<and> (n < 7 \<and> bit v n \<or> n = 7)" for n
    unfolding c_def and_127 by (auto simp only: bit_ucast_iff bit_or_iff bit_take_bit_iff bit_128) simp_all
  show "Bit_Operations.and c 128 \<noteq> 0" by (simp add: and_128 b)
  show "Bit_Operations.and (ucast c) 127 = take_bit 7 v"
    by (rule bit_word_eqI) (auto simp: and_127 bit_take_bit_iff bit_ucast_iff b)
qed

lemma varint_last_byte:
  fixes v :: u64
  assumes "v < 128"
  shows "Bit_Operations.and (ucast v :: u8) 128 = 0" "Bit_Operations.and (ucast (ucast v :: u8)) 127 = v"
proof -
  have "drop_bit 7 v = 0" using assms by (simp only: drop_bit_7_zero)
  then have "\<not> bit (drop_bit 7 v) (n - 7)" for n by simp
  then have h: "\<not> bit v n" if "7 \<le> n" for n using that by (metis bit_drop_bit_eq comp_apply le_add_diff_inverse)
  then have h': "n < 7" if "bit v n" for n using that not_le by blast
  show "Bit_Operations.and (ucast v :: u8) 128 = 0" using h [of 7] by (simp add: and_128 bit_ucast_iff)
  have "n < 8" if "bit v n" for n using h' [OF that] by simp
  with h' show "Bit_Operations.and (ucast (ucast v :: u8)) 127 = v"
    by (intro bit_word_eqI) (auto simp: and_127 bit_take_bit_iff bit_ucast_iff)
qed

lemma push_split: "Bit_Operations.or (push_bit s (take_bit 7 v)) (push_bit (s + 7) (drop_bit 7 v)) = push_bit s (v :: u64)"
proof (rule bit_word_eqI)
  fix n assume "n < LENGTH(64)"
  moreover have "7 + (n - (s + 7)) = n - s" if "s + 7 \<le> n" using that by simp
  ultimately show "bit (Bit_Operations.or (push_bit s (take_bit 7 v)) (push_bit (s + 7) (drop_bit 7 v))) n =
      bit (push_bit s v) n"
    by (cases "s + 7 \<le> n") (auto simp: bit_or_iff bit_push_bit_iff bit_take_bit_iff bit_drop_bit_eq)
qed

lemma parse_varint_bytes_gen:
  "s < 64 \<Longrightarrow> unat v < 2 ^ (64 - s) \<Longrightarrow>
   parse_varint val s (varint_bytes v @ rest) = Some (Bit_Operations.or val (push_bit s v), rest)"
proof (induction v arbitrary: val s rule: varint_bytes.induct)
  case (1 v)
  show ?case
  proof (cases "v < 128")
    case True
    then have "varint_bytes v = [ucast v]" by (simp add: varint_bytes.simps [of v])
    with "1.prems"(1) varint_last_byte [OF True] show ?thesis
      by (simp add: parse_varint.simps [of val s])
  next
    case False
    define c :: u8 where "c = ucast (Bit_Operations.or (Bit_Operations.and v 127) 128)"
    have vb: "varint_bytes v = c # varint_bytes (drop_bit 7 v)"
      using False by (simp add: varint_bytes.simps [of v] c_def)
    note cb = varint_byte [of v, folded c_def]
    have big: "128 \<le> unat v" using False by (simp add: word_less_nat_alt)
    have s7: "s + 7 < 64"
    proof (rule ccontr)
      assume "\<not> s + 7 < 64"
      then have "(2 :: nat) ^ (64 - s) \<le> 2 ^ 7" by (intro power_increasing) auto
      with big "1.prems"(2) show False by simp
    qed
    have "unat (drop_bit 7 v) = unat v div 128" by (simp add: drop_bit_eq_div unat_div)
    also have "\<dots> < 2 ^ (64 - (s + 7))"
    proof (rule less_mult_imp_div_less)
      have "(2 :: nat) ^ (64 - s) = 2 ^ (64 - (s + 7)) * 128"
        using s7 power_add [of "2 :: nat" "64 - (s + 7)" 7] by simp
      with "1.prems"(2) show "unat v < 2 ^ (64 - (s + 7)) * 128" by simp
    qed
    finally have "parse_varint (Bit_Operations.or val (push_bit s (take_bit 7 v))) (s + 7)
        (varint_bytes (drop_bit 7 v) @ rest) =
      Some (Bit_Operations.or (Bit_Operations.or val (push_bit s (take_bit 7 v))) (push_bit (s + 7) (drop_bit 7 v)), rest)"
      using "1.IH" [OF False s7] by blast
    with "1.prems"(1) cb vb show ?thesis
      by (simp add: parse_varint.simps [of val s] or.assoc push_split)
  qed
qed

lemma parse_varint_bytes: "parse_varint 0 0 (varint_bytes v @ rest) = Some (v, rest)"
proof -
  have "unat v < 2 ^ (64 - 0)" using unsigned_less [of v] by simp
  from parse_varint_bytes_gen [OF _ this, of 0 rest] show ?thesis by simp
qed

section \<open>Writers append\<close>

definition writer_ok :: "wire_buffer \<Rightarrow> bool" where
  "writer_ok b \<longleftrightarrow> wb_ok b \<and> wb_owned b \<and> \<not> wb_error b"

text \<open>The operation succeeds and appends the bytes, as long as the message stays below \<open>2 ^ 61\<close> bytes.\<close>

definition appends :: "unit wop \<Rightarrow> u8 list \<Rightarrow> bool" where
  "appends m bs \<longleftrightarrow> (\<forall>b. writer_ok b \<longrightarrow> wb_offset b + length bs \<le> 2 ^ 61 \<longrightarrow>
     (\<exists>b'. m b = Some (Some (), b') \<and> writer_ok b' \<and> wb_done b' = wb_done b @ bs))"

lemma appends_bind:
  assumes "appends m as" "appends m' bs"
  shows "appends (wbind m (\<lambda>_. m')) (as @ bs)"
  unfolding appends_def
proof (intro allI impI)
  fix b assume b: "writer_ok b" "wb_offset b + length (as @ bs) \<le> 2 ^ 61"
  then obtain b1 where b1: "m b = Some (Some (), b1)" "writer_ok b1" "wb_done b1 = wb_done b @ as"
    using assms(1) unfolding appends_def by fastforce
  have "wb_offset b1 = wb_offset b + length as"
    using arg_cong [OF b1(3), of length] b1(2) b(1) by (simp add: length_wb_done writer_ok_def)
  with b b1(2) obtain b2 where "m' b1 = Some (Some (), b2)" "writer_ok b2" "wb_done b2 = wb_done b1 @ bs"
    using assms(2) unfolding appends_def by fastforce
  with b1 show "\<exists>b'. wbind m (\<lambda>_. m') b = Some (Some (), b') \<and> writer_ok b' \<and> wb_done b' = wb_done b @ as @ bs"
    by (simp add: wbind_def)
qed

lemma grow_size_spec:
  assumes "s \<noteq> 0" "unat s \<le> 2 ^ 62" "unat needed \<le> 2 ^ 61"
  shows "\<exists>m. grow_size s needed = Some m \<and> needed \<le> m \<and> s \<le> m \<and> unat m \<le> 2 ^ 62"
  using assms
proof (induction "unat needed - unat s" arbitrary: s rule: less_induct)
  case less
  show ?case
  proof (cases "s < needed")
    case False
    then have "grow_size s needed = Some s" by (subst grow_size.simps) simp
    with less.prems False show ?thesis by simp
  next
    case True
    then have lt: "unat s < unat needed" by (simp add: word_less_nat_alt)
    have d: "unat (s * 2) = 2 * unat s"
      using lt less.prems(3) unat_add_small [of s s] by (simp add: mult_2_right)
    have pos: "0 < unat s" using less.prems(1) by (simp add: unat_gt_0)
    have "s * 2 \<noteq> 0" using d pos by (metis mult_is_0 not_gr_zero unat_0 zero_neq_numeral)
    have dec: "unat needed - unat (s * 2) < unat needed - unat s" using d lt pos by linarith
    have bound: "unat (s * 2) \<le> 2 ^ 62" using d lt less.prems(3) by simp
    obtain m where m: "grow_size (s * 2) needed = Some m" "needed \<le> m" "s * 2 \<le> m" "unat m \<le> 2 ^ 62"
      using less.hyps [OF dec \<open>s * 2 \<noteq> 0\<close> bound less.prems(3)] by blast
    have "s \<le> m" using m(3) d by (simp add: word_le_nat_alt)
    with m True show ?thesis by (subst grow_size.simps) simp
  qed
qed

lemma WireHasSpaceFor_spec:
  assumes "alloc_ok alloc" "writer_ok b" "wb_offset b + unat n \<le> 2 ^ 61"
  shows "\<exists>b'. WireHasSpaceFor alloc n b = Some (Some (), b') \<and> writer_ok b' \<and>
    wb_done b' = wb_done b \<and> unat n \<le> wb_room b'"
proof -
  have ok: "wb_ok b" and st: "wb_owned b" "\<not> wb_error b" using assms(2) by (simp_all add: writer_ok_def)
  note w = wb_bounds [OF ok] and off = wb_offset_nat [OF ok]
  have nxt: "unat (wb_addr b + n) = unat (wb_addr b) + unat n"
    using assms(3) w by (intro unat_add_small) simp
  show ?thesis
  proof (cases "wb_addr b + n \<le> wb_end b")
    case True
    then have "unat n \<le> wb_room b" using nxt by (simp add: wb_room_def word_le_nat_alt)
    with True st assms(2) show ?thesis by (simp add: WireHasSpaceFor_def wreturn_def)
  next
    case False
    define s0 where "s0 = (if wb_size b = 0 then WIRE_MIN_SIZE else wb_size b)"
    define needed where "needed = wb_addr b + n - wb_start b"
    have "wb_start b \<le> wb_addr b + n" using nxt w by (simp add: word_le_nat_alt)
    then have nd: "unat needed = wb_offset b + unat n"
      using nxt off w(1) by (simp add: needed_def unat_sub)
    have s0: "s0 \<noteq> 0" "unat s0 \<le> 2 ^ 62" "wb_size b \<le> s0"
      using w by (auto simp: s0_def WIRE_MIN_SIZE_def word_le_nat_alt)
    obtain m where m: "grow_size s0 needed = Some m" "needed \<le> m" "s0 \<le> m" "unat m \<le> 2 ^ 62"
      using grow_size_spec [OF s0(1,2)] nd assms(3) by metis
    define p where "p = alloc (wb_start b) m"
    have p: "p \<noteq> 0" "unat p + unat m \<le> 2 ^ 63"
      using assms(1) m(4) by (auto simp: alloc_ok_def p_def)
    define b' where "b' = b\<lparr>wb_start := p, wb_addr := p + (wb_addr b - wb_start b),
        wb_end := p + m, wb_size := m, wb_mem := grow_fill 0 (wb_mem b) (unat m)\<rparr>"
    have "WireHasSpaceFor alloc n b = Some (Some (), b')"
      using False st m(1) p(1)
      by (simp add: WireHasSpaceFor_def wreturn_def Let_def s0_def needed_def b'_def p_def)
    moreover have offm: "wb_offset b + unat n \<le> unat m" using m(2) nd by (simp add: word_le_nat_alt)
    have ua: "unat (p + (wb_addr b - wb_start b)) = unat p + wb_offset b"
      using offm p(2) by (subst unat_add_small) (simp_all add: wb_offset_def)
    have ue: "unat (p + m) = unat p + unat m" using p(2) by (intro unat_add_small) simp
    have "wb_ok b'"
      using ua ue offm p(2) m(4) by (simp add: wb_ok_def b'_def word_le_nat_alt)
    moreover have "wb_offset b' = wb_offset b" by (simp add: wb_offset_def b'_def)
    moreover have "wb_offset b \<le> length (wb_mem b)" using off w by simp
    moreover have "wb_offset b \<le> unat m" using offm by simp
    ultimately show ?thesis
      using st ua ue offm
      by (auto simp: writer_ok_def wb_done_def wb_room_def b'_def take_grow_fill)
  qed
qed

lemma put_bytes_spec:
  assumes "writer_ok b" "length cs \<le> wb_room b"
  shows "\<exists>b'. put_bytes cs b = Some (Some (), b') \<and> writer_ok b' \<and> wb_done b' = wb_done b @ cs"
  using assms
proof (induction cs arbitrary: b)
  case Nil
  then show ?case by (simp add: wreturn_def)
next
  case (Cons c cs)
  have ok: "wb_ok b" using Cons.prems(1) by (simp add: writer_ok_def)
  then have r: "wb_room b \<noteq> 0" using Cons.prems(2) by simp
  note l = wb_rest_Cons(1) [OF ok r]
  define b0 where "b0 = b\<lparr>wb_mem := (wb_mem b)[wb_offset b := c]\<rparr>"
  define b1 where "b1 = b0\<lparr>wb_addr := wb_addr b0 + 1\<rparr>"
  have put: "put_byte c b = Some (Some (), b1)"
    using l by (simp add: put_byte_def wreturn_def b1_def b0_def)
  have ok0: "wb_ok b0" "wb_room b0 = wb_room b" "wb_offset b0 = wb_offset b"
    using ok by (simp_all add: b0_def wb_ok_def wb_room_def wb_offset_def)
  have "unat (1 :: u64) \<le> wb_room b0" using r ok0 by simp
  note a = advance_ok [OF ok0(1) this, folded b1_def]
  have "wb_rest b0 \<noteq> []" using length_wb_rest [OF ok0(1)] r ok0(2) by auto
  then have t: "take 1 (wb_rest b0) = [c]"
    using wb_rest_Cons(2) [OF ok0(1)] r ok0 l by (simp add: b0_def) (metis take_Suc_Cons take_0)
  have d: "wb_done b1 = wb_done b @ [c]"
    using a(4) t ok0(3) by (simp add: wb_done_def b0_def)
  have "writer_ok b1" using a(1) Cons.prems(1) by (simp add: writer_ok_def b1_def b0_def)
  moreover have "length cs \<le> wb_room b1" using a(3) ok0(2) Cons.prems(2) by simp
  ultimately obtain b2 where "put_bytes cs b1 = Some (Some (), b2)" "writer_ok b2" "wb_done b2 = wb_done b1 @ cs"
    using Cons.IH by blast
  with put d show ?case by (simp add: wbind_def)
qed

lemma write_varint_loop_bytes: "write_varint_loop v = put_bytes (varint_bytes v)"
proof (induction v rule: varint_bytes.induct)
  case (1 v)
  have ret: "wbind m wreturn = m" for m :: "unit wop"
    by (rule ext) (auto simp: wbind_def wreturn_def split: option.splits prod.splits)
  show ?case
  proof (cases "v < 128")
    case True
    then show ?thesis
      by (simp add: write_varint_loop.simps [of v] varint_bytes.simps [of v] high_bits_zero ret)
  next
    case False
    with 1 show ?thesis
      by (simp add: write_varint_loop.simps [of v] varint_bytes.simps [of v] high_bits_zero)
  qed
qed

lemma appends_room:
  assumes "alloc_ok alloc" "unat n = length bs"
  shows "appends (wbind (WireHasSpaceFor alloc n) (\<lambda>_. put_bytes bs)) bs"
  unfolding appends_def
proof (intro allI impI)
  fix b assume b: "writer_ok b" "wb_offset b + length bs \<le> 2 ^ 61"
  obtain b1 where b1: "WireHasSpaceFor alloc n b = Some (Some (), b1)" "writer_ok b1"
    "wb_done b1 = wb_done b" "unat n \<le> wb_room b1"
    using WireHasSpaceFor_spec [OF assms(1) b(1), of n] b(2) assms(2) by auto
  obtain b2 where "put_bytes bs b1 = Some (Some (), b2)" "writer_ok b2" "wb_done b2 = wb_done b1 @ bs"
    using put_bytes_spec [OF b1(2), of bs] b1(4) assms(2) by auto
  with b1 show "\<exists>b'. wbind (WireHasSpaceFor alloc n) (\<lambda>_. put_bytes bs) b = Some (Some (), b') \<and>
      writer_ok b' \<and> wb_done b' = wb_done b @ bs"
    by (simp add: wbind_def)
qed

lemma WireWriteRawVarint_appends: "alloc_ok alloc \<Longrightarrow> appends (WireWriteRawVarint alloc v) (varint_bytes v)"
  unfolding WireWriteRawVarint_def write_varint_loop_bytes
  by (rule appends_room) (simp_all add: WireVarintSize_spec)

lemma WireWriteRaw_appends:
  "alloc_ok alloc \<Longrightarrow> length bs < 2 ^ 64 \<Longrightarrow> appends (WireWriteRaw alloc bs) bs"
  unfolding WireWriteRaw_def by (rule appends_room) (simp_all add: unat_of_nat)

section \<open>Readers\<close>

definition reader_ok :: "wire_buffer \<Rightarrow> bool" where
  "reader_ok b \<longleftrightarrow> wb_ok b \<and> \<not> wb_error b"

definition same_block :: "wire_buffer \<Rightarrow> wire_buffer \<Rightarrow> bool" where
  "same_block b b' \<longleftrightarrow> wb_start b' = wb_start b \<and> wb_end b' = wb_end b \<and> wb_mem b' = wb_mem b"

lemma same_block_refl [simp]: "same_block b b"
  and same_block_trans: "same_block a b \<Longrightarrow> same_block b c \<Longrightarrow> same_block a c"
  by (auto simp: same_block_def)

text \<open>
  \<open>safe\<close>: whatever the buffer holds, the operation stays inside it, never moves the cursor back and
  moves it on when it succeeds, fails at once when the sticky error is set, and sets the error
  exactly when it fails.  \<open>accepts\<close>: on the given
  bytes it delivers the given value and stops right after them.
\<close>

definition moves_on :: "'a option \<Rightarrow> wire_buffer \<Rightarrow> wire_buffer \<Rightarrow> bool" where
  "moves_on r b b' \<longleftrightarrow> wb_addr b \<le> wb_addr b' \<and> (r \<noteq> None \<longrightarrow> wb_addr b < wb_addr b')"

definition safe :: "'a wop \<Rightarrow> bool" where
  "safe m \<longleftrightarrow> (\<forall>b. wb_ok b \<longrightarrow> (\<exists>r b'. m b = Some (r, b') \<and> wb_ok b' \<and> same_block b b' \<and> moves_on r b b' \<and>
     (wb_error b \<longrightarrow> r = None \<and> b' = b) \<and> (r = None \<longleftrightarrow> wb_error b')))"

definition accepts :: "'a wop \<Rightarrow> u8 list \<Rightarrow> 'a \<Rightarrow> bool" where
  "accepts m bs x \<longleftrightarrow> (\<forall>b rest. reader_ok b \<longrightarrow> wb_rest b = bs @ rest \<longrightarrow>
     (\<exists>b'. m b = Some (Some x, b') \<and> reader_ok b' \<and> wb_rest b' = rest \<and> same_block b b'))"

lemma accepts_bind: "accepts m as x \<Longrightarrow> accepts (f x) bs y \<Longrightarrow> accepts (wbind m f) (as @ bs) y"
  unfolding accepts_def
proof (intro allI impI)
  fix b rest
  assume m: "\<forall>b rest. reader_ok b \<longrightarrow> wb_rest b = as @ rest \<longrightarrow>
     (\<exists>b'. m b = Some (Some x, b') \<and> reader_ok b' \<and> wb_rest b' = rest \<and> same_block b b')"
    and f: "\<forall>b rest. reader_ok b \<longrightarrow> wb_rest b = bs @ rest \<longrightarrow>
     (\<exists>b'. f x b = Some (Some y, b') \<and> reader_ok b' \<and> wb_rest b' = rest \<and> same_block b b')"
    and b: "reader_ok b" "wb_rest b = (as @ bs) @ rest"
  obtain b1 where 1: "m b = Some (Some x, b1)" "reader_ok b1" "wb_rest b1 = bs @ rest" "same_block b b1"
    using m b by (metis append.assoc)
  obtain b2 where "f x b1 = Some (Some y, b2)" "reader_ok b2" "wb_rest b2 = rest" "same_block b1 b2"
    using f 1 by blast
  with 1 show "\<exists>b'. wbind m f b = Some (Some y, b') \<and> reader_ok b' \<and> wb_rest b' = rest \<and> same_block b b'"
    using same_block_trans [OF 1(4)] by (simp add: wbind_def)
qed

lemma accepts_map: "accepts m bs x \<Longrightarrow> g x = wreturn y \<Longrightarrow> accepts (wbind m g) bs y"
  using accepts_bind [of m bs x g "[]" y] by (simp add: accepts_def wreturn_def)

lemma safe_fail: "safe wfail"
proof -
  have "b\<lparr>wb_error := True\<rparr> = b" if "wb_error b" for b using that by (cases b) simp
  then show ?thesis by (auto simp: safe_def wfail_def wb_ok_def same_block_def moves_on_def)
qed

lemma WireReadRawVarint_safe: "safe WireReadRawVarint"
  unfolding safe_def
proof (intro allI impI)
  fix b assume ok: "wb_ok b"
  show "\<exists>r b'. WireReadRawVarint b = Some (r, b') \<and> wb_ok b' \<and> same_block b b' \<and> moves_on r b b' \<and>
     (wb_error b \<longrightarrow> r = None \<and> b' = b) \<and> (r = None \<longleftrightarrow> wb_error b')"
  proof (cases "wb_error b")
    case True
    with ok show ?thesis
      by (simp add: WireReadRawVarint_def read_varint_loop.simps [of 0 0] wbind_def WireCheck_def moves_on_def)
  next
    case False
    from read_varint_loop_spec [OF ok False, of 0 0] False show ?thesis
      by (auto simp: WireReadRawVarint_def same_block_def moves_on_def word_le_nat_alt word_less_nat_alt split: option.splits)
  qed
qed

lemma WireReadRawVarint_accepts: "accepts WireReadRawVarint (varint_bytes v) v"
  unfolding accepts_def
proof (intro allI impI)
  fix b rest assume "reader_ok b" and r: "wb_rest b = varint_bytes v @ rest"
  then have "wb_ok b" "\<not> wb_error b" by (simp_all add: reader_ok_def)
  from read_varint_loop_spec [OF this, of 0 0] parse_varint_bytes [of v rest] r
  show "\<exists>b'. WireReadRawVarint b = Some (Some v, b') \<and> reader_ok b' \<and> wb_rest b' = rest \<and> same_block b b'"
    by (auto simp: WireReadRawVarint_def reader_ok_def same_block_def)
qed

text \<open>Checked reads and skips of a length below \<open>2 ^ 63\<close>.\<close>

lemma checked:
  assumes "unat n < 2 ^ 63" "\<And>b. wb_ok b \<Longrightarrow> \<not> wb_error b \<Longrightarrow> unat n \<le> wb_room b \<Longrightarrow>
    m b = Some (Some (g (take (unat n) (wb_rest b))), b\<lparr>wb_addr := wb_addr b + n\<rparr>)"
  shows "0 < unat n \<Longrightarrow> safe (wbind (WireCheck n) (\<lambda>_. m))"
    and "length bs = unat n \<Longrightarrow> accepts (wbind (WireCheck n) (\<lambda>_. m)) bs (g bs)"
proof -
  show "safe (wbind (WireCheck n) (\<lambda>_. m))" if pos: "0 < unat n"
    unfolding safe_def
  proof (intro allI impI)
    fix b assume ok: "wb_ok b"
    let ?m = "wbind (WireCheck n) (\<lambda>_. m)"
    consider "wb_error b" | "\<not> wb_error b" "\<not> unat n \<le> wb_room b" | "\<not> wb_error b" "unat n \<le> wb_room b"
      by blast
    then show "\<exists>r b'. ?m b = Some (r, b') \<and> wb_ok b' \<and> same_block b b' \<and> moves_on r b b' \<and>
     (wb_error b \<longrightarrow> r = None \<and> b' = b) \<and> (r = None \<longleftrightarrow> wb_error b')"
    proof cases
      case 1
      with ok show ?thesis by (simp add: wbind_def WireCheck_def moves_on_def)
    next
      case 2
      with WireCheck_spec [OF ok _ assms(1)] ok show ?thesis
        by (simp add: wbind_def same_block_def wb_ok_def moves_on_def)
    next
      case 3
      have "unat (wb_addr b + n) = unat (wb_addr b) + unat n"
        using 3(2) wb_bounds [OF ok] by (intro unat_add_small) (simp add: wb_room_def)
      then have "wb_addr b < wb_addr b + n" "wb_addr b \<le> wb_addr b + n"
        using pos by (simp_all add: word_le_nat_alt word_less_nat_alt)
      with 3 WireCheck_spec [OF ok _ assms(1)] assms(2) [OF ok] advance_ok(1) [OF ok 3(2)] show ?thesis
        by (simp add: wbind_def same_block_def moves_on_def)
    qed
  qed
  show "accepts (wbind (WireCheck n) (\<lambda>_. m)) bs (g bs)" if l: "length bs = unat n"
    unfolding accepts_def
  proof (intro allI impI)
    fix b rest assume b: "reader_ok b" "wb_rest b = bs @ rest"
    then have ok: "wb_ok b" "\<not> wb_error b" by (simp_all add: reader_ok_def)
    have room: "unat n \<le> wb_room b" using length_wb_rest [OF ok(1)] b(2) l by simp
    from advance_ok [OF ok(1) room] assms(2) [OF ok room] WireCheck_spec [OF ok assms(1)] room b l
    show "\<exists>b'. wbind (WireCheck n) (\<lambda>_. m) b = Some (Some (g bs), b') \<and> reader_ok b' \<and>
        wb_rest b' = rest \<and> same_block b b'"
      by (simp add: wbind_def same_block_def reader_ok_def)
  qed
qed

lemma get_bytes_spec:
  assumes "wb_ok b" "unat n \<le> wb_room b"
  shows "get_bytes n b = Some (Some (take (unat n) (wb_rest b)), b\<lparr>wb_addr := wb_addr b + n\<rparr>)"
proof -
  have "wb_offset b + unat n \<le> length (wb_mem b)"
    using wb_bounds [OF assms(1)] wb_offset_nat [OF assms(1)] assms(2) by (simp add: wb_room_def)
  moreover have "take (unat n) (wb_rest b) = take (unat n) (drop (wb_offset b) (wb_mem b))"
    using assms(2) by (simp add: wb_rest_def min_def)
  ultimately show ?thesis by (simp add: get_bytes_def wreturn_def)
qed

lemma WireReadRaw_safe: "0 < unat n \<Longrightarrow> unat n < 2 ^ 63 \<Longrightarrow> safe (WireReadRaw n)"
  unfolding WireReadRaw_def by (rule checked(1) [where g = "\<lambda>x. x"]) (simp_all add: get_bytes_spec)

lemma WireReadRaw_accepts: "unat n < 2 ^ 63 \<Longrightarrow> length bs = unat n \<Longrightarrow> accepts (WireReadRaw n) bs bs"
  unfolding WireReadRaw_def by (rule checked(2) [where g = "\<lambda>x. x"]) (simp_all add: get_bytes_spec)

lemma skip_safe: "0 < unat n \<Longrightarrow> unat n < 2 ^ 63 \<Longrightarrow> safe (wbind (WireCheck n) (\<lambda>_. advance n))"
  by (rule checked(1) [where g = "\<lambda>_. ()"]) (simp_all add: advance_def wreturn_def)

lemma skip_accepts: "unat n < 2 ^ 63 \<Longrightarrow> length bs = unat n \<Longrightarrow> accepts (wbind (WireCheck n) (\<lambda>_. advance n)) bs ()"
  by (rule checked(2) [where g = "\<lambda>_. ()"]) (simp_all add: advance_def wreturn_def)

end
