(* ===== verification/WireTheorems.thy ===== *)
theory WireTheorems
  imports CWireSpec
begin

text \<open>
  Messages: sequences of tagged fields, written by the \<open>WireWrite\<close> functions and read
  back by \<open>WireReadTag\<close> and the \<open>WireRead\<close> functions.
\<close>

section \<open>Integers\<close>

lemma zigzag_bits:
  assumes "n < 64"
  shows "bit (WireZigZag64 v) n \<longleftrightarrow> (0 < n \<and> bit v (n - 1)) \<noteq> bit v 63"
proof -
  have "drop_bit 63 v = (if bit v 63 then 1 else 0)"
  proof (rule bit_word_eqI)
    fix k assume "k < LENGTH(64)"
    show "bit (drop_bit 63 v) k = bit (if bit v 63 then 1 else 0 :: u64) k"
      using bit_imp_le_length [of v "63 + k"] by (cases k) (auto simp: bit_drop_bit_eq bit_1_iff)
  qed
  then have "bit (- (drop_bit 63 v)) n \<longleftrightarrow> bit v 63" using assms by simp
  then show ?thesis using assms unfolding WireZigZag64_def bit_xor_iff bit_push_bit_iff by auto
qed

lemma zagzig_bits:
  assumes "n < 64"
  shows "bit (WireZagZig64 u) n \<longleftrightarrow> (n < 63 \<and> bit u (n + 1)) \<noteq> bit u 0"
proof -
  have "Bit_Operations.and u 1 = (if bit u 0 then 1 else 0)"
  proof (rule bit_word_eqI)
    fix k assume "k < LENGTH(64)"
    show "bit (Bit_Operations.and u 1) k = bit (if bit u 0 then 1 else 0 :: u64) k"
      by (cases k) (auto simp: bit_and_iff bit_1_iff)
  qed
  then have "bit (- (Bit_Operations.and u 1)) n \<longleftrightarrow> bit u 0" using assms by simp
  moreover have "bit (drop_bit 1 u) n \<longleftrightarrow> n < 63 \<and> bit u (n + 1)"
    using bit_imp_le_length [of u "1 + n"] by (auto simp: bit_drop_bit_eq)
  ultimately show ?thesis unfolding WireZagZig64_def bit_xor_iff by simp
qed

lemma WireZagZig64_ZigZag: "WireZagZig64 (WireZigZag64 v) = v"
proof (rule bit_word_eqI)
  fix n assume "n < LENGTH(64)"
  then have n: "n < 64" by simp
  then consider "n < 63" | "n = 63" by linarith
  then show "bit (WireZagZig64 (WireZigZag64 v)) n = bit v n"
    by cases ((simp add: zagzig_bits zigzag_bits; blast)+)
qed

lemma WireZigZag64_ZagZig: "WireZigZag64 (WireZagZig64 u) = u"
proof (rule bit_word_eqI)
  fix n assume "n < LENGTH(64)"
  then have n: "n < 64" by simp
  then show "bit (WireZigZag64 (WireZagZig64 u)) n = bit u n"
    by (cases n; simp add: zagzig_bits zigzag_bits; blast)
qed

lemma fixed64_bytes: "of_le_bytes (le_bytes 8 v) = v"
  by (rule bit_word_eqI) (simp add: of_le_bytes_le_bytes bit_take_bit_iff)

lemma fixed32_bytes: "ucast (of_le_bytes (le_bytes 4 (ucast v))) = (v :: u32)"
  by (rule bit_word_eqI) (auto simp: of_le_bytes_le_bytes bit_ucast_iff bit_take_bit_iff)

lemma tag_bits:
  assumes "ty < 8" "n < 64"
  shows "bit (WireMakeTag num ty) n \<longleftrightarrow> (if n < 3 then bit ty n else bit (scast num :: u64) (n - 3))"
proof -
  have "drop_bit 3 ty = 0"
  proof -
    have "unat (drop_bit 3 ty) = unat ty div 8" by (simp add: drop_bit_eq_div unat_div)
    also have "\<dots> = 0" using assms(1) by (simp add: word_less_nat_alt)
    finally show ?thesis by (simp add: unat_eq_0)
  qed
  then have "\<not> bit (drop_bit 3 ty) (n - 3)" by simp
  then have "\<not> bit ty n" if "3 \<le> n" using that by (metis bit_drop_bit_eq comp_apply le_add_diff_inverse)
  with assms(2) show ?thesis
    by (auto simp: WireMakeTag_def bit_or_iff bit_push_bit_iff bit_ucast_iff dest: bit_imp_le_length)
qed

lemma tag_split:
  assumes "ty < 8"
  shows "ucast (drop_bit 3 (WireMakeTag num ty)) = num"
    "ucast (Bit_Operations.and (WireMakeTag num ty) WIRE_TYPE_MASK) = ty"
proof -
  show "ucast (drop_bit 3 (WireMakeTag num ty)) = num"
    by (rule bit_word_eqI) (use tag_bits [OF assms] in \<open>auto simp: bit_ucast_iff bit_drop_bit_eq bit_signed_iff\<close>)
  have m: "WIRE_TYPE_MASK = mask 3" by (simp add: WIRE_TYPE_MASK_def mask_eq_exp_minus_1)
  have "drop_bit 3 ty = 0"
  proof -
    have "unat (drop_bit 3 ty) = unat ty div 8" by (simp add: drop_bit_eq_div unat_div)
    also have "\<dots> = 0" using assms by (simp add: word_less_nat_alt)
    finally show ?thesis by (simp add: unat_eq_0)
  qed
  then have "\<not> bit (drop_bit 3 ty) (n - 3)" for n by simp
  then have h: "n < 3" if "bit ty n" for n
    using that by (metis bit_drop_bit_eq comp_apply le_add_diff_inverse not_less)
  show "ucast (Bit_Operations.and (WireMakeTag num ty) WIRE_TYPE_MASK) = ty"
    unfolding m
    by (rule bit_word_eqI) (use tag_bits [OF assms] h in \<open>auto simp: bit_ucast_iff bit_and_iff bit_mask_iff\<close>)
qed

section \<open>Fields\<close>

text \<open>A field by the function that writes it; the tag carries only its wire type.\<close>

datatype wire_field =
    FVarint u64 | FSigned u64 | FBool bool | FInt32 u32 | FUint32 u32
  | FFixed32 u32 | FFixed64 u64 | FBytes "u8 list"

datatype wire_kind =
    KVarint | KSigned | KBool | KInt32 | KUint32 | KFixed32 | KFixed64 | KBytes

fun kind_of :: "wire_field \<Rightarrow> wire_kind" where
  "kind_of (FVarint _) = KVarint"
| "kind_of (FSigned _) = KSigned"
| "kind_of (FBool _) = KBool"
| "kind_of (FInt32 _) = KInt32"
| "kind_of (FUint32 _) = KUint32"
| "kind_of (FFixed32 _) = KFixed32"
| "kind_of (FFixed64 _) = KFixed64"
| "kind_of (FBytes _) = KBytes"

fun wire_type_of :: "wire_field \<Rightarrow> u32" where
  "wire_type_of (FFixed32 _) = kWireFixed32"
| "wire_type_of (FFixed64 _) = kWireFixed64"
| "wire_type_of (FBytes _) = kWireLengthDelimited"
| "wire_type_of _ = kWireVarint"

fun payload :: "wire_field \<Rightarrow> u8 list" where
  "payload (FVarint v) = varint_bytes v"
| "payload (FSigned v) = varint_bytes (WireZigZag64 v)"
| "payload (FBool t) = varint_bytes (if t then 1 else 0)"
| "payload (FInt32 v) = varint_bytes (scast v)"
| "payload (FUint32 v) = varint_bytes (ucast v)"
| "payload (FFixed32 v) = le_bytes 4 (ucast v)"
| "payload (FFixed64 v) = le_bytes 8 v"
| "payload (FBytes bs) = varint_bytes (of_nat (length bs)) @ bs"

definition encode_field :: "u32 \<times> wire_field \<Rightarrow> u8 list" where
  "encode_field p = varint_bytes (WireMakeTag (fst p) (wire_type_of (snd p))) @ payload (snd p)"

fun write_field :: "(u64 \<Rightarrow> u64 \<Rightarrow> u64) \<Rightarrow> u32 \<Rightarrow> wire_field \<Rightarrow> unit wop" where
  "write_field alloc n (FVarint v) = WireWriteVarint alloc n v"
| "write_field alloc n (FSigned v) = WireWriteSignedVarint alloc n v"
| "write_field alloc n (FBool v) = WireWriteBool alloc n v"
| "write_field alloc n (FInt32 v) = WireWriteInt32 alloc n v"
| "write_field alloc n (FUint32 v) = WireWriteUint32 alloc n v"
| "write_field alloc n (FFixed32 v) = WireWriteFixed32 alloc n v"
| "write_field alloc n (FFixed64 v) = WireWriteFixed64 alloc n v"
| "write_field alloc n (FBytes v) = WireWriteBytes alloc n v"

fun write_message :: "(u64 \<Rightarrow> u64 \<Rightarrow> u64) \<Rightarrow> (u32 \<times> wire_field) list \<Rightarrow> unit wop" where
  "write_message alloc [] = wreturn ()"
| "write_message alloc (p # ps) =
     wbind (write_field alloc (fst p) (snd p)) (\<lambda>_. write_message alloc ps)"

text \<open>The bytes behind the pointer and length of \<open>WireReadBytes\<close>.\<close>

definition bytes_at :: "u64 \<Rightarrow> u64 \<Rightarrow> u8 list wop" where
  "bytes_at p n b = wreturn (take (unat n) (drop (unat (p - wb_start b)) (wb_mem b))) b"

fun read_payload :: "wire_kind \<Rightarrow> wire_field wop" where
  "read_payload KVarint = wbind WireReadVarint (\<lambda>v. wreturn (FVarint v))"
| "read_payload KSigned = wbind WireReadSignedVarint (\<lambda>v. wreturn (FSigned v))"
| "read_payload KBool = wbind WireReadBool (\<lambda>v. wreturn (FBool v))"
| "read_payload KInt32 = wbind WireReadInt32 (\<lambda>v. wreturn (FInt32 v))"
| "read_payload KUint32 = wbind WireReadUint32 (\<lambda>v. wreturn (FUint32 v))"
| "read_payload KFixed32 = wbind WireReadFixed32 (\<lambda>v. wreturn (FFixed32 v))"
| "read_payload KFixed64 = wbind WireReadFixed64 (\<lambda>v. wreturn (FFixed64 v))"
| "read_payload KBytes = wbind WireReadBytes (\<lambda>(p, n). wbind (bytes_at p n) (\<lambda>v. wreturn (FBytes v)))"

fun read_message :: "wire_kind list \<Rightarrow> (u32 \<times> wire_field) list wop" where
  "read_message [] = wreturn []"
| "read_message (k # ks) =
     wbind WireReadTag (\<lambda>(n, ty). wbind (read_payload k) (\<lambda>f. wbind (read_message ks)
       (\<lambda>ps. wreturn ((n, f) # ps))))"

text \<open>Writing appends the encoding.\<close>

lemma WireWriteTag_appends:
  "alloc_ok alloc \<Longrightarrow> appends (WireWriteTag alloc n ty) (varint_bytes (WireMakeTag n ty))"
  unfolding WireWriteTag_def by (rule WireWriteRawVarint_appends)

lemma WireWriteVarint_appends:
  "alloc_ok alloc \<Longrightarrow>
   appends (WireWriteVarint alloc n v) (varint_bytes (WireMakeTag n kWireVarint) @ varint_bytes v)"
  unfolding WireWriteVarint_def
  by (rule appends_bind [OF WireWriteTag_appends WireWriteRawVarint_appends])

lemma write_field_appends:
  assumes "alloc_ok alloc" "length (payload f) < 2 ^ 62"
  shows "appends (write_field alloc n f) (encode_field (n, f))"
proof (cases f)
  case (FSigned v)
  then show ?thesis
    using appends_bind [OF WireWriteTag_appends WireWriteRawVarint_appends, OF assms(1) assms(1)]
    by (simp add: WireWriteSignedVarint_def encode_field_def)
next
  case (FFixed32 v)
  have "appends (WireWriteRaw alloc (le_bytes 4 (ucast v))) (le_bytes 4 (ucast v))"
    by (rule WireWriteRaw_appends [OF assms(1)]) simp
  with FFixed32 show ?thesis
    using appends_bind [OF WireWriteTag_appends [OF assms(1)]]
    by (simp add: WireWriteFixed32_def encode_field_def)
next
  case (FFixed64 v)
  have "appends (WireWriteRaw alloc (le_bytes 8 v)) (le_bytes 8 v)"
    by (rule WireWriteRaw_appends [OF assms(1)]) simp
  with FFixed64 show ?thesis
    using appends_bind [OF WireWriteTag_appends [OF assms(1)]]
    by (simp add: WireWriteFixed64_def encode_field_def)
next
  case (FBytes bs)
  have "appends (WireWriteRaw alloc bs) bs"
    by (rule WireWriteRaw_appends [OF assms(1)]) (use assms(2) FBytes in simp)
  with FBytes show ?thesis
    using appends_bind [OF WireWriteTag_appends [OF assms(1)]
        appends_bind [OF WireWriteRawVarint_appends [OF assms(1)]]]
    by (simp add: WireWriteBytes_def encode_field_def)
qed (use WireWriteVarint_appends [OF assms(1)] in
     \<open>simp_all add: encode_field_def WireWriteBool_def WireWriteInt32_def WireWriteUint32_def\<close>)

lemma write_message_appends:
  assumes "alloc_ok alloc"
  shows "length (concat (map encode_field ps)) < 2 ^ 62 \<Longrightarrow>
    appends (write_message alloc ps) (concat (map encode_field ps))"
proof (induction ps)
  case Nil
  then show ?case by (simp add: appends_def wreturn_def)
next
  case (Cons p ps)
  have "length (payload (snd p)) < 2 ^ 62" using Cons.prems by (simp add: encode_field_def)
  then have "appends (write_field alloc (fst p) (snd p)) (encode_field p)"
    using write_field_appends [OF assms, of "snd p" "fst p"] by simp
  moreover have "appends (write_message alloc ps) (concat (map encode_field ps))"
    using Cons by simp
  ultimately show ?case using appends_bind by simp
qed

text \<open>Reading accepts it.\<close>

lemma wire_type_less: "wire_type_of f < 8"
  by (cases f) (simp_all add: wire_types)

lemma WireReadTag_accepts:
  "ty < 8 \<Longrightarrow> accepts WireReadTag (varint_bytes (WireMakeTag n ty)) (n, ty)"
  unfolding WireReadTag_def
  by (rule accepts_map [OF WireReadRawVarint_accepts]) (simp add: tag_split)

lemma WireReadBytes_accepts:
  assumes "length bs < 2 ^ 62"
  shows "accepts (read_payload KBytes) (varint_bytes (of_nat (length bs)) @ bs) (FBytes bs)"
proof -
  let ?n = "of_nat (length bs) :: u64"
  have n: "unat ?n = length bs" using assms by (simp add: unat_of_nat)
  have small: "unat ?n < 2 ^ 63" using assms n by simp
  define rd where "rd = (\<lambda>b. wbind (WireCheck ?n)
     (\<lambda>_ b. wbind (advance ?n) (\<lambda>_. wbind (bytes_at (wb_addr b) ?n) (\<lambda>v. wreturn (FBytes v))) b) b)"
  have rd: "accepts rd bs (FBytes bs)"
  proof -
    have "accepts (wbind (WireCheck ?n) (\<lambda>_ b. wbind (advance ?n)
        (\<lambda>_. wbind (bytes_at (wb_addr b) ?n) (\<lambda>v. wreturn (FBytes v))) b)) bs (FBytes bs)"
    proof (rule checked(2) [OF small, where g = FBytes])
      fix b assume "wb_ok b" "\<not> wb_error b" "unat ?n \<le> wb_room b"
      then show "wbind (advance ?n) (\<lambda>_. wbind (bytes_at (wb_addr b) ?n) (\<lambda>v. wreturn (FBytes v))) b =
          Some (Some (FBytes (take (unat ?n) (wb_rest b))), b\<lparr>wb_addr := wb_addr b + ?n\<rparr>)"
        by (simp add: wbind_def advance_def bytes_at_def wreturn_def wb_rest_def wb_offset_def min_def)
    qed (simp add: n)
    then show ?thesis by (simp add: rd_def)
  qed
  have "accepts (wbind WireReadRawVarint (\<lambda>len. wbind (WireCheck len) (\<lambda>_ b. wbind (advance len)
        (\<lambda>_. wbind (bytes_at (wb_addr b) len) (\<lambda>v. wreturn (FBytes v))) b)))
      (varint_bytes ?n @ bs) (FBytes bs)"
    by (rule accepts_bind [OF WireReadRawVarint_accepts]) (use rd in \<open>simp add: rd_def\<close>)
  moreover have "read_payload KBytes = wbind WireReadRawVarint (\<lambda>len. wbind (WireCheck len)
      (\<lambda>_ b. wbind (advance len) (\<lambda>_. wbind (bytes_at (wb_addr b) len) (\<lambda>v. wreturn (FBytes v))) b))"
    by (rule ext)
      (simp add: WireReadBytes_def wbind_def wreturn_def advance_def split: option.split prod.split)
  ultimately show ?thesis by simp
qed

lemma accepts_ctor: "accepts m bs x \<Longrightarrow> accepts (wbind m (\<lambda>v. wreturn (C v))) bs (C x)"
  by (erule accepts_map) (rule refl)

lemma read_payload_accepts:
  assumes "length (payload f) < 2 ^ 62"
  shows "accepts (read_payload (kind_of f)) (payload f) f"
proof (cases f)
  case (FVarint v)
  then show ?thesis
    by (simp add: WireReadVarint_def) (rule accepts_map [OF WireReadRawVarint_accepts], simp)
next
  case (FSigned v)
  have "accepts WireReadSignedVarint (varint_bytes (WireZigZag64 v)) v"
    unfolding WireReadSignedVarint_def
    by (rule accepts_map [OF WireReadRawVarint_accepts]) (simp add: WireZagZig64_ZigZag)
  from accepts_ctor [OF this] FSigned show ?thesis by simp
next
  case (FBool v)
  have "accepts WireReadBool (varint_bytes (if v then 1 else 0)) v"
    unfolding WireReadBool_def by (rule accepts_map [OF WireReadRawVarint_accepts]) simp
  from accepts_ctor [OF this, of FBool] show ?thesis by (simp only: FBool payload.simps kind_of.simps read_payload.simps)
next
  case (FInt32 v)
  have "ucast (scast v :: u64) = v" by (rule bit_word_eqI) (auto simp: bit_ucast_iff bit_signed_iff)
  then have "accepts WireReadInt32 (varint_bytes (scast v)) v"
    unfolding WireReadInt32_def by (intro accepts_map [OF WireReadRawVarint_accepts]) simp
  from accepts_ctor [OF this] FInt32 show ?thesis by simp
next
  case (FUint32 v)
  have "ucast (ucast v :: u64) = v" by (rule bit_word_eqI) (auto simp: bit_ucast_iff)
  then have "accepts WireReadUint32 (varint_bytes (ucast v)) v"
    unfolding WireReadUint32_def by (intro accepts_map [OF WireReadRawVarint_accepts]) simp
  from accepts_ctor [OF this] FUint32 show ?thesis by simp
next
  case (FFixed32 v)
  have "accepts WireReadFixed32 (le_bytes 4 (ucast v)) v"
    unfolding WireReadFixed32_def
    by (rule accepts_map [OF WireReadRaw_accepts]) (simp_all add: fixed32_bytes del: le_bytes.simps)
  from accepts_ctor [OF this] FFixed32 show ?thesis by simp
next
  case (FFixed64 v)
  have "accepts WireReadFixed64 (le_bytes 8 v) v"
    unfolding WireReadFixed64_def
    by (rule accepts_map [OF WireReadRaw_accepts]) (simp_all add: fixed64_bytes del: le_bytes.simps)
  from accepts_ctor [OF this] FFixed64 show ?thesis by simp
next
  case (FBytes bs)
  with assms WireReadBytes_accepts [of bs] show ?thesis by simp
qed

lemma read_message_accepts:
  "length (concat (map encode_field ps)) < 2 ^ 62 \<Longrightarrow>
   accepts (read_message (map (\<lambda>p. kind_of (snd p)) ps)) (concat (map encode_field ps)) ps"
proof (induction ps)
  case Nil
  then show ?case by (simp add: accepts_def wreturn_def)
next
  case (Cons p ps)
  obtain n f where p: "p = (n, f)" by (cases p)
  have "length (payload f) < 2 ^ 62" using Cons.prems by (simp add: encode_field_def p)
  note rp = read_payload_accepts [OF this]
  have "accepts (read_message (map (\<lambda>p. kind_of (snd p)) ps)) (concat (map encode_field ps)) ps"
    using Cons by simp
  from accepts_ctor [OF this, of "\<lambda>ps. (n, f) # ps"]
  have "accepts (wbind (read_payload (kind_of f)) (\<lambda>g. wbind (read_message (map (\<lambda>p. kind_of (snd p)) ps))
      (\<lambda>ps. wreturn ((n, g) # ps)))) (payload f @ concat (map encode_field ps)) ((n, f) # ps)"
    by (rule accepts_bind [OF rp])
  moreover define k where "k = (\<lambda>(n :: u32, ty :: u32). wbind (read_payload (kind_of f))
      (\<lambda>g. wbind (read_message (map (\<lambda>p. kind_of (snd p)) ps)) (\<lambda>ps. wreturn ((n, g) # ps))))"
  ultimately have "accepts (k (n, wire_type_of f)) (payload f @ concat (map encode_field ps)) ((n, f) # ps)"
    by simp
  from accepts_bind [where f = k, OF WireReadTag_accepts [where n = n, OF wire_type_less [of f]] this]
  show ?case by (simp add: p encode_field_def [of "(n, f)"] k_def)
qed

lemma Rewind_spec:
  assumes "writer_ok b"
  shows "reader_ok (WireBufferRewind b)" "wb_rest (WireBufferRewind b) = wb_done b"
proof -
  have ok: "wb_ok b" and o: "wb_owned b" "\<not> wb_error b" using assms by (auto simp: writer_ok_def)
  note w = wb_bounds [OF ok] and off = wb_offset_nat [OF ok]
  have "wb_ok (WireBufferRewind b)"
    using w o ok by (simp add: WireBufferRewind_def wb_ok_def word_le_nat_alt)
  then show "reader_ok (WireBufferRewind b)" using o by (simp add: reader_ok_def WireBufferRewind_def Let_def)
  show "wb_rest (WireBufferRewind b) = wb_done b"
    using o off by (simp add: wb_rest_def wb_done_def WireBufferRewind_def wb_room_def wb_offset_def Let_def)
qed

lemma InitOwned_spec:
  assumes "alloc_ok alloc" "unat n \<le> 2 ^ 61"
  obtains b where "WireBufferInitOwned alloc n = Some b" "writer_ok b" "wb_done b = []" "wb_offset b = 0"
proof -
  define sz where "sz = (if n < WIRE_MIN_SIZE then WIRE_MIN_SIZE else n)"
  have sz: "unat sz \<le> 2 ^ 61" using assms(2) by (simp add: sz_def WIRE_MIN_SIZE_def)
  define p where "p = alloc 0 sz"
  have p: "p \<noteq> 0" "unat p + unat sz \<le> 2 ^ 63"
    using assms(1) sz by (auto simp: alloc_ok_def p_def)
  have e: "unat (p + sz) = unat p + unat sz" using p by (intro unat_add_small) simp
  define b where "b = \<lparr>wb_start = p, wb_addr = p, wb_end = p + sz, wb_size = sz,
      wb_mem = replicate (unat sz) 0, wb_owned = True, wb_error = False\<rparr>"
  have "WireBufferInitOwned alloc n = Some b"
    using p by (simp add: WireBufferInitOwned_def Let_def sz_def p_def b_def)
  moreover have "writer_ok b"
    using p sz e by (simp add: writer_ok_def wb_ok_def b_def word_le_nat_alt)
  moreover have "wb_done b = []" "wb_offset b = 0" by (simp_all add: wb_done_def wb_offset_def b_def)
  ultimately show thesis by (rule that)
qed

section \<open>Scanning for a field\<close>

text \<open>
  The loop of \<open>AllocIR\<close> (\<open>ir_serialize.c\<close>), which looks for the opcode of a serialised IR
  node before it reads the node; the other readers of the serialiser loop in the same
  way.  \<^term>\<open>None\<close> stands for a loop that is still running when the fuel is used up, or
  that left the buffer.
\<close>

definition kIR_opcode :: u32 where
  "kIR_opcode = 1"

fun scan_opcode :: "nat \<Rightarrow> wire_buffer \<Rightarrow> u32 option" where
  "scan_opcode fuel b =
     (if WireBufferEof b \<or> WireBufferHasError b then Some 0
      else case fuel of
             0 \<Rightarrow> None
           | Suc k \<Rightarrow>
               (case WireReadTag b of
                  None \<Rightarrow> None
                | Some (None, b1) \<Rightarrow> Some 0
                | Some (Some (field, wt), b1) \<Rightarrow>
                    (if field = kIR_opcode then
                       (case WireReadInt32 b1 of
                          None \<Rightarrow> None
                        | Some (None, b2) \<Rightarrow> Some 0
                        | Some (Some op, b2) \<Rightarrow> Some op)
                     else (case WireSkip wt b1 of
                             None \<Rightarrow> None
                           | Some (_, b2) \<Rightarrow> scan_opcode k b2))))"

declare scan_opcode.simps [simp del]

lemma WireSkip_accepts:
  assumes "length (payload f) < 2 ^ 62"
  shows "accepts (WireSkip (wire_type_of f)) (payload f) ()"
proof -
  have v: "accepts (WireSkip kWireVarint) (varint_bytes x) ()" for x
    by (simp add: WireSkip_def) (rule accepts_map [OF WireReadRawVarint_accepts], simp)
  show ?thesis
  proof (cases f)
    case (FFixed32 x)
    then show ?thesis using skip_accepts [of 4 "le_bytes 4 (ucast x)"]
      by (simp add: WireSkip_def wire_types del: le_bytes.simps)
  next
    case (FFixed64 x)
    then show ?thesis using skip_accepts [of 8 "le_bytes 8 x"]
      by (simp add: WireSkip_def wire_types del: le_bytes.simps)
  next
    case (FBytes bs)
    have "unat (of_nat (length bs) :: u64) = length bs" using assms FBytes by (simp add: unat_of_nat)
    with assms FBytes
    have "accepts (wbind (WireCheck (of_nat (length bs))) (\<lambda>_. advance (of_nat (length bs)))) bs ()"
      by (intro skip_accepts) simp_all
    with FBytes show ?thesis
      using accepts_bind [OF WireReadRawVarint_accepts] by (simp add: WireSkip_def wire_types)
  qed (use v in simp_all)
qed

lemma acceptsD:
  "accepts m bs x \<Longrightarrow> reader_ok b \<Longrightarrow> wb_rest b = bs @ rest \<Longrightarrow>
   \<exists>b'. m b = Some (Some x, b') \<and> reader_ok b' \<and> wb_rest b' = rest \<and> same_block b b'"
  unfolding accepts_def by blast

lemma scan_opcode_step:
  assumes "reader_ok b" "wb_rest b = encode_field (n, f) @ rest" "length (payload f) < 2 ^ 62"
    "n \<noteq> kIR_opcode"
  shows "\<exists>b'. reader_ok b' \<and> wb_rest b' = rest \<and> scan_opcode (Suc k) b = scan_opcode k b'"
proof -
  obtain b1 where b1: "WireReadTag b = Some (Some (n, wire_type_of f), b1)" "reader_ok b1"
    "wb_rest b1 = payload f @ rest"
    using acceptsD [OF WireReadTag_accepts [OF wire_type_less] assms(1), of n f "payload f @ rest"] assms(2)
    by (auto simp: encode_field_def)
  obtain b2 where b2: "WireSkip (wire_type_of f) b1 = Some (Some (), b2)" "reader_ok b2" "wb_rest b2 = rest"
    using acceptsD [OF WireSkip_accepts [OF assms(3)] b1(2,3)] by blast
  have "0 < length (wb_rest b)" using length_varint_bytes(2) assms(2) by (simp add: encode_field_def)
  then have "0 < wb_room b" using length_wb_rest [of b] assms(1) unfolding reader_ok_def by linarith
  then have "\<not> WireBufferEof b" by (simp add: WireBufferEof_def wb_room_def word_le_nat_alt)
  moreover have "\<not> WireBufferHasError b" using assms(1) by (simp add: reader_ok_def WireBufferHasError_def)
  ultimately have "scan_opcode (Suc k) b = scan_opcode k b2"
    unfolding scan_opcode.simps [of "Suc k" b] using b1(1) b2(1) assms(4) by simp
  with b2 show ?thesis by blast
qed

lemma safe_map:
  assumes "safe m"
  shows "safe (wbind m (\<lambda>x. wreturn (g x)))"
  unfolding safe_def
proof (intro allI impI)
  fix b assume "wb_ok b"
  with assms obtain r b' where "m b = Some (r, b')" "wb_ok b'" "same_block b b'" "moves_on r b b'"
    "wb_error b \<longrightarrow> r = None \<and> b' = b" "r = None \<longleftrightarrow> wb_error b'"
    unfolding safe_def by meson
  then show "\<exists>r b'. wbind m (\<lambda>x. wreturn (g x)) b = Some (r, b') \<and> wb_ok b' \<and> same_block b b' \<and>
    moves_on r b b' \<and> (wb_error b \<longrightarrow> r = None \<and> b' = b) \<and> (r = None \<longleftrightarrow> wb_error b')"
    by (cases r) (auto simp: wbind_def wreturn_def moves_on_def)
qed

lemma InitReader_spec:
  assumes "unat p + length bs \<le> 2 ^ 62"
  shows "reader_ok (WireBufferInitReader p bs)" "wb_rest (WireBufferInitReader p bs) = bs"
proof -
  have l: "unat (of_nat (length bs) :: u64) = length bs" using assms by (simp add: unat_of_nat)
  then have e: "unat (p + of_nat (length bs)) = unat p + length bs"
    using assms by (subst unat_add_small) simp_all
  show "reader_ok (WireBufferInitReader p bs)"
    using l e assms by (simp add: reader_ok_def wb_ok_def WireBufferInitReader_def word_le_nat_alt)
  show "wb_rest (WireBufferInitReader p bs) = bs"
    using e by (simp add: wb_rest_def wb_room_def wb_offset_def WireBufferInitReader_def)
qed

section \<open>Theorems\<close>

text \<open>
  C16. A message survives the wire: any sequence of tagged fields, written into a fresh
  buffer of any initial size and with any allocator, is read back field by field after
  \<open>WireBufferRewind\<close>, with the same numbers and contents; the reader then stands at the
  end, without error, and \<open>WireBufferSize\<close> was the length of the encoding.
\<close>

theorem message_roundtrip:
  assumes "alloc_ok alloc" "unat n \<le> 2 ^ 61" "length (concat (map encode_field ps)) \<le> 2 ^ 61"
  shows "\<exists>b0 b b'. WireBufferInitOwned alloc n = Some b0 \<and>
    write_message alloc ps b0 = Some (Some (), b) \<and>
    unat (WireBufferSize b) = length (concat (map encode_field ps)) \<and>
    read_message (map (\<lambda>p. kind_of (snd p)) ps) (WireBufferRewind b) = Some (Some ps, b') \<and>
    WireBufferEof b' \<and> \<not> WireBufferHasError b'"
proof -
  let ?bs = "concat (map encode_field ps)"
  have small: "length ?bs < 2 ^ 62" using assms(3) by simp
  obtain b0 where b0: "WireBufferInitOwned alloc n = Some b0" "writer_ok b0" "wb_done b0 = []" "wb_offset b0 = 0"
    by (rule InitOwned_spec [OF assms(1,2)])
  obtain b where b: "write_message alloc ps b0 = Some (Some (), b)" "writer_ok b" "wb_done b = ?bs"
    using write_message_appends [OF assms(1) small] b0 assms(3) unfolding appends_def by fastforce
  have sz: "unat (WireBufferSize b) = length ?bs"
    using length_wb_done [of b] b(2,3) by (simp add: writer_ok_def WireBufferSize_def wb_offset_def)
  note rw = Rewind_spec [OF b(2)]
  have "wb_rest (WireBufferRewind b) = ?bs @ []" using rw(2) b(3) by simp
  from acceptsD [OF read_message_accepts [OF small] rw(1) this]
  obtain b' where b': "read_message (map (\<lambda>p. kind_of (snd p)) ps) (WireBufferRewind b) = Some (Some ps, b')"
    "reader_ok b'" "wb_rest b' = []" by blast
  have "wb_room b' = 0" using length_wb_rest [of b'] b'(2,3) by (simp add: reader_ok_def)
  then have "WireBufferEof b'" by (simp add: WireBufferEof_def wb_room_def word_le_nat_alt)
  with b0(1) b(1) sz b' show ?thesis by (auto simp: reader_ok_def WireBufferHasError_def)
qed

theorem message_roundtrip_witness:
  "\<exists>b0 b b'. WireBufferInitOwned (\<lambda>_ _. 4096) 0 = Some b0 \<and>
    write_message (\<lambda>_ _. 4096) [(1, FSigned (- 3)), (2, FBytes [7, 8])] b0 = Some (Some (), b) \<and>
    read_message [KSigned, KBytes] (WireBufferRewind b) = Some (Some [(1, FSigned (- 3)), (2, FBytes [7, 8])], b')"
proof -
  have a: "alloc_ok (\<lambda>_ _. 4096)" by (simp add: alloc_ok_def)
  have "length (payload (FSigned (- 3))) \<le> 10" using length_varint_bytes(1) by simp
  moreover have "length (varint_bytes v) \<le> 10" for v using length_varint_bytes(1) .
  note this [of "WireMakeTag 1 kWireVarint"] this [of "WireMakeTag 2 kWireLengthDelimited"] this [of 2]
  ultimately have "length (concat (map encode_field [(1, FSigned (- 3)), (2, FBytes [7, 8])])) \<le> 2 ^ 61"
    by (simp add: encode_field_def)
  from message_roundtrip [OF a _ this, of 0] show ?thesis by fastforce
qed

text \<open>
  The two zigzag functions are inverse to each other, the varint of a number parses
  to it whatever follows, and \<open>WireVarintSize\<close>, at most ten, is its length.
\<close>

lemma varint_zigzag_roundtrip:
  "WireZagZig64 (WireZigZag64 v) = v \<and> WireZigZag64 (WireZagZig64 v) = v \<and>
   accepts WireReadRawVarint (varint_bytes v) v \<and>
   unat (WireVarintSize v) = length (varint_bytes v) \<and> length (varint_bytes v) \<le> 10"
  using WireZagZig64_ZigZag WireZigZag64_ZagZig WireReadRawVarint_accepts WireVarintSize_spec
    length_varint_bytes(1) by blast

text \<open>
  C28. Reading is memory safe on any input: on a well-formed buffer with arbitrary bytes,
  each scalar reader and the skipping of a scalar stays inside the buffer and keeps it
  well formed, never moves the cursor back and moves it on when it succeeds, sets the error flag
  exactly when it fails, and fails at once, changing nothing, when the flag is already set.
\<close>

theorem scalar_readers_safe:
  assumes "wt \<noteq> kWireLengthDelimited"
  shows "safe WireReadTag \<and> safe WireReadVarint \<and> safe WireReadSignedVarint \<and> safe WireReadBool \<and>
    safe WireReadInt32 \<and> safe WireReadUint32 \<and> safe WireReadInt64 \<and>
    safe WireReadFixed32 \<and> safe WireReadFixed64 \<and> safe (WireSkip wt)"
proof -
  note v = WireReadRawVarint_safe
  have r: "safe (WireReadRaw 4)" "safe (WireReadRaw 8)" by (simp_all add: WireReadRaw_safe)
  have "safe (WireSkip wt)"
    using safe_map [OF v, of "\<lambda>_. ()"] skip_safe [of 8] skip_safe [of 4] safe_fail assms
    by (auto simp: WireSkip_def)
  with v show ?thesis
    unfolding WireReadTag_def WireReadVarint_def WireReadSignedVarint_def WireReadBool_def
      WireReadInt32_def WireReadUint32_def WireReadInt64_def WireReadFixed32_def WireReadFixed64_def
    by (intro conjI safe_map [OF v] safe_map [OF r(1)] safe_map [OF r(2)])
qed

theorem scalar_readers_safe_witness: "safe (WireSkip kWireFixed64)"
  using scalar_readers_safe [of kWireFixed64] by (simp add: wire_types)

text \<open>
  C23. Forward compatibility: the loop that looks for the opcode of a serialised node
  finds it behind any fields with other numbers, whatever their wire types, and stops; a
  fuel of one more than the number of skipped fields is enough.
\<close>

theorem scan_opcode_finds:
  assumes "reader_ok b" "wb_rest b = concat (map encode_field pre) @ encode_field (kIR_opcode, FInt32 op) @ rest"
    "\<forall>p \<in> set pre. fst p \<noteq> kIR_opcode \<and> length (payload (snd p)) < 2 ^ 62"
  shows "scan_opcode (Suc (length pre)) b = Some op"
  using assms
proof (induction pre arbitrary: b)
  case Nil
  then obtain b1 where b1: "WireReadTag b = Some (Some (kIR_opcode, kWireVarint), b1)" "reader_ok b1"
    "wb_rest b1 = payload (FInt32 op) @ rest"
    using acceptsD [OF WireReadTag_accepts [OF wire_type_less] Nil.prems(1), of kIR_opcode "FInt32 op"
        "payload (FInt32 op) @ rest"]
    by (auto simp: encode_field_def)
  have "accepts (read_payload KInt32) (payload (FInt32 op)) (FInt32 op)"
    using read_payload_accepts [of "FInt32 op"] length_varint_bytes(1) [of "scast op"] by simp
  from acceptsD [OF this b1(2,3)] obtain b2 where "WireReadInt32 b1 = Some (Some op, b2)"
    by (auto simp: wbind_def wreturn_def split: option.splits prod.splits)
  moreover have "0 < length (wb_rest b)"
    using length_varint_bytes(2) Nil.prems(2) by (simp add: encode_field_def)
  then have "0 < wb_room b" using length_wb_rest [of b] Nil.prems(1) unfolding reader_ok_def by linarith
  then have "\<not> WireBufferEof b" by (simp add: WireBufferEof_def wb_room_def word_le_nat_alt)
  moreover have "\<not> WireBufferHasError b" using Nil.prems(1) by (simp add: reader_ok_def WireBufferHasError_def)
  ultimately show ?case using b1(1) by (simp add: scan_opcode.simps [of "Suc 0" b])
next
  case (Cons p pre)
  obtain n f where p: "p = (n, f)" by (cases p)
  have r: "wb_rest b = encode_field (n, f) @
      (concat (map encode_field pre) @ encode_field (kIR_opcode, FInt32 op) @ rest)"
    using Cons.prems(2) p by simp
  have nf: "length (payload f) < 2 ^ 62" "n \<noteq> kIR_opcode" using Cons.prems(3) p by auto
  obtain b' where "reader_ok b'"
    "wb_rest b' = concat (map encode_field pre) @ encode_field (kIR_opcode, FInt32 op) @ rest"
    "scan_opcode (Suc (Suc (length pre))) b = scan_opcode (Suc (length pre)) b'"
    using scan_opcode_step [OF Cons.prems(1) r nf, of "Suc (length pre)"] by blast
  with Cons show ?case by simp
qed

theorem scan_opcode_finds_witness:
  "scan_opcode (Suc (Suc 0)) (WireBufferInitReader 4096
     (encode_field (2, FInt32 5) @ encode_field (kIR_opcode, FInt32 9))) = Some 9"
proof -
  let ?bs = "encode_field (2, FInt32 5) @ encode_field (kIR_opcode, FInt32 9)"
  have p: "length (varint_bytes v) \<le> 10" for v using length_varint_bytes(1) .
  have "length ?bs \<le> 40"
    using p [of "WireMakeTag 2 kWireVarint"] p [of "WireMakeTag kIR_opcode kWireVarint"] p [of "scast (5 :: u32)"]
      p [of "scast (9 :: u32)"] by (simp add: encode_field_def)
  then have "unat (4096 :: u64) + length ?bs \<le> 2 ^ 62" by simp
  note rd = InitReader_spec [OF this]
  show ?thesis
    using scan_opcode_finds [of "WireBufferInitReader 4096 ?bs" "[(2, FInt32 5)]" 9 "[]"] rd
      p [of "scast (5 :: u32)"]
    by (simp add: kIR_opcode_def)
qed

text \<open>
  The length check wraps: on a well-formed buffer of eleven bytes, whose one field has
  the length \<open>2 ^ 64 - 11\<close>, \<open>WireSkip\<close> succeeds and moves the cursor back to the start of
  the buffer, so the loop that looks for the opcode never ends.
\<close>

lemma WireSkip_runs_backwards:
  "let b = WireBufferInitReader 4096 [18, 245, 255, 255, 255, 255, 255, 255, 255, 255, 1] in
   wb_ok b \<and> wbind WireReadTag (\<lambda>(n, ty). WireSkip ty) b = Some (Some (), b) \<and>
   (\<forall>fuel. scan_opcode fuel b = None)"
proof -
  define b where "b = WireBufferInitReader 4096 [18, 245, 255, 255, 255, 255, 255, 255, 255, 255, 1]"
  obtain b1 where b1: "WireReadTag b = Some (Some (2, 2), b1)" "WireSkip 2 b1 = Some (Some (), b)"
  proof
    let ?b1 = "b\<lparr>wb_addr := 4097\<rparr>"
    show "WireReadTag b = Some (Some (2, 2), ?b1)" unfolding b_def by code_simp
    show "WireSkip 2 ?b1 = Some (Some (), b)" unfolding b_def by code_simp
  qed
  have st: "\<not> WireBufferEof b" "\<not> WireBufferHasError b" unfolding b_def by code_simp+
  have "scan_opcode fuel b = None" for fuel
  proof (induction fuel)
    case 0
    then show ?case using st by (simp add: scan_opcode.simps [of 0 b])
  next
    case (Suc k)
    then show ?case using st b1 by (simp add: scan_opcode.simps [of "Suc k" b] kIR_opcode_def)
  qed
  moreover have "wb_ok b"
    using InitReader_spec(1) [of 4096 "[18, 245, 255, 255, 255, 255, 255, 255, 255, 255, 1]"]
    by (simp add: reader_ok_def b_def)
  moreover have "wbind WireReadTag (\<lambda>(n, ty). WireSkip ty) b = Some (Some (), b)"
    using b1 by (simp add: wbind_def)
  ultimately show ?thesis by (simp only: b_def Let_def simp_thms)
qed

end
