(* ===== verification/Bpf.thy ===== *)
theory Bpf
  imports CPrelude
begin

text \<open>
  The eBPF machine of \<open>c_compiler/bpf/bpf_machine.h\<close> (instruction encoding) and the
  interpreter \<open>bpf_interpreter/bpf_interpreter.c\<close> that runs what the eBPF back end
  produces.

  The interpreter executes in the address space of its host, so memory is a function from
  addresses to bytes; an access to an unmapped address, which kills the interpreter, is
  outside the model.  The call frames are a list, the innermost first, and \<open>depth\<close> is its
  length.  The host's system calls and the addresses that \<open>calloc\<close> returns are parameters.
  \<open>Undefined\<close> is the outcome of a register number above 10, which indexes past the
  register array.
\<close>

section \<open>Encoding\<close>

definition BPF_LD :: u8 where "BPF_LD = 0x00"
definition BPF_LDX :: u8 where "BPF_LDX = 0x01"
definition BPF_ST :: u8 where "BPF_ST = 0x02"
definition BPF_STX :: u8 where "BPF_STX = 0x03"
definition BPF_ALU :: u8 where "BPF_ALU = 0x04"
definition BPF_JMP :: u8 where "BPF_JMP = 0x05"
definition BPF_JMP32 :: u8 where "BPF_JMP32 = 0x06"
definition BPF_ALU64 :: u8 where "BPF_ALU64 = 0x07"

definition BPF_W :: u8 where "BPF_W = 0x00"
definition BPF_H :: u8 where "BPF_H = 0x08"
definition BPF_B :: u8 where "BPF_B = 0x10"
definition BPF_DW :: u8 where "BPF_DW = 0x18"
definition BPF_IMM :: u8 where "BPF_IMM = 0x00"

definition BPF_ADD :: u8 where "BPF_ADD = 0x00"
definition BPF_SUB :: u8 where "BPF_SUB = 0x10"
definition BPF_MUL :: u8 where "BPF_MUL = 0x20"
definition BPF_DIV :: u8 where "BPF_DIV = 0x30"
definition BPF_OR :: u8 where "BPF_OR = 0x40"
definition BPF_AND :: u8 where "BPF_AND = 0x50"
definition BPF_LSH :: u8 where "BPF_LSH = 0x60"
definition BPF_RSH :: u8 where "BPF_RSH = 0x70"
definition BPF_NEG :: u8 where "BPF_NEG = 0x80"
definition BPF_MOD :: u8 where "BPF_MOD = 0x90"
definition BPF_XOR :: u8 where "BPF_XOR = 0xa0"
definition BPF_MOV :: u8 where "BPF_MOV = 0xb0"
definition BPF_ARSH :: u8 where "BPF_ARSH = 0xc0"

definition BPF_X :: u8 where "BPF_X = 0x08"

definition BPF_JA :: u8 where "BPF_JA = 0x00"
definition BPF_JEQ :: u8 where "BPF_JEQ = 0x10"
definition BPF_JGT :: u8 where "BPF_JGT = 0x20"
definition BPF_JGE :: u8 where "BPF_JGE = 0x30"
definition BPF_JSET :: u8 where "BPF_JSET = 0x40"
definition BPF_JNE :: u8 where "BPF_JNE = 0x50"
definition BPF_JSGT :: u8 where "BPF_JSGT = 0x60"
definition BPF_JSGE :: u8 where "BPF_JSGE = 0x70"
definition BPF_CALL :: u8 where "BPF_CALL = 0x80"
definition BPF_EXIT :: u8 where "BPF_EXIT = 0x90"
definition BPF_JLT :: u8 where "BPF_JLT = 0xa0"
definition BPF_JLE :: u8 where "BPF_JLE = 0xb0"
definition BPF_JSLT :: u8 where "BPF_JSLT = 0xc0"
definition BPF_JSLE :: u8 where "BPF_JSLE = 0xd0"

definition BPF_CLASS :: "u8 \<Rightarrow> u8" where "BPF_CLASS code = Bit_Operations.and code 0x07"
definition BPF_SIZE :: "u8 \<Rightarrow> u8" where "BPF_SIZE code = Bit_Operations.and code 0x18"
definition BPF_MODE :: "u8 \<Rightarrow> u8" where "BPF_MODE code = Bit_Operations.and code 0xe0"
definition BPF_ALU_OP :: "u8 \<Rightarrow> u8" where "BPF_ALU_OP code = Bit_Operations.and code 0xf0"

definition BPF_PSEUDO_CALL :: u8 where "BPF_PSEUDO_CALL = 1"
definition BPF_INSN_SIZE :: u64 where "BPF_INSN_SIZE = 8"
definition BPF_LDDW_SIZE :: u64 where "BPF_LDDW_SIZE = 16"

lemmas bpf_classes = BPF_LD_def BPF_LDX_def BPF_ST_def BPF_STX_def BPF_ALU_def BPF_JMP_def
  BPF_JMP32_def BPF_ALU64_def

lemmas bpf_alu_ops = BPF_ADD_def BPF_SUB_def BPF_MUL_def BPF_DIV_def BPF_OR_def BPF_AND_def
  BPF_LSH_def BPF_RSH_def BPF_NEG_def BPF_MOD_def BPF_XOR_def BPF_MOV_def BPF_ARSH_def

lemmas bpf_jumps = BPF_JA_def BPF_JEQ_def BPF_JGT_def BPF_JGE_def BPF_JSET_def BPF_JNE_def
  BPF_JSGT_def BPF_JSGE_def BPF_CALL_def BPF_EXIT_def BPF_JLT_def BPF_JLE_def BPF_JSLT_def BPF_JSLE_def

record bpf_insn =
  bi_code :: u8
  bi_dst :: u8   \<comment> \<open>a 4-bit field\<close>
  bi_src :: u8   \<comment> \<open>a 4-bit field\<close>
  bi_off :: u16
  bi_imm :: u32

definition BpfEncodeInsn :: "u8 \<Rightarrow> u8 \<Rightarrow> u8 \<Rightarrow> u16 \<Rightarrow> u32 \<Rightarrow> u64" where
  "BpfEncodeInsn code dst src off imm =
     (let word0 = 0;
          word1 = Bit_Operations.or word0 (ucast code);
          word2 = Bit_Operations.or word1
            (push_bit 8 (Bit_Operations.or (push_bit 4 (Bit_Operations.and (ucast src) 0xf))
                                           (Bit_Operations.and (ucast dst) 0xf)));
          word3 = Bit_Operations.or word2 (push_bit 16 (ucast off))
      in Bit_Operations.or word3 (push_bit 32 (ucast imm)))"

definition BpfDecodeInsn :: "u64 \<Rightarrow> bpf_insn" where
  "BpfDecodeInsn word =
     \<lparr>bi_code = ucast word,
      bi_dst = ucast (Bit_Operations.and (drop_bit 8 word) 0xf),
      bi_src = ucast (Bit_Operations.and (drop_bit 12 word) 0xf),
      bi_off = ucast (drop_bit 16 word),
      bi_imm = ucast (drop_bit 32 word)\<rparr>"

section \<open>State\<close>

definition BPF_INTERP_MAX_FRAMES :: nat where "BPF_INTERP_MAX_FRAMES = 128"
definition BPF_INTERP_STACK :: u64 where "BPF_INTERP_STACK = 65536"

record bpf_frame =
  bf_ret_pc :: u64
  bf_r6 :: u64
  bf_r7 :: u64
  bf_r8 :: u64
  bf_r9 :: u64
  bf_fp :: u64
  bf_stack :: u64

type_synonym bpf_memory = "u64 \<Rightarrow> u8"

record bpf_state =
  bpf_r :: "u64 list"
  bpf_pc :: u64
  bpf_stack :: u64
  bpf_frames :: "bpf_frame list"
  bpf_running :: bool
  bpf_exit_code :: u32
  bpf_mem :: bpf_memory

datatype bpf_outcome =
    Continue bpf_state
  | Return bpf_state u32
  | Undefined

text \<open>What the host provides: the effect of a system call and the addresses of new stacks.\<close>

record bpf_host =
  host_syscall :: "u64 \<Rightarrow> u64 \<times> u64 \<times> u64 \<times> u64 \<Rightarrow> bpf_memory \<Rightarrow> u64 \<times> bpf_memory"
  host_calloc :: "bpf_state \<Rightarrow> u64"

section \<open>Operations\<close>

definition ReadGuest :: "bpf_memory \<Rightarrow> u64 \<Rightarrow> nat \<Rightarrow> u64" where
  "ReadGuest mem addr n = of_le_bytes (map (\<lambda>i. mem (addr + of_nat i)) [0..<n])"

definition WriteGuest :: "bpf_memory \<Rightarrow> u64 \<Rightarrow> u64 \<Rightarrow> nat \<Rightarrow> bpf_memory" where
  "WriteGuest mem addr val n =
     (\<lambda>a. if unat (a - addr) < n then le_bytes n val ! unat (a - addr) else mem a)"

definition Fetch :: "bpf_memory \<Rightarrow> u64 \<Rightarrow> bpf_insn" where
  "Fetch mem pc = BpfDecodeInsn (ReadGuest mem pc 8)"

definition SizeFromCode :: "u8 \<Rightarrow> nat" where
  "SizeFromCode code =
     (if BPF_SIZE code = BPF_B then 1
      else if BPF_SIZE code = BPF_H then 2
      else if BPF_SIZE code = BPF_W then 4
      else 8)"

definition Alu :: "u8 \<Rightarrow> u64 \<Rightarrow> u64 \<Rightarrow> bool \<Rightarrow> u64" where
  "Alu op dst src is64 =
     (let d32 = ucast dst :: u32; s32 = ucast src :: u32;
          result =
            (if op = BPF_ADD then (if is64 then dst + src else ucast (d32 + s32))
             else if op = BPF_SUB then (if is64 then dst - src else ucast (d32 - s32))
             else if op = BPF_MUL then (if is64 then dst * src else ucast (d32 * s32))
             else if op = BPF_DIV then
               (if is64 then (if src = 0 then 0 else dst div src)
                else (if s32 = 0 then 0 else ucast (d32 div s32)))
             else if op = BPF_OR then (if is64 then Bit_Operations.or dst src else ucast (Bit_Operations.or d32 s32))
             else if op = BPF_AND then (if is64 then Bit_Operations.and dst src else ucast (Bit_Operations.and d32 s32))
             else if op = BPF_LSH then
               (if is64 then push_bit (unat (Bit_Operations.and src 63)) dst
                else ucast (push_bit (unat (Bit_Operations.and s32 31)) d32))
             else if op = BPF_RSH then
               (if is64 then drop_bit (unat (Bit_Operations.and src 63)) dst
                else ucast (drop_bit (unat (Bit_Operations.and s32 31)) d32))
             else if op = BPF_NEG then (if is64 then - dst else scast (- d32))
             else if op = BPF_MOD then
               (if is64 then (if src = 0 then dst else dst mod src)
                else (if s32 = 0 then ucast d32 else ucast (d32 mod s32)))
             else if op = BPF_XOR then (if is64 then Bit_Operations.xor dst src else ucast (Bit_Operations.xor d32 s32))
             else if op = BPF_MOV then (if is64 then src else ucast s32)
             else if op = BPF_ARSH then
               (if is64 then signed_drop_bit (unat (Bit_Operations.and src 63)) dst
                else scast (signed_drop_bit (unat (Bit_Operations.and s32 31)) d32))
             else dst)
      in if \<not> is64 then ucast (ucast result :: u32) else result)"

definition JumpTaken :: "u8 \<Rightarrow> u64 \<Rightarrow> u64 \<Rightarrow> bool" where
  "JumpTaken op dst src \<longleftrightarrow>
     (if op = BPF_JA then True
      else if op = BPF_JEQ then dst = src
      else if op = BPF_JGT then dst > src
      else if op = BPF_JGE then dst \<ge> src
      else if op = BPF_JSET then Bit_Operations.and dst src \<noteq> 0
      else if op = BPF_JNE then dst \<noteq> src
      else if op = BPF_JSGT then sint dst > sint src
      else if op = BPF_JSGE then sint dst \<ge> sint src
      else if op = BPF_JLT then dst < src
      else if op = BPF_JLE then dst \<le> src
      else if op = BPF_JSLT then sint dst < sint src
      else if op = BPF_JSLE then sint dst \<le> sint src
      else False)"

definition set_reg :: "nat \<Rightarrow> u64 \<Rightarrow> bpf_state \<Rightarrow> bpf_state" where
  "set_reg i v s = s\<lparr>bpf_r := (bpf_r s)[i := v]\<rparr>"

definition reg :: "bpf_state \<Rightarrow> nat \<Rightarrow> u64" where
  "reg s i = bpf_r s ! i"

definition PushFrame :: "bpf_host \<Rightarrow> u64 \<Rightarrow> bpf_state \<Rightarrow> bpf_state option" where
  "PushFrame host ret_pc s =
     (if length (bpf_frames s) \<ge> BPF_INTERP_MAX_FRAMES then None
      else let p = host_calloc host s;
               frame = \<lparr>bf_ret_pc = ret_pc, bf_r6 = reg s 6, bf_r7 = reg s 7, bf_r8 = reg s 8,
                        bf_r9 = reg s 9, bf_fp = reg s 10, bf_stack = p\<rparr>
           in if p = 0 then None
              else Some (set_reg 10 (p + BPF_INTERP_STACK)
                     (s\<lparr>bpf_frames := frame # bpf_frames s,
                        bpf_mem := (\<lambda>a. if a - p < BPF_INTERP_STACK then 0 else bpf_mem s a)\<rparr>)))"

definition PopFrame :: "bpf_state \<Rightarrow> bpf_state option" where
  "PopFrame s =
     (case bpf_frames s of
        [] \<Rightarrow> None
      | frame # rest \<Rightarrow>
          Some (set_reg 10 (bf_fp frame) (set_reg 9 (bf_r9 frame) (set_reg 8 (bf_r8 frame)
            (set_reg 7 (bf_r7 frame) (set_reg 6 (bf_r6 frame)
              (s\<lparr>bpf_frames := rest, bpf_pc := bf_ret_pc frame\<rparr>)))))))"

definition BPF_HOST_SYSCALL :: u32 where "BPF_HOST_SYSCALL = 2147483647"
definition DAVE_SYS_ABORT :: u64 where "DAVE_SYS_ABORT = 11"
definition DAVE_SYS_EXIT :: u64 where "DAVE_SYS_EXIT = 12"
definition DAVE_SYS_EXIT_CLEAN :: u64 where "DAVE_SYS_EXIT_CLEAN = 22"

text \<open>The calls that end the run are the interpreter's own; the others are the host's.\<close>

definition BpfHostSyscall :: "bpf_host \<Rightarrow> bpf_state \<Rightarrow> bpf_state \<times> u64" where
  "BpfHostSyscall host s =
     (let number = reg s 1; a0 = reg s 2; a1 = reg s 3; a2 = reg s 4; a3 = reg s 5
      in if number = DAVE_SYS_ABORT
           then (s\<lparr>bpf_exit_code := 134, bpf_running := False\<rparr>, 0)
         else if number = DAVE_SYS_EXIT \<or> number = DAVE_SYS_EXIT_CLEAN
           then (s\<lparr>bpf_exit_code := ucast a0, bpf_running := False\<rparr>, 0)
         else let (v, mem) = host_syscall host number (a0, a1, a2, a3) (bpf_mem s)
              in (s\<lparr>bpf_mem := mem\<rparr>, v))"

section \<open>One instruction\<close>

definition skip_insn :: "u64 \<Rightarrow> bpf_state \<Rightarrow> bpf_outcome" where
  "skip_insn n s = Continue (s\<lparr>bpf_pc := bpf_pc s + n\<rparr>)"

text \<open>The second operand, a register or the sign-extended immediate.\<close>

definition operand :: "bpf_state \<Rightarrow> bpf_insn \<Rightarrow> u64" where
  "operand s insn =
     (if Bit_Operations.and (bi_code insn) BPF_X \<noteq> 0 then reg s (unat (bi_src insn))
      else scast (bi_imm insn))"

definition step_alu :: "bpf_state \<Rightarrow> bpf_insn \<Rightarrow> bpf_outcome" where
  "step_alu s insn =
     (let is64 = (BPF_CLASS (bi_code insn) = BPF_ALU64);
          dst = unat (bi_dst insn)
      in skip_insn BPF_INSN_SIZE
           (set_reg dst (Alu (BPF_ALU_OP (bi_code insn)) (reg s dst) (operand s insn) is64) s))"

definition step_call :: "bpf_host \<Rightarrow> bpf_state \<Rightarrow> bpf_insn \<Rightarrow> bpf_outcome" where
  "step_call host s insn =
     (let next_pc = bpf_pc s + BPF_INSN_SIZE;
          x = (Bit_Operations.and (bi_code insn) BPF_X \<noteq> 0)
      in if \<not> x \<and> bi_src insn \<noteq> BPF_PSEUDO_CALL \<and> bi_imm insn = BPF_HOST_SYSCALL
         then (let (s', v) = BpfHostSyscall host s
               in Continue ((set_reg 0 v s')\<lparr>bpf_pc := next_pc\<rparr>))
         else if \<not> x \<and> bi_src insn \<noteq> BPF_PSEUDO_CALL then Return s 1
         else let target = (if x then reg s (unat (bi_dst insn))
                            else next_pc + scast (bi_imm insn) * BPF_INSN_SIZE)
              in if target = 0 \<or> target mod BPF_INSN_SIZE \<noteq> 0 then Return s 1
                 else case PushFrame host next_pc s of
                        None \<Rightarrow> Return s 1
                      | Some s' \<Rightarrow> Continue (s'\<lparr>bpf_pc := target\<rparr>))"

definition step_exit :: "bpf_state \<Rightarrow> bpf_outcome" where
  "step_exit s =
     (if bpf_frames s = []
      then Return (s\<lparr>bpf_running := False, bpf_exit_code := ucast (reg s 0)\<rparr>) (ucast (reg s 0))
      else let rv = reg s 0
           in case PopFrame s of None \<Rightarrow> Return s 1 | Some s' \<Rightarrow> Continue (set_reg 0 rv s'))"

definition step_jump :: "bpf_state \<Rightarrow> bpf_insn \<Rightarrow> bpf_outcome" where
  "step_jump s insn =
     (let op = BPF_ALU_OP (bi_code insn);
          src = operand s insn;
          dst = reg s (unat (bi_dst insn));
          jmp32 = (BPF_CLASS (bi_code insn) = BPF_JMP32);
          src' = (if jmp32 then ucast (ucast src :: u32) else src);
          dst' = (if jmp32 then ucast (ucast dst :: u32) else dst)
      in if JumpTaken op dst' src'
         then skip_insn (BPF_INSN_SIZE + scast (bi_off insn) * BPF_INSN_SIZE) s
         else skip_insn BPF_INSN_SIZE s)"

text \<open>
  The registers an instruction indexes: the destination field of every class, except that
  calls through the immediate, exits and the long jump use neither field, and the source
  field when it is an operand.
\<close>

definition regs_ok :: "bpf_insn \<Rightarrow> bool" where
  "regs_ok insn \<longleftrightarrow>
     (let cls = BPF_CLASS (bi_code insn);
          op = BPF_ALU_OP (bi_code insn);
          x = (Bit_Operations.and (bi_code insn) BPF_X \<noteq> 0);
          jump = (cls = BPF_JMP \<or> cls = BPF_JMP32);
          dst_used = (if jump then (if op = BPF_CALL then x
                                    else op \<noteq> BPF_EXIT \<and> \<not> (cls = BPF_JMP32 \<and> op = BPF_JA))
                      else cls = BPF_LD \<longrightarrow> BPF_SIZE (bi_code insn) = BPF_DW \<and> BPF_MODE (bi_code insn) = BPF_IMM);
          src_used = (cls = BPF_LDX \<or> cls = BPF_STX \<or>
                      x \<and> (cls = BPF_ALU \<or> cls = BPF_ALU64 \<or> jump \<and> op \<noteq> BPF_CALL \<and> op \<noteq> BPF_EXIT
                            \<and> \<not> (cls = BPF_JMP32 \<and> op = BPF_JA)))
      in (dst_used \<longrightarrow> bi_dst insn < 11) \<and> (src_used \<longrightarrow> bi_src insn < 11))"

definition bpf_step :: "bpf_host \<Rightarrow> bpf_state \<Rightarrow> bpf_outcome" where
  "bpf_step host s =
     (let insn = Fetch (bpf_mem s) (bpf_pc s);
          code = bi_code insn;
          cls = BPF_CLASS code;
          dst = unat (bi_dst insn); src = unat (bi_src insn);
          n = SizeFromCode code
      in if \<not> regs_ok insn then Undefined
         else if cls = BPF_ALU \<or> cls = BPF_ALU64 then step_alu s insn
         else if cls = BPF_LDX then
           skip_insn BPF_INSN_SIZE (set_reg dst (ReadGuest (bpf_mem s) (reg s src + scast (bi_off insn)) n) s)
         else if cls = BPF_STX then
           skip_insn BPF_INSN_SIZE
             (s\<lparr>bpf_mem := WriteGuest (bpf_mem s) (reg s dst + scast (bi_off insn)) (reg s src) n\<rparr>)
         else if cls = BPF_ST then
           skip_insn BPF_INSN_SIZE
             (s\<lparr>bpf_mem := WriteGuest (bpf_mem s) (reg s dst + scast (bi_off insn)) (scast (bi_imm insn)) n\<rparr>)
         else if cls = BPF_LD then
           (if BPF_SIZE code = BPF_DW \<and> BPF_MODE code = BPF_IMM
            then (let next_insn = Fetch (bpf_mem s) (bpf_pc s + BPF_INSN_SIZE);
                      val = Bit_Operations.or (ucast (bi_imm insn)) (push_bit 32 (ucast (bi_imm next_insn)))
                  in skip_insn BPF_LDDW_SIZE (set_reg dst val s))
            else Return s 1)
         else if BPF_ALU_OP code = BPF_CALL then step_call host s insn
         else if cls = BPF_JMP32 \<and> BPF_ALU_OP code = BPF_JA then
           skip_insn (BPF_INSN_SIZE + scast (bi_imm insn) * BPF_INSN_SIZE) s
         else if BPF_ALU_OP code = BPF_EXIT then step_exit s
         else step_jump s insn)"

text \<open>The main loop, with the number of steps that remain before the limit.\<close>

fun run_loop :: "bpf_host \<Rightarrow> nat \<Rightarrow> bpf_state \<Rightarrow> (bpf_state \<times> u32) option" where
  "run_loop host n s =
     (if \<not> bpf_running s then Some (s, bpf_exit_code s)
      else case n of
             0 \<Rightarrow> Some (s, 1)
           | Suc k \<Rightarrow>
               (case bpf_step host s of
                  Continue s' \<Rightarrow> run_loop host k s'
                | Return s' code \<Rightarrow> Some (s', code)
                | Undefined \<Rightarrow> None))"

declare run_loop.simps [simp del]

definition kMaxSteps :: nat where "kMaxSteps = 100000000"

definition bpf_start :: "bpf_state \<Rightarrow> u64 \<Rightarrow> bpf_state" where
  "bpf_start s entry =
     (set_reg 10 (bpf_stack s + BPF_INTERP_STACK) (s\<lparr>bpf_r := replicate 11 0\<rparr>))
       \<lparr>bpf_pc := entry, bpf_running := True, bpf_exit_code := 0, bpf_frames := []\<rparr>"

definition BPFInterpreterRun :: "bpf_host \<Rightarrow> bpf_state \<Rightarrow> u64 \<Rightarrow> (bpf_state \<times> u32) option" where
  "BPFInterpreterRun host s entry = run_loop host kMaxSteps (bpf_start s entry)"

end
