(* ===== verification/BpfTheorems.thy ===== *)
theory BpfTheorems
  imports Bpf
begin

text \<open>
  Theorems about the eBPF machine: the encoding is lossless, the arithmetic is one
  definition at two widths, memory is little-endian, and calls keep the registers the ABI
  reserves for the caller.
\<close>

section \<open>Encoding\<close>

lemma low4: "Bit_Operations.and x 0xf = take_bit 4 (x :: u64)"
  by (simp add: take_bit_eq_mask mask_eq_exp_minus_1)

lemma encode_bits:
  "n < 64 \<Longrightarrow> bit (BpfEncodeInsn code dst src off imm) n \<longleftrightarrow>
     (if n < 8 then bit code n else if n < 12 then bit dst (n - 8)
      else if n < 16 then bit src (n - 12) else if n < 32 then bit off (n - 16)
      else bit imm (n - 32))"
proof -
  assume n: "n < 64"
  have c: "8 \<le> n \<Longrightarrow> \<not> bit code n" "12 \<le> n \<Longrightarrow> \<not> bit dst (n - 4)" "32 \<le> n \<Longrightarrow> \<not> bit off (n - 16)"
    using bit_imp_le_length [of code n] bit_imp_le_length [of dst "n - 4"] bit_imp_le_length [of off "n - 16"]
    by auto
  have e: "BpfEncodeInsn code dst src off imm =
     Bit_Operations.or (Bit_Operations.or (Bit_Operations.or (ucast code)
       (push_bit 8 (Bit_Operations.or (push_bit 4 (take_bit 4 (ucast src))) (take_bit 4 (ucast dst)))))
       (push_bit 16 (ucast off))) (push_bit 32 (ucast imm))"
    by (simp add: BpfEncodeInsn_def low4)
  show ?thesis
    unfolding e using n c
    by (auto simp: bit_or_iff bit_push_bit_iff bit_take_bit_iff bit_ucast_iff)
qed

lemma decode_encode:
  "BpfDecodeInsn (BpfEncodeInsn code dst src off imm) =
     \<lparr>bi_code = code, bi_dst = Bit_Operations.and dst 0xf, bi_src = Bit_Operations.and src 0xf,
      bi_off = off, bi_imm = imm\<rparr>"
proof -
  let ?w = "BpfEncodeInsn code dst src off imm"
  have l: "(0xf :: u8) = mask 4" "(0xf :: u64) = mask 4" by (simp_all add: mask_eq_exp_minus_1)
  have "ucast ?w = code"
    by (rule bit_word_eqI) (simp add: bit_ucast_iff encode_bits)
  moreover have "ucast (Bit_Operations.and (drop_bit 8 ?w) 0xf) = Bit_Operations.and dst 0xf"
    unfolding l by (rule bit_word_eqI) (auto simp: bit_ucast_iff bit_and_iff bit_mask_iff bit_drop_bit_eq encode_bits)
  moreover have "ucast (Bit_Operations.and (drop_bit 12 ?w) 0xf) = Bit_Operations.and src 0xf"
    unfolding l by (rule bit_word_eqI) (auto simp: bit_ucast_iff bit_and_iff bit_mask_iff bit_drop_bit_eq encode_bits)
  moreover have "ucast (drop_bit 16 ?w) = off"
    by (rule bit_word_eqI) (simp add: bit_ucast_iff bit_drop_bit_eq encode_bits)
  moreover have "ucast (drop_bit 32 ?w) = imm"
    by (rule bit_word_eqI) (simp add: bit_ucast_iff bit_drop_bit_eq encode_bits)
  ultimately show ?thesis by (simp only: BpfDecodeInsn_def)
qed

lemma encode_decode:
  "BpfEncodeInsn (bi_code (BpfDecodeInsn w)) (bi_dst (BpfDecodeInsn w)) (bi_src (BpfDecodeInsn w))
     (bi_off (BpfDecodeInsn w)) (bi_imm (BpfDecodeInsn w)) = w"
proof (rule bit_word_eqI)
  have l: "(0xf :: u64) = mask 4" by (simp add: mask_eq_exp_minus_1)
  fix n assume "n < LENGTH(64)"
  then have n: "n < 64" by simp
  then show "bit (BpfEncodeInsn (bi_code (BpfDecodeInsn w)) (bi_dst (BpfDecodeInsn w)) (bi_src (BpfDecodeInsn w))
     (bi_off (BpfDecodeInsn w)) (bi_imm (BpfDecodeInsn w))) n = bit w n"
    unfolding encode_bits [OF n]
    by (auto simp: BpfDecodeInsn_def l bit_ucast_iff bit_and_iff bit_mask_iff bit_drop_bit_eq)
qed

section \<open>Arithmetic\<close>

text \<open>The operation at any width: shift counts are taken modulo the width.\<close>

definition alu_spec :: "u8 \<Rightarrow> 'a::len word \<Rightarrow> 'a word \<Rightarrow> 'a word" where
  "alu_spec op d s =
     (if op = BPF_ADD then d + s
      else if op = BPF_SUB then d - s
      else if op = BPF_MUL then d * s
      else if op = BPF_DIV then (if s = 0 then 0 else d div s)
      else if op = BPF_OR then Bit_Operations.or d s
      else if op = BPF_AND then Bit_Operations.and d s
      else if op = BPF_LSH then push_bit (unat s mod LENGTH('a)) d
      else if op = BPF_RSH then drop_bit (unat s mod LENGTH('a)) d
      else if op = BPF_NEG then - d
      else if op = BPF_MOD then (if s = 0 then d else d mod s)
      else if op = BPF_XOR then Bit_Operations.xor d s
      else if op = BPF_MOV then s
      else if op = BPF_ARSH then signed_drop_bit (unat s mod LENGTH('a)) d
      else d)"

lemma shift_count64: "unat (Bit_Operations.and s 63) = unat (s :: u64) mod 64"
proof -
  have "Bit_Operations.and s 63 = take_bit 6 s" by (simp add: take_bit_eq_mask mask_eq_exp_minus_1)
  then show ?thesis by (simp add: take_bit_eq_mod unat_mod)
qed

lemma shift_count32: "unat (Bit_Operations.and s 31) = unat (s :: u32) mod 32"
proof -
  have "Bit_Operations.and s 31 = take_bit 5 s" by (simp add: take_bit_eq_mask mask_eq_exp_minus_1)
  then show ?thesis by (simp add: take_bit_eq_mod unat_mod)
qed

lemma ucast_scast_32: "ucast (scast (x :: u32) :: u64) = x"
  by (rule bit_word_eqI) (simp add: bit_ucast_iff bit_signed_iff)

lemma ucast_ucast_32: "ucast (ucast (x :: u32) :: u64) = x"
  by (rule bit_word_eqI) (simp add: bit_ucast_iff)

lemma Alu_64: "Alu op d s True = alu_spec op d s"
  by (simp add: Alu_def alu_spec_def shift_count64)

lemma Alu_32: "Alu op d s False = ucast (alu_spec op (ucast d :: u32) (ucast s))"
proof -
  have z: "ucast (if c then x else y) = (if c then ucast x else ucast y)" for c and x y :: u32
    by simp
  show ?thesis
    by (simp add: Alu_def alu_spec_def shift_count32 ucast_scast_32 ucast_ucast_32 if_distrib [of ucast] cong: if_cong)
qed

section \<open>Memory\<close>

lemma ReadGuest_WriteGuest:
  assumes "n \<le> 8"
  shows "ReadGuest (WriteGuest mem a v n) a n = take_bit (8 * n) v"
proof -
  have "map (\<lambda>i. WriteGuest mem a v n (a + of_nat i)) [0..<n] = le_bytes n v"
  proof (rule nth_equalityI)
    fix i assume "i < length (map (\<lambda>i. WriteGuest mem a v n (a + of_nat i)) [0..<n])"
    then have i: "i < n" by simp
    with assms have "unat (of_nat i :: u64) = i" by (simp add: unat_of_nat)
    with i show "map (\<lambda>i. WriteGuest mem a v n (a + of_nat i)) [0..<n] ! i = le_bytes n v ! i"
      by (simp add: WriteGuest_def)
  qed simp
  then show ?thesis by (simp add: ReadGuest_def of_le_bytes_le_bytes)
qed

lemma WriteGuest_other: "n \<le> unat (x - a) \<Longrightarrow> WriteGuest mem a v n x = mem x"
  by (simp add: WriteGuest_def)

section \<open>Calls\<close>

definition bpf_ok :: "bpf_state \<Rightarrow> bool" where
  "bpf_ok s \<longleftrightarrow> length (bpf_r s) = 11 \<and> length (bpf_frames s) \<le> BPF_INTERP_MAX_FRAMES"

inductive bpf_trans :: "bpf_host \<Rightarrow> bpf_state \<Rightarrow> bpf_state \<Rightarrow> bool" for host where
  "bpf_running s \<Longrightarrow> bpf_step host s = Continue s' \<Longrightarrow> bpf_trans host s s'"

inductive_cases bpf_trans_cases: "bpf_trans host s s'"

text \<open>Executions all of whose states have at least \<open>n\<close> frames.\<close>

inductive inside :: "bpf_host \<Rightarrow> nat \<Rightarrow> bpf_state \<Rightarrow> bpf_state \<Rightarrow> bool" for host n where
  inside_refl: "n \<le> length (bpf_frames s) \<Longrightarrow> inside host n s s"
| inside_step: "inside host n s t \<Longrightarrow> bpf_trans host t u \<Longrightarrow> n \<le> length (bpf_frames u) \<Longrightarrow> inside host n s u"

lemma set_reg_fields [simp]:
  "bpf_frames (set_reg i v s) = bpf_frames s" "bpf_pc (set_reg i v s) = bpf_pc s"
  "bpf_mem (set_reg i v s) = bpf_mem s" "bpf_running (set_reg i v s) = bpf_running s"
  "bpf_r (set_reg i v s) = (bpf_r s)[i := v]"
  by (simp_all add: set_reg_def)

text \<open>What a step does to the call stack: nothing, a call, or a return.\<close>

definition frame_of :: "bpf_state \<Rightarrow> bpf_frame \<Rightarrow> bool" where
  "frame_of s f \<longleftrightarrow> bf_ret_pc f = bpf_pc s + BPF_INSN_SIZE \<and> bf_r6 f = reg s 6 \<and> bf_r7 f = reg s 7 \<and>
     bf_r8 f = reg s 8 \<and> bf_r9 f = reg s 9 \<and> bf_fp f = reg s 10"

definition restored :: "bpf_frame \<Rightarrow> bpf_state \<Rightarrow> bool" where
  "restored f s \<longleftrightarrow> bpf_pc s = bf_ret_pc f \<and> reg s 6 = bf_r6 f \<and> reg s 7 = bf_r7 f \<and>
     reg s 8 = bf_r8 f \<and> reg s 9 = bf_r9 f \<and> reg s 10 = bf_fp f"

lemma skip_insn_frames:
  "skip_insn n s = Continue s' \<Longrightarrow> bpf_frames s' = bpf_frames s \<and> bpf_r s' = bpf_r s"
  by (auto simp: skip_insn_def)

lemma PushFrame_spec:
  assumes "PushFrame host pc s = Some s'"
  obtains f where "bpf_frames s' = f # bpf_frames s" "bf_ret_pc f = pc" "bf_r6 f = reg s 6" "bf_r7 f = reg s 7"
    "bf_r8 f = reg s 8" "bf_r9 f = reg s 9" "bf_fp f = reg s 10"
    "length (bpf_frames s) < BPF_INTERP_MAX_FRAMES" "length (bpf_r s') = length (bpf_r s)"
  using assms by (auto simp: PushFrame_def Let_def split: if_splits)

lemma PopFrame_spec:
  assumes "PopFrame s = Some s'" "length (bpf_r s) = 11"
  obtains f where "bpf_frames s = f # bpf_frames s'" "restored f s'" "length (bpf_r s') = 11"
  using assms by (auto simp: PopFrame_def restored_def reg_def split: list.splits)

lemma BpfHostSyscall_frames:
  "BpfHostSyscall host s = (s', v) \<Longrightarrow> bpf_frames s' = bpf_frames s \<and> bpf_r s' = bpf_r s"
  by (auto simp: BpfHostSyscall_def Let_def split: if_splits prod.splits)

lemma step_exit_cases:
  assumes "step_exit s = Continue s'" "length (bpf_r s) = 11"
  shows "\<exists>f. bpf_frames s = f # bpf_frames s' \<and> restored f s' \<and> length (bpf_r s') = 11"
proof -
  obtain t where t: "PopFrame s = Some t" "s' = set_reg 0 (reg s 0) t"
    using assms(1) by (auto simp: step_exit_def split: if_splits option.splits)
  from PopFrame_spec [OF t(1) assms(2)] obtain f where
    "bpf_frames s = f # bpf_frames t" "restored f t" "length (bpf_r t) = 11" by blast
  with t(2) show ?thesis by (auto simp: restored_def reg_def)
qed

text \<open>The property of an outcome that every branch of the step function has.\<close>

definition stack_step :: "bpf_state \<Rightarrow> bpf_outcome \<Rightarrow> bool" where
  "stack_step s out \<longleftrightarrow> (\<forall>s'. out = Continue s' \<longrightarrow> length (bpf_r s') = 11 \<and>
    (bpf_frames s' = bpf_frames s \<or>
     (\<exists>f. bpf_frames s' = f # bpf_frames s \<and> frame_of s f \<and> length (bpf_frames s) < BPF_INTERP_MAX_FRAMES) \<or>
     (\<exists>f. bpf_frames s = f # bpf_frames s' \<and> restored f s')))"

lemma stack_step_if: "stack_step s a \<Longrightarrow> stack_step s b \<Longrightarrow> stack_step s (if c then a else b)"
  by simp

lemma stack_step_skip:
  "length (bpf_r t) = 11 \<Longrightarrow> bpf_frames t = bpf_frames s \<Longrightarrow> stack_step s (skip_insn n t)"
  unfolding stack_step_def using skip_insn_frames by metis

lemma stack_step_stop: "stack_step s Undefined" "stack_step s (Return t c)"
  by (simp_all add: stack_step_def)

lemma stack_step_push:
  assumes "length (bpf_r s) = 11"
  shows "stack_step s (case PushFrame host (bpf_pc s + BPF_INSN_SIZE) s of None \<Rightarrow> Return s 1
                       | Some t \<Rightarrow> Continue (t\<lparr>bpf_pc := target\<rparr>))"
proof (cases "PushFrame host (bpf_pc s + BPF_INSN_SIZE) s")
  case None
  then show ?thesis by (simp add: stack_step_def)
next
  case (Some t)
  from PushFrame_spec [OF Some] obtain f where f: "bpf_frames t = f # bpf_frames s"
    "bf_ret_pc f = bpf_pc s + BPF_INSN_SIZE" "bf_r6 f = reg s 6" "bf_r7 f = reg s 7"
    "bf_r8 f = reg s 8" "bf_r9 f = reg s 9" "bf_fp f = reg s 10"
    "length (bpf_frames s) < BPF_INTERP_MAX_FRAMES" "length (bpf_r t) = length (bpf_r s)" .
  then have "frame_of s f" by (simp add: frame_of_def)
  with f have "length (bpf_r t) = 11 \<and> (\<exists>f. bpf_frames t = f # bpf_frames s \<and> frame_of s f \<and>
      length (bpf_frames s) < BPF_INTERP_MAX_FRAMES)"
    using assms by (intro conjI exI [of _ f]) simp_all
  moreover have "bpf_r (t\<lparr>bpf_pc := target\<rparr>) = bpf_r t" "bpf_frames (t\<lparr>bpf_pc := target\<rparr>) = bpf_frames t"
    by simp_all
  ultimately show ?thesis unfolding stack_step_def Some option.case bpf_outcome.inject by metis
qed

lemma stack_step_syscall:
  assumes "length (bpf_r s) = 11"
  shows "stack_step s (case BpfHostSyscall host s of (t, v) \<Rightarrow> Continue ((set_reg 0 v t)\<lparr>bpf_pc := pc\<rparr>))"
proof -
  obtain t v where h: "BpfHostSyscall host s = (t, v)" by (cases "BpfHostSyscall host s")
  with BpfHostSyscall_frames [OF h] assms show ?thesis by (simp add: stack_step_def)
qed

lemma stack_step_call: "length (bpf_r s) = 11 \<Longrightarrow> stack_step s (step_call host s insn)"
  unfolding step_call_def Let_def
  by (intro stack_step_if stack_step_stop stack_step_push stack_step_syscall)

lemma stack_step_exit: "length (bpf_r s) = 11 \<Longrightarrow> stack_step s (step_exit s)"
  unfolding stack_step_def using step_exit_cases by metis

lemma bpf_step_stack:
  assumes "length (bpf_r s) = 11"
  shows "stack_step s (bpf_step host s)"
  unfolding bpf_step_def Let_def step_alu_def step_jump_def
  by (intro stack_step_if stack_step_skip stack_step_stop stack_step_call stack_step_exit)
    (simp_all add: assms)

lemma step_frames:
  assumes "bpf_step host s = Continue s'" "length (bpf_r s) = 11"
  shows "length (bpf_r s') = 11 \<and>
    (bpf_frames s' = bpf_frames s \<or>
     (\<exists>f. bpf_frames s' = f # bpf_frames s \<and> frame_of s f \<and> length (bpf_frames s) < BPF_INTERP_MAX_FRAMES) \<or>
     (\<exists>f. bpf_frames s = f # bpf_frames s' \<and> restored f s'))"
  using bpf_step_stack [OF assms(2), of host] assms(1) unfolding stack_step_def by blast

lemma bpf_trans_ok: "bpf_trans host s s' \<Longrightarrow> bpf_ok s \<Longrightarrow> bpf_ok s'"
  by (erule bpf_trans_cases) (use step_frames in \<open>fastforce simp: bpf_ok_def\<close>)

lemma inside_suffix:
  assumes "inside host n s t" "bpf_ok s" "length F = n" "bpf_frames s = G @ F"
  shows "bpf_ok t \<and> (\<exists>H. bpf_frames t = H @ F)"
  using assms
proof (induction rule: inside.induct)
  case (inside_refl s)
  then show ?case by blast
next
  case (inside_step s t u)
  then obtain H where t: "bpf_ok t" "bpf_frames t = H @ F" by blast
  from inside_step.hyps(2) have st: "bpf_step host t = Continue u" by (rule bpf_trans_cases)
  have l: "length (bpf_r t) = 11" using t(1) by (simp add: bpf_ok_def)
  have "\<exists>H. bpf_frames u = H @ F"
  proof -
    from step_frames [OF st l] consider "bpf_frames u = bpf_frames t" | f where "bpf_frames u = f # bpf_frames t"
      | f where "bpf_frames t = f # bpf_frames u" by blast
    then show ?thesis
    proof cases
      case 2
      with t(2) show ?thesis by (intro exI [of _ "f # H"]) simp
    next
      case 3
      have "H \<noteq> []"
      proof
        assume "H = []"
        with t(2) 3 inside_step.hyps(3) inside_step.prems(2) show False by auto
      qed
      then obtain g H' where "H = g # H'" by (cases H) auto
      with 3 t(2) have "bpf_frames u = H' @ F" by simp
      then show ?thesis by blast
    qed (use t(2) in simp)
  qed
  with bpf_trans_ok [OF inside_step.hyps(2) t(1)] show ?case by blast
qed

section \<open>Theorems\<close>

text \<open>
  C30. The instruction encoding loses nothing: decoding an encoded instruction gives its
  fields, the register fields cut to four bits, and encoding the fields of any decoded
  word gives the word back.
\<close>

theorem bpf_encoding_roundtrip:
  "BpfDecodeInsn (BpfEncodeInsn code dst src off imm) =
     \<lparr>bi_code = code, bi_dst = Bit_Operations.and dst 0xf, bi_src = Bit_Operations.and src 0xf,
      bi_off = off, bi_imm = imm\<rparr> \<and>
   (let i = BpfDecodeInsn w in BpfEncodeInsn (bi_code i) (bi_dst i) (bi_src i) (bi_off i) (bi_imm i) = w)"
  using decode_encode encode_decode by (simp add: Let_def)

text \<open>
  C27. The arithmetic of the interpreter is one operation at two widths: the 64-bit
  instructions compute it on 64-bit words, the 32-bit ones on the low halves with the
  result zero-extended; division by zero gives 0, the remainder by zero the dividend, and
  shift counts are taken modulo the width.
\<close>

theorem Alu_widths:
  "Alu op d s True = alu_spec op d s \<and> Alu op d s False = ucast (alu_spec op (ucast d :: u32) (ucast s))"
  using Alu_64 Alu_32 by blast

text \<open>
  A load of up to eight bytes returns what the last store of that size to the address
  wrote, cut to the size, and a store changes no byte outside its range.
\<close>

lemma guest_memory:
  assumes "n \<le> 8"
  shows "ReadGuest (WriteGuest mem a v n) a n = take_bit (8 * n) v \<and>
    (\<forall>x. n \<le> unat (x - a) \<longrightarrow> WriteGuest mem a v n x = mem x)"
  using ReadGuest_WriteGuest [OF assms] WriteGuest_other by blast

text \<open>
  C20. A call keeps what the ABI promises to the caller: however the callee runs, nested
  and recursive calls and system calls included, when it returns the program counter is
  behind the call, \<open>r6\<close> to \<open>r9\<close> and the frame pointer \<open>r10\<close> have their values
  from before the call, and the call stack is the caller's.
\<close>

theorem call_preserves_saved_registers:
  assumes "bpf_ok s" "bpf_trans host s s1" "length (bpf_frames s1) = Suc (length (bpf_frames s))"
    "inside host (Suc (length (bpf_frames s))) s1 s2" "bpf_trans host s2 s3"
    "length (bpf_frames s3) = length (bpf_frames s)"
  shows "bpf_pc s3 = bpf_pc s + BPF_INSN_SIZE \<and> bpf_frames s3 = bpf_frames s \<and>
    (\<forall>i \<in> {6, 7, 8, 9, 10}. reg s3 i = reg s i)"
proof -
  have ok1: "bpf_ok s1" by (rule bpf_trans_ok [OF assms(2,1)])
  have "bpf_step host s = Continue s1" using assms(2) by (rule bpf_trans_cases)
  from step_frames [OF this] assms(1,3)
  obtain f where f: "bpf_frames s1 = f # bpf_frames s" "frame_of s f" by (auto simp: bpf_ok_def)
  from inside_suffix [OF assms(4) ok1, of "f # bpf_frames s" "[]"] f(1)
  obtain H where H: "bpf_ok s2" "bpf_frames s2 = H @ f # bpf_frames s" by auto
  have "bpf_step host s2 = Continue s3" using assms(5) by (rule bpf_trans_cases)
  from step_frames [OF this] H assms(6)
  obtain g where g: "bpf_frames s2 = g # bpf_frames s3" "restored g s3" by (auto simp: bpf_ok_def)
  have "length H = 0" using arg_cong [OF trans [OF g(1) [symmetric] H(2)], of length] assms(6) by simp
  then have "H = []" by simp
  with g H(2) have "g = f" "bpf_frames s3 = bpf_frames s" by simp_all
  with g(2) f(2) show ?thesis by (simp add: restored_def frame_of_def)
qed

text \<open>A program that calls the function at 4112, which returns at once; its stack is at 8192.\<close>

definition call_demo :: bpf_state where
  "call_demo = \<lparr>bpf_r = [0, 1, 2, 3, 4, 5, 6, 7, 8, 9, 10], bpf_pc = 4096, bpf_stack = 0, bpf_frames = [],
     bpf_running = True, bpf_exit_code = 0,
     bpf_mem = (\<lambda>a. if a = 4096 then 0x85 else if a = 4097 then 0x10 else if a = 4100 then 1
                     else if a = 4112 then 0x95 else 0)\<rparr>"

definition demo_host :: bpf_host where
  "demo_host = \<lparr>host_syscall = (\<lambda>_ _ m. (0, m)), host_calloc = (\<lambda>_. 8192)\<rparr>"

theorem call_preserves_saved_registers_witness:
  "\<exists>s1 s3. bpf_trans demo_host call_demo s1 \<and> bpf_trans demo_host s1 s3 \<and> bpf_pc s3 = 4104 \<and> reg s3 7 = 7"
proof -
  have "case bpf_step demo_host call_demo of
      Continue t \<Rightarrow> length (bpf_frames t) = 1 \<and> bpf_running t \<and>
        (case bpf_step demo_host t of Continue u \<Rightarrow> length (bpf_frames u) = 0 | _ \<Rightarrow> False)
    | _ \<Rightarrow> False"
    by code_simp
  then obtain t u where t: "bpf_step demo_host call_demo = Continue t" "length (bpf_frames t) = 1"
    "bpf_running t" and u: "bpf_step demo_host t = Continue u" "length (bpf_frames u) = 0"
    by (auto split: bpf_outcome.splits)
  have "bpf_running call_demo" by (simp add: call_demo_def)
  then have tr: "bpf_trans demo_host call_demo t" "bpf_trans demo_host t u"
    using t u by (auto intro: bpf_trans.intros)
  have ok: "bpf_ok call_demo" "bpf_frames call_demo = []" by (simp_all add: call_demo_def bpf_ok_def)
  have "inside demo_host (Suc (length (bpf_frames call_demo))) t t"
    using t(2) ok(2) by (intro inside_refl) simp
  from call_preserves_saved_registers [OF ok(1) tr(1) _ this tr(2)] t(2) u(2) ok(2)
  have "bpf_pc u = bpf_pc call_demo + BPF_INSN_SIZE" "reg u 7 = reg call_demo 7" by simp_all
  with tr show ?thesis by (auto simp: call_demo_def BPF_INSN_SIZE_def reg_def)
qed

text \<open>
  The interpreter keeps its own arrays in bounds: from a state with eleven registers
  and at most 128 frames every execution leads to such states only.
\<close>

lemma interpreter_bounds:
  assumes "bpf_ok s" "inside host 0 s t"
  shows "bpf_ok t"
  using assms(2,1) by (induction rule: inside.induct) (auto intro: bpf_trans_ok)

text \<open>
  The conditional jumps on 32 bits compare without sign: the interpreter zero-extends
  both operands before a 64-bit comparison, so each signed 32-bit condition is the
  unsigned one, and -1 is not less than 0.
\<close>

lemma jmp32_signed_is_unsigned:
  "let d = ucast (x :: u32); s = ucast (y :: u32) in
   JumpTaken BPF_JSLT d s = (x < y) \<and> JumpTaken BPF_JSLE d s = (x \<le> y) \<and>
   JumpTaken BPF_JSGT d s = (y < x) \<and> JumpTaken BPF_JSGE d s = (y \<le> x)"
proof -
  have "sint (ucast z :: u64) = uint z" for z :: u32
  proof -
    have z: "0 \<le> uint z" "uint z < 2 ^ 32" using uint_lt2p [of z] by simp_all
    have "sint (ucast z :: u64) = signed_take_bit 63 (uint z)" by (simp add: signed_ucast_eq)
    also have "\<dots> = uint z"
    proof (rule signed_take_bit_int_eq_self)
      show "- (2 ^ 63) \<le> uint z" by (rule order_trans [OF _ z(1)]) simp
    qed (use z(2) in simp)
    finally show ?thesis .
  qed
  then show ?thesis by (simp add: JumpTaken_def bpf_jumps Let_def word_less_def word_le_def)
qed

end
