(* ===== verification/IrOps.thy ===== *)
theory IrOps
  imports CPrelude
begin

text \<open>
  The nodes of the intermediate representation (\<open>backend/ir.h\<close>, \<open>backend/ir.c\<close>), the
  part of the type records the back end looks at (\<open>frontend/syntax/type_defs.h\<close>,
  \<open>type_compare.h\<close>), and the predicates on opcodes that every pass of the optimiser asks.

  An opcode is the value of its enumeration constant: the code compares opcodes with
  \<open><\<close> and reads them from files without a check, so they are numbers there too.  A
  node is referred to by a number, with 0 for the null pointer, and looked up in a store.
\<close>

section \<open>Opcodes\<close>

type_synonym ir_op = nat

definition IR_nop :: ir_op where "IR_nop = 0"
definition IR_tmp :: ir_op where "IR_tmp = 1"
definition IR_const8 :: ir_op where "IR_const8 = 2"
definition IR_const16 :: ir_op where "IR_const16 = 3"
definition IR_const32 :: ir_op where "IR_const32 = 4"
definition IR_const64 :: ir_op where "IR_const64 = 5"
definition IR_constf :: ir_op where "IR_constf = 6"
definition IR_constd :: ir_op where "IR_constd = 7"
definition IR_consta :: ir_op where "IR_consta = 8"
definition IR_movi :: ir_op where "IR_movi = 9"
definition IR_movf :: ir_op where "IR_movf = 10"
definition IR_movd :: ir_op where "IR_movd = 11"
definition IR_mova :: ir_op where "IR_mova = 12"
definition IR_label :: ir_op where "IR_label = 13"
definition IR_named_label :: ir_op where "IR_named_label = 14"
definition IR_load32 :: ir_op where "IR_load32 = 15"
definition IR_load8 :: ir_op where "IR_load8 = 16"
definition IR_load64 :: ir_op where "IR_load64 = 17"
definition IR_load16 :: ir_op where "IR_load16 = 18"
definition IR_loadu32 :: ir_op where "IR_loadu32 = 19"
definition IR_loadu8 :: ir_op where "IR_loadu8 = 20"
definition IR_loadu16 :: ir_op where "IR_loadu16 = 21"
definition IR_loadf :: ir_op where "IR_loadf = 22"
definition IR_loadd :: ir_op where "IR_loadd = 23"
definition IR_loada :: ir_op where "IR_loada = 24"
definition IR_structarg :: ir_op where "IR_structarg = 25"
definition IR_vectorarg :: ir_op where "IR_vectorarg = 26"
definition IR_store32 :: ir_op where "IR_store32 = 27"
definition IR_store8 :: ir_op where "IR_store8 = 28"
definition IR_store16 :: ir_op where "IR_store16 = 29"
definition IR_store64 :: ir_op where "IR_store64 = 30"
definition IR_storef :: ir_op where "IR_storef = 31"
definition IR_stored :: ir_op where "IR_stored = 32"
definition IR_storea :: ir_op where "IR_storea = 33"
definition IR_getbit :: ir_op where "IR_getbit = 34"
definition IR_setbit :: ir_op where "IR_setbit = 35"
definition IR_addi :: ir_op where "IR_addi = 36"
definition IR_addf :: ir_op where "IR_addf = 37"
definition IR_addd :: ir_op where "IR_addd = 38"
definition IR_adda :: ir_op where "IR_adda = 39"
definition IR_subi :: ir_op where "IR_subi = 40"
definition IR_subf :: ir_op where "IR_subf = 41"
definition IR_subd :: ir_op where "IR_subd = 42"
definition IR_suba :: ir_op where "IR_suba = 43"
definition IR_muli :: ir_op where "IR_muli = 44"
definition IR_mulf :: ir_op where "IR_mulf = 45"
definition IR_muld :: ir_op where "IR_muld = 46"
definition IR_divi :: ir_op where "IR_divi = 47"
definition IR_divf :: ir_op where "IR_divf = 48"
definition IR_divd :: ir_op where "IR_divd = 49"
definition IR_modi :: ir_op where "IR_modi = 50"
definition IR_lsri :: ir_op where "IR_lsri = 51"
definition IR_asri :: ir_op where "IR_asri = 52"
definition IR_lsli :: ir_op where "IR_lsli = 53"
definition IR_rotli :: ir_op where "IR_rotli = 54"
definition IR_rotri :: ir_op where "IR_rotri = 55"
definition IR_clzi :: ir_op where "IR_clzi = 56"
definition IR_ctzi :: ir_op where "IR_ctzi = 57"
definition IR_popcounti :: ir_op where "IR_popcounti = 58"
definition IR_ori :: ir_op where "IR_ori = 59"
definition IR_andi :: ir_op where "IR_andi = 60"
definition IR_xori :: ir_op where "IR_xori = 61"
definition IR_noti :: ir_op where "IR_noti = 62"
definition IR_nota :: ir_op where "IR_nota = 63"
definition IR_onescomp :: ir_op where "IR_onescomp = 64"
definition IR_negi :: ir_op where "IR_negi = 65"
definition IR_negf :: ir_op where "IR_negf = 66"
definition IR_negd :: ir_op where "IR_negd = 67"
definition IR_vadd :: ir_op where "IR_vadd = 68"
definition IR_vsub :: ir_op where "IR_vsub = 69"
definition IR_vmul :: ir_op where "IR_vmul = 70"
definition IR_vdiv :: ir_op where "IR_vdiv = 71"
definition IR_vmod :: ir_op where "IR_vmod = 72"
definition IR_vlsl :: ir_op where "IR_vlsl = 73"
definition IR_vlsr :: ir_op where "IR_vlsr = 74"
definition IR_vasr :: ir_op where "IR_vasr = 75"
definition IR_vand :: ir_op where "IR_vand = 76"
definition IR_vor :: ir_op where "IR_vor = 77"
definition IR_vxor :: ir_op where "IR_vxor = 78"
definition IR_vneg :: ir_op where "IR_vneg = 79"
definition IR_vonescomp :: ir_op where "IR_vonescomp = 80"
definition IR_vcmpeq :: ir_op where "IR_vcmpeq = 81"
definition IR_vcmpne :: ir_op where "IR_vcmpne = 82"
definition IR_vcmplt :: ir_op where "IR_vcmplt = 83"
definition IR_vcmple :: ir_op where "IR_vcmple = 84"
definition IR_vcmpgt :: ir_op where "IR_vcmpgt = 85"
definition IR_vcmpge :: ir_op where "IR_vcmpge = 86"
definition IR_vcmpltu :: ir_op where "IR_vcmpltu = 87"
definition IR_vcmpleu :: ir_op where "IR_vcmpleu = 88"
definition IR_vcmpgtu :: ir_op where "IR_vcmpgtu = 89"
definition IR_vcmpgeu :: ir_op where "IR_vcmpgeu = 90"
definition IR_cmpeqi :: ir_op where "IR_cmpeqi = 91"
definition IR_cmpnei :: ir_op where "IR_cmpnei = 92"
definition IR_cmplti :: ir_op where "IR_cmplti = 93"
definition IR_cmplei :: ir_op where "IR_cmplei = 94"
definition IR_cmpgti :: ir_op where "IR_cmpgti = 95"
definition IR_cmpgei :: ir_op where "IR_cmpgei = 96"
definition IR_cmpeqf :: ir_op where "IR_cmpeqf = 97"
definition IR_cmpnef :: ir_op where "IR_cmpnef = 98"
definition IR_cmpltf :: ir_op where "IR_cmpltf = 99"
definition IR_cmplef :: ir_op where "IR_cmplef = 100"
definition IR_cmpgtf :: ir_op where "IR_cmpgtf = 101"
definition IR_cmpgef :: ir_op where "IR_cmpgef = 102"
definition IR_cmpeqd :: ir_op where "IR_cmpeqd = 103"
definition IR_cmpned :: ir_op where "IR_cmpned = 104"
definition IR_cmpltd :: ir_op where "IR_cmpltd = 105"
definition IR_cmpled :: ir_op where "IR_cmpled = 106"
definition IR_cmpgtd :: ir_op where "IR_cmpgtd = 107"
definition IR_cmpged :: ir_op where "IR_cmpged = 108"
definition IR_cmpeqa :: ir_op where "IR_cmpeqa = 109"
definition IR_cmpnea :: ir_op where "IR_cmpnea = 110"
definition IR_cmplta :: ir_op where "IR_cmplta = 111"
definition IR_cmplea :: ir_op where "IR_cmplea = 112"
definition IR_cmpgta :: ir_op where "IR_cmpgta = 113"
definition IR_cmpgea :: ir_op where "IR_cmpgea = 114"
definition IR_cmp3wayi :: ir_op where "IR_cmp3wayi = 115"
definition IR_cmp3wayu :: ir_op where "IR_cmp3wayu = 116"
definition IR_cmp3wayf :: ir_op where "IR_cmp3wayf = 117"
definition IR_cmp3wayd :: ir_op where "IR_cmp3wayd = 118"
definition IR_cmp3waya :: ir_op where "IR_cmp3waya = 119"
definition IR_btrue :: ir_op where "IR_btrue = 120"
definition IR_bfalse :: ir_op where "IR_bfalse = 121"
definition IR_bra :: ir_op where "IR_bra = 122"
definition IR_cbra :: ir_op where "IR_cbra = 123"
definition IR_calla :: ir_op where "IR_calla = 124"
definition IR_ret :: ir_op where "IR_ret = 125"
definition IR_enter :: ir_op where "IR_enter = 126"
definition IR_leave :: ir_op where "IR_leave = 127"
definition IR_localvar :: ir_op where "IR_localvar = 128"
definition IR_externvar :: ir_op where "IR_externvar = 129"
definition IR_argument :: ir_op where "IR_argument = 130"
definition IR_staticvar :: ir_op where "IR_staticvar = 131"
definition IR_tempvar :: ir_op where "IR_tempvar = 132"
definition IR_ssavar :: ir_op where "IR_ssavar = 133"
definition IR_structreturn :: ir_op where "IR_structreturn = 134"
definition IR_addressof :: ir_op where "IR_addressof = 135"
definition IR_literalref :: ir_op where "IR_literalref = 136"
definition IR_loc :: ir_op where "IR_loc = 137"
definition IR_observable_checkpoint :: ir_op where "IR_observable_checkpoint = 138"
definition IR_prefetch :: ir_op where "IR_prefetch = 139"
definition IR_pusharg :: ir_op where "IR_pusharg = 140"
definition IR_resulti :: ir_op where "IR_resulti = 141"
definition IR_resultf :: ir_op where "IR_resultf = 142"
definition IR_resultd :: ir_op where "IR_resultd = 143"
definition IR_resulta :: ir_op where "IR_resulta = 144"
definition IR_resultv :: ir_op where "IR_resultv = 145"
definition IR_capturev :: ir_op where "IR_capturev = 146"
definition IR_i2f :: ir_op where "IR_i2f = 147"
definition IR_i2d :: ir_op where "IR_i2d = 148"
definition IR_f2d :: ir_op where "IR_f2d = 149"
definition IR_d2f :: ir_op where "IR_d2f = 150"
definition IR_f2i :: ir_op where "IR_f2i = 151"
definition IR_d2i :: ir_op where "IR_d2i = 152"
definition IR_zeroextendi :: ir_op where "IR_zeroextendi = 153"
definition IR_signextendi :: ir_op where "IR_signextendi = 154"
definition IR_aligni :: ir_op where "IR_aligni = 155"
definition IR_memzero :: ir_op where "IR_memzero = 156"
definition IR_memcpy :: ir_op where "IR_memcpy = 157"
definition IR_cast :: ir_op where "IR_cast = 158"
definition IR_phi :: ir_op where "IR_phi = 159"
definition IR_asm :: ir_op where "IR_asm = 160"
definition IR_nrvoval :: ir_op where "IR_nrvoval = 161"
definition IR_decsp :: ir_op where "IR_decsp = 162"
definition IR_savesp :: ir_op where "IR_savesp = 163"
definition IR_restoresp :: ir_op where "IR_restoresp = 164"
definition IR_builtin_va_start :: ir_op where "IR_builtin_va_start = 165"
definition IR_builtin_va_arg :: ir_op where "IR_builtin_va_arg = 166"
definition IR_builtin_va_end :: ir_op where "IR_builtin_va_end = 167"
definition IR_builtin_va_copy :: ir_op where "IR_builtin_va_copy = 168"
definition IR_atomic_load :: ir_op where "IR_atomic_load = 169"
definition IR_atomic_store :: ir_op where "IR_atomic_store = 170"
definition IR_atomic_fetch_add :: ir_op where "IR_atomic_fetch_add = 171"
definition IR_atomic_fetch_sub :: ir_op where "IR_atomic_fetch_sub = 172"
definition IR_atomic_add_fetch :: ir_op where "IR_atomic_add_fetch = 173"
definition IR_atomic_sub_fetch :: ir_op where "IR_atomic_sub_fetch = 174"
definition IR_atomic_compare_exchange_bool :: ir_op where "IR_atomic_compare_exchange_bool = 175"
definition IR_atomic_compare_exchange_val :: ir_op where "IR_atomic_compare_exchange_val = 176"
definition IR_atomic_compare_exchange_n :: ir_op where "IR_atomic_compare_exchange_n = 177"
definition IR_atomic_fence :: ir_op where "IR_atomic_fence = 178"
definition IR_inc8 :: ir_op where "IR_inc8 = 179"
definition IR_inc16 :: ir_op where "IR_inc16 = 180"
definition IR_inc32 :: ir_op where "IR_inc32 = 181"
definition IR_inc64 :: ir_op where "IR_inc64 = 182"
definition IR_uinc8 :: ir_op where "IR_uinc8 = 183"
definition IR_uinc16 :: ir_op where "IR_uinc16 = 184"
definition IR_uinc32 :: ir_op where "IR_uinc32 = 185"
definition IR_uinc64 :: ir_op where "IR_uinc64 = 186"
definition IR_inca :: ir_op where "IR_inca = 187"
definition IR_incf :: ir_op where "IR_incf = 188"
definition IR_incd :: ir_op where "IR_incd = 189"
definition IR_dec8 :: ir_op where "IR_dec8 = 190"
definition IR_dec16 :: ir_op where "IR_dec16 = 191"
definition IR_dec32 :: ir_op where "IR_dec32 = 192"
definition IR_dec64 :: ir_op where "IR_dec64 = 193"
definition IR_udec8 :: ir_op where "IR_udec8 = 194"
definition IR_udec16 :: ir_op where "IR_udec16 = 195"
definition IR_udec32 :: ir_op where "IR_udec32 = 196"
definition IR_udec64 :: ir_op where "IR_udec64 = 197"
definition IR_deca :: ir_op where "IR_deca = 198"
definition IR_decf :: ir_op where "IR_decf = 199"
definition IR_decd :: ir_op where "IR_decd = 200"

lemmas ir_op_defs =
  IR_nop_def IR_tmp_def IR_const8_def IR_const16_def IR_const32_def IR_const64_def
  IR_constf_def IR_constd_def IR_consta_def IR_movi_def IR_movf_def IR_movd_def IR_mova_def
  IR_label_def IR_named_label_def IR_load32_def IR_load8_def IR_load64_def IR_load16_def
  IR_loadu32_def IR_loadu8_def IR_loadu16_def IR_loadf_def IR_loadd_def IR_loada_def
  IR_structarg_def IR_vectorarg_def IR_store32_def IR_store8_def IR_store16_def
  IR_store64_def IR_storef_def IR_stored_def IR_storea_def IR_getbit_def IR_setbit_def
  IR_addi_def IR_addf_def IR_addd_def IR_adda_def IR_subi_def IR_subf_def IR_subd_def
  IR_suba_def IR_muli_def IR_mulf_def IR_muld_def IR_divi_def IR_divf_def IR_divd_def
  IR_modi_def IR_lsri_def IR_asri_def IR_lsli_def IR_rotli_def IR_rotri_def IR_clzi_def
  IR_ctzi_def IR_popcounti_def IR_ori_def IR_andi_def IR_xori_def IR_noti_def IR_nota_def
  IR_onescomp_def IR_negi_def IR_negf_def IR_negd_def IR_vadd_def IR_vsub_def IR_vmul_def
  IR_vdiv_def IR_vmod_def IR_vlsl_def IR_vlsr_def IR_vasr_def IR_vand_def IR_vor_def
  IR_vxor_def IR_vneg_def IR_vonescomp_def IR_vcmpeq_def IR_vcmpne_def IR_vcmplt_def
  IR_vcmple_def IR_vcmpgt_def IR_vcmpge_def IR_vcmpltu_def IR_vcmpleu_def IR_vcmpgtu_def
  IR_vcmpgeu_def IR_cmpeqi_def IR_cmpnei_def IR_cmplti_def IR_cmplei_def IR_cmpgti_def
  IR_cmpgei_def IR_cmpeqf_def IR_cmpnef_def IR_cmpltf_def IR_cmplef_def IR_cmpgtf_def
  IR_cmpgef_def IR_cmpeqd_def IR_cmpned_def IR_cmpltd_def IR_cmpled_def IR_cmpgtd_def
  IR_cmpged_def IR_cmpeqa_def IR_cmpnea_def IR_cmplta_def IR_cmplea_def IR_cmpgta_def
  IR_cmpgea_def IR_cmp3wayi_def IR_cmp3wayu_def IR_cmp3wayf_def IR_cmp3wayd_def
  IR_cmp3waya_def IR_btrue_def IR_bfalse_def IR_bra_def IR_cbra_def IR_calla_def IR_ret_def
  IR_enter_def IR_leave_def IR_localvar_def IR_externvar_def IR_argument_def
  IR_staticvar_def IR_tempvar_def IR_ssavar_def IR_structreturn_def IR_addressof_def
  IR_literalref_def IR_loc_def IR_observable_checkpoint_def IR_prefetch_def IR_pusharg_def
  IR_resulti_def IR_resultf_def IR_resultd_def IR_resulta_def IR_resultv_def
  IR_capturev_def IR_i2f_def IR_i2d_def IR_f2d_def IR_d2f_def IR_f2i_def IR_d2i_def
  IR_zeroextendi_def IR_signextendi_def IR_aligni_def IR_memzero_def IR_memcpy_def
  IR_cast_def IR_phi_def IR_asm_def IR_nrvoval_def IR_decsp_def IR_savesp_def
  IR_restoresp_def IR_builtin_va_start_def IR_builtin_va_arg_def IR_builtin_va_end_def
  IR_builtin_va_copy_def IR_atomic_load_def IR_atomic_store_def IR_atomic_fetch_add_def
  IR_atomic_fetch_sub_def IR_atomic_add_fetch_def IR_atomic_sub_fetch_def
  IR_atomic_compare_exchange_bool_def IR_atomic_compare_exchange_val_def
  IR_atomic_compare_exchange_n_def IR_atomic_fence_def IR_inc8_def IR_inc16_def
  IR_inc32_def IR_inc64_def IR_uinc8_def IR_uinc16_def IR_uinc32_def IR_uinc64_def
  IR_inca_def IR_incf_def IR_incd_def IR_dec8_def IR_dec16_def IR_dec32_def IR_dec64_def
  IR_udec8_def IR_udec16_def IR_udec32_def IR_udec64_def IR_deca_def IR_decf_def
  IR_decd_def

section \<open>Types\<close>

datatype declarator =
    DeclPrimitive | DeclPointer | DeclReference | DeclRValueReference | DeclArray
  | DeclVector | DeclFunction | DeclMemberPointer

definition kTypeChar :: u32 where "kTypeChar = 1"
definition kTypeInt :: u32 where "kTypeInt = 2"
definition kTypeShort :: u32 where "kTypeShort = 4"
definition kTypeLong :: u32 where "kTypeLong = 8"
definition kTypeLongLong :: u32 where "kTypeLongLong = 16"
definition kTypeBool :: u32 where "kTypeBool = 256"
definition kTypeVoid :: u32 where "kTypeVoid = 512"
definition kTypeEnum :: u32 where "kTypeEnum = 4096"
definition kTypeSigned :: u32 where "kTypeSigned = 8192"
definition kTypeUnsigned :: u32 where "kTypeUnsigned = 16384"
definition kTypeChar8 :: u32 where "kTypeChar8 = 524288"
definition kTypeChar16 :: u32 where "kTypeChar16 = 1048576"
definition kTypeChar32 :: u32 where "kTypeChar32 = 2097152"
definition kTypeBitInt :: u32 where "kTypeBitInt = 33554432"
definition kTypeInt128 :: u32 where "kTypeInt128 = 134217728"
definition kTypeWchar :: u32 where "kTypeWchar = 268435456"
definition kQualVolatile :: u32 where "kQualVolatile = 8"

lemmas type_bit_defs =
  kTypeChar_def kTypeInt_def kTypeShort_def kTypeLong_def kTypeLongLong_def
  kTypeBool_def kTypeVoid_def kTypeEnum_def kTypeSigned_def kTypeUnsigned_def
  kTypeChar8_def kTypeChar16_def kTypeChar32_def kTypeBitInt_def kTypeInt128_def kTypeWchar_def

text \<open>A type is a chain of records, here without the parts only the front end reads.\<close>

datatype type_record =
  TypeRecord (ty_type: u32) (ty_qualifiers: u32) (ty_declarator: declarator)
    (ty_size: int) (ty_bit_width: int) (ty_next: "type_record option")

text \<open>The test of bits of the type of a primitive type; a null type has none.\<close>

fun TypeIsPrimitive :: "type_record option \<Rightarrow> bool" where
  "TypeIsPrimitive None = False"
| "TypeIsPrimitive (Some ty) = (ty_declarator ty = DeclPrimitive)"

definition primitive_has :: "u32 \<Rightarrow> type_record option \<Rightarrow> bool" where
  "primitive_has bits ty \<longleftrightarrow>
     TypeIsPrimitive ty \<and> Bit_Operations.and (ty_type (the ty)) bits \<noteq> 0"

definition TypeIsVoid :: "type_record option \<Rightarrow> bool" where
  "TypeIsVoid ty \<longleftrightarrow> primitive_has kTypeVoid ty"

definition TypeIsBitInt :: "type_record option \<Rightarrow> bool" where
  "TypeIsBitInt ty \<longleftrightarrow> primitive_has kTypeBitInt ty"

definition TypeIsChar8 :: "type_record option \<Rightarrow> bool" where
  "TypeIsChar8 ty \<longleftrightarrow> primitive_has kTypeChar8 ty"

definition TypeIsChar16 :: "type_record option \<Rightarrow> bool" where
  "TypeIsChar16 ty \<longleftrightarrow> primitive_has kTypeChar16 ty"

definition TypeIsChar32 :: "type_record option \<Rightarrow> bool" where
  "TypeIsChar32 ty \<longleftrightarrow> primitive_has kTypeChar32 ty"

definition TypeIsIntegral :: "type_record option \<Rightarrow> bool" where
  "TypeIsIntegral ty \<longleftrightarrow> primitive_has
     (foldr Bit_Operations.or
       [kTypeInt, kTypeShort, kTypeChar, kTypeChar8, kTypeChar16, kTypeChar32, kTypeLong,
        kTypeLongLong, kTypeBool, kTypeEnum, kTypeUnsigned, kTypeSigned, kTypeBitInt,
        kTypeInt128, kTypeWchar] 0) ty"

definition TypeIsVolatile :: "type_record option \<Rightarrow> bool" where
  "TypeIsVolatile ty \<longleftrightarrow>
     (case ty of None \<Rightarrow> False | Some t \<Rightarrow> Bit_Operations.and (ty_qualifiers t) kQualVolatile \<noteq> 0)"

definition TypeIsArray :: "type_record option \<Rightarrow> bool" where
  "TypeIsArray ty \<longleftrightarrow> (case ty of None \<Rightarrow> False | Some t \<Rightarrow> ty_declarator t = DeclArray)"

text \<open>
  Whether plain \<open>char\<close> is signed is a setting of the compiler and an argument here.  The
  code reads the type before it knows that it is not null when plain \<open>char\<close> is unsigned;
  the callers below ask only about types they have tested, apart from
  \<open>IRComparisonIsUnsigned\<close>, and a null type is not unsigned.
\<close>

definition TypeIsUnsigned :: "bool \<Rightarrow> type_record option \<Rightarrow> bool" where
  "TypeIsUnsigned plain_char_is_signed ty \<longleftrightarrow>
     (if TypeIsChar8 ty \<or> TypeIsChar16 ty \<or> TypeIsChar32 ty then True
      else if \<not> plain_char_is_signed \<and> ty \<noteq> None \<and> ty_type (the ty) = kTypeChar then True
      else primitive_has (Bit_Operations.or kTypeUnsigned kTypeBool) ty)"

fun type_chain_is_volatile :: "type_record \<Rightarrow> bool" where
  "type_chain_is_volatile (TypeRecord t q d sz w nxt) =
     (TypeIsVolatile (Some (TypeRecord t q d sz w nxt)) \<or>
      (case nxt of None \<Rightarrow> False | Some ty \<Rightarrow> type_chain_is_volatile ty))"

definition TypeChainIsVolatile :: "type_record option \<Rightarrow> bool" where
  "TypeChainIsVolatile ty \<longleftrightarrow> (case ty of None \<Rightarrow> False | Some t \<Rightarrow> type_chain_is_volatile t)"

section \<open>Nodes\<close>

datatype value_state = ValueValid | ValueErroneous | ValueIndeterminate

definition ValueStateMerge :: "value_state \<Rightarrow> value_state \<Rightarrow> value_state" where
  "ValueStateMerge left right =
     (if left = right then left
      else if left = ValueIndeterminate \<or> right = ValueIndeterminate then ValueIndeterminate
      else ValueErroneous)"

text \<open>The fields of a symbol the optimiser reads.\<close>

record ir_symbol =
  sym_type :: "type_record option"
  sym_storage :: u8
  sym_address_taken :: bool
  sym_is_argument :: bool
  sym_is_temp :: bool
  sym_is_local :: bool

type_synonym node_ref = nat
type_synonym symbol_ref = nat

text \<open>
  The union of the node kinds: \<open>ir_ivalue\<close> is the value of an \<open>IRConstant\<close> and
  \<open>ir_symbol_ref\<close> the symbol of an \<open>IRVariable\<close>.  A block is named by its number.
\<close>

record ir_node =
  ir_id :: int
  ir_opcode :: ir_op
  ir_inputs :: "node_ref list"
  ir_outputs :: "node_ref list"
  ir_block :: nat
  ir_type :: "type_record option"
  ir_value_state :: value_state
  ir_flags :: u32
  ir_var :: symbol_ref
  ir_dest :: node_ref
  ir_ivalue :: u64
  ir_symbol_ref :: symbol_ref

type_synonym ir_store = "node_ref \<Rightarrow> ir_node option"

definition node_at :: "ir_store \<Rightarrow> node_ref \<Rightarrow> ir_node" where
  "node_at h r = the (h r)"

definition kIRVarDef :: u32 where "kIRVarDef = 1"
definition kIRVarUse :: u32 where "kIRVarUse = 2"
definition kIRAsmMemoryClobber :: u32 where "kIRAsmMemoryClobber = 8192"
definition kIRInvalidValueDefinition :: u32 where "kIRInvalidValueDefinition = 32768"

section \<open>Predicates\<close>

definition IRIsBranch :: "ir_node \<Rightarrow> bool" where
  "IRIsBranch node \<longleftrightarrow> ir_opcode node = IR_btrue \<or> ir_opcode node = IR_bfalse \<or>
     ir_opcode node = IR_bra \<or> ir_opcode node = IR_cbra"

definition IRIsUnconditionalBranch :: "ir_node \<Rightarrow> bool" where
  "IRIsUnconditionalBranch node \<longleftrightarrow> ir_opcode node = IR_bra"

definition IRIsConditionalBranch :: "ir_node \<Rightarrow> bool" where
  "IRIsConditionalBranch node \<longleftrightarrow> ir_opcode node = IR_btrue \<or> ir_opcode node = IR_bfalse"

definition IRIsReturn :: "ir_node \<Rightarrow> bool" where
  "IRIsReturn node \<longleftrightarrow> ir_opcode node = IR_ret"

definition IRIsCall :: "ir_node \<Rightarrow> bool" where
  "IRIsCall node \<longleftrightarrow> ir_opcode node = IR_calla"

definition IRAsmClobbersMemory :: "ir_node \<Rightarrow> bool" where
  "IRAsmClobbersMemory node \<longleftrightarrow>
     ir_opcode node = IR_asm \<and> Bit_Operations.and (ir_flags node) kIRAsmMemoryClobber \<noteq> 0"

definition IRIsConst :: "ir_node \<Rightarrow> bool" where
  "IRIsConst node \<longleftrightarrow> ir_opcode node \<ge> IR_const8 \<and> ir_opcode node \<le> IR_consta"

definition IRIsIntConst :: "ir_node \<Rightarrow> bool" where
  "IRIsIntConst node \<longleftrightarrow>
     IRIsConst node \<and> ir_opcode node \<noteq> IR_constf \<and> ir_opcode node \<noteq> IR_constd"

definition IRIntConstValue :: "ir_node \<Rightarrow> u64" where
  "IRIntConstValue node = ir_ivalue node"

definition IRIsVariable :: "ir_node \<Rightarrow> bool" where
  "IRIsVariable node \<longleftrightarrow> ir_opcode node \<in> set
     [IR_localvar, IR_externvar, IR_argument, IR_staticvar, IR_tempvar, IR_ssavar,
      IR_phi, IR_structreturn, IR_tmp]"

definition IRIsAutoVariable :: "ir_node \<Rightarrow> bool" where
  "IRIsAutoVariable node \<longleftrightarrow> ir_opcode node \<in> set
     [IR_localvar, IR_tempvar]"

definition IRIsArgument :: "ir_node \<Rightarrow> bool" where
  "IRIsArgument node \<longleftrightarrow> ir_opcode node = IR_argument"

definition IRIsStaticVariable :: "ir_node \<Rightarrow> bool" where
  "IRIsStaticVariable node \<longleftrightarrow> ir_opcode node \<in> set
     [IR_staticvar, IR_externvar]"

definition IRIsVarDef :: "ir_node \<Rightarrow> bool" where
  "IRIsVarDef inst \<longleftrightarrow> Bit_Operations.and (ir_flags inst) kIRVarDef \<noteq> 0"

definition IRIsVarRef :: "ir_node \<Rightarrow> bool" where
  "IRIsVarRef inst \<longleftrightarrow> Bit_Operations.and (ir_flags inst) kIRVarUse \<noteq> 0"

definition IRIsConstant :: "ir_node \<Rightarrow> bool" where
  "IRIsConstant node \<longleftrightarrow> ir_opcode node \<in> set
     [IR_const32, IR_const8, IR_const16, IR_const64, IR_constf, IR_constd, IR_consta]"

definition IRIsExpression :: "ir_node \<Rightarrow> bool" where
  "IRIsExpression node \<longleftrightarrow> ir_opcode node \<in> set
     [IR_const32, IR_const8, IR_const16, IR_const64, IR_constf, IR_constd, IR_consta,
      IR_movi, IR_movf, IR_movd, IR_mova, IR_tmp, IR_load32, IR_load8, IR_load64,
      IR_load16, IR_loadu32, IR_loadu8, IR_loadu16, IR_loadf, IR_loadd, IR_loada,
      IR_structarg, IR_vectorarg, IR_store32, IR_store8, IR_store16, IR_store64,
      IR_storef, IR_stored, IR_storea, IR_addi, IR_addf, IR_addd, IR_adda, IR_subi,
      IR_subf, IR_subd, IR_suba, IR_muli, IR_mulf, IR_muld, IR_divi, IR_divf, IR_divd,
      IR_modi, IR_lsri, IR_asri, IR_lsli, IR_rotli, IR_rotri, IR_clzi, IR_ctzi,
      IR_popcounti, IR_ori, IR_andi, IR_xori, IR_noti, IR_nota, IR_onescomp, IR_negi,
      IR_negf, IR_negd, IR_vadd, IR_vsub, IR_vmul, IR_vdiv, IR_vmod, IR_vlsl, IR_vlsr,
      IR_vasr, IR_vand, IR_vor, IR_vxor, IR_vneg, IR_vonescomp, IR_vcmpeq, IR_vcmpne,
      IR_vcmplt, IR_vcmple, IR_vcmpgt, IR_vcmpge, IR_vcmpltu, IR_vcmpleu, IR_vcmpgtu,
      IR_vcmpgeu, IR_localvar, IR_externvar, IR_argument, IR_staticvar, IR_tempvar,
      IR_ssavar, IR_i2f, IR_i2d, IR_f2d, IR_d2f, IR_f2i, IR_d2i, IR_zeroextendi,
      IR_signextendi, IR_phi, IR_calla, IR_builtin_va_arg, IR_atomic_load,
      IR_atomic_fetch_add, IR_atomic_fetch_sub, IR_atomic_add_fetch, IR_atomic_sub_fetch,
      IR_atomic_compare_exchange_bool, IR_atomic_compare_exchange_val,
      IR_atomic_compare_exchange_n, IR_cmpeqi, IR_cmpnei, IR_cmplti, IR_cmplei,
      IR_cmpgti, IR_cmpgei, IR_cmpeqf, IR_cmpnef, IR_cmpltf, IR_cmplef, IR_cmpgtf,
      IR_cmpgef, IR_cmpeqd, IR_cmpned, IR_cmpltd, IR_cmpled, IR_cmpgtd, IR_cmpged,
      IR_cmpeqa, IR_cmpnea, IR_cmplta, IR_cmplea, IR_cmpgta, IR_cmpgea, IR_cmp3wayi,
      IR_cmp3wayu, IR_cmp3wayf, IR_cmp3wayd, IR_cmp3waya, IR_literalref, IR_addressof,
      IR_cast, IR_inc8, IR_inc16, IR_inc32, IR_inc64, IR_uinc8, IR_uinc16, IR_uinc32,
      IR_uinc64, IR_inca, IR_incf, IR_incd, IR_dec8, IR_dec16, IR_dec32, IR_dec64,
      IR_udec8, IR_udec16, IR_udec32, IR_udec64, IR_deca, IR_decf, IR_decd]"

definition IRIsCommutative :: "ir_node \<Rightarrow> bool" where
  "IRIsCommutative node \<longleftrightarrow> ir_opcode node \<in> set
     [IR_addi, IR_addf, IR_addd, IR_adda, IR_muli, IR_mulf, IR_muld, IR_ori, IR_andi,
      IR_xori, IR_vadd, IR_vmul, IR_vand, IR_vor, IR_vxor, IR_vcmpeq, IR_vcmpne, IR_phi]"

definition IRIsComparison :: "ir_node \<Rightarrow> bool" where
  "IRIsComparison node \<longleftrightarrow> ir_opcode node \<ge> IR_cmpeqi \<and> ir_opcode node \<le> IR_cmpgea"

definition IRComparisonIsUnsigned :: "bool \<Rightarrow> ir_store \<Rightarrow> ir_node \<Rightarrow> bool" where
  "IRComparisonIsUnsigned plain_char_is_signed h node \<longleftrightarrow>
     (if ir_opcode node \<in> set [IR_cmplta, IR_cmplea, IR_cmpgta, IR_cmpgea, IR_cmp3wayu, IR_cmp3waya]
      then True
      else if ir_opcode node \<in> set [IR_cmplti, IR_cmplei, IR_cmpgti, IR_cmpgei, IR_cmp3wayi]
      then (let lhs = (if ir_inputs node \<noteq> [] then ir_inputs node ! 0 else 0)
            in lhs \<noteq> 0 \<and> TypeIsUnsigned plain_char_is_signed (ir_type (node_at h lhs)))
      else False)"

definition IRIsStoreOnly :: "ir_node \<Rightarrow> bool" where
  "IRIsStoreOnly node \<longleftrightarrow> ir_opcode node \<in> set
     [IR_store32, IR_store8, IR_store16, IR_store64, IR_storef, IR_stored, IR_storea]"

definition IRIsIncDec :: "ir_node \<Rightarrow> bool" where
  "IRIsIncDec node \<longleftrightarrow> ir_opcode node \<in> set
     [IR_inc8, IR_inc16, IR_inc32, IR_inc64, IR_inca, IR_incf, IR_incd, IR_dec16,
      IR_dec32, IR_dec64, IR_deca, IR_decf, IR_decd]"

definition IRIsStore :: "ir_node \<Rightarrow> bool" where
  "IRIsStore node \<longleftrightarrow> ir_opcode node \<in> set
     [IR_store32, IR_store8, IR_store16, IR_store64, IR_storef, IR_stored, IR_storea,
      IR_addressof, IR_cast, IR_builtin_va_start, IR_builtin_va_end, IR_builtin_va_arg,
      IR_builtin_va_copy, IR_atomic_load, IR_atomic_store, IR_atomic_fetch_add,
      IR_atomic_fetch_sub, IR_atomic_add_fetch, IR_atomic_sub_fetch,
      IR_atomic_compare_exchange_bool, IR_atomic_compare_exchange_val,
      IR_atomic_compare_exchange_n, IR_atomic_fence, IR_memzero, IR_memcpy, IR_inc8,
      IR_inc16, IR_inc32, IR_inc64, IR_uinc8, IR_uinc16, IR_uinc32, IR_uinc64, IR_inca,
      IR_incf, IR_incd, IR_dec8, IR_dec16, IR_dec32, IR_dec64, IR_udec8, IR_udec16,
      IR_udec32, IR_udec64, IR_deca, IR_decf, IR_decd, IR_setbit, IR_capturev, IR_vadd,
      IR_vsub, IR_vmul, IR_vdiv, IR_vmod, IR_vlsl, IR_vlsr, IR_vasr, IR_vand, IR_vor,
      IR_vxor, IR_vneg, IR_vonescomp, IR_vcmpeq, IR_vcmpne, IR_vcmplt, IR_vcmple,
      IR_vcmpgt, IR_vcmpge, IR_vcmpltu, IR_vcmpleu, IR_vcmpgtu, IR_vcmpgeu] \<or> IRIsIncDec node"

definition IRIsLoad :: "ir_node \<Rightarrow> bool" where
  "IRIsLoad node \<longleftrightarrow> ir_opcode node \<in> set
     [IR_load32, IR_load8, IR_load64, IR_load16, IR_loadu32, IR_loadu8, IR_loadu16,
      IR_loadf, IR_loadd, IR_loada, IR_structarg, IR_vectorarg, IR_pusharg, IR_addressof,
      IR_cast, IR_getbit] \<or> IRIsIncDec node"

definition IRIsLoadOnly :: "ir_node \<Rightarrow> bool" where
  "IRIsLoadOnly node \<longleftrightarrow> ir_opcode node \<in> set
     [IR_load32, IR_load8, IR_load64, IR_load16, IR_loadu32, IR_loadu8, IR_loadu16,
      IR_loadf, IR_loadd, IR_loada]"

text \<open>Every use of a variable node must be as the base address, its input 0.\<close>

definition IRVariableAddressEscapes :: "ir_store \<Rightarrow> node_ref \<Rightarrow> bool" where
  "IRVariableAddressEscapes h var_node \<longleftrightarrow>
     list_ex (\<lambda>r. let user = node_at h r
                  in \<not> IRIsLoadOnly user \<and> \<not> IRIsStoreOnly user \<and> \<not> IRIsIncDec user \<or>
                     list_ex (\<lambda>input. input = var_node) (drop 1 (ir_inputs user)))
       (ir_outputs (node_at h var_node))"

definition IRIsResult :: "ir_node \<Rightarrow> bool" where
  "IRIsResult node \<longleftrightarrow> ir_opcode node \<in> set
     [IR_resulti, IR_resultf, IR_resultd, IR_resulta, IR_resultv]"

definition IRIsObservableCheckpoint :: "ir_node \<Rightarrow> bool" where
  "IRIsObservableCheckpoint node \<longleftrightarrow> ir_opcode node = IR_observable_checkpoint"

definition IRHasSideEffects :: "ir_store \<Rightarrow> ir_node \<Rightarrow> bool" where
  "IRHasSideEffects h node \<longleftrightarrow>
     (if IRIsObservableCheckpoint node then True
      else if IRIsBranch node \<or> IRIsReturn node \<or> IRIsCall node \<or> IRIsResult node then True
      else if IRIsStore node \<and> ir_opcode node \<noteq> IR_addressof \<and> ir_opcode node \<noteq> IR_cast then True
      else if ir_opcode node \<in> set [IR_enter, IR_leave, IR_pusharg, IR_asm, IR_decsp, IR_savesp,
                                    IR_restoresp] then True
      else if IRIsLoadOnly node then
        TypeChainIsVolatile (ir_type node) \<or>
        list_ex (\<lambda>input. input \<noteq> 0 \<and> TypeChainIsVolatile (ir_type (node_at h input))) (ir_inputs node)
      else False)"

text \<open>The same questions asked by the serialiser, which knows only the opcode.\<close>

definition IROpcodeIsConstant :: "ir_op \<Rightarrow> bool" where
  "IROpcodeIsConstant opcode \<longleftrightarrow> opcode \<in> set
     [IR_const8, IR_const16, IR_const32, IR_const64, IR_constf, IR_constd, IR_consta]"

definition IROpcodeIsFloatConstant :: "ir_op \<Rightarrow> bool" where
  "IROpcodeIsFloatConstant opcode \<longleftrightarrow> opcode = IR_constf \<or> opcode = IR_constd"

definition IROpcodeIsVariable :: "ir_op \<Rightarrow> bool" where
  "IROpcodeIsVariable opcode \<longleftrightarrow> opcode \<in> set
     [IR_localvar, IR_externvar, IR_argument, IR_staticvar, IR_tempvar, IR_ssavar,
      IR_phi]"

text \<open>The struct a node of the opcode is allocated as.\<close>

datatype ir_struct = SIRConstant | SIRNamedLabel | SIRLocation | SIRVariable | SIRNode

definition IRAllocSizeForOpcode :: "ir_op \<Rightarrow> ir_struct" where
  "IRAllocSizeForOpcode opcode =
     (if IROpcodeIsConstant opcode then SIRConstant
      else if opcode = IR_named_label then SIRNamedLabel
      else if opcode = IR_loc then SIRLocation
      else if IROpcodeIsVariable opcode then SIRVariable
      else SIRNode)"

end
