(* ===== verification/IrOpsTheorems.thy ===== *)
theory IrOpsTheorems
  imports IrOps
begin

text \<open>
  The predicates on opcodes agree with each other: ranges of opcodes with enumerations,
  special predicates with general ones, and the allocation of nodes with the casts.
\<close>

section \<open>Memberships\<close>

lemma IRIsVariable_alloc:
  "IRIsVariable node \<longleftrightarrow> IRAllocSizeForOpcode (ir_opcode node) = SIRVariable \<or>
     ir_opcode node = IR_tmp \<or> ir_opcode node = IR_structreturn"
  by (auto simp: IRIsVariable_def IRAllocSizeForOpcode_def IROpcodeIsVariable_def
      IROpcodeIsConstant_def ir_op_defs)

lemma IRIsConst_alloc:
  "IRIsConst node \<longleftrightarrow> IRAllocSizeForOpcode (ir_opcode node) = SIRConstant"
  by (auto simp: IRIsConst_def IRAllocSizeForOpcode_def IROpcodeIsVariable_def
      IROpcodeIsConstant_def ir_op_defs)

lemma IRIsConst_IRIsConstant: "IRIsConst node = IRIsConstant node"
  by (auto simp: IRIsConst_def IRIsConstant_def ir_op_defs)

lemma IRIsComparison_cases:
  "IRIsComparison node \<longleftrightarrow> ir_opcode node \<in> set
     [IR_cmpeqi, IR_cmpnei, IR_cmplti, IR_cmplei, IR_cmpgti, IR_cmpgei,
      IR_cmpeqf, IR_cmpnef, IR_cmpltf, IR_cmplef, IR_cmpgtf, IR_cmpgef,
      IR_cmpeqd, IR_cmpned, IR_cmpltd, IR_cmpled, IR_cmpgtd, IR_cmpged,
      IR_cmpeqa, IR_cmpnea, IR_cmplta, IR_cmplea, IR_cmpgta, IR_cmpgea]"
  by (simp add: IRIsComparison_def ir_op_defs) presburger

lemma IRIsLoadOnly_IRIsLoad: "IRIsLoadOnly node \<Longrightarrow> IRIsLoad node"
  by (auto simp: IRIsLoadOnly_def IRIsLoad_def)

lemma IRIsStoreOnly_IRIsStore: "IRIsStoreOnly node \<Longrightarrow> IRIsStore node"
  by (auto simp: IRIsStoreOnly_def IRIsStore_def)

lemma IRIsIncDec_load_store: "IRIsIncDec node \<Longrightarrow> IRIsLoad node \<and> IRIsStore node"
  by (simp add: IRIsLoad_def IRIsStore_def)

text \<open>A node that is neither of the two pure stores and has no side effects only computes.\<close>

lemma no_side_effects:
  assumes "\<not> IRHasSideEffects h node"
  shows "\<not> IRIsStoreOnly node" "\<not> IRIsIncDec node" "\<not> IRIsCall node" "\<not> IRIsBranch node"
    "\<not> IRIsReturn node" "\<not> IRIsResult node" "\<not> IRIsObservableCheckpoint node"
proof -
  show "\<not> IRIsStoreOnly node"
  proof
    assume s: "IRIsStoreOnly node"
    then have "IRIsStore node" "ir_opcode node \<noteq> IR_addressof" "ir_opcode node \<noteq> IR_cast"
      by (auto simp: IRIsStoreOnly_def IRIsStore_def ir_op_defs)
    then show False using assms by (simp add: IRHasSideEffects_def split: if_splits)
  qed
  show "\<not> IRIsIncDec node"
  proof
    assume s: "IRIsIncDec node"
    then have "IRIsStore node" "ir_opcode node \<noteq> IR_addressof" "ir_opcode node \<noteq> IR_cast"
      by (auto simp: IRIsIncDec_def IRIsStore_def ir_op_defs)
    then show False using assms by (simp add: IRHasSideEffects_def split: if_splits)
  qed
qed (use assms in \<open>auto simp: IRHasSideEffects_def split: if_splits\<close>)

section \<open>Properties\<close>

text \<open>
  The classification of opcodes is coherent: the ranges of opcodes that
  \<open>IRIsConst\<close> and \<open>IRIsComparison\<close> test are exactly the constants and the 24 compares, loads
  and stores proper and increments are among the loads and stores, and a node is allocated
  as a constant for every opcode \<open>IRIsConst\<close> accepts and as a variable for every one
  \<open>IRIsVariable\<close> accepts but \<open>tmp\<close> and \<open>structreturn\<close>, although \<open>unroll.c\<close>,
  \<open>vectorize.c\<close> and \<open>induction.c\<close> read the symbol of a \<open>structreturn\<close> node.
\<close>

lemma opcode_classes:
  "(IRIsConst node \<longleftrightarrow> IRIsConstant node) \<and>
   (IRIsConst node \<longleftrightarrow> IRAllocSizeForOpcode (ir_opcode node) = SIRConstant) \<and>
   (IRIsVariable node \<longleftrightarrow> IRAllocSizeForOpcode (ir_opcode node) = SIRVariable \<or>
     ir_opcode node = IR_tmp \<or> ir_opcode node = IR_structreturn) \<and>
   {op. IRIsComparison (node\<lparr>ir_opcode := op\<rparr>)} = set
     [IR_cmpeqi, IR_cmpnei, IR_cmplti, IR_cmplei, IR_cmpgti, IR_cmpgei,
      IR_cmpeqf, IR_cmpnef, IR_cmpltf, IR_cmplef, IR_cmpgtf, IR_cmpgef,
      IR_cmpeqd, IR_cmpned, IR_cmpltd, IR_cmpled, IR_cmpgtd, IR_cmpged,
      IR_cmpeqa, IR_cmpnea, IR_cmplta, IR_cmplea, IR_cmpgta, IR_cmpgea] \<and>
   {op. IRIsLoadOnly (node\<lparr>ir_opcode := op\<rparr>)} \<union> {op. IRIsIncDec (node\<lparr>ir_opcode := op\<rparr>)}
     \<subseteq> {op. IRIsLoad (node\<lparr>ir_opcode := op\<rparr>)} \<and>
   {op. IRIsStoreOnly (node\<lparr>ir_opcode := op\<rparr>)} \<union> {op. IRIsIncDec (node\<lparr>ir_opcode := op\<rparr>)}
     \<subseteq> {op. IRIsStore (node\<lparr>ir_opcode := op\<rparr>)}"
proof -
  have 1: "{op. IRIsComparison (node\<lparr>ir_opcode := op\<rparr>)} = set
     [IR_cmpeqi, IR_cmpnei, IR_cmplti, IR_cmplei, IR_cmpgti, IR_cmpgei,
      IR_cmpeqf, IR_cmpnef, IR_cmpltf, IR_cmplef, IR_cmpgtf, IR_cmpgef,
      IR_cmpeqd, IR_cmpned, IR_cmpltd, IR_cmpled, IR_cmpgtd, IR_cmpged,
      IR_cmpeqa, IR_cmpnea, IR_cmplta, IR_cmplea, IR_cmpgta, IR_cmpgea]"
    by (rule set_eqI) (simp add: IRIsComparison_cases)
  show ?thesis
    unfolding 1 using IRIsConst_IRIsConstant IRIsConst_alloc IRIsVariable_alloc
      IRIsLoadOnly_IRIsLoad IRIsStoreOnly_IRIsStore IRIsIncDec_load_store by blast
qed

text \<open>
  \<open>IRIsIncDec\<close> is not what its name says: of the opcodes from \<open>inc8\<close> to \<open>decd\<close>, all of
  which \<open>IRIsStore\<close> lists as writing their operand, it leaves out \<open>dec8\<close> (but not \<open>inc8\<close>)
  and every unsigned increment and decrement, so a variable that is only ever decremented
  by a \<open>dec8\<close> counts as one whose address escapes while the same variable under an \<open>inc8\<close>
  does not.
\<close>

lemma IRIsIncDec_incomplete:
  "{op. IR_inc8 \<le> op \<and> op \<le> IR_decd} \<subseteq> {op. IRIsStore (node\<lparr>ir_opcode := op\<rparr>)} \<and>
   {op. IR_inc8 \<le> op \<and> op \<le> IR_decd \<and> \<not> IRIsIncDec (node\<lparr>ir_opcode := op\<rparr>)} = set
     [IR_uinc8, IR_uinc16, IR_uinc32, IR_uinc64, IR_dec8, IR_udec8, IR_udec16, IR_udec32,
      IR_udec64] \<and>
   (let store = (\<lambda>op. [1 \<mapsto> node\<lparr>ir_opcode := IR_localvar, ir_outputs := [2]\<rparr>,
                       2 \<mapsto> node\<lparr>ir_opcode := op, ir_inputs := [1]\<rparr>])
    in IRVariableAddressEscapes (store IR_dec8) 1 \<and> \<not> IRVariableAddressEscapes (store IR_inc8) 1)"
proof (intro conjI)
  show "{op. IR_inc8 \<le> op \<and> op \<le> IR_decd} \<subseteq> {op. IRIsStore (node\<lparr>ir_opcode := op\<rparr>)}"
    by (rule subsetI, simp add: IRIsStore_def IRIsIncDec_def ir_op_defs) presburger
  show "{op. IR_inc8 \<le> op \<and> op \<le> IR_decd \<and> \<not> IRIsIncDec (node\<lparr>ir_opcode := op\<rparr>)} = set
     [IR_uinc8, IR_uinc16, IR_uinc32, IR_uinc64, IR_dec8, IR_udec8, IR_udec16, IR_udec32,
      IR_udec64]"
    by (rule set_eqI, simp add: IRIsIncDec_def ir_op_defs) presburger
  show "let store = (\<lambda>op. [1 \<mapsto> node\<lparr>ir_opcode := IR_localvar, ir_outputs := [2]\<rparr>,
                       2 \<mapsto> node\<lparr>ir_opcode := op, ir_inputs := [1]\<rparr>])
    in IRVariableAddressEscapes (store IR_dec8) 1 \<and> \<not> IRVariableAddressEscapes (store IR_inc8) 1"
    by (simp add: IRVariableAddressEscapes_def node_at_def IRIsLoadOnly_def IRIsStoreOnly_def
        IRIsIncDec_def ir_op_defs)
qed

end
