(* ===== verification/CList.thy ===== *)
theory CList
  imports CPrelude
begin

text \<open>
  The intrusive doubly linked list of \<open>c_compiler/util/list.h\<close> and \<open>list.c\<close>, which holds the
  instructions of a function.  The links live in the elements: \<open>dl_prev\<close> and \<open>dl_next\<close> are
  the two fields of every element in memory, 0 is the null pointer.  The operations refine
  those on lists of elements; the rest of the development works on the lists.
\<close>

record dlist =
  dl_prev :: "nat \<Rightarrow> nat"
  dl_next :: "nat \<Rightarrow> nat"
  dl_first :: nat
  dl_last :: nat
  dl_length :: nat

section \<open>Operations\<close>

definition ListElementInit :: "nat \<Rightarrow> dlist \<Rightarrow> dlist" where
  "ListElementInit e l = l\<lparr>dl_prev := (dl_prev l)(e := 0), dl_next := (dl_next l)(e := 0)\<rparr>"

definition ListInit :: "dlist \<Rightarrow> dlist" where
  "ListInit l = l\<lparr>dl_first := 0, dl_last := 0, dl_length := 0\<rparr>"

definition set_prev :: "nat \<Rightarrow> nat \<Rightarrow> dlist \<Rightarrow> dlist" where
  "set_prev e v l = l\<lparr>dl_prev := (dl_prev l)(e := v)\<rparr>"

definition set_next :: "nat \<Rightarrow> nat \<Rightarrow> dlist \<Rightarrow> dlist" where
  "set_next e v l = l\<lparr>dl_next := (dl_next l)(e := v)\<rparr>"

text \<open>\<^term>\<open>None\<close> is a failed assertion.\<close>

definition ListAppend :: "nat \<Rightarrow> dlist \<Rightarrow> dlist option" where
  "ListAppend e l =
     (if dl_prev l e \<noteq> 0 \<or> dl_next l e \<noteq> 0 then None
      else let l1 = (if dl_last l = 0 then l\<lparr>dl_first := e, dl_last := e\<rparr>
                     else (set_next (dl_last l) e (set_prev e (dl_last l) l))\<lparr>dl_last := e\<rparr>)
           in Some (l1\<lparr>dl_length := dl_length l1 + 1\<rparr>))"

definition ListInsertBefore :: "nat \<Rightarrow> nat \<Rightarrow> dlist \<Rightarrow> dlist" where
  "ListInsertBefore e pos l =
     (let l1 = set_next e pos l;
          l2 = (if dl_prev l1 pos = 0 then l1\<lparr>dl_first := e\<rparr> else set_next (dl_prev l1 pos) e l1);
          l3 = set_prev e (dl_prev l2 pos) l2;
          l4 = set_prev pos e l3
      in l4\<lparr>dl_length := dl_length l4 + 1\<rparr>)"

definition ListInsertAfter :: "nat \<Rightarrow> nat \<Rightarrow> dlist \<Rightarrow> dlist option" where
  "ListInsertAfter e pos l =
     (if pos = 0 then ListAppend e l
      else let l1 = set_prev e pos l;
               l2 = (if dl_next l1 pos = 0 then l1\<lparr>dl_last := e\<rparr> else set_prev (dl_next l1 pos) e l1);
               l3 = set_next e (dl_next l2 pos) l2;
               l4 = set_next pos e l3
           in Some (l4\<lparr>dl_length := dl_length l4 + 1\<rparr>))"

definition ListDeleteElement :: "nat \<Rightarrow> dlist \<Rightarrow> dlist" where
  "ListDeleteElement e l =
     (let l1 = (if dl_prev l e = 0 then l\<lparr>dl_first := dl_next l e\<rparr>
                else set_next (dl_prev l e) (dl_next l e) l);
          l2 = (if dl_next l1 e = 0 then l1\<lparr>dl_last := dl_prev l1 e\<rparr>
                else set_prev (dl_next l1 e) (dl_prev l1 e) l1)
      in l2\<lparr>dl_length := dl_length l2 - 1\<rparr>)"

text \<open>The loop of \<open>ListFind\<close>; it does not end on a cyclic list.\<close>

partial_function (option) find_element :: "(nat \<Rightarrow> bool) \<Rightarrow> dlist \<Rightarrow> nat \<Rightarrow> nat option" where
  "find_element matches l e =
     (if e = 0 then Some 0
      else if matches e then Some e
      else find_element matches l (dl_next l e))"

definition ListFind :: "(nat \<Rightarrow> bool) \<Rightarrow> dlist \<Rightarrow> nat option" where
  "ListFind matches l = find_element matches l (dl_first l)"

text \<open>The loop of \<open>ListTraverse\<close>; the function applied may change the state but not the links.\<close>

partial_function (option) traverse_from :: "(nat \<Rightarrow> 's \<Rightarrow> 's) \<Rightarrow> dlist \<Rightarrow> nat \<Rightarrow> 's \<Rightarrow> 's option" where
  "traverse_from func l e st =
     (if e = 0 then Some st else traverse_from func l (dl_next l e) (func e st))"

definition ListTraverse :: "(nat \<Rightarrow> 's \<Rightarrow> 's) \<Rightarrow> dlist \<Rightarrow> 's \<Rightarrow> 's option" where
  "ListTraverse func l st = traverse_from func l (dl_first l) st"

section \<open>Linked segments\<close>

definition first_or :: "nat list \<Rightarrow> nat \<Rightarrow> nat" where
  "first_or xs q = (case xs of [] \<Rightarrow> q | x # _ \<Rightarrow> x)"

definition last_or :: "nat \<Rightarrow> nat list \<Rightarrow> nat" where
  "last_or p xs = (if xs = [] then p else last xs)"

fun links :: "(nat \<Rightarrow> nat) \<Rightarrow> (nat \<Rightarrow> nat) \<Rightarrow> nat \<Rightarrow> nat list \<Rightarrow> nat \<Rightarrow> bool" where
  "links pv nx p [] q = True"
| "links pv nx p (x # xs) q = (pv x = p \<and> nx x = first_or xs q \<and> links pv nx x xs q)"

lemma first_or_simps [simp]: "first_or [] q = q" "first_or (x # xs) q = x"
  by (simp_all add: first_or_def)

lemma first_or_append [simp]: "first_or (xs @ ys) q = first_or xs (first_or ys q)"
  by (cases xs) simp_all

lemma last_or_simps [simp]: "last_or p [] = p" "last_or p (x # xs) = last_or x xs"
  "last_or p (xs @ ys) = last_or (last_or p xs) ys"
  by (simp_all add: last_or_def)

lemma links_append [simp]:
  "links pv nx p (xs @ ys) q \<longleftrightarrow> links pv nx p xs (first_or ys q) \<and> links pv nx (last_or p xs) ys q"
  by (induction xs arbitrary: p) auto

lemma links_frame [simp]:
  "x \<notin> set xs \<Longrightarrow> links (pv(x := v)) nx p xs q = links pv nx p xs q"
  "x \<notin> set xs \<Longrightarrow> links pv (nx(x := v)) p xs q = links pv nx p xs q"
  by (induction xs arbitrary: p) auto

section \<open>The representation\<close>

definition dll :: "dlist \<Rightarrow> nat list \<Rightarrow> bool" where
  "dll l xs \<longleftrightarrow> distinct xs \<and> 0 \<notin> set xs \<and> dl_first l = first_or xs 0 \<and> dl_last l = last_or 0 xs \<and>
     dl_length l = length xs \<and> links (dl_prev l) (dl_next l) 0 xs 0"

lemma dll_nil: "dll (ListInit l) []"
  by (simp add: dll_def ListInit_def)

lemmas list_op_defs = ListAppend_def ListInsertBefore_def ListInsertAfter_def ListDeleteElement_def
  set_prev_def set_next_def Let_def

text \<open>Every list is empty or has a last element, which is where the insertions split it.\<close>

lemma rev_split: obtains "xs = []" | ys y where "xs = ys @ [y]"
  by (cases xs rule: rev_cases) auto

lemma ListAppend_dll:
  assumes "dll l xs" "e \<noteq> 0" "e \<notin> set xs" "dl_prev l e = 0" "dl_next l e = 0"
  shows "\<exists>l'. ListAppend e l = Some l' \<and> dll l' (xs @ [e])"
proof (cases rule: rev_split [of xs])
  case 1
  then show ?thesis using assms by (auto simp: dll_def list_op_defs)
next
  case (2 ys y)
  then show ?thesis using assms by (auto simp: dll_def list_op_defs)
qed

lemma ListInsertBefore_dll:
  assumes "dll l (xs @ pos # ys)" "e \<noteq> 0" "e \<notin> set (xs @ pos # ys)"
  shows "dll (ListInsertBefore e pos l) (xs @ e # pos # ys)"
proof (cases rule: rev_split [of xs])
  case 1
  then show ?thesis using assms by (auto simp: dll_def list_op_defs)
next
  case (2 zs z)
  then show ?thesis using assms by (auto simp: dll_def list_op_defs)
qed

lemma ListInsertAfter_dll:
  assumes "dll l (xs @ pos # ys)" "e \<noteq> 0" "e \<notin> set (xs @ pos # ys)"
  shows "\<exists>l'. ListInsertAfter e pos l = Some l' \<and> dll l' (xs @ pos # e # ys)"
proof (cases ys)
  case Nil
  then show ?thesis using assms by (auto simp: dll_def list_op_defs)
next
  case (Cons y zs)
  then show ?thesis using assms by (auto simp: dll_def list_op_defs)
qed

lemma ListDeleteElement_dll:
  assumes "dll l (xs @ e # ys)"
  shows "dll (ListDeleteElement e l) (xs @ ys)"
proof (cases rule: rev_split [of xs])
  case 1
  then show ?thesis using assms by (cases ys) (auto simp: dll_def list_op_defs)
next
  case (2 zs z)
  then show ?thesis using assms by (cases ys) (auto simp: dll_def list_op_defs)
qed

section \<open>Traversal\<close>

lemma find_element_links:
  "links (dl_prev l) (dl_next l) p xs 0 \<Longrightarrow> 0 \<notin> set xs \<Longrightarrow>
   find_element matches l (first_or xs 0) = Some (first_or (filter matches xs) 0)"
proof (induction xs arbitrary: p)
  case Nil
  show ?case by (subst find_element.simps) simp
next
  case (Cons x xs)
  then show ?case by (subst find_element.simps) auto
qed

lemma traverse_from_links:
  "links (dl_prev l) (dl_next l) p xs 0 \<Longrightarrow> 0 \<notin> set xs \<Longrightarrow>
   traverse_from func l (first_or xs 0) st = Some (fold func xs st)"
proof (induction xs arbitrary: p st)
  case Nil
  show ?case by (subst traverse_from.simps) simp
next
  case (Cons x xs)
  then show ?case by (subst traverse_from.simps) auto
qed

section \<open>The abstract operations\<close>

fun insert_before :: "nat \<Rightarrow> nat \<Rightarrow> nat list \<Rightarrow> nat list" where
  "insert_before e pos [] = []"
| "insert_before e pos (x # xs) = (if x = pos then e # x # xs else x # insert_before e pos xs)"

fun insert_after :: "nat \<Rightarrow> nat \<Rightarrow> nat list \<Rightarrow> nat list" where
  "insert_after e pos [] = []"
| "insert_after e pos (x # xs) = (if x = pos then x # e # xs else x # insert_after e pos xs)"

fun next_in :: "nat list \<Rightarrow> nat \<Rightarrow> nat" where
  "next_in [] r = 0"
| "next_in (x # xs) r = (if x = r then first_or xs 0 else next_in xs r)"

fun prev_in :: "nat \<Rightarrow> nat list \<Rightarrow> nat \<Rightarrow> nat" where
  "prev_in p [] r = 0"
| "prev_in p (x # xs) r = (if x = r then p else prev_in x xs r)"

lemma abstract_split [simp]:
  assumes "pos \<notin> set xs"
  shows "insert_before e pos (xs @ pos # ys) = xs @ e # pos # ys"
    "insert_after e pos (xs @ pos # ys) = xs @ pos # e # ys"
    "remove1 pos (xs @ pos # ys) = xs @ ys"
    "next_in (xs @ pos # ys) pos = first_or ys 0"
    "prev_in p (xs @ pos # ys) pos = last_or p xs"
  using assms by (induction xs arbitrary: p) auto

section \<open>Properties\<close>

text \<open>
  C22. The linked list refines the list of its elements: initialisation makes it empty; appending,
  to an empty list too, insertion before and after an element and deletion of one keep the links,
  the end pointers and the length consistent and are the operations on lists; the links of an
  element are its neighbours; searching finds the first match (or nothing) and traversal visits
  every element in order, and both end.
\<close>

theorem list_refines:
  assumes "dll l xs" "e \<noteq> 0" "e \<notin> set xs" "dl_prev l e = 0" "dl_next l e = 0"
  shows "dll (ListInit l) [] \<and>
    (\<exists>l'. ListAppend e l = Some l' \<and> dll l' (xs @ [e])) \<and>
    ListFind matches l = Some (first_or (filter matches xs) 0) \<and>
    ListTraverse func l st = Some (fold func xs st) \<and>
    (\<forall>pos \<in> set xs. dl_next l pos = next_in xs pos \<and> dl_prev l pos = prev_in 0 xs pos \<and>
      dll (ListInsertBefore e pos l) (insert_before e pos xs) \<and>
      (\<exists>l'. ListInsertAfter e pos l = Some l' \<and> dll l' (insert_after e pos xs)) \<and>
      dll (ListDeleteElement pos l) (remove1 pos xs))"
proof (intro conjI ballI)
  have links: "links (dl_prev l) (dl_next l) 0 xs 0" "0 \<notin> set xs" "dl_first l = first_or xs 0"
    using assms(1) by (simp_all add: dll_def)
  show "dll (ListInit l) []" by (rule dll_nil)
  show "\<exists>l'. ListAppend e l = Some l' \<and> dll l' (xs @ [e])" using ListAppend_dll [OF assms] by blast
  show "ListFind matches l = Some (first_or (filter matches xs) 0)"
    "ListTraverse func l st = Some (fold func xs st)"
    using find_element_links [OF links(1,2)] traverse_from_links [OF links(1,2)] links(3)
    by (simp_all add: ListFind_def ListTraverse_def)
  fix pos assume "pos \<in> set xs"
  then obtain as bs where xs: "xs = as @ pos # bs" and pos: "pos \<notin> set as" by (meson split_list_first)
  show "dl_next l pos = next_in xs pos" "dl_prev l pos = prev_in 0 xs pos"
    using links(1) pos by (simp_all add: xs)
  show "dll (ListInsertBefore e pos l) (insert_before e pos xs)"
    "\<exists>l'. ListInsertAfter e pos l = Some l' \<and> dll l' (insert_after e pos xs)"
    "dll (ListDeleteElement pos l) (remove1 pos xs)"
    using ListInsertBefore_dll [OF assms(1) [unfolded xs] assms(2) assms(3) [unfolded xs]]
      ListInsertAfter_dll [OF assms(1) [unfolded xs] assms(2) assms(3) [unfolded xs]]
      ListDeleteElement_dll [OF assms(1) [unfolded xs]] pos
    by (simp_all add: xs)
qed

definition list_demo :: dlist where
  "list_demo = \<lparr>dl_prev = (\<lambda>_. 0)(5 := 3), dl_next = (\<lambda>_. 0)(3 := 5), dl_first = 3, dl_last = 5,
                dl_length = 2\<rparr>"

theorem list_refines_witness:
  "dll (ListInsertBefore 7 5 list_demo) [3, 7, 5] \<and> dll (ListDeleteElement 5 list_demo) [3] \<and>
   (\<exists>l. ListAppend 3 (ListInit list_demo\<lparr>dl_next := \<lambda>_. 0\<rparr>) = Some l \<and> dll l [3])"
proof -
  have "dll list_demo [3, 5]" by (simp add: dll_def list_demo_def)
  note demo = list_refines [OF this, of 7 "\<lambda>_. True" "\<lambda>_ s. s" "()"]
  have "dll (ListInit list_demo\<lparr>dl_next := \<lambda>_. 0\<rparr>) []" by (simp add: dll_def ListInit_def)
  from list_refines [OF this, of 3 "\<lambda>_. True" "\<lambda>_ s. s" "()"] demo
  show ?thesis by (simp add: list_demo_def ListInit_def)
qed

end
