(* ===== verification/IrGraph.thy ===== *)
theory IrGraph
  imports IrOps CList CBitSet CMap CSet "HOL-Library.Monad_Syntax"
begin

text \<open>
  The graph of a function in the optimiser: the nodes with their def-use edges, kept twice
  (\<open>inputs\<close> of the user, \<open>outputs\<close> of the definition), the instruction list and the basic
  blocks, with the operations every pass mutates them by (\<open>backend/ir.c\<close>,
  \<open>backend/codegen.c\<close>, \<open>backend/basic_block.c\<close>).  \<^term>\<open>None\<close> is a call of
  \<open>abort\<close>, a failed assertion, a dangling pointer or a loop that does not end.
\<close>

record basic_block =
  bb_id :: nat
  bb_in_edges :: "nat list"
  bb_out_edges :: "nat list"
  bb_code :: node_ref
  bb_end_code :: node_ref
  bb_dominators :: bitset
  bb_num_dominators :: nat
  bb_dominatees :: "nat list"
  bb_dominance_frontier :: bitset
  bb_idom :: "nat option"
  bb_in_back_edges :: bitset
  bb_reachability_known :: bool
  bb_is_unreachable :: bool
  bb_defined_vars :: cmap
  bb_referenced_vars :: cset
  bb_num_calls :: nat
  bb_return_block :: bool

text \<open>The keys of \<open>defined_vars\<close> are the addresses of symbols.\<close>

definition CompareVariable :: "kv \<Rightarrow> kv \<Rightarrow> int" where
  "CompareVariable a b =
     (if kv_key a = kv_key b then 0 else if kv_key a < kv_key b then -1 else 1)"

definition NewBasicBlock :: "nat \<Rightarrow> basic_block" where
  "NewBasicBlock i =
     \<lparr>bb_id = i, bb_in_edges = [], bb_out_edges = [], bb_code = 0, bb_end_code = 0, bb_dominators = BitSetInit,
      bb_num_dominators = 0, bb_dominatees = [], bb_dominance_frontier = BitSetInit, bb_idom = None,
      bb_in_back_edges = BitSetInit, bb_reachability_known = False, bb_is_unreachable = False,
      bb_defined_vars = MapInit CompareVariable, bb_referenced_vars = SetInitForPointers, bb_num_calls = 0,
      bb_return_block = False\<rparr>"

text \<open>A protected region of the instruction list, with the label its exceptions go to.\<close>

record exception_range =
  er_try_start :: node_ref
  er_try_end :: node_ref
  er_catch_label :: node_ref

text \<open>
  The fields of the generator the optimiser uses, with the counter of node ids, which is global.  The instruction list is the abstract list
  that the linked list of \<open>CList\<close> refines.
\<close>

record generator =
  gen_nodes :: ir_store
  gen_code :: "node_ref list"
  gen_last_constant :: node_ref
  gen_last_variable :: node_ref
  gen_basic_blocks :: "basic_block list"
  gen_entry_block :: nat
  gen_symbols :: "symbol_ref \<Rightarrow> ir_symbol"
  gen_plain_char_is_signed :: bool
  gen_exit_block :: nat
  gen_exception_ranges :: "exception_range list"
  gen_next_ir_id :: int

section \<open>Instruction list\<close>

definition IRNext :: "generator \<Rightarrow> node_ref \<Rightarrow> node_ref" where
  "IRNext g r = next_in (gen_code g) r"

definition IRPrev :: "generator \<Rightarrow> node_ref \<Rightarrow> node_ref" where
  "IRPrev g r = prev_in 0 (gen_code g) r"

definition IRInList :: "generator \<Rightarrow> node_ref \<Rightarrow> bool" where
  "IRInList g r \<longleftrightarrow> IRNext g r \<noteq> 0 \<or> IRPrev g r \<noteq> 0"

definition GeneratorFirstInstruction :: "generator \<Rightarrow> node_ref" where
  "GeneratorFirstInstruction g = first_or (gen_code g) 0"

definition GeneratorLastInstruction :: "generator \<Rightarrow> node_ref" where
  "GeneratorLastInstruction g = last_or 0 (gen_code g)"

definition GeneratorEmit :: "node_ref \<Rightarrow> generator \<Rightarrow> generator" where
  "GeneratorEmit inst g =
     (if IRInList g inst then g else g\<lparr>gen_code := gen_code g @ [inst]\<rparr>)"

definition GeneratorEmitBefore :: "node_ref \<Rightarrow> node_ref \<Rightarrow> generator \<Rightarrow> generator" where
  "GeneratorEmitBefore inst pos g =
     (if IRInList g inst then g else g\<lparr>gen_code := insert_before inst pos (gen_code g)\<rparr>)"

definition GeneratorEmitAfter :: "node_ref \<Rightarrow> node_ref \<Rightarrow> generator \<Rightarrow> generator" where
  "GeneratorEmitAfter inst pos g =
     (if pos = 0 then GeneratorEmit inst g
      else if IRInList g inst then g
      else g\<lparr>gen_code := insert_after inst pos (gen_code g)\<rparr>)"

definition GeneratorEmitConstant :: "node_ref \<Rightarrow> generator \<Rightarrow> generator" where
  "GeneratorEmitConstant inst g =
     (if IRInList g inst then g
      else if gen_last_constant g = 0
      then (GeneratorEmitBefore inst (first_or (gen_code g) 0) g)\<lparr>gen_last_constant := inst\<rparr>
      else (GeneratorEmitAfter inst (gen_last_constant g) g)\<lparr>gen_last_constant := inst\<rparr>)"

definition GeneratorEmitVariable :: "node_ref \<Rightarrow> generator \<Rightarrow> generator" where
  "GeneratorEmitVariable inst g =
     (if IRInList g inst then g
      else if gen_last_variable g = 0
      then (GeneratorEmitBefore inst (first_or (gen_code g) 0) g)\<lparr>gen_last_variable := inst\<rparr>
      else (GeneratorEmitAfter inst (gen_last_variable g) g)\<lparr>gen_last_variable := inst\<rparr>)"

definition GeneratorMoveInstructionBefore :: "node_ref \<Rightarrow> node_ref \<Rightarrow> generator \<Rightarrow> generator" where
  "GeneratorMoveInstructionBefore inst pos g =
     g\<lparr>gen_code := insert_before inst pos (remove1 inst (gen_code g))\<rparr>"

definition GeneratorMoveInstructionAfter :: "node_ref \<Rightarrow> node_ref \<Rightarrow> generator \<Rightarrow> generator" where
  "GeneratorMoveInstructionAfter inst pos g =
     g\<lparr>gen_code := insert_after inst pos (remove1 inst (gen_code g))\<rparr>"

section \<open>Value states\<close>

text \<open>Writing a field of a node through a pointer.\<close>

definition on_node :: "node_ref \<Rightarrow> (ir_node \<Rightarrow> ir_node) \<Rightarrow> ir_store \<Rightarrow> ir_store option" where
  "on_node r f h = (case h r of None \<Rightarrow> None | Some n \<Rightarrow> Some (h(r \<mapsto> f n)))"

text \<open>The storage under a chain of \<open>addressof\<close> nodes.\<close>

partial_function (option) storage_of :: "ir_store \<Rightarrow> node_ref \<Rightarrow> node_ref option" where
  "storage_of h r =
     (if r = 0 then Some 0
      else case h r of
             None \<Rightarrow> None
           | Some n \<Rightarrow> if ir_opcode n = IR_addressof \<and> ir_inputs n \<noteq> []
                       then storage_of h (ir_inputs n ! 0) else Some r)"

definition set_storage_state :: "ir_store \<Rightarrow> node_ref \<Rightarrow> value_state \<Rightarrow> ir_store option" where
  "set_storage_state h r state = do {
     storage \<leftarrow> storage_of h r;
     if storage = 0 then Some h
     else do {
       n \<leftarrow> h storage;
       if IRIsVariable n then Some (h(storage \<mapsto> n\<lparr>ir_value_state := state\<rparr>)) else Some h
     }
   }"

fun merge_states :: "ir_store \<Rightarrow> value_state \<Rightarrow> node_ref list \<Rightarrow> value_state option" where
  "merge_states h state [] = Some state"
| "merge_states h state (input # rest) =
     (if input = 0 then merge_states h state rest
      else do { n \<leftarrow> h input; merge_states h (ValueStateMerge state (ir_value_state n)) rest })"

definition IRRecomputeValueState :: "node_ref \<Rightarrow> ir_store \<Rightarrow> ir_store option" where
  "IRRecomputeValueState node h =
     (if node = 0 then Some h
      else do {
        n \<leftarrow> h node;
        if ir_inputs n = [] \<or> ir_opcode n = IR_addressof \<or> ir_opcode n = IR_observable_checkpoint
        then Some h
        else if Bit_Operations.and (ir_flags n) kIRInvalidValueDefinition \<noteq> 0
        then set_storage_state h (ir_inputs n ! 0) (ir_value_state n)
        else if (IRIsStoreOnly n \<or> ir_opcode n = IR_memcpy \<or> ir_opcode n = IR_atomic_store) \<and>
                length (ir_inputs n) > 1
        then do {
          state \<leftarrow> (if ir_inputs n ! 1 = 0 then Some ValueValid
                    else map_option ir_value_state (h (ir_inputs n ! 1)));
          set_storage_state (h(node \<mapsto> n\<lparr>ir_value_state := state\<rparr>)) (ir_inputs n ! 0) state
        }
        else do {
          state \<leftarrow> merge_states h ValueValid (ir_inputs n);
          Some (h(node \<mapsto> n\<lparr>ir_value_state := state\<rparr>))
        }
      })"

section \<open>Edges\<close>

definition push_input :: "node_ref \<Rightarrow> ir_node \<Rightarrow> ir_node" where
  "push_input r n = n\<lparr>ir_inputs := ir_inputs n @ [r]\<rparr>"

definition push_output :: "node_ref \<Rightarrow> ir_node \<Rightarrow> ir_node" where
  "push_output r n = n\<lparr>ir_outputs := ir_outputs n @ [r]\<rparr>"

text \<open>The search for the first edge to a node, with its deletion from the vector.\<close>

definition drop_input :: "node_ref \<Rightarrow> ir_node \<Rightarrow> ir_node" where
  "drop_input r n = n\<lparr>ir_inputs := remove1 r (ir_inputs n)\<rparr>"

definition drop_output :: "node_ref \<Rightarrow> ir_node \<Rightarrow> ir_node" where
  "drop_output r n = n\<lparr>ir_outputs := remove1 r (ir_outputs n)\<rparr>"

definition IRSetType :: "type_record option \<Rightarrow> ir_node \<Rightarrow> ir_node" where
  "IRSetType ty n = (if ty = None then n else n\<lparr>ir_type := ty\<rparr>)"

definition IRAddInput :: "(node_ref \<Rightarrow> bool) \<Rightarrow> node_ref \<Rightarrow> node_ref \<Rightarrow> bool \<Rightarrow> ir_store \<Rightarrow> ir_store option" where
  "IRAddInput in_list from_ref to_ref copy_type h = do {
     t \<leftarrow> h to_ref;
     if ir_opcode t \<noteq> IR_label \<and> \<not> in_list to_ref then None
     else do {
       h1 \<leftarrow> on_node from_ref (push_input to_ref) h;
       h2 \<leftarrow> on_node to_ref (push_output from_ref) h1;
       h3 \<leftarrow> (if copy_type then on_node from_ref (IRSetType (ir_type t)) h2 else Some h2);
       IRRecomputeValueState from_ref h3
     }
   }"

definition IRReplaceInput :: "node_ref \<Rightarrow> nat \<Rightarrow> node_ref \<Rightarrow> ir_store \<Rightarrow> ir_store option" where
  "IRReplaceInput node index new h = do {
     n \<leftarrow> h node;
     e \<leftarrow> (if index < length (ir_inputs n) then h (ir_inputs n ! index) else None);
     if node \<in> set (ir_outputs e)
     then do {
       h1 \<leftarrow> on_node (ir_inputs n ! index) (drop_output node) h;
       h2 \<leftarrow> on_node node (\<lambda>n. n\<lparr>ir_inputs := (ir_inputs n)[index := new]\<rparr>) h1;
       h3 \<leftarrow> on_node new (push_output node) h2;
       IRRecomputeValueState node h3
     }
     else None
   }"

definition IRRemoveInput :: "node_ref \<Rightarrow> nat \<Rightarrow> ir_store \<Rightarrow> ir_store option" where
  "IRRemoveInput node index h = do {
     n \<leftarrow> h node;
     e \<leftarrow> (if index < length (ir_inputs n) then h (ir_inputs n ! index) else None);
     if node \<in> set (ir_outputs e)
     then do {
       h1 \<leftarrow> on_node (ir_inputs n ! index) (drop_output node) h;
       h2 \<leftarrow> on_node node
              (\<lambda>n. n\<lparr>ir_inputs := take index (ir_inputs n) @ drop (index + 1) (ir_inputs n)\<rparr>) h1;
       IRRecomputeValueState node h2
     }
     else None
   }"

text \<open>The two loops of \<open>IRRemoveNode\<close>, over the inputs and over the outputs.\<close>

fun each_node :: "(ir_node \<Rightarrow> ir_node) \<Rightarrow> node_ref list \<Rightarrow> ir_store \<Rightarrow> ir_store option" where
  "each_node f [] h = Some h"
| "each_node f (r # rs) h = do { h1 \<leftarrow> on_node r f h; each_node f rs h1 }"

definition IRRemoveNode :: "node_ref \<Rightarrow> ir_store \<Rightarrow> ir_store option" where
  "IRRemoveNode node h = do {
     n \<leftarrow> h node;
     h1 \<leftarrow> each_node (drop_output node) (ir_inputs n) h;
     n1 \<leftarrow> h1 node;
     each_node (drop_input node) (ir_outputs n1) h1
   }"

section \<open>Replacing and removing instructions\<close>

text \<open>The node is unlinked, taken out of the list and freed.\<close>

definition GeneratorRemoveInstruction :: "node_ref \<Rightarrow> generator \<Rightarrow> generator option" where
  "GeneratorRemoveInstruction inst g = do {
     h \<leftarrow> IRRemoveNode inst (gen_nodes g);
     Some (g\<lparr>gen_code := remove1 inst (gen_code g), gen_nodes := h(inst := None)\<rparr>)
   }"

text \<open>The inner loop, over the indexes of the inputs of a user of \<open>old\<close>.\<close>

fun replace_inputs :: "node_ref \<Rightarrow> node_ref \<Rightarrow> node_ref \<Rightarrow> nat list \<Rightarrow> ir_store \<Rightarrow> ir_store option" where
  "replace_inputs user old new [] h = Some h"
| "replace_inputs user old new (j # js) h = do {
     n \<leftarrow> h user;
     if ir_inputs n ! j = old
     then do {
       h1 \<leftarrow> on_node user (\<lambda>n. n\<lparr>ir_inputs := (ir_inputs n)[j := new]\<rparr>) h;
       h2 \<leftarrow> on_node new (push_output user) h1;
       replace_inputs user old new js h2
     }
     else replace_inputs user old new js h
   }"

text \<open>The outer loop reads the vector it walks over in each round.\<close>

partial_function (option) replace_users :: "node_ref \<Rightarrow> node_ref \<Rightarrow> nat \<Rightarrow> ir_store \<Rightarrow> ir_store option" where
  "replace_users old new i h = do {
     n \<leftarrow> h old;
     if i < length (ir_outputs n)
     then do {
       user \<leftarrow> h (ir_outputs n ! i);
       h1 \<leftarrow> replace_inputs (ir_outputs n ! i) old new [0..<length (ir_inputs user)] h;
       replace_users old new (i + 1) h1
     }
     else Some h
   }"

definition GeneratorReplaceInstruction :: "node_ref \<Rightarrow> node_ref \<Rightarrow> generator \<Rightarrow> generator option" where
  "GeneratorReplaceInstruction old new g = do {
     h \<leftarrow> replace_users old new 0 (gen_nodes g);
     h1 \<leftarrow> on_node old (\<lambda>n. n\<lparr>ir_outputs := []\<rparr>) h;
     Some (g\<lparr>gen_nodes := h1\<rparr>)
   }"

section \<open>Basic blocks\<close>

definition BasicBlockIsEmpty :: "basic_block \<Rightarrow> bool" where
  "BasicBlockIsEmpty b \<longleftrightarrow> bb_code b = 0 \<or> bb_end_code b = 0"

definition BasicBlockBegin :: "basic_block \<Rightarrow> node_ref" where
  "BasicBlockBegin b = bb_code b"

definition BasicBlockEnd :: "generator \<Rightarrow> basic_block \<Rightarrow> node_ref" where
  "BasicBlockEnd g b = (if bb_end_code b = 0 then 0 else IRNext g (bb_end_code b))"

definition BasicBlockRBegin :: "basic_block \<Rightarrow> node_ref" where
  "BasicBlockRBegin b = bb_end_code b"

definition BasicBlockREnd :: "generator \<Rightarrow> basic_block \<Rightarrow> node_ref" where
  "BasicBlockREnd g b = (if bb_code b = 0 then 0 else IRPrev g (bb_code b))"

text \<open>The block after an instruction it holds has left it, shared by removal and moves.\<close>

definition block_without :: "generator \<Rightarrow> node_ref \<Rightarrow> basic_block \<Rightarrow> basic_block" where
  "block_without g inst b =
     (let b1 = (if inst = bb_code b
                then (if inst = bb_end_code b then b\<lparr>bb_code := 0, bb_end_code := 0\<rparr>
                      else b\<lparr>bb_code := IRNext g inst\<rparr>)
                else b)
      in if inst = bb_end_code b1 then b1\<lparr>bb_end_code := IRPrev g inst\<rparr> else b1)"

definition set_block :: "nat \<Rightarrow> basic_block \<Rightarrow> generator \<Rightarrow> generator" where
  "set_block i b g = g\<lparr>gen_basic_blocks := (gen_basic_blocks g)[i := b]\<rparr>"

definition BasicBlockRemoveInstruction :: "nat \<Rightarrow> node_ref \<Rightarrow> generator \<Rightarrow> generator option" where
  "BasicBlockRemoveInstruction i inst g =
     GeneratorRemoveInstruction inst
       (set_block i (block_without g inst (gen_basic_blocks g ! i)) g)"

definition BasicBlockReplaceInstruction :: "nat \<Rightarrow> node_ref \<Rightarrow> node_ref \<Rightarrow> generator \<Rightarrow> generator option" where
  "BasicBlockReplaceInstruction i old new g =
     (let b = gen_basic_blocks g ! i;
          b1 = (if old = bb_code b then b\<lparr>bb_code := IRNext g old\<rparr> else b);
          b2 = (if old = bb_end_code b1 then b1\<lparr>bb_end_code := IRPrev g old\<rparr> else b1)
      in do {
        g1 \<leftarrow> GeneratorReplaceInstruction old new (set_block i b2 g);
        BasicBlockRemoveInstruction i old g1
      })"

definition BasicBlockEmitBefore :: "nat \<Rightarrow> node_ref \<Rightarrow> node_ref \<Rightarrow> generator \<Rightarrow> generator option" where
  "BasicBlockEmitBefore i inst pos g =
     (let b = gen_basic_blocks g ! i;
          g1 = set_block i (if pos = bb_code b then b\<lparr>bb_code := inst\<rparr> else b) g;
          g2 = GeneratorEmitBefore inst pos g1
      in do {
        h \<leftarrow> on_node inst (\<lambda>n. n\<lparr>ir_block := i\<rparr>) (gen_nodes g2);
        Some (g2\<lparr>gen_nodes := h\<rparr>)
      })"

end
