(* ===== verification/IrGraphSpec.thy ===== *)
theory IrGraphSpec
  imports IrGraph
begin

text \<open>
  The invariant of the graph and the effect of the operations on it.  \<open>graph_ok\<close> says that
  the two copies of every def-use edge agree, with multiplicity, and that no edge leads to a
  node that has been freed.
\<close>

section \<open>Edges of a store\<close>

definition ins :: "ir_store \<Rightarrow> node_ref \<Rightarrow> node_ref list" where
  "ins h r = (case h r of None \<Rightarrow> [] | Some n \<Rightarrow> ir_inputs n)"

definition outs :: "ir_store \<Rightarrow> node_ref \<Rightarrow> node_ref list" where
  "outs h r = (case h r of None \<Rightarrow> [] | Some n \<Rightarrow> ir_outputs n)"

text \<open>Everything of a node but its edges and its value state.\<close>

definition core :: "ir_node \<Rightarrow> ir_node" where
  "core n = n\<lparr>ir_inputs := [], ir_outputs := [], ir_value_state := ValueValid\<rparr>"

definition same_cores :: "ir_store \<Rightarrow> ir_store \<Rightarrow> bool" where
  "same_cores h h' \<longleftrightarrow> (\<forall>r. map_option core (h r) = map_option core (h' r))"

definition graph_ok :: "ir_store \<Rightarrow> bool" where
  "graph_ok h \<longleftrightarrow> h 0 = None \<and> (\<forall>r m. count_list (ins h r) m = count_list (outs h m) r)"

lemma ins_upd [simp]: "ins (h(r \<mapsto> n)) = (ins h)(r := ir_inputs n)"
  and outs_upd [simp]: "outs (h(r \<mapsto> n)) = (outs h)(r := ir_outputs n)"
  by (auto simp: ins_def outs_def)

lemma ins_free [simp]: "ins (h(r := None)) = (ins h)(r := [])"
  and outs_free [simp]: "outs (h(r := None)) = (outs h)(r := [])"
  by (auto simp: ins_def outs_def)

lemma ins_node: "h r = Some n \<Longrightarrow> ins h r = ir_inputs n"
  and outs_node: "h r = Some n \<Longrightarrow> outs h r = ir_outputs n"
  by (simp_all add: ins_def outs_def)

lemma live_edge:
  assumes "graph_ok h"
  shows "m \<in> set (ins h r) \<longleftrightarrow> r \<in> set (outs h m)"
    and "m \<in> set (ins h r) \<Longrightarrow> h m \<noteq> None" and "r \<in> set (outs h m) \<Longrightarrow> h r \<noteq> None"
proof -
  show e: "m \<in> set (ins h r) \<longleftrightarrow> r \<in> set (outs h m)"
    using assms by (metis graph_ok_def count_notin count_list_0_iff)
  show "m \<in> set (ins h r) \<Longrightarrow> h m \<noteq> None"
    unfolding e by (cases "h m") (auto simp: outs_def)
  show "r \<in> set (outs h m) \<Longrightarrow> h r \<noteq> None"
    unfolding e [symmetric] by (cases "h r") (auto simp: ins_def)
qed

lemma live_nonzero: "graph_ok h \<Longrightarrow> h r = Some n \<Longrightarrow> r \<noteq> 0"
  by (metis graph_ok_def option.distinct(1))

lemma same_cores_refl [simp]: "same_cores h h"
  by (simp add: same_cores_def)

lemma same_cores_trans: "same_cores h h1 \<Longrightarrow> same_cores h1 h2 \<Longrightarrow> same_cores h h2"
  by (simp add: same_cores_def)

lemma same_cores_upd: "h r = Some n \<Longrightarrow> core n' = core n \<Longrightarrow> same_cores h (h(r \<mapsto> n'))"
  by (simp add: same_cores_def)

lemma same_cores_live: "same_cores h h' \<Longrightarrow> h r = None \<longleftrightarrow> h' r = None"
  by (metis same_cores_def map_option_is_None)

lemma same_cores_node:
  assumes "same_cores h h'" "h r = Some n"
  obtains n' where "h' r = Some n'" "core n' = core n"
  using assms by (metis same_cores_def map_option_eq_Some option.simps(9))

section \<open>Lists\<close>

lemma count_list_remove1:
  "count_list (remove1 x xs) y = count_list xs y - (if x = y then 1 else 0)"
  by (induction xs) (auto simp: count_list_0_iff)

lemma count_list_removeAll:
  "count_list (removeAll x xs) y = (if x = y then 0 else count_list xs y)"
  by (induction xs) auto

lemma remove1_pow:
  "count_list xs x \<le> k \<Longrightarrow> (remove1 x ^^ k) xs = removeAll x xs"
proof (induction k arbitrary: xs)
  case 0
  then have "x \<notin> set xs" by (simp add: count_list_0_iff)
  then show ?case by simp
next
  case (Suc k)
  have "(remove1 x ^^ k) (remove1 x xs) = removeAll x (remove1 x xs)"
    using Suc.prems by (intro Suc.IH) (simp add: count_list_remove1)
  moreover have "removeAll x (remove1 x xs) = removeAll x xs"
    by (induction xs) auto
  ultimately show ?case by (simp add: funpow_swap1)
qed

lemma count_list_update:
  assumes "i < length xs"
  shows "count_list (xs[i := v]) y + (if xs ! i = y then 1 else 0) =
    count_list xs y + (if v = y then 1 else 0)"
proof -
  have "xs = take i xs @ xs ! i # drop (Suc i) xs" using assms by (simp add: id_take_nth_drop)
  then have "count_list xs y = count_list (take i xs @ xs ! i # drop (Suc i) xs) y" by simp
  then show ?thesis using assms by (simp add: upd_conv_take_nth_drop)
qed

lemma count_list_delete:
  assumes "i < length xs"
  shows "count_list (take i xs @ drop (Suc i) xs) y + (if xs ! i = y then 1 else 0) = count_list xs y"
proof -
  have "xs = take i xs @ xs ! i # drop (Suc i) xs" using assms by (simp add: id_take_nth_drop)
  then have "count_list xs y = count_list (take i xs @ xs ! i # drop (Suc i) xs) y" by simp
  then show ?thesis by simp
qed

section \<open>Removing a node\<close>

lemma on_node_some: "h r = Some n \<Longrightarrow> on_node r f h = Some (h(r \<mapsto> f n))"
  by (simp add: on_node_def)

lemma core_edge_ops [simp]: "core (drop_input r n) = core n" "core (drop_output r n) = core n"
    "core (push_input r n) = core n" "core (push_output r n) = core n"
    "core (n\<lparr>ir_inputs := xs\<rparr>) = core n" "core (n\<lparr>ir_outputs := ys\<rparr>) = core n"
    "core (n\<lparr>ir_value_state := v\<rparr>) = core n"
  by (simp_all add: core_def drop_input_def drop_output_def push_input_def push_output_def)

lemma each_node_drop_output:
  assumes "\<forall>r \<in> set rs. h r \<noteq> None"
  shows "\<exists>h'. each_node (drop_output node) rs h = Some h' \<and> same_cores h h' \<and> ins h' = ins h \<and>
    (\<forall>m. outs h' m = (remove1 node ^^ count_list rs m) (outs h m))"
  using assms
proof (induction rs arbitrary: h)
  case (Cons r rs)
  obtain n where n: "h r = Some n" using Cons.prems by auto
  let ?h = "h(r \<mapsto> drop_output node n)"
  have "\<forall>r \<in> set rs. ?h r \<noteq> None" using Cons.prems by auto
  then obtain h' where h': "each_node (drop_output node) rs ?h = Some h'" "same_cores ?h h'"
    "ins h' = ins ?h" "\<forall>m. outs h' m = (remove1 node ^^ count_list rs m) (outs ?h m)"
    using Cons.IH by metis
  have "same_cores h h'"
    using same_cores_trans [OF same_cores_upd [where h = h, OF n, of "drop_output node n"] h'(2)] by simp
  moreover have "ins h' = ins h"
    using h'(3) ins_node [where h = h, OF n] by (auto simp: drop_output_def fun_upd_idem_iff)
  moreover have "\<forall>m. outs h' m = (remove1 node ^^ count_list (r # rs) m) (outs h m)"
    using h'(4) outs_node [where h = h, OF n] by (auto simp: drop_output_def funpow_swap1)
  ultimately show ?case using h'(1) by (simp add: on_node_some [where h = h, OF n])
qed simp

lemma each_node_drop_input:
  assumes "\<forall>r \<in> set rs. h r \<noteq> None"
  shows "\<exists>h'. each_node (drop_input node) rs h = Some h' \<and> same_cores h h' \<and> outs h' = outs h \<and>
    (\<forall>m. ins h' m = (remove1 node ^^ count_list rs m) (ins h m))"
  using assms
proof (induction rs arbitrary: h)
  case (Cons r rs)
  obtain n where n: "h r = Some n" using Cons.prems by auto
  let ?h = "h(r \<mapsto> drop_input node n)"
  have "\<forall>r \<in> set rs. ?h r \<noteq> None" using Cons.prems by auto
  then obtain h' where h': "each_node (drop_input node) rs ?h = Some h'" "same_cores ?h h'"
    "outs h' = outs ?h" "\<forall>m. ins h' m = (remove1 node ^^ count_list rs m) (ins ?h m)"
    using Cons.IH by metis
  have "same_cores h h'"
    using same_cores_trans [OF same_cores_upd [where h = h, OF n, of "drop_input node n"] h'(2)] by simp
  moreover have "outs h' = outs h"
    using h'(3) outs_node [where h = h, OF n] by (auto simp: drop_input_def fun_upd_idem_iff)
  moreover have "\<forall>m. ins h' m = (remove1 node ^^ count_list (r # rs) m) (ins h m)"
    using h'(4) ins_node [where h = h, OF n] by (auto simp: drop_input_def funpow_swap1)
  ultimately show ?case using h'(1) by (simp add: on_node_some [where h = h, OF n])
qed simp

lemma IRRemoveNode_effect:
  assumes ok: "graph_ok h" and n: "h node = Some n"
  shows "\<exists>h'. IRRemoveNode node h = Some h' \<and> same_cores h h' \<and>
    (\<forall>m. m \<noteq> node \<longrightarrow> ins h' m = removeAll node (ins h m) \<and> outs h' m = removeAll node (outs h m))"
proof -
  have c: "\<And>r m. count_list (ins h r) m = count_list (outs h m) r"
    using ok by (simp add: graph_ok_def)
  have "\<forall>r \<in> set (ir_inputs n). h r \<noteq> None"
    using live_edge(2) [OF ok, of _ node] ins_node [where h = h, OF n] by auto
  from each_node_drop_output [OF this, of node] obtain h1 where
    h1: "each_node (drop_output node) (ir_inputs n) h = Some h1" "same_cores h h1" "ins h1 = ins h"
      "\<forall>m. outs h1 m = (remove1 node ^^ count_list (ir_inputs n) m) (outs h m)" by metis
  have o1: "outs h1 m = removeAll node (outs h m)" for m
    using h1(4) c [of node m] ins_node [where h = h, OF n] by (simp add: remove1_pow)
  obtain n1 where n1: "h1 node = Some n1"
    using same_cores_node [OF h1(2) n] by metis
  have n1o: "ir_outputs n1 = removeAll node (outs h node)"
    using o1 [of node] outs_node [where h = h1, OF n1] by simp
  have "\<forall>r \<in> set (ir_outputs n1). h1 r \<noteq> None"
    using live_edge(3) [OF ok, of _ node] same_cores_live [OF h1(2)] by (auto simp: n1o)
  from each_node_drop_input [OF this, of node] obtain h2 where
    h2: "each_node (drop_input node) (ir_outputs n1) h1 = Some h2" "same_cores h1 h2"
      "outs h2 = outs h1" "\<forall>m. ins h2 m = (remove1 node ^^ count_list (ir_outputs n1) m) (ins h1 m)"
    by metis
  have i2: "ins h2 m = removeAll node (ins h m)" if "m \<noteq> node" for m
    using h2(4) h1(3) c [of m node] that by (simp add: n1o count_list_removeAll remove1_pow)
  have "IRRemoveNode node h = Some h2"
    by (simp add: IRRemoveNode_def n h1(1) n1 h2(1))
  then show ?thesis
    using same_cores_trans [OF h1(2) h2(2)] i2 o1 h2(3) by auto
qed

lemma GeneratorRemoveInstruction_effect:
  assumes ok: "graph_ok (gen_nodes g)" and n: "gen_nodes g inst \<noteq> None"
  shows "\<exists>g'. GeneratorRemoveInstruction inst g = Some g' \<and> graph_ok (gen_nodes g') \<and>
    gen_code g' = remove1 inst (gen_code g) \<and> gen_basic_blocks g' = gen_basic_blocks g \<and>
    same_cores ((gen_nodes g)(inst := None)) (gen_nodes g') \<and>
    (\<forall>m. m \<noteq> inst \<longrightarrow> ins (gen_nodes g') m = removeAll inst (ins (gen_nodes g) m) \<and>
                     outs (gen_nodes g') m = removeAll inst (outs (gen_nodes g) m))"
proof -
  let ?h = "gen_nodes g"
  obtain n where "?h inst = Some n" using n by auto
  from IRRemoveNode_effect [OF ok this] obtain h' where
    h': "IRRemoveNode inst ?h = Some h'" "same_cores ?h h'"
      "\<forall>m. m \<noteq> inst \<longrightarrow> ins h' m = removeAll inst (ins ?h m) \<and> outs h' m = removeAll inst (outs ?h m)"
    by metis
  have "graph_ok (h'(inst := None))"
    using ok h'(3) same_cores_live [OF h'(2), of 0]
    by (auto simp: graph_ok_def count_list_removeAll)
  moreover have "same_cores (?h(inst := None)) (h'(inst := None))"
    using h'(2) by (simp add: same_cores_def)
  ultimately show ?thesis using h'(1,3) by (simp add: GeneratorRemoveInstruction_def)
qed

section \<open>Replacing the uses of a node\<close>

definition renamed :: "node_ref \<Rightarrow> node_ref \<Rightarrow> node_ref \<Rightarrow> node_ref" where
  "renamed old new x = (if x = old then new else x)"

text \<open>The store after the uses of \<open>old\<close> by the nodes of \<open>S\<close> have been replaced.\<close>

definition users_replaced :: "node_ref \<Rightarrow> node_ref \<Rightarrow> node_ref set \<Rightarrow> ir_store \<Rightarrow> ir_store \<Rightarrow> bool" where
  "users_replaced old new S h h' \<longleftrightarrow> same_cores h h' \<and>
     (\<forall>m. ins h' m = (if m \<in> S then map (renamed old new) (ins h m) else ins h m)) \<and>
     (\<forall>m. m \<noteq> new \<longrightarrow> outs h' m = outs h m) \<and>
     (\<forall>r. count_list (outs h' new) r =
          count_list (outs h new) r + (if r \<in> S then count_list (ins h r) old else 0))"

lemma users_replaced_empty [simp]: "users_replaced old new {} h h"
  by (simp add: users_replaced_def)

lemma renamed_idem: "old \<noteq> new \<Longrightarrow> map (renamed old new) (map (renamed old new) xs) = map (renamed old new) xs"
  by (simp add: renamed_def)

lemma count_list_renamed:
  "old \<noteq> new \<Longrightarrow> count_list (map (renamed old new) xs) y =
     (if y = old then 0 else if y = new then count_list xs new + count_list xs old else count_list xs y)"
  by (induction xs) (auto simp: renamed_def)

lemma users_replaced_trans:
  assumes "old \<noteq> new" "users_replaced old new S h h1" "users_replaced old new T h1 h2"
  shows "users_replaced old new (S \<union> T) h h2"
proof -
  have "ins h2 m = (if m \<in> S \<union> T then map (renamed old new) (ins h m) else ins h m)" for m
    using assms renamed_idem [OF assms(1)] by (auto simp: users_replaced_def)
  moreover have "count_list (outs h2 new) r =
      count_list (outs h new) r + (if r \<in> S \<union> T then count_list (ins h r) old else 0)" for r
    using assms by (auto simp: users_replaced_def count_list_renamed)
  ultimately show ?thesis
    using assms same_cores_trans by (auto simp: users_replaced_def)
qed

text \<open>One step of the inner loop, at an input that is \<open>old\<close>.\<close>

lemma replace_one:
  assumes "h user = Some n" "h new \<noteq> None" and h1_def: "h1 = h(user \<mapsto> n\<lparr>ir_inputs := xs\<rparr>)"
  shows "\<exists>h2. on_node user (\<lambda>n. n\<lparr>ir_inputs := (ir_inputs n)[j := new]\<rparr>) h =
      Some (h(user \<mapsto> n\<lparr>ir_inputs := (ir_inputs n)[j := new]\<rparr>)) \<and>
    on_node new (push_output user) h1 = Some h2 \<and> same_cores h h2 \<and>
    ins h2 = (ins h)(user := xs) \<and> outs h2 = (outs h)(new := outs h new @ [user])"
proof -
  obtain k where k: "h1 new = Some k" using assms by (cases "new = user") auto
  have k': "outs h new = ir_outputs k" "ins h1 new = ir_inputs k"
    using k assms(1) by (auto simp: h1_def outs_def ins_def split: if_splits)
  have "same_cores h h1" unfolding h1_def by (rule same_cores_upd [where h = h, OF assms(1)]) simp
  moreover have "same_cores h1 (h1(new \<mapsto> push_output user k))"
    by (rule same_cores_upd [where h = h1, OF k]) simp
  ultimately have "same_cores h (h1(new \<mapsto> push_output user k))" by (rule same_cores_trans)
  moreover have "ins (h1(new \<mapsto> push_output user k)) = (ins h)(user := xs)"
    using k'(2) by (auto simp: push_output_def h1_def fun_eq_iff)
  moreover have "outs (h1(new \<mapsto> push_output user k)) = (outs h)(new := outs h new @ [user])"
    using k' outs_node [where h = h, OF assms(1)] by (auto simp: push_output_def h1_def)
  ultimately show ?thesis using on_node_some [where h = h1, OF k] on_node_some [where h = h, OF assms(1)]
    by auto
qed

lemma replace_inputs_effect:
  assumes "h user \<noteq> None" "h new \<noteq> None" "i \<le> length (ins h user)" "old \<noteq> new"
  shows "\<exists>h'. replace_inputs user old new [i..<length (ins h user)] h = Some h' \<and> same_cores h h' \<and>
    ins h' = (ins h)(user := take i (ins h user) @ map (renamed old new) (drop i (ins h user))) \<and>
    outs h' = (outs h)(new := outs h new @
      replicate (count_list (drop i (ins h user)) old) user)"
  using assms
proof (induction "length (ins h user) - i" arbitrary: i h)
  case 0
  then show ?case by (simp add: fun_upd_idem)
next
  case (Suc k)
  let ?xs = "ins h user"
  obtain n where n: "h user = Some n" using Suc.prems(1) by auto
  have i: "i < length ?xs" using Suc.hyps(2) by simp
  have upt: "[i..<length ?xs] = i # [Suc i..<length ?xs]" using i by (simp add: upt_rec)
  have drop: "drop i ?xs = ?xs ! i # drop (Suc i) ?xs" using i by (simp add: Cons_nth_drop_Suc)
  show ?case
  proof (cases "?xs ! i = old")
    case True
    let ?ys = "?xs[i := new]"
    from replace_one [where h = h, OF n Suc.prems(2) refl, of i ?ys] obtain h2 where
      h2: "on_node user (\<lambda>n. n\<lparr>ir_inputs := (ir_inputs n)[i := new]\<rparr>) h =
          Some (h(user \<mapsto> n\<lparr>ir_inputs := ?ys\<rparr>))"
        "on_node new (push_output user) (h(user \<mapsto> n\<lparr>ir_inputs := ?ys\<rparr>)) = Some h2"
        "same_cores h h2" "ins h2 = (ins h)(user := ?ys)" "outs h2 = (outs h)(new := outs h new @ [user])"
      by (auto simp: ins_node [where h = h, OF n])
    have step: "replace_inputs user old new [i..<length ?xs] h =
        replace_inputs user old new [Suc i..<length (ins h2 user)] h2"
      using True n h2(1,2,4) upt by (simp add: ins_node [where h = h, OF n])
    have "\<exists>h'. replace_inputs user old new [Suc i..<length (ins h2 user)] h2 = Some h' \<and> same_cores h2 h' \<and>
      ins h' = (ins h2)(user := take (Suc i) (ins h2 user) @ map (renamed old new) (drop (Suc i) (ins h2 user))) \<and>
      outs h' = (outs h2)(new := outs h2 new @ replicate (count_list (drop (Suc i) (ins h2 user)) old) user)"
      using Suc.hyps(2) i Suc.prems same_cores_live [OF h2(3)] h2(4)
      by (intro Suc.hyps(1)) auto
    then obtain h' where h': "replace_inputs user old new [Suc i..<length (ins h2 user)] h2 = Some h'"
      "same_cores h2 h'"
      "ins h' = (ins h2)(user := take (Suc i) (ins h2 user) @ map (renamed old new) (drop (Suc i) (ins h2 user)))"
      "outs h' = (outs h2)(new := outs h2 new @ replicate (count_list (drop (Suc i) (ins h2 user)) old) user)"
      by metis
    have "ins h' = (ins h)(user := take i ?xs @ map (renamed old new) (drop i ?xs))"
      using h'(3) h2(4) True i by (simp add: drop renamed_def take_Suc_conv_app_nth)
    moreover have "outs h' = (outs h)(new := outs h new @ replicate (count_list (drop i ?xs) old) user)"
      using h'(4) h2(4,5) True i by (simp add: drop replicate_append_same)
    ultimately show ?thesis
      using step h'(1) same_cores_trans [OF h2(3) h'(2)] by auto
  next
    case False
    have step: "replace_inputs user old new [i..<length ?xs] h =
        replace_inputs user old new [Suc i..<length ?xs] h"
      using False n upt by (simp add: ins_node [where h = h, OF n])
    have "\<exists>h'. replace_inputs user old new [Suc i..<length ?xs] h = Some h' \<and> same_cores h h' \<and>
      ins h' = (ins h)(user := take (Suc i) ?xs @ map (renamed old new) (drop (Suc i) ?xs)) \<and>
      outs h' = (outs h)(new := outs h new @ replicate (count_list (drop (Suc i) ?xs) old) user)"
      using Suc.hyps(2) i Suc.prems by (intro Suc.hyps(1)) auto
    then show ?thesis
      using False i by (simp add: step drop renamed_def take_Suc_conv_app_nth)
  qed
qed

lemma replace_inputs_users:
  assumes "h user \<noteq> None" "h new \<noteq> None" "old \<noteq> new"
  shows "\<exists>h'. replace_inputs user old new [0..<length (ins h user)] h = Some h' \<and>
    users_replaced old new {user} h h'"
proof -
  obtain h' where h': "replace_inputs user old new [0..<length (ins h user)] h = Some h'" "same_cores h h'"
    "ins h' = (ins h)(user := map (renamed old new) (ins h user))"
    "outs h' = (outs h)(new := outs h new @ replicate (count_list (ins h user) old) user)"
    using replace_inputs_effect [OF assms(1,2) _ assms(3), of 0] by auto
  have rep: "count_list (replicate k user) r = (if r = user then k else 0)" for k r
    by (induction k) auto
  have "users_replaced old new {user} h h'"
    using h'(2-4) by (auto simp: users_replaced_def rep)
  then show ?thesis using h'(1) by blast
qed

lemma users_replaced_live: "users_replaced old new S h h' \<Longrightarrow> h r = None \<longleftrightarrow> h' r = None"
  by (simp add: users_replaced_def same_cores_live)

lemma replace_users_effect:
  assumes "old \<noteq> new" "h old \<noteq> None" "h new \<noteq> None" "\<forall>r \<in> set (outs h old). h r \<noteq> None"
  shows "\<exists>h'. replace_users old new i h = Some h' \<and> users_replaced old new (set (drop i (outs h old))) h h'"
  using assms
proof (induction "length (outs h old) - i" arbitrary: i h)
  case 0
  then obtain n where n: "h old = Some n" by auto
  have "replace_users old new i h = Some h"
    using 0 n by (subst replace_users.simps) (simp add: outs_node [where h = h, OF n])
  then show ?case using 0 by simp
next
  case (Suc k)
  obtain n where n: "h old = Some n" using Suc.prems(2) by auto
  let ?us = "outs h old" and ?user = "outs h old ! i"
  have i: "i < length ?us" using Suc.hyps(2) by simp
  then have u: "h ?user \<noteq> None" using Suc.prems(4) by simp
  then obtain un where un: "h ?user = Some un" by auto
  obtain h1 where h1: "replace_inputs ?user old new [0..<length (ins h ?user)] h = Some h1"
    "users_replaced old new {?user} h h1"
    using replace_inputs_users [OF u Suc.prems(3,1)] by metis
  have us: "outs h1 old = ?us" using h1(2) Suc.prems(1) by (simp add: users_replaced_def)
  have "\<exists>h'. replace_users old new (Suc i) h1 = Some h' \<and>
      users_replaced old new (set (drop (Suc i) (outs h1 old))) h1 h'"
    using Suc.hyps(2) Suc.prems users_replaced_live [OF h1(2)] by (intro Suc.hyps(1)) (auto simp: us)
  then obtain h' where h': "replace_users old new (Suc i) h1 = Some h'"
    "users_replaced old new (set (drop (Suc i) ?us)) h1 h'" by (auto simp: us)
  have "replace_users old new i h = Some h'"
    using h1(1) h'(1) i n un ins_node [where h = h, OF un]
    by (subst replace_users.simps) (simp add: outs_node [where h = h, OF n])
  moreover have "{?user} \<union> set (drop (Suc i) ?us) = set (drop i ?us)"
    using i by (simp flip: Cons_nth_drop_Suc)
  ultimately show ?case
    using users_replaced_trans [OF Suc.prems(1) h1(2) h'(2)] by auto
qed

lemma GeneratorReplaceInstruction_effect:
  assumes ok: "graph_ok (gen_nodes g)" and ne: "old \<noteq> new"
    and live: "gen_nodes g old \<noteq> None" "gen_nodes g new \<noteq> None"
  shows "\<exists>g'. GeneratorReplaceInstruction old new g = Some g' \<and> graph_ok (gen_nodes g') \<and>
    g' = g\<lparr>gen_nodes := gen_nodes g'\<rparr> \<and> same_cores (gen_nodes g) (gen_nodes g') \<and>
    (\<forall>m. ins (gen_nodes g') m = map (renamed old new) (ins (gen_nodes g) m)) \<and>
    outs (gen_nodes g') old = []"
proof -
  let ?h = "gen_nodes g"
  have c: "\<And>r m. count_list (ins ?h r) m = count_list (outs ?h m) r"
    using ok by (simp add: graph_ok_def)
  obtain h1 where h1: "replace_users old new 0 ?h = Some h1"
    "users_replaced old new (set (outs ?h old)) ?h h1"
    using replace_users_effect [OF ne live] live_edge(3) [OF ok] by (metis drop0)
  have i1: "ins h1 m = map (renamed old new) (ins ?h m)" for m
  proof (cases "m \<in> set (outs ?h old)")
    case False
    then have "old \<notin> set (ins ?h m)" using live_edge(1) [OF ok] by blast
    then have "map (renamed old new) (ins ?h m) = ins ?h m"
      by (intro map_idI) (auto simp: renamed_def)
    then show ?thesis using h1(2) False by (simp add: users_replaced_def)
  qed (use h1(2) in \<open>simp add: users_replaced_def\<close>)
  have o1: "count_list (outs h1 new) r = count_list (outs ?h new) r + count_list (ins ?h r) old" for r
  proof (cases "r \<in> set (outs ?h old)")
    case False
    then have "count_list (ins ?h r) old = 0" using c by (simp add: count_list_0_iff)
    then show ?thesis using h1(2) False by (simp add: users_replaced_def)
  qed (use h1(2) in \<open>simp add: users_replaced_def\<close>)
  obtain n1 where n1: "h1 old = Some n1"
    using live(1) users_replaced_live [OF h1(2), of old] by auto
  let ?h2 = "h1(old \<mapsto> n1\<lparr>ir_outputs := []\<rparr>)"
  have i2: "ins ?h2 m = map (renamed old new) (ins ?h m)" for m
    using i1 ins_node [where h = h1, OF n1] by auto
  have "graph_ok ?h2"
    unfolding graph_ok_def
  proof (intro conjI allI)
    have "?h 0 = None" using ok by (simp add: graph_ok_def)
    then show "?h2 0 = None"
      using live(1) users_replaced_live [OF h1(2), of 0] by (cases "old = 0") auto
    fix r m
    have other: "outs h1 m = outs ?h m" if "m \<noteq> new"
      using h1(2) that by (simp add: users_replaced_def)
    consider "m = old" | "m = new" | "m \<noteq> old" "m \<noteq> new" by blast
    then show "count_list (ins ?h2 r) m = count_list (outs ?h2 m) r"
    proof cases
      case 1
      then show ?thesis using ne by (simp add: i2 count_list_renamed del: ins_upd)
    next
      case 2
      then show ?thesis using ne c [of r new] o1 [of r]
        by (simp add: i2 count_list_renamed del: ins_upd)
    next
      case 3
      then show ?thesis using c [of r m] other ne by (simp add: i2 count_list_renamed del: ins_upd)
    qed
  qed
  moreover have "same_cores ?h ?h2"
    using h1(2) same_cores_trans [OF _ same_cores_upd [where h = h1, OF n1, of "n1\<lparr>ir_outputs := []\<rparr>"]]
    by (simp add: users_replaced_def)
  moreover have "GeneratorReplaceInstruction old new g = Some (g\<lparr>gen_nodes := ?h2\<rparr>)"
    by (simp add: GeneratorReplaceInstruction_def h1(1) on_node_some [where h = h1, OF n1])
  moreover have "outs ?h2 old = []" by simp
  ultimately show ?thesis using i2 by (intro exI [of _ "g\<lparr>gen_nodes := ?h2\<rparr>"]) simp
qed

section \<open>Recomputing value states\<close>

text \<open>
  A rank that falls along the chains of \<open>addressof\<close> nodes: the order in which nodes are
  created is one.
\<close>

definition ranked :: "(node_ref \<Rightarrow> nat) \<Rightarrow> ir_store \<Rightarrow> bool" where
  "ranked rk h \<longleftrightarrow> (\<forall>r n. h r = Some n \<and> ir_opcode n = IR_addressof \<and> ir_inputs n \<noteq> [] \<longrightarrow>
     rk (ir_inputs n ! 0) < rk r)"

text \<open>Two stores that agree but for value states.\<close>

definition same_but_states :: "ir_store \<Rightarrow> ir_store \<Rightarrow> bool" where
  "same_but_states h h' \<longleftrightarrow>
     (\<forall>r. map_option (\<lambda>n. n\<lparr>ir_value_state := ValueValid\<rparr>) (h r) =
          map_option (\<lambda>n. n\<lparr>ir_value_state := ValueValid\<rparr>) (h' r))"

lemma same_but_states_refl [simp]: "same_but_states h h"
  and same_but_states_trans: "same_but_states h h1 \<Longrightarrow> same_but_states h1 h2 \<Longrightarrow> same_but_states h h2"
  by (simp_all add: same_but_states_def)

lemma same_but_states_upd: "h r = Some n \<Longrightarrow> same_but_states h (h(r \<mapsto> n\<lparr>ir_value_state := v\<rparr>))"
  by (simp add: same_but_states_def)

lemma same_but_states_node:
  assumes "same_but_states h h'" "h' r = Some n'"
  obtains n v where "h r = Some n" "n' = n\<lparr>ir_value_state := v\<rparr>"
proof -
  have "map_option (\<lambda>n. n\<lparr>ir_value_state := ValueValid\<rparr>) (h r) = Some (n'\<lparr>ir_value_state := ValueValid\<rparr>)"
    using assms by (simp add: same_but_states_def)
  then obtain n where n: "h r = Some n"
    "n\<lparr>ir_value_state := ValueValid\<rparr> = n'\<lparr>ir_value_state := ValueValid\<rparr>"
    by (auto simp: map_option_eq_Some)
  have "n' = (n'\<lparr>ir_value_state := ValueValid\<rparr>)\<lparr>ir_value_state := ir_value_state n'\<rparr>" by simp
  also have "\<dots> = n\<lparr>ir_value_state := ir_value_state n'\<rparr>" by (simp flip: n(2))
  finally show ?thesis using that n(1) by blast
qed

lemma same_but_states_edges:
  assumes "same_but_states h h'"
  shows "ins h' = ins h" "outs h' = outs h" "h r = None \<longleftrightarrow> h' r = None" "ranked rk h \<Longrightarrow> ranked rk h'"
    "graph_ok h \<Longrightarrow> graph_ok h'"
proof -
  show n: "h r = None \<longleftrightarrow> h' r = None" for r
    using assms by (metis same_but_states_def map_option_is_None)
  have e: "ins h' r = ins h r \<and> outs h' r = outs h r" for r
  proof (cases "h' r")
    case None
    then show ?thesis using n [of r] by (simp add: ins_def outs_def)
  next
    case (Some n')
    then obtain n v where "h r = Some n" "n' = n\<lparr>ir_value_state := v\<rparr>"
      using same_but_states_node [OF assms] by blast
    then show ?thesis using Some by (simp add: ins_def outs_def)
  qed
  then show "ins h' = ins h" "outs h' = outs h" by auto
  then show "graph_ok h \<Longrightarrow> graph_ok h'" using n by (simp add: graph_ok_def)
  show "ranked rk h'" if "ranked rk h"
    unfolding ranked_def
  proof (intro allI impI)
    fix r n'
    assume a: "h' r = Some n' \<and> ir_opcode n' = IR_addressof \<and> ir_inputs n' \<noteq> []"
    then obtain n v where "h r = Some n" "n' = n\<lparr>ir_value_state := v\<rparr>"
      using same_but_states_node [OF assms] by blast
    then show "rk (ir_inputs n' ! 0) < rk r" using that a by (simp add: ranked_def)
  qed
qed

lemma storage_of_live:
  assumes "graph_ok h" "ranked rk h" "h r \<noteq> None"
  shows "\<exists>s. storage_of h r = Some s \<and> h s \<noteq> None"
  using assms(3)
proof (induction "rk r" arbitrary: r rule: less_induct)
  case less
  obtain n where n: "h r = Some n" using less.prems by auto
  have r0: "r \<noteq> 0" using n assms(1) live_nonzero by blast
  show ?case
  proof (cases "ir_opcode n = IR_addressof \<and> ir_inputs n \<noteq> []")
    case True
    then have "ir_inputs n ! 0 \<in> set (ins h r)" by (simp add: ins_node [where h = h, OF n])
    then have "h (ir_inputs n ! 0) \<noteq> None" by (rule live_edge(2) [OF assms(1)])
    moreover have "rk (ir_inputs n ! 0) < rk r" using assms(2) n True by (simp add: ranked_def)
    moreover have "storage_of h r = storage_of h (ir_inputs n ! 0)"
      using True n r0 by (subst storage_of.simps) simp
    ultimately show ?thesis using less.hyps by metis
  next
    case False
    then have "storage_of h r = Some r" using n r0 by (subst storage_of.simps) auto
    then show ?thesis using less.prems by blast
  qed
qed

lemma set_storage_state_effect:
  assumes "graph_ok h" "ranked rk h" "h r \<noteq> None"
  shows "\<exists>h'. set_storage_state h r v = Some h' \<and> same_but_states h h'"
proof -
  obtain s n where s: "storage_of h r = Some s" "h s = Some n"
    using storage_of_live [OF assms] by auto
  have "s \<noteq> 0" using s(2) assms(1) live_nonzero by blast
  then show ?thesis
    using s same_but_states_upd [where h = h, OF s(2), of v] by (auto simp: set_storage_state_def)
qed

lemma merge_states_live: "\<forall>r \<in> set rs. h r \<noteq> None \<Longrightarrow> \<exists>v. merge_states h st rs = Some v"
  by (induction rs arbitrary: st) auto

lemma IRRecomputeValueState_effect:
  assumes "graph_ok h" "ranked rk h" "h node \<noteq> None"
  shows "\<exists>h'. IRRecomputeValueState node h = Some h' \<and> same_but_states h h'"
proof -
  obtain n where n: "h node = Some n" using assms(3) by auto
  have n0: "node \<noteq> 0" using n assms(1) live_nonzero by blast
  have live: "h r \<noteq> None" if "r \<in> set (ir_inputs n)" for r
    using live_edge(2) [OF assms(1), of r node] that by (simp add: ins_node [where h = h, OF n])
  let ?set = "\<lambda>v. h(node \<mapsto> n\<lparr>ir_value_state := v\<rparr>)"
  have same: "same_but_states h (?set v)" for v by (rule same_but_states_upd [where h = h, OF n])
  consider "ir_inputs n = [] \<or> ir_opcode n = IR_addressof \<or> ir_opcode n = IR_observable_checkpoint"
    | "ir_inputs n \<noteq> []" "ir_opcode n \<noteq> IR_addressof" "ir_opcode n \<noteq> IR_observable_checkpoint"
      "Bit_Operations.and (ir_flags n) kIRInvalidValueDefinition \<noteq> 0"
    | "ir_inputs n \<noteq> []" "ir_opcode n \<noteq> IR_addressof" "ir_opcode n \<noteq> IR_observable_checkpoint"
      "Bit_Operations.and (ir_flags n) kIRInvalidValueDefinition = 0"
      "(IRIsStoreOnly n \<or> ir_opcode n = IR_memcpy \<or> ir_opcode n = IR_atomic_store) \<and> length (ir_inputs n) > 1"
    | "ir_inputs n \<noteq> []" "ir_opcode n \<noteq> IR_addressof" "ir_opcode n \<noteq> IR_observable_checkpoint"
      "Bit_Operations.and (ir_flags n) kIRInvalidValueDefinition = 0"
      "\<not> ((IRIsStoreOnly n \<or> ir_opcode n = IR_memcpy \<or> ir_opcode n = IR_atomic_store) \<and> length (ir_inputs n) > 1)"
    by blast
  then show ?thesis
  proof cases
    case 1
    then show ?thesis using n n0 by (auto simp: IRRecomputeValueState_def)
  next
    case 2
    then show ?thesis
      using set_storage_state_effect [OF assms(1,2) live, of "ir_inputs n ! 0"] n n0
      by (simp add: IRRecomputeValueState_def)
  next
    case 3
    obtain v where v: "(if ir_inputs n ! 1 = 0 then Some ValueValid
        else map_option ir_value_state (h (ir_inputs n ! 1))) = Some v"
      using live [of "ir_inputs n ! 1"] 3(5) by (cases "ir_inputs n ! 1 = 0") auto
    have "?set v (ir_inputs n ! 0) \<noteq> None" using live [of "ir_inputs n ! 0"] 3(1) by auto
    then obtain h' where h': "set_storage_state (?set v) (ir_inputs n ! 0) v = Some h'"
      "same_but_states (?set v) h'"
      using set_storage_state_effect same_but_states_edges(4,5) [OF same] assms(1,2) by metis
    have "IRRecomputeValueState node h = Some h'"
      using 3 n n0 v h'(1) by (simp add: IRRecomputeValueState_def)
    then show ?thesis using same_but_states_trans [OF same h'(2)] by blast
  next
    case 4
    obtain v where "merge_states h ValueValid (ir_inputs n) = Some v"
      using merge_states_live live by metis
    then have "IRRecomputeValueState node h = Some (?set v)"
      using 4 n n0 by (auto simp: IRRecomputeValueState_def)
    then show ?thesis using same by blast
  qed
qed

section \<open>Edge operations\<close>

lemma core_opcode: "core n = core n' \<Longrightarrow> ir_opcode n = ir_opcode n'"
  by (drule arg_cong [where f = ir_opcode]) (simp add: core_def)

lemma ranked_same_cores:
  assumes "same_cores h h'" "ranked rk h"
    and first: "\<And>r n. h r = Some n \<Longrightarrow> ir_opcode n = IR_addressof \<Longrightarrow> ins h' r \<noteq> [] \<Longrightarrow>
      ins h r \<noteq> [] \<and> ins h' r ! 0 = ins h r ! 0 \<or> rk (ins h' r ! 0) < rk r"
  shows "ranked rk h'"
  unfolding ranked_def
proof (intro allI impI, elim conjE)
  fix r x
  assume x: "h' r = Some x" "ir_opcode x = IR_addressof" "ir_inputs x \<noteq> []"
  obtain y where y: "h r = Some y" "core y = core x"
    using assms(1) x(1) by (metis same_cores_def map_option_eq_Some option.simps(9))
  have yo: "ir_opcode y = IR_addressof" using x(2) core_opcode [OF y(2)] by simp
  have xin: "ir_inputs x = ins h' r" using ins_node [where h = h', OF x(1)] by simp
  show "rk (ir_inputs x ! 0) < rk r"
    using first [OF y(1) yo] x(3) xin assms(2) y(1) yo ins_node [where h = h, OF y(1)]
    by (auto simp: ranked_def)
qed

lemma recompute_step:
  assumes "graph_ok h" "ranked rk h" "h node \<noteq> None"
  shows "\<exists>h'. IRRecomputeValueState node h = Some h' \<and> graph_ok h' \<and> ranked rk h' \<and>
    same_cores h h' \<and> ins h' = ins h"
proof -
  obtain h' where h': "IRRecomputeValueState node h = Some h'" "same_but_states h h'"
    using IRRecomputeValueState_effect [OF assms] by blast
  have "same_cores h h'"
    using h'(2) same_but_states_node [OF h'(2)] same_but_states_edges(3) [OF h'(2)]
    unfolding same_cores_def by (metis core_edge_ops(7) not_Some_eq option.map(1,2))
  then show ?thesis using h' same_but_states_edges [OF h'(2)] assms by metis
qed

lemma IRReplaceInput_effect:
  assumes ok: "graph_ok h" "ranked rk h" and n: "h node = Some n" and i: "index < length (ir_inputs n)"
    and new: "h new \<noteq> None" and rank: "ir_opcode n = IR_addressof \<longrightarrow> index = 0 \<longrightarrow> rk new < rk node"
  shows "\<exists>h'. IRReplaceInput node index new h = Some h' \<and> graph_ok h' \<and> ranked rk h' \<and>
    same_cores h h' \<and> ins h' = (ins h)(node := (ins h node)[index := new])"
proof -
  let ?e = "ir_inputs n ! index"
  have c: "\<And>r m. count_list (ins h r) m = count_list (outs h m) r"
    using ok by (simp add: graph_ok_def)
  have e_in: "?e \<in> set (ins h node)" using i by (simp add: ins_node [where h = h, OF n])
  then obtain e where e: "h ?e = Some e" using live_edge(2) [OF ok(1)] by blast
  have mem: "node \<in> set (ir_outputs e)"
    using e_in live_edge(1) [OF ok(1)] outs_node [where h = h, OF e] by simp
  define h1 where "h1 = h(?e \<mapsto> drop_output node e)"
  obtain n1 where n1: "h1 node = Some n1" "ir_inputs n1 = ir_inputs n" "core n1 = core n"
    using n e by (cases "?e = node") (auto simp: h1_def drop_output_def core_def)
  define h2 where "h2 = h1(node \<mapsto> n1\<lparr>ir_inputs := (ir_inputs n)[index := new]\<rparr>)"
  have "h2 new \<noteq> None" using new by (auto simp: h2_def h1_def)
  then obtain k where k: "h2 new = Some k" by auto
  define h3 where "h3 = h2(new \<mapsto> push_output node k)"
  have s1: "same_cores h h1" unfolding h1_def by (rule same_cores_upd [where h = h, OF e]) simp
  have s2: "same_cores h1 h2" unfolding h2_def by (rule same_cores_upd [where h = h1, OF n1(1)]) simp
  have s3: "same_cores h2 h3" unfolding h3_def by (rule same_cores_upd [where h = h2, OF k]) simp
  note same = same_cores_trans [OF s1 same_cores_trans [OF s2 s3]]
  have "ins h1 = ins h"
    using ins_node [where h = h, OF e] by (auto simp: h1_def drop_output_def fun_eq_iff)
  then have "ins h2 = (ins h)(node := (ins h node)[index := new])"
    by (simp add: h2_def ins_node [where h = h, OF n])
  then have i3: "ins h3 = (ins h)(node := (ins h node)[index := new])"
    using ins_node [where h = h2, OF k] by (auto simp: h3_def push_output_def fun_eq_iff)
  have "outs h1 = (outs h)(?e := remove1 node (outs h ?e))"
    using outs_node [where h = h, OF e] by (simp add: h1_def drop_output_def)
  moreover have "outs h2 = outs h1"
    using outs_node [where h = h1, OF n1(1)] by (auto simp: h2_def fun_eq_iff)
  moreover have "outs h3 = (outs h2)(new := outs h2 new @ [node])"
    using outs_node [where h = h2, OF k] by (simp add: h3_def push_output_def)
  ultimately have o3: "count_list (outs h3 m) r + (if m = ?e \<and> r = node then 1 else 0) =
      count_list (outs h m) r + (if m = new \<and> r = node then 1 else 0)" for m r
    using mem outs_node [where h = h, OF e] by (auto simp: count_list_remove1 count_list_0_iff Suc_leI
        intro!: Suc_pred simp flip: neq0_conv)
  have "count_list (ins h3 r) m = count_list (outs h3 m) r" for r m
    using o3 [of m r] c [of r m] count_list_update [of index "ins h node" new m] i
    by (auto simp: i3 ins_node [where h = h, OF n] split: if_splits)
  moreover have "h3 0 = None" using same_cores_live [OF same, of 0] ok(1) by (simp add: graph_ok_def)
  ultimately have g3: "graph_ok h3" by (simp add: graph_ok_def)
  have r3: "ranked rk h3"
  proof (rule ranked_same_cores [OF same ok(2)])
    fix r y assume y: "h r = Some y" "ir_opcode y = IR_addressof" "ins h3 r \<noteq> []"
    then show "ins h r \<noteq> [] \<and> ins h3 r ! 0 = ins h r ! 0 \<or> rk (ins h3 r ! 0) < rk r"
      using rank n i ins_node [where h = h, OF n] by (cases "r = node"; cases index) (auto simp: i3)
  qed
  have "h3 node \<noteq> None" using n same_cores_live [OF same, of node] by auto
  from recompute_step [OF g3 r3 this] obtain h' where h': "IRRecomputeValueState node h3 = Some h'"
    "graph_ok h'" "ranked rk h'" "same_cores h3 h'" "ins h' = ins h3" by blast
  have "IRReplaceInput node index new h = Some h'"
    using h'(1) n e i mem n1 k
    by (simp add: IRReplaceInput_def on_node_def flip: h1_def h2_def h3_def)
  then show ?thesis using h' i3 same_cores_trans [OF same] by auto
qed

lemma IRRemoveInput_effect:
  assumes ok: "graph_ok h" "ranked rk h" and n: "h node = Some n" and i: "index < length (ir_inputs n)"
    and rank: "ir_opcode n \<noteq> IR_addressof \<or> length (ir_inputs n) = 1"
  shows "\<exists>h'. IRRemoveInput node index h = Some h' \<and> graph_ok h' \<and> ranked rk h' \<and>
    same_cores h h' \<and>
    ins h' = (ins h)(node := take index (ins h node) @ drop (Suc index) (ins h node))"
proof -
  let ?e = "ir_inputs n ! index" and ?xs = "take index (ir_inputs n) @ drop (Suc index) (ir_inputs n)"
  have c: "\<And>r m. count_list (ins h r) m = count_list (outs h m) r"
    using ok by (simp add: graph_ok_def)
  have e_in: "?e \<in> set (ins h node)" using i by (simp add: ins_node [where h = h, OF n])
  then obtain e where e: "h ?e = Some e" using live_edge(2) [OF ok(1)] by blast
  have mem: "node \<in> set (ir_outputs e)"
    using e_in live_edge(1) [OF ok(1)] outs_node [where h = h, OF e] by simp
  define h1 where "h1 = h(?e \<mapsto> drop_output node e)"
  obtain n1 where n1: "h1 node = Some n1" "ir_inputs n1 = ir_inputs n" "core n1 = core n"
    using n e by (cases "?e = node") (auto simp: h1_def drop_output_def core_def)
  define h2 where "h2 = h1(node \<mapsto> n1\<lparr>ir_inputs := ?xs\<rparr>)"
  have s1: "same_cores h h1" unfolding h1_def by (rule same_cores_upd [where h = h, OF e]) simp
  have s2: "same_cores h1 h2" unfolding h2_def by (rule same_cores_upd [where h = h1, OF n1(1)]) simp
  note same = same_cores_trans [OF s1 s2]
  have "ins h1 = ins h"
    using ins_node [where h = h, OF e] by (auto simp: h1_def drop_output_def fun_eq_iff)
  then have i2: "ins h2 = (ins h)(node := ?xs)" by (simp add: h2_def)
  have "outs h1 = (outs h)(?e := remove1 node (outs h ?e))"
    using outs_node [where h = h, OF e] by (simp add: h1_def drop_output_def)
  moreover have "outs h2 = outs h1"
    using outs_node [where h = h1, OF n1(1)] by (auto simp: h2_def fun_eq_iff)
  ultimately have o2: "count_list (outs h2 m) r + (if m = ?e \<and> r = node then 1 else 0) =
      count_list (outs h m) r" for m r
    using mem outs_node [where h = h, OF e] by (auto simp: count_list_remove1 count_list_0_iff Suc_leI
        intro!: Suc_pred simp flip: neq0_conv)
  have "count_list (ins h2 r) m = count_list (outs h2 m) r" for r m
    using o2 [of m r] c [of r m] count_list_delete [of index "ins h node" m] i
    by (auto simp: i2 ins_node [where h = h, OF n] split: if_splits)
  moreover have "h2 0 = None" using same_cores_live [OF same, of 0] ok(1) by (simp add: graph_ok_def)
  ultimately have g2: "graph_ok h2" by (simp add: graph_ok_def)
  have r2: "ranked rk h2"
  proof (rule ranked_same_cores [OF same ok(2)])
    fix r y assume y: "h r = Some y" "ir_opcode y = IR_addressof" "ins h2 r \<noteq> []"
    then have "r \<noteq> node" using rank n i by (auto simp: i2)
    then show "ins h r \<noteq> [] \<and> ins h2 r ! 0 = ins h r ! 0 \<or> rk (ins h2 r ! 0) < rk r"
      using y(3) by (simp add: i2)
  qed
  have "h2 node \<noteq> None" using n same_cores_live [OF same, of node] by auto
  from recompute_step [OF g2 r2 this] obtain h' where h': "IRRecomputeValueState node h2 = Some h'"
    "graph_ok h'" "ranked rk h'" "same_cores h2 h'" "ins h' = ins h2" by blast
  have "IRRemoveInput node index h = Some h'"
    using h'(1) n e i mem n1
    by (simp add: IRRemoveInput_def on_node_def flip: h1_def h2_def)
  then show ?thesis using h' i2 same_cores_trans [OF same] ins_node [where h = h, OF n] by auto
qed

lemma IRAddInput_effect:
  assumes ok: "graph_ok h" "ranked rk h" and n: "h from_ref = Some n" and t: "h to_ref = Some t"
    and listed: "ir_opcode t = IR_label \<or> in_list to_ref"
    and rank: "ir_opcode n = IR_addressof \<longrightarrow> ir_inputs n = [] \<longrightarrow> rk to_ref < rk from_ref"
  shows "\<exists>h'. IRAddInput in_list from_ref to_ref copy_type h = Some h' \<and> graph_ok h' \<and> ranked rk h' \<and>
    ins h' = (ins h)(from_ref := ins h from_ref @ [to_ref])"
proof -
  have c: "\<And>r m. count_list (ins h r) m = count_list (outs h m) r"
    using ok by (simp add: graph_ok_def)
  define h1 where "h1 = h(from_ref \<mapsto> push_input to_ref n)"
  obtain t1 where t1: "h1 to_ref = Some t1" "ir_outputs t1 = ir_outputs t"
    using t n by (cases "to_ref = from_ref") (auto simp: h1_def push_input_def)
  define h2 where "h2 = h1(to_ref \<mapsto> push_output from_ref t1)"
  obtain n2 where n2: "h2 from_ref = Some n2"
    by (cases "from_ref = to_ref") (auto simp: h2_def h1_def)
  define h3 where "h3 = (if copy_type then h2(from_ref \<mapsto> IRSetType (ir_type t) n2) else h2)"
  have s2: "same_cores h h2"
    using same_cores_trans same_cores_upd [where h = h, OF n, of "push_input to_ref n"]
      same_cores_upd [where h = h1, OF t1(1), of "push_output from_ref t1"]
    by (simp flip: h1_def h2_def)
  have typed: "ir_inputs (IRSetType ty x) = ir_inputs x" "ir_outputs (IRSetType ty x) = ir_outputs x"
    "ir_opcode (IRSetType ty x) = ir_opcode x" for ty x
    by (simp_all add: IRSetType_def)
  have i2: "ins h2 = (ins h)(from_ref := ins h from_ref @ [to_ref])"
    using ins_node [where h = h1, OF t1(1)] ins_node [where h = h, OF n]
    by (auto simp: h2_def h1_def push_output_def push_input_def fun_eq_iff)
  have o2: "outs h2 = (outs h)(to_ref := outs h to_ref @ [from_ref])"
    using outs_node [where h = h, OF t] outs_node [where h = h, OF n] t1(2)
    by (auto simp: h2_def h1_def push_output_def push_input_def fun_eq_iff)
  have i3: "ins h3 = ins h2" and o3: "outs h3 = outs h2"
    using ins_node [where h = h2, OF n2] outs_node [where h = h2, OF n2]
    by (auto simp: h3_def typed fun_eq_iff)
  have live: "h3 r = None \<longleftrightarrow> h r = None" for r
    using same_cores_live [OF s2, of r] n2 by (auto simp: h3_def)
  have "count_list (ins h3 r) m = count_list (outs h3 m) r" for r m
    using c [of r m] by (auto simp: i3 o3 i2 o2)
  then have g3: "graph_ok h3" using ok(1) live by (simp add: graph_ok_def)
  have r2: "ranked rk h2"
  proof (rule ranked_same_cores [OF s2 ok(2)])
    fix r y assume y: "h r = Some y" "ir_opcode y = IR_addressof" "ins h2 r \<noteq> []"
    show "ins h r \<noteq> [] \<and> ins h2 r ! 0 = ins h r ! 0 \<or> rk (ins h2 r ! 0) < rk r"
      using y rank n ins_node [where h = h, OF n]
      by (cases "r = from_ref"; cases "ir_inputs n = []") (auto simp: i2 nth_append)
  qed
  then have r3: "ranked rk h3"
    using n2 by (auto simp: ranked_def h3_def typed)
  have "h3 from_ref \<noteq> None" using live n by simp
  from recompute_step [OF g3 r3 this] obtain h' where h': "IRRecomputeValueState from_ref h3 = Some h'"
    "graph_ok h'" "ranked rk h'" "ins h' = ins h3" by blast
  have "IRAddInput in_list from_ref to_ref copy_type h = Some h'"
    using h'(1) n t t1 n2 listed
    by (auto simp: IRAddInput_def on_node_def h3_def simp flip: h1_def h2_def)
  then show ?thesis using h' i2 i3 by auto
qed

end
