(* ===== verification/IrGraphTheorems.thy ===== *)
theory IrGraphTheorems
  imports IrGraphSpec
begin

text \<open>
  The properties of the graph operations: edges stay consistent, no edge dangles after a
  removal, and a basic block stays the segment of the instruction list it was.
\<close>

section \<open>Blocks as segments of the instruction list\<close>

definition block_holds :: "generator \<Rightarrow> basic_block \<Rightarrow> node_ref list \<Rightarrow> bool" where
  "block_holds g b is \<longleftrightarrow>
     (if is = [] then bb_code b = 0 \<and> bb_end_code b = 0
      else bb_code b = hd is \<and> bb_end_code b = last is) \<and>
     (\<exists>as bs. gen_code g = as @ is @ bs)"

definition code_ok :: "generator \<Rightarrow> bool" where
  "code_ok g \<longleftrightarrow> distinct (gen_code g) \<and> 0 \<notin> set (gen_code g)"

lemma next_prev_in:
  assumes "distinct (xs @ r # ys)"
  shows "next_in (xs @ r # ys) r = first_or ys 0" "prev_in p (xs @ r # ys) r = last_or p xs"
  using assms by simp_all

lemma block_without_holds:
  assumes ok: "code_ok g" and b: "block_holds g b is" and i: "inst \<in> set is"
    and g': "gen_code g' = remove1 inst (gen_code g)"
  shows "block_holds g' (block_without g inst b) (remove1 inst is)"
proof -
  obtain as bs where code: "gen_code g = as @ is @ bs" using b by (auto simp: block_holds_def)
  obtain xs ys where is_eq: "is = xs @ inst # ys" using i by (meson split_list)
  have d: "distinct ((as @ xs) @ inst # (ys @ bs))" "0 \<notin> set (gen_code g)"
    using ok by (simp_all add: code_ok_def code is_eq)
  have n: "IRNext g inst = first_or (ys @ bs) 0" "IRPrev g inst = last_or 0 (as @ xs)"
    using next_prev_in [OF d(1)] by (simp_all add: IRNext_def IRPrev_def code is_eq)
  have g: "gen_code g' = as @ (xs @ ys) @ bs"
    using g' d(1) by (simp add: code is_eq remove1_append)
  have ends: "bb_code b = hd is" "bb_end_code b = last is" using b by (auto simp: block_holds_def is_eq)
  have r: "remove1 inst is = xs @ ys" using d(1) by (simp add: is_eq remove1_append)
  have i0: "inst \<noteq> 0" using d(2) by (auto simp: code is_eq)
  have "(if xs @ ys = [] then bb_code (block_without g inst b) = 0 \<and> bb_end_code (block_without g inst b) = 0
     else bb_code (block_without g inst b) = hd (xs @ ys) \<and> bb_end_code (block_without g inst b) = last (xs @ ys))"
  proof (cases xs rule: rev_cases)
    case Nil
    show ?thesis
    proof (cases ys)
      case Nil
      then show ?thesis using ends i0 \<open>xs = []\<close> by (simp add: block_without_def is_eq Let_def)
    next
      case (Cons y zs)
      then have "inst \<noteq> last ys" "inst \<noteq> y" using d(1) by (auto dest: last_in_set split: if_splits)
      then show ?thesis using ends \<open>xs = []\<close> Cons n(1) by (simp add: block_without_def is_eq Let_def)
    qed
  next
    case (snoc zs z)
    have h: "hd is \<noteq> inst" "hd is = hd xs" using d(1) snoc by (cases zs; auto simp: is_eq)+
    show ?thesis
    proof (cases ys)
      case Nil
      then show ?thesis using ends snoc n(2) h by (simp add: block_without_def is_eq Let_def)
    next
      case (Cons y ws)
      then have "inst \<noteq> last ys" using d(1) by (auto dest: last_in_set split: if_splits)
      then show ?thesis using ends snoc h Cons
        by (cases zs) (simp_all add: block_without_def is_eq Let_def)
    qed
  qed
  then show ?thesis unfolding block_holds_def r using g by blast
qed

lemma other_block_holds:
  assumes "block_holds g b is" "inst \<notin> set is" "gen_code g' = remove1 inst (gen_code g)"
  shows "block_holds g' b is"
proof -
  obtain as bs where "gen_code g = as @ is @ bs" using assms(1) by (auto simp: block_holds_def)
  then have "gen_code g' = (if inst \<in> set as then remove1 inst as @ is @ bs else as @ is @ remove1 inst bs)"
    using assms(2,3) by (simp add: remove1_append)
  then show ?thesis using assms(1) by (auto simp: block_holds_def split: if_splits)
qed

lemma set_block_simps [simp]: "gen_nodes (set_block i b g) = gen_nodes g"
    "gen_code (set_block i b g) = gen_code g"
    "gen_basic_blocks (set_block i b g) = (gen_basic_blocks g)[i := b]"
  by (simp_all add: set_block_def)

text \<open>The pointers \<open>BasicBlockReplaceInstruction\<close> sets before it removes the instruction.\<close>

definition block_skips :: "generator \<Rightarrow> node_ref \<Rightarrow> basic_block \<Rightarrow> basic_block" where
  "block_skips g old b =
     (let b1 = (if old = bb_code b then b\<lparr>bb_code := IRNext g old\<rparr> else b)
      in if old = bb_end_code b1 then b1\<lparr>bb_end_code := IRPrev g old\<rparr> else b1)"

lemma block_without_idle:
  "bb_code b \<noteq> inst \<Longrightarrow> bb_end_code b \<noteq> inst \<Longrightarrow> block_without g inst b = b"
  by (simp add: block_without_def)

lemma block_skips_many:
  assumes "code_ok g" "block_holds g b is" "old \<in> set is" "length is > 1"
  shows "block_skips g old b = block_without g old b"
    "bb_code (block_skips g old b) \<noteq> old" "bb_end_code (block_skips g old b) \<noteq> old"
proof -
  have d: "distinct is" using assms(1,2) by (auto simp: code_ok_def block_holds_def)
  obtain a rest where shape: "is = a # rest" "rest \<noteq> []" using assms(4) by (cases "is") auto
  then have "hd is \<noteq> last is" using d last_in_set [of rest] by auto
  then show eq: "block_skips g old b = block_without g old b"
    using assms(2) shape by (auto simp: block_skips_def block_without_def block_holds_def Let_def)
  have r: "remove1 old is \<noteq> []" "old \<notin> set (remove1 old is)"
    using d assms(3,4) length_remove1 [of old "is"] by (auto simp: set_remove1_eq)
  have "block_holds (g\<lparr>gen_code := remove1 old (gen_code g)\<rparr>) (block_without g old b) (remove1 old is)"
    by (rule block_without_holds [OF assms(1-3)]) simp
  then have "bb_code (block_without g old b) = hd (remove1 old is)"
    "bb_end_code (block_without g old b) = last (remove1 old is)"
    using r(1) by (simp_all add: block_holds_def)
  then show "bb_code (block_skips g old b) \<noteq> old" "bb_end_code (block_skips g old b) \<noteq> old"
    using r by (metis eq hd_in_set, metis eq last_in_set)
qed

lemma block_skips_one:
  assumes "code_ok g" "block_holds g b [old]"
  shows "bb_code (block_skips g old b) = IRNext g old" "bb_end_code (block_skips g old b) = IRPrev g old"
    "IRNext g old \<noteq> old" "IRPrev g old \<noteq> old"
proof -
  obtain as bs where code: "gen_code g = as @ old # bs" using assms(2) by (auto simp: block_holds_def)
  then have d: "distinct (as @ old # bs)" "old \<noteq> 0" using assms(1) by (auto simp: code_ok_def)
  show "IRNext g old \<noteq> old"
    using next_prev_in(1) [OF d(1)] d by (cases bs) (auto simp: IRNext_def code)
  show "IRPrev g old \<noteq> old"
    using next_prev_in(2) [OF d(1)] d by (cases as rule: rev_cases) (auto simp: IRPrev_def code)
  show "bb_code (block_skips g old b) = IRNext g old" "bb_end_code (block_skips g old b) = IRPrev g old"
    using assms(2) by (auto simp: block_skips_def block_holds_def Let_def)
qed

lemma BasicBlockReplaceInstruction_effect:
  assumes "graph_ok (gen_nodes g)" "gen_nodes g old \<noteq> None" "gen_nodes g new \<noteq> None" "old \<noteq> new"
    and "i < length (gen_basic_blocks g)"
    and b2: "b2 = block_skips g old (gen_basic_blocks g ! i)" "bb_code b2 \<noteq> old" "bb_end_code b2 \<noteq> old"
  shows "\<exists>g'. BasicBlockReplaceInstruction i old new g = Some g' \<and> graph_ok (gen_nodes g') \<and>
    gen_nodes g' old = None \<and> gen_code g' = remove1 old (gen_code g) \<and> gen_basic_blocks g' ! i = b2 \<and>
    (\<forall>m. m \<noteq> old \<longrightarrow> ins (gen_nodes g') m = map (renamed old new) (ins (gen_nodes g) m))"
proof -
  obtain g1 where g1: "GeneratorReplaceInstruction old new (set_block i b2 g) = Some g1"
    "graph_ok (gen_nodes g1)" "g1 = (set_block i b2 g)\<lparr>gen_nodes := gen_nodes g1\<rparr>"
    "same_cores (gen_nodes g) (gen_nodes g1)"
    "\<forall>m. ins (gen_nodes g1) m = map (renamed old new) (ins (gen_nodes g) m)"
    using GeneratorReplaceInstruction_effect [of "set_block i b2 g" old new] assms(1-4)
    unfolding set_block_simps by blast
  have f: "gen_code g1 = gen_code g" "gen_basic_blocks g1 = (gen_basic_blocks g)[i := b2]"
    by (subst g1(3), simp)+
  have idle: "set_block i (block_without g1 old (gen_basic_blocks g1 ! i)) g1 = g1"
    using assms(5) b2(2,3) by (simp add: block_without_idle f set_block_def)
  have "gen_nodes g1 old \<noteq> None" using assms(2) same_cores_live [OF g1(4), of old] by simp
  then obtain g2 where g2: "GeneratorRemoveInstruction old g1 = Some g2" "graph_ok (gen_nodes g2)"
    "gen_code g2 = remove1 old (gen_code g1)" "gen_basic_blocks g2 = gen_basic_blocks g1"
    "same_cores ((gen_nodes g1)(old := None)) (gen_nodes g2)"
    "\<forall>m. m \<noteq> old \<longrightarrow> ins (gen_nodes g2) m = removeAll old (ins (gen_nodes g1) m)"
    using GeneratorRemoveInstruction_effect [OF g1(2)] by blast
  have "removeAll old (map (renamed old new) xs) = map (renamed old new) xs" for xs
    using assms(4) by (induction xs) (auto simp: renamed_def)
  then have "\<forall>m. m \<noteq> old \<longrightarrow> ins (gen_nodes g2) m = map (renamed old new) (ins (gen_nodes g) m)"
    using g2(6) g1(5) by simp
  moreover have "gen_nodes g2 old = None" using same_cores_live [OF g2(5), of old] by simp
  moreover have "BasicBlockReplaceInstruction i old new g = Some g2"
    using g1(1) g2(1) idle b2(1)
    by (simp add: BasicBlockReplaceInstruction_def BasicBlockRemoveInstruction_def block_skips_def Let_def)
  ultimately show ?thesis using g2 f assms(5) by simp
qed

section \<open>Properties\<close>

text \<open>
  C21. The operations on single edges keep the two copies of every edge in step.  On a consistent
  graph whose chains of \<open>addressof\<close> end they never abort, never loop and change the inputs of that
  node as asked and no others: adding an input, the first one included, whenever the new input
  is a label or is in the instruction list (otherwise the assertion fails); replacing and removing
  the input at an index the node has.  An edge that becomes the one an \<open>addressof\<close> points along must
  not close a cycle of them.
\<close>

theorem edge_operations:
  assumes "graph_ok h" "ranked rk h" "h node = Some n" "h new = Some k"
  shows "(ir_opcode k \<noteq> IR_label \<and> \<not> in_list new \<longrightarrow> IRAddInput in_list node new copy_type h = None) \<and>
    ((ir_opcode k = IR_label \<or> in_list new) \<and>
       (ir_opcode n = IR_addressof \<and> ir_inputs n = [] \<longrightarrow> rk new < rk node) \<longrightarrow>
     (\<exists>h'. IRAddInput in_list node new copy_type h = Some h' \<and> graph_ok h' \<and> ranked rk h' \<and>
        ins h' = (ins h)(node := ins h node @ [new]))) \<and>
    (index < length (ir_inputs n) \<and> (ir_opcode n = IR_addressof \<and> index = 0 \<longrightarrow> rk new < rk node) \<longrightarrow>
     (\<exists>h'. IRReplaceInput node index new h = Some h' \<and> graph_ok h' \<and> ranked rk h' \<and>
        ins h' = (ins h)(node := (ins h node)[index := new]))) \<and>
    (index < length (ir_inputs n) \<and> (ir_opcode n = IR_addressof \<longrightarrow> length (ir_inputs n) = 1) \<longrightarrow>
     (\<exists>h'. IRRemoveInput node index h = Some h' \<and> graph_ok h' \<and> ranked rk h' \<and>
        ins h' = (ins h)(node := take index (ins h node) @ drop (Suc index) (ins h node))))"
proof (intro conjI impI; (elim conjE)?)
  assume "ir_opcode k \<noteq> IR_label" "\<not> in_list new"
  then show "IRAddInput in_list node new copy_type h = None" using assms(4) by (simp add: IRAddInput_def)
next
  assume "ir_opcode k = IR_label \<or> in_list new" "ir_opcode n = IR_addressof \<and> ir_inputs n = [] \<longrightarrow> rk new < rk node"
  then show "\<exists>h'. IRAddInput in_list node new copy_type h = Some h' \<and> graph_ok h' \<and> ranked rk h' \<and>
      ins h' = (ins h)(node := ins h node @ [new])"
    using IRAddInput_effect [where h = h and in_list = in_list, OF assms(1-4)] by blast
next
  assume "index < length (ir_inputs n)" "ir_opcode n = IR_addressof \<and> index = 0 \<longrightarrow> rk new < rk node"
  then show "\<exists>h'. IRReplaceInput node index new h = Some h' \<and> graph_ok h' \<and> ranked rk h' \<and>
      ins h' = (ins h)(node := (ins h node)[index := new])"
    using IRReplaceInput_effect [OF assms(1-3), of index new] assms(4) by auto
next
  assume "index < length (ir_inputs n)" "ir_opcode n = IR_addressof \<longrightarrow> length (ir_inputs n) = 1"
  then show "\<exists>h'. IRRemoveInput node index h = Some h' \<and> graph_ok h' \<and> ranked rk h' \<and>
      ins h' = (ins h)(node := take index (ins h node) @ drop (Suc index) (ins h node))"
    using IRRemoveInput_effect [OF assms(1-3), of index] by blast
qed

definition demo_node :: "ir_op \<Rightarrow> node_ref list \<Rightarrow> node_ref list \<Rightarrow> ir_node" where
  "demo_node opcode is os =
     \<lparr>ir_id = 0, ir_opcode = opcode, ir_inputs = is, ir_outputs = os, ir_block = 0, ir_type = None,
      ir_value_state = ValueValid, ir_flags = 0, ir_var = 0, ir_dest = 0, ir_ivalue = 0,
      ir_symbol_ref = 0\<rparr>"

text \<open>\<open>x\<close> is squared, and there is a constant beside it.\<close>

definition demo_store :: ir_store where
  "demo_store = [4 \<mapsto> demo_node IR_load64 [] [5, 5], 5 \<mapsto> demo_node IR_muli [4, 4] [],
                 6 \<mapsto> demo_node IR_const64 [] []]"

lemma demo_graph: "graph_ok demo_store"
  by (auto simp: graph_ok_def demo_store_def ins_def outs_def demo_node_def)

lemma demo_nodes:
  "demo_store 4 = Some (demo_node IR_load64 [] [5, 5])" "demo_store 5 = Some (demo_node IR_muli [4, 4] [])"
  "demo_store 6 = Some (demo_node IR_const64 [] [])" "ins demo_store 5 = [4, 4]"
  by (simp_all add: demo_store_def demo_node_def ins_def)

lemma demo_ranked: "ranked id demo_store"
  by (auto simp: ranked_def demo_store_def demo_node_def ir_op_defs)

theorem edge_operations_witness:
  "(\<exists>h'. IRReplaceInput 5 1 6 demo_store = Some h' \<and> ins h' 5 = [4, 6]) \<and>
   (\<exists>h'. IRAddInput (\<lambda>_. True) 4 6 False demo_store = Some h' \<and> ins h' 4 = [6])"
proof
  have "ir_opcode (demo_node IR_muli [4, 4] []) \<noteq> IR_addressof" "1 < length (ir_inputs (demo_node IR_muli [4, 4] []))"
    by (simp_all add: demo_node_def ir_op_defs)
  with edge_operations [where h = demo_store, OF demo_graph demo_ranked demo_nodes(2,3), of "\<lambda>_. True" _ 1]
  show "\<exists>h'. IRReplaceInput 5 1 6 demo_store = Some h' \<and> ins h' 5 = [4, 6]" by (fastforce simp: demo_nodes(4))
  have "ir_opcode (demo_node IR_load64 [] [5, 5]) \<noteq> IR_addressof" "ins demo_store 4 = []"
    by (simp_all add: demo_node_def ir_op_defs ins_def demo_store_def)
  with edge_operations [where h = demo_store, OF demo_graph demo_ranked demo_nodes(1,3), of "\<lambda>_. True" False]
  show "\<exists>h'. IRAddInput (\<lambda>_. True) 4 6 False demo_store = Some h' \<and> ins h' 4 = [6]" by fastforce
qed

text \<open>
  C31. Replacing the uses of an instruction redirects every one of them, duplicates and uses
  of itself included, keeps the graph consistent and leaves the instruction without uses;
  removing an instruction takes it out of the list, frees it and drops every edge to it, so that
  no def-use edge dangles (the ends of the blocks, merge temporaries and the generator's last
  constant are the callers').  Both always end without a failure.
\<close>

theorem replace_and_remove:
  assumes "graph_ok (gen_nodes g)" "gen_nodes g old \<noteq> None" "gen_nodes g new \<noteq> None" "old \<noteq> new"
  shows "(\<exists>g1. GeneratorReplaceInstruction old new g = Some g1 \<and> graph_ok (gen_nodes g1) \<and>
      outs (gen_nodes g1) old = [] \<and> gen_code g1 = gen_code g \<and>
      (\<forall>m. ins (gen_nodes g1) m = map (\<lambda>x. if x = old then new else x) (ins (gen_nodes g) m))) \<and>
    (\<exists>g2. GeneratorRemoveInstruction old g = Some g2 \<and> graph_ok (gen_nodes g2) \<and>
      gen_nodes g2 old = None \<and> gen_code g2 = remove1 old (gen_code g) \<and>
      (\<forall>m. m \<noteq> old \<longrightarrow> (gen_nodes g2 m = None \<longleftrightarrow> gen_nodes g m = None) \<and>
           ins (gen_nodes g2) m = filter (\<lambda>x. x \<noteq> old) (ins (gen_nodes g) m) \<and>
           outs (gen_nodes g2) m = filter (\<lambda>x. x \<noteq> old) (outs (gen_nodes g) m)))"
proof (intro conjI)
  obtain g1 where "GeneratorReplaceInstruction old new g = Some g1" "graph_ok (gen_nodes g1)"
    "outs (gen_nodes g1) old = []" "g1 = g\<lparr>gen_nodes := gen_nodes g1\<rparr>"
    "\<forall>m. ins (gen_nodes g1) m = map (renamed old new) (ins (gen_nodes g) m)"
    using GeneratorReplaceInstruction_effect [OF assms(1,4,2,3)] by blast
  moreover have "gen_code g1 = gen_code g" by (subst calculation(4)) simp
  ultimately show "\<exists>g1. GeneratorReplaceInstruction old new g = Some g1 \<and> graph_ok (gen_nodes g1) \<and>
      outs (gen_nodes g1) old = [] \<and> gen_code g1 = gen_code g \<and>
      (\<forall>m. ins (gen_nodes g1) m = map (\<lambda>x. if x = old then new else x) (ins (gen_nodes g) m))"
    by (auto simp: renamed_def)
  obtain g2 where g2: "GeneratorRemoveInstruction old g = Some g2" "graph_ok (gen_nodes g2)"
    "gen_code g2 = remove1 old (gen_code g)" "same_cores ((gen_nodes g)(old := None)) (gen_nodes g2)"
    "\<forall>m. m \<noteq> old \<longrightarrow> ins (gen_nodes g2) m = removeAll old (ins (gen_nodes g) m) \<and>
       outs (gen_nodes g2) m = removeAll old (outs (gen_nodes g) m)"
    using GeneratorRemoveInstruction_effect [OF assms(1,2)] by blast
  have "gen_nodes g2 old = None" "\<And>m. m \<noteq> old \<Longrightarrow> (gen_nodes g2 m = None \<longleftrightarrow> gen_nodes g m = None)"
    using same_cores_live [OF g2(4)] by (metis fun_upd_apply)+
  moreover have "removeAll old xs = filter (\<lambda>x. x \<noteq> old) xs" for xs
    by (induction xs) auto
  ultimately show "\<exists>g2. GeneratorRemoveInstruction old g = Some g2 \<and> graph_ok (gen_nodes g2) \<and>
      gen_nodes g2 old = None \<and> gen_code g2 = remove1 old (gen_code g) \<and>
      (\<forall>m. m \<noteq> old \<longrightarrow> (gen_nodes g2 m = None \<longleftrightarrow> gen_nodes g m = None) \<and>
           ins (gen_nodes g2) m = filter (\<lambda>x. x \<noteq> old) (ins (gen_nodes g) m) \<and>
           outs (gen_nodes g2) m = filter (\<lambda>x. x \<noteq> old) (outs (gen_nodes g) m))"
    using g2 by auto
qed

definition demo_block :: "nat \<Rightarrow> node_ref \<Rightarrow> node_ref \<Rightarrow> basic_block" where
  "demo_block i code end_code = (NewBasicBlock i)\<lparr>bb_code := code, bb_end_code := end_code\<rparr>"

definition demo_symbol :: ir_symbol where
  "demo_symbol = \<lparr>sym_type = None, sym_storage = 0, sym_address_taken = False, sym_is_argument = False,
                  sym_is_temp = False, sym_is_local = True\<rparr>"

definition demo_gen :: generator where
  "demo_gen = \<lparr>gen_nodes = demo_store, gen_code = [6, 4, 5], gen_last_constant = 6, gen_last_variable = 0,
               gen_basic_blocks = [demo_block 0 6 4, demo_block 1 5 5], gen_entry_block = 0,
               gen_symbols = (\<lambda>_. demo_symbol), gen_plain_char_is_signed = True,
               gen_exit_block = 1, gen_exception_ranges = [], gen_next_ir_id = 7\<rparr>"

theorem replace_and_remove_witness:
  "\<exists>g1. GeneratorReplaceInstruction 4 6 demo_gen = Some g1 \<and> ins (gen_nodes g1) 5 = [6, 6]"
proof -
  have g: "gen_nodes demo_gen = demo_store" by (simp add: demo_gen_def)
  show ?thesis
    using replace_and_remove [of demo_gen 4 6] demo_graph by (auto simp: g demo_nodes)
qed

text \<open>
  C32. A basic block is kept by its first and its last instruction.  Removing an instruction
  from a block leaves the block holding the rest of its instructions in order, empty if
  there is none, and every other block untouched.
\<close>

theorem BasicBlockRemoveInstruction_segment:
  assumes "graph_ok (gen_nodes g)" "code_ok g" "gen_nodes g inst \<noteq> None" "i < length (gen_basic_blocks g)"
    and "block_holds g (gen_basic_blocks g ! i) is" "inst \<in> set is"
  shows "\<exists>g'. BasicBlockRemoveInstruction i inst g = Some g' \<and> graph_ok (gen_nodes g') \<and> code_ok g' \<and>
    gen_nodes g' inst = None \<and> block_holds g' (gen_basic_blocks g' ! i) (remove1 inst is) \<and>
    (\<forall>j js. j \<noteq> i \<longrightarrow> block_holds g (gen_basic_blocks g ! j) js \<longrightarrow> inst \<notin> set js \<longrightarrow>
       block_holds g' (gen_basic_blocks g' ! j) js)"
proof -
  let ?b = "block_without g inst (gen_basic_blocks g ! i)"
  obtain g' where g': "GeneratorRemoveInstruction inst (set_block i ?b g) = Some g'"
    "graph_ok (gen_nodes g')" "gen_code g' = remove1 inst (gen_code g)"
    "gen_basic_blocks g' = (gen_basic_blocks g)[i := ?b]"
    "same_cores ((gen_nodes g)(inst := None)) (gen_nodes g')"
    using GeneratorRemoveInstruction_effect [of "set_block i ?b g" inst] assms(1,3) by auto
  have "gen_nodes g' inst = None" using same_cores_live [OF g'(5), of inst] by simp
  moreover have "code_ok g'" using assms(2) g'(3) by (auto simp: code_ok_def dest: notin_set_remove1)
  moreover have "block_holds g' (gen_basic_blocks g' ! i) (remove1 inst is)"
    using block_without_holds [OF assms(2,5,6) g'(3)] g'(4) assms(4) by simp
  moreover have "block_holds g' (gen_basic_blocks g' ! j) js"
    if "j \<noteq> i" "block_holds g (gen_basic_blocks g ! j) js" "inst \<notin> set js" for j js
    using other_block_holds [OF that(2,3) g'(3)] g'(4) that(1) by simp
  ultimately show ?thesis using g'(1,2) by (auto simp: BasicBlockRemoveInstruction_def)
qed

theorem BasicBlockRemoveInstruction_segment_witness:
  "\<exists>g'. BasicBlockRemoveInstruction 0 4 demo_gen = Some g' \<and>
    block_holds g' (gen_basic_blocks g' ! 0) [6] \<and> block_holds g' (gen_basic_blocks g' ! 1) [5]"
proof -
  have h: "block_holds demo_gen (gen_basic_blocks demo_gen ! 0) [6, 4]"
    "block_holds demo_gen (gen_basic_blocks demo_gen ! 1) [5]"
    by (auto simp: block_holds_def demo_gen_def demo_block_def NewBasicBlock_def intro: exI [of _ "[6, 4]"])
  have p: "graph_ok (gen_nodes demo_gen)" "code_ok demo_gen" "gen_nodes demo_gen 4 \<noteq> None"
    "0 < length (gen_basic_blocks demo_gen)"
    using demo_graph by (simp_all add: demo_gen_def code_ok_def demo_store_def)
  obtain g' where "BasicBlockRemoveInstruction 0 4 demo_gen = Some g'"
    "block_holds g' (gen_basic_blocks g' ! 0) (remove1 4 [6, 4])"
    "\<forall>j js. j \<noteq> 0 \<longrightarrow> block_holds demo_gen (gen_basic_blocks demo_gen ! j) js \<longrightarrow> 4 \<notin> set js \<longrightarrow>
       block_holds g' (gen_basic_blocks g' ! j) js"
    using BasicBlockRemoveInstruction_segment [OF p h(1), of] by auto
  then show ?thesis using h(2) by auto
qed

text \<open>
  C33. Replacing an instruction by another one redirects its uses and removes it, and a block
  of several instructions then holds the rest of them.  A block whose only instruction is
  replaced is broken: it is left with the neighbours of the instruction, its first pointer
  after its last, and holds no segment of the code at all.
\<close>

theorem BasicBlockReplaceInstruction_segment:
  assumes "graph_ok (gen_nodes g)" "code_ok g" "gen_nodes g old \<noteq> None" "gen_nodes g new \<noteq> None"
    and "old \<noteq> new" "i < length (gen_basic_blocks g)" "block_holds g (gen_basic_blocks g ! i) is" "old \<in> set is"
  shows "\<exists>g'. BasicBlockReplaceInstruction i old new g = Some g' \<and> graph_ok (gen_nodes g') \<and>
    gen_nodes g' old = None \<and> gen_code g' = remove1 old (gen_code g) \<and>
    (\<forall>m. m \<noteq> old \<longrightarrow> ins (gen_nodes g') m = map (\<lambda>x. if x = old then new else x) (ins (gen_nodes g) m)) \<and>
    (length is > 1 \<longrightarrow> block_holds g' (gen_basic_blocks g' ! i) (remove1 old is)) \<and>
    (is = [old] \<longrightarrow> bb_code (gen_basic_blocks g' ! i) = IRNext g old \<and>
                  bb_end_code (gen_basic_blocks g' ! i) = IRPrev g old)"
proof -
  let ?b = "gen_basic_blocks g ! i"
  have "renamed old new = (\<lambda>x. if x = old then new else x)" by (auto simp: renamed_def)
  note effect = BasicBlockReplaceInstruction_effect [OF assms(1,3-6) refl, unfolded this]
  show ?thesis
  proof (cases "length is > 1")
    case True
    note b = block_skips_many [OF assms(2,7,8) True]
    show ?thesis
      using effect [OF b(2,3)] b(1) block_without_holds [OF assms(2,7,8)] True by fastforce
  next
    case False
    then have "is = [old]" using assms(8) by (cases "is") auto
    then have b: "block_holds g ?b [old]" using assms(7) by simp
    show ?thesis
      using effect block_skips_one [OF assms(2) b] False by fastforce
  qed
qed

theorem BasicBlockReplaceInstruction_segment_witness:
  "\<exists>g'. BasicBlockReplaceInstruction 1 5 6 demo_gen = Some g' \<and> gen_code g' = [6, 4] \<and>
    bb_code (gen_basic_blocks g' ! 1) = 0 \<and> bb_end_code (gen_basic_blocks g' ! 1) = 4"
proof -
  have h: "block_holds demo_gen (gen_basic_blocks demo_gen ! 1) [5]"
    by (auto simp: block_holds_def demo_gen_def demo_block_def NewBasicBlock_def intro: exI [of _ "[6, 4]"])
  have p: "graph_ok (gen_nodes demo_gen)" "code_ok demo_gen" "gen_nodes demo_gen 5 \<noteq> None"
    "gen_nodes demo_gen 6 \<noteq> None" "(5::nat) \<noteq> 6" "1 < length (gen_basic_blocks demo_gen)"
    "(5::nat) \<in> set [5]"
    using demo_graph by (simp_all add: demo_gen_def code_ok_def demo_store_def)
  have n: "IRNext demo_gen 5 = 0" "IRPrev demo_gen 5 = 4" "remove1 5 (gen_code demo_gen) = [6, 4]"
    by (simp_all add: IRNext_def IRPrev_def demo_gen_def)
  show ?thesis
    using BasicBlockReplaceInstruction_segment [OF p(1-6) h p(7)] by (auto simp: n)
qed

end
