(* ===== verification/Sccp.thy ===== *)
theory Sccp
  imports IrGraph "HOL-Library.Signed_Division"
begin

text \<open>
  Sparse conditional constant propagation (\<open>optimization/sccp.c\<close>): the lattice of values,
  the evaluation of instructions over it and the iteration to a fixed point.  An
  \<open>int64_t\<close> is its 64-bit word, read with \<open>sint\<close> where the code compares or divides it as a
  signed number.
\<close>

section \<open>State\<close>

datatype sccp_value = SCCPUndefined | SCCPConstant u64 | SCCPOverdefined

record sccp_context =
  sc_values :: "sccp_value list"
  sc_block_count :: nat
  sc_executable_blocks :: bitset
  sc_executable_edges :: bitset
  sc_changed :: bool

section \<open>Symbols\<close>

definition VariableSymbol :: "ir_node \<Rightarrow> symbol_ref" where
  "VariableSymbol node =
     (if ir_opcode node \<in> set [IR_localvar, IR_argument, IR_tempvar, IR_staticvar, IR_externvar,
                               IR_ssavar, IR_phi]
      then ir_symbol_ref node else 0)"

definition STO_static :: u8 where "STO_static = 2"

definition StorageIs :: "u8 \<Rightarrow> u8 \<Rightarrow> bool" where
  "StorageIs storage v \<longleftrightarrow> Bit_Operations.and storage v \<noteq> 0"

definition IsSafeSSASymbol :: "generator \<Rightarrow> symbol_ref \<Rightarrow> bool" where
  "IsSafeSSASymbol g symbol \<longleftrightarrow>
     symbol \<noteq> 0 \<and>
     (let s = gen_symbols g symbol
      in \<not> TypeIsArray (sym_type s) \<and> \<not> sym_address_taken s \<and>
         (sym_is_argument s \<or> sym_is_temp s \<or>
          (sym_is_local s \<and> \<not> StorageIs (sym_storage s) STO_static)))"

section \<open>Values\<close>

text \<open>
  Masking to \<open>bits\<close> bits and extending the sign: the four lines that \<open>TypedConstantValue\<close>,
  \<open>TruncateLoad\<close>, \<open>NormalizeIntegerValue\<close> and the sign extension share.
\<close>

definition mask_and_extend :: "nat \<Rightarrow> bool \<Rightarrow> u64 \<Rightarrow> u64" where
  "mask_and_extend bits sign_extend v =
     (let m = push_bit bits 1 - 1;
          masked = Bit_Operations.and v m
      in if sign_extend \<and> Bit_Operations.and masked (push_bit (bits - 1) 1) \<noteq> 0
         then Bit_Operations.or masked (Bit_Operations.not m) else masked)"

definition TypedConstantValue :: "bool \<Rightarrow> type_record option \<Rightarrow> u64 \<Rightarrow> sccp_value" where
  "TypedConstantValue pcs ty v =
     (case ty of
        None \<Rightarrow> SCCPConstant v
      | Some t \<Rightarrow>
          (if \<not> TypeIsIntegral ty \<or> ty_size t \<le> 0 \<or> ty_size t \<ge> 8 then SCCPConstant v
           else SCCPConstant (mask_and_extend (nat (ty_size t * 8)) (\<not> TypeIsUnsigned pcs ty) v)))"

definition ValueOf :: "generator \<Rightarrow> sccp_context \<Rightarrow> node_ref \<Rightarrow> sccp_value" where
  "ValueOf g c node =
     (if node = 0 then SCCPOverdefined
      else let i = ir_id (node_at (gen_nodes g) node)
           in if i < 0 \<or> nat i \<ge> length (sc_values c) then SCCPOverdefined
              else sc_values c ! nat i)"

definition UpdateValue :: "generator \<Rightarrow> node_ref \<Rightarrow> sccp_value \<Rightarrow> sccp_context \<Rightarrow> sccp_context" where
  "UpdateValue g node incoming c =
     (if node = 0 \<or> incoming = SCCPUndefined then c
      else let i = ir_id (node_at (gen_nodes g) node)
           in if i < 0 \<or> nat i \<ge> length (sc_values c) then c
              else case sc_values c ! nat i of
                     SCCPOverdefined \<Rightarrow> c
                   | SCCPUndefined \<Rightarrow>
                       c\<lparr>sc_values := (sc_values c)[nat i := incoming], sc_changed := True\<rparr>
                   | SCCPConstant v \<Rightarrow>
                       (if incoming = SCCPOverdefined \<or> incoming \<noteq> SCCPConstant v
                        then c\<lparr>sc_values := (sc_values c)[nat i := SCCPOverdefined], sc_changed := True\<rparr>
                        else c))"

section \<open>Edges\<close>

definition EdgeIndex :: "sccp_context \<Rightarrow> nat \<Rightarrow> nat \<Rightarrow> nat" where
  "EdgeIndex c from_id to_id = from_id * sc_block_count c + to_id"

definition EdgeIsExecutable :: "sccp_context \<Rightarrow> nat \<Rightarrow> nat \<Rightarrow> bool" where
  "EdgeIsExecutable c from_id to_id \<longleftrightarrow>
     BitSetContains (sc_executable_edges c) (EdgeIndex c from_id to_id)"

definition MarkEdgeExecutable :: "nat \<Rightarrow> nat \<Rightarrow> sccp_context \<Rightarrow> sccp_context" where
  "MarkEdgeExecutable from_id to_id c =
     (let edge = EdgeIndex c from_id to_id
      in if \<not> BitSetContains (sc_executable_edges c) edge
         then c\<lparr>sc_executable_edges := BitSetInsert (sc_executable_edges c) edge,
                sc_executable_blocks := BitSetInsert (sc_executable_blocks c) to_id,
                sc_changed := True\<rparr>
         else c)"

section \<open>Phi functions\<close>

definition MergeValue :: "sccp_value \<Rightarrow> sccp_value \<Rightarrow> sccp_value" where
  "MergeValue lhs rhs =
     (if lhs = SCCPUndefined then rhs
      else if rhs = SCCPUndefined then lhs
      else if lhs = SCCPOverdefined \<or> rhs = SCCPOverdefined \<or> lhs \<noteq> rhs then SCCPOverdefined
      else lhs)"

text \<open>The loop over the predecessors, with the inputs of the phi beside them.\<close>

fun phi_loop :: "generator \<Rightarrow> sccp_context \<Rightarrow> nat \<Rightarrow> sccp_value \<Rightarrow> (nat \<times> node_ref) list \<Rightarrow> sccp_value" where
  "phi_loop g c block result [] = result"
| "phi_loop g c block result ((predecessor, input) # rest) =
     (if \<not> EdgeIsExecutable c predecessor block then phi_loop g c block result rest
      else let result1 = MergeValue result (ValueOf g c input)
           in if result1 = SCCPOverdefined then result1 else phi_loop g c block result1 rest)"

definition block_at :: "generator \<Rightarrow> nat \<Rightarrow> basic_block" where
  "block_at g i = gen_basic_blocks g ! i"

definition EvaluatePhi :: "generator \<Rightarrow> sccp_context \<Rightarrow> ir_node \<Rightarrow> sccp_value" where
  "EvaluatePhi g c phi =
     (let block = block_at g (ir_block phi)
      in if ir_inputs phi = [] \<or> length (ir_inputs phi) \<noteq> length (bb_in_edges block)
         then SCCPOverdefined
         else phi_loop g c (bb_id block) SCCPUndefined (zip (bb_in_edges block) (ir_inputs phi)))"

section \<open>Loads and stores\<close>

definition IsIntegerStore :: "ir_node \<Rightarrow> bool" where
  "IsIntegerStore inst \<longleftrightarrow>
     ir_opcode inst \<in> set [IR_store8, IR_store16, IR_store32, IR_store64, IR_storea]"

definition IsIntegerLoad :: "ir_node \<Rightarrow> bool" where
  "IsIntegerLoad inst \<longleftrightarrow>
     ir_opcode inst \<in> set [IR_load8, IR_load16, IR_load32, IR_load64, IR_loadu8, IR_loadu16,
                           IR_loadu32, IR_loada]"

definition TruncateLoad :: "ir_node \<Rightarrow> sccp_value \<Rightarrow> sccp_value" where
  "TruncateLoad inst value =
     (case value of
        SCCPConstant v \<Rightarrow>
          (if ir_opcode inst = IR_load8 then SCCPConstant (mask_and_extend 8 True v)
           else if ir_opcode inst = IR_load16 then SCCPConstant (mask_and_extend 16 True v)
           else if ir_opcode inst = IR_load32 then SCCPConstant (mask_and_extend 32 True v)
           else if ir_opcode inst = IR_loadu8 then SCCPConstant (mask_and_extend 8 False v)
           else if ir_opcode inst = IR_loadu16 then SCCPConstant (mask_and_extend 16 False v)
           else if ir_opcode inst = IR_loadu32 then SCCPConstant (mask_and_extend 32 False v)
           else value)
      | _ \<Rightarrow> value)"

definition NormalizeIntegerValue :: "bool \<Rightarrow> u64 \<Rightarrow> type_record option \<Rightarrow> u64" where
  "NormalizeIntegerValue pcs v ty =
     (case ty of
        None \<Rightarrow> v
      | Some t \<Rightarrow>
          (if \<not> TypeIsIntegral ty then v
           else let bits = (if TypeIsBitInt ty then ty_bit_width t else ty_size t * 8)
                in if bits \<le> 0 \<or> bits \<ge> 64 then v
                   else mask_and_extend (nat bits) (\<not> TypeIsUnsigned pcs ty) v))"

section \<open>Expressions\<close>

definition ReadOperands :: "generator \<Rightarrow> sccp_context \<Rightarrow> ir_node \<Rightarrow> (sccp_value \<times> sccp_value) option" where
  "ReadOperands g c inst =
     (if ir_inputs inst = [] then None
      else Some (ValueOf g c (ir_inputs inst ! 0),
                 if length (ir_inputs inst) > 1 then ValueOf g c (ir_inputs inst ! 1) else SCCPUndefined))"

definition HasVariableOperand :: "generator \<Rightarrow> ir_node \<Rightarrow> bool" where
  "HasVariableOperand g inst \<longleftrightarrow>
     list_ex (\<lambda>input. input \<noteq> 0 \<and> IRIsVariable (node_at (gen_nodes g) input)) (ir_inputs inst)"

definition is_unary :: "ir_node \<Rightarrow> bool" where
  "is_unary inst \<longleftrightarrow> ir_opcode inst \<in> set [IR_negi, IR_onescomp, IR_noti, IR_movi, IR_mova, IR_clzi,
                                          IR_ctzi, IR_popcounti]"

text \<open>C's division of \<open>int64_t\<close>, which truncates; the callers rule out 0 and overflow.\<close>

definition s_div :: "u64 \<Rightarrow> u64 \<Rightarrow> u64" where
  "s_div a b = word_of_int (sint a sdiv sint b)"

definition s_mod :: "u64 \<Rightarrow> u64 \<Rightarrow> u64" where
  "s_mod a b = word_of_int (sint a smod sint b)"

definition INT64_MIN :: u64 where "INT64_MIN = push_bit 63 1"

text \<open>The mask of the low \<open>width\<close> bits.\<close>

definition width_mask :: "int \<Rightarrow> u64" where
  "width_mask width = (if width \<ge> 64 then - 1 else push_bit (nat width) 1 - 1)"

definition bad_shift :: "int \<Rightarrow> u64 \<Rightarrow> bool" where
  "bad_shift width rhs \<longleftrightarrow> sint rhs < 0 \<or> sint rhs \<ge> width \<or> sint rhs \<ge> 64"

text \<open>
  The cases of the switch, in groups.  All take the instruction, whose type the result has,
  the two operands and the width of the operation.
\<close>

definition fold_division :: "bool \<Rightarrow> ir_node \<Rightarrow> bool \<Rightarrow> u64 \<Rightarrow> u64 \<Rightarrow> sccp_value" where
  "fold_division pcs inst is_unsigned lhs rhs =
     (if rhs = 0 \<or> (\<not> is_unsigned \<and> lhs = INT64_MIN \<and> rhs = - 1) then SCCPOverdefined
      else if ir_opcode inst = IR_divi
      then TypedConstantValue pcs (ir_type inst) (if is_unsigned then lhs div rhs else s_div lhs rhs)
      else TypedConstantValue pcs (ir_type inst) (if is_unsigned then lhs mod rhs else s_mod lhs rhs))"

definition fold_shift :: "bool \<Rightarrow> ir_node \<Rightarrow> int \<Rightarrow> u64 \<Rightarrow> u64 \<Rightarrow> sccp_value" where
  "fold_shift pcs inst width lhs rhs =
     (if bad_shift width rhs then SCCPOverdefined
      else if ir_opcode inst = IR_lsli
      then TypedConstantValue pcs (ir_type inst) (push_bit (unat rhs) lhs)
      else if ir_opcode inst = IR_lsri
      then TypedConstantValue pcs (ir_type inst) (drop_bit (unat rhs) lhs)
      else TypedConstantValue pcs (ir_type inst) (signed_drop_bit (unat rhs) lhs))"

text \<open>
  The shift counts below are less than 64 when the width is at most 64; wider operations are
  undefined in C, and shift everything out here.
\<close>

definition fold_rotate :: "bool \<Rightarrow> ir_node \<Rightarrow> int \<Rightarrow> u64 \<Rightarrow> u64 \<Rightarrow> sccp_value" where
  "fold_rotate pcs inst width lhs rhs =
     (let amount0 = sint rhs smod width;
          amount = (if amount0 < 0 then amount0 + width else amount0);
          value = Bit_Operations.and lhs (width_mask width);
          rotated = (if ir_opcode inst = IR_rotli
                     then Bit_Operations.or (push_bit (nat amount) value) (drop_bit (nat (width - amount)) value)
                     else Bit_Operations.or (drop_bit (nat amount) value) (push_bit (nat (width - amount)) value))
      in if amount = 0 then TypedConstantValue pcs (ir_type inst) value
         else TypedConstantValue pcs (ir_type inst) (Bit_Operations.and rotated (width_mask width)))"

fun clz_loop :: "u64 \<Rightarrow> nat \<Rightarrow> nat" where
  "clz_loop value 0 = 0"
| "clz_loop value (Suc k) = (if Bit_Operations.and value (push_bit k 1) = 0 then clz_loop value k + 1 else 0)"

function ctz_loop :: "u64 \<Rightarrow> nat \<Rightarrow> nat \<Rightarrow> nat" where
  "ctz_loop value width count =
     (if count < width \<and> Bit_Operations.and value (push_bit count 1) = 0
      then ctz_loop value width (count + 1) else count)"
  by pat_completeness auto
termination by (relation "measure (\<lambda>(value, width, count). width - count)") auto

declare ctz_loop.simps [simp del]

lemma and_pred_less:
  assumes "v \<noteq> 0"
  shows "Bit_Operations.and v (v - 1) < (v :: u64)"
proof -
  have "uint (Bit_Operations.and v (v - 1)) \<le> uint (v - 1)"
    unfolding uint_and by (rule AND_upper2) simp
  moreover have "unat (v - 1) < unat v"
    using unat_minus_one [OF assms] assms by (simp add: unat_gt_0)
  ultimately show ?thesis
    by (simp add: word_less_def) (metis order_le_less_trans unat_eq_nat_uint uint_nat of_nat_less_iff)
qed

text \<open>Clearing the lowest set bit until none is left.\<close>

function popcount_loop :: "u64 \<Rightarrow> nat \<Rightarrow> nat" where
  "popcount_loop v count =
     (if v \<noteq> 0 then popcount_loop (Bit_Operations.and v (v - 1)) (count + 1) else count)"
  by pat_completeness auto
termination
  by (relation "measure (\<lambda>(v, count). unat v)") (auto simp: and_pred_less simp flip: word_less_nat_alt)

declare popcount_loop.simps [simp del]

definition fold_count :: "bool \<Rightarrow> ir_node \<Rightarrow> int \<Rightarrow> u64 \<Rightarrow> sccp_value" where
  "fold_count pcs inst width lhs =
     (let value = Bit_Operations.and lhs (width_mask width)
      in TypedConstantValue pcs (ir_type inst)
           (if ir_opcode inst = IR_clzi then of_nat (clz_loop value (nat width))
            else if ir_opcode inst = IR_ctzi then of_nat (ctz_loop value (nat width) 0)
            else of_nat (popcount_loop value 0)))"

text \<open>The number of bits an extension keeps when it changes the size of its operand.\<close>

definition extension_bits :: "type_record option \<Rightarrow> type_record option \<Rightarrow> int option" where
  "extension_bits lhs_ty ty =
     (case (lhs_ty, ty) of
        (Some l, Some t) \<Rightarrow>
          (if ty_size l \<noteq> ty_size t then Some ((if ty_size t < ty_size l then ty_size t else ty_size l) * 8)
           else None)
      | _ \<Rightarrow> None)"

definition fold_zeroextend :: "bool \<Rightarrow> ir_node \<Rightarrow> type_record option \<Rightarrow> u64 \<Rightarrow> u64 \<Rightarrow> sccp_value" where
  "fold_zeroextend pcs inst lhs_ty lhs rhs =
     (case extension_bits lhs_ty (ir_type inst) of
        Some bits \<Rightarrow> TypedConstantValue pcs (ir_type inst) (Bit_Operations.and lhs (width_mask bits))
      | None \<Rightarrow> TypedConstantValue pcs (ir_type inst) (Bit_Operations.and lhs rhs))"

definition fold_signextend :: "bool \<Rightarrow> ir_node \<Rightarrow> type_record option \<Rightarrow> u64 \<Rightarrow> u64 \<Rightarrow> sccp_value" where
  "fold_signextend pcs inst lhs_ty lhs rhs =
     (case extension_bits lhs_ty (ir_type inst) of
        Some bits \<Rightarrow>
          (if bits \<ge> 64 then SCCPConstant lhs
           else TypedConstantValue pcs (ir_type inst) (mask_and_extend (nat bits) True lhs))
      | None \<Rightarrow>
          (if sint rhs < 0 \<or> sint rhs \<ge> 64 then SCCPOverdefined
           else TypedConstantValue pcs (ir_type inst)
                  (signed_drop_bit (unat rhs) (push_bit (unat rhs) lhs))))"

definition of_flag :: "bool \<Rightarrow> sccp_value" where
  "of_flag b = SCCPConstant (if b then 1 else 0)"

definition fold_compare :: "ir_node \<Rightarrow> bool \<Rightarrow> u64 \<Rightarrow> u64 \<Rightarrow> sccp_value" where
  "fold_compare inst is_unsigned lhs rhs =
     (if ir_opcode inst \<in> set [IR_cmpeqi, IR_cmpeqa] then of_flag (lhs = rhs)
      else if ir_opcode inst \<in> set [IR_cmpnei, IR_cmpnea] then of_flag (lhs \<noteq> rhs)
      else if ir_opcode inst \<in> set [IR_cmplti, IR_cmplta]
      then of_flag (if is_unsigned then lhs < rhs else sint lhs < sint rhs)
      else if ir_opcode inst \<in> set [IR_cmplei, IR_cmplea]
      then of_flag (if is_unsigned then lhs \<le> rhs else sint lhs \<le> sint rhs)
      else if ir_opcode inst \<in> set [IR_cmpgti, IR_cmpgta]
      then of_flag (if is_unsigned then lhs > rhs else sint lhs > sint rhs)
      else of_flag (if is_unsigned then lhs \<ge> rhs else sint lhs \<ge> sint rhs))"

definition is_compare :: "ir_op \<Rightarrow> bool" where
  "is_compare opcode \<longleftrightarrow> opcode \<in> set
     [IR_cmpeqi, IR_cmpeqa, IR_cmpnei, IR_cmpnea, IR_cmplti, IR_cmplta, IR_cmplei, IR_cmplea,
      IR_cmpgti, IR_cmpgta, IR_cmpgei, IR_cmpgea]"

definition fold_integer :: "bool \<Rightarrow> ir_node \<Rightarrow> type_record option \<Rightarrow> int \<Rightarrow> bool \<Rightarrow> u64 \<Rightarrow> u64 \<Rightarrow> sccp_value" where
  "fold_integer pcs inst lhs_ty width is_unsigned lhs rhs =
     (let typed = TypedConstantValue pcs (ir_type inst)
      in if ir_opcode inst = IR_movi then typed lhs
         else if ir_opcode inst = IR_mova then SCCPConstant lhs
         else if ir_opcode inst = IR_addi then typed (lhs + rhs)
         else if ir_opcode inst = IR_adda then SCCPConstant (lhs + rhs)
         else if ir_opcode inst = IR_subi then typed (lhs - rhs)
         else if ir_opcode inst = IR_suba then SCCPConstant (lhs - rhs)
         else if ir_opcode inst = IR_muli then typed (lhs * rhs)
         else if ir_opcode inst \<in> set [IR_divi, IR_modi] then fold_division pcs inst is_unsigned lhs rhs
         else if ir_opcode inst = IR_andi then typed (Bit_Operations.and lhs rhs)
         else if ir_opcode inst = IR_zeroextendi then fold_zeroextend pcs inst lhs_ty lhs rhs
         else if ir_opcode inst = IR_ori then typed (Bit_Operations.or lhs rhs)
         else if ir_opcode inst = IR_xori then typed (Bit_Operations.xor lhs rhs)
         else if ir_opcode inst \<in> set [IR_lsli, IR_lsri, IR_asri] then fold_shift pcs inst width lhs rhs
         else if ir_opcode inst \<in> set [IR_rotli, IR_rotri] then fold_rotate pcs inst width lhs rhs
         else if ir_opcode inst \<in> set [IR_clzi, IR_ctzi, IR_popcounti] then fold_count pcs inst width lhs
         else if ir_opcode inst = IR_signextendi then fold_signextend pcs inst lhs_ty lhs rhs
         else if is_compare (ir_opcode inst) then fold_compare inst is_unsigned lhs rhs
         else if ir_opcode inst = IR_negi then typed (0 - lhs)
         else if ir_opcode inst = IR_onescomp then typed (Bit_Operations.not lhs)
         else if ir_opcode inst = IR_noti then of_flag (lhs = 0)
         else SCCPOverdefined)"

definition operation_width :: "type_record option \<Rightarrow> type_record option \<Rightarrow> int" where
  "operation_width lhs_ty ty =
     (if lhs_ty \<noteq> None \<and> TypeIsBitInt lhs_ty then ty_bit_width (the lhs_ty)
      else case ty of
             Some t \<Rightarrow> if ty_size t > 0 then ty_size t * 8 else 64
           | None \<Rightarrow> 64)"

text \<open>The switch with the preparation of its operands: \<open>rhs\<close> is not read by unary operations.\<close>

definition fold_constants :: "generator \<Rightarrow> ir_node \<Rightarrow> u64 \<Rightarrow> u64 \<Rightarrow> sccp_value" where
  "fold_constants g inst lhs0 rhs0 =
     (let pcs = gen_plain_char_is_signed g;
          operand_type = (\<lambda>i. ir_type (node_at (gen_nodes g) (ir_inputs inst ! i)));
          lhs = NormalizeIntegerValue pcs lhs0 (operand_type 0);
          rhs = (if is_unary inst then rhs0 else NormalizeIntegerValue pcs rhs0 (operand_type 1));
          is_unsigned = (if IRIsComparison inst then IRComparisonIsUnsigned pcs (gen_nodes g) inst
                         else operand_type 0 \<noteq> None \<and> TypeIsUnsigned pcs (operand_type 0))
      in fold_integer pcs inst (operand_type 0) (operation_width (operand_type 0) (ir_type inst))
           is_unsigned lhs rhs)"

definition constant_of :: "sccp_value \<Rightarrow> u64" where
  "constant_of v = (case v of SCCPConstant c \<Rightarrow> c | _ \<Rightarrow> 0)"

definition EvaluateIntegerExpression :: "generator \<Rightarrow> sccp_context \<Rightarrow> ir_node \<Rightarrow> sccp_value" where
  "EvaluateIntegerExpression g c inst =
     (case ReadOperands g c inst of
        None \<Rightarrow> SCCPOverdefined
      | Some (lhs, rhs) \<Rightarrow>
          (if HasVariableOperand g inst then SCCPOverdefined
           else if lhs = SCCPOverdefined \<or> (\<not> is_unary inst \<and> rhs = SCCPOverdefined) then SCCPOverdefined
           else if lhs = SCCPUndefined \<or> (\<not> is_unary inst \<and> rhs = SCCPUndefined) then SCCPUndefined
           else fold_constants g inst (constant_of lhs) (constant_of rhs)))"

definition IsSupportedIntegerExpression :: "ir_node \<Rightarrow> bool" where
  "IsSupportedIntegerExpression inst \<longleftrightarrow> ir_opcode inst \<in> set
     [IR_movi, IR_mova, IR_addi, IR_adda, IR_subi, IR_suba, IR_muli, IR_divi, IR_modi, IR_andi,
      IR_ori, IR_xori, IR_lsli, IR_lsri, IR_asri, IR_rotli, IR_rotri, IR_clzi, IR_ctzi,
      IR_popcounti, IR_zeroextendi, IR_signextendi, IR_cmpeqi, IR_cmpeqa, IR_cmpnei, IR_cmpnea,
      IR_cmplti, IR_cmplta, IR_cmplei, IR_cmplea, IR_cmpgti, IR_cmpgta, IR_cmpgei, IR_cmpgea,
      IR_negi, IR_onescomp, IR_noti]"

section \<open>Instructions\<close>

definition EvaluateDefinition :: "generator \<Rightarrow> ir_node \<Rightarrow> sccp_context \<Rightarrow> sccp_context" where
  "EvaluateDefinition g inst c =
     (if \<not> IRIsVarDef inst \<or> ir_inputs inst = [] then c
      else let defined = ir_inputs inst ! 0;
               d = node_at (gen_nodes g) defined
           in if VariableSymbol d \<noteq> ir_var inst \<or> ir_opcode d \<noteq> IR_ssavar then c
              else if IsSafeSSASymbol g (ir_var inst) \<and> IsIntegerStore inst \<and>
                      length (ir_inputs inst) > 1 \<and> ir_value_state inst = ValueValid
              then UpdateValue g defined (ValueOf g c (ir_inputs inst ! 1)) c
              else UpdateValue g defined SCCPOverdefined c)"

definition EvaluateInstruction :: "generator \<Rightarrow> node_ref \<Rightarrow> sccp_context \<Rightarrow> sccp_context" where
  "EvaluateInstruction g r c =
     (let inst = node_at (gen_nodes g) r
      in if IRIsIntConst inst
         then UpdateValue g r (if ir_value_state inst = ValueValid then SCCPConstant (IRIntConstValue inst)
                               else SCCPOverdefined) c
         else if ir_opcode inst = IR_phi
         then UpdateValue g r (if ir_value_state inst = ValueValid then EvaluatePhi g c inst
                               else SCCPOverdefined) c
         else let c1 = EvaluateDefinition g inst c
              in if IRIsCall inst then UpdateValue g r SCCPOverdefined c1
                 else if IRIsStore inst
                 then (if ir_outputs inst \<noteq> [] then UpdateValue g r SCCPOverdefined c1 else c1)
                 else if ir_value_state inst \<noteq> ValueValid then UpdateValue g r SCCPOverdefined c1
                 else if ir_opcode inst = IR_ssavar \<or> IRIsBranch inst \<or> IRIsReturn inst \<or>
                         ir_opcode inst = IR_label \<or> ir_opcode inst = IR_enter \<or> ir_opcode inst = IR_leave
                 then c1
                 else if ir_dest inst \<noteq> 0 \<or> IRHasSideEffects (gen_nodes g) inst
                 then UpdateValue g r SCCPOverdefined c1
                 else if IsIntegerLoad inst
                 then (if ir_inputs inst = [] \<or>
                          \<not> IsSafeSSASymbol g (VariableSymbol (node_at (gen_nodes g) (ir_inputs inst ! 0)))
                       then UpdateValue g r SCCPOverdefined c1
                       else UpdateValue g r (TruncateLoad inst (ValueOf g c1 (ir_inputs inst ! 0))) c1)
                 else if IsSupportedIntegerExpression inst
                 then UpdateValue g r (EvaluateIntegerExpression g c1 inst) c1
                 else if IRIsVariable inst
                 then (if ir_opcode inst \<noteq> IR_ssavar \<and> ir_opcode inst \<noteq> IR_phi
                       then UpdateValue g r SCCPOverdefined c1 else c1)
                 else if IRIsExpression inst then UpdateValue g r SCCPOverdefined c1
                 else c1)"

section \<open>Blocks\<close>

definition mark_all :: "nat \<Rightarrow> nat list \<Rightarrow> sccp_context \<Rightarrow> sccp_context" where
  "mark_all from_id successors c = fold (MarkEdgeExecutable from_id) successors c"

text \<open>Whether a conditional branch on a constant is taken.\<close>

definition branch_taken :: "ir_node \<Rightarrow> u64 \<Rightarrow> bool" where
  "branch_taken terminator condition \<longleftrightarrow>
     (if ir_opcode terminator = IR_btrue then condition \<noteq> 0 else condition = 0)"

definition MarkSuccessors :: "generator \<Rightarrow> basic_block \<Rightarrow> sccp_context \<Rightarrow> sccp_context" where
  "MarkSuccessors g block c =
     (if bb_out_edges block = [] \<or> bb_end_code block = 0 then c
      else let terminator = node_at (gen_nodes g) (bb_end_code block)
           in if IRIsConditionalBranch terminator \<and> length (ir_inputs terminator) \<ge> 2
              then (if length (bb_out_edges block) = 1
                    then MarkEdgeExecutable (bb_id block) (bb_out_edges block ! 0) c
                    else case ValueOf g c (ir_inputs terminator ! 0) of
                           SCCPUndefined \<Rightarrow> c
                         | SCCPOverdefined \<Rightarrow> mark_all (bb_id block) (bb_out_edges block) c
                         | SCCPConstant condition \<Rightarrow>
                             (let taken = bb_id (block_at g (ir_block (node_at (gen_nodes g) (ir_inputs terminator ! 1))));
                                  take = branch_taken terminator condition
                              in mark_all (bb_id block)
                                   (filter (\<lambda>successor. (successor = taken) = take) (bb_out_edges block)) c))
              else mark_all (bb_id block) (bb_out_edges block) c)"

text \<open>
  The loop from \<open>BasicBlockBegin\<close> to \<open>BasicBlockEnd\<close> along \<open>IRNext\<close>: the instructions from
  the first of the block up to its last.
\<close>

fun up_to :: "node_ref \<Rightarrow> node_ref list \<Rightarrow> node_ref list" where
  "up_to e [] = []"
| "up_to e (x # xs) = (if x = e then [x] else x # up_to e xs)"

definition block_insts :: "generator \<Rightarrow> basic_block \<Rightarrow> node_ref list" where
  "block_insts g b =
     (if BasicBlockIsEmpty b then []
      else up_to (bb_end_code b) (dropWhile (\<lambda>r. r \<noteq> bb_code b) (gen_code g)))"

definition InitializeValues :: "generator \<Rightarrow> sccp_context \<Rightarrow> sccp_context" where
  "InitializeValues g c =
     fold (\<lambda>r c.
         let inst = node_at (gen_nodes g) r; i = ir_id inst
         in if i < 0 \<or> nat i \<ge> length (sc_values c) then c
            else if IRIsIntConst inst
            then c\<lparr>sc_values := (sc_values c)[nat i := SCCPConstant (IRIntConstValue inst)]\<rparr>
            else if IRIsVariable inst \<and> ir_opcode inst \<noteq> IR_ssavar \<and> ir_opcode inst \<noteq> IR_phi
            then c\<lparr>sc_values := (sc_values c)[nat i := SCCPOverdefined]\<rparr>
            else c) (gen_code g) c"

definition analyze_block :: "generator \<Rightarrow> basic_block \<Rightarrow> sccp_context \<Rightarrow> sccp_context" where
  "analyze_block g block c =
     (if \<not> BitSetContains (sc_executable_blocks c) (bb_id block) then c
      else MarkSuccessors g block (fold (EvaluateInstruction g) (block_insts g block) c))"

definition analyze_round :: "generator \<Rightarrow> sccp_context \<Rightarrow> sccp_context" where
  "analyze_round g c = fold (analyze_block g) (gen_basic_blocks g) (c\<lparr>sc_changed := False\<rparr>)"

text \<open>The outer loop, which ends with the first round that changes nothing.\<close>

partial_function (option) analyze_loop :: "generator \<Rightarrow> sccp_context \<Rightarrow> sccp_context option" where
  "analyze_loop g c =
     (let c1 = analyze_round g c
      in if sc_changed c1 then analyze_loop g c1 else Some c1)"

definition Analyze :: "generator \<Rightarrow> sccp_context \<Rightarrow> sccp_context option" where
  "Analyze g c =
     analyze_loop g (c\<lparr>sc_executable_blocks :=
       BitSetInsert (sc_executable_blocks c) (bb_id (block_at g (gen_entry_block g)))\<rparr>)"

text \<open>The context \<open>SparseConditionalConstantPropagation\<close> sets up and what the analysis makes of it.\<close>

definition max_node_id :: "generator \<Rightarrow> nat" where
  "max_node_id g =
     fold (\<lambda>r m. let i = ir_id (node_at (gen_nodes g) r) in if i \<ge> 0 \<and> nat i > m then nat i else m)
       (gen_code g) 0"

definition sccp_start :: "generator \<Rightarrow> sccp_context" where
  "sccp_start g =
     \<lparr>sc_values = replicate (max_node_id g + 1) SCCPUndefined,
      sc_block_count = length (gen_basic_blocks g),
      sc_executable_blocks = BitSetInit, sc_executable_edges = BitSetInit, sc_changed = False\<rparr>"

definition sccp_analysis :: "generator \<Rightarrow> sccp_context option" where
  "sccp_analysis g = Analyze g (InitializeValues g (sccp_start g))"

definition IsRewritableConstant :: "generator \<Rightarrow> ir_node \<Rightarrow> bool" where
  "IsRewritableConstant g inst \<longleftrightarrow>
     \<not> (ir_value_state inst \<noteq> ValueValid \<or> IRIsIntConst inst \<or> ir_opcode inst = IR_ssavar \<or>
        (IRIsVariable inst \<and> ir_opcode inst \<noteq> IR_phi) \<or> IRIsBranch inst \<or> IRIsReturn inst \<or>
        IRIsStore inst \<or> IRIsCall inst \<or> ir_dest inst \<noteq> 0 \<or> IRHasSideEffects (gen_nodes g) inst \<or>
        ir_type inst = None \<or> TypeIsVoid (ir_type inst) \<or> ir_outputs inst = [])"

end
