(* ===== verification/SccpSpec.thy ===== *)
theory SccpSpec
  imports Sccp CBitSetSpec
begin

text \<open>
  The lattice of the constant propagation and the growth of its state: every step moves
  values up and marks more edges, which bounds the number of rounds and makes the last one
  a fixed point.
\<close>

section \<open>The lattice\<close>

instantiation sccp_value :: "{semilattice_sup, order_bot, order_top}"
begin

definition less_eq_sccp_value :: "sccp_value \<Rightarrow> sccp_value \<Rightarrow> bool" where
  "v \<le> w \<longleftrightarrow> v = SCCPUndefined \<or> w = SCCPOverdefined \<or> v = w"

definition less_sccp_value :: "sccp_value \<Rightarrow> sccp_value \<Rightarrow> bool" where
  "v < w \<longleftrightarrow> v \<le> w \<and> v \<noteq> (w :: sccp_value)"

definition sup_sccp_value :: "sccp_value \<Rightarrow> sccp_value \<Rightarrow> sccp_value" where
  "sup_sccp_value = MergeValue"

definition bot_sccp_value :: sccp_value where "bot_sccp_value = SCCPUndefined"

definition top_sccp_value :: sccp_value where "top_sccp_value = SCCPOverdefined"

instance
  by standard
    (auto simp: less_eq_sccp_value_def less_sccp_value_def sup_sccp_value_def MergeValue_def
      bot_sccp_value_def top_sccp_value_def)

end

definition height :: "sccp_value \<Rightarrow> nat" where
  "height v = (case v of SCCPUndefined \<Rightarrow> 0 | SCCPConstant _ \<Rightarrow> 1 | SCCPOverdefined \<Rightarrow> 2)"

lemma height_le: "height v \<le> 2"
  by (simp add: height_def split: sccp_value.splits)

lemma height_strict: "v < w \<Longrightarrow> height v < height w"
  by (auto simp: less_sccp_value_def less_eq_sccp_value_def height_def split: sccp_value.splits)

lemma height_mono: "v \<le> w \<Longrightarrow> height v \<le> height w"
  by (auto simp: less_eq_sccp_value_def height_def split: sccp_value.splits)

section \<open>Iterating inflationary steps\<close>

text \<open>
  Steps that only move a state up in an order: iterating them moves it up, and when a whole
  pass leaves the state as it was, so does every single step.
\<close>

locale inflationary =
  fixes ok :: "'s \<Rightarrow> bool"
    and le :: "'s \<Rightarrow> 's \<Rightarrow> bool"
    and dom :: "'a \<Rightarrow> bool"
    and step :: "'a \<Rightarrow> 's \<Rightarrow> 's"
  assumes le_refl: "le s s"
    and le_trans: "le s t \<Longrightarrow> le t u \<Longrightarrow> le s u"
    and le_antisym: "le s t \<Longrightarrow> le t s \<Longrightarrow> s = t"
    and step: "dom x \<Longrightarrow> ok s \<Longrightarrow> ok (step x s) \<and> le s (step x s)"
begin

lemma fold_step:
  "\<forall>x \<in> set xs. dom x \<Longrightarrow> ok s \<Longrightarrow> ok (fold step xs s) \<and> le s (fold step xs s)"
proof (induction xs arbitrary: s)
  case (Cons x xs)
  then have "ok (step x s) \<and> le s (step x s)" using step by simp
  then show ?case using Cons le_trans by (metis fold_simps(2) list.set_intros(2))
qed (simp add: le_refl)

lemma fold_fixed:
  "\<forall>x \<in> set xs. dom x \<Longrightarrow> ok s \<Longrightarrow> fold step xs s = s \<Longrightarrow> x \<in> set xs \<Longrightarrow> step x s = s"
proof (induction xs)
  case (Cons y xs)
  then have y: "ok (step y s)" "le s (step y s)" using step by simp_all
  then have "le (step y s) s" using Cons.prems fold_step [of xs "step y s"] by simp
  then have fixed: "step y s = s" using y(2) le_antisym by blast
  then show ?case using Cons by auto
qed simp

end

section \<open>Growth of a context\<close>

definition sccp_ok :: "sccp_context \<Rightarrow> bool" where
  "sccp_ok c \<longleftrightarrow> bs_ok (sc_executable_blocks c) \<and> bs_ok (sc_executable_edges c)"

abbreviation exec_blocks :: "sccp_context \<Rightarrow> nat set" where
  "exec_blocks c \<equiv> bs_set (sc_executable_blocks c)"

abbreviation exec_edges :: "sccp_context \<Rightarrow> nat set" where
  "exec_edges c \<equiv> bs_set (sc_executable_edges c)"

text \<open>The indexes of the edges of the control-flow graph.\<close>

definition cfg_edges :: "generator \<Rightarrow> nat \<Rightarrow> nat set" where
  "cfg_edges g n = (\<Union>b \<in> set (gen_basic_blocks g). (\<lambda>s. bb_id b * n + s) ` set (bb_out_edges b))"

lemma finite_cfg_edges [simp]: "finite (cfg_edges g n)"
  by (simp add: cfg_edges_def)

definition values_le :: "sccp_value list \<Rightarrow> sccp_value list \<Rightarrow> bool" where
  "values_le vs ws \<longleftrightarrow> list_all2 (\<le>) vs ws"

lemma values_le_refl [simp]: "values_le vs vs"
  by (simp add: values_le_def list.rel_refl)

lemma values_le_trans: "values_le us vs \<Longrightarrow> values_le vs ws \<Longrightarrow> values_le us ws"
  unfolding values_le_def by (rule list_all2_trans [of "(\<le>)" "(\<le>)"]) auto

lemma values_le_antisym: "values_le us vs \<Longrightarrow> values_le vs us \<Longrightarrow> us = vs"
  unfolding values_le_def by (rule list_all2_antisym [of "(\<le>)" "(\<le>)"]) auto

lemma values_le_length: "values_le us vs \<Longrightarrow> length us = length vs"
  by (simp add: values_le_def list_all2_lengthD)

lemma values_le_nth: "values_le us vs \<Longrightarrow> i < length us \<Longrightarrow> us ! i \<le> vs ! i"
  by (simp add: values_le_def list_all2_nthD)

lemma values_le_update: "i < length vs \<Longrightarrow> vs ! i \<le> w \<Longrightarrow> values_le vs (vs[i := w])"
  by (auto simp: values_le_def list_all2_conv_all_nth nth_list_update)

definition grows :: "generator \<Rightarrow> sccp_context \<Rightarrow> sccp_context \<Rightarrow> bool" where
  "grows g c c' \<longleftrightarrow>
     sc_block_count c' = sc_block_count c \<and> values_le (sc_values c) (sc_values c') \<and>
     exec_blocks c \<subseteq> exec_blocks c' \<and> exec_edges c \<subseteq> exec_edges c' \<and>
     exec_edges c' \<subseteq> exec_edges c \<union> cfg_edges g (sc_block_count c) \<and>
     (c' = c \<or> sc_changed c' \<and> (sc_values c' \<noteq> sc_values c \<or> exec_edges c' \<noteq> exec_edges c))"

lemma grows_refl: "grows g c c"
  by (simp add: grows_def)

lemma grows_same:
  "grows g c d \<Longrightarrow> sc_values d = sc_values c \<Longrightarrow> exec_edges d = exec_edges c \<Longrightarrow> d = c"
  by (simp add: grows_def)

lemma grows_antisym:
  assumes "grows g c d" "grows g d c"
  shows "c = d"
proof -
  have "sc_values c = sc_values d" using assms values_le_antisym by (auto simp: grows_def)
  moreover have "exec_edges c = exec_edges d" using assms by (auto simp: grows_def)
  ultimately show ?thesis using assms(1) by (auto simp: grows_def)
qed

lemma grows_trans:
  assumes "grows g c d" "grows g d e"
  shows "grows g c e"
proof (cases "d = c \<or> e = d")
  case False
  then have e: "sc_changed e" "sc_values e \<noteq> sc_values d \<or> exec_edges e \<noteq> exec_edges d"
    using assms(2) by (auto simp: grows_def)
  have v: "values_le (sc_values c) (sc_values d)" "values_le (sc_values d) (sc_values e)"
    "exec_edges c \<subseteq> exec_edges d" "exec_edges d \<subseteq> exec_edges e"
    using assms by (auto simp: grows_def)
  have "sc_values e \<noteq> sc_values c \<or> exec_edges e \<noteq> exec_edges c"
    using e(2) v values_le_antisym by fastforce
  then show ?thesis
    using assms e(1) values_le_trans [OF v(1,2)] by (auto simp: grows_def)
qed (use assms in auto)

subsection \<open>Single steps\<close>

text \<open>The value of a node is joined with what comes in.\<close>

definition in_range :: "generator \<Rightarrow> sccp_context \<Rightarrow> node_ref \<Rightarrow> bool" where
  "in_range g c r \<longleftrightarrow> r \<noteq> 0 \<and> ir_id (node_at (gen_nodes g) r) \<ge> 0 \<and>
     nat (ir_id (node_at (gen_nodes g) r)) < length (sc_values c)"

abbreviation slot :: "generator \<Rightarrow> node_ref \<Rightarrow> nat" where
  "slot g r \<equiv> nat (ir_id (node_at (gen_nodes g) r))"

lemma ValueOf_slot:
  "ValueOf g c r = (if in_range g c r then sc_values c ! slot g r else SCCPOverdefined)"
  by (auto simp: ValueOf_def in_range_def Let_def)

lemma UpdateValue_join:
  "UpdateValue g r v c =
     (if in_range g c r \<and> \<not> v \<le> sc_values c ! slot g r
      then c\<lparr>sc_values := (sc_values c)[slot g r := sup (sc_values c ! slot g r) v], sc_changed := True\<rparr>
      else c)"
proof (cases "in_range g c r")
  case False
  then show ?thesis by (auto simp: UpdateValue_def in_range_def Let_def)
next
  case True
  then have "r \<noteq> 0" "\<not> (ir_id (node_at (gen_nodes g) r) < 0 \<or> length (sc_values c) \<le> slot g r)"
    by (auto simp: in_range_def)
  then have "UpdateValue g r v c =
     (if v = SCCPUndefined then c
      else case sc_values c ! slot g r of
             SCCPOverdefined \<Rightarrow> c
           | SCCPUndefined \<Rightarrow> c\<lparr>sc_values := (sc_values c)[slot g r := v], sc_changed := True\<rparr>
           | SCCPConstant w \<Rightarrow>
               (if v = SCCPOverdefined \<or> v \<noteq> SCCPConstant w
                then c\<lparr>sc_values := (sc_values c)[slot g r := SCCPOverdefined], sc_changed := True\<rparr>
                else c))"
    by (simp add: UpdateValue_def Let_def)
  then show ?thesis
    using True
    by (cases "sc_values c ! slot g r"; cases v)
      (simp_all add: less_eq_sccp_value_def sup_sccp_value_def MergeValue_def)
qed

lemma UpdateValue_grows:
  assumes "sccp_ok c"
  shows "sccp_ok (UpdateValue g r v c) \<and> grows g c (UpdateValue g r v c)"
proof (cases "in_range g c r \<and> \<not> v \<le> sc_values c ! slot g r")
  case True
  let ?w = "sup (sc_values c ! slot g r) v"
  have i: "slot g r < length (sc_values c)" using True by (simp add: in_range_def)
  have "?w \<noteq> sc_values c ! slot g r" using True sup_ge2 by metis
  then have "(sc_values c)[slot g r := ?w] \<noteq> sc_values c" using i by (metis nth_list_update_eq)
  then show ?thesis
    using True assms i by (simp add: UpdateValue_join sccp_ok_def grows_def values_le_update)
qed (use assms in \<open>auto simp: UpdateValue_join grows_refl\<close>)

text \<open>A step that changes nothing found nothing new.\<close>

lemma UpdateValue_fixed:
  assumes "UpdateValue g r v c = c"
  shows "v \<le> ValueOf g c r"
proof (rule ccontr)
  assume n: "\<not> v \<le> ValueOf g c r"
  then have r: "in_range g c r" "\<not> v \<le> sc_values c ! slot g r"
    by (auto simp: ValueOf_slot less_eq_sccp_value_def split: if_splits)
  then have "sc_values c = (sc_values c)[slot g r := sup (sc_values c ! slot g r) v]"
    using arg_cong [OF assms, of sc_values] by (simp add: UpdateValue_join)
  then have "sup (sc_values c ! slot g r) v = sc_values c ! slot g r"
    using r(1) by (metis in_range_def nth_list_update_eq)
  then show False using r(2) by (metis sup_ge2)
qed

lemma MarkEdgeExecutable_grows:
  assumes "sccp_ok c" "from_id * sc_block_count c + to_id \<in> cfg_edges g (sc_block_count c)"
  shows "sccp_ok (MarkEdgeExecutable from_id to_id c) \<and> grows g c (MarkEdgeExecutable from_id to_id c)"
proof (cases "EdgeIndex c from_id to_id \<in> exec_edges c")
  case True
  then show ?thesis using assms(1) by (simp add: MarkEdgeExecutable_def BitSetContains_iff grows_refl)
next
  case False
  then show ?thesis
    using assms BitSetInsert_spec [of "sc_executable_edges c"] BitSetInsert_spec [of "sc_executable_blocks c"]
    by (auto simp: MarkEdgeExecutable_def BitSetContains_iff sccp_ok_def grows_def EdgeIndex_def)
qed

lemma MarkEdgeExecutable_fixed:
  assumes "sccp_ok c" "MarkEdgeExecutable from_id to_id c = c"
  shows "EdgeIsExecutable c from_id to_id"
proof (rule ccontr)
  let ?e = "EdgeIndex c from_id to_id"
  assume n: "\<not> EdgeIsExecutable c from_id to_id"
  then have "sc_executable_edges (MarkEdgeExecutable from_id to_id c) = BitSetInsert (sc_executable_edges c) ?e"
    by (simp add: MarkEdgeExecutable_def EdgeIsExecutable_def)
  then have "exec_edges c = insert ?e (exec_edges c)"
    using assms BitSetInsert_spec(2) [of "sc_executable_edges c" ?e] by (simp add: sccp_ok_def)
  then have "?e \<in> exec_edges c" by blast
  then show False using n by (simp add: EdgeIsExecutable_def BitSetContains_iff)
qed

subsection \<open>Instructions and blocks\<close>

lemma EvaluateDefinition_grows:
  "sccp_ok c \<Longrightarrow> sccp_ok (EvaluateDefinition g inst c) \<and> grows g c (EvaluateDefinition g inst c)"
  using UpdateValue_grows by (simp add: EvaluateDefinition_def Let_def grows_refl)

text \<open>After its definition, an instruction updates its own value at most.\<close>

lemma if_keeps: "P x \<Longrightarrow> P y \<Longrightarrow> P (if b then x else y)"
  by simp

lemma EvaluateInstruction_updates:
  fixes g r c
  defines "d \<equiv> EvaluateDefinition g (node_at (gen_nodes g) r) c"
  shows "EvaluateInstruction g r c \<in> range (\<lambda>v. UpdateValue g r v c) \<union> range (\<lambda>v. UpdateValue g r v d) \<union> {d}"
proof -
  let ?R = "range (\<lambda>v. UpdateValue g r v c) \<union> range (\<lambda>v. UpdateValue g r v d) \<union> {d}"
  have c: "UpdateValue g r v c \<in> ?R" and d: "UpdateValue g r v d \<in> ?R" and e: "d \<in> ?R" for v by auto
  show ?thesis
    unfolding EvaluateInstruction_def Let_def d_def [symmetric]
    by (intro if_keeps [where P = "\<lambda>x. x \<in> ?R"] c d e)
qed

lemma EvaluateInstruction_grows:
  assumes "sccp_ok c"
  shows "sccp_ok (EvaluateInstruction g r c) \<and> grows g c (EvaluateInstruction g r c)"
proof -
  let ?c = "EvaluateDefinition g (node_at (gen_nodes g) r) c"
  have d: "sccp_ok ?c" "grows g c ?c" using EvaluateDefinition_grows assms by blast+
  have u: "sccp_ok (UpdateValue g r v ?c) \<and> grows g c (UpdateValue g r v ?c)" for v
    using UpdateValue_grows [OF d(1)] grows_trans [OF d(2)] by blast
  from EvaluateInstruction_updates [of g r c] show ?thesis
    using UpdateValue_grows [OF assms] d u by auto
qed

definition cfg_edge :: "generator \<Rightarrow> nat \<Rightarrow> nat \<Rightarrow> bool" where
  "cfg_edge g from_id to_id \<longleftrightarrow>
     (\<exists>b \<in> set (gen_basic_blocks g). bb_id b = from_id \<and> to_id \<in> set (bb_out_edges b))"

lemma cfg_edge_index: "cfg_edge g from_id to_id \<Longrightarrow> from_id * n + to_id \<in> cfg_edges g n"
  by (auto simp: cfg_edge_def cfg_edges_def)

interpretation insts: inflationary sccp_ok "grows g" "\<lambda>_. True" "EvaluateInstruction g" for g
  by unfold_locales (use grows_refl grows_trans grows_antisym EvaluateInstruction_grows in blast)+

interpretation edges: inflationary sccp_ok "grows g" "cfg_edge g from_id" "MarkEdgeExecutable from_id"
  for g from_id
  by unfold_locales
    (use grows_refl grows_trans grows_antisym MarkEdgeExecutable_grows cfg_edge_index in blast)+

lemma MarkSuccessors_shape:
  obtains "MarkSuccessors g b c = c"
  | ss where "MarkSuccessors g b c = fold (MarkEdgeExecutable (bb_id b)) ss c" "set ss \<subseteq> set (bb_out_edges b)"
proof -
  let ?Q = "\<lambda>x. x = c \<or> (\<exists>ss. x = fold (MarkEdgeExecutable (bb_id b)) ss c \<and> set ss \<subseteq> set (bb_out_edges b))"
  have many: "?Q (mark_all (bb_id b) (filter P (bb_out_edges b)) c)" for P
    unfolding mark_all_def by (rule disjI2, rule exI, rule conjI [OF refl filter_is_subset])
  have all: "?Q (mark_all (bb_id b) (bb_out_edges b) c)"
    unfolding mark_all_def by (rule disjI2, rule exI, rule conjI [OF refl subset_refl])
  have one: "?Q (MarkEdgeExecutable (bb_id b) (bb_out_edges b ! 0) c)" if "length (bb_out_edges b) = 1"
    using that by (intro disjI2 exI [of _ "[bb_out_edges b ! 0]"]) simp
  have cond: "?Q (case v of SCCPUndefined \<Rightarrow> c | SCCPOverdefined \<Rightarrow> mark_all (bb_id b) (bb_out_edges b) c
      | SCCPConstant k \<Rightarrow> mark_all (bb_id b) (filter (P k) (bb_out_edges b)) c)" for v P
    using all many by (cases v) simp_all
  have "?Q (MarkSuccessors g b c)"
    unfolding MarkSuccessors_def Let_def using all one cond by simp
  then show ?thesis using that by blast
qed

lemma MarkSuccessors_grows:
  assumes "b \<in> set (gen_basic_blocks g)" "sccp_ok c"
  shows "sccp_ok (MarkSuccessors g b c) \<and> grows g c (MarkSuccessors g b c)"
proof (cases rule: MarkSuccessors_shape [of g b c])
  case (2 ss)
  then have "\<forall>s \<in> set ss. cfg_edge g (bb_id b) s" using assms(1) by (auto simp: cfg_edge_def)
  then show ?thesis using edges.fold_step assms(2) 2(1) by simp
qed (use assms(2) in \<open>simp add: grows_refl\<close>)

lemma analyze_block_grows:
  assumes "b \<in> set (gen_basic_blocks g)" "sccp_ok c"
  shows "sccp_ok (analyze_block g b c) \<and> grows g c (analyze_block g b c)"
proof -
  let ?c = "fold (EvaluateInstruction g) (block_insts g b) c"
  have c: "sccp_ok ?c \<and> grows g c ?c" using insts.fold_step assms(2) by simp
  then have "sccp_ok (MarkSuccessors g b ?c) \<and> grows g ?c (MarkSuccessors g b ?c)"
    using MarkSuccessors_grows [OF assms(1)] by blast
  then show ?thesis using c assms(2) grows_trans by (auto simp: analyze_block_def grows_refl)
qed

interpretation blocks: inflationary sccp_ok "grows g" "\<lambda>b. b \<in> set (gen_basic_blocks g)" "analyze_block g"
  for g
  by unfold_locales (use grows_refl grows_trans grows_antisym analyze_block_grows in blast)+

section \<open>Termination\<close>

text \<open>What is left to gain: the height of the lattice above each value and the edges not marked.\<close>

definition room :: "generator \<Rightarrow> sccp_context \<Rightarrow> nat" where
  "room g c = (\<Sum>v \<leftarrow> sc_values c. 2 - height v) + card (cfg_edges g (sc_block_count c) - exec_edges c)"

lemma sum_heights_mono:
  "values_le vs ws \<Longrightarrow> (\<Sum>v \<leftarrow> ws. 2 - height v) \<le> (\<Sum>v \<leftarrow> vs. 2 - height v)"
  unfolding values_le_def
  by (induction rule: list_all2_induct) (auto intro!: add_mono diff_le_mono2 height_mono)

lemma sum_heights_strict:
  "values_le vs ws \<Longrightarrow> vs \<noteq> ws \<Longrightarrow> (\<Sum>v \<leftarrow> ws. 2 - height v) < (\<Sum>v \<leftarrow> vs. 2 - height v)"
  unfolding values_le_def
proof (induction rule: list_all2_induct)
  case (Cons v vs w ws)
  have rest: "(\<Sum>v \<leftarrow> ws. 2 - height v) \<le> (\<Sum>v \<leftarrow> vs. 2 - height v)"
    using Cons(2) sum_heights_mono by (simp add: values_le_def)
  show ?case
  proof (cases "v = w")
    case True
    then show ?thesis using Cons by simp
  next
    case False
    then have "v < w" using Cons(1) by simp
    then have "height v < height w" by (rule height_strict)
    then show ?thesis using rest height_le [of w] by simp
  qed
qed simp

lemma room_shrinks:
  assumes "grows g c c'" "sc_values c' \<noteq> sc_values c \<or> exec_edges c' \<noteq> exec_edges c"
  shows "room g c' < room g c"
proof -
  let ?E = "cfg_edges g (sc_block_count c)"
  have v: "values_le (sc_values c) (sc_values c')" and e: "exec_edges c \<subseteq> exec_edges c'"
    "exec_edges c' \<subseteq> exec_edges c \<union> ?E" and n: "sc_block_count c' = sc_block_count c"
    using assms(1) by (auto simp: grows_def)
  have ec: "card (?E - exec_edges c') \<le> card (?E - exec_edges c)"
    using e(1) by (intro card_mono) auto
  show ?thesis
  proof (cases "sc_values c' = sc_values c")
    case True
    then obtain x where "x \<in> exec_edges c'" "x \<notin> exec_edges c" using assms(2) e(1) by blast
    then have "?E - exec_edges c' \<subset> ?E - exec_edges c" using e by blast
    then have "card (?E - exec_edges c') < card (?E - exec_edges c)"
      by (intro psubset_card_mono) auto
    then show ?thesis using True n by (simp add: room_def)
  next
    case False
    then show ?thesis using sum_heights_strict [OF v] ec n by (simp add: room_def)
  qed
qed

lemma analyze_round_grows:
  assumes "sccp_ok c"
  shows "sccp_ok (analyze_round g c)" "grows g (c\<lparr>sc_changed := False\<rparr>) (analyze_round g c)"
  using blocks.fold_step [of "gen_basic_blocks g" g "c\<lparr>sc_changed := False\<rparr>"] assms
  by (simp_all add: analyze_round_def sccp_ok_def)

text \<open>The analysis ends; the context it ends with is reproduced by another round.\<close>

lemma analyze_loop_terminates:
  assumes "sccp_ok c"
  shows "\<exists>c'. analyze_loop g c = Some c' \<and> sccp_ok c' \<and> analyze_round g c' = c' \<and>
    values_le (sc_values c) (sc_values c') \<and> exec_blocks c \<subseteq> exec_blocks c' \<and>
    sc_block_count c' = sc_block_count c"
  using assms
proof (induction "room g c" arbitrary: c rule: less_induct)
  case less
  let ?c0 = "c\<lparr>sc_changed := False\<rparr>" and ?c1 = "analyze_round g c"
  note r = analyze_round_grows [OF less.prems, of g]
  have up: "values_le (sc_values c) (sc_values ?c1)" "exec_blocks c \<subseteq> exec_blocks ?c1"
    "sc_block_count ?c1 = sc_block_count c"
    using r(2) by (simp_all add: grows_def)
  show ?case
  proof (cases "sc_changed ?c1")
    case True
    then have "?c1 \<noteq> ?c0" by (metis sccp_context.select_convs(5) sccp_context.surjective sccp_context.update_convs(5))
    then have "sc_values ?c1 \<noteq> sc_values ?c0 \<or> exec_edges ?c1 \<noteq> exec_edges ?c0"
      using r(2) by (simp add: grows_def)
    then have "room g ?c1 < room g ?c0" using room_shrinks [OF r(2)] by simp
    then have "room g ?c1 < room g c" by (simp add: room_def)
    from less.hyps [OF this r(1)] obtain c' where
      c': "analyze_loop g ?c1 = Some c'" "sccp_ok c'" "analyze_round g c' = c'"
        "values_le (sc_values ?c1) (sc_values c')" "exec_blocks ?c1 \<subseteq> exec_blocks c'"
        "sc_block_count c' = sc_block_count ?c1" by blast
    have "analyze_loop g c = Some c'"
      using True c'(1) by (subst analyze_loop.simps) (simp add: Let_def)
    then show ?thesis using c' up values_le_trans [OF up(1) c'(4)] by auto
  next
    case False
    then have "?c1 = ?c0" using r(2) by (auto simp: grows_def)
    moreover have "analyze_loop g c = Some ?c1"
      using False by (subst analyze_loop.simps) (simp add: Let_def)
    moreover have "analyze_round g ?c0 = ?c1" by (simp add: analyze_round_def)
    ultimately show ?thesis using r(1) up by auto
  qed
qed

text \<open>At a fixed point every step of every executable block is one.\<close>

lemma analyze_round_fixed:
  assumes ok: "sccp_ok c" and fixed: "analyze_round g c = c" and b: "b \<in> set (gen_basic_blocks g)"
    and exec: "bb_id b \<in> exec_blocks c"
  shows "r \<in> set (block_insts g b) \<Longrightarrow> EvaluateInstruction g r c = c" and "MarkSuccessors g b c = c"
proof -
  have "grows g (c\<lparr>sc_changed := False\<rparr>) c"
    using analyze_round_grows(2) [OF ok, of g] fixed by simp
  then have "c = c\<lparr>sc_changed := False\<rparr>" by (rule grows_same) simp_all
  then have "c\<lparr>sc_changed := False\<rparr> = c" by (rule sym)
  then have "fold (analyze_block g) (gen_basic_blocks g) c = c"
    using fixed by (simp add: analyze_round_def)
  then have "analyze_block g b c = c" using blocks.fold_fixed [of "gen_basic_blocks g" g c b] ok b by simp
  then have m: "MarkSuccessors g b (fold (EvaluateInstruction g) (block_insts g b) c) = c"
    using exec by (simp add: analyze_block_def BitSetContains_iff)
  let ?c = "fold (EvaluateInstruction g) (block_insts g b) c"
  have "sccp_ok ?c" "grows g c ?c" using insts.fold_step ok by simp_all
  moreover have "grows g ?c c" using MarkSuccessors_grows [OF b calculation(1)] m by simp
  ultimately have e: "?c = c" using grows_antisym by blast
  then show "MarkSuccessors g b c = c" using m by simp
  show "EvaluateInstruction g r c = c" if "r \<in> set (block_insts g b)"
    using insts.fold_fixed [of "block_insts g b" c g r] ok e that by simp
qed

end
