(* ===== verification/SccpFold.thy ===== *)
theory SccpFold
  imports SccpSpec
begin

text \<open>
  What the constant folding of the propagation computes: C's arithmetic at the width and
  signedness of the operands.  The reference, \<open>c_arith\<close>, works on integers, wraps once at
  the end and has no value where C has none at the operands' own width.  \<open>op_types\<close> says of
  which instructions it speaks.
\<close>

section \<open>Integers of a type\<close>

definition c_wrap :: "bool \<Rightarrow> nat \<Rightarrow> int \<Rightarrow> int" where
  "c_wrap u n x = (if u then take_bit n x else signed_take_bit (n - 1) x)"

text \<open>Signedness and width of an integer type with an ordinary size.\<close>

definition int_type :: "bool \<Rightarrow> type_record option \<Rightarrow> (bool \<times> nat) option" where
  "int_type pcs ty =
     (case ty of
        None \<Rightarrow> None
      | Some t \<Rightarrow>
          (if TypeIsIntegral ty \<and> \<not> TypeIsBitInt ty \<and> ty_size t \<in> set [1, 2, 4, 8]
           then Some (TypeIsUnsigned pcs ty, nat (ty_size t * 8)) else None))"

text \<open>The integer a word of the analysis stands for at a type.\<close>

definition int_of :: "bool \<Rightarrow> nat \<Rightarrow> u64 \<Rightarrow> int" where
  "int_of u n v = c_wrap u n (uint v)"

lemma int_type_width:
  "int_type pcs ty = Some (u, n) \<Longrightarrow> n = 8 \<or> n = 16 \<or> n = 32 \<or> n = 64"
  by (auto simp: int_type_def split: option.splits if_splits)

lemma bit_c_wrap:
  assumes "0 < n"
  shows "bit (c_wrap u n x) i \<longleftrightarrow> (if i < n then bit x i else \<not> u \<and> bit x (n - 1))"
  using assms by (cases "i = n - 1") (auto simp: c_wrap_def bit_simps min_def)

lemma mask_and_extend_wrap:
  assumes "0 < n" "n \<le> 64"
  shows "mask_and_extend n s v = word_of_int (c_wrap (\<not> s) n (uint v))"
proof -
  have m: "push_bit n 1 - 1 = (mask n :: u64)" by (simp add: mask_eq_exp_minus_1 push_bit_eq_mult)
  have "bit (Bit_Operations.and (Bit_Operations.and v (mask n)) (push_bit (n - 1) 1)) (n - 1) \<longleftrightarrow> bit v (n - 1)"
    using assms by (auto simp: bit_simps)
  moreover have "Bit_Operations.and (Bit_Operations.and v (mask n)) (push_bit (n - 1) 1) = 0" if "\<not> bit v (n - 1)"
    by (rule bit_eqI) (use that in \<open>auto simp: bit_simps possible_bit_def\<close>)
  ultimately have b: "Bit_Operations.and (Bit_Operations.and v (mask n)) (push_bit (n - 1) 1) \<noteq> 0 \<longleftrightarrow> bit v (n - 1)"
    by (metis bit_0_eq bot_apply bot_bool_def)
  show ?thesis
    unfolding mask_and_extend_def Let_def m b
    by (rule bit_eqI) (use assms in \<open>auto simp: bit_simps bit_c_wrap\<close>)
qed

lemma int_of_word_of_int: "0 < n \<Longrightarrow> n \<le> 64 \<Longrightarrow> int_of u n (word_of_int z) = c_wrap u n z"
  by (rule bit_eqI) (auto simp: int_of_def bit_c_wrap bit_simps)

lemma NormalizeIntegerValue_int:
  assumes "int_type pcs ty = Some (u, n)"
  shows "NormalizeIntegerValue pcs v ty = word_of_int (int_of u n v)"
proof -
  obtain t where t: "ty = Some t" "TypeIsIntegral ty" "\<not> TypeIsBitInt ty" "u = TypeIsUnsigned pcs ty"
    "n = nat (ty_size t * 8)" "ty_size t \<in> set [1, 2, 4, 8]"
    using assms by (auto simp: int_type_def split: option.splits if_splits)
  show ?thesis
  proof (cases "n = 64")
    case True
    then have "word_of_int (int_of u n v) = v"
      by (intro bit_eqI) (auto simp: int_of_def bit_c_wrap bit_simps)
    then show ?thesis using True t by (auto simp: NormalizeIntegerValue_def)
  next
    case False
    then show ?thesis
      using t mask_and_extend_wrap [of n "\<not> u" v] by (auto simp: NormalizeIntegerValue_def int_of_def)
  qed
qed

lemma TypedConstantValue_int:
  assumes "int_type pcs ty = Some (u, n)"
  shows "TypedConstantValue pcs ty v = SCCPConstant (word_of_int (int_of u n v))"
proof -
  have "TypedConstantValue pcs ty v = SCCPConstant (NormalizeIntegerValue pcs v ty)"
    using assms by (auto simp: int_type_def TypedConstantValue_def NormalizeIntegerValue_def split: option.splits if_splits)
  then show ?thesis using NormalizeIntegerValue_int [OF assms] by simp
qed

lemma TypedConstantValue_of_int:
  assumes "int_type pcs ty = Some (u, n)"
  shows "TypedConstantValue pcs ty (word_of_int z) = SCCPConstant (word_of_int (c_wrap u n z))"
  using TypedConstantValue_int [OF assms] int_type_width [OF assms] by (auto simp: int_of_word_of_int)

text \<open>The bounds of a type, and how the word of one of its integers reads.\<close>

lemma int_of_range:
  assumes "0 < n"
  shows "u \<Longrightarrow> 0 \<le> int_of u n v \<and> int_of u n v < 2 ^ n"
    and "\<not> u \<Longrightarrow> - (2 ^ (n - 1)) \<le> int_of u n v \<and> int_of u n v < 2 ^ (n - 1)"
  using assms
  by (simp_all add: int_of_def c_wrap_def signed_take_bit_int_greater_eq_minus_exp signed_take_bit_int_less_exp)

lemma read_back:
  assumes "0 < n" "n \<le> 64"
  shows "u \<Longrightarrow> uint (word_of_int (int_of u n v) :: u64) = int_of u n v"
    and "\<not> u \<Longrightarrow> sint (word_of_int (int_of u n v) :: u64) = int_of u n v"
proof -
  have p: "(2::int) ^ n \<le> 2 ^ 64" "(2::int) ^ (n - 1) \<le> 2 ^ 63"
    using assms by (intro power_increasing; simp)+
  show "uint (word_of_int (int_of u n v) :: u64) = int_of u n v" if u
    using int_of_range(1) [OF assms(1) that, of v] p by (intro word_of_int_inverse) auto
  show "sint (word_of_int (int_of u n v) :: u64) = int_of u n v" if "\<not> u"
    using int_of_range(2) [OF assms(1) that, of v] p
    by (simp add: signed_of_int signed_take_bit_int_eq_self)
qed

section \<open>The reference\<close>

text \<open>
  An operation on integers of a type: \<open>u\<close> and \<open>n\<close> are signedness and width of the
  operands, \<open>n'\<close> the width of the result.  A unary operation does not look at \<open>y\<close>.
\<close>

definition flag :: "bool \<Rightarrow> int" where
  "flag b = (if b then 1 else 0)"

definition low_bits :: "nat \<Rightarrow> int \<Rightarrow> bool list" where
  "low_bits n x = map (bit x) [0..<n]"

text \<open>The low \<open>n\<close> bits of an integer, rotated left by \<open>y\<close> places.\<close>

definition rotated :: "nat \<Rightarrow> int \<Rightarrow> int \<Rightarrow> int" where
  "rotated n y x = horner_sum of_bool 2 (map (\<lambda>i. bit x (nat ((int i - y) mod int n))) [0..<n])"

text \<open>
  Addresses are 64-bit words.  A quotient has no value when it does not fit its own type, at
  every width; a logical shift moves the bits of the operand's width, an arithmetic shift
  copies the sign of that width.
\<close>

definition c_arith :: "ir_op \<Rightarrow> bool \<Rightarrow> nat \<Rightarrow> nat \<Rightarrow> int \<Rightarrow> int \<Rightarrow> int option" where
  "c_arith opcode u n n' x y =
     (if opcode \<in> set [IR_movi, IR_mova] then Some x
      else if opcode \<in> set [IR_addi, IR_adda] then Some (x + y)
      else if opcode \<in> set [IR_subi, IR_suba] then Some (x - y)
      else if opcode = IR_muli then Some (x * y)
      else if opcode = IR_divi
      then (if y = 0 \<or> \<not> u \<and> x = - (2 ^ (n - 1)) \<and> y = - 1 then None else Some (x sdiv y))
      else if opcode = IR_modi
      then (if y = 0 \<or> \<not> u \<and> x = - (2 ^ (n - 1)) \<and> y = - 1 then None else Some (x smod y))
      else if opcode = IR_andi then Some (Bit_Operations.and x y)
      else if opcode = IR_ori then Some (Bit_Operations.or x y)
      else if opcode = IR_xori then Some (Bit_Operations.xor x y)
      else if opcode = IR_lsli then (if y < 0 \<or> y \<ge> int n' then None else Some (x * 2 ^ nat y))
      else if opcode = IR_lsri
      then (if y < 0 \<or> y \<ge> int n' then None else Some (take_bit n x div 2 ^ nat y))
      else if opcode = IR_asri
      then (if y < 0 \<or> y \<ge> int n' then None else Some (signed_take_bit (n - 1) x div 2 ^ nat y))
      else if opcode = IR_rotli then Some (rotated n' y x)
      else if opcode = IR_rotri then Some (rotated n' (- y) x)
      else if opcode = IR_clzi then Some (int (length (takeWhile Not (rev (low_bits n' x)))))
      else if opcode = IR_ctzi then Some (int (length (takeWhile Not (low_bits n' x))))
      else if opcode = IR_popcounti then Some (int (length (filter id (low_bits n' x))))
      else if opcode = IR_zeroextendi
      then Some (if n = n' then Bit_Operations.and x y else take_bit (min n n') x)
      else if opcode = IR_signextendi then Some (signed_take_bit (min n n' - 1) x)
      else if opcode \<in> set [IR_cmpeqi, IR_cmpeqa] then Some (flag (x = y))
      else if opcode \<in> set [IR_cmpnei, IR_cmpnea] then Some (flag (x \<noteq> y))
      else if opcode \<in> set [IR_cmplti, IR_cmplta] then Some (flag (x < y))
      else if opcode \<in> set [IR_cmplei, IR_cmplea] then Some (flag (x \<le> y))
      else if opcode \<in> set [IR_cmpgti, IR_cmpgta] then Some (flag (x > y))
      else if opcode \<in> set [IR_cmpgei, IR_cmpgea] then Some (flag (x \<ge> y))
      else if opcode = IR_negi then Some (- x)
      else if opcode = IR_onescomp then Some (- x - 1)
      else if opcode = IR_noti then Some (flag (x = 0))
      else None)"

text \<open>
  The quotient that overflows a width below 64 bits is computed at 64 bits and wrapped by the
  fold, which knows the overflow of 64 bits only.
\<close>

definition wrapped_arith :: "ir_op \<Rightarrow> bool \<Rightarrow> nat \<Rightarrow> nat \<Rightarrow> int \<Rightarrow> int \<Rightarrow> int option" where
  "wrapped_arith opcode u n n' x y =
     (if opcode \<in> set [IR_divi, IR_modi] \<and> y \<noteq> 0 \<and> n < 64
      then Some (if opcode = IR_divi then x sdiv y else x smod y)
      else c_arith opcode u n n' x y)"

lemma wrapped_arith_ops:
  "wrapped_arith IR_movi u n n' x y = Some x"
  "wrapped_arith IR_mova u n n' x y = Some x"
  "wrapped_arith IR_addi u n n' x y = Some (x + y)"
  "wrapped_arith IR_adda u n n' x y = Some (x + y)"
  "wrapped_arith IR_subi u n n' x y = Some (x - y)"
  "wrapped_arith IR_suba u n n' x y = Some (x - y)"
  "wrapped_arith IR_muli u n n' x y = Some (x * y)"
  "wrapped_arith IR_divi u n n' x y =
     (if y = 0 \<or> n \<ge> 64 \<and> \<not> u \<and> x = - (2 ^ (n - 1)) \<and> y = - 1 then None else Some (x sdiv y))"
  "wrapped_arith IR_modi u n n' x y =
     (if y = 0 \<or> n \<ge> 64 \<and> \<not> u \<and> x = - (2 ^ (n - 1)) \<and> y = - 1 then None else Some (x smod y))"
  "wrapped_arith IR_andi u n n' x y = Some (Bit_Operations.and x y)"
  "wrapped_arith IR_ori u n n' x y = Some (Bit_Operations.or x y)"
  "wrapped_arith IR_xori u n n' x y = Some (Bit_Operations.xor x y)"
  "wrapped_arith IR_lsli u n n' x y = (if y < 0 \<or> y \<ge> int n' then None else Some (x * 2 ^ nat y))"
  "wrapped_arith IR_lsri u n n' x y = (if y < 0 \<or> y \<ge> int n' then None else Some (take_bit n x div 2 ^ nat y))"
  "wrapped_arith IR_asri u n n' x y =
     (if y < 0 \<or> y \<ge> int n' then None else Some (signed_take_bit (n - 1) x div 2 ^ nat y))"
  "wrapped_arith IR_rotli u n n' x y = Some (rotated n' y x)"
  "wrapped_arith IR_rotri u n n' x y = Some (rotated n' (- y) x)"
  "wrapped_arith IR_clzi u n n' x y = Some (int (length (takeWhile Not (rev (low_bits n' x)))))"
  "wrapped_arith IR_ctzi u n n' x y = Some (int (length (takeWhile Not (low_bits n' x))))"
  "wrapped_arith IR_popcounti u n n' x y = Some (int (length (filter id (low_bits n' x))))"
  "wrapped_arith IR_zeroextendi u n n' x y =
     Some (if n = n' then Bit_Operations.and x y else take_bit (min n n') x)"
  "wrapped_arith IR_signextendi u n n' x y = Some (signed_take_bit (min n n' - 1) x)"
  "wrapped_arith IR_cmpeqi u n n' x y = Some (flag (x = y))"
  "wrapped_arith IR_cmpnei u n n' x y = Some (flag (x \<noteq> y))"
  "wrapped_arith IR_cmplti u n n' x y = Some (flag (x < y))"
  "wrapped_arith IR_cmplei u n n' x y = Some (flag (x \<le> y))"
  "wrapped_arith IR_cmpgti u n n' x y = Some (flag (x > y))"
  "wrapped_arith IR_cmpgei u n n' x y = Some (flag (x \<ge> y))"
  "wrapped_arith IR_cmpeqa u n n' x y = Some (flag (x = y))"
  "wrapped_arith IR_cmpnea u n n' x y = Some (flag (x \<noteq> y))"
  "wrapped_arith IR_cmplta u n n' x y = Some (flag (x < y))"
  "wrapped_arith IR_cmplea u n n' x y = Some (flag (x \<le> y))"
  "wrapped_arith IR_cmpgta u n n' x y = Some (flag (x > y))"
  "wrapped_arith IR_cmpgea u n n' x y = Some (flag (x \<ge> y))"
  "wrapped_arith IR_negi u n n' x y = Some (- x)"
  "wrapped_arith IR_onescomp u n n' x y = Some (- x - 1)"
  "wrapped_arith IR_noti u n n' x y = Some (flag (x = 0))"
  by (simp_all add: wrapped_arith_def c_arith_def ir_op_defs)

definition folds_to :: "bool \<Rightarrow> nat \<Rightarrow> int option \<Rightarrow> sccp_value" where
  "folds_to u n z =
     (case z of None \<Rightarrow> SCCPOverdefined | Some k \<Rightarrow> SCCPConstant (word_of_int (c_wrap u n k)))"

section \<open>The cases of the switch\<close>

lemma wrap_flag: "2 \<le> n \<Longrightarrow> word_of_int (c_wrap u n (flag b)) = (if b then 1 else 0 :: u64)"
  by (auto simp: c_wrap_def flag_def signed_take_bit_eq_if_positive bit_simps)

lemma of_flag_folds: "2 \<le> n \<Longrightarrow> of_flag b = folds_to u n (Some (flag b))"
  using wrap_flag [of n u b] by (simp add: of_flag_def folds_to_def)

lemma and_word_of_int:
  "Bit_Operations.and (word_of_int x) (word_of_int y) = (word_of_int (Bit_Operations.and x y) :: u64)"
  "Bit_Operations.or (word_of_int x) (word_of_int y) = (word_of_int (Bit_Operations.or x y) :: u64)"
  "Bit_Operations.xor (word_of_int x) (word_of_int y) = (word_of_int (Bit_Operations.xor x y) :: u64)"
  "Bit_Operations.not (word_of_int x) = (word_of_int (- x - 1) :: u64)"
  "push_bit k (word_of_int x) = (word_of_int (x * 2 ^ k) :: u64)"
  by (transfer; simp add: not_eq_complement push_bit_eq_mult)+

lemma typed_folds:
  "int_type pcs ty = Some (u, n) \<Longrightarrow> TypedConstantValue pcs ty (word_of_int z) = folds_to u n (Some z)"
  by (simp add: TypedConstantValue_of_int folds_to_def)

lemma folds_to_if:
  "folds_to u n (if b then None else Some z) = (if b then SCCPOverdefined else folds_to u n (Some z))"
  by (simp add: folds_to_def)

text \<open>The words of two operands of one type, unsigned or signed.\<close>

lemma operand_words:
  fixes v :: u64 and u :: bool
  assumes "0 < n" "n \<le> 64"
  defines "L \<equiv> (word_of_int (int_of u n v) :: u64)"
  shows "L = 0 \<longleftrightarrow> int_of u n v = 0" and "u \<Longrightarrow> uint L = int_of u n v" and "\<not> u \<Longrightarrow> sint L = int_of u n v"
    and "(if u then uint L else sint L) = int_of u n v"
proof -
  show r: "u \<Longrightarrow> uint L = int_of u n v" "\<not> u \<Longrightarrow> sint L = int_of u n v"
    using read_back [OF assms(1,2)] by (simp_all add: L_def)
  then show "(if u then uint L else sint L) = int_of u n v" by simp
  show "L = 0 \<longleftrightarrow> int_of u n v = 0"
    using r by (cases u) (metis L_def of_int_0 unsigned_0, metis L_def of_int_0 signed_0)
qed

lemma same_word:
  assumes "0 < n" "n \<le> 64" "0 < m" "m \<le> 64"
  shows "(word_of_int (int_of u n v) :: u64) = word_of_int (int_of u m w) \<longleftrightarrow> int_of u n v = int_of u m w"
  using read_back [OF assms(1,2), of u v] read_back [OF assms(3,4), of u w] by (cases u) metis+

lemma fold_division_folds:
  assumes ty: "int_type pcs (ir_type inst) = Some (u', n')" and n: "0 < n" "n \<le> 64" and m: "0 < m" "m \<le> 64"
    and op: "ir_opcode inst \<in> set [IR_divi, IR_modi]"
  shows "fold_division pcs inst u (word_of_int (int_of u n v)) (word_of_int (int_of u m w))
    = folds_to u' n' (wrapped_arith (ir_opcode inst) u n n' (int_of u n v) (int_of u m w))"
proof -
  let ?x = "int_of u n v" and ?y = "int_of u m w"
  let ?L = "word_of_int ?x :: u64" and ?R = "word_of_int ?y :: u64"
  note L = operand_words [OF n, of u v] and R = operand_words [OF m, of u w]
  have minimum: "?L = INT64_MIN \<longleftrightarrow> ?x = - (2 ^ 63)" if "\<not> u"
  proof -
    have "sint INT64_MIN = - (2 ^ 63)" by (simp add: INT64_MIN_def)
    then show ?thesis using L(3) [OF that] by (metis signed_word_eqI)
  qed
  have minus: "?R = - 1 \<longleftrightarrow> ?y = - 1" if "\<not> u"
    using R(3) [OF that] by (metis signed_minus_1 signed_word_eqI)
  have least: "?x = - (2 ^ 63) \<longleftrightarrow> n \<ge> 64 \<and> ?x = - (2 ^ (n - 1))" if "\<not> u"
  proof (cases "n = 64")
    case False
    then have "(2::int) ^ (n - 1) < 2 ^ 63" using n by (intro power_strict_increasing) auto
    then show ?thesis using int_of_range(2) [OF n(1) that, of v] False n(2) by auto
  qed simp
  have bad: "?R = 0 \<or> \<not> u \<and> ?L = INT64_MIN \<and> ?R = - 1 \<longleftrightarrow>
      ?y = 0 \<or> n \<ge> 64 \<and> \<not> u \<and> ?x = - (2 ^ (n - 1)) \<and> ?y = - 1"
    using R(1) minimum minus least by blast
  have q: "(if u then ?L div ?R else s_div ?L ?R) = word_of_int (?x sdiv ?y)"
  proof (cases u)
    case True
    then show ?thesis
      using L(2) R(2) int_of_range(1) [OF n(1) True, of v] int_of_range(1) [OF m(1) True, of w]
      by (simp add: word_div_def signed_divide_int_def sgn_if)
  qed (use L(3) R(3) in \<open>simp add: s_div_def\<close>)
  have r: "(if u then ?L mod ?R else s_mod ?L ?R) = word_of_int (?x smod ?y)"
  proof (cases u)
    case True
    then show ?thesis
      using L(2) R(2) int_of_range(1) [OF n(1) True, of v] int_of_range(1) [OF m(1) True, of w]
      by (simp add: word_mod_def signed_modulo_int_def sgn_if)
  qed (use L(3) R(3) in \<open>simp add: s_mod_def\<close>)
  from op consider "ir_opcode inst = IR_divi" | "ir_opcode inst = IR_modi" by auto
  then show ?thesis
  proof cases
    case 1
    then show ?thesis
      unfolding fold_division_def bad q by (simp only: wrapped_arith_ops typed_folds [OF ty] folds_to_if simp_thms if_True)
  next
    case 2
    moreover have "IR_modi \<noteq> IR_divi" by (simp add: ir_op_defs)
    ultimately show ?thesis
      unfolding fold_division_def bad r
      by (simp only: wrapped_arith_ops typed_folds [OF ty] folds_to_if simp_thms if_False)
  qed
qed

lemma word_of_sint: "word_of_int (sint w) = (w :: u64)"
  by transfer (simp add: take_bit_signed_take_bit)

lemma sint_of_small: "uint R < 2 ^ 63 \<Longrightarrow> sint R = uint (R :: u64)"
  by (simp add: sint_uint signed_take_bit_int_eq_self order_trans [OF _ uint_ge_0])

lemma uint_of_nonnegative:
  assumes "0 \<le> sint (R :: u64)"
  shows "uint R = sint R"
  using assms sint_less [of R] by (simp add: uint_sint take_bit_int_eq_self)

lemma shift_amount:
  fixes w :: u64 and u :: bool
  assumes n: "n' \<le> 64" and m: "0 < m" "m \<le> 64"
  defines "R \<equiv> (word_of_int (int_of u m w) :: u64)"
  shows "bad_shift (int n') R \<longleftrightarrow> int_of u m w < 0 \<or> int_of u m w \<ge> int n'"
    and "\<not> bad_shift (int n') R \<Longrightarrow> unat R = nat (int_of u m w)"
proof -
  note R = operand_words [OF m, of u w, folded R_def]
  have big: "bad_shift (int n') R \<longleftrightarrow> sint R < 0 \<or> sint R \<ge> int n'" using n by (auto simp: bad_shift_def)
  show b: "bad_shift (int n') R \<longleftrightarrow> int_of u m w < 0 \<or> int_of u m w \<ge> int n'"
  proof (cases u)
    case True
    then have y: "uint R = int_of u m w" using R(2) by simp
    show ?thesis
    proof (cases "uint R < 2 ^ 63")
      case True
      then show ?thesis using sint_of_small [OF True] y by (simp add: big)
    next
      case False
      then have "sint R < 0" using uint_of_nonnegative [of R] sint_less [of R] by (auto simp: not_less [symmetric])
      then show ?thesis using False y n by (simp add: big)
    qed
  qed (use R(3) in \<open>simp add: big\<close>)
  assume "\<not> bad_shift (int n') R"
  then have "uint R = sint R" by (intro uint_of_nonnegative) (simp add: big)
  then have "uint R = int_of u m w" using R(2,3) by (cases u) auto
  then show "unat R = nat (int_of u m w)" by (simp add: unat_eq_nat_uint)
qed

lemma set_op_cases:
  assumes "(op :: ir_op) \<in> set [a, b, c]"
  obtains "op = a" | "op = b" | "op = c"
  using assms by auto

text \<open>The word of an operand read at the other signedness, where the width allows it.\<close>

lemma read_unsigned:
  assumes "0 < n" "n \<le> 64" "u \<or> n = 64"
  shows "uint (word_of_int (int_of u n v) :: u64) = take_bit n (int_of u n v)"
proof (cases u)
  case True
  then show ?thesis
    using read_back(1) [OF assms(1,2) True, of v] int_of_range(1) [OF assms(1) True, of v]
    by (simp add: take_bit_int_eq_self)
qed (use assms(3) in \<open>simp add: unsigned_of_int\<close>)

lemma read_signed:
  assumes "0 < n" "n \<le> 64" "\<not> u \<or> n = 64"
  shows "sint (word_of_int (int_of u n v) :: u64) = signed_take_bit (n - 1) (int_of u n v)"
proof (cases u)
  case False
  then show ?thesis
    using read_back(2) [OF assms(1,2) False, of v] int_of_range(2) [OF assms(1) False, of v]
    by (simp add: signed_take_bit_int_eq_self)
qed (use assms(3) in \<open>simp add: signed_of_int\<close>)

lemma fold_shift_folds:
  assumes ty: "int_type pcs (ir_type inst) = Some (u', n')" and n: "0 < n" "n \<le> 64" and m: "0 < m" "m \<le> 64"
    and op: "ir_opcode inst \<in> set [IR_lsli, IR_lsri, IR_asri]"
    and u: "ir_opcode inst = IR_lsri \<longrightarrow> u \<or> n = 64" "ir_opcode inst = IR_asri \<longrightarrow> \<not> u \<or> n = 64"
  shows "fold_shift pcs inst (int n') (word_of_int (int_of u n v)) (word_of_int (int_of u2 m w))
    = folds_to u' n' (wrapped_arith (ir_opcode inst) u n n' (int_of u n v) (int_of u2 m w))"
proof -
  let ?x = "int_of u n v" and ?y = "int_of u2 m w"
  let ?L = "word_of_int ?x :: u64" and ?R = "word_of_int ?y :: u64"
  have "n' \<le> 64" using int_type_width [OF ty] by auto
  note R = shift_amount [OF this m, of u2 w]
  have neq: "IR_lsri \<noteq> IR_lsli" "IR_asri \<noteq> IR_lsli" "IR_asri \<noteq> IR_lsri" by (simp_all add: ir_op_defs)
  have l: "push_bit k ?L = word_of_int (?x * 2 ^ k)" for k by (rule and_word_of_int)
  have r: "drop_bit k ?L = word_of_int (take_bit n ?x div 2 ^ k)" if "u \<or> n = 64" for k
  proof -
    have "uint (drop_bit k ?L) = take_bit n ?x div 2 ^ k"
      using bintr_uint [of 64 ?L] read_unsigned [OF n that, of v]
      by (simp only: unsigned_drop_bit_eq) (simp add: drop_bit_eq_div)
    then show ?thesis by (metis word_of_int_uint)
  qed
  have a: "signed_drop_bit k ?L = word_of_int (signed_take_bit (n - 1) ?x div 2 ^ k)" if "\<not> u \<or> n = 64" for k
  proof -
    have "sint (signed_drop_bit k ?L) = signed_take_bit (n - 1) ?x div 2 ^ k"
      unfolding sint_signed_drop_bit_eq read_signed [OF n that] by (rule drop_bit_eq_div)
    then show ?thesis using word_of_sint [of "signed_drop_bit k ?L"] by simp
  qed
  show ?thesis
  proof (cases "bad_shift (int n') ?R")
    case False
    have ok: "\<not> (?y < 0 \<or> int n' \<le> ?y)" using False R(1) by simp
    note simps = fold_shift_def R(2) [OF False] wrapped_arith_ops typed_folds [OF ty] folds_to_if if_not_P [OF False]
      if_not_P [OF ok] neq if_True if_False refl l
    show ?thesis using op u
    proof (elim set_op_cases)
      assume "ir_opcode inst = IR_lsli"
      then show ?thesis by (simp only: simps)
    next
      assume i: "ir_opcode inst = IR_lsri"
      then have "u \<or> n = 64" using u by simp
      then show ?thesis by (simp only: simps i r)
    next
      assume i: "ir_opcode inst = IR_asri"
      then have "\<not> u \<or> n = 64" using u by simp
      then show ?thesis by (simp only: simps i a)
    qed
  next
    case True
    then have bad: "?y < 0 \<or> int n' \<le> ?y" using R(1) by simp
    show ?thesis using op by (auto simp only: fold_shift_def if_P [OF True] wrapped_arith_ops if_P [OF bad] folds_to_def option.case list.set insert_iff empty_iff)
  qed
qed

text \<open>Counting bits: the loops are functions of the low bits.\<close>

lemma and_power: "Bit_Operations.and v (2 ^ k) = 0 \<longleftrightarrow> \<not> bit (v :: u64) k"
proof
  assume "Bit_Operations.and v (2 ^ k) = 0"
  then have "\<not> bit (Bit_Operations.and v (2 ^ k)) k" by simp
  then show "\<not> bit v k" by (auto simp: bit_simps dest: bit_imp_le_length)
next
  assume "\<not> bit v k"
  then show "Bit_Operations.and v (2 ^ k) = 0"
    by (intro bit_eqI) (auto simp: bit_simps)
qed

lemma clz_loop_bits: "clz_loop v n = length (takeWhile Not (rev (map (bit v) [0..<n])))"
  by (induction n) (simp_all add: and_power)

lemma ctz_loop_bits:
  "count \<le> n \<Longrightarrow> ctz_loop v n count = count + length (takeWhile Not (map (bit v) [count..<n]))"
proof (induction v n count rule: ctz_loop.induct)
  case (1 v n count)
  show ?case
  proof (cases "count < n")
    case True
    then show ?thesis
      using "1.IH" by (subst ctz_loop.simps) (auto simp: and_power upt_conv_Cons)
  next
    case False
    then show ?thesis using "1.prems" by (subst ctz_loop.simps) simp
  qed
qed

lemma card_low_bits: "length (filter id (map (bit v) [0..<n])) = card {i. i < n \<and> bit v i}"
proof -
  have "length (filter id (map (bit v) [0..<n])) = length (filter (bit v) [0..<n])"
    by (simp add: filter_map comp_def)
  also have "\<dots> = card (set (filter (bit v) [0..<n]))"
    by (rule distinct_card [symmetric]) simp
  also have "set (filter (bit v) [0..<n]) = {i. i < n \<and> bit v i}" by auto
  finally show ?thesis .
qed

text \<open>\<open>v AND (v - 1)\<close> clears the lowest bit that is set.\<close>

lemma bit_minus_one:
  assumes "bit (v :: u64) k" "\<forall>j < k. \<not> bit v j"
  shows "Bit_Operations.and v (v - 1) = unset_bit k v"
proof -
  have k: "k < 64" using assms(1) bit_imp_le_length by fastforce
  define h where "h = Bit_Operations.and v (Bit_Operations.not (mask (Suc k)))"
  have v: "v = Bit_Operations.or h (2 ^ k)"
    using assms k by (intro bit_eqI) (auto simp: h_def bit_simps not_less less_Suc_eq_le le_less)
  have hd: "Bit_Operations.and h (2 ^ k) = 0" by (intro bit_eqI) (auto simp: h_def bit_simps)
  have "v = h + 2 ^ k" using disjunctive_add [of h "2 ^ k"] hd v
    by (metis bit_and_iff bit_0_eq bot_apply bot_bool_def)
  then have "v - 1 = h + mask k" by (simp add: mask_eq_exp_minus_1)
  also have "\<dots> = Bit_Operations.or h (mask k)"
    by (rule disjunctive_add) (auto simp: h_def bit_simps)
  finally have w: "v - 1 = Bit_Operations.or h (mask k)" .
  show ?thesis
    unfolding w by (subst (1 2) v) (intro bit_eqI; auto simp: h_def bit_simps)
qed

lemma popcount_loop_bits: "popcount_loop v count = count + card {i. bit v i}"
proof (induction v count rule: popcount_loop.induct)
  case (1 v count)
  show ?case
  proof (cases "v = 0")
    case False
    define k where "k = (LEAST i. bit v i)"
    have "\<exists>i. bit v i" using False by (metis bit_eqI bit_0_eq bot_apply bot_bool_def)
    then have k: "bit v k" "\<forall>j < k. \<not> bit v j"
      unfolding k_def using LeastI_ex not_less_Least by blast+
    have set: "{i. bit (Bit_Operations.and v (v - 1)) i} = {i. bit v i} - {k}"
      unfolding bit_minus_one [OF k] by (auto simp: bit_simps)
    have "finite {i. bit v i}"
      by (rule finite_subset [of _ "{..<64}"]) (auto dest: bit_imp_le_length)
    then have "card {i. bit v i} = Suc (card ({i. bit v i} - {k}))"
      using k(1) by (intro card.remove) auto
    then show ?thesis using "1.IH" False set by (subst popcount_loop.simps) simp
  qed (simp add: popcount_loop.simps)
qed

lemma bit_word_of_int_64: "i < 64 \<Longrightarrow> bit (word_of_int x :: u64) i \<longleftrightarrow> bit x i"
  by (simp add: bit_simps)

lemma width_mask_int: "n \<le> 64 \<Longrightarrow> width_mask (int n) = mask n"
  by (auto simp: width_mask_def mask_eq_exp_minus_1 push_bit_eq_mult)

lemma fold_count_folds:
  assumes ty: "int_type pcs (ir_type inst) = Some (u', n')"
    and op: "ir_opcode inst \<in> set [IR_clzi, IR_ctzi, IR_popcounti]"
  shows "fold_count pcs inst (int n') (word_of_int x) = folds_to u' n' (wrapped_arith (ir_opcode inst) u n n' x y)"
proof -
  let ?v = "Bit_Operations.and (word_of_int x) (width_mask (int n')) :: u64"
  have n': "n' \<le> 64" using int_type_width [OF ty] by auto
  have bits: "map (bit ?v) [0..<n'] = low_bits n' x"
    using n' by (simp add: low_bits_def width_mask_int bit_word_of_int_64 bit_and_iff bit_mask_iff)
  have "bit ?v i \<longleftrightarrow> i < n' \<and> bit ?v i" for i
    using n' by (auto simp: width_mask_int bit_simps)
  then have pop: "popcount_loop ?v 0 = length (filter id (low_bits n' x))"
    unfolding popcount_loop_bits bits [symmetric] card_low_bits by simp
  have neq: "IR_ctzi \<noteq> IR_clzi" "IR_popcounti \<noteq> IR_clzi" "IR_popcounti \<noteq> IR_ctzi" by (simp_all add: ir_op_defs)
  have count: "fold_count pcs inst (int n') (word_of_int x) =
      folds_to u' n' (Some (int (if ir_opcode inst = IR_clzi then length (takeWhile Not (rev (low_bits n' x)))
        else if ir_opcode inst = IR_ctzi then length (takeWhile Not (low_bits n' x))
        else length (filter id (low_bits n' x)))))"
    unfolding fold_count_def Let_def nat_int clz_loop_bits pop bits ctz_loop_bits [OF le0] add_0
    by (simp add: typed_folds [OF ty, symmetric])
  show ?thesis
    using op unfolding count
    by (elim set_op_cases) (simp_all only: wrapped_arith_ops neq if_True if_False refl)
qed

lemma extension_bits_int:
  assumes "int_type pcs l = Some (u, n)" "int_type pcs ty = Some (u', n')" "n \<noteq> n'"
  shows "extension_bits l ty = Some (int (min n n'))"
proof -
  obtain s t where s: "l = Some s" "ty = Some t" "n = nat (ty_size s * 8)" "n' = nat (ty_size t * 8)"
    "0 < ty_size s" "0 < ty_size t"
    using assms(1,2) by (auto simp: int_type_def split: option.splits if_splits)
  then have "ty_size s \<noteq> ty_size t" using assms(3) by auto
  then show ?thesis using s by (simp add: extension_bits_def min_def nat_le_eq_zle)
qed

lemma extension_bits_none:
  assumes "int_type pcs l = Some (u, n)" "int_type pcs ty = Some (u', n)"
  shows "extension_bits l ty = None"
proof -
  obtain s t where s: "l = Some s" "ty = Some t" "n = nat (ty_size s * 8)" "n = nat (ty_size t * 8)"
    "0 < ty_size s" "0 < ty_size t"
    using assms by (auto simp: int_type_def split: option.splits if_splits)
  then have "ty_size s = ty_size t" by simp
  then show ?thesis using s by (simp add: extension_bits_def)
qed

lemma fold_zeroextend_folds:
  assumes l: "int_type pcs l = Some (u, n)" and ty: "int_type pcs (ir_type inst) = Some (u', n')"
  shows "fold_zeroextend pcs inst l (word_of_int x) (word_of_int y)
    = folds_to u' n' (wrapped_arith IR_zeroextendi u n n' x y)"
proof (cases "n = n'")
  case False
  have "min n n' \<le> 64" using int_type_width [OF ty] by auto
  then have "Bit_Operations.and (word_of_int x) (width_mask (int (min n n'))) = (word_of_int (take_bit (min n n') x) :: u64)"
    by (intro bit_eqI) (auto simp: bit_simps width_mask_int simp del: of_nat_min)
  then show ?thesis
    unfolding fold_zeroextend_def extension_bits_int [OF l ty False]
    by (simp only: option.case wrapped_arith_ops typed_folds [OF ty] False if_False)
next
  case True
  show ?thesis
    unfolding fold_zeroextend_def extension_bits_none [OF l ty [folded True]]
    by (simp only: option.case wrapped_arith_ops typed_folds [OF ty] True if_True refl and_word_of_int)
qed

lemma fold_signextend_folds:
  assumes l: "int_type pcs l = Some (u, n)" and ty: "int_type pcs (ir_type inst) = Some (u', n')" and neq: "n \<noteq> n'"
  shows "fold_signextend pcs inst l (word_of_int x) R = folds_to u' n' (wrapped_arith IR_signextendi u n n' x y)"
proof -
  have k: "0 < min n n'" "min n n' \<le> 32" using int_type_width [OF ty] int_type_width [OF l] neq by auto
  have "mask_and_extend (min n n') True (word_of_int x) = word_of_int (signed_take_bit (min n n' - 1) x)"
    using k int_of_word_of_int [of "min n n'" False x]
    by (simp add: mask_and_extend_wrap int_of_def) (simp add: c_wrap_def)
  moreover have "\<not> 64 \<le> int (min n n')" using k by linarith
  ultimately show ?thesis
    unfolding fold_signextend_def extension_bits_int [OF l ty neq]
    by (simp only: option.case wrapped_arith_ops typed_folds [OF ty] nat_int if_False)
qed

text \<open>Rotations: the amount is a remainder of the width, which divides \<open>2 ^ 64\<close>.\<close>

lemma bit_rotated: "bit (rotated n y x) i \<longleftrightarrow> i < n \<and> bit x (nat ((int i - y) mod int n))"
  by (auto simp: rotated_def bit_horner_sum_bit_iff)

lemma abs_smod_less: "0 < n \<Longrightarrow> \<bar>a smod int n\<bar> < int n"
  by (auto simp: signed_modulo_int_def abs_mult sgn_if)

lemma smod_mod: "(a smod int n) mod int n = a mod int n"
proof -
  have "a = a smod int n + (a sdiv int n) * int n" by (simp only: smod_sdiv_mult_eq)
  then show ?thesis by (metis mod_mult_self1)
qed

lemma rotate_amount:
  assumes n: "n = 8 \<or> n = 16 \<or> n = 32 \<or> n = 64" and a: "a = sint (word_of_int y :: u64) smod int n"
  shows "(if a < 0 then a + int n else a) = y mod int n"
proof -
  let ?r = "sint (word_of_int y :: u64)"
  have dv: "int n dvd 2 ^ 64" using n by auto
  have "take_bit 64 ?r = take_bit 64 y" by (simp add: signed_of_int take_bit_signed_take_bit)
  then have "?r mod 2 ^ 64 = y mod 2 ^ 64" by (simp only: take_bit_eq_mod)
  then have "a mod int n = y mod int n" using dv smod_mod a by (metis mod_mod_cancel)
  moreover have "\<bar>a\<bar> < int n" unfolding a by (rule abs_smod_less) (use n in auto)
  moreover have "(a + int n) mod int n = a mod int n" by (rule mod_add_self2)
  moreover have "(a + int n) mod int n = a + int n" if "a < 0" "\<bar>a\<bar> < int n"
    using that by (intro mod_pos_pos_trivial) auto
  moreover have "a mod int n = a" if "\<not> a < 0" "\<bar>a\<bar> < int n"
    using that by (intro mod_pos_pos_trivial) auto
  ultimately show ?thesis by (cases "a < 0") simp_all
qed

lemma rotate_bits:
  fixes V :: u64
  assumes k: "0 < k" "k < n" "n \<le> 64" and i: "i < n"
  defines "W \<equiv> Bit_Operations.and V (mask n)"
  shows "bit (Bit_Operations.or (push_bit k W) (drop_bit (n - k) W)) i \<longleftrightarrow> bit V (nat ((int i - int k) mod int n))"
    and "bit (Bit_Operations.or (drop_bit k W) (push_bit (n - k) W)) i \<longleftrightarrow> bit V (nat ((int i + int k) mod int n))"
proof -
  have l: "nat ((int i - int k) mod int n) = (if k \<le> i then i - k else i + n - k)"
  proof (cases "k \<le> i")
    case True
    then have "(int i - int k) mod int n = int i - int k" using i by (intro mod_pos_pos_trivial) auto
    then show ?thesis using True by auto
  next
    case False
    have "(int i - int k) mod int n = (int i - int k + int n) mod int n" by (simp only: mod_add_self2)
    also have "\<dots> = int i - int k + int n" using False k i by (intro mod_pos_pos_trivial) auto
    finally show ?thesis using False k by auto
  qed
  have r: "nat ((int i + int k) mod int n) = (if i + k < n then i + k else i + k - n)"
  proof (cases "i + k < n")
    case False
    have "(int i + int k) mod int n = (int i + int k - int n) mod int n" by (simp only: minus_mod_self2)
    also have "\<dots> = int i + int k - int n" using False k i by (intro mod_pos_pos_trivial) auto
    finally show ?thesis using False k by auto
  next
    case True
    then have "(int i + int k) mod int n = int i + int k" by (intro mod_pos_pos_trivial) auto
    then show ?thesis using True by auto
  qed
  show "bit (Bit_Operations.or (push_bit k W) (drop_bit (n - k) W)) i \<longleftrightarrow> bit V (nat ((int i - int k) mod int n))"
    unfolding l using k i by (auto simp: W_def bit_simps add.commute)
  show "bit (Bit_Operations.or (drop_bit k W) (push_bit (n - k) W)) i \<longleftrightarrow> bit V (nat ((int i + int k) mod int n))"
    unfolding r using k i
    by (cases "i + k < n") (auto simp: W_def bit_simps add.commute [of k i])
qed

lemma rotated_word:
  assumes n: "n \<le> 64" and b: "\<And>i. i < n \<Longrightarrow> bit W i \<longleftrightarrow> bit x (nat ((int i - y) mod int n))"
  shows "Bit_Operations.and W (mask n) = (word_of_int (rotated n y x) :: u64)"
  by (rule bit_eqI) (use n b in \<open>auto simp: bit_simps bit_rotated\<close>)

lemma set_rotate:
  assumes "(op :: ir_op) \<in> set [a, b]"
  obtains "op = a" | "op = b"
  using assms by auto

lemma fold_rotate_folds:
  assumes ty: "int_type pcs (ir_type inst) = Some (u', n')" and op: "ir_opcode inst \<in> set [IR_rotli, IR_rotri]"
  shows "fold_rotate pcs inst (int n') (word_of_int x) (word_of_int y)
    = folds_to u' n' (wrapped_arith (ir_opcode inst) u n n' x y)"
proof -
  have n': "n' = 8 \<or> n' = 16 \<or> n' = 32 \<or> n' = 64" by (rule int_type_width [OF ty])
  then have pos: "0 < n'" "n' \<le> 64" by auto
  let ?L = "word_of_int x :: u64" and ?k = "y mod int n'"
  let ?V = "Bit_Operations.and ?L (mask n')"
  let ?y = "if ir_opcode inst = IR_rotli then y else - y"
  have k: "0 \<le> ?k" "?k < int n'" using pos by simp_all
  have bitL: "bit ?L i \<longleftrightarrow> bit x i" if "i < n'" for i using that pos by (simp add: bit_simps)
  have in_range: "nat (z mod int n') < n'" for z using pos by (simp add: nat_less_iff)
  have neq: "IR_rotri \<noteq> IR_rotli" by (simp add: ir_op_defs)
  have res: "wrapped_arith (ir_opcode inst) u n n' x y = Some (rotated n' ?y x)"
    using op by (elim set_rotate) (simp_all only: wrapped_arith_ops neq if_True if_False refl)
  have idx: "(int i - int (nat ?k)) mod int n' = (int i - y) mod int n'"
    "(int i + int (nat ?k)) mod int n' = (int i + y) mod int n'" for i
    using k(1) by (simp_all add: mod_diff_right_eq mod_add_right_eq)
  have zero: "?k = 0 \<Longrightarrow> ?V = word_of_int (rotated n' ?y x)"
  proof -
    assume z: "?k = 0"
    have "nat ((int i - ?y) mod int n') = i" if "i < n'" for i
    proof -
      obtain q where q: "y = int n' * q" using z by (auto simp: mod_eq_0_iff_dvd)
      have "int i - int n' * q = int i + int n' * (- q)" "int i - - (int n' * q) = int i + int n' * q" by simp_all
      then have "(int i - ?y) mod int n' = int i mod int n'"
        unfolding q by (simp only: mod_mult_self2 split: if_split) simp
      then show ?thesis using that by simp
    qed
    then show ?thesis using bitL by (intro rotated_word [OF pos(2)]) simp
  qed
  let ?W = "if ir_opcode inst = IR_rotli
    then Bit_Operations.or (push_bit (nat ?k) ?V) (drop_bit (n' - nat ?k) ?V)
    else Bit_Operations.or (drop_bit (nat ?k) ?V) (push_bit (n' - nat ?k) ?V)"
  have rot: "?k \<noteq> 0 \<Longrightarrow> Bit_Operations.and ?W (mask n') = word_of_int (rotated n' ?y x)"
  proof -
    assume z: "?k \<noteq> 0"
    have kk: "0 < nat ?k" "nat ?k < n'" using z k by auto
    show ?thesis
      using rotate_bits [OF kk pos(2), of _ ?L] bitL [OF in_range] op
      by (intro rotated_word [OF pos(2)]) (simp only: idx diff_minus_eq_add if_True if_False split: if_split, blast)
  qed
  have sub: "nat (int n' - ?k) = n' - nat ?k" using k by auto
  note amount = rotate_amount [OF n' refl, of y]
  show ?thesis
  proof (cases "?k = 0")
    case True
    show ?thesis
      unfolding fold_rotate_def Let_def amount width_mask_int [OF pos(2)] sub res if_P [OF True] zero [OF True]
      by (rule typed_folds [OF ty])
  next
    case False
    show ?thesis
      unfolding fold_rotate_def Let_def amount width_mask_int [OF pos(2)] sub res if_not_P [OF False] rot [OF False]
      by (rule typed_folds [OF ty])
  qed
qed

text \<open>Comparisons read the words as the operands' type says.\<close>

lemma fold_compare_ops:
  "ir_opcode inst \<in> set [IR_cmpeqi, IR_cmpeqa] \<Longrightarrow> fold_compare inst b L R = of_flag (L = R)"
  "ir_opcode inst \<in> set [IR_cmpnei, IR_cmpnea] \<Longrightarrow> fold_compare inst b L R = of_flag (L \<noteq> R)"
  "ir_opcode inst \<in> set [IR_cmplti, IR_cmplta] \<Longrightarrow>
     fold_compare inst b L R = of_flag (if b then L < R else sint L < sint R)"
  "ir_opcode inst \<in> set [IR_cmplei, IR_cmplea] \<Longrightarrow>
     fold_compare inst b L R = of_flag (if b then L \<le> R else sint L \<le> sint R)"
  "ir_opcode inst \<in> set [IR_cmpgti, IR_cmpgta] \<Longrightarrow>
     fold_compare inst b L R = of_flag (if b then L > R else sint L > sint R)"
  "ir_opcode inst \<in> set [IR_cmpgei, IR_cmpgea] \<Longrightarrow>
     fold_compare inst b L R = of_flag (if b then L \<ge> R else sint L \<ge> sint R)"
  by (auto simp: fold_compare_def ir_op_defs)

text \<open>The comparisons, by what they compute; those whose signedness matters.\<close>

definition compare_ops :: "ir_op list" where
  "compare_ops = [IR_cmpeqi, IR_cmpeqa, IR_cmpnei, IR_cmpnea, IR_cmplti, IR_cmplta, IR_cmplei, IR_cmplea,
     IR_cmpgti, IR_cmpgta, IR_cmpgei, IR_cmpgea]"

definition order_ops :: "ir_op list" where
  "order_ops = [IR_cmplti, IR_cmplta, IR_cmplei, IR_cmplea, IR_cmpgti, IR_cmpgta, IR_cmpgei, IR_cmpgea]"

lemma compare_arith:
  "op \<in> set [IR_cmpeqi, IR_cmpeqa] \<Longrightarrow> wrapped_arith op u n n' x y = Some (flag (x = y))"
  "op \<in> set [IR_cmpnei, IR_cmpnea] \<Longrightarrow> wrapped_arith op u n n' x y = Some (flag (x \<noteq> y))"
  "op \<in> set [IR_cmplti, IR_cmplta] \<Longrightarrow> wrapped_arith op u n n' x y = Some (flag (x < y))"
  "op \<in> set [IR_cmplei, IR_cmplea] \<Longrightarrow> wrapped_arith op u n n' x y = Some (flag (x \<le> y))"
  "op \<in> set [IR_cmpgti, IR_cmpgta] \<Longrightarrow> wrapped_arith op u n n' x y = Some (flag (x > y))"
  "op \<in> set [IR_cmpgei, IR_cmpgea] \<Longrightarrow> wrapped_arith op u n n' x y = Some (flag (x \<ge> y))"
  by (erule set_rotate; simp only: wrapped_arith_ops)+

lemma compare_ops_cases:
  assumes "op \<in> set compare_ops"
  obtains "op \<in> set [IR_cmpeqi, IR_cmpeqa]" | "op \<in> set [IR_cmpnei, IR_cmpnea]"
    | "op \<in> set [IR_cmplti, IR_cmplta]" | "op \<in> set [IR_cmplei, IR_cmplea]"
    | "op \<in> set [IR_cmpgti, IR_cmpgta]" | "op \<in> set [IR_cmpgei, IR_cmpgea]"
  using assms unfolding compare_ops_def list.set by blast

lemma order_ops_compare: "op \<in> set order_ops \<Longrightarrow> op \<in> set compare_ops"
  by (auto simp: order_ops_def compare_ops_def)

lemma fold_compare_folds:
  assumes n: "0 < n" "n \<le> 64" and m: "0 < m" "m \<le> 64" and w: "2 \<le> w"
    and op: "ir_opcode inst \<in> set compare_ops"
    and unsigned: "ir_opcode inst \<in> set order_ops \<Longrightarrow> is_unsigned = u"
  shows "fold_compare inst is_unsigned (word_of_int (int_of u n v)) (word_of_int (int_of u m v'))
    = folds_to u' w (wrapped_arith (ir_opcode inst) u n n' (int_of u n v) (int_of u m v'))"
proof -
  let ?x = "int_of u n v" and ?y = "int_of u m v'"
  let ?L = "word_of_int ?x :: u64" and ?R = "word_of_int ?y :: u64"
  note L = operand_words(2,3) [OF n, of u v] and R = operand_words(2,3) [OF m, of u v']
  have eq: "?L = ?R \<longleftrightarrow> ?x = ?y" by (rule same_word [OF n m])
  have less: "(if u then ?L < ?R else sint ?L < sint ?R) \<longleftrightarrow> ?x < ?y"
    "(if u then ?L \<le> ?R else sint ?L \<le> sint ?R) \<longleftrightarrow> ?x \<le> ?y"
    "(if u then ?R < ?L else sint ?R < sint ?L) \<longleftrightarrow> ?y < ?x"
    "(if u then ?R \<le> ?L else sint ?R \<le> sint ?L) \<longleftrightarrow> ?y \<le> ?x"
    using L R by (simp_all add: word_less_def word_le_def)
  have us: "op \<in> set [IR_cmplti, IR_cmplta] \<or> op \<in> set [IR_cmplei, IR_cmplea] \<or> op \<in> set [IR_cmpgti, IR_cmpgta]
      \<or> op \<in> set [IR_cmpgei, IR_cmpgea] \<Longrightarrow> op \<in> set order_ops" for op
    unfolding order_ops_def list.set by blast
  note flag = of_flag_folds [OF w, of _ u']
  from op show ?thesis
  proof (cases rule: compare_ops_cases)
    case 1 show ?thesis by (simp only: fold_compare_ops(1) [OF 1] compare_arith(1) [OF 1] eq flag)
  next
    case 2 show ?thesis by (simp only: fold_compare_ops(2) [OF 2] compare_arith(2) [OF 2] eq flag)
  next
    case 3
    have "is_unsigned = u" using 3 us unsigned by blast
    then show ?thesis by (simp only: fold_compare_ops(3) [OF 3] compare_arith(3) [OF 3] less flag)
  next
    case 4
    have "is_unsigned = u" using 4 us unsigned by blast
    then show ?thesis by (simp only: fold_compare_ops(4) [OF 4] compare_arith(4) [OF 4] less flag)
  next
    case 5
    have "is_unsigned = u" using 5 us unsigned by blast
    then show ?thesis by (simp only: fold_compare_ops(5) [OF 5] compare_arith(5) [OF 5] less flag)
  next
    case 6
    have "is_unsigned = u" using 6 us unsigned by blast
    then show ?thesis by (simp only: fold_compare_ops(6) [OF 6] compare_arith(6) [OF 6] less flag)
  qed
qed

section \<open>The whole switch\<close>

lemma fold_integer_ops:
  "ir_opcode inst = IR_movi \<Longrightarrow> fold_integer pcs inst l w us L R = TypedConstantValue pcs (ir_type inst) L"
  "ir_opcode inst = IR_addi \<Longrightarrow> fold_integer pcs inst l w us L R = TypedConstantValue pcs (ir_type inst) (L + R)"
  "ir_opcode inst = IR_subi \<Longrightarrow> fold_integer pcs inst l w us L R = TypedConstantValue pcs (ir_type inst) (L - R)"
  "ir_opcode inst = IR_muli \<Longrightarrow> fold_integer pcs inst l w us L R = TypedConstantValue pcs (ir_type inst) (L * R)"
  "ir_opcode inst = IR_andi \<Longrightarrow> fold_integer pcs inst l w us L R
     = TypedConstantValue pcs (ir_type inst) (Bit_Operations.and L R)"
  "ir_opcode inst = IR_ori \<Longrightarrow> fold_integer pcs inst l w us L R
     = TypedConstantValue pcs (ir_type inst) (Bit_Operations.or L R)"
  "ir_opcode inst = IR_xori \<Longrightarrow> fold_integer pcs inst l w us L R
     = TypedConstantValue pcs (ir_type inst) (Bit_Operations.xor L R)"
  "ir_opcode inst = IR_negi \<Longrightarrow> fold_integer pcs inst l w us L R = TypedConstantValue pcs (ir_type inst) (0 - L)"
  "ir_opcode inst = IR_onescomp \<Longrightarrow> fold_integer pcs inst l w us L R
     = TypedConstantValue pcs (ir_type inst) (Bit_Operations.not L)"
  "ir_opcode inst = IR_noti \<Longrightarrow> fold_integer pcs inst l w us L R = of_flag (L = 0)"
  "ir_opcode inst = IR_zeroextendi \<Longrightarrow> fold_integer pcs inst l w us L R = fold_zeroextend pcs inst l L R"
  "ir_opcode inst = IR_signextendi \<Longrightarrow> fold_integer pcs inst l w us L R = fold_signextend pcs inst l L R"
  by (simp_all add: fold_integer_def is_compare_def ir_op_defs)

lemma fold_integer_groups:
  "ir_opcode inst \<in> set [IR_divi, IR_modi] \<Longrightarrow> fold_integer pcs inst l w us L R = fold_division pcs inst us L R"
  "ir_opcode inst \<in> set [IR_lsli, IR_lsri, IR_asri] \<Longrightarrow> fold_integer pcs inst l w us L R = fold_shift pcs inst w L R"
  "ir_opcode inst \<in> set [IR_clzi, IR_ctzi, IR_popcounti] \<Longrightarrow>
     fold_integer pcs inst l w us L R = fold_count pcs inst w L"
  "ir_opcode inst \<in> set [IR_rotli, IR_rotri] \<Longrightarrow> fold_integer pcs inst l w us L R = fold_rotate pcs inst w L R"
  "ir_opcode inst = IR_mova \<Longrightarrow> fold_integer pcs inst l w us L R = SCCPConstant L"
  "ir_opcode inst = IR_adda \<Longrightarrow> fold_integer pcs inst l w us L R = SCCPConstant (L + R)"
  "ir_opcode inst = IR_suba \<Longrightarrow> fold_integer pcs inst l w us L R = SCCPConstant (L - R)"
  by (auto simp: fold_integer_def is_compare_def ir_op_defs)

lemma fold_integer_compare:
  "ir_opcode inst \<in> set compare_ops \<Longrightarrow> fold_integer pcs inst l w us L R = fold_compare inst us L R"
  unfolding compare_ops_def
  by (auto simp: fold_integer_def is_compare_def ir_op_defs)

lemma operation_width_int:
  "int_type pcs l = Some (u, n) \<Longrightarrow> int_type pcs ty = Some (u', n') \<Longrightarrow> operation_width l ty = int n'"
  by (auto simp: int_type_def operation_width_def split: option.splits if_splits)

text \<open>The operations that compute a word from words, whatever the types.\<close>

definition plain_ops :: "ir_op list" where
  "plain_ops = [IR_movi, IR_addi, IR_subi, IR_muli, IR_andi, IR_ori, IR_xori, IR_negi, IR_onescomp, IR_noti]"

lemma fold_plain:
  assumes ty: "int_type pcs (ir_type inst) = Some (u', n')" and n: "0 < n" "n \<le> 64"
    and op: "ir_opcode inst \<in> set plain_ops"
  shows "fold_integer pcs inst l w us (word_of_int (int_of u n v)) (word_of_int y)
    = folds_to u' n' (wrapped_arith (ir_opcode inst) u n n' (int_of u n v) y)"
proof -
  have two: "2 \<le> n'" using int_type_width [OF ty] by auto
  have words: "word_of_int x + word_of_int y = (word_of_int (x + y) :: u64)"
    "word_of_int x - word_of_int y = (word_of_int (x - y) :: u64)"
    "word_of_int x * word_of_int y = (word_of_int (x * y) :: u64)"
    "0 - word_of_int x = (word_of_int (- x) :: u64)" for x y
    by simp_all
  show ?thesis
    using op unfolding plain_ops_def list.set insert_iff empty_iff simp_thms
    by (elim disjE)
      (simp_all only: fold_integer_ops wrapped_arith_ops words and_word_of_int typed_folds [OF ty]
        operand_words(1) [OF n] of_flag_folds [OF two, of _ u'])
qed

text \<open>
  The opcodes of the switch: those on integers, and those on addresses.  Divisions and
  comparisons need operands of one signedness, as C's conversions leave them.
\<close>

definition arith_ops :: "ir_op list" where
  "arith_ops = plain_ops @ [IR_divi, IR_modi, IR_lsli, IR_lsri, IR_asri, IR_rotli, IR_rotri,
     IR_clzi, IR_ctzi, IR_popcounti,
     IR_zeroextendi, IR_signextendi, IR_cmpeqi, IR_cmpnei, IR_cmplti, IR_cmplei, IR_cmpgti, IR_cmpgei]"

definition address_ops :: "ir_op list" where
  "address_ops = [IR_mova, IR_adda, IR_suba, IR_cmpeqa, IR_cmpnea, IR_cmplta, IR_cmplea, IR_cmpgta, IR_cmpgea]"

definition one_signedness_ops :: "ir_op list" where
  "one_signedness_ops = [IR_divi, IR_modi] @ compare_ops"

definition operand_type :: "generator \<Rightarrow> ir_node \<Rightarrow> nat \<Rightarrow> type_record option" where
  "operand_type g inst i = ir_type (node_at (gen_nodes g) (ir_inputs inst ! i))"

text \<open>The integers a node of a type holds; a pointer, and an address without a type, is 64 bits.\<close>

definition word_type :: "bool \<Rightarrow> bool \<Rightarrow> type_record option \<Rightarrow> (bool \<times> nat) option" where
  "word_type pcs address ty =
     (case int_type pcs ty of
        Some p \<Rightarrow> Some p
      | None \<Rightarrow>
          (if address \<and> (case ty of None \<Rightarrow> True | Some t \<Rightarrow> ty_declarator t = DeclPointer \<and> ty_size t = 8)
           then Some (True, 64) else None))"

definition op_ok :: "ir_op \<Rightarrow> bool \<Rightarrow> nat \<Rightarrow> bool \<Rightarrow> nat \<Rightarrow> bool" where
  "op_ok opcode u n u2 n' \<longleftrightarrow>
     (opcode \<in> set one_signedness_ops \<longrightarrow> u2 = u) \<and>
     (opcode = IR_lsri \<longrightarrow> u \<or> n = 64) \<and> (opcode = IR_asri \<longrightarrow> \<not> u \<or> n = 64) \<and>
     (opcode = IR_signextendi \<longrightarrow> n \<noteq> n') \<and>
     (opcode \<in> set address_ops \<inter> set order_ops \<longrightarrow> u) \<and>
     (opcode \<in> set [IR_mova, IR_adda, IR_suba] \<longrightarrow> n' = 64)"

text \<open>
  Signedness and width of the operands and of the result, where they are ordinary integers
  or addresses; and the same where the reference speaks about the operation.
\<close>

definition op_kinds :: "generator \<Rightarrow> ir_node \<Rightarrow> ((bool \<times> nat) \<times> (bool \<times> nat) \<times> (bool \<times> nat)) option" where
  "op_kinds g inst =
     (let kind = word_type (gen_plain_char_is_signed g) (ir_opcode inst \<in> set address_ops)
      in if ir_inputs inst = [] \<or> ir_inputs inst ! 0 = 0 \<or> (\<not> is_unary inst \<and> length (ir_inputs inst) < 2)
         then None
         else case (kind (operand_type g inst 0), kind (operand_type g inst (if is_unary inst then 0 else 1)),
                    kind (ir_type inst)) of
                (Some l, Some r, Some t) \<Rightarrow> Some (l, r, t)
              | _ \<Rightarrow> None)"

definition op_types :: "generator \<Rightarrow> ir_node \<Rightarrow> ((bool \<times> nat) \<times> (bool \<times> nat) \<times> (bool \<times> nat)) option" where
  "op_types g inst =
     (case op_kinds g inst of
        Some ((u, n), (u2, n2), (u', n')) \<Rightarrow>
          (if op_ok (ir_opcode inst) u n u2 n' then op_kinds g inst else None)
      | None \<Rightarrow> None)"

lemma op_typesD:
  assumes "op_types g inst = Some ((u, n), (u2, n2), (u', n'))"
  defines "kind \<equiv> word_type (gen_plain_char_is_signed g) (ir_opcode inst \<in> set address_ops)"
  shows "ir_inputs inst \<noteq> []" "ir_inputs inst ! 0 \<noteq> 0" "kind (operand_type g inst 0) = Some (u, n)"
    "kind (operand_type g inst (if is_unary inst then 0 else 1)) = Some (u2, n2)"
    "kind (ir_type inst) = Some (u', n')" "op_ok (ir_opcode inst) u n u2 n'"
  using assms by (auto simp: op_types_def op_kinds_def Let_def split: if_splits option.splits prod.splits)

lemma word_type_int: "word_type pcs False ty = int_type pcs ty"
  by (simp add: word_type_def split: option.split)

lemma word_type_width: "word_type pcs a ty = Some (u, n) \<Longrightarrow> n = 8 \<or> n = 16 \<or> n = 32 \<or> n = 64"
  using int_type_width by (auto simp: word_type_def split: option.splits if_splits)

lemma NormalizeIntegerValue_word:
  assumes "word_type pcs a ty = Some (u, n)"
  shows "NormalizeIntegerValue pcs v ty = word_of_int (int_of u n v)"
proof (cases "int_type pcs ty")
  case None
  then have "u" "n = 64" "case ty of None \<Rightarrow> True | Some t \<Rightarrow> ty_declarator t = DeclPointer"
    using assms by (auto simp: word_type_def split: option.splits if_splits)
  then have k: "u" "n = 64" "\<not> TypeIsIntegral ty"
    by (auto simp: TypeIsIntegral_def primitive_has_def split: option.splits)
  have "word_of_int (take_bit 64 (uint v)) = v" by (intro bit_eqI) (auto simp: bit_simps)
  then show ?thesis
    using k by (cases ty) (simp_all add: NormalizeIntegerValue_def int_of_def c_wrap_def)
next
  case (Some p)
  then have "int_type pcs ty = Some (u, n)" using assms by (simp add: word_type_def)
  then show ?thesis by (rule NormalizeIntegerValue_int)
qed

lemma wrapped_arith_unary:
  "is_unary inst \<Longrightarrow> wrapped_arith (ir_opcode inst) u n n' x y = wrapped_arith (ir_opcode inst) u n n' x y'"
  unfolding is_unary_def list.set insert_iff empty_iff simp_thms
  by (elim disjE) (simp_all only: wrapped_arith_ops simp_thms)

lemma arith_ops_cases:
  assumes "op \<in> set arith_ops"
  obtains "op \<in> set plain_ops" | "op \<in> set [IR_divi, IR_modi]" | "op \<in> set [IR_lsli, IR_lsri, IR_asri]"
    | "op \<in> set [IR_rotli, IR_rotri]"
    | "op \<in> set [IR_clzi, IR_ctzi, IR_popcounti]" | "op = IR_zeroextendi" | "op = IR_signextendi"
    | "op \<in> set compare_ops"
  using assms unfolding arith_ops_def compare_ops_def set_append list.set by blast

text \<open>The signedness the switch uses is the one of the first operand, where it is read.\<close>

definition switch_signedness :: "generator \<Rightarrow> ir_node \<Rightarrow> bool" where
  "switch_signedness g inst =
     (if IRIsComparison inst then IRComparisonIsUnsigned (gen_plain_char_is_signed g) (gen_nodes g) inst
      else operand_type g inst 0 \<noteq> None \<and> TypeIsUnsigned (gen_plain_char_is_signed g) (operand_type g inst 0))"

text \<open>The operations on integers that look at it.\<close>

definition signedness_ops :: "ir_op list" where
  "signedness_ops = [IR_divi, IR_modi, IR_cmplti, IR_cmplei, IR_cmpgti, IR_cmpgei]"

lemma switch_signedness_int:
  assumes "int_type (gen_plain_char_is_signed g) (operand_type g inst 0) = Some (u, n)"
    and "ir_inputs inst \<noteq> []" "ir_inputs inst ! 0 \<noteq> 0"
    and "ir_opcode inst \<in> set signedness_ops"
  shows "switch_signedness g inst = u"
proof -
  have t: "operand_type g inst 0 \<noteq> None" "TypeIsUnsigned (gen_plain_char_is_signed g) (operand_type g inst 0) = u"
    using assms(1) by (auto simp: int_type_def split: option.splits if_splits)
  have c: "IRIsComparison inst \<longleftrightarrow> ir_opcode inst \<notin> set [IR_divi, IR_modi]"
    "ir_opcode inst \<notin> set [IR_divi, IR_modi] \<Longrightarrow>
       ir_opcode inst \<notin> set [IR_cmplta, IR_cmplea, IR_cmpgta, IR_cmpgea, IR_cmp3wayu, IR_cmp3waya] \<and>
       ir_opcode inst \<in> set [IR_cmplti, IR_cmplei, IR_cmpgti, IR_cmpgei, IR_cmp3wayi]"
    using assms(4) by (auto simp: signedness_ops_def IRIsComparison_def ir_op_defs)
  show ?thesis
  proof (cases "ir_opcode inst \<in> set [IR_divi, IR_modi]")
    case True
    then show ?thesis using c(1) t by (simp add: switch_signedness_def)
  next
    case False
    then have "IRComparisonIsUnsigned (gen_plain_char_is_signed g) (gen_nodes g) inst = u"
      unfolding IRComparisonIsUnsigned_def if_not_P [OF conjunct1 [OF c(2) [OF False]]] if_P [OF conjunct2 [OF c(2) [OF False]]]
      using assms(2,3) t by (simp add: operand_type_def)
    then show ?thesis using c(1) False by (simp add: switch_signedness_def)
  qed
qed


lemma switch_signedness_address:
  "ir_opcode inst \<in> set address_ops \<Longrightarrow> ir_opcode inst \<in> set order_ops \<Longrightarrow> switch_signedness g inst"
  by (auto simp: switch_signedness_def address_ops_def order_ops_def IRComparisonIsUnsigned_def IRIsComparison_def
      ir_op_defs)

lemma fold_constants_switch:
  assumes "NormalizeIntegerValue (gen_plain_char_is_signed g) v (operand_type g inst 0) = L"
    and "\<not> is_unary inst \<Longrightarrow> NormalizeIntegerValue (gen_plain_char_is_signed g) w (operand_type g inst 1) = R"
  shows "fold_constants g inst v w =
    fold_integer (gen_plain_char_is_signed g) inst (operand_type g inst 0)
      (operation_width (operand_type g inst 0) (ir_type inst)) (switch_signedness g inst)
      L (if is_unary inst then w else R)"
  using assms
  unfolding fold_constants_def Let_def operand_type_def [symmetric] switch_signedness_def [symmetric] by simp

lemma fold_integer_arith:
  assumes op: "ir_opcode inst \<in> set arith_ops"
    and t0: "int_type pcs l = Some (u, n)" and ty: "int_type pcs (ir_type inst) = Some (u', n')"
    and m: "\<not> is_unary inst \<Longrightarrow> 0 < n2 \<and> n2 \<le> 64"
    and us: "ir_opcode inst \<in> set signedness_ops \<Longrightarrow> us = u" and ok: "op_ok (ir_opcode inst) u n u2 n'"
  shows "fold_integer pcs inst l (int n') us (word_of_int (int_of u n v))
      (if is_unary inst then k else word_of_int (int_of u2 n2 w))
    = folds_to u' n' (wrapped_arith (ir_opcode inst) u n n' (int_of u n v) (int_of u2 n2 w))"
proof -
  let ?x = "int_of u n v" and ?y = "int_of u2 n2 w"
  have n: "0 < n" "n \<le> 64" and two: "2 \<le> n'" using int_type_width [OF t0] int_type_width [OF ty] by auto
  note neq = is_unary_def compare_ops_def ir_op_defs
  have same: "ir_opcode inst \<in> set one_signedness_ops \<Longrightarrow> u2 = u" using ok by (simp add: op_ok_def)
  show ?thesis
    using op
  proof (cases rule: arith_ops_cases)
    case 1
    have plain: "fold_integer pcs inst l (int n') us (word_of_int ?x) (word_of_int z)
        = folds_to u' n' (wrapped_arith (ir_opcode inst) u n n' ?x z)" for z by (rule fold_plain [OF ty n 1])
    show ?thesis
    proof (cases "is_unary inst")
      case True
      then show ?thesis using plain [of "uint k"] wrapped_arith_unary [OF True, of u n n' ?x "uint k" ?y] by simp
    qed (use plain in simp)
  next
    case 2
    then have "\<not> is_unary inst" "u2 = u" "us = u"
      using same us by (auto simp: one_signedness_ops_def signedness_ops_def is_unary_def ir_op_defs)
    then show ?thesis
      using fold_integer_groups(1) [OF 2] fold_division_folds [OF ty n _ _ 2] m by simp
  next
    case 3
    then have "\<not> is_unary inst" by (auto simp: neq)
    then show ?thesis
      using fold_integer_groups(2) [OF 3] fold_shift_folds [OF ty n _ _ 3] m ok by (simp add: op_ok_def)
  next
    case 4
    then have "\<not> is_unary inst" by (auto simp: neq)
    then show ?thesis using fold_integer_groups(4) [OF 4] fold_rotate_folds [OF ty 4] by simp
  next
    case 5
    show ?thesis using fold_integer_groups(3) [OF 5] fold_count_folds [OF ty 5] by simp
  next
    case 6
    then have "\<not> is_unary inst" by (auto simp: neq)
    then show ?thesis unfolding 6 using fold_integer_ops(11) [OF 6] fold_zeroextend_folds [OF t0 ty] by simp
  next
    case 7
    then have "n \<noteq> n'" using ok by (simp add: op_ok_def)
    then show ?thesis unfolding 7 using fold_integer_ops(12) [OF 7] fold_signextend_folds [OF t0 ty] by simp
  next
    case 8
    then have b: "\<not> is_unary inst" "u2 = u" using same by (auto simp: one_signedness_ops_def neq)
    have "us = u" if "ir_opcode inst \<in> set order_ops"
      using us op that by (auto simp: signedness_ops_def order_ops_def arith_ops_def plain_ops_def ir_op_defs)
    then show ?thesis
      unfolding fold_integer_compare [OF 8] if_not_P [OF b(1)] b(2)
      by (intro fold_compare_folds [OF n _ _ two 8]) (use m [OF b(1)] in auto)
  qed
qed

lemma compare_not_unary: "ir_opcode inst \<in> set compare_ops \<Longrightarrow> \<not> is_unary inst"
  unfolding compare_ops_def is_unary_def by (auto simp: ir_op_defs)

lemma fold_integer_address:
  assumes op: "ir_opcode inst \<in> set address_ops"
    and n: "0 < n" "n \<le> 64" and m: "0 < n2" "n2 \<le> 64" and two: "2 \<le> n'"
    and us: "ir_opcode inst \<in> set order_ops \<Longrightarrow> us" and ok: "op_ok (ir_opcode inst) u n u2 n'"
  shows "fold_integer pcs inst l wd us (word_of_int (int_of u n v))
      (if is_unary inst then k else word_of_int (int_of u2 n2 w))
    = folds_to u' n' (wrapped_arith (ir_opcode inst) u n n' (int_of u n v) (int_of u2 n2 w))"
proof -
  have wide: "SCCPConstant (word_of_int z) = folds_to u' 64 (Some z)" for z
  proof -
    have "word_of_int (c_wrap u' 64 z) = (word_of_int z :: u64)"
      by (intro bit_eqI) (auto simp: bit_simps bit_c_wrap)
    then show ?thesis by (simp add: folds_to_def)
  qed
  consider "ir_opcode inst = IR_mova" | "ir_opcode inst = IR_adda" | "ir_opcode inst = IR_suba"
    | "ir_opcode inst \<in> set compare_ops"
    using op by (auto simp: address_ops_def compare_ops_def)
  then show ?thesis
  proof cases
    case 1
    then have "n' = 64" using ok by (simp add: op_ok_def)
    then show ?thesis by (simp only: fold_integer_groups(5) [OF 1] 1 wrapped_arith_ops wide)
  next
    case 2
    then have "n' = 64" "\<not> is_unary inst" using ok by (simp_all add: op_ok_def is_unary_def ir_op_defs)
    then show ?thesis
      by (simp only: fold_integer_groups(6) [OF 2] 2 wrapped_arith_ops wide of_int_add [symmetric] if_False)
  next
    case 3
    then have "n' = 64" "\<not> is_unary inst" using ok by (simp_all add: op_ok_def is_unary_def ir_op_defs)
    then show ?thesis
      by (simp only: fold_integer_groups(7) [OF 3] 3 wrapped_arith_ops wide of_int_diff [symmetric] if_False)
  next
    case 4
    then have b: "\<not> is_unary inst" "u2 = u"
      using ok by (simp_all add: op_ok_def one_signedness_ops_def compare_not_unary)
    have "us = u" if "ir_opcode inst \<in> set order_ops" using us [OF that] ok op that by (simp add: op_ok_def)
    then show ?thesis
      unfolding fold_integer_compare [OF 4] if_not_P [OF b(1)] b(2)
      by (intro fold_compare_folds [OF n m two 4]) auto
  qed
qed

lemma supported_ops: "IsSupportedIntegerExpression inst \<Longrightarrow>
    ir_opcode inst \<in> set arith_ops \<and> ir_opcode inst \<notin> set address_ops \<or> ir_opcode inst \<in> set address_ops"
  unfolding IsSupportedIntegerExpression_def arith_ops_def address_ops_def plain_ops_def set_append list.set
  by (auto simp: ir_op_defs)

lemma fold_constants_typed:
  assumes op: "IsSupportedIntegerExpression inst" and t: "op_types g inst = Some ((u, n), (u2, n2), (u', n'))"
  shows "fold_constants g inst v w
    = folds_to u' n' (wrapped_arith (ir_opcode inst) u n n' (int_of u n v) (int_of u2 n2 w))"
proof -
  let ?pcs = "gen_plain_char_is_signed g"
  note t = op_typesD [OF t]
  have n: "0 < n" "n \<le> 64" "0 < n2" "n2 \<le> 64" "2 \<le> n'"
    using word_type_width [OF t(3)] word_type_width [OF t(4)] word_type_width [OF t(5)] by auto
  have R: "NormalizeIntegerValue ?pcs w (operand_type g inst 1) = word_of_int (int_of u2 n2 w)" if "\<not> is_unary inst"
    using NormalizeIntegerValue_word [OF t(4)] that by simp
  have switch: "fold_constants g inst v w = fold_integer ?pcs inst (operand_type g inst 0)
      (operation_width (operand_type g inst 0) (ir_type inst)) (switch_signedness g inst)
      (word_of_int (int_of u n v)) (if is_unary inst then w else word_of_int (int_of u2 n2 w))"
    by (rule fold_constants_switch [OF NormalizeIntegerValue_word [OF t(3)]]) (rule R)
  from supported_ops [OF op] show ?thesis
  proof (elim disjE conjE)
    assume a: "ir_opcode inst \<in> set arith_ops" "ir_opcode inst \<notin> set address_ops"
    then have i: "int_type ?pcs (operand_type g inst 0) = Some (u, n)" "int_type ?pcs (ir_type inst) = Some (u', n')"
      using t(3,5) by (simp_all add: word_type_int)
    have "switch_signedness g inst = u" if "ir_opcode inst \<in> set signedness_ops"
      by (rule switch_signedness_int [OF i(1) t(1,2) that])
    then show ?thesis
      unfolding switch operation_width_int [OF i] by (intro fold_integer_arith [OF a(1) i _ _ t(6)]) (use n in auto)
  next
    assume a: "ir_opcode inst \<in> set address_ops"
    show ?thesis
      unfolding switch
      by (rule fold_integer_address [OF a n(1-5) _ t(6)]) (rule switch_signedness_address [OF a])
  qed
qed

end
