(* ===== verification/SccpRun.thy ===== *)
theory SccpRun
  imports SccpFold
begin

text \<open>
  Executions of a program in SSA form, as far as the constant propagation looks at them, and
  the proof that a fixed point of the analysis describes all of them.  An instruction the
  analysis does not interpret (a call, a load from memory, floating point) may yield any
  value here, so the executions include those of the real program.
\<close>

section \<open>Executions\<close>

type_synonym env = "node_ref \<Rightarrow> u64 option"

record run_state =
  rs_block :: nat
  rs_prev :: "nat option"
  rs_rest :: "node_ref list"
  rs_entry :: env
  rs_env :: env

text \<open>Instructions that have no value of their own.\<close>

definition yields :: "ir_node \<Rightarrow> bool" where
  "yields inst \<longleftrightarrow> ir_outputs inst \<noteq> [] \<and>
     \<not> (ir_opcode inst = IR_ssavar \<or> IRIsBranch inst \<or> IRIsReturn inst \<or>
        ir_opcode inst = IR_label \<or> ir_opcode inst = IR_enter \<or> ir_opcode inst = IR_leave)"

text \<open>Instructions whose value the operands determine: neither volatile nor special.\<close>

definition interpreted :: "generator \<Rightarrow> ir_node \<Rightarrow> bool" where
  "interpreted g inst \<longleftrightarrow>
     ir_value_state inst = ValueValid \<and> ir_dest inst = 0 \<and> \<not> IRHasSideEffects (gen_nodes g) inst"

text \<open>
  The values an instruction can yield.  A phi reads what its input for the block control
  came from was when the block was entered, and may be anything when its inputs do not
  match the edges into its block; a load from a version of a scalar variable reads that
  version.  An integer operation computes C's arithmetic on the integers its operands stand
  for, wrapped to its type; it has any value where C has none, but for a quotient that
  overflows a width below 64 bits, which wraps.  Only for operands that are neither
  ordinary integers nor 64-bit addresses (\<open>_BitInt\<close>) is the operation the one of the switch.
\<close>

definition load_yields :: "generator \<Rightarrow> ir_node \<Rightarrow> env \<Rightarrow> u64 \<Rightarrow> bool" where
  "load_yields g inst env v \<longleftrightarrow>
     ir_inputs inst \<noteq> [] \<and>
     (let d = ir_inputs inst ! 0; dn = node_at (gen_nodes g) d
      in case env d of
           None \<Rightarrow> False
         | Some w \<Rightarrow>
             (if IsSafeSSASymbol g (VariableSymbol dn) \<and> ir_opcode dn \<in> set [IR_ssavar, IR_phi]
              then TruncateLoad inst (SCCPConstant w) = SCCPConstant v else True))"

definition operation_result :: "generator \<Rightarrow> ir_node \<Rightarrow> u64 \<Rightarrow> u64 \<Rightarrow> u64 \<Rightarrow> bool" where
  "operation_result g inst x y v \<longleftrightarrow>
     (case op_kinds g inst of
        Some ((u, n), (u2, n2), (u', n')) \<Rightarrow>
          (case wrapped_arith (ir_opcode inst) u n n' (int_of u n x) (int_of u2 n2 y) of
             Some k \<Rightarrow> v = word_of_int (c_wrap u' n' k)
           | None \<Rightarrow> True)
      | None \<Rightarrow> fold_constants g inst x y \<in> set [SCCPConstant v, SCCPOverdefined])"

definition operation_yields :: "generator \<Rightarrow> ir_node \<Rightarrow> env \<Rightarrow> u64 \<Rightarrow> bool" where
  "operation_yields g inst env v \<longleftrightarrow>
     ir_inputs inst \<noteq> [] \<and>
     (HasVariableOperand g inst \<or>
      (case (env (ir_inputs inst ! 0), if is_unary inst then Some 0
                                       else if length (ir_inputs inst) > 1 then env (ir_inputs inst ! 1)
                                       else None) of
         (Some x, Some y) \<Rightarrow> operation_result g inst x y v
       | _ \<Rightarrow> False))"

definition phi_yields :: "generator \<Rightarrow> run_state \<Rightarrow> ir_node \<Rightarrow> u64 \<Rightarrow> bool" where
  "phi_yields g s inst v \<longleftrightarrow>
     (let in_edges = bb_in_edges (block_at g (rs_block s))
      in ir_inputs inst = [] \<or> length (ir_inputs inst) \<noteq> length in_edges \<or>
         list_ex (\<lambda>(p, input). rs_prev s = Some p \<and> rs_entry s input = Some v) (zip in_edges (ir_inputs inst)))"

definition own_value :: "generator \<Rightarrow> run_state \<Rightarrow> node_ref \<Rightarrow> u64 \<Rightarrow> bool" where
  "own_value g s r v \<longleftrightarrow>
     (let inst = node_at (gen_nodes g) r
      in if IRIsIntConst inst then v = IRIntConstValue inst
         else if ir_opcode inst = IR_phi then phi_yields g s inst v
         else if interpreted g inst \<and> IsIntegerLoad inst then load_yields g inst (rs_env s) v
         else if interpreted g inst \<and> IsSupportedIntegerExpression inst
         then operation_yields g inst (rs_env s) v
         else True)"

text \<open>The version of a variable an instruction defines, and what the version becomes.\<close>

definition defines_version :: "generator \<Rightarrow> ir_node \<Rightarrow> bool" where
  "defines_version g inst \<longleftrightarrow>
     \<not> IRIsIntConst inst \<and> ir_opcode inst \<noteq> IR_phi \<and> IRIsVarDef inst \<and> ir_inputs inst \<noteq> [] \<and>
     (let d = node_at (gen_nodes g) (ir_inputs inst ! 0)
      in VariableSymbol d = ir_var inst \<and> ir_opcode d = IR_ssavar)"

definition stores_scalar :: "generator \<Rightarrow> ir_node \<Rightarrow> bool" where
  "stores_scalar g inst \<longleftrightarrow>
     IsSafeSSASymbol g (ir_var inst) \<and> IsIntegerStore inst \<and> length (ir_inputs inst) > 1 \<and>
     ir_value_state inst = ValueValid"

definition after_definition :: "generator \<Rightarrow> ir_node \<Rightarrow> env \<Rightarrow> env \<Rightarrow> bool" where
  "after_definition g inst env env' \<longleftrightarrow>
     (if defines_version g inst
      then (\<exists>w. env' = env(ir_inputs inst ! 0 \<mapsto> w) \<and>
                (stores_scalar g inst \<longrightarrow> env (ir_inputs inst ! 1) = Some w))
      else env' = env)"

definition after_instruction :: "generator \<Rightarrow> run_state \<Rightarrow> node_ref \<Rightarrow> env \<Rightarrow> bool" where
  "after_instruction g s r env' \<longleftrightarrow>
     (\<exists>e. after_definition g (node_at (gen_nodes g) r) (rs_env s) e \<and>
          (if yields (node_at (gen_nodes g) r) then (\<exists>v. own_value g s r v \<and> env' = e(r \<mapsto> v))
           else env' = e))"

text \<open>Where control goes at the end of a block.\<close>

definition successors :: "generator \<Rightarrow> basic_block \<Rightarrow> env \<Rightarrow> nat list" where
  "successors g b env =
     (let terminator = node_at (gen_nodes g) (bb_end_code b)
      in if IRIsConditionalBranch terminator \<and> length (ir_inputs terminator) \<ge> 2 \<and> length (bb_out_edges b) \<noteq> 1
         then (case env (ir_inputs terminator ! 0) of
                 None \<Rightarrow> []
               | Some k \<Rightarrow>
                   (let target = bb_id (block_at g (ir_block (node_at (gen_nodes g) (ir_inputs terminator ! 1))))
                    in if branch_taken terminator k then filter ((=) target) (bb_out_edges b)
                       else remove1 target (bb_out_edges b)))
         else bb_out_edges b)"

inductive run_step :: "generator \<Rightarrow> run_state \<Rightarrow> run_state \<Rightarrow> bool" for g where
  instruction: "rs_rest s = r # rest \<Longrightarrow> after_instruction g s r env' \<Longrightarrow>
     run_step g s (s\<lparr>rs_rest := rest, rs_env := env'\<rparr>)"
| leave: "rs_rest s = [] \<Longrightarrow> t \<in> set (successors g (block_at g (rs_block s)) (rs_env s)) \<Longrightarrow>
     run_step g s \<lparr>rs_block = t, rs_prev = Some (rs_block s), rs_rest = block_insts g (block_at g t),
                   rs_entry = rs_env s, rs_env = rs_env s\<rparr>"

inductive_cases run_step_cases: "run_step g s s'"

definition run_start :: "generator \<Rightarrow> run_state" where
  "run_start g =
     \<lparr>rs_block = gen_entry_block g, rs_prev = None,
      rs_rest = block_insts g (block_at g (gen_entry_block g)), rs_entry = Map.empty, rs_env = Map.empty\<rparr>"

text \<open>
  An execution followed on given choices: the value of the instruction and of the version it
  defines, or the block control goes to.
\<close>

datatype choice = Instr u64 u64 | Leave nat

definition allowed :: "generator \<Rightarrow> run_state \<Rightarrow> node_ref \<Rightarrow> u64 \<Rightarrow> u64 \<Rightarrow> bool" where
  "allowed g s r v w \<longleftrightarrow>
     (let inst = node_at (gen_nodes g) r
      in (defines_version g inst \<and> stores_scalar g inst \<longrightarrow> rs_env s (ir_inputs inst ! 1) = Some w) \<and>
         (yields inst \<longrightarrow> own_value g s r v))"

definition chosen_env :: "generator \<Rightarrow> ir_node \<Rightarrow> node_ref \<Rightarrow> u64 \<Rightarrow> u64 \<Rightarrow> env \<Rightarrow> env" where
  "chosen_env g inst r v w env =
     (let e = (if defines_version g inst then env(ir_inputs inst ! 0 \<mapsto> w) else env)
      in if yields inst then e(r \<mapsto> v) else e)"

fun follow :: "generator \<Rightarrow> run_state \<Rightarrow> choice list \<Rightarrow> run_state option" where
  "follow g s [] = Some s"
| "follow g s (Instr v w # cs) =
     (case rs_rest s of
        [] \<Rightarrow> None
      | r # rest \<Rightarrow>
          (if allowed g s r v w
           then follow g (s\<lparr>rs_rest := rest,
                            rs_env := chosen_env g (node_at (gen_nodes g) r) r v w (rs_env s)\<rparr>) cs
           else None))"
| "follow g s (Leave t # cs) =
     (if rs_rest s = [] \<and> t \<in> set (successors g (block_at g (rs_block s)) (rs_env s))
      then follow g \<lparr>rs_block = t, rs_prev = Some (rs_block s), rs_rest = block_insts g (block_at g t),
                     rs_entry = rs_env s, rs_env = rs_env s\<rparr> cs
      else None)"

lemma follow_runs: "follow g s cs = Some s' \<Longrightarrow> (run_step g)\<^sup>*\<^sup>* s s'"
proof (induction g s cs rule: follow.induct)
  case (2 g s v w cs)
  then obtain r rest where r: "rs_rest s = r # rest" "allowed g s r v w" by (auto split: list.splits if_splits)
  let ?env = "chosen_env g (node_at (gen_nodes g) r) r v w (rs_env s)"
  have "after_instruction g s r ?env"
    using r(2) by (auto simp: after_instruction_def after_definition_def allowed_def chosen_env_def Let_def)
  then have "run_step g s (s\<lparr>rs_rest := rest, rs_env := ?env\<rparr>)" by (rule run_step.instruction [OF r(1)])
  then show ?case using 2 r by (auto intro: converse_rtranclp_into_rtranclp)
next
  case (3 g s t cs)
  then show ?case using run_step.leave by (auto split: if_splits intro: converse_rtranclp_into_rtranclp)
qed simp

section \<open>What the analysis needs of the program\<close>

text \<open>
  An instruction with a value must be one the analysis gives a value to.  This is not so of
  every opcode.  And an operation on ordinary integers must be one the reference speaks
  about: in particular a division or comparison has operands of one signedness, and there
  is no logical shift at a signed type narrower than 64 bits, which the analysis folds
  from the sign-extended word.
\<close>

definition sccp_evaluates :: "generator \<Rightarrow> ir_node \<Rightarrow> bool" where
  "sccp_evaluates g inst \<longleftrightarrow>
     IRIsIntConst inst \<or> ir_opcode inst = IR_phi \<or> IRIsCall inst \<or> IRIsStore inst \<or> \<not> interpreted g inst \<or>
     IsIntegerLoad inst \<or> IsSupportedIntegerExpression inst \<or> IRIsVariable inst \<or> IRIsExpression inst"

definition sccp_typed :: "generator \<Rightarrow> ir_node \<Rightarrow> bool" where
  "sccp_typed g inst \<longleftrightarrow>
     (interpreted g inst \<and> IsSupportedIntegerExpression inst \<and> \<not> HasVariableOperand g inst \<longrightarrow>
      op_kinds g inst = None \<or> op_types g inst \<noteq> None)"

definition sccp_program :: "generator \<Rightarrow> bool" where
  "sccp_program g \<longleftrightarrow>
     gen_entry_block g < length (gen_basic_blocks g) \<and>
     list_all (\<lambda>i. bb_id (block_at g i) = i) [0..<length (gen_basic_blocks g)] \<and>
     list_all (\<lambda>b.
       list_all (\<lambda>s. s < length (gen_basic_blocks g)) (bb_out_edges b) \<and>
       (bb_out_edges b \<noteq> [] \<longrightarrow> bb_end_code b \<noteq> 0) \<and>
       (IRIsConditionalBranch (node_at (gen_nodes g) (bb_end_code b)) \<longrightarrow> distinct (bb_out_edges b)) \<and>
       list_all (\<lambda>r. let inst = node_at (gen_nodes g) r
                     in (ir_opcode inst = IR_phi \<longrightarrow> ir_block inst = bb_id b) \<and>
                        (yields inst \<longrightarrow> sccp_evaluates g inst \<and> sccp_typed g inst)) (block_insts g b))
       (gen_basic_blocks g)"

section \<open>Descriptions\<close>

definition describes :: "sccp_value \<Rightarrow> u64 \<Rightarrow> bool" where
  "describes a v \<longleftrightarrow> a = SCCPConstant v \<or> a = SCCPOverdefined"

lemma describes_mono: "describes a v \<Longrightarrow> a \<le> b \<Longrightarrow> describes b v"
  by (auto simp: describes_def less_eq_sccp_value_def)

lemma describes_over [simp]: "describes SCCPOverdefined v"
  by (simp add: describes_def)

lemma describes_updated: "UpdateValue g r a c = c \<Longrightarrow> describes a v \<Longrightarrow> describes (ValueOf g c r) v"
  by (rule describes_mono [OF _ UpdateValue_fixed])

definition plain_variable :: "ir_node \<Rightarrow> bool" where
  "plain_variable inst \<longleftrightarrow> IRIsVariable inst \<and> ir_opcode inst \<noteq> IR_ssavar \<and> ir_opcode inst \<noteq> IR_phi"

definition describes_env :: "generator \<Rightarrow> sccp_context \<Rightarrow> env \<Rightarrow> bool" where
  "describes_env g c env \<longleftrightarrow>
     (\<forall>r v. env r = Some v \<longrightarrow> describes (ValueOf g c r) v \<and>
        (plain_variable (node_at (gen_nodes g) r) \<longrightarrow> ValueOf g c r = SCCPOverdefined))"

lemma describes_env_lookup: "describes_env g c env \<Longrightarrow> env r = Some v \<Longrightarrow> describes (ValueOf g c r) v"
  by (simp add: describes_env_def)

lemma describes_env_update:
  assumes "describes_env g c env" "describes (ValueOf g c r) v"
    "plain_variable (node_at (gen_nodes g) r) \<Longrightarrow> ValueOf g c r = SCCPOverdefined"
  shows "describes_env g c (env(r \<mapsto> v))"
  using assms by (simp add: describes_env_def)

section \<open>Instructions\<close>

text \<open>The value an instruction is given, if any, apart from how the state is updated.\<close>

definition instr_value :: "generator \<Rightarrow> sccp_context \<Rightarrow> ir_node \<Rightarrow> sccp_value option" where
  "instr_value g c inst =
     (if IRIsIntConst inst
      then Some (if ir_value_state inst = ValueValid then SCCPConstant (IRIntConstValue inst) else SCCPOverdefined)
      else if ir_opcode inst = IR_phi
      then Some (if ir_value_state inst = ValueValid then EvaluatePhi g c inst else SCCPOverdefined)
      else if IRIsCall inst then Some SCCPOverdefined
      else if IRIsStore inst then (if ir_outputs inst \<noteq> [] then Some SCCPOverdefined else None)
      else if ir_value_state inst \<noteq> ValueValid then Some SCCPOverdefined
      else if ir_opcode inst = IR_ssavar \<or> IRIsBranch inst \<or> IRIsReturn inst \<or>
              ir_opcode inst = IR_label \<or> ir_opcode inst = IR_enter \<or> ir_opcode inst = IR_leave
      then None
      else if ir_dest inst \<noteq> 0 \<or> IRHasSideEffects (gen_nodes g) inst then Some SCCPOverdefined
      else if IsIntegerLoad inst
      then Some (if ir_inputs inst = [] \<or>
                    \<not> IsSafeSSASymbol g (VariableSymbol (node_at (gen_nodes g) (ir_inputs inst ! 0)))
                 then SCCPOverdefined else TruncateLoad inst (ValueOf g c (ir_inputs inst ! 0)))
      else if IsSupportedIntegerExpression inst then Some (EvaluateIntegerExpression g c inst)
      else if IRIsVariable inst
      then (if ir_opcode inst \<noteq> IR_ssavar \<and> ir_opcode inst \<noteq> IR_phi then Some SCCPOverdefined else None)
      else if IRIsExpression inst then Some SCCPOverdefined
      else None)"

definition defined_context :: "generator \<Rightarrow> ir_node \<Rightarrow> sccp_context \<Rightarrow> sccp_context" where
  "defined_context g inst c =
     (if IRIsIntConst inst \<or> ir_opcode inst = IR_phi then c else EvaluateDefinition g inst c)"

lemma EvaluateInstruction_value:
  "EvaluateInstruction g r c =
     (let inst = node_at (gen_nodes g) r; d = defined_context g inst c
      in case instr_value g d inst of None \<Rightarrow> d | Some v \<Rightarrow> UpdateValue g r v d)"
  unfolding EvaluateInstruction_def instr_value_def defined_context_def Let_def
  by (simp only: if_distrib [where f = "case_option _ _"] option.case if_distrib [where f = "\<lambda>v. UpdateValue _ _ v _"]
      simp_thms if_True if_False cong: if_cong split: if_split)

lemma defined_context_grows: "sccp_ok c \<Longrightarrow> sccp_ok (defined_context g inst c) \<and> grows g c (defined_context g inst c)"
  using EvaluateDefinition_grows grows_refl by (simp add: defined_context_def)

lemma EvaluateInstruction_fixed:
  assumes ok: "sccp_ok c" and fixed: "EvaluateInstruction g r c = c"
  shows "defined_context g (node_at (gen_nodes g) r) c = c"
    and "instr_value g c (node_at (gen_nodes g) r) = Some v \<Longrightarrow> UpdateValue g r v c = c"
proof -
  let ?inst = "node_at (gen_nodes g) r"
  let ?d = "defined_context g ?inst c"
  have d: "sccp_ok ?d" "grows g c ?d" using defined_context_grows [OF ok] by blast+
  have e: "EvaluateInstruction g r c = (case instr_value g ?d ?inst of None \<Rightarrow> ?d | Some v \<Rightarrow> UpdateValue g r v ?d)"
    by (simp add: EvaluateInstruction_value Let_def)
  have "grows g ?d c"
  proof (cases "instr_value g ?d ?inst")
    case None
    then have "?d = c" using e fixed by simp
    then show ?thesis by (simp add: grows_refl)
  next
    case (Some a)
    then have "UpdateValue g r a ?d = c" using e fixed by simp
    then show ?thesis using UpdateValue_grows [OF d(1), of g r a] by simp
  qed
  then show d_eq: "?d = c" using d(2) grows_antisym by blast
  show "UpdateValue g r v c = c" if "instr_value g c ?inst = Some v"
    using e fixed that d_eq by simp
qed

subsection \<open>Phi functions\<close>

lemma phi_loop_upper:
  "res \<le> phi_loop g c b res xs"
  "(p, i) \<in> set xs \<Longrightarrow> EdgeIsExecutable c p b \<Longrightarrow> ValueOf g c i \<le> phi_loop g c b res xs"
proof -
  have both: "res \<le> phi_loop g c b res xs \<and>
    ((p, i) \<in> set xs \<longrightarrow> EdgeIsExecutable c p b \<longrightarrow> ValueOf g c i \<le> phi_loop g c b res xs)"
  proof (induction xs arbitrary: res)
    case (Cons x xs)
    obtain q j where x: "x = (q, j)" by (cases x)
    show ?case
    proof (cases "EdgeIsExecutable c q b")
      case False
      then show ?thesis using Cons x by auto
    next
      case True
      let ?m = "MergeValue res (ValueOf g c j)"
      have m: "res \<le> ?m" "ValueOf g c j \<le> ?m"
        using sup_ge1 [of res "ValueOf g c j"] sup_ge2 [of "ValueOf g c j" res] by (simp_all add: sup_sccp_value_def)
      show ?thesis
      proof (cases "?m = SCCPOverdefined")
        case True
        then have "phi_loop g c b res (x # xs) = SCCPOverdefined" using x \<open>EdgeIsExecutable c q b\<close> by (simp add: Let_def)
        then show ?thesis by (simp add: less_eq_sccp_value_def)
      next
        case False
        then have r: "phi_loop g c b res (x # xs) = phi_loop g c b ?m xs"
          using x \<open>EdgeIsExecutable c q b\<close> by (simp add: Let_def)
        have "?m \<le> phi_loop g c b ?m xs" using Cons.IH by blast
        then show ?thesis unfolding r using Cons.IH [of ?m] m x by (auto intro: order_trans)
      qed
    qed
  qed simp
  then show "res \<le> phi_loop g c b res xs"
    "(p, i) \<in> set xs \<Longrightarrow> EdgeIsExecutable c p b \<Longrightarrow> ValueOf g c i \<le> phi_loop g c b res xs"
    by blast+
qed

lemma EvaluatePhi_runtime:
  "ir_inputs inst = [] \<or> length (ir_inputs inst) \<noteq> length (bb_in_edges (block_at g (ir_block inst))) \<Longrightarrow>
     EvaluatePhi g c inst = SCCPOverdefined"
  unfolding EvaluatePhi_def Let_def by (rule if_P)

lemma EvaluatePhi_describes:
  assumes block: "block_at g (ir_block inst) = b"
    and input: "(p, i) \<in> set (zip (bb_in_edges b) (ir_inputs inst))" and edge: "EdgeIsExecutable c p (bb_id b)"
    and v: "describes (ValueOf g c i) v"
  shows "describes (EvaluatePhi g c inst) v"
proof (cases "ir_inputs inst = [] \<or> length (ir_inputs inst) \<noteq> length (bb_in_edges b)")
  case False
  then have "EvaluatePhi g c inst = phi_loop g c (bb_id b) SCCPUndefined (zip (bb_in_edges b) (ir_inputs inst))"
    by (simp add: EvaluatePhi_def block)
  then show ?thesis using describes_mono [OF v] phi_loop_upper(2) [OF input edge] by simp
qed (simp add: EvaluatePhi_def block)

subsection \<open>Loads and operations\<close>

lemma TruncateLoad_describes:
  assumes "describes a w" "TruncateLoad inst (SCCPConstant w) = SCCPConstant v"
  shows "describes (TruncateLoad inst a) v"
  using assms by (auto simp: describes_def) (simp add: TruncateLoad_def)

lemma fold_constants_unary:
  assumes "is_unary inst"
  shows "fold_constants g inst x y = fold_constants g inst x y'"
proof -
  have "fold_integer pcs inst l w us L y = fold_integer pcs inst l w us L y'" for pcs l w us L
    using assms unfolding is_unary_def list.set insert_iff empty_iff simp_thms
    by (elim disjE) (simp_all add: fold_integer_def fold_count_def is_compare_def ir_op_defs)
  then show ?thesis using assms by (simp add: fold_constants_def)
qed

lemma operation_result_folds:
  assumes op: "IsSupportedIntegerExpression inst" and t: "op_kinds g inst = None \<or> op_types g inst \<noteq> None"
    and v: "operation_result g inst x y v"
  shows "fold_constants g inst x y \<in> {SCCPConstant v, SCCPOverdefined}"
proof (cases "op_kinds g inst")
  case None
  then show ?thesis using v by (simp add: operation_result_def)
next
  case (Some k)
  obtain u n u2 n2 u' n' where k: "k = ((u, n), (u2, n2), (u', n'))" by (cases k) auto
  have "op_types g inst = Some ((u, n), (u2, n2), (u', n'))"
    using t Some k by (auto simp: op_types_def split: if_splits)
  note f = fold_constants_typed [OF op this, of x y]
  show ?thesis
    using v unfolding operation_result_def Some k f by (auto simp: folds_to_def split: option.splits)
qed

lemma EvaluateIntegerExpression_describes:
  assumes env: "describes_env g c env" and op: "IsSupportedIntegerExpression inst"
    and t: "\<not> HasVariableOperand g inst \<Longrightarrow> op_kinds g inst = None \<or> op_types g inst \<noteq> None"
    and v: "operation_yields g inst env v"
  shows "describes (EvaluateIntegerExpression g c inst) v"
proof (cases "HasVariableOperand g inst")
  case True
  then show ?thesis using v by (simp add: EvaluateIntegerExpression_def operation_yields_def ReadOperands_def)
next
  case False
  let ?a = "ValueOf g c (ir_inputs inst ! 0)" and ?b = "ValueOf g c (ir_inputs inst ! 1)"
  obtain x y where xy: "env (ir_inputs inst ! 0) = Some x"
    "is_unary inst \<or> length (ir_inputs inst) > 1 \<and> env (ir_inputs inst ! 1) = Some y"
    "fold_constants g inst x y \<in> {SCCPConstant v, SCCPOverdefined}" and i: "ir_inputs inst \<noteq> []"
  proof -
    obtain x y where e: "env (ir_inputs inst ! 0) = Some x" "ir_inputs inst \<noteq> []"
      "(if is_unary inst then Some 0 else if length (ir_inputs inst) > 1 then env (ir_inputs inst ! 1) else None) = Some y"
      "operation_result g inst x y v"
      using v False by (auto simp: operation_yields_def split: option.splits prod.splits)
    show ?thesis
      by (rule that [of x y]) (use e operation_result_folds [OF op t [OF False] e(4)] in \<open>auto split: if_splits\<close>)
  qed
  have a: "describes ?a x" using describes_env_lookup [OF env] xy(1) by blast
  show ?thesis
  proof (cases "is_unary inst")
    case True
    have "fold_constants g inst x y' = fold_constants g inst x y" for y'
      by (rule fold_constants_unary [OF True])
    then show ?thesis
      using a xy(3) False i True
      by (auto simp: EvaluateIntegerExpression_def ReadOperands_def describes_def constant_of_def)
  next
    case False
    then have b: "describes ?b y" "length (ir_inputs inst) > 1" using describes_env_lookup [OF env] xy(2) by blast+
    show ?thesis
      using a b xy(3) \<open>\<not> HasVariableOperand g inst\<close> i False
      by (auto simp: EvaluateIntegerExpression_def ReadOperands_def describes_def constant_of_def)
  qed
qed

section \<open>Steps at a fixed point\<close>

lemma interpreted_value:
  assumes "yields inst" "sccp_evaluates g inst" "\<not> IRIsIntConst inst" "ir_opcode inst \<noteq> IR_phi"
  shows "instr_value g c inst = Some SCCPOverdefined \<or>
    interpreted g inst \<and>
    (if IsIntegerLoad inst
     then ir_inputs inst \<noteq> [] \<and> IsSafeSSASymbol g (VariableSymbol (node_at (gen_nodes g) (ir_inputs inst ! 0))) \<and>
          instr_value g c inst = Some (TruncateLoad inst (ValueOf g c (ir_inputs inst ! 0)))
     else IsSupportedIntegerExpression inst \<and> instr_value g c inst = Some (EvaluateIntegerExpression g c inst))"
proof (cases "IRIsCall inst \<or> IRIsStore inst \<or> ir_value_state inst \<noteq> ValueValid")
  case True
  then show ?thesis using assms by (auto simp: instr_value_def yields_def)
next
  case False
  then have "\<not> (ir_opcode inst = IR_ssavar \<or> IRIsBranch inst \<or> IRIsReturn inst \<or>
      ir_opcode inst = IR_label \<or> ir_opcode inst = IR_enter \<or> ir_opcode inst = IR_leave)"
    using assms(1) by (simp add: yields_def)
  with False assms(3,4) have v: "instr_value g c inst =
    (if ir_dest inst \<noteq> 0 \<or> IRHasSideEffects (gen_nodes g) inst then Some SCCPOverdefined
      else if IsIntegerLoad inst
      then Some (if ir_inputs inst = [] \<or>
                    \<not> IsSafeSSASymbol g (VariableSymbol (node_at (gen_nodes g) (ir_inputs inst ! 0)))
                 then SCCPOverdefined else TruncateLoad inst (ValueOf g c (ir_inputs inst ! 0)))
      else if IsSupportedIntegerExpression inst then Some (EvaluateIntegerExpression g c inst)
      else if IRIsVariable inst \<or> IRIsExpression inst then Some SCCPOverdefined
      else None)"
    by (simp add: instr_value_def)
  have e: "\<not> interpreted g inst \<or> IsIntegerLoad inst \<or> IsSupportedIntegerExpression inst \<or> IRIsVariable inst \<or> IRIsExpression inst"
    using assms(2-) False by (simp add: sccp_evaluates_def)
  show ?thesis unfolding v using e False by (auto simp: interpreted_def)
qed

lemma plain_variable_opcode:
  "plain_variable inst \<Longrightarrow> \<not> IRIsIntConst inst \<and> \<not> IsIntegerLoad inst \<and> \<not> IsSupportedIntegerExpression inst"
  by (auto simp: plain_variable_def IRIsVariable_def IRIsIntConst_def IRIsConst_def IsIntegerLoad_def
      IsSupportedIntegerExpression_def ir_op_defs)

lemma plain_variable_value:
  assumes "yields inst" "plain_variable inst" "sccp_evaluates g inst"
  shows "instr_value g c inst = Some SCCPOverdefined"
  using interpreted_value [OF assms(1,3)] plain_variable_opcode [OF assms(2)] assms(2)
  by (auto simp: plain_variable_def)

lemma own_value_described:
  assumes s: "describes_env g c (rs_env s)" "describes_env g c (rs_entry s)"
    and prev: "\<And>p. rs_prev s = Some p \<Longrightarrow> EdgeIsExecutable c p (rs_block s)"
    and id: "bb_id (block_at g (rs_block s)) = rs_block s"
    and phi: "ir_opcode (node_at (gen_nodes g) r) = IR_phi \<Longrightarrow> ir_block (node_at (gen_nodes g) r) = rs_block s"
    and y: "yields (node_at (gen_nodes g) r)" "sccp_evaluates g (node_at (gen_nodes g) r)"
    and t: "sccp_typed g (node_at (gen_nodes g) r)"
    and fixed: "\<And>a. instr_value g c (node_at (gen_nodes g) r) = Some a \<Longrightarrow> UpdateValue g r a c = c"
    and v: "own_value g s r v"
  shows "describes (ValueOf g c r) v"
proof -
  let ?inst = "node_at (gen_nodes g) r"
  consider "IRIsIntConst ?inst" | "\<not> IRIsIntConst ?inst" "ir_opcode ?inst = IR_phi"
    | "\<not> IRIsIntConst ?inst" "ir_opcode ?inst \<noteq> IR_phi" by blast
  then show ?thesis
  proof cases
    case 1
    then have "instr_value g c ?inst =
        Some (if ir_value_state ?inst = ValueValid then SCCPConstant v else SCCPOverdefined)"
      using v by (simp add: instr_value_def own_value_def Let_def)
    then show ?thesis using describes_updated [OF fixed] by (simp add: describes_def split: if_splits)
  next
    case 2
    have b: "block_at g (ir_block ?inst) = block_at g (rs_block s)" using phi [OF 2(2)] by simp
    have "phi_yields g s ?inst v" using v 2 by (simp add: own_value_def)
    then consider "ir_inputs ?inst = [] \<or> length (ir_inputs ?inst) \<noteq> length (bb_in_edges (block_at g (rs_block s)))"
      | p input where "rs_prev s = Some p" "rs_entry s input = Some v"
        "(p, input) \<in> set (zip (bb_in_edges (block_at g (rs_block s))) (ir_inputs ?inst))"
      by (auto simp: phi_yields_def Let_def list_ex_iff)
    then have "describes (EvaluatePhi g c ?inst) v"
    proof cases
      case 1
      then show ?thesis using EvaluatePhi_runtime [of ?inst g c] b by simp
    next
      case (2 p input)
      show ?thesis
      proof (rule EvaluatePhi_describes [OF b 2(3)])
        show "EdgeIsExecutable c p (bb_id (block_at g (rs_block s)))" using prev [OF 2(1)] id by simp
        show "describes (ValueOf g c input) v" by (rule describes_env_lookup [OF s(2) 2(2)])
      qed
    qed
    moreover have "instr_value g c ?inst =
        Some (if ir_value_state ?inst = ValueValid then EvaluatePhi g c ?inst else SCCPOverdefined)"
      using 2 by (simp add: instr_value_def)
    ultimately show ?thesis using describes_updated [OF fixed] by (simp split: if_splits)
  next
    case 3
    from interpreted_value [OF y 3, of c] consider "instr_value g c ?inst = Some SCCPOverdefined"
      | "interpreted g ?inst" "IsIntegerLoad ?inst"
        "ir_inputs ?inst \<noteq> []" "IsSafeSSASymbol g (VariableSymbol (node_at (gen_nodes g) (ir_inputs ?inst ! 0)))"
        "instr_value g c ?inst = Some (TruncateLoad ?inst (ValueOf g c (ir_inputs ?inst ! 0)))"
      | "interpreted g ?inst" "\<not> IsIntegerLoad ?inst" "IsSupportedIntegerExpression ?inst"
        "instr_value g c ?inst = Some (EvaluateIntegerExpression g c ?inst)"
      by (auto split: if_splits)
    then show ?thesis
    proof cases
      case 1
      then show ?thesis using describes_updated [OF fixed] by simp
    next
      case 2
      let ?d = "ir_inputs ?inst ! 0"
      have "load_yields g ?inst (rs_env s) v" using v 2 3 by (simp add: own_value_def)
      then obtain w where w: "rs_env s ?d = Some w"
        "ir_opcode (node_at (gen_nodes g) ?d) \<in> set [IR_ssavar, IR_phi] \<Longrightarrow>
           TruncateLoad ?inst (SCCPConstant w) = SCCPConstant v"
        using 2(4) by (auto simp: load_yields_def Let_def split: option.splits if_splits)
      have "describes (TruncateLoad ?inst (ValueOf g c ?d)) v"
      proof (cases "ir_opcode (node_at (gen_nodes g) ?d) \<in> set [IR_ssavar, IR_phi]")
        case True
        then show ?thesis using TruncateLoad_describes describes_env_lookup [OF s(1) w(1)] w(2) by blast
      next
        case False
        moreover have "VariableSymbol (node_at (gen_nodes g) ?d) \<noteq> 0" using 2(4) by (auto simp: IsSafeSSASymbol_def)
        ultimately have "plain_variable (node_at (gen_nodes g) ?d)"
          by (auto simp: VariableSymbol_def plain_variable_def IRIsVariable_def split: if_splits)
        then have "ValueOf g c ?d = SCCPOverdefined" using s(1) w(1) by (simp add: describes_env_def)
        then show ?thesis by (simp add: TruncateLoad_def)
      qed
      then show ?thesis using describes_updated [OF fixed [OF 2(5)]] by blast
    next
      case folded: 3
      then have o: "operation_yields g ?inst (rs_env s) v" using v folded 3 by (simp add: own_value_def)
      have "op_kinds g ?inst = None \<or> op_types g ?inst \<noteq> None" if "\<not> HasVariableOperand g ?inst"
        using t folded that by (simp add: sccp_typed_def)
      then show ?thesis
        using describes_updated [OF fixed [OF folded(4)]]
          EvaluateIntegerExpression_describes [OF s(1) folded(3) _ o] by blast
    qed
  qed
qed


lemma definition_described:
  assumes env: "describes_env g c env"
    and fixed: "defined_context g inst c = c" and d: "after_definition g inst env env'"
  shows "describes_env g c env'"
proof (cases "defines_version g inst")
  case True
  let ?d = "ir_inputs inst ! 0"
  have n: "\<not> (IRIsIntConst inst \<or> ir_opcode inst = IR_phi)" "\<not> (\<not> IRIsVarDef inst \<or> ir_inputs inst = [])"
    "\<not> (VariableSymbol (node_at (gen_nodes g) ?d) \<noteq> ir_var inst \<or> ir_opcode (node_at (gen_nodes g) ?d) \<noteq> IR_ssavar)"
    using True by (auto simp: defines_version_def Let_def)
  have c: "UpdateValue g ?d (if stores_scalar g inst then ValueOf g c (ir_inputs inst ! 1) else SCCPOverdefined) c = c"
    using fixed unfolding defined_context_def EvaluateDefinition_def Let_def stores_scalar_def
      if_not_P [OF n(1)] if_not_P [OF n(2)] if_not_P [OF n(3)] by (auto split: if_splits)
  obtain w where w: "env' = env(?d \<mapsto> w)" "stores_scalar g inst \<Longrightarrow> env (ir_inputs inst ! 1) = Some w"
    using d True by (auto simp: after_definition_def)
  have "describes (ValueOf g c ?d) w"
    using describes_updated [OF c] describes_env_lookup [OF env] w(2) by simp
  moreover have "\<not> plain_variable (node_at (gen_nodes g) ?d)" using n(3) by (simp add: plain_variable_def)
  ultimately show ?thesis unfolding w(1) using env by (intro describes_env_update) auto
next
  case False
  then show ?thesis using d env by (simp add: after_definition_def)
qed

section \<open>Edges\<close>

text \<open>A block an executable edge leads to is executable, all through the analysis.\<close>

definition edges_enter :: "sccp_context \<Rightarrow> bool" where
  "edges_enter c \<longleftrightarrow> sccp_ok c \<and>
     (\<forall>f t. t < sc_block_count c \<longrightarrow> EdgeIsExecutable c f t \<longrightarrow> t \<in> exec_blocks c)"

lemma edges_enter_UpdateValue: "edges_enter c \<Longrightarrow> edges_enter (UpdateValue g r v c)"
  by (auto simp: edges_enter_def UpdateValue_join sccp_ok_def EdgeIsExecutable_def EdgeIndex_def)

lemma edge_index_inject:
  assumes "t < n" "t' < n" "f * n + t = f' * n + (t' :: nat)"
  shows "t = t'"
proof -
  have "(f * n + t) mod n = (f' * n + t') mod n" using assms(3) by simp
  then show ?thesis using assms(1,2) by simp
qed

lemma edges_enter_MarkEdge:
  assumes "edges_enter c" "s < sc_block_count c"
  shows "edges_enter (MarkEdgeExecutable b s c)" "sc_block_count (MarkEdgeExecutable b s c) = sc_block_count c"
proof -
  show "sc_block_count (MarkEdgeExecutable b s c) = sc_block_count c" by (simp add: MarkEdgeExecutable_def Let_def)
  show "edges_enter (MarkEdgeExecutable b s c)"
  proof (cases "BitSetContains (sc_executable_edges c) (EdgeIndex c b s)")
    case True
    then show ?thesis using assms(1) by (simp add: MarkEdgeExecutable_def)
  next
    case False
    let ?c = "MarkEdgeExecutable b s c"
    have ok: "bs_ok (sc_executable_edges c)" "bs_ok (sc_executable_blocks c)"
      using assms(1) by (simp_all add: edges_enter_def sccp_ok_def)
    have c: "exec_edges ?c = insert (EdgeIndex c b s) (exec_edges c)" "exec_blocks ?c = insert s (exec_blocks c)"
      "sc_block_count ?c = sc_block_count c" "sccp_ok ?c"
      using False BitSetInsert_spec [OF ok(1)] BitSetInsert_spec [OF ok(2)]
      by (simp_all add: MarkEdgeExecutable_def sccp_ok_def Let_def)
    have "t \<in> exec_blocks ?c" if "t < sc_block_count c" "EdgeIsExecutable ?c f t" for f t
    proof -
      have "EdgeIndex c f t = EdgeIndex c b s \<or> EdgeIsExecutable c f t"
        using that(2) c by (auto simp: EdgeIsExecutable_def EdgeIndex_def BitSetContains_iff)
      then show ?thesis
        using that(1) assms edge_index_inject [of t "sc_block_count c" s f b] c(2)
        by (auto simp: edges_enter_def EdgeIndex_def)
    qed
    then show ?thesis using c by (simp add: edges_enter_def)
  qed
qed

definition edges_inside :: "generator \<Rightarrow> sccp_context \<Rightarrow> bool" where
  "edges_inside g c \<longleftrightarrow> edges_enter c \<and>
     (\<forall>b \<in> set (gen_basic_blocks g). \<forall>s \<in> set (bb_out_edges b). s < sc_block_count c)"

lemma edges_inside_UpdateValue: "edges_inside g c \<Longrightarrow> edges_inside g (UpdateValue g r v c)"
  using edges_enter_UpdateValue by (auto simp: edges_inside_def UpdateValue_join)

lemma edges_inside_EvaluateInstruction: "edges_inside g c \<Longrightarrow> edges_inside g (EvaluateInstruction g r c)"
proof -
  assume c: "edges_inside g c"
  have "edges_inside g (EvaluateDefinition g (node_at (gen_nodes g) r) c)"
    using c edges_inside_UpdateValue by (simp add: EvaluateDefinition_def Let_def)
  then show ?thesis using EvaluateInstruction_updates [of g r c] c edges_inside_UpdateValue by auto
qed

lemma edges_inside_MarkSuccessors:
  assumes "edges_inside g c" "b \<in> set (gen_basic_blocks g)"
  shows "edges_inside g (MarkSuccessors g b c)"
proof (cases rule: MarkSuccessors_shape [of g b c])
  case (2 ss)
  show ?thesis
    unfolding 2(1)
  proof (rule fold_invariant [where Q = "\<lambda>s. s \<in> set (bb_out_edges b)" and P = "edges_inside g"])
    fix s c assume "s \<in> set (bb_out_edges b)" "edges_inside g c"
    then show "edges_inside g (MarkEdgeExecutable (bb_id b) s c)"
      using edges_enter_MarkEdge [of c s "bb_id b"] assms(2) by (simp add: edges_inside_def)
  qed (use 2(2) assms(1) in auto)
qed (use assms in simp)

lemma edges_inside_round:
  assumes "edges_inside g c"
  shows "edges_inside g (analyze_round g c)"
  unfolding analyze_round_def
proof (rule fold_invariant [where Q = "\<lambda>b. b \<in> set (gen_basic_blocks g)" and P = "edges_inside g"])
  show "edges_inside g (c\<lparr>sc_changed := False\<rparr>)"
    using assms by (simp add: edges_inside_def edges_enter_def sccp_ok_def EdgeIsExecutable_def EdgeIndex_def)
  fix b c assume b: "b \<in> set (gen_basic_blocks g)" "edges_inside g c"
  have "edges_inside g (fold (EvaluateInstruction g) (block_insts g b) c)"
    by (rule fold_invariant [where Q = "\<lambda>_. True" and P = "edges_inside g"])
      (use b(2) edges_inside_EvaluateInstruction in auto)
  then show "edges_inside g (analyze_block g b c)"
    using edges_inside_MarkSuccessors b by (simp add: analyze_block_def)
qed

lemma edges_inside_loop:
  assumes "analyze_loop g c = Some c'"
  shows "edges_inside g c \<longrightarrow> edges_inside g c'"
proof (rule analyze_loop.raw_induct [OF _ assms, where P = "\<lambda>g c c'. edges_inside g c \<longrightarrow> edges_inside g c'"])
  fix f g c y
  assume f: "\<And>g c y. f g c = Some y \<Longrightarrow> edges_inside g c \<longrightarrow> edges_inside g y"
    and y: "(let c1 = analyze_round g c in if sc_changed c1 then f g c1 else Some c1) = Some y"
  show "edges_inside g c \<longrightarrow> edges_inside g y"
    using f [of g "analyze_round g c" y] y edges_inside_round [of g c] by (auto simp: Let_def split: if_splits)
qed


lemma mark_all_fixed:
  fixes g :: generator
  assumes "sccp_ok c" "b \<in> set (gen_basic_blocks g)" "set ss \<subseteq> set (bb_out_edges b)"
    and "mark_all (bb_id b) ss c = c" "t \<in> set ss"
  shows "EdgeIsExecutable c (bb_id b) t"
proof -
  have "\<forall>s \<in> set ss. cfg_edge g (bb_id b) s" using assms(2,3) by (auto simp: cfg_edge_def)
  then have "MarkEdgeExecutable (bb_id b) t c = c"
    using edges.fold_fixed [of ss g "bb_id b" c t] assms by (simp add: mark_all_def)
  then show ?thesis by (rule MarkEdgeExecutable_fixed [OF assms(1)])
qed

lemma successors_executable:
  assumes ok: "sccp_ok c" and b: "b \<in> set (gen_basic_blocks g)" and fixed: "MarkSuccessors g b c = c"
    and env: "describes_env g c env" and t: "t \<in> set (successors g b env)"
    and e: "bb_out_edges b \<noteq> [] \<Longrightarrow> bb_end_code b \<noteq> 0"
    and d: "IRIsConditionalBranch (node_at (gen_nodes g) (bb_end_code b)) \<Longrightarrow> distinct (bb_out_edges b)"
  shows "EdgeIsExecutable c (bb_id b) t \<and> t \<in> set (bb_out_edges b)"
proof -
  let ?tm = "node_at (gen_nodes g) (bb_end_code b)"
  have out: "t \<in> set (bb_out_edges b)"
    using t by (auto simp: successors_def Let_def split: if_splits option.splits dest: subsetD [OF set_remove1_subset])
  then have "bb_out_edges b \<noteq> []" by auto
  then have ne: "\<not> (bb_out_edges b = [] \<or> bb_end_code b = 0)" using e by blast
  note all = mark_all_fixed [OF ok b]
  note m = fixed [unfolded MarkSuccessors_def Let_def if_not_P [OF ne]]
  have "EdgeIsExecutable c (bb_id b) t"
  proof (cases "IRIsConditionalBranch ?tm \<and> length (ir_inputs ?tm) \<ge> 2")
    case False
    show ?thesis by (rule all [OF subset_refl m [unfolded if_not_P [OF False]] out])
  next
    case cond: True
    show ?thesis
    proof (cases "length (bb_out_edges b) = 1")
      case True
      then have "t = bb_out_edges b ! 0" using out by (auto simp: length_Suc_conv)
      then show ?thesis
        using MarkEdgeExecutable_fixed [OF ok m [unfolded if_P [OF cond] if_P [OF True]]] by simp
    next
      case False
      let ?target = "bb_id (block_at g (ir_block (node_at (gen_nodes g) (ir_inputs ?tm ! 1))))"
      obtain k where k: "env (ir_inputs ?tm ! 0) = Some k"
        "t \<in> set (if branch_taken ?tm k then filter ((=) ?target) (bb_out_edges b) else remove1 ?target (bb_out_edges b))"
      proof -
        have c3: "IRIsConditionalBranch ?tm \<and> length (ir_inputs ?tm) \<ge> 2 \<and> length (bb_out_edges b) \<noteq> 1"
          using cond False by blast
        note t1 = t [unfolded successors_def Let_def if_P [OF c3]]
        show ?thesis
        proof (cases "env (ir_inputs ?tm ! 0)")
          case None
          then show ?thesis using t1 by simp
        next
          case (Some k)
          show ?thesis by (rule that [OF Some t1 [unfolded Some option.case]])
        qed
      qed
      have t': "(t = ?target) = branch_taken ?tm k"
        using k(2) d cond by (auto simp: set_remove1_eq split: if_splits)
      have "describes (ValueOf g c (ir_inputs ?tm ! 0)) k" by (rule describes_env_lookup [OF env k(1)])
      then consider "ValueOf g c (ir_inputs ?tm ! 0) = SCCPConstant k" | "ValueOf g c (ir_inputs ?tm ! 0) = SCCPOverdefined"
        by (auto simp: describes_def)
      then show ?thesis
      proof cases
        case 1
        let ?ss = "filter (\<lambda>s. (s = ?target) = branch_taken ?tm k) (bb_out_edges b)"
        have "mark_all (bb_id b) ?ss c = c"
          using m [unfolded if_P [OF cond] if_not_P [OF False] 1 sccp_value.case] .
        moreover have "t \<in> set ?ss" using out t' by simp
        ultimately show ?thesis using all [of ?ss] by auto
      next
        case 2
        show ?thesis
          by (rule all [OF subset_refl m [unfolded if_P [OF cond] if_not_P [OF False] 2 sccp_value.case] out])
      qed
    qed
  qed
  then show ?thesis using out by blast
qed

section \<open>The invariant\<close>

definition described_state :: "generator \<Rightarrow> sccp_context \<Rightarrow> run_state \<Rightarrow> bool" where
  "described_state g c s \<longleftrightarrow>
     rs_block s < length (gen_basic_blocks g) \<and> rs_block s \<in> exec_blocks c \<and>
     set (rs_rest s) \<subseteq> set (block_insts g (block_at g (rs_block s))) \<and>
     (\<forall>p. rs_prev s = Some p \<longrightarrow> EdgeIsExecutable c p (rs_block s)) \<and>
     describes_env g c (rs_entry s) \<and> describes_env g c (rs_env s)"

lemma sccp_programD:
  assumes "sccp_program g"
  shows "gen_entry_block g < length (gen_basic_blocks g)"
    and "i < length (gen_basic_blocks g) \<Longrightarrow> bb_id (block_at g i) = i \<and> block_at g i \<in> set (gen_basic_blocks g)"
    and "b \<in> set (gen_basic_blocks g) \<Longrightarrow> s \<in> set (bb_out_edges b) \<Longrightarrow> s < length (gen_basic_blocks g)"
    and "b \<in> set (gen_basic_blocks g) \<Longrightarrow> bb_out_edges b \<noteq> [] \<Longrightarrow> bb_end_code b \<noteq> 0"
    and "b \<in> set (gen_basic_blocks g) \<Longrightarrow> IRIsConditionalBranch (node_at (gen_nodes g) (bb_end_code b)) \<Longrightarrow>
      distinct (bb_out_edges b)"
    and "b \<in> set (gen_basic_blocks g) \<Longrightarrow> r \<in> set (block_insts g b) \<Longrightarrow>
      (ir_opcode (node_at (gen_nodes g) r) = IR_phi \<longrightarrow> ir_block (node_at (gen_nodes g) r) = bb_id b) \<and>
      (yields (node_at (gen_nodes g) r) \<longrightarrow>
         sccp_evaluates g (node_at (gen_nodes g) r) \<and> sccp_typed g (node_at (gen_nodes g) r))"
  using assms by (auto simp: sccp_program_def list_all_iff Let_def block_at_def)

lemma step_described:
  assumes g: "sccp_program g" and c: "edges_inside g c" "sc_block_count c = length (gen_basic_blocks g)"
    and fixed: "\<And>b. b \<in> set (gen_basic_blocks g) \<Longrightarrow> bb_id b \<in> exec_blocks c \<Longrightarrow>
      (\<forall>r \<in> set (block_insts g b). EvaluateInstruction g r c = c) \<and> MarkSuccessors g b c = c"
    and s: "described_state g c s" and step: "run_step g s s'"
  shows "described_state g c s'"
proof -
  let ?b = "block_at g (rs_block s)"
  have ok: "sccp_ok c" using c(1) by (simp add: edges_inside_def edges_enter_def)
  have b: "bb_id ?b = rs_block s" "?b \<in> set (gen_basic_blocks g)" and x: "bb_id ?b \<in> exec_blocks c"
    using sccp_programD(2) [OF g] s by (auto simp: described_state_def)
  have env: "describes_env g c (rs_env s)" "describes_env g c (rs_entry s)"
    and prev: "\<And>p. rs_prev s = Some p \<Longrightarrow> EdgeIsExecutable c p (rs_block s)"
    using s by (auto simp: described_state_def)
  from step show ?thesis
  proof (cases rule: run_step_cases [consumes 1, case_names instruction leave])
    case (instruction r rest env')
    let ?inst = "node_at (gen_nodes g) r"
    have r: "r \<in> set (block_insts g ?b)" using s instruction(2) by (auto simp: described_state_def)
    note f = EvaluateInstruction_fixed [OF ok bspec [OF conjunct1 [OF fixed [OF b(2) x]] r]]
    note w = sccp_programD(6) [OF g b(2) r, unfolded b(1)]
    obtain e where e: "after_definition g ?inst (rs_env s) e"
      "if yields ?inst then (\<exists>v. own_value g s r v \<and> env' = e(r \<mapsto> v)) else env' = e"
      using instruction(3) by (auto simp: after_instruction_def)
    have de: "describes_env g c e" by (rule definition_described [OF env(1) f(1) e(1)])
    have "describes_env g c env'"
    proof (cases "yields ?inst")
      case True
      then obtain v where v: "own_value g s r v" "env' = e(r \<mapsto> v)" using e(2) by auto
      have y: "sccp_evaluates g ?inst" "sccp_typed g ?inst" using w True by blast+
      have "describes (ValueOf g c r) v"
        by (rule own_value_described [OF env prev b(1) _ True y f(2) v(1)]) (use w in simp_all)
      moreover have "ValueOf g c r = SCCPOverdefined" if "plain_variable ?inst"
        using UpdateValue_fixed [OF f(2) [OF plain_variable_value [OF True that y(1)]]]
        by (auto simp: less_eq_sccp_value_def)
      ultimately show ?thesis unfolding v(2) by (rule describes_env_update [OF de])
    next
      case False
      then show ?thesis using e(2) de by simp
    qed
    then show ?thesis using s instruction(1,2) by (auto simp: described_state_def)
  next
    case (leave t)
    have t: "EdgeIsExecutable c (rs_block s) t" "t \<in> set (bb_out_edges ?b)"
      using successors_executable [OF ok b(2) conjunct2 [OF fixed [OF b(2) x]] env(1) leave(3)
        sccp_programD(4) [OF g b(2)] sccp_programD(5) [OF g b(2)]] b(1) by auto
    have "t < length (gen_basic_blocks g)" by (rule sccp_programD(3) [OF g b(2) t(2)])
    moreover from this have "t \<in> exec_blocks c"
      using c t(1) by (simp add: edges_inside_def edges_enter_def)
    ultimately show ?thesis using t(1) env(1) leave(1) by (simp add: described_state_def)
  qed
qed

end
