(* ===== verification/SccpTheorems.thy ===== *)
theory SccpTheorems
  imports SccpRun IrGraphTheorems
begin

text \<open>
  The properties of the constant propagation: it ends at a fixed point, folds as C computes,
  and what it says of values and edges holds on executions.
\<close>

section \<open>Folding\<close>

text \<open>C15. Folding an operation of the pass (integer or address) on two constants gives exactly
  what C computes from the integers the constants stand for at the types of the operands,
  wrapped to the type of the result.  Where C gives no value it gives no constant (division
  by zero, the overflowing quotient of 64 bits, a shift by a negative amount or by the width
  or more), except that a quotient overflowing a narrower width is folded to the wrapped
  quotient.  The types are ordinary integers, or 64-bit pointers for the operations on
  addresses; divisions and comparisons have operands of one signedness; a logical shift is
  of an unsigned type or 64 bits wide, an arithmetic one of a signed type or 64 bits wide; a
  sign extension changes the width; and the result of address arithmetic has 64 bits.\<close>

theorem fold_constants_is_C_arithmetic:
  fixes v w :: u64
  assumes op: "IsSupportedIntegerExpression inst" and t: "op_types g inst = Some ((u, n), (u2, n2), (u', n'))"
  defines "x \<equiv> int_of u n v" and "y \<equiv> int_of u2 n2 w"
  shows "fold_constants g inst v w =
    (case c_arith (ir_opcode inst) u n n' x y of
       Some k \<Rightarrow> SCCPConstant (word_of_int (c_wrap u' n' k))
     | None \<Rightarrow>
         (if ir_opcode inst \<in> set [IR_divi, IR_modi] \<and> y \<noteq> 0 \<and> n < 64
          then SCCPConstant (word_of_int (c_wrap u' n' (if ir_opcode inst = IR_divi then x sdiv y else x smod y)))
          else SCCPOverdefined))"
proof -
  have "c_arith IR_divi u n n' x y \<in> {None, Some (x sdiv y)}" "c_arith IR_modi u n n' x y \<in> {None, Some (x smod y)}"
    by (simp_all add: c_arith_def ir_op_defs)
  then show ?thesis
    unfolding fold_constants_typed [OF op t] folds_to_def wrapped_arith_def x_def [symmetric] y_def [symmetric]
    by (auto split: option.splits)
qed

text \<open>A small program on \<open>unsigned\<close> words.\<close>

definition uint_type :: type_record where
  "uint_type = TypeRecord (Bit_Operations.or kTypeInt kTypeUnsigned) 0 DeclPrimitive 4 0 None"

definition sccp_node :: "int \<Rightarrow> ir_op \<Rightarrow> node_ref list \<Rightarrow> node_ref list \<Rightarrow> nat \<Rightarrow> u64 \<Rightarrow> ir_node" where
  "sccp_node i opcode is os b v =
     \<lparr>ir_id = i, ir_opcode = opcode, ir_inputs = is, ir_outputs = os, ir_block = b,
      ir_type = Some uint_type, ir_value_state = ValueValid, ir_flags = 0, ir_var = 0, ir_dest = 0,
      ir_ivalue = v, ir_symbol_ref = 0\<rparr>"

definition var_node :: "symbol_ref \<Rightarrow> ir_node \<Rightarrow> ir_node" where
  "var_node symbol n = n\<lparr>ir_symbol_ref := symbol\<rparr>"

definition def_node :: "symbol_ref \<Rightarrow> ir_node \<Rightarrow> ir_node" where
  "def_node symbol n = n\<lparr>ir_flags := kIRVarDef, ir_var := symbol\<rparr>"

definition sccp_block :: "nat \<Rightarrow> nat list \<Rightarrow> nat list \<Rightarrow> node_ref \<Rightarrow> node_ref \<Rightarrow> basic_block" where
  "sccp_block i ie oe code end_code =
     (demo_block i code end_code)\<lparr>bb_in_edges := ie, bb_out_edges := oe\<rparr>"

text \<open>
  The code of \<open>x = 1; if (c) { if (w) x = 2; } return x;\<close> after the conversion to SSA form,
  where the word \<open>w\<close> is computed from \<open>*p\<close> and the constant 2 by the given operation.
\<close>

definition sccp_demo :: "ir_op \<Rightarrow> generator" where
  "sccp_demo operation =
     \<lparr>gen_nodes =
       [2 \<mapsto> sccp_node 0 IR_const32 [] [8] 0 1, 3 \<mapsto> sccp_node 1 IR_const32 [] [13, 13, 15] 0 2,
        4 \<mapsto> var_node 6 (sccp_node 2 IR_argument [] [11] 0 0),
        5 \<mapsto> var_node 7 (sccp_node 3 IR_argument [] [9] 0 0),
        6 \<mapsto> var_node 5 (sccp_node 4 IR_ssavar [] [8, 17, 17] 0 0),
        7 \<mapsto> var_node 5 (sccp_node 5 IR_ssavar [] [15, 17] 0 0),
        8 \<mapsto> def_node 5 (sccp_node 6 IR_store32 [6, 2] [] 0 0),
        9 \<mapsto> sccp_node 7 IR_load32 [5] [10] 0 0, 10 \<mapsto> sccp_node 8 IR_bfalse [9, 16] [] 0 0,
        11 \<mapsto> sccp_node 9 IR_loada [4] [12] 1 0, 12 \<mapsto> sccp_node 10 IR_load32 [11] [13] 1 0,
        13 \<mapsto> sccp_node 11 operation [12, 3, 3] [14] 1 0, 14 \<mapsto> sccp_node 12 IR_bfalse [13, 16] [] 1 0,
        15 \<mapsto> def_node 5 (sccp_node 13 IR_store32 [7, 3] [] 2 0),
        16 \<mapsto> sccp_node 14 IR_label [] [10, 14] 3 0,
        17 \<mapsto> var_node 5 (sccp_node 15 IR_phi [6, 6, 7] [18] 3 0),
        18 \<mapsto> sccp_node 16 IR_load32 [17] [19] 3 0, 19 \<mapsto> sccp_node 17 IR_ret [18] [] 3 0],
      gen_code = [2, 3, 4, 5, 6, 7, 8, 9, 10, 11, 12, 13, 14, 15, 16, 17, 18, 19],
      gen_last_constant = 3, gen_last_variable = 5,
      gen_basic_blocks = [sccp_block 0 [] [1, 3] 2 10, sccp_block 1 [0] [2, 3] 11 14,
                          sccp_block 2 [1] [3] 15 15, sccp_block 3 [0, 1, 2] [] 16 19],
      gen_entry_block = 0, gen_symbols = (\<lambda>_. demo_symbol), gen_plain_char_is_signed = True,
      gen_exit_block = 3, gen_exception_ranges = [], gen_next_ir_id = 0\<rparr>"

text \<open>An instruction of it with other types: signed words, as far as folding looks at them.\<close>

definition sint_type :: type_record where
  "sint_type = TypeRecord kTypeInt 0 DeclPrimitive 4 0 None"

definition sint_demo :: generator where
  "sint_demo = (sccp_demo IR_divi)\<lparr>gen_nodes := (\<lambda>n. map_option (\<lambda>i. i\<lparr>ir_type := Some sint_type\<rparr>) (gen_nodes (sccp_demo IR_divi) n))\<rparr>"

lemma fold_constants_is_C_arithmetic_witness:
  "fold_constants (sccp_demo IR_subi) (sccp_node 11 IR_subi [12, 3, 3] [14] 1 0) 5 7 = SCCPConstant 4294967294 \<and>
   fold_constants sint_demo ((sccp_node 11 IR_divi [12, 3, 3] [14] 1 0)\<lparr>ir_type := Some sint_type\<rparr>)
     (push_bit 31 1) (- 1) = SCCPConstant (- (push_bit 31 1))"
proof
  let ?g = "sccp_demo IR_subi" and ?inst = "sccp_node 11 IR_subi [12, 3, 3] [14] 1 0"
  have t: "op_types ?g ?inst = Some ((True, 32), (True, 32), (True, 32))" "IsSupportedIntegerExpression ?inst"
    by code_simp+
  have "c_arith (ir_opcode ?inst) True 32 32 (int_of True 32 5) (int_of True 32 7) = Some (- 2)"
    by (simp add: sccp_node_def c_arith_def ir_op_defs int_of_def c_wrap_def take_bit_eq_mod)
  then show "fold_constants ?g ?inst 5 7 = SCCPConstant 4294967294"
    using fold_constants_is_C_arithmetic [OF t(2,1), of 5 7] by (simp add: c_wrap_def take_bit_eq_mod)
next
  let ?inst = "(sccp_node 11 IR_divi [12, 3, 3] [14] 1 0)\<lparr>ir_type := Some sint_type\<rparr>"
  have t: "op_types sint_demo ?inst = Some ((False, 32), (False, 32), (False, 32))" "IsSupportedIntegerExpression ?inst"
    "ir_opcode ?inst = IR_divi" by code_simp+
  have i: "int_of False 32 (push_bit 31 1) = - (2 ^ 31)" "int_of False 32 (- 1) = - 1" by code_simp+
  have "c_arith IR_divi False 32 32 (- (2 ^ 31)) (- 1) = None" by (simp add: c_arith_def ir_op_defs)
  moreover have "word_of_int (c_wrap False 32 (- (2 ^ 31) sdiv - 1)) = (- (push_bit 31 1) :: u64)" by code_simp
  ultimately show "fold_constants sint_demo ?inst (push_bit 31 1) (- 1) = SCCPConstant (- (push_bit 31 1))"
    using fold_constants_is_C_arithmetic [OF t(2,1), of "push_bit 31 1" "- 1"] t(3) i by simp
qed

section \<open>Termination\<close>

lemma InitializeValues_keeps:
  "sc_executable_blocks (InitializeValues g c) = sc_executable_blocks c \<and>
   sc_executable_edges (InitializeValues g c) = sc_executable_edges c \<and>
   sc_block_count (InitializeValues g c) = sc_block_count c \<and>
   length (sc_values (InitializeValues g c)) = length (sc_values c)"
proof -
  have "sc_executable_blocks (fold f rs c) = sc_executable_blocks c \<and>
     sc_executable_edges (fold f rs c) = sc_executable_edges c \<and>
     sc_block_count (fold f rs c) = sc_block_count c \<and>
     length (sc_values (fold f rs c)) = length (sc_values c)"
    if "\<And>r c. sc_executable_blocks (f r c) = sc_executable_blocks c \<and>
     sc_executable_edges (f r c) = sc_executable_edges c \<and>
     sc_block_count (f r c) = sc_block_count c \<and> length (sc_values (f r c)) = length (sc_values c)"
    for f :: "node_ref \<Rightarrow> sccp_context \<Rightarrow> sccp_context" and rs c
    using that by (induction rs arbitrary: c) simp_all
  then show ?thesis unfolding InitializeValues_def by (simp add: Let_def)
qed

lemma sccp_fixed_point:
  "\<exists>c. sccp_analysis g = Some c \<and> sccp_ok c \<and>
     bb_id (block_at g (gen_entry_block g)) \<in> exec_blocks c \<and>
     sc_block_count c = length (gen_basic_blocks g) \<and> length (sc_values c) = max_node_id g + 1 \<and>
     (\<forall>b \<in> set (gen_basic_blocks g). bb_id b \<in> exec_blocks c \<longrightarrow>
        (\<forall>r \<in> set (block_insts g b). EvaluateInstruction g r c = c) \<and> MarkSuccessors g b c = c)"
proof -
  let ?c0 = "InitializeValues g (sccp_start g)" and ?e = "bb_id (block_at g (gen_entry_block g))"
  let ?c = "?c0\<lparr>sc_executable_blocks := BitSetInsert (sc_executable_blocks ?c0) ?e\<rparr>"
  note k = InitializeValues_keeps [of g "sccp_start g"]
  have ok: "bs_ok BitSetInit" by simp
  have c: "sccp_ok ?c" "?e \<in> exec_blocks ?c"
    using k ok by (simp_all add: sccp_ok_def sccp_start_def BitSetInsert_spec)
  obtain c' where c': "analyze_loop g ?c = Some c'" "sccp_ok c'" "analyze_round g c' = c'"
    "values_le (sc_values ?c) (sc_values c')" "exec_blocks ?c \<subseteq> exec_blocks c'"
    "sc_block_count c' = sc_block_count ?c"
    using analyze_loop_terminates [OF c(1), of g] by blast
  have "sccp_analysis g = Some c'" using c'(1) by (simp add: sccp_analysis_def Analyze_def)
  moreover have "sc_block_count c' = length (gen_basic_blocks g)" "length (sc_values c') = max_node_id g + 1"
    using c'(6) values_le_length [OF c'(4)] k by (simp_all add: sccp_start_def)
  moreover have "?e \<in> exec_blocks c'" using c(2) c'(5) by blast
  ultimately show ?thesis using c'(2) analyze_round_fixed [OF c'(2,3)] by blast
qed

text \<open>C18. The analysis ends on every program, whatever the shape of its control-flow graph.  The
  entry block is executable in the result, and the result is a fixed point: evaluating an
  instruction of an executable block again, or marking the successors of such a block
  again, changes nothing.\<close>

theorem sccp_analysis_terminates:
  "\<exists>c. sccp_analysis g = Some c \<and> sccp_ok c \<and>
     bb_id (block_at g (gen_entry_block g)) \<in> exec_blocks c \<and>
     sc_block_count c = length (gen_basic_blocks g) \<and> length (sc_values c) = max_node_id g + 1 \<and>
     (\<forall>b \<in> set (gen_basic_blocks g). bb_id b \<in> exec_blocks c \<longrightarrow>
        (\<forall>r \<in> set (block_insts g b). EvaluateInstruction g r c = c) \<and> MarkSuccessors g b c = c)"
  by (rule sccp_fixed_point)

lemma sccp_analysis_terminates_witness:
  "\<exists>c. sccp_analysis (sccp_demo IR_andi) = Some c \<and>
     (\<forall>r \<in> {2..10}. EvaluateInstruction (sccp_demo IR_andi) r c = c) \<and> length (sc_values c) = 18"
proof -
  let ?g = "sccp_demo IR_andi" and ?b = "sccp_block 0 [] [1, 3] 2 10"
  have b: "?b \<in> set (gen_basic_blocks ?g)" by (simp add: sccp_demo_def)
  have i: "bb_id (block_at ?g (gen_entry_block ?g)) = 0" "bb_id ?b = 0" "max_node_id ?g + 1 = 18"
    "set (block_insts ?g ?b) = {2..10}" by code_simp+
  show ?thesis using sccp_analysis_terminates [of ?g] b i by (metis (no_types, lifting))
qed

section \<open>Soundness\<close>


text \<open>The choices of a run that takes both branches of the program above.\<close>

definition demo_choices :: "choice list" where
  "demo_choices =
     [Instr 1 0, Instr 2 0, Instr 7 0, Instr 7 0, Instr 7 0, Instr 7 0, Instr 7 1, Instr 7 1, Instr 0 0,
      Leave 1, Instr 7 7, Instr 6 7, Instr 2 0, Instr 0 0, Leave 2, Instr 0 2, Leave 3, Instr 0 0, Instr 2 0]"


section \<open>Bit fields\<close>

text \<open>The analysis of the program above with a bit field for \<open>w\<close>, block by block.\<close>

definition bf_gen :: generator where
  "bf_gen = sccp_demo IR_getbit"

definition bf_context :: "u64 \<Rightarrow> u64 list option \<Rightarrow> sccp_value list \<Rightarrow> bool \<Rightarrow> sccp_context" where
  "bf_context bs es vs ch =
     \<lparr>sc_values = vs, sc_block_count = 4, sc_executable_blocks = \<lparr>bs_value = Some [bs], bs_capacity = 1\<rparr>,
      sc_executable_edges = \<lparr>bs_value = es, bs_capacity = (if es = None then 0 else 1)\<rparr>, sc_changed = ch\<rparr>"

definition bf_values :: "sccp_value \<Rightarrow> sccp_value \<Rightarrow> sccp_value \<Rightarrow> sccp_value list" where
  "bf_values v0 v1 v3 =
     [SCCPConstant 1, SCCPConstant 2, SCCPOverdefined, SCCPOverdefined, (if v0 = bot then bot else SCCPConstant 1), bot,
      bot, v0, bot, v1, v1, bot, bot, bot, bot, v3, v3, bot]"

definition bf_start :: sccp_context where
  "bf_start = bf_context 1 None (bf_values bot bot bot) False"

definition bf_after_0 :: sccp_context where
  "bf_after_0 = bf_context 11 (Some [10]) (bf_values top bot bot) True"

definition bf_after_1 :: sccp_context where
  "bf_after_1 = bf_context 11 (Some [10]) (bf_values top top bot) True"

definition bf_end :: "bool \<Rightarrow> sccp_context" where
  "bf_end = bf_context 11 (Some [10]) (bf_values top top (SCCPConstant 1))"

lemma bf_blocks: "gen_basic_blocks bf_gen = map (block_at bf_gen) [0, 1, 2, 3]"
  by (simp add: bf_gen_def sccp_demo_def block_at_def)

lemma bf_init:
  "(let c = InitializeValues bf_gen (sccp_start bf_gen)
    in c\<lparr>sc_executable_blocks := BitSetInsert (sc_executable_blocks c) (bb_id (block_at bf_gen (gen_entry_block bf_gen)))\<rparr>) = bf_start"
  by code_simp

lemma bf_block_0: "analyze_block bf_gen (block_at bf_gen 0) bf_start = bf_after_0"
  by code_simp

lemma bf_block_1: "analyze_block bf_gen (block_at bf_gen 1) bf_after_0 = bf_after_1"
  by code_simp

lemma bf_block_2: "analyze_block bf_gen (block_at bf_gen 2) bf_after_1 = bf_after_1"
  by code_simp

lemma bf_block_3: "analyze_block bf_gen (block_at bf_gen 3) bf_after_1 = bf_end True"
  by code_simp

lemma bf_end_0: "analyze_block bf_gen (block_at bf_gen 0) (bf_end False) = bf_end False"
  by code_simp

lemma bf_end_1: "analyze_block bf_gen (block_at bf_gen 1) (bf_end False) = bf_end False"
  by code_simp

lemma bf_end_2: "analyze_block bf_gen (block_at bf_gen 2) (bf_end False) = bf_end False"
  by code_simp

lemma bf_end_3: "analyze_block bf_gen (block_at bf_gen 3) (bf_end False) = bf_end False"
  by code_simp

lemma bf_analysis: "sccp_analysis bf_gen = Some (bf_end False)"
proof -
  have "bf_start\<lparr>sc_changed := False\<rparr> = bf_start" "(bf_end True)\<lparr>sc_changed := False\<rparr> = bf_end False"
    "sc_changed (bf_end True)" "\<not> sc_changed (bf_end False)"
    by (simp_all add: bf_start_def bf_end_def bf_context_def)
  moreover from this have "analyze_round bf_gen bf_start = bf_end True" "analyze_round bf_gen (bf_end True) = bf_end False"
    unfolding analyze_round_def bf_blocks
    by (simp_all only: list.map fold_simps bf_block_0 bf_block_1 bf_block_2 bf_block_3 bf_end_0 bf_end_1 bf_end_2 bf_end_3)
  ultimately have "analyze_loop bf_gen bf_start = Some (bf_end False)"
    by (subst analyze_loop.simps, subst analyze_loop.simps) (simp add: Let_def)
  then show ?thesis using bf_init by (simp add: sccp_analysis_def Analyze_def Let_def)
qed

text \<open>The condition on the instructions is needed.  A read of a bit field (\<open>getbit\<close>) is no
  expression to \<open>IRIsExpression\<close>, so the analysis never gives it a value and never marks
  an edge out of a branch on it.  In the program above the variable is then found to be the constant 1 at its
  use after the branches, which the pass puts in place of the load, although executions that
  assign 2 reach it.\<close>

lemma bit_field_branch_ignored:
  "\<exists>c s. sccp_analysis (sccp_demo IR_getbit) = Some c \<and>
     ValueOf (sccp_demo IR_getbit) c 18 = SCCPConstant 1 \<and>
     IsRewritableConstant (sccp_demo IR_getbit) (node_at (gen_nodes (sccp_demo IR_getbit)) 18) \<and>
     \<not> EdgeIsExecutable c 1 2 \<and>
     (run_step (sccp_demo IR_getbit))\<^sup>*\<^sup>* (run_start (sccp_demo IR_getbit)) s \<and>
     rs_prev s = Some 2 \<and> rs_env s 17 = Some 2"
proof -
  let ?g = "sccp_demo IR_getbit"
  obtain s where s: "follow ?g (run_start ?g) demo_choices = Some s" "rs_env s 17 = Some 2" "rs_prev s = Some 2"
  proof -
    have "case follow ?g (run_start ?g) demo_choices of
        None \<Rightarrow> False | Some s \<Rightarrow> rs_env s 17 = Some 2 \<and> rs_prev s = Some 2"
      by code_simp
    then show ?thesis using that by (auto split: option.splits)
  qed
  have "ValueOf ?g (bf_end False) 18 = SCCPConstant 1" "\<not> EdgeIsExecutable (bf_end False) 1 2"
    "IsRewritableConstant ?g (node_at (gen_nodes ?g) 18)"
    by code_simp+
  then show ?thesis using bf_analysis [unfolded bf_gen_def] follow_runs [OF s(1)] s(2,3) by blast
qed

end
