(* ===== verification/StrengthReduction.thy ===== *)
theory StrengthReduction
  imports Sccp
begin

text \<open>
  Strength reduction (\<open>optimization/optimizer.c\<close>): division by a constant as a multiplication
  with a magic number and shifts, and the cheaper forms of the other integer operations.  The
  nodes the pass reads and emits for one instruction are an expression; the instruction is
  replaced by the value of the new expression.
\<close>

section \<open>Expressions\<close>

text \<open>
  \<open>EVar\<close> is any node the pass does not look into, identified by its reference.
\<close>

datatype ir_expr =
    EVar node_ref "type_record option"
  | EConst "type_record option" u64
  | EUn ir_op ir_expr "type_record option"
  | EBin ir_op ir_expr ir_expr "type_record option"

fun expr_type :: "ir_expr \<Rightarrow> type_record option" where
  "expr_type (EVar _ ty) = ty"
| "expr_type (EConst ty _) = ty"
| "expr_type (EUn _ _ ty) = ty"
| "expr_type (EBin _ _ _ ty) = ty"

definition expr_size :: "ir_expr \<Rightarrow> int" where
  "expr_size e = ty_size (the (expr_type e))"

section \<open>Magic numbers\<close>

record unsigned_magic =
  um_magic :: u32
  um_shift :: nat
  um_add :: bool

record signed_magic =
  sm_magic :: "32 word"
  sm_shift :: nat

record magic_state =
  mg_p :: nat
  mg_q1 :: u32
  mg_r1 :: u32
  mg_q2 :: u32
  mg_r2 :: u32
  mg_add :: bool

text \<open>One iteration of the loop of \<open>UnsignedMagic32\<close>, and its condition.\<close>

definition unsigned_magic_step :: "u32 \<Rightarrow> u32 \<Rightarrow> magic_state \<Rightarrow> magic_state" where
  "unsigned_magic_step d nc s =
     (let (q1, r1) = (if mg_r1 s \<ge> nc - mg_r1 s then (2 * mg_q1 s + 1, 2 * mg_r1 s - nc)
                      else (2 * mg_q1 s, 2 * mg_r1 s));
          (q2, r2, add) = (if mg_r2 s + 1 \<ge> d - mg_r2 s
                           then (2 * mg_q2 s + 1, 2 * mg_r2 s + 1 - d, mg_add s \<or> mg_q2 s \<ge> 0x7fffffff)
                           else (2 * mg_q2 s, 2 * mg_r2 s + 1, mg_add s \<or> mg_q2 s \<ge> 0x80000000))
      in \<lparr>mg_p = mg_p s + 1, mg_q1 = q1, mg_r1 = r1, mg_q2 = q2, mg_r2 = r2, mg_add = add\<rparr>)"

lemma mg_p_unsigned_step [simp]: "mg_p (unsigned_magic_step d nc s) = mg_p s + 1"
  by (simp add: unsigned_magic_step_def Let_def split: prod.splits)

definition unsigned_magic_continues :: "u32 \<Rightarrow> magic_state \<Rightarrow> bool" where
  "unsigned_magic_continues d s \<longleftrightarrow>
     mg_p s < 64 \<and> (mg_q1 s < d - 1 - mg_r2 s \<or> mg_q1 s = d - 1 - mg_r2 s \<and> mg_r1 s = 0)"

function unsigned_magic_loop :: "u32 \<Rightarrow> u32 \<Rightarrow> magic_state \<Rightarrow> magic_state" where
  "unsigned_magic_loop d nc s =
     (let s1 = unsigned_magic_step d nc s
      in if unsigned_magic_continues d s1 then unsigned_magic_loop d nc s1 else s1)"
  by pat_completeness auto
termination
  by (relation "measure (\<lambda>(d, nc, s). 64 - mg_p s)")
    (auto simp: unsigned_magic_continues_def)

declare unsigned_magic_loop.simps [simp del]

definition unsigned_magic_start :: "u32 \<Rightarrow> u32 \<Rightarrow> magic_state" where
  "unsigned_magic_start d nc =
     (let q1 = 0x80000000 div nc; q2 = 0x7fffffff div d
      in \<lparr>mg_p = 31, mg_q1 = q1, mg_r1 = 0x80000000 - q1 * nc, mg_q2 = q2,
          mg_r2 = 0x7fffffff - q2 * d, mg_add = False\<rparr>)"

definition UnsignedMagic32 :: "u32 \<Rightarrow> unsigned_magic" where
  "UnsignedMagic32 d =
     (let nc = 0xffffffff - (0 - d) mod d;
          s = unsigned_magic_loop d nc (unsigned_magic_start d nc)
      in \<lparr>um_magic = mg_q2 s + 1, um_shift = mg_p s - 32, um_add = mg_add s\<rparr>)"

text \<open>The loop of \<open>SignedMagic32\<close> has no bound of its own.\<close>

definition signed_magic_step :: "u32 \<Rightarrow> u32 \<Rightarrow> magic_state \<Rightarrow> magic_state" where
  "signed_magic_step ad anc s =
     (let q1 = 2 * mg_q1 s; r1 = 2 * mg_r1 s; q2 = 2 * mg_q2 s; r2 = 2 * mg_r2 s;
          (q1', r1') = (if r1 \<ge> anc then (q1 + 1, r1 - anc) else (q1, r1));
          (q2', r2') = (if r2 \<ge> ad then (q2 + 1, r2 - ad) else (q2, r2))
      in \<lparr>mg_p = mg_p s + 1, mg_q1 = q1', mg_r1 = r1', mg_q2 = q2', mg_r2 = r2', mg_add = mg_add s\<rparr>)"

definition signed_magic_continues :: "u32 \<Rightarrow> magic_state \<Rightarrow> bool" where
  "signed_magic_continues ad s \<longleftrightarrow>
     (let delta = ad - mg_r2 s in mg_q1 s < delta \<or> mg_q1 s = delta \<and> mg_r1 s = 0)"

partial_function (option) signed_magic_loop :: "u32 \<Rightarrow> u32 \<Rightarrow> magic_state \<Rightarrow> magic_state option" where
  "signed_magic_loop ad anc s =
     (let s1 = signed_magic_step ad anc s
      in if signed_magic_continues ad s1 then signed_magic_loop ad anc s1 else Some s1)"

definition signed_magic_start :: "u32 \<Rightarrow> u32 \<Rightarrow> magic_state" where
  "signed_magic_start ad anc =
     (let q1 = 0x80000000 div anc; q2 = 0x80000000 div ad
      in \<lparr>mg_p = 31, mg_q1 = q1, mg_r1 = 0x80000000 - q1 * anc, mg_q2 = q2,
          mg_r2 = 0x80000000 - q2 * ad, mg_add = False\<rparr>)"

definition SignedMagic32 :: "u32 \<Rightarrow> signed_magic option" where
  "SignedMagic32 d =
     (let ad = d; t = 0x80000000 + drop_bit 31 d; anc = t - 1 - t mod ad
      in case signed_magic_loop ad anc (signed_magic_start ad anc) of
           None \<Rightarrow> None
         | Some s \<Rightarrow> Some \<lparr>sm_magic = mg_q2 s + 1, sm_shift = mg_p s - 32\<rparr>)"


section \<open>Division by a constant\<close>

text \<open>
  What the pass makes of an instruction: nothing, a new expression in its place, or no answer
  because a loop does not end.
\<close>

datatype reduction = Unchanged | Becomes ir_expr | Diverges

text \<open>The 64-bit types of the target; their size is a setting of the compiler.\<close>

definition wide_unsigned :: "int \<Rightarrow> type_record" where
  "wide_unsigned long_long_size =
     TypeRecord (Bit_Operations.or kTypeLongLong kTypeUnsigned) 0 DeclPrimitive long_long_size 0 None"

definition wide_signed :: "int \<Rightarrow> type_record" where
  "wide_signed long_long_size = TypeRecord kTypeLongLong 0 DeclPrimitive long_long_size 0 None"

definition ExtendBefore :: "ir_expr \<Rightarrow> type_record \<Rightarrow> bool \<Rightarrow> ir_expr" where
  "ExtendBefore e wide is_signed =
     (let bit_diff = (ty_size wide - expr_size e) * 8
      in if bit_diff = 0 then e
         else EBin (if is_signed then IR_signextendi else IR_zeroextendi) e
                (EConst (Some wide) (word_of_int bit_diff)) (Some wide))"

definition NarrowBefore :: "ir_expr \<Rightarrow> type_record \<Rightarrow> bool \<Rightarrow> ir_expr" where
  "NarrowBefore e narrow is_signed =
     (if expr_type e \<noteq> None \<and> expr_size e \<le> ty_size narrow then e
      else let bit_diff = (ty_size narrow - expr_size e) * 8
           in EBin (if is_signed then IR_signextendi else IR_zeroextendi) e
                (EConst (Some narrow) (word_of_int bit_diff)) (Some narrow))"

definition unsigned_division :: "type_record \<Rightarrow> ir_expr \<Rightarrow> unsigned_magic \<Rightarrow> ir_expr" where
  "unsigned_division wide dividend mag =
     (let ty = Some wide;
          n64 = ExtendBefore dividend wide False;
          prod = EBin IR_muli n64 (EConst ty (ucast (um_magic mag))) ty
      in if \<not> um_add mag then EBin IR_lsri prod (EConst ty (of_nat (32 + um_shift mag))) ty
         else let hi = EBin IR_lsri prod (EConst ty 32) ty;
                  sum = EBin IR_addi hi n64 ty
              in if um_shift mag = 0 then sum
                 else EBin IR_lsri sum (EConst ty (of_nat (um_shift mag))) ty)"

definition signed_division :: "type_record \<Rightarrow> ir_expr \<Rightarrow> signed_magic \<Rightarrow> ir_expr" where
  "signed_division wide dividend mag =
     (let ty = Some wide;
          n64 = ExtendBefore dividend wide True;
          prod = EBin IR_muli n64 (EConst ty (scast (sm_magic mag))) ty;
          hi = EBin IR_asri prod (EConst ty 32) ty;
          hi1 = (if sint (sm_magic mag) < 0 then EBin IR_addi hi n64 ty else hi);
          hi2 = (if sm_shift mag > 0 then EBin IR_asri hi1 (EConst ty (of_nat (sm_shift mag))) ty else hi1);
          signbit = EBin IR_lsri n64 (EConst ty 63) ty
      in EBin IR_addi hi2 signbit ty)"

definition FoldConstantDivision ::
  "bool \<Rightarrow> int \<Rightarrow> ir_expr \<Rightarrow> ir_expr \<Rightarrow> type_record option \<Rightarrow> reduction" where
  "FoldConstantDivision pcs long_long_size dividend divisor ty =
     (case (ty, expr_type dividend, divisor) of
        (Some t, Some _, EConst _ c) \<Rightarrow>
          (if \<not> TypeIsIntegral ty \<or> ty_size t \<le> 0 \<or> ty_size t > 4 \<or> long_long_size \<noteq> 8 then Unchanged
           else if TypeIsUnsigned pcs ty
           then (let d = Bit_Operations.and c (push_bit (nat (ty_size t * 8)) 1 - 1)
                 in if d \<le> 1 then Unchanged
                    else Becomes (NarrowBefore
                           (unsigned_division (wide_unsigned long_long_size) dividend (UnsignedMagic32 (ucast d)))
                           t False))
           else if sint c \<le> 1 \<or> sint c > 0x7fffffff then Unchanged
           else (case SignedMagic32 (ucast c) of
                   None \<Rightarrow> Diverges
                 | Some mag \<Rightarrow>
                     Becomes (NarrowBefore (signed_division (wide_signed long_long_size) dividend mag) t True)))
      | _ \<Rightarrow> Unchanged)"

section \<open>Cheaper instructions\<close>

fun IsIntConstantWithValue :: "ir_expr \<Rightarrow> u64 \<Rightarrow> bool" where
  "IsIntConstantWithValue (EConst ty c) v = (TypeIsIntegral ty \<and> c = v)"
| "IsIntConstantWithValue _ _ = False"

fun IsIntConstantPowerOf2 :: "bool \<Rightarrow> ir_expr \<Rightarrow> int \<Rightarrow> bool" where
  "IsIntConstantPowerOf2 pcs (EConst ty c) maxbits =
     (if \<not> TypeIsIntegral ty then False
      else if maxbits \<le> 0 \<or> maxbits > 64 then False
      else if \<not> TypeIsUnsigned pcs ty \<and> sint c \<le> 0 then False
      else if maxbits < 64 \<and> Bit_Operations.and c (Bit_Operations.not (push_bit (nat maxbits) 1 - 1)) \<noteq> 0
      then False
      else c \<noteq> 0 \<and> Bit_Operations.and c (c - 1) = 0)"
| "IsIntConstantPowerOf2 _ _ _ = False"

text \<open>The trailing zeros; the loop does not end on 0, which the callers rule out.\<close>

partial_function (option) log2_loop :: "u64 \<Rightarrow> nat \<Rightarrow> nat option" where
  "log2_loop v zerocount =
     (if Bit_Operations.and v 1 = 0 then log2_loop (drop_bit 1 v) (zerocount + 1) else Some zerocount)"

definition LogBase2 :: "u64 \<Rightarrow> nat option" where
  "LogBase2 v = log2_loop v 0"

definition BitMask :: "u64 \<Rightarrow> u64" where
  "BitMask v = v - 1"

definition WrapToType :: "bool \<Rightarrow> type_record option \<Rightarrow> u64 \<Rightarrow> u64" where
  "WrapToType pcs ty v =
     (let bits = ty_size (the ty) * 8
      in if bits \<le> 0 \<or> bits \<ge> 64 then v
         else mask_and_extend (nat bits) (\<not> TypeIsUnsigned pcs ty) v)"

fun IsIntAllOnes :: "ir_expr \<Rightarrow> bool" where
  "IsIntAllOnes (EConst ty c) =
     (case ty of
        None \<Rightarrow> False
      | Some t \<Rightarrow>
          (let bits = ty_size t * 8
           in if \<not> TypeIsIntegral ty \<or> bits \<le> 0 \<or> bits > 64 then False
              else if bits < 64
              then Bit_Operations.and c (push_bit (nat bits) 1 - 1) = push_bit (nat bits) 1 - 1
              else c = - 1))"
| "IsIntAllOnes _ = False"

text \<open>The constant operand of a sum of a constant and something else: the constant and the other.\<close>

fun const_operand :: "ir_expr \<Rightarrow> ir_expr \<Rightarrow> (u64 \<times> ir_expr) option" where
  "const_operand (EConst _ _) (EConst _ _) = None"
| "const_operand (EConst _ c) e = Some (c, e)"
| "const_operand e (EConst _ c) = Some (c, e)"
| "const_operand _ _ = None"

text \<open>
  Two additions of constants become one.  Equality of types is the front end's; a nested sum
  that is to be written to a merge temporary is a variable to this pass.
\<close>

definition FoldNestedAdd ::
  "bool \<Rightarrow> (type_record option \<Rightarrow> type_record option \<Rightarrow> bool) \<Rightarrow> ir_expr \<Rightarrow> ir_expr \<Rightarrow> type_record option \<Rightarrow>
   reduction" where
  "FoldNestedAdd pcs type_equal a b ty =
     (case const_operand a b of
        Some (c, EBin op x y ity) \<Rightarrow>
          (if op \<noteq> IR_addi \<or> ity = None \<or> \<not> type_equal ity ty then Unchanged
           else case const_operand x y of
                  None \<Rightarrow> Unchanged
                | Some (c', base) \<Rightarrow>
                    (let sum = WrapToType pcs ty (c + c')
                     in if sum = 0 then Becomes base else Becomes (EBin IR_addi base (EConst ty sum) ty)))
      | _ \<Rightarrow> Unchanged)"


text \<open>
  Both operands are one node; the pass does not look into the operands of a comparison.
  Constants of one value and type are one node, from the pool of the generator.
\<close>

fun same_node :: "ir_expr \<Rightarrow> ir_expr \<Rightarrow> bool" where
  "same_node (EVar r _) (EVar r' _) = (r = r')"
| "same_node (EConst ty c) (EConst ty' c') = (c = c' \<and> ty = ty')"
| "same_node _ _ = False"

definition with_log2 :: "(u64 \<Rightarrow> ir_expr) \<Rightarrow> ir_expr \<Rightarrow> reduction" where
  "with_log2 f e =
     (case e of
        EConst ty c \<Rightarrow> (case LogBase2 c of None \<Rightarrow> Diverges | Some k \<Rightarrow> Becomes (f (of_nat k)))
      | _ \<Rightarrow> Unchanged)"

definition reduce_muli :: "bool \<Rightarrow> ir_expr \<Rightarrow> ir_expr \<Rightarrow> type_record option \<Rightarrow> reduction" where
  "reduce_muli pcs a b ty =
     (if IsIntConstantWithValue a 0 then Becomes a
      else if IsIntConstantWithValue b 0 then Becomes b
      else if IsIntConstantWithValue a 1 then Becomes b
      else if IsIntConstantWithValue b 1 then Becomes a
      else let maxbits = ty_size (the ty) * 8
           in if IsIntConstantPowerOf2 pcs a maxbits
              then with_log2 (\<lambda>k. EBin IR_lsli b (EConst (expr_type a) k) ty) a
              else if IsIntConstantPowerOf2 pcs b maxbits
              then with_log2 (\<lambda>k. EBin IR_lsli a (EConst (expr_type b) k) ty) b
              else Unchanged)"

definition reduce_divi :: "bool \<Rightarrow> int \<Rightarrow> ir_expr \<Rightarrow> ir_expr \<Rightarrow> type_record option \<Rightarrow> reduction" where
  "reduce_divi pcs long_long_size a b ty =
     (if IsIntConstantWithValue b 1 then Becomes a
      else if IsIntConstantWithValue a 0 then Becomes a
      else if TypeIsUnsigned pcs ty \<and> IsIntConstantPowerOf2 pcs b (ty_size (the ty) * 8)
      then with_log2 (\<lambda>k. EBin IR_lsri a (EConst (expr_type b) k) ty) b
      else FoldConstantDivision pcs long_long_size a b ty)"

definition reduce_modi :: "bool \<Rightarrow> ir_expr \<Rightarrow> ir_expr \<Rightarrow> type_record option \<Rightarrow> reduction" where
  "reduce_modi pcs a b ty =
     (if IsIntConstantWithValue a 0 then Becomes a
      else if TypeIsUnsigned pcs ty \<and> IsIntConstantPowerOf2 pcs b (ty_size (the ty) * 8)
      then (case b of
              EConst bty c \<Rightarrow> Becomes (EBin IR_andi a (EConst bty (BitMask c)) ty)
            | _ \<Rightarrow> Unchanged)
      else Unchanged)"

definition reduce_andi :: "ir_expr \<Rightarrow> ir_expr \<Rightarrow> reduction" where
  "reduce_andi a b =
     (if IsIntConstantWithValue a 0 \<or> IsIntConstantWithValue b 0
      then Becomes (if IsIntConstantWithValue a 0 then a else b)
      else if IsIntAllOnes a then Becomes b
      else if IsIntAllOnes b then Becomes a
      else Unchanged)"

definition reduce_ori :: "ir_expr \<Rightarrow> ir_expr \<Rightarrow> reduction" where
  "reduce_ori a b =
     (if IsIntConstantWithValue a 0 then Becomes b
      else if IsIntConstantWithValue b 0 then Becomes a
      else if IsIntAllOnes a \<or> IsIntAllOnes b then Becomes (if IsIntAllOnes a then a else b)
      else Unchanged)"

text \<open>
  The pass on one instruction.  It leaves alone an instruction with a merge temporary as its
  destination and one with a checkpoint between it and an operand.
\<close>

definition ReduceNodeStrength ::
  "bool \<Rightarrow> int \<Rightarrow> (type_record option \<Rightarrow> type_record option \<Rightarrow> bool) \<Rightarrow> bool \<Rightarrow> bool \<Rightarrow> ir_expr \<Rightarrow> reduction" where
  "ReduceNodeStrength pcs long_long_size type_equal has_dest checkpoint_between e =
     (if has_dest \<or> checkpoint_between then Unchanged
      else case e of
             EBin op a b ty \<Rightarrow>
               (if op = IR_addi
                then (if IsIntConstantWithValue a 0 then Becomes b
                      else if IsIntConstantWithValue b 0 then Becomes a
                      else FoldNestedAdd pcs type_equal a b ty)
                else if op = IR_subi
                then (if IsIntConstantWithValue b 0 then Becomes a
                      else if IsIntConstantWithValue a 0 then Becomes (EUn IR_negi b ty)
                      else Unchanged)
                else if op = IR_muli then reduce_muli pcs a b ty
                else if op = IR_divi then reduce_divi pcs long_long_size a b ty
                else if op = IR_modi then reduce_modi pcs a b ty
                else if op = IR_andi then reduce_andi a b
                else if op = IR_ori then reduce_ori a b
                else if op = IR_xori
                then (if IsIntConstantWithValue a 0 then Becomes b
                      else if IsIntConstantWithValue b 0 then Becomes a
                      else Unchanged)
                else if op = IR_cmpeqi then (if same_node a b then Becomes (EConst ty 1) else Unchanged)
                else if op = IR_cmpnei then (if same_node a b then Becomes (EConst ty 0) else Unchanged)
                else Unchanged)
           | _ \<Rightarrow> Unchanged)"

section \<open>Values\<close>

text \<open>
  The value of an expression: what the operations compute, as constant folding does them; \<open>None\<close>
  where they have no value.  A variable has the value the argument gives it.
\<close>

definition expr_node :: "ir_op \<Rightarrow> type_record option \<Rightarrow> ir_node" where
  "expr_node op ty =
     \<lparr>ir_id = 0, ir_opcode = op, ir_inputs = [], ir_outputs = [], ir_block = 0, ir_type = ty,
      ir_value_state = ValueValid, ir_flags = 0, ir_var = 0, ir_dest = 0, ir_ivalue = 0, ir_symbol_ref = 0\<rparr>"

definition op_value :: "bool \<Rightarrow> ir_op \<Rightarrow> type_record option \<Rightarrow> type_record option \<Rightarrow> u64 \<Rightarrow> u64 \<Rightarrow> u64 option" where
  "op_value pcs op lhs_ty ty x y =
     (case fold_integer pcs (expr_node op ty) lhs_ty (operation_width lhs_ty ty)
             (lhs_ty \<noteq> None \<and> TypeIsUnsigned pcs lhs_ty) x y of
        SCCPConstant v \<Rightarrow> Some v
      | _ \<Rightarrow> None)"

fun expr_value :: "bool \<Rightarrow> (node_ref \<Rightarrow> u64) \<Rightarrow> ir_expr \<Rightarrow> u64 option" where
  "expr_value pcs env (EVar r ty) = Some (NormalizeIntegerValue pcs (env r) ty)"
| "expr_value pcs env (EConst ty c) = Some (NormalizeIntegerValue pcs c ty)"
| "expr_value pcs env (EUn op a ty) =
     (case expr_value pcs env a of
        None \<Rightarrow> None
      | Some x \<Rightarrow> op_value pcs op (expr_type a) ty (NormalizeIntegerValue pcs x (expr_type a)) 0)"
| "expr_value pcs env (EBin op a b ty) =
     (case (expr_value pcs env a, expr_value pcs env b) of
        (Some x, Some y) \<Rightarrow>
          op_value pcs op (expr_type a) ty (NormalizeIntegerValue pcs x (expr_type a))
            (NormalizeIntegerValue pcs y (expr_type b))
      | _ \<Rightarrow> None)"

end
