(* ===== verification/MagicNumbers.thy ===== *)
theory MagicNumbers
  imports StrengthReduction
begin

text \<open>
  Why the magic numbers divide: the number theory of a multiplier that is a little too large,
  and the loops that look for it, which compute quotients and remainders of growing powers of 2.
\<close>

section \<open>Multipliers\<close>

text \<open>
  \<open>P\<close> is the power of 2, \<open>M\<close> the multiplier, \<open>e\<close> its excess and \<open>nc\<close> the largest
  dividend up to \<open>N\<close> with remainder \<open>d - 1\<close>.
\<close>

lemma excess_bound:
  fixes n d e P N nc :: int
  assumes d: "0 < d" and e: "0 \<le> e" "nc * e < P" and nc: "nc = N - (N + 1) mod d" "d - 1 \<le> nc"
    and n: "0 \<le> n" "n \<le> N + 1" and last: "(N + 1) mod d = d - 1 \<Longrightarrow> n \<le> N"
  shows "n * e < (d - n mod d) * P"
proof -
  have r: "0 \<le> n mod d" "n mod d < d" using d by auto
  have P: "0 < P" using e nc(2) d by (smt (verit) mult_nonneg_nonneg)
  show ?thesis
  proof (cases "n \<le> nc")
    case True
    then have "n * e \<le> nc * e" using e(1) by (rule mult_right_mono)
    moreover have "1 * P \<le> (d - n mod d) * P" using r P by (intro mult_right_mono) auto
    ultimately show ?thesis using e(2) by linarith
  next
    case False
    define k where "k = (N + 1) div d"
    have k: "nc + 1 = k * d" using nc(1) by (simp add: k_def minus_mod_eq_div_mult [symmetric])
    have m: "0 \<le> (N + 1) mod d" "(N + 1) mod d < d" using d by auto
    let ?r = "n - k * d"
    have rr: "0 \<le> ?r" "?r \<le> (N + 1) mod d" using False k n(2) nc(1) by linarith+
    then have n_mod: "n mod d = ?r" using m by (intro int_mod_pos_eq [of n d k]) auto
    have "?r \<le> d - 2"
    proof (cases "(N + 1) mod d = d - 1")
      case True
      then show ?thesis using last k nc(1) by linarith
    qed (use rr m in linarith)
    then have two: "2 \<le> d - n mod d" using n_mod by linarith
    have "(1 + ?r) * e \<le> nc * e" using \<open>?r \<le> d - 2\<close> nc(2) e(1) by (intro mult_right_mono) auto
    moreover have "n * e = nc * e + (1 + ?r) * e"
    proof -
      have "n = nc + (1 + ?r)" using k by simp
      then show ?thesis by (metis distrib_right)
    qed
    moreover have "2 * P \<le> (d - n mod d) * P" using two P by (intro mult_right_mono) auto
    ultimately show ?thesis using e(2) by linarith
  qed
qed

lemma magic_quotient:
  fixes n d e P N nc M :: int
  assumes d: "0 < d" and M: "M * d = P + e" and e: "0 \<le> e" "nc * e < P"
    and nc: "nc = N - (N + 1) mod d" "d - 1 \<le> nc" and n: "0 \<le> n" "n \<le> N"
  shows "n * M div P = n div d"
proof -
  let ?q = "n div d" and ?r = "n mod d"
  have qr: "n = ?q * d + ?r" by simp
  have r: "0 \<le> ?r" "?r < d" using d by auto
  have q: "0 \<le> ?q" using n(1) d by (simp add: pos_imp_zdiv_nonneg_iff)
  have P: "0 < P" using e nc(2) d by (smt (verit) mult_nonneg_nonneg)
  have M0: "0 \<le> M" using M P e(1) d by (smt (verit) mult_neg_pos)
  have "n * e < (d - ?r) * P" using excess_bound [OF d e nc n(1)] n(2) by simp
  moreover have "n * M * d = n * P + n * e" using M by (simp add: mult.assoc distrib_left)
  moreover have "(?q + 1) * P * d = n * P + (d - ?r) * P"
  proof -
    have "(?q + 1) * d = n + (d - ?r)" using qr by (simp only: distrib_right mult_1)
    then show ?thesis by (metis distrib_right mult.assoc mult.commute)
  qed
  ultimately have "n * M * d < (?q + 1) * P * d" by linarith
  then have upper: "n * M < (?q + 1) * P" using d by simp
  have "?q * P \<le> ?q * (P + e)" using q e(1) by (intro mult_left_mono) auto
  also have "\<dots> = ?q * d * M" using M by (simp add: mult.assoc mult.commute mult.left_commute)
  also have "\<dots> \<le> n * M" using qr r(1) M0 by (intro mult_right_mono) linarith+
  finally have lower: "?q * P \<le> n * M" .
  show ?thesis
    by (rule int_div_pos_eq [of _ _ _ "n * M - ?q * P"]) (use lower upper P in \<open>auto simp: algebra_simps\<close>)
qed

text \<open>For negative dividends the quotient of the product is one too small.\<close>

lemma magic_quotient_negative:
  fixes m d e P N nc M :: int
  assumes d: "0 < d" and M: "M * d = P + e" and e: "0 < e" "nc * e < P"
    and nc: "nc = N - (N + 1) mod d" "d - 1 \<le> nc" and m: "0 < m" "m \<le> N + 1"
    and last: "(N + 1) mod d = d - 1 \<Longrightarrow> (N + 1) * e \<le> P"
  shows "- m * M div P = - (m div d) - 1"
proof -
  let ?q = "m div d" and ?r = "m mod d"
  have qr: "m = ?q * d + ?r" by simp
  have r: "0 \<le> ?r" "?r < d" using d by auto
  have q: "0 \<le> ?q" using m(1) d by (simp add: pos_imp_zdiv_nonneg_iff)
  have P: "0 < P" using e nc(2) d by (smt (verit) mult_nonneg_nonneg)
  have M0: "0 < M" using M P e(1) d by (smt (verit) mult_nonpos_nonneg)
  have "m * e \<le> (d - ?r) * P"
  proof (cases "(N + 1) mod d = d - 1 \<and> m = N + 1")
    case True
    then show ?thesis using last by auto
  next
    case False
    then have "m * e < (d - ?r) * P"
      using excess_bound [OF d less_imp_le [OF e(1)] e(2) nc, of m] m by fastforce
    then show ?thesis by simp
  qed
  moreover have "m * M * d = m * P + m * e" using M by (simp add: mult.assoc distrib_left)
  moreover have "(?q + 1) * P * d = m * P + (d - ?r) * P"
  proof -
    have "(?q + 1) * d = m + (d - ?r)" using qr by (simp only: distrib_right mult_1)
    then show ?thesis by (metis distrib_right mult.assoc mult.commute)
  qed
  ultimately have "m * M * d \<le> (?q + 1) * P * d" by linarith
  then have upper: "m * M \<le> (?q + 1) * P" using d by simp
  have "?q * P < m * M"
  proof (cases "?q = 0")
    case False
    then have "?q * P < ?q * (P + e)" using q e(1) by simp
    also have "\<dots> = ?q * d * M" using M by (simp add: mult.assoc mult.commute mult.left_commute)
    also have "\<dots> \<le> m * M" using qr r(1) M0 by (intro mult_right_mono) linarith+
    finally show ?thesis .
  qed (use m(1) M0 in simp)
  then show ?thesis
    by (intro int_div_pos_eq [of _ _ _ "(?q + 1) * P - m * M"]) (use upper P in \<open>auto simp: algebra_simps\<close>)
qed


section \<open>Quotients and remainders while a number doubles\<close>

lemma double_divmod:
  fixes P n :: int
  assumes "0 < n"
  shows "2 * P mod n = (if 2 * (P mod n) \<ge> n then 2 * (P mod n) - n else 2 * (P mod n))"
    and "2 * P div n = (if 2 * (P mod n) \<ge> n then 2 * (P div n) + 1 else 2 * (P div n))"
proof -
  have r: "0 \<le> P mod n" "P mod n < n" using assms by auto
  have P: "2 * P = 2 * (P div n) * n + 2 * (P mod n)" by (metis distrib_left div_mult_mod_eq mult.assoc)
  have "2 * P mod n = (if 2 * (P mod n) \<ge> n then 2 * (P mod n) - n else 2 * (P mod n)) \<and>
    2 * P div n = (if 2 * (P mod n) \<ge> n then 2 * (P div n) + 1 else 2 * (P div n))"
  proof (cases "2 * (P mod n) \<ge> n")
    case True
    have "2 * P = (2 * (P div n) + 1) * n + (2 * (P mod n) - n)" using P by (simp add: algebra_simps)
    then show ?thesis using True r int_div_pos_eq [of "2 * P" n "2 * (P div n) + 1" "2 * (P mod n) - n"]
        int_mod_pos_eq [of "2 * P" n "2 * (P div n) + 1" "2 * (P mod n) - n"] by (simp add: mult.commute)
  next
    case False
    then show ?thesis using P r int_div_pos_eq [of "2 * P" n "2 * (P div n)" "2 * (P mod n)"]
        int_mod_pos_eq [of "2 * P" n "2 * (P div n)" "2 * (P mod n)"] by (simp add: mult.commute)
  qed
  then show "2 * P mod n = (if 2 * (P mod n) \<ge> n then 2 * (P mod n) - n else 2 * (P mod n))"
    "2 * P div n = (if 2 * (P mod n) \<ge> n then 2 * (P div n) + 1 else 2 * (P div n))" by blast+
qed

lemma double_odd_divmod:
  fixes A n :: int
  assumes "0 < n"
  shows "(2 * A + 1) mod n = (if 2 * (A mod n) + 1 \<ge> n then 2 * (A mod n) + 1 - n else 2 * (A mod n) + 1)"
    and "(2 * A + 1) div n = (if 2 * (A mod n) + 1 \<ge> n then 2 * (A div n) + 1 else 2 * (A div n))"
proof -
  have r: "0 \<le> A mod n" "A mod n < n" using assms by auto
  have A: "2 * A + 1 = 2 * (A div n) * n + (2 * (A mod n) + 1)" by (metis add.assoc distrib_left div_mult_mod_eq mult.assoc)
  have "(2 * A + 1) mod n = (if 2 * (A mod n) + 1 \<ge> n then 2 * (A mod n) + 1 - n else 2 * (A mod n) + 1) \<and>
    (2 * A + 1) div n = (if 2 * (A mod n) + 1 \<ge> n then 2 * (A div n) + 1 else 2 * (A div n))"
  proof (cases "2 * (A mod n) + 1 \<ge> n")
    case True
    have "2 * A + 1 = (2 * (A div n) + 1) * n + (2 * (A mod n) + 1 - n)" using A by (simp add: algebra_simps)
    then show ?thesis using True r int_div_pos_eq [of "2 * A + 1" n "2 * (A div n) + 1" "2 * (A mod n) + 1 - n"]
        int_mod_pos_eq [of "2 * A + 1" n "2 * (A div n) + 1" "2 * (A mod n) + 1 - n"] by (simp add: mult.commute)
  next
    case False
    then show ?thesis using A r int_div_pos_eq [of "2 * A + 1" n "2 * (A div n)" "2 * (A mod n) + 1"]
        int_mod_pos_eq [of "2 * A + 1" n "2 * (A div n)" "2 * (A mod n) + 1"] by (simp add: mult.commute)
  qed
  then show "(2 * A + 1) mod n = (if 2 * (A mod n) + 1 \<ge> n then 2 * (A mod n) + 1 - n else 2 * (A mod n) + 1)"
    "(2 * A + 1) div n = (if 2 * (A mod n) + 1 \<ge> n then 2 * (A div n) + 1 else 2 * (A div n))" by blast+
qed

text \<open>The same on 32-bit words, where quotients may wrap.\<close>

lemma uint_32 [simp]: "uint (x :: u32) < 4294967296" "0 \<le> uint (x :: u32)"
  using uint_lt2p [of x] by simp_all

lemma uint_double: "uint (2 * x :: u32) = 2 * uint x mod 2 ^ 32" "uint (2 * x + 1 :: u32) = (2 * uint x + 1) mod 2 ^ 32"
  by (simp_all add: uint_word_ariths mod_simps)

lemma wrap_double:
  "2 * (q mod 2 ^ 32) mod 2 ^ 32 = 2 * q mod (2 ^ 32 :: int)"
  "(2 * (q mod 2 ^ 32) + 1) mod 2 ^ 32 = (2 * q + 1) mod (2 ^ 32 :: int)"
  by (metis mod_mult_right_eq, metis mod_add_left_eq mod_mult_right_eq)

lemma uint_diff_small: "uint y \<le> uint x \<Longrightarrow> uint (x - y :: u32) = uint x - uint y"
  by (simp add: uint_sub_if')

section \<open>The unsigned loop\<close>

text \<open>
  At exponent \<open>p\<close>: the quotient and the remainder of \<open>2 ^ p\<close> by \<open>nc\<close> and of \<open>2 ^ p - 1\<close>
  by \<open>d\<close>, the quotients modulo \<open>2 ^ 32\<close>, and whether the multiplier needs a 33rd bit.
\<close>

definition unsigned_inv :: "u32 \<Rightarrow> u32 \<Rightarrow> magic_state \<Rightarrow> bool" where
  "unsigned_inv d nc s \<longleftrightarrow>
     uint (mg_q1 s) = 2 ^ mg_p s div uint nc mod 2 ^ 32 \<and> uint (mg_r1 s) = 2 ^ mg_p s mod uint nc \<and>
     uint (mg_q2 s) = (2 ^ mg_p s - 1) div uint d mod 2 ^ 32 \<and> uint (mg_r2 s) = (2 ^ mg_p s - 1) mod uint d \<and>
     (mg_add s \<longleftrightarrow> (2 ^ mg_p s - 1) div uint d + 1 \<ge> 2 ^ 32)"

lemma unsigned_inv_start:
  assumes "0 < uint d" "0 < uint nc"
  shows "unsigned_inv d nc (unsigned_magic_start d nc)"
proof -
  have "0x80000000 - 0x80000000 div nc * nc = 0x80000000 mod nc" "0x7fffffff - 0x7fffffff div d * d = 0x7fffffff mod d"
    by (rule minus_div_mult_eq_mod)+
  then have r: "uint (0x80000000 - 0x80000000 div nc * nc :: u32) = 2 ^ 31 mod uint nc"
    "uint (0x7fffffff - 0x7fffffff div d * d :: u32) = (2 ^ 31 - 1) mod uint d"
    by (simp_all add: uint_mod)
  have "2147483648 div uint nc \<le> 2147483648" "2147483647 div uint d \<le> 2147483647"
    using assms zdiv_mono2 [of 2147483648 1 "uint nc"] zdiv_mono2 [of 2147483647 1 "uint d"] by simp_all
  moreover have "0 \<le> 2147483648 div uint nc" "0 \<le> 2147483647 div uint d"
    using assms by (simp_all add: pos_imp_zdiv_nonneg_iff)
  ultimately show ?thesis
    using r by (simp add: unsigned_inv_def unsigned_magic_start_def Let_def uint_div)
qed

lemma unsigned_inv_step:
  assumes d: "0 < uint d" and nc: "0 < uint nc" and inv: "unsigned_inv d nc s"
  shows "unsigned_inv d nc (unsigned_magic_step d nc s)"
proof -
  let ?P = "2 ^ mg_p s :: int" and ?N = "uint nc" and ?D = "uint d"
  let ?A = "?P - 1"
  have s: "uint (mg_q1 s) = ?P div ?N mod 2 ^ 32" "uint (mg_r1 s) = ?P mod ?N"
    "uint (mg_q2 s) = ?A div ?D mod 2 ^ 32" "uint (mg_r2 s) = ?A mod ?D"
    "mg_add s \<longleftrightarrow> ?A div ?D + 1 \<ge> 2 ^ 32" using inv by (simp_all add: unsigned_inv_def)
  have r1: "0 \<le> ?P mod ?N" "?P mod ?N < ?N" and r2: "0 \<le> ?A mod ?D" "?A mod ?D < ?D" using d nc by auto
  have A: "0 \<le> ?A div ?D" using d by (simp add: pos_imp_zdiv_nonneg_iff)
  have c1: "mg_r1 s \<ge> nc - mg_r1 s \<longleftrightarrow> 2 * (?P mod ?N) \<ge> ?N"
    using r1 s(2) by (simp add: word_le_def uint_diff_small)
  have c2: "mg_r2 s + 1 \<ge> d - mg_r2 s \<longleftrightarrow> 2 * (?A mod ?D) + 1 \<ge> ?D"
  proof -
    have "?A mod ?D + 1 < 4294967296" using r2 uint_32(1) [of d] by linarith
    then have "uint (mg_r2 s + 1) = ?A mod ?D + 1" using r2 s(4) by (simp add: uint_word_ariths)
    then show ?thesis using r2 s(4) by (simp add: word_le_def uint_diff_small) 
  qed
  have fits: "uint (2 * x - y :: u32) = 2 * uint x - uint y" if "0 \<le> 2 * uint x - uint y" "2 * uint x - uint y < 2 ^ 32" for x y :: u32
    using that by (simp add: uint_word_ariths mod_simps)
  have fits1: "uint (2 * x + 1 - y :: u32) = 2 * uint x + 1 - uint y"
    if "0 \<le> 2 * uint x + 1 - uint y" "2 * uint x + 1 - uint y < 2 ^ 32" for x y :: u32
    using that by (simp add: uint_word_ariths mod_simps)
  let ?t = "unsigned_magic_step d nc s"
  have q1: "uint (mg_q1 ?t) = 2 * ?P div ?N mod 2 ^ 32"
  proof (cases "2 * (?P mod ?N) \<ge> ?N")
    case True
    then have "mg_q1 ?t = 2 * mg_q1 s + 1" using c1 by (auto simp: unsigned_magic_step_def split: prod.splits)
    then show ?thesis unfolding double_divmod(2) [OF nc] if_P [OF True]
      using s(1) wrap_double(2) [of "?P div ?N"] by (simp only: uint_double)
  next
    case False
    then have "mg_q1 ?t = 2 * mg_q1 s" using c1 by (auto simp: unsigned_magic_step_def split: prod.splits)
    then show ?thesis unfolding double_divmod(2) [OF nc] if_not_P [OF False]
      using s(1) wrap_double(1) [of "?P div ?N"] by (simp only: uint_double)
  qed
  have r1': "uint (mg_r1 ?t) = 2 * ?P mod ?N"
  proof (cases "2 * (?P mod ?N) \<ge> ?N")
    case True
    then have "mg_r1 ?t = 2 * mg_r1 s - nc" using c1 by (auto simp: unsigned_magic_step_def split: prod.splits)
    moreover have "uint (2 * mg_r1 s - nc) = 2 * (?P mod ?N) - ?N"
      using fits [of "mg_r1 s" nc] True r1 s(2) uint_32(1) [of nc] by simp
    ultimately show ?thesis using double_divmod(1) [OF nc] True by simp
  next
    case False
    then have "mg_r1 ?t = 2 * mg_r1 s" using c1 by (auto simp: unsigned_magic_step_def split: prod.splits)
    moreover have "uint (2 * mg_r1 s) = 2 * (?P mod ?N)"
      using fits [of "mg_r1 s" 0] False r1 s(2) uint_32(1) [of nc] by simp
    ultimately show ?thesis using double_divmod(1) [OF nc] False by simp
  qed
  have q2: "uint (mg_q2 ?t) = (2 * ?A + 1) div ?D mod 2 ^ 32"
  proof (cases "2 * (?A mod ?D) + 1 \<ge> ?D")
    case True
    then have "mg_q2 ?t = 2 * mg_q2 s + 1" using c2 by (auto simp: unsigned_magic_step_def split: prod.splits)
    then show ?thesis unfolding double_odd_divmod(2) [OF d] if_P [OF True]
      using s(3) wrap_double(2) [of "?A div ?D"] by (simp only: uint_double)
  next
    case False
    then have "mg_q2 ?t = 2 * mg_q2 s" using c2 by (auto simp: unsigned_magic_step_def split: prod.splits)
    then show ?thesis unfolding double_odd_divmod(2) [OF d] if_not_P [OF False]
      using s(3) wrap_double(1) [of "?A div ?D"] by (simp only: uint_double)
  qed
  have r2': "uint (mg_r2 ?t) = (2 * ?A + 1) mod ?D"
  proof (cases "2 * (?A mod ?D) + 1 \<ge> ?D")
    case True
    then have "mg_r2 ?t = 2 * mg_r2 s + 1 - d" using c2 by (auto simp: unsigned_magic_step_def split: prod.splits)
    moreover have "uint (2 * mg_r2 s + 1 - d) = 2 * (?A mod ?D) + 1 - ?D"
      using fits1 [of "mg_r2 s" d] True r2 s(4) uint_32(1) [of d] by simp
    ultimately show ?thesis unfolding double_odd_divmod(1) [OF d] if_P [OF True] by (simp only:)
  next
    case False
    then have "mg_r2 ?t = 2 * mg_r2 s + 1" using c2 by (auto simp: unsigned_magic_step_def split: prod.splits)
    moreover have "uint (2 * mg_r2 s + 1) = 2 * (?A mod ?D) + 1"
      using fits1 [of "mg_r2 s" 0] False r2 s(4) uint_32(1) [of d] by simp
    ultimately show ?thesis unfolding double_odd_divmod(1) [OF d] if_not_P [OF False] by (simp only:)
  qed
  have small: "uint (mg_q2 s) = ?A div ?D" if "\<not> mg_add s" using that s(3,5) A by simp
  have add: "mg_add ?t \<longleftrightarrow> (2 * ?A + 1) div ?D + 1 \<ge> 2 ^ 32"
  proof (cases "mg_add s")
    case True
    then have "mg_add ?t" by (auto simp: unsigned_magic_step_def split: prod.splits)
    then show ?thesis unfolding double_odd_divmod(2) [OF d] using True s(5) A by auto
  next
    case False
    then show ?thesis
      unfolding double_odd_divmod(2) [OF d] using small [OF False] c2
      by (auto simp: unsigned_magic_step_def word_le_def split: prod.splits)
  qed
  have "2 * ?A + 1 = 2 * ?P - 1" by simp
  note new = q1 r1' q2 [unfolded this] r2' [unfolded this] add [unfolded this]
  have "2 ^ (mg_p s + 1) = 2 * ?P" by simp
  then show ?thesis unfolding unsigned_inv_def mg_p_unsigned_step using new by metis
qed

text \<open>What the loop has found when it ends.\<close>

definition unsigned_found :: "u32 \<Rightarrow> u32 \<Rightarrow> magic_state \<Rightarrow> bool" where
  "unsigned_found d nc s \<longleftrightarrow>
     unsigned_inv d nc s \<and> 32 \<le> mg_p s \<and> mg_p s \<le> 64 \<and>
     uint nc * (uint d - 1 - (2 ^ mg_p s - 1) mod uint d) < 2 ^ mg_p s \<and>
     (2 ^ mg_p s - 1) div uint d + 1 < 2 ^ 33"

lemma quotient_vs_bound:
  fixes P n k :: int
  assumes "0 < n"
  shows "k < P div n \<or> k = P div n \<and> P mod n \<noteq> 0 \<Longrightarrow> n * k < P"
    and "P div n < k \<or> P div n = k \<and> P mod n = 0 \<Longrightarrow> P \<le> n * k"
proof -
  have P: "P = n * (P div n) + P mod n" "0 \<le> P mod n" "P mod n < n" using assms by auto
  show "n * k < P" if "k < P div n \<or> k = P div n \<and> P mod n \<noteq> 0"
  proof (cases "k = P div n")
    case False
    then have "n * (k + 1) \<le> n * (P div n)" using that assms by simp
    moreover have "n * (k + 1) = n * k + n" by (simp add: distrib_left)
    ultimately show ?thesis using P assms by linarith
  next
    case True
    then have "0 < P mod n" using that P(2) by linarith
    then show ?thesis unfolding True using P(1) by linarith
  qed
  show "P \<le> n * k" if "P div n < k \<or> P div n = k \<and> P mod n = 0"
  proof (cases "k = P div n")
    case False
    then have "n * (P div n + 1) \<le> n * k" using that assms by simp
    moreover have "n * (P div n + 1) = n * (P div n) + n" by (simp add: distrib_left)
    ultimately show ?thesis using P by linarith
  next
    case True
    then have "P mod n = 0" using that by linarith
    then show ?thesis unfolding True using P(1) by linarith
  qed
qed

lemma div_mult_le: "0 < n \<Longrightarrow> P div n * n \<le> (P :: int)"
  using minus_mod_eq_div_mult [of P n] pos_mod_sign [of n P] by linarith

lemma div_lessI:
  assumes "0 < n" "P < k * n"
  shows "P div n < (k :: int)"
proof (rule ccontr)
  assume "\<not> P div n < k"
  then have "k * n \<le> P div n * n" using assms(1) by (intro mult_right_mono) auto
  then show False using assms div_mult_le [OF assms(1), of P] by linarith
qed

lemma nc_bounds:
  fixes d N :: int
  assumes "2 \<le> d" "d < N"
  shows "d - 1 \<le> N - 1 - N mod d" and "2 * (N - 1 - N mod d) \<ge> N - 2"
proof -
  define k m where "k = N div d" and "m = N mod d"
  have N: "N = k * d + m" "0 \<le> m" "m < d" using assms by (simp_all add: k_def m_def)
  have k: "1 \<le> k" using assms zdiv_mono1 [of d N d] by (simp add: k_def)
  have kd: "1 * d \<le> k * d" using k assms by (intro mult_right_mono) auto
  then show "d - 1 \<le> N - 1 - N mod d" unfolding m_def [symmetric] using N by linarith
  have "m < k * d" using kd N by linarith
  then have "2 * m < N" using N by linarith
  moreover have "2 * (N - 1 - m) = 2 * N - 2 - 2 * m" by simp
  ultimately show "2 * (N - 1 - N mod d) \<ge> N - 2" unfolding m_def [symmetric] by linarith
qed

lemma unsigned_stop:
  assumes inv: "unsigned_inv d nc s" and p: "32 \<le> mg_p s" "mg_p s \<le> 64" and d: "2 \<le> uint d" and nc: "0 < uint nc"
    and stop: "\<not> unsigned_magic_continues d s"
  shows "uint nc * (uint d - 1 - (2 ^ mg_p s - 1) mod uint d) < 2 ^ mg_p s"
proof -
  let ?P = "2 ^ mg_p s :: int" and ?N = "uint nc" and ?D = "uint d"
  have r2: "uint (mg_r2 s) = (?P - 1) mod ?D" "0 \<le> (?P - 1) mod ?D" "(?P - 1) mod ?D < ?D"
    using inv d by (auto simp: unsigned_inv_def)
  have "uint (d - 1) = ?D - 1" using d by (simp add: uint_diff_small)
  then have delta: "uint (d - 1 - mg_r2 s) = ?D - 1 - (?P - 1) mod ?D"
    using r2 by (simp add: uint_diff_small)
  show ?thesis
  proof (cases "mg_p s < 64")
    case True
    then have "\<not> (uint (mg_q1 s) < uint (d - 1 - mg_r2 s) \<or>
        uint (mg_q1 s) = uint (d - 1 - mg_r2 s) \<and> mg_r1 s = 0)"
      using stop True by (auto simp: unsigned_magic_continues_def word_less_def dest: unsigned_word_eqI)
    then have "?D - 1 - (?P - 1) mod ?D < uint (mg_q1 s) \<or>
        ?D - 1 - (?P - 1) mod ?D = uint (mg_q1 s) \<and> mg_r1 s \<noteq> 0"
      unfolding delta by linarith
    moreover have "uint (mg_q1 s) \<le> ?P div ?N"
      using inv nc by (simp add: unsigned_inv_def zmod_le_nonneg_dividend pos_imp_zdiv_nonneg_iff)
    moreover have "mg_r1 s \<noteq> 0 \<Longrightarrow> ?P mod ?N \<noteq> 0"
    proof -
      assume "mg_r1 s \<noteq> 0"
      then have "uint (mg_r1 s) \<noteq> 0" using unsigned_word_eqI [of "mg_r1 s" 0] by auto
      then show "?P mod ?N \<noteq> 0" using inv by (simp only: unsigned_inv_def) simp
    qed
    ultimately show ?thesis by (intro quotient_vs_bound(1) [OF nc]) auto
  next
    case False
    then have p: "mg_p s = 64" using p by simp
    define X where "X = ?D - 1 - (?P - 1) mod ?D"
    have X: "0 \<le> X" "X \<le> 4294967295" using r2 uint_32(1) [of d] unfolding X_def by linarith+
    have N: "0 \<le> ?N" "?N \<le> 4294967295" using nc uint_32(1) [of nc] by linarith+
    have "?N * X \<le> 4294967295 * 4294967295" using N X by (intro mult_mono) linarith+
    then have "?N * X < 2 ^ 64" by simp
    then show ?thesis unfolding X_def p .
  qed
qed

lemma unsigned_bound_next:
  assumes inv: "unsigned_inv d nc s" and p: "32 \<le> mg_p s" and d: "2 \<le> uint d"
    and nc: "uint nc = 2 ^ 32 - 1 - 2 ^ 32 mod uint d"
    and continues: "unsigned_magic_continues d s"
  shows "(2 ^ (mg_p s + 1) - 1) div uint d + 1 < (2 ^ 33 :: int)"
proof -
  let ?N = "uint nc" and ?D = "uint d"
  define P where "P = (2 :: int) ^ mg_p s"
  have bounds: "?D - 1 \<le> ?N" "2 * ?N \<ge> 4294967294"
    using nc_bounds [OF d, of "2 ^ 32"] uint_32(1) [of d] by (simp_all add: nc)
  then have nc0: "0 < ?N" by linarith
  have r2: "uint (mg_r2 s) = (P - 1) mod ?D" "0 \<le> (P - 1) mod ?D" "(P - 1) mod ?D < ?D"
    using inv d by (auto simp: unsigned_inv_def P_def)
  define X where "X = ?D - 1 - (P - 1) mod ?D"
  have X: "0 \<le> X" "X \<le> ?D - 1" using r2 unfolding X_def by linarith+
  have "uint (d - 1) = ?D - 1" using d by (simp add: uint_diff_small)
  then have delta: "uint (d - 1 - mg_r2 s) = X" using r2 by (simp add: uint_diff_small X_def)
  have q1: "uint (mg_q1 s) = P div ?N mod 2 ^ 32" and r1: "uint (mg_r1 s) = P mod ?N"
    using inv by (simp_all add: unsigned_inv_def P_def)
  have p64: "mg_p s < 64" and "uint (mg_q1 s) < X \<or> uint (mg_q1 s) = X \<and> mg_r1 s = 0"
    using continues delta by (auto simp: unsigned_magic_continues_def word_less_def)
  then have c: "uint (mg_q1 s) < X \<or> uint (mg_q1 s) = X \<and> P mod ?N = 0" using r1 by auto
  have Q0: "0 \<le> P div ?N" using nc0 by (simp add: P_def pos_imp_zdiv_nonneg_iff)
  have "2 * P - 1 < (2 ^ 33 - 2) * ?D"
  proof (cases "P div ?N < 2 ^ 32")
    case True
    then have "P div ?N < X \<or> P div ?N = X \<and> P mod ?N = 0" using c q1 Q0 by simp
    then have "P \<le> ?N * X" by (rule quotient_vs_bound(2) [OF nc0])
    also have "?N * X \<le> 4294967295 * (?D - 1)"
      using X nc0 uint_32(1) [of nc] by (intro mult_mono) linarith+
    finally show ?thesis by simp
  next
    case False
    then have "4294967296 * ?N \<le> (P div ?N) * ?N" using nc0 by (intro mult_right_mono) auto
    moreover have "(P div ?N) * ?N \<le> P" by (rule div_mult_le [OF nc0])
    ultimately have P: "4294967296 * ?N \<le> P" by linarith
    have "\<not> mg_p s \<le> 62"
    proof
      assume "mg_p s \<le> 62"
      then have "P \<le> 2 ^ 62" unfolding P_def by (intro power_increasing) auto
      then show False using P bounds(2) by simp
    qed
    then have "mg_p s = 63" using p64 by linarith
    then have P63: "P = 2 ^ 63" by (simp add: P_def)
    have N: "?N \<le> 2147483648" using P unfolding P63 by simp
    have m: "2 ^ 32 mod ?D < ?D" "2 ^ 32 mod ?D = 4294967295 - ?N" using d nc by simp_all
    then have "2147483647 < ?D" using N by linarith
    moreover have "?D \<noteq> 2147483648"
    proof
      assume "?D = 2147483648"
      then have "2 ^ 32 mod ?D = 0" by simp
      then show False using m N by linarith
    qed
    ultimately have "2147483649 \<le> ?D" by linarith
    then show ?thesis using P63 by simp
  qed
  then have "(2 * P - 1) div ?D < 2 ^ 33 - 2" using d by (intro div_lessI) auto
  then show ?thesis by (simp add: P_def)
qed


lemma unsigned_loop_found:
  assumes d: "2 \<le> uint d" and nc: "uint nc = 2 ^ 32 - 1 - 2 ^ 32 mod uint d"
    and s: "unsigned_inv d nc s" "31 \<le> mg_p s" "mg_p s < 64"
    "(2 ^ (mg_p s + 1) - 1) div uint d + 1 < (2 ^ 33 :: int)"
  shows "unsigned_found d nc (unsigned_magic_loop d nc s)"
  using s
proof (induction "64 - mg_p s" arbitrary: s rule: less_induct)
  case less
  let ?t = "unsigned_magic_step d nc s"
  have "uint d - 1 \<le> uint nc" using nc_bounds(1) [OF d, of "2 ^ 32"] nc by simp
  then have pos: "0 < uint d" "0 < uint nc" using d by linarith+
  have t: "unsigned_inv d nc ?t" "32 \<le> mg_p ?t" "mg_p ?t \<le> 64"
    using unsigned_inv_step [OF pos less.prems(1)] less.prems(2,3) by simp_all
  show ?case
  proof (cases "unsigned_magic_continues d ?t")
    case True
    then have "mg_p ?t < 64" by (simp add: unsigned_magic_continues_def)
    moreover have "(2 ^ (mg_p ?t + 1) - 1) div uint d + 1 < (2 ^ 33 :: int)"
      by (rule unsigned_bound_next [OF t(1,2) d nc True])
    ultimately have "unsigned_found d nc (unsigned_magic_loop d nc ?t)"
      using less.hyps [of ?t] less.prems(3) t by simp
    then show ?thesis using True by (subst unsigned_magic_loop.simps) (simp add: Let_def)
  next
    case False
    then have "unsigned_magic_loop d nc s = ?t" by (subst unsigned_magic_loop.simps) (simp add: Let_def)
    then show ?thesis
      using t unsigned_stop [OF t d pos(2) False] less.prems(4) by (simp add: unsigned_found_def)
  qed
qed

text \<open>The multiplier and the exponent a magic number stands for, and what they are good for.\<close>

definition um_multiplier :: "unsigned_magic \<Rightarrow> int" where
  "um_multiplier mag = uint (um_magic mag) + (if um_add mag then 2 ^ 32 else 0)"

lemma UnsignedMagic32_divides:
  assumes d: "2 \<le> uint d"
  shows "um_shift (UnsignedMagic32 d) \<le> (if um_add (UnsignedMagic32 d) then 32 else 31)"
    and "0 \<le> n \<Longrightarrow> n < 2 ^ 32 \<Longrightarrow>
      n * um_multiplier (UnsignedMagic32 d) div 2 ^ (32 + um_shift (UnsignedMagic32 d)) = n div uint d"
proof -
  let ?D = "uint d"
  define nc :: u32 where "nc = 0xffffffff - (0 - d) mod d"
  define s where "s = unsigned_magic_loop d nc (unsigned_magic_start d nc)"
  have "uint (0 - d) = 2 ^ 32 - ?D" using d by (simp add: uint_word_ariths zmod_zminus1_eq_if)
  moreover have "(2 ^ 32 - ?D) mod ?D = 2 ^ 32 mod ?D" using d by (simp add: mod_diff_right_eq minus_mod_self2)
  ultimately have m: "uint ((0 - d) mod d) = 2 ^ 32 mod ?D" by (simp add: uint_mod)
  have "4294967296 mod ?D < ?D" using d by simp
  then have "4294967296 mod ?D \<le> 4294967295" using uint_32(1) [of d] by linarith
  then have nc: "uint nc = 2 ^ 32 - 1 - 2 ^ 32 mod ?D"
    unfolding nc_def using m by (subst uint_diff_small) simp_all
  have nc1: "?D - 1 \<le> uint nc" using nc_bounds(1) [OF d, of "2 ^ 32"] nc by simp
  have "(2 ^ 32 - 1) div ?D \<le> (2 ^ 32 - 1) div 2" using d by (intro zdiv_mono2) auto
  then have "unsigned_found d nc s"
    unfolding s_def using d nc1
    by (intro unsigned_loop_found [OF d nc] unsigned_inv_start) (auto simp: unsigned_magic_start_def Let_def)
  then have inv: "unsigned_inv d nc s" and p: "32 \<le> mg_p s" "mg_p s \<le> 64"
    and e: "uint nc * (?D - 1 - (2 ^ mg_p s - 1) mod ?D) < 2 ^ mg_p s" and M33: "(2 ^ mg_p s - 1) div ?D + 1 < 2 ^ 33"
    by (simp_all add: unsigned_found_def)
  let ?P = "2 ^ mg_p s :: int"
  let ?M = "(?P - 1) div ?D + 1"
  have mag: "UnsignedMagic32 d = \<lparr>um_magic = mg_q2 s + 1, um_shift = mg_p s - 32, um_add = mg_add s\<rparr>"
    by (simp add: UnsignedMagic32_def s_def nc_def Let_def)
  have M0: "1 \<le> ?M" using d by (simp add: pos_imp_zdiv_nonneg_iff)
  have "uint (mg_q2 s + 1) = ?M mod 2 ^ 32"
    using inv by (simp add: unsigned_inv_def uint_word_ariths mod_simps)
  moreover have "mg_add s \<longleftrightarrow> ?M \<ge> 2 ^ 32" using inv by (simp add: unsigned_inv_def)
  ultimately have M: "um_multiplier (UnsignedMagic32 d) = ?M"
  proof -
    define X where "X = ?M"
    have "X < 4294967296 \<Longrightarrow> X mod 4294967296 = X" "4294967296 \<le> X \<Longrightarrow> X mod 4294967296 = X - 4294967296"
      using M0 M33 unfolding X_def [symmetric] by (simp, intro int_mod_pos_eq [of X _ 1]) auto
    then show ?thesis
      using \<open>uint (mg_q2 s + 1) = _\<close> \<open>mg_add s \<longleftrightarrow> _\<close> unfolding X_def [symmetric]
      by (cases "4294967296 \<le> X") (simp_all add: um_multiplier_def mag)
  qed
  define R where "R = (?P - 1) mod ?D"
  define Q where "Q = (?P - 1) div ?D"
  have R: "0 \<le> R" "R < ?D" using d by (simp_all add: R_def)
  have "?P - 1 = Q * ?D + R" by (simp add: Q_def R_def)
  then have MD: "(Q + 1) * ?D = ?P + (?D - 1 - R)" by (simp add: distrib_right)
  show "n * um_multiplier (UnsignedMagic32 d) div 2 ^ (32 + um_shift (UnsignedMagic32 d)) = n div ?D"
    if n: "0 \<le> n" "n < 2 ^ 32"
  proof -
    have "n * (Q + 1) div ?P = n div ?D"
      by (rule magic_quotient [OF _ MD, of "uint nc" "2 ^ 32 - 1"]) (use d R e nc nc1 n in \<open>simp_all add: R_def\<close>)
    moreover have "32 + (mg_p s - 32) = mg_p s" using p by simp
    ultimately show ?thesis using M by (simp add: mag Q_def)
  qed
  show "um_shift (UnsignedMagic32 d) \<le> (if um_add (UnsignedMagic32 d) then 32 else 31)"
  proof (cases "mg_add s")
    case True
    then show ?thesis using p by (simp add: mag)
  next
    case False
    then have "Q + 1 < 4294967296" using \<open>mg_add s \<longleftrightarrow> _\<close> by (simp add: Q_def)
    then have "(Q + 1) * ?D \<le> 4294967295 * 4294967295"
      using M0 d uint_32(1) [of d] by (intro mult_mono) (linarith | simp add: Q_def)+
    then have "?P < 2 ^ 64" using MD R by simp
    then have "mg_p s < 64" by (rule power_less_imp_less_exp [rotated]) simp
    then show ?thesis using False by (simp add: mag)
  qed
qed

end
