(* ===== verification/MagicSigned.thy ===== *)
theory MagicSigned
  imports MagicNumbers
begin

text \<open>The loop of \<open>SignedMagic32\<close>: it ends, and what it finds divides.\<close>

definition signed_inv :: "u32 \<Rightarrow> u32 \<Rightarrow> magic_state \<Rightarrow> bool" where
  "signed_inv ad anc s \<longleftrightarrow>
     uint (mg_q1 s) = 2 ^ mg_p s div uint anc mod 2 ^ 32 \<and> uint (mg_r1 s) = 2 ^ mg_p s mod uint anc \<and>
     uint (mg_q2 s) = 2 ^ mg_p s div uint ad mod 2 ^ 32 \<and> uint (mg_r2 s) = 2 ^ mg_p s mod uint ad"

lemma mg_p_signed_step [simp]: "mg_p (signed_magic_step ad anc s) = mg_p s + 1"
  by (simp add: signed_magic_step_def Let_def split: prod.splits)

lemma signed_inv_start:
  assumes "0 < uint ad" "0 < uint anc"
  shows "signed_inv ad anc (signed_magic_start ad anc)"
proof -
  have "0x80000000 - 0x80000000 div anc * anc = 0x80000000 mod anc" "0x80000000 - 0x80000000 div ad * ad = 0x80000000 mod ad"
    by (rule minus_div_mult_eq_mod)+
  then have r: "uint (0x80000000 - 0x80000000 div anc * anc :: u32) = 2 ^ 31 mod uint anc"
    "uint (0x80000000 - 0x80000000 div ad * ad :: u32) = 2 ^ 31 mod uint ad"
    by (simp_all add: uint_mod)
  have "2147483648 div uint anc \<le> 2147483648" "2147483648 div uint ad \<le> 2147483648"
    using assms zdiv_mono2 [of 2147483648 1 "uint anc"] zdiv_mono2 [of 2147483648 1 "uint ad"] by simp_all
  moreover have "0 \<le> 2147483648 div uint anc" "0 \<le> 2147483648 div uint ad"
    using assms by (simp_all add: pos_imp_zdiv_nonneg_iff)
  ultimately show ?thesis
    using r by (simp add: signed_inv_def signed_magic_start_def Let_def uint_div)
qed

text \<open>One doubling, for both pairs.\<close>

lemma word_double_divmod:
  fixes q r n :: u32 and P :: int
  assumes n: "0 < uint n" "uint n < 2 ^ 31" and q: "uint q = P div uint n mod 2 ^ 32" and r: "uint r = P mod uint n"
  shows "2 * r \<ge> n \<Longrightarrow> uint (2 * q + 1) = 2 * P div uint n mod 2 ^ 32 \<and> uint (2 * r - n) = 2 * P mod uint n"
    and "\<not> 2 * r \<ge> n \<Longrightarrow> uint (2 * q) = 2 * P div uint n mod 2 ^ 32 \<and> uint (2 * r) = 2 * P mod uint n"
proof -
  have R: "0 \<le> P mod uint n" "P mod uint n < uint n" using n(1) by auto
  then have r2: "uint (2 * r) = 2 * (P mod uint n)" using n(2) r by (simp add: uint_double)
  then have c: "2 * r \<ge> n \<longleftrightarrow> 2 * (P mod uint n) \<ge> uint n" by (simp add: word_le_def)
  show "uint (2 * q + 1) = 2 * P div uint n mod 2 ^ 32 \<and> uint (2 * r - n) = 2 * P mod uint n" if "2 * r \<ge> n"
  proof -
    have t: "2 * (P mod uint n) \<ge> uint n" using that c by simp
    have "uint (2 * r - n) = 2 * (P mod uint n) - uint n" using t r2 by (simp add: uint_diff_small)
    then show ?thesis
      unfolding double_divmod [OF n(1)] if_P [OF t] uint_double q wrap_double by simp
  qed
  show "uint (2 * q) = 2 * P div uint n mod 2 ^ 32 \<and> uint (2 * r) = 2 * P mod uint n" if "\<not> 2 * r \<ge> n"
  proof -
    have t: "\<not> 2 * (P mod uint n) \<ge> uint n" using that c by simp
    then show ?thesis
      unfolding double_divmod [OF n(1)] if_not_P [OF t] r2 unfolding uint_double q wrap_double by simp
  qed
qed

lemma signed_inv_step:
  assumes ad: "0 < uint ad" "uint ad < 2 ^ 31" and anc: "0 < uint anc" "uint anc < 2 ^ 31" and inv: "signed_inv ad anc s"
  shows "signed_inv ad anc (signed_magic_step ad anc s)"
proof -
  let ?t = "signed_magic_step ad anc s"
  have P: "2 ^ mg_p ?t = 2 * (2 ^ mg_p s :: int)" by simp
  have i: "uint (mg_q1 s) = 2 ^ mg_p s div uint anc mod 2 ^ 32" "uint (mg_r1 s) = 2 ^ mg_p s mod uint anc"
    "uint (mg_q2 s) = 2 ^ mg_p s div uint ad mod 2 ^ 32" "uint (mg_r2 s) = 2 ^ mg_p s mod uint ad"
    using inv by (simp_all add: signed_inv_def)
  note w1 = word_double_divmod [OF anc i(1,2)] and w2 = word_double_divmod [OF ad i(3,4)]
  have "uint (mg_q1 ?t) = 2 ^ mg_p ?t div uint anc mod 2 ^ 32 \<and> uint (mg_r1 ?t) = 2 ^ mg_p ?t mod uint anc"
    unfolding P using w1 by (cases "2 * mg_r1 s \<ge> anc") (auto simp: signed_magic_step_def Let_def split: prod.splits)
  moreover have "uint (mg_q2 ?t) = 2 ^ mg_p ?t div uint ad mod 2 ^ 32 \<and> uint (mg_r2 ?t) = 2 ^ mg_p ?t mod uint ad"
    unfolding P using w2 by (cases "2 * mg_r2 s \<ge> ad") (auto simp: signed_magic_step_def Let_def split: prod.splits)
  ultimately show ?thesis by (simp add: signed_inv_def)
qed

text \<open>
  The bound on the exponent: the condition holds at 62 at the latest, and up to 61 the quotient
  by \<open>anc\<close> fits a word; the one divisor for which it does not fit at 62 is done earlier.
\<close>

definition signed_entry :: "u32 \<Rightarrow> u32 \<Rightarrow> magic_state \<Rightarrow> bool" where
  "signed_entry ad anc s \<longleftrightarrow>
     signed_inv ad anc s \<and> 31 \<le> mg_p s \<and> mg_p s \<le> 61 \<and>
     (mg_p s = 31 \<or> 2 ^ mg_p s \<le> uint anc * (uint ad - 2 ^ mg_p s mod uint ad))"

definition signed_found :: "u32 \<Rightarrow> u32 \<Rightarrow> magic_state \<Rightarrow> bool" where
  "signed_found ad anc s \<longleftrightarrow>
     signed_inv ad anc s \<and> 32 \<le> mg_p s \<and> mg_p s \<le> 62 \<and>
     uint anc * (uint ad - 2 ^ mg_p s mod uint ad) < 2 ^ mg_p s \<and>
     2 ^ mg_p s div uint ad + 1 < (2 ^ 32 :: int)"

lemma signed_condition:
  assumes inv: "signed_inv ad anc s" and ad: "0 < uint ad" and anc: "0 < uint anc"
  shows "\<not> signed_magic_continues ad s \<Longrightarrow> uint anc * (uint ad - 2 ^ mg_p s mod uint ad) < 2 ^ mg_p s"
    and "signed_magic_continues ad s \<Longrightarrow> 2 ^ mg_p s div uint anc < (2 ^ 32 :: int) \<Longrightarrow>
      2 ^ mg_p s \<le> uint anc * (uint ad - 2 ^ mg_p s mod uint ad)"
proof -
  define P where "P = (2 :: int) ^ mg_p s"
  have i: "uint (mg_q1 s) = P div uint anc mod 2 ^ 32" "uint (mg_r1 s) = P mod uint anc" "uint (mg_r2 s) = P mod uint ad"
    using inv by (simp_all add: signed_inv_def P_def)
  define X where "X = uint ad - P mod uint ad"
  have delta: "uint (ad - mg_r2 s) = X" unfolding X_def using i(3) pos_mod_bound [OF ad, of P] by (subst uint_diff_small) simp_all
  have Q: "0 \<le> P div uint anc" using anc by (simp add: P_def pos_imp_zdiv_nonneg_iff)
  have r: "mg_r1 s = 0 \<longleftrightarrow> P mod uint anc = 0"
    using i(2) unsigned_word_eqI [of "mg_r1 s" 0] by (metis unsigned_0)
  have c: "signed_magic_continues ad s \<longleftrightarrow>
      uint (mg_q1 s) < X \<or> uint (mg_q1 s) = X \<and> P mod uint anc = 0"
    using delta r by (auto simp: signed_magic_continues_def Let_def word_less_def dest: unsigned_word_eqI)
  have "uint anc * X < P" if "\<not> signed_magic_continues ad s"
  proof -
    have "X < uint (mg_q1 s) \<or> X = uint (mg_q1 s) \<and> P mod uint anc \<noteq> 0" using that c by linarith
    moreover have "uint (mg_q1 s) \<le> P div uint anc" unfolding i(1) by (rule zmod_le_nonneg_dividend [OF Q])
    ultimately show ?thesis by (intro quotient_vs_bound(1) [OF anc]) auto
  qed
  then show "\<not> signed_magic_continues ad s \<Longrightarrow> uint anc * (uint ad - 2 ^ mg_p s mod uint ad) < 2 ^ mg_p s"
    by (simp add: X_def P_def)
  have "P \<le> uint anc * X" if "signed_magic_continues ad s" "P div uint anc < 2 ^ 32"
  proof -
    have "uint (mg_q1 s) = P div uint anc" using i(1) that(2) Q by simp
    then show ?thesis using that(1) c by (intro quotient_vs_bound(2) [OF anc]) auto
  qed
  then show "signed_magic_continues ad s \<Longrightarrow> 2 ^ mg_p s div uint anc < (2 ^ 32 :: int) \<Longrightarrow>
      2 ^ mg_p s \<le> uint anc * (uint ad - 2 ^ mg_p s mod uint ad)"
    by (simp add: X_def P_def)
qed

text \<open>The largest dividend \<open>nc\<close> for a divisor that is a positive \<open>int\<close>.\<close>

lemma signed_nc:
  assumes d: "2 \<le> uint ad" "uint ad < 2 ^ 31" and nc: "uint anc = 2 ^ 31 - 1 - 2 ^ 31 mod uint ad"
  shows "uint ad - 1 \<le> uint anc" "2 ^ 30 - 1 \<le> uint anc" "uint anc < 2 ^ 31" "0 < uint anc"
proof -
  show n: "uint ad - 1 \<le> uint anc" using nc_bounds(1) [OF d] nc by simp
  have "2 * uint anc \<ge> 2 ^ 31 - 2" using nc_bounds(2) [OF d] nc by simp
  then show "2 ^ 30 - 1 \<le> uint anc" by simp
  have "0 \<le> (2147483648 :: int) mod uint ad" using d by simp
  then show "uint anc < 2 ^ 31" using nc by simp
  show "0 < uint anc" using n d by linarith
qed

lemma signed_continues_early:
  assumes d: "2 \<le> uint ad" "uint ad < 2 ^ 31" and nc: "uint anc = 2 ^ 31 - 1 - 2 ^ 31 mod uint ad"
    and s: "signed_entry ad anc s" and continues: "signed_magic_continues ad (signed_magic_step ad anc s)"
  shows "signed_entry ad anc (signed_magic_step ad anc s)"
proof -
  let ?t = "signed_magic_step ad anc s"
  define p where "p = mg_p ?t"
  define X where "X = uint ad - 2 ^ p mod uint ad"
  note n = signed_nc [OF d nc]
  have ad: "0 < uint ad" using d by simp
  have t: "signed_inv ad anc ?t" using signed_inv_step [OF ad d(2) n(4,3)] s by (simp add: signed_entry_def)
  have X: "0 \<le> X" "X \<le> uint ad" using ad by (simp_all add: X_def order_less_imp_le)
  have p: "32 \<le> p" "p \<le> 62" using s by (simp_all add: p_def signed_entry_def)
  show ?thesis
  proof (cases "(2 :: int) ^ p div uint anc < 2 ^ 32")
    case True
    then have b: "2 ^ p \<le> uint anc * X"
      using signed_condition(2) [OF t ad n(4) continues] by (simp add: p_def X_def)
    have "uint anc * X \<le> 2147483647 * 2147483647"
      using n(3,4) X d by (intro mult_mono) auto
    then have "(2 :: int) ^ p < 2 ^ 62" using b by simp
    then have "p < 62" by (rule power_less_imp_less_exp [rotated]) simp
    then show ?thesis using t p b by (simp add: signed_entry_def p_def X_def)
  next
    case False
    have "(4294967296 :: int) * uint anc \<le> 2 ^ p div uint anc * uint anc"
      using False n(4) by (intro mult_right_mono) auto
    then have P: "4294967296 * uint anc \<le> 2 ^ p" using div_mult_le [OF n(4), of "2 ^ p"] by linarith
    have "\<not> p \<le> 61"
    proof
      assume "p \<le> 61"
      then have "(2 :: int) ^ p \<le> 2 ^ 61" by (intro power_increasing) auto
      then show False using P n(2) by simp
    qed
    then have p62: "p = 62" using p by linarith
    have N: "uint anc \<le> 1073741824" using P unfolding p62 by simp
    have m: "2147483648 mod uint ad < uint ad" "2147483648 mod uint ad = 2147483647 - uint anc" using ad nc by simp_all
    have "uint ad \<noteq> 1073741824"
    proof
      assume "uint ad = 1073741824"
      then have "(2147483648 :: int) mod uint ad = 0" by simp
      then show False using m N by linarith
    qed
    moreover have "1073741823 < uint ad" using m N by linarith
    ultimately have "1073741825 \<le> uint ad" by linarith
    then have "(2147483648 :: int) mod uint ad = 2147483648 - uint ad"
      using d by (intro int_mod_pos_eq [of _ _ 1]) auto
    then have "uint ad = 1073741825" "uint anc = 1073741824" using m N \<open>1073741825 \<le> uint ad\<close> by linarith+
    moreover have "mg_p s = 61" using p62 by (simp add: p_def)
    ultimately have "(2 :: int) ^ 61 \<le> 1073741824 * (1073741825 - 2 ^ 61 mod 1073741825)"
      using s by (simp add: signed_entry_def)
    then show ?thesis by simp
  qed
qed

lemma signed_loop_found:
  assumes d: "2 \<le> uint ad" "uint ad < 2 ^ 31" and nc: "uint anc = 2 ^ 31 - 1 - 2 ^ 31 mod uint ad"
    and s: "signed_entry ad anc s"
  shows "\<exists>t. signed_magic_loop ad anc s = Some t \<and> signed_found ad anc t"
  using s
proof (induction "62 - mg_p s" arbitrary: s rule: less_induct)
  case less
  let ?t = "signed_magic_step ad anc s"
  note n = signed_nc [OF d nc]
  have ad: "0 < uint ad" using d by simp
  have p: "31 \<le> mg_p s" "mg_p s \<le> 61" using less.prems by (simp_all add: signed_entry_def)
  show ?case
  proof (cases "signed_magic_continues ad ?t")
    case True
    then have "signed_entry ad anc ?t" using signed_continues_early [OF d nc less.prems] by blast
    moreover have "62 - mg_p ?t < 62 - mg_p s" using p by (simp add: diff_less_mono2)
    ultimately obtain t where "signed_magic_loop ad anc ?t = Some t" "signed_found ad anc t"
      using less.hyps [of ?t] by blast
    then show ?thesis using True by (subst signed_magic_loop.simps) (simp add: Let_def)
  next
    case False
    have t: "signed_inv ad anc ?t" using signed_inv_step [OF ad d(2) n(4,3)] less.prems by (simp add: signed_entry_def)
    have "2 * 2 ^ mg_p s < (2 ^ 32 - 1) * uint ad"
    proof (cases "mg_p s = 31")
      case True
      then show ?thesis using d by simp
    next
      case False
      then have "2 ^ mg_p s \<le> uint anc * (uint ad - 2 ^ mg_p s mod uint ad)"
        using less.prems by (simp add: signed_entry_def)
      also have "\<dots> \<le> 2147483647 * uint ad" using n(3,4) ad by (intro mult_mono) (simp_all add: order_less_imp_le)
      finally show ?thesis using ad by simp
    qed
    then have "2 * 2 ^ mg_p s div uint ad < 2 ^ 32 - 1" using ad by (intro div_lessI)
    then have "signed_found ad anc ?t"
      using t p signed_condition(1) [OF t ad n(4) False] by (simp add: signed_found_def)
    then show ?thesis using False by (subst signed_magic_loop.simps) (simp add: Let_def)
  qed
qed

text \<open>The excess of the multiplier when \<open>-2\<^sup>3\<^sup>1\<close> has the largest remainder.\<close>

lemma excess_of_minimum:
  fixes d :: int
  assumes d: "0 < d" and last: "2 ^ 31 mod d = d - 1" and p: "31 \<le> p"
  shows "2 ^ 31 * (d - 2 ^ p mod d) \<le> 2 ^ p"
proof -
  define j where "j = p - 31"
  have pj: "(2 :: int) ^ p = 2 ^ 31 * 2 ^ j" 
  proof -
    have "p = 31 + j" using p by (simp add: j_def)
    then show ?thesis by (simp only: power_add)
  qed
  have "(2 ^ 31 :: int) + 1 = (2 ^ 31 div d + 1) * d"
    using div_mult_mod_eq [of "2 ^ 31" d] unfolding last distrib_right by linarith
  then have "d dvd (2 ^ 31 + 1) * 2 ^ j" by (metis dvd_mult2 dvd_triv_right)
  then have "d dvd 2 ^ p + 2 ^ j" by (simp add: pj distrib_right)
  then have k: "d dvd 2 ^ p mod d + 2 ^ j" by (simp add: dvd_eq_mod_eq_0 mod_add_left_eq)
  have r: "0 \<le> (2 :: int) ^ p mod d" "(2 :: int) ^ p mod d < d" using d by simp_all
  then have "0 < 2 ^ p mod d + 2 ^ j" by (simp add: add_nonneg_pos)
  then have "d \<le> 2 ^ p mod d + 2 ^ j" using k zdvd_imp_le by blast
  then have "d - 2 ^ p mod d \<le> 2 ^ j" by linarith
  then have "2 ^ 31 * (d - 2 ^ p mod d) \<le> 2 ^ 31 * 2 ^ j" by (intro mult_left_mono) auto
  then show ?thesis by (simp add: pj)
qed

lemma SignedMagic32_divides:
  assumes d: "2 \<le> uint d" "uint d < 2 ^ 31"
  obtains mag where "SignedMagic32 d = Some mag" "sm_shift mag \<le> 30" "0 < uint (sm_magic mag)"
    and "\<And>n. 0 \<le> n \<Longrightarrow> n < 2 ^ 31 \<Longrightarrow> n * uint (sm_magic mag) div 2 ^ (32 + sm_shift mag) = n div uint d"
    and "\<And>m. 0 < m \<Longrightarrow> m \<le> 2 ^ 31 \<Longrightarrow>
      - m * uint (sm_magic mag) div 2 ^ (32 + sm_shift mag) = - (m div uint d) - 1"
proof -
  let ?D = "uint d"
  define anc :: u32 where "anc = 0x80000000 + drop_bit 31 d - 1 - (0x80000000 + drop_bit 31 d) mod d"
  have "uint (drop_bit 31 d) = 0" using d by (simp add: drop_bit_eq_div uint_div)
  then have "drop_bit 31 d = 0" by (metis uint_0_iff)
  then have anc: "anc = 0x7fffffff - 0x80000000 mod d" by (simp add: anc_def)
  have m: "uint (0x80000000 mod d :: u32) = 2 ^ 31 mod ?D" by (simp add: uint_mod)
  have "(2147483648 :: int) mod ?D < ?D" using d by simp
  moreover have "?D < 2147483648" using d(2) by simp
  ultimately have "(2147483648 :: int) mod ?D \<le> 2147483647" by linarith
  then have nc: "uint anc = 2 ^ 31 - 1 - 2 ^ 31 mod ?D" unfolding anc using m by (subst uint_diff_small) simp_all
  note n = signed_nc [OF d nc]
  have D: "0 < ?D" using d by simp
  have "signed_entry d anc (signed_magic_start d anc)"
    using signed_inv_start [OF D n(4)] by (simp add: signed_entry_def signed_magic_start_def Let_def)
  then obtain s where s: "signed_magic_loop d anc (signed_magic_start d anc) = Some s" "signed_found d anc s"
    using signed_loop_found [OF d nc] by blast
  let ?mag = "\<lparr>sm_magic = mg_q2 s + 1, sm_shift = mg_p s - 32\<rparr>"
  define P Q R where "P = (2 :: int) ^ mg_p s" and "Q = P div ?D" and "R = P mod ?D"
  have f: "signed_inv d anc s" "32 \<le> mg_p s" "mg_p s \<le> 62" "uint anc * (?D - R) < P" "Q + 1 < 2 ^ 32"
    using s(2) by (simp_all add: signed_found_def P_def Q_def R_def)
  have R: "0 \<le> R" "R < ?D" and Q: "0 \<le> Q" using D by (simp_all add: R_def Q_def P_def pos_imp_zdiv_nonneg_iff)
  have q2: "uint (mg_q2 s) = Q" using f(1,5) Q by (simp add: signed_inv_def Q_def P_def)
  then have M: "uint (mg_q2 s + 1) = Q + 1" using f(5) Q by (simp add: uint_word_ariths)
  have "P = Q * ?D + R" by (simp add: Q_def R_def)
  then have MD: "(Q + 1) * ?D = P + (?D - R)" by (simp add: distrib_right)
  have p: "P = 2 ^ (32 + sm_shift ?mag)" using f(2) by (simp add: P_def)
  have nc': "uint anc = 2 ^ 31 - 1 - (2 ^ 31 - 1 + 1) mod ?D" using nc by simp
  have e: "0 \<le> ?D - R" "0 < ?D - R" using R by simp_all
  show thesis
  proof (rule that [of ?mag])
    show "SignedMagic32 d = Some ?mag" using s(1) by (simp add: SignedMagic32_def anc_def Let_def)
    show "sm_shift ?mag \<le> 30" using f(3) by simp
    show "0 < uint (sm_magic ?mag)" using M Q by simp
    show "n * uint (sm_magic ?mag) div 2 ^ (32 + sm_shift ?mag) = n div ?D" if "0 \<le> n" "n < 2 ^ 31" for n
    proof -
      have "n * (Q + 1) div P = n div ?D"
        by (rule magic_quotient [OF D MD e(1) f(4) nc' n(1)]) (use that in simp_all)
      then show ?thesis unfolding p [symmetric] using M by simp
    qed
    show "- m * uint (sm_magic ?mag) div 2 ^ (32 + sm_shift ?mag) = - (m div ?D) - 1" if "0 < m" "m \<le> 2 ^ 31" for m
    proof -
      have "- m * (Q + 1) div P = - (m div ?D) - 1"
      proof (rule magic_quotient_negative [OF D MD e(2) f(4) nc' n(1)])
        assume "(2 ^ 31 - 1 + 1) mod ?D = ?D - 1"
        then show "(2 ^ 31 - 1 + 1) * (?D - R) \<le> P"
          using excess_of_minimum [OF D, of "mg_p s"] f(2) by (simp add: P_def R_def)
      qed (use that in simp_all)
      then show ?thesis unfolding p [symmetric] using M by simp
    qed
  qed
qed

end
