(* ===== verification/StrengthSpec.thy ===== *)
theory StrengthSpec
  imports StrengthReduction SccpFold MagicSigned
begin

text \<open>
  The values of the expressions of the strength reduction as integers of their type, and the
  lemmas that each rewriting preserves them.
\<close>

section \<open>Operations on integers of a type\<close>

lemma c_wrap_idem [simp]: "0 < n \<Longrightarrow> c_wrap u n (c_wrap u n x) = c_wrap u n x"
  by (rule bit_eqI) (auto simp: bit_c_wrap)

lemma c_wrap_int_of [simp]: "0 < n \<Longrightarrow> c_wrap u n (int_of u n v) = int_of u n v"
  by (simp add: int_of_def)

lemma int_of_word [simp]: "0 < n \<Longrightarrow> n \<le> 64 \<Longrightarrow> int_of u n (word_of_int (int_of u n v)) = int_of u n v"
  by (simp add: int_of_word_of_int)

text \<open>Being an integer of a type.\<close>

definition in_type :: "bool \<Rightarrow> nat \<Rightarrow> int \<Rightarrow> bool" where
  "in_type u n x \<longleftrightarrow> c_wrap u n x = x"

lemma in_type_range:
  assumes "0 < n"
  shows "in_type True n x \<longleftrightarrow> 0 \<le> x \<and> x < 2 ^ n" and "in_type False n x \<longleftrightarrow> - (2 ^ (n - 1)) \<le> x \<and> x < 2 ^ (n - 1)"
  using assms by (auto simp: in_type_def c_wrap_def take_bit_int_eq_self_iff signed_take_bit_int_eq_self_iff)

lemma in_type_int_of [simp]: "0 < n \<Longrightarrow> in_type u n (int_of u n v)"
  by (simp add: in_type_def)

lemma in_type_word: "0 < n \<Longrightarrow> n \<le> 64 \<Longrightarrow> in_type u n x \<Longrightarrow> int_of u n (word_of_int x) = x"
  by (simp add: int_of_word_of_int in_type_def)

lemma in_type_wider:
  assumes n: "0 < n" "n \<le> m" and x: "in_type u n x"
  shows "in_type u m x"
proof -
  have p: "(2 :: int) ^ n \<le> 2 ^ m" "(2 :: int) ^ (n - 1) \<le> 2 ^ (m - 1)" using n by (intro power_increasing; simp)+
  have m: "0 < m" using n by simp
  show ?thesis
  proof (cases u)
    case True
    then have u: "u = True" by simp
    show ?thesis using x p(1) unfolding u in_type_range(1) [OF n(1)] in_type_range(1) [OF m] by linarith
  next
    case False
    then have u: "u = False" by simp
    show ?thesis using x p(2) unfolding u in_type_range(2) [OF n(1)] in_type_range(2) [OF m] by linarith
  qed
qed

text \<open>The operations at one type, or from one type to another.\<close>

lemma arith_ops_ok:
  assumes "op \<in> set arith_ops"
    and "op \<in> set one_signedness_ops \<Longrightarrow> u2 = u" "op = IR_lsri \<Longrightarrow> u" "op = IR_asri \<Longrightarrow> \<not> u"
    and "op \<in> set [IR_zeroextendi, IR_signextendi] \<Longrightarrow> n \<noteq> n'"
  shows "op_ok op u n u2 n'"
proof -
  have "set arith_ops \<inter> set address_ops = {}" "set arith_ops \<inter> set [IR_mova, IR_adda, IR_suba] = {}"
    by (simp_all add: arith_ops_def plain_ops_def address_ops_def ir_op_defs)
  then show ?thesis using assms unfolding op_ok_def by auto
qed

text \<open>What the shifts make of an integer of the type.\<close>

lemma in_type_take:
  "in_type True n x \<Longrightarrow> take_bit n x = x" "in_type False n x \<Longrightarrow> signed_take_bit (n - 1) x = x"
  by (simp_all add: in_type_def c_wrap_def)

lemma op_value_arith:
  assumes op: "op \<in> set arith_ops" and t: "int_type pcs l = Some (u, n)" "int_type pcs ty = Some (u', n')"
    and x: "in_type u n x" and y: "0 < m" "m \<le> 64" "in_type u2 m y"
    and same: "op \<in> set one_signedness_ops \<Longrightarrow> u2 = u" and shifts: "op = IR_lsri \<Longrightarrow> u" "op = IR_asri \<Longrightarrow> \<not> u"
    and ext: "op \<in> set [IR_zeroextendi, IR_signextendi] \<Longrightarrow> n \<noteq> n'"
  shows "op_value pcs op l ty (word_of_int x) (word_of_int y) =
    map_option (\<lambda>k. word_of_int (c_wrap u' n' k)) (wrapped_arith op u n n' x y)"
proof -
  have n: "0 < n" "n \<le> 64" using int_type_width [OF t(1)] by auto
  let ?inst = "expr_node op ty"
  have i: "ir_opcode ?inst = op" "ir_type ?inst = ty" by (simp_all add: expr_node_def)
  have us: "(l \<noteq> None \<and> TypeIsUnsigned pcs l) = u"
    using t(1) by (auto simp: int_type_def split: option.splits if_splits)
  have "fold_integer pcs ?inst l (int n') u (word_of_int (int_of u n (word_of_int x)))
      (if is_unary ?inst then word_of_int y else word_of_int (int_of u2 m (word_of_int y)))
    = folds_to u' n' (wrapped_arith (ir_opcode ?inst) u n n' (int_of u n (word_of_int x)) (int_of u2 m (word_of_int y)))"
    by (rule fold_integer_arith [OF _ t(1)])
      (use op t(2) y arith_ops_ok [OF op same shifts ext] in \<open>simp_all add: i\<close>)
  then have "fold_integer pcs ?inst l (int n') u (word_of_int x) (word_of_int y) = folds_to u' n' (wrapped_arith op u n n' x y)"
    by (simp only: in_type_word [OF n x] in_type_word [OF y] if_cancel i)
  then show ?thesis
    unfolding op_value_def operation_width_int [OF t] us
    by (cases "wrapped_arith op u n n' x y") (simp_all add: folds_to_def)
qed

lemma Normalize_in_type:
  assumes "int_type pcs ty = Some (u, n)" "in_type u n x"
  shows "NormalizeIntegerValue pcs (word_of_int x) ty = word_of_int x"
  using NormalizeIntegerValue_int [OF assms(1)] int_type_width [OF assms(1)] assms(2) by (auto simp: in_type_word)

text \<open>An expression has an integer value at its type.\<close>

definition has_value :: "bool \<Rightarrow> (node_ref \<Rightarrow> u64) \<Rightarrow> ir_expr \<Rightarrow> bool \<Rightarrow> nat \<Rightarrow> int \<Rightarrow> bool" where
  "has_value pcs env e u n x \<longleftrightarrow>
     int_type pcs (expr_type e) = Some (u, n) \<and> in_type u n x \<and> expr_value pcs env e = Some (word_of_int x)"

lemma has_value_op:
  assumes a: "has_value pcs env a u n x" and b: "has_value pcs env b u2 m y"
    and ty: "int_type pcs ty = Some (u', n')" and op: "op \<in> set arith_ops"
    and same: "op \<in> set one_signedness_ops \<Longrightarrow> u2 = u" and shifts: "op = IR_lsri \<Longrightarrow> u" "op = IR_asri \<Longrightarrow> \<not> u"
    and ext: "op \<in> set [IR_zeroextendi, IR_signextendi] \<Longrightarrow> n \<noteq> n'"
  shows "expr_value pcs env (EBin op a b ty) =
    map_option (\<lambda>k. word_of_int (c_wrap u' n' k)) (wrapped_arith op u n n' x y)"
proof -
  have t: "int_type pcs (expr_type a) = Some (u, n)" "int_type pcs (expr_type b) = Some (u2, m)"
    and r: "in_type u n x" "in_type u2 m y" using a b by (auto simp: has_value_def)
  have m: "0 < m" "m \<le> 64" using int_type_width [OF t(2)] by auto
  have "expr_value pcs env (EBin op a b ty) = op_value pcs op (expr_type a) ty (word_of_int x) (word_of_int y)"
    using a b Normalize_in_type [OF t(1) r(1)] Normalize_in_type [OF t(2) r(2)] by (simp add: has_value_def)
  also have "\<dots> = map_option (\<lambda>k. word_of_int (c_wrap u' n' k)) (wrapped_arith op u n n' x y)"
    by (rule op_value_arith [OF op t(1) ty r(1) m r(2) same shifts ext])
  finally show ?thesis .
qed

text \<open>An operation whose exact result is in the type of the result.\<close>

lemma has_value_exact:
  assumes "has_value pcs env a u n x" "has_value pcs env b u2 m y" "int_type pcs ty = Some (u', n')" "op \<in> set arith_ops"
    and "op \<in> set one_signedness_ops \<Longrightarrow> u2 = u" "op = IR_lsri \<Longrightarrow> u" "op = IR_asri \<Longrightarrow> \<not> u"
    and "op \<in> set [IR_zeroextendi, IR_signextendi] \<Longrightarrow> n \<noteq> n'"
    and "wrapped_arith op u n n' x y = Some k" "in_type u' n' k"
  shows "has_value pcs env (EBin op a b ty) u' n' k"
  using has_value_op [OF assms(1-8)] assms(3,9,10) by (simp add: has_value_def in_type_def)

lemma has_value_const:
  assumes "int_type pcs ty = Some (u, n)" "in_type u n x"
  shows "has_value pcs env (EConst ty (word_of_int x)) u n x"
  using assms Normalize_in_type [OF assms] by (simp add: has_value_def)


section \<open>Division by a constant\<close>

lemma int_type_wide [simp]:
  "int_type pcs (Some (wide_unsigned 8)) = Some (True, 64)" "int_type pcs (Some (wide_signed 8)) = Some (False, 64)"
  by (simp_all add: int_type_def wide_unsigned_def wide_signed_def TypeIsIntegral_def TypeIsBitInt_def TypeIsUnsigned_def
      TypeIsChar8_def TypeIsChar16_def TypeIsChar32_def primitive_has_def type_bit_defs)

lemma ty_size_wide [simp]: "ty_size (wide_unsigned w) = w" "ty_size (wide_signed w) = w"
  by (simp_all add: wide_unsigned_def wide_signed_def)

lemma in_type_32:
  assumes "n = 8 \<or> n = 16 \<or> n = 32"
  shows "in_type True n x \<Longrightarrow> 0 \<le> x \<and> x < 2 ^ 32" and "in_type False n x \<Longrightarrow> - (2 ^ 31) \<le> x \<and> x < 2 ^ 31"
  using assms in_type_range [of n x] by auto

lemma in_type_64:
  "in_type True 64 x \<longleftrightarrow> 0 \<le> x \<and> x < 2 ^ 64" "in_type False 64 x \<longleftrightarrow> - (2 ^ 63) \<le> x \<and> x < 2 ^ 63"
  by (simp_all add: in_type_range)

lemma narrow_size:
  assumes "int_type pcs (Some t) = Some (u, n)" "ty_size t \<le> 4"
  shows "n = 8 \<or> n = 16 \<or> n = 32" "ty_size t * 8 = int n"
  using assms by (auto simp: int_type_def split: if_splits)

lemma ExtendBefore_value:
  assumes e: "has_value pcs env e u n x" and n: "n = 8 \<or> n = 16 \<or> n = 32" and s: "expr_size e * 8 = int n"
  shows "has_value pcs env (ExtendBefore e (if u then wide_unsigned 8 else wide_signed 8) (\<not> u)) u 64 x"
proof -
  let ?wide = "if u then wide_unsigned 8 else wide_signed 8"
  let ?op = "if u then IR_zeroextendi else IR_signextendi"
  have w: "int_type pcs (Some ?wide) = Some (u, 64)" by simp
  have d: "(ty_size ?wide - expr_size e) * 8 = 64 - int n" "64 - int n \<noteq> 0" using s n by auto
  have k: "in_type u 64 (64 - int n)" using n by (cases u) (auto simp: in_type_64)
  have x: "in_type u n x" using e by (simp add: has_value_def)
  have "wrapped_arith ?op u n 64 x (64 - int n) = Some x"
    using x n by (cases u) (auto simp: wrapped_arith_ops in_type_def c_wrap_def min_def)
  then have "has_value pcs env (EBin ?op e (EConst (Some ?wide) (word_of_int (64 - int n))) (Some ?wide)) u 64 x"
    using n in_type_wider [OF _ _ x, of 64]
    by (intro has_value_exact [OF e has_value_const [OF w k] w]) (cases u; auto simp: arith_ops_def one_signedness_ops_def ir_op_defs)+
  then show ?thesis using d by (cases u) (simp_all add: ExtendBefore_def)
qed

lemma NarrowBefore_value:
  assumes e: "has_value pcs env e u 64 x" and x: "in_type u n x" and t: "int_type pcs (Some t) = Some (u, n)" "ty_size t \<le> 4"
    and s: "expr_size e = 8" "expr_type e \<noteq> None"
  shows "has_value pcs env (NarrowBefore e t (\<not> u)) u n x"
proof -
  let ?op = "if u then IR_zeroextendi else IR_signextendi" and ?k = "word_of_int ((ty_size t - 8) * 8) :: u64"
  note n = narrow_size [OF t]
  have k: "has_value pcs env (EConst (Some t) ?k) u n (int_of u n ?k)"
    using NormalizeIntegerValue_int [OF t(1), of ?k] n(1) t(1) by (auto simp: has_value_def)
  have "wrapped_arith ?op u 64 n x (int_of u n ?k) = Some x"
    using x n(1) by (cases u) (auto simp: wrapped_arith_ops in_type_def c_wrap_def min_def)
  then have "has_value pcs env (EBin ?op e (EConst (Some t) ?k) (Some t)) u n x"
    using n(1) x by (intro has_value_exact [OF e k t(1)]) (cases u; auto simp: arith_ops_def one_signedness_ops_def ir_op_defs)+
  then show ?thesis using t(2) s by (cases u) (simp_all add: NarrowBefore_def)
qed


text \<open>The emitted instructions compute the quotient by the magic number.\<close>

lemmas arith_op_defs = arith_ops_def plain_ops_def one_signedness_ops_def ir_op_defs

lemma has_value_wide:
  assumes "int_type pcs ty = Some (u, 64)" "has_value pcs env a u 64 x" "in_type u 64 k" "wrapped_arith op u 64 64 x k = Some v"
    and "in_type u 64 v" "op \<in> set [IR_muli, if u then IR_lsri else IR_asri]"
  shows "has_value pcs env (EBin op a (EConst ty (word_of_int k)) ty) u 64 v"
  using assms(6)
  by (intro has_value_exact [OF assms(2) has_value_const [OF assms(1,3)] assms(1) _ _ _ _ _ assms(4,5)])
    (cases u; auto simp: arith_op_defs)+

lemma has_value_add:
  assumes "int_type pcs ty = Some (u, 64)" "has_value pcs env a u 64 x" "has_value pcs env b u 64 y" "in_type u 64 (x + y)"
  shows "has_value pcs env (EBin IR_addi a b ty) u 64 (x + y)"
  by (rule has_value_exact [OF assms(2,3,1) _ _ _ _ _ _ assms(4)]) (auto simp: arith_op_defs wrapped_arith_def c_arith_def)

lemma div_exp_exp: "(a :: int) div 2 ^ p div 2 ^ q = a div 2 ^ (p + q)"
  by (simp add: zdiv_zmult2_eq power_add)

lemma div_le_self: "0 \<le> (a :: int) \<Longrightarrow> a div 2 ^ k \<le> a"
  using zdiv_mono2 [of a 1 "2 ^ k"] by simp

lemma in_type_shifted:
  assumes y: "in_type u 64 y"
  shows "in_type u 64 (y div 2 ^ k)"
proof (cases "0 \<le> y")
  case True
  then have "0 \<le> y div 2 ^ k" "y div 2 ^ k \<le> y" using div_le_self by (simp_all add: pos_imp_zdiv_nonneg_iff)
  then show ?thesis using y by (cases u) (auto simp: in_type_64)
next
  case False
  then have "y div 2 ^ k < 0" by (simp add: neg_imp_zdiv_neg_iff pos_imp_zdiv_neg_iff)
  moreover have "y div 1 \<le> y div 2 ^ k" using False by (intro zdiv_mono2_neg) simp_all
  ultimately show ?thesis using y False by (cases u) (auto simp: in_type_64)
qed

lemma has_value_shift:
  assumes t: "int_type pcs ty = Some (u, 64)" and a: "has_value pcs env a u 64 y" and k: "k < 64"
  shows "has_value pcs env (EBin (if u then IR_lsri else IR_asri) a (EConst ty (of_nat k)) ty) u 64 (y div 2 ^ k)"
proof -
  have y: "in_type u 64 y" using a by (simp add: has_value_def)
  have "has_value pcs env (EBin (if u then IR_lsri else IR_asri) a (EConst ty (word_of_int (int k))) ty) u 64 (y div 2 ^ k)"
    by (rule has_value_wide [OF t a _ _ in_type_shifted [OF y]]) (use k in_type_take [of 64 y] y in \<open>cases u; simp add: in_type_64 wrapped_arith_ops\<close>)+
  then show ?thesis by simp
qed

lemma unsigned_division_value:
  assumes e: "has_value pcs env e True n x" and n: "n = 8 \<or> n = 16 \<or> n = 32" and s: "expr_size e * 8 = int n"
    and sh: "um_shift mag \<le> (if um_add mag then 32 else 31)"
  shows "has_value pcs env (unsigned_division (wide_unsigned 8) e mag) True 64
    (x * um_multiplier mag div 2 ^ (32 + um_shift mag))"
proof -
  let ?ty = "Some (wide_unsigned 8)" and ?M = "uint (um_magic mag)" and ?s = "um_shift mag"
  let ?n64 = "ExtendBefore e (wide_unsigned 8) False"
  have n64: "has_value pcs env ?n64 True 64 x" using ExtendBefore_value [OF e n s] by simp
  have x: "0 \<le> x" "x < 2 ^ 32" using e in_type_32(1) [OF n] by (auto simp: has_value_def)
  have M: "0 \<le> ?M" "?M < 2 ^ 32" using uint_32 [of "um_magic mag"] by simp_all
  then have le: "?M \<le> 2 ^ 32 - 1" by linarith
  have "x * ?M \<le> (2 ^ 32 - 1) * (2 ^ 32 - 1)" using x M(1) le by (intro mult_mono) simp_all
  then have p: "0 \<le> x * ?M" "x * ?M \<le> (2 ^ 32 - 1) * (2 ^ 32 - 1)" using x M by simp_all
  have t: "int_type pcs ?ty = Some (True, 64)" by simp
  have m: "ucast (um_magic mag) = (word_of_int ?M :: u64)" by transfer simp
  have k: "in_type True 64 ?M" using le by (simp add: in_type_64)
  let ?prod = "EBin IR_muli ?n64 (EConst ?ty (word_of_int ?M)) ?ty"
  have prod: "has_value pcs env ?prod True 64 (x * ?M)"
    by (rule has_value_wide [OF t n64]) (use k p in \<open>auto simp: in_type_64 wrapped_arith_ops\<close>)
  note shift = has_value_shift [where u = True, OF t, unfolded if_True]
  show ?thesis
  proof (cases "um_add mag")
    case False
    have "has_value pcs env (EBin IR_lsri ?prod (EConst ?ty (of_nat (32 + ?s))) ?ty) True 64 (x * ?M div 2 ^ (32 + ?s))"
      by (rule shift [OF prod]) (use p sh False in auto)
    then show ?thesis
      unfolding unsigned_division_def um_multiplier_def Let_def m if_P [OF False] if_not_P [OF False] add_0_right .
  next
    case True
    then have add: "\<not> \<not> um_add mag" by simp
    let ?hi = "EBin IR_lsri ?prod (EConst ?ty 32) ?ty" and ?h = "x * ?M div 2 ^ 32"
    have hi: "has_value pcs env ?hi True 64 ?h" using shift [OF prod, of 32] p by simp
    have h: "0 \<le> ?h" "?h < 2 ^ 32" using p by (simp_all add: pos_imp_zdiv_nonneg_iff div_less_iff_less_mult)
    have sum: "has_value pcs env (EBin IR_addi ?hi ?n64 ?ty) True 64 (?h + x)"
      by (rule has_value_add [OF t hi n64]) (use h x in \<open>auto simp: in_type_64\<close>)
    have "?h + x = x * (?M + 2 ^ 32) div 2 ^ 32" by (simp add: distrib_left)
    then have q: "(?h + x) div 2 ^ ?s = x * um_multiplier mag div 2 ^ (32 + ?s)"
      unfolding um_multiplier_def if_P [OF True] by (simp only: div_exp_exp)
    show ?thesis
    proof (cases "?s = 0")
      case True
      then have "(?h + x) div 2 ^ ?s = ?h + x" by simp
      then show ?thesis
        using sum unfolding unsigned_division_def m Let_def if_not_P [OF add] if_P [OF True] q by simp
    next
      case False
      have "has_value pcs env (EBin IR_lsri (EBin IR_addi ?hi ?n64 ?ty) (EConst ?ty (of_nat ?s)) ?ty) True 64
          ((?h + x) div 2 ^ ?s)"
        by (rule shift [OF sum]) (use h x sh \<open>um_add mag\<close> in auto)
      then show ?thesis unfolding unsigned_division_def m Let_def if_not_P [OF add] if_not_P [OF False] q .
    qed
  qed
qed

lemma sign_bit_value:
  assumes a: "has_value pcs env a False 64 x"
  shows "has_value pcs env (EBin IR_lsri a (EConst (Some (wide_signed 8)) 63) (Some (wide_signed 8))) False 64
    (if x < 0 then 1 else 0)"
proof -
  let ?ty = "Some (wide_signed 8)" and ?w = "word_of_int x :: u64"
  let ?inst = "expr_node IR_lsri ?ty"
  have t: "int_type pcs ?ty = Some (False, 64)" "int_type pcs (expr_type a) = Some (False, 64)" "in_type False 64 x"
    "expr_value pcs env a = Some ?w" using a by (simp_all add: has_value_def)
  have "bit x 63 \<longleftrightarrow> x < 0" using t(3) signed_take_bit_negative_iff [of 63 x] by (simp add: in_type_def c_wrap_def)
  then have d: "drop_bit 63 ?w = word_of_int (if x < 0 then 1 else 0)"
    by (intro bit_eqI) (auto simp: bit_simps)
  have c: "expr_value pcs env (EConst ?ty 63) = Some 63" "NormalizeIntegerValue pcs 63 ?ty = 63"
    using Normalize_in_type [OF t(1), of 63] by (simp_all add: in_type_64)
  have i: "ir_opcode ?inst = IR_lsri" "ir_type ?inst = ?ty" by (simp_all add: expr_node_def)
  have "\<not> bad_shift 64 63" "unat (63 :: u64) = 63" "IR_lsri \<noteq> IR_lsli" by (simp_all add: bad_shift_def ir_op_defs)
  then have "fold_shift pcs ?inst 64 ?w 63 = TypedConstantValue pcs ?ty (drop_bit 63 ?w)"
    unfolding fold_shift_def i by simp
  then have "fold_integer pcs ?inst (expr_type a) 64 us ?w 63 = TypedConstantValue pcs ?ty (drop_bit 63 ?w)" for us
    by (subst fold_integer_groups(2)) (simp_all add: i)
  also have "\<dots> = SCCPConstant (word_of_int (if x < 0 then 1 else 0))"
    unfolding d typed_folds [OF t(1)] by (simp add: folds_to_def c_wrap_def)
  finally have "op_value pcs IR_lsri (expr_type a) ?ty ?w 63 = Some (word_of_int (if x < 0 then 1 else 0))"
    using operation_width_int [OF t(2,1)] by (simp add: op_value_def)
  then show ?thesis
    using t c Normalize_in_type [OF t(2,3)] by (simp add: has_value_def in_type_64)
qed


lemma uint_of_sint: "uint w = sint w + (if sint w < 0 then 2 ^ 32 else 0)" for w :: u32
proof (cases "sint w < 0")
  case True
  then have "bit (uint w) 31" by (simp add: sint_uint signed_take_bit_negative_iff)
  then show ?thesis using True by (simp add: sint_uint signed_take_bit_eq_take_bit_minus take_bit_int_eq_self)
next
  case False
  then have "\<not> bit (uint w) 31" by (simp add: sint_uint signed_take_bit_negative_iff)
  then show ?thesis using False by (simp add: sint_uint signed_take_bit_eq_take_bit_minus take_bit_int_eq_self)
qed

lemma signed_product_bounds:
  assumes "- (2 ^ 31) \<le> x" "x < 2 ^ 31" "- (2 ^ 31) \<le> y" "y < 2 ^ 31"
  shows "- (2 ^ 62) \<le> x * y" "x * y \<le> (2 ^ 62 :: int)"
proof -
  have "\<bar>x * y\<bar> \<le> 2 ^ 31 * 2 ^ 31" unfolding abs_mult using assms by (intro mult_mono) simp_all
  then show "- (2 ^ 62) \<le> x * y" "x * y \<le> (2 ^ 62 :: int)" by simp_all
qed

lemma div_within:
  assumes "- b \<le> a" "a \<le> (b :: int)"
  shows "- b \<le> a div 2 ^ k" "a div 2 ^ k \<le> b"
proof -
  have b: "0 \<le> b" using assms by simp
  have "- b div 1 \<le> - b div 2 ^ k" using b zdiv_mono2_neg [of "- b" 1 "2 ^ k"] by (cases "b = 0") simp_all
  also have "\<dots> \<le> a div 2 ^ k" using assms(1) by (rule zdiv_mono1) simp
  finally show "- b \<le> a div 2 ^ k" by simp
  have "a div 2 ^ k \<le> b div 2 ^ k" using assms(2) by (rule zdiv_mono1) simp
  also have "\<dots> \<le> b" using b by (rule div_le_self)
  finally show "a div 2 ^ k \<le> b" .
qed

lemma signed_high_word:
  "(if sint w < 0 then x * sint w div 2 ^ 32 + x else x * sint w div 2 ^ 32) = x * uint w div 2 ^ 32" for w :: u32
proof (cases "sint w < 0")
  case True
  then have "x * uint w = x * sint w + x * 2 ^ 32" by (simp add: uint_of_sint distrib_left)
  then show ?thesis using True by simp
next
  case False
  then show ?thesis using uint_of_sint [of w] by simp
qed

lemma signed_division_value:
  assumes e: "has_value pcs env e False n x" and n: "n = 8 \<or> n = 16 \<or> n = 32" and s: "expr_size e * 8 = int n"
    and sh: "sm_shift mag \<le> 30"
  shows "has_value pcs env (signed_division (wide_signed 8) e mag) False 64
    (x * uint (sm_magic mag) div 2 ^ (32 + sm_shift mag) + (if x < 0 then 1 else 0))"
proof -
  let ?ty = "Some (wide_signed 8)" and ?S = "sint (sm_magic mag)" and ?s = "sm_shift mag"
  let ?n64 = "ExtendBefore e (wide_signed 8) True"
  let ?prod = "EBin IR_muli ?n64 (EConst ?ty (scast (sm_magic mag))) ?ty"
  let ?hi = "EBin IR_asri ?prod (EConst ?ty 32) ?ty"
  let ?hi1 = "if ?S < 0 then EBin IR_addi ?hi ?n64 ?ty else ?hi"
  let ?hi2 = "if ?s > 0 then EBin IR_asri ?hi1 (EConst ?ty (of_nat ?s)) ?ty else ?hi1"
  let ?h = "x * uint (sm_magic mag) div 2 ^ 32" and ?q = "x * uint (sm_magic mag) div 2 ^ (32 + ?s)"
  have t: "int_type pcs ?ty = Some (False, 64)" by simp
  note shift = has_value_shift [where u = False, OF t, unfolded if_False]
  have n64: "has_value pcs env ?n64 False 64 x" using ExtendBefore_value [OF e n s] by simp
  have x: "- (2 ^ 31) \<le> x" "x < 2 ^ 31" using e in_type_32(2) [OF n] by (auto simp: has_value_def)
  have S: "- (2 ^ 31) \<le> ?S" "?S < 2 ^ 31"
    using sint_ge [of "sm_magic mag"] sint_lt [of "sm_magic mag"] by simp_all
  note p = signed_product_bounds [OF x S]
  have m: "scast (sm_magic mag) = (word_of_int ?S :: u64)" by (fact scast_eq)
  have in64: "in_type False 64 ?S" using S by (simp add: in_type_64)
  have in64': "in_type False 64 (x * ?S)" using p by (simp add: in_type_64)
  have prod: "has_value pcs env ?prod False 64 (x * ?S)"
    unfolding m by (rule has_value_wide [OF t n64 in64 _ in64']) (simp_all add: wrapped_arith_ops)
  have hi: "has_value pcs env ?hi False 64 (x * ?S div 2 ^ 32)" using shift [OF prod, of 32] by simp
  have r: "- (2 ^ 62) \<le> x * ?S div 2 ^ 32" "x * ?S div 2 ^ 32 \<le> 2 ^ 62" using div_within [OF p, of 32] by simp_all
  have "has_value pcs env (EBin IR_addi ?hi ?n64 ?ty) False 64 (x * ?S div 2 ^ 32 + x)"
    by (rule has_value_add [OF t hi n64]) (use r x in \<open>auto simp: in_type_64\<close>)
  then have hi1: "has_value pcs env ?hi1 False 64 ?h"
    using hi unfolding signed_high_word [symmetric] by (cases "?S < 0") simp_all
  have "has_value pcs env ?hi2 False 64 (?h div 2 ^ ?s)" using shift [OF hi1, of ?s] hi1 sh by (cases "?s > 0") simp_all
  then have hi2: "has_value pcs env ?hi2 False 64 ?q" unfolding div_exp_exp .
  have "- (2 ^ 62 + 2 ^ 31) \<le> ?h" "?h \<le> 2 ^ 62 + 2 ^ 31" using r x unfolding signed_high_word [symmetric] by simp_all
  then have "- (2 ^ 62 + 2 ^ 31) \<le> ?q" "?q \<le> 2 ^ 62 + 2 ^ 31"
    using div_within [of "2 ^ 62 + 2 ^ 31" ?h ?s] unfolding div_exp_exp by simp_all
  then have "in_type False 64 (?q + (if x < 0 then 1 else 0))" by (simp add: in_type_64)
  then have "has_value pcs env (EBin IR_addi ?hi2 (EBin IR_lsri ?n64 (EConst ?ty 63) ?ty) ?ty) False 64
      (?q + (if x < 0 then 1 else 0))"
    by (rule has_value_add [OF t hi2 sign_bit_value [OF n64]])
  then show ?thesis unfolding signed_division_def Let_def .
qed


text \<open>The rewriting of a division.\<close>

lemma sdiv_pos: "0 \<le> x \<Longrightarrow> 0 \<le> y \<Longrightarrow> x sdiv y = x div (y :: int)"
  by (cases "x = 0 \<or> y = 0") (auto simp: signed_divide_int_def)

lemma sdiv_neg: "x < 0 \<Longrightarrow> 0 \<le> y \<Longrightarrow> x sdiv y = - (- x div (y :: int))"
  by (cases "y = 0") (auto simp: signed_divide_int_def)

lemma expr_size_int: "int_type pcs (expr_type e) = Some (u, n) \<Longrightarrow> expr_size e * 8 = int n"
  by (auto simp: expr_size_def int_type_def split: option.splits if_splits)

lemma quotient_in_type:
  assumes n: "0 < n" and x: "in_type u n x" and y: "0 < y"
  shows "in_type u n (x sdiv y)"
proof -
  have le: "- x div y \<le> - x" if "x < 0" using that y zdiv_mono2 [of "- x" 1 y] by simp
  have le': "x div y \<le> x" if "0 \<le> x" using that y zdiv_mono2 [of x 1 y] by simp
  show ?thesis
  proof (cases "x < 0")
    case True
    then have q: "x \<le> x sdiv y" "x sdiv y \<le> 0"
      using le y by (simp_all add: sdiv_neg pos_imp_zdiv_nonneg_iff)
    then have "\<not> u" using x True n in_type_range(1) [OF n] by (cases u) auto
    then have u: "u = False" by simp
    show ?thesis using q x unfolding u in_type_range(2) [OF n] by (meson le_less_trans order_trans zero_less_power zero_less_numeral)
  next
    case False
    then have q: "x sdiv y \<le> x" "0 \<le> x sdiv y" using le' y by (simp_all add: sdiv_pos pos_imp_zdiv_nonneg_iff)
    show ?thesis
    proof (cases u)
      case True
      then have u: "u = True" by simp
      show ?thesis using q x unfolding u in_type_range(1) [OF n] by linarith
    next
      case False
      then have u: "u = False" by simp
      have "- (2 ^ (n - 1)) \<le> (0 :: int)" by simp
      then show ?thesis using q x unfolding u in_type_range(2) [OF n] by linarith
    qed
  qed
qed

lemma has_value_constant:
  assumes "has_value pcs env (EConst ty c) u n y" "NormalizeIntegerValue pcs c ty = c"
  shows "c = word_of_int y" "int_type pcs ty = Some (u, n)" "in_type u n y" "0 < n" "n \<le> 64"
  using assms int_type_width [of pcs ty u n] by (auto simp: has_value_def)

lemma uint_word_of_type: "in_type True n y \<Longrightarrow> 0 < n \<Longrightarrow> n \<le> 64 \<Longrightarrow> uint (word_of_int y :: u64) = y"
  using in_type_word [of n True y] read_back(1) [of n True "word_of_int y"] by simp

lemma sint_word_of_type: "in_type False n y \<Longrightarrow> 0 < n \<Longrightarrow> n \<le> 64 \<Longrightarrow> sint (word_of_int y :: u64) = y"
  using in_type_word [of n False y] read_back(2) [of n False "word_of_int y"] by simp

lemma FoldConstantDivision_unsigned:
  assumes x: "has_value pcs env a True n x" and y: "has_value pcs env (EConst ct c) True n y" "NormalizeIntegerValue pcs c ct = c"
    and t: "int_type pcs (Some t) = Some (True, n)" "ty_size t \<le> 4" and d: "2 \<le> y"
  shows "has_value pcs env
    (NarrowBefore (unsigned_division (wide_unsigned 8) a (UnsignedMagic32 (ucast c))) t False) True n (x sdiv y)"
proof -
  note n = narrow_size(1) [OF t] and c = has_value_constant [OF y]
  have ta: "int_type pcs (expr_type a) = Some (True, n)" and xt: "in_type True n x" using x by (simp_all add: has_value_def)
  have r: "0 \<le> x" "x < 2 ^ 32" "y < 2 ^ 32" using in_type_32(1) [OF n xt] in_type_32(1) [OF n c(3)] by simp_all
  have u: "uint c = y" using uint_word_of_type [OF c(3-5)] c(1) by simp
  have "uint (ucast c :: u32) = take_bit 32 (uint c)" by transfer simp
  also have "\<dots> = y" unfolding u using d r by (intro take_bit_int_eq_self) simp_all
  finally have d': "uint (ucast c :: u32) = y" .
  let ?mag = "UnsignedMagic32 (ucast c)"
  let ?e = "unsigned_division (wide_unsigned 8) a ?mag"
  have "x * um_multiplier ?mag div 2 ^ (32 + um_shift ?mag) = x div y"
    using UnsignedMagic32_divides(2) [of "ucast c" x] d d' r by simp
  also have "\<dots> = x sdiv y" using r d by (simp add: sdiv_pos)
  finally have q: "x * um_multiplier ?mag div 2 ^ (32 + um_shift ?mag) = x sdiv y" .
  have "has_value pcs env ?e True 64 (x sdiv y)"
    using unsigned_division_value [OF x n expr_size_int [OF ta], of ?mag] UnsignedMagic32_divides(1) [of "ucast c"] d d'
    unfolding q by simp
  moreover have "expr_type ?e = Some (wide_unsigned 8)" by (simp add: unsigned_division_def Let_def)
  ultimately show ?thesis
    using NarrowBefore_value [OF _ quotient_in_type [OF c(4) xt, of y] t] d by (simp add: expr_size_def)
qed


lemma FoldConstantDivision_signed:
  assumes x: "has_value pcs env a False n x" and y: "has_value pcs env (EConst ct c) False n y" "NormalizeIntegerValue pcs c ct = c"
    and t: "int_type pcs (Some t) = Some (False, n)" "ty_size t \<le> 4" and d: "2 \<le> y"
  obtains mag where "SignedMagic32 (ucast c) = Some mag"
    "has_value pcs env (NarrowBefore (signed_division (wide_signed 8) a mag) t True) False n (x sdiv y)"
proof -
  note n = narrow_size(1) [OF t] and c = has_value_constant [OF y]
  have ta: "int_type pcs (expr_type a) = Some (False, n)" and xt: "in_type False n x" using x by (simp_all add: has_value_def)
  have r: "- (2 ^ 31) \<le> x" "x < 2 ^ 31" "y < 2 ^ 31" using in_type_32(2) [OF n xt] in_type_32(2) [OF n c(3)] by simp_all
  have "uint (ucast c :: u32) = take_bit 32 y" unfolding c(1) by transfer simp
  also have "\<dots> = y" using d r by (intro take_bit_int_eq_self) simp_all
  finally have d': "uint (ucast c :: u32) = y" .
  obtain mag where mag: "SignedMagic32 (ucast c) = Some mag" "sm_shift mag \<le> 30"
    and pos: "\<And>n. 0 \<le> n \<Longrightarrow> n < 2 ^ 31 \<Longrightarrow> n * uint (sm_magic mag) div 2 ^ (32 + sm_shift mag) = n div y"
    and neg: "\<And>m. 0 < m \<Longrightarrow> m \<le> 2 ^ 31 \<Longrightarrow> - m * uint (sm_magic mag) div 2 ^ (32 + sm_shift mag) = - (m div y) - 1"
    using SignedMagic32_divides [of "ucast c"] d r(3) unfolding d' by metis
  let ?e = "signed_division (wide_signed 8) a mag"
  have q: "x * uint (sm_magic mag) div 2 ^ (32 + sm_shift mag) + (if x < 0 then 1 else 0) = x sdiv y"
  proof (cases "x < 0")
    case True
    then show ?thesis using neg [of "- x"] r d by (simp add: sdiv_neg)
  next
    case False
    then show ?thesis using pos [of x] r d by (simp add: sdiv_pos)
  qed
  have "has_value pcs env ?e False 64 (x sdiv y)"
    using signed_division_value [OF x n expr_size_int [OF ta] mag(2)] unfolding q .
  moreover have "expr_type ?e = Some (wide_signed 8)" by (simp add: signed_division_def Let_def)
  ultimately have "has_value pcs env (NarrowBefore ?e t True) False n (x sdiv y)"
    using NarrowBefore_value [OF _ quotient_in_type [OF c(4) xt, of y] t] d by (simp add: expr_size_def)
  then show thesis using that mag(1) by blast
qed

text \<open>What a rewriting makes of an instruction: nothing, or an expression of the same value.\<close>

definition keeps_value :: "bool \<Rightarrow> (node_ref \<Rightarrow> u64) \<Rightarrow> u64 \<Rightarrow> reduction \<Rightarrow> bool" where
  "keeps_value pcs env v r \<longleftrightarrow>
     (case r of Unchanged \<Rightarrow> True | Becomes e \<Rightarrow> expr_value pcs env e = Some v | Diverges \<Rightarrow> False)"

lemma keeps_value_simps [simp]:
  "keeps_value pcs env v Unchanged"
  "keeps_value pcs env v (Becomes e) \<longleftrightarrow> expr_value pcs env e = Some v"
  "\<not> keeps_value pcs env v Diverges"
  by (simp_all add: keeps_value_def)

lemma keeps_value_exact: "has_value pcs env e u n z \<Longrightarrow> keeps_value pcs env (word_of_int (c_wrap u n z)) (Becomes e)"
  by (simp add: has_value_def in_type_def)

lemma FoldConstantDivision_eqs:
  assumes "ty = Some t" "TypeIsIntegral ty" "expr_type a = Some s" "0 < ty_size t"
  shows "\<not> (ty_size t \<le> 4 \<and> llsize = 8) \<Longrightarrow> FoldConstantDivision pcs llsize a (EConst ct c) ty = Unchanged"
    and "ty_size t \<le> 4 \<Longrightarrow> TypeIsUnsigned pcs ty \<Longrightarrow>
      Bit_Operations.and c (push_bit (nat (ty_size t * 8)) 1 - 1) = c \<Longrightarrow>
      FoldConstantDivision pcs 8 a (EConst ct c) ty =
        (if c \<le> 1 then Unchanged
         else Becomes (NarrowBefore (unsigned_division (wide_unsigned 8) a (UnsignedMagic32 (ucast c))) t False))"
    and "ty_size t \<le> 4 \<Longrightarrow> \<not> TypeIsUnsigned pcs ty \<Longrightarrow>
      FoldConstantDivision pcs 8 a (EConst ct c) ty =
        (if sint c \<le> 1 \<or> sint c > 0x7fffffff then Unchanged
         else case SignedMagic32 (ucast c) of None \<Rightarrow> Diverges
              | Some mag \<Rightarrow> Becomes (NarrowBefore (signed_division (wide_signed 8) a mag) t True))"
  unfolding FoldConstantDivision_def using assms by (auto simp del: push_bit_of_1)

lemma FoldConstantDivision_value:
  assumes x: "has_value pcs env a u n x" and y: "has_value pcs env (EConst ct c) u n y" "NormalizeIntegerValue pcs c ct = c"
    and ty: "int_type pcs ty = Some (u, n)"
  shows "keeps_value pcs env (word_of_int (c_wrap u n (x sdiv y))) (FoldConstantDivision pcs llsize a (EConst ct c) ty)"
proof -
  obtain t where t: "ty = Some t" "TypeIsIntegral ty" "TypeIsUnsigned pcs ty = u" "n = nat (ty_size t * 8)" "0 < ty_size t"
    using ty by (auto simp: int_type_def split: option.splits if_splits)
  obtain s where s: "expr_type a = Some s" using x by (auto simp: has_value_def int_type_def split: option.splits)
  note c = has_value_constant [OF y]
  show ?thesis
  proof (cases "ty_size t \<le> 4 \<and> llsize = 8")
    case False
    then show ?thesis using FoldConstantDivision_eqs(1) [OF t(1,2) s t(5)] by simp
  next
    case True
    have ty': "int_type pcs (Some t) = Some (u, n)" using ty t(1) by simp
    show ?thesis
    proof (cases u)
      case u: True
      have ut: "int_type pcs (Some t) = Some (True, n)" "in_type True n y" using ty' c(3) u by simp_all
      have "Bit_Operations.and c (push_bit (nat (ty_size t * 8)) 1 - 1) = take_bit n c"
        using t(4) by (simp add: take_bit_eq_mask mask_eq_exp_minus_1 push_bit_eq_mult)
      also have "\<dots> = word_of_int (take_bit n y)" unfolding c(1) using c(5) by (intro bit_eqI) (auto simp: bit_simps)
      also have "take_bit n y = y" using ut(2) by (simp add: in_type_def c_wrap_def)
      finally have d: "Bit_Operations.and c (push_bit (nat (ty_size t * 8)) 1 - 1) = c" unfolding c(1) [symmetric] .
      have y': "uint c = y" using uint_word_of_type [OF ut(2) c(4,5)] c(1) by simp
      have "TypeIsUnsigned pcs ty" "ty_size t \<le> 4" using t(3) u True by simp_all
      then have eq: "FoldConstantDivision pcs llsize a (EConst ct c) ty =
        (if c \<le> 1 then Unchanged
         else Becomes (NarrowBefore (unsigned_division (wide_unsigned 8) a (UnsignedMagic32 (ucast c))) t False))"
        using FoldConstantDivision_eqs(2) [OF t(1,2) s t(5) _ _ d] True by simp
      show ?thesis
      proof (cases "c \<le> 1")
        case False
        then have "2 \<le> y" using y' by (simp add: word_le_def)
        then show ?thesis
          using keeps_value_exact [OF FoldConstantDivision_unsigned [OF _ _ y(2) ut(1)]] x y(1) u True False
          unfolding eq by simp
      qed (simp add: eq)
    next
      case u: False
      have ut: "int_type pcs (Some t) = Some (False, n)" "in_type False n y" using ty' c(3) u by simp_all
      have y': "sint c = y" using sint_word_of_type [OF ut(2) c(4,5)] c(1) by simp
      have "\<not> TypeIsUnsigned pcs ty" "ty_size t \<le> 4" using t(3) u True by simp_all
      note eq = FoldConstantDivision_eqs(3) [OF t(1,2) s t(5) this(2,1)]
      show ?thesis
      proof (cases "sint c \<le> 1 \<or> sint c > 0x7fffffff")
        case False
        then have "2 \<le> y" using y' by simp
        then obtain mag where "SignedMagic32 (ucast c) = Some mag"
          "has_value pcs env (NarrowBefore (signed_division (wide_signed 8) a mag) t True) False n (x sdiv y)"
          using FoldConstantDivision_signed [OF _ _ y(2) ut(1)] x y(1) u True by metis
        then show ?thesis using eq [of ct c] False True u keeps_value_exact by auto
      qed (use eq [of ct c] True in simp)
    qed
  qed
qed

end
