(* ===== verification/StrengthOps.thy ===== *)
theory StrengthOps
  imports StrengthSpec
begin

text \<open>
  The cheaper forms of the other instructions have the value of the instruction: what the tests
  on constants establish, and then each rewriting.
\<close>

section \<open>Powers of two\<close>

lemma and_pred_even: "0 < m \<Longrightarrow> Bit_Operations.and (2 * m) (2 * m - 1) = 2 * Bit_Operations.and m (m - 1 :: nat)"
  by (rule bit_eqI) (auto simp: bit_simps bit_double_iff bit_Suc gr0_conv_Suc split: nat.splits)

lemma power_of_2_nat: "0 < m \<Longrightarrow> Bit_Operations.and m (m - 1) = 0 \<Longrightarrow> \<exists>k. m = 2 ^ k" for m :: nat
proof (induction m rule: less_induct)
  case (less m)
  show ?case
  proof (cases "even m")
    case True
    then obtain h where h: "m = 2 * h" by auto
    then have "Bit_Operations.and h (h - 1) = 0" "0 < h" using less.prems and_pred_even [of h] by simp_all
    then obtain k where "h = 2 ^ k" using less.IH [of h] h by auto
    then show ?thesis using h by (metis power_Suc)
  next
    case False
    then obtain h where h: "m = 2 * h + 1" by (metis oddE)
    have "Bit_Operations.and (2 * h + 1) (2 * h) = 2 * h"
    proof (rule bit_eqI)
      fix i
      show "bit (Bit_Operations.and (2 * h + 1) (2 * h)) i \<longleftrightarrow> bit (2 * h) i"
        by (cases i) (simp_all add: bit_and_iff bit_0 even_and_iff bit_Suc [of "Suc (2 * h)"] bit_Suc [of "2 * h"])
    qed
    then show ?thesis using less.prems(2) h by (intro exI [of _ 0]) simp
  qed
qed

lemma power_of_2_word:
  assumes "c \<noteq> 0" "Bit_Operations.and c (c - 1) = (0 :: u64)"
  obtains k where "k < 64" "c = 2 ^ k"
proof -
  have p: "0 < unat c" using assms(1) by (simp add: unat_gt_0)
  have "unat (c - 1) = unat c - 1" using assms(1) by (rule unat_minus_one)
  then have "Bit_Operations.and (unat c) (unat c - 1) = 0" using assms(2) by (metis unsigned_0 unsigned_and_eq)
  then obtain k where k: "unat c = 2 ^ k" using power_of_2_nat [OF p] by blast
  moreover have "unat c < 2 ^ 64" using unsigned_less [of c] by simp
  ultimately have "k < 64" by (metis nat_power_less_imp_less zero_less_numeral)
  moreover have "c = word_of_nat (unat c)" by simp
  then have "c = 2 ^ k" unfolding k by simp
  ultimately show thesis by (rule that)
qed

lemma log2_loop_step:
  "log2_loop v z = (if even v then log2_loop (drop_bit 1 v) (z + 1) else Some z)"
  by (subst log2_loop.simps) (simp add: and_one_eq mod_2_eq_odd)

lemma log2_loop_power: "k < 64 \<Longrightarrow> log2_loop (2 ^ k) z = Some (z + k)"
proof (induction k arbitrary: z)
  case 0
  then show ?case by (subst log2_loop_step) simp
next
  case (Suc k)
  have "drop_bit 1 (2 ^ Suc k) = (2 ^ k :: u64)" using Suc.prems by (intro bit_eqI) (auto simp: bit_simps)
  moreover have "even (2 ^ Suc k :: u64)" by simp
  ultimately show ?case using Suc by (subst log2_loop_step) (simp del: drop_bit_Suc power_Suc)
qed

lemma LogBase2_power: "k < 64 \<Longrightarrow> LogBase2 (2 ^ k) = Some k"
  by (simp add: LogBase2_def log2_loop_power)


section \<open>Tests on constants\<close>

text \<open>The operands the pass looks into: variables, normalised constants, and sums of the two.\<close>

fun leaf :: "bool \<Rightarrow> bool \<Rightarrow> nat \<Rightarrow> ir_expr \<Rightarrow> bool" where
  "leaf pcs u n (EVar r ty) = (int_type pcs ty = Some (u, n))"
| "leaf pcs u n (EConst ty c) = (int_type pcs ty = Some (u, n) \<and> NormalizeIntegerValue pcs c ty = c)"
| "leaf pcs u n _ = False"

fun constant_operand :: "bool \<Rightarrow> ir_expr \<Rightarrow> bool" where
  "constant_operand pcs (EConst ty c) = (int_type pcs ty \<noteq> None \<and> NormalizeIntegerValue pcs c ty = c)"
| "constant_operand pcs _ = False"

fun known_operand :: "bool \<Rightarrow> bool \<Rightarrow> nat \<Rightarrow> ir_expr \<Rightarrow> bool" where
  "known_operand pcs u n (EBin op a b ty) =
     (op = IR_addi \<and> int_type pcs ty = Some (u, n) \<and>
      (leaf pcs u n a \<and> (leaf pcs u n b \<or> constant_operand pcs b) \<or> constant_operand pcs a \<and> leaf pcs u n b))"
| "known_operand pcs u n e = leaf pcs u n e"

fun is_const :: "ir_expr \<Rightarrow> bool" where
  "is_const (EConst _ _) = True"
| "is_const _ = False"

lemma leaf_value: "leaf pcs u n e \<Longrightarrow> \<exists>x. has_value pcs env e u n x"
proof (cases e)
  case (EVar r ty)
  assume "leaf pcs u n e"
  then show ?thesis
    using EVar NormalizeIntegerValue_int [of pcs ty u n "env r"] int_type_width [of pcs ty u n]
    by (auto simp: has_value_def intro!: exI [of _ "int_of u n (env r)"])
next
  case (EConst ty c)
  assume "leaf pcs u n e"
  then show ?thesis
    using EConst NormalizeIntegerValue_int [of pcs ty u n c] int_type_width [of pcs ty u n]
    by (auto simp: has_value_def intro!: exI [of _ "int_of u n c"])
qed simp_all

lemma constant_leaf: "constant_operand pcs e \<Longrightarrow> \<exists>u n. leaf pcs u n e"
  by (cases e) auto

lemma leaf_constant: "leaf pcs u n (EConst ty c) \<Longrightarrow> constant_operand pcs (EConst ty c)"
  by simp

lemma not_const:
  assumes "\<not> is_const e"
  shows "\<not> IsIntConstantWithValue e k" "\<not> IsIntConstantPowerOf2 pcs e m" "\<not> IsIntAllOnes e"
    "with_log2 f e = Unchanged"
  using assms by (cases e; simp add: with_log2_def)+

text \<open>The instructions the pass reads, at operands of one type.\<close>

definition reduced_ops :: "ir_op list" where
  "reduced_ops = [IR_addi, IR_subi, IR_muli, IR_divi, IR_modi, IR_andi, IR_ori, IR_xori, IR_lsli, IR_cmpeqi, IR_cmpnei]"

lemma reduced_ops_arith:
  assumes "op \<in> set reduced_ops"
  shows "op \<in> set arith_ops" "op \<noteq> IR_lsri" "op \<noteq> IR_asri" "op \<notin> set [IR_zeroextendi, IR_signextendi]"
  using assms by (auto simp: reduced_ops_def arith_op_defs)

lemma binary_value:
  assumes "has_value pcs env a u n x" "has_value pcs env b u2 m y" "int_type pcs ty = Some (u', n')" "op \<in> set reduced_ops"
    and "op \<in> set one_signedness_ops \<Longrightarrow> u2 = u"
  shows "expr_value pcs env (EBin op a b ty) = map_option (\<lambda>k. word_of_int (c_wrap u' n' k)) (wrapped_arith op u n n' x y)"
  using reduced_ops_arith [OF assms(4)] assms(5) by (intro has_value_op [OF assms(1-3)]) blast+

lemma any_signedness: "op \<in> set [IR_addi, IR_subi, IR_muli, IR_andi, IR_ori, IR_xori, IR_lsli] \<Longrightarrow> op \<notin> set one_signedness_ops"
  by (auto simp: one_signedness_ops_def compare_ops_def ir_op_defs)

lemma has_value_sum:
  assumes "has_value pcs env a ua na x" "has_value pcs env b ub nb y" "int_type pcs ty = Some (u, n)"
  shows "has_value pcs env (EBin IR_addi a b ty) u n (c_wrap u n (x + y))"
proof -
  have "0 < n" using int_type_width [OF assms(3)] by auto
  moreover have "expr_value pcs env (EBin IR_addi a b ty) = Some (word_of_int (c_wrap u n (x + y)))"
    by (subst binary_value [OF assms]) (simp_all add: reduced_ops_def wrapped_arith_ops any_signedness)
  ultimately show ?thesis using assms(3) by (simp add: has_value_def in_type_def)
qed

lemma known_operand_value:
  assumes "known_operand pcs u n e"
  obtains x where "has_value pcs env e u n x"
proof (cases e)
  case (EBin op a b ty)
  then obtain ua na ub nb where "leaf pcs ua na a" "leaf pcs ub nb b"
    using assms constant_leaf [of pcs a] constant_leaf [of pcs b] by auto
  then obtain x y where "has_value pcs env a ua na x" "has_value pcs env b ub nb y"
    using leaf_value [of pcs ua na a env] leaf_value [of pcs ub nb b env] by blast
  then show thesis using that has_value_sum [of pcs env a ua na x b ub nb y ty u n] EBin assms by simp
qed (use assms that leaf_value [of pcs u n e env] in auto)

text \<open>What the tests say of the operand's value.\<close>

lemma known_operand_constant:
  assumes "known_operand pcs u n (EConst ty c)" "has_value pcs env (EConst ty c) u n x"
  shows "c = word_of_int x" "int_type pcs ty = Some (u, n)" "in_type u n x" "8 \<le> n" "n \<le> 64"
  using has_value_constant [OF assms(2)] assms(1) int_type_width [of pcs ty u n] by auto

lemma small_in_type: "8 \<le> n \<Longrightarrow> 0 \<le> x \<Longrightarrow> x < 128 \<Longrightarrow> in_type u n x"
proof -
  assume n: "8 \<le> n" "0 \<le> x" "x < 128"
  have "(2 :: int) ^ 7 \<le> 2 ^ (n - 1)" "(2 :: int) ^ 8 \<le> 2 ^ n" using n(1) by (intro power_increasing; simp)+
  then show ?thesis using n in_type_range [of n x] by (cases u) auto
qed

lemma IsIntConstantWithValue_value:
  assumes e: "known_operand pcs u n e" "has_value pcs env e u n x" and t: "IsIntConstantWithValue e k" and k: "k = 0 \<or> k = 1"
  shows "x = uint k"
proof (cases e)
  case (EConst ty c)
  note c = known_operand_constant [OF e [unfolded EConst]]
  have "c = word_of_int (uint k)" using t EConst by simp
  moreover have "in_type u n (uint k)" using k c(4) by (intro small_in_type) auto
  ultimately show ?thesis using c(1,3,4,5) in_type_word [of n u x] in_type_word [of n u "uint k"] by simp
qed (use t in auto)

lemma IsIntAllOnes_value:
  assumes e: "known_operand pcs u n e" "has_value pcs env e u n x" and t: "IsIntAllOnes e"
  shows "x = c_wrap u n (- 1)"
proof (cases e)
  case (EConst ty c)
  note c = known_operand_constant [OF e [unfolded EConst]]
  obtain s where s: "ty = Some s" "ty_size s * 8 = int n" using c(2) by (auto simp: int_type_def split: option.splits if_splits)
  have "bit c i" if "i < n" for i
  proof (cases "n = 64")
    case True
    then show ?thesis using t that EConst s by (auto simp: Let_def split: if_splits)
  next
    case False
    then have "Bit_Operations.and c (mask n) = mask n" using t EConst s c(5) by (auto simp: Let_def mask_eq_exp_minus_1 split: if_splits)
    then have "bit (Bit_Operations.and c (mask n)) i" using that c(5) by (simp add: bit_mask_iff)
    then show ?thesis by (simp add: bit_and_iff)
  qed
  then have b: "bit x i" if "i < n" for i using that c(1,5) by (auto simp: bit_simps)
  have "c_wrap u n x = c_wrap u n (- 1)" using c(4) b by (intro bit_eqI) (auto simp: bit_c_wrap)
  then show ?thesis using c(3) by (simp add: in_type_def)
qed (use t in auto)

lemma uint_exp: "k < 64 \<Longrightarrow> uint (2 ^ k :: u64) = 2 ^ k"
  by (rule bit_eqI) (auto simp: bit_simps)

lemma IsIntConstantPowerOf2_value:
  assumes e: "known_operand pcs u n e" "has_value pcs env e u n x" and t: "IsIntConstantPowerOf2 pcs e maxbits"
  obtains ty k where "e = EConst ty (2 ^ k)" "x = 2 ^ k" "k < n" "n \<le> 64" "in_type u n (int k)" "int_type pcs ty = Some (u, n)"
proof (cases e)
  case (EConst ty c)
  note c = known_operand_constant [OF e [unfolded EConst]]
  have p: "c \<noteq> 0" "Bit_Operations.and c (c - 1) = 0" and s: "u \<or> 0 < sint c"
    using t EConst c(2) by (auto simp: int_type_def split: option.splits if_splits)
  obtain k where k: "k < 64" "c = 2 ^ k" using power_of_2_word [OF p] .
  have x: "x = 2 ^ k"
  proof (cases u)
    case True
    have "uint c = x" using uint_word_of_type [of n x] c True by simp
    moreover have "uint (2 ^ k :: u64) = 2 ^ k" using k(1) by (rule uint_exp)
    ultimately show ?thesis using k(2) by simp
  next
    case False
    have sx: "sint c = x" using sint_word_of_type [of n x] c False by simp
    then have "\<not> bit c 63" using s False bit_last_iff [of c] by simp
    then have "k < 63" using k by (cases "k = 63") (auto simp: bit_exp_iff)
    then have "(2 :: int) ^ k < 2 ^ 63" by (intro power_strict_increasing) simp_all
    then have "uint c < 2 ^ 63" using k(2) uint_exp [OF k(1)] by simp
    then show ?thesis using sx k sint_of_small [of c] uint_exp [OF k(1)] by simp
  qed
  have "(2 :: int) ^ k < 2 ^ n"
    using c(3,4) in_type_range [of n x] unfolding x by (cases u) (auto intro: less_le_trans)
  then have "k < n" by simp
  moreover have "in_type u n (int k)" using c(4) k(1) by (intro small_in_type) simp_all
  ultimately show thesis using that [of ty k] EConst k c x by simp
qed (use t in auto)


section \<open>The rewritings\<close>

lemma c_wrap_in_type: "in_type u n x \<Longrightarrow> c_wrap u n x = x"
  by (simp add: in_type_def)

lemma keeps_value_operand: "has_value pcs env e u n z \<Longrightarrow> c_wrap u n k = z \<Longrightarrow>
    keeps_value pcs env (word_of_int (c_wrap u n k)) (Becomes e)"
  by (simp add: has_value_def)

lemma with_log2_power: "k < 64 \<Longrightarrow> with_log2 f (EConst ty (2 ^ k)) = Becomes (f (of_nat k))"
  by (simp add: with_log2_def LogBase2_power)

lemma lsri_op:
  "IR_lsri \<in> set arith_ops" "IR_lsri \<notin> set one_signedness_ops" "IR_lsri \<noteq> IR_asri" "IR_lsri \<notin> set [IR_zeroextendi, IR_signextendi]"
  by (simp_all add: arith_op_defs compare_ops_def)

lemma shift_value:
  assumes a: "has_value pcs env a ua na x" and t: "int_type pcs cty = Some (u2, n2)" "int_type pcs ty = Some (u, n)"
    and k: "k < n" "in_type u2 n2 (int k)"
  shows "expr_value pcs env (EBin IR_lsli a (EConst cty (of_nat k)) ty) = Some (word_of_int (c_wrap u n (x * 2 ^ k)))"
    and "ua \<Longrightarrow> expr_value pcs env (EBin IR_lsri a (EConst cty (of_nat k)) ty) = Some (word_of_int (c_wrap u n (x div 2 ^ k)))"
proof -
  have c: "has_value pcs env (EConst cty (of_nat k)) u2 n2 (int k)" using has_value_const [OF t(1) k(2)] by simp
  show "expr_value pcs env (EBin IR_lsli a (EConst cty (of_nat k)) ty) = Some (word_of_int (c_wrap u n (x * 2 ^ k)))"
    by (subst binary_value [OF a c t(2)]) (use k(1) in \<open>simp_all add: reduced_ops_def wrapped_arith_ops any_signedness\<close>)
  show "expr_value pcs env (EBin IR_lsri a (EConst cty (of_nat k)) ty) = Some (word_of_int (c_wrap u n (x div 2 ^ k)))" if ua
  proof -
    have "expr_value pcs env (EBin IR_lsri a (EConst cty (of_nat k)) ty) =
        map_option (\<lambda>k. word_of_int (c_wrap u n k)) (wrapped_arith IR_lsri ua na n x (int k))"
      by (rule has_value_op [OF a c t(2)]) (use that lsri_op in blast)+
    moreover have "take_bit na x = x" using a that in_type_take(1) by (simp add: has_value_def)
    ultimately show ?thesis using k(1) by (simp add: wrapped_arith_ops)
  qed
qed

lemma constant_tests:
  assumes "known_operand pcs u n e" "has_value pcs env e u n x"
  shows "(IsIntConstantWithValue e 0 \<longrightarrow> x = 0) \<and> (IsIntConstantWithValue e 1 \<longrightarrow> x = 1)"
  using IsIntConstantWithValue_value [OF assms, of 0] IsIntConstantWithValue_value [OF assms, of 1] by simp

text \<open>
  In a multiplication the constant may have another type than the result; the other operand
  has the type of the result.
\<close>

lemma high_power:
  assumes "n \<le> k" "k < 64"
  shows "Bit_Operations.and (2 ^ k) (Bit_Operations.not (push_bit n 1 - 1)) \<noteq> (0 :: u64)"
proof -
  have "push_bit n 1 - 1 = (mask n :: u64)" by (simp add: mask_eq_exp_minus_1 push_bit_eq_mult)
  moreover have "bit (Bit_Operations.and (2 ^ k) (Bit_Operations.not (mask n)) :: u64) k"
    using assms by (simp add: bit_and_iff bit_not_iff bit_exp_iff bit_mask_iff)
  ultimately show ?thesis by (metis bit_0_eq bot_apply bot_bool_def)
qed

lemma IsIntConstantPowerOf2_bits:
  assumes t: "IsIntConstantPowerOf2 pcs (EConst cty (2 ^ k)) (int n)" and k: "k < 64"
  shows "k < n"
proof (rule ccontr)
  assume "\<not> k < n"
  then have n: "n \<le> k" "int n < 64" using k by simp_all
  have "\<not> (int n < 64 \<and> Bit_Operations.and (2 ^ k) (Bit_Operations.not (push_bit (nat (int n)) 1 - 1)) \<noteq> (0 :: u64))"
    using t by (simp only: IsIntConstantPowerOf2.simps not_False_eq_True split: if_splits)
  then show False using n high_power [OF n(1) k] by (simp only: nat_int simp_thms)
qed

lemma power_becomes:
  assumes c: "known_operand pcs u2 n2 c" "has_value pcs env c u2 n2 z" and e: "has_value pcs env e ua na x"
    and ty: "int_type pcs ty = Some (u, n)" and t: "IsIntConstantPowerOf2 pcs c (int n)"
  shows "keeps_value pcs env (word_of_int (c_wrap u n (x * z))) (with_log2 (\<lambda>k. EBin IR_lsli e (EConst (expr_type c) k) ty) c)"
proof -
  obtain cty k where k: "c = EConst cty (2 ^ k)" "z = 2 ^ k" "k < n2" "n2 \<le> 64" "in_type u2 n2 (int k)"
    "int_type pcs cty = Some (u2, n2)" using IsIntConstantPowerOf2_value [OF c t] .
  have "k < n" by (rule IsIntConstantPowerOf2_bits [OF t [unfolded k(1)]]) (use k(3,4) in linarith)
  then show ?thesis
    using shift_value(1) [OF e k(6) ty _ k(5)] with_log2_power [of k] k by simp
qed

lemma keeps_zero: "has_value pcs env e u2 n2 0 \<Longrightarrow> keeps_value pcs env (word_of_int (c_wrap u n 0)) (Becomes e)"
  by (simp add: has_value_def c_wrap_def)

lemma constant_is_const:
  "IsIntConstantWithValue e k \<Longrightarrow> is_const e" "IsIntConstantPowerOf2 pcs e m \<Longrightarrow> is_const e"
  using not_const by blast+

lemma reduce_muli_value:
  assumes a: "known_operand pcs ua na a" "has_value pcs env a ua na x"
    and b: "known_operand pcs ub nb b" "has_value pcs env b ub nb y" and ty: "int_type pcs ty = Some (u, n)"
    and other: "is_const a \<Longrightarrow> (ub, nb) = (u, n)" "is_const b \<Longrightarrow> (ua, na) = (u, n)"
  shows "keeps_value pcs env (word_of_int (c_wrap u n (x * y))) (reduce_muli pcs a b ty)"
proof -
  note const = constant_tests [OF a] constant_tests [OF b]
  have bits: "ty_size (the ty) * 8 = int n" using ty by (auto simp: int_type_def split: option.splits if_splits)
  consider "IsIntConstantWithValue a 0" | "\<not> IsIntConstantWithValue a 0" "IsIntConstantWithValue b 0"
    | "\<not> IsIntConstantWithValue a 0" "\<not> IsIntConstantWithValue b 0" "IsIntConstantWithValue a 1"
    | "\<not> IsIntConstantWithValue a 0" "\<not> IsIntConstantWithValue b 0" "\<not> IsIntConstantWithValue a 1"
      "IsIntConstantWithValue b 1"
    | "\<not> IsIntConstantWithValue a 0" "\<not> IsIntConstantWithValue b 0" "\<not> IsIntConstantWithValue a 1"
      "\<not> IsIntConstantWithValue b 1" by blast
  then show ?thesis
  proof cases
    case 1
    then show ?thesis using const keeps_zero [of pcs env a ua na u n] a(2) by (simp add: reduce_muli_def)
  next
    case 2
    then show ?thesis using const keeps_zero [of pcs env b ub nb u n] b(2) by (simp add: reduce_muli_def)
  next
    case 3
    then have "(ub, nb) = (u, n)" using other(1) constant_is_const(1) by blast
    then show ?thesis using 3 const keeps_value_exact [of pcs env b u n y] b(2) by (simp add: reduce_muli_def)
  next
    case 4
    then have "(ua, na) = (u, n)" using other(2) constant_is_const(1) by blast
    then show ?thesis using 4 const keeps_value_exact [of pcs env a u n x] a(2) by (simp add: reduce_muli_def)
  next
    case 5
    then have "reduce_muli pcs a b ty =
        (if IsIntConstantPowerOf2 pcs a (int n) then with_log2 (\<lambda>k. EBin IR_lsli b (EConst (expr_type a) k) ty) a
         else if IsIntConstantPowerOf2 pcs b (int n) then with_log2 (\<lambda>k. EBin IR_lsli a (EConst (expr_type b) k) ty) b
         else Unchanged)"
      by (simp add: reduce_muli_def bits)
    then show ?thesis
      using power_becomes [OF a b(2) ty] power_becomes [OF b a(2) ty] by (simp add: mult.commute)
  qed
qed

lemma reduce_divi_value:
  assumes a: "known_operand pcs u n a" "has_value pcs env a u n x" and b: "known_operand pcs u n b" "has_value pcs env b u n y"
    and ty: "int_type pcs ty = Some (u, n)"
  shows "keeps_value pcs env (word_of_int (c_wrap u n (x sdiv y))) (reduce_divi pcs llsize a b ty)"
proof -
  note const = constant_tests [OF a] constant_tests [OF b]
  have r: "in_type u n x" "x sdiv 1 = x" using a(2) by (simp_all add: has_value_def)
  have us: "TypeIsUnsigned pcs ty = u" using ty by (auto simp: int_type_def split: option.splits if_splits)
  consider "IsIntConstantWithValue b 1" | "IsIntConstantWithValue a 0" "\<not> IsIntConstantWithValue b 1"
    | "\<not> IsIntConstantWithValue b 1" "\<not> IsIntConstantWithValue a 0" by blast
  then show ?thesis
  proof cases
    case 1
    then show ?thesis using const keeps_value_exact [OF a(2)] r(2) by (simp add: reduce_divi_def)
  next
    case 2
    then show ?thesis using const keeps_value_exact [OF a(2)] by (simp add: reduce_divi_def signed_divide_int_def)
  next
    case 3
    let ?pow = "u \<and> IsIntConstantPowerOf2 pcs b (ty_size (the ty) * 8)"
    show ?thesis
    proof (cases ?pow)
      case True
      obtain cty k where k: "b = EConst cty (2 ^ k)" "y = 2 ^ k" "k < n" "n \<le> 64" "in_type u n (int k)"
        "int_type pcs cty = Some (u, n)" using IsIntConstantPowerOf2_value [OF b conjunct2 [OF True]] .
      have "reduce_divi pcs llsize a b ty = with_log2 (\<lambda>k. EBin IR_lsri a (EConst (expr_type b) k) ty) b"
        using 3 True us by (simp add: reduce_divi_def)
      also have "\<dots> = Becomes (EBin IR_lsri a (EConst cty (of_nat k)) ty)" using k(1,3,4) with_log2_power [of k] by simp
      finally have "keeps_value pcs env (word_of_int (c_wrap u n (x div 2 ^ k))) (reduce_divi pcs llsize a b ty)"
        using shift_value(2) [OF a(2) k(6) ty k(3,5)] True by simp
      moreover have "0 \<le> x" using r(1) k(3) True in_type_range(1) [of n x] by auto
      ultimately show ?thesis using k(2) by (simp add: sdiv_pos)
    next
      case False
      then have eq: "reduce_divi pcs llsize a b ty = FoldConstantDivision pcs llsize a b ty"
        using 3 us by (auto simp: reduce_divi_def)
      show ?thesis
      proof (cases b)
        case (EConst ct c)
        have c: "NormalizeIntegerValue pcs c ct = c" using b(1) EConst by simp
        show ?thesis unfolding eq using FoldConstantDivision_value [OF a(2) _ c ty] b(2) EConst by simp
      qed (unfold eq, simp_all add: FoldConstantDivision_def split: option.splits)
    qed
  qed
qed


lemma smod_pos: "0 \<le> x \<Longrightarrow> 0 \<le> y \<Longrightarrow> x smod y = x mod (y :: int)"
  by (cases "x = 0") (auto simp: signed_modulo_int_def)

lemma reduce_modi_value:
  assumes a: "known_operand pcs u n a" "has_value pcs env a u n x" and b: "known_operand pcs u n b" "has_value pcs env b u n y"
    and ty: "int_type pcs ty = Some (u, n)"
  shows "keeps_value pcs env (word_of_int (c_wrap u n (x smod y))) (reduce_modi pcs a b ty)"
proof -
  note const = constant_tests [OF a]
  have us: "TypeIsUnsigned pcs ty = u" using ty by (auto simp: int_type_def split: option.splits if_splits)
  consider "IsIntConstantWithValue a 0"
    | "\<not> IsIntConstantWithValue a 0" "u" "IsIntConstantPowerOf2 pcs b (ty_size (the ty) * 8)"
    | "\<not> IsIntConstantWithValue a 0" "\<not> (u \<and> IsIntConstantPowerOf2 pcs b (ty_size (the ty) * 8))" by blast
  then show ?thesis
  proof cases
    case 1
    then show ?thesis using const keeps_value_exact [OF a(2)] by (simp add: reduce_modi_def signed_modulo_int_def)
  next
    case 2
    obtain cty k where k: "b = EConst cty (2 ^ k)" "y = 2 ^ k" "k < n" "n \<le> 64" "in_type u n (int k)"
      "int_type pcs cty = Some (u, n)" using IsIntConstantPowerOf2_value [OF b 2(3)] .
    have "(2 :: int) ^ k < 2 ^ n" using k(3) by (intro power_strict_increasing) simp_all
    then have "2 ^ k - 1 < (2 :: int) ^ n" by linarith
    then have m: "in_type u n (2 ^ k - 1)" using 2(2) k(3) in_type_range(1) [of n "2 ^ k - 1"] by simp
    have x: "0 \<le> x" using a(2) 2(2) k(3) in_type_range(1) [of n x] by (simp add: has_value_def)
    have c: "has_value pcs env (EConst cty (2 ^ k - 1)) u n (2 ^ k - 1)" using has_value_const [OF k(6) m] by simp
    have "expr_value pcs env (EBin IR_andi a (EConst cty (2 ^ k - 1)) ty) =
        Some (word_of_int (c_wrap u n (Bit_Operations.and x (2 ^ k - 1))))"
      by (subst binary_value [OF a(2) c ty]) (simp_all add: reduced_ops_def wrapped_arith_ops)
    moreover have "reduce_modi pcs a b ty = Becomes (EBin IR_andi a (EConst cty (2 ^ k - 1)) ty)"
      unfolding reduce_modi_def using 2 us k(1) by (auto simp: BitMask_def)
    moreover have "Bit_Operations.and x (2 ^ k - 1) = x smod y"
      using x k(2) by (simp add: smod_pos flip: mask_eq_exp_minus_1 take_bit_eq_mask take_bit_eq_mod)
    ultimately show ?thesis by simp
  next
    case 3
    then have "reduce_modi pcs a b ty = Unchanged" using us by (auto simp: reduce_modi_def)
    then show ?thesis by simp
  qed
qed

lemma bit_in_type: "0 < n \<Longrightarrow> in_type u n y \<Longrightarrow> bit y i \<longleftrightarrow> (if i < n then bit y i else \<not> u \<and> bit y (n - 1))"
  using bit_c_wrap [of n u y i] by (simp add: in_type_def)

lemma and_all_ones: "0 < n \<Longrightarrow> in_type u n y \<Longrightarrow> Bit_Operations.and (c_wrap u n (- 1)) y = y"
proof (rule bit_eqI)
  fix i
  assume "0 < n" "in_type u n y"
  then show "bit (Bit_Operations.and (c_wrap u n (- 1)) y) i \<longleftrightarrow> bit y i"
    using bit_in_type [of n u y i] by (auto simp: bit_and_iff bit_c_wrap)
qed

lemma or_all_ones: "0 < n \<Longrightarrow> in_type u n y \<Longrightarrow> Bit_Operations.or (c_wrap u n (- 1)) y = c_wrap u n (- 1)"
proof (rule bit_eqI)
  fix i
  assume "0 < n" "in_type u n y"
  then show "bit (Bit_Operations.or (c_wrap u n (- 1)) y) i \<longleftrightarrow> bit (c_wrap u n (- 1)) i"
    using bit_in_type [of n u y i] by (auto simp: bit_or_iff bit_c_wrap)
qed

text \<open>Zero and all ones: the rewritings of the bitwise instructions and of sums and differences.\<close>

lemma reduce_andi_value:
  assumes a: "known_operand pcs u n a" "has_value pcs env a u n x" and b: "known_operand pcs u n b" "has_value pcs env b u n y"
    and n: "0 < n"
  shows "keeps_value pcs env (word_of_int (c_wrap u n (Bit_Operations.and x y))) (reduce_andi a b)"
proof -
  note const = constant_tests [OF a] constant_tests [OF b] and ones = IsIntAllOnes_value [OF a] IsIntAllOnes_value [OF b]
  have r: "in_type u n x" "in_type u n y" using a(2) b(2) by (simp_all add: has_value_def)
  note becomes = keeps_value_exact [OF a(2)] keeps_value_exact [OF b(2)]
  consider "IsIntConstantWithValue a 0" | "\<not> IsIntConstantWithValue a 0" "IsIntConstantWithValue b 0"
    | "\<not> IsIntConstantWithValue a 0" "\<not> IsIntConstantWithValue b 0" "IsIntAllOnes a"
    | "\<not> IsIntConstantWithValue a 0" "\<not> IsIntConstantWithValue b 0" "\<not> IsIntAllOnes a" "IsIntAllOnes b"
    | "\<not> IsIntConstantWithValue a 0" "\<not> IsIntConstantWithValue b 0" "\<not> IsIntAllOnes a" "\<not> IsIntAllOnes b" by blast
  then show ?thesis
  proof cases
    case 3
    then show ?thesis using becomes ones(1) and_all_ones [OF n r(2)] by (simp add: reduce_andi_def)
  next
    case 4
    then show ?thesis using becomes ones(2) and_all_ones [OF n r(1)] by (simp add: reduce_andi_def and.commute)
  qed (use becomes const in \<open>simp_all add: reduce_andi_def\<close>)
qed

lemma reduce_ori_value:
  assumes a: "known_operand pcs u n a" "has_value pcs env a u n x" and b: "known_operand pcs u n b" "has_value pcs env b u n y"
    and n: "0 < n"
  shows "keeps_value pcs env (word_of_int (c_wrap u n (Bit_Operations.or x y))) (reduce_ori a b)"
proof -
  note const = constant_tests [OF a] constant_tests [OF b] and ones = IsIntAllOnes_value [OF a] IsIntAllOnes_value [OF b]
  have r: "in_type u n x" "in_type u n y" using a(2) b(2) by (simp_all add: has_value_def)
  note becomes = keeps_value_exact [OF a(2)] keeps_value_exact [OF b(2)]
  consider "IsIntConstantWithValue a 0" | "\<not> IsIntConstantWithValue a 0" "IsIntConstantWithValue b 0"
    | "\<not> IsIntConstantWithValue a 0" "\<not> IsIntConstantWithValue b 0" "IsIntAllOnes a"
    | "\<not> IsIntConstantWithValue a 0" "\<not> IsIntConstantWithValue b 0" "\<not> IsIntAllOnes a" "IsIntAllOnes b"
    | "\<not> IsIntConstantWithValue a 0" "\<not> IsIntConstantWithValue b 0" "\<not> IsIntAllOnes a" "\<not> IsIntAllOnes b" by blast
  then show ?thesis
  proof cases
    case 3
    then show ?thesis using becomes ones(1) or_all_ones [OF n r(2)] by (simp add: reduce_ori_def)
  next
    case 4
    then show ?thesis using becomes ones(2) or_all_ones [OF n r(1)] by (simp add: reduce_ori_def or.commute)
  qed (use becomes const in \<open>simp_all add: reduce_ori_def\<close>)
qed


text \<open>Two additions of constants.\<close>

lemma take_bit_c_wrap: "0 < n \<Longrightarrow> take_bit n (c_wrap u n x) = take_bit n x"
  by (rule bit_eqI) (auto simp: bit_take_bit_iff bit_c_wrap)

lemma c_wrap_cong: "take_bit n x = take_bit n y \<Longrightarrow> 0 < n \<Longrightarrow> c_wrap u n x = c_wrap u n y"
proof (rule bit_eqI)
  fix i
  assume t: "take_bit n x = take_bit n y" and n: "0 < n"
  have "bit x j \<longleftrightarrow> bit y j" if "j < n" for j
    using arg_cong [OF t, where f = "\<lambda>z. bit z j"] that by (simp add: bit_take_bit_iff)
  then show "bit (c_wrap u n x) i \<longleftrightarrow> bit (c_wrap u n y) i" using n by (simp add: bit_c_wrap)
qed

lemma c_wrap_add: "0 < n \<Longrightarrow> c_wrap u n (c_wrap u n x + y) = c_wrap u n (x + y)"
  by (rule c_wrap_cong) (metis take_bit_add take_bit_c_wrap, simp)

lemma const_operand_cases:
  assumes "const_operand a b = Some (c, e)"
  obtains ty where "a = EConst ty c" "b = e" "\<not> is_const b" | ty where "b = EConst ty c" "a = e" "\<not> is_const a"
  using assms by (cases "(a, b)" rule: const_operand.cases) auto

lemma WrapToType_value:
  assumes "int_type pcs ty = Some (u, n)"
  shows "WrapToType pcs ty (word_of_int z) = word_of_int (c_wrap u n z)"
proof -
  have n: "0 < n" "n \<le> 64" using int_type_width [OF assms] by auto
  have b: "ty_size (the ty) * 8 = int n" "TypeIsUnsigned pcs ty = u"
    using assms by (auto simp: int_type_def split: option.splits if_splits)
  show ?thesis
  proof (cases "n = 64")
    case True
    then have "word_of_int (c_wrap u n z) = (word_of_int z :: u64)" by (intro bit_eqI) (auto simp: bit_c_wrap bit_simps)
    then show ?thesis using True b by (simp add: WrapToType_def)
  next
    case False
    have "c_wrap u n (uint (word_of_int z :: u64)) = c_wrap u n z"
      using n by (intro bit_eqI) (auto simp: bit_c_wrap bit_simps)
    then show ?thesis using False b n mask_and_extend_wrap [of n "\<not> u" "word_of_int z"] by (simp add: WrapToType_def)
  qed
qed

lemma has_value_unique:
  assumes x: "has_value pcs env e u n x" and y: "has_value pcs env e u n y" and n: "0 < n" "n \<le> 64"
  shows "x = y"
proof -
  have "in_type u n x" "in_type u n y" using x y by (simp_all add: has_value_def)
  note r = in_type_word [OF n this(1)] in_type_word [OF n this(2)]
  have w: "(word_of_int x :: u64) = word_of_int y" using x y unfolding has_value_def by simp
  have "x = int_of u n (word_of_int x)" by (simp only: r(1))
  also have "\<dots> = y" unfolding w by (rule r(2))
  finally show ?thesis .
qed

text \<open>A sum of a constant and something else, taken apart.\<close>

lemma known_sum:
  assumes e: "known_operand pcs u n (EBin op p q ity)" and eq: "const_operand p q = Some (c', base)"
  obtains u3 n3 x' v where "has_value pcs env base u n v" "c' = word_of_int x'"
    "has_value pcs env (EBin op p q ity) u n (c_wrap u n (x' + v))"
proof -
  have sum: "op = IR_addi" "int_type pcs ity = Some (u, n)"
    and l: "leaf pcs u n p \<and> (leaf pcs u n q \<or> constant_operand pcs q) \<or> constant_operand pcs p \<and> leaf pcs u n q"
    using e by auto
  have nc: "constant_operand pcs d \<Longrightarrow> is_const d" for d by (cases d) simp_all
  obtain cty where pq: "p = EConst cty c' \<and> q = base \<or> q = EConst cty c' \<and> p = base" "\<not> is_const base"
    by (cases rule: const_operand_cases [OF eq]) auto
  have base: "leaf pcs u n base" and c: "constant_operand pcs (EConst cty c')"
    using l pq nc leaf_constant by auto
  obtain v where v: "has_value pcs env base u n v" using leaf_value [OF base] by blast
  obtain u3 n3 where "leaf pcs u3 n3 (EConst cty c')" using constant_leaf [OF c] by blast
  then obtain x' where x': "has_value pcs env (EConst cty c') u3 n3 x'" using leaf_value by blast
  have w: "c' = word_of_int x'" using has_value_constant(1) [OF x'] c by simp
  have "has_value pcs env (EBin op p q ity) u n (c_wrap u n (x' + v))"
    using pq(1) has_value_sum [OF x' v sum(2)] has_value_sum [OF v x' sum(2)] sum(1) by (auto simp: add.commute)
  then show thesis using that v w by blast
qed

lemma constant_and_sum:
  assumes c: "c = word_of_int x" and e: "known_operand pcs u n e" "has_value pcs env e u n y"
    and ty: "int_type pcs ty = Some (u, n)" and eq: "e = EBin op p q ity" "const_operand p q = Some (c', base)"
    and folded: "folded = WrapToType pcs ty (c + c')"
  shows "keeps_value pcs env (word_of_int (c_wrap u n (x + y)))
    (if folded = 0 then Becomes base else Becomes (EBin IR_addi base (EConst ty folded) ty))"
proof -
  have n: "0 < n" "n \<le> 64" using int_type_width [OF ty] by auto
  obtain x' v where v: "has_value pcs env base u n v" and w: "c' = word_of_int x'"
    and s: "has_value pcs env e u n (c_wrap u n (x' + v))"
    using known_sum [OF e(1) [unfolded eq(1)] eq(2)] eq(1) by metis
  have y: "y = c_wrap u n (x' + v)" by (rule has_value_unique [OF e(2) s n])
  have s: "folded = word_of_int (c_wrap u n (x + x'))" using folded c w WrapToType_value [OF ty, of "x + x'"] by simp
  have "c_wrap u n (c_wrap u n (x + x') + v) = c_wrap u n (x + x' + v)" by (rule c_wrap_add [OF n(1)])
  also have "\<dots> = c_wrap u n (x + y)"
    using c_wrap_add [OF n(1), of u "x' + v" x] y by (simp add: ac_simps)
  finally have k: "c_wrap u n (x + y) = c_wrap u n (c_wrap u n (x + x') + v)" by simp
  have const: "has_value pcs env (EConst ty folded) u n (c_wrap u n (x + x'))"
    unfolding s using n by (intro has_value_const [OF ty]) (simp add: in_type_def)
  show ?thesis
  proof (cases "folded = 0")
    case True
    then have "c_wrap u n (x + x') = 0" using s n in_type_word [of n u "c_wrap u n (x + x')"] in_type_word [of n u 0]
      by (simp add: in_type_def c_wrap_def)
    then show ?thesis using keeps_value_exact [OF v] True k by simp
  next
    case False
    have "has_value pcs env (EBin IR_addi base (EConst ty folded) ty) u n (c_wrap u n (v + c_wrap u n (x + x')))"
      by (rule has_value_sum [OF v const ty])
    then show ?thesis using False k by (simp add: has_value_def add.commute)
  qed
qed

lemma nested_value:
  assumes c: "c = word_of_int x" and e: "known_operand pcs u n e" "has_value pcs env e u n y"
    and ty: "int_type pcs ty = Some (u, n)" and r: "const_operand a b = Some (c, e)"
  shows "keeps_value pcs env (word_of_int (c_wrap u n (x + y))) (FoldNestedAdd pcs type_equal a b ty)"
proof (cases e)
  case (EBin op p q ity)
  show ?thesis
  proof (cases "const_operand p q")
    case inner: (Some s)
    then obtain c' base where s: "const_operand p q = Some (c', base)" by (cases s) auto
    have "FoldNestedAdd pcs type_equal a b ty = Unchanged \<or>
      FoldNestedAdd pcs type_equal a b ty =
        (if WrapToType pcs ty (c + c') = 0 then Becomes base
         else Becomes (EBin IR_addi base (EConst ty (WrapToType pcs ty (c + c'))) ty))"
      using r EBin s by (auto simp: FoldNestedAdd_def)
    then show ?thesis using constant_and_sum [OF c e ty EBin s refl] by auto
  qed (use r EBin in \<open>simp add: FoldNestedAdd_def\<close>)
qed (use r in \<open>simp_all add: FoldNestedAdd_def\<close>)

lemma reduce_addi_value:
  assumes a: "known_operand pcs ua na a" "has_value pcs env a ua na x"
    and b: "known_operand pcs ub nb b" "has_value pcs env b ub nb y" and ty: "int_type pcs ty = Some (u, n)"
    and other: "is_const a \<Longrightarrow> (ub, nb) = (u, n)" "is_const b \<Longrightarrow> (ua, na) = (u, n)"
  shows "keeps_value pcs env (word_of_int (c_wrap u n (x + y))) (FoldNestedAdd pcs type_equal a b ty)"
proof (cases "const_operand a b")
  case (Some r)
  then obtain c e where r: "const_operand a b = Some (c, e)" by (cases r) auto
  show ?thesis
  proof (cases rule: const_operand_cases [OF r])
    case (1 cty)
    then have "c = word_of_int x" "(ub, nb) = (u, n)" using known_operand_constant(1) [of pcs ua na cty c env x] a other by auto
    then show ?thesis using nested_value [OF _ _ _ ty r, of x env y] 1 b by simp
  next
    case (2 cty)
    then have "c = word_of_int y" "(ua, na) = (u, n)" using known_operand_constant(1) [of pcs ub nb cty c env y] b other by auto
    then show ?thesis using nested_value [OF _ _ _ ty r, of y env x] 2 a by (simp add: add.commute)
  qed
qed (simp add: FoldNestedAdd_def)

lemma negi_value:
  assumes b: "has_value pcs env b ub nb y" and ty: "int_type pcs ty = Some (u, n)"
  shows "expr_value pcs env (EUn IR_negi b ty) = Some (word_of_int (c_wrap u n (- y)))"
proof -
  have t: "int_type pcs (expr_type b) = Some (ub, nb)" "in_type ub nb y" using b by (simp_all add: has_value_def)
  have op: "IR_negi \<in> set arith_ops" "IR_negi \<notin> set one_signedness_ops" "IR_negi \<noteq> IR_lsri" "IR_negi \<noteq> IR_asri"
    "IR_negi \<notin> set [IR_zeroextendi, IR_signextendi]" by (simp_all add: arith_op_defs compare_ops_def)
  have "op_value pcs IR_negi (expr_type b) ty (word_of_int y) (word_of_int 0) =
      map_option (\<lambda>k. word_of_int (c_wrap u n k)) (wrapped_arith IR_negi ub nb n y 0)"
    by (rule op_value_arith [OF op(1) t(1) ty t(2), of 64 u]) (use op in \<open>auto intro: small_in_type\<close>)
  then show ?thesis using b Normalize_in_type [OF t] by (simp add: has_value_def wrapped_arith_ops)
qed

section \<open>The pass on an instruction\<close>

text \<open>The instructions it rewrites, at operands it may look into.\<close>

lemma ReduceNodeStrength_ops:
  fixes pcs llsize type_equal
  defines "R \<equiv> ReduceNodeStrength pcs llsize type_equal False False"
  shows "R (EBin IR_addi a b ty) =
      (if IsIntConstantWithValue a 0 then Becomes b
       else if IsIntConstantWithValue b 0 then Becomes a else FoldNestedAdd pcs type_equal a b ty)"
    and "R (EBin IR_subi a b ty) =
      (if IsIntConstantWithValue b 0 then Becomes a
       else if IsIntConstantWithValue a 0 then Becomes (EUn IR_negi b ty) else Unchanged)"
    and "R (EBin IR_muli a b ty) = reduce_muli pcs a b ty"
    and "R (EBin IR_divi a b ty) = reduce_divi pcs llsize a b ty"
    and "R (EBin IR_modi a b ty) = reduce_modi pcs a b ty"
    and "R (EBin IR_andi a b ty) = reduce_andi a b"
    and "R (EBin IR_ori a b ty) = reduce_ori a b"
    and "R (EBin IR_xori a b ty) =
      (if IsIntConstantWithValue a 0 then Becomes b else if IsIntConstantWithValue b 0 then Becomes a else Unchanged)"
    and "R (EBin IR_cmpeqi a b ty) = (if same_node a b then Becomes (EConst ty 1) else Unchanged)"
    and "R (EBin IR_cmpnei a b ty) = (if same_node a b then Becomes (EConst ty 0) else Unchanged)"
    and "op \<notin> set reduced_ops \<Longrightarrow> R (EBin op a b ty) = Unchanged"
    and "R (EBin IR_lsli a b ty) = Unchanged"
  unfolding R_def by (simp_all add: ReduceNodeStrength_def reduced_ops_def ir_op_defs)

lemma comparison_value:
  assumes a: "has_value pcs env a ua na x" and b: "has_value pcs env b ub nb y" and same: "same_node a b"
    and t: "expr_type a = expr_type b"
  shows "(ub, nb) = (ua, na)" "x = y"
proof -
  have ta: "int_type pcs (expr_type a) = Some (ua, na)" using a by (simp add: has_value_def)
  have n: "0 < na" "na \<le> 64" using int_type_width [OF ta] by auto
  show eq: "(ub, nb) = (ua, na)" using a b t by (simp add: has_value_def)
  have "expr_value pcs env a = expr_value pcs env b"
    using same t by (cases "(a, b)" rule: same_node.cases) auto
  then have "has_value pcs env a ua na y" using b t eq by (simp add: has_value_def)
  then show "x = y" using has_value_unique [OF a _ n] by simp
qed

text \<open>
  The types of the operands, where the pass may replace the instruction by one of them: beside
  a constant, the other operand of a sum, difference, product or exclusive or has the type of
  the result; a quotient, remainder, conjunction or disjunction with a constant has one type
  throughout.  Without a constant, and in comparisons, the types are free.
\<close>

definition operands_suit ::
  "ir_op \<Rightarrow> ir_expr \<Rightarrow> bool \<times> nat \<Rightarrow> ir_expr \<Rightarrow> bool \<times> nat \<Rightarrow> bool \<times> nat \<Rightarrow> bool" where
  "operands_suit op a ta b tb t \<longleftrightarrow>
     (op \<in> set [IR_addi, IR_subi, IR_muli, IR_xori] \<longrightarrow> (is_const a \<longrightarrow> tb = t) \<and> (is_const b \<longrightarrow> ta = t)) \<and>
     (op \<in> set [IR_divi, IR_modi, IR_andi, IR_ori] \<longrightarrow> is_const a \<or> is_const b \<longrightarrow> ta = t \<and> tb = t)"

text \<open>With no constant operand the pass changes none of them.\<close>

lemma no_constant:
  assumes "\<not> is_const a" "\<not> is_const b"
  shows "reduce_muli pcs a b ty = Unchanged" "reduce_divi pcs llsize a b ty = Unchanged"
    "reduce_modi pcs a b ty = Unchanged" "reduce_andi a b = Unchanged" "reduce_ori a b = Unchanged"
    "FoldNestedAdd pcs te a b ty = Unchanged"
proof -
  note nc = not_const [OF assms(1)] not_const [OF assms(2)]
  show "reduce_muli pcs a b ty = Unchanged" "reduce_modi pcs a b ty = Unchanged" "reduce_andi a b = Unchanged"
    "reduce_ori a b = Unchanged"
    by (simp_all add: reduce_muli_def reduce_modi_def reduce_andi_def reduce_ori_def Let_def nc)
  have "FoldConstantDivision pcs llsize a b ty = Unchanged"
    using assms(2) by (cases b) (simp_all add: FoldConstantDivision_def split: option.split)
  then show "reduce_divi pcs llsize a b ty = Unchanged" by (simp add: reduce_divi_def nc)
  have "const_operand a b = None" using assms by (cases "(a, b)" rule: const_operand.cases) simp_all
  then show "FoldNestedAdd pcs te a b ty = Unchanged" by (simp add: FoldNestedAdd_def)
qed

text \<open>The sums, differences, products and exclusive ors.\<close>

lemma linear_ops_keep:
  assumes a: "known_operand pcs ua na a" "has_value pcs env a ua na x"
    and b: "known_operand pcs ub nb b" "has_value pcs env b ub nb y" and ty: "int_type pcs ty = Some (u, n)"
    and op: "op \<in> set [IR_addi, IR_subi, IR_muli, IR_xori]"
    and suit: "is_const a \<Longrightarrow> (ub, nb) = (u, n)" "is_const b \<Longrightarrow> (ua, na) = (u, n)"
    and v: "wrapped_arith op ua na n x y = Some k"
  shows "keeps_value pcs env (word_of_int (c_wrap u n k)) (ReduceNodeStrength pcs llsize te False False (EBin op a b ty))"
proof -
  have a0: "x = 0 \<and> (ub, nb) = (u, n)" if "IsIntConstantWithValue a 0"
    using that constant_tests [OF a] suit(1) constant_is_const(1) by blast
  have b0: "y = 0 \<and> (ua, na) = (u, n)" if "IsIntConstantWithValue b 0"
    using that constant_tests [OF b] suit(2) constant_is_const(1) by blast
  note R = ReduceNodeStrength_ops
  note becomes = keeps_value_exact [of pcs env a u n x] keeps_value_exact [of pcs env b u n y]
  consider "op = IR_addi" | "op = IR_subi" | "op = IR_muli" | "op = IR_xori" using op by auto
  then show ?thesis
  proof cases
    case 1
    have "k = x + y" using v unfolding 1 wrapped_arith_ops by simp
    then show ?thesis using a0 b0 a(2) b(2) becomes reduce_addi_value [OF a b ty suit, of te] unfolding 1 R by auto
  next
    case 2
    have "k = x - y" using v unfolding 2 wrapped_arith_ops by simp
    then show ?thesis using a0 b0 a(2) becomes(1) negi_value [OF b(2) ty] unfolding 2 R by auto
  next
    case 3
    have "k = x * y" using v unfolding 3 wrapped_arith_ops by simp
    then show ?thesis using reduce_muli_value [OF a b ty suit] unfolding 3 R by simp
  next
    case 4
    have "k = Bit_Operations.xor x y" using v unfolding 4 wrapped_arith_ops by simp
    then show ?thesis using a0 b0 a(2) b(2) becomes unfolding 4 R by auto
  qed
qed

text \<open>The quotients, remainders, conjunctions and disjunctions, at one type.\<close>

lemma same_type_ops_keep:
  assumes a: "known_operand pcs u n a" "has_value pcs env a u n x"
    and b: "known_operand pcs u n b" "has_value pcs env b u n y" and ty: "int_type pcs ty = Some (u, n)"
    and op: "op \<in> set [IR_divi, IR_modi, IR_andi, IR_ori]" and v: "wrapped_arith op u n n x y = Some k"
  shows "keeps_value pcs env (word_of_int (c_wrap u n k)) (ReduceNodeStrength pcs llsize te False False (EBin op a b ty))"
proof -
  have n: "0 < n" using int_type_width [OF ty] by auto
  note R = ReduceNodeStrength_ops
  consider "op = IR_divi" | "op = IR_modi" | "op = IR_andi" | "op = IR_ori" using op by auto
  then show ?thesis
  proof cases
    case 1
    have "k = x sdiv y" using v unfolding 1 wrapped_arith_ops by (simp split: if_splits)
    then show ?thesis using reduce_divi_value [OF a b ty] unfolding 1 R by simp
  next
    case 2
    have "k = x smod y" using v unfolding 2 wrapped_arith_ops by (simp split: if_splits)
    then show ?thesis using reduce_modi_value [OF a b ty] unfolding 2 R by simp
  next
    case 3
    have "k = Bit_Operations.and x y" using v unfolding 3 wrapped_arith_ops by simp
    then show ?thesis using reduce_andi_value [OF a b n] unfolding 3 R by simp
  next
    case 4
    have "k = Bit_Operations.or x y" using v unfolding 4 wrapped_arith_ops by simp
    then show ?thesis using reduce_ori_value [OF a b n] unfolding 4 R by simp
  qed
qed

text \<open>The comparisons of a node with itself.\<close>

lemma comparison_keeps:
  assumes a: "has_value pcs env a u n x" and b: "has_value pcs env b u n x" and ty: "int_type pcs ty = Some (u', n')"
    and op: "op \<in> set [IR_cmpeqi, IR_cmpnei]" and v: "expr_value pcs env (EBin op a b ty) = Some v"
  shows "expr_value pcs env (EConst ty (if op = IR_cmpeqi then 1 else 0)) = Some v"
proof -
  have n': "8 \<le> n'" using int_type_width [OF ty] by auto
  have f: "expr_value pcs env (EConst ty 1) = Some 1" "expr_value pcs env (EConst ty 0) = Some 0"
    using has_value_const [OF ty, of 1] has_value_const [OF ty, of 0] small_in_type [OF n'] by (simp_all add: has_value_def)
  have w: "c_wrap u' n' 1 = 1" "c_wrap u' n' 0 = 0"
    using small_in_type [OF n', of 1] small_in_type [OF n', of 0] by (simp_all add: in_type_def)
  have b1: "expr_value pcs env (EBin op a b ty) = map_option (\<lambda>k. word_of_int (c_wrap u' n' k)) (wrapped_arith op u n n' x x)"
    by (rule binary_value [OF a b ty]) (use op in \<open>auto simp: reduced_ops_def\<close>)
  consider "op = IR_cmpeqi" | "op = IR_cmpnei" "op \<noteq> IR_cmpeqi" using op by (auto simp: ir_op_defs)
  then show ?thesis
  proof cases
    case 1
    then show ?thesis using v b1 f w unfolding 1 wrapped_arith_ops by (simp add: flag_def)
  next
    case 2
    have "wrapped_arith op u n n' x x = Some 0" unfolding 2(1) wrapped_arith_ops by (simp add: flag_def)
    then show ?thesis using v b1 f w 2(2) by simp
  qed
qed

lemma ReduceNodeStrength_keeps:
  assumes a: "known_operand pcs ua na a" "has_value pcs env a ua na x"
    and b: "known_operand pcs ub nb b" "has_value pcs env b ub nb y" and ty: "int_type pcs ty = Some (u, n)"
    and suit: "operands_suit op a (ua, na) b (ub, nb) (u, n)" and nodes: "same_node a b \<Longrightarrow> expr_type a = expr_type b"
    and v: "expr_value pcs env (EBin op a b ty) = Some v" and op: "op \<in> set reduced_ops"
  shows "keeps_value pcs env v (ReduceNodeStrength pcs llsize te False False (EBin op a b ty))"
proof -
  have val: "\<exists>k. wrapped_arith op ua na n x y = Some k \<and> v = word_of_int (c_wrap u n k)"
    if "op \<in> set one_signedness_ops \<Longrightarrow> ub = ua"
    using binary_value [OF a(2) b(2) ty op that] v by (cases "wrapped_arith op ua na n x y") auto
  note R = ReduceNodeStrength_ops
  consider "op \<in> set [IR_addi, IR_subi, IR_muli, IR_xori]" | "op \<in> set [IR_divi, IR_modi, IR_andi, IR_ori]"
    | "op \<in> set [IR_cmpeqi, IR_cmpnei]" | "op = IR_lsli" using op unfolding reduced_ops_def by auto
  then show ?thesis
  proof cases
    case 1
    then have "op \<notin> set one_signedness_ops" using any_signedness by auto
    then obtain k where k: "wrapped_arith op ua na n x y = Some k" "v = word_of_int (c_wrap u n k)" using val by blast
    show ?thesis unfolding k(2) by (rule linear_ops_keep [OF a b ty 1 _ _ k(1)]) (use suit 1 in \<open>auto simp: operands_suit_def\<close>)
  next
    case 2
    show ?thesis
    proof (cases "is_const a \<or> is_const b")
      case True
      then have t: "ua = u" "na = n" "ub = u" "nb = n" using suit 2 by (auto simp: operands_suit_def)
      obtain k where k: "wrapped_arith op u n n x y = Some k" "v = word_of_int (c_wrap u n k)" using val t by blast
      show ?thesis
        unfolding k(2) by (rule same_type_ops_keep [OF a [unfolded t] b [unfolded t] ty 2 k(1)])
    next
      case False
      then have "ReduceNodeStrength pcs llsize te False False (EBin op a b ty) = Unchanged"
        using 2 no_constant [of a b] by (auto simp: R)
      then show ?thesis by simp
    qed
  next
    case 3
    have "same_node a b \<Longrightarrow> expr_value pcs env (EConst ty (if op = IR_cmpeqi then 1 else 0)) = Some v"
      using comparison_value [OF a(2) b(2)] nodes comparison_keeps [OF a(2) _ ty 3 v] b(2) by auto
    note w = this
    have ne: "IR_cmpnei \<noteq> IR_cmpeqi" by (simp add: ir_op_defs)
    from 3 consider "op = IR_cmpeqi" | "op = IR_cmpnei" by auto
    then show ?thesis
    proof cases
      case 1
      show ?thesis using w unfolding 1 R by (cases "same_node a b") simp_all
    next
      case 2
      show ?thesis using w ne unfolding 2 R by (cases "same_node a b") simp_all
    qed
  next
    case 4
    then show ?thesis unfolding 4 R by simp
  qed
qed

end
