(* ===== verification/StrengthTheorems.thy ===== *)
theory StrengthTheorems
  imports StrengthOps
begin

text \<open>The properties of the strength reduction, with their witnesses.\<close>

text \<open>
  C34. The magic number the pass finds for an unsigned 32-bit divisor divides: for every divisor
  of at least 2 and every dividend, the high part of the product with the multiplier (a 33-bit
  number when the add flag is set), shifted, is the quotient, and the shift counts fit the
  64-bit instructions the pass emits.
\<close>
theorem unsigned_magic_divides:
  assumes "2 \<le> d"
  shows "uint (x :: u32) * um_multiplier (UnsignedMagic32 d) div 2 ^ (32 + um_shift (UnsignedMagic32 d)) = uint (x div d) \<and>
    um_shift (UnsignedMagic32 d) \<le> (if um_add (UnsignedMagic32 d) then 32 else 31)"
proof -
  have d: "2 \<le> uint d" using assms by (simp add: word_le_def)
  show ?thesis
    using UnsignedMagic32_divides(1) [OF d] UnsignedMagic32_divides(2) [OF d, of "uint x"] uint_32 [of x] by (simp add: uint_div)
qed

theorem unsigned_magic_divides_witness:
  "uint (100 :: u32) * um_multiplier (UnsignedMagic32 7) div 2 ^ (32 + um_shift (UnsignedMagic32 7)) = uint (100 div 7 :: u32)"
  using unsigned_magic_divides [of 7 100] by simp

text \<open>
  C35. The loop that looks for a signed magic number has no bound of its own; it ends for every
  divisor from 2 to \<open>INT_MAX\<close>, and what it finds is the truncating division: the product's high
  part, shifted, with one added for a negative dividend.
\<close>
theorem signed_magic_found:
  assumes "2 \<le> uint d" "uint d < 2 ^ 31"
  shows "\<exists>mag. SignedMagic32 d = Some mag \<and> sm_shift mag \<le> 30 \<and>
    (\<forall>x :: 32 word. sint x * uint (sm_magic mag) div 2 ^ (32 + sm_shift mag) + (if sint x < 0 then 1 else 0)
      = sint x sdiv uint d)"
proof -
  obtain mag where mag: "SignedMagic32 d = Some mag" "sm_shift mag \<le> 30"
    and pos: "\<And>n. 0 \<le> n \<Longrightarrow> n < 2 ^ 31 \<Longrightarrow> n * uint (sm_magic mag) div 2 ^ (32 + sm_shift mag) = n div uint d"
    and neg: "\<And>m. 0 < m \<Longrightarrow> m \<le> 2 ^ 31 \<Longrightarrow> - m * uint (sm_magic mag) div 2 ^ (32 + sm_shift mag) = - (m div uint d) - 1"
    using SignedMagic32_divides [OF assms] by metis
  have "sint x * uint (sm_magic mag) div 2 ^ (32 + sm_shift mag) + (if sint x < 0 then 1 else 0) = sint x sdiv uint d"
    for x :: "32 word"
    using pos [of "sint x"] neg [of "- sint x"] sint_ge [of x] sint_lt [of x] assms(1) by (simp add: sdiv_pos sdiv_neg)
  then show ?thesis using mag by blast
qed

theorem signed_magic_found_witness: "\<exists>mag. SignedMagic32 7 = Some mag \<and> sm_shift mag \<le> 30"
  using signed_magic_found [of 7] by auto





end
