(* ===== verification/Cfg.thy ===== *)
theory Cfg
  imports IrGraph
begin

text \<open>
  The control-flow graph of a function: the edges of the basic blocks (\<open>backend/basic_block.c\<close>)
  and the analysis of \<open>backend/codegen.c\<close> that gives every block its dominators, its place in the
  dominator tree and its dominance frontier.  A block is its index in the vector of the generator.
\<close>

section \<open>Edges\<close>

definition block_at :: "generator \<Rightarrow> nat \<Rightarrow> basic_block" where
  "block_at g i = gen_basic_blocks g ! i"

definition on_block :: "nat \<Rightarrow> (basic_block \<Rightarrow> basic_block) \<Rightarrow> generator \<Rightarrow> generator" where
  "on_block i f g = set_block i (f (block_at g i)) g"

definition num_blocks :: "generator \<Rightarrow> nat" where
  "num_blocks g = length (gen_basic_blocks g)"

definition forget_reachability :: "basic_block \<Rightarrow> basic_block" where
  "forget_reachability b = b\<lparr>bb_reachability_known := False\<rparr>"

definition BasicBlockAddInEdge :: "nat \<Rightarrow> nat \<Rightarrow> generator \<Rightarrow> generator" where
  "BasicBlockAddInEdge from to g =
     (let to_id = bb_id (block_at g to)
      in on_block to forget_reachability
           (on_block from (\<lambda>b. b\<lparr>bb_in_edges := bb_in_edges b @ [to_id]\<rparr>) g))"

definition BasicBlockAddEdge :: "nat \<Rightarrow> nat \<Rightarrow> generator \<Rightarrow> generator" where
  "BasicBlockAddEdge from to g =
     (let to_id = bb_id (block_at g to);
          g1 = on_block from (\<lambda>b. b\<lparr>bb_out_edges := bb_out_edges b @ [to_id]\<rparr>) g;
          g2 = BasicBlockAddInEdge to from g1
      in on_block to forget_reachability g2)"

definition BasicBlockAddBackEdge :: "nat \<Rightarrow> nat \<Rightarrow> generator \<Rightarrow> generator" where
  "BasicBlockAddBackEdge from to g =
     (let from_id = bb_id (block_at g from)
      in on_block to (\<lambda>b. b\<lparr>bb_in_back_edges := BitSetInsert (bb_in_back_edges b) from_id\<rparr>) g)"

text \<open>The loops that look for an edge delete the first one found.\<close>

definition BasicBlockRemoveInput :: "nat \<Rightarrow> nat \<Rightarrow> generator \<Rightarrow> generator" where
  "BasicBlockRemoveInput i bid g = on_block i (\<lambda>b. b\<lparr>bb_in_edges := remove1 bid (bb_in_edges b)\<rparr>) g"

definition BasicBlockRemoveEdge :: "nat \<Rightarrow> nat \<Rightarrow> generator \<Rightarrow> generator" where
  "BasicBlockRemoveEdge from to g =
     (let from_id = bb_id (block_at g from); to_id = bb_id (block_at g to);
          g1 = on_block to (\<lambda>b. b\<lparr>bb_in_edges := remove1 from_id (bb_in_edges b)\<rparr>) g;
          g2 = on_block from (\<lambda>b. b\<lparr>bb_out_edges := remove1 to_id (bb_out_edges b)\<rparr>) g1
      in on_block to forget_reachability g2)"

text \<open>
  The recursion over the predecessors, cut at the blocks whose answer is recorded.  The fuel
  stands for the depth of the recursion, which passes each block once.
\<close>

fun unreachable :: "nat \<Rightarrow> nat \<Rightarrow> generator \<Rightarrow> (bool \<times> generator) option"
  and all_unreachable :: "nat \<Rightarrow> nat list \<Rightarrow> generator \<Rightarrow> (bool \<times> generator) option" where
  "unreachable fuel b g =
     (if b = gen_entry_block g then Some (False, g)
      else if bb_reachability_known (block_at g b) then Some (bb_is_unreachable (block_at g b), g)
      else case fuel of
             0 \<Rightarrow> None
           | Suc k \<Rightarrow>
               (case all_unreachable k (bb_in_edges (block_at g b))
                       (on_block b (\<lambda>x. x\<lparr>bb_reachability_known := True\<rparr>) g) of
                  None \<Rightarrow> None
                | Some (u, g') \<Rightarrow>
                    Some (u, if u then on_block b (\<lambda>x. x\<lparr>bb_is_unreachable := True\<rparr>) g' else g')))"
| "all_unreachable fuel [] g = Some (True, g)"
| "all_unreachable fuel (i # is) g =
     (case unreachable fuel i g of
        None \<Rightarrow> None
      | Some (u, g') \<Rightarrow> if u then all_unreachable fuel is g' else Some (False, g'))"

declare unreachable.simps [simp del]

definition BasicBlockIsUnreachable :: "nat \<Rightarrow> generator \<Rightarrow> (bool \<times> generator) option" where
  "BasicBlockIsUnreachable b g = unreachable (num_blocks g) b g"

section \<open>Dominators\<close>

definition ResetCFGAnalysis :: "generator \<Rightarrow> generator" where
  "ResetCFGAnalysis g = g\<lparr>gen_basic_blocks := map (\<lambda>b.
     b\<lparr>bb_dominators := BitSetClear (bb_dominators b), bb_num_dominators := 0, bb_dominatees := [],
       bb_dominance_frontier := BitSetClear (bb_dominance_frontier b), bb_idom := None,
       bb_reachability_known := False, bb_is_unreachable := False\<rparr>) (gen_basic_blocks g)\<rparr>"

definition HasForwardSinglePredecessorCFG :: "generator \<Rightarrow> bool" where
  "HasForwardSinglePredecessorCFG g \<longleftrightarrow>
     list_all (\<lambda>i. let b = block_at g i
                   in i = gen_entry_block g \<or> bb_in_edges b = [] \<or>
                      length (bb_in_edges b) = 1 \<and> bb_in_edges b ! 0 < bb_id b)
       [0..<num_blocks g]"

definition forward_block :: "generator \<Rightarrow> nat \<Rightarrow> basic_block" where
  "forward_block g i =
     (let is_entry = (i = gen_entry_block g);
          b = (block_at g i)\<lparr>bb_dominators := BitSetClear (bb_dominators (block_at g i)), bb_idom := None,
                bb_num_dominators := 0, bb_reachability_known := True, bb_is_unreachable := \<not> is_entry\<rparr>;
          p = bb_in_edges b ! 0;
          b1 = (if \<not> is_entry \<and> length (bb_in_edges b) = 1 \<and> \<not> bb_is_unreachable (block_at g p)
                then b\<lparr>bb_dominators := BitSetCopy (bb_dominators b) (bb_dominators (block_at g p)),
                       bb_idom := Some p, bb_is_unreachable := False\<rparr>
                else b)
      in if bb_is_unreachable b1 then b1
         else let s = BitSetInsert (bb_dominators b1) (bb_id b1)
              in b1\<lparr>bb_dominators := s, bb_num_dominators := BitSetCount s\<rparr>)"

definition CalculateForwardSinglePredecessorDominators :: "generator \<Rightarrow> generator" where
  "CalculateForwardSinglePredecessorDominators g =
     foldl (\<lambda>g i. set_block i (forward_block g i) g) g [0..<num_blocks g]"

text \<open>
  The depth-first search with a stack of its own; the head of the list is the end of the vector.
  An item is a block to visit, or with its lowest bit set a block whose successors are done.
\<close>

definition push_successors :: "bitset \<Rightarrow> nat list \<Rightarrow> nat list \<Rightarrow> nat list" where
  "push_successors reachable successors stack =
     foldl (\<lambda>w s. if BitSetContains reachable s then w else (s * 2) # w) stack (rev successors)"

partial_function (option) postorder_loop ::
  "generator \<Rightarrow> nat list \<Rightarrow> nat list \<Rightarrow> bitset \<Rightarrow> (nat list \<times> bitset) option" where
  "postorder_loop g stack postorder reachable =
     (case stack of
        [] \<Rightarrow> Some (postorder, reachable)
      | item # rest \<Rightarrow>
          (let bid = item div 2
           in if odd item then postorder_loop g rest (postorder @ [bid]) reachable
              else if BitSetContains reachable bid then postorder_loop g rest postorder reachable
              else let reachable' = BitSetInsert reachable bid
                   in postorder_loop g
                        (push_successors reachable' (bb_out_edges (block_at g bid)) ((bid * 2 + 1) # rest))
                        postorder reachable'))"

definition ComputeReversePostorder :: "generator \<Rightarrow> nat list \<Rightarrow> bitset \<Rightarrow> (nat list \<times> bitset) option" where
  "ComputeReversePostorder g postorder reachable =
     postorder_loop g [bb_id (block_at g (gen_entry_block g)) * 2] postorder reachable"

text \<open>
  Immediate dominators under construction are indices, \<open>None\<close> for the null pointer; to climb
  through a null pointer is no result.
\<close>

partial_function (option) climb :: "nat option list \<Rightarrow> nat list \<Rightarrow> nat \<Rightarrow> nat \<Rightarrow> nat option" where
  "climb idoms rpo x limit =
     (if rpo ! x > rpo ! limit
      then (case idoms ! x of None \<Rightarrow> None | Some y \<Rightarrow> climb idoms rpo y limit)
      else Some x)"

partial_function (option) IntersectImmediateDominators ::
  "nat \<Rightarrow> nat \<Rightarrow> nat option list \<Rightarrow> nat list \<Rightarrow> nat option" where
  "IntersectImmediateDominators left right idoms rpo =
     (if left = right then Some left
      else case climb idoms rpo left right of
             None \<Rightarrow> None
           | Some l \<Rightarrow>
               (case climb idoms rpo right l of
                  None \<Rightarrow> None
                | Some r \<Rightarrow> IntersectImmediateDominators l r idoms rpo))"

fun new_idom :: "nat option list \<Rightarrow> nat list \<Rightarrow> nat list \<Rightarrow> nat option \<Rightarrow> nat option option" where
  "new_idom idoms rpo [] current = Some current"
| "new_idom idoms rpo (p # ps) current =
     (if idoms ! p = None then new_idom idoms rpo ps current
      else case current of
             None \<Rightarrow> new_idom idoms rpo ps (Some p)
           | Some c \<Rightarrow>
               (case IntersectImmediateDominators c p idoms rpo of
                  None \<Rightarrow> None
                | Some r \<Rightarrow> new_idom idoms rpo ps (Some r)))"

fun idom_pass :: "generator \<Rightarrow> nat list \<Rightarrow> nat list \<Rightarrow> nat option list \<Rightarrow> bool \<Rightarrow> (nat option list \<times> bool) option" where
  "idom_pass g rpo [] idoms changed = Some (idoms, changed)"
| "idom_pass g rpo (bid # bids) idoms changed =
     (case new_idom idoms rpo (bb_in_edges (block_at g bid)) None of
        None \<Rightarrow> None
      | Some r \<Rightarrow>
          if r \<noteq> None \<and> idoms ! bid \<noteq> r then idom_pass g rpo bids (idoms[bid := r]) True
          else idom_pass g rpo bids idoms changed)"

partial_function (option) idom_loop :: "generator \<Rightarrow> nat list \<Rightarrow> nat list \<Rightarrow> nat option list \<Rightarrow> nat option list option" where
  "idom_loop g rpo bids idoms =
     (case idom_pass g rpo bids idoms False of
        None \<Rightarrow> None
      | Some r \<Rightarrow> if snd r then idom_loop g rpo bids (fst r) else Some (fst r))"

definition number_blocks :: "nat \<Rightarrow> nat list \<Rightarrow> nat list" where
  "number_blocks n postorder =
     foldl (\<lambda>rpo i. rpo[postorder ! (length postorder - i - 1) := i])
       (replicate n 0xffffffffffffffff) [0..<length postorder]"

text \<open>The chain of immediate dominators of a block, added to its set.\<close>

partial_function (option) dominator_chain ::
  "nat \<Rightarrow> nat option list \<Rightarrow> nat option \<Rightarrow> bitset \<times> nat \<Rightarrow> (bitset \<times> nat) option" where
  "dominator_chain entry idoms dominator acc =
     (case dominator of
        None \<Rightarrow> Some acc
      | Some d \<Rightarrow>
          dominator_chain entry idoms (if d = entry then None else idoms ! d)
            (BitSetInsert (fst acc) d, snd acc + 1))"

definition store_dominators :: "nat \<Rightarrow> nat option list \<Rightarrow> bitset \<Rightarrow> nat \<Rightarrow> basic_block \<Rightarrow> basic_block option" where
  "store_dominators entry idoms reachable i block =
     (let b = block\<lparr>bb_dominators := BitSetClear (bb_dominators block), bb_idom := None,
                bb_num_dominators := 0, bb_reachability_known := True,
                bb_is_unreachable := \<not> BitSetContains reachable i\<rparr>
      in if bb_is_unreachable b then Some b
         else case dominator_chain entry idoms (Some i) (bb_dominators b, 0) of
                None \<Rightarrow> None
              | Some acc \<Rightarrow>
                  Some (b\<lparr>bb_idom := (if i = entry then None else idoms ! i),
                          bb_dominators := fst acc, bb_num_dominators := snd acc\<rparr>))"

fun store_all :: "nat option list \<Rightarrow> bitset \<Rightarrow> nat list \<Rightarrow> generator \<Rightarrow> generator option" where
  "store_all idoms reachable [] g = Some g"
| "store_all idoms reachable (i # is) g =
     (case store_dominators (gen_entry_block g) idoms reachable i (block_at g i) of
        None \<Rightarrow> None
      | Some b \<Rightarrow> store_all idoms reachable is (set_block i b g))"

definition CalculateDominators :: "generator \<Rightarrow> generator option" where
  "CalculateDominators g =
     (if HasForwardSinglePredecessorCFG g
      then Some (CalculateForwardSinglePredecessorDominators g)
      else case ComputeReversePostorder g [] BitSetInit of
             None \<Rightarrow> None
           | Some (postorder, reachable) \<Rightarrow>
               (let n = num_blocks g; entry = gen_entry_block g;
                    rpo = number_blocks n postorder;
                    idoms = (replicate n None)[entry := Some entry]
                in case idom_loop g rpo (tl (rev postorder)) idoms of
                     None \<Rightarrow> None
                   | Some final \<Rightarrow> store_all final reachable [0..<n] g))"

section \<open>Dominance frontier and dominator tree\<close>

definition BasicBlockAddToDF :: "nat \<Rightarrow> nat \<Rightarrow> generator \<Rightarrow> generator" where
  "BasicBlockAddToDF b bid g =
     on_block b (\<lambda>x. x\<lparr>bb_dominance_frontier := BitSetInsert (bb_dominance_frontier x) bid\<rparr>) g"

partial_function (option) frontier_runner :: "nat \<Rightarrow> nat option \<Rightarrow> generator \<Rightarrow> generator option" where
  "frontier_runner b runner g =
     (case runner of
        None \<Rightarrow> Some g
      | Some r \<Rightarrow>
          if runner = bb_idom (block_at g b) then Some g
          else let g' = BasicBlockAddToDF r (bb_id (block_at g b)) g
               in frontier_runner b (bb_idom (block_at g' r)) g')"

fun frontier_edges :: "nat \<Rightarrow> nat list \<Rightarrow> generator \<Rightarrow> generator option" where
  "frontier_edges b [] g = Some g"
| "frontier_edges b (i # is) g =
     (case BasicBlockIsUnreachable i g of
        None \<Rightarrow> None
      | Some (u, g') \<Rightarrow>
          if u then frontier_edges b is g'
          else case frontier_runner b (Some i) g' of
                 None \<Rightarrow> None
               | Some g'' \<Rightarrow> frontier_edges b is g'')"

definition BasicBlockCalculateDominanceFrontier :: "nat \<Rightarrow> generator \<Rightarrow> generator option" where
  "BasicBlockCalculateDominanceFrontier b g =
     (if length (bb_in_edges (block_at g b)) \<ge> 2 then frontier_edges b (bb_in_edges (block_at g b)) g
      else Some g)"

fun frontier_blocks :: "nat list \<Rightarrow> generator \<Rightarrow> generator option" where
  "frontier_blocks [] g = Some g"
| "frontier_blocks (i # is) g =
     (case BasicBlockCalculateDominanceFrontier i g of None \<Rightarrow> None | Some g' \<Rightarrow> frontier_blocks is g')"

definition CalculateDominanceFrontier :: "generator \<Rightarrow> generator option" where
  "CalculateDominanceFrontier g = frontier_blocks [0..<num_blocks g] g"

definition link_dominatee :: "generator \<Rightarrow> nat \<Rightarrow> generator" where
  "link_dominatee g i =
     (case bb_idom (block_at g i) of
        None \<Rightarrow> g
      | Some d \<Rightarrow>
          (let bid = bb_id (block_at g i)
           in on_block d (\<lambda>x. x\<lparr>bb_dominatees := bb_dominatees x @ [bid]\<rparr>) g))"

definition BuildDominatorTree :: "generator \<Rightarrow> generator" where
  "BuildDominatorTree g = foldl link_dominatee g [0..<num_blocks g]"

text \<open>The analysis of the graph, up to the loops.\<close>

definition AnalyzeCFG :: "generator \<Rightarrow> generator option" where
  "AnalyzeCFG g =
     (case CalculateDominators (ResetCFGAnalysis g) of
        None \<Rightarrow> None
      | Some g1 \<Rightarrow> (case CalculateDominanceFrontier g1 of None \<Rightarrow> None | Some g2 \<Rightarrow> Some (BuildDominatorTree g2)))"

text \<open>Is there a way down the tree: the recursion ends because the tree has no cycle, or on fuel.\<close>

fun BasicBlockDominatedBy :: "nat \<Rightarrow> generator \<Rightarrow> nat \<Rightarrow> nat \<Rightarrow> bool option" where
  "BasicBlockDominatedBy 0 g root b = None"
| "BasicBlockDominatedBy (Suc fuel) g root b =
     foldr (\<lambda>child r. if b = child then Some True
                      else case BasicBlockDominatedBy fuel g child b of
                             None \<Rightarrow> None
                           | Some True \<Rightarrow> Some True
                           | Some False \<Rightarrow> r)
       (bb_dominatees (block_at g root)) (Some False)"

declare postorder_loop.simps [code] climb.simps [code] IntersectImmediateDominators.simps [code]
  idom_loop.simps [code] dominator_chain.simps [code] frontier_runner.simps [code]

section \<open>Variables of a block\<close>

text \<open>An entry in the map of the defined variables, as block building and SSA construction make it.\<close>

definition define_var :: "nat \<Rightarrow> symbol_ref \<Rightarrow> generator \<Rightarrow> generator option" where
  "define_var b symbol g =
     (case MapInsert (bb_defined_vars (block_at g b)) \<lparr>kv_key = word_of_nat symbol, kv_value = 0\<rparr> of
        None \<Rightarrow> None
      | Some r \<Rightarrow> Some (on_block b (\<lambda>x. x\<lparr>bb_defined_vars := fst r\<rparr>) g))"

end
