(* ===== verification/Dominance.thy ===== *)
theory Dominance
  imports CPrelude
begin

text \<open>
  Dominators of a flow graph, and the invariant under which a map of immediate dominators that is
  improved in reverse postorder ends at the true one.
\<close>

section \<open>Dominators\<close>

text \<open>The nodes that a path from the entry reaches without a node of a set.\<close>

inductive avoiding :: "nat \<Rightarrow> (nat \<Rightarrow> nat \<Rightarrow> bool) \<Rightarrow> nat set \<Rightarrow> nat \<Rightarrow> bool" for e E X where
  start: "e \<notin> X \<Longrightarrow> avoiding e E X e"
| step: "avoiding e E X u \<Longrightarrow> E u v \<Longrightarrow> v \<notin> X \<Longrightarrow> avoiding e E X v"

abbreviation reachable :: "nat \<Rightarrow> (nat \<Rightarrow> nat \<Rightarrow> bool) \<Rightarrow> nat \<Rightarrow> bool" where
  "reachable e E \<equiv> avoiding e E {}"

definition dominates :: "nat \<Rightarrow> (nat \<Rightarrow> nat \<Rightarrow> bool) \<Rightarrow> nat \<Rightarrow> nat \<Rightarrow> bool" where
  "dominates e E d v \<longleftrightarrow> \<not> avoiding e E {d} v"

lemma dominates_self [simp]: "dominates e E v v"
  by (auto simp: dominates_def elim: avoiding.cases)

lemma dominates_entry: "dominates e E d e \<Longrightarrow> d = e"
  by (auto simp: dominates_def intro: avoiding.start)

lemma dominates_pred: "dominates e E d v \<Longrightarrow> E p v \<Longrightarrow> d \<noteq> v \<Longrightarrow> dominates e E d p"
  by (auto simp: dominates_def intro: avoiding.step)

section \<open>The tree of a map of parents\<close>

inductive ancestor :: "(nat \<Rightarrow> nat option) \<Rightarrow> nat \<Rightarrow> nat \<Rightarrow> bool" for par where
  here: "ancestor par v v"
| up: "par v = Some u \<Longrightarrow> ancestor par u d \<Longrightarrow> ancestor par v d"

lemma ancestor_trans: "ancestor par v u \<Longrightarrow> ancestor par u d \<Longrightarrow> ancestor par v d"
  by (induction rule: ancestor.induct) (auto intro: ancestor.up)

lemma ancestor_cases: "ancestor par v d \<Longrightarrow> d = v \<or> (\<exists>u. par v = Some u \<and> ancestor par u d)"
  by (erule ancestor.cases) auto

text \<open>The entry is its own parent; every other parent has a smaller number.\<close>

definition numbered_tree :: "nat \<Rightarrow> nat set \<Rightarrow> (nat \<Rightarrow> nat) \<Rightarrow> (nat \<Rightarrow> nat option) \<Rightarrow> bool" where
  "numbered_tree e V r par \<longleftrightarrow> par e = Some e \<and> inj_on r V \<and> e \<in> V \<and>
     (\<forall>v u. par v = Some u \<longrightarrow> v \<in> V \<and> par u \<noteq> None \<and> (v \<noteq> e \<longrightarrow> r u < r v))"

lemma treeD:
  assumes "numbered_tree e V r par"
  shows "par e = Some e" "inj_on r V" "e \<in> V" "par v = Some u \<Longrightarrow> v \<in> V" "par v = Some u \<Longrightarrow> u \<in> V"
    "par v = Some u \<Longrightarrow> par u \<noteq> None" "par v = Some u \<Longrightarrow> v \<noteq> e \<Longrightarrow> r u < r v"
  using assms unfolding numbered_tree_def by auto

lemma ancestor_entry: "numbered_tree e V r par \<Longrightarrow> ancestor par e d \<longleftrightarrow> d = e"
proof
  assume t: "numbered_tree e V r par"
  have "ancestor par v d \<Longrightarrow> v = e \<Longrightarrow> d = e" for v
    by (induction rule: ancestor.induct) (use treeD(1) [OF t] in auto)
  then show "ancestor par e d \<Longrightarrow> d = e" by simp
qed (auto intro: ancestor.here)

lemma ancestor_le:
  assumes t: "numbered_tree e V r par" and a: "ancestor par v d" and v: "par v \<noteq> None"
  shows "par d \<noteq> None \<and> r d \<le> r v \<and> (d \<noteq> v \<longrightarrow> r d < r v)"
  using a v
proof (induction rule: ancestor.induct)
  case (up v u d)
  have u: "par u \<noteq> None" using treeD(6) [OF t up(1)] .
  show ?case
  proof (cases "v = e")
    case True
    then show ?thesis using up(1,2) treeD(1) [OF t] ancestor_entry [OF t] up.prems by auto
  next
    case False
    then show ?thesis using up.IH [OF u] treeD(7) [OF t up(1)] by auto
  qed
qed simp

lemma ancestor_same_number:
  "numbered_tree e V r par \<Longrightarrow> ancestor par v d \<Longrightarrow> par v \<noteq> None \<Longrightarrow> r d = r v \<Longrightarrow> d = v"
  using ancestor_le by fastforce

lemma ancestor_linear:
  assumes t: "numbered_tree e V r par" and a: "ancestor par v a" and b: "ancestor par v b" and v: "par v \<noteq> None"
    and le: "r a \<le> r b"
  shows "ancestor par b a"
  using b a v le
proof (induction rule: ancestor.induct)
  case (up v u b)
  show ?case
  proof (cases "a = v")
    case True
    have u: "par u \<noteq> None" using treeD(6) [OF t up(1)] .
    show ?thesis
    proof (cases "v = e")
      case True
      then show ?thesis using up \<open>a = v\<close> treeD(1) [OF t] ancestor_entry [OF t] by (auto intro: ancestor.here)
    next
      case False
      then have "r u < r v" using treeD(7) [OF t up(1)] by simp
      moreover have "r b \<le> r u" using ancestor_le [OF t up(2) u] by simp
      ultimately show ?thesis using up.prems \<open>a = v\<close> by simp
    qed
  next
    case False
    then have "ancestor par u a" using ancestor_cases [OF up.prems(1)] up(1) by auto
    then show ?thesis using up.IH up.prems treeD(6) [OF t up(1)] by blast
  qed
qed

section \<open>Changing one parent\<close>

lemma ancestor_step: "par v = Some u \<Longrightarrow> ancestor par v d \<longleftrightarrow> d = v \<or> ancestor par u d"
  by (metis ancestor.here ancestor.up ancestor_cases option.inject)

lemma ancestor_upd_mono:
  assumes a: "ancestor par x d" and x: "\<not> ancestor par x z" and same: "\<And>v. v \<noteq> z \<Longrightarrow> par' v = par v"
  shows "ancestor par' x d"
  using a x
proof (induction rule: ancestor.induct)
  case (up v u d)
  then have "v \<noteq> z" "\<not> ancestor par u z" by (auto intro: ancestor.intros)
  then have "par' v = Some u" "ancestor par' u d" using up same by simp_all
  then show ?case by (rule ancestor.up)
qed (rule ancestor.here)

lemma ancestor_upd_other:
  assumes x: "\<not> ancestor par x z" and same: "\<And>v. v \<noteq> z \<Longrightarrow> par' v = par v"
  shows "ancestor par' x d \<longleftrightarrow> ancestor par x d"
proof
  assume "ancestor par' x d"
  then show "ancestor par x d" using x
  proof (induction rule: ancestor.induct)
    case (up v u d)
    then have "v \<noteq> z" by (auto intro: ancestor.here)
    then have "par v = Some u" using up(1) same by simp
    moreover have "\<not> ancestor par u z" using up.prems calculation by (auto intro: ancestor.up)
    ultimately show ?case using up.IH by (auto intro: ancestor.up)
  qed (rule ancestor.here)
qed (rule ancestor_upd_mono [OF _ x same])

lemma ancestor_upd_self:
  assumes t: "numbered_tree e V r par" and z: "par z \<noteq> None" and m: "\<not> ancestor par m z"
    and same: "\<And>v. v \<noteq> z \<Longrightarrow> par' v = par v" and new: "par' z = Some m"
  shows "ancestor par' z d \<longleftrightarrow> ancestor par z d \<and> r z \<le> r d \<or> ancestor par m d"
proof -
  have "ancestor par z d \<and> r z \<le> r d \<longleftrightarrow> d = z"
    using ancestor_le [OF t _ z, of d] by (auto intro: ancestor.here)
  then show ?thesis using ancestor_upd_other [OF m same] ancestor_step [of par', OF new] by simp
qed

lemma ancestor_upd_below:
  assumes t: "numbered_tree e V r par" and x: "ancestor par x z" "par x \<noteq> None" and m: "\<not> ancestor par m z"
    and same: "\<And>v. v \<noteq> z \<Longrightarrow> par' v = par v" and new: "par' z = Some m"
  shows "ancestor par' x d \<longleftrightarrow> ancestor par x d \<and> r z \<le> r d \<or> ancestor par m d"
  using x m same new
proof (induction rule: ancestor.induct)
  case (here z)
  then show ?case using ancestor_upd_self [OF t, of z m par'] by blast
next
  case (up v u z)
  have u: "par u \<noteq> None" by (rule treeD(6) [OF t up(1)])
  have vz: "ancestor par v z" using up(1,2) by (rule ancestor.up)
  show ?case
  proof (cases "v = z")
    case True
    then show ?thesis using ancestor_upd_self [OF t, of z m par'] up.prems by blast
  next
    case False
    then have "par' v = Some u" using up(1) up.prems(3) by simp
    moreover have "r z \<le> r v" using ancestor_le [OF t vz up.prems(1)] by simp
    ultimately show ?thesis
      using up.IH [OF u up.prems(2-4)] ancestor_step [of par' v u d] ancestor_step [of par v u d, OF up(1)] by auto
  qed
qed


section \<open>Numbering and invariant\<close>

text \<open>
  A numbering of the reachable nodes in which each but the entry has a predecessor with a smaller
  number; a reverse postorder is one.
\<close>

definition numbering :: "nat \<Rightarrow> (nat \<Rightarrow> nat \<Rightarrow> bool) \<Rightarrow> nat set \<Rightarrow> (nat \<Rightarrow> nat) \<Rightarrow> (nat \<Rightarrow> nat list) \<Rightarrow> bool" where
  "numbering e E V r preds \<longleftrightarrow> V = {v. reachable e E v} \<and> inj_on r V \<and> r e = 0 \<and>
     (\<forall>v\<in>V. \<forall>p\<in>set (preds v). E p v) \<and> (\<forall>p\<in>V. \<forall>v. E p v \<longrightarrow> p \<in> set (preds v)) \<and>
     (\<forall>v\<in>V. v \<noteq> e \<longrightarrow> (\<exists>p\<in>set (preds v). p \<in> V \<and> r p < r v))"

lemma numberingD:
  assumes "numbering e E V r preds"
  shows "e \<in> V" "inj_on r V" "r e = 0" "v \<in> V \<longleftrightarrow> reachable e E v" "v \<in> V \<Longrightarrow> p \<in> set (preds v) \<Longrightarrow> E p v"
    "p \<in> V \<Longrightarrow> E p v \<Longrightarrow> p \<in> set (preds v)"
    "v \<in> V \<Longrightarrow> v \<noteq> e \<Longrightarrow> \<exists>p\<in>set (preds v). p \<in> V \<and> r p < r v"
  using assms unfolding numbering_def by (auto intro: avoiding.start)

text \<open>
  The invariant before the node with number \<open>i\<close> is improved: what strictly dominates a node
  dominates its parent; what all predecessors have above them the parent has; and a parent still
  to come in this pass is above every predecessor with a smaller number.
\<close>

definition idom_inv ::
  "nat \<Rightarrow> (nat \<Rightarrow> nat \<Rightarrow> bool) \<Rightarrow> nat set \<Rightarrow> (nat \<Rightarrow> nat) \<Rightarrow> (nat \<Rightarrow> nat list) \<Rightarrow> nat \<Rightarrow> (nat \<Rightarrow> nat option) \<Rightarrow> bool" where
  "idom_inv e E V r preds i par \<longleftrightarrow> numbered_tree e V r par \<and>
     (\<forall>v\<in>V. r v < i \<longrightarrow> par v \<noteq> None) \<and>
     ((\<forall>v\<in>V. par v \<noteq> None) \<or> (\<forall>v. par v \<noteq> None \<longrightarrow> r v < i)) \<and>
     (\<forall>v u d. v \<noteq> e \<longrightarrow> par v = Some u \<longrightarrow> dominates e E d v \<longrightarrow> d \<noteq> v \<longrightarrow> dominates e E d u) \<and>
     (\<forall>v u x. v \<noteq> e \<longrightarrow> par v = Some u \<longrightarrow>
        (\<forall>p\<in>set (preds v). par p \<noteq> None \<longrightarrow> ancestor par p x) \<longrightarrow> ancestor par u x) \<and>
     (\<forall>v u. v \<noteq> e \<longrightarrow> par v = Some u \<longrightarrow> i \<le> r u \<or> r v < i \<longrightarrow>
        (\<forall>q\<in>set (preds v). par q \<noteq> None \<longrightarrow> r q < r v \<longrightarrow> ancestor par q u))"

lemma idom_invD:
  assumes "idom_inv e E V r preds i par"
  shows "numbered_tree e V r par" "v \<in> V \<Longrightarrow> r v < i \<Longrightarrow> par v \<noteq> None"
    "(\<forall>v\<in>V. par v \<noteq> None) \<or> (\<forall>v. par v \<noteq> None \<longrightarrow> r v < i)"
    "v \<noteq> e \<Longrightarrow> par v = Some u \<Longrightarrow> dominates e E d v \<Longrightarrow> d \<noteq> v \<Longrightarrow> dominates e E d u"
    "v \<noteq> e \<Longrightarrow> par v = Some u \<Longrightarrow> (\<And>p. p \<in> set (preds v) \<Longrightarrow> par p \<noteq> None \<Longrightarrow> ancestor par p x) \<Longrightarrow> ancestor par u x"
    "v \<noteq> e \<Longrightarrow> par v = Some u \<Longrightarrow> i \<le> r u \<or> r v < i \<Longrightarrow> q \<in> set (preds v) \<Longrightarrow> par q \<noteq> None \<Longrightarrow> r q < r v \<Longrightarrow>
       ancestor par q u"
  using assms unfolding idom_inv_def by blast+

lemma dominators_above:
  assumes inv: "idom_inv e E V r preds i par" and v: "par v \<noteq> None" and d: "dominates e E d v"
  shows "ancestor par v d"
  using v d
proof (induction "r v" arbitrary: v rule: less_induct)
  case less
  note t = idom_invD(1) [OF inv]
  obtain u where u: "par v = Some u" using less.prems(1) by auto
  show ?case
  proof (cases "v = e \<or> d = v")
    case True
    then show ?thesis using dominates_entry less.prems(2) by (auto intro: ancestor.here)
  next
    case False
    then have "r u < r v" "par u \<noteq> None" "dominates e E d u"
      using treeD(6,7) [OF t u] idom_invD(4) [OF inv _ u less.prems(2)] by auto
    then show ?thesis using less.hyps u by (auto intro: ancestor.up)
  qed
qed

lemma dominators_along:
  assumes inv: "idom_inv e E V r preds i par" and a: "ancestor par p m" and p: "par p \<noteq> None"
    and d: "dominates e E d p" and le: "r d \<le> r m"
  shows "dominates e E d m"
  using a p d le
proof (induction rule: ancestor.induct)
  case (up v u m)
  note t = idom_invD(1) [OF inv] and u = treeD(6) [OF idom_invD(1) [OF inv] up(1)]
  show ?case
  proof (cases "v = e")
    case True
    then have "u = e" "m = e" using up(1,2) treeD(1) [OF t] ancestor_entry [OF t] by auto
    then show ?thesis using up.prems(2) True by simp
  next
    case False
    then have "r u < r v" using treeD(7) [OF t up(1)] by simp
    moreover have "r m \<le> r u" using ancestor_le [OF t up(2) u] by simp
    ultimately have "d \<noteq> v" using up.prems(3) by auto
    then show ?thesis using up.IH [OF u] idom_invD(4) [OF inv False up(1) up.prems(2)] up.prems(3) by simp
  qed
qed

text \<open>What a node's new parent is: the lowest node that all processed predecessors have above them.\<close>

definition meets :: "(nat \<Rightarrow> nat option) \<Rightarrow> nat list \<Rightarrow> nat \<Rightarrow> bool" where
  "meets par ps m \<longleftrightarrow> (\<forall>x. ancestor par m x \<longleftrightarrow> (\<forall>p\<in>set ps. par p \<noteq> None \<longrightarrow> ancestor par p x))"

lemma meets_below: "meets par ps m \<Longrightarrow> p \<in> set ps \<Longrightarrow> par p \<noteq> None \<Longrightarrow> ancestor par p m"
  unfolding meets_def by (metis ancestor.here)


section \<open>One improvement\<close>

definition improvement where
  "improvement e E V r preds i par z m par' \<longleftrightarrow> numbering e E V r preds \<and> idom_inv e E V r preds i par \<and>
     z \<in> V \<and> r z = i \<and> z \<noteq> e \<and> meets par (preds z) m \<and> (\<forall>v. v \<noteq> z \<longrightarrow> par' v = par v) \<and> par' z = Some m"

lemma improvementD:
  assumes "improvement e E V r preds i par z m par'"
  shows "numbering e E V r preds" "idom_inv e E V r preds i par" "numbered_tree e V r par" "z \<in> V" "r z = i" "z \<noteq> e"
    "meets par (preds z) m" "v \<noteq> z \<Longrightarrow> par' v = par v" "par' z = Some m"
  using assms unfolding improvement_def idom_inv_def by blast+

text \<open>Every node still to come or done has a processed predecessor with a smaller number.\<close>

lemma processed_pred:
  assumes "numbering e E V r preds" "idom_inv e E V r preds i par" "v \<in> V" "v \<noteq> e" "r v \<le> i \<or> par v \<noteq> None"
  obtains q where "q \<in> set (preds v)" "q \<in> V" "par q \<noteq> None" "r q < r v"
proof -
  obtain q where q: "q \<in> set (preds v)" "q \<in> V" "r q < r v" using numberingD(7) [OF assms(1,3,4)] by blast
  have "par q \<noteq> None"
    using idom_invD(2) [OF assms(2) q(2)] idom_invD(3) [OF assms(2)] q assms(5) by (metis order_less_le_trans order_less_trans)
  then show thesis using that q by blast
qed

lemma improvement_pred:
  assumes "improvement e E V r preds i par z m par'"
  obtains q where "q \<in> set (preds z)" "par q \<noteq> None" "r q < r z"
proof -
  note D = improvementD [OF assms]
  have "r z \<le> i \<or> par z \<noteq> None" using D(5) by simp
  then show thesis using processed_pred [OF D(1,2,4,6)] that by blast
qed

lemma new_parent:
  assumes imp: "improvement e E V r preds i par z m par'"
  shows "par m \<noteq> None" "r m < r z" "m \<in> V" "\<not> ancestor par m z"
proof -
  note D = improvementD [OF imp]
  obtain q where q: "q \<in> set (preds z)" "par q \<noteq> None" "r q < r z"
    by (rule improvement_pred [OF imp])
  have "ancestor par q m" using meets_below [OF D(7) q(1,2)] .
  then have "par m \<noteq> None \<and> r m \<le> r q" using ancestor_le [OF D(3) _ q(2)] by blast
  then show m: "par m \<noteq> None" "r m < r z" using q(3) by auto
  then show "m \<in> V" using treeD(4) [OF D(3)] by blast
  show "\<not> ancestor par m z" using ancestor_le [OF D(3) _ m(1), of z] m(2) by auto
qed

lemma old_parent_below:
  assumes imp: "improvement e E V r preds i par z m par'" and u: "par z = Some u"
  shows "ancestor par u m" "r m \<le> r u" "u \<noteq> m \<Longrightarrow> r m < r u"
proof -
  note D = improvementD [OF imp]
  show a: "ancestor par u m" using idom_invD(5) [OF D(2,6) u] meets_below [OF D(7)] by blast
  show "r m \<le> r u" "u \<noteq> m \<Longrightarrow> r m < r u" using ancestor_le [OF D(3) a treeD(6) [OF D(3) u]] by auto
qed

lemma improved_other:
  assumes imp: "improvement e E V r preds i par z m par'"
  shows "\<not> ancestor par x z \<Longrightarrow> ancestor par' x d \<longleftrightarrow> ancestor par x d"
    and "ancestor par x z \<Longrightarrow> par x \<noteq> None \<Longrightarrow>
      ancestor par' x d \<longleftrightarrow> ancestor par x d \<and> r z \<le> r d \<or> ancestor par m d"
  using ancestor_upd_other [of par x z par'] improvementD(8,9) [OF imp]
    ancestor_upd_below [OF improvementD(3) [OF imp] _ _ new_parent(4) [OF imp]]
  by blast+

lemma unprocessed_not_ancestor:
  assumes "numbered_tree e V r par" "par x \<noteq> None" "par z = None"
  shows "\<not> ancestor par x z"
  using ancestor_le [OF assms(1) _ assms(2)] assms(3) by blast

lemma ancestor_smaller: "numbered_tree e V r par \<Longrightarrow> par x \<noteq> None \<Longrightarrow> r x < r z \<Longrightarrow> \<not> ancestor par x z"
  using ancestor_le by fastforce

lemma improved_tree:
  assumes imp: "improvement e E V r preds i par z m par'"
  shows "numbered_tree e V r par'"
proof -
  note D = improvementD [OF imp] and N = new_parent [OF imp]
  have e: "par' e = Some e" using D(6) D(8) [of e] treeD(1) [OF D(3)] by simp
  have "v \<in> V \<and> par' u \<noteq> None \<and> (v \<noteq> e \<longrightarrow> r u < r v)" if "par' v = Some u" for v u
  proof (cases "v = z")
    case True
    then have "u = m" using that D(9) by simp
    moreover have "m \<noteq> z" using N(2) by auto
    ultimately show ?thesis using True N D(4) D(8) [of m] by simp
  next
    case False
    then have "par v = Some u" using that D(8) by simp
    then show ?thesis using treeD(4,6,7) [OF D(3)] D(8,9) by (cases "u = z") auto
  qed
  then show ?thesis unfolding numbered_tree_def using e treeD(2,3) [OF D(3)] by blast
qed

text \<open>The conjuncts of the invariant.\<close>

lemma improved_dominators:
  assumes imp: "improvement e E V r preds i par z m par'"
    and v: "v \<noteq> e" "par' v = Some u" and d: "dominates e E d v" "d \<noteq> v"
  shows "dominates e E d u"
proof (cases "v = z")
  case False
  then show ?thesis using idom_invD(4) [OF improvementD(2) [OF imp] v(1)] v(2) d improvementD(8) [OF imp] by simp
next
  case True
  note D = improvementD [OF imp]
  have u: "u = m" using v True D(9) by simp
  have all: "dominates e E d p" if "p \<in> set (preds z)" for p
    using dominates_pred [OF d(1)] numberingD(5) [OF D(1,4) that] d(2) True by simp
  have "ancestor par p d" if "p \<in> set (preds z)" "par p \<noteq> None" for p
    using dominators_above [OF D(2) that(2) all [OF that(1)]] .
  then have "ancestor par m d" using D(7) unfolding meets_def by blast
  then have "r d \<le> r m" using ancestor_le [OF D(3) _ new_parent(1) [OF imp]] by blast
  moreover obtain q where q: "q \<in> set (preds z)" "par q \<noteq> None" by (rule improvement_pred [OF imp])
  ultimately show ?thesis
    unfolding u by (intro dominators_along [OF D(2) meets_below [OF D(7) q] q(2) all [OF q(1)]])
qed


lemma improved_shrinks:
  assumes imp: "improvement e E V r preds i par z m par'" and z: "par z = Some u" and x: "par x \<noteq> None"
    and a: "ancestor par' x d"
  shows "ancestor par x d"
proof (cases "ancestor par x z")
  case False
  then show ?thesis using improved_other(1) [OF imp] a by blast
next
  case True
  have "ancestor par z d" if "ancestor par m d"
    using z ancestor_trans [OF old_parent_below(1) [OF imp z] that] by (rule ancestor.up)
  then have "ancestor par m d \<Longrightarrow> ancestor par x d" using ancestor_trans [OF True] by blast
  then show ?thesis using improved_other(2) [OF imp True x] a by blast
qed

lemma improved_meet_self:
  assumes imp: "improvement e E V r preds i par z m par'"
    and all: "\<And>p. p \<in> set (preds z) \<Longrightarrow> par' p \<noteq> None \<Longrightarrow> ancestor par' p x"
  shows "ancestor par' m x"
proof -
  note D = improvementD [OF imp]
  have "ancestor par p x \<or> ancestor par m x" if p: "p \<in> set (preds z)" "par p \<noteq> None" for p
  proof -
    have "par' p \<noteq> None" using p(2) D(8) [of p] D(9) by (cases "p = z") simp_all
    then have "ancestor par' p x" using all p(1) by blast
    then show ?thesis using improved_other [OF imp, of p x] p(2) by blast
  qed
  then have "ancestor par m x" using D(7) unfolding meets_def by blast
  then show ?thesis using improved_other(1) [OF imp new_parent(4) [OF imp]] by blast
qed

lemma improved_meet:
  assumes imp: "improvement e E V r preds i par z m par'"
    and v: "v \<noteq> e" "v \<noteq> z" "par v = Some w"
    and all: "\<And>p. p \<in> set (preds v) \<Longrightarrow> par' p \<noteq> None \<Longrightarrow> ancestor par' p x"
  shows "ancestor par' w x"
proof -
  note D = improvementD [OF imp]
  have vV: "v \<in> V" "par v \<noteq> None" and w: "par w \<noteq> None" using treeD(4,6) [OF D(3) v(3)] v(3) by auto
  have all': "ancestor par' p x" if "p \<in> set (preds v)" "par p \<noteq> None" for p
  proof -
    have "par' p \<noteq> None" using that(2) D(8) [of p] D(9) by (cases "p = z") simp_all
    then show ?thesis using all that(1) by blast
  qed
  show ?thesis
  proof (cases "par z = None")
    case True
    have "ancestor par p x" if "p \<in> set (preds v)" "par p \<noteq> None" for p
      using all' [OF that] improved_other(1) [OF imp unprocessed_not_ancestor [OF D(3) that(2) True]] by blast
    then have "ancestor par w x" using idom_invD(5) [OF D(2) v(1,3)] by blast
    then show ?thesis using improved_other(1) [OF imp unprocessed_not_ancestor [OF D(3) w True]] by blast
  next
    case False
    then obtain u where u: "par z = Some u" by auto
    have wx: "ancestor par w x"
      using idom_invD(5) [OF D(2) v(1,3)] improved_shrinks [OF imp u] all' by blast
    show ?thesis
    proof (cases "ancestor par w z")
      case False
      then show ?thesis using improved_other(1) [OF imp] wx by blast
    next
      case True
      then have "i \<le> r w" using ancestor_le [OF D(3) True w] D(5) by simp
      obtain q where q: "q \<in> set (preds v)" "par q \<noteq> None" "r q < r v"
        using processed_pred [OF D(1,2) vV(1) v(1)] vV(2) by metis
      have "ancestor par q w" using idom_invD(6) [OF D(2) v(1,3) _ q] \<open>i \<le> r w\<close> by blast
      then have "ancestor par q z" using ancestor_trans True by blast
      then have "r z \<le> r x \<or> ancestor par m x" using all' [OF q(1,2)] improved_other(2) [OF imp _ q(2)] by blast
      then show ?thesis using improved_other(2) [OF imp True w] wx by blast
    qed
  qed
qed

lemma improved_forward:
  assumes imp: "improvement e E V r preds i par z m par'"
    and v: "v \<noteq> e" "par' v = Some w" "Suc i \<le> r w \<or> r v < Suc i"
    and q: "q \<in> set (preds v)" "par' q \<noteq> None" "r q < r v"
  shows "ancestor par' q w"
proof -
  note D = improvementD [OF imp] and N = new_parent [OF imp]
  show ?thesis
  proof (cases "v = z")
    case True
    then have "q \<noteq> z" using q(3) by auto
    then have pq: "par q \<noteq> None" "q \<in> set (preds z)" using q D(8) True by auto
    have "ancestor par q m" using meets_below [OF D(7) pq(2,1)] .
    then show ?thesis
      using improved_other(1) [OF imp ancestor_smaller [OF D(3) pq(1)]] q(3) True v(2) D(9) by auto
  next
    case False
    then have w: "par v = Some w" using v(2) D(8) by simp
    have vV: "v \<in> V" using treeD(4) [OF D(3) w] .
    have "r v \<noteq> r z" using False vV D(4) treeD(2) [OF D(3)] by (auto dest: inj_onD)
    have rw: "r w < r v" using treeD(7) [OF D(3) w v(1)] .
    have pq: "par q \<noteq> None"
    proof (cases "q = z")
      case True
      then have "i < r v" using q(3) D(5) by simp
      then show ?thesis using idom_invD(3) [OF D(2)] w True D(4) by (metis option.discI order_less_asym)
    qed (use q(2) D(8) in simp)
    have "i \<le> r w \<or> r v < i" using v(3) \<open>r v \<noteq> r z\<close> D(5) by auto
    then have a: "ancestor par q w" using idom_invD(6) [OF D(2) v(1) w _ q(1) pq q(3)] by blast
    show ?thesis
    proof (cases "ancestor par q z")
      case True
      then have "r z \<le> r q" using ancestor_le [OF D(3) True pq] by simp
      then have "r z \<le> r w" using v(3) q(3) D(5) by auto
      then show ?thesis using improved_other(2) [OF imp True pq] a by blast
    qed (use improved_other(1) [OF imp] a in blast)
  qed
qed

lemma improved_inv:
  assumes imp: "improvement e E V r preds i par z m par'"
  shows "idom_inv e E V r preds (Suc i) par'"
proof -
  note D = improvementD [OF imp]
  have keep: "par v \<noteq> None \<Longrightarrow> par' v \<noteq> None" for v using D(8) [of v] D(9) by (cases "v = z") auto
  have early: "par' v \<noteq> None" if "v \<in> V" "r v < Suc i" for v
  proof (cases "v = z")
    case False
    then have "r v \<noteq> i" using that(1) D(4,5) treeD(2) [OF D(3)] by (auto dest: inj_onD)
    then show ?thesis using idom_invD(2) [OF D(2) that(1)] that(2) keep by simp
  qed (simp add: D(9))
  have sofar: "(\<forall>v\<in>V. par' v \<noteq> None) \<or> (\<forall>v. par' v \<noteq> None \<longrightarrow> r v < Suc i)"
  proof (cases "\<forall>v\<in>V. par v \<noteq> None")
    case True
    then show ?thesis using keep by blast
  next
    case False
    then have "r v < i" if "par v \<noteq> None" for v using idom_invD(3) [OF D(2)] that by blast
    then have "r v < Suc i" if "par' v \<noteq> None" for v
      using that D(5) D(8) [of v] by (cases "v = z") (auto simp: less_Suc_eq)
    then show ?thesis by blast
  qed
  have meet: "ancestor par' u x"
    if "v \<noteq> e" "par' v = Some u" "\<forall>p\<in>set (preds v). par' p \<noteq> None \<longrightarrow> ancestor par' p x" for v u x
    using improved_meet_self [OF imp] improved_meet [OF imp that(1)] that(2,3) D(8) [of v] D(9) by (cases "v = z") auto
  show ?thesis
    unfolding idom_inv_def
    using improved_tree [OF imp] early sofar improved_dominators [OF imp] meet improved_forward [OF imp] by blast
qed


section \<open>Passes\<close>

definition start_parents :: "nat \<Rightarrow> nat \<Rightarrow> nat option" where
  "start_parents e v = (if v = e then Some e else None)"

lemma inv_start:
  assumes n: "numbering e E V r preds"
  shows "idom_inv e E V r preds 1 (start_parents e)"
proof -
  note N = numberingD [OF n]
  have only: "v = e \<and> u = e" if "start_parents e v = Some u" for v u
    using that by (simp add: start_parents_def split: if_splits)
  have e: "start_parents e e = Some e" by (simp add: start_parents_def)
  have "numbered_tree e V r (start_parents e)"
    unfolding numbered_tree_def using N(1,2) e only by blast
  moreover have "v = e" if "v \<in> V" "r v < 1" for v using that N(1,3) inj_onD [OF N(2), of v e] by simp
  then have "\<forall>v\<in>V. r v < 1 \<longrightarrow> start_parents e v \<noteq> None" using e by blast
  moreover have "\<forall>v. start_parents e v \<noteq> None \<longrightarrow> r v < 1" using only N(3) by fastforce
  ultimately show ?thesis unfolding idom_inv_def using only by blast
qed

lemma inv_next:
  assumes inv: "idom_inv e E V r preds i par" and all: "\<And>v. v \<in> V \<Longrightarrow> r v < i"
  shows "idom_inv e E V r preds 1 par"
proof -
  have p: "\<forall>v\<in>V. par v \<noteq> None" using idom_invD(2) [OF inv] all by blast
  have "r v < i" if "par v = Some u" for v u using treeD(4) [OF idom_invD(1) [OF inv] that] all by blast
  then show ?thesis
    using inv p unfolding idom_inv_def by blast
qed

lemma fixed_point_exact:
  assumes n: "numbering e E V r preds" and inv: "idom_inv e E V r preds i par"
    and p: "\<And>v. v \<in> V \<Longrightarrow> v \<noteq> e \<Longrightarrow> \<exists>m. par v = Some m \<and> meets par (preds v) m"
    and v: "v \<in> V"
  shows "ancestor par v d \<longleftrightarrow> dominates e E d v"
proof
  note N = numberingD [OF n] and t = idom_invD(1) [OF inv]
  have processed: "par x \<noteq> None" if "x \<in> V" for x using p [OF that] treeD(1) [OF t] by (cases "x = e") auto
  show "dominates e E d v \<Longrightarrow> ancestor par v d" using dominators_above [OF inv processed [OF v]] .
  have "avoiding e E {d} x \<Longrightarrow> \<not> ancestor par x d" for x
  proof (induction rule: avoiding.induct)
    case start
    then show ?case using ancestor_entry [OF t] by auto
  next
    case (step x y)
    have "avoiding e E {} x'" if "avoiding e E {d} x'" for x'
      using that by induction (auto intro: avoiding.intros)
    then have x: "x \<in> V" "y \<in> V" using step(1,2) N(4) by (auto intro: avoiding.step)
    show ?case
    proof (cases "y = e")
      case True
      then show ?thesis using ancestor_entry [OF t] step(3) by auto
    next
      case False
      then obtain m where m: "par y = Some m" "meets par (preds y) m" using p x(2) by blast
      have "\<not> ancestor par m d"
        using m(2) step.IH N(6) [OF x(1) step(2)] processed [OF x(1)] unfolding meets_def by blast
      then show ?thesis using ancestor_step [of par, OF m(1)] step(3) by simp
    qed
  qed
  then show "ancestor par v d \<Longrightarrow> dominates e E d v" by (auto simp: dominates_def)
qed

end
