(* ===== verification/CfgPostorder.thy ===== *)
theory CfgPostorder
  imports Cfg Dominance CBitSetSpec
begin

text \<open>
  The depth-first search of \<open>ComputeReversePostorder\<close>: it ends, visits exactly the blocks that can
  be reached, and numbers them so that every block but the entry has a predecessor with a smaller
  number.
\<close>

section \<open>Graphs\<close>

definition flow_edge :: "generator \<Rightarrow> nat \<Rightarrow> nat \<Rightarrow> bool" where
  "flow_edge g u v \<longleftrightarrow> u < num_blocks g \<and> v \<in> set (bb_out_edges (block_at g u))"

text \<open>
  Blocks know their index, edges lead to blocks, both ends of an edge record it, and the sets of a
  block are well formed.
\<close>

definition flow_ok :: "generator \<Rightarrow> bool" where
  "flow_ok g \<longleftrightarrow> gen_entry_block g < num_blocks g \<and>
     (\<forall>u < num_blocks g. bb_id (block_at g u) = u \<and>
       bs_ok (bb_dominators (block_at g u)) \<and> bs_ok (bb_dominance_frontier (block_at g u)) \<and>
       (\<forall>v \<in> set (bb_out_edges (block_at g u)). v < num_blocks g \<and> u \<in> set (bb_in_edges (block_at g v))) \<and>
       (\<forall>v \<in> set (bb_in_edges (block_at g u)). v < num_blocks g \<and> u \<in> set (bb_out_edges (block_at g v))))"

lemma flow_okI:
  assumes "gen_entry_block g < num_blocks g"
    "\<And>u. u < num_blocks g \<Longrightarrow> bb_id (block_at g u) = u \<and> bs_ok (bb_dominators (block_at g u)) \<and>
       bs_ok (bb_dominance_frontier (block_at g u))"
    "\<And>u v. u < num_blocks g \<Longrightarrow> v \<in> set (bb_out_edges (block_at g u)) \<Longrightarrow> v < num_blocks g \<and> u \<in> set (bb_in_edges (block_at g v))"
    "\<And>u v. u < num_blocks g \<Longrightarrow> v \<in> set (bb_in_edges (block_at g u)) \<Longrightarrow> v < num_blocks g \<and> u \<in> set (bb_out_edges (block_at g v))"
  shows "flow_ok g"
  unfolding flow_ok_def using assms by blast

lemma flow_okD:
  assumes "flow_ok g"
  shows "gen_entry_block g < num_blocks g" "u < num_blocks g \<Longrightarrow> bb_id (block_at g u) = u"
    "u < num_blocks g \<Longrightarrow> bs_ok (bb_dominators (block_at g u))"
    "u < num_blocks g \<Longrightarrow> bs_ok (bb_dominance_frontier (block_at g u))"
    "flow_edge g u v \<Longrightarrow> v < num_blocks g" "flow_edge g u v \<Longrightarrow> u < num_blocks g"
    "flow_edge g u v \<Longrightarrow> u \<in> set (bb_in_edges (block_at g v))"
    "v < num_blocks g \<Longrightarrow> u \<in> set (bb_in_edges (block_at g v)) \<Longrightarrow> flow_edge g u v"
proof -
  note all = conjunct2 [OF assms [unfolded flow_ok_def], rule_format]
  show "gen_entry_block g < num_blocks g" using assms unfolding flow_ok_def by (rule conjunct1)
  show "bb_id (block_at g u) = u" "bs_ok (bb_dominators (block_at g u))" "bs_ok (bb_dominance_frontier (block_at g u))"
    if "u < num_blocks g" using all [OF that] by (simp_all only: simp_thms)
  show "flow_edge g u v \<Longrightarrow> u < num_blocks g" by (simp add: flow_edge_def)
  show "v < num_blocks g" "u \<in> set (bb_in_edges (block_at g v))" if e: "flow_edge g u v"
    using all [of u] e unfolding flow_edge_def by metis+
  show "flow_edge g u v" if "v < num_blocks g" "u \<in> set (bb_in_edges (block_at g v))"
    using all [OF that(1)] that(2) unfolding flow_edge_def by metis
qed

abbreviation flow_reachable :: "generator \<Rightarrow> nat \<Rightarrow> bool" where
  "flow_reachable g \<equiv> reachable (gen_entry_block g) (flow_edge g)"

lemma reachable_in_range:
  assumes "flow_ok g" "flow_reachable g v"
  shows "v < num_blocks g"
  using assms(2) by cases (use flow_okD(1,5) [OF assms(1)] in blast)+

section \<open>The search\<close>

lemma push_successors_eq:
  "push_successors r succs stack = map (\<lambda>s. s * 2) (filter (\<lambda>s. \<not> BitSetContains r s) succs) @ stack"
  unfolding push_successors_def by (induction succs) simp_all

definition open_blocks :: "nat list \<Rightarrow> nat list" where
  "open_blocks stack = map (\<lambda>i. i div 2) (filter odd stack)"

lemma open_blocks_simps [simp]:
  "open_blocks [] = []" "open_blocks (i # is) = (if odd i then (i div 2) # open_blocks is else open_blocks is)"
  "open_blocks (is @ js) = open_blocks is @ open_blocks js" "open_blocks (map (\<lambda>s. s * 2) ss) = []"
  by (simp_all add: open_blocks_def filter_map o_def)

lemma open_blocks_iff: "v \<in> set (open_blocks stack) \<longleftrightarrow> v * 2 + 1 \<in> set stack"
proof
  assume "v \<in> set (open_blocks stack)"
  then obtain i where i: "i \<in> set stack" "odd i" "v = i div 2" by (auto simp: open_blocks_def)
  then have "v * 2 + 1 = i" by presburger
  then show "v * 2 + 1 \<in> set stack" using i(1) by simp
next
  assume "v * 2 + 1 \<in> set stack"
  then have "v * 2 + 1 \<in> set (filter odd stack)" by simp
  then have "(v * 2 + 1) div 2 \<in> set (open_blocks stack)" unfolding open_blocks_def set_map by (rule imageI)
  then show "v \<in> set (open_blocks stack)" by simp
qed

text \<open>Each item but the entry has a predecessor whose successors are being visited below it.\<close>

fun parented :: "generator \<Rightarrow> nat list \<Rightarrow> bool" where
  "parented g [] = True"
| "parented g (i # is) =
     ((i div 2 = gen_entry_block g \<or> (\<exists>q. flow_edge g q (i div 2) \<and> q \<in> set (open_blocks is))) \<and> parented g is)"

definition search_inv :: "generator \<Rightarrow> nat list \<Rightarrow> nat list \<Rightarrow> bitset \<Rightarrow> bool" where
  "search_inv g stack post r \<longleftrightarrow> bs_ok r \<and>
     (\<forall>i\<in>set stack. flow_reachable g (i div 2)) \<and>
     distinct (post @ open_blocks stack) \<and> set post \<union> set (open_blocks stack) = bs_set r \<and>
     (\<forall>u\<in>bs_set r. \<forall>v. flow_edge g u v \<longrightarrow> v \<in> bs_set r \<or> v * 2 \<in> set stack) \<and>
     parented g stack \<and>
     (\<forall>a v b. post = a @ v # b \<longrightarrow> v = gen_entry_block g \<or>
        (\<exists>q. flow_edge g q v \<and> (q \<in> set b \<or> q \<in> set (open_blocks stack)))) \<and>
     (bs_set r = {} \<and> stack = [gen_entry_block g * 2] \<or>
      stack \<noteq> [] \<and> last stack = gen_entry_block g * 2 + 1 \<or>
      stack = [] \<and> post \<noteq> [] \<and> last post = gen_entry_block g) \<and>
     (\<forall>v\<in>bs_set r. flow_reachable g v)"

lemma search_start: "search_inv g [gen_entry_block g * 2] [] BitSetInit"
  by (auto simp: search_inv_def intro: avoiding.start)

text \<open>The three moves keep the invariant.\<close>

lemma search_close:
  assumes inv: "search_inv g (i # rest) post r" and odd: "odd i"
  shows "search_inv g rest (post @ [i div 2]) r"
proof -
  let ?v = "i div 2"
  have p: "?v = gen_entry_block g \<or> (\<exists>q. flow_edge g q ?v \<and> q \<in> set (open_blocks rest))" "parented g rest"
    using inv by (simp_all add: search_inv_def)
  have old: "v = gen_entry_block g \<or> (\<exists>q. flow_edge g q v \<and> (q \<in> set b \<or> q \<in> set (open_blocks (i # rest))))"
    if "post = a @ v # b" for a v b using inv that unfolding search_inv_def by blast
  have "v = gen_entry_block g \<or> (\<exists>q. flow_edge g q v \<and> (q \<in> set b \<or> q \<in> set (open_blocks rest)))"
    if "post @ [?v] = a @ v # b" for a v b
  proof (cases b rule: rev_cases)
    case Nil
    then show ?thesis using that p(1) by auto
  next
    case (snoc b' x)
    then have "x = ?v" "post = a @ v # b'" using that by auto
    then show ?thesis using old [of a v b'] snoc odd by auto
  qed
  moreover have "rest = [] \<longrightarrow> ?v = gen_entry_block g" using inv odd by (auto simp: search_inv_def)
  moreover have "v * 2 \<noteq> i" for v using odd by auto
  ultimately show ?thesis
    using inv odd p(2) unfolding search_inv_def by (auto split: if_splits)
qed

lemma search_skip:
  assumes inv: "search_inv g (i # rest) post r" and even: "even i" and seen: "i div 2 \<in> bs_set r"
  shows "search_inv g rest post r"
proof -
  have "v \<in> bs_set r" if "v * 2 = i" for v using seen that by auto
  then show ?thesis using inv even seen unfolding search_inv_def by (auto split: if_splits)
qed


lemma parented_successors:
  "parented g below \<Longrightarrow> v \<in> set (open_blocks below) \<Longrightarrow> (\<And>s. s \<in> set ss \<Longrightarrow> flow_edge g v s) \<Longrightarrow>
    parented g (map (\<lambda>s. s * 2) ss @ below)"
  by (induction ss) auto

lemma search_expand:
  assumes ok: "flow_ok g" and inv: "search_inv g (i # rest) post r" and even: "even i" and fresh: "i div 2 \<notin> bs_set r"
  shows "search_inv g (push_successors (BitSetInsert r (i div 2)) (bb_out_edges (block_at g (i div 2))) ((i div 2 * 2 + 1) # rest))
    post (BitSetInsert r (i div 2))"
proof -
  let ?v = "i div 2" and ?e = "gen_entry_block g"
  let ?r = "BitSetInsert r ?v" and ?below = "(?v * 2 + 1) # rest"
  let ?new = "filter (\<lambda>s. \<not> BitSetContains ?r s) (bb_out_edges (block_at g ?v))"
  have r: "bs_ok r" "bs_ok ?r" "bs_set ?r = insert ?v (bs_set r)" using inv by (auto simp: search_inv_def BitSetInsert_spec)
  have vr: "flow_reachable g ?v" "?v < num_blocks g" using inv reachable_in_range [OF ok] by (auto simp: search_inv_def)
  have edges: "flow_edge g ?v s" if "s \<in> set ?new" for s using that vr(2) by (auto simp: flow_edge_def)
  have "flow_reachable g (k div 2)" if "k \<in> set (map (\<lambda>s. s * 2) ?new @ ?below)" for k
  proof -
    have "k div 2 \<in> set ?new \<or> k div 2 = ?v \<or> k \<in> set rest" using that by auto
    then show ?thesis using inv vr(1) edges unfolding search_inv_def by (auto intro: avoiding.step)
  qed
  moreover have "w \<in> bs_set ?r \<or> w * 2 \<in> set (map (\<lambda>s. s * 2) ?new @ ?below)" if "u \<in> bs_set ?r" "flow_edge g u w" for u w
  proof (cases "u = ?v")
    case True
    then have "w \<in> set (bb_out_edges (block_at g ?v))" using that(2) by (simp add: flow_edge_def)
    then show ?thesis by (cases "w \<in> bs_set ?r") (auto simp: BitSetContains_iff)
  next
    case False
    then have "w \<in> bs_set r \<or> w * 2 = i \<or> w * 2 \<in> set rest" using that r(3) inv by (auto simp: search_inv_def)
    moreover have "w = ?v" if "w * 2 = i" using that by auto
    ultimately show ?thesis using r(3) by auto
  qed
  moreover have "parented g (map (\<lambda>s. s * 2) ?new @ ?below)"
    by (rule parented_successors [of g _ ?v]) (use inv edges in \<open>auto simp: search_inv_def\<close>)
  moreover have "rest = [] \<longrightarrow> ?v = ?e" "rest \<noteq> [] \<longrightarrow> last rest = ?e * 2 + 1"
    using inv even by (auto simp: search_inv_def)
  then have "last (map (\<lambda>s. s * 2) ?new @ ?below) = ?e * 2 + 1" by (cases rest) auto
  moreover have "v = ?e \<or> (\<exists>q. flow_edge g q v \<and> (q \<in> set b \<or> q \<in> set (open_blocks (map (\<lambda>s. s * 2) ?new @ ?below))))"
    if "post = a @ v # b" for a v b
  proof -
    have "v = ?e \<or> (\<exists>q. flow_edge g q v \<and> (q \<in> set b \<or> q \<in> set (open_blocks (i # rest))))"
      using inv that unfolding search_inv_def by blast
    then show ?thesis using even by auto
  qed
  moreover have "?v \<notin> set post \<union> set (open_blocks rest)" "distinct (post @ open_blocks rest)"
    "set post \<union> set (open_blocks rest) = bs_set r" using inv even fresh by (auto simp: search_inv_def)
  then have "distinct (post @ open_blocks (map (\<lambda>s. s * 2) ?new @ ?below))"
    "set post \<union> set (open_blocks (map (\<lambda>s. s * 2) ?new @ ?below)) = bs_set ?r" using r(3) by auto
  moreover have "\<forall>w\<in>bs_set ?r. flow_reachable g w" using inv vr(1) r(3) by (auto simp: search_inv_def)
  ultimately show ?thesis
    unfolding search_inv_def push_successors_eq using r(2) by blast
qed

lemma postorder_loop_ends:
  assumes ok: "flow_ok g" and inv: "search_inv g stack post r"
  shows "\<exists>post' r'. postorder_loop g stack post r = Some (post', r') \<and> search_inv g [] post' r'"
  using inv
proof (induction "(card ({..<num_blocks g} - bs_set r), length stack)" arbitrary: stack post r
    rule: wf_induct_rule [OF wf_lex_prod [OF wf_less wf_less]])
  case 1
  show ?case
  proof (cases stack)
    case Nil
    then show ?thesis using 1(2) by (subst postorder_loop.simps) simp
  next
    case (Cons i rest)
    note inv = 1(2) [unfolded Cons]
    have dec: "((card ({..<num_blocks g} - bs_set r), length rest), (card ({..<num_blocks g} - bs_set r), length stack))
        \<in> {(x, y). x < y} <*lex*> {(x, y). x < y}" using Cons by simp
    consider "odd i" | "even i" "i div 2 \<in> bs_set r" | "even i" "i div 2 \<notin> bs_set r" by blast
    then show ?thesis
    proof cases
      case odd: 1
      then have "postorder_loop g stack post r = postorder_loop g rest (post @ [i div 2]) r"
        using Cons by (subst postorder_loop.simps) simp
      then show ?thesis using 1(1) [OF dec search_close [OF inv odd]] by simp
    next
      case seen: 2
      then have "postorder_loop g stack post r = postorder_loop g rest post r"
        using Cons by (subst postorder_loop.simps) (simp add: BitSetContains_iff)
      then show ?thesis using 1(1) [OF dec search_skip [OF inv seen]] by simp
    next
      case fresh: 3
      let ?r = "BitSetInsert r (i div 2)"
      let ?stack = "push_successors ?r (bb_out_edges (block_at g (i div 2))) ((i div 2 * 2 + 1) # rest)"
      have "bs_ok r" "i div 2 < num_blocks g"
        using inv reachable_in_range [OF ok] by (auto simp: search_inv_def)
      then have "{..<num_blocks g} - bs_set ?r \<subset> {..<num_blocks g} - bs_set r" using fresh(2) by (auto simp: BitSetInsert_spec)
      then have "card ({..<num_blocks g} - bs_set ?r) < card ({..<num_blocks g} - bs_set r)" by (intro psubset_card_mono) simp_all
      then have "((card ({..<num_blocks g} - bs_set ?r), length ?stack), (card ({..<num_blocks g} - bs_set r), length stack))
        \<in> {(x, y). x < y} <*lex*> {(x, y). x < y}" by simp
      moreover have "postorder_loop g stack post r = postorder_loop g ?stack post ?r"
        using Cons fresh by (subst postorder_loop.simps) (simp add: BitSetContains_iff Let_def)
      ultimately show ?thesis using 1(1) [OF _ search_expand [OF ok inv fresh]] by simp
    qed
  qed
qed


section \<open>The numbering\<close>

lemma search_done:
  assumes inv: "search_inv g [] post r"
  shows "distinct post" "set post = bs_set r" "post \<noteq> []" "last post = gen_entry_block g"
    "bs_set r = {v. flow_reachable g v}"
    "post = a @ v # b \<Longrightarrow> v \<noteq> gen_entry_block g \<Longrightarrow> \<exists>q\<in>set b. flow_edge g q v"
proof -
  show d: "distinct post" "set post = bs_set r" "post \<noteq> []" "last post = gen_entry_block g"
    using inv by (simp_all add: search_inv_def)
  have p: "\<forall>a v b. post = a @ v # b \<longrightarrow> v = gen_entry_block g \<or>
      (\<exists>q. flow_edge g q v \<and> (q \<in> set b \<or> q \<in> set (open_blocks [])))"
    using inv unfolding search_inv_def by (elim conjE)
  show "\<exists>q\<in>set b. flow_edge g q v" if "post = a @ v # b" "v \<noteq> gen_entry_block g"
    using p [rule_format, OF that(1)] that(2) by auto
  have c: "\<forall>u\<in>bs_set r. \<forall>v. flow_edge g u v \<longrightarrow> v \<in> bs_set r \<or> v * 2 \<in> set []"
    using inv unfolding search_inv_def by (elim conjE)
  have reach: "\<forall>v\<in>bs_set r. flow_reachable g v" using inv unfolding search_inv_def by (elim conjE)
  have "v \<in> bs_set r" if "flow_reachable g v" for v
    using that
  proof induction
    case start
    then show ?case using d(2-4) last_in_set by metis
  next
    case (step u v)
    then show ?case using c by simp
  qed
  then show "bs_set r = {v. flow_reachable g v}" using reach by blast
qed

lemma number_blocks_spec:
  assumes d: "distinct post" and s: "set post \<subseteq> {..<n}"
  shows "length (number_blocks n post) = n" "map ((!) (number_blocks n post)) (rev post) = [0..<length post]"
proof -
  define f where "f = (\<lambda>rpo i. rpo[post ! (length post - i - 1) := i])"
  have "length (foldl f (replicate n 0xffffffffffffffff) [0..<k]) = n \<and>
      (\<forall>i<k. foldl f (replicate n 0xffffffffffffffff) [0..<k] ! (rev post ! i) = i)" if "k \<le> length post" for k
    using that
  proof (induction k)
    case (Suc k)
    let ?r = "foldl f (replicate n 0xffffffffffffffff) [0..<k]"
    have at: "post ! (length post - k - 1) = rev post ! k" using Suc.prems by (simp add: rev_nth)
    have "rev post ! k < n" using s Suc.prems by (metis Suc_le_lessD length_rev lessThan_iff nth_mem set_rev subsetD)
    moreover have "rev post ! k \<noteq> rev post ! i" if "i < k" for i
      using d Suc.prems that by (simp add: nth_eq_iff_index_eq)
    moreover have "foldl f (replicate n 0xffffffffffffffff) [0..<Suc k] = ?r[rev post ! k := k]"
      using at by (simp add: f_def)
    moreover have "length ?r = n" "\<forall>i<k. ?r ! (rev post ! i) = i" using Suc by simp_all
    ultimately show ?case by (simp add: less_Suc_eq nth_list_update)
  qed simp
  then show "length (number_blocks n post) = n" "map ((!) (number_blocks n post)) (rev post) = [0..<length post]"
    unfolding number_blocks_def f_def [symmetric] by (auto intro!: nth_equalityI)
qed

definition flow_preds :: "generator \<Rightarrow> nat \<Rightarrow> nat list" where
  "flow_preds g v = bb_in_edges (block_at g v)"

lemma postorder_numbering:
  assumes ok: "flow_ok g" and inv: "search_inv g [] post r"
  defines "rpo \<equiv> number_blocks (num_blocks g) post"
  shows "numbering (gen_entry_block g) (flow_edge g) (bs_set r) ((!) rpo) (flow_preds g)"
    "map ((!) rpo) (tl (rev post)) = [1..<1 + length (tl (rev post))]"
    "set (tl (rev post)) = bs_set r - {gen_entry_block g}"
    "v \<in> bs_set r \<Longrightarrow> v < num_blocks g \<and> rpo ! v < card (bs_set r)"
proof -
  let ?e = "gen_entry_block g"
  note S = search_done [OF inv]
  have range: "set post \<subseteq> {..<num_blocks g}" using S(2,5) reachable_in_range [OF ok] by auto
  have m: "map ((!) rpo) (rev post) = [0..<length post]"
    using number_blocks_spec(2) [OF S(1) range] by (simp add: rpo_def)
  obtain rest where rest: "rev post = ?e # rest" using S(3,4) by (cases post rule: rev_cases) auto
  have at: "rpo ! (rev post ! i) = i" if "i < length post" for i
    using arg_cong [OF m, of "\<lambda>l. l ! i"] that by simp
  have le: "rpo ! v < length post" if "v \<in> set post" for v
  proof -
    have "rpo ! v \<in> set (map ((!) rpo) (rev post))" using that by simp
    then show ?thesis unfolding m by simp
  qed
  show "map ((!) rpo) (tl (rev post)) = [1..<1 + length (tl (rev post))]"
    using m rest by (cases "length post") (auto simp: upt_rec [of 0] simp del: upt_Suc)
  show "set (tl (rev post)) = bs_set r - {?e}"
    using rest S(1,2) by (metis distinct.simps(2) distinct_rev list.sel(3) list.simps(15) set_rev Diff_insert_absorb)
  show "v < num_blocks g \<and> rpo ! v < card (bs_set r)" if "v \<in> bs_set r"
    using that range le S(1,2) distinct_card [of post] by auto
  have "inj_on ((!) rpo) (bs_set r)"
    using m S(2) by (metis distinct_map distinct_upt set_rev)
  moreover have "rpo ! ?e = 0" using at [of 0] rest S(3) by simp
  moreover have "\<exists>q\<in>set (flow_preds g v). q \<in> bs_set r \<and> rpo ! q < rpo ! v" if v: "v \<in> bs_set r" "v \<noteq> ?e" for v
  proof -
    obtain a b where ab: "post = a @ v # b" using v(1) S(2) split_list by metis
    obtain q where q: "q \<in> set b" "flow_edge g q v" using S(6) [OF ab v(2)] by blast
    have "rev post = rev b @ v # rev a" using ab by simp
    moreover obtain j where j: "j < length b" "rev b ! j = q" using q(1) by (metis in_set_conv_nth length_rev set_rev)
    ultimately have "rev post ! j = q" "rev post ! length b = v" by (simp_all add: nth_append)
    then have "rpo ! q < rpo ! v" using at [of j] at [of "length b"] j(1) ab by simp
    then show ?thesis using q ab S(2) flow_okD(7) [OF ok q(2)] by (auto simp: flow_preds_def)
  qed
  ultimately show "numbering ?e (flow_edge g) (bs_set r) ((!) rpo) (flow_preds g)"
    unfolding numbering_def using S(2,5) range flow_okD(7,8) [OF ok] by (auto simp: flow_preds_def)
qed

end
