(* ===== verification/CfgDominators.thy ===== *)
theory CfgDominators
  imports CfgPostorder
begin

text \<open>
  The computation of immediate dominators in \<open>codegen.c\<close> against the dominators of the graph:
  climbing and intersecting chains, one pass in reverse postorder, and the passes until nothing
  changes.
\<close>

section \<open>Climbing and intersecting\<close>

definition parents :: "nat option list \<Rightarrow> nat \<Rightarrow> nat option" where
  "parents idoms v = (if v < length idoms then idoms ! v else None)"

lemma parents_nth: "v < length idoms \<Longrightarrow> idoms ! v = parents idoms v"
  by (simp add: parents_def)

lemma parents_nth_processed: "parents idoms v \<noteq> None \<Longrightarrow> idoms ! v = parents idoms v"
  by (simp add: parents_def split: if_splits)

lemma parents_update: "z < length idoms \<Longrightarrow> v \<noteq> z \<Longrightarrow> parents (idoms[z := m]) v = parents idoms v"
  "z < length idoms \<Longrightarrow> parents (idoms[z := m]) z = m"
  by (simp_all add: parents_def)

lemma climb_spec:
  assumes t: "numbered_tree e V ((!) rpo) (parents idoms)" and e: "rpo ! e = 0"
    and x: "parents idoms x \<noteq> None"
  shows "\<exists>y. climb idoms rpo x limit = Some y \<and> ancestor (parents idoms) x y \<and> rpo ! y \<le> rpo ! limit \<and>
    (rpo ! limit < rpo ! x \<longrightarrow> rpo ! y < rpo ! x) \<and> (rpo ! x \<le> rpo ! limit \<longrightarrow> y = x) \<and>
    (\<forall>d. ancestor (parents idoms) x d \<longrightarrow> rpo ! d \<le> rpo ! limit \<longrightarrow> ancestor (parents idoms) y d)"
  using x
proof (induction "rpo ! x" arbitrary: x rule: less_induct)
  case less
  obtain u where u: "parents idoms x = Some u" using less.prems by auto
  then have at: "idoms ! x = Some u" using parents_nth_processed [OF less.prems] by simp
  show ?case
  proof (cases "rpo ! limit < rpo ! x")
    case False
    then show ?thesis by (subst climb.simps) (auto intro: ancestor.here)
  next
    case True
    then have xe: "x \<noteq> e" using e by auto
    have ru: "rpo ! u < rpo ! x" "parents idoms u \<noteq> None" using treeD(6,7) [OF t u] xe by auto
    obtain y where y: "climb idoms rpo u limit = Some y" "ancestor (parents idoms) u y" "rpo ! y \<le> rpo ! limit"
      "\<forall>d. ancestor (parents idoms) u d \<longrightarrow> rpo ! d \<le> rpo ! limit \<longrightarrow> ancestor (parents idoms) y d"
      using less.hyps [OF ru] by blast
    have "climb idoms rpo x limit = Some y" using True at y(1) by (subst climb.simps) simp
    moreover have "ancestor (parents idoms) x d \<longleftrightarrow> d = x \<or> ancestor (parents idoms) u d" for d
      using ancestor_step [of "parents idoms", OF u] .
    ultimately show ?thesis using y True by auto
  qed
qed

lemma IntersectImmediateDominators_spec:
  assumes t: "numbered_tree e V ((!) rpo) (parents idoms)" and e: "rpo ! e = 0"
    and x: "parents idoms x \<noteq> None" "parents idoms y \<noteq> None"
  shows "\<exists>m. IntersectImmediateDominators x y idoms rpo = Some m \<and> parents idoms m \<noteq> None \<and>
    (\<forall>d. ancestor (parents idoms) m d \<longleftrightarrow> ancestor (parents idoms) x d \<and> ancestor (parents idoms) y d)"
  using x
proof (induction "rpo ! x + rpo ! y" arbitrary: x y rule: less_induct)
  case less
  let ?anc = "ancestor (parents idoms)"
  show ?case
  proof (cases "x = y")
    case True
    then show ?thesis using less.prems by (subst IntersectImmediateDominators.simps) auto
  next
    case False
    obtain l where l: "climb idoms rpo x y = Some l" "?anc x l" "rpo ! l \<le> rpo ! y"
      "rpo ! y < rpo ! x \<longrightarrow> rpo ! l < rpo ! x" "rpo ! x \<le> rpo ! y \<longrightarrow> l = x"
      "\<forall>d. ?anc x d \<longrightarrow> rpo ! d \<le> rpo ! y \<longrightarrow> ?anc l d"
      using climb_spec [OF t e less.prems(1), of y] by blast
    obtain r where r: "climb idoms rpo y l = Some r" "?anc y r" "rpo ! r \<le> rpo ! l"
      "rpo ! l < rpo ! y \<longrightarrow> rpo ! r < rpo ! y" "\<forall>d. ?anc y d \<longrightarrow> rpo ! d \<le> rpo ! l \<longrightarrow> ?anc r d"
      using climb_spec [OF t e less.prems(2), of l] by blast
    have lp: "parents idoms l \<noteq> None" "rpo ! l \<le> rpo ! x" using ancestor_le [OF t l(2) less.prems(1)] by auto
    have rp: "parents idoms r \<noteq> None" "rpo ! r \<le> rpo ! y" using ancestor_le [OF t r(2) less.prems(2)] by auto
    have "x \<in> V" "y \<in> V" using treeD(4) [OF t] less.prems by auto
    then have "rpo ! x \<noteq> rpo ! y" using False treeD(2) [OF t] by (auto dest: inj_onD)
    then have dec: "rpo ! l + rpo ! r < rpo ! x + rpo ! y" using l(4,5) r(4) lp(2) rp(2) by (cases "rpo ! y < rpo ! x") auto
    have le: "?anc p d \<Longrightarrow> parents idoms p \<noteq> None \<Longrightarrow> rpo ! d \<le> rpo ! p" for p d using ancestor_le [OF t] by blast
    have same: "?anc x d \<and> ?anc y d \<longleftrightarrow> ?anc l d \<and> ?anc r d" for d
      using l(2,6) r(2,5) le less.prems lp(1) rp(1) ancestor_trans [of "parents idoms"] by metis
    have "IntersectImmediateDominators x y idoms rpo = IntersectImmediateDominators l r idoms rpo"
      using False l(1) r(1) by (subst IntersectImmediateDominators.simps) simp
    then show ?thesis using less.hyps [OF dec lp(1) rp(1)] same by simp
  qed
qed


section \<open>Passes\<close>

definition meets_from :: "nat option list \<Rightarrow> nat option \<Rightarrow> nat list \<Rightarrow> nat option \<Rightarrow> bool" where
  "meets_from idoms cur ps res \<longleftrightarrow> (res = None \<longleftrightarrow> cur = None \<and> (\<forall>p\<in>set ps. parents idoms p = None)) \<and>
     (\<forall>m. res = Some m \<longrightarrow> parents idoms m \<noteq> None \<and>
       (\<forall>d. ancestor (parents idoms) m d \<longleftrightarrow> (\<forall>c. cur = Some c \<longrightarrow> ancestor (parents idoms) c d) \<and>
         (\<forall>p\<in>set ps. parents idoms p \<noteq> None \<longrightarrow> ancestor (parents idoms) p d)))"

lemma meets_from_skip: "parents idoms p = None \<Longrightarrow> meets_from idoms cur ps res \<Longrightarrow> meets_from idoms cur (p # ps) res"
  by (simp add: meets_from_def)

lemma meets_from_first: "parents idoms p \<noteq> None \<Longrightarrow> meets_from idoms (Some p) ps res \<Longrightarrow> meets_from idoms None (p # ps) res"
  unfolding meets_from_def by auto

lemma meets_from_next:
  "(\<And>d. ancestor (parents idoms) m d \<longleftrightarrow> ancestor (parents idoms) c d \<and> ancestor (parents idoms) p d) \<Longrightarrow> parents idoms p \<noteq> None \<Longrightarrow>
    meets_from idoms (Some m) ps res \<Longrightarrow> meets_from idoms (Some c) (p # ps) res"
  unfolding meets_from_def by auto

lemma new_idom_spec:
  assumes t: "numbered_tree e V ((!) rpo) (parents idoms)" and e: "rpo ! e = 0"
    and c: "\<And>c. cur = Some c \<Longrightarrow> parents idoms c \<noteq> None"
    and ps: "set ps \<subseteq> {..<length idoms}"
  shows "\<exists>res. new_idom idoms rpo ps cur = Some res \<and> meets_from idoms cur ps res"
  using c ps
proof (induction ps arbitrary: cur)
  case Nil
  then show ?case by (simp add: meets_from_def)
next
  case (Cons p ps)
  have at: "idoms ! p = parents idoms p" and ps: "set ps \<subseteq> {..<length idoms}" using Cons.prems(2) by (auto simp: parents_def)
  show ?case
  proof (cases "parents idoms p = None")
    case True
    then show ?thesis using Cons.IH [of cur] Cons.prems(1) ps meets_from_skip [OF True] at by (metis new_idom.simps(2))
  next
    case p: False
    show ?thesis
    proof (cases cur)
      case None
      have "new_idom idoms rpo (p # ps) cur = new_idom idoms rpo ps (Some p)" using p at None by auto
      then show ?thesis using Cons.IH [of "Some p"] ps p meets_from_first [OF p] None by auto
    next
      case (Some c)
      obtain m where m: "IntersectImmediateDominators c p idoms rpo = Some m" "parents idoms m \<noteq> None"
        "\<And>d. ancestor (parents idoms) m d \<longleftrightarrow> ancestor (parents idoms) c d \<and> ancestor (parents idoms) p d"
        using IntersectImmediateDominators_spec [OF t e Cons.prems(1) [OF Some] p] by blast
      have "new_idom idoms rpo (p # ps) cur = new_idom idoms rpo ps (Some m)" using p at Some m(1) by auto
      then show ?thesis using Cons.IH [of "Some m"] ps m(2) meets_from_next [OF m(3) p] Some by auto
    qed
  qed
qed

lemma new_idom_meets:
  assumes t: "numbered_tree e V ((!) rpo) (parents idoms)" and e: "rpo ! e = 0"
    and p: "p \<in> set ps" "parents idoms p \<noteq> None" and ps: "set ps \<subseteq> {..<length idoms}"
  obtains m where "new_idom idoms rpo ps None = Some (Some m)" "meets (parents idoms) ps m"
proof -
  obtain res where r: "new_idom idoms rpo ps None = Some res" "meets_from idoms None ps res"
    using new_idom_spec [OF t e _ ps, of None] by auto
  moreover have "res \<noteq> None" using r(2) p by (auto simp: meets_from_def)
  then obtain m where "res = Some m" by auto
  ultimately show thesis using that [of m] by (simp add: meets_def meets_from_def)
qed

text \<open>How much is left to improve; a node without a parent counts as the number of nodes.\<close>

definition slack :: "nat set \<Rightarrow> nat list \<Rightarrow> nat option list \<Rightarrow> nat" where
  "slack V rpo idoms = (\<Sum>v\<in>V. case idoms ! v of None \<Rightarrow> card V | Some u \<Rightarrow> rpo ! u)"

lemma slack_update:
  assumes V: "finite V" "z \<in> V" "z < length idoms"
    and less: "rpo ! m < (case idoms ! z of None \<Rightarrow> card V | Some u \<Rightarrow> rpo ! u)"
  shows "slack V rpo (idoms[z := Some m]) < slack V rpo idoms"
  unfolding slack_def
proof (rule sum_strict_mono_ex1)
  show "\<forall>v\<in>V. (case idoms[z := Some m] ! v of None \<Rightarrow> card V | Some u \<Rightarrow> rpo ! u)
      \<le> (case idoms ! v of None \<Rightarrow> card V | Some u \<Rightarrow> rpo ! u)"
    using V(3) less by (auto simp: nth_list_update)
  show "\<exists>v\<in>V. (case idoms[z := Some m] ! v of None \<Rightarrow> card V | Some u \<Rightarrow> rpo ! u)
      < (case idoms ! v of None \<Rightarrow> card V | Some u \<Rightarrow> rpo ! u)"
    using V(2,3) less by (intro bexI [of _ z]) simp_all
qed (rule V(1))

lemma idom_step:
  assumes n: "numbering e E V ((!) rpo) (flow_preds g)"
    and inv: "idom_inv e E V ((!) rpo) (flow_preds g) i (parents idoms)"
    and V: "\<And>v. v \<in> V \<Longrightarrow> v < length idoms \<and> rpo ! v < card V" "finite V"
    and z: "z \<in> V" "rpo ! z = i" "z \<noteq> e" and ps: "set (flow_preds g z) \<subseteq> {..<length idoms}"
  obtains m where "new_idom idoms rpo (bb_in_edges (block_at g z)) None = Some (Some m)"
    "meets (parents idoms) (flow_preds g z) m"
    "idom_inv e E V ((!) rpo) (flow_preds g) (Suc i) (parents (idoms[z := Some m]))"
    "idoms ! z \<noteq> Some m \<longrightarrow> slack V rpo (idoms[z := Some m]) < slack V rpo idoms"
proof -
  note N = numberingD [OF n]
  note t = idom_invD(1) [OF inv]
  have "rpo ! z \<le> i \<or> parents idoms z \<noteq> None" using z(2) by simp
  then obtain q where q: "q \<in> set (flow_preds g z)" "parents idoms q \<noteq> None" using processed_pred [OF n inv z(1,3)] by blast
  obtain m where m: "new_idom idoms rpo (flow_preds g z) None = Some (Some m)" "meets (parents idoms) (flow_preds g z) m"
    by (rule new_idom_meets [OF t N(3) q ps])
  have imp: "improvement e E V ((!) rpo) (flow_preds g) i (parents idoms) z m (parents (idoms[z := Some m]))"
    unfolding improvement_def using n inv z m(2) V(1) [OF z(1)] by (simp add: parents_update)
  have "slack V rpo (idoms[z := Some m]) < slack V rpo idoms" if "idoms ! z \<noteq> Some m"
  proof (rule slack_update [OF V(2) z(1)])
    show "z < length idoms" using V(1) [OF z(1)] by simp
    show "rpo ! m < (case idoms ! z of None \<Rightarrow> card V | Some u \<Rightarrow> rpo ! u)"
    proof (cases "idoms ! z")
      case None
      then show ?thesis using V(1) new_parent(3) [OF imp] by simp
    next
      case (Some u)
      then have "parents idoms z = Some u" using V(1) [OF z(1)] by (simp add: parents_def)
      then show ?thesis using old_parent_below(3) [OF imp] that Some by auto
    qed
  qed
  then show thesis using that m improved_inv [OF imp] by (simp add: flow_preds_def)
qed

lemma idom_pass_spec:
  assumes n: "numbering e E V ((!) rpo) (flow_preds g)"
    and V: "finite V" "\<And>v. v \<in> V \<Longrightarrow> v < N \<and> rpo ! v < card V"
    and ps: "\<And>v. v \<in> V \<Longrightarrow> set (flow_preds g v) \<subseteq> {..<N}"
    and inv: "idom_inv e E V ((!) rpo) (flow_preds g) i (parents idoms)"
    and bids: "map ((!) rpo) bids = [i..<i + length bids]" "set bids \<subseteq> V - {e}" "length idoms = N"
  shows "\<exists>idoms' ch'. idom_pass g rpo bids idoms ch = Some (idoms', ch') \<and> length idoms' = N \<and>
    idom_inv e E V ((!) rpo) (flow_preds g) (i + length bids) (parents idoms') \<and>
    slack V rpo idoms' \<le> slack V rpo idoms \<and> (ch' \<longrightarrow> ch \<or> slack V rpo idoms' < slack V rpo idoms) \<and>
    (\<not> ch' \<longrightarrow> \<not> ch \<and> idoms' = idoms \<and>
       (\<forall>v\<in>set bids. \<exists>m. parents idoms v = Some m \<and> meets (parents idoms) (flow_preds g v) m))"
  using inv bids
proof (induction bids arbitrary: i idoms ch)
  case Nil
  then show ?case by simp
next
  case (Cons z bids)
  have range: "[i..<i + length (z # bids)] = i # [Suc i..<Suc i + length bids]" by (subst upt_rec) simp
  have z: "z \<in> V" "rpo ! z = i" "z \<noteq> e" using Cons.prems(2,3) unfolding range by auto
  have psz: "set (flow_preds g z) \<subseteq> {..<length idoms}" using ps [OF z(1)] Cons.prems(4) by simp
  have V': "v < length idoms \<and> rpo ! v < card V" if "v \<in> V" for v using V(2) [OF that] Cons.prems(4) by simp
  obtain m where m: "new_idom idoms rpo (bb_in_edges (block_at g z)) None = Some (Some m)"
    "meets (parents idoms) (flow_preds g z) m"
    "idom_inv e E V ((!) rpo) (flow_preds g) (Suc i) (parents (idoms[z := Some m]))"
    "idoms ! z \<noteq> Some m \<longrightarrow> slack V rpo (idoms[z := Some m]) < slack V rpo idoms"
    by (rule idom_step [OF n Cons.prems(1) V' V(1) z psz])
  have tail: "map ((!) rpo) bids = [Suc i..<Suc i + length bids]" "set bids \<subseteq> V - {e}"
    using Cons.prems(2,3) unfolding range by auto
  show ?case
  proof (cases "idoms ! z = Some m")
    case True
    then have same: "idoms[z := Some m] = idoms" by (metis list_update_id)
    have pz: "parents idoms z = Some m" using True V' [OF z(1)] by (simp add: parents_def)
    have "idom_pass g rpo (z # bids) idoms ch = idom_pass g rpo bids idoms ch" using m(1) True by simp
    then show ?thesis using Cons.IH [OF m(3) [unfolded same] tail Cons.prems(4), of ch] pz m(2) by auto
  next
    case False
    have "idom_pass g rpo (z # bids) idoms ch = idom_pass g rpo bids (idoms[z := Some m]) True" using m(1) False by simp
    then show ?thesis
      using Cons.IH [OF m(3) tail, of True] Cons.prems(4) m(4) False by (auto intro: less_imp_le)
  qed
qed

lemma idom_loop_spec:
  assumes n: "numbering e E V ((!) rpo) (flow_preds g)"
    and V: "finite V" "\<And>v. v \<in> V \<Longrightarrow> v < N \<and> rpo ! v < card V"
    and ps: "\<And>v. v \<in> V \<Longrightarrow> set (flow_preds g v) \<subseteq> {..<N}"
    and bids: "map ((!) rpo) bids = [1..<1 + length bids]" "set bids = V - {e}"
    and inv: "idom_inv e E V ((!) rpo) (flow_preds g) 1 (parents idoms)" and len: "length idoms = N"
  shows "\<exists>final. idom_loop g rpo bids idoms = Some final \<and> length final = N \<and>
    numbered_tree e V ((!) rpo) (parents final) \<and> (\<forall>v\<in>V. parents final v \<noteq> None) \<and>
    (\<forall>v\<in>V. \<forall>d. ancestor (parents final) v d \<longleftrightarrow> dominates e E d v)"
  using inv len
proof (induction "slack V rpo idoms" arbitrary: idoms rule: less_induct)
  case less
  obtain idoms' ch' where p: "idom_pass g rpo bids idoms False = Some (idoms', ch')" "length idoms' = N"
    "idom_inv e E V ((!) rpo) (flow_preds g) (1 + length bids) (parents idoms')"
    "ch' \<longrightarrow> slack V rpo idoms' < slack V rpo idoms"
    "\<not> ch' \<longrightarrow> idoms' = idoms \<and> (\<forall>v\<in>set bids. \<exists>m. parents idoms v = Some m \<and> meets (parents idoms) (flow_preds g v) m)"
    using idom_pass_spec [OF n V ps less.prems(1) bids(1) _ less.prems(2), of False] bids(2) by auto
  have all: "rpo ! v < 1 + length bids" if "v \<in> V" for v
  proof (cases "v = e")
    case False
    then have "rpo ! v \<in> set (map ((!) rpo) bids)" using that bids(2) by simp
    then show ?thesis unfolding bids(1) by (auto simp del: upt_Suc)
  qed (simp add: numberingD(3) [OF n])
  have inv': "idom_inv e E V ((!) rpo) (flow_preds g) 1 (parents idoms')" by (rule inv_next [OF p(3) all])
  show ?case
  proof (cases ch')
    case True
    then show ?thesis using less.hyps [OF _ inv' p(2)] p(1,4) by (subst idom_loop.simps) simp
  next
    case False
    have m: "\<exists>m. parents idoms' v = Some m \<and> meets (parents idoms') (flow_preds g v) m" if "v \<in> V" "v \<noteq> e" for v
      using that p(5) False bids(2) by auto
    have "parents idoms' v \<noteq> None" if "v \<in> V" for v
      using m [OF that] treeD(1) [OF idom_invD(1) [OF inv']] by (cases "v = e") auto
    then show ?thesis
      using p(1,2) False idom_invD(1) [OF inv'] fixed_point_exact [OF n inv' m] by (subst idom_loop.simps) simp
  qed
qed

end
