(* ===== verification/CfgAnalysis.thy ===== *)
theory CfgAnalysis
  imports CfgDominators
begin

text \<open>
  What the analysis of the graph leaves in the blocks: the set, the number and the nearest of the
  dominators, by both ways of computing them.
\<close>

section \<open>Facts on dominators\<close>

lemma avoiding_mono: "avoiding e E X v \<Longrightarrow> Y \<subseteq> X \<Longrightarrow> avoiding e E Y v"
  by (induction rule: avoiding.induct) (auto intro: avoiding.intros)

lemma dominates_trans:
  assumes "dominates e E d s" "dominates e E s v"
  shows "dominates e E d v"
proof -
  have "avoiding e E {d} x \<Longrightarrow> \<not> avoiding e E {s} x \<Longrightarrow> avoiding e E {d} s" for x
  proof (induction rule: avoiding.induct)
    case start
    then show ?case by (cases "s = e") (auto intro: avoiding.intros)
  next
    case (step u v)
    then show ?case by (cases "v = s") (auto intro: avoiding.intros)
  qed
  then show ?thesis using assms by (auto simp: dominates_def)
qed

lemma single_pred:
  assumes "reachable e E v" "v \<noteq> e"
  obtains p where "avoiding e E {v} p" "E p v"
proof -
  have "avoiding e E {} x \<Longrightarrow> (x \<noteq> v \<and> avoiding e E {v} x) \<or> (\<exists>p. avoiding e E {v} p \<and> E p v)" for x
  proof (induction rule: avoiding.induct)
    case start
    then show ?case using assms(2) by (auto intro: avoiding.intros)
  next
    case (step u w)
    then show ?case by (cases "w = v") (auto intro: avoiding.intros)
  qed
  then show thesis using that assms(1) by blast
qed

text \<open>The dominators, spelled out on paths.\<close>

lemma avoiding_paths:
  "avoiding e E X v \<longleftrightarrow> (\<exists>p. p \<noteq> [] \<and> hd p = e \<and> last p = v \<and> successively E p \<and> set p \<inter> X = {})"
proof
  assume "avoiding e E X v"
  then show "\<exists>p. p \<noteq> [] \<and> hd p = e \<and> last p = v \<and> successively E p \<and> set p \<inter> X = {}"
  proof induction
    case start
    then show ?case by (intro exI [of _ "[e]"]) simp
  next
    case (step u v)
    then obtain p where "p \<noteq> []" "hd p = e" "last p = u" "successively E p" "set p \<inter> X = {}" by blast
    then show ?case using step(2,3) by (intro exI [of _ "p @ [v]"]) (auto simp: successively_append_iff)
  qed
next
  have "p \<noteq> [] \<Longrightarrow> hd p = e \<Longrightarrow> successively E p \<Longrightarrow> set p \<inter> X = {} \<Longrightarrow> avoiding e E X (last p)" for p
  proof (induction p rule: rev_induct)
    case (snoc v p)
    then show ?case
      by (cases "p = []") (auto simp: successively_append_iff intro: avoiding.intros)
  qed simp
  then show "\<exists>p. p \<noteq> [] \<and> hd p = e \<and> last p = v \<and> successively E p \<and> set p \<inter> X = {} \<Longrightarrow> avoiding e E X v" by blast
qed

section \<open>What a block is told\<close>

abbreviation flow_dominates :: "generator \<Rightarrow> nat \<Rightarrow> nat \<Rightarrow> bool" where
  "flow_dominates g \<equiv> dominates (gen_entry_block g) (flow_edge g)"

definition dominators_of :: "generator \<Rightarrow> nat \<Rightarrow> nat set" where
  "dominators_of g v = (if flow_reachable g v then {d. flow_dominates g d v} else {})"

text \<open>The nearest strict dominator.\<close>

definition nearest_dominator :: "generator \<Rightarrow> nat \<Rightarrow> nat option \<Rightarrow> bool" where
  "nearest_dominator g v r =
     (case r of
        None \<Rightarrow> v = gen_entry_block g \<or> \<not> flow_reachable g v
      | Some u \<Rightarrow> v \<noteq> gen_entry_block g \<and> flow_reachable g v \<and> flow_reachable g u \<and> v \<notin> dominators_of g u \<and>
          dominators_of g v = insert v (dominators_of g u))"

definition dominator_info :: "generator \<Rightarrow> nat \<Rightarrow> basic_block \<Rightarrow> bool" where
  "dominator_info g v b \<longleftrightarrow> bb_reachability_known b \<and> (bb_is_unreachable b \<longleftrightarrow> \<not> flow_reachable g v) \<and>
     bs_ok (bb_dominators b) \<and> bs_set (bb_dominators b) = dominators_of g v \<and>
     bb_num_dominators b = card (dominators_of g v) \<and> nearest_dominator g v (bb_idom b)"

text \<open>Nothing else of the block changes.\<close>

definition same_flow :: "basic_block \<Rightarrow> basic_block \<Rightarrow> bool" where
  "same_flow b b' \<longleftrightarrow> b' = b\<lparr>bb_dominators := bb_dominators b', bb_num_dominators := bb_num_dominators b',
     bb_idom := bb_idom b', bb_reachability_known := bb_reachability_known b',
     bb_is_unreachable := bb_is_unreachable b'\<rparr>"

lemma same_flow_fields:
  assumes "same_flow b b'"
  shows "bb_id b' = bb_id b" "bb_in_edges b' = bb_in_edges b" "bb_out_edges b' = bb_out_edges b"
    "bb_dominance_frontier b' = bb_dominance_frontier b" "bb_dominatees b' = bb_dominatees b"
  using arg_cong [OF assms [unfolded same_flow_def], of bb_id] arg_cong [OF assms [unfolded same_flow_def], of bb_in_edges]
    arg_cong [OF assms [unfolded same_flow_def], of bb_out_edges]
    arg_cong [OF assms [unfolded same_flow_def], of bb_dominance_frontier]
    arg_cong [OF assms [unfolded same_flow_def], of bb_dominatees] by simp_all


section \<open>The chains of the general case\<close>

lemma ancestors_entry: "numbered_tree e V r par \<Longrightarrow> {d. ancestor par e d} = {e}"
  using ancestor_entry by blast

lemma ancestors_step:
  assumes t: "numbered_tree e V r par" and u: "par x = Some u" and x: "x \<noteq> e"
  shows "{d. ancestor par x d} = insert x {d. ancestor par u d}" "x \<notin> {d. ancestor par u d}"
  using ancestor_step [of par, OF u] ancestor_smaller [OF t treeD(6) [OF t u], of x] treeD(7) [OF t u x] by auto

lemma finite_ancestors:
  assumes t: "numbered_tree e V r par" and x: "par x \<noteq> None"
  shows "finite {d. ancestor par x d}"
  using x
proof (induction "r x" arbitrary: x rule: less_induct)
  case less
  show ?case
  proof (cases "x = e")
    case True
    then show ?thesis using ancestors_entry [OF t] by simp
  next
    case False
    obtain u where u: "par x = Some u" using less.prems by auto
    show ?thesis
      using less.hyps [OF treeD(7) [OF t u False] treeD(6) [OF t u]] ancestors_step(1) [OF t u False] by simp
  qed
qed

lemma dominator_chain_spec:
  assumes t: "numbered_tree e V r (parents idoms)" and x: "parents idoms x \<noteq> None" and s: "bs_ok s"
  shows "\<exists>s'. dominator_chain e idoms (Some x) (s, k) = Some (s', k + card {d. ancestor (parents idoms) x d}) \<and>
    bs_ok s' \<and> bs_set s' = bs_set s \<union> {d. ancestor (parents idoms) x d}"
  using x s
proof (induction "r x" arbitrary: x s k rule: less_induct)
  case less
  have ok: "bs_ok (BitSetInsert s x)" "bs_set (BitSetInsert s x) = insert x (bs_set s)"
    using BitSetInsert_spec [OF less.prems(2)] by auto
  show ?case
  proof (cases "x = e")
    case True
    have "dominator_chain e idoms (Some x) (s, k) = Some (BitSetInsert s x, k + 1)"
      using True by (subst dominator_chain.simps, simp) (subst dominator_chain.simps, simp)
    then show ?thesis using ok ancestors_entry [OF t] True by auto
  next
    case False
    obtain u where u: "parents idoms x = Some u" using less.prems by auto
    then have at: "idoms ! x = Some u" using parents_nth_processed [OF less.prems(1)] by simp
    obtain s' where s': "dominator_chain e idoms (Some u) (BitSetInsert s x, k + 1) =
        Some (s', k + 1 + card {d. ancestor (parents idoms) u d})" "bs_ok s'"
      "bs_set s' = bs_set (BitSetInsert s x) \<union> {d. ancestor (parents idoms) u d}"
      using less.hyps [OF treeD(7) [OF t u False] treeD(6) [OF t u] ok(1)] by blast
    have "dominator_chain e idoms (Some x) (s, k) = dominator_chain e idoms (Some u) (BitSetInsert s x, k + 1)"
      using False at by (subst dominator_chain.simps) simp
    then show ?thesis
      using s' ok(2) ancestors_step [OF t u False] finite_ancestors [OF t treeD(6) [OF t u]] by simp
  qed
qed

lemma same_flow_set:
  "same_flow b (b\<lparr>bb_dominators := s, bb_idom := i, bb_num_dominators := k, bb_reachability_known := a,
     bb_is_unreachable := u\<rparr>)"
  by (simp add: same_flow_def)

lemma store_dominators_spec:
  assumes ok: "flow_ok g" and v: "v < num_blocks g" and r: "bs_ok r" "bs_set r = {v. flow_reachable g v}"
    and t: "numbered_tree (gen_entry_block g) (bs_set r) n (parents idoms)"
    and p: "\<And>v. v \<in> bs_set r \<Longrightarrow> parents idoms v \<noteq> None"
    and exact: "\<And>v d. v \<in> bs_set r \<Longrightarrow> ancestor (parents idoms) v d \<longleftrightarrow> flow_dominates g d v"
  shows "\<exists>b. store_dominators (gen_entry_block g) idoms r v (block_at g v) = Some b \<and>
    same_flow (block_at g v) b \<and> dominator_info g v b"
proof -
  let ?b = "block_at g v" and ?e = "gen_entry_block g"
  have s: "bs_ok (BitSetClear (bb_dominators ?b))" "bs_set (BitSetClear (bb_dominators ?b)) = {}"
    using BitSetClear_spec [OF flow_okD(3) [OF ok v]] by auto
  show ?thesis
  proof (cases "flow_reachable g v")
    case False
    let ?new = "?b\<lparr>bb_dominators := BitSetClear (bb_dominators ?b), bb_idom := None, bb_num_dominators := 0,
      bb_reachability_known := True, bb_is_unreachable := True\<rparr>"
    have "store_dominators ?e idoms r v ?b = Some ?new"
      using False r(2) by (simp add: store_dominators_def BitSetContains_iff)
    moreover have "dominator_info g v ?new"
      using False s by (simp add: dominator_info_def dominators_of_def nearest_dominator_def)
    ultimately show ?thesis using same_flow_set by blast
  next
    case True
    then have vr: "v \<in> bs_set r" using r(2) by simp
    have D: "{d. ancestor (parents idoms) x d} = dominators_of g x" if "x \<in> bs_set r" for x
      using exact [OF that] that r(2) by (auto simp: dominators_of_def)
    obtain s' where s': "dominator_chain ?e idoms (Some v) (BitSetClear (bb_dominators ?b), 0) =
        Some (s', card (dominators_of g v))" "bs_ok s'" "bs_set s' = dominators_of g v"
      using dominator_chain_spec [OF t p [OF vr] s(1), of 0] s(2) D [OF vr] by auto
    let ?idom = "if v = ?e then None else idoms ! v"
    let ?new = "?b\<lparr>bb_dominators := s', bb_idom := ?idom, bb_num_dominators := card (dominators_of g v),
      bb_reachability_known := True, bb_is_unreachable := False\<rparr>"
    have "store_dominators ?e idoms r v ?b = Some ?new"
      using vr s'(1) by (simp add: store_dominators_def BitSetContains_iff)
    moreover have "nearest_dominator g v ?idom"
    proof (cases "v = ?e")
      case False
      obtain u where u: "parents idoms v = Some u" using p [OF vr] by auto
      then have at: "idoms ! v = Some u" using parents_nth_processed [OF p [OF vr]] by simp
      have "u \<in> bs_set r" by (rule treeD(5) [OF t u])
      then show ?thesis
        using ancestors_step [OF t u False] D [OF vr] D [of u] at False True r(2)
        by (simp add: nearest_dominator_def)
    qed (simp add: nearest_dominator_def)
    then have "dominator_info g v ?new" using True s'(2,3) by (simp add: dominator_info_def)
    ultimately show ?thesis using same_flow_set by blast
  qed
qed


section \<open>All blocks\<close>

definition dominators_stored :: "generator \<Rightarrow> generator \<Rightarrow> bool" where
  "dominators_stored g g' \<longleftrightarrow> num_blocks g' = num_blocks g \<and> gen_entry_block g' = gen_entry_block g \<and>
     g' = g\<lparr>gen_basic_blocks := gen_basic_blocks g'\<rparr> \<and>
     (\<forall>v < num_blocks g. same_flow (block_at g v) (block_at g' v) \<and> dominator_info g v (block_at g' v))"

lemma block_at_set_block: "i < num_blocks g \<Longrightarrow> block_at (set_block i b g) j = (if j = i then b else block_at g j)"
  by (simp add: block_at_def set_block_def num_blocks_def nth_list_update)

lemma set_block_sizes [simp]:
  "num_blocks (set_block i b g) = num_blocks g" "gen_entry_block (set_block i b g) = gen_entry_block g"
  by (simp_all add: num_blocks_def set_block_def)

lemma set_block_only: "h = g\<lparr>gen_basic_blocks := gen_basic_blocks h\<rparr> \<Longrightarrow>
    set_block i b h = g\<lparr>gen_basic_blocks := gen_basic_blocks (set_block i b h)\<rparr>"
proof -
  assume h: "h = g\<lparr>gen_basic_blocks := gen_basic_blocks h\<rparr>"
  have "set_block i b h = (g\<lparr>gen_basic_blocks := gen_basic_blocks h\<rparr>)\<lparr>gen_basic_blocks := (gen_basic_blocks h)[i := b]\<rparr>"
    unfolding set_block_def using arg_cong [OF h, of "\<lambda>x. x\<lparr>gen_basic_blocks := (gen_basic_blocks h)[i := b]\<rparr>"] .
  then show ?thesis by (simp add: set_block_def)
qed

lemma store_all_spec:
  assumes one: "\<And>v. v \<in> set vs \<Longrightarrow> \<exists>b. store_dominators e idoms r v (block_at h v) = Some b \<and> P v b"
    and vs: "distinct vs" "set vs \<subseteq> {..<num_blocks h}" and e: "gen_entry_block h = e"
  shows "\<exists>h'. store_all idoms r vs h = Some h' \<and> num_blocks h' = num_blocks h \<and> gen_entry_block h' = e \<and>
    h' = h\<lparr>gen_basic_blocks := gen_basic_blocks h'\<rparr> \<and>
    (\<forall>v\<in>set vs. P v (block_at h' v)) \<and> (\<forall>v. v \<notin> set vs \<longrightarrow> block_at h' v = block_at h v)"
  using one vs e
proof (induction vs arbitrary: h)
  case (Cons v vs)
  obtain b where b: "store_dominators e idoms r v (block_at h v) = Some b" "P v b" using Cons.prems(1) [of v] by auto
  let ?h = "set_block v b h"
  have v: "v < num_blocks h" using Cons.prems(3) by simp
  have at: "block_at ?h w = block_at h w" if "w \<noteq> v" for w using block_at_set_block [OF v] that by simp
  have "\<exists>b. store_dominators e idoms r w (block_at ?h w) = Some b \<and> P w b" if "w \<in> set vs" for w
    using Cons.prems(1) [of w] Cons.prems(2) that at [of w] by (cases "w = v") auto
  then obtain h' where h': "store_all idoms r vs ?h = Some h'" "num_blocks h' = num_blocks h" "gen_entry_block h' = e"
    "h' = ?h\<lparr>gen_basic_blocks := gen_basic_blocks h'\<rparr>"
    "\<forall>w\<in>set vs. P w (block_at h' w)" "\<forall>w. w \<notin> set vs \<longrightarrow> block_at h' w = block_at ?h w"
    using Cons.IH [of ?h] Cons.prems by auto
  have "h' = h\<lparr>gen_basic_blocks := gen_basic_blocks h'\<rparr>" using h'(4) by (simp add: set_block_def)
  moreover have "P v (block_at h' v)" using h'(6) Cons.prems(2) block_at_set_block [OF v] b(2) by simp
  ultimately show ?case using h' at Cons.prems(4) b(1) by auto
qed simp

lemma general_dominators:
  assumes ok: "flow_ok g" and f: "\<not> HasForwardSinglePredecessorCFG g"
  shows "\<exists>g'. CalculateDominators g = Some g' \<and> dominators_stored g g'"
proof -
  let ?e = "gen_entry_block g" and ?n = "num_blocks g"
  have e: "bb_id (block_at g ?e) = ?e" using flow_okD(2) [OF ok flow_okD(1) [OF ok]] .
  obtain post r where s: "ComputeReversePostorder g [] BitSetInit = Some (post, r)" "search_inv g [] post r"
    using postorder_loop_ends [OF ok search_start] e by (auto simp: ComputeReversePostorder_def)
  let ?rpo = "number_blocks ?n post" and ?start = "(replicate ?n None)[?e := Some ?e]"
  note N = postorder_numbering [OF ok s(2)]
  have V: "bs_set r = {v. flow_reachable g v}" using search_done(5) [OF s(2)] .
  have "bs_ok r" using s(2) by (simp add: search_inv_def)
  have "parents ?start v = start_parents ?e v" for v
    using flow_okD(1) [OF ok] by (simp add: parents_def start_parents_def nth_list_update)
  then have inv: "idom_inv ?e (flow_edge g) (bs_set r) ((!) ?rpo) (flow_preds g) 1 (parents ?start)"
    using inv_start [OF N(1)] by (metis ext)
  have ps: "set (flow_preds g v) \<subseteq> {..<?n}" if "v \<in> bs_set r" for v
    using flow_okD(6,8) [OF ok] N(4) [OF that] by (auto simp: flow_preds_def)
  have fin: "finite (bs_set r)" by (rule finite_bs_set)
  obtain final where f': "idom_loop g ?rpo (tl (rev post)) ?start = Some final"
    "numbered_tree ?e (bs_set r) ((!) ?rpo) (parents final)" "\<forall>v\<in>bs_set r. parents final v \<noteq> None"
    "\<forall>v\<in>bs_set r. \<forall>d. ancestor (parents final) v d \<longleftrightarrow> flow_dominates g d v"
    using idom_loop_spec [OF N(1) fin N(4) ps N(2,3) inv] by auto
  have one: "\<exists>b. store_dominators ?e final r v (block_at g v) = Some b \<and> same_flow (block_at g v) b \<and> dominator_info g v b"
    if "v \<in> set [0..<?n]" for v
    using store_dominators_spec [OF ok _ \<open>bs_ok r\<close> V f'(2)] f'(3,4) that by auto
  have sub: "set [0..<?n] \<subseteq> {..<?n}" by auto
  obtain g' where g': "store_all final r [0..<?n] g = Some g'" "num_blocks g' = ?n" "gen_entry_block g' = ?e"
    "g' = g\<lparr>gen_basic_blocks := gen_basic_blocks g'\<rparr>"
    "\<forall>v\<in>set [0..<?n]. same_flow (block_at g v) (block_at g' v) \<and> dominator_info g v (block_at g' v)"
    using store_all_spec [OF one distinct_upt sub refl] by blast
  have "CalculateDominators g = Some g'" using f s(1) f'(1) g'(1) by (simp add: CalculateDominators_def Let_def)
  then show ?thesis using g' by (auto simp: dominators_stored_def)
qed


section \<open>The case of single predecessors\<close>

lemma dominators_of_entry: "flow_ok g \<Longrightarrow> dominators_of g (gen_entry_block g) = {gen_entry_block g}"
  using dominates_entry by (auto simp: dominators_of_def intro: avoiding.start)

lemma only_pred:
  assumes ok: "flow_ok g" and v: "v < num_blocks g" "v \<noteq> gen_entry_block g" and p: "set (bb_in_edges (block_at g v)) \<subseteq> {p}"
  shows "flow_reachable g v \<Longrightarrow> p \<in> set (bb_in_edges (block_at g v)) \<and> flow_reachable g p \<and> v \<notin> dominators_of g p \<and>
      dominators_of g v = insert v (dominators_of g p)"
    and "flow_reachable g p \<Longrightarrow> p \<in> set (bb_in_edges (block_at g v)) \<Longrightarrow> flow_reachable g v"
proof -
  let ?e = "gen_entry_block g"
  have pred: "u = p \<and> p \<in> set (bb_in_edges (block_at g v))" if "flow_edge g u v" for u
    using flow_okD(7) [OF ok that] p by auto
  show "flow_reachable g v" if "flow_reachable g p" "p \<in> set (bb_in_edges (block_at g v))"
    using that flow_okD(8) [OF ok v(1)] by (auto intro: avoiding.step)
  assume r: "flow_reachable g v"
  obtain u where "avoiding ?e (flow_edge g) {v} u" "flow_edge g u v" using single_pred [OF r v(2)] .
  then have u: "avoiding ?e (flow_edge g) {v} p" "p \<in> set (bb_in_edges (block_at g v))" "flow_edge g p v" using pred by auto
  have rp: "flow_reachable g p" using avoiding_mono [OF u(1)] by simp
  have "flow_dominates g d v \<longleftrightarrow> d = v \<or> flow_dominates g d p" for d
  proof
    show "flow_dominates g d v \<Longrightarrow> d = v \<or> flow_dominates g d p" using dominates_pred u(3) by metis
    have "flow_dominates g d v" if "flow_dominates g d p"
      unfolding dominates_def
    proof
      assume "avoiding ?e (flow_edge g) {d} v"
      then show False
        by cases (use v(2) pred that in \<open>auto simp: dominates_def\<close>)
    qed
    then show "d = v \<or> flow_dominates g d p \<Longrightarrow> flow_dominates g d v" using dominates_self by blast
  qed
  then show "p \<in> set (bb_in_edges (block_at g v)) \<and> flow_reachable g p \<and> v \<notin> dominators_of g p \<and>
      dominators_of g v = insert v (dominators_of g p)"
    using u r rp by (auto simp: dominators_of_def dominates_def)
qed

lemma finite_dominators: "flow_ok g \<Longrightarrow> finite (dominators_of g v)"
proof -
  assume ok: "flow_ok g"
  have "avoiding (gen_entry_block g) (flow_edge g) {d} x"
    if "flow_reachable g x" "\<not> d < num_blocks g" for d x
    using that(1) by induction (use that(2) flow_okD(1,5) [OF ok] in \<open>auto intro: avoiding.intros\<close>)
  then have "dominators_of g v \<subseteq> {..<num_blocks g}" by (auto simp: dominators_of_def dominates_def)
  then show ?thesis by (rule finite_subset) simp
qed

text \<open>The block the loop stores, when the blocks before it are right.\<close>

lemma forward_block_spec:
  assumes ok: "flow_ok g" and f: "HasForwardSinglePredecessorCFG g" and v: "v < num_blocks g"
    and h: "gen_entry_block h = gen_entry_block g" "block_at h v = block_at g v"
    and before: "\<And>w. w < v \<Longrightarrow> dominator_info g w (block_at h w)"
  shows "same_flow (block_at g v) (forward_block h v) \<and> dominator_info g v (forward_block h v)"
proof -
  let ?b = "block_at g v" and ?e = "gen_entry_block g"
  let ?clear = "BitSetClear (bb_dominators ?b)"
  have s: "bs_ok ?clear" "bs_set ?clear = {}" using BitSetClear_spec [OF flow_okD(3) [OF ok v]] by auto
  have idv: "bb_id ?b = v" by (rule flow_okD(2) [OF ok v])
  have in_edges: "v = ?e \<or> bb_in_edges ?b = [] \<or> length (bb_in_edges ?b) = 1 \<and> bb_in_edges ?b ! 0 < v"
    using f v idv by (auto simp: HasForwardSinglePredecessorCFG_def list_all_iff Let_def)
  let ?new = "\<lambda>s i k u. ?b\<lparr>bb_dominators := s, bb_idom := i, bb_num_dominators := k, bb_reachability_known := True,
    bb_is_unreachable := u\<rparr>"
  have start: "forward_block h v =
      (let b1 = (if v \<noteq> ?e \<and> length (bb_in_edges ?b) = 1 \<and> \<not> bb_is_unreachable (block_at h (bb_in_edges ?b ! 0))
                 then ?new (BitSetCopy ?clear (bb_dominators (block_at h (bb_in_edges ?b ! 0)))) (Some (bb_in_edges ?b ! 0)) 0 False
                 else ?new ?clear None 0 (v \<noteq> ?e))
       in if bb_is_unreachable b1 then b1
          else let s = BitSetInsert (bb_dominators b1) (bb_id b1) in b1\<lparr>bb_dominators := s, bb_num_dominators := BitSetCount s\<rparr>)"
    unfolding forward_block_def h Let_def by simp
  consider "v = ?e" | "v \<noteq> ?e" "bb_in_edges ?b = []" | p where "v \<noteq> ?e" "bb_in_edges ?b = [p]" "p < v"
    using in_edges by (cases "bb_in_edges ?b") auto
  then show ?thesis
  proof cases
    case 1
    let ?s = "BitSetInsert ?clear v"
    have "bs_ok ?s" "bs_set ?s = {v}" using BitSetInsert_spec [OF s(1)] s(2) by auto
    then have "dominator_info g v (?new ?s None (BitSetCount ?s) False)"
      using dominators_of_entry [OF ok] 1 by (auto simp: dominator_info_def nearest_dominator_def BitSetCount_spec intro: avoiding.start)
    moreover have "forward_block h v = ?new ?s None (BitSetCount ?s) False"
      using 1 idv unfolding start by (simp add: Let_def)
    ultimately show ?thesis using same_flow_set by simp
  next
    case 2
    have "\<not> flow_reachable g v" using only_pred(1) [OF ok v 2(1), of 0] 2(2) by auto
    then have "dominator_info g v (?new ?clear None 0 True)"
      using s by (simp add: dominator_info_def dominators_of_def nearest_dominator_def)
    moreover have "forward_block h v = ?new ?clear None 0 True" using 2 unfolding start by (simp add: Let_def)
    ultimately show ?thesis using same_flow_set by simp
  next
    case (3 p)
    have sub: "set (bb_in_edges ?b) \<subseteq> {p}" "p \<in> set (bb_in_edges ?b)" using 3(2) by simp_all
    note P = only_pred [OF ok v 3(1) sub(1)] and I = before [OF 3(3)]
    show ?thesis
    proof (cases "flow_reachable g p")
      case False
      then have "\<not> flow_reachable g v" using P(1) by auto
      then have "dominator_info g v (?new ?clear None 0 True)"
        using s by (simp add: dominator_info_def dominators_of_def nearest_dominator_def)
      moreover have "forward_block h v = ?new ?clear None 0 True"
        using 3 False I unfolding start by (simp add: Let_def dominator_info_def)
      ultimately show ?thesis using same_flow_set by simp
    next
      case True
      have r: "flow_reachable g v" using P(2) [OF True sub(2)] .
      let ?t = "BitSetCopy ?clear (bb_dominators (block_at h p))"
      let ?s = "BitSetInsert ?t v"
      have t: "bs_ok ?t" "bs_set ?t = dominators_of g p"
        using BitSetCopy_spec [OF s(1)] I by (auto simp: dominator_info_def)
      then have "bs_ok ?s" "bs_set ?s = dominators_of g v" using BitSetInsert_spec [OF t(1)] P(1) [OF r] by auto
      then have "dominator_info g v (?new ?s (Some p) (BitSetCount ?s) False)"
        using r 3(1) True P(1) [OF r] by (auto simp: dominator_info_def nearest_dominator_def BitSetCount_spec)
      moreover have "forward_block h v = ?new ?s (Some p) (BitSetCount ?s) False"
        using 3 True I idv unfolding start by (simp add: Let_def dominator_info_def)
      ultimately show ?thesis using same_flow_set by simp
    qed
  qed
qed

lemma forward_dominators:
  assumes ok: "flow_ok g" and f: "HasForwardSinglePredecessorCFG g"
  shows "dominators_stored g (CalculateForwardSinglePredecessorDominators g)"
proof -
  define F where "F = (\<lambda>g i. set_block i (forward_block g i) g)"
  have "num_blocks (foldl F g [0..<k]) = num_blocks g \<and> gen_entry_block (foldl F g [0..<k]) = gen_entry_block g \<and>
    foldl F g [0..<k] = g\<lparr>gen_basic_blocks := gen_basic_blocks (foldl F g [0..<k])\<rparr> \<and>
    (\<forall>v<k. same_flow (block_at g v) (block_at (foldl F g [0..<k]) v) \<and> dominator_info g v (block_at (foldl F g [0..<k]) v)) \<and>
    (\<forall>v\<ge>k. block_at (foldl F g [0..<k]) v = block_at g v)"
    if "k \<le> num_blocks g" for k
    using that
  proof (induction k)
    case (Suc k)
    let ?h = "foldl F g [0..<k]"
    have h: "num_blocks ?h = num_blocks g" "gen_entry_block ?h = gen_entry_block g"
      "?h = g\<lparr>gen_basic_blocks := gen_basic_blocks ?h\<rparr>"
      "\<And>v. v < k \<Longrightarrow> same_flow (block_at g v) (block_at ?h v) \<and> dominator_info g v (block_at ?h v)"
      "\<And>v. k \<le> v \<Longrightarrow> block_at ?h v = block_at g v" using Suc by auto
    have k: "k < num_blocks g" "k < num_blocks ?h" using Suc.prems h(1) by simp_all
    have new: "same_flow (block_at g k) (forward_block ?h k) \<and> dominator_info g k (forward_block ?h k)"
      using forward_block_spec [OF ok f k(1) h(2) h(5)] h(4) by simp
    have step: "foldl F g [0..<Suc k] = set_block k (forward_block ?h k) ?h" by (simp add: F_def)
    have at: "block_at (foldl F g [0..<Suc k]) v = (if v = k then forward_block ?h k else block_at ?h v)" for v
      unfolding step by (rule block_at_set_block [OF k(2)])
    have only: "foldl F g [0..<Suc k] = g\<lparr>gen_basic_blocks := gen_basic_blocks (foldl F g [0..<Suc k])\<rparr>"
      unfolding step by (rule set_block_only [OF h(3)])
    have "num_blocks (foldl F g [0..<Suc k]) = num_blocks g" "gen_entry_block (foldl F g [0..<Suc k]) = gen_entry_block g"
      unfolding step using h(1,2) by simp_all
    moreover have "\<forall>v<Suc k. same_flow (block_at g v) (block_at (foldl F g [0..<Suc k]) v) \<and>
        dominator_info g v (block_at (foldl F g [0..<Suc k]) v)"
      unfolding at using new h(4) by (simp add: less_Suc_eq)
    moreover have "\<forall>v\<ge>Suc k. block_at (foldl F g [0..<Suc k]) v = block_at g v"
      unfolding at using h(5) by simp
    ultimately show ?case using only by blast
  qed (simp_all)
  then show ?thesis
    unfolding dominators_stored_def CalculateForwardSinglePredecessorDominators_def F_def [symmetric] by blast
qed

end
