(* ===== verification/CfgFrontier.thy ===== *)
theory CfgFrontier
  imports CfgAnalysis
begin

text \<open>
  The rest of the analysis of the graph: the dominance frontiers, the dominator tree and the walk
  down the tree.
\<close>

section \<open>Dominators\<close>

lemma CalculateDominators_spec:
  assumes "flow_ok g"
  shows "\<exists>g'. CalculateDominators g = Some g' \<and> dominators_stored g g'"
  using general_dominators [OF assms] forward_dominators [OF assms] by (auto simp: CalculateDominators_def)

text \<open>The strict dominators, by the block that is the nearest.\<close>

definition dominators_from :: "generator \<Rightarrow> nat option \<Rightarrow> nat set" where
  "dominators_from g r = (case r of None \<Rightarrow> {} | Some u \<Rightarrow> dominators_of g u)"

lemma dominators_from_simps [simp]:
  "dominators_from g None = {}" "dominators_from g (Some u) = dominators_of g u"
  by (simp_all add: dominators_from_def)

lemma dominators_of_self: "flow_reachable g v \<Longrightarrow> v \<in> dominators_of g v"
  by (simp add: dominators_of_def)

lemma dominators_reachable: "d \<in> dominators_of g v \<Longrightarrow> flow_reachable g v"
  by (simp add: dominators_of_def split: if_splits)

lemma dominators_of_trans:
  "d \<in> dominators_of g s \<Longrightarrow> s \<in> dominators_of g v \<Longrightarrow> d \<in> dominators_of g v"
  using dominates_trans by (auto simp: dominators_of_def split: if_splits)

lemma strict_dominators:
  assumes "flow_ok g" "nearest_dominator g v r" "flow_reachable g v"
  shows "dominators_of g v = insert v (dominators_from g r)" "v \<notin> dominators_from g r"
  using assms dominators_of_entry by (auto simp: nearest_dominator_def split: option.splits)

lemma dominates_edge:
  assumes "flow_edge g p b" "flow_reachable g p" "d \<in> dominators_of g b" "d \<noteq> b"
  shows "d \<in> dominators_of g p"
  using assms dominates_pred by (fastforce simp: dominators_of_def split: if_splits)

section \<open>Frontiers\<close>

text \<open>Only frontiers change.\<close>

definition frontier_only :: "generator \<Rightarrow> generator \<Rightarrow> bool" where
  "frontier_only g h \<longleftrightarrow> num_blocks h = num_blocks g \<and> gen_entry_block h = gen_entry_block g \<and>
     h = g\<lparr>gen_basic_blocks := gen_basic_blocks h\<rparr> \<and>
     (\<forall>v < num_blocks g. bs_ok (bb_dominance_frontier (block_at h v)) \<and>
       block_at h v = (block_at g v)\<lparr>bb_dominance_frontier := bb_dominance_frontier (block_at h v)\<rparr>)"

lemma frontier_onlyD:
  assumes "frontier_only g h"
  shows "num_blocks h = num_blocks g" "gen_entry_block h = gen_entry_block g"
    "h = g\<lparr>gen_basic_blocks := gen_basic_blocks h\<rparr>"
    "v < num_blocks g \<Longrightarrow> bs_ok (bb_dominance_frontier (block_at h v))"
    "v < num_blocks g \<Longrightarrow> block_at h v = (block_at g v)\<lparr>bb_dominance_frontier := bb_dominance_frontier (block_at h v)\<rparr>"
  using assms unfolding frontier_only_def by simp_all

lemma frontier_fields:
  assumes "frontier_only g h" "v < num_blocks g"
  shows "bb_id (block_at h v) = bb_id (block_at g v)" "bb_in_edges (block_at h v) = bb_in_edges (block_at g v)"
    "bb_idom (block_at h v) = bb_idom (block_at g v)"
    "bb_reachability_known (block_at h v) = bb_reachability_known (block_at g v)"
    "bb_is_unreachable (block_at h v) = bb_is_unreachable (block_at g v)"
    "bb_dominatees (block_at h v) = bb_dominatees (block_at g v)"
    "dominator_info k v (block_at h v) = dominator_info k v (block_at g v)"
  by (subst frontier_onlyD(5) [OF assms], simp add: dominator_info_def)+

definition frontier_at :: "generator \<Rightarrow> nat \<Rightarrow> nat set" where
  "frontier_at g v = bs_set (bb_dominance_frontier (block_at g v))"

lemma AddToDF_spec:
  assumes f: "frontier_only g h" and v: "v < num_blocks g"
  shows "frontier_only g (BasicBlockAddToDF v b h)"
    "frontier_at (BasicBlockAddToDF v b h) y = frontier_at h y \<union> (if y = v then {b} else {})"
proof -
  let ?b = "(block_at h v)\<lparr>bb_dominance_frontier := BitSetInsert (bb_dominance_frontier (block_at h v)) b\<rparr>"
  have eq: "BasicBlockAddToDF v b h = set_block v ?b h" by (simp add: BasicBlockAddToDF_def on_block_def)
  note F = frontier_onlyD [OF f]
  have v': "v < num_blocks h" using v F(1) by simp
  have s: "bs_ok (BitSetInsert (bb_dominance_frontier (block_at h v)) b)"
    "bs_set (BitSetInsert (bb_dominance_frontier (block_at h v)) b) = insert b (frontier_at h v)"
    using BitSetInsert_spec [OF F(4) [OF v]] by (auto simp: frontier_at_def)
  show "frontier_at (BasicBlockAddToDF v b h) y = frontier_at h y \<union> (if y = v then {b} else {})"
    unfolding eq frontier_at_def block_at_set_block [OF v'] using s by (auto simp: frontier_at_def)
  have "?b = (block_at g v)\<lparr>bb_dominance_frontier := bb_dominance_frontier ?b\<rparr>"
    using arg_cong [OF F(5) [OF v], of "bb_dominance_frontier_update (\<lambda>_. bb_dominance_frontier ?b)"] by simp
  then show "frontier_only g (BasicBlockAddToDF v b h)"
    unfolding frontier_only_def eq block_at_set_block [OF v']
    using F(1,2,4,5) set_block_only [OF F(3)] s(1) by simp
qed


text \<open>The runner climbs to the nearest dominator of the block and not past it.\<close>

lemma frontier_runner_stop:
  "r = None \<or> r = bb_idom (block_at h b) \<Longrightarrow> frontier_runner b r h = Some h"
  by (subst frontier_runner.simps) (auto split: option.splits)

lemma frontier_runner_spec:
  assumes ok: "flow_ok k" and f: "frontier_only g h" and n: "num_blocks g = num_blocks k"
    and D: "\<And>v. v < num_blocks k \<Longrightarrow> dominator_info k v (block_at g v)"
    and b: "b < num_blocks g" "bb_id (block_at g b) = b"
    and x: "flow_reachable k x" "dominators_from k (bb_idom (block_at g b)) \<subseteq> dominators_of k x"
    and stop_self: "\<And>d. bb_idom (block_at g b) = Some d \<Longrightarrow> d \<in> dominators_of k d"
  shows "\<exists>h'. frontier_runner b (Some x) h = Some h' \<and> frontier_only g h' \<and>
    (\<forall>y. frontier_at h' y =
       frontier_at h y \<union> (if y \<in> dominators_of k x - dominators_from k (bb_idom (block_at g b)) then {b} else {}))"
  using f x
proof (induction "card (dominators_of k x)" arbitrary: x h rule: less_induct)
  case less
  let ?s = "bb_idom (block_at g b)"
  have xn: "x < num_blocks g" using reachable_in_range [OF ok less.prems(2)] n by simp
  have near: "nearest_dominator k x (bb_idom (block_at g x))" using D [of x] xn n by (simp add: dominator_info_def)
  note S = strict_dominators [OF ok near less.prems(2)]
  have hb: "bb_idom (block_at h b) = ?s" by (rule frontier_fields(3) [OF less.prems(1) b(1)])
  show ?case
  proof (cases "?s = Some x")
    case True
    then show ?thesis using less.prems(1) frontier_runner_stop [of "Some x" h b] hb by auto
  next
    case False
    let ?h = "BasicBlockAddToDF x b h"
    note A = AddToDF_spec [OF less.prems(1) xn, where b = b]
    have "bb_id (block_at h b) = b" using frontier_fields(1) [OF less.prems(1) b(1)] b(2) by simp
    moreover have "bb_idom (block_at ?h x) = bb_idom (block_at g x)" by (rule frontier_fields(3) [OF A(1) xn])
    ultimately have run: "frontier_runner b (Some x) h = frontier_runner b (bb_idom (block_at g x)) ?h"
      using False hb by (subst frontier_runner.simps) (auto simp: Let_def)
    have sub: "dominators_from k ?s \<subseteq> dominators_from k (bb_idom (block_at g x))"
    proof -
      have "x \<notin> dominators_from k ?s"
      proof
        assume a: "x \<in> dominators_from k ?s"
        then obtain d where d: "?s = Some d" "x \<in> dominators_of k d" by (auto simp: dominators_from_def split: option.splits)
        then have "d \<in> dominators_of k x" using stop_self [of d] less.prems(3) by auto
        then have "d \<in> dominators_from k (bb_idom (block_at g x))" using S(1) d False by auto
        then obtain u where u: "bb_idom (block_at g x) = Some u" "d \<in> dominators_of k u"
          by (auto simp: dominators_from_def split: option.splits)
        then show False using S(2) dominators_of_trans [OF d(2)] by simp
      qed
      then show ?thesis using less.prems(3) S(1) by auto
    qed
    show ?thesis
    proof (cases "bb_idom (block_at g x)")
      case None
      then show ?thesis using run A S sub frontier_runner_stop [of None ?h b] by auto
    next
      case (Some u)
      have ru: "flow_reachable k u" using near Some by (auto simp: nearest_dominator_def)
      have lt: "card (dominators_of k u) < card (dominators_of k x)"
        using S Some finite_dominators [OF ok, of u] by simp
      obtain h' where h': "frontier_runner b (Some u) ?h = Some h'" "frontier_only g h'"
        "\<And>y. frontier_at h' y = frontier_at ?h y \<union> (if y \<in> dominators_of k u - dominators_from k ?s then {b} else {})"
        using less.hyps [OF lt A(1) ru] sub Some by auto
      have "x \<notin> dominators_from k ?s" using sub S(2) by blast
      then show ?thesis using run h' A(2) S Some by auto
    qed
  qed
qed

text \<open>What a block adds: the dominators of its predecessors that do not strictly dominate it.\<close>

definition frontier_of :: "generator \<Rightarrow> nat \<Rightarrow> nat set" where
  "frontier_of g x = {b. \<exists>p. flow_edge g p b \<and> x \<in> dominators_of g p \<and> \<not> (x \<in> dominators_of g b \<and> x \<noteq> b)}"


lemma known_unreachable:
  assumes "dominator_info k v (block_at h v)" "gen_entry_block h = gen_entry_block k"
  shows "BasicBlockIsUnreachable v h = Some (\<not> flow_reachable k v, h)"
proof -
  have "flow_reachable k (gen_entry_block k)" by (auto intro: avoiding.start)
  then show ?thesis
    using assms unfolding BasicBlockIsUnreachable_def by (subst unreachable.simps) (auto simp: dominator_info_def)
qed

text \<open>What one block contributes to the frontier of another.\<close>

definition frontier_adds :: "generator \<Rightarrow> nat list \<Rightarrow> nat \<Rightarrow> nat \<Rightarrow> bool" where
  "frontier_adds g ps b y \<longleftrightarrow> (\<exists>p\<in>set ps. y \<in> dominators_of g p \<and> \<not> (y \<in> dominators_of g b \<and> y \<noteq> b))"

lemma frontier_adds_Cons:
  "frontier_adds g (p # ps) b y \<longleftrightarrow> y \<in> dominators_of g p \<and> \<not> (y \<in> dominators_of g b \<and> y \<noteq> b) \<or> frontier_adds g ps b y"
  by (auto simp: frontier_adds_def)

lemma frontier_edges_spec:
  assumes ok: "flow_ok k" and f: "frontier_only g h" and n: "num_blocks g = num_blocks k"
    and e: "gen_entry_block g = gen_entry_block k"
    and D: "\<And>v. v < num_blocks k \<Longrightarrow> dominator_info k v (block_at g v)"
    and b: "b < num_blocks g" "bb_id (block_at g b) = b" and ps: "\<And>p. p \<in> set ps \<Longrightarrow> flow_edge k p b"
  shows "\<exists>h'. frontier_edges b ps h = Some h' \<and> frontier_only g h' \<and>
    (\<forall>y. frontier_at h' y = frontier_at h y \<union> (if frontier_adds k ps b y then {b} else {}))"
  using f ps
proof (induction ps arbitrary: h)
  case Nil
  then show ?case by (simp add: frontier_adds_def)
next
  case (Cons p ps)
  have E: "flow_edge k p b" using Cons.prems(2) by simp
  have pn: "p < num_blocks g" using flow_okD(6) [OF ok E] n by simp
  have "dominator_info k p (block_at h p)" using frontier_fields(7) [OF Cons.prems(1) pn] D [of p] pn n by simp
  then have u: "BasicBlockIsUnreachable p h = Some (\<not> flow_reachable k p, h)"
    using known_unreachable frontier_onlyD(2) [OF Cons.prems(1)] e by simp
  have rest: "\<And>q. q \<in> set ps \<Longrightarrow> flow_edge k q b" using Cons.prems(2) by simp
  show ?case
  proof (cases "flow_reachable k p")
    case False
    then have "dominators_of k p = {}" by (simp add: dominators_of_def)
    then show ?thesis using Cons.IH [OF Cons.prems(1) rest] u False by (simp add: frontier_adds_Cons)
  next
    case True
    have rb: "flow_reachable k b" using avoiding.step [OF True E] by simp
    have near: "nearest_dominator k b (bb_idom (block_at g b))" using D [of b] b(1) n by (simp add: dominator_info_def)
    note S = strict_dominators [OF ok near rb]
    have strict: "y \<in> dominators_from k (bb_idom (block_at g b)) \<longleftrightarrow> y \<in> dominators_of k b \<and> y \<noteq> b" for y using S by auto
    have sub: "dominators_from k (bb_idom (block_at g b)) \<subseteq> dominators_of k p"
      using dominates_edge [OF E True] strict by blast
    have self: "d \<in> dominators_of k d" if "bb_idom (block_at g b) = Some d" for d
      using near that dominators_of_self by (auto simp: nearest_dominator_def)
    obtain h1 where h1: "frontier_runner b (Some p) h = Some h1" "frontier_only g h1"
      "\<And>y. frontier_at h1 y = frontier_at h y \<union>
         (if y \<in> dominators_of k p - dominators_from k (bb_idom (block_at g b)) then {b} else {})"
      using frontier_runner_spec [OF ok Cons.prems(1) n D b True sub self] by auto
    obtain h2 where h2: "frontier_edges b ps h1 = Some h2" "frontier_only g h2"
      "\<And>y. frontier_at h2 y = frontier_at h1 y \<union> (if frontier_adds k ps b y then {b} else {})"
      using Cons.IH [OF h1(2) rest] by auto
    show ?thesis using u True h1(1,3) h2 strict by (auto simp: frontier_adds_Cons)
  qed
qed

lemma frontier_blocks_spec:
  assumes ok: "flow_ok k" and f: "frontier_only g h" and n: "num_blocks g = num_blocks k"
    and e: "gen_entry_block g = gen_entry_block k"
    and D: "\<And>v. v < num_blocks k \<Longrightarrow> same_flow (block_at k v) (block_at g v) \<and> dominator_info k v (block_at g v)"
    and bs: "set bs \<subseteq> {..<num_blocks k}"
  shows "\<exists>h'. frontier_blocks bs h = Some h' \<and> frontier_only g h' \<and>
    (\<forall>y. frontier_at h' y = frontier_at h y \<union>
       {b \<in> set bs. 2 \<le> length (bb_in_edges (block_at k b)) \<and> frontier_adds k (bb_in_edges (block_at k b)) b y})"
  using f bs
proof (induction bs arbitrary: h)
  case (Cons b bs)
  have b: "b < num_blocks k" "b < num_blocks g" using Cons.prems(2) n by simp_all
  note same = same_flow_fields [OF conjunct1 [OF D [OF b(1)]]]
  have ins: "bb_in_edges (block_at h b) = bb_in_edges (block_at k b)"
    using frontier_fields(2) [OF Cons.prems(1) b(2)] same(2) by simp
  have idb: "bb_id (block_at g b) = b" using same(1) flow_okD(2) [OF ok b(1)] by simp
  have edges: "\<And>p. p \<in> set (bb_in_edges (block_at k b)) \<Longrightarrow> flow_edge k p b" using flow_okD(8) [OF ok b(1)] .
  have info: "\<And>v. v < num_blocks k \<Longrightarrow> dominator_info k v (block_at g v)" using D by blast
  have rest: "set bs \<subseteq> {..<num_blocks k}" using Cons.prems(2) by simp
  obtain h1 where h1: "BasicBlockCalculateDominanceFrontier b h = Some h1" "frontier_only g h1"
    "\<And>y. frontier_at h1 y = frontier_at h y \<union>
       (if 2 \<le> length (bb_in_edges (block_at k b)) \<and> frontier_adds k (bb_in_edges (block_at k b)) b y then {b} else {})"
  proof (cases "2 \<le> length (bb_in_edges (block_at k b))")
    case True
    obtain h1 where "frontier_edges b (bb_in_edges (block_at k b)) h = Some h1" "frontier_only g h1"
      "\<And>y. frontier_at h1 y = frontier_at h y \<union>
         (if frontier_adds k (bb_in_edges (block_at k b)) b y then {b} else {})"
      using frontier_edges_spec [OF ok Cons.prems(1) n e info b(2) idb edges] by blast
    then show thesis using that [of h1] True ins by (simp add: BasicBlockCalculateDominanceFrontier_def)
  next
    case False
    then show thesis using that Cons.prems(1) ins by (simp add: BasicBlockCalculateDominanceFrontier_def)
  qed
  obtain h2 where "frontier_blocks bs h1 = Some h2" "frontier_only g h2"
    "\<And>y. frontier_at h2 y = frontier_at h1 y \<union>
       {b \<in> set bs. 2 \<le> length (bb_in_edges (block_at k b)) \<and> frontier_adds k (bb_in_edges (block_at k b)) b y}"
    using Cons.IH [OF h1(2) rest] by auto
  then show ?case using h1(1,3) by auto
qed simp

text \<open>A block with one predecessor is in no frontier, unless it is the entry.\<close>

lemma frontier_of_adds:
  assumes ok: "flow_ok g" and e: "length (bb_in_edges (block_at g (gen_entry_block g))) \<noteq> 1"
  shows "{b \<in> {..<num_blocks g}. 2 \<le> length (bb_in_edges (block_at g b)) \<and>
      frontier_adds g (bb_in_edges (block_at g b)) b y} = frontier_of g y"
proof -
  have adds: "b < num_blocks g \<and> frontier_adds g (bb_in_edges (block_at g b)) b y \<longleftrightarrow> b \<in> frontier_of g y" for b
    unfolding frontier_adds_def frontier_of_def using flow_okD(5,7,8) [OF ok] by blast
  have "2 \<le> length (bb_in_edges (block_at g b))" if b: "b \<in> frontier_of g y" for b
  proof (rule ccontr)
    assume short: "\<not> 2 \<le> length (bb_in_edges (block_at g b))"
    obtain p where p: "flow_edge g p b" "y \<in> dominators_of g p" "\<not> (y \<in> dominators_of g b \<and> y \<noteq> b)"
      using b by (auto simp: frontier_of_def)
    have pin: "p \<in> set (bb_in_edges (block_at g b))" "b < num_blocks g" using flow_okD(5,7) [OF ok p(1)] by simp_all
    then have one: "bb_in_edges (block_at g b) = [p]" using short by (cases "bb_in_edges (block_at g b)") (auto simp: Suc_le_eq)
    then have "b \<noteq> gen_entry_block g" using e by auto
    note P = only_pred [OF ok pin(2) this, of p]
    have "flow_reachable g b" using P(2) dominators_reachable [OF p(2)] one by simp
    then show False using P(1) one p(2,3) by auto
  qed
  then show ?thesis using adds by blast
qed


section \<open>The tree\<close>

definition children :: "generator \<Rightarrow> nat \<Rightarrow> nat \<Rightarrow> nat list" where
  "children g k v = filter (\<lambda>i. bb_idom (block_at g i) = Some v) [0..<k]"

definition with_dominatees :: "generator \<Rightarrow> nat \<Rightarrow> nat \<Rightarrow> basic_block" where
  "with_dominatees g k v = (block_at g v)\<lparr>bb_dominatees := bb_dominatees (block_at g v) @ children g k v\<rparr>"

lemma BuildDominatorTree_spec:
  assumes ids: "\<And>v. v < num_blocks g \<Longrightarrow> bb_id (block_at g v) = v"
    and idoms: "\<And>v d. v < num_blocks g \<Longrightarrow> bb_idom (block_at g v) = Some d \<Longrightarrow> d < num_blocks g"
  shows "num_blocks (BuildDominatorTree g) = num_blocks g" "gen_entry_block (BuildDominatorTree g) = gen_entry_block g"
    "BuildDominatorTree g = g\<lparr>gen_basic_blocks := gen_basic_blocks (BuildDominatorTree g)\<rparr>"
    "v < num_blocks g \<Longrightarrow> block_at (BuildDominatorTree g) v = with_dominatees g (num_blocks g) v"
proof -
  have "num_blocks (foldl link_dominatee g [0..<k]) = num_blocks g \<and>
      gen_entry_block (foldl link_dominatee g [0..<k]) = gen_entry_block g \<and>
      foldl link_dominatee g [0..<k] = g\<lparr>gen_basic_blocks := gen_basic_blocks (foldl link_dominatee g [0..<k])\<rparr> \<and>
      (\<forall>v < num_blocks g. block_at (foldl link_dominatee g [0..<k]) v = with_dominatees g k v)"
    if "k \<le> num_blocks g" for k
    using that
  proof (induction k)
    case (Suc k)
    let ?h = "foldl link_dominatee g [0..<k]"
    have h: "num_blocks ?h = num_blocks g" "gen_entry_block ?h = gen_entry_block g"
      "?h = g\<lparr>gen_basic_blocks := gen_basic_blocks ?h\<rparr>"
      "\<And>v. v < num_blocks g \<Longrightarrow> block_at ?h v = with_dominatees g k v"
      and k: "k < num_blocks g" using Suc by auto
    have at: "bb_idom (block_at ?h k) = bb_idom (block_at g k)" "bb_id (block_at ?h k) = k"
      using h(4) [OF k] ids [OF k] by (simp_all add: with_dominatees_def)
    have step: "foldl link_dominatee g [0..<Suc k] = link_dominatee ?h k" by simp
    show ?case
    proof (cases "bb_idom (block_at g k)")
      case None
      then have "children g (Suc k) v = children g k v" for v by (simp add: children_def)
      moreover have "link_dominatee ?h k = ?h" using None at by (simp add: link_dominatee_def)
      ultimately show ?thesis unfolding step using h by (simp add: with_dominatees_def)
    next
      case (Some d)
      let ?b = "(block_at ?h d)\<lparr>bb_dominatees := bb_dominatees (block_at ?h d) @ [k]\<rparr>"
      have d: "d < num_blocks g" "d < num_blocks ?h" using idoms [OF k Some] h(1) by simp_all
      have new: "link_dominatee ?h k = set_block d ?b ?h"
        using Some at by (simp add: link_dominatee_def on_block_def)
      have "children g (Suc k) v = children g k v @ (if v = d then [k] else [])" for v using Some by (simp add: children_def)
      then have "block_at (link_dominatee ?h k) v = with_dominatees g (Suc k) v" if "v < num_blocks g" for v
        unfolding new block_at_set_block [OF d(2)] using h(4) [OF that] h(4) [OF d(1)] by (simp add: with_dominatees_def)
      moreover have "link_dominatee ?h k = g\<lparr>gen_basic_blocks := gen_basic_blocks (link_dominatee ?h k)\<rparr>"
        unfolding new by (rule set_block_only [OF h(3)])
      ultimately show ?thesis unfolding step using h(1,2) by (simp add: new)
    qed
  qed (simp add: with_dominatees_def children_def)
  from this [of "num_blocks g"] show "num_blocks (BuildDominatorTree g) = num_blocks g"
    "gen_entry_block (BuildDominatorTree g) = gen_entry_block g"
    "BuildDominatorTree g = g\<lparr>gen_basic_blocks := gen_basic_blocks (BuildDominatorTree g)\<rparr>"
    "v < num_blocks g \<Longrightarrow> block_at (BuildDominatorTree g) v = with_dominatees g (num_blocks g) v"
    unfolding BuildDominatorTree_def by simp_all
qed

section \<open>The analysis\<close>

text \<open>The fields of a block that the analysis may change.\<close>

definition analysis_only :: "basic_block \<Rightarrow> basic_block \<Rightarrow> bool" where
  "analysis_only b b' \<longleftrightarrow> b' = b\<lparr>bb_dominators := bb_dominators b', bb_num_dominators := bb_num_dominators b',
     bb_idom := bb_idom b', bb_reachability_known := bb_reachability_known b',
     bb_is_unreachable := bb_is_unreachable b', bb_dominance_frontier := bb_dominance_frontier b',
     bb_dominatees := bb_dominatees b'\<rparr>"

definition analyzed :: "generator \<Rightarrow> generator \<Rightarrow> bool" where
  "analyzed g g' \<longleftrightarrow> num_blocks g' = num_blocks g \<and> gen_entry_block g' = gen_entry_block g \<and>
     g' = g\<lparr>gen_basic_blocks := gen_basic_blocks g'\<rparr> \<and>
     (\<forall>v < num_blocks g. analysis_only (block_at g v) (block_at g' v) \<and> dominator_info g v (block_at g' v) \<and>
        frontier_at g' v = frontier_of g v \<and> bs_ok (bb_dominance_frontier (block_at g' v)) \<and> bb_dominatees (block_at g' v) = children g' (num_blocks g) v)"

lemma reset_blocks:
  "num_blocks (ResetCFGAnalysis g) = num_blocks g" "gen_entry_block (ResetCFGAnalysis g) = gen_entry_block g"
  "v < num_blocks g \<Longrightarrow> block_at (ResetCFGAnalysis g) v = (block_at g v)\<lparr>
     bb_dominators := BitSetClear (bb_dominators (block_at g v)), bb_num_dominators := 0, bb_dominatees := [],
     bb_dominance_frontier := BitSetClear (bb_dominance_frontier (block_at g v)), bb_idom := None,
     bb_reachability_known := False, bb_is_unreachable := False\<rparr>"
  by (simp_all add: ResetCFGAnalysis_def num_blocks_def block_at_def)

lemma reset_flow_edge: "flow_edge (ResetCFGAnalysis g) = flow_edge g"
  by (intro ext) (auto simp: flow_edge_def reset_blocks)

lemma reset_flow_ok:
  assumes ok: "flow_ok g"
  shows "flow_ok (ResetCFGAnalysis g)"
proof -
  note D = flow_okD [OF ok]
  have out: "v < num_blocks g \<and> u \<in> set (bb_in_edges (block_at g v))"
    if "u < num_blocks g" "v \<in> set (bb_out_edges (block_at g u))" for u v
    using D(5,7) [of u v] that by (simp add: flow_edge_def)
  have ins: "v < num_blocks g \<and> u \<in> set (bb_out_edges (block_at g v))"
    if "u < num_blocks g" "v \<in> set (bb_in_edges (block_at g u))" for u v
    using D(8) [OF that] by (simp add: flow_edge_def)
  show ?thesis
  proof (rule flow_okI)
    fix u assume "u < num_blocks (ResetCFGAnalysis g)"
    then have u: "u < num_blocks g" by (simp add: reset_blocks)
    show "bb_id (block_at (ResetCFGAnalysis g) u) = u \<and> bs_ok (bb_dominators (block_at (ResetCFGAnalysis g) u)) \<and>
        bs_ok (bb_dominance_frontier (block_at (ResetCFGAnalysis g) u))"
      using D(2-4) [OF u] BitSetClear_spec u by (simp add: reset_blocks)
    fix v
    show "v < num_blocks (ResetCFGAnalysis g) \<and> u \<in> set (bb_in_edges (block_at (ResetCFGAnalysis g) v))"
      if "v \<in> set (bb_out_edges (block_at (ResetCFGAnalysis g) u))"
      using out [OF u, of v] that u by (simp add: reset_blocks)
    show "v < num_blocks (ResetCFGAnalysis g) \<and> u \<in> set (bb_out_edges (block_at (ResetCFGAnalysis g) v))"
      if "v \<in> set (bb_in_edges (block_at (ResetCFGAnalysis g) u))"
      using ins [OF u, of v] that u by (simp add: reset_blocks)
  qed (use D(1) in \<open>simp add: reset_blocks\<close>)
qed

lemma reset_dominators:
  "dominators_of (ResetCFGAnalysis g) = dominators_of g" "dominator_info (ResetCFGAnalysis g) = dominator_info g"
  "frontier_of (ResetCFGAnalysis g) = frontier_of g"
proof -
  show D: "dominators_of (ResetCFGAnalysis g) = dominators_of g"
    by (intro ext) (simp add: dominators_of_def reset_flow_edge reset_blocks)
  show "dominator_info (ResetCFGAnalysis g) = dominator_info g"
    by (intro ext) (simp add: dominator_info_def nearest_dominator_def D reset_flow_edge reset_blocks cong: option.case_cong)
  show "frontier_of (ResetCFGAnalysis g) = frontier_of g"
    by (intro ext) (simp add: frontier_of_def D reset_flow_edge)
qed

lemma analysis_steps:
  assumes "b1 = b\<lparr>bb_dominators := s, bb_num_dominators := 0, bb_dominatees := t, bb_dominance_frontier := f,
      bb_idom := None, bb_reachability_known := False, bb_is_unreachable := False\<rparr>"
    "same_flow b1 b2" "b3 = b2\<lparr>bb_dominance_frontier := f'\<rparr>" "b4 = b3\<lparr>bb_dominatees := t'\<rparr>"
  shows "analysis_only b b4"
proof -
  obtain d k i a u where "b2 = b1\<lparr>bb_dominators := d, bb_num_dominators := k, bb_idom := i,
      bb_reachability_known := a, bb_is_unreachable := u\<rparr>"
    using assms(2) by (auto simp only: same_flow_def)
  then show ?thesis using assms(1,3,4) by (simp add: analysis_only_def)
qed


lemma frontier_only_start:
  assumes ok: "flow_ok k" and g: "dominators_stored k g" and empty: "\<And>v. v < num_blocks k \<Longrightarrow> frontier_at k v = {}"
  shows "frontier_only g g" "v < num_blocks k \<Longrightarrow> frontier_at g v = {}"
proof -
  have at: "bb_dominance_frontier (block_at g v) = bb_dominance_frontier (block_at k v)" if "v < num_blocks k" for v
    using g that same_flow_fields(4) unfolding dominators_stored_def by blast
  show "v < num_blocks k \<Longrightarrow> frontier_at g v = {}" using at empty by (simp add: frontier_at_def)
  have "num_blocks g = num_blocks k" using g by (simp add: dominators_stored_def)
  then show "frontier_only g g" unfolding frontier_only_def using at flow_okD(4) [OF ok] by simp
qed

text \<open>After the frontiers, before the tree.\<close>

definition frontiers_done :: "generator \<Rightarrow> generator \<Rightarrow> bool" where
  "frontiers_done g g2 \<longleftrightarrow> num_blocks g2 = num_blocks g \<and> gen_entry_block g2 = gen_entry_block g \<and>
     (\<exists>bs. g2 = g\<lparr>gen_basic_blocks := bs\<rparr>) \<and>
     (\<forall>v < num_blocks g. bb_id (block_at g2 v) = v \<and> bb_dominatees (block_at g2 v) = [] \<and>
        analysis_only (block_at g v) (block_at g2 v) \<and> dominator_info g v (block_at g2 v) \<and>
        frontier_at g2 v = frontier_of g v \<and> bs_ok (bb_dominance_frontier (block_at g2 v)))"

lemma frontiers_block:
  assumes ok: "flow_ok g" and v: "v < num_blocks g"
    and s: "same_flow (block_at (ResetCFGAnalysis g) v) (block_at g1 v)" and n: "num_blocks g1 = num_blocks g"
    and i: "dominator_info (ResetCFGAnalysis g) v (block_at g1 v)" and f: "frontier_only g1 g2"
  shows "bb_id (block_at g2 v) = v" "bb_dominatees (block_at g2 v) = []"
    "analysis_only (block_at g v) (block_at g2 v)" "dominator_info g v (block_at g2 v)"
    "bs_ok (bb_dominance_frontier (block_at g2 v))"
proof -
  have v1: "v < num_blocks g1" using v n by simp
  note fields = frontier_fields [OF f v1] and same = same_flow_fields [OF s]
  show "bs_ok (bb_dominance_frontier (block_at g2 v))" by (rule frontier_onlyD(4) [OF f v1])
  show "bb_id (block_at g2 v) = v" using fields(1) same(1) flow_okD(2) [OF ok v] v by (simp add: reset_blocks)
  show t: "bb_dominatees (block_at g2 v) = []" using fields(6) same(5) v by (simp add: reset_blocks)
  show "dominator_info g v (block_at g2 v)" using fields(7) i by (simp add: reset_dominators)
  have "block_at g2 v = (block_at g2 v)\<lparr>bb_dominatees := []\<rparr>" using t by simp
  then show "analysis_only (block_at g v) (block_at g2 v)"
    by (rule analysis_steps [OF reset_blocks(3) [OF v] s frontier_onlyD(5) [OF f v1]])
qed

lemma frontiers_spec:
  assumes ok: "flow_ok g" and e: "length (bb_in_edges (block_at g (gen_entry_block g))) \<noteq> 1"
  shows "\<exists>g1 g2. CalculateDominators (ResetCFGAnalysis g) = Some g1 \<and> CalculateDominanceFrontier g1 = Some g2 \<and>
    frontiers_done g g2"
proof -
  let ?k = "ResetCFGAnalysis g" and ?n = "num_blocks g"
  have ok': "flow_ok ?k" by (rule reset_flow_ok [OF ok])
  obtain g1 where g1: "CalculateDominators ?k = Some g1" "dominators_stored ?k g1" using CalculateDominators_spec [OF ok'] by blast
  have s: "num_blocks g1 = num_blocks ?k" "gen_entry_block g1 = gen_entry_block ?k" "g1 = ?k\<lparr>gen_basic_blocks := gen_basic_blocks g1\<rparr>"
    "\<And>v. v < num_blocks ?k \<Longrightarrow> same_flow (block_at ?k v) (block_at g1 v) \<and> dominator_info ?k v (block_at g1 v)"
    using g1(2) by (simp_all add: dominators_stored_def)
  have empty: "frontier_at ?k v = {}" if "v < num_blocks ?k" for v
    using BitSetClear_spec [OF flow_okD(4) [OF ok, of v]] that by (simp add: frontier_at_def reset_blocks)
  note start = frontier_only_start [OF ok' g1(2) empty]
  have sub: "set [0..<num_blocks ?k] \<subseteq> {..<num_blocks ?k}" by auto
  obtain g2 where g2: "frontier_blocks [0..<num_blocks ?k] g1 = Some g2" "frontier_only g1 g2"
    "\<And>y. frontier_at g2 y = frontier_at g1 y \<union> {b \<in> set [0..<num_blocks ?k]. 2 \<le> length (bb_in_edges (block_at ?k b)) \<and>
       frontier_adds ?k (bb_in_edges (block_at ?k b)) b y}"
    using frontier_blocks_spec [OF ok' start(1) s(1,2) s(4) sub] by auto
  have "length (bb_in_edges (block_at ?k (gen_entry_block ?k))) \<noteq> 1" using e flow_okD(1) [OF ok] by (simp add: reset_blocks)
  note exact = frontier_of_adds [OF ok' this]
  have front: "frontier_at g2 y = frontier_of g y" if "y < ?n" for y
    using g2(3) [of y] start(2) [of y] that exact [of y] by (simp add: reset_blocks reset_dominators lessThan_atLeast0)
  have block: "bb_id (block_at g2 v) = v \<and> bb_dominatees (block_at g2 v) = [] \<and>
      analysis_only (block_at g v) (block_at g2 v) \<and> dominator_info g v (block_at g2 v) \<and>
      bs_ok (bb_dominance_frontier (block_at g2 v))" if v: "v < ?n" for v
    using frontiers_block [OF ok v _ _ _ g2(2)] s(1) s(4) [of v] v by (simp add: reset_blocks)
  have "g2 = (?k\<lparr>gen_basic_blocks := gen_basic_blocks g1\<rparr>)\<lparr>gen_basic_blocks := gen_basic_blocks g2\<rparr>"
    using frontier_onlyD(3) [OF g2(2)] s(3) by (rule back_subst [of "\<lambda>x. g2 = x\<lparr>gen_basic_blocks := gen_basic_blocks g2\<rparr>"])
  then have "\<exists>bs. g2 = g\<lparr>gen_basic_blocks := bs\<rparr>" by (auto simp: ResetCFGAnalysis_def)
  moreover have "num_blocks g2 = ?n" "gen_entry_block g2 = gen_entry_block g"
    using frontier_onlyD(1,2) [OF g2(2)] s(1,2) by (simp_all add: reset_blocks)
  ultimately have "frontiers_done g g2" using front block by (simp add: frontiers_done_def)
  then show ?thesis using g1(1) g2(1) s(1) by (simp add: CalculateDominanceFrontier_def)
qed

lemma analysis_only_dominatees: "analysis_only b c \<Longrightarrow> analysis_only b (c\<lparr>bb_dominatees := t\<rparr>)"
  unfolding analysis_only_def by (drule arg_cong [of _ _ "bb_dominatees_update (\<lambda>_. t)"]) simp

lemma frontiers_tree:
  assumes ok: "flow_ok g" and d: "frontiers_done g g2"
  shows "analyzed g (BuildDominatorTree g2)"
proof -
  let ?g = "BuildDominatorTree g2" and ?n = "num_blocks g"
  have s: "num_blocks g2 = ?n" "gen_entry_block g2 = gen_entry_block g" "\<exists>bs. g2 = g\<lparr>gen_basic_blocks := bs\<rparr>"
    "\<And>v. v < ?n \<Longrightarrow> bb_id (block_at g2 v) = v" "\<And>v. v < ?n \<Longrightarrow> bb_dominatees (block_at g2 v) = []"
    "\<And>v. v < ?n \<Longrightarrow> analysis_only (block_at g v) (block_at g2 v)" "\<And>v. v < ?n \<Longrightarrow> dominator_info g v (block_at g2 v)"
    "\<And>v. v < ?n \<Longrightarrow> frontier_at g2 v = frontier_of g v" "\<And>v. v < ?n \<Longrightarrow> bs_ok (bb_dominance_frontier (block_at g2 v))"
    using d by (simp_all add: frontiers_done_def)
  have ids: "bb_id (block_at g2 v) = v" if "v < num_blocks g2" for v using s(1,4) that by simp
  have idoms: "d < num_blocks g2" if "v < num_blocks g2" "bb_idom (block_at g2 v) = Some d" for v d
    using s(7) [of v] that s(1) reachable_in_range [OF ok] by (simp add: dominator_info_def nearest_dominator_def)
  have T: "num_blocks ?g = num_blocks g2" "gen_entry_block ?g = gen_entry_block g2"
    "?g = g2\<lparr>gen_basic_blocks := gen_basic_blocks ?g\<rparr>"
    "\<And>v. v < num_blocks g2 \<Longrightarrow> block_at ?g v = with_dominatees g2 (num_blocks g2) v"
    using BuildDominatorTree_spec [of g2] ids idoms by blast+
  have at: "block_at ?g v = (block_at g2 v)\<lparr>bb_dominatees := children g2 ?n v\<rparr>" if "v < ?n" for v
    using T(4) [of v] that s(1,5) by (simp add: with_dominatees_def)
  have "children ?g ?n v = children g2 ?n v" for v unfolding children_def by (rule filter_cong) (simp_all add: at)
  moreover have "analysis_only (block_at g v) (block_at ?g v)" if "v < ?n" for v
    unfolding at [OF that] by (rule analysis_only_dominatees [OF s(6) [OF that]])
  moreover have "?g = g\<lparr>gen_basic_blocks := gen_basic_blocks ?g\<rparr>"
  proof -
    obtain bs where "g2 = g\<lparr>gen_basic_blocks := bs\<rparr>" using s(3) by blast
    then have "g2\<lparr>gen_basic_blocks := c\<rparr> = g\<lparr>gen_basic_blocks := c\<rparr>" for c by simp
    then show ?thesis using T(3) by metis
  qed
  ultimately show ?thesis
    unfolding analyzed_def using at T(1,2) s(1,2,7,8,9) by (simp add: dominator_info_def frontier_at_def)
qed

lemma AnalyzeCFG_spec:
  assumes "flow_ok g" "length (bb_in_edges (block_at g (gen_entry_block g))) \<noteq> 1"
  shows "\<exists>g'. AnalyzeCFG g = Some g' \<and> analyzed g g'"
  using frontiers_spec [OF assms] frontiers_tree [OF assms(1)] by (auto simp: AnalyzeCFG_def)

end
