(* ===== verification/CfgTree.thy ===== *)
theory CfgTree
  imports CfgFrontier
begin

text \<open>
  What the other passes ask of the graph: the walk down the dominator tree, the edges they add and
  remove, and the test for a block that nothing reaches.
\<close>

section \<open>The walk down the tree\<close>

lemma analyzedD:
  assumes "analyzed g g'"
  shows "num_blocks g' = num_blocks g" "v < num_blocks g \<Longrightarrow> dominator_info g v (block_at g' v)"
    "v < num_blocks g \<Longrightarrow> nearest_dominator g v (bb_idom (block_at g' v))"
    "v < num_blocks g \<Longrightarrow> bb_dominatees (block_at g' v) = children g' (num_blocks g) v"
    "v < num_blocks g \<Longrightarrow> frontier_at g' v = frontier_of g v"
    "v < num_blocks g \<Longrightarrow> bs_ok (bb_dominance_frontier (block_at g' v))"
    "v < num_blocks g \<Longrightarrow> analysis_only (block_at g v) (block_at g' v)"
  using assms by (simp_all add: analyzed_def dominator_info_def)

lemma child_dominators:
  assumes "flow_ok g" "analyzed g g'" "c \<in> set (children g' (num_blocks g) d)"
  shows "c < num_blocks g" "flow_reachable g c" "dominators_of g c = insert c (dominators_of g d)" "c \<notin> dominators_of g d"
    "flow_reachable g d"
  using assms analyzedD(3) [OF assms(2), of c] by (auto simp: children_def nearest_dominator_def)

text \<open>A strict dominator has a child on the way to the block.\<close>

lemma dominating_child:
  assumes ok: "flow_ok g" and a: "analyzed g g'" and d: "d \<in> dominators_of g b" "d \<noteq> b"
  shows "\<exists>c \<in> set (children g' (num_blocks g) d). c \<in> dominators_of g b"
  using d
proof (induction "card (dominators_of g b)" arbitrary: b rule: less_induct)
  case less
  have r: "flow_reachable g b" using dominators_reachable [OF less.prems(1)] .
  have bn: "b < num_blocks g" using reachable_in_range [OF ok r] .
  note near = analyzedD(3) [OF a bn]
  note S = strict_dominators [OF ok near r]
  then obtain u where u: "bb_idom (block_at g' b) = Some u" "d \<in> dominators_of g u"
    using less.prems by (cases "bb_idom (block_at g' b)") auto
  have D: "dominators_of g b = insert b (dominators_of g u)" "b \<notin> dominators_of g u" using S u(1) by simp_all
  show ?case
  proof (cases "d = u")
    case True
    then have "b \<in> set (children g' (num_blocks g) d)" using u(1) bn by (simp add: children_def)
    then show ?thesis using dominators_of_self [OF r] by blast
  next
    case False
    have "card (dominators_of g u) < card (dominators_of g b)" using D finite_dominators [OF ok, of u] by simp
    then show ?thesis using less.hyps [OF _ u(2) False] D(1) by blast
  qed
qed

lemma strictly_dominates_child:
  assumes ok: "flow_ok g" and a: "analyzed g g'"
  shows "(\<exists>c \<in> set (children g' (num_blocks g) d). c \<in> dominators_of g b) \<longleftrightarrow> d \<in> dominators_of g b \<and> d \<noteq> b"
proof
  assume "\<exists>c \<in> set (children g' (num_blocks g) d). c \<in> dominators_of g b"
  then obtain c where c: "c \<in> set (children g' (num_blocks g) d)" "c \<in> dominators_of g b" by blast
  note C = child_dominators [OF ok a c(1)]
  have d: "d \<in> dominators_of g c" using C(3) dominators_of_self [OF C(5)] by blast
  then show "d \<in> dominators_of g b \<and> d \<noteq> b" using dominators_of_trans [OF d c(2)] C(4) c(2) by auto
qed (use dominating_child [OF ok a] in blast)

lemma walk_children:
  assumes "\<And>c. c \<in> set cs \<Longrightarrow> f c = Some (c \<noteq> b \<and> P c)"
  shows "foldr (\<lambda>c r. if b = c then Some True
      else case f c of None \<Rightarrow> None | Some True \<Rightarrow> Some True | Some False \<Rightarrow> r) cs (Some False) =
    Some (\<exists>c\<in>set cs. c = b \<or> P c)"
  using assms by (induction cs) (auto split: bool.splits)

lemma card_dominators: "flow_ok g \<Longrightarrow> card (dominators_of g v) \<le> num_blocks g"
proof -
  assume ok: "flow_ok g"
  have "avoiding (gen_entry_block g) (flow_edge g) {d} x" if "flow_reachable g x" "\<not> d < num_blocks g" for d x
    using that(1) by induction (use that(2) flow_okD(1,5) [OF ok] in \<open>auto intro: avoiding.intros\<close>)
  then have "dominators_of g v \<subseteq> {..<num_blocks g}" by (auto simp: dominators_of_def dominates_def)
  then show ?thesis using card_mono [of "{..<num_blocks g}"] by simp
qed

lemma BasicBlockDominatedBy_spec:
  assumes ok: "flow_ok g" and a: "analyzed g g'" and d: "d < num_blocks g"
    and fuel: "num_blocks g < fuel + card (dominators_of g d)" "0 < fuel"
  shows "BasicBlockDominatedBy fuel g' d b = Some (d \<noteq> b \<and> d \<in> dominators_of g b)"
  using d fuel
proof (induction fuel arbitrary: d)
  case (Suc k)
  let ?cs = "children g' (num_blocks g) d"
  have rec: "BasicBlockDominatedBy k g' c b = Some (c \<noteq> b \<and> c \<in> dominators_of g b)" if c: "c \<in> set ?cs" for c
  proof -
    note C = child_dominators [OF ok a c]
    have "card (dominators_of g c) = Suc (card (dominators_of g d))" using C(3,4) finite_dominators [OF ok, of d] by simp
    then show ?thesis using Suc.IH [OF C(1)] Suc.prems(2) card_dominators [OF ok, of c] by simp
  qed
  have "b \<in> dominators_of g b" if "b \<in> set ?cs" using dominators_of_self [OF child_dominators(2) [OF ok a that]] .
  then have "(\<exists>c\<in>set ?cs. c = b \<or> c \<in> dominators_of g b) \<longleftrightarrow> d \<in> dominators_of g b \<and> d \<noteq> b"
    using strictly_dominates_child [OF ok a, of d b] by blast
  then show ?case
    using walk_children [of ?cs "\<lambda>c. BasicBlockDominatedBy k g' c b" b, OF rec] analyzedD(4) [OF a Suc.prems(1)] by auto
qed simp

section \<open>Edges\<close>

lemma on_block_at:
  "i < num_blocks g \<Longrightarrow> block_at (on_block i f g) j = (if j = i then f (block_at g i) else block_at g j)"
  "num_blocks (on_block i f g) = num_blocks g" "gen_entry_block (on_block i f g) = gen_entry_block g"
  by (simp_all add: on_block_def block_at_set_block)

lemma AddEdge_blocks:
  assumes "flow_ok g" "a < num_blocks g" "b < num_blocks g"
  shows "num_blocks (BasicBlockAddEdge a b g) = num_blocks g"
    "gen_entry_block (BasicBlockAddEdge a b g) = gen_entry_block g"
    "bb_id (block_at (BasicBlockAddEdge a b g) v) = bb_id (block_at g v)"
    "bb_dominators (block_at (BasicBlockAddEdge a b g) v) = bb_dominators (block_at g v)"
    "bb_dominance_frontier (block_at (BasicBlockAddEdge a b g) v) = bb_dominance_frontier (block_at g v)"
    "bb_out_edges (block_at (BasicBlockAddEdge a b g) v) = bb_out_edges (block_at g v) @ (if v = a then [b] else [])"
    "bb_in_edges (block_at (BasicBlockAddEdge a b g) v) = bb_in_edges (block_at g v) @ (if v = b then [a] else [])"
  using assms(2,3) flow_okD(2) [OF assms(1,2)] flow_okD(2) [OF assms(1,3)]
  by (simp_all add: BasicBlockAddEdge_def BasicBlockAddInEdge_def Let_def on_block_at forget_reachability_def)

lemma AddEdge_flow_ok:
  assumes ok: "flow_ok g" and a: "a < num_blocks g" and b: "b < num_blocks g"
  shows "flow_ok (BasicBlockAddEdge a b g)"
    "flow_edge (BasicBlockAddEdge a b g) u v \<longleftrightarrow> flow_edge g u v \<or> u = a \<and> v = b"
proof -
  note B = AddEdge_blocks [OF ok a b] and D = flow_okD [OF ok]
  show E: "flow_edge (BasicBlockAddEdge a b g) u v \<longleftrightarrow> flow_edge g u v \<or> u = a \<and> v = b" for u v
    using a by (auto simp: flow_edge_def B)
  have out: "v < num_blocks g \<and> u \<in> set (bb_in_edges (block_at g v))"
    if "u < num_blocks g" "v \<in> set (bb_out_edges (block_at g u))" for u v
    using D(5,7) [of u v] that by (simp add: flow_edge_def)
  have ins: "v < num_blocks g \<and> u \<in> set (bb_out_edges (block_at g v))"
    if "u < num_blocks g" "v \<in> set (bb_in_edges (block_at g u))" for u v
    using D(8) [OF that] by (simp add: flow_edge_def)
  show "flow_ok (BasicBlockAddEdge a b g)"
  proof (rule flow_okI)
    fix u assume "u < num_blocks (BasicBlockAddEdge a b g)"
    then have u: "u < num_blocks g" by (simp add: B)
    show "bb_id (block_at (BasicBlockAddEdge a b g) u) = u \<and> bs_ok (bb_dominators (block_at (BasicBlockAddEdge a b g) u)) \<and>
        bs_ok (bb_dominance_frontier (block_at (BasicBlockAddEdge a b g) u))"
      using D(2-4) [OF u] by (simp add: B)
    fix v
    show "v < num_blocks (BasicBlockAddEdge a b g) \<and> u \<in> set (bb_in_edges (block_at (BasicBlockAddEdge a b g) v))"
      if "v \<in> set (bb_out_edges (block_at (BasicBlockAddEdge a b g) u))"
      using out [OF u, of v] that a b by (auto simp: B split: if_splits)
    show "v < num_blocks (BasicBlockAddEdge a b g) \<and> u \<in> set (bb_out_edges (block_at (BasicBlockAddEdge a b g) v))"
      if "v \<in> set (bb_in_edges (block_at (BasicBlockAddEdge a b g) u))"
      using ins [OF u, of v] that a b by (auto simp: B split: if_splits)
  qed (use D(1) in \<open>simp add: B\<close>)
qed

end
