(* ===== verification/CfgTheorems.thy ===== *)
theory CfgTheorems
  imports CfgTree
begin

text \<open>
  The properties of the analysis of the control-flow graph.
\<close>

section \<open>A graph\<close>

text \<open>Two branches that meet in a loop, and a block that nothing reaches.\<close>

definition demo_flow_block :: "nat \<Rightarrow> nat list \<Rightarrow> nat list \<Rightarrow> basic_block" where
  "demo_flow_block i ins outs = (NewBasicBlock i)\<lparr>bb_in_edges := ins, bb_out_edges := outs\<rparr>"

definition demo_flow_symbol :: ir_symbol where
  "demo_flow_symbol = \<lparr>sym_type = None, sym_storage = 0, sym_address_taken = False, sym_is_argument = False,
                       sym_is_temp = False, sym_is_local = True\<rparr>"

definition demo_flow :: generator where
  "demo_flow =
     \<lparr>gen_nodes = (\<lambda>_. None), gen_code = [], gen_last_constant = 0, gen_last_variable = 0,
      gen_basic_blocks = [demo_flow_block 0 [] [1, 2], demo_flow_block 1 [0] [3], demo_flow_block 2 [0] [3],
        demo_flow_block 3 [1, 2, 4, 5] [4], demo_flow_block 4 [3] [3], demo_flow_block 5 [] [3]],
      gen_entry_block = 0, gen_symbols = (\<lambda>_. demo_flow_symbol), gen_plain_char_is_signed = True,
      gen_exit_block = 5, gen_exception_ranges = [], gen_next_ir_id = 0\<rparr>"

lemma demo_flow_ok: "flow_ok demo_flow"
proof -
  have n: "num_blocks demo_flow = 6" "gen_entry_block demo_flow = 0" by (simp_all add: num_blocks_def demo_flow_def)
  have at: "block_at demo_flow 0 = demo_flow_block 0 [] [1, 2]" "block_at demo_flow 1 = demo_flow_block 1 [0] [3]"
    "block_at demo_flow 2 = demo_flow_block 2 [0] [3]" "block_at demo_flow 3 = demo_flow_block 3 [1, 2, 4, 5] [4]"
    "block_at demo_flow 4 = demo_flow_block 4 [3] [3]" "block_at demo_flow 5 = demo_flow_block 5 [] [3]"
    by (simp_all add: block_at_def demo_flow_def)
  have s: "bs_ok BitSetInit" by simp
  have cases: "u = 0 \<or> u = 1 \<or> u = 2 \<or> u = 3 \<or> u = 4 \<or> u = (5::nat)" if "u < 6" for u using that by presburger
  show ?thesis
  proof (rule flow_okI, unfold n)
    fix u :: nat assume u: "u < 6"
    show "bb_id (block_at demo_flow u) = u \<and> bs_ok (bb_dominators (block_at demo_flow u)) \<and>
        bs_ok (bb_dominance_frontier (block_at demo_flow u))"
      using cases [OF u] by (elim disjE) (simp_all add: at at [simplified] demo_flow_block_def NewBasicBlock_def)
    fix v
    show "v < 6 \<and> u \<in> set (bb_in_edges (block_at demo_flow v))" if "v \<in> set (bb_out_edges (block_at demo_flow u))"
      using cases [OF u] that by (elim disjE) (auto simp: at at [simplified] demo_flow_block_def NewBasicBlock_def)
    show "v < 6 \<and> u \<in> set (bb_out_edges (block_at demo_flow v))" if "v \<in> set (bb_in_edges (block_at demo_flow u))"
      using cases [OF u] that by (elim disjE) (auto simp: at at [simplified] demo_flow_block_def NewBasicBlock_def)
  qed simp
qed

lemma demo_flow_entry: "length (bb_in_edges (block_at demo_flow (gen_entry_block demo_flow))) \<noteq> 1"
  by (simp add: block_at_def demo_flow_def demo_flow_block_def NewBasicBlock_def)

lemma demo_flow_edges:
  "flow_edge demo_flow 0 1" "flow_edge demo_flow 0 2" "flow_edge demo_flow 1 3" "flow_edge demo_flow 2 3"
  "flow_edge demo_flow 3 4" "flow_edge demo_flow p 4 \<Longrightarrow> p = 3" "gen_entry_block demo_flow = 0" "num_blocks demo_flow = 6"
proof -
  show "gen_entry_block demo_flow = 0" "num_blocks demo_flow = 6" by (simp_all add: num_blocks_def demo_flow_def)
  show "flow_edge demo_flow p 4 \<Longrightarrow> p = 3"
    using flow_okD(7) [OF demo_flow_ok, of p 4] by (simp add: block_at_def demo_flow_def demo_flow_block_def NewBasicBlock_def)
qed (simp_all add: flow_edge_def num_blocks_def block_at_def demo_flow_def demo_flow_block_def NewBasicBlock_def)

text \<open>The head of the loop dominates its body; the branches before it do not dominate it.\<close>

lemma demo_flow_dominators:
  "3 \<in> dominators_of demo_flow 4" "1 \<notin> dominators_of demo_flow 3" "1 \<in> dominators_of demo_flow 1"
  "flow_reachable demo_flow 3" "flow_reachable demo_flow 4" "flow_dominates demo_flow 3 4"
proof -
  note E = demo_flow_edges
  have three: "avoiding 0 (flow_edge demo_flow) X 3" if "X = {} \<or> X = {1}" for X
  proof -
    have "avoiding 0 (flow_edge demo_flow) X 0" using that by (auto intro: avoiding.start)
    then have "avoiding 0 (flow_edge demo_flow) X 2" using E(2) by (rule avoiding.step) (use that in auto)
    then show ?thesis using E(4) by (rule avoiding.step) (use that in auto)
  qed
  have "avoiding 0 (flow_edge demo_flow) {} 0" by (simp add: avoiding.start)
  then have one: "flow_reachable demo_flow 1" unfolding E(7) using E(1) by (rule avoiding.step) simp
  show r3: "flow_reachable demo_flow 3" using three E(7) by simp
  show r4: "flow_reachable demo_flow 4" using r3 E(5) by (rule avoiding.step) simp
  show d: "flow_dominates demo_flow 3 4"
    unfolding dominates_def
  proof
    assume "avoiding (gen_entry_block demo_flow) (flow_edge demo_flow) {3} 4"
    then obtain u where "avoiding (gen_entry_block demo_flow) (flow_edge demo_flow) {3} u" "flow_edge demo_flow u 4"
      using E(7) by (cases rule: avoiding.cases) auto
    then show False using E(6) dominates_self unfolding dominates_def by blast
  qed
  show "3 \<in> dominators_of demo_flow 4" using r4 d by (simp add: dominators_of_def)
  show "1 \<notin> dominators_of demo_flow 3" using three E(7) by (simp add: dominators_of_def dominates_def)
  show "1 \<in> dominators_of demo_flow 1" by (rule dominators_of_self [OF one])
qed

section \<open>Dominators\<close>

text \<open>
  C10. On every graph whose two lists of edges agree the analysis ends, whichever of its two methods
  it takes, and changes nothing but what it computes: a block is marked unreachable when no path
  leads to it from the entry, its set is the set of blocks on every path to it, with their number,
  and its immediate dominator is the nearest of the others.
\<close>

theorem CalculateDominators_exact:
  assumes "flow_ok g"
  shows "\<exists>g'. CalculateDominators g = Some g' \<and> dominators_stored g g' \<and>
    (\<forall>v < num_blocks g. bb_is_unreachable (block_at g' v) \<longleftrightarrow> \<not> flow_reachable g v) \<and>
    (\<forall>v < num_blocks g. bs_set (bb_dominators (block_at g' v)) =
       {d. flow_reachable g v \<and> (\<forall>p. p \<noteq> [] \<and> hd p = gen_entry_block g \<and> last p = v \<and> successively (flow_edge g) p \<longrightarrow> d \<in> set p)})"
proof -
  obtain g' where g': "CalculateDominators g = Some g'" "dominators_stored g g'" using CalculateDominators_spec [OF assms] by blast
  have "dominator_info g v (block_at g' v)" if "v < num_blocks g" for v using g'(2) that by (simp add: dominators_stored_def)
  then show ?thesis
    using g' unfolding dominator_info_def dominators_of_def dominates_def avoiding_paths by auto
qed

theorem CalculateDominators_exact_witness:
  "\<exists>g'. CalculateDominators demo_flow = Some g' \<and> dominators_stored demo_flow g' \<and> 3 \<in> bs_set (bb_dominators (block_at g' 4)) \<and>
    1 \<notin> bs_set (bb_dominators (block_at g' 3))"
proof -
  obtain g' where g': "CalculateDominators demo_flow = Some g'" "dominators_stored demo_flow g'"
    using CalculateDominators_exact [OF demo_flow_ok] by blast
  then show ?thesis
    using demo_flow_dominators demo_flow_edges(8) by (auto simp: dominators_stored_def dominator_info_def)
qed

section \<open>Frontiers and the tree\<close>

text \<open>
  C11. The whole analysis ends and is exact, whatever an earlier run left in the blocks, for an
  entry that does not have a single predecessor (no branch leads to the entry, because a label
  always opens a block of its own): on top of the dominators the frontier of a block is the set of
  blocks it does not strictly dominate but dominates a predecessor of, and the dominator tree lists
  for a block those whose immediate dominator it is.
\<close>

theorem AnalyzeCFG_exact:
  assumes "flow_ok g" "length (bb_in_edges (block_at g (gen_entry_block g))) \<noteq> 1"
  shows "\<exists>g'. AnalyzeCFG g = Some g' \<and> analyzed g g'"
  by (rule AnalyzeCFG_spec [OF assms])

theorem AnalyzeCFG_exact_witness:
  "\<exists>g'. AnalyzeCFG demo_flow = Some g' \<and> 3 \<in> frontier_at g' 1 \<and> 4 \<notin> frontier_at g' 1"
proof -
  obtain g' where g': "AnalyzeCFG demo_flow = Some g'" "analyzed demo_flow g'"
    using AnalyzeCFG_exact [OF demo_flow_ok demo_flow_entry] by blast
  have "3 \<in> frontier_of demo_flow 1"
    using demo_flow_dominators(2,3) demo_flow_edges(3) by (auto simp: frontier_of_def)
  moreover have "4 \<notin> frontier_of demo_flow 1"
    using demo_flow_dominators(2) demo_flow_edges(6) by (auto simp: frontier_of_def)
  ultimately show ?thesis using g' demo_flow_edges(8) by (auto simp: analyzed_def)
qed

text \<open>
  C36. After the analysis \<open>BasicBlockDominatedBy\<close>, which walks down the dominator tree, answers
  whether a block is a strict dominator of another; the recursion is at most as deep as there are
  blocks.
\<close>

theorem BasicBlockDominatedBy_decides:
  assumes "flow_ok g" "length (bb_in_edges (block_at g (gen_entry_block g))) \<noteq> 1" "flow_reachable g d"
  shows "\<exists>g'. AnalyzeCFG g = Some g' \<and>
    BasicBlockDominatedBy (num_blocks g) g' d b = Some (d \<noteq> b \<and> flow_reachable g b \<and> flow_dominates g d b)"
proof -
  obtain g' where g': "AnalyzeCFG g = Some g'" "analyzed g g'" using AnalyzeCFG_spec [OF assms(1,2)] by blast
  have d: "d < num_blocks g" by (rule reachable_in_range [OF assms(1,3)])
  have "dominators_of g d \<noteq> {}" using dominators_of_self [OF assms(3)] by blast
  then have "0 < card (dominators_of g d)" using finite_dominators [OF assms(1)] by (simp add: card_gt_0_iff)
  then show ?thesis
    using BasicBlockDominatedBy_spec [OF assms(1) g'(2) d, of "num_blocks g" b] g'(1) d by (auto simp: dominators_of_def)
qed

theorem BasicBlockDominatedBy_decides_witness:
  "\<exists>g'. AnalyzeCFG demo_flow = Some g' \<and> BasicBlockDominatedBy 6 g' 3 4 = Some True"
  using BasicBlockDominatedBy_decides [OF demo_flow_ok demo_flow_entry demo_flow_dominators(4), of 4]
    demo_flow_dominators(5,6) demo_flow_edges(8) by simp

section \<open>A stale mark\<close>

text \<open>
  Adding an edge forgets only that the answer is known.  A block marked unreachable that gets an
  edge from the entry is reachable when first asked and unreachable when asked again.
\<close>

lemma BasicBlockIsUnreachable_stale:
  assumes "b < num_blocks g" "b \<noteq> gen_entry_block g" "\<not> bb_reachability_known (block_at g b)" "bb_is_unreachable (block_at g b)"
    "bb_in_edges (block_at g b) = gen_entry_block g # ps"
  shows "\<exists>g'. BasicBlockIsUnreachable b g = Some (False, g') \<and> BasicBlockIsUnreachable b g' = Some (True, g')"
proof -
  let ?g = "on_block b (\<lambda>x. x\<lparr>bb_reachability_known := True\<rparr>) g"
  obtain k where k: "num_blocks g = Suc k" using assms(1) by (cases "num_blocks g") auto
  have "unreachable k (gen_entry_block g) ?g = Some (False, ?g)"
    by (subst unreachable.simps) (simp add: on_block_at)
  then have "all_unreachable k (gen_entry_block g # ps) ?g = Some (False, ?g)" by simp
  then have "unreachable (Suc k) b g = Some (False, ?g)"
    by (subst unreachable.simps) (simp add: assms)
  moreover have "unreachable (num_blocks ?g) b ?g = Some (True, ?g)"
    by (subst unreachable.simps) (use assms(1,2,4) in \<open>simp add: on_block_at\<close>)
  ultimately have "BasicBlockIsUnreachable b g = Some (False, ?g)" "BasicBlockIsUnreachable b ?g = Some (True, ?g)"
    by (simp_all only: BasicBlockIsUnreachable_def k)
  then show ?thesis by blast
qed

end
