(* ===== verification/Ssa.thy ===== *)
theory Ssa
  imports Cfg
begin

text \<open>
  The placement of phi nodes (\<open>optimization/ssa.c\<close>, \<open>BasicBlockInsertPhi\<close> of
  \<open>backend/basic_block.c\<close>).  Memory allocation is a parameter: \<open>malloc\<close> gives a node that is not in
  use.  A key of \<open>defined_vars\<close> is the address of a symbol.
\<close>

section \<open>New nodes\<close>

definition IRInit :: "int \<Rightarrow> ir_op \<Rightarrow> ir_node" where
  "IRInit i opcode =
     \<lparr>ir_id = i, ir_opcode = opcode, ir_inputs = [], ir_outputs = [], ir_block = 0, ir_type = None,
      ir_value_state = ValueValid, ir_flags = 0, ir_var = 0, ir_dest = 0, ir_ivalue = 0, ir_symbol_ref = 0\<rparr>"

definition NewIRPhi :: "generator \<Rightarrow> symbol_ref \<Rightarrow> ir_node" where
  "NewIRPhi g symbol =
     IRSetType (sym_type (gen_symbols g symbol)) ((IRInit (gen_next_ir_id g) IR_phi)\<lparr>ir_symbol_ref := symbol\<rparr>)"

definition IRSetVarDef :: "symbol_ref \<Rightarrow> ir_node \<Rightarrow> ir_node option" where
  "IRSetVarDef symbol inst =
     (if ir_flags inst = 0
      then Some (inst\<lparr>ir_var := symbol, ir_flags := Bit_Operations.or (ir_flags inst) kIRVarDef\<rparr>) else None)"

section \<open>Phi nodes of a block\<close>

partial_function (option) find_phi :: "generator \<Rightarrow> node_ref \<Rightarrow> symbol_ref \<Rightarrow> bool option" where
  "find_phi g node symbol =
     (case gen_nodes g node of
        None \<Rightarrow> None
      | Some n \<Rightarrow> if ir_opcode n = IR_phi
                  then (if ir_symbol_ref n = symbol then Some True else find_phi g (IRNext g node) symbol)
                  else Some False)"

definition BasicBlockInsertPhi ::
  "(ir_store \<Rightarrow> node_ref) \<Rightarrow> nat \<Rightarrow> symbol_ref \<Rightarrow> generator \<Rightarrow> (bool \<times> generator) option" where
  "BasicBlockInsertPhi malloc b symbol g =
     (let code = bb_code (block_at g b)
      in if code = 0 then Some (False, g)
         else case find_phi g code symbol of
                None \<Rightarrow> None
              | Some True \<Rightarrow> Some (False, g)
              | Some False \<Rightarrow>
                  (case IRSetVarDef symbol (NewIRPhi g symbol) of
                     None \<Rightarrow> None
                   | Some inst \<Rightarrow>
                       (let phi = malloc (gen_nodes g);
                            g1 = g\<lparr>gen_nodes := (gen_nodes g)(phi \<mapsto> inst\<lparr>ir_block := b\<rparr>),
                                   gen_next_ir_id := gen_next_ir_id g + 1\<rparr>;
                            g2 = GeneratorEmitBefore phi code g1
                        in Some (True, on_block b (\<lambda>x. x\<lparr>bb_code := phi\<rparr>) g2))))"

section \<open>All blocks\<close>

text \<open>The loop over the frontier, whose members the iterator lists.\<close>

fun phi_frontier ::
  "(ir_store \<Rightarrow> node_ref) \<Rightarrow> symbol_ref \<Rightarrow> nat list \<Rightarrow> generator \<Rightarrow> bool \<Rightarrow> (generator \<times> bool) option" where
  "phi_frontier malloc symbol [] g changed = Some (g, changed)"
| "phi_frontier malloc symbol (d # ds) g changed =
     (case (if d < num_blocks g then BasicBlockInsertPhi malloc d symbol g else None) of
        None \<Rightarrow> None
      | Some (new_phi, g1) \<Rightarrow>
          (case (if new_phi then define_var d symbol g1 else Some g1) of
             None \<Rightarrow> None
           | Some g2 \<Rightarrow> phi_frontier malloc symbol ds g2 (changed \<or> new_phi)))"

text \<open>The length of the map is read in every round, and the map of the block may be written in one.\<close>

partial_function (option) phi_vars ::
  "(ir_store \<Rightarrow> node_ref) \<Rightarrow> nat \<Rightarrow> nat \<Rightarrow> generator \<Rightarrow> bool \<Rightarrow> (generator \<times> bool) option" where
  "phi_vars malloc i j g changed =
     (if j < m_length (bb_defined_vars (block_at g i))
      then case BitSetValues (bb_dominance_frontier (block_at g i)) of
             None \<Rightarrow> None
           | Some ds \<Rightarrow>
               (case phi_frontier malloc (unat (kv_key (map_buf (bb_defined_vars (block_at g i)) ! j))) ds g changed of
                  None \<Rightarrow> None
                | Some r \<Rightarrow> phi_vars malloc i (j + 1) (fst r) (snd r))
      else Some (g, changed))"

fun phi_blocks :: "(ir_store \<Rightarrow> node_ref) \<Rightarrow> nat list \<Rightarrow> generator \<Rightarrow> bool \<Rightarrow> (generator \<times> bool) option" where
  "phi_blocks malloc [] g changed = Some (g, changed)"
| "phi_blocks malloc (i # is) g changed =
     (case phi_vars malloc i 0 g changed of
        None \<Rightarrow> None
      | Some r \<Rightarrow> phi_blocks malloc is (fst r) (snd r))"

partial_function (option) InsertPhiNodes :: "(ir_store \<Rightarrow> node_ref) \<Rightarrow> generator \<Rightarrow> generator option" where
  "InsertPhiNodes malloc g =
     (case phi_blocks malloc [0..<num_blocks g] g False of
        None \<Rightarrow> None
      | Some r \<Rightarrow> if snd r then InsertPhiNodes malloc (fst r) else Some (fst r))"

declare find_phi.simps [code] phi_vars.simps [code] InsertPhiNodes.simps [code]

end
