(* ===== verification/SsaSpec.thy ===== *)
theory SsaSpec
  imports Ssa CfgTree CMapSpec CBitSetSpec
begin

text \<open>
  What the placement of phi nodes keeps: the code is the code it started from with the new nodes in
  front of the first instructions of blocks, and the variables a block defines are those it defined
  at the start and those it has a phi node for.
\<close>

section \<open>The variables of a block\<close>

interpretation variable_keys: key_compare CompareVariable
  by unfold_locales (auto simp: CompareVariable_def split: if_splits)

lemma variable_same: "CompareVariable a b = 0 \<longleftrightarrow> kv_key a = kv_key b"
  by (simp add: CompareVariable_def)

definition variables_ok :: "cmap \<Rightarrow> bool" where
  "variables_ok m \<longleftrightarrow> map_ok m \<and> m_compare m = CompareVariable"

definition map_symbols :: "cmap \<Rightarrow> symbol_ref set" where
  "map_symbols m = (\<lambda>p. unat (kv_key p)) ` set (map_list m)"

lemma unat_word_of_symbol: "s < 2 ^ 64 \<Longrightarrow> unat (word_of_nat s :: u64) = s"
  by (simp add: unsigned_of_nat take_bit_nat_eq_self)

lemma map_symbols_search:
  assumes "variables_ok m" "s < 2 ^ 64"
  shows "s \<in> map_symbols m \<longleftrightarrow> MapSearch 0 m (word_of_nat s) \<noteq> None"
proof -
  have w: "unat (word_of_nat s :: u64) = s" by (rule unat_word_of_symbol [OF assms(2)])
  have "MapSearch 0 m (word_of_nat s) \<noteq> None \<longleftrightarrow> (\<exists>y \<in> set (map_list m). kv_key y = word_of_nat s)"
    using variable_keys.MapSearch_None [of m 0 "word_of_nat s"] assms(1)
    by (auto simp: variables_ok_def variable_same)
  also have "\<dots> \<longleftrightarrow> s \<in> map_symbols m"
  proof -
    have "kv_key y = word_of_nat s \<longleftrightarrow> s = unat (kv_key y)" for y :: kv using w word_unat_eq_iff [of "kv_key y" "word_of_nat s"] by auto
    then show ?thesis by (simp add: map_symbols_def image_iff)
  qed
  finally show ?thesis by simp
qed

lemma map_symbols_less: "s \<in> map_symbols m \<Longrightarrow> s < 2 ^ 64"
proof -
  assume "s \<in> map_symbols m"
  then obtain p :: kv where p: "s = unat (kv_key p)" unfolding map_symbols_def by blast
  show ?thesis unfolding p using unsigned_less [of "kv_key p"] by simp
qed

lemma MapInsert_symbols:
  assumes m: "variables_ok m" and s: "s < 2 ^ 64"
  shows "\<exists>r. MapInsert m \<lparr>kv_key = word_of_nat s, kv_value = v\<rparr> = Some r \<and> variables_ok (fst r) \<and>
    map_symbols (fst r) = insert s (map_symbols m)"
proof -
  let ?p = "\<lparr>kv_key = word_of_nat s, kv_value = v\<rparr>"
  obtain m' old where r: "MapInsert m ?p = Some (m', old)" "map_ok m'" "m_compare m' = CompareVariable"
    "\<And>k. MapSearch 0 m' k = (if CompareVariable \<lparr>kv_key = k, kv_value = 0\<rparr> ?p = 0 then Some (kv_value ?p) else MapSearch 0 m k)"
  proof (rule variable_keys.MapInsert_effect [of m ?p 0])
    show "map_ok m" "m_compare m = CompareVariable" using m by (simp_all add: variables_ok_def)
  qed (rule that, assumption+)
  have ok: "variables_ok m'" using r(2,3) by (simp add: variables_ok_def)
  have w: "word_of_nat t = (word_of_nat s :: u64) \<longleftrightarrow> t = s" if "t < 2 ^ 64" for t
    using unat_word_of_symbol [OF that] unat_word_of_symbol [OF s] by metis
  have "t \<in> map_symbols m' \<longleftrightarrow> t = s \<or> t \<in> map_symbols m" if t: "t < 2 ^ 64" for t
    unfolding map_symbols_search [OF ok t] map_symbols_search [OF m t] r(4) variable_same using w [OF t] by simp
  then have "map_symbols m' = insert s (map_symbols m)" using map_symbols_less s by blast
  then show ?thesis using r(1) ok by auto
qed

lemma card_map_symbols:
  assumes "variables_ok m"
  shows "m_length m = card (map_symbols m)"
proof -
  have s: "sorted_by CompareVariable (map_list m)" and sh: "map_shape m"
    using assms by (auto simp: variables_ok_def map_ok_def)
  have "x = y" if "x \<in> set (map_list m)" "y \<in> set (map_list m)" "unat (kv_key x) = unat (kv_key y)" for x y
    using variable_keys.sorted_unique [OF s that(1,2), of x] that(3) word_unat_eq_iff [of "kv_key x" "kv_key y"] by (simp add: variable_same)
  then have "inj_on (\<lambda>p. unat (kv_key p)) (set (map_list m))" by (auto intro: inj_onI)
  then have "card (map_symbols m) = length (map_list m)"
    using variable_keys.sorted_distinct [OF s] by (simp add: map_symbols_def card_image distinct_card)
  then show ?thesis using length_map_list [OF sh] by simp
qed

lemma nth_map_symbols:
  assumes "variables_ok m"
  shows "map_symbols m = {unat (kv_key (map_buf m ! j)) | j. j < m_length m}"
proof -
  have "map_shape m" using assms by (simp add: variables_ok_def map_ok_def)
  then show ?thesis unfolding map_symbols_def set_conv_nth by (auto simp: length_map_list nth_map_list image_iff)+
qed

section \<open>Code with new nodes in it\<close>

definition with_phis :: "(node_ref \<Rightarrow> node_ref list) \<Rightarrow> node_ref list \<Rightarrow> node_ref list" where
  "with_phis pf xs = concat (map (\<lambda>r. pf r @ [r]) xs)"

lemma with_phis_simps [simp]:
  "with_phis pf [] = []" "with_phis pf (x # xs) = pf x @ x # with_phis pf xs"
  "with_phis pf (xs @ ys) = with_phis pf xs @ with_phis pf ys"
  by (simp_all add: with_phis_def)

lemma set_with_phis: "set (with_phis pf xs) = set xs \<union> (\<Union>r\<in>set xs. set (pf r))"
  by (induction xs) auto

lemma with_phis_other: "c \<notin> set xs \<Longrightarrow> with_phis (pf(c := ps)) xs = with_phis pf xs"
  by (induction xs) auto

lemma with_phis_none: "(\<And>r. r \<in> set xs \<Longrightarrow> pf r = []) \<Longrightarrow> with_phis pf xs = xs"
  by (induction xs) auto

lemma with_phis_split:
  assumes "distinct (with_phis pf xs)" "c \<in> set xs"
  obtains as bs where "xs = as @ c # bs" "c \<notin> set as" "c \<notin> set bs"
    "with_phis pf xs = with_phis pf as @ pf c @ c # with_phis pf bs" "first_or (pf c) c \<notin> set (with_phis pf as)"
proof -
  obtain as bs where xs: "xs = as @ c # bs" "c \<notin> set as" using assms(2) by (meson split_list_first)
  have w: "with_phis pf xs = with_phis pf as @ pf c @ c # with_phis pf bs" by (simp add: xs(1))
  have "c \<notin> set bs" using assms(1) unfolding w by (auto simp: set_with_phis)
  moreover have "first_or (pf c) c \<notin> set (with_phis pf as)" using assms(1) unfolding w by (cases "pf c") auto
  ultimately show thesis using that xs w by blast
qed

lemma with_phis_insert:
  assumes "distinct (with_phis pf xs)" "c \<in> set xs"
  shows "insert_before p (first_or (pf c) c) (with_phis pf xs) = with_phis (pf(c := p # pf c)) xs"
proof -
  obtain as bs where x: "xs = as @ c # bs" "c \<notin> set as" "c \<notin> set bs"
    "with_phis pf xs = with_phis pf as @ pf c @ c # with_phis pf bs" "first_or (pf c) c \<notin> set (with_phis pf as)"
    by (rule with_phis_split [OF assms])
  obtain rest where "pf c @ c # with_phis pf bs = first_or (pf c) c # rest" by (cases "pf c") auto
  then have "insert_before p (first_or (pf c) c) (with_phis pf xs) = with_phis pf as @ p # pf c @ c # with_phis pf bs"
    using x(5) unfolding x(4) by simp
  then show ?thesis by (simp add: x(1-3) with_phis_other)
qed

definition symbols_of :: "generator \<Rightarrow> node_ref list \<Rightarrow> symbol_ref set" where
  "symbols_of g ps = {s. \<exists>p \<in> set ps. \<exists>n. gen_nodes g p = Some n \<and> ir_symbol_ref n = s}"

lemma find_phi_walk:
  assumes "gen_code g = xs @ ys @ c # zs" "distinct (gen_code g)"
    "\<And>y. y \<in> set ys \<Longrightarrow> \<exists>n. gen_nodes g y = Some n \<and> ir_opcode n = IR_phi"
    "gen_nodes g c = Some n" "ir_opcode n \<noteq> IR_phi"
  shows "find_phi g (first_or ys c) s = Some (s \<in> symbols_of g ys)"
  using assms(1,3)
proof (induction ys arbitrary: xs)
  case Nil
  show ?case by (subst find_phi.simps) (simp add: assms(4,5) symbols_of_def)
next
  case (Cons y ys)
  obtain m where m: "gen_nodes g y = Some m" "ir_opcode m = IR_phi" using Cons.prems(2) by auto
  have "y \<notin> set xs" using assms(2) Cons.prems(1) by auto
  then have "IRNext g y = first_or ys c" by (simp add: IRNext_def Cons.prems(1))
  moreover have "find_phi g (first_or ys c) s = Some (s \<in> symbols_of g ys)"
    by (rule Cons.IH [of "xs @ [y]"]) (use Cons.prems in auto)
  ultimately show ?case by (subst find_phi.simps) (auto simp: m symbols_of_def)
qed

section \<open>The state\<close>

definition fresh_alloc :: "(ir_store \<Rightarrow> node_ref) \<Rightarrow> bool" where
  "fresh_alloc malloc \<longleftrightarrow> (\<forall>h. finite (dom h) \<longrightarrow> malloc h \<noteq> 0 \<and> h (malloc h) = None)"

definition phi_node :: "generator \<Rightarrow> int \<Rightarrow> symbol_ref \<Rightarrow> nat \<Rightarrow> ir_node" where
  "phi_node g k s i = (IRSetType (sym_type (gen_symbols g s)) (IRInit k IR_phi))
     \<lparr>ir_symbol_ref := s, ir_var := s, ir_flags := kIRVarDef, ir_block := i\<rparr>"

lemma phi_node_fields [simp]:
  "ir_opcode (phi_node g k s i) = IR_phi" "ir_symbol_ref (phi_node g k s i) = s" "ir_block (phi_node g k s i) = i"
  by (simp_all add: phi_node_def IRInit_def IRSetType_def)

abbreviation block_start :: "generator \<Rightarrow> nat \<Rightarrow> node_ref" where
  "block_start g i \<equiv> bb_code (block_at g i)"

text \<open>The code and the nodes: new nodes stand before the starts of blocks, one for a symbol.\<close>

definition phi_layout :: "generator \<Rightarrow> generator \<Rightarrow> (node_ref \<Rightarrow> node_ref list) \<Rightarrow> bool" where
  "phi_layout g0 g pf \<longleftrightarrow>
     gen_code g = with_phis pf (gen_code g0) \<and> distinct (gen_code g) \<and> finite (dom (gen_nodes g)) \<and>
     (\<forall>r \<in> set (gen_code g). r \<noteq> 0 \<and> r \<in> dom (gen_nodes g)) \<and>
     (\<forall>r n. gen_nodes g0 r = Some n \<longrightarrow> gen_nodes g r = Some n) \<and>
     (\<forall>r \<in> dom (gen_nodes g). r \<in> dom (gen_nodes g0) \<or> (\<exists>c. r \<in> set (pf c))) \<and>
     (\<forall>c. pf c \<noteq> [] \<longrightarrow> c \<noteq> 0 \<and> (\<exists>i < num_blocks g0. block_start g0 i = c)) \<and>
     (\<forall>i < num_blocks g0. \<forall>p \<in> set (pf (block_start g0 i)). \<exists>k s. gen_nodes g p = Some (phi_node g0 k s i)) \<and>
     (\<forall>c. distinct (map (\<lambda>p. ir_symbol_ref (the (gen_nodes g p))) (pf c)))"

lemma phi_layoutD:
  assumes "phi_layout g0 g pf"
  shows "gen_code g = with_phis pf (gen_code g0)" "distinct (gen_code g)" "finite (dom (gen_nodes g))"
    "r \<in> set (gen_code g) \<Longrightarrow> r \<noteq> 0" "r \<in> set (gen_code g) \<Longrightarrow> r \<in> dom (gen_nodes g)"
    "gen_nodes g0 r = Some n \<Longrightarrow> gen_nodes g r = Some n"
    "r \<in> dom (gen_nodes g) \<Longrightarrow> r \<in> dom (gen_nodes g0) \<or> (\<exists>c. r \<in> set (pf c))"
    "pf c \<noteq> [] \<Longrightarrow> c \<noteq> 0" "pf c \<noteq> [] \<Longrightarrow> \<exists>i < num_blocks g0. block_start g0 i = c"
    "i < num_blocks g0 \<Longrightarrow> p \<in> set (pf (block_start g0 i)) \<Longrightarrow> \<exists>k s. gen_nodes g p = Some (phi_node g0 k s i)"
    "distinct (map (\<lambda>p. ir_symbol_ref (the (gen_nodes g p))) (pf c))"
  using assms unfolding phi_layout_def by (elim conjE; blast)+

text \<open>The blocks: the start moves to the first new node, and the new variables are defined.\<close>

definition phi_blocks_ok :: "generator \<Rightarrow> generator \<Rightarrow> (node_ref \<Rightarrow> node_ref list) \<Rightarrow> bool" where
  "phi_blocks_ok g0 g pf \<longleftrightarrow> num_blocks g = num_blocks g0 \<and>
     g = g0\<lparr>gen_nodes := gen_nodes g, gen_code := gen_code g, gen_basic_blocks := gen_basic_blocks g,
            gen_next_ir_id := gen_next_ir_id g\<rparr> \<and>
     (\<forall>i < num_blocks g0.
        block_at g i = (block_at g0 i)\<lparr>bb_code := first_or (pf (block_start g0 i)) (block_start g0 i),
                                       bb_defined_vars := bb_defined_vars (block_at g i)\<rparr> \<and>
        variables_ok (bb_defined_vars (block_at g i)) \<and>
        map_symbols (bb_defined_vars (block_at g i)) =
          map_symbols (bb_defined_vars (block_at g0 i)) \<union> symbols_of g (pf (block_start g0 i)))"

lemma phi_blocks_okD:
  assumes "phi_blocks_ok g0 g pf"
  shows "num_blocks g = num_blocks g0" "gen_symbols g = gen_symbols g0"
    "i < num_blocks g0 \<Longrightarrow> block_at g i = (block_at g0 i)\<lparr>bb_code := first_or (pf (block_start g0 i)) (block_start g0 i),
        bb_defined_vars := bb_defined_vars (block_at g i)\<rparr>"
    "i < num_blocks g0 \<Longrightarrow> variables_ok (bb_defined_vars (block_at g i))"
    "i < num_blocks g0 \<Longrightarrow> map_symbols (bb_defined_vars (block_at g i)) =
        map_symbols (bb_defined_vars (block_at g0 i)) \<union> symbols_of g (pf (block_start g0 i))"
proof -
  have "g = g0\<lparr>gen_nodes := gen_nodes g, gen_code := gen_code g, gen_basic_blocks := gen_basic_blocks g,
      gen_next_ir_id := gen_next_ir_id g\<rparr>" using assms unfolding phi_blocks_ok_def by blast
  then show "gen_symbols g = gen_symbols g0" by (metis generator.select_convs(7) generator.surjective
      generator.update_convs(1,2,5,11))
qed (use assms in \<open>unfold phi_blocks_ok_def, blast+\<close>)

text \<open>Where the pass may start.\<close>

definition phi_ready :: "generator \<Rightarrow> bool" where
  "phi_ready g \<longleftrightarrow> distinct (gen_code g) \<and> finite (dom (gen_nodes g)) \<and>
     (\<forall>r \<in> set (gen_code g). r \<noteq> 0 \<and> (\<exists>n. gen_nodes g r = Some n \<and> ir_opcode n \<noteq> IR_phi)) \<and>
     (\<forall>i < num_blocks g. block_start g i = 0 \<or> block_start g i \<in> set (gen_code g)) \<and>
     (\<forall>i < num_blocks g. \<forall>j < num_blocks g. block_start g i = block_start g j \<longrightarrow> block_start g i \<noteq> 0 \<longrightarrow> i = j) \<and>
     (\<forall>i < num_blocks g. variables_ok (bb_defined_vars (block_at g i)))"

lemma phi_readyD:
  assumes "phi_ready g"
  shows "distinct (gen_code g)" "finite (dom (gen_nodes g))" "r \<in> set (gen_code g) \<Longrightarrow> r \<noteq> 0"
    "r \<in> set (gen_code g) \<Longrightarrow> \<exists>n. gen_nodes g r = Some n \<and> ir_opcode n \<noteq> IR_phi"
    "i < num_blocks g \<Longrightarrow> block_start g i \<noteq> 0 \<Longrightarrow> block_start g i \<in> set (gen_code g)"
    "i < num_blocks g \<Longrightarrow> j < num_blocks g \<Longrightarrow> block_start g i = block_start g j \<Longrightarrow> block_start g i \<noteq> 0 \<Longrightarrow> i = j"
    "i < num_blocks g \<Longrightarrow> variables_ok (bb_defined_vars (block_at g i))"
  using assms unfolding phi_ready_def by (elim conjE; metis)+

lemma phi_start:
  assumes "phi_ready g"
  shows "phi_layout g g (\<lambda>_. [])" "phi_blocks_ok g g (\<lambda>_. [])"
proof -
  note R = phi_readyD [OF assms]
  have "with_phis (\<lambda>_. []) (gen_code g) = gen_code g" by (rule with_phis_none) simp
  then show "phi_layout g g (\<lambda>_. [])" unfolding phi_layout_def using R(1-3) R(4) by auto
  show "phi_blocks_ok g g (\<lambda>_. [])" unfolding phi_blocks_ok_def using R(7) by (auto simp: symbols_of_def)
qed


section \<open>One block\<close>

lemma not_in_list: "r \<notin> set (gen_code g) \<Longrightarrow> \<not> IRInList g r"
proof -
  have "r \<notin> set xs \<Longrightarrow> next_in xs r = 0" "r \<notin> set xs \<Longrightarrow> prev_in q xs r = 0" for xs q
    by (induction xs arbitrary: q) auto
  then show "r \<notin> set (gen_code g) \<Longrightarrow> \<not> IRInList g r" by (simp add: IRInList_def IRNext_def IRPrev_def)
qed

text \<open>The state after a new node \<open>p\<close> for \<open>s\<close> in front of block \<open>b\<close>, whose map is now \<open>m\<close>.\<close>

definition after_phi :: "node_ref \<Rightarrow> symbol_ref \<Rightarrow> nat \<Rightarrow> cmap \<Rightarrow> generator \<Rightarrow> generator" where
  "after_phi p s b m g =
     set_block b ((block_at g b)\<lparr>bb_code := p, bb_defined_vars := m\<rparr>)
       (g\<lparr>gen_nodes := (gen_nodes g)(p \<mapsto> phi_node g (gen_next_ir_id g) s b),
          gen_code := insert_before p (block_start g b) (gen_code g), gen_next_ir_id := gen_next_ir_id g + 1\<rparr>)"

lemma insert_phi_effect:
  assumes "block_start g b \<noteq> 0" "find_phi g (block_start g b) s = Some False" "b < num_blocks g"
    "malloc (gen_nodes g) \<notin> set (gen_code g)"
    "MapInsert (bb_defined_vars (block_at g b)) \<lparr>kv_key = word_of_nat s, kv_value = 0\<rparr> = Some r"
  shows "\<exists>g1. BasicBlockInsertPhi malloc b s g = Some (True, g1) \<and>
    define_var b s g1 = Some (after_phi (malloc (gen_nodes g)) s b (fst r) g)"
proof -
  let ?p = "malloc (gen_nodes g)"
  let ?g = "g\<lparr>gen_nodes := (gen_nodes g)(?p \<mapsto> phi_node g (gen_next_ir_id g) s b), gen_next_ir_id := gen_next_ir_id g + 1\<rparr>"
  have new: "IRSetVarDef s (NewIRPhi g s) = Some ((NewIRPhi g s)\<lparr>ir_var := s, ir_flags := kIRVarDef\<rparr>)"
    by (simp add: IRSetVarDef_def NewIRPhi_def IRSetType_def IRInit_def)
  have node: "(NewIRPhi g s)\<lparr>ir_var := s, ir_flags := kIRVarDef, ir_block := b\<rparr> = phi_node g (gen_next_ir_id g) s b"
    by (simp add: NewIRPhi_def phi_node_def IRSetType_def)
  have emit: "GeneratorEmitBefore ?p (block_start g b) ?g = ?g\<lparr>gen_code := insert_before ?p (block_start g b) (gen_code g)\<rparr>"
    using not_in_list [of ?p ?g] assms(4) by (simp add: GeneratorEmitBefore_def)
  let ?g2 = "?g\<lparr>gen_code := insert_before ?p (block_start g b) (gen_code g)\<rparr>"
  have at: "block_at ?g2 j = block_at g j" for j by (simp add: block_at_def)
  have "BasicBlockInsertPhi malloc b s g = Some (True, on_block b (\<lambda>x. x\<lparr>bb_code := ?p\<rparr>) ?g2)"
    using assms(1,2) node by (simp add: BasicBlockInsertPhi_def Let_def new emit)
  moreover have "define_var b s (on_block b (\<lambda>x. x\<lparr>bb_code := ?p\<rparr>) ?g2) = Some (after_phi ?p s b (fst r) g)"
    using assms(3,5) at
    by (simp add: define_var_def on_block_at after_phi_def) (simp add: on_block_def set_block_def block_at_def num_blocks_def)
  ultimately show ?thesis by blast
qed

lemma after_phi_fields:
  assumes "b < num_blocks g"
  shows "num_blocks (after_phi p s b m g) = num_blocks g"
    "gen_nodes (after_phi p s b m g) = (gen_nodes g)(p \<mapsto> phi_node g (gen_next_ir_id g) s b)"
    "gen_code (after_phi p s b m g) = insert_before p (block_start g b) (gen_code g)"
    "block_at (after_phi p s b m g) j =
      (if j = b then (block_at g b)\<lparr>bb_code := p, bb_defined_vars := m\<rparr> else block_at g j)"
  using assms by (simp_all add: after_phi_def set_block_def num_blocks_def block_at_def nth_list_update)


lemma symbols_of_new:
  "symbols_of g [] = {}"
  "symbols_of g (p # ps) = (case gen_nodes g p of None \<Rightarrow> {} | Some n \<Rightarrow> {ir_symbol_ref n}) \<union> symbols_of g ps"
  by (auto simp: symbols_of_def split: option.splits)

lemma phis_in_code:
  assumes "phi_ready g0" "phi_layout g0 g pf" "p \<in> set (pf c)"
  shows "p \<in> set (gen_code g)" "c \<in> set (gen_code g0)"
proof -
  have "pf c \<noteq> []" using assms(3) by auto
  then show c: "c \<in> set (gen_code g0)" using phi_layoutD(8,9) [OF assms(2), of c] phi_readyD(5) [OF assms(1)] by blast
  then show "p \<in> set (gen_code g)" using assms(3) phi_layoutD(1) [OF assms(2)] by (auto simp: set_with_phis)
qed

lemma distinct_insert_before:
  assumes "distinct xs" "p \<notin> set xs"
  shows "distinct (insert_before p q xs)"
  using assms
proof (induction xs)
  case (Cons x xs)
  have "set (insert_before p q xs) \<subseteq> insert p (set xs)" by (induction xs) auto
  then show ?case using Cons by auto
qed simp

lemma distinct_symbols:
  assumes d: "\<And>e. distinct (map (\<lambda>y. ir_symbol_ref (the (gen_nodes g y))) (pf e))"
    and same: "\<And>e y. y \<in> set (pf e) \<Longrightarrow> gen_nodes g' y = gen_nodes g y"
    and in_use: "\<And>e y. y \<in> set (pf e) \<Longrightarrow> \<exists>n. gen_nodes g y = Some n"
    and s: "s \<notin> symbols_of g (pf c)" "ir_symbol_ref (the (gen_nodes g' p)) = s"
  shows "distinct (map (\<lambda>y. ir_symbol_ref (the (gen_nodes g' y))) ((pf(c := p # pf c)) d))"
proof -
  have eq: "map (\<lambda>y. ir_symbol_ref (the (gen_nodes g' y))) (pf e) = map (\<lambda>y. ir_symbol_ref (the (gen_nodes g y))) (pf e)" for e
    by (rule map_cong) (simp_all add: same)
  have "s \<notin> set (map (\<lambda>y. ir_symbol_ref (the (gen_nodes g y))) (pf c))"
    using s(1) in_use [of _ c] by (force simp: symbols_of_def)
  then show ?thesis using d [of c] d [of d] by (simp add: eq s(2))
qed

lemma layout_step:
  assumes R: "phi_ready g0" and L: "phi_layout g0 g pf" and B: "phi_blocks_ok g0 g pf" and b: "b < num_blocks g0"
    and c: "block_start g0 b = c" "c \<noteq> 0" and s: "s \<notin> symbols_of g (pf c)" and p: "p \<noteq> 0" "gen_nodes g p = None"
  shows "phi_layout g0 (after_phi p s b m g) (pf(c := p # pf c))"
proof -
  let ?g = "after_phi p s b m g" and ?pf = "pf(c := p # pf c)"
  note D = phi_layoutD [OF L]
  have bg: "b < num_blocks g" using b phi_blocks_okD(1) [OF B] by simp
  note F = after_phi_fields [OF bg, of p s m]
  have cin: "c \<in> set (gen_code g0)" using phi_readyD(5) [OF R b] c by simp
  have start: "block_start g b = first_or (pf c) c" by (subst phi_blocks_okD(3) [OF B b]) (simp add: c(1))
  have pnew: "p \<notin> set (gen_code g)" using D(5) [of p] p(2) by auto
  have code: "gen_code ?g = with_phis ?pf (gen_code g0)"
    using with_phis_insert [of pf "gen_code g0" c p] D(2) cin by (simp add: F(3) start D(1))
  have set: "set (gen_code ?g) = insert p (set (gen_code g))"
    unfolding code D(1) set_with_phis using cin by (auto split: if_splits)
  have dist: "distinct (gen_code ?g)" using distinct_insert_before [OF D(2) pnew] by (simp add: F(3))
  have old: "gen_nodes ?g r = gen_nodes g r" if "r \<noteq> p" for r using that by (simp add: F(2))
  have no: "y \<noteq> p" if "y \<in> set (pf d)" for y d using phis_in_code(1) [OF R L that] pnew by auto
  have nodes: "\<exists>k t. gen_nodes ?g y = Some (phi_node g0 k t i)" if i: "i < num_blocks g0" and y: "y \<in> set (?pf (block_start g0 i))" for i y
  proof (cases "y = p")
    case True
    have "block_start g0 i = c" using y no True by (auto split: if_splits)
    then have "i = b" using phi_readyD(6) [OF R i b] c by simp
    then show ?thesis using True phi_blocks_okD(2) [OF B] by (auto simp: F(2) phi_node_def)
  next
    case False
    then have "y \<in> set (pf (block_start g0 i))" using y by (auto split: if_splits)
    then show ?thesis using D(10) [OF i] old [OF False] by simp
  qed
  have symbols: "distinct (map (\<lambda>y. ir_symbol_ref (the (gen_nodes ?g y))) (?pf d))" for d
  proof (rule distinct_symbols)
    show "gen_nodes ?g y = gen_nodes g y" if "y \<in> set (pf e)" for e y using old no [OF that] by blast
    show "ir_symbol_ref (the (gen_nodes ?g p)) = s" by (simp add: F(2))
    show "\<exists>n. gen_nodes g y = Some n" if "y \<in> set (pf e)" for e y using D(5) phis_in_code(1) [OF R L that] by blast
  qed (use D(11) s in blast)+
  have dom: "r \<in> dom (gen_nodes g0) \<or> (\<exists>d. r \<in> set (?pf d))" if r: "r \<in> dom (gen_nodes ?g)" for r
  proof (cases "r = p")
    case False
    then have "r \<in> dom (gen_nodes g)" using r old by auto
    then consider "r \<in> dom (gen_nodes g0)" | d where "r \<in> set (pf d)" using D(7) by blast
    then show ?thesis by cases (auto intro: exI [of _ c])
  qed (auto intro: exI [of _ c])
  have starts: "d \<noteq> 0 \<and> (\<exists>i<num_blocks g0. block_start g0 i = d)" if "?pf d \<noteq> []" for d
    using that D(8,9) [of d] b c by (auto split: if_splits)
  have "gen_nodes ?g r = Some n" if "gen_nodes g0 r = Some n" for r n using D(6) [OF that] p(2) old [of r] by (cases "r = p") simp_all
  then show ?thesis
    unfolding phi_layout_def using code dist set D(3-5) p(1) nodes symbols dom starts by (auto simp: F(2))
qed

text \<open>The symbols a block has a phi node for.\<close>

definition phi_symbols :: "generator \<Rightarrow> nat \<Rightarrow> symbol_ref set" where
  "phi_symbols g i = {s. \<exists>p \<in> set (gen_code g). \<exists>n. gen_nodes g p = Some n \<and> ir_opcode n = IR_phi \<and>
     ir_block n = i \<and> ir_symbol_ref n = s}"

lemma phi_symbols_layout:
  assumes R: "phi_ready g0" and L: "phi_layout g0 g pf" and i: "i < num_blocks g0"
  shows "phi_symbols g i = symbols_of g (pf (block_start g0 i))"
proof (intro set_eqI iffI)
  note D = phi_layoutD [OF L]
  fix s
  assume "s \<in> phi_symbols g i"
  then obtain p n where p: "p \<in> set (gen_code g)" "gen_nodes g p = Some n" "ir_opcode n = IR_phi" "ir_block n = i"
    "ir_symbol_ref n = s" by (auto simp: phi_symbols_def)
  have "p \<notin> set (gen_code g0)" using phi_readyD(4) [OF R, of p] D(6) [of p] p(2,3) by auto
  then obtain c where c: "p \<in> set (pf c)" using p(1) D(1) by (auto simp: set_with_phis)
  then have "pf c \<noteq> []" by auto
  then obtain j where j: "j < num_blocks g0" "block_start g0 j = c" using D(9) by blast
  then have "i = j" using D(10) [OF j(1), of p] c p(2,4) by auto
  then show "s \<in> symbols_of g (pf (block_start g0 i))" using c j(2) p(2,5) by (auto simp: symbols_of_def)
next
  fix s
  assume "s \<in> symbols_of g (pf (block_start g0 i))"
  then obtain p n where p: "p \<in> set (pf (block_start g0 i))" "gen_nodes g p = Some n" "ir_symbol_ref n = s"
    by (auto simp: symbols_of_def)
  obtain k t where "gen_nodes g p = Some (phi_node g0 k t i)" using phi_layoutD(10) [OF L i p(1)] by blast
  then have "ir_opcode n = IR_phi" "ir_block n = i" using p(2) by simp_all
  then show "s \<in> phi_symbols g i" unfolding phi_symbols_def using phis_in_code(1) [OF R L p(1)] p(2,3) by blast
qed

lemma symbols_step:
  assumes R: "phi_ready g0" and L: "phi_layout g0 g pf" and b: "b < num_blocks g"
    and new: "gen_nodes g p = None" and c: "c \<noteq> 0 \<or> pf c = []"
  shows "symbols_of (after_phi p s b m g) (pf c) = symbols_of g (pf c)"
    "symbols_of (after_phi p s b m g) (p # pf c) = insert s (symbols_of g (pf c))"
proof -
  have "y \<noteq> p" if "y \<in> set (pf c)" for y using phi_layoutD(5) [OF L phis_in_code(1) [OF R L that]] new by auto
  then show eq: "symbols_of (after_phi p s b m g) (pf c) = symbols_of g (pf c)"
    by (simp add: symbols_of_def after_phi_fields(2) [OF b])
  show "symbols_of (after_phi p s b m g) (p # pf c) = insert s (symbols_of g (pf c))"
    using eq by (simp add: symbols_of_new after_phi_fields(2) [OF b])
qed

lemma blocks_step:
  assumes R: "phi_ready g0" and L: "phi_layout g0 g pf" and B: "phi_blocks_ok g0 g pf" and b: "b < num_blocks g0"
    and c: "block_start g0 b = c" "c \<noteq> 0" and p: "gen_nodes g p = None"
    and m: "variables_ok m" "map_symbols m = insert s (map_symbols (bb_defined_vars (block_at g b)))"
  shows "phi_blocks_ok g0 (after_phi p s b m g) (pf(c := p # pf c))"
proof -
  let ?g = "after_phi p s b m g" and ?pf = "pf(c := p # pf c)"
  have bg: "b < num_blocks g" using b phi_blocks_okD(1) [OF B] by simp
  note F = after_phi_fields [OF bg, of p s m] and S = symbols_step [OF R L bg p, of _ s m]
  have at: "block_at ?g i = (block_at g0 i)\<lparr>bb_code := first_or (?pf (block_start g0 i)) (block_start g0 i),
        bb_defined_vars := bb_defined_vars (block_at ?g i)\<rparr> \<and>
      variables_ok (bb_defined_vars (block_at ?g i)) \<and>
      map_symbols (bb_defined_vars (block_at ?g i)) =
        map_symbols (bb_defined_vars (block_at g0 i)) \<union> symbols_of ?g (?pf (block_start g0 i))" if i: "i < num_blocks g0" for i
  proof (cases "i = b")
    case True
    have "block_at ?g i = (block_at g0 i)\<lparr>bb_code := p, bb_defined_vars := m\<rparr>"
      unfolding F(4) True using arg_cong [OF phi_blocks_okD(3) [OF B b], of "\<lambda>x. x\<lparr>bb_code := p, bb_defined_vars := m\<rparr>"]
      by simp
    then show ?thesis using c m S(2) [of c] phi_blocks_okD(5) [OF B b] True by simp
  next
    case False
    have pf: "?pf (block_start g0 i) = pf (block_start g0 i)" using False phi_readyD(6) [OF R that b] c by auto
    have "block_start g0 i \<noteq> 0 \<or> pf (block_start g0 i) = []" using phi_layoutD(8) [OF L, of "block_start g0 i"] by blast
    then show ?thesis using False phi_blocks_okD(3-5) [OF B i] S(1) unfolding F(4) pf by simp
  qed
  have "g = g0\<lparr>gen_nodes := gen_nodes g, gen_code := gen_code g, gen_basic_blocks := gen_basic_blocks g,
      gen_next_ir_id := gen_next_ir_id g\<rparr>" using B unfolding phi_blocks_ok_def by blast
  then obtain a e f k where g: "g = g0\<lparr>gen_nodes := a, gen_code := e, gen_basic_blocks := f, gen_next_ir_id := k\<rparr>" by blast
  have only: "?g = g0\<lparr>gen_nodes := gen_nodes ?g, gen_code := gen_code ?g, gen_basic_blocks := gen_basic_blocks ?g,
      gen_next_ir_id := gen_next_ir_id ?g\<rparr>" unfolding after_phi_def set_block_def g by simp
  have n: "num_blocks ?g = num_blocks g0" using F(1) phi_blocks_okD(1) [OF B] by simp
  show ?thesis unfolding phi_blocks_ok_def
    by (rule conjI [OF n conjI [OF only]], intro allI impI, rule at)
qed


end
