(* ===== verification/SsaRun.thy ===== *)
theory SsaRun
  imports SsaSpec
begin

text \<open>
  The loops of the placement: they end, and with the last round every block of the iterated
  frontier of the definitions of a symbol has its phi node.
\<close>

section \<open>Iterated frontiers\<close>

text \<open>
  \<open>F\<close> are the frontiers, \<open>D\<close> the blocks that define a symbol, \<open>C\<close> those with code, which
  alone can hold a node.
\<close>

inductive iterated_frontier :: "(nat \<Rightarrow> nat set) \<Rightarrow> nat set \<Rightarrow> nat set \<Rightarrow> nat \<Rightarrow> bool" for F C D where
  direct: "j \<in> D \<Longrightarrow> i \<in> F j \<Longrightarrow> i \<in> C \<Longrightarrow> iterated_frontier F C D i"
| again: "iterated_frontier F C D j \<Longrightarrow> i \<in> F j \<Longrightarrow> i \<in> C \<Longrightarrow> iterated_frontier F C D i"

inductive_simps iterated_frontier_unfold: "iterated_frontier F C D i"

lemma iterated_frontier_cong:
  assumes "\<And>j. j \<in> D \<union> C \<Longrightarrow> F j = F' j"
  shows "iterated_frontier F C D i = iterated_frontier F' C D i"
proof
  have C: "iterated_frontier H C D j \<Longrightarrow> j \<in> C" for H j by (auto elim: iterated_frontier.cases)
  show "iterated_frontier F C D i \<Longrightarrow> iterated_frontier F' C D i"
    by (induction rule: iterated_frontier.induct) (use assms C in \<open>blast intro: iterated_frontier.intros\<close>)+
  show "iterated_frontier F' C D i \<Longrightarrow> iterated_frontier F C D i"
    by (induction rule: iterated_frontier.induct) (use assms C in \<open>blast intro: iterated_frontier.intros\<close>)+
qed

definition defining_blocks :: "generator \<Rightarrow> symbol_ref \<Rightarrow> nat set" where
  "defining_blocks g s = {i. i < num_blocks g \<and> s \<in> map_symbols (bb_defined_vars (block_at g i))}"

definition blocks_with_code :: "generator \<Rightarrow> nat set" where
  "blocks_with_code g = {i. i < num_blocks g \<and> block_start g i \<noteq> 0}"

abbreviation phi_needed :: "generator \<Rightarrow> symbol_ref \<Rightarrow> nat \<Rightarrow> bool" where
  "phi_needed g s \<equiv> iterated_frontier (frontier_at g) (blocks_with_code g) (defining_blocks g s)"

lemma phi_needed_code: "phi_needed g s i \<Longrightarrow> i < num_blocks g \<and> block_start g i \<noteq> 0"
  by (erule iterated_frontier.cases) (auto simp: blocks_with_code_def)

lemma finite_map_symbols: "finite (map_symbols m)"
  by (simp add: map_symbols_def)

lemma finite_phi_needed: "finite {s. phi_needed g s i}"
proof (rule finite_subset)
  have "phi_needed g s i \<Longrightarrow> \<exists>j < num_blocks g. s \<in> map_symbols (bb_defined_vars (block_at g j))" for s i
    by (induction rule: iterated_frontier.induct) (auto simp: defining_blocks_def)
  then show "{s. phi_needed g s i} \<subseteq> (\<Union>j < num_blocks g. map_symbols (bb_defined_vars (block_at g j)))" by blast
qed (simp add: finite_map_symbols)

definition frontiers_ok :: "generator \<Rightarrow> bool" where
  "frontiers_ok g \<longleftrightarrow> (\<forall>i < num_blocks g. bs_ok (bb_dominance_frontier (block_at g i)) \<and> frontier_at g i \<subseteq> {..<num_blocks g})"

section \<open>States and progress\<close>

definition has_phis :: "generator \<Rightarrow> generator \<Rightarrow> bool" where
  "has_phis g0 g \<longleftrightarrow> (\<exists>pf. phi_layout g0 g pf \<and> phi_blocks_ok g0 g pf)"

lemma has_phisD:
  assumes R: "phi_ready g0" and h: "has_phis g0 g"
  shows "num_blocks g = num_blocks g0"
    "i < num_blocks g0 \<Longrightarrow> bb_dominance_frontier (block_at g i) = bb_dominance_frontier (block_at g0 i)"
    "i < num_blocks g0 \<Longrightarrow> variables_ok (bb_defined_vars (block_at g i))"
    "i < num_blocks g0 \<Longrightarrow> map_symbols (bb_defined_vars (block_at g i)) =
       map_symbols (bb_defined_vars (block_at g0 i)) \<union> phi_symbols g i"
proof -
  obtain pf where L: "phi_layout g0 g pf" and B: "phi_blocks_ok g0 g pf" using h by (auto simp: has_phis_def)
  note D = phi_blocks_okD [OF B]
  show "num_blocks g = num_blocks g0" by (rule D(1))
  assume i: "i < num_blocks g0"
  show "bb_dominance_frontier (block_at g i) = bb_dominance_frontier (block_at g0 i)"
    using arg_cong [OF D(3) [OF i], of bb_dominance_frontier] by simp
  show "variables_ok (bb_defined_vars (block_at g i))" by (rule D(4) [OF i])
  show "map_symbols (bb_defined_vars (block_at g i)) = map_symbols (bb_defined_vars (block_at g0 i)) \<union> phi_symbols g i"
    unfolding D(5) [OF i] phi_symbols_layout [OF R L i] ..
qed

text \<open>The search of a block with code, and the new node when it finds none.\<close>

lemma phi_search:
  assumes R: "phi_ready g0" and L: "phi_layout g0 g pf" and B: "phi_blocks_ok g0 g pf" and i: "i < num_blocks g0"
    and nz: "block_start g0 i \<noteq> 0"
  shows "block_start g i \<noteq> 0 \<and> find_phi g (block_start g i) s = Some (s \<in> phi_symbols g i)"
proof -
  define c where "c = block_start g0 i"
  note D = phi_layoutD [OF L]
  have start: "block_start g i = first_or (pf c) c" by (subst phi_blocks_okD(3) [OF B i]) (simp add: c_def)
  have cin: "c \<in> set (gen_code g0)" using phi_readyD(5) [OF R i] nz by (simp add: c_def)
  obtain as bs where w: "gen_code g = with_phis pf as @ pf c @ c # with_phis pf bs"
    using with_phis_split [of pf "gen_code g0" c] D(1,2) cin by metis
  have "block_start g i \<noteq> 0" using D(4) [of "block_start g i"] w start by (cases "pf c") auto
  moreover obtain n where n: "gen_nodes g c = Some n" "ir_opcode n \<noteq> IR_phi" using phi_readyD(4) [OF R cin] D(6) by blast
  have "\<exists>n. gen_nodes g y = Some n \<and> ir_opcode n = IR_phi" if "y \<in> set (pf c)" for y
    using D(10) [OF i, of y] that by (auto simp: c_def)
  then have "find_phi g (block_start g i) s = Some (s \<in> phi_symbols g i)"
    unfolding start phi_symbols_layout [OF R L i, folded c_def] by (rule find_phi_walk [OF w D(2) _ n])
  ultimately show ?thesis ..
qed

lemma phi_symbols_after:
  assumes R: "phi_ready g0" and L: "phi_layout g0 g pf" and i: "i < num_blocks g0" "i < num_blocks g" and c: "c = block_start g0 i" "c \<noteq> 0"
    and p: "gen_nodes g p = None" and L': "phi_layout g0 (after_phi p s i m g) (pf(c := p # pf c))" and j: "j < num_blocks g0"
  shows "phi_symbols (after_phi p s i m g) j = (if j = i then insert s (phi_symbols g j) else phi_symbols g j)"
proof -
  note S = phi_symbols_layout [OF R L] phi_symbols_layout [OF R L']
  show ?thesis
  proof (cases "j = i")
    case True
    then show ?thesis using symbols_step(2) [OF R L i(2) p, of c s m] c i by (simp add: S)
  next
    case False
    then have "block_start g0 j \<noteq> c" using phi_readyD(6) [OF R j i(1)] c by auto
    then show ?thesis using False symbols_step(1) [OF R L i(2) p, of "block_start g0 j" s m] phi_layoutD(8) [OF L, of "block_start g0 j"] j
      by (auto simp: S)
  qed
qed

lemma InsertPhi_new:
  assumes A: "fresh_alloc malloc" and R: "phi_ready g0" and L: "phi_layout g0 g pf" and B: "phi_blocks_ok g0 g pf"
    and i: "i < num_blocks g0" and s: "s < 2 ^ 64" and nz: "block_start g0 i \<noteq> 0" and new: "s \<notin> phi_symbols g i"
  shows "\<exists>g1 g2. BasicBlockInsertPhi malloc i s g = Some (True, g1) \<and> define_var i s g1 = Some g2 \<and> has_phis g0 g2 \<and>
      (\<forall>j < num_blocks g0. phi_symbols g2 j = (if j = i then insert s (phi_symbols g j) else phi_symbols g j))"
proof -
  define c where "c = block_start g0 i"
  let ?p = "malloc (gen_nodes g)"
  have p: "?p \<noteq> 0" "gen_nodes g ?p = None" using A phi_layoutD(3) [OF L] by (auto simp: fresh_alloc_def)
  then have pc: "?p \<notin> set (gen_code g)" using phi_layoutD(5) [OF L] by auto
  obtain r where r: "MapInsert (bb_defined_vars (block_at g i)) \<lparr>kv_key = word_of_nat s, kv_value = 0\<rparr> = Some r"
    "variables_ok (fst r)" "map_symbols (fst r) = insert s (map_symbols (bb_defined_vars (block_at g i)))"
    using MapInsert_symbols [OF phi_blocks_okD(4) [OF B i] s] by blast
  have ig: "i < num_blocks g" using i phi_blocks_okD(1) [OF B] by simp
  have c: "block_start g0 i = c" "c \<noteq> 0" using nz by (simp_all add: c_def)
  let ?g = "after_phi ?p s i (fst r) g" and ?pf = "pf(c := ?p # pf c)"
  note search = phi_search [OF R L B i nz, of s]
  obtain g1 where g1: "BasicBlockInsertPhi malloc i s g = Some (True, g1)" "define_var i s g1 = Some ?g"
    using insert_phi_effect [of g i s malloc r] search ig pc r(1) new by auto
  have L': "phi_layout g0 ?g ?pf"
    by (rule layout_step [OF R L B i c _ p]) (use new phi_symbols_layout [OF R L i] in \<open>simp add: c_def\<close>)
  have B': "phi_blocks_ok g0 ?g ?pf" by (rule blocks_step [OF R L B i c p(2) r(2,3)])
  show ?thesis using g1 phi_symbols_after [OF R L i ig c_def c(2) p(2) L'] L' B' unfolding has_phis_def by blast
qed

lemma InsertPhi_step:
  assumes A: "fresh_alloc malloc" and R: "phi_ready g0" and h: "has_phis g0 g" and i: "i < num_blocks g0" and s: "s < 2 ^ 64"
  shows "(block_start g0 i = 0 \<or> s \<in> phi_symbols g i) \<and> BasicBlockInsertPhi malloc i s g = Some (False, g) \<or>
    block_start g0 i \<noteq> 0 \<and> s \<notin> phi_symbols g i \<and>
    (\<exists>g1 g2. BasicBlockInsertPhi malloc i s g = Some (True, g1) \<and> define_var i s g1 = Some g2 \<and> has_phis g0 g2 \<and>
      (\<forall>j < num_blocks g0. phi_symbols g2 j = (if j = i then insert s (phi_symbols g j) else phi_symbols g j)))"
proof -
  obtain pf where L: "phi_layout g0 g pf" and B: "phi_blocks_ok g0 g pf" using h by (auto simp: has_phis_def)
  consider "block_start g0 i = 0" | "block_start g0 i \<noteq> 0" "s \<in> phi_symbols g i" | "block_start g0 i \<noteq> 0" "s \<notin> phi_symbols g i" by blast
  then show ?thesis
  proof cases
    case 1
    then have "pf (block_start g0 i) = []" using phi_layoutD(8) [OF L, of "block_start g0 i"] by blast
    then have "block_start g i = 0" by (subst phi_blocks_okD(3) [OF B i]) (simp add: 1)
    then show ?thesis using 1 by (simp add: BasicBlockInsertPhi_def)
  next
    case 2
    then show ?thesis using phi_search [OF R L B i, of s] by (simp add: BasicBlockInsertPhi_def Let_def)
  next
    case 3
    then show ?thesis using InsertPhi_new [OF A R L B i s] by blast
  qed
qed

section \<open>The loops\<close>

definition phis_sound :: "generator \<Rightarrow> generator \<Rightarrow> bool" where
  "phis_sound g0 g \<longleftrightarrow> has_phis g0 g \<and> (\<forall>i < num_blocks g0. \<forall>s \<in> phi_symbols g i. phi_needed g0 s i)"

text \<open>The phi nodes still to place; a round that changes something lowers their number.\<close>

definition missing :: "generator \<Rightarrow> generator \<Rightarrow> nat" where
  "missing g0 g = (\<Sum>i < num_blocks g0. card ({s. phi_needed g0 s i} - phi_symbols g i))"

definition advance :: "generator \<Rightarrow> generator \<Rightarrow> generator \<Rightarrow> bool \<Rightarrow> bool" where
  "advance g0 g g' changed \<longleftrightarrow> phis_sound g0 g' \<and> (if changed then missing g0 g' < missing g0 g else g' = g)"

lemma advance_trans: "advance g0 g g1 a \<Longrightarrow> advance g0 g1 g2 b \<Longrightarrow> advance g0 g g2 (a \<or> b)"
  by (auto simp: advance_def split: if_splits)

lemma missing_less:
  assumes "i < num_blocks g0" "phi_needed g0 s i" "s \<notin> phi_symbols g i"
    and sym: "\<And>j. j < num_blocks g0 \<Longrightarrow> phi_symbols g' j = (if j = i then insert s (phi_symbols g j) else phi_symbols g j)"
  shows "missing g0 g' < missing g0 g"
  unfolding missing_def
proof (rule sum_strict_mono_ex1)
  show "\<forall>j \<in> {..<num_blocks g0}. card ({s. phi_needed g0 s j} - phi_symbols g' j) \<le> card ({s. phi_needed g0 s j} - phi_symbols g j)"
    by (intro ballI card_mono) (auto simp: sym finite_phi_needed split: if_splits)
  have "card ({s. phi_needed g0 s i} - phi_symbols g' i) < card ({s. phi_needed g0 s i} - phi_symbols g i)"
    by (rule psubset_card_mono) (use assms in \<open>auto simp: sym finite_phi_needed\<close>)
  then show "\<exists>j \<in> {..<num_blocks g0}. card ({s. phi_needed g0 s j} - phi_symbols g' j) < card ({s. phi_needed g0 s j} - phi_symbols g j)"
    using assms(1) by blast
qed simp

text \<open>What all the loops need of the start and of the allocator.\<close>

definition phi_start_ok :: "(ir_store \<Rightarrow> node_ref) \<Rightarrow> generator \<Rightarrow> bool" where
  "phi_start_ok malloc g \<longleftrightarrow> fresh_alloc malloc \<and> phi_ready g \<and> frontiers_ok g"

definition placed_for :: "generator \<Rightarrow> generator \<Rightarrow> nat set \<Rightarrow> symbol_ref \<Rightarrow> bool" where
  "placed_for g0 g X s \<longleftrightarrow> (\<forall>d \<in> X. block_start g0 d \<noteq> 0 \<longrightarrow> s \<in> phi_symbols g d)"

lemma phi_frontier_spec:
  assumes A: "phi_start_ok malloc g0" and h: "phis_sound g0 g" and s: "s < 2 ^ 64"
    and ds: "\<And>d. d \<in> set ds \<Longrightarrow> d < num_blocks g0 \<and> (block_start g0 d \<noteq> 0 \<longrightarrow> phi_needed g0 s d)"
  shows "\<exists>g' ch. phi_frontier malloc s ds g c = Some (g', c \<or> ch) \<and> advance g0 g g' ch \<and>
    (\<not> ch \<longrightarrow> placed_for g0 g (set ds) s)"
  using h ds
proof (induction ds arbitrary: g c)
  case Nil
  then show ?case by (auto simp: advance_def placed_for_def intro!: exI [of _ False])
next
  case (Cons d ds)
  have A': "fresh_alloc malloc" "phi_ready g0" using A by (simp_all add: phi_start_ok_def)
  have d: "d < num_blocks g0" "block_start g0 d \<noteq> 0 \<Longrightarrow> phi_needed g0 s d" using Cons.prems(2) [of d] by simp_all
  have g: "has_phis g0 g" using Cons.prems(1) by (simp add: phis_sound_def)
  have dg: "d < num_blocks g" using d(1) has_phisD(1) [OF A'(2) g] by simp
  have rest: "\<exists>g2 ch. phi_frontier malloc s ds g1 c' = Some (g2, c' \<or> ch) \<and> advance g0 g1 g2 ch \<and>
      (\<not> ch \<longrightarrow> placed_for g0 g1 (set ds) s)" if "phis_sound g0 g1" for g1 c'
    by (rule Cons.IH [OF that]) (use Cons.prems(2) in simp)
  consider "block_start g0 d = 0 \<or> s \<in> phi_symbols g d" "BasicBlockInsertPhi malloc d s g = Some (False, g)"
    | g1 g2 where "block_start g0 d \<noteq> 0" "s \<notin> phi_symbols g d" "BasicBlockInsertPhi malloc d s g = Some (True, g1)"
      "define_var d s g1 = Some g2" "has_phis g0 g2"
      "\<forall>j < num_blocks g0. phi_symbols g2 j = (if j = d then insert s (phi_symbols g j) else phi_symbols g j)"
    using InsertPhi_step [OF A' g d(1) s] by blast
  then show ?case
  proof cases
    case 1
    obtain g2 ch where "phi_frontier malloc s ds g c = Some (g2, c \<or> ch)" "advance g0 g g2 ch"
      "\<not> ch \<longrightarrow> placed_for g0 g (set ds) s" using rest [OF Cons.prems(1), of c] by blast
    then show ?thesis using dg 1 by (auto simp: placed_for_def)
  next
    case 2
    have sound: "phis_sound g0 g2"
      using Cons.prems(1) 2(5,6) d(2) [OF 2(1)] by (auto simp: phis_sound_def split: if_splits)
    have one: "advance g0 g g2 True"
      using sound missing_less [OF d(1) d(2) [OF 2(1)] 2(2), of g2] 2(6) by (simp add: advance_def)
    obtain g3 ch where "phi_frontier malloc s ds g2 True = Some (g3, True \<or> ch)" "advance g0 g2 g3 ch"
      using rest [OF sound, of True] by blast
    then show ?thesis using advance_trans [OF one, of g3 ch] 2(3,4) dg by (auto intro!: exI [of _ True])
  qed
qed


text \<open>The symbols a block can come to define are finitely many, so the loop over them ends.\<close>

definition reachable_symbols :: "generator \<Rightarrow> nat \<Rightarrow> symbol_ref set" where
  "reachable_symbols g i = map_symbols (bb_defined_vars (block_at g i)) \<union> {s. phi_needed g s i}"

lemma length_defined:
  assumes "phi_ready g0" "phis_sound g0 g" "i < num_blocks g0"
  shows "m_length (bb_defined_vars (block_at g i)) \<le> card (reachable_symbols g0 i)"
    "map_symbols (bb_defined_vars (block_at g i)) \<subseteq> reachable_symbols g0 i"
proof -
  have h: "has_phis g0 g" "\<forall>s \<in> phi_symbols g i. phi_needed g0 s i" using assms(2,3) by (auto simp: phis_sound_def)
  show sub: "map_symbols (bb_defined_vars (block_at g i)) \<subseteq> reachable_symbols g0 i"
    unfolding has_phisD(4) [OF assms(1) h(1) assms(3)] reachable_symbols_def using h(2) by blast
  show "m_length (bb_defined_vars (block_at g i)) \<le> card (reachable_symbols g0 i)"
    unfolding card_map_symbols [OF has_phisD(3) [OF assms(1) h(1) assms(3)]]
    by (rule card_mono [OF _ sub]) (simp add: reachable_symbols_def finite_map_symbols finite_phi_needed)
qed

lemma reachable_needed:
  assumes "frontiers_ok g" "i < num_blocks g" "s \<in> reachable_symbols g i" "d \<in> frontier_at g i"
  shows "d < num_blocks g \<and> (block_start g d \<noteq> 0 \<longrightarrow> phi_needed g s d)"
proof -
  have d: "d < num_blocks g" using assms(1,2,4) by (auto simp: frontiers_ok_def)
  have "phi_needed g s d" if "block_start g d \<noteq> 0"
  proof -
    have "d \<in> blocks_with_code g" using that d by (simp add: blocks_with_code_def)
    then show ?thesis using assms(2-4)
      by (auto simp: reachable_symbols_def defining_blocks_def intro: iterated_frontier.intros)
  qed
  then show ?thesis using d by blast
qed

definition symbols_from :: "generator \<Rightarrow> nat \<Rightarrow> nat \<Rightarrow> symbol_ref set" where
  "symbols_from g i j = {unat (kv_key (map_buf (bb_defined_vars (block_at g i)) ! k)) | k.
     j \<le> k \<and> k < m_length (bb_defined_vars (block_at g i))}"

lemma phi_vars_spec:
  assumes A: "phi_start_ok malloc g0" and h: "phis_sound g0 g" and i: "i < num_blocks g0"
  shows "\<exists>g' ch. phi_vars malloc i j g c = Some (g', c \<or> ch) \<and> advance g0 g g' ch \<and>
    (\<not> ch \<longrightarrow> (\<forall>s \<in> symbols_from g i j. placed_for g0 g (frontier_at g0 i) s))"
  using h
proof (induction "card (reachable_symbols g0 i) - j" arbitrary: j g c rule: less_induct)
  case less
  have A': "phi_ready g0" "frontiers_ok g0" using A by (simp_all add: phi_start_ok_def)
  have hp: "has_phis g0 g" using less.prems by (simp add: phis_sound_def)
  note D = has_phisD [OF A'(1) hp]
  let ?m = "bb_defined_vars (block_at g i)"
  let ?s = "unat (kv_key (map_buf ?m ! j))"
  show ?case
  proof (cases "j < m_length ?m")
    case False
    then have "phi_vars malloc i j g c = Some (g, c)" by (subst phi_vars.simps) simp
    moreover have "symbols_from g i j = {}" using False by (auto simp: symbols_from_def)
    ultimately show ?thesis using less.prems by (auto simp: advance_def intro!: exI [of _ False])
  next
    case True
    have bs: "bs_ok (bb_dominance_frontier (block_at g i))" "bs_set (bb_dominance_frontier (block_at g i)) = frontier_at g0 i"
      using A'(2) i by (simp_all add: D(2) [OF i] frontiers_ok_def frontier_at_def)
    have "?s \<in> map_symbols ?m" using True nth_map_symbols [OF D(3) [OF i]] by blast
    then have s: "?s < 2 ^ 64" "?s \<in> reachable_symbols g0 i"
      using map_symbols_less length_defined(2) [OF A'(1) less.prems i] by auto
    let ?ds = "sorted_list_of_set (frontier_at g0 i)"
    have ds: "set ?ds = frontier_at g0 i" using finite_bs_set by (simp add: frontier_at_def)
    obtain g1 a where g1: "phi_frontier malloc ?s ?ds g c = Some (g1, c \<or> a)" "advance g0 g g1 a"
      "\<not> a \<longrightarrow> placed_for g0 g (frontier_at g0 i) ?s"
      using phi_frontier_spec [OF A less.prems s(1), of ?ds c] reachable_needed [OF A'(2) i s(2)] ds by auto
    have s1: "phis_sound g0 g1" using g1(2) by (simp add: advance_def)
    have "j < card (reachable_symbols g0 i)" using True length_defined(1) [OF A'(1) less.prems i] by simp
    then have "card (reachable_symbols g0 i) - (j + 1) < card (reachable_symbols g0 i) - j" by simp
    from less.hyps [OF this s1, of "c \<or> a"] obtain g2 b where
      g2: "phi_vars malloc i (j + 1) g1 (c \<or> a) = Some (g2, (c \<or> a) \<or> b)" "advance g0 g1 g2 b"
        "\<not> b \<longrightarrow> (\<forall>s \<in> symbols_from g1 i (j + 1). placed_for g0 g1 (frontier_at g0 i) s)" by blast
    have "phi_vars malloc i j g c = Some (g2, c \<or> a \<or> b)"
      using True g1(1) g2(1) by (subst phi_vars.simps) (simp add: BitSetValues_spec [OF bs(1)] bs(2) disj_assoc)
    moreover have "placed_for g0 g (frontier_at g0 i) s" if "\<not> (a \<or> b)" "s \<in> symbols_from g i j" for s
    proof -
      have "g1 = g" using g1(2) that(1) by (simp add: advance_def)
      moreover have "s = ?s \<or> s \<in> symbols_from g i (j + 1)" using that(2) by (auto simp: symbols_from_def) (metis Suc_leI le_neq_implies_less)
      ultimately show ?thesis using g1(3) g2(3) that(1) by blast
    qed
    ultimately show ?thesis using advance_trans [OF g1(2) g2(2)] by blast
  qed
qed

lemma phi_blocks_spec:
  assumes A: "phi_start_ok malloc g0" and h: "phis_sound g0 g" and sub: "set is \<subseteq> {..<num_blocks g0}"
  shows "\<exists>g' ch. phi_blocks malloc is g c = Some (g', c \<or> ch) \<and> advance g0 g g' ch \<and>
    (\<not> ch \<longrightarrow> (\<forall>i \<in> set is. \<forall>s \<in> map_symbols (bb_defined_vars (block_at g i)). placed_for g0 g (frontier_at g0 i) s))"
  using h sub
proof (induction "is" arbitrary: g c)
  case Nil
  then show ?case by (auto simp: advance_def intro!: exI [of _ False])
next
  case (Cons i "is")
  have i: "i < num_blocks g0" and rest: "set is \<subseteq> {..<num_blocks g0}" using Cons.prems(2) by auto
  obtain g1 a where g1: "phi_vars malloc i 0 g c = Some (g1, c \<or> a)" "advance g0 g g1 a"
    "\<not> a \<longrightarrow> (\<forall>s \<in> symbols_from g i 0. placed_for g0 g (frontier_at g0 i) s)"
    using phi_vars_spec [OF A Cons.prems(1) i, of 0 c] by blast
  have "phis_sound g0 g1" using g1(2) by (simp add: advance_def)
  from Cons.IH [OF this rest, of "c \<or> a"] obtain g2 b where
    g2: "phi_blocks malloc is g1 (c \<or> a) = Some (g2, (c \<or> a) \<or> b)" "advance g0 g1 g2 b"
      "\<not> b \<longrightarrow> (\<forall>i \<in> set is. \<forall>s \<in> map_symbols (bb_defined_vars (block_at g1 i)). placed_for g0 g1 (frontier_at g0 i) s)" by blast
  have "has_phis g0 g" "phi_ready g0" using Cons.prems(1) A by (simp_all add: phis_sound_def phi_start_ok_def)
  then have syms: "symbols_from g i 0 = map_symbols (bb_defined_vars (block_at g i))"
    using nth_map_symbols [OF has_phisD(3) [of g0 g i]] i by (simp add: symbols_from_def)
  have "g1 = g" if "\<not> (a \<or> b)" using g1(2) that by (simp add: advance_def)
  then show ?case using g1(1,3) g2(1,3) advance_trans [OF g1(2) g2(2)] syms by (auto simp: disj_assoc intro!: exI [of _ "a \<or> b"])
qed

text \<open>A round that changes nothing has found every block of every frontier served.\<close>

lemma unchanged_complete:
  assumes "phi_ready g0" "has_phis g0 g" "i < num_blocks g0"
    and done_all: "\<And>i s. i < num_blocks g0 \<Longrightarrow> s \<in> map_symbols (bb_defined_vars (block_at g i)) \<Longrightarrow> placed_for g0 g (frontier_at g0 i) s"
  shows "phi_needed g0 s i \<Longrightarrow> s \<in> phi_symbols g i"
proof (induction rule: iterated_frontier.induct)
  case (direct j i)
  have j: "j < num_blocks g0" using direct(1) by (simp add: defining_blocks_def)
  have "s \<in> map_symbols (bb_defined_vars (block_at g j))"
    using direct(1) has_phisD(4) [OF assms(1,2) j] by (simp add: defining_blocks_def)
  then show ?case using done_all [OF j] direct(2,3) by (simp add: placed_for_def blocks_with_code_def)
next
  case (again j i)
  have j: "j < num_blocks g0" using again(1) phi_needed_code by blast
  have "s \<in> map_symbols (bb_defined_vars (block_at g j))" using again(4) has_phisD(4) [OF assms(1,2) j] by simp
  then show ?case using done_all [OF j] again(2,3) by (simp add: placed_for_def blocks_with_code_def)
qed

lemma InsertPhiNodes_run:
  assumes A: "phi_start_ok malloc g0" and h: "phis_sound g0 g"
  shows "\<exists>g'. InsertPhiNodes malloc g = Some g' \<and> has_phis g0 g' \<and>
    (\<forall>i < num_blocks g0. phi_symbols g' i = {s. phi_needed g0 s i})"
  using h
proof (induction "missing g0 g" arbitrary: g rule: less_induct)
  case less
  have A': "phi_ready g0" using A by (simp add: phi_start_ok_def)
  have hp: "has_phis g0 g" using less.prems by (simp add: phis_sound_def)
  have n: "num_blocks g = num_blocks g0" by (rule has_phisD(1) [OF A' hp])
  obtain g1 a where g1: "phi_blocks malloc [0..<num_blocks g] g False = Some (g1, a)" "advance g0 g g1 a"
    "\<not> a \<longrightarrow> (\<forall>i < num_blocks g0. \<forall>s \<in> map_symbols (bb_defined_vars (block_at g i)). placed_for g0 g (frontier_at g0 i) s)"
    using phi_blocks_spec [OF A less.prems, of "[0..<num_blocks g]" False] n by (auto simp: atLeast0LessThan)
  show ?case
  proof (cases a)
    case True
    then show ?thesis
      using less.hyps [of g1] g1(1,2) by (subst InsertPhiNodes.simps) (simp add: advance_def)
  next
    case False
    then have eq: "g1 = g" using g1(2) by (simp add: advance_def)
    have "phi_symbols g i = {s. phi_needed g0 s i}" if i: "i < num_blocks g0" for i
      using unchanged_complete [OF A' hp i] g1(3) False less.prems i by (auto simp: phis_sound_def)
    then show ?thesis using g1(1) False eq hp by (subst InsertPhiNodes.simps) simp
  qed
qed

lemma InsertPhiNodes_spec:
  assumes A: "phi_start_ok malloc g"
  shows "\<exists>g'. InsertPhiNodes malloc g = Some g' \<and> has_phis g g' \<and>
    (\<forall>i < num_blocks g. phi_symbols g' i = {s. phi_needed g s i})"
proof (rule InsertPhiNodes_run [OF A])
  have R: "phi_ready g" using A by (simp add: phi_start_ok_def)
  show "phis_sound g g"
    using phi_start [OF R] phi_symbols_layout [OF R phi_start(1) [OF R]] by (auto simp: phis_sound_def has_phis_def symbols_of_def)
qed


end
