(* ===== verification/SsaTheorems.thy ===== *)
theory SsaTheorems
  imports SsaRun CfgTheorems
begin

text \<open>
  The properties of the placement of phi nodes on a graph that has been analysed.
\<close>

section \<open>After the analysis\<close>

text \<open>The analysis changes neither the code nor the variables of a block.\<close>

lemma analyzed_blocks:
  assumes "analyzed g g'" "i < num_blocks g"
  shows "block_start g' i = block_start g i" "bb_defined_vars (block_at g' i) = bb_defined_vars (block_at g i)"
  using arg_cong [OF analyzedD(7) [OF assms, unfolded analysis_only_def], of bb_code]
    arg_cong [OF analyzedD(7) [OF assms, unfolded analysis_only_def], of bb_defined_vars] by simp_all

lemma analyzed_sets:
  assumes "analyzed g g'"
  shows "gen_code g' = gen_code g" "gen_nodes g' = gen_nodes g" "defining_blocks g' s = defining_blocks g s"
    "blocks_with_code g' = blocks_with_code g"
proof -
  have "g' = g\<lparr>gen_basic_blocks := gen_basic_blocks g'\<rparr>" using assms by (simp add: analyzed_def)
  then obtain b where b: "g' = g\<lparr>gen_basic_blocks := b\<rparr>" by blast
  show "gen_code g' = gen_code g" "gen_nodes g' = gen_nodes g" by (simp_all add: b)
  show "defining_blocks g' s = defining_blocks g s" "blocks_with_code g' = blocks_with_code g"
    using analyzed_blocks [OF assms] analyzedD(1) [OF assms] by (auto simp: defining_blocks_def blocks_with_code_def)
qed

lemma analyzed_start:
  assumes ok: "flow_ok g" and a: "analyzed g g'" and R: "phi_ready g" and A: "fresh_alloc malloc"
  shows "phi_start_ok malloc g'"
proof -
  note E = analyzed_sets [OF a] analyzed_blocks [OF a] analyzedD(1) [OF a]
  have "phi_ready g'" unfolding phi_ready_def E(1,2,7) using phi_readyD [OF R] E(5,6) by (intro conjI ballI allI impI) auto
  moreover have "frontier_of g i \<subseteq> {..<num_blocks g}" for i using flow_okD(5) [OF ok] by (auto simp: frontier_of_def)
  then have "frontiers_ok g'" using analyzedD(5,6) [OF a] E(7) by (simp add: frontiers_ok_def)
  ultimately show ?thesis using A by (simp add: phi_start_ok_def)
qed

lemma analyzed_needed:
  assumes a: "analyzed g g'"
  shows "phi_needed g' s i \<longleftrightarrow> iterated_frontier (frontier_of g) (blocks_with_code g) (defining_blocks g s) i"
  unfolding analyzed_sets(3,4) [OF a]
  by (rule iterated_frontier_cong) (auto simp: analyzedD(5) [OF a] defining_blocks_def blocks_with_code_def)

lemma phis_after_analysis:
  assumes "flow_ok g" "length (bb_in_edges (block_at g (gen_entry_block g))) \<noteq> 1" "phi_ready g" "fresh_alloc malloc"
  shows "\<exists>g1 g2. AnalyzeCFG g = Some g1 \<and> analyzed g g1 \<and> InsertPhiNodes malloc g1 = Some g2 \<and> has_phis g1 g2 \<and>
    (\<forall>i < num_blocks g. phi_symbols g2 i =
       {s. iterated_frontier (frontier_of g) (blocks_with_code g) (defining_blocks g s) i})"
proof -
  obtain g1 where g1: "AnalyzeCFG g = Some g1" "analyzed g g1" using AnalyzeCFG_spec [OF assms(1,2)] by blast
  from InsertPhiNodes_spec [OF analyzed_start [OF assms(1) g1(2) assms(3,4)]] show ?thesis
    using g1 analyzedD(1) [OF g1(2)] analyzed_needed [OF g1(2)] by auto
qed

section \<open>Definitions that reach a block\<close>

text \<open>
  \<open>def_reaches E D x v\<close>: from the end of \<open>x\<close> a path leads to the start of \<open>v\<close>
  through blocks that are not in \<open>D\<close>.
\<close>

inductive def_reaches :: "(nat \<Rightarrow> nat \<Rightarrow> bool) \<Rightarrow> nat set \<Rightarrow> nat \<Rightarrow> nat \<Rightarrow> bool" for E D x where
  leave: "E x v \<Longrightarrow> def_reaches E D x v"
| pass: "def_reaches E D x u \<Longrightarrow> u \<notin> D \<Longrightarrow> E u v \<Longrightarrow> def_reaches E D x v"

lemma reaches_dominated:
  assumes r: "flow_reachable g x" and closed: "\<And>v. v \<in> frontier_of g x \<Longrightarrow> v \<in> C \<Longrightarrow> v \<in> P" and sub: "P \<subseteq> D"
    and inner: "\<And>u v. flow_reachable g u \<Longrightarrow> flow_edge g u v \<Longrightarrow> u \<in> C"
  shows "def_reaches (flow_edge g) D x v \<Longrightarrow> flow_reachable g v \<and> (v \<in> C \<longrightarrow> v \<in> P \<or> x \<in> dominators_of g v \<and> x \<noteq> v)"
proof (induction rule: def_reaches.induct)
  case (leave v)
  have "flow_reachable g v" using r leave by (auto intro: avoiding.step)
  then show ?case using leave dominators_of_self [OF r] closed [of v] by (auto simp: frontier_of_def)
next
  case (pass u v)
  then have "flow_reachable g v" "x \<in> dominators_of g u" using sub inner [of u v] by (auto intro: avoiding.step)
  then show ?case using pass(3) closed [of v] by (auto simp: frontier_of_def)
qed

lemma reaches_nearest:
  assumes r: "flow_reachable g x" and y: "y \<in> D"
  shows "def_reaches (flow_edge g) D x v \<Longrightarrow> flow_reachable g v \<and> (y \<in> dominators_of g v \<longrightarrow> y \<noteq> v \<longrightarrow> y \<in> dominators_of g x)"
proof (induction rule: def_reaches.induct)
  case (leave v)
  then show ?case using r dominates_edge [OF leave r] by (auto intro: avoiding.step)
next
  case (pass u v)
  then show ?case using y dominates_edge [of g u v y] by (auto intro: avoiding.step)
qed

lemma dominators_antisym:
  assumes ok: "flow_ok g" and a: "analyzed g g'" and xy: "x \<in> dominators_of g y" "y \<in> dominators_of g x"
  shows "x = y"
proof (rule ccontr)
  assume ne: "x \<noteq> y"
  have r: "flow_reachable g x" using dominators_reachable [OF xy(2)] .
  note S = strict_dominators [OF ok analyzedD(3) [OF a reachable_in_range [OF ok r]] r]
  obtain u where u: "dominators_of g x = insert x (dominators_of g u)" "x \<notin> dominators_of g u"
    using S xy(2) ne by (cases "bb_idom (block_at g' x)") auto
  then have "y \<in> dominators_of g u" using xy(2) ne by simp
  then show False using dominators_of_trans [OF xy(1)] u(2) by blast
qed

lemma defining_after:
  assumes "analyzed g g1" "phi_ready g1" "has_phis g1 g2"
  shows "defining_blocks g2 s = defining_blocks g s \<union> {i. i < num_blocks g \<and> s \<in> phi_symbols g2 i}"
  using has_phisD(1,4) [OF assms(2,3)] analyzedD(1) [OF assms(1)] analyzed_blocks(2) [OF assms(1)]
  by (auto simp: defining_blocks_def)

section \<open>A program\<close>

text \<open>The branches and the loop of \<open>demo_flow\<close> with an instruction in each block; block 1 defines symbol 9.\<close>

definition demo_vars :: cmap where
  "demo_vars = (MapInit CompareVariable)\<lparr>m_values := Some [\<lparr>kv_key = 9, kv_value = 0\<rparr>, zero_kv], m_length := 1, m_capacity := 2\<rparr>"

definition demo_ssa :: generator where
  "demo_ssa = demo_flow\<lparr>gen_code := [1, 2, 3, 4, 5, 6],
     gen_nodes := (\<lambda>r. if r \<in> {1..6} then Some (IRInit 0 IR_nop) else None),
     gen_basic_blocks := map (\<lambda>b. b\<lparr>bb_code := bb_id b + 1, bb_end_code := bb_id b + 1,
       bb_defined_vars := (if bb_id b = 1 then demo_vars else bb_defined_vars b)\<rparr>) (gen_basic_blocks demo_flow)\<rparr>"

definition demo_malloc :: "ir_store \<Rightarrow> node_ref" where
  "demo_malloc h = Suc (Max (insert 0 (dom h)))"

lemma demo_malloc_fresh: "fresh_alloc demo_malloc"
proof -
  have "h (demo_malloc h) = None" if "finite (dom h)" for h
  proof (rule ccontr)
    assume "h (demo_malloc h) \<noteq> None"
    then have "Suc (Max (insert 0 (dom h))) \<le> Max (insert 0 (dom h))" using that unfolding demo_malloc_def by (intro Max_ge) auto
    then show False by simp
  qed
  then show ?thesis by (simp add: fresh_alloc_def demo_malloc_def)
qed

lemma demo_ssa_blocks:
  "num_blocks demo_ssa = 6" "gen_entry_block demo_ssa = 0"
  "i < 6 \<Longrightarrow> block_at demo_ssa i = (block_at demo_flow i)\<lparr>bb_code := i + 1, bb_end_code := i + 1,
     bb_defined_vars := (if i = 1 then demo_vars else MapInit CompareVariable)\<rparr>"
proof -
  show "num_blocks demo_ssa = 6" "gen_entry_block demo_ssa = 0" by (simp_all add: num_blocks_def demo_ssa_def demo_flow_def)
  assume i: "i < 6"
  then have "i < num_blocks demo_flow" by (simp add: demo_flow_edges(8))
  then have "bb_id (block_at demo_flow i) = i" by (rule flow_okD(2) [OF demo_flow_ok])
  moreover have "bb_defined_vars (block_at demo_flow i) = MapInit CompareVariable"
    using i by (simp add: block_at_def demo_flow_def nth_Cons demo_flow_block_def NewBasicBlock_def split: nat.splits)
  moreover have "block_at demo_ssa i = (\<lambda>b. b\<lparr>bb_code := bb_id b + 1, bb_end_code := bb_id b + 1,
       bb_defined_vars := (if bb_id b = 1 then demo_vars else bb_defined_vars b)\<rparr>) (block_at demo_flow i)"
    using \<open>i < num_blocks demo_flow\<close> by (simp add: block_at_def demo_ssa_def num_blocks_def nth_map)
  ultimately show "block_at demo_ssa i = (block_at demo_flow i)\<lparr>bb_code := i + 1, bb_end_code := i + 1,
     bb_defined_vars := (if i = 1 then demo_vars else MapInit CompareVariable)\<rparr>" by simp
qed

lemma demo_vars_ok: "variables_ok demo_vars" "map_symbols demo_vars = {9}" "variables_ok (MapInit CompareVariable)"
  "map_symbols (MapInit CompareVariable) = {}"
  by (simp_all add: variables_ok_def map_ok_def map_shape_def map_list_def map_buf_def sorted_by_def map_symbols_def
      demo_vars_def MapInit_def)

lemma demo_ssa_flow:
  "flow_edge demo_ssa = flow_edge demo_flow" "dominators_of demo_ssa = dominators_of demo_flow" "frontier_of demo_ssa = frontier_of demo_flow"
  "flow_ok demo_ssa" "length (bb_in_edges (block_at demo_ssa (gen_entry_block demo_ssa))) \<noteq> 1"
proof -
  note n = demo_flow_edges(7,8) and B = demo_ssa_blocks
  show e: "flow_edge demo_ssa = flow_edge demo_flow" by (intro ext) (auto simp: flow_edge_def B n)
  show d: "dominators_of demo_ssa = dominators_of demo_flow" by (intro ext) (simp add: dominators_of_def e B(2) n)
  show "frontier_of demo_ssa = frontier_of demo_flow" by (intro ext) (simp add: frontier_of_def e d)
  show "length (bb_in_edges (block_at demo_ssa (gen_entry_block demo_ssa))) \<noteq> 1" using demo_flow_entry by (simp add: B n)
  have at: "u < 6 \<Longrightarrow> v \<in> set (bb_out_edges (block_at demo_flow u)) \<Longrightarrow> v < 6 \<and> u \<in> set (bb_in_edges (block_at demo_flow v))"
    "u < 6 \<Longrightarrow> v \<in> set (bb_in_edges (block_at demo_flow u)) \<Longrightarrow> v < 6 \<and> u \<in> set (bb_out_edges (block_at demo_flow v))" for u v
    using flow_okD(5,7) [OF demo_flow_ok, of u v] flow_okD(8) [OF demo_flow_ok, of u v] by (auto simp: flow_edge_def n)
  show "flow_ok demo_ssa"
  proof (rule flow_okI)
    fix u v
    assume u: "u < num_blocks demo_ssa"
    show "bb_id (block_at demo_ssa u) = u \<and> bs_ok (bb_dominators (block_at demo_ssa u)) \<and> bs_ok (bb_dominance_frontier (block_at demo_ssa u))"
      using u flow_okD(2-4) [OF demo_flow_ok, of u] by (simp add: B n)
    show "v < num_blocks demo_ssa \<and> u \<in> set (bb_in_edges (block_at demo_ssa v))" if "v \<in> set (bb_out_edges (block_at demo_ssa u))"
      using at(1) [of u v] that u by (simp add: B)
    show "v < num_blocks demo_ssa \<and> u \<in> set (bb_out_edges (block_at demo_ssa v))" if "v \<in> set (bb_in_edges (block_at demo_ssa u))"
      using at(2) [of u v] that u by (simp add: B)
  qed (simp add: B)
qed

lemma demo_ssa_ready: "phi_ready demo_ssa"
proof -
  have nodes: "gen_nodes demo_ssa = (\<lambda>r. if r \<in> {1..6} then Some (IRInit 0 IR_nop) else None)" "gen_code demo_ssa = [1, 2, 3, 4, 5, 6]"
    by (simp_all add: demo_ssa_def)
  have "dom (gen_nodes demo_ssa) = {1..6}" by (auto simp: nodes split: if_splits)
  then have fin: "finite (dom (gen_nodes demo_ssa))" by simp
  have nop: "ir_opcode (IRInit 0 IR_nop) \<noteq> IR_phi" by (simp add: IRInit_def IR_nop_def IR_phi_def)
  have start: "i < 6 \<Longrightarrow> block_start demo_ssa i = i + 1" for i by (simp add: demo_ssa_blocks(3))
  have "i < 6 \<Longrightarrow> i + 1 \<in> {1, 2, 3, 4, 5, 6}" for i :: nat by auto
  then show ?thesis
    unfolding phi_ready_def demo_ssa_blocks(1)
    using fin nop by (simp add: nodes(2) start) (auto simp: nodes(1) demo_ssa_blocks(3) demo_vars_ok)
qed


lemma demo_ssa_sets: "blocks_with_code demo_ssa = {..<6}" "defining_blocks demo_ssa 9 = {1}"
  by (auto simp: blocks_with_code_def defining_blocks_def demo_ssa_blocks demo_vars_ok split: if_splits)

lemma demo_ssa_frontier:
  "iterated_frontier (frontier_of demo_ssa) (blocks_with_code demo_ssa) (defining_blocks demo_ssa 9) 3"
  "\<not> iterated_frontier (frontier_of demo_ssa) (blocks_with_code demo_ssa) (defining_blocks demo_ssa 9) 4"
proof -
  have "3 \<in> frontier_of demo_ssa 1"
    unfolding demo_ssa_flow using demo_flow_dominators(2,3) demo_flow_edges(3) by (auto simp: frontier_of_def)
  then show "iterated_frontier (frontier_of demo_ssa) (blocks_with_code demo_ssa) (defining_blocks demo_ssa 9) 3"
    by (auto simp: demo_ssa_sets intro: iterated_frontier.direct)
  note E = demo_flow_edges
  have "avoiding 0 (flow_edge demo_flow) {4} 0" by (auto intro: avoiding.start)
  then have "avoiding 0 (flow_edge demo_flow) {4} 2" using E(2) by (rule avoiding.step) simp
  then have "avoiding 0 (flow_edge demo_flow) {4} 3" using E(4) by (rule avoiding.step) simp
  then have four: "4 \<notin> dominators_of demo_flow 3" using E(7) by (simp add: dominators_of_def dominates_def)
  have "4 \<notin> frontier_of demo_ssa x" for x
    unfolding demo_ssa_flow frontier_of_def
    using E(6) four demo_flow_dominators(1) dominators_of_trans [of x demo_flow 3 4] by auto
  then show "\<not> iterated_frontier (frontier_of demo_ssa) (blocks_with_code demo_ssa) (defining_blocks demo_ssa 9) 4"
    by (auto elim: iterated_frontier.cases)
qed

section \<open>Placement\<close>

text \<open>
  C2. After the analysis of the graph the placement of phi nodes ends, and places exactly the nodes
  of the theory: a block with code gets one for every symbol in whose iterated dominance frontier
  of definitions it lies and no other. The new nodes stand in front of the first instruction of the block, one
  for a symbol, each a definition of its symbol in the map of the block; nodes, code and blocks are
  otherwise those of before.
\<close>

theorem InsertPhiNodes_exact:
  assumes "flow_ok g" "length (bb_in_edges (block_at g (gen_entry_block g))) \<noteq> 1" "phi_ready g" "fresh_alloc malloc"
  shows "\<exists>g1 g2 pf. AnalyzeCFG g = Some g1 \<and> InsertPhiNodes malloc g1 = Some g2 \<and>
    phi_layout g1 g2 pf \<and> phi_blocks_ok g1 g2 pf \<and>
    (\<forall>i < num_blocks g. symbols_of g2 (pf (block_start g i)) =
       {s. iterated_frontier (frontier_of g) (blocks_with_code g) (defining_blocks g s) i})"
proof -
  obtain g1 g2 where g: "AnalyzeCFG g = Some g1" "analyzed g g1" "InsertPhiNodes malloc g1 = Some g2" "has_phis g1 g2"
    "\<forall>i < num_blocks g. phi_symbols g2 i = {s. iterated_frontier (frontier_of g) (blocks_with_code g) (defining_blocks g s) i}"
    using phis_after_analysis [OF assms] by blast
  obtain pf where pf: "phi_layout g1 g2 pf" "phi_blocks_ok g1 g2 pf" using g(4) by (auto simp: has_phis_def)
  have R: "phi_ready g1" using analyzed_start [OF assms(1) g(2) assms(3,4)] by (simp add: phi_start_ok_def)
  have "symbols_of g2 (pf (block_start g i)) = phi_symbols g2 i" if "i < num_blocks g" for i
    using phi_symbols_layout [OF R pf(1)] that analyzedD(1) [OF g(2)] analyzed_blocks(1) [OF g(2) that] by simp
  then show ?thesis using g(1,3,5) pf by auto
qed

theorem InsertPhiNodes_exact_witness:
  "\<exists>g1 g2 pf. AnalyzeCFG demo_ssa = Some g1 \<and> InsertPhiNodes demo_malloc g1 = Some g2 \<and> phi_layout g1 g2 pf \<and>
    9 \<in> symbols_of g2 (pf 4) \<and> 9 \<notin> symbols_of g2 (pf 5)"
proof -
  obtain g1 g2 pf where g: "AnalyzeCFG demo_ssa = Some g1" "InsertPhiNodes demo_malloc g1 = Some g2" "phi_layout g1 g2 pf"
    "\<forall>i < num_blocks demo_ssa. symbols_of g2 (pf (block_start demo_ssa i)) =
       {s. iterated_frontier (frontier_of demo_ssa) (blocks_with_code demo_ssa) (defining_blocks demo_ssa s) i}"
    using InsertPhiNodes_exact [OF demo_ssa_flow(4,5) demo_ssa_ready demo_malloc_fresh] by blast
  have "symbols_of g2 (pf (i + 1)) = {s. iterated_frontier (frontier_of demo_ssa) (blocks_with_code demo_ssa) (defining_blocks demo_ssa s) i}"
    if "i < 6" for i using g(4) that by (simp add: demo_ssa_blocks)
  from this [of 3] this [of 4] have "9 \<in> symbols_of g2 (pf 4)" "9 \<notin> symbols_of g2 (pf 5)" using demo_ssa_frontier by simp_all
  then show ?thesis using g(1-3) by blast
qed

text \<open>
  C1. The nodes are enough for single assignment. On a well-formed graph whose entry does not have
  exactly one predecessor and in which every block that control can leave has code (the exit block
  has none), a definition of a symbol (one of the program or a phi node) that lies in a reachable
  block and reaches a block with code and no phi node for the symbol comes from a strict dominator of
  the block, and from the nearest one that defines the symbol, so no other reachable definition
  reaches the block: it is the one on top of the symbol's stack in a walk down the dominator tree.
\<close>

theorem phi_single_definition:
  assumes "flow_ok g" "length (bb_in_edges (block_at g (gen_entry_block g))) \<noteq> 1" "phi_ready g" "fresh_alloc malloc"
    "{u. flow_reachable g u \<and> (\<exists>v. flow_edge g u v)} \<subseteq> blocks_with_code g"
  shows "\<exists>g1 g2. AnalyzeCFG g = Some g1 \<and> InsertPhiNodes malloc g1 = Some g2 \<and>
    (\<forall>s x v. x \<in> defining_blocks g2 s \<and> flow_reachable g x \<and> v \<in> blocks_with_code g \<and> s \<notin> phi_symbols g2 v \<and>
       def_reaches (flow_edge g) (defining_blocks g2 s) x v \<longrightarrow>
       x \<in> dominators_of g v - {v} \<and>
       (\<forall>y \<in> defining_blocks g2 s \<inter> (dominators_of g v - {v}). y \<in> dominators_of g x) \<and>
       (\<forall>y \<in> defining_blocks g2 s. flow_reachable g y \<and> def_reaches (flow_edge g) (defining_blocks g2 s) y v \<longrightarrow> y = x))"
proof -
  obtain g1 g2 where g: "AnalyzeCFG g = Some g1" "analyzed g g1" "InsertPhiNodes malloc g1 = Some g2" "has_phis g1 g2"
    "\<And>i. i < num_blocks g \<Longrightarrow> phi_symbols g2 i = {s. iterated_frontier (frontier_of g) (blocks_with_code g) (defining_blocks g s) i}"
    using phis_after_analysis [OF assms(1-4)] by blast
  have R: "phi_ready g1" using analyzed_start [OF assms(1) g(2) assms(3,4)] by (simp add: phi_start_ok_def)
  note n = analyzedD(1) [OF g(2)] and D = defining_after [OF g(2) R g(4)]
  have dom: "x \<in> dominators_of g v - {v}" if x: "x \<in> defining_blocks g2 s" "flow_reachable g x"
    and v: "v \<in> blocks_with_code g" "s \<notin> phi_symbols g2 v" "def_reaches (flow_edge g) (defining_blocks g2 s) x v" for s x v
  proof -
    let ?P = "{i. i < num_blocks g \<and> s \<in> phi_symbols g2 i}"
    have "w \<in> ?P" if w: "w \<in> frontier_of g x" "w \<in> blocks_with_code g" for w
    proof -
      have "w < num_blocks g" using w(2) by (simp add: blocks_with_code_def)
      then show ?thesis using x(1) w g(5) unfolding D by (auto intro: iterated_frontier.intros)
    qed
    then show ?thesis
      using reaches_dominated [OF x(2) _ _ _ v(3), of "blocks_with_code g" ?P] assms(5) v(1,2) by (auto simp: D)
  qed
  have near: "y \<in> dominators_of g x" if "flow_reachable g x" "def_reaches (flow_edge g) (defining_blocks g2 s) x v"
    "y \<in> defining_blocks g2 s" "y \<in> dominators_of g v - {v}" for s x y v
    using reaches_nearest [OF that(1,3,2)] that(4) by blast
  show ?thesis using g(1,3) dom near dominators_antisym [OF assms(1) g(2)] by (intro exI conjI allI impI ballI) blast+
qed

theorem phi_single_definition_witness:
  "\<exists>g1 g2. AnalyzeCFG demo_ssa = Some g1 \<and> InsertPhiNodes demo_malloc g1 = Some g2 \<and>
    {x \<in> defining_blocks g2 9. flow_reachable demo_ssa x \<and> def_reaches (flow_edge demo_ssa) (defining_blocks g2 9) x 4} = {3}"
proof -
  note pre = demo_ssa_flow(4,5) demo_ssa_ready demo_malloc_fresh
  have code: "{u. flow_reachable demo_ssa u \<and> (\<exists>v. flow_edge demo_ssa u v)} \<subseteq> blocks_with_code demo_ssa"
    using reachable_in_range [OF demo_ssa_flow(4)] by (auto simp: demo_ssa_sets demo_ssa_blocks)
  obtain g1 g2 where g: "AnalyzeCFG demo_ssa = Some g1" "analyzed demo_ssa g1" "InsertPhiNodes demo_malloc g1 = Some g2" "has_phis g1 g2"
    "\<And>i. i < 6 \<Longrightarrow> phi_symbols g2 i = {s. iterated_frontier (frontier_of demo_ssa) (blocks_with_code demo_ssa) (defining_blocks demo_ssa s) i}"
    using phis_after_analysis [OF pre] by (auto simp: demo_ssa_blocks(1))
  have R: "phi_ready g1" using analyzed_start [OF pre(1) g(2) pre(3,4)] by (simp add: phi_start_ok_def)
  have P: "9 \<in> phi_symbols g2 3" "9 \<notin> phi_symbols g2 4" using g(5) demo_ssa_frontier by simp_all
  have D: "3 \<in> defining_blocks g2 9" using P(1) by (simp add: defining_after [OF g(2) R g(4)] demo_ssa_blocks(1))
  have r: "flow_reachable demo_ssa 3" using demo_flow_dominators(4) by (simp add: demo_ssa_flow demo_ssa_blocks(2) demo_flow_edges(7))
  have to: "def_reaches (flow_edge demo_ssa) (defining_blocks g2 9) 3 4"
    using demo_flow_edges(5) by (simp add: demo_ssa_flow def_reaches.leave)
  have four: "4 \<in> blocks_with_code demo_ssa" by (simp add: demo_ssa_sets)
  have "\<forall>y \<in> defining_blocks g2 9. flow_reachable demo_ssa y \<and> def_reaches (flow_edge demo_ssa) (defining_blocks g2 9) y 4 \<longrightarrow> y = 3"
    using phi_single_definition [OF pre code] g(1,3) D r four P(2) to by auto
  then show ?thesis using g(1,3) D r to by blast
qed

end
