(* ===== verification/CfgBuild.thy ===== *)
theory CfgBuild
  imports Cfg
begin

text \<open>
  The cut of the instruction list into basic blocks and the edges between them
  (\<open>backend/codegen.c\<close>, from \<open>GeneratorNewBasicBlock\<close> to \<open>FindExceptionCallBoundaries\<close>).  The
  \<open>block\<close> pointer of a node is null until the node has been in the list, so the model reads it
  through \<open>block_of\<close>, which is \<^term>\<open>None\<close> for a node that is not in the list.  A node that has left the
  list keeps its pointer in the C, so the model is of regions whose labels are in the list.
\<close>

section \<open>Blocks\<close>

definition GeneratorNewBasicBlock :: "generator \<Rightarrow> generator \<times> nat" where
  "GeneratorNewBasicBlock g =
     (let i = num_blocks g in (g\<lparr>gen_basic_blocks := gen_basic_blocks g @ [NewBasicBlock i]\<rparr>, i))"

definition block_of :: "generator \<Rightarrow> node_ref \<Rightarrow> nat option" where
  "block_of g r = (if r \<in> set (gen_code g) then map_option ir_block (gen_nodes g r) else None)"

definition set_node_block :: "node_ref \<Rightarrow> nat \<Rightarrow> generator \<Rightarrow> generator" where
  "set_node_block inst b g =
     g\<lparr>gen_nodes := (gen_nodes g)(inst := map_option (\<lambda>n. n\<lparr>ir_block := b\<rparr>) (gen_nodes g inst))\<rparr>"

text \<open>The number of a node, an \<open>int\<close>, as the \<open>size_t\<close> that indexes a bit set.\<close>

definition node_index :: "ir_node \<Rightarrow> nat" where
  "node_index n = nat (ir_id n mod 2 ^ 64)"

definition refer_var :: "nat \<Rightarrow> symbol_ref \<Rightarrow> generator \<Rightarrow> generator option" where
  "refer_var b symbol g =
     (case SetInsert (bb_referenced_vars (block_at g b)) (word_of_nat symbol) of
        None \<Rightarrow> None
      | Some s \<Rightarrow> Some (on_block b (\<lambda>x. x\<lparr>bb_referenced_vars := s\<rparr>) g))"

text \<open>What the loop notes of an instruction in the current block.\<close>

definition record_vars :: "nat \<Rightarrow> ir_node \<Rightarrow> generator \<Rightarrow> generator option" where
  "record_vars b n g = do {
     g1 \<leftarrow> (if IRIsVarDef n then define_var b (ir_var n) g else Some g);
     g2 \<leftarrow> (if IRIsVarRef n then refer_var b (ir_var n) g1 else Some g1);
     Some (if ir_opcode n = IR_calla \<or> ir_opcode n = IR_memcpy \<or> ir_opcode n = IR_memzero
           then on_block b (\<lambda>x. x\<lparr>bb_num_calls := bb_num_calls x + 1\<rparr>) g2 else g2)
   }"

text \<open>A call ends a block only when it can throw to a landing pad.\<close>

definition ends_block :: "bitset \<Rightarrow> ir_node \<Rightarrow> bool" where
  "ends_block exception_calls n \<longleftrightarrow>
     IRIsBranch n \<or> IRIsReturn n \<or> IRIsCall n \<and> BitSetContains exception_calls (node_index n)"

text \<open>The loop over the rest of the instruction list; the next instruction is the head of the rest.\<close>

fun create_blocks ::
  "bitset \<Rightarrow> node_ref list \<Rightarrow> nat \<Rightarrow> node_ref list \<Rightarrow> generator \<Rightarrow> (generator \<times> nat \<times> node_ref list) option" where
  "create_blocks exception_calls [] current branches g = Some (g, current, branches)"
| "create_blocks exception_calls (inst # rest) current branches g = do {
     n \<leftarrow> gen_nodes g inst;
     g1 \<leftarrow> record_vars current n g;
     if ir_opcode n = IR_label
     then (let g2 = on_block current (\<lambda>x. x\<lparr>bb_end_code := IRPrev g1 inst\<rparr>) g1;
               (g3, b) = GeneratorNewBasicBlock g2
           in create_blocks exception_calls rest b branches
                (on_block b (\<lambda>x. x\<lparr>bb_code := inst\<rparr>) (set_node_block inst b g3)))
     else if ends_block exception_calls n
     then (let g2 = set_node_block inst current
                      (on_block current (\<lambda>x. x\<lparr>bb_return_block := IRIsReturn n, bb_end_code := inst\<rparr>) g1)
           in if rest = [] then create_blocks exception_calls rest current (branches @ [inst]) g2
              else do {
                m \<leftarrow> gen_nodes g2 (hd rest);
                if ir_opcode m = IR_label then create_blocks exception_calls rest current (branches @ [inst]) g2
                else (let (g3, b) = GeneratorNewBasicBlock g2
                      in create_blocks exception_calls rest b (branches @ [inst])
                           (on_block b (\<lambda>x. x\<lparr>bb_code := hd rest\<rparr>) g3))
              })
     else create_blocks exception_calls rest current branches (set_node_block inst current g1)
   }"

definition CreateBasicBlocks :: "bitset \<Rightarrow> generator \<Rightarrow> (generator \<times> node_ref list) option" where
  "CreateBasicBlocks exception_calls g =
     (let (g1, entry) = GeneratorNewBasicBlock g;
          g2 = on_block entry (\<lambda>x. x\<lparr>bb_code := GeneratorFirstInstruction g\<rparr>) (g1\<lparr>gen_entry_block := entry\<rparr>)
      in do {
        (g3, current, branches) \<leftarrow> create_blocks exception_calls (gen_code g) entry [] g2;
        let g4 = on_block current (\<lambda>x. x\<lparr>bb_end_code := GeneratorLastInstruction g3\<rparr>) g3;
            (g5, ex) = GeneratorNewBasicBlock g4
        in Some (g5\<lparr>gen_exit_block := ex\<rparr>, branches)
      })"

section \<open>Edges\<close>

definition input_at :: "ir_node \<Rightarrow> nat \<Rightarrow> node_ref option" where
  "input_at n i = (if i < length (ir_inputs n) then Some (ir_inputs n ! i) else None)"

partial_function (option) link_table :: "nat \<Rightarrow> node_ref \<Rightarrow> generator \<Rightarrow> generator option" where
  "link_table block bra g = do {
     n \<leftarrow> gen_nodes g bra;
     if ir_opcode n = IR_bra
     then do {
       target \<leftarrow> block_of g bra;
       link_table block (IRNext g bra) (BasicBlockAddEdge block target g)
     }
     else Some g
   }"

definition link_branch :: "node_ref \<Rightarrow> generator \<Rightarrow> generator option" where
  "link_branch inst g = do {
     n \<leftarrow> gen_nodes g inst;
     block \<leftarrow> block_of g inst;
     if IRIsConditionalBranch n
     then do {
       taken \<leftarrow> input_at n 1;
       fallthrough_block \<leftarrow> block_of g (IRNext g inst);
       taken_block \<leftarrow> block_of g taken;
       Some (BasicBlockAddEdge block taken_block (BasicBlockAddEdge block fallthrough_block g))
     }
     else if ir_opcode n = IR_cbra then link_table block (IRNext g inst) g
     else if IRIsReturn n then Some (BasicBlockAddEdge block (gen_exit_block g) g)
     else if IRIsCall n
     then do {
       fallthrough_block \<leftarrow> block_of g (IRNext g inst);
       Some (BasicBlockAddEdge block fallthrough_block g)
     }
     else do {
       target \<leftarrow> input_at n 0;
       target_block \<leftarrow> block_of g target;
       Some (BasicBlockAddEdge block target_block g)
     }
   }"

fun BuildBasicBlockGraph :: "node_ref list \<Rightarrow> generator \<Rightarrow> generator option" where
  "BuildBasicBlockGraph [] g = Some g"
| "BuildBasicBlockGraph (inst # insts) g = do { g1 \<leftarrow> link_branch inst g; BuildBasicBlockGraph insts g1 }"

text \<open>The first part of the body of the loop asks the instruction at the end of the block.\<close>

definition falls_through :: "bitset \<Rightarrow> nat \<Rightarrow> generator \<Rightarrow> bool option" where
  "falls_through exception_calls i g =
     (if bb_end_code (block_at g i) = 0 then Some True
      else map_option (\<lambda>n. \<not> ends_block exception_calls n) (gen_nodes g (bb_end_code (block_at g i))))"

definition missing_links :: "bitset \<Rightarrow> nat \<Rightarrow> generator \<Rightarrow> generator option" where
  "missing_links exception_calls i g =
     (if i = gen_exit_block g then Some g
      else do {
        through \<leftarrow> falls_through exception_calls i g;
        let g1 = (if through then BasicBlockAddEdge i (bb_id (block_at g i) + 1) g else g)
        in Some (if bb_out_edges (block_at g1 i) = [] then BasicBlockAddEdge i (gen_exit_block g1) g1 else g1)
      })"

fun missing_all :: "bitset \<Rightarrow> nat list \<Rightarrow> generator \<Rightarrow> generator option" where
  "missing_all exception_calls [] g = Some g"
| "missing_all exception_calls (i # is) g = do {
     g1 \<leftarrow> missing_links exception_calls i g;
     missing_all exception_calls is g1
   }"

definition AddMissingLinks :: "bitset \<Rightarrow> generator \<Rightarrow> generator option" where
  "AddMissingLinks exception_calls g = missing_all exception_calls [0..<num_blocks g] g"

section \<open>Protected regions\<close>

partial_function (option) region_bounded :: "generator \<Rightarrow> node_ref \<Rightarrow> node_ref \<Rightarrow> bool option" where
  "region_bounded g inst try_end =
     (if inst = 0 then Some False
      else if inst = try_end then Some True
      else region_bounded g (IRNext g inst) try_end)"

text \<open>The calls of a region in their order; both loops over the region act on them alone.\<close>

partial_function (option) region_calls :: "generator \<Rightarrow> node_ref \<Rightarrow> node_ref \<Rightarrow> node_ref list option" where
  "region_calls g inst try_end =
     (if inst = try_end then Some []
      else do {
        n \<leftarrow> gen_nodes g inst;
        calls \<leftarrow> region_calls g (IRNext g inst) try_end;
        Some (if IRIsCall n then inst # calls else calls)
      })"

definition range_calls :: "generator \<Rightarrow> exception_range \<Rightarrow> node_ref list option" where
  "range_calls g r = do {
     bounded \<leftarrow> region_bounded g (er_try_start r) (er_try_end r);
     if bounded then region_calls g (er_try_start r) (er_try_end r) else Some []
   }"

fun mark_calls :: "generator \<Rightarrow> node_ref list \<Rightarrow> bitset \<Rightarrow> bitset option" where
  "mark_calls g [] exception_calls = Some exception_calls"
| "mark_calls g (inst # insts) exception_calls = do {
     n \<leftarrow> gen_nodes g inst;
     mark_calls g insts (BitSetInsert exception_calls (node_index n))
   }"

fun mark_ranges :: "generator \<Rightarrow> exception_range list \<Rightarrow> bitset \<Rightarrow> bitset option" where
  "mark_ranges g [] exception_calls = Some exception_calls"
| "mark_ranges g (r # rs) exception_calls =
     (if er_try_start r = 0 \<or> er_try_end r = 0 then mark_ranges g rs exception_calls
      else do {
        calls \<leftarrow> range_calls g r;
        s \<leftarrow> mark_calls g calls exception_calls;
        mark_ranges g rs s
      })"

definition FindExceptionCallBoundaries :: "generator \<Rightarrow> bitset \<Rightarrow> bitset option" where
  "FindExceptionCallBoundaries g exception_calls = mark_ranges g (gen_exception_ranges g) exception_calls"

definition LinkToLandingPadOnce :: "nat option \<Rightarrow> nat option \<Rightarrow> generator \<Rightarrow> generator" where
  "LinkToLandingPadOnce from pad g =
     (case (from, pad) of
        (Some f, Some p) \<Rightarrow>
          if f = p \<or> bb_id (block_at g p) \<in> set (bb_out_edges (block_at g f)) then g else BasicBlockAddEdge f p g
      | _ \<Rightarrow> g)"

definition link_range :: "exception_range \<Rightarrow> generator \<Rightarrow> generator option" where
  "link_range r g =
     (if er_try_start r = 0 \<or> er_catch_label r = 0 then Some g
      else if block_of g (er_catch_label r) = None then Some g
      else let pad = block_of g (er_catch_label r);
               g1 = LinkToLandingPadOnce (block_of g (er_try_start r)) pad g
           in do {
             calls \<leftarrow> range_calls g1 r;
             Some (fold (\<lambda>inst g. LinkToLandingPadOnce (block_of g inst) pad g) calls g1)
           })"

fun link_ranges :: "exception_range list \<Rightarrow> generator \<Rightarrow> generator option" where
  "link_ranges [] g = Some g"
| "link_ranges (r # rs) g = do { g1 \<leftarrow> link_range r g; link_ranges rs g1 }"

definition AddExceptionHandlerEdges :: "generator \<Rightarrow> generator option" where
  "AddExceptionHandlerEdges g = link_ranges (gen_exception_ranges g) g"

section \<open>The graph of the instruction list\<close>

text \<open>The part of \<open>BuildBasicBlocks\<close> before it straightens the graph.\<close>

definition build_flow_graph :: "generator \<Rightarrow> generator option" where
  "build_flow_graph g = do {
     exception_calls \<leftarrow> FindExceptionCallBoundaries g BitSetInit;
     (g1, branches) \<leftarrow> CreateBasicBlocks exception_calls g;
     g2 \<leftarrow> BuildBasicBlockGraph branches g1;
     AddMissingLinks exception_calls g2
   }"

text \<open>
  The test of \<open>StraightenGraph\<close>: the block is merged into its only predecessor, which ends in an
  unconditional branch to it.  A pass that finds no such block leaves the graph alone.
\<close>

definition kIRJumpTableBranch :: u32 where "kIRJumpTableBranch = 64"

definition coalesces :: "generator \<Rightarrow> nat \<Rightarrow> bool" where
  "coalesces g block \<longleftrightarrow>
     (case bb_in_edges (block_at g block) of
        [input] \<Rightarrow>
          input \<noteq> block \<and> length (bb_out_edges (block_at g input)) = 1 \<and>
          (case gen_nodes g (bb_end_code (block_at g input)) of
             None \<Rightarrow> False
           | Some terminator \<Rightarrow>
               bb_end_code (block_at g input) \<noteq> 0 \<and> IRIsUnconditionalBranch terminator \<and>
               Bit_Operations.and (ir_flags terminator) kIRJumpTableBranch = 0) \<and>
          block \<noteq> gen_exit_block g \<and>
          (case gen_nodes g (bb_end_code (block_at g block)) of
             None \<Rightarrow> False
           | Some n \<Rightarrow>
               bb_end_code (block_at g block) \<noteq> 0 \<and> ir_opcode n \<noteq> IR_label \<and> ir_opcode n \<noteq> IR_cbra \<and> \<not> IRIsResult n)
      | _ \<Rightarrow> False)"

declare link_table.simps [code] region_bounded.simps [code] region_calls.simps [code]

end
