(* ===== verification/CfgCut.thy ===== *)
theory CfgCut
  imports CfgBuild SsaSpec
begin

text \<open>
  The cut of the instruction list: segments that are entered at their first and left at their last
  instruction, one for each block.
\<close>

section \<open>Segments\<close>

definition is_label :: "ir_store \<Rightarrow> node_ref \<Rightarrow> bool" where
  "is_label h r \<longleftrightarrow> (\<exists>n. h r = Some n \<and> ir_opcode n = IR_label)"

definition is_end :: "ir_store \<Rightarrow> bitset \<Rightarrow> node_ref \<Rightarrow> bool" where
  "is_end h calls r \<longleftrightarrow> (\<exists>n. h r = Some n \<and> ends_block calls n)"

definition is_return :: "ir_store \<Rightarrow> node_ref \<Rightarrow> bool" where
  "is_return h r \<longleftrightarrow> (\<exists>n. h r = Some n \<and> IRIsReturn n)"

definition segment :: "ir_store \<Rightarrow> bitset \<Rightarrow> node_ref list \<Rightarrow> bool" where
  "segment h calls seg \<longleftrightarrow> (\<forall>r \<in> set (tl seg). \<not> is_label h r) \<and> (\<forall>r \<in> set (butlast seg). \<not> is_end h calls r)"

text \<open>The segments cut so far, the open one and the rest of the code.\<close>

definition cut_lists ::
  "ir_store \<Rightarrow> bitset \<Rightarrow> node_ref list \<Rightarrow> node_ref list list \<Rightarrow> node_ref list \<Rightarrow> node_ref list \<Rightarrow> bool" where
  "cut_lists h calls code segs cur rest \<longleftrightarrow>
     code = concat segs @ cur @ rest \<and>
     (\<forall>seg \<in> set segs. seg \<noteq> [] \<and> segment h calls seg) \<and> segment h calls cur \<and>
     (cur \<noteq> [] \<longrightarrow> is_end h calls (last cur) \<longrightarrow> rest = [] \<or> is_label h (hd rest)) \<and>
     (cur = [] \<longrightarrow> rest \<noteq> [] \<and> \<not> is_label h (hd rest))"

lemma segment_snoc:
  assumes "segment h calls cur" "cur \<noteq> [] \<Longrightarrow> \<not> is_end h calls (last cur)" "cur \<noteq> [] \<Longrightarrow> \<not> is_label h r"
  shows "segment h calls (cur @ [r])"
proof (cases "cur = []")
  case False
  then obtain ys y where c: "cur = ys @ [y]" by (metis rev_exhaust)
  then have "\<forall>x \<in> set cur. \<not> is_end h calls x" using assms(1,2) by (auto simp: segment_def)
  then show ?thesis using assms False by (auto simp: segment_def)
qed (simp add: segment_def)

lemma cut_label:
  assumes "cut_lists h calls code segs cur (r # rest)" "is_label h r" "\<not> is_end h calls r"
  shows "cur \<noteq> []" "cut_lists h calls code (segs @ [cur]) [r] rest"
  using assms by (auto simp: cut_lists_def segment_def)

lemma cut_open:
  assumes "cut_lists h calls code segs cur (r # rest)" "\<not> is_label h r"
    "is_end h calls r \<Longrightarrow> rest = [] \<or> is_label h (hd rest)"
  shows "cut_lists h calls code segs (cur @ [r]) rest"
  using assms segment_snoc [of h calls cur r] unfolding cut_lists_def by auto

lemma cut_close:
  assumes "cut_lists h calls code segs cur (r # rest)" "\<not> is_label h r" "rest \<noteq> []" "\<not> is_label h (hd rest)"
  shows "cut_lists h calls code (segs @ [cur @ [r]]) [] rest"
  using assms segment_snoc [of h calls cur r] unfolding cut_lists_def by (auto simp: segment_def)

section \<open>Blocks of segments\<close>

definition seg_symbols :: "ir_store \<Rightarrow> node_ref list \<Rightarrow> symbol_ref set" where
  "seg_symbols h seg = {s. \<exists>r \<in> set seg. \<exists>n. h r = Some n \<and> IRIsVarDef n \<and> ir_var n = s}"

text \<open>A new block but for its ends, its variables and its counts.\<close>

definition block_shape :: "ir_store \<Rightarrow> nat \<Rightarrow> node_ref \<Rightarrow> node_ref list \<Rightarrow> basic_block \<Rightarrow> bool" where
  "block_shape h i start seg b \<longleftrightarrow>
     b = (NewBasicBlock i)\<lparr>bb_code := start, bb_end_code := bb_end_code b, bb_defined_vars := bb_defined_vars b,
            bb_referenced_vars := bb_referenced_vars b, bb_num_calls := bb_num_calls b, bb_return_block := bb_return_block b\<rparr> \<and>
     variables_ok (bb_defined_vars b) \<and> map_symbols (bb_defined_vars b) = seg_symbols h seg \<and>
     pointer_set_ok (bb_referenced_vars b)"

lemma block_shape_end:
  "block_shape h i start seg b \<Longrightarrow> block_shape h i start seg (b\<lparr>bb_end_code := e\<rparr>)"
  "block_shape h i start seg b \<Longrightarrow> block_shape h i start seg (b\<lparr>bb_return_block := t, bb_end_code := e\<rparr>)"
  unfolding block_shape_def
  by (auto dest: arg_cong [of b _ "\<lambda>x. x\<lparr>bb_end_code := e\<rparr>"] arg_cong [of b _ "\<lambda>x. x\<lparr>bb_return_block := t, bb_end_code := e\<rparr>"])

lemma set_block_set_block [simp]: "set_block i a (set_block i b g) = set_block i a g"
  by (simp add: set_block_def)

lemma set_block_fields [simp]:
  "gen_nodes (set_block i b g) = gen_nodes g" "gen_code (set_block i b g) = gen_code g"
  by (simp_all add: set_block_def)

lemma record_vars_shape:
  assumes i: "i < num_blocks g" and b: "block_shape h i start seg (block_at g i)" and n: "h r = Some n"
    and s: "IRIsVarDef n \<Longrightarrow> ir_var n < 2 ^ 64"
  shows "\<exists>b'. record_vars i n g = Some (set_block i b' g) \<and> block_shape h i start (seg @ [r]) b' \<and>
    bb_return_block b' = bb_return_block (block_at g i)"
proof -
  let ?b = "block_at g i"
  have B: "variables_ok (bb_defined_vars ?b)" "map_symbols (bb_defined_vars ?b) = seg_symbols h seg" "pointer_set_ok (bb_referenced_vars ?b)"
    using b by (simp_all add: block_shape_def)
  obtain dv where dv: "(if IRIsVarDef n then define_var i (ir_var n) g else Some g) = Some (set_block i (?b\<lparr>bb_defined_vars := dv\<rparr>) g)"
    "variables_ok dv" "map_symbols dv = seg_symbols h (seg @ [r])"
  proof (cases "IRIsVarDef n")
    case True
    obtain q where "MapInsert (bb_defined_vars ?b) \<lparr>kv_key = word_of_nat (ir_var n), kv_value = 0\<rparr> = Some q" "variables_ok (fst q)"
      "map_symbols (fst q) = insert (ir_var n) (map_symbols (bb_defined_vars ?b))"
      using MapInsert_symbols [OF B(1) s [OF True]] by blast
    then show ?thesis using True n B(2) by (intro that [of "fst q"]) (auto simp: define_var_def on_block_def seg_symbols_def)
  next
    case False
    then have "seg_symbols h (seg @ [r]) = seg_symbols h seg" using n by (auto simp: seg_symbols_def)
    moreover have "set_block i (?b\<lparr>bb_defined_vars := bb_defined_vars ?b\<rparr>) g = g" using i by (simp add: set_block_def block_at_def num_blocks_def)
    ultimately show ?thesis using False B by (intro that [of "bb_defined_vars ?b"]) simp_all
  qed
  let ?g1 = "set_block i (?b\<lparr>bb_defined_vars := dv\<rparr>) g"
  have at: "block_at ?g1 i = ?b\<lparr>bb_defined_vars := dv\<rparr>" using i by (simp add: block_at_set_block)
  obtain rv where rv: "(if IRIsVarRef n then refer_var i (ir_var n) ?g1 else Some ?g1) =
      Some (set_block i (?b\<lparr>bb_defined_vars := dv, bb_referenced_vars := rv\<rparr>) g)" "pointer_set_ok rv"
  proof (cases "IRIsVarRef n")
    case True
    obtain q where "SetInsert (bb_referenced_vars ?b) (word_of_nat (ir_var n)) = Some q" "pointer_set_ok q"
      using pointer_set.SetInsert_effect [of "bb_referenced_vars ?b" "word_of_nat (ir_var n)"] B(3) unfolding pointer_set_ok_def by metis
    then show ?thesis using True at by (intro that [of q]) (auto simp: refer_var_def on_block_def)
  next
    case False
    then show ?thesis using B(3) at by (intro that [of "bb_referenced_vars ?b"]) (simp_all add: set_block_def)
  qed
  let ?b2 = "?b\<lparr>bb_defined_vars := dv, bb_referenced_vars := rv\<rparr>"
  have shape: "block_shape h i start (seg @ [r]) (?b2\<lparr>bb_num_calls := k\<rparr>)" for k
    unfolding block_shape_def using b dv(2,3) rv(2)
    by (auto simp: block_shape_def dest: arg_cong [of ?b _ "\<lambda>x. x\<lparr>bb_defined_vars := dv, bb_referenced_vars := rv, bb_num_calls := k\<rparr>"])
  have "block_at (set_block i ?b2 g) i = ?b2" using i by (simp add: block_at_set_block)
  then have "\<exists>k. record_vars i n g = Some (set_block i (?b2\<lparr>bb_num_calls := k\<rparr>) g)"
    unfolding record_vars_def dv(1) bind.bind_lunit rv(1)
    by (auto simp: on_block_def intro: exI [of _ "bb_num_calls ?b"])
  then show ?thesis using shape by force
qed

section \<open>The state of the loop\<close>

definition cut_nodes :: "ir_store \<Rightarrow> node_ref list list \<Rightarrow> generator \<Rightarrow> bool" where
  "cut_nodes h segs g \<longleftrightarrow>
     (\<forall>i < length segs. \<forall>r \<in> set (segs ! i). gen_nodes g r = map_option (\<lambda>n. n\<lparr>ir_block := i\<rparr>) (h r)) \<and>
     (\<forall>r. r \<notin> set (concat segs) \<longrightarrow> gen_nodes g r = h r)"

definition closed_block :: "ir_store \<Rightarrow> nat \<Rightarrow> node_ref list \<Rightarrow> basic_block \<Rightarrow> bool" where
  "closed_block h i seg b \<longleftrightarrow> block_shape h i (hd seg) seg b \<and> bb_end_code b = last seg \<and>
     (bb_return_block b \<longleftrightarrow> is_return h (last seg))"

definition cut_state :: "generator \<Rightarrow> node_ref list list \<Rightarrow> node_ref list \<Rightarrow> node_ref \<Rightarrow> generator \<Rightarrow> bool" where
  "cut_state g0 segs cur start g \<longleftrightarrow>
     (\<exists>hs bs. g = g0\<lparr>gen_nodes := hs, gen_basic_blocks := bs, gen_entry_block := 0\<rparr>) \<and>
     num_blocks g = length segs + 1 \<and> cut_nodes (gen_nodes g0) (segs @ [cur]) g \<and>
     (\<forall>i < length segs. closed_block (gen_nodes g0) i (segs ! i) (block_at g i)) \<and>
     block_shape (gen_nodes g0) (length segs) start cur (block_at g (length segs)) \<and>
     (bb_return_block (block_at g (length segs)) \<longleftrightarrow> cur \<noteq> [] \<and> is_return (gen_nodes g0) (last cur))"

lemma cut_stateD:
  assumes "cut_state g0 segs cur start g"
  shows "num_blocks g = length segs + 1" "gen_code g = gen_code g0"
    "block_shape (gen_nodes g0) (length segs) start cur (block_at g (length segs))"
    "bb_return_block (block_at g (length segs)) \<longleftrightarrow> cur \<noteq> [] \<and> is_return (gen_nodes g0) (last cur)"
    "cut_nodes (gen_nodes g0) (segs @ [cur]) g"
  using assms unfolding cut_state_def by auto

lemma cut_nodes_snoc:
  assumes "cut_nodes h (segs @ [cur]) g" "r \<notin> set (concat segs @ cur)"
  shows "cut_nodes h (segs @ [cur @ [r]]) (set_node_block r (length segs) g)"
  using assms unfolding cut_nodes_def set_node_block_def
  by (auto simp: nth_append less_Suc_eq)

lemma set_node_block_fields [simp]:
  "block_at (set_node_block r b g) i = block_at g i" "num_blocks (set_node_block r b g) = num_blocks g"
  by (simp_all add: set_node_block_def block_at_def num_blocks_def)

lemma cut_only:
  assumes "\<exists>hs bs. g = g0\<lparr>gen_nodes := hs, gen_basic_blocks := bs, gen_entry_block := 0\<rparr>"
  shows "\<exists>hs bs. set_node_block r b (set_block c x g) = g0\<lparr>gen_nodes := hs, gen_basic_blocks := bs, gen_entry_block := 0\<rparr>"
    "\<exists>hs bs. set_block c x (g\<lparr>gen_basic_blocks := y\<rparr>) = g0\<lparr>gen_nodes := hs, gen_basic_blocks := bs, gen_entry_block := 0\<rparr>"
proof -
  obtain hs bs where g: "g = g0\<lparr>gen_nodes := hs, gen_basic_blocks := bs, gen_entry_block := 0\<rparr>" using assms by blast
  let ?g = "set_node_block r b (set_block c x g)"
  show "\<exists>hs bs. ?g = g0\<lparr>gen_nodes := hs, gen_basic_blocks := bs, gen_entry_block := 0\<rparr>"
    by (intro exI [of _ "gen_nodes ?g"] exI [of _ "gen_basic_blocks ?g"]) (simp add: g set_node_block_def set_block_def)
  let ?h = "set_block c x (g\<lparr>gen_basic_blocks := y\<rparr>)"
  show "\<exists>hs bs. ?h = g0\<lparr>gen_nodes := hs, gen_basic_blocks := bs, gen_entry_block := 0\<rparr>"
    by (intro exI [of _ "gen_nodes ?h"] exI [of _ "gen_basic_blocks ?h"]) (simp add: g set_block_def)
qed

lemma state_add:
  assumes S: "cut_state g0 segs cur start g" and r: "r \<notin> set (concat segs @ cur)"
    and b: "block_shape (gen_nodes g0) (length segs) start (cur @ [r]) b'" "bb_return_block b' \<longleftrightarrow> is_return (gen_nodes g0) r"
  shows "cut_state g0 segs (cur @ [r]) start (set_node_block r (length segs) (set_block (length segs) b' g))"
proof -
  let ?g = "set_block (length segs) b' g"
  have n: "num_blocks g = length segs + 1" by (rule cut_stateD(1) [OF S])
  have "cut_nodes (gen_nodes g0) (segs @ [cur]) ?g" using cut_stateD(5) [OF S] by (simp add: cut_nodes_def)
  note nodes = cut_nodes_snoc [OF this r]
  have "\<exists>hs bs. set_node_block r (length segs) ?g = g0\<lparr>gen_nodes := hs, gen_basic_blocks := bs, gen_entry_block := 0\<rparr>"
    by (rule cut_only(1)) (use S in \<open>simp add: cut_state_def\<close>)
  moreover have "\<forall>i < length segs. closed_block (gen_nodes g0) i (segs ! i) (block_at g i)" using S by (simp add: cut_state_def)
  ultimately show ?thesis unfolding cut_state_def using nodes b n by (simp add: block_at_set_block)
qed

lemma NewBasicBlock_append:
  assumes "GeneratorNewBasicBlock g = (g', b)"
  shows "b = num_blocks g" "num_blocks g' = num_blocks g + 1" "gen_nodes g' = gen_nodes g" "gen_code g' = gen_code g"
    "i < num_blocks g \<Longrightarrow> block_at g' i = block_at g i" "block_at g' (num_blocks g) = NewBasicBlock (num_blocks g)"
    "g' = g\<lparr>gen_basic_blocks := gen_basic_blocks g'\<rparr>"
  using assms by (auto simp: GeneratorNewBasicBlock_def Let_def num_blocks_def block_at_def nth_append)

lemma new_block_shape: "block_shape h i start [] ((NewBasicBlock i)\<lparr>bb_code := start\<rparr>)"
  by (simp add: block_shape_def NewBasicBlock_def variables_ok_def map_ok_def map_shape_def map_list_def map_buf_def
      sorted_by_def map_symbols_def seg_symbols_def MapInit_def pointer_set_ok_def set_ok_def SetInitForPointers_def SetInit_def
      vec_ok_def vec_list_def vec_buf_def VectorInit_def)

lemma state_new:
  assumes S: "cut_state g0 segs cur (hd cur) g" and c: "cur \<noteq> []" "bb_end_code (block_at g (length segs)) = last cur"
    and new: "GeneratorNewBasicBlock g = (g', b)"
  shows "b = length (segs @ [cur])" "cut_state g0 (segs @ [cur]) [] s (on_block b (\<lambda>x. x\<lparr>bb_code := s\<rparr>) g')"
proof -
  note N = NewBasicBlock_append [OF new] and n = cut_stateD(1) [OF S]
  show b: "b = length (segs @ [cur])" using N(1) n by simp
  let ?g = "on_block b (\<lambda>x. x\<lparr>bb_code := s\<rparr>) g'"
  have at: "block_at ?g i = (if i = b then (NewBasicBlock b)\<lparr>bb_code := s\<rparr> else block_at g' i)" for i
    using N(1,2,6) by (simp add: on_block_at)
  have closed: "closed_block (gen_nodes g0) i ((segs @ [cur]) ! i) (block_at ?g i)" if i: "i < length (segs @ [cur])" for i
  proof (cases "i < length segs")
    case True
    then have "closed_block (gen_nodes g0) i (segs ! i) (block_at g i)" using S by (simp add: cut_state_def)
    moreover have "block_at ?g i = block_at g i" unfolding at using True N(5) n b by simp
    ultimately show ?thesis using True by (simp add: nth_append)
  next
    case False
    then have "i = length segs" using i by simp
    moreover have "block_at ?g (length segs) = block_at g (length segs)" unfolding at using N(5) n b by simp
    ultimately show ?thesis using cut_stateD(3,4) [OF S] c by (simp add: closed_block_def)
  qed
  have "cut_nodes (gen_nodes g0) ((segs @ [cur]) @ [[]]) ?g"
    using cut_stateD(5) [OF S] N(3) by (auto simp: cut_nodes_def on_block_def nth_append less_Suc_eq)
  moreover have "\<exists>hs bs. ?g = g0\<lparr>gen_nodes := hs, gen_basic_blocks := bs, gen_entry_block := 0\<rparr>"
    unfolding on_block_def by (subst N(7), rule cut_only(2)) (use S in \<open>simp add: cut_state_def\<close>)
  moreover have "num_blocks ?g = length (segs @ [cur]) + 1" using N(2) n by (simp add: on_block_def)
  moreover have "block_at ?g (length (segs @ [cur])) = (NewBasicBlock b)\<lparr>bb_code := s\<rparr>" unfolding at using b by simp
  ultimately show "cut_state g0 (segs @ [cur]) [] s ?g"
    unfolding cut_state_def using closed b new_block_shape [of "gen_nodes g0" b s] by (simp add: NewBasicBlock_def)
qed


section \<open>The loop\<close>

definition build_code_ok :: "ir_store \<Rightarrow> node_ref list \<Rightarrow> bool" where
  "build_code_ok h code \<longleftrightarrow> distinct code \<and>
     (\<forall>r \<in> set code. r \<noteq> 0 \<and> (\<exists>n. h r = Some n \<and> (IRIsVarDef n \<longrightarrow> ir_var n < 2 ^ 64 \<and> ir_opcode n \<noteq> IR_label)))"

lemma label_not_end: "h r = Some n \<Longrightarrow> ir_opcode n = IR_label \<Longrightarrow> \<not> is_end h calls r \<and> \<not> is_return h r"
  by (auto simp: is_end_def is_return_def ends_block_def IRIsBranch_def IRIsReturn_def IRIsCall_def
      IR_label_def IR_btrue_def IR_bfalse_def IR_bra_def IR_cbra_def IR_ret_def IR_calla_def)

lemma return_is_end: "is_return h r \<Longrightarrow> is_end h calls r"
  by (auto simp: is_return_def is_end_def ends_block_def)

lemma state_set:
  assumes S: "cut_state g0 segs cur start g" and b: "block_shape (gen_nodes g0) (length segs) start cur b'"
    "bb_return_block b' = bb_return_block (block_at g (length segs))"
  shows "cut_state g0 segs cur start (set_block (length segs) b' g)"
proof -
  have n: "num_blocks g = length segs + 1" by (rule cut_stateD(1) [OF S])
  have "cut_nodes (gen_nodes g0) (segs @ [cur]) (set_block (length segs) b' g)" using cut_stateD(5) [OF S] by (simp add: cut_nodes_def)
  moreover have "\<exists>hs bs. set_block (length segs) b' g = g0\<lparr>gen_nodes := hs, gen_basic_blocks := bs, gen_entry_block := 0\<rparr>"
    using cut_only(2) [of g g0 "length segs" b' "gen_basic_blocks g"] S by (auto simp: cut_state_def)
  moreover have "\<forall>i < length segs. closed_block (gen_nodes g0) i (segs ! i) (block_at g i)" using S by (simp add: cut_state_def)
  ultimately show ?thesis unfolding cut_state_def using b n cut_stateD(4) [OF S] by (simp add: block_at_set_block)
qed

text \<open>What is known of the next instruction.\<close>

lemma next_instruction:
  assumes ok: "build_code_ok (gen_nodes g0) (gen_code g0)" and L: "cut_lists (gen_nodes g0) calls (gen_code g0) segs cur (r # rest)"
    and S: "cut_state g0 segs cur start g"
  obtains n b' where "gen_nodes g0 r = Some n" "gen_nodes g r = Some n" "r \<notin> set (concat segs @ cur)"
    "record_vars (length segs) n g = Some (set_block (length segs) b' g)"
    "block_shape (gen_nodes g0) (length segs) start (cur @ [r]) b'"
    "bb_return_block b' = bb_return_block (block_at g (length segs))"
    "ir_opcode n = IR_label \<Longrightarrow> block_shape (gen_nodes g0) (length segs) start cur b'"
    "\<forall>i t b. ir_opcode n = IR_label \<longrightarrow> block_shape (gen_nodes g0) i t [] b \<longrightarrow> block_shape (gen_nodes g0) i t [r] b"
proof -
  have code: "gen_code g0 = concat segs @ cur @ r # rest" "distinct (gen_code g0)"
    using L ok by (simp_all add: cut_lists_def build_code_ok_def)
  then have r: "r \<in> set (gen_code g0)" "r \<notin> set (concat segs @ cur)" by auto
  obtain n where n: "gen_nodes g0 r = Some n" "IRIsVarDef n \<Longrightarrow> ir_var n < 2 ^ 64" "IRIsVarDef n \<Longrightarrow> ir_opcode n \<noteq> IR_label"
    using ok r(1) by (auto simp: build_code_ok_def)
  have g: "gen_nodes g r = Some n" using cut_stateD(5) [OF S] r(2) n(1) by (simp add: cut_nodes_def)
  have i: "length segs < num_blocks g" using cut_stateD(1) [OF S] by simp
  obtain b' where b': "record_vars (length segs) n g = Some (set_block (length segs) b' g)"
    "block_shape (gen_nodes g0) (length segs) start (cur @ [r]) b'" "bb_return_block b' = bb_return_block (block_at g (length segs))"
    using record_vars_shape [OF i cut_stateD(3) [OF S] n(1,2)] by blast
  have sym: "seg_symbols (gen_nodes g0) (ys @ [r]) = seg_symbols (gen_nodes g0) ys" if "ir_opcode n = IR_label" for ys
    using n(1,3) that by (auto simp: seg_symbols_def)
  show thesis
  proof (rule that [OF n(1) g r(2) b'])
    show "ir_opcode n = IR_label \<Longrightarrow> block_shape (gen_nodes g0) (length segs) start cur b'"
      using b'(2) sym [of cur] by (simp add: block_shape_def)
    show "\<forall>i t b. ir_opcode n = IR_label \<longrightarrow> block_shape (gen_nodes g0) i t [] b \<longrightarrow> block_shape (gen_nodes g0) i t [r] b"
      using sym [of "[]"] by (simp add: block_shape_def)
  qed
qed

lemma set_block_self [simp]: "set_block i (block_at g i) g = g"
  by (simp add: set_block_def block_at_def)

lemma on_block_set_node: "on_block b f (set_node_block r c g) = set_node_block r c (on_block b f g)"
  by (simp add: on_block_def set_block_def set_node_block_def block_at_def)

lemma label_step:
  assumes ok: "build_code_ok (gen_nodes g0) (gen_code g0)" and L: "cut_lists (gen_nodes g0) calls (gen_code g0) segs cur (r # rest)"
    and S: "cut_state g0 segs cur (hd (cur @ r # rest)) g" and r: "is_label (gen_nodes g0) r"
  shows "\<exists>g'. create_blocks calls (r # rest) (length segs) branches g =
      create_blocks calls rest (length (segs @ [cur])) branches g' \<and>
    cut_lists (gen_nodes g0) calls (gen_code g0) (segs @ [cur]) [r] rest \<and> cut_state g0 (segs @ [cur]) [r] (hd ([r] @ rest)) g'"
proof -
  let ?c = "length segs"
  obtain n b' where n: "gen_nodes g0 r = Some n" "gen_nodes g r = Some n" "r \<notin> set (concat segs @ cur)"
    "record_vars ?c n g = Some (set_block ?c b' g)" "block_shape (gen_nodes g0) ?c (hd (cur @ r # rest)) (cur @ [r]) b'"
    "bb_return_block b' = bb_return_block (block_at g ?c)"
    "ir_opcode n = IR_label \<Longrightarrow> block_shape (gen_nodes g0) ?c (hd (cur @ r # rest)) cur b'"
    "\<forall>i t b. ir_opcode n = IR_label \<longrightarrow> block_shape (gen_nodes g0) i t [] b \<longrightarrow> block_shape (gen_nodes g0) i t [r] b"
    using next_instruction [OF ok L S] by metis
  have l: "ir_opcode n = IR_label" using r n(1) by (simp add: is_label_def)
  have noend: "\<not> is_end (gen_nodes g0) calls r \<and> \<not> is_return (gen_nodes g0) r" using label_not_end [of "gen_nodes g0" r n] n(1) l by simp
  note C = cut_label [OF L r conjunct1 [OF noend]]
  let ?b = "b'\<lparr>bb_end_code := last cur\<rparr>"
  let ?g2 = "set_block ?c ?b g"
  have i: "?c < num_blocks g" using cut_stateD(1) [OF S] by simp
  have "gen_code g = (concat segs @ cur) @ r # rest" using L cut_stateD(2) [OF S] by (simp add: cut_lists_def)
  then have prev: "IRPrev (set_block ?c b' g) r = last cur"
    using C(1) abstract_split(5) [OF n(3), of 0 rest] by (simp add: IRPrev_def last_or_def del: append_assoc)
  have S2: "cut_state g0 segs cur (hd cur) ?g2"
    using state_set [OF S block_shape_end(1) [OF n(7) [OF l]], of "last cur"] n(6) C(1) by simp
  obtain g3 b where new: "GeneratorNewBasicBlock ?g2 = (g3, b)" by (cases "GeneratorNewBasicBlock ?g2") auto
  have e: "bb_end_code (block_at ?g2 ?c) = last cur" using i by (simp add: block_at_set_block)
  note N = state_new(1) [OF S2 C(1) e new] state_new(2) [OF S2 C(1) e new, of r]
  let ?g4 = "on_block b (\<lambda>x. x\<lparr>bb_code := r\<rparr>) g3"
  have ret: "bb_return_block (block_at ?g4 (length (segs @ [cur]))) \<longleftrightarrow> is_return (gen_nodes g0) r"
    using cut_stateD(4) [OF N(2)] noend by simp
  have "r \<notin> set (concat (segs @ [cur]) @ [])" using n(3) by simp
  from state_add [OF N(2) this _ ret] n(8) l cut_stateD(3) [OF N(2)]
  have S4: "cut_state g0 (segs @ [cur]) [r] r (set_node_block r b ?g4)" by (simp add: N(1))
  have "create_blocks calls (r # rest) ?c branches g = create_blocks calls rest b branches (set_node_block r b ?g4)"
    using n(2,4) l prev i new by (simp add: on_block_def [of ?c] block_at_set_block on_block_set_node)
  then show ?thesis using C(2) S4 N(1) by auto
qed


lemma open_last:
  assumes "cut_lists h calls code segs cur (r # rest)" "\<not> is_label h r"
  shows "\<not> (cur \<noteq> [] \<and> is_return h (last cur))"
  using assms return_is_end [of h "last cur" calls] by (auto simp: cut_lists_def)

lemma plain_step:
  assumes ok: "build_code_ok (gen_nodes g0) (gen_code g0)" and L: "cut_lists (gen_nodes g0) calls (gen_code g0) segs cur (r # rest)"
    and S: "cut_state g0 segs cur (hd (cur @ r # rest)) g" and r: "\<not> is_label (gen_nodes g0) r" "\<not> is_end (gen_nodes g0) calls r"
  shows "\<exists>g'. create_blocks calls (r # rest) (length segs) branches g = create_blocks calls rest (length segs) branches g' \<and>
    cut_lists (gen_nodes g0) calls (gen_code g0) segs (cur @ [r]) rest \<and> cut_state g0 segs (cur @ [r]) (hd ((cur @ [r]) @ rest)) g'"
proof -
  let ?c = "length segs"
  obtain n b' where n: "gen_nodes g0 r = Some n" "gen_nodes g r = Some n" "r \<notin> set (concat segs @ cur)"
    "record_vars ?c n g = Some (set_block ?c b' g)" "block_shape (gen_nodes g0) ?c (hd (cur @ r # rest)) (cur @ [r]) b'"
    "bb_return_block b' = bb_return_block (block_at g ?c)"
    using next_instruction [OF ok L S] by metis
  have no: "ir_opcode n \<noteq> IR_label" "\<not> ends_block calls n" using r n(1) by (simp_all add: is_label_def is_end_def)
  have "\<not> is_return (gen_nodes g0) r" using r(2) return_is_end by blast
  then have ret: "bb_return_block b' \<longleftrightarrow> is_return (gen_nodes g0) r"
    using n(6) cut_stateD(4) [OF S] open_last [OF L r(1)] by simp
  have "create_blocks calls (r # rest) ?c branches g = create_blocks calls rest ?c branches (set_node_block r ?c (set_block ?c b' g))"
    using n(2,4) no by simp
  moreover have "cut_lists (gen_nodes g0) calls (gen_code g0) segs (cur @ [r]) rest" by (rule cut_open [OF L r(1)]) (use r(2) in simp)
  ultimately show ?thesis using state_add [OF S n(3,5) ret] by auto
qed

text \<open>After an instruction that ends its block.\<close>

lemma end_run:
  assumes ok: "build_code_ok (gen_nodes g0) (gen_code g0)" and L: "cut_lists (gen_nodes g0) calls (gen_code g0) segs cur (r # rest)"
    and S: "cut_state g0 segs cur (hd (cur @ r # rest)) g" and r: "is_end (gen_nodes g0) calls r"
  obtains g1 where "cut_state g0 segs (cur @ [r]) (hd (cur @ [r])) g1" "bb_end_code (block_at g1 (length segs)) = r"
    "create_blocks calls (r # rest) (length segs) branches g =
      (if rest = [] then create_blocks calls rest (length segs) (branches @ [r]) g1
       else do {
         m \<leftarrow> gen_nodes g1 (hd rest);
         if ir_opcode m = IR_label then create_blocks calls rest (length segs) (branches @ [r]) g1
         else (let (g3, b) = GeneratorNewBasicBlock g1
               in create_blocks calls rest b (branches @ [r]) (on_block b (\<lambda>x. x\<lparr>bb_code := hd rest\<rparr>) g3))})"
proof -
  let ?c = "length segs"
  obtain n b' where n: "gen_nodes g0 r = Some n" "gen_nodes g r = Some n" "r \<notin> set (concat segs @ cur)"
    "record_vars ?c n g = Some (set_block ?c b' g)" "block_shape (gen_nodes g0) ?c (hd (cur @ r # rest)) (cur @ [r]) b'"
    using next_instruction [OF ok L S] by metis
  have e: "ends_block calls n" using r n(1) by (simp add: is_end_def)
  then have nl: "ir_opcode n \<noteq> IR_label" using label_not_end [of "gen_nodes g0" r n calls] n(1) r by blast
  have i: "?c < num_blocks g" using cut_stateD(1) [OF S] by simp
  let ?b = "b'\<lparr>bb_return_block := IRIsReturn n, bb_end_code := r\<rparr>"
  let ?g = "set_node_block r ?c (set_block ?c ?b g)"
  have S2: "cut_state g0 segs (cur @ [r]) (hd (cur @ r # rest)) ?g"
    by (rule state_add [OF S n(3) block_shape_end(2) [OF n(5)]]) (use n(1) in \<open>simp add: is_return_def\<close>)
  have hd: "hd (cur @ r # rest) = hd (cur @ [r])" by (cases cur) simp_all
  show thesis
  proof (rule that)
    show "cut_state g0 segs (cur @ [r]) (hd (cur @ [r])) ?g" using S2 hd by simp
    show "bb_end_code (block_at ?g ?c) = r" using i by (simp add: block_at_set_block)
    have eq: "on_block ?c (\<lambda>x. x\<lparr>bb_return_block := IRIsReturn n, bb_end_code := r\<rparr>) (set_block ?c b' g) = set_block ?c ?b g"
      using i by (simp add: on_block_def block_at_set_block)
    have "(ir_opcode n = IR_label) = False" using nl by simp
    then show "create_blocks calls (r # rest) ?c branches g =
      (if rest = [] then create_blocks calls rest ?c (branches @ [r]) ?g
       else do {
         m \<leftarrow> gen_nodes ?g (hd rest);
         if ir_opcode m = IR_label then create_blocks calls rest ?c (branches @ [r]) ?g
         else (let (g3, b) = GeneratorNewBasicBlock ?g
               in create_blocks calls rest b (branches @ [r]) (on_block b (\<lambda>x. x\<lparr>bb_code := hd rest\<rparr>) g3))})"
      using e by (simp only: create_blocks.simps(2) n(2,4) bind.bind_lunit eq if_False if_True Let_def)
  qed
qed

lemma end_step:
  assumes ok: "build_code_ok (gen_nodes g0) (gen_code g0)" and L: "cut_lists (gen_nodes g0) calls (gen_code g0) segs cur (r # rest)"
    and S: "cut_state g0 segs cur (hd (cur @ r # rest)) g" and r: "is_end (gen_nodes g0) calls r"
  shows "\<exists>segs' cur' g'. create_blocks calls (r # rest) (length segs) branches g =
      create_blocks calls rest (length segs') (branches @ [r]) g' \<and>
    cut_lists (gen_nodes g0) calls (gen_code g0) segs' cur' rest \<and> cut_state g0 segs' cur' (hd (cur' @ rest)) g'"
proof -
  let ?c = "length segs"
  obtain g1 where g1: "cut_state g0 segs (cur @ [r]) (hd (cur @ [r])) g1" "bb_end_code (block_at g1 ?c) = r"
    and run: "create_blocks calls (r # rest) ?c branches g =
      (if rest = [] then create_blocks calls rest ?c (branches @ [r]) g1
       else do {
         m \<leftarrow> gen_nodes g1 (hd rest);
         if ir_opcode m = IR_label then create_blocks calls rest ?c (branches @ [r]) g1
         else (let (g3, b) = GeneratorNewBasicBlock g1
               in create_blocks calls rest b (branches @ [r]) (on_block b (\<lambda>x. x\<lparr>bb_code := hd rest\<rparr>) g3))})"
    by (rule end_run [OF ok L S r])
  have rl: "\<not> is_label (gen_nodes g0) r" using label_not_end [of "gen_nodes g0" r _ calls] r by (auto simp: is_label_def)
  have later: "\<exists>m. gen_nodes g1 (hd rest) = Some m \<and> gen_nodes g0 (hd rest) = Some m" if "rest \<noteq> []"
  proof -
    have "hd rest \<notin> set (concat segs @ cur @ [r])" "hd rest \<in> set (gen_code g0)"
      using L ok that by (cases rest, auto simp: cut_lists_def build_code_ok_def)+
    then show ?thesis using cut_stateD(5) [OF g1(1)] ok by (auto simp: cut_nodes_def build_code_ok_def)
  qed
  show ?thesis
  proof (cases "rest = [] \<or> is_label (gen_nodes g0) (hd rest)")
    case True
    have "create_blocks calls (r # rest) ?c branches g = create_blocks calls rest ?c (branches @ [r]) g1"
      using True later unfolding run by (auto simp: is_label_def)
    moreover have "cut_lists (gen_nodes g0) calls (gen_code g0) segs (cur @ [r]) rest" by (rule cut_open [OF L rl]) (use True in blast)
    moreover have "hd ((cur @ [r]) @ rest) = hd (cur @ [r])" by (cases cur) simp_all
    ultimately show ?thesis using g1(1) by metis
  next
    case False
    obtain g3 b where new: "GeneratorNewBasicBlock g1 = (g3, b)" by (cases "GeneratorNewBasicBlock g1") auto
    have e: "bb_end_code (block_at g1 ?c) = last (cur @ [r])" using g1(2) by simp
    note N = state_new(1) [OF g1(1) _ e new] state_new(2) [OF g1(1) _ e new, of "hd rest"]
    let ?g = "on_block b (\<lambda>x. x\<lparr>bb_code := hd rest\<rparr>) g3"
    have "create_blocks calls (r # rest) ?c branches g = create_blocks calls rest b (branches @ [r]) ?g"
      using later False new unfolding run by (auto simp: is_label_def)
    moreover have "cut_lists (gen_nodes g0) calls (gen_code g0) (segs @ [cur @ [r]]) [] rest"
      by (rule cut_close [OF L rl]) (use False in simp_all)
    moreover have "b = length (segs @ [cur @ [r]])" "cut_state g0 (segs @ [cur @ [r]]) [] (hd ([] @ rest)) ?g" using N by simp_all
    ultimately show ?thesis by metis
  qed
qed

lemma create_blocks_spec:
  assumes ok: "build_code_ok (gen_nodes g0) (gen_code g0)"
  shows "cut_lists (gen_nodes g0) calls (gen_code g0) segs cur rest \<Longrightarrow> cut_state g0 segs cur (hd (cur @ rest)) g \<Longrightarrow>
    \<exists>segs' cur' g'. create_blocks calls rest (length segs) branches g =
        Some (g', length segs', branches @ filter (is_end (gen_nodes g0) calls) rest) \<and>
      cut_lists (gen_nodes g0) calls (gen_code g0) segs' cur' [] \<and> cut_state g0 segs' cur' (hd cur') g'"
proof (induction rest arbitrary: segs cur branches g)
  case Nil
  then show ?case by auto
next
  case (Cons r rest)
  consider "is_end (gen_nodes g0) calls r" | "is_label (gen_nodes g0) r" "\<not> is_end (gen_nodes g0) calls r"
    | "\<not> is_label (gen_nodes g0) r" "\<not> is_end (gen_nodes g0) calls r" by blast
  then show ?case
  proof cases
    case 1
    then show ?thesis using end_step [OF ok Cons.prems 1, of branches] Cons.IH [of _ _ _ "branches @ [r]"] by fastforce
  next
    case 2
    then show ?thesis using label_step [OF ok Cons.prems 2(1), of branches] Cons.IH [of "segs @ [cur]" "[r]" _ branches] by fastforce
  next
    case 3
    then show ?thesis using plain_step [OF ok Cons.prems 3, of branches] Cons.IH [of segs "cur @ [r]" _ branches] by fastforce
  qed
qed


section \<open>All blocks\<close>

definition blocks_cut :: "generator \<Rightarrow> bitset \<Rightarrow> node_ref list list \<Rightarrow> generator \<Rightarrow> bool" where
  "blocks_cut g0 calls segs g \<longleftrightarrow>
     concat segs = gen_code g0 \<and> (\<forall>seg \<in> set segs. seg \<noteq> [] \<and> segment (gen_nodes g0) calls seg) \<and>
     (\<exists>hs bs. g = g0\<lparr>gen_nodes := hs, gen_basic_blocks := bs, gen_entry_block := 0, gen_exit_block := length segs\<rparr>) \<and>
     num_blocks g = length segs + 1 \<and> cut_nodes (gen_nodes g0) segs g \<and>
     (\<forall>i < length segs. closed_block (gen_nodes g0) i (segs ! i) (block_at g i)) \<and>
     block_at g (length segs) = NewBasicBlock (length segs)"

lemma cut_state_start:
  assumes "gen_basic_blocks g0 = []" "GeneratorNewBasicBlock g0 = (g1, b)"
  shows "b = 0" "cut_state g0 [] [] s (on_block b (\<lambda>x. x\<lparr>bb_code := s\<rparr>) (g1\<lparr>gen_entry_block := b\<rparr>))"
proof -
  show b: "b = 0" using NewBasicBlock_append(1) [OF assms(2)] assms(1) by (simp add: num_blocks_def)
  have g: "on_block b (\<lambda>x. x\<lparr>bb_code := s\<rparr>) (g1\<lparr>gen_entry_block := b\<rparr>) =
      g0\<lparr>gen_basic_blocks := [(NewBasicBlock 0)\<lparr>bb_code := s\<rparr>], gen_entry_block := 0\<rparr>"
    using assms by (auto simp: GeneratorNewBasicBlock_def Let_def num_blocks_def on_block_def set_block_def block_at_def)
  have "\<exists>hs bs. g0\<lparr>gen_basic_blocks := [(NewBasicBlock 0)\<lparr>bb_code := s\<rparr>], gen_entry_block := 0\<rparr> =
      g0\<lparr>gen_nodes := hs, gen_basic_blocks := bs, gen_entry_block := 0\<rparr>"
    by (intro exI [of _ "gen_nodes g0"] exI) simp
  then show "cut_state g0 [] [] s (on_block b (\<lambda>x. x\<lparr>bb_code := s\<rparr>) (g1\<lparr>gen_entry_block := b\<rparr>))"
    unfolding g cut_state_def using new_block_shape [of "gen_nodes g0" 0 s]
    by (simp add: num_blocks_def block_at_def cut_nodes_def) (simp add: NewBasicBlock_def)
qed

lemma cut_state_finish:
  assumes S: "cut_state g0 segs cur (hd cur) g" and c: "cur \<noteq> []" "concat segs @ cur = gen_code g0"
    and seg: "\<forall>seg \<in> set segs. seg \<noteq> [] \<and> segment (gen_nodes g0) calls seg" "segment (gen_nodes g0) calls cur"
    and new: "GeneratorNewBasicBlock (on_block (length segs) (\<lambda>x. x\<lparr>bb_end_code := last cur\<rparr>) g) = (g', b)"
  shows "blocks_cut g0 calls (segs @ [cur]) (g'\<lparr>gen_exit_block := b\<rparr>)"
proof -
  let ?c = "length segs"
  let ?b = "(block_at g ?c)\<lparr>bb_end_code := last cur\<rparr>"
  let ?g = "set_block ?c ?b g"
  have n: "num_blocks g = ?c + 1" by (rule cut_stateD(1) [OF S])
  have S2: "cut_state g0 segs cur (hd cur) ?g" by (rule state_set [OF S block_shape_end(1) [OF cut_stateD(3) [OF S]]]) simp
  have new: "GeneratorNewBasicBlock ?g = (g', b)" using new by (simp add: on_block_def)
  note N = NewBasicBlock_append [OF new]
  have e: "bb_end_code (block_at ?g ?c) = last cur" using n by (simp add: block_at_set_block)
  have at: "block_at (g'\<lparr>gen_exit_block := b\<rparr>) i = block_at g' i" for i by (simp add: block_at_def)
  have closed: "closed_block (gen_nodes g0) i ((segs @ [cur]) ! i) (block_at g' i)" if i: "i < length (segs @ [cur])" for i
  proof (cases "i < ?c")
    case True
    then have "closed_block (gen_nodes g0) i (segs ! i) (block_at ?g i)" using S2 by (simp add: cut_state_def)
    then show ?thesis using True N(5) n by (simp add: nth_append)
  next
    case False
    then have "i = ?c" using i by simp
    then show ?thesis using cut_stateD(3,4) [OF S2] c(1) e N(5) n by (simp add: closed_block_def)
  qed
  have "cut_nodes (gen_nodes g0) (segs @ [cur]) (g'\<lparr>gen_exit_block := b\<rparr>)" using cut_stateD(5) [OF S2] N(3) by (simp add: cut_nodes_def)
  moreover obtain hs bs where only: "?g = g0\<lparr>gen_nodes := hs, gen_basic_blocks := bs, gen_entry_block := 0\<rparr>"
    using S2 unfolding cut_state_def by blast
  have "\<exists>hs bs. g'\<lparr>gen_exit_block := b\<rparr> = g0\<lparr>gen_nodes := hs, gen_basic_blocks := bs, gen_entry_block := 0, gen_exit_block := length (segs @ [cur])\<rparr>"
    by (subst N(7), subst only, intro exI [of _ hs] exI [of _ "gen_basic_blocks g'"]) (use N(1) n in simp)
  ultimately show ?thesis
    unfolding blocks_cut_def at using c seg N(1,2,6) n closed by (simp add: num_blocks_def [of "g'\<lparr>gen_exit_block := b\<rparr>"]) (simp add: num_blocks_def)
qed

lemma CreateBasicBlocks_spec:
  assumes ok: "build_code_ok (gen_nodes g0) (gen_code g0)" and e: "gen_basic_blocks g0 = []"
    and c: "gen_code g0 \<noteq> []" "\<not> is_label (gen_nodes g0) (hd (gen_code g0))"
  shows "\<exists>g segs. CreateBasicBlocks calls g0 = Some (g, filter (is_end (gen_nodes g0) calls) (gen_code g0)) \<and> blocks_cut g0 calls segs g"
proof -
  obtain g1 b where new: "GeneratorNewBasicBlock g0 = (g1, b)" by (cases "GeneratorNewBasicBlock g0") auto
  have first: "GeneratorFirstInstruction g0 = hd (gen_code g0)" using c(1) by (cases "gen_code g0") (simp_all add: GeneratorFirstInstruction_def)
  let ?g = "on_block b (\<lambda>x. x\<lparr>bb_code := GeneratorFirstInstruction g0\<rparr>) (g1\<lparr>gen_entry_block := b\<rparr>)"
  have S: "b = 0" "cut_state g0 [] [] (hd ([] @ gen_code g0)) ?g" using cut_state_start [OF e new] first by simp_all
  have L: "cut_lists (gen_nodes g0) calls (gen_code g0) [] [] (gen_code g0)" using c by (simp add: cut_lists_def segment_def)
  obtain segs cur g2 where run: "create_blocks calls (gen_code g0) 0 [] ?g = Some (g2, length segs, filter (is_end (gen_nodes g0) calls) (gen_code g0))"
    "cut_lists (gen_nodes g0) calls (gen_code g0) segs cur []" "cut_state g0 segs cur (hd cur) g2"
    using create_blocks_spec [OF ok L S(2), of "[]"] by auto
  have cur: "cur \<noteq> []" "concat segs @ cur = gen_code g0" "\<forall>seg \<in> set segs. seg \<noteq> [] \<and> segment (gen_nodes g0) calls seg"
    "segment (gen_nodes g0) calls cur" using run(2) by (auto simp: cut_lists_def)
  have last_ins: "GeneratorLastInstruction g2 = last cur"
    using cut_stateD(2) [OF run(3)] cur(1) by (simp add: GeneratorLastInstruction_def last_or_def flip: cur(2))
  let ?g3 = "on_block (length segs) (\<lambda>x. x\<lparr>bb_end_code := last cur\<rparr>) g2"
  obtain g3 ex where new3: "GeneratorNewBasicBlock ?g3 = (g3, ex)" by (cases "GeneratorNewBasicBlock ?g3") auto
  have "CreateBasicBlocks calls g0 = Some (g3\<lparr>gen_exit_block := ex\<rparr>, filter (is_end (gen_nodes g0) calls) (gen_code g0))"
    unfolding CreateBasicBlocks_def using new run(1) S(1) last_ins new3 by (simp add: Let_def)
  then show ?thesis using cut_state_finish [OF run(3) cur new3] by blast
qed


end
