(* ===== verification/CfgEdges.thy ===== *)
theory CfgEdges
  imports CfgCut CfgTree
begin

text \<open>
  The edges of the blocks: those of the control flow between the last instruction of a block and
  the first of another.
\<close>

section \<open>Control flow of the instruction list\<close>

definition is_bra :: "ir_store \<Rightarrow> node_ref \<Rightarrow> bool" where
  "is_bra h r \<longleftrightarrow> (\<exists>n. h r = Some n \<and> ir_opcode n = IR_bra)"

text \<open>The jump table after a \<open>cbra\<close>.\<close>

definition table_after :: "generator \<Rightarrow> node_ref \<Rightarrow> node_ref list" where
  "table_after g r = takeWhile (is_bra (gen_nodes g)) (tl (dropWhile (\<lambda>x. x \<noteq> r) (gen_code g)))"

text \<open>Where control can go after an instruction.\<close>

definition control_next :: "generator \<Rightarrow> node_ref \<Rightarrow> node_ref \<Rightarrow> bool" where
  "control_next g r r' \<longleftrightarrow>
     (case gen_nodes g r of
        None \<Rightarrow> False
      | Some n \<Rightarrow>
          if IRIsConditionalBranch n then r' = IRNext g r \<or> r' = ir_inputs n ! 1
          else if ir_opcode n = IR_cbra then r' \<in> set (table_after g r)
          else if IRIsReturn n then False
          else if ir_opcode n = IR_bra then r' = ir_inputs n ! 0
          else IRNext g r \<noteq> 0 \<and> r' = IRNext g r)"

definition build_ready :: "generator \<Rightarrow> bool" where
  "build_ready g \<longleftrightarrow> build_code_ok (gen_nodes g) (gen_code g) \<and> gen_basic_blocks g = [] \<and> gen_code g \<noteq> [] \<and>
     \<not> is_label (gen_nodes g) (hd (gen_code g)) \<and>
     (\<forall>n. gen_nodes g (last (gen_code g)) = Some n \<longrightarrow> \<not> IRIsBranch n \<and> \<not> IRIsCall n) \<and>
     (\<forall>r \<in> set (gen_code g). \<forall>n. gen_nodes g r = Some n \<longrightarrow>
        (IRIsConditionalBranch n \<longrightarrow> 1 < length (ir_inputs n) \<and> ir_inputs n ! 1 \<in> set (gen_code g) \<and> is_label (gen_nodes g) (ir_inputs n ! 1)) \<and>
        (ir_opcode n = IR_bra \<longrightarrow> 0 < length (ir_inputs n) \<and> ir_inputs n ! 0 \<in> set (gen_code g) \<and> is_label (gen_nodes g) (ir_inputs n ! 0)))"

section \<open>Segments and the next instruction\<close>

lemma blocks_cutD:
  assumes "blocks_cut g0 calls segs g"
  shows "concat segs = gen_code g0" "seg \<in> set segs \<Longrightarrow> seg \<noteq> []" "seg \<in> set segs \<Longrightarrow> segment (gen_nodes g0) calls seg"
    "gen_code g = gen_code g0" "gen_entry_block g = 0" "gen_exit_block g = length segs" "num_blocks g = length segs + 1"
    "cut_nodes (gen_nodes g0) segs g" "i < length segs \<Longrightarrow> closed_block (gen_nodes g0) i (segs ! i) (block_at g i)"
    "block_at g (length segs) = NewBasicBlock (length segs)"
  using assms unfolding blocks_cut_def by auto

lemma in_segment:
  assumes "concat segs = code" "r \<in> set code"
  obtains i where "i < length segs" "r \<in> set (segs ! i)"
proof -
  obtain seg where "seg \<in> set segs" "r \<in> set seg" using assms by (auto simp flip: assms(1))
  then show thesis using that by (auto simp: in_set_conv_nth [of seg segs])
qed

lemma split_segments:
  assumes "u < length segs"
  shows "concat segs = concat (take u segs) @ segs ! u @ concat (drop (Suc u) segs)"
  using arg_cong [OF id_take_nth_drop [OF assms], of concat] by simp

lemma distinct_segments:
  assumes "distinct (concat segs)" "i < length segs" "j < length segs" "r \<in> set (segs ! i)" "r \<in> set (segs ! j)"
  shows "i = j"
proof -
  have "False" if "k < l" "l < length segs" "r \<in> set (segs ! k)" "r \<in> set (segs ! l)" for k l
  proof -
    have "l - Suc k < length (drop (Suc k) segs)" "drop (Suc k) segs ! (l - Suc k) = segs ! l" using that by simp_all
    then have "segs ! l \<in> set (drop (Suc k) segs)" using nth_mem by metis
    then have "r \<in> set (concat (drop (Suc k) segs))" using that(4) by auto
    moreover have "k < length segs" using that by simp
    ultimately show False using assms(1) split_segments [of k segs] that(3) by auto
  qed
  then show ?thesis using assms(2-5) by (metis linorder_neqE_nat)
qed

lemma next_last:
  assumes d: "distinct (gen_code g)" and c: "concat segs = gen_code g" and ne: "\<And>seg. seg \<in> set segs \<Longrightarrow> seg \<noteq> []" and u: "u < length segs"
  shows "IRNext g (last (segs ! u)) = (if Suc u < length segs then hd (segs ! Suc u) else 0)"
    "tl (dropWhile (\<lambda>x. x \<noteq> last (segs ! u)) (gen_code g)) = concat (drop (Suc u) segs)"
proof -
  have n: "segs ! u \<noteq> []" using ne u by simp
  then have "segs ! u = butlast (segs ! u) @ [last (segs ! u)]" by simp
  then have code: "gen_code g = (concat (take u segs) @ butlast (segs ! u)) @ last (segs ! u) # concat (drop (Suc u) segs)"
    using split_segments [OF u] c by (metis append.assoc append_Cons append_Nil)
  then have notin: "last (segs ! u) \<notin> set (concat (take u segs) @ butlast (segs ! u))" using d by simp
  have "IRNext g (last (segs ! u)) = first_or (concat (drop (Suc u) segs)) 0" unfolding IRNext_def code by (rule abstract_split(4) [OF notin])
  moreover have "first_or (concat (drop (Suc u) segs)) 0 = (if Suc u < length segs then hd (segs ! Suc u) else 0)"
  proof (cases "Suc u < length segs")
    case True
    then have "segs ! Suc u \<noteq> []" using ne by simp
    then show ?thesis using True by (cases "segs ! Suc u") (simp_all flip: Cons_nth_drop_Suc)
  qed simp
  ultimately show "IRNext g (last (segs ! u)) = (if Suc u < length segs then hd (segs ! Suc u) else 0)" by simp
  have "dropWhile (\<lambda>x. x \<noteq> y) (xs @ y # zs) = y # zs" if "y \<notin> set xs" for y :: node_ref and xs zs
    using that by (induction xs) auto
  from this [OF notin] show "tl (dropWhile (\<lambda>x. x \<noteq> last (segs ! u)) (gen_code g)) = concat (drop (Suc u) segs)" using code by simp
qed

text \<open>Labels stand at the start of their segment, ends at the end.\<close>

lemma segment_ends:
  assumes "segment h calls seg" "r \<in> set seg"
  shows "is_label h r \<Longrightarrow> r = hd seg" "is_end h calls r \<Longrightarrow> r = last seg"
proof -
  have ne: "seg \<noteq> []" using assms(2) by auto
  have "r = hd seg \<or> r \<in> set (tl seg)" using assms(2) by (cases seg) auto
  then show "is_label h r \<Longrightarrow> r = hd seg" using assms(1) unfolding segment_def by blast
  have "r = last seg \<or> r \<in> set (butlast seg)" using assms(2) by (cases seg rule: rev_cases) auto
  then show "is_end h calls r \<Longrightarrow> r = last seg" using assms(1) unfolding segment_def by blast
qed

lemma bra_is_end: "is_bra h r \<Longrightarrow> is_end h calls r"
  by (auto simp: is_bra_def is_end_def ends_block_def IRIsBranch_def)

lemma bra_run_heads:
  assumes "\<And>seg. seg \<in> set segs \<Longrightarrow> seg \<noteq> []" "\<And>seg. seg \<in> set segs \<Longrightarrow> segment h calls seg"
    "x \<in> set (takeWhile (is_bra h) (concat segs))"
  shows "\<exists>k < length segs. x = hd (segs ! k)"
  using assms
proof (induction segs)
  case (Cons s ss)
  obtain y ys where s: "s = y # ys" using Cons.prems(1) [of s] by (cases s) auto
  have y: "is_bra h y" using Cons.prems(3) s by (auto split: if_splits)
  then have "y \<notin> set (butlast s)" using Cons.prems(2) [of s] bra_is_end by (auto simp: segment_def)
  then have "ys = []" using s by (auto split: if_splits)
  then have "x = y \<or> x \<in> set (takeWhile (is_bra h) (concat ss))" using Cons.prems(3) s y by simp
  then show ?case
  proof
    assume "x \<in> set (takeWhile (is_bra h) (concat ss))"
    then obtain k where "k < length ss" "x = hd (ss ! k)" using Cons.IH Cons.prems(1,2) by auto
    then show ?thesis by (intro exI [of _ "Suc k"]) simp
  qed (use s in \<open>auto intro: exI [of _ 0]\<close>)
qed simp

section \<open>Adding edges\<close>

definition edge_set :: "generator \<Rightarrow> (nat \<times> nat) set" where
  "edge_set g = {(u, v). flow_edge g u v}"

text \<open>Only edges, and what is recorded of reachability, may differ.\<close>

definition edges_only :: "generator \<Rightarrow> generator \<Rightarrow> bool" where
  "edges_only g1 g \<longleftrightarrow> flow_ok g \<and> num_blocks g = num_blocks g1 \<and> (\<exists>bs. g = g1\<lparr>gen_basic_blocks := bs\<rparr>) \<and>
     (\<forall>i < num_blocks g1. block_at g i = (block_at g1 i)\<lparr>bb_in_edges := bb_in_edges (block_at g i),
        bb_out_edges := bb_out_edges (block_at g i), bb_reachability_known := bb_reachability_known (block_at g i)\<rparr>)"

lemma edges_onlyD:
  assumes "edges_only g1 g"
  shows "flow_ok g" "num_blocks g = num_blocks g1" "gen_code g = gen_code g1" "gen_nodes g = gen_nodes g1"
    "gen_entry_block g = gen_entry_block g1" "gen_exit_block g = gen_exit_block g1" "block_of g = block_of g1"
    "i < num_blocks g1 \<Longrightarrow> block_at g i = (block_at g1 i)\<lparr>bb_in_edges := bb_in_edges (block_at g i),
        bb_out_edges := bb_out_edges (block_at g i), bb_reachability_known := bb_reachability_known (block_at g i)\<rparr>"
    "gen_exception_ranges g = gen_exception_ranges g1"
proof -
  show "flow_ok g" "num_blocks g = num_blocks g1" using assms by (simp_all add: edges_only_def)
  show "i < num_blocks g1 \<Longrightarrow> block_at g i = (block_at g1 i)\<lparr>bb_in_edges := bb_in_edges (block_at g i),
        bb_out_edges := bb_out_edges (block_at g i), bb_reachability_known := bb_reachability_known (block_at g i)\<rparr>"
    using assms unfolding edges_only_def by blast
  obtain bs where g: "g = g1\<lparr>gen_basic_blocks := bs\<rparr>" using assms by (auto simp: edges_only_def)
  show "gen_code g = gen_code g1" "gen_nodes g = gen_nodes g1" "gen_entry_block g = gen_entry_block g1"
    "gen_exit_block g = gen_exit_block g1" "gen_exception_ranges g = gen_exception_ranges g1" by (simp_all add: g)
  show "block_of g = block_of g1" by (intro ext) (simp add: g block_of_def)
qed

lemma AddEdge_only:
  "BasicBlockAddEdge a b g = g\<lparr>gen_basic_blocks := gen_basic_blocks (BasicBlockAddEdge a b g)\<rparr>"
  by (simp add: BasicBlockAddEdge_def BasicBlockAddInEdge_def Let_def on_block_def set_block_def)

lemma edges_add:
  assumes e: "edges_only g1 g" and a: "a < num_blocks g1" and b: "b < num_blocks g1"
  shows "edges_only g1 (BasicBlockAddEdge a b g)" "edge_set (BasicBlockAddEdge a b g) = insert (a, b) (edge_set g)"
proof -
  let ?g = "BasicBlockAddEdge a b g"
  note D = edges_onlyD [OF e]
  have ab: "a < num_blocks g" "b < num_blocks g" using a b D(2) by simp_all
  show "edge_set ?g = insert (a, b) (edge_set g)" using AddEdge_flow_ok(2) [OF D(1) ab] by (auto simp: edge_set_def)
  obtain bs where "g = g1\<lparr>gen_basic_blocks := bs\<rparr>" using e by (auto simp: edges_only_def)
  then have only: "\<exists>bs. ?g = g1\<lparr>gen_basic_blocks := bs\<rparr>" by (subst AddEdge_only) auto
  have "block_at ?g i = (block_at g1 i)\<lparr>bb_in_edges := bb_in_edges (block_at ?g i),
        bb_out_edges := bb_out_edges (block_at ?g i), bb_reachability_known := bb_reachability_known (block_at ?g i)\<rparr>"
    if i: "i < num_blocks g1" for i
  proof -
    have "block_at ?g i = (block_at g i)\<lparr>bb_in_edges := bb_in_edges (block_at ?g i),
        bb_out_edges := bb_out_edges (block_at ?g i), bb_reachability_known := bb_reachability_known (block_at ?g i)\<rparr>"
      using ab by (simp add: BasicBlockAddEdge_def BasicBlockAddInEdge_def Let_def on_block_at forget_reachability_def)
    then show ?thesis
      using arg_cong [OF D(8) [OF i], of "\<lambda>x. x\<lparr>bb_in_edges := bb_in_edges (block_at ?g i),
        bb_out_edges := bb_out_edges (block_at ?g i), bb_reachability_known := bb_reachability_known (block_at ?g i)\<rparr>"] by simp
  qed
  then show "edges_only g1 ?g"
    unfolding edges_only_def using AddEdge_flow_ok(1) [OF D(1) ab] AddEdge_blocks(1) [OF D(1) ab] D(2) only by simp
qed

lemma no_edges:
  assumes e: "edges_only g1 g" and i: "i < num_blocks g1"
  shows "bb_out_edges (block_at g i) = [] \<longleftrightarrow> (\<forall>v. (i, v) \<notin> edge_set g)"
  using i edges_onlyD(2) [OF e] by (cases "bb_out_edges (block_at g i)") (auto simp: edge_set_def flow_edge_def)

section \<open>Edges of a branch\<close>

lemma node_block_class [simp]:
  "IRIsConditionalBranch (n\<lparr>ir_block := b\<rparr>) = IRIsConditionalBranch n" "IRIsReturn (n\<lparr>ir_block := b\<rparr>) = IRIsReturn n"
  "IRIsCall (n\<lparr>ir_block := b\<rparr>) = IRIsCall n" "IRIsBranch (n\<lparr>ir_block := b\<rparr>) = IRIsBranch n"
  "ends_block calls (n\<lparr>ir_block := b\<rparr>) = ends_block calls n" "input_at (n\<lparr>ir_block := b\<rparr>) k = input_at n k"
  by (simp_all add: IRIsConditionalBranch_def IRIsReturn_def IRIsCall_def IRIsBranch_def ends_block_def node_index_def input_at_def)

text \<open>The state between the cut and the edges.\<close>

definition linking :: "generator \<Rightarrow> bitset \<Rightarrow> node_ref list list \<Rightarrow> generator \<Rightarrow> generator \<Rightarrow> bool" where
  "linking g0 calls segs g1 g \<longleftrightarrow> build_ready g0 \<and> blocks_cut g0 calls segs g1 \<and> edges_only g1 g"

lemma linkingD:
  assumes "linking g0 calls segs g1 g"
  shows "build_ready g0" "blocks_cut g0 calls segs g1" "edges_only g1 g" "distinct (gen_code g0)" "gen_code g = gen_code g0"
    "num_blocks g1 = length segs + 1" "gen_exit_block g = length segs" "IRNext g = IRNext g0"
    "i < length segs \<Longrightarrow> r \<in> set (segs ! i) \<Longrightarrow> gen_nodes g r = map_option (\<lambda>n. n\<lparr>ir_block := i\<rparr>) (gen_nodes g0 r)"
    "r \<in> set (gen_code g0) \<Longrightarrow> \<exists>n. gen_nodes g0 r = Some n" "r \<in> set (gen_code g0) \<Longrightarrow> r \<noteq> 0"
proof -
  show R: "build_ready g0" and C: "blocks_cut g0 calls segs g1" and E: "edges_only g1 g" using assms by (simp_all add: linking_def)
  show "distinct (gen_code g0)" "r \<in> set (gen_code g0) \<Longrightarrow> \<exists>n. gen_nodes g0 r = Some n" "r \<in> set (gen_code g0) \<Longrightarrow> r \<noteq> 0"
    using R by (auto simp: build_ready_def build_code_ok_def)
  show code: "gen_code g = gen_code g0" "num_blocks g1 = length segs + 1" "gen_exit_block g = length segs"
    using edges_onlyD(3,6) [OF E] blocks_cutD(4,6,7) [OF C] by simp_all
  show "IRNext g = IRNext g0" by (intro ext) (simp add: IRNext_def code)
  show "i < length segs \<Longrightarrow> r \<in> set (segs ! i) \<Longrightarrow> gen_nodes g r = map_option (\<lambda>n. n\<lparr>ir_block := i\<rparr>) (gen_nodes g0 r)"
    using blocks_cutD(8) [OF C] edges_onlyD(4) [OF E] by (simp add: cut_nodes_def)
qed

lemma block_of_segment:
  assumes L: "linking g0 calls segs g1 g" and i: "i < length segs" "r \<in> set (segs ! i)"
  shows "block_of g r = Some i"
proof -
  have r: "r \<in> set (gen_code g0)" using i by (auto simp flip: blocks_cutD(1) [OF linkingD(2) [OF L]])
  then obtain n where "gen_nodes g0 r = Some n" using linkingD(10) [OF L] by blast
  then show ?thesis using r linkingD(9) [OF L i] linkingD(5) [OF L] by (simp add: block_of_def)
qed

lemma block_of_iff:
  assumes L: "linking g0 calls segs g1 g"
  shows "block_of g r = Some v \<longleftrightarrow> v < length segs \<and> r \<in> set (segs ! v)"
proof
  assume b: "block_of g r = Some v"
  then have "r \<in> set (gen_code g0)" using linkingD(5) [OF L] by (simp add: block_of_def split: if_splits)
  then obtain i where i: "i < length segs" "r \<in> set (segs ! i)" using in_segment [OF blocks_cutD(1) [OF linkingD(2) [OF L]]] by blast
  then show "v < length segs \<and> r \<in> set (segs ! v)" using block_of_segment [OF L i] b by simp
qed (use block_of_segment [OF L] in blast)

lemma linking_add:
  assumes L: "linking g0 calls segs g1 g" and ab: "a < length segs" "b \<le> length segs"
  shows "linking g0 calls segs g1 (BasicBlockAddEdge a b g)" "edge_set (BasicBlockAddEdge a b g) = insert (a, b) (edge_set g)"
  using edges_add [OF linkingD(3) [OF L], of a b] ab linkingD(6) [OF L] L by (simp_all add: linking_def)

lemma link_table_walk:
  assumes "linking g0 calls segs g1 g" "u < length segs" "gen_code g0 = xs @ ys @ c # zs"
    "\<And>y. y \<in> set ys \<Longrightarrow> is_bra (gen_nodes g0) y" "\<not> is_bra (gen_nodes g0) c"
  shows "\<exists>g'. link_table u (first_or ys c) g = Some g' \<and> linking g0 calls segs g1 g' \<and>
    edge_set g' = edge_set g \<union> {(u, v) | v. \<exists>y \<in> set ys. block_of g1 y = Some v}"
  using assms
proof (induction ys arbitrary: xs g)
  case Nil
  note L = Nil.prems(1)
  have "c \<in> set (gen_code g0)" using Nil.prems(3) by simp
  then obtain i n where "i < length segs" "c \<in> set (segs ! i)" "gen_nodes g0 c = Some n"
    using in_segment [OF blocks_cutD(1) [OF linkingD(2) [OF L]]] linkingD(10) [OF L] by metis
  then have "gen_nodes g c = Some (n\<lparr>ir_block := i\<rparr>)" "ir_opcode n \<noteq> IR_bra" using linkingD(9) [OF L] Nil.prems(5) by (auto simp: is_bra_def)
  then show ?case using L by (subst link_table.simps) auto
next
  case (Cons y ys)
  note L = Cons.prems(1)
  obtain n where n: "gen_nodes g0 y = Some n" "ir_opcode n = IR_bra" using Cons.prems(4) [of y] by (auto simp: is_bra_def)
  have "y \<in> set (gen_code g0)" using Cons.prems(3) by simp
  then obtain i where i: "i < length segs" "y \<in> set (segs ! i)" using in_segment [OF blocks_cutD(1) [OF linkingD(2) [OF L]]] by blast
  have y: "gen_nodes g y = Some (n\<lparr>ir_block := i\<rparr>)" "block_of g y = Some i" using linkingD(9) [OF L i] n block_of_segment [OF L i] by simp_all
  have "y \<notin> set xs" using linkingD(4) [OF L] Cons.prems(3) by auto
  then have nxt: "IRNext g y = first_or ys c" unfolding IRNext_def linkingD(5) [OF L] Cons.prems(3) by simp
  note A = linking_add [OF L Cons.prems(2) less_imp_le [OF i(1)]]
  obtain g' where g': "link_table u (first_or ys c) (BasicBlockAddEdge u i g) = Some g'" "linking g0 calls segs g1 g'"
    "edge_set g' = edge_set (BasicBlockAddEdge u i g) \<union> {(u, v) | v. \<exists>y \<in> set ys. block_of g1 y = Some v}"
    using Cons.IH [OF A(1) Cons.prems(2), of "xs @ [y]"] Cons.prems(3-5) by auto
  have "block_of g1 y = Some i" using y(2) edges_onlyD(7) [OF linkingD(3) [OF L]] by simp
  then have "edge_set g' = edge_set g \<union> {(u, v) | v. \<exists>y \<in> set (y # ys). block_of g1 y = Some v}" using g'(3) A(2) by auto
  moreover have "link_table u (first_or (y # ys) c) g = Some g'" using y n nxt g'(1) by (subst link_table.simps) simp
  ultimately show ?case using g'(2) by blast
qed


definition branch_targets :: "generator \<Rightarrow> node_ref list list \<Rightarrow> node_ref \<Rightarrow> nat set" where
  "branch_targets g0 segs inst =
     (if is_return (gen_nodes g0) inst then {length segs}
      else {v. v < length segs \<and> (\<exists>r'. control_next g0 inst r' \<and> r' \<in> set (segs ! v))})"

lemma last_instruction:
  assumes L: "linking g0 calls segs g1 g" and u: "u < length segs"
  shows "last (segs ! u) \<in> set (segs ! u)" "last (segs ! u) \<in> set (gen_code g0)"
    "IRNext g0 (last (segs ! u)) = (if Suc u < length segs then hd (segs ! Suc u) else 0)"
    "Suc u = length segs \<Longrightarrow> last (segs ! u) = last (gen_code g0)"
    "table_after g0 (last (segs ! u)) = takeWhile (is_bra (gen_nodes g0)) (concat (drop (Suc u) segs))"
proof -
  note C = blocks_cutD [OF linkingD(2) [OF L]]
  have ne: "segs ! u \<noteq> []" using C(2) u by simp
  then show s: "last (segs ! u) \<in> set (segs ! u)" by simp
  then show "last (segs ! u) \<in> set (gen_code g0)" using u by (auto simp flip: C(1))
  show "IRNext g0 (last (segs ! u)) = (if Suc u < length segs then hd (segs ! Suc u) else 0)"
    "table_after g0 (last (segs ! u)) = takeWhile (is_bra (gen_nodes g0)) (concat (drop (Suc u) segs))"
    using next_last [OF linkingD(4) [OF L] C(1,2) u] by (simp_all add: table_after_def)
  show "last (segs ! u) = last (gen_code g0)" if "Suc u = length segs"
    using split_segments [OF u] that ne by (simp flip: C(1))
qed

text \<open>Every instruction control can go to has a block.\<close>

lemma next_block:
  assumes L: "linking g0 calls segs g1 g" and u: "Suc u < length segs"
  shows "block_of g (IRNext g0 (last (segs ! u))) = Some (Suc u)"
proof -
  have "segs ! Suc u \<noteq> []" using blocks_cutD(2) [OF linkingD(2) [OF L]] u by simp
  then show ?thesis using last_instruction(3) [OF L, of u] u by (simp add: block_of_segment [OF L u])
qed

lemma code_block:
  assumes L: "linking g0 calls segs g1 g" and r: "r \<in> set (gen_code g0)"
  obtains v where "v < length segs" "r \<in> set (segs ! v)" "block_of g r = Some v" "\<And>w. w < length segs \<Longrightarrow> r \<in> set (segs ! w) \<Longrightarrow> w = v"
proof -
  obtain v where v: "v < length segs" "r \<in> set (segs ! v)"
    using in_segment [OF blocks_cutD(1) [OF linkingD(2) [OF L]] r] by blast
  show thesis
  proof (rule that [OF v block_of_segment [OF L v]])
    show "w = v" if "w < length segs" "r \<in> set (segs ! w)" for w
      using block_of_segment [OF L that] block_of_segment [OF L v] by simp
  qed
qed

lemma not_last:
  assumes L: "linking g0 calls segs g1 g" and u: "u < length segs" and n: "gen_nodes g0 (last (segs ! u)) = Some n"
    "IRIsBranch n \<or> IRIsCall n"
  shows "Suc u < length segs"
proof (rule ccontr)
  assume "\<not> Suc u < length segs"
  then have "last (segs ! u) = last (gen_code g0)" using last_instruction(4) [OF L u] u by simp
  then show False using linkingD(1) [OF L] n by (auto simp: build_ready_def)
qed

lemma link_branch_table:
  assumes L: "linking g0 calls segs g1 g" and u: "u < length segs" and n: "gen_nodes g0 (last (segs ! u)) = Some n" "ir_opcode n = IR_cbra"
  shows "\<exists>g'. link_table u (IRNext g0 (last (segs ! u))) g = Some g' \<and> linking g0 calls segs g1 g' \<and>
    edge_set g' = edge_set g \<union> {u} \<times> {v. v < length segs \<and> (\<exists>r' \<in> set (table_after g0 (last (segs ! u))). r' \<in> set (segs ! v))}"
proof -
  let ?T = "table_after g0 (last (segs ! u))" and ?rest = "concat (drop (Suc u) segs)"
  note C = blocks_cutD [OF linkingD(2) [OF L]] and N = last_instruction [OF L u]
  have su: "Suc u < length segs" by (rule not_last [OF L u n(1)]) (simp add: IRIsBranch_def n(2))
  have T: "?T = takeWhile (is_bra (gen_nodes g0)) ?rest" by (rule N(5))
  have rest: "?rest \<noteq> []" using su C(2) by (auto simp: Cons_nth_drop_Suc [symmetric])
  have "last ?rest = last (gen_code g0)" using split_segments [OF u] rest by (simp flip: C(1))
  moreover have "\<not> is_bra (gen_nodes g0) (last (gen_code g0))"
    using linkingD(1) [OF L] by (auto simp: build_ready_def is_bra_def IRIsBranch_def)
  ultimately have "\<exists>x \<in> set ?rest. \<not> is_bra (gen_nodes g0) x" using rest last_in_set by metis
  then have "dropWhile (is_bra (gen_nodes g0)) ?rest \<noteq> []" by (auto simp: dropWhile_eq_Nil_conv)
  then obtain c zs where c: "dropWhile (is_bra (gen_nodes g0)) ?rest = c # zs" by (cases "dropWhile (is_bra (gen_nodes g0)) ?rest") auto
  then have nb: "\<not> is_bra (gen_nodes g0) c" by (metis hd_dropWhile list.distinct(1) list.sel(1))
  have split: "?rest = ?T @ c # zs" using takeWhile_dropWhile_id [of "is_bra (gen_nodes g0)" ?rest] c T by simp
  have code: "gen_code g0 = (concat (take u segs) @ segs ! u) @ ?T @ c # zs" using split_segments [OF u] split by (simp flip: C(1))
  have "IRNext g0 (last (segs ! u)) = first_or ?rest 0"
  proof -
    have "segs ! Suc u \<noteq> []" using su C(2) by simp
    then show ?thesis using N(3) su by (cases "segs ! Suc u") (simp_all add: Cons_nth_drop_Suc [symmetric])
  qed
  then have nxt: "IRNext g0 (last (segs ! u)) = first_or ?T c" using split by (cases ?T) simp_all
  have bras: "is_bra (gen_nodes g0) y" if "y \<in> set ?T" for y using that T by (metis set_takeWhileD)
  obtain g' where "link_table u (first_or ?T c) g = Some g'" "linking g0 calls segs g1 g'"
    "edge_set g' = edge_set g \<union> {(u, v) | v. \<exists>y \<in> set ?T. block_of g1 y = Some v}"
    using link_table_walk [OF L u code bras nb] by blast
  moreover have "block_of g1 y = Some v \<longleftrightarrow> v < length segs \<and> y \<in> set (segs ! v)" for y v
    using block_of_iff [OF L] edges_onlyD(7) [OF linkingD(3) [OF L]] by simp
  ultimately show ?thesis unfolding nxt by auto
qed

lemma targets_of:
  assumes "\<not> is_return (gen_nodes g0) r" "\<And>r'. control_next g0 r r' \<longleftrightarrow> r' \<in> R"
  shows "branch_targets g0 segs r = (\<Union>r' \<in> R. {w. w < length segs \<and> r' \<in> set (segs ! w)})"
  using assms by (auto simp: branch_targets_def)

lemma block_set:
  "linking g0 calls segs g1 g \<Longrightarrow> block_of g r = Some v \<Longrightarrow> {w. w < length segs \<and> r \<in> set (segs ! w)} = {v}"
proof -
  assume L: "linking g0 calls segs g1 g" and b: "block_of g r = Some v"
  have "w < length segs \<and> r \<in> set (segs ! w) \<longleftrightarrow> w = v" for w
    unfolding block_of_iff [OF L, symmetric] b by auto
  then show ?thesis by simp
qed

text \<open>What \<open>link_branch\<close> must do for the last instruction of block \<open>u\<close>.\<close>

definition links_branch :: "generator \<Rightarrow> bitset \<Rightarrow> node_ref list list \<Rightarrow> generator \<Rightarrow> generator \<Rightarrow> nat \<Rightarrow> bool" where
  "links_branch g0 calls segs g1 g u \<longleftrightarrow>
     (\<exists>g'. link_branch (last (segs ! u)) g = Some g' \<and> linking g0 calls segs g1 g' \<and>
       edge_set g' = edge_set g \<union> {u} \<times> branch_targets g0 segs (last (segs ! u)))"

lemma link_facts:
  assumes L: "linking g0 calls segs g1 g" and u: "u < length segs" and n: "gen_nodes g0 (last (segs ! u)) = Some n"
  shows "gen_nodes g (last (segs ! u)) = Some (n\<lparr>ir_block := u\<rparr>)" "block_of g (last (segs ! u)) = Some u"
    "IRIsConditionalBranch n \<Longrightarrow> 1 < length (ir_inputs n)" "IRIsConditionalBranch n \<Longrightarrow> ir_inputs n ! 1 \<in> set (gen_code g0)"
    "ir_opcode n = IR_bra \<Longrightarrow> 0 < length (ir_inputs n)" "ir_opcode n = IR_bra \<Longrightarrow> ir_inputs n ! 0 \<in> set (gen_code g0)"
    "is_return (gen_nodes g0) (last (segs ! u)) \<longleftrightarrow> IRIsReturn n"
proof -
  note N = last_instruction [OF L u]
  show "gen_nodes g (last (segs ! u)) = Some (n\<lparr>ir_block := u\<rparr>)" "block_of g (last (segs ! u)) = Some u"
    using linkingD(9) [OF L u N(1)] n block_of_segment [OF L u N(1)] by simp_all
  have "\<forall>r \<in> set (gen_code g0). \<forall>n. gen_nodes g0 r = Some n \<longrightarrow>
        (IRIsConditionalBranch n \<longrightarrow> 1 < length (ir_inputs n) \<and> ir_inputs n ! 1 \<in> set (gen_code g0) \<and> is_label (gen_nodes g0) (ir_inputs n ! 1)) \<and>
        (ir_opcode n = IR_bra \<longrightarrow> 0 < length (ir_inputs n) \<and> ir_inputs n ! 0 \<in> set (gen_code g0) \<and> is_label (gen_nodes g0) (ir_inputs n ! 0))"
    using linkingD(1) [OF L] unfolding build_ready_def by blast
  from bspec [OF this N(2)] n
  show "IRIsConditionalBranch n \<Longrightarrow> 1 < length (ir_inputs n)" "IRIsConditionalBranch n \<Longrightarrow> ir_inputs n ! 1 \<in> set (gen_code g0)"
    "ir_opcode n = IR_bra \<Longrightarrow> 0 < length (ir_inputs n)" "ir_opcode n = IR_bra \<Longrightarrow> ir_inputs n ! 0 \<in> set (gen_code g0)" by simp_all
qed (simp add: is_return_def n)

lemma link_cond:
  assumes L: "linking g0 calls segs g1 g" and u: "u < length segs" and n: "gen_nodes g0 (last (segs ! u)) = Some n"
    and c: "IRIsConditionalBranch n" "\<not> IRIsReturn n"
  shows "links_branch g0 calls segs g1 g u"
proof -
  let ?r = "last (segs ! u)"
  note F = link_facts [OF L u n]
  have su: "Suc u < length segs" by (rule not_last [OF L u n]) (use c in \<open>auto simp: IRIsBranch_def IRIsConditionalBranch_def\<close>)
  obtain v where v: "v < length segs" "block_of g (ir_inputs n ! 1) = Some v" using code_block [OF L F(4) [OF c(1)]] by metis
  note A = linking_add [OF L u less_imp_le [OF su]]
  note B = linking_add [OF A(1) u less_imp_le [OF v(1)]]
  have "branch_targets g0 segs ?r = (\<Union>r' \<in> {IRNext g0 ?r, ir_inputs n ! 1}. {w. w < length segs \<and> r' \<in> set (segs ! w)})"
    by (rule targets_of) (use c F(7) n in \<open>simp_all add: control_next_def\<close>)
  also have "\<dots> = {Suc u, v}" using block_set [OF L v(2)] block_set [OF L next_block [OF L su]] by auto
  finally have "branch_targets g0 segs ?r = {Suc u, v}" .
  moreover have "link_branch ?r g = Some (BasicBlockAddEdge u v (BasicBlockAddEdge u (Suc u) g))"
    using F(1,2) F(3) [OF c(1)] c v(2) next_block [OF L su] linkingD(8) [OF L] by (simp add: link_branch_def input_at_def)
  ultimately show ?thesis unfolding links_branch_def using A(2) B by auto
qed

lemma link_bra:
  assumes L: "linking g0 calls segs g1 g" and u: "u < length segs" and n: "gen_nodes g0 (last (segs ! u)) = Some n"
    and c: "ir_opcode n = IR_bra" "\<not> IRIsConditionalBranch n" "\<not> IRIsReturn n" "\<not> IRIsCall n" "ir_opcode n \<noteq> IR_cbra"
  shows "links_branch g0 calls segs g1 g u"
proof -
  let ?r = "last (segs ! u)"
  note F = link_facts [OF L u n]
  obtain v where v: "v < length segs" "block_of g (ir_inputs n ! 0) = Some v" using code_block [OF L F(6) [OF c(1)]] by metis
  have "branch_targets g0 segs ?r = (\<Union>r' \<in> {ir_inputs n ! 0}. {w. w < length segs \<and> r' \<in> set (segs ! w)})"
    by (rule targets_of) (use c F(7) n in \<open>simp_all add: control_next_def\<close>)
  also have "\<dots> = {v}" using block_set [OF L v(2)] by simp
  finally have "branch_targets g0 segs ?r = {v}" .
  moreover have "link_branch ?r g = Some (BasicBlockAddEdge u v g)"
    using F(1,2) F(5) [OF c(1)] c v(2) by (simp add: link_branch_def input_at_def)
  ultimately show ?thesis unfolding links_branch_def using linking_add [OF L u less_imp_le [OF v(1)]] by auto
qed

lemma link_call:
  assumes L: "linking g0 calls segs g1 g" and u: "u < length segs" and n: "gen_nodes g0 (last (segs ! u)) = Some n"
    and c: "IRIsCall n" "\<not> IRIsConditionalBranch n" "\<not> IRIsReturn n" "ir_opcode n \<noteq> IR_cbra" "ir_opcode n \<noteq> IR_bra"
  shows "links_branch g0 calls segs g1 g u"
proof -
  let ?r = "last (segs ! u)"
  note F = link_facts [OF L u n]
  have su: "Suc u < length segs" by (rule not_last [OF L u n]) (use c in simp)
  have "IRNext g0 ?r \<in> set (gen_code g0)"
    using next_block [OF L su] linkingD(5) [OF L] by (simp add: block_of_def split: if_splits)
  then have ne: "IRNext g0 ?r \<noteq> 0" by (rule linkingD(11) [OF L])
  have "branch_targets g0 segs ?r = (\<Union>r' \<in> {IRNext g0 ?r}. {w. w < length segs \<and> r' \<in> set (segs ! w)})"
    by (rule targets_of) (use c F(7) n ne in \<open>simp_all add: control_next_def\<close>)
  also have "\<dots> = {Suc u}" using block_set [OF L next_block [OF L su]] by simp
  finally have "branch_targets g0 segs ?r = {Suc u}" .
  moreover have "link_branch ?r g = Some (BasicBlockAddEdge u (Suc u) g)"
    using F(1,2) c next_block [OF L su] linkingD(8) [OF L] by (simp add: link_branch_def)
  ultimately show ?thesis unfolding links_branch_def using linking_add [OF L u less_imp_le [OF su]] by auto
qed

lemma link_branch_spec:
  assumes L: "linking g0 calls segs g1 g" and u: "u < length segs" and r: "is_end (gen_nodes g0) calls (last (segs ! u))"
  shows "links_branch g0 calls segs g1 g u"
proof -
  let ?r = "last (segs ! u)"
  obtain n where n: "gen_nodes g0 ?r = Some n" "ends_block calls n" using r by (auto simp: is_end_def)
  note F = link_facts [OF L u n(1)]
  note classes = IRIsConditionalBranch_def IRIsReturn_def IRIsCall_def IR_btrue_def IR_bfalse_def IR_bra_def IR_cbra_def IR_ret_def IR_calla_def
  consider (cond) "IRIsConditionalBranch n" "\<not> IRIsReturn n" | (table) "ir_opcode n = IR_cbra" "\<not> IRIsConditionalBranch n" "\<not> IRIsReturn n"
    | (ret) "IRIsReturn n" "\<not> IRIsConditionalBranch n" "ir_opcode n \<noteq> IR_cbra"
    | (call) "IRIsCall n" "\<not> IRIsConditionalBranch n" "\<not> IRIsReturn n" "ir_opcode n \<noteq> IR_cbra" "ir_opcode n \<noteq> IR_bra"
    | (bra) "ir_opcode n = IR_bra" "\<not> IRIsConditionalBranch n" "\<not> IRIsReturn n" "\<not> IRIsCall n" "ir_opcode n \<noteq> IR_cbra"
    using n(2) by (auto simp: ends_block_def IRIsBranch_def classes)
  then show ?thesis
  proof cases
    case table
    have "branch_targets g0 segs ?r = (\<Union>r' \<in> set (table_after g0 ?r). {w. w < length segs \<and> r' \<in> set (segs ! w)})"
      by (rule targets_of) (use table F(7) n(1) in \<open>simp_all add: control_next_def\<close>)
    then have "branch_targets g0 segs ?r = {v. v < length segs \<and> (\<exists>r' \<in> set (table_after g0 ?r). r' \<in> set (segs ! v))}" by auto
    moreover have "link_branch ?r g = link_table u (IRNext g0 ?r) g"
      using F(1,2) table linkingD(8) [OF L] by (simp add: link_branch_def)
    ultimately show ?thesis unfolding links_branch_def using link_branch_table [OF L u n(1) table(1)] by simp
  next
    case ret
    have "branch_targets g0 segs ?r = {length segs}" using ret F(7) by (simp add: branch_targets_def)
    moreover have "link_branch ?r g = Some (BasicBlockAddEdge u (length segs) g)"
      using F(1,2) ret linkingD(7) [OF L] by (simp add: link_branch_def)
    ultimately show ?thesis unfolding links_branch_def using linking_add [OF L u order_refl] by auto
  qed (use link_cond [OF L u n(1)] link_call [OF L u n(1)] link_bra [OF L u n(1)] in blast)+
qed


section \<open>The loops over branches and blocks\<close>

lemma last_unique:
  assumes L: "linking g0 calls segs g1 g" and u: "u < length segs" "v < length segs" "last (segs ! u) = last (segs ! v)"
  shows "u = v"
proof -
  have "block_of g (last (segs ! u)) = Some u" "block_of g (last (segs ! v)) = Some v"
    by (rule block_of_segment [OF L u(1) last_instruction(1) [OF L u(1)]], rule block_of_segment [OF L u(2) last_instruction(1) [OF L u(2)]])
  then show ?thesis unfolding u(3) by (metis option.inject)
qed

lemma BuildBasicBlockGraph_spec:
  assumes "linking g0 calls segs g1 g" "set insts \<subseteq> {last (segs ! u) | u. u < length segs \<and> is_end (gen_nodes g0) calls (last (segs ! u))}"
  shows "\<exists>g'. BuildBasicBlockGraph insts g = Some g' \<and> linking g0 calls segs g1 g' \<and>
    edge_set g' = edge_set g \<union> {(u, v). u < length segs \<and> last (segs ! u) \<in> set insts \<and> v \<in> branch_targets g0 segs (last (segs ! u))}"
  using assms
proof (induction insts arbitrary: g)
  case (Cons r rs)
  note L = Cons.prems(1)
  obtain u where u: "u < length segs" "r = last (segs ! u)" "is_end (gen_nodes g0) calls (last (segs ! u))" using Cons.prems(2) by auto
  obtain g2 where g2: "link_branch r g = Some g2" "linking g0 calls segs g1 g2"
    "edge_set g2 = edge_set g \<union> {u} \<times> branch_targets g0 segs (last (segs ! u))"
    using link_branch_spec [OF L u(1,3)] u(2) by (auto simp: links_branch_def)
  obtain g3 where g3: "BuildBasicBlockGraph rs g2 = Some g3" "linking g0 calls segs g1 g3"
    "edge_set g3 = edge_set g2 \<union> {(u, v). u < length segs \<and> last (segs ! u) \<in> set rs \<and> v \<in> branch_targets g0 segs (last (segs ! u))}"
    using Cons.IH [OF g2(2)] Cons.prems(2) by auto
  have "{(w, v). w < length segs \<and> last (segs ! w) = r \<and> v \<in> branch_targets g0 segs (last (segs ! w))} =
      {u} \<times> branch_targets g0 segs (last (segs ! u))"
  proof -
    have "w < length segs \<and> last (segs ! w) = r \<longleftrightarrow> w = u" for w
    proof
      assume "w < length segs \<and> last (segs ! w) = r"
      then show "w = u" using last_unique [OF L _ u(1), of w] u(2) by blast
    qed (use u(1,2) in simp)
    then have "w < length segs \<and> last (segs ! w) = r \<and> v \<in> branch_targets g0 segs (last (segs ! w)) \<longleftrightarrow>
        w = u \<and> v \<in> branch_targets g0 segs (last (segs ! w))" for w v by blast
    then show ?thesis by auto
  qed
  moreover have "{(u, v). u < length segs \<and> last (segs ! u) \<in> set (r # rs) \<and> v \<in> branch_targets g0 segs (last (segs ! u))} =
      {(w, v). w < length segs \<and> last (segs ! w) = r \<and> v \<in> branch_targets g0 segs (last (segs ! w))} \<union>
      {(u, v). u < length segs \<and> last (segs ! u) \<in> set rs \<and> v \<in> branch_targets g0 segs (last (segs ! u))}" by auto
  ultimately have "edge_set g3 = edge_set g \<union> {(u, v). u < length segs \<and> last (segs ! u) \<in> set (r # rs) \<and> v \<in> branch_targets g0 segs (last (segs ! u))}"
    unfolding g3(3) g2(3) by (simp only: Un_assoc)
  then show ?case using g2(1) g3(1,2) by simp
qed auto

text \<open>What is missing of the edges of a block, given those it has.\<close>

definition missing_targets :: "generator \<Rightarrow> bitset \<Rightarrow> node_ref list list \<Rightarrow> (nat \<times> nat) set \<Rightarrow> nat \<Rightarrow> nat set" where
  "missing_targets g0 calls segs E i =
     (if is_end (gen_nodes g0) calls (last (segs ! i)) then (if \<exists>v. (i, v) \<in> E then {} else {length segs}) else {Suc i})"

lemma missing_links_spec:
  assumes L: "linking g0 calls segs g1 g" and i: "i < length segs"
  shows "\<exists>g'. missing_links calls i g = Some g' \<and> linking g0 calls segs g1 g' \<and>
    edge_set g' = edge_set g \<union> {i} \<times> missing_targets g0 calls segs (edge_set g) i"
proof -
  note C = blocks_cutD [OF linkingD(2) [OF L]] and E = edges_onlyD [OF linkingD(3) [OF L]] and N = last_instruction [OF L i]
  have i1: "i < num_blocks g1" using i C(7) by simp
  have b: "bb_end_code (block_at g i) = last (segs ! i)" "bb_id (block_at g i) = i"
    using C(9) [OF i] arg_cong [OF E(8) [OF i1], of bb_end_code] flow_okD(2) [OF E(1), of i] i1 E(2) by (simp_all add: closed_block_def)
  obtain n where n: "gen_nodes g0 (last (segs ! i)) = Some n" using linkingD(10) [OF L N(2)] by blast
  have nz: "last (segs ! i) \<noteq> 0" by (rule linkingD(11) [OF L N(2)])
  have through: "falls_through calls i g = Some (\<not> is_end (gen_nodes g0) calls (last (segs ! i)))"
    using nz b(1) n linkingD(9) [OF L i N(1)] by (simp add: falls_through_def is_end_def)
  have "i \<noteq> gen_exit_block g" using i linkingD(7) [OF L] by simp
  then have run: "missing_links calls i g =
      (let g1 = (if \<not> is_end (gen_nodes g0) calls (last (segs ! i)) then BasicBlockAddEdge i (Suc i) g else g)
       in Some (if bb_out_edges (block_at g1 i) = [] then BasicBlockAddEdge i (gen_exit_block g1) g1 else g1))"
    using through b(2) by (simp add: missing_links_def)
  show ?thesis
  proof (cases "is_end (gen_nodes g0) calls (last (segs ! i))")
    case True
    show ?thesis
    proof (cases "\<exists>v. (i, v) \<in> edge_set g")
      case e: True
      then have "bb_out_edges (block_at g i) \<noteq> []" using no_edges [OF linkingD(3) [OF L] i1] by simp
      then show ?thesis using run True e L by (simp add: missing_targets_def)
    next
      case e: False
      then have "bb_out_edges (block_at g i) = []" using no_edges [OF linkingD(3) [OF L] i1] by simp
      then have "missing_links calls i g = Some (BasicBlockAddEdge i (length segs) g)" using run True linkingD(7) [OF L] by simp
      then show ?thesis using True e linking_add [OF L i order_refl] by (simp add: missing_targets_def)
    qed
  next
    case False
    note A = linking_add [OF L i, of "Suc i"]
    have "bb_out_edges (block_at (BasicBlockAddEdge i (Suc i) g) i) \<noteq> []"
      using no_edges [OF linkingD(3) [OF A(1)] i1] A(2) i by auto
    then have "missing_links calls i g = Some (BasicBlockAddEdge i (Suc i) g)" using run False by simp
    then show ?thesis using A i False by (simp add: missing_targets_def)
  qed
qed

lemma missing_all_spec:
  assumes "linking g0 calls segs g1 g" "distinct is" "set is \<subseteq> {..length segs}"
  shows "\<exists>g'. missing_all calls is g = Some g' \<and> linking g0 calls segs g1 g' \<and>
    edge_set g' = edge_set g \<union> {(i, v). i \<in> set is \<and> i < length segs \<and> v \<in> missing_targets g0 calls segs (edge_set g) i}"
  using assms
proof (induction "is" arbitrary: g)
  case (Cons i "is")
  note L = Cons.prems(1)
  obtain g2 where g2: "missing_links calls i g = Some g2" "linking g0 calls segs g1 g2"
    "edge_set g2 = edge_set g \<union> (if i < length segs then {i} \<times> missing_targets g0 calls segs (edge_set g) i else {})"
  proof (cases "i < length segs")
    case True
    then show ?thesis using missing_links_spec [OF L True] that by auto
  next
    case False
    then have "i = gen_exit_block g" using Cons.prems(3) linkingD(7) [OF L] by simp
    then show ?thesis using that [of g] L False by (simp add: missing_links_def)
  qed
  obtain g3 where g3: "missing_all calls is g2 = Some g3" "linking g0 calls segs g1 g3"
    "edge_set g3 = edge_set g2 \<union> {(i, v). i \<in> set is \<and> i < length segs \<and> v \<in> missing_targets g0 calls segs (edge_set g2) i}"
    using Cons.IH [OF g2(2)] Cons.prems(2,3) by auto
  have "missing_targets g0 calls segs (edge_set g2) j = missing_targets g0 calls segs (edge_set g) j" if "j \<in> set is" for j
  proof -
    have "(j, v) \<in> edge_set g2 \<longleftrightarrow> (j, v) \<in> edge_set g" for v using g2(3) that Cons.prems(2) by (auto split: if_splits)
    then show ?thesis by (simp add: missing_targets_def)
  qed
  then have "edge_set g3 = edge_set g \<union> {(j, v). j \<in> set (i # is) \<and> j < length segs \<and> v \<in> missing_targets g0 calls segs (edge_set g) j}"
    unfolding g3(3) using g2(3) by (auto split: if_splits)
  then show ?case using g2(1) g3(1,2) by simp
qed auto


end
