(* ===== verification/CfgGraph.thy ===== *)
theory CfgGraph
  imports CfgEdges
begin

text \<open>
  The whole graph: protected regions, the edges in terms of the control flow, and what the
  landing pads add.
\<close>

section \<open>Protected regions\<close>

definition is_call :: "ir_store \<Rightarrow> node_ref \<Rightarrow> bool" where
  "is_call h r \<longleftrightarrow> (\<exists>n. h r = Some n \<and> IRIsCall n)"

text \<open>The calls from the start to the end of a region, when the end follows the start.\<close>

definition region :: "generator \<Rightarrow> exception_range \<Rightarrow> node_ref list" where
  "region g r =
     (let after = dropWhile (\<lambda>x. x \<noteq> er_try_start r) (gen_code g)
      in if er_try_end r \<in> set after then filter (is_call (gen_nodes g)) (takeWhile (\<lambda>x. x \<noteq> er_try_end r) after) else [])"

definition call_ids :: "generator \<Rightarrow> node_ref list \<Rightarrow> nat set" where
  "call_ids g insts = (\<lambda>i. node_index (the (gen_nodes g i))) ` set insts"

definition range_ids :: "generator \<Rightarrow> exception_range list \<Rightarrow> nat set" where
  "range_ids g rs = (\<Union>r \<in> {r \<in> set rs. er_try_start r \<noteq> 0 \<and> er_try_end r \<noteq> 0}. call_ids g (region g r))"

definition protected_calls :: "generator \<Rightarrow> nat set" where
  "protected_calls g = range_ids g (gen_exception_ranges g)"

text \<open>What the walks need: the instructions are there, and each once.\<close>

definition code_there :: "generator \<Rightarrow> bool" where
  "code_there g \<longleftrightarrow> distinct (gen_code g) \<and> (\<forall>r \<in> set (gen_code g). r \<noteq> 0 \<and> r \<in> dom (gen_nodes g))"

lemma region_walk:
  assumes c: "code_there g"
  shows "gen_code g = xs @ ys \<Longrightarrow> region_bounded g (first_or ys 0) e = Some (e \<in> set ys) \<and>
    (e \<in> set ys \<longrightarrow> region_calls g (first_or ys 0) e = Some (filter (is_call (gen_nodes g)) (takeWhile (\<lambda>x. x \<noteq> e) ys)))"
proof (induction ys arbitrary: xs)
  case Nil
  show ?case by (subst region_bounded.simps) simp
next
  case (Cons y ys)
  have y: "y \<noteq> 0" "y \<notin> set xs" using c Cons.prems by (auto simp: code_there_def)
  obtain n where n: "gen_nodes g y = Some n" using c Cons.prems by (auto simp: code_there_def)
  have nxt: "IRNext g y = first_or ys 0" unfolding IRNext_def Cons.prems using y(2) by simp
  have IH: "region_bounded g (first_or ys 0) e = Some (e \<in> set ys)"
    "e \<in> set ys \<Longrightarrow> region_calls g (first_or ys 0) e = Some (filter (is_call (gen_nodes g)) (takeWhile (\<lambda>x. x \<noteq> e) ys))"
    using Cons.IH [of "xs @ [y]"] Cons.prems by simp_all
  have "region_bounded g y e = Some (e \<in> set (y # ys))" by (subst region_bounded.simps) (auto simp: y(1) nxt IH(1))
  moreover have "region_calls g y e = Some (filter (is_call (gen_nodes g)) (takeWhile (\<lambda>x. x \<noteq> e) (y # ys)))" if "e \<in> set (y # ys)"
    using that by (subst region_calls.simps) (auto simp: n nxt IH(2) is_call_def)
  ultimately show ?case by simp
qed

lemma range_calls_spec:
  assumes c: "code_there g"
  shows "range_calls g r = Some (region g r)"
proof (cases "er_try_start r \<in> set (gen_code g)")
  case True
  then obtain xs ys where code: "gen_code g = xs @ er_try_start r # ys" "er_try_start r \<notin> set xs" by (meson split_list_first)
  have "dropWhile (\<lambda>x. x \<noteq> er_try_start r) (xs @ er_try_start r # ys) = er_try_start r # ys" using code(2) by (induction xs) auto
  then have "dropWhile (\<lambda>x. x \<noteq> er_try_start r) (gen_code g) = er_try_start r # ys" using code(1) by simp
  then show ?thesis using region_walk [OF c code(1), of "er_try_end r"] by (auto simp: range_calls_def region_def)
next
  case False
  then have d: "dropWhile (\<lambda>x. x \<noteq> er_try_start r) (gen_code g) = []" by (auto simp: dropWhile_eq_Nil_conv)
  have none: "region g r = []" unfolding region_def Let_def d by simp
  have "a \<notin> set xs \<Longrightarrow> next_in xs a = 0" for a xs by (induction xs) auto
  from this [OF False] have nxt: "IRNext g (er_try_start r) = 0" by (simp add: IRNext_def)
  have "region_bounded g 0 e = Some False" for e by (subst region_bounded.simps) simp
  then have "region_bounded g (er_try_start r) (er_try_end r) = Some (er_try_start r \<noteq> 0 \<and> er_try_start r = er_try_end r)"
    by (subst region_bounded.simps) (simp add: nxt)
  moreover have "region_calls g e e = Some []" for e by (subst region_calls.simps) simp
  ultimately show ?thesis using none by (auto simp: range_calls_def)
qed

lemma region_in_code: "inst \<in> set (region g r) \<Longrightarrow> inst \<in> set (gen_code g)"
  by (auto simp: region_def Let_def split: if_splits dest!: set_takeWhileD set_dropWhileD)

lemma mark_calls_spec:
  assumes "bs_ok s" "\<And>i. i \<in> set insts \<Longrightarrow> i \<in> dom (gen_nodes g)"
  shows "\<exists>s'. mark_calls g insts s = Some s' \<and> bs_ok s' \<and> bs_set s' = bs_set s \<union> call_ids g insts"
  using assms
proof (induction insts arbitrary: s)
  case (Cons i "is")
  obtain n where n: "gen_nodes g i = Some n" using Cons.prems(2) [of i] by auto
  note B = BitSetInsert_spec [OF Cons.prems(1), of "node_index n"]
  from Cons.IH [of "BitSetInsert s (node_index n)"] obtain s' where "mark_calls g is (BitSetInsert s (node_index n)) = Some s'" "bs_ok s'"
    "bs_set s' = insert (node_index n) (bs_set s) \<union> call_ids g is" using B Cons.prems(2) by auto
  then show ?case using n by (auto simp: call_ids_def)
qed (simp add: call_ids_def)

lemma range_ids_Cons:
  "range_ids g (r # rs) = (if er_try_start r = 0 \<or> er_try_end r = 0 then {} else call_ids g (region g r)) \<union> range_ids g rs"
  by (auto simp: range_ids_def)

lemma mark_ranges_spec:
  assumes c: "code_there g" and s: "bs_ok s"
  shows "\<exists>s'. mark_ranges g rs s = Some s' \<and> bs_ok s' \<and> bs_set s' = bs_set s \<union> range_ids g rs"
  using s
proof (induction rs arbitrary: s)
  case Nil
  then show ?case by (simp add: range_ids_def)
next
  case (Cons r rs)
  show ?case
  proof (cases "er_try_start r = 0 \<or> er_try_end r = 0")
    case True
    then show ?thesis using Cons.IH [OF Cons.prems] by (auto simp: range_ids_Cons)
  next
    case False
    have "i \<in> dom (gen_nodes g)" if "i \<in> set (region g r)" for i
      using region_in_code [OF that] c by (simp add: code_there_def)
    then obtain s1 where s1: "mark_calls g (region g r) s = Some s1" "bs_ok s1" "bs_set s1 = bs_set s \<union> call_ids g (region g r)"
      using mark_calls_spec [OF Cons.prems, of "region g r" g] by blast
    then show ?thesis using Cons.IH [OF s1(2)] False range_calls_spec [OF c, of r] by (simp add: range_ids_Cons Un_assoc)
  qed
qed

lemma FindExceptionCallBoundaries_spec:
  assumes "code_there g"
  shows "\<exists>s. FindExceptionCallBoundaries g BitSetInit = Some s \<and> bs_ok s \<and> bs_set s = protected_calls g"
  using mark_ranges_spec [OF assms, of BitSetInit "gen_exception_ranges g"]
  by (simp add: FindExceptionCallBoundaries_def protected_calls_def)

section \<open>Edges and control\<close>

text \<open>Control goes from the end of a segment to the start of a segment, never to the entry.\<close>

lemma target_head:
  assumes L: "linking g0 calls segs g1 g" and u: "u < length segs" and c: "control_next g0 (last (segs ! u)) r'"
  shows "\<exists>v < length segs. 0 < v \<and> r' = hd (segs ! v)"
proof -
  let ?r = "last (segs ! u)"
  note C = blocks_cutD [OF linkingD(2) [OF L]] and N = last_instruction [OF L u]
  obtain n where n: "gen_nodes g0 ?r = Some n" using linkingD(10) [OF L N(2)] by blast
  have label: "\<exists>v < length segs. 0 < v \<and> x = hd (segs ! v)" if x: "x \<in> set (gen_code g0)" "is_label (gen_nodes g0) x" for x
  proof -
    obtain v where v: "v < length segs" "x \<in> set (segs ! v)" using in_segment [OF C(1) x(1)] by blast
    have h: "x = hd (segs ! v)" using segment_ends(1) [OF C(3) v(2) x(2)] v(1) by simp
    have "v \<noteq> 0"
    proof
      assume "v = 0"
      then have "x = hd (gen_code g0)" using h v C(1) [symmetric] C(2) [of "segs ! 0"] by (cases segs) auto
      then show False using linkingD(1) [OF L] x(2) by (simp add: build_ready_def)
    qed
    then show ?thesis using v(1) h by blast
  qed
  have next_ok: "\<exists>v < length segs. 0 < v \<and> IRNext g0 ?r = hd (segs ! v)" if "IRNext g0 ?r \<noteq> 0"
    using that N(3) by (intro exI [of _ "Suc u"]) (simp split: if_splits)
  have ready: "IRIsConditionalBranch n \<longrightarrow> ir_inputs n ! 1 \<in> set (gen_code g0) \<and> is_label (gen_nodes g0) (ir_inputs n ! 1)"
    "ir_opcode n = IR_bra \<longrightarrow> ir_inputs n ! 0 \<in> set (gen_code g0) \<and> is_label (gen_nodes g0) (ir_inputs n ! 0)"
    using linkingD(1) [OF L] N(2) n unfolding build_ready_def by blast+
  have "r' = IRNext g0 ?r \<and> IRNext g0 ?r \<noteq> 0 \<or> IRIsConditionalBranch n \<and> r' = ir_inputs n ! 1 \<or>
      ir_opcode n = IR_bra \<and> r' = ir_inputs n ! 0 \<or> r' \<in> set (table_after g0 ?r)"
  proof (cases "IRIsConditionalBranch n")
    case True
    have su: "Suc u < length segs" by (rule not_last [OF L u n]) (use True in \<open>auto simp: IRIsBranch_def IRIsConditionalBranch_def\<close>)
    have "IRNext g0 ?r \<in> set (gen_code g0)"
      using next_block [OF L su] linkingD(5) [OF L] by (simp add: block_of_def split: if_splits)
    then show ?thesis using c n True linkingD(11) [OF L] by (auto simp: control_next_def)
  qed (use c n in \<open>auto simp: control_next_def split: if_splits\<close>)
  then show ?thesis
  proof (elim disjE conjE)
    assume "r' \<in> set (table_after g0 ?r)"
    then have "r' \<in> set (takeWhile (is_bra (gen_nodes g0)) (concat (drop (Suc u) segs)))" using N(5) by simp
    then obtain k where "k < length (drop (Suc u) segs)" "r' = hd (drop (Suc u) segs ! k)"
      using bra_run_heads [of "drop (Suc u) segs" "gen_nodes g0" calls r'] C(2,3) in_set_dropD by metis
    then show ?thesis by (intro exI [of _ "Suc u + k"]) auto
  qed (use next_ok label ready in blast)+
qed

lemma head_unique:
  assumes L: "linking g0 calls segs g1 g" and v: "v < length segs" "w < length segs" "hd (segs ! v) \<in> set (segs ! w)"
  shows "w = v"
proof -
  have "segs ! v \<noteq> []" using blocks_cutD(2) [OF linkingD(2) [OF L]] v(1) by simp
  then have "block_of g (hd (segs ! v)) = Some v" using block_of_segment [OF L v(1)] by simp
  then show ?thesis using block_of_segment [OF L v(2,3)] by simp
qed

lemma branch_targets_heads:
  assumes L: "linking g0 calls segs g1 g" and u: "u < length segs" and r: "\<not> is_return (gen_nodes g0) (last (segs ! u))"
  shows "branch_targets g0 segs (last (segs ! u)) = {v. v < length segs \<and> control_next g0 (last (segs ! u)) (hd (segs ! v))}"
proof -
  have "(\<exists>r'. control_next g0 (last (segs ! u)) r' \<and> r' \<in> set (segs ! v)) \<longleftrightarrow> control_next g0 (last (segs ! u)) (hd (segs ! v))"
    if v: "v < length segs" for v
  proof
    assume "\<exists>r'. control_next g0 (last (segs ! u)) r' \<and> r' \<in> set (segs ! v)"
    then obtain r' where r': "control_next g0 (last (segs ! u)) r'" "r' \<in> set (segs ! v)" by blast
    obtain w where "w < length segs" "r' = hd (segs ! w)" using target_head [OF L u r'(1)] by blast
    then show "control_next g0 (last (segs ! u)) (hd (segs ! v))" using head_unique [OF L _ v] r' by metis
  next
    assume "control_next g0 (last (segs ! u)) (hd (segs ! v))"
    moreover have "segs ! v \<noteq> []" using blocks_cutD(2) [OF linkingD(2) [OF L]] v by simp
    ultimately show "\<exists>r'. control_next g0 (last (segs ! u)) r' \<and> r' \<in> set (segs ! v)" using hd_in_set by metis
  qed
  then show ?thesis using r by (auto simp: branch_targets_def)
qed

text \<open>The successors of a block by the control flow: the exit block when control goes nowhere.\<close>

definition block_targets :: "generator \<Rightarrow> node_ref list list \<Rightarrow> nat \<Rightarrow> nat set" where
  "block_targets g segs u =
     (if \<exists>r'. control_next g (last (segs ! u)) r' then {v. v < length segs \<and> control_next g (last (segs ! u)) (hd (segs ! v))}
      else {length segs})"

lemma plain_targets:
  assumes L: "linking g0 calls segs g1 g" and u: "u < length segs" and e: "\<not> is_end (gen_nodes g0) calls (last (segs ! u))"
  shows "block_targets g0 segs u = {Suc u}"
proof -
  let ?r = "last (segs ! u)"
  note N = last_instruction [OF L u]
  obtain n where n: "gen_nodes g0 ?r = Some n" using linkingD(10) [OF L N(2)] by blast
  have "\<not> ends_block calls n" using e n by (simp add: is_end_def)
  then have ctl: "control_next g0 ?r r' \<longleftrightarrow> IRNext g0 ?r \<noteq> 0 \<and> r' = IRNext g0 ?r" for r'
    using n by (auto simp: control_next_def ends_block_def IRIsBranch_def IRIsConditionalBranch_def)
  show ?thesis
  proof (cases "Suc u < length segs")
    case True
    have "IRNext g0 ?r \<in> set (gen_code g0)"
      using next_block [OF L True] linkingD(5) [OF L] by (simp add: block_of_def split: if_splits)
    then have nz: "IRNext g0 ?r \<noteq> 0" by (rule linkingD(11) [OF L])
    have "hd (segs ! v) = hd (segs ! Suc u) \<longleftrightarrow> v = Suc u" if "v < length segs" for v
    proof
      assume h: "hd (segs ! v) = hd (segs ! Suc u)"
      have "segs ! Suc u \<noteq> []" using blocks_cutD(2) [OF linkingD(2) [OF L]] True by simp
      then have "hd (segs ! v) \<in> set (segs ! Suc u)" using h by simp
      then show "v = Suc u" using head_unique [OF L that True] by simp
    qed simp
    then show ?thesis using True nz N(3) by (auto simp: block_targets_def ctl)
  next
    case False
    then show ?thesis using u N(3) by (simp add: block_targets_def ctl)
  qed
qed

lemma end_targets:
  assumes L: "linking g0 calls segs g1 g" and u: "u < length segs"
  shows "block_targets g0 segs u =
    (if branch_targets g0 segs (last (segs ! u)) = {} then {length segs} else branch_targets g0 segs (last (segs ! u)))"
proof (cases "is_return (gen_nodes g0) (last (segs ! u))")
  case True
  then have "\<not> control_next g0 (last (segs ! u)) r'" for r'
    by (auto simp: is_return_def control_next_def IRIsReturn_def IRIsConditionalBranch_def IR_ret_def IR_btrue_def IR_bfalse_def IR_cbra_def)
  then show ?thesis using True by (simp add: block_targets_def branch_targets_def)
next
  case False
  then show ?thesis
    using target_head [OF L u] unfolding branch_targets_heads [OF L u False] by (auto simp: block_targets_def)
qed

section \<open>The graph\<close>

lemma cut_flow_ok:
  assumes "blocks_cut g0 calls segs g1"
  shows "edges_only g1 g1" "edge_set g1 = {}"
proof -
  note C = blocks_cutD [OF assms]
  have at: "block_at g1 i = (NewBasicBlock i)\<lparr>bb_code := bb_code (block_at g1 i), bb_end_code := bb_end_code (block_at g1 i),
      bb_defined_vars := bb_defined_vars (block_at g1 i), bb_referenced_vars := bb_referenced_vars (block_at g1 i),
      bb_num_calls := bb_num_calls (block_at g1 i), bb_return_block := bb_return_block (block_at g1 i)\<rparr>" if "i < num_blocks g1" for i
  proof (cases "i < length segs")
    case True
    then have "block_shape (gen_nodes g0) i (hd (segs ! i)) (segs ! i) (block_at g1 i)" using C(9) by (simp add: closed_block_def)
    then have e: "block_at g1 i = (NewBasicBlock i)\<lparr>bb_code := hd (segs ! i), bb_end_code := bb_end_code (block_at g1 i),
      bb_defined_vars := bb_defined_vars (block_at g1 i), bb_referenced_vars := bb_referenced_vars (block_at g1 i),
      bb_num_calls := bb_num_calls (block_at g1 i), bb_return_block := bb_return_block (block_at g1 i)\<rparr>"
      by (simp add: block_shape_def)
    from arg_cong [OF e, of bb_code] have "bb_code (block_at g1 i) = hd (segs ! i)" by simp
    then show ?thesis using e by simp
  next
    case False
    then have "i = length segs" using that C(7) by simp
    then show ?thesis using C(10) by simp
  qed
  have F: "bb_id (block_at g1 i) = i" "bb_out_edges (block_at g1 i) = []" "bb_in_edges (block_at g1 i) = []"
    "bs_ok (bb_dominators (block_at g1 i))" "bs_ok (bb_dominance_frontier (block_at g1 i))" if "i < num_blocks g1" for i
    by (subst at [OF that], simp add: NewBasicBlock_def)+
  show "edge_set g1 = {}" using F(2) by (auto simp: edge_set_def flow_edge_def)
  have "flow_ok g1" by (rule flow_okI) (use C(5,7) F in auto)
  then show "edges_only g1 g1" unfolding edges_only_def by (auto intro: exI [of _ "gen_basic_blocks g1"])
qed

lemma ready_code_there: "build_ready g \<Longrightarrow> code_there g"
  by (auto simp: build_ready_def build_code_ok_def code_there_def)

lemma build_flow_graph_spec:
  assumes R: "build_ready g0"
  shows "\<exists>g calls segs g1. build_flow_graph g0 = Some g \<and> linking g0 calls segs g1 g \<and> bs_set calls = protected_calls g0 \<and>
    edge_set g = {(u, v). u < length segs \<and> v \<in> block_targets g0 segs u}"
proof -
  obtain calls where calls: "FindExceptionCallBoundaries g0 BitSetInit = Some calls" "bs_set calls = protected_calls g0"
    using FindExceptionCallBoundaries_spec [OF ready_code_there [OF R]] by blast
  let ?branches = "filter (is_end (gen_nodes g0) calls) (gen_code g0)"
  obtain g1 segs where g1: "CreateBasicBlocks calls g0 = Some (g1, ?branches)" "blocks_cut g0 calls segs g1"
    using CreateBasicBlocks_spec [of g0 calls] R by (auto simp: build_ready_def)
  note C = blocks_cutD [OF g1(2)]
  have L1: "linking g0 calls segs g1 g1" using R g1(2) cut_flow_ok(1) [OF g1(2)] by (simp add: linking_def)
  have subset: "set ?branches \<subseteq> {last (segs ! u) | u. u < length segs \<and> is_end (gen_nodes g0) calls (last (segs ! u))}"
  proof
    fix r assume r: "r \<in> set ?branches"
    then obtain u where u: "u < length segs" "r \<in> set (segs ! u)" using in_segment [OF C(1)] by auto
    then have "r = last (segs ! u)" using segment_ends(2) [OF C(3) u(2)] r by simp
    then show "r \<in> {last (segs ! u) | u. u < length segs \<and> is_end (gen_nodes g0) calls (last (segs ! u))}" using u(1) r by auto
  qed
  obtain g2 where g2: "BuildBasicBlockGraph ?branches g1 = Some g2" "linking g0 calls segs g1 g2"
    "edge_set g2 = edge_set g1 \<union> {(u, v). u < length segs \<and> last (segs ! u) \<in> set ?branches \<and> v \<in> branch_targets g0 segs (last (segs ! u))}"
    using BuildBasicBlockGraph_spec [OF L1 subset] by blast
  have E2: "(u, v) \<in> edge_set g2 \<longleftrightarrow> u < length segs \<and> is_end (gen_nodes g0) calls (last (segs ! u)) \<and> v \<in> branch_targets g0 segs (last (segs ! u))" for u v
  proof -
    have "u < length segs \<Longrightarrow> last (segs ! u) \<in> set ?branches \<longleftrightarrow> is_end (gen_nodes g0) calls (last (segs ! u))"
      using last_instruction(2) [OF L1] by simp
    then show ?thesis unfolding g2(3) cut_flow_ok(2) [OF g1(2)] by auto
  qed
  have n: "num_blocks g2 = Suc (length segs)" using edges_onlyD(2) [OF linkingD(3) [OF g2(2)]] C(7) by simp
  have range: "set [0..<num_blocks g2] \<subseteq> {..length segs}" using n by auto
  obtain g where g: "missing_all calls [0..<num_blocks g2] g2 = Some g" "linking g0 calls segs g1 g"
    "edge_set g = edge_set g2 \<union> {(i, v). i \<in> set [0..<num_blocks g2] \<and> i < length segs \<and> v \<in> missing_targets g0 calls segs (edge_set g2) i}"
    using missing_all_spec [OF g2(2) distinct_upt range] by blast
  have "(u, v) \<in> edge_set g \<longleftrightarrow> u < length segs \<and> v \<in> block_targets g0 segs u" for u v
  proof (cases "u < length segs \<and> is_end (gen_nodes g0) calls (last (segs ! u))")
    case True
    then show ?thesis unfolding g(3) using E2 end_targets [OF g(2), of u] n by (auto simp: missing_targets_def)
  next
    case False
    then show ?thesis unfolding g(3) using E2 plain_targets [OF g(2), of u] n by (auto simp: missing_targets_def)
  qed
  then have "edge_set g = {(u, v). u < length segs \<and> v \<in> block_targets g0 segs u}" by auto
  moreover have "build_flow_graph g0 = Some g"
    using calls(1) g1(1) g2(1) g(1) by (simp add: build_flow_graph_def AddMissingLinks_def)
  ultimately show ?thesis using g(2) calls(2) by blast
qed

section \<open>Landing pads\<close>

definition pad_edges :: "generator \<Rightarrow> exception_range \<Rightarrow> (nat \<times> nat) set" where
  "pad_edges g r =
     (if er_try_start r = 0 \<or> er_catch_label r = 0 then {}
      else {(f, p). block_of g (er_catch_label r) = Some p \<and> f \<noteq> p \<and>
             (\<exists>inst \<in> insert (er_try_start r) (set (region g r)). block_of g inst = Some f)})"

definition blocks_in_range :: "generator \<Rightarrow> bool" where
  "blocks_in_range g \<longleftrightarrow> (\<forall>r i. block_of g r = Some i \<longrightarrow> i < num_blocks g)"

text \<open>Only edges differ, and a block without a double edge still has none.\<close>

definition pads_only :: "generator \<Rightarrow> generator \<Rightarrow> bool" where
  "pads_only g1 g \<longleftrightarrow> edges_only g1 g \<and>
     (\<forall>u. distinct (bb_out_edges (block_at g1 u)) \<longrightarrow> distinct (bb_out_edges (block_at g u)))"

lemma pads_onlyD: "pads_only g1 g \<Longrightarrow> edges_only g1 g"
  by (simp add: pads_only_def)

lemma pads_add:
  assumes e: "pads_only g1 g" and f: "f < num_blocks g1" and p: "p < num_blocks g1" "p \<notin> set (bb_out_edges (block_at g f))"
  shows "pads_only g1 (BasicBlockAddEdge f p g)" "edge_set (BasicBlockAddEdge f p g) = insert (f, p) (edge_set g)"
proof -
  note A = edges_add [OF pads_onlyD [OF e] f p(1)] and D = edges_onlyD [OF pads_onlyD [OF e]]
  show "edge_set (BasicBlockAddEdge f p g) = insert (f, p) (edge_set g)" by (rule A(2))
  have "bb_out_edges (block_at (BasicBlockAddEdge f p g) u) = bb_out_edges (block_at g u) @ (if u = f then [p] else [])" for u
    using AddEdge_blocks(6) [OF D(1), of f p u] f p(1) D(2) by simp
  then show "pads_only g1 (BasicBlockAddEdge f p g)" using e A(1) p(2) by (simp add: pads_only_def)
qed

lemma Link_spec:
  assumes e: "pads_only g1 g" and r: "blocks_in_range g1"
  shows "pads_only g1 (LinkToLandingPadOnce (block_of g1 a) (block_of g1 b) g)"
    "edge_set (LinkToLandingPadOnce (block_of g1 a) (block_of g1 b) g) =
      edge_set g \<union> {(f, p). block_of g1 a = Some f \<and> block_of g1 b = Some p \<and> f \<noteq> p}"
proof -
  let ?g = "LinkToLandingPadOnce (block_of g1 a) (block_of g1 b) g"
  note E = edges_onlyD [OF pads_onlyD [OF e]]
  have "pads_only g1 ?g \<and> edge_set ?g = edge_set g \<union> {(f, p). block_of g1 a = Some f \<and> block_of g1 b = Some p \<and> f \<noteq> p}"
  proof (cases "\<exists>f p. block_of g1 a = Some f \<and> block_of g1 b = Some p")
    case True
    then obtain f p where fp: "block_of g1 a = Some f" "block_of g1 b = Some p" by blast
    then have lt: "f < num_blocks g1" "p < num_blocks g1" using r by (auto simp: blocks_in_range_def)
    have id: "bb_id (block_at g p) = p" using flow_okD(2) [OF E(1), of p] lt E(2) by simp
    show ?thesis
    proof (cases "f = p \<or> p \<in> set (bb_out_edges (block_at g f))")
      case True
      then have "?g = g" by (auto simp: LinkToLandingPadOnce_def fp id)
      moreover have "f \<noteq> p \<Longrightarrow> (f, p) \<in> edge_set g" using True lt E(2) by (simp add: edge_set_def flow_edge_def)
      ultimately show ?thesis using e fp by auto
    next
      case False
      then have "?g = BasicBlockAddEdge f p g" by (simp add: LinkToLandingPadOnce_def fp id)
      then show ?thesis using pads_add [OF e lt] False fp by auto
    qed
  next
    case False
    then have "?g = g" by (auto simp: LinkToLandingPadOnce_def split: option.splits)
    then show ?thesis using e False by auto
  qed
  then show "pads_only g1 ?g"
    "edge_set ?g = edge_set g \<union> {(f, p). block_of g1 a = Some f \<and> block_of g1 b = Some p \<and> f \<noteq> p}" by blast+
qed

lemma Link_fold:
  assumes r: "blocks_in_range g1"
  shows "pads_only g1 g \<Longrightarrow> pads_only g1 (fold (\<lambda>inst g. LinkToLandingPadOnce (block_of g inst) (block_of g1 b) g) insts g) \<and>
    edge_set (fold (\<lambda>inst g. LinkToLandingPadOnce (block_of g inst) (block_of g1 b) g) insts g) =
      edge_set g \<union> {(f, p). (\<exists>a \<in> set insts. block_of g1 a = Some f) \<and> block_of g1 b = Some p \<and> f \<noteq> p}"
proof (induction insts arbitrary: g)
  case (Cons a insts)
  note L = Link_spec [OF Cons.prems r, of a b]
  have "block_of g a = block_of g1 a" using edges_onlyD(7) [OF pads_onlyD [OF Cons.prems]] by simp
  then show ?case using Cons.IH [OF L(1)] L(2) by auto
qed simp

lemma region_cong: "edges_only g1 g \<Longrightarrow> region g r = region g1 r"
  unfolding region_def by (simp only: edges_onlyD(3,4))

lemma link_range_spec:
  assumes e: "pads_only g1 g" and r: "blocks_in_range g1" and c: "code_there g1"
  shows "\<exists>g'. link_range x g = Some g' \<and> pads_only g1 g' \<and> edge_set g' = edge_set g \<union> pad_edges g1 x"
proof (cases "er_try_start x = 0 \<or> er_catch_label x = 0 \<or> block_of g1 (er_catch_label x) = None")
  case True
  then have "link_range x g = Some g" using edges_onlyD(7) [OF pads_onlyD [OF e]] by (auto simp: link_range_def)
  moreover have "pad_edges g1 x = {}" using True by (auto simp: pad_edges_def)
  ultimately show ?thesis using e by simp
next
  case False
  let ?p = "block_of g1 (er_catch_label x)"
  let ?g1 = "LinkToLandingPadOnce (block_of g1 (er_try_start x)) ?p g"
  let ?g2 = "fold (\<lambda>inst g. LinkToLandingPadOnce (block_of g inst) ?p g) (region g1 x) ?g1"
  note L = Link_spec [OF e r, of "er_try_start x" "er_catch_label x"]
  note F = Link_fold [OF r L(1), of "er_catch_label x" "region g1 x"]
  have "code_there ?g1" using c edges_onlyD(3,4) [OF pads_onlyD [OF L(1)]] by (simp add: code_there_def)
  then have "range_calls ?g1 x = Some (region g1 x)" using range_calls_spec region_cong [OF pads_onlyD [OF L(1)]] by simp
  moreover obtain p where "block_of g1 (er_catch_label x) = Some p" using False by blast
  ultimately have "link_range x g = Some ?g2" using False edges_onlyD(7) [OF pads_onlyD [OF e]] by (simp add: link_range_def Let_def)
  moreover have "edge_set ?g2 = edge_set g \<union> pad_edges g1 x" using F L(2) False by (auto simp: pad_edges_def)
  ultimately show ?thesis using F by blast
qed

lemma link_ranges_spec:
  assumes r: "blocks_in_range g1" and c: "code_there g1"
  shows "pads_only g1 g \<Longrightarrow> \<exists>g'. link_ranges rs g = Some g' \<and> pads_only g1 g' \<and> edge_set g' = edge_set g \<union> (\<Union>x \<in> set rs. pad_edges g1 x)"
proof (induction rs arbitrary: g)
  case (Cons x rs)
  obtain g2 where "link_range x g = Some g2" "pads_only g1 g2" "edge_set g2 = edge_set g \<union> pad_edges g1 x"
    using link_range_spec [OF Cons.prems r c, of x] by blast
  then show ?case using Cons.IH [of g2] by auto
qed simp

lemma edges_only_refl: "flow_ok g \<Longrightarrow> edges_only g g"
  unfolding edges_only_def by (auto intro: exI [of _ "gen_basic_blocks g"])

lemma AddExceptionHandlerEdges_spec:
  assumes "flow_ok g" "blocks_in_range g" "code_there g"
  shows "\<exists>g'. AddExceptionHandlerEdges g = Some g' \<and> pads_only g g' \<and>
    edge_set g' = edge_set g \<union> (\<Union>x \<in> set (gen_exception_ranges g). pad_edges g x)"
proof -
  have "pads_only g g" using edges_only_refl [OF assms(1)] by (simp add: pads_only_def)
  from link_ranges_spec [OF assms(2,3) this] show ?thesis unfolding AddExceptionHandlerEdges_def .
qed

end
