(* ===== verification/CfgBuildTheorems.thy ===== *)
theory CfgBuildTheorems
  imports CfgGraph SsaTheorems
begin

text \<open>
  The properties of the flow graph of an instruction list.
\<close>

section \<open>The cut and the graph\<close>

text \<open>
  The blocks of a cut: the segments are the code, each entered at its first instruction and left
  at its last, and a block holds one; the block after them, the exit, has no code.
\<close>

definition cut_into :: "generator \<Rightarrow> bitset \<Rightarrow> node_ref list list \<Rightarrow> generator \<Rightarrow> bool" where
  "cut_into g calls segs g' \<longleftrightarrow>
     concat segs = gen_code g \<and> (\<forall>seg \<in> set segs. seg \<noteq> [] \<and> segment (gen_nodes g) calls seg) \<and>
     num_blocks g' = length segs + 1 \<and> gen_entry_block g' = 0 \<and> gen_exit_block g' = length segs \<and> gen_code g' = gen_code g \<and>
     bb_code (block_at g' (length segs)) = 0 \<and>
     (\<forall>i < length segs.
        bb_code (block_at g' i) = hd (segs ! i) \<and> bb_end_code (block_at g' i) = last (segs ! i) \<and>
        (bb_return_block (block_at g' i) \<longleftrightarrow> is_return (gen_nodes g) (last (segs ! i))) \<and>
        variables_ok (bb_defined_vars (block_at g' i)) \<and>
        map_symbols (bb_defined_vars (block_at g' i)) = seg_symbols (gen_nodes g) (segs ! i) \<and>
        (\<forall>r \<in> set (segs ! i). gen_nodes g' r = map_option (\<lambda>n. n\<lparr>ir_block := i\<rparr>) (gen_nodes g r)))"

lemma linking_block:
  assumes L: "linking g0 calls segs g1 g" and i: "i \<le> length segs"
  shows "bb_code (block_at g i) = bb_code (block_at g1 i)" "bb_end_code (block_at g i) = bb_end_code (block_at g1 i)"
    "bb_return_block (block_at g i) = bb_return_block (block_at g1 i)" "bb_defined_vars (block_at g i) = bb_defined_vars (block_at g1 i)"
proof -
  have i1: "i < num_blocks g1" using i linkingD(6) [OF L] by simp
  note E = edges_onlyD(8) [OF linkingD(3) [OF L] i1]
  show "bb_code (block_at g i) = bb_code (block_at g1 i)" "bb_end_code (block_at g i) = bb_end_code (block_at g1 i)"
    "bb_return_block (block_at g i) = bb_return_block (block_at g1 i)" "bb_defined_vars (block_at g i) = bb_defined_vars (block_at g1 i)"
    using arg_cong [OF E, of bb_code] arg_cong [OF E, of bb_end_code] arg_cong [OF E, of bb_return_block]
      arg_cong [OF E, of bb_defined_vars] by simp_all
qed

lemma linking_cut:
  assumes L: "linking g0 calls segs g1 g"
  shows "cut_into g0 calls segs g"
proof -
  note C = blocks_cutD [OF linkingD(2) [OF L]] and E = edges_onlyD [OF linkingD(3) [OF L]]
  have block: "bb_code (block_at g i) = hd (segs ! i) \<and> bb_end_code (block_at g i) = last (segs ! i) \<and>
      (bb_return_block (block_at g i) \<longleftrightarrow> is_return (gen_nodes g0) (last (segs ! i))) \<and>
      variables_ok (bb_defined_vars (block_at g i)) \<and>
      map_symbols (bb_defined_vars (block_at g i)) = seg_symbols (gen_nodes g0) (segs ! i)" if i: "i < length segs" for i
  proof -
    have c: "block_shape (gen_nodes g0) i (hd (segs ! i)) (segs ! i) (block_at g1 i)" "bb_end_code (block_at g1 i) = last (segs ! i)"
      "bb_return_block (block_at g1 i) \<longleftrightarrow> is_return (gen_nodes g0) (last (segs ! i))" using C(9) [OF i] by (simp_all add: closed_block_def)
    then have e: "block_at g1 i = (NewBasicBlock i)\<lparr>bb_code := hd (segs ! i), bb_end_code := bb_end_code (block_at g1 i),
      bb_defined_vars := bb_defined_vars (block_at g1 i), bb_referenced_vars := bb_referenced_vars (block_at g1 i),
      bb_num_calls := bb_num_calls (block_at g1 i), bb_return_block := bb_return_block (block_at g1 i)\<rparr>"
      by (simp add: block_shape_def)
    have "bb_code (block_at g1 i) = hd (segs ! i)" using arg_cong [OF e, of bb_code] by simp
    then show ?thesis using c linking_block [OF L less_imp_le [OF i]] by (simp add: block_shape_def)
  qed
  have "bb_code (block_at g (length segs)) = 0" using linking_block(1) [OF L order_refl] C(10) by (simp add: NewBasicBlock_def)
  then show ?thesis unfolding cut_into_def using C(1-3,5,7) E(2,5) linkingD(5,7) [OF L] linkingD(9) [OF L] block by simp
qed

lemma no_way_back:
  assumes L: "linking g0 calls segs g1 g" and u: "u < length segs"
  shows "0 \<notin> block_targets g0 segs u"
proof
  have ne: "segs \<noteq> []" using u by auto
  assume "0 \<in> block_targets g0 segs u"
  then have "control_next g0 (last (segs ! u)) (hd (segs ! 0))" using ne by (auto simp: block_targets_def split: if_splits)
  then obtain v where v: "v < length segs" "0 < v" "hd (segs ! 0) = hd (segs ! v)" using target_head [OF L u] by blast
  have "segs ! v \<noteq> []" using blocks_cutD(2) [OF linkingD(2) [OF L]] v(1) by simp
  then have "hd (segs ! 0) \<in> set (segs ! v)" using v(3) by simp
  then show False using head_unique [OF L _ v(1)] v(2) ne by fastforce
qed

lemma entry_edges:
  assumes L: "linking g0 calls segs g1 g" and e: "edge_set g = {(u, v). u < length segs \<and> v \<in> block_targets g0 segs u}"
  shows "bb_in_edges (block_at g 0) = []"
proof -
  have "\<not> flow_edge g u 0" for u using e no_way_back [OF L] by (auto simp: edge_set_def)
  moreover have "0 < num_blocks g" using flow_okD(1) [OF edges_onlyD(1) [OF linkingD(3) [OF L]]] by simp
  ultimately show ?thesis using flow_okD(8) [OF edges_onlyD(1) [OF linkingD(3) [OF L]], of 0] by (cases "bb_in_edges (block_at g 0)") auto
qed

section \<open>Control inside and between blocks\<close>

lemma segment_next:
  assumes L: "linking g0 calls segs g1 g" and u: "u < length segs" and r: "segs ! u = xs @ r # y # ys"
  shows "IRNext g0 r = y"
proof -
  note C = blocks_cutD [OF linkingD(2) [OF L]]
  have code: "gen_code g0 = (concat (take u segs) @ xs) @ r # y # ys @ concat (drop (Suc u) segs)"
    using split_segments [OF u] r C(1) by simp
  then have "r \<notin> set (concat (take u segs) @ xs)" using linkingD(4) [OF L] by simp
  then show ?thesis unfolding IRNext_def code by (subst abstract_split(4)) simp_all
qed

lemma inner_next:
  assumes L: "linking g0 calls segs g1 g" and u: "u < length segs" and r: "segs ! u = xs @ r # y # ys" and c: "control_next g0 r r'"
  shows "r' = y"
proof -
  have "r \<in> set (butlast (segs ! u))" unfolding r by (simp add: butlast_append)
  then have e: "\<not> is_end (gen_nodes g0) calls r"
    using blocks_cutD(3) [OF linkingD(2) [OF L], of "segs ! u"] u by (simp add: segment_def)
  note nxt = segment_next [OF L u r]
  obtain n where n: "gen_nodes g0 r = Some n" using c by (auto simp: control_next_def split: option.splits)
  then have "\<not> ends_block calls n" using e by (simp add: is_end_def)
  then show ?thesis using c n nxt by (auto simp: control_next_def ends_block_def IRIsBranch_def IRIsConditionalBranch_def)
qed

lemma control_step:
  assumes L: "linking g0 calls segs g1 g" and r: "r \<in> set (gen_code g0)" and c: "control_next g0 r r'"
  shows "(\<exists>u xs ys. u < length segs \<and> segs ! u = xs @ r # r' # ys) \<or>
    (\<exists>u v. v < length segs \<and> u < length segs \<and> r = last (segs ! u) \<and> r' = hd (segs ! v) \<and> v \<in> block_targets g0 segs u \<and>
       block_of g r = Some u \<and> block_of g r' = Some v)"
proof -
  note C = blocks_cutD [OF linkingD(2) [OF L]]
  obtain u where u: "u < length segs" "r \<in> set (segs ! u)" using in_segment [OF C(1) r] by blast
  obtain xs zs where seg: "segs ! u = xs @ r # zs" using u(2) by (meson split_list)
  show ?thesis
  proof (cases zs)
    case Nil
    then have l: "r = last (segs ! u)" using seg by simp
    obtain v where v: "v < length segs" "r' = hd (segs ! v)" using target_head [OF L u(1)] c l by blast
    have "segs ! v \<noteq> []" using C(2) v(1) by simp
    then have "block_of g r' = Some v" using block_of_segment [OF L v(1)] v(2) by simp
    moreover have ctl: "control_next g0 (last (segs ! u)) r'" using c l by simp
    then have "\<exists>x. control_next g0 (last (segs ! u)) x" by blast
    then have "v \<in> block_targets g0 segs u" using ctl v by (simp add: block_targets_def)
    ultimately show ?thesis using l v u(1) block_of_segment [OF L u] by blast
  next
    case (Cons y ys)
    then show ?thesis using inner_next [OF L u(1), of xs r y ys r'] seg c u(1) by blast
  qed
qed

section \<open>Unwinding\<close>

text \<open>A call of a bounded protected region can throw: control then goes to the landing pad.\<close>

definition unwinds :: "generator \<Rightarrow> node_ref \<Rightarrow> node_ref \<Rightarrow> bool" where
  "unwinds g r r' \<longleftrightarrow>
     (\<exists>x \<in> set (gen_exception_ranges g). er_try_start x \<noteq> 0 \<and> er_catch_label x \<noteq> 0 \<and>
        r \<in> set (region g x) \<and> r' = er_catch_label x \<and> r' \<in> set (gen_code g))"

definition control_to :: "generator \<Rightarrow> node_ref \<Rightarrow> node_ref \<Rightarrow> bool" where
  "control_to g r r' \<longleftrightarrow> control_next g r r' \<or> unwinds g r r'"

text \<open>Landing pads are labels.\<close>

definition pads_labelled :: "generator \<Rightarrow> bool" where
  "pads_labelled g \<longleftrightarrow>
     (\<forall>x \<in> set (gen_exception_ranges g). er_catch_label x \<in> set (gen_code g) \<longrightarrow> is_label (gen_nodes g) (er_catch_label x))"

lemma linking_ranges:
  assumes L: "linking g0 calls segs h g"
  shows "gen_exception_ranges g = gen_exception_ranges g0" "region g x = region g0 x" "code_there g" "blocks_in_range g"
proof -
  note C = blocks_cutD [OF linkingD(2) [OF L]] and E = edges_onlyD [OF linkingD(3) [OF L]]
  obtain hs bs where "h = g0\<lparr>gen_nodes := hs, gen_basic_blocks := bs, gen_entry_block := 0, gen_exit_block := length segs\<rparr>"
    using linkingD(2) [OF L] by (auto simp: blocks_cut_def)
  then show "gen_exception_ranges g = gen_exception_ranges g0" using E(9) by simp
  have node: "is_call (gen_nodes g) r = is_call (gen_nodes g0) r \<and> r \<in> dom (gen_nodes g)" if r: "r \<in> set (gen_code g0)" for r
  proof -
    obtain u where u: "u < length segs" "r \<in> set (segs ! u)" using in_segment [OF C(1) r] by blast
    obtain n where "gen_nodes g0 r = Some n" using linkingD(10) [OF L r] by blast
    then show ?thesis using linkingD(9) [OF L u] by (auto simp: is_call_def IRIsCall_def)
  qed
  then show "code_there g" using linkingD(4,5,11) [OF L] by (auto simp: code_there_def)
  have "filter (is_call (gen_nodes g)) (takeWhile (\<lambda>y. y \<noteq> er_try_end x) (dropWhile (\<lambda>y. y \<noteq> er_try_start x) (gen_code g0))) =
      filter (is_call (gen_nodes g0)) (takeWhile (\<lambda>y. y \<noteq> er_try_end x) (dropWhile (\<lambda>y. y \<noteq> er_try_start x) (gen_code g0)))"
    by (rule filter_cong) (use node in \<open>auto dest!: set_takeWhileD set_dropWhileD\<close>)
  then show "region g x = region g0 x" by (simp add: region_def Let_def linkingD(5) [OF L])
  show "blocks_in_range g" using block_of_iff [OF L] E(2) C(7) by (auto simp: blocks_in_range_def)
qed

lemma edges_only_trans: "edges_only g1 g2 \<Longrightarrow> edges_only g2 g3 \<Longrightarrow> edges_only g1 g3"
proof -
  assume a: "edges_only g1 g2" "edges_only g2 g3"
  have n: "num_blocks g2 = num_blocks g1" using edges_onlyD(2) [OF a(1)] .
  have "block_at g3 i = (block_at g1 i)\<lparr>bb_in_edges := bb_in_edges (block_at g3 i),
        bb_out_edges := bb_out_edges (block_at g3 i), bb_reachability_known := bb_reachability_known (block_at g3 i)\<rparr>"
    if i: "i < num_blocks g1" for i
    by (subst edges_onlyD(8) [OF a(2)], simp add: n i, subst edges_onlyD(8) [OF a(1) i]) simp
  moreover have "\<exists>bs. g3 = g1\<lparr>gen_basic_blocks := bs\<rparr>" using a unfolding edges_only_def by auto
  ultimately show "edges_only g1 g3" using edges_onlyD(1,2) [OF a(2)] n by (simp add: edges_only_def)
qed

text \<open>The call that unwinds ends its block, and the pad begins one that is not the entry.\<close>

lemma unwinding_call:
  assumes L: "linking g0 calls segs h g" and c: "bs_set calls = protected_calls g0" and w: "unwinds g0 r r'"
  shows "\<exists>u < length segs. r = last (segs ! u)"
proof -
  note C = blocks_cutD [OF linkingD(2) [OF L]]
  obtain x where x: "x \<in> set (gen_exception_ranges g0)" "er_try_start x \<noteq> 0" "r \<in> set (region g0 x)" using w by (auto simp: unwinds_def)
  have r: "r \<in> set (gen_code g0)" by (rule region_in_code [OF x(3)])
  have "er_try_end x \<in> set (gen_code g0)" using x(3) by (auto simp: region_def Let_def split: if_splits dest: set_dropWhileD)
  then have "er_try_end x \<noteq> 0" by (rule linkingD(11) [OF L])
  then have "node_index (the (gen_nodes g0 r)) \<in> protected_calls g0"
    using x unfolding protected_calls_def range_ids_def call_ids_def by blast
  moreover obtain n where n: "gen_nodes g0 r = Some n" "IRIsCall n" using x(3) by (auto simp: region_def is_call_def Let_def split: if_splits)
  ultimately have "is_end (gen_nodes g0) calls r" using c by (simp add: BitSetContains_iff is_end_def ends_block_def)
  moreover obtain u where u: "u < length segs" "r \<in> set (segs ! u)" using in_segment [OF C(1) r] by blast
  ultimately show ?thesis using segment_ends(2) [OF C(3) u(2)] by auto
qed

lemma label_head:
  assumes L: "linking g0 calls segs h g" and r: "r \<in> set (gen_code g0)" "is_label (gen_nodes g0) r"
  shows "\<exists>v < length segs. 0 < v \<and> r = hd (segs ! v)"
proof -
  note C = blocks_cutD [OF linkingD(2) [OF L]]
  obtain v where v: "v < length segs" "r \<in> set (segs ! v)" using in_segment [OF C(1) r(1)] by blast
  have h: "r = hd (segs ! v)" using segment_ends(1) [OF C(3) v(2) r(2)] v(1) by simp
  have "v \<noteq> 0"
  proof
    assume "v = 0"
    then have "r = hd (gen_code g0)" using h v C(1) [symmetric] C(2) [of "segs ! 0"] by (cases segs) auto
    then show False using linkingD(1) [OF L] r(2) by (simp add: build_ready_def)
  qed
  then show ?thesis using v(1) h by blast
qed

section \<open>What the graph carries\<close>

text \<open>
  A step to the next instruction of the block, or from the end of a block to the start of one along
  an edge (a call that unwinds to the pad of its own block follows no edge).
\<close>

definition carried :: "generator \<Rightarrow> generator \<Rightarrow> node_ref \<Rightarrow> node_ref \<Rightarrow> bool" where
  "carried g g' r r' \<longleftrightarrow>
     (\<exists>u v. block_of g' r = Some u \<and> block_of g' r' = Some v \<and>
        (u = v \<and> r' = IRNext g r \<or>
         r = bb_end_code (block_at g' u) \<and> r' = bb_code (block_at g' v) \<and> (flow_edge g' u v \<or> u = v \<and> unwinds g r r')))"

text \<open>The graph after the landing pads are linked.\<close>

definition padded :: "generator \<Rightarrow> bitset \<Rightarrow> node_ref list list \<Rightarrow> generator \<Rightarrow> generator \<Rightarrow> bool" where
  "padded g0 calls segs h g \<longleftrightarrow> linking g0 calls segs h g \<and> bs_set calls = protected_calls g0 \<and> pads_labelled g0 \<and>
     edge_set g = {(u, v). u < length segs \<and> v \<in> block_targets g0 segs u} \<union> (\<Union>x \<in> set (gen_exception_ranges g0). pad_edges g x)"

lemma paddedD:
  assumes "padded g0 calls segs h g"
  shows "linking g0 calls segs h g" "bs_set calls = protected_calls g0" "pads_labelled g0"
    "edge_set g = {(u, v). u < length segs \<and> v \<in> block_targets g0 segs u} \<union> (\<Union>x \<in> set (gen_exception_ranges g0). pad_edges g x)"
  using assms by (simp_all add: padded_def)

lemma control_next_carried:
  assumes P: "padded g0 calls segs h g" and r: "r \<in> set (gen_code g0)" and c: "control_next g0 r r'"
  shows "carried g0 g r r'"
proof -
  note L = paddedD(1) [OF P] and cut = linking_cut [OF paddedD(1) [OF P], unfolded cut_into_def]
  consider u xs ys where "u < length segs" "segs ! u = xs @ r # r' # ys"
    | u v where "v < length segs" "u < length segs" "r = last (segs ! u)" "r' = hd (segs ! v)" "v \<in> block_targets g0 segs u"
        "block_of g r = Some u" "block_of g r' = Some v"
    using control_step [OF L r c] by blast
  then show ?thesis
  proof cases
    case 1
    then have "block_of g r = Some u" "block_of g r' = Some u" using block_of_segment [OF L, of u] by simp_all
    then show ?thesis using segment_next [OF L 1] by (simp add: carried_def)
  next
    case 2
    have "(u, v) \<in> edge_set g" unfolding paddedD(4) [OF P] using 2(2,5) by simp
    then have "flow_edge g u v" by (simp add: edge_set_def)
    then show ?thesis using 2 cut by (auto simp: carried_def)
  qed
qed

lemma unwinding_carried:
  assumes P: "padded g0 calls segs h g" and w: "unwinds g0 r r'"
  shows "carried g0 g r r'"
proof -
  note L = paddedD(1) [OF P] and cut = linking_cut [OF paddedD(1) [OF P], unfolded cut_into_def]
  note C = blocks_cutD [OF linkingD(2) [OF L]]
  obtain x where x: "x \<in> set (gen_exception_ranges g0)" "er_try_start x \<noteq> 0" "er_catch_label x \<noteq> 0" "r \<in> set (region g0 x)"
    "r' = er_catch_label x" "r' \<in> set (gen_code g0)" using w by (auto simp: unwinds_def)
  obtain u where u: "u < length segs" "r = last (segs ! u)" using unwinding_call [OF L paddedD(2) [OF P] w] by blast
  have "is_label (gen_nodes g0) r'" using paddedD(3) [OF P] x by (simp add: pads_labelled_def)
  then obtain v where v: "v < length segs" "r' = hd (segs ! v)" using label_head [OF L x(6)] by blast
  have "segs ! u \<noteq> []" "segs ! v \<noteq> []" using C(2) u(1) v(1) by simp_all
  then have b: "block_of g r = Some u" "block_of g r' = Some v" using block_of_segment [OF L] u v by simp_all
  have "r \<in> set (region g x)" using x(4) linking_ranges(2) [OF L] by simp
  then have "u = v \<or> (u, v) \<in> pad_edges g x" using x b by (auto simp: pad_edges_def)
  then have "u = v \<or> (u, v) \<in> edge_set g" unfolding paddedD(4) [OF P] using x(1) by blast
  then have "u = v \<or> flow_edge g u v" by (auto simp: edge_set_def)
  then show ?thesis using b u v w cut by (auto simp: carried_def)
qed

lemma control_carried:
  assumes "padded g0 calls segs h g"
  shows "\<forall>r r'. r \<in> set (gen_code g0) \<and> control_to g0 r r' \<longrightarrow> carried g0 g r r'"
  using control_next_carried [OF assms] unwinding_carried [OF assms] by (auto simp: control_to_def)

text \<open>The instructions a run can reach from the first without entering a block of \<open>X\<close>.\<close>

inductive run_to :: "generator \<Rightarrow> generator \<Rightarrow> nat set \<Rightarrow> node_ref \<Rightarrow> bool" for g g' X where
  begins: "block_of g' (hd (gen_code g)) = Some b \<Longrightarrow> b \<notin> X \<Longrightarrow> run_to g g' X (hd (gen_code g))"
| goes: "run_to g g' X r \<Longrightarrow> control_to g r r' \<Longrightarrow> block_of g' r' = Some b \<Longrightarrow> b \<notin> X \<Longrightarrow> run_to g g' X r'"

lemma run_to_block:
  assumes P: "padded g0 calls segs h g" and r: "run_to g0 g X r"
  shows "\<exists>b. block_of g r = Some b \<and> avoiding (gen_entry_block g) (flow_edge g) X b"
  using r
proof induction
  case (begins b)
  note L = paddedD(1) [OF P]
  note C = blocks_cutD [OF linkingD(2) [OF L]]
  have "segs \<noteq> []" using C(1) linkingD(1) [OF L] by (auto simp: build_ready_def)
  then obtain seg more where seg: "segs = seg # more" by (cases segs) auto
  then have "hd (gen_code g0) \<in> set (segs ! 0)" "0 < length segs" using C(1) [symmetric] C(2) [of seg] by auto
  then have "block_of g (hd (gen_code g0)) = Some 0" using block_of_segment [OF L] by blast
  moreover have "gen_entry_block g = 0" using edges_onlyD(5) [OF linkingD(3) [OF L]] C(5) by simp
  ultimately show ?case using begins by (auto intro: avoiding.start)
next
  case (goes r r' b)
  obtain u where u: "block_of g r = Some u" "avoiding (gen_entry_block g) (flow_edge g) X u" using goes.IH by blast
  then have "r \<in> set (gen_code g0)" using linkingD(5) [OF paddedD(1) [OF P]] by (simp add: block_of_def split: if_splits)
  then have "carried g0 g r r'" using control_carried [OF P] goes.hyps(2) by blast
  then have "u = b \<or> flow_edge g u b" using u(1) goes.hyps(3) by (auto simp: carried_def)
  then show ?case using u(2) goes.hyps(3,4) by (auto intro: avoiding.step)
qed

lemma run_analyzed:
  assumes P: "padded g0 calls segs h g" and a: "analyzed g g'" and r: "run_to g0 g {} r"
  shows "\<exists>b. block_of g r = Some b \<and> \<not> bb_is_unreachable (block_at g' b) \<and>
    (\<forall>d. run_to g0 g {d} r \<longrightarrow> d \<notin> bs_set (bb_dominators (block_at g' b)))"
proof -
  obtain b where b: "block_of g r = Some b" "flow_reachable g b" using run_to_block [OF P r] by blast
  have "b < num_blocks g" using b(1) linking_ranges(4) [OF paddedD(1) [OF P]] by (simp add: blocks_in_range_def)
  then have i: "dominator_info g b (block_at g' b)" using a by (simp add: analyzed_def)
  have "d \<notin> dominators_of g b" if "run_to g0 g {d} r" for d
    using run_to_block [OF P that] b by (auto simp: dominators_of_def dominates_def)
  then show ?thesis using b i by (auto simp: dominator_info_def)
qed

text \<open>No edge leads to the entry, so its reachability and its frontier are those of a plain entry.\<close>

lemma padded_entry:
  assumes P: "padded g0 calls segs h g"
  shows "bb_in_edges (block_at g (gen_entry_block g)) = []"
proof -
  note L = paddedD(1) [OF P] and F = edges_onlyD(1) [OF linkingD(3) [OF paddedD(1) [OF P]]]
  have e: "gen_entry_block g = 0" using edges_onlyD(5) [OF linkingD(3) [OF L]] blocks_cutD(5) [OF linkingD(2) [OF L]] by simp
  have "(u, 0) \<notin> edge_set g" for u
  proof
    assume "(u, 0) \<in> edge_set g"
    then consider "u < length segs" "0 \<in> block_targets g0 segs u" | x where "x \<in> set (gen_exception_ranges g0)" "(u, 0) \<in> pad_edges g x"
      unfolding paddedD(4) [OF P] by auto
    then show False
    proof cases
      case 1
      then show False using no_way_back [OF L] by blast
    next
      case (2 x)
      then have b: "block_of g (er_catch_label x) = Some 0" by (auto simp: pad_edges_def split: if_splits)
      then have "er_catch_label x \<in> set (gen_code g0)" using linkingD(5) [OF L] by (simp add: block_of_def split: if_splits)
      moreover from this have "is_label (gen_nodes g0) (er_catch_label x)" using paddedD(3) [OF P] 2(1) by (simp add: pads_labelled_def)
      ultimately obtain v where v: "v < length segs" "0 < v" "er_catch_label x = hd (segs ! v)" using label_head [OF L] by blast
      then have "segs ! v \<noteq> []" using blocks_cutD(2) [OF linkingD(2) [OF L]] by simp
      then show False using block_of_segment [OF L v(1)] v b by simp
    qed
  qed
  then have "\<not> flow_edge g u 0" for u by (auto simp: edge_set_def)
  then show ?thesis using e flow_okD(1) [OF F] flow_okD(8) [OF F, of 0] by (cases "bb_in_edges (block_at g 0)") auto
qed

lemma AddExceptionHandlerEdges_padded:
  assumes L: "linking g0 calls segs h g1" and c: "bs_set calls = protected_calls g0" and l: "pads_labelled g0"
    and e: "edge_set g1 = {(u, v). u < length segs \<and> v \<in> block_targets g0 segs u}"
  shows "\<exists>g2. AddExceptionHandlerEdges g1 = Some g2 \<and> padded g0 calls segs h g2"
proof -
  obtain g2 where g2: "AddExceptionHandlerEdges g1 = Some g2" "pads_only g1 g2"
    "edge_set g2 = edge_set g1 \<union> (\<Union>x \<in> set (gen_exception_ranges g1). pad_edges g1 x)"
    using AddExceptionHandlerEdges_spec [OF edges_onlyD(1) [OF linkingD(3) [OF L]] linking_ranges(4,3) [OF L]] by blast
  have "edges_only h g2" using edges_only_trans [OF linkingD(3) [OF L] pads_onlyD [OF g2(2)]] .
  then have L2: "linking g0 calls segs h g2" using L by (simp add: linking_def)
  have "pad_edges g2 x = pad_edges g1 x" for x
    using edges_onlyD(7) [OF pads_onlyD [OF g2(2)]] linking_ranges(2) [OF L] linking_ranges(2) [OF L2] by (simp add: pad_edges_def)
  then show ?thesis using g2 L2 c l e linking_ranges(1) [OF L] by (auto simp: padded_def)
qed

section \<open>Ready for SSA\<close>

lemma head_in_code:
  assumes L: "linking g0 calls segs g1 g" and i: "i < length segs"
  shows "hd (segs ! i) \<in> set (gen_code g0)"
proof -
  note C = blocks_cutD [OF linkingD(2) [OF L]]
  have "segs ! i \<in> set segs" using i by simp
  moreover have "hd (segs ! i) \<in> set (segs ! i)" using C(2) i by simp
  ultimately show ?thesis unfolding C(1) [symmetric] set_concat by blast
qed

lemma linking_phi_ready:
  assumes L: "linking g0 calls segs g1 g" and f: "finite (dom (gen_nodes g0))"
    and p: "\<And>r n. r \<in> set (gen_code g0) \<Longrightarrow> gen_nodes g0 r = Some n \<Longrightarrow> ir_opcode n \<noteq> IR_phi"
  shows "phi_ready g"
proof -
  note C = blocks_cutD [OF linkingD(2) [OF L]] and cut = linking_cut [OF L, unfolded cut_into_def]
  have nodes: "\<exists>n. gen_nodes g r = Some n \<and> ir_opcode n \<noteq> IR_phi" if r: "r \<in> set (gen_code g0)" for r
  proof -
    obtain n where n: "gen_nodes g0 r = Some n" using linkingD(10) [OF L r] by blast
    obtain u where "u < length segs" "r \<in> set (segs ! u)" using in_segment [OF C(1) r] by blast
    then show ?thesis using linkingD(9) [OF L] n p [OF r n] by simp
  qed
  have "dom (gen_nodes g) \<subseteq> dom (gen_nodes g0) \<union> set (gen_code g0)"
    using C(1,8) edges_onlyD(4) [OF linkingD(3) [OF L]] by (auto simp: cut_nodes_def)
  then have fin: "finite (dom (gen_nodes g))" using f finite_subset by blast
  have start: "block_start g i = (if i < length segs then hd (segs ! i) else 0)" if "i < num_blocks g" for i
  proof (cases "i < length segs")
    case False
    then have "i = length segs" using that cut by simp
    then show ?thesis using cut by simp
  qed (use cut in simp)
  have head: "hd (segs ! i) \<in> set (segs ! i)" if "i < length segs" for i using C(2) that by simp
  have vars: "variables_ok (bb_defined_vars (block_at g i))" if i: "i < num_blocks g" for i
  proof (cases "i < length segs")
    case False
    then have "i = length segs" using i cut by simp
    then show ?thesis
      using linking_block(4) [OF L order_refl] C(10) demo_vars_ok(3) by (simp add: NewBasicBlock_def)
  qed (use cut in blast)
  show ?thesis
    unfolding phi_ready_def linkingD(5) [OF L]
  proof (intro conjI allI ballI impI)
    fix i j
    assume i: "i < num_blocks g" "j < num_blocks g" "block_start g i = block_start g j" "block_start g i \<noteq> 0"
    then have ij: "i < length segs" "j < length segs" using start [OF i(1)] start [OF i(2)] by (auto split: if_splits)
    then have "hd (segs ! i) \<in> set (segs ! j)" using i(3) start [OF i(1)] start [OF i(2)] head by simp
    then show "i = j" using head_unique [OF L ij] by simp
  next
    show "block_start g i = 0 \<or> block_start g i \<in> set (gen_code g0)" if "i < num_blocks g" for i
      using start [OF that] head_in_code [OF L] by simp
  qed (use linkingD(4,11) [OF L] fin nodes vars in blast)+
qed

lemma leaving_block_code:
  assumes P: "padded g0 calls segs h g" and e: "flow_edge g u v"
  shows "u \<in> blocks_with_code g"
proof -
  note L = paddedD(1) [OF P] and cut = linking_cut [OF paddedD(1) [OF P], unfolded cut_into_def]
  have n: "num_blocks g = length segs + 1" using cut by blast
  have "(u, v) \<in> edge_set g" using e by (simp add: edge_set_def)
  then have u: "u < length segs" unfolding paddedD(4) [OF P] by (auto simp: pad_edges_def block_of_iff [OF L] split: if_splits)
  then have "hd (segs ! u) \<noteq> 0" using linkingD(11) [OF L] head_in_code [OF L] by blast
  then show ?thesis using u cut n by (simp add: blocks_with_code_def)
qed

section \<open>A program\<close>

text \<open>A call in a protected region, its landing pad, and a conditional branch around the call.\<close>

definition demo_node :: "ir_op \<Rightarrow> node_ref list \<Rightarrow> int \<Rightarrow> ir_node" where
  "demo_node oc ins i = (IRInit i oc)\<lparr>ir_inputs := ins\<rparr>"

definition demo_program_nodes :: ir_store where
  "demo_program_nodes = Map.empty(1 \<mapsto> demo_node IR_nop [] 1, 2 \<mapsto> demo_node IR_btrue [1, 5] 2, 3 \<mapsto> demo_node IR_calla [] 3,
     4 \<mapsto> demo_node IR_nop [] 4, 5 \<mapsto> demo_node IR_label [] 5, 6 \<mapsto> demo_node IR_ret [] 6)"

definition demo_program :: generator where
  "demo_program = demo_flow\<lparr>gen_basic_blocks := [], gen_code := [1, 2, 3, 4, 5, 6], gen_nodes := demo_program_nodes,
     gen_exception_ranges := [\<lparr>er_try_start = 3, er_try_end = 4, er_catch_label = 5\<rparr>]\<rparr>"

lemma demo_program_fields [simp]:
  "gen_code demo_program = [1, 2, 3, 4, 5, 6]" "gen_nodes demo_program = demo_program_nodes" "gen_basic_blocks demo_program = []"
  "gen_exception_ranges demo_program = [\<lparr>er_try_start = 3, er_try_end = 4, er_catch_label = 5\<rparr>]"
  by (simp_all add: demo_program_def)

lemma demo_node_fields [simp]:
  "ir_opcode (demo_node oc ins i) = oc" "ir_inputs (demo_node oc ins i) = ins" "ir_flags (demo_node oc ins i) = 0" "ir_id (demo_node oc ins i) = i"
  by (simp_all add: demo_node_def IRInit_def)

lemmas demo_ops = IR_nop_def IR_btrue_def IR_calla_def IR_label_def IR_ret_def IR_bfalse_def IR_bra_def IR_cbra_def IR_phi_def

lemma demo_program_ready: "build_ready demo_program"
  by (simp add: build_ready_def build_code_ok_def is_label_def demo_program_nodes_def IRIsVarDef_def kIRVarDef_def
      IRIsConditionalBranch_def IRIsBranch_def IRIsCall_def demo_ops)

lemma demo_program_protected: "protected_calls demo_program = {3}"
  by (simp add: protected_calls_def range_ids_def call_ids_def region_def is_call_def IRIsCall_def demo_program_nodes_def node_index_def demo_ops)

section \<open>The properties\<close>

text \<open>
  C4. The cut is complete and the edges are the ordinary control flow: what the steps of
  \<open>BuildBasicBlocks\<close> before \<open>StraightenGraph\<close> leave. The code is not cut yet, its nodes are there and
  distinct, it begins with no label and ends with no branch and no call, and its branches lead to labels of
  it. Then building the graph ends. The blocks before the exit block are consecutive pieces of the code,
  entered at their first instruction only (no label is inside) and left at their last only (no branch,
  return or call of a protected region is inside), and every instruction points to its block; in-edges
  mirror out-edges. A block has an edge to another exactly when a branch, a jump table or falling
  through leads from the last instruction of the one to the first of the other, and to the exit block
  exactly when none leads anywhere. The edges of a throw to its landing pad are not there yet: they are
  \<open>AddExceptionHandlerEdges\<close>'s, and because a call that can throw ends its block they
  leave from block ends as well.
\<close>

theorem build_flow_graph_exact:
  assumes "build_ready g"
  shows "\<exists>g' segs calls. build_flow_graph g = Some g' \<and> bs_set calls = protected_calls g \<and> cut_into g calls segs g' \<and>
    flow_ok g' \<and> bb_in_edges (block_at g' 0) = [] \<and>
    (\<forall>u v. flow_edge g' u v \<longleftrightarrow> u < length segs \<and> v \<in> block_targets g segs u)"
proof -
  obtain g' calls segs g1 where g: "build_flow_graph g = Some g'" "linking g calls segs g1 g'" "bs_set calls = protected_calls g"
    "edge_set g' = {(u, v). u < length segs \<and> v \<in> block_targets g segs u}"
    using build_flow_graph_spec [OF assms] by blast
  have "flow_edge g' u v \<longleftrightarrow> u < length segs \<and> v \<in> block_targets g segs u" for u v
    using g(4) unfolding edge_set_def by (auto dest: equalityD1 equalityD2)
  then show ?thesis
    using g(1,3) linking_cut [OF g(2)] edges_onlyD(1) [OF linkingD(3) [OF g(2)]] entry_edges [OF g(2,4)] by blast
qed

theorem build_flow_graph_exact_witness:
  "\<exists>g' segs calls. build_flow_graph demo_program = Some g' \<and> bs_set calls = {3} \<and> cut_into demo_program calls segs g' \<and> flow_ok g'"
  using build_flow_graph_exact [OF demo_program_ready] by (auto simp: demo_program_protected)

text \<open>
  C5. The graph that is analysed carries every run of the code. The code is as for the cut (it begins with
  no label, ends with no branch and no call, its branches lead to labels of it), its landing pads are labels,
  and the straightening pass finds nothing to coalesce. Then linking the landing pads and analysing the
  graph end, no edge leads to the entry, and a block that is left has code. A step of control, the
  throw of a call of a protected region to its pad included, stays in a block, from an instruction to the
  next, or goes from the end of a block to the start of another along an edge (only a call that unwinds
  to the pad at the head of its own block follows none, by the rule that no block is linked to itself).
  So a block that control reaches is never marked unreachable, and a run that reaches an instruction
  has been through every block the analysis lists as a dominator of its block. Code without phi
  nodes is ready for their placement.
\<close>

theorem flow_graph_carries_control:
  assumes "build_ready g" "pads_labelled g" "build_flow_graph g = Some g1" "\<forall>i < num_blocks g1. \<not> coalesces g1 i"
  shows "\<exists>g2 g3. AddExceptionHandlerEdges g1 = Some g2 \<and> AnalyzeCFG g2 = Some g3 \<and>
    bb_in_edges (block_at g2 (gen_entry_block g2)) = [] \<and> (\<forall>u v. flow_edge g2 u v \<longrightarrow> u \<in> blocks_with_code g2) \<and>
    (\<forall>r r'. r \<in> set (gen_code g) \<and> control_to g r r' \<longrightarrow> carried g g2 r r') \<and>
    (\<forall>r. run_to g g2 {} r \<longrightarrow> (\<exists>b. block_of g2 r = Some b \<and> \<not> bb_is_unreachable (block_at g3 b) \<and>
       (\<forall>d. run_to g g2 {d} r \<longrightarrow> d \<notin> bs_set (bb_dominators (block_at g3 b))))) \<and>
    (finite (dom (gen_nodes g)) \<and> (\<forall>r \<in> set (gen_code g). \<forall>n. gen_nodes g r = Some n \<longrightarrow> ir_opcode n \<noteq> IR_phi) \<longrightarrow> phi_ready g2)"
proof -
  obtain calls segs h where g: "linking g calls segs h g1" "bs_set calls = protected_calls g"
    "edge_set g1 = {(u, v). u < length segs \<and> v \<in> block_targets g segs u}"
    using build_flow_graph_spec [OF assms(1)] assms(3) by force
  obtain g2 where g2: "AddExceptionHandlerEdges g1 = Some g2" "padded g calls segs h g2"
    using AddExceptionHandlerEdges_padded [OF g(1,2) assms(2) g(3)] by blast
  note L = paddedD(1) [OF g2(2)] and entry = padded_entry [OF g2(2)]
  have flow: "flow_ok g2" using edges_onlyD(1) [OF linkingD(3) [OF L]] .
  obtain g3 where g3: "AnalyzeCFG g2 = Some g3" "analyzed g2 g3" using AnalyzeCFG_spec [OF flow] entry by auto
  have run: "\<exists>b. block_of g2 r = Some b \<and> \<not> bb_is_unreachable (block_at g3 b) \<and>
       (\<forall>d. run_to g g2 {d} r \<longrightarrow> d \<notin> bs_set (bb_dominators (block_at g3 b)))" if r: "run_to g g2 {} r" for r
    by (rule run_analyzed [OF g2(2) g3(2) r])
  show ?thesis
    using g2(1) g3(1) entry leaving_block_code [OF g2(2)] control_carried [OF g2(2)] run linking_phi_ready [OF L] by blast
qed

lemma demo_program_pads: "pads_labelled demo_program"
  by (simp add: pads_labelled_def is_label_def demo_program_nodes_def demo_ops)

lemma linking_opcode:
  assumes L: "linking g0 calls segs h g" and n: "gen_nodes g r = Some n"
  shows "\<exists>m. gen_nodes g0 r = Some m \<and> ir_opcode m = ir_opcode n"
proof (cases "r \<in> set (gen_code g0)")
  case True
  then obtain u where "u < length segs" "r \<in> set (segs ! u)"
    using in_segment [OF blocks_cutD(1) [OF linkingD(2) [OF L]]] by blast
  then show ?thesis using linkingD(9) [OF L] n by auto
next
  case False
  then have "gen_nodes h r = gen_nodes g0 r" using blocks_cutD(1,8) [OF linkingD(2) [OF L]] by (simp add: cut_nodes_def)
  then show ?thesis using edges_onlyD(4) [OF linkingD(3) [OF L]] n by simp
qed

lemma demo_program_straight:
  "\<exists>g1. build_flow_graph demo_program = Some g1 \<and> (\<forall>i < num_blocks g1. \<not> coalesces g1 i)"
proof -
  obtain g1 calls segs h where g1: "build_flow_graph demo_program = Some g1" "linking demo_program calls segs h g1"
    using build_flow_graph_spec [OF demo_program_ready] by blast
  have "ir_opcode n \<noteq> IR_bra" if n: "gen_nodes g1 r = Some n" for r n
    using linking_opcode [OF g1(2) n] by (auto simp: demo_program_nodes_def demo_ops split: if_splits)
  then have "\<not> coalesces g1 i" for i
    by (auto simp: coalesces_def IRIsUnconditionalBranch_def split: list.splits option.splits)
  then show ?thesis using g1(1) by blast
qed

lemma demo_program_steps:
  "control_to demo_program 1 2" "control_to demo_program 2 3" "control_to demo_program 3 4" "control_to demo_program 3 5"
proof -
  show "control_to demo_program 1 2" "control_to demo_program 2 3" "control_to demo_program 3 4"
    by (simp_all add: control_to_def control_next_def demo_program_nodes_def IRNext_def IRIsConditionalBranch_def IRIsReturn_def demo_ops)
  show "control_to demo_program 3 5"
    by (simp add: control_to_def unwinds_def region_def is_call_def IRIsCall_def demo_program_nodes_def demo_ops)
qed

theorem flow_graph_carries_control_witness:
  "\<exists>g1 g2. build_flow_graph demo_program = Some g1 \<and> AddExceptionHandlerEdges g1 = Some g2 \<and>
     carried demo_program g2 3 5"
proof -
  obtain g1 where g1: "build_flow_graph demo_program = Some g1" "\<forall>i < num_blocks g1. \<not> coalesces g1 i"
    using demo_program_straight by blast
  have "3 \<in> set (gen_code demo_program)" by simp
  then show ?thesis
    using flow_graph_carries_control [OF demo_program_ready demo_program_pads g1] demo_program_steps(4) g1(1) by blast
qed

text \<open>
  C9. Landing pads are linked, and nothing else is. The pass adds an edge to the block of the
  landing pad from the block of the start of a protected region and from the block of every call in the
  region, none from the pad to itself, and changes nothing but edges; a block that had no edge twice
  still has none twice.
\<close>

theorem AddExceptionHandlerEdges_exact:
  assumes "flow_ok g" "blocks_in_range g" "code_there g"
  shows "\<exists>g'. AddExceptionHandlerEdges g = Some g' \<and> edges_only g g' \<and>
    (\<forall>u. distinct (bb_out_edges (block_at g u)) \<longrightarrow> distinct (bb_out_edges (block_at g' u))) \<and>
    edge_set g' = edge_set g \<union> (\<Union>x \<in> set (gen_exception_ranges g). pad_edges g x)"
  using AddExceptionHandlerEdges_spec [OF assms] by (simp add: pads_only_def conj_assoc)

definition demo_pads :: generator where
  "demo_pads = demo_ssa\<lparr>gen_nodes := (\<lambda>r. if r \<in> {1..6} then Some ((IRInit 0 IR_calla)\<lparr>ir_block := r - 1\<rparr>) else None),
     gen_exception_ranges := [\<lparr>er_try_start = 1, er_try_end = 3, er_catch_label = 5\<rparr>]\<rparr>"

lemma demo_pads_ok:
  "flow_ok demo_pads" "blocks_in_range demo_pads" "code_there demo_pads" "edge_set demo_pads = edge_set demo_ssa"
  "pad_edges demo_pads \<lparr>er_try_start = 1, er_try_end = 3, er_catch_label = 5\<rparr> = {(0, 4), (1, 4)}"
proof -
  have at: "block_at demo_pads = block_at demo_ssa" "num_blocks demo_pads = num_blocks demo_ssa" "gen_entry_block demo_pads = gen_entry_block demo_ssa"
    by (auto simp: block_at_def num_blocks_def demo_pads_def)
  have e: "flow_edge demo_pads = flow_edge demo_ssa" by (intro ext) (simp add: flow_edge_def at)
  show "edge_set demo_pads = edge_set demo_ssa" by (simp add: edge_set_def e)
  show "flow_ok demo_pads" using demo_ssa_flow(4) unfolding flow_ok_def at .
  have code: "gen_code demo_pads = [1, 2, 3, 4, 5, 6]"
    "gen_nodes demo_pads = (\<lambda>r. if r \<in> {1..6} then Some ((IRInit 0 IR_calla)\<lparr>ir_block := r - 1\<rparr>) else None)"
    by (simp_all add: demo_pads_def demo_ssa_def)
  show "code_there demo_pads" by (auto simp: code_there_def code)
  have block: "block_of demo_pads r = (if r \<in> {1..6} then Some (r - 1) else None)" for r by (auto simp: block_of_def code)
  then show "blocks_in_range demo_pads" by (auto simp: blocks_in_range_def at demo_ssa_blocks)
  have "region demo_pads \<lparr>er_try_start = 1, er_try_end = 3, er_catch_label = 5\<rparr> = [1, 2]"
    by (simp add: region_def code is_call_def IRIsCall_def IRInit_def)
  then show "pad_edges demo_pads \<lparr>er_try_start = 1, er_try_end = 3, er_catch_label = 5\<rparr> = {(0, 4), (1, 4)}"
    by (auto simp: pad_edges_def block)
qed

theorem AddExceptionHandlerEdges_exact_witness:
  "\<exists>g'. AddExceptionHandlerEdges demo_pads = Some g' \<and> edge_set g' = edge_set demo_ssa \<union> {(0, 4), (1, 4)}"
proof -
  have "gen_exception_ranges demo_pads = [\<lparr>er_try_start = 1, er_try_end = 3, er_catch_label = 5\<rparr>]" by (simp add: demo_pads_def)
  then show ?thesis using AddExceptionHandlerEdges_exact [OF demo_pads_ok(1-3)] demo_pads_ok(4,5) by auto
qed

end
