(* ===== verification/Dce.thy ===== *)
theory Dce
  imports Sccp
begin

text \<open>
  Dead code elimination (\<open>optimization/dce.c\<close>): expressions without effect or user, and stores to
  local variables that nothing reads, are removed until none is left.
\<close>

definition STO_extern :: u8 where "STO_extern = 8"
definition STO_thread :: u8 where "STO_thread = 64"

definition IRGetVariableSymbol :: "ir_store \<Rightarrow> node_ref \<Rightarrow> symbol_ref" where
  "IRGetVariableSymbol h node =
     (if node = 0 \<or> \<not> IRIsVariable (node_at h node) \<or> ir_opcode (node_at h node) = IR_tmp \<or>
         ir_opcode (node_at h node) = IR_structreturn
      then 0 else ir_symbol_ref (node_at h node))"

definition IsDeadExpression :: "ir_store \<Rightarrow> ir_node \<Rightarrow> bool" where
  "IsDeadExpression h inst \<longleftrightarrow>
     (if \<not> IRIsExpression inst \<or> IRIsConstant inst \<or> IRIsVariable inst \<or> ir_opcode inst = IR_tmp then False
      else if IRHasSideEffects h inst \<or> ir_dest inst \<noteq> 0 then False
      else if list_ex (\<lambda>input. IRHasSideEffects h (node_at h input)) (ir_inputs inst) then False
      else ir_outputs inst = [])"

definition SymbolHasIncDec :: "generator \<Rightarrow> symbol_ref \<Rightarrow> bool" where
  "SymbolHasIncDec g symbol \<longleftrightarrow>
     list_ex (\<lambda>r. let inst = node_at (gen_nodes g) r
                  in IRIsVarDef inst \<and> IRIsStore inst \<and> \<not> IRIsStoreOnly inst \<and> ir_var inst = symbol)
       (gen_code g)"

definition IsDeadLocalStore :: "generator \<Rightarrow> ir_node \<Rightarrow> bool" where
  "IsDeadLocalStore g inst \<longleftrightarrow>
     (if \<not> IRIsStoreOnly inst \<or> ir_inputs inst = [] then False
      else let h = gen_nodes g; dest = ir_inputs inst ! 0
           in if dest = 0 \<or> \<not> IRIsVariable (node_at h dest) then False
              else let symbol = IRGetVariableSymbol h dest; s = gen_symbols g symbol
                   in if symbol = 0 \<or> sym_address_taken s \<or> sym_is_argument s \<or>
                         (\<not> sym_is_local s \<and> \<not> sym_is_temp s) \<or>
                         StorageIs (sym_storage s) (Bit_Operations.or STO_static (Bit_Operations.or STO_extern STO_thread)) \<or>
                         TypeIsVolatile (sym_type s)
                      then False
                      else if SymbolHasIncDec g symbol then False
                      else list_all (\<lambda>r. let user = node_at h r
                                         in IRIsStoreOnly user \<and> ir_inputs user \<noteq> [] \<and> ir_inputs user ! 0 = dest)
                             (ir_outputs (node_at h dest)))"

text \<open>The walk over the instructions of a block, which reads the next one before it removes one.\<close>

partial_function (option) dce_block :: "nat \<Rightarrow> node_ref \<Rightarrow> generator \<Rightarrow> bool \<Rightarrow> (generator \<times> bool) option" where
  "dce_block i inst g changed =
     (if BasicBlockIsEmpty (gen_basic_blocks g ! i) \<or> inst = BasicBlockEnd g (gen_basic_blocks g ! i)
      then Some (g, changed)
      else let following = IRNext g inst; n = node_at (gen_nodes g) inst
           in if IsDeadExpression (gen_nodes g) n \<or> IsDeadLocalStore g n
              then (case BasicBlockRemoveInstruction i inst g of
                      None \<Rightarrow> None
                    | Some g' \<Rightarrow> dce_block i following g' True)
              else dce_block i following g changed)"

fun dce_blocks :: "nat list \<Rightarrow> generator \<Rightarrow> bool \<Rightarrow> (generator \<times> bool) option" where
  "dce_blocks [] g changed = Some (g, changed)"
| "dce_blocks (i # is) g changed =
     (case dce_block i (BasicBlockBegin (gen_basic_blocks g ! i)) g changed of
        None \<Rightarrow> None
      | Some r \<Rightarrow> dce_blocks is (fst r) (snd r))"

partial_function (option) DeadCodeEliminationOptimization :: "generator \<Rightarrow> generator option" where
  "DeadCodeEliminationOptimization g =
     (case dce_blocks [0..<length (gen_basic_blocks g)] g False of
        None \<Rightarrow> None
      | Some r \<Rightarrow> if snd r then DeadCodeEliminationOptimization (fst r) else Some (fst r))"

declare dce_block.simps [code] DeadCodeEliminationOptimization.simps [code]

end
