(* ===== verification/DceSpec.thy ===== *)
theory DceSpec
  imports Dce IrGraphTheorems
begin

text \<open>
  What dead code elimination leaves: the graph without a set of instructions that nothing else
  uses, but for stores, whose users the pass does not look at.
\<close>

section \<open>Programs\<close>

text \<open>
  The instructions of the list are nodes of the graph, and the blocks are disjoint segments of it.
\<close>

definition program_ok :: "generator \<Rightarrow> (nat \<Rightarrow> node_ref list) \<Rightarrow> bool" where
  "program_ok g ls \<longleftrightarrow> graph_ok (gen_nodes g) \<and> code_ok g \<and> (\<forall>r \<in> set (gen_code g). gen_nodes g r \<noteq> None) \<and>
     (\<forall>i < length (gen_basic_blocks g). block_holds g (gen_basic_blocks g ! i) (ls i)) \<and>
     (\<forall>i j r. i < length (gen_basic_blocks g) \<longrightarrow> j < length (gen_basic_blocks g) \<longrightarrow>
        r \<in> set (ls i) \<longrightarrow> r \<in> set (ls j) \<longrightarrow> i = j)"

lemma program_okD:
  assumes "program_ok g ls"
  shows "graph_ok (gen_nodes g)" "code_ok g" "r \<in> set (gen_code g) \<Longrightarrow> gen_nodes g r \<noteq> None"
    "i < length (gen_basic_blocks g) \<Longrightarrow> block_holds g (gen_basic_blocks g ! i) (ls i)"
    "i < length (gen_basic_blocks g) \<Longrightarrow> j < length (gen_basic_blocks g) \<Longrightarrow> r \<in> set (ls i) \<Longrightarrow> r \<in> set (ls j) \<Longrightarrow> i = j"
  using assms unfolding program_ok_def by (elim conjE, blast)+

text \<open>
  No instruction has a store for an operand.  An assignment mostly has the value stored, or its
  destination, for its value; but the increment of a pointer to a variable-length array has
  its store (\<open>IncDecComplex\<close> of \<open>expr_codegen.c\<close>).
\<close>

definition unused_stores :: "generator \<Rightarrow> bool" where
  "unused_stores g \<longleftrightarrow> (\<forall>r n. gen_nodes g r = Some n \<longrightarrow> IRIsStoreOnly n \<longrightarrow> ir_outputs n = [])"

lemma block_in_code:
  assumes "program_ok g ls" "i < length (gen_basic_blocks g)" "r \<in> set (ls i)"
  shows "r \<in> set (gen_code g)" "r \<noteq> 0" "gen_nodes g r \<noteq> None"
proof -
  obtain as bs where "gen_code g = as @ ls i @ bs"
    using program_okD(4) [OF assms(1,2)] unfolding block_holds_def by blast
  then show c: "r \<in> set (gen_code g)" using assms(3) by simp
  show "r \<noteq> 0" using c program_okD(2) [OF assms(1)] by (metis code_ok_def)
  show "gen_nodes g r \<noteq> None" by (rule program_okD(3) [OF assms(1) c])
qed

section \<open>Sweeping\<close>

text \<open>
  The graph \<open>h\<close> is the graph \<open>g\<close> without the instructions \<open>R\<close>; only a store of \<open>R\<close> can have had
  users that stay, and these have lost it from their operands.
\<close>

definition swept :: "generator \<Rightarrow> (nat \<Rightarrow> node_ref list) \<Rightarrow> node_ref set \<Rightarrow> generator \<Rightarrow> bool" where
  "swept g ls R h \<longleftrightarrow> program_ok h (\<lambda>i. filter (\<lambda>r. r \<notin> R) (ls i)) \<and>
     length (gen_basic_blocks h) = length (gen_basic_blocks g) \<and> gen_symbols h = gen_symbols g \<and>
     gen_code h = filter (\<lambda>r. r \<notin> R) (gen_code g) \<and> R \<subseteq> set (gen_code g) \<and>
     (\<forall>r. map_option core (gen_nodes h r) = (if r \<in> R then None else map_option core (gen_nodes g r))) \<and>
     (\<forall>r. r \<notin> R \<longrightarrow> ins (gen_nodes h) r = filter (\<lambda>x. x \<notin> R) (ins (gen_nodes g) r) \<and>
        outs (gen_nodes h) r = filter (\<lambda>x. x \<notin> R) (outs (gen_nodes g) r)) \<and>
     (\<forall>r \<in> R. set (outs (gen_nodes g) r) \<subseteq> R \<or> IRIsStoreOnly (node_at (gen_nodes g) r))"

lemma sweptD:
  assumes "swept g ls R h"
  shows "program_ok h (\<lambda>i. filter (\<lambda>r. r \<notin> R) (ls i))" "length (gen_basic_blocks h) = length (gen_basic_blocks g)"
    "gen_symbols h = gen_symbols g" "gen_code h = filter (\<lambda>r. r \<notin> R) (gen_code g)" "R \<subseteq> set (gen_code g)"
    "map_option core (gen_nodes h r) = (if r \<in> R then None else map_option core (gen_nodes g r))"
    "r \<notin> R \<Longrightarrow> ins (gen_nodes h) r = filter (\<lambda>x. x \<notin> R) (ins (gen_nodes g) r)"
    "r \<notin> R \<Longrightarrow> outs (gen_nodes h) r = filter (\<lambda>x. x \<notin> R) (outs (gen_nodes g) r)"
    "r \<in> R \<Longrightarrow> set (outs (gen_nodes g) r) \<subseteq> R \<or> IRIsStoreOnly (node_at (gen_nodes g) r)"
  using assms unfolding swept_def by (elim conjE, blast)+

lemma swept_refl: "program_ok g ls \<Longrightarrow> swept g ls {} g"
  by (simp add: swept_def)

text \<open>The fields that only the core of a node decides.\<close>

lemma core_fields:
  assumes "core n = core m"
  shows "ir_opcode n = ir_opcode m" "ir_flags n = ir_flags m" "ir_type n = ir_type m" "ir_dest n = ir_dest m"
    "ir_var n = ir_var m" "ir_symbol_ref n = ir_symbol_ref m"
  using arg_cong [OF assms, of ir_opcode] arg_cong [OF assms, of ir_flags] arg_cong [OF assms, of ir_type]
    arg_cong [OF assms, of ir_dest] arg_cong [OF assms, of ir_var] arg_cong [OF assms, of ir_symbol_ref]
  by (simp_all add: core_def)

lemma swept_node:
  assumes "swept g ls R h" "r \<notin> R" "gen_nodes g r = Some n"
  obtains m where "gen_nodes h r = Some m" "core m = core n" "ir_inputs m = filter (\<lambda>x. x \<notin> R) (ir_inputs n)"
    "ir_outputs m = filter (\<lambda>x. x \<notin> R) (ir_outputs n)"
proof -
  have "map_option core (gen_nodes h r) = Some (core n)" using sweptD(6) [OF assms(1), of r] assms(2,3) by simp
  then obtain m where m: "gen_nodes h r = Some m" "core m = core n" by auto
  show thesis
    using that [OF m] sweptD(7,8) [OF assms(1,2)] ins_node [of "gen_nodes h", OF m(1)] ins_node [of "gen_nodes g", OF assms(3)]
      outs_node [of "gen_nodes h", OF m(1)] outs_node [of "gen_nodes g", OF assms(3)] by simp
qed

lemma swept_live: "swept g ls R h \<Longrightarrow> gen_nodes h r = None \<longleftrightarrow> gen_nodes g r = None \<or> r \<in> R"
  using sweptD(6) [of g ls R h r] by (metis map_option_is_None)


section \<open>Removing one instruction\<close>

lemma remove_symbols: "BasicBlockRemoveInstruction i inst g = Some g' \<Longrightarrow> gen_symbols g' = gen_symbols g"
  by (auto simp: BasicBlockRemoveInstruction_def GeneratorRemoveInstruction_def set_block_def split: bind_splits)

lemma removeAll_filter: "removeAll x xs = filter (\<lambda>y. y \<noteq> x) xs"
  by (induction xs) auto

text \<open>An instruction is taken from the lists of every other node.\<close>

lemma remove_one:
  assumes p: "program_ok g ls" and i: "i < length (gen_basic_blocks g)" and y: "y \<in> set (ls i)"
  shows "\<exists>g'. BasicBlockRemoveInstruction i y g = Some g' \<and> gen_code g' = remove1 y (gen_code g) \<and>
    gen_basic_blocks g' = (gen_basic_blocks g)[i := block_without g y (gen_basic_blocks g ! i)] \<and>
    same_cores ((gen_nodes g)(y := None)) (gen_nodes g') \<and> graph_ok (gen_nodes g') \<and>
    (\<forall>m. m \<noteq> y \<longrightarrow> ins (gen_nodes g') m = filter (\<lambda>x. x \<noteq> y) (ins (gen_nodes g) m) \<and>
       outs (gen_nodes g') m = filter (\<lambda>x. x \<noteq> y) (outs (gen_nodes g) m))"
proof -
  let ?b = "block_without g y (gen_basic_blocks g ! i)"
  obtain g' where g': "GeneratorRemoveInstruction y (set_block i ?b g) = Some g'" "graph_ok (gen_nodes g')"
    "gen_code g' = remove1 y (gen_code g)" "gen_basic_blocks g' = (gen_basic_blocks g)[i := ?b]"
    "same_cores ((gen_nodes g)(y := None)) (gen_nodes g')"
    "\<forall>m. m \<noteq> y \<longrightarrow> ins (gen_nodes g') m = removeAll y (ins (gen_nodes g) m) \<and>
       outs (gen_nodes g') m = removeAll y (outs (gen_nodes g) m)"
    using GeneratorRemoveInstruction_effect [of "set_block i ?b g" y] program_okD(1) [OF p] block_in_code(3) [OF p i y]
    by auto
  then show ?thesis by (intro exI [of _ g']) (simp add: BasicBlockRemoveInstruction_def removeAll_filter)
qed

lemma remove_program_ok:
  assumes p: "program_ok g ls" and i: "i < length (gen_basic_blocks g)" and y: "y \<in> set (ls i)"
    and c: "gen_code g' = remove1 y (gen_code g)"
    and b: "gen_basic_blocks g' = (gen_basic_blocks g)[i := block_without g y (gen_basic_blocks g ! i)]"
    and s: "same_cores ((gen_nodes g)(y := None)) (gen_nodes g')" and ok: "graph_ok (gen_nodes g')"
  shows "program_ok g' (\<lambda>j. filter (\<lambda>r. r \<noteq> y) (ls j))"
proof -
  note P = program_okD [OF p]
  have d: "distinct (gen_code g)" "0 \<notin> set (gen_code g)" using P(2) by (simp_all add: code_ok_def)
  have code: "code_ok g'" using d c by (auto simp: code_ok_def dest: notin_set_remove1)
  have live: "gen_nodes g' r \<noteq> None" if "r \<in> set (gen_code g')" for r
  proof -
    have "r \<noteq> y" "r \<in> set (gen_code g)" using that d c by simp_all
    then show ?thesis using P(3) [of r] same_cores_live [OF s, of r] by auto
  qed
  have holds: "block_holds g' (gen_basic_blocks g' ! j) (filter (\<lambda>r. r \<noteq> y) (ls j))" if j: "j < length (gen_basic_blocks g')" for j
  proof -
    have j': "j < length (gen_basic_blocks g)" using j b by simp
    have dj: "distinct (ls j)" using P(4) [OF j'] d by (auto simp: block_holds_def)
    show ?thesis
    proof (cases "j = i")
      case True
      then show ?thesis
        using block_without_holds [OF P(2) P(4) [OF i] y c] b i dj by (simp add: distinct_remove1_removeAll removeAll_filter)
    next
      case False
      then have "y \<notin> set (ls j)" using P(5) [OF i j' y] by blast
      then show ?thesis using other_block_holds [OF P(4) [OF j'] _ c] b False
        by (simp add: removeAll_filter [symmetric])
    qed
  qed
  show ?thesis
    unfolding program_ok_def using ok code live holds P(5) b by auto
qed

lemma sweep_one:
  assumes s: "swept g ls R h" and i: "i < length (gen_basic_blocks g)" and y: "y \<in> set (ls i)" "y \<notin> R"
    and unused: "outs (gen_nodes h) y = [] \<or> IRIsStoreOnly (node_at (gen_nodes g) y)"
  shows "\<exists>h'. BasicBlockRemoveInstruction i y h = Some h' \<and> swept g ls (insert y R) h'"
proof -
  note S = sweptD [OF s]
  let ?ls = "\<lambda>i. filter (\<lambda>r. r \<notin> R) (ls i)"
  have i': "i < length (gen_basic_blocks h)" using i S(2) by simp
  have y': "y \<in> set (?ls i)" using y by simp
  have R: "insert y R \<subseteq> set (gen_code g)" using S(4,5) block_in_code(1) [OF S(1) i' y'] by auto
  obtain h' where h': "BasicBlockRemoveInstruction i y h = Some h'" "gen_code h' = remove1 y (gen_code h)"
    "gen_basic_blocks h' = (gen_basic_blocks h)[i := block_without h y (gen_basic_blocks h ! i)]"
    "same_cores ((gen_nodes h)(y := None)) (gen_nodes h')" "graph_ok (gen_nodes h')"
    "\<And>m. m \<noteq> y \<Longrightarrow> ins (gen_nodes h') m = filter (\<lambda>x. x \<noteq> y) (ins (gen_nodes h) m)"
    "\<And>m. m \<noteq> y \<Longrightarrow> outs (gen_nodes h') m = filter (\<lambda>x. x \<noteq> y) (outs (gen_nodes h) m)"
    using remove_one [OF S(1) i' y'] by blast
  have two: "filter (\<lambda>x. x \<noteq> y) (filter (\<lambda>x. x \<notin> R) xs) = filter (\<lambda>x. x \<notin> insert y R) xs" for xs
    by (simp add: filter_filter conj_commute)
  have p: "program_ok h' (\<lambda>j. filter (\<lambda>r. r \<notin> insert y R) (ls j))"
    using remove_program_ok [OF S(1) i' y' h'(2-5)] unfolding two .
  have "gen_code h' = filter (\<lambda>x. x \<notin> insert y R) (gen_code g)"
    using h'(2) program_okD(2) [OF S(1)] unfolding two [symmetric] S(4) [symmetric]
    by (simp add: code_ok_def distinct_remove1_removeAll removeAll_filter)
  moreover have "map_option core (gen_nodes h' r) = (if r \<in> insert y R then None else map_option core (gen_nodes g r))" for r
    using h'(4) [unfolded same_cores_def, rule_format, of r] S(6) [of r] by (cases "r = y") auto
  moreover have "ins (gen_nodes h') r = filter (\<lambda>x. x \<notin> insert y R) (ins (gen_nodes g) r) \<and>
      outs (gen_nodes h') r = filter (\<lambda>x. x \<notin> insert y R) (outs (gen_nodes g) r)" if "r \<notin> insert y R" for r
    using that h'(6,7) [of r] S(7,8) [of r] two by simp
  moreover have "set (outs (gen_nodes g) r) \<subseteq> insert y R \<or> IRIsStoreOnly (node_at (gen_nodes g) r)"
    if "r \<in> insert y R" for r
  proof (cases "r = y")
    case True
    have "set (outs (gen_nodes g) y) \<subseteq> R" if "outs (gen_nodes h) y = []"
    proof -
      have "filter (\<lambda>x. x \<notin> R) (outs (gen_nodes g) y) = []" using S(8) [OF y(2)] that by simp
      then show ?thesis by (auto simp: filter_empty_conv)
    qed
    then show ?thesis using unused True by blast
  qed (use that S(9) [of r] in blast)
  ultimately have "swept g ls (insert y R) h'"
    unfolding swept_def using p R S(2,3) h'(3) remove_symbols [OF h'(1)] by simp
  then show ?thesis using h'(1) by blast
qed


section \<open>What may be removed\<close>

text \<open>
  An expression that has no effect and whose users go too, or a store to a local variable nothing
  but such stores uses.
\<close>

definition pure_expression :: "ir_store \<Rightarrow> ir_node \<Rightarrow> bool" where
  "pure_expression h n \<longleftrightarrow> IRIsExpression n \<and> \<not> IRIsConstant n \<and> \<not> IRIsVariable n \<and> ir_opcode n \<noteq> IR_tmp \<and>
     \<not> IRHasSideEffects h n \<and> ir_dest n = 0 \<and> (\<forall>x \<in> set (ir_inputs n). \<not> IRHasSideEffects h (node_at h x))"

definition stores_to :: "ir_store \<Rightarrow> node_ref \<Rightarrow> node_ref \<Rightarrow> bool" where
  "stores_to h d r \<longleftrightarrow> IRIsStoreOnly (node_at h r) \<and> ir_inputs (node_at h r) \<noteq> [] \<and> ir_inputs (node_at h r) ! 0 = d"

definition private_variable :: "generator \<Rightarrow> node_ref \<Rightarrow> bool" where
  "private_variable g d \<longleftrightarrow> (let symbol = IRGetVariableSymbol (gen_nodes g) d; s = gen_symbols g symbol
     in symbol \<noteq> 0 \<and> \<not> sym_address_taken s \<and> \<not> sym_is_argument s \<and> (sym_is_local s \<or> sym_is_temp s) \<and>
        \<not> StorageIs (sym_storage s) (Bit_Operations.or STO_static (Bit_Operations.or STO_extern STO_thread)) \<and>
        \<not> TypeIsVolatile (sym_type s))"

definition removable :: "generator \<Rightarrow> node_ref set \<Rightarrow> node_ref \<Rightarrow> bool" where
  "removable g R r \<longleftrightarrow>
     pure_expression (gen_nodes g) (node_at (gen_nodes g) r) \<and> set (outs (gen_nodes g) r) \<subseteq> R \<or>
     (\<exists>d. stores_to (gen_nodes g) d r \<and> private_variable g d \<and>
        (\<forall>u \<in> set (outs (gen_nodes g) d). u \<in> R \<or> stores_to (gen_nodes g) d u))"

definition dead :: "generator \<Rightarrow> node_ref \<Rightarrow> bool" where
  "dead g r \<longleftrightarrow> IsDeadExpression (gen_nodes g) (node_at (gen_nodes g) r) \<or> IsDeadLocalStore g (node_at (gen_nodes g) r)"

lemma removable_mono: "removable g R r \<Longrightarrow> R \<subseteq> S \<Longrightarrow> removable g S r"
  unfolding removable_def by blast

lemma if_False_else: "(if b then False else c) \<longleftrightarrow> \<not> b \<and> c"
  by simp

lemma IsDeadLocalStore_iff:
  "IsDeadLocalStore g n \<longleftrightarrow> (IRIsStoreOnly n \<and> ir_inputs n \<noteq> []) \<and>
     (ir_inputs n ! 0 \<noteq> 0 \<and> IRIsVariable (node_at (gen_nodes g) (ir_inputs n ! 0))) \<and>
     private_variable g (ir_inputs n ! 0) \<and> \<not> SymbolHasIncDec g (IRGetVariableSymbol (gen_nodes g) (ir_inputs n ! 0)) \<and>
     list_all (stores_to (gen_nodes g) (ir_inputs n ! 0)) (ir_outputs (node_at (gen_nodes g) (ir_inputs n ! 0)))"
  unfolding stores_to_def [abs_def]
  by (simp only: IsDeadLocalStore_def private_variable_def Let_def if_False_else de_Morgan_disj de_Morgan_conj not_not
      conj_assoc)

lemma dead_cases:
  assumes "dead g r"
  shows "pure_expression (gen_nodes g) (node_at (gen_nodes g) r) \<and> ir_outputs (node_at (gen_nodes g) r) = [] \<or>
    (\<exists>d. d \<noteq> 0 \<and> stores_to (gen_nodes g) d r \<and> private_variable g d \<and>
       (\<forall>u \<in> set (ir_outputs (node_at (gen_nodes g) d)). stores_to (gen_nodes g) d u))"
  using assms unfolding dead_def
proof
  assume "IsDeadExpression (gen_nodes g) (node_at (gen_nodes g) r)"
  then show ?thesis by (auto simp: IsDeadExpression_def pure_expression_def list_ex_iff split: if_splits)
next
  assume d: "IsDeadLocalStore g (node_at (gen_nodes g) r)"
  let ?n = "node_at (gen_nodes g) r"
  let ?d = "ir_inputs ?n ! 0"
  show ?thesis
    using d unfolding IsDeadLocalStore_iff by (intro disjI2 exI [of _ ?d]) (simp add: stores_to_def list_all_iff)
qed

text \<open>The questions asked of the swept graph have the answers of the graph before.\<close>

lemma swept_at:
  assumes "swept g ls R h" "r \<notin> R" "gen_nodes g r \<noteq> None"
  shows "core (node_at (gen_nodes h) r) = core (node_at (gen_nodes g) r)"
    "ir_inputs (node_at (gen_nodes h) r) = filter (\<lambda>x. x \<notin> R) (ir_inputs (node_at (gen_nodes g) r))"
    "ir_outputs (node_at (gen_nodes h) r) = filter (\<lambda>x. x \<notin> R) (ir_outputs (node_at (gen_nodes g) r))"
proof -
  obtain n where n: "gen_nodes g r = Some n" using assms(3) by auto
  obtain m where "gen_nodes h r = Some m" "core m = core n" "ir_inputs m = filter (\<lambda>x. x \<notin> R) (ir_inputs n)"
    "ir_outputs m = filter (\<lambda>x. x \<notin> R) (ir_outputs n)" by (rule swept_node [OF assms(1,2) n])
  then show "core (node_at (gen_nodes h) r) = core (node_at (gen_nodes g) r)"
    "ir_inputs (node_at (gen_nodes h) r) = filter (\<lambda>x. x \<notin> R) (ir_inputs (node_at (gen_nodes g) r))"
    "ir_outputs (node_at (gen_nodes h) r) = filter (\<lambda>x. x \<notin> R) (ir_outputs (node_at (gen_nodes g) r))"
    using n by (simp_all add: node_at_def)
qed

lemma IRHasSideEffects_cong:
  assumes "core n = core m" "ir_inputs n = ir_inputs m"
    "\<And>x. x \<in> set (ir_inputs m) \<Longrightarrow> ir_type (node_at h x) = ir_type (node_at g x)"
  shows "IRHasSideEffects h n = IRHasSideEffects g m"
proof -
  note C = core_fields [OF assms(1)]
  have "list_ex (\<lambda>x. x \<noteq> 0 \<and> TypeChainIsVolatile (ir_type (node_at h x))) (ir_inputs n) =
      list_ex (\<lambda>x. x \<noteq> 0 \<and> TypeChainIsVolatile (ir_type (node_at g x))) (ir_inputs m)"
    using assms(2,3) by (auto simp: list_ex_iff)
  then show ?thesis
    by (simp only: IRHasSideEffects_def IRIsObservableCheckpoint_def IRIsBranch_def IRIsReturn_def IRIsCall_def IRIsResult_def
      IRIsStore_def IRIsIncDec_def IRIsLoadOnly_def C)
qed


lemma outs_at: "gen_nodes g r \<noteq> None \<Longrightarrow> outs (gen_nodes g) r = ir_outputs (node_at (gen_nodes g) r)"
  and ins_at: "gen_nodes g r \<noteq> None \<Longrightarrow> ins (gen_nodes g) r = ir_inputs (node_at (gen_nodes g) r)"
  by (auto simp: outs_def ins_def node_at_def)

text \<open>An operand that went is a store; where no store is an operand, the operands stay.\<close>

lemma lost_operand:
  assumes p: "graph_ok (gen_nodes g)" and s: "swept g ls R h" and r: "r \<notin> R"
    and x: "x \<in> set (ins (gen_nodes g) r)" "x \<in> R"
  shows "IRIsStoreOnly (node_at (gen_nodes g) x)" "gen_nodes g x \<noteq> None" "outs (gen_nodes g) x \<noteq> []"
proof -
  have o: "r \<in> set (outs (gen_nodes g) x)" using live_edge(1) [OF p, of x r] x(1) by simp
  then show "IRIsStoreOnly (node_at (gen_nodes g) x)" using sweptD(9) [OF s x(2)] r by blast
  show "outs (gen_nodes g) x \<noteq> []" using o by auto
  show "gen_nodes g x \<noteq> None" using live_edge(2) [OF p x(1)] .
qed

lemma kept_operands:
  assumes p: "graph_ok (gen_nodes g)" and u: "unused_stores g" and s: "swept g ls R h" and r: "r \<notin> R"
  shows "set (ins (gen_nodes g) r) \<inter> R = {}" "ins (gen_nodes h) r = ins (gen_nodes g) r"
proof -
  show "set (ins (gen_nodes g) r) \<inter> R = {}"
  proof (rule equals0I)
    fix x assume "x \<in> set (ins (gen_nodes g) r) \<inter> R"
    then have L: "IRIsStoreOnly (node_at (gen_nodes g) x)" "gen_nodes g x \<noteq> None" "outs (gen_nodes g) x \<noteq> []"
      using lost_operand [OF p s r, of x] by auto
    obtain n where n: "gen_nodes g x = Some n" using L(2) by auto
    then have "ir_outputs n = []" using u L(1) by (auto simp: unused_stores_def node_at_def)
    then show False using L(3) outs_node [of "gen_nodes g", OF n] by simp
  qed
  then show "ins (gen_nodes h) r = ins (gen_nodes g) r"
    using sweptD(7) [OF s r] by (simp add: disjoint_iff filter_id_conv)
qed

lemma kept_operand:
  assumes p: "graph_ok (gen_nodes g)" and u: "unused_stores g" and s: "swept g ls R h"
    and r: "r \<notin> R" "gen_nodes g r \<noteq> None"
  shows "ir_inputs (node_at (gen_nodes h) r) = ir_inputs (node_at (gen_nodes g) r)"
    and "x \<in> set (ir_inputs (node_at (gen_nodes g) r)) \<Longrightarrow> x \<notin> R \<and> gen_nodes g x \<noteq> None"
proof -
  have h: "gen_nodes h r \<noteq> None" using swept_live [OF s, of r] r by simp
  show "ir_inputs (node_at (gen_nodes h) r) = ir_inputs (node_at (gen_nodes g) r)"
    using kept_operands(2) [OF p u s r(1)] by (simp add: ins_at [OF h] ins_at [OF r(2)])
  show "x \<notin> R \<and> gen_nodes g x \<noteq> None" if "x \<in> set (ir_inputs (node_at (gen_nodes g) r))"
    using that kept_operands(1) [OF p u s r(1)] live_edge(2) [OF p, of x r] ins_at [OF r(2)] by auto
qed

lemma swept_stores_to:
  assumes "graph_ok (gen_nodes g)" "unused_stores g" "swept g ls R h" "r \<notin> R" "gen_nodes g r \<noteq> None"
  shows "stores_to (gen_nodes h) d r = stores_to (gen_nodes g) d r"
  unfolding stores_to_def IRIsStoreOnly_def
  using kept_operand(1) [OF assms] core_fields(1) [OF swept_at(1) [OF assms(3-5)]] by simp

lemma swept_private:
  assumes "swept g ls R h" "d \<notin> R" "gen_nodes g d \<noteq> None"
  shows "private_variable h d = private_variable g d"
proof -
  note C = core_fields [OF swept_at(1) [OF assms]]
  have "IRGetVariableSymbol (gen_nodes h) d = IRGetVariableSymbol (gen_nodes g) d"
    by (simp only: IRGetVariableSymbol_def IRIsVariable_def C)
  then show ?thesis by (simp only: private_variable_def sweptD(3) [OF assms(1)])
qed

lemma pure_expression_cong:
  assumes c: "core n = core m" "ir_inputs n = ir_inputs m"
    and x: "\<And>x. x \<in> set (ir_inputs m) \<Longrightarrow> core (node_at h x) = core (node_at g x) \<and> ir_inputs (node_at h x) = ir_inputs (node_at g x)"
    and y: "\<And>x y. x \<in> set (ir_inputs m) \<Longrightarrow> y \<in> set (ir_inputs (node_at g x)) \<Longrightarrow> ir_type (node_at h y) = ir_type (node_at g y)"
  shows "pure_expression h n = pure_expression g m"
proof -
  note C = core_fields [OF c(1)]
  have own: "IRHasSideEffects h n = IRHasSideEffects g m"
    using IRHasSideEffects_cong [OF c] core_fields(3) x by blast
  have "IRHasSideEffects h (node_at h x) = IRHasSideEffects g (node_at g x)" if "x \<in> set (ir_inputs m)" for x
    using IRHasSideEffects_cong [of "node_at h x" "node_at g x"] x [OF that] y [OF that] by blast
  then show ?thesis
    by (simp add: pure_expression_def IRIsExpression_def IRIsConstant_def IRIsVariable_def own C c(2) del: set_simps)
qed

lemma swept_pure:
  assumes p: "graph_ok (gen_nodes g)" "unused_stores g" and s: "swept g ls R h" and r: "r \<notin> R" "gen_nodes g r \<noteq> None"
  shows "pure_expression (gen_nodes h) (node_at (gen_nodes h) r) = pure_expression (gen_nodes g) (node_at (gen_nodes g) r)"
proof (rule pure_expression_cong [OF swept_at(1) [OF s r] kept_operand(1) [OF p s r]])
  fix x assume "x \<in> set (ir_inputs (node_at (gen_nodes g) r))"
  then have x: "x \<notin> R" "gen_nodes g x \<noteq> None" using kept_operand(2) [OF p s r] by blast+
  show "core (node_at (gen_nodes h) x) = core (node_at (gen_nodes g) x) \<and>
      ir_inputs (node_at (gen_nodes h) x) = ir_inputs (node_at (gen_nodes g) x)"
    using swept_at(1) [OF s x] kept_operand(1) [OF p s x] by blast
  show "ir_type (node_at (gen_nodes h) y) = ir_type (node_at (gen_nodes g) y)"
    if "y \<in> set (ir_inputs (node_at (gen_nodes g) x))" for y
  proof -
    have "y \<notin> R" "gen_nodes g y \<noteq> None" using kept_operand(2) [OF p s x that] by blast+
    then show ?thesis using core_fields(3) [OF swept_at(1) [OF s]] by blast
  qed
qed

lemma pure_unused_dead: "pure_expression h n \<Longrightarrow> ir_outputs n = [] \<Longrightarrow> IsDeadExpression h n"
  by (simp add: pure_expression_def IsDeadExpression_def list_ex_iff)

lemma dead_unused:
  assumes s: "swept g ls R h" and r: "r \<notin> R" "gen_nodes g r \<noteq> None" and d: "dead h r"
  shows "outs (gen_nodes h) r = [] \<or> IRIsStoreOnly (node_at (gen_nodes g) r)"
proof -
  have hr: "gen_nodes h r \<noteq> None" using swept_live [OF s, of r] r by simp
  have "IRIsStoreOnly (node_at (gen_nodes h) r) = IRIsStoreOnly (node_at (gen_nodes g) r)"
    using core_fields(1) [OF swept_at(1) [OF s r]] by (simp add: IRIsStoreOnly_def)
  then show ?thesis using dead_cases [OF d] outs_at [OF hr] by (auto simp: stores_to_def)
qed

lemma dead_removable:
  assumes p: "graph_ok (gen_nodes g)" "unused_stores g" and s: "swept g ls R h"
    and r: "r \<notin> R" "gen_nodes g r \<noteq> None" and d: "dead h r"
  shows "removable g R r"
proof -
  have hr: "gen_nodes h r \<noteq> None" using swept_live [OF s, of r] r by simp
  note O = sweptD(8) [OF s r(1)]
  consider "pure_expression (gen_nodes h) (node_at (gen_nodes h) r)" "ir_outputs (node_at (gen_nodes h) r) = []"
    | dst where "stores_to (gen_nodes h) dst r" "private_variable h dst"
      "\<forall>u \<in> set (ir_outputs (node_at (gen_nodes h) dst)). stores_to (gen_nodes h) dst u"
    using dead_cases [OF d] by blast
  then show "removable g R r"
  proof cases
    case 1
    then have "filter (\<lambda>x. x \<notin> R) (outs (gen_nodes g) r) = []" using O outs_at [OF hr] by simp
    then have "set (outs (gen_nodes g) r) \<subseteq> R" by (auto simp: filter_empty_conv)
    then show ?thesis using 1(1) swept_pure [OF p s r] by (simp add: removable_def)
  next
    case (2 dst)
    have st: "stores_to (gen_nodes g) dst r" using 2(1) swept_stores_to [OF p s r] by simp
    then have "dst \<in> set (ir_inputs (node_at (gen_nodes g) r))" by (auto simp: stores_to_def)
    then have D: "dst \<notin> R" "gen_nodes g dst \<noteq> None" using kept_operand(2) [OF p s r] by blast+
    have "u \<in> R \<or> stores_to (gen_nodes g) dst u" if u: "u \<in> set (outs (gen_nodes g) dst)" for u
    proof (cases "u \<in> R")
      case False
      have "u \<in> set (ir_outputs (node_at (gen_nodes h) dst))" using u False swept_at(3) [OF s D] outs_at [OF D(2)] by simp
      then have st: "stores_to (gen_nodes h) dst u" using 2(3) by blast
      have "u \<in> set (outs (gen_nodes h) dst)" using u False sweptD(8) [OF s D(1)] by simp
      then have "gen_nodes h u \<noteq> None" using live_edge(3) [OF program_okD(1) [OF sweptD(1) [OF s]]] by blast
      then show ?thesis using st swept_stores_to [OF p s False] swept_live [OF s, of u] by simp
    qed simp
    then show ?thesis using st 2(2) swept_private [OF s D] unfolding removable_def by blast
  qed
qed


section \<open>The walk\<close>

lemma block_end:
  assumes p: "program_ok g ls" and i: "i < length (gen_basic_blocks g)" and l: "ls i = xs @ y # ys"
  shows "\<not> BasicBlockIsEmpty (gen_basic_blocks g ! i)" "y \<noteq> BasicBlockEnd g (gen_basic_blocks g ! i)"
    "IRNext g y = (if ys = [] then BasicBlockEnd g (gen_basic_blocks g ! i) else hd ys)"
proof -
  let ?b = "gen_basic_blocks g ! i"
  obtain as bs where code: "gen_code g = as @ ls i @ bs" using program_okD(4) [OF p i] unfolding block_holds_def by blast
  have b: "bb_code ?b = hd (ls i)" "bb_end_code ?b = last (ls i)" using program_okD(4) [OF p i] l by (auto simp: block_holds_def)
  have ne: "ls i \<noteq> []" using l by simp
  have nz: "bb_code ?b \<noteq> 0" "bb_end_code ?b \<noteq> 0"
    unfolding b using block_in_code(2) [OF p i] hd_in_set [OF ne] last_in_set [OF ne] by blast+
  then show "\<not> BasicBlockIsEmpty ?b" by (simp add: BasicBlockIsEmpty_def)
  have d: "distinct (gen_code g)" using program_okD(2) [OF p] by (simp add: code_ok_def)
  have d1: "distinct ((as @ xs) @ y # (ys @ bs))" using d code l by simp
  have at: "IRNext g y = first_or (ys @ bs) 0" using next_prev_in(1) [OF d1] code l by (simp add: IRNext_def)
  obtain zs where z: "ls i = zs @ [last (ls i)]" using ne by (metis append_butlast_last_id)
  have d2: "distinct ((as @ zs) @ last (ls i) # bs)"
    using d code z by (metis append.assoc append_Cons append_Nil)
  have "gen_code g = (as @ zs) @ last (ls i) # bs" using code z by (metis append.assoc append_Cons append_Nil)
  then have e: "BasicBlockEnd g ?b = first_or bs 0"
    using next_prev_in(1) [OF d2] nz(2) b(2) by (simp add: BasicBlockEnd_def IRNext_def)
  show "IRNext g y = (if ys = [] then BasicBlockEnd g ?b else hd ys)" using at e by (cases ys) simp_all
  have "y \<noteq> 0" using block_in_code(2) [OF p i, of y] l by simp
  then show "y \<noteq> BasicBlockEnd g ?b" using e d1 by (cases bs) auto
qed

lemma block_at_end:
  assumes "program_ok g ls" "i < length (gen_basic_blocks g)" "ls i = []"
  shows "BasicBlockIsEmpty (gen_basic_blocks g ! i)"
  using program_okD(4) [OF assms(1,2)] assms(3) by (simp add: block_holds_def BasicBlockIsEmpty_def)

lemma end_after_removal:
  assumes p: "program_ok g ls" and i: "i < length (gen_basic_blocks g)" and l: "ls i = xs @ [y]"
    and p': "program_ok h ls'" and i': "i < length (gen_basic_blocks h)" and l': "ls' i = xs"
    and code: "gen_code h = filter (\<lambda>r. r \<noteq> y) (gen_code g)"
  shows "BasicBlockIsEmpty (gen_basic_blocks h ! i) \<or> IRNext g y = BasicBlockEnd h (gen_basic_blocks h ! i)"
proof (cases xs rule: rev_cases)
  case Nil
  then show ?thesis using block_at_end [OF p' i'] l' by simp
next
  case (snoc zs z)
  obtain as bs where g: "gen_code g = as @ ls i @ bs" using program_okD(4) [OF p i] unfolding block_holds_def by blast
  have d: "distinct ((as @ zs @ [z]) @ y # bs)" using program_okD(2) [OF p] g l snoc by (simp add: code_ok_def)
  have h: "gen_code h = (as @ zs) @ z # bs" using d code g l snoc by (simp add: removeAll_filter [symmetric])
  have d': "distinct ((as @ zs) @ z # bs)" using d by simp
  have "IRNext h z = IRNext g y"
    using next_prev_in(1) [OF d] next_prev_in(1) [OF d'] g h l snoc by (simp add: IRNext_def)
  then show ?thesis using block_end(3) [OF p' i', of zs z "[]"] l' snoc by simp
qed

text \<open>A round of the loop, from the instructions \<open>ys\<close> of the block on.\<close>

definition removes :: "generator \<Rightarrow> (nat \<Rightarrow> node_ref list) \<Rightarrow> node_ref set \<Rightarrow> generator \<Rightarrow> node_ref set \<Rightarrow> generator \<Rightarrow> bool" where
  "removes g ls R h S h' \<longleftrightarrow> swept g ls S h' \<and> R \<subseteq> S \<and>
     (graph_ok (gen_nodes g) \<longrightarrow> unused_stores g \<longrightarrow> (\<forall>r \<in> S - R. removable g S r)) \<and> (S = R \<longrightarrow> h' = h)"

lemma removes_trans:
  assumes "removes g ls R h S h1" "removes g ls S h1 T h2"
  shows "removes g ls R h T h2"
proof -
  have "removable g T r" if "graph_ok (gen_nodes g)" "unused_stores g" "r \<in> T - R" for r
    using assms that removable_mono unfolding removes_def by (metis Diff_iff)
  then show ?thesis using assms unfolding removes_def by blast
qed

lemma dce_block_spec:
  assumes "swept g ls R h" "i < length (gen_basic_blocks g)" "filter (\<lambda>r. r \<notin> R) (ls i) = xs @ ys"
    and "ys \<noteq> [] \<Longrightarrow> inst = hd ys"
    and "ys = [] \<Longrightarrow> BasicBlockIsEmpty (gen_basic_blocks h ! i) \<or> inst = BasicBlockEnd h (gen_basic_blocks h ! i)"
  shows "\<exists>S h'. dce_block i inst h ch = Some (h', ch \<or> S \<noteq> R) \<and> removes g ls R h S h' \<and> (S = R \<longrightarrow> (\<forall>y \<in> set ys. \<not> dead h y))"
  using assms
proof (induction ys arbitrary: xs R h inst ch)
  case Nil
  then have "dce_block i inst h ch = Some (h, ch)" by (subst dce_block.simps) auto
  then show ?case using Nil.prems(1) by (intro exI [of _ R] exI [of _ h]) (simp add: removes_def)
next
  case (Cons y ys)
  note s = Cons.prems(1) and S = sweptD [OF Cons.prems(1)]
  have i: "i < length (gen_basic_blocks h)" using S(2) Cons.prems(2) by simp
  have inst: "inst = y" using Cons.prems(4) by simp
  note B = block_end [OF S(1) i Cons.prems(3)]
  have y: "y \<in> set (ls i)" "y \<notin> R" using arg_cong [OF Cons.prems(3), of set] by auto
  have gy: "gen_nodes g y \<noteq> None"
    using block_in_code(3) [OF S(1) i, of y] Cons.prems(3) swept_live [OF s, of y] by simp
  have step: "dce_block i inst h ch =
      (if dead h y then (case BasicBlockRemoveInstruction i y h of None \<Rightarrow> None | Some h1 \<Rightarrow> dce_block i (IRNext h y) h1 True)
       else dce_block i (IRNext h y) h ch)"
    using B(1,2) unfolding inst by (subst dce_block.simps) (simp add: dead_def Let_def)
  show ?case
  proof (cases "dead h y")
    case False
    have "\<exists>T h'. dce_block i (IRNext h y) h ch = Some (h', ch \<or> T \<noteq> R) \<and> removes g ls R h T h' \<and> (T = R \<longrightarrow> (\<forall>y \<in> set ys. \<not> dead h y))"
      by (rule Cons.IH [OF s Cons.prems(2), of "xs @ [y]"]) (use Cons.prems(3) B(3) in auto)
    then show ?thesis using step False by auto
  next
    case True
    obtain h1 where h1: "BasicBlockRemoveInstruction i y h = Some h1" "swept g ls (insert y R) h1"
      using sweep_one [OF s Cons.prems(2) y dead_unused [OF s y(2) gy True]] by blast
    have dist: "distinct (xs @ y # ys)"
      using program_okD(4) [OF S(1) i] program_okD(2) [OF S(1)] Cons.prems(3) by (auto simp: block_holds_def code_ok_def)
    have rest: "filter (\<lambda>r. r \<notin> insert y R) (ls i) = xs @ ys"
    proof -
      have "filter (\<lambda>r. r \<notin> insert y R) (ls i) = filter (\<lambda>r. r \<noteq> y) (filter (\<lambda>r. r \<notin> R) (ls i))"
        by (simp add: filter_filter conj_commute)
      also have "\<dots> = xs @ ys" unfolding Cons.prems(3) using dist by (simp add: removeAll_filter [symmetric])
      finally show ?thesis .
    qed
    have i1: "i < length (gen_basic_blocks h1)" using sweptD(2) [OF h1(2)] Cons.prems(2) by simp
    have code: "gen_code h1 = filter (\<lambda>r. r \<noteq> y) (gen_code h)"
      unfolding sweptD(4) [OF h1(2)] S(4) by (simp add: filter_filter conj_commute)
    have "BasicBlockIsEmpty (gen_basic_blocks h1 ! i) \<or> IRNext h y = BasicBlockEnd h1 (gen_basic_blocks h1 ! i)" if "ys = []"
      using end_after_removal [OF S(1) i _ sweptD(1) [OF h1(2)] i1 _ code, of xs] Cons.prems(3) rest that by simp
    then obtain T h' where T: "dce_block i (IRNext h y) h1 True = Some (h', True)" "removes g ls (insert y R) h1 T h'"
      using Cons.IH [OF h1(2) Cons.prems(2) rest, of "IRNext h y" True] B(3) by auto
    have "removes g ls R h (insert y R) h1"
      using h1(2) removable_mono [OF dead_removable [OF _ _ s y(2) gy True], of "insert y R"] y(2)
      by (auto simp: removes_def)
    then have "removes g ls R h T h'" using T(2) by (rule removes_trans)
    moreover have "T \<noteq> R" using T(2) y(2) by (auto simp: removes_def)
    ultimately show ?thesis using step True h1(1) T(1) by (intro exI [of _ T] exI [of _ h']) simp
  qed
qed


lemma dce_blocks_spec:
  assumes "swept g ls R h" "set is \<subseteq> {..<length (gen_basic_blocks g)}"
  shows "\<exists>S h'. dce_blocks is h ch = Some (h', ch \<or> S \<noteq> R) \<and> removes g ls R h S h' \<and>
    (S = R \<longrightarrow> (\<forall>i \<in> set is. \<forall>y \<in> set (ls i). y \<notin> R \<longrightarrow> \<not> dead h y))"
  using assms
proof (induction "is" arbitrary: R h ch)
  case Nil
  then show ?case by (intro exI [of _ R] exI [of _ h]) (simp add: removes_def)
next
  case (Cons i "is")
  note s = Cons.prems(1) and S = sweptD [OF Cons.prems(1)]
  have i: "i < length (gen_basic_blocks g)" "i < length (gen_basic_blocks h)" using Cons.prems(2) S(2) by simp_all
  let ?l = "filter (\<lambda>r. r \<notin> R) (ls i)"
  have "\<exists>T h1. dce_block i (BasicBlockBegin (gen_basic_blocks h ! i)) h ch = Some (h1, ch \<or> T \<noteq> R) \<and> removes g ls R h T h1 \<and>
      (T = R \<longrightarrow> (\<forall>y \<in> set ?l. \<not> dead h y))"
  proof (rule dce_block_spec [OF s i(1), of "[]"])
    show "?l \<noteq> [] \<Longrightarrow> BasicBlockBegin (gen_basic_blocks h ! i) = hd ?l"
      using program_okD(4) [OF S(1) i(2)] by (simp add: block_holds_def BasicBlockBegin_def)
    show "?l = [] \<Longrightarrow> BasicBlockIsEmpty (gen_basic_blocks h ! i) \<or>
        BasicBlockBegin (gen_basic_blocks h ! i) = BasicBlockEnd h (gen_basic_blocks h ! i)"
      using block_at_end [OF S(1) i(2)] by simp
  qed simp
  then obtain T h1 where T: "dce_block i (BasicBlockBegin (gen_basic_blocks h ! i)) h ch = Some (h1, ch \<or> T \<noteq> R)"
    "removes g ls R h T h1" "T = R \<Longrightarrow> \<forall>y \<in> set ?l. \<not> dead h y" by blast
  have s1: "swept g ls T h1" using T(2) by (simp add: removes_def)
  have sub: "set is \<subseteq> {..<length (gen_basic_blocks g)}" using Cons.prems(2) by simp
  obtain U h2 where U: "dce_blocks is h1 (ch \<or> T \<noteq> R) = Some (h2, (ch \<or> T \<noteq> R) \<or> U \<noteq> T)" "removes g ls T h1 U h2"
    "U = T \<Longrightarrow> \<forall>i \<in> set is. \<forall>y \<in> set (ls i). y \<notin> T \<longrightarrow> \<not> dead h1 y"
    using Cons.IH [OF s1 sub, of "ch \<or> T \<noteq> R"] by blast
  have r: "removes g ls R h U h2" by (rule removes_trans [OF T(2) U(2)])
  have sub: "R \<subseteq> T" "T \<subseteq> U" using T(2) U(2) by (simp_all add: removes_def)
  then have eq: "((ch \<or> T \<noteq> R) \<or> U \<noteq> T) = (ch \<or> U \<noteq> R)" by blast
  have "\<forall>i \<in> set (i # is). \<forall>y \<in> set (ls i). y \<notin> R \<longrightarrow> \<not> dead h y" if "U = R"
  proof -
    have "T = R" using sub that by blast
    then have "h1 = h" using T(2) by (simp add: removes_def)
    then show ?thesis using T(3) U(3) \<open>T = R\<close> that by auto
  qed
  then show ?case using T(1) U(1) r unfolding eq by (intro exI [of _ U] exI [of _ h2]) simp
qed

lemma DeadCodeElimination_spec:
  assumes "swept g ls R h" "graph_ok (gen_nodes g)" "unused_stores g \<longrightarrow> (\<forall>r \<in> R. removable g R r)"
  shows "\<exists>S h'. DeadCodeEliminationOptimization h = Some h' \<and> swept g ls S h' \<and>
    (unused_stores g \<longrightarrow> (\<forall>r \<in> S. removable g S r)) \<and>
    (\<forall>i < length (gen_basic_blocks g). \<forall>y \<in> set (ls i). y \<notin> S \<longrightarrow> \<not> dead h' y)"
  using assms
proof (induction "card (set (gen_code g) - R)" arbitrary: R h rule: less_induct)
  case less
  let ?is = "[0..<length (gen_basic_blocks g)]"
  have sub: "set ?is \<subseteq> {..<length (gen_basic_blocks g)}" by auto
  obtain T h1 where T: "dce_blocks ?is h False = Some (h1, T \<noteq> R)" "removes g ls R h T h1"
    "T = R \<Longrightarrow> \<forall>i \<in> set ?is. \<forall>y \<in> set (ls i). y \<notin> R \<longrightarrow> \<not> dead h y"
    using dce_blocks_spec [OF less.prems(1) sub, of False] by auto
  have len: "length (gen_basic_blocks h) = length (gen_basic_blocks g)" by (rule sweptD(2) [OF less.prems(1)])
  have step: "DeadCodeEliminationOptimization h = (if T \<noteq> R then DeadCodeEliminationOptimization h1 else Some h1)"
    using T(1) by (subst DeadCodeEliminationOptimization.simps) (simp add: len)
  have s1: "swept g ls T h1" "R \<subseteq> T" using T(2) by (simp_all add: removes_def)
  have all: "unused_stores g \<longrightarrow> (\<forall>r \<in> T. removable g T r)"
    using T(2) less.prems(2,3) removable_mono [of g R _ T] s1(2) unfolding removes_def by blast
  show ?case
  proof (cases "T = R")
    case True
    then have "h1 = h" using T(2) by (simp add: removes_def)
    then show ?thesis using step True T(3) less.prems by (intro exI [of _ R] exI [of _ h]) auto
  next
    case False
    have "set (gen_code g) - T \<subset> set (gen_code g) - R" using s1(2) sweptD(5) [OF s1(1)] False by blast
    then have "card (set (gen_code g) - T) < card (set (gen_code g) - R)" by (intro psubset_card_mono) simp_all
    then show ?thesis using less.hyps [OF _ s1(1) less.prems(2) all] step False by simp
  qed
qed

end
