(* ===== verification/DceTheorems.thy ===== *)
theory DceTheorems
  imports DceSpec
begin







section \<open>A store that is an operand\<close>

text \<open>
  The code of \<open>f(++p)\<close> after the conversion to SSA form, where \<open>p\<close> is a pointer to a
  variable-length array that is not read again: the value of the increment is the store (4) to
  the new version (3) of \<open>p\<close>, and the call (6) has it for its argument.
\<close>

definition used_store_demo :: generator where
  "used_store_demo = demo_gen
     \<lparr>gen_nodes := [2 \<mapsto> demo_node IR_const64 [] [4], 3 \<mapsto> (demo_node IR_ssavar [] [4])\<lparr>ir_symbol_ref := 1\<rparr>,
                    4 \<mapsto> demo_node IR_storea [3, 2] [6], 5 \<mapsto> demo_node IR_externvar [] [6],
                    6 \<mapsto> demo_node IR_calla [5, 4] []],
      gen_code := [2, 3, 5, 4, 6], gen_basic_blocks := [demo_block 0 2 6], gen_last_constant := 2\<rparr>"

text \<open>The only user of the new version is the store, so the store goes, and the call loses its argument.\<close>

lemma used_store_removed:
  "map_option (\<lambda>g'. (gen_code g', ins (gen_nodes g') 6)) (DeadCodeEliminationOptimization used_store_demo)
    = Some ([2, 3, 5, 6], [5])"
  by code_simp

end
