(* ===== verification/CTree.thy ===== *)
theory CTree
  imports CPrelude "HOL-Library.Monad_Syntax"
begin

text \<open>
  The red-black tree of \<open>util/binary_tree.c\<close>.  A client embeds a node at the start of a struct of
  its own: the node is a record and the client's struct an extension of it.  A pointer is a number with 0
  for NULL, the heap maps pointers to nodes, and reading or writing through NULL or a dangling
  pointer is \<^term>\<open>None\<close>.  The comparison functions read the client's part of a node only.
\<close>

section \<open>Nodes\<close>

datatype bt_color = Red | Black

record bt_node =
  bt_color :: bt_color
  bt_left :: nat
  bt_right :: nat
  bt_parent :: nat
  bt_index :: u32

type_synonym 'a bt_heap = "nat \<Rightarrow> 'a bt_node_scheme option"

record bt_tree =
  bt_root :: nat
  bt_count :: u32

type_synonym 'a bt_state = "'a bt_heap \<times> bt_tree"

definition BinaryTreeNodeInit :: "'a bt_node_scheme \<Rightarrow> 'a bt_node_scheme" where
  "BinaryTreeNodeInit node = node\<lparr>bt_color := Red, bt_left := 0, bt_right := 0, bt_parent := 0, bt_index := 0\<rparr>"

definition BinaryTreeInit :: bt_tree where
  "BinaryTreeInit = \<lparr>bt_root = 0, bt_count = 0\<rparr>"

definition deref :: "'a bt_heap \<Rightarrow> nat \<Rightarrow> 'a bt_node_scheme option" where
  "deref h r = (if r = 0 then None else h r)"

definition assign :: "nat \<Rightarrow> ('a bt_node_scheme \<Rightarrow> 'a bt_node_scheme) \<Rightarrow> 'a bt_heap \<Rightarrow> 'a bt_heap option" where
  "assign r f h = do { n \<leftarrow> deref h r; Some (h(r \<mapsto> f n)) }"

section \<open>Rotations\<close>

text \<open>The link to \<open>x\<close> from its parent, or the root, is redirected to \<open>y\<close>.\<close>

definition relink :: "nat \<Rightarrow> nat \<Rightarrow> nat \<Rightarrow> 'a bt_state \<Rightarrow> 'a bt_state option" where
  "relink parent x y s =
     (if parent = 0 then Some (fst s, (snd s)\<lparr>bt_root := y\<rparr>)
      else do {
        np \<leftarrow> deref (fst s) parent;
        h \<leftarrow> (if x = bt_left np then assign parent (\<lambda>n. n\<lparr>bt_left := y\<rparr>) (fst s)
              else assign parent (\<lambda>n. n\<lparr>bt_right := y\<rparr>) (fst s));
        Some (h, snd s)
      })"

definition RotateLeft :: "nat \<Rightarrow> 'a bt_state \<Rightarrow> 'a bt_state option" where
  "RotateLeft x s = do {
     let h = fst s;
     nx \<leftarrow> deref h x;
     let y = bt_right nx;
     ny \<leftarrow> deref h y;
     h1 \<leftarrow> assign x (\<lambda>n. n\<lparr>bt_right := bt_left ny\<rparr>) h;
     h2 \<leftarrow> (if bt_left ny \<noteq> 0 then assign (bt_left ny) (\<lambda>n. n\<lparr>bt_parent := x\<rparr>) h1 else Some h1);
     nx2 \<leftarrow> deref h2 x;
     h3 \<leftarrow> assign y (\<lambda>n. n\<lparr>bt_parent := bt_parent nx2\<rparr>) h2;
     nx3 \<leftarrow> deref h3 x;
     (h4, t) \<leftarrow> relink (bt_parent nx3) x y (h3, snd s);
     h5 \<leftarrow> assign y (\<lambda>n. n\<lparr>bt_left := x\<rparr>) h4;
     h6 \<leftarrow> assign x (\<lambda>n. n\<lparr>bt_parent := y\<rparr>) h5;
     Some (h6, t)
   }"

definition RotateRight :: "nat \<Rightarrow> 'a bt_state \<Rightarrow> 'a bt_state option" where
  "RotateRight x s = do {
     let h = fst s;
     nx \<leftarrow> deref h x;
     let y = bt_left nx;
     ny \<leftarrow> deref h y;
     h1 \<leftarrow> assign x (\<lambda>n. n\<lparr>bt_left := bt_right ny\<rparr>) h;
     h2 \<leftarrow> (if bt_right ny \<noteq> 0 then assign (bt_right ny) (\<lambda>n. n\<lparr>bt_parent := x\<rparr>) h1 else Some h1);
     nx2 \<leftarrow> deref h2 x;
     h3 \<leftarrow> assign y (\<lambda>n. n\<lparr>bt_parent := bt_parent nx2\<rparr>) h2;
     nx3 \<leftarrow> deref h3 x;
     (h4, t) \<leftarrow> relink (bt_parent nx3) x y (h3, snd s);
     h5 \<leftarrow> assign y (\<lambda>n. n\<lparr>bt_right := x\<rparr>) h4;
     h6 \<leftarrow> assign x (\<lambda>n. n\<lparr>bt_parent := y\<rparr>) h5;
     Some (h6, t)
   }"

section \<open>Insertion\<close>

text \<open>The pointer variables that hold a link: the second argument of \<open>InsertNode\<close> is the address of one.\<close>

datatype bt_slot = RootSlot | LeftSlot nat | RightSlot nat

fun load_slot :: "bt_slot \<Rightarrow> 'a bt_state \<Rightarrow> nat option" where
  "load_slot RootSlot s = Some (bt_root (snd s))"
| "load_slot (LeftSlot r) s = map_option bt_left (deref (fst s) r)"
| "load_slot (RightSlot r) s = map_option bt_right (deref (fst s) r)"

fun store_slot :: "bt_slot \<Rightarrow> nat \<Rightarrow> 'a bt_state \<Rightarrow> 'a bt_state option" where
  "store_slot RootSlot x s = Some (fst s, (snd s)\<lparr>bt_root := x\<rparr>)"
| "store_slot (LeftSlot r) x s = map_option (\<lambda>h. (h, snd s)) (assign r (\<lambda>n. n\<lparr>bt_left := x\<rparr>) (fst s))"
| "store_slot (RightSlot r) x s = map_option (\<lambda>h. (h, snd s)) (assign r (\<lambda>n. n\<lparr>bt_right := x\<rparr>) (fst s))"

partial_function (option) InsertNode ::
  "('a \<Rightarrow> 'a \<Rightarrow> int) \<Rightarrow> bt_slot \<Rightarrow> nat \<Rightarrow> nat \<Rightarrow> 'a bt_state \<Rightarrow> ('a bt_state \<times> bool) option" where
  "InsertNode compare root node parent s = do {
     r \<leftarrow> load_slot root s;
     if r = 0
     then do {
       s1 \<leftarrow> store_slot root node s;
       h \<leftarrow> assign node (\<lambda>n. n\<lparr>bt_parent := parent\<rparr>) (fst s1);
       Some ((h, snd s1), True)
     }
     else do {
       a \<leftarrow> deref (fst s) r;
       b \<leftarrow> deref (fst s) node;
       let v = compare (bt_node.more a) (bt_node.more b);
       if v = 0 then Some (s, False)
       else if 0 < v then InsertNode compare (LeftSlot r) node r s
       else InsertNode compare (RightSlot r) node r s
     }
   }"

definition is_red :: "'a bt_heap \<Rightarrow> nat \<Rightarrow> bool option" where
  "is_red h r = (if r = 0 then Some False else map_option (\<lambda>n. bt_color n = Red) (deref h r))"

definition paint :: "nat \<Rightarrow> bt_color \<Rightarrow> 'a bt_heap \<Rightarrow> 'a bt_heap option" where
  "paint r c h = assign r (\<lambda>n. n\<lparr>bt_color := c\<rparr>) h"

text \<open>The aunt is red: the colors of \<open>P\<close>, \<open>G\<close> and \<open>A\<close> change and \<open>G\<close> is the next node.\<close>

definition recolor :: "nat \<Rightarrow> nat \<Rightarrow> 'a bt_state \<Rightarrow> (nat \<times> 'a bt_state) option" where
  "recolor x aunt s = do {
     nx \<leftarrow> deref (fst s) x;
     h1 \<leftarrow> paint (bt_parent nx) Black (fst s);
     h2 \<leftarrow> paint aunt Black h1;
     nx2 \<leftarrow> deref h2 x;
     np \<leftarrow> deref h2 (bt_parent nx2);
     h3 \<leftarrow> paint (bt_parent np) Red h2;
     nx3 \<leftarrow> deref h3 x;
     np3 \<leftarrow> deref h3 (bt_parent nx3);
     Some (bt_parent np3, (h3, snd s))
   }"

text \<open>The aunt is black: \<open>P\<close> turns black, \<open>G\<close> red, and \<open>G\<close> is rotated.\<close>

definition raise_parent :: "(nat \<Rightarrow> 'a bt_state \<Rightarrow> 'a bt_state option) \<Rightarrow> nat \<Rightarrow> 'a bt_state \<Rightarrow> (nat \<times> 'a bt_state) option" where
  "raise_parent rotation x s = do {
     nx \<leftarrow> deref (fst s) x;
     h1 \<leftarrow> paint (bt_parent nx) Black (fst s);
     nx2 \<leftarrow> deref h1 x;
     np \<leftarrow> deref h1 (bt_parent nx2);
     h2 \<leftarrow> paint (bt_parent np) Red h1;
     nx3 \<leftarrow> deref h2 x;
     np3 \<leftarrow> deref h2 (bt_parent nx3);
     s3 \<leftarrow> rotation (bt_parent np3) (h2, snd s);
     Some (x, s3)
   }"

text \<open>One round of the loop, by the side of the grandparent the parent is on.\<close>

definition fix_node :: "nat \<Rightarrow> 'a bt_state \<Rightarrow> (nat \<times> 'a bt_state) option" where
  "fix_node x s = do {
     nx \<leftarrow> deref (fst s) x;
     np \<leftarrow> deref (fst s) (bt_parent nx);
     ng \<leftarrow> deref (fst s) (bt_parent np);
     if bt_parent nx = bt_left ng
     then do {
       let aunt = bt_right ng;
       red \<leftarrow> is_red (fst s) aunt;
       if red then recolor x aunt s
       else if x = bt_right np
       then do { s1 \<leftarrow> RotateLeft (bt_parent nx) s; raise_parent RotateRight (bt_parent nx) s1 }
       else raise_parent RotateRight x s
     }
     else do {
       let aunt = bt_left ng;
       red \<leftarrow> is_red (fst s) aunt;
       if red then recolor x aunt s
       else if x = bt_left np
       then do { s1 \<leftarrow> RotateRight (bt_parent nx) s; raise_parent RotateLeft (bt_parent nx) s1 }
       else raise_parent RotateLeft x s
     }
   }"

partial_function (option) fix_loop :: "nat \<Rightarrow> 'a bt_state \<Rightarrow> 'a bt_state option" where
  "fix_loop x s =
     (if x = bt_root (snd s) then Some s
      else do {
        nx \<leftarrow> deref (fst s) x;
        np \<leftarrow> deref (fst s) (bt_parent nx);
        if bt_color np = Red
        then do { (x1, s1) \<leftarrow> fix_node x s; fix_loop x1 s1 }
        else Some s
      })"

definition BinaryTreeNodeInsert :: "('a \<Rightarrow> 'a \<Rightarrow> int) \<Rightarrow> nat \<Rightarrow> 'a bt_state \<Rightarrow> ('a bt_state \<times> bool) option" where
  "BinaryTreeNodeInsert compare node s = do {
     (s1, ok) \<leftarrow> InsertNode compare RootSlot node 0 s;
     if \<not> ok then Some (s1, False)
     else do {
       s2 \<leftarrow> fix_loop node s1;
       h \<leftarrow> paint (bt_root (snd s2)) Black (fst s2);
       Some ((h, snd s2), True)
     }
   }"

definition BinaryTreeInsert :: "('a \<Rightarrow> 'a \<Rightarrow> int) \<Rightarrow> nat \<Rightarrow> 'a bt_state \<Rightarrow> ('a bt_state \<times> bool) option" where
  "BinaryTreeInsert compare node s =
     (if node = 0 then None
      else let t = (snd s)\<lparr>bt_count := bt_count (snd s) + 1\<rparr>
           in do {
             h \<leftarrow> assign node (\<lambda>n. n\<lparr>bt_index := bt_count t\<rparr>) (fst s);
             BinaryTreeNodeInsert compare node (h, t)
           })"

section \<open>Search, traversal and destruction\<close>

partial_function (option) BinaryTreeNodeSearch :: "('a \<Rightarrow> 'q \<Rightarrow> int) \<Rightarrow> 'q \<Rightarrow> 'a bt_heap \<Rightarrow> nat \<Rightarrow> nat option" where
  "BinaryTreeNodeSearch compare key h node =
     (if node = 0 then Some node
      else do {
        n \<leftarrow> deref h node;
        let v = compare (bt_node.more n) key;
        if v = 0 then Some node
        else if 0 < v then BinaryTreeNodeSearch compare key h (bt_left n)
        else BinaryTreeNodeSearch compare key h (bt_right n)
      })"

definition BinaryTreeSearch :: "('a \<Rightarrow> 'q \<Rightarrow> int) \<Rightarrow> 'q \<Rightarrow> 'a bt_heap \<Rightarrow> bt_tree option \<Rightarrow> nat option" where
  "BinaryTreeSearch compare key h tree =
     (case tree of None \<Rightarrow> Some 0 | Some t \<Rightarrow> BinaryTreeNodeSearch compare key h (bt_root t))"

text \<open>The callback of a traversal changes the data it is given, not the tree.\<close>

partial_function (option) BinaryTreeNodeTraverse ::
  "('a bt_node_scheme \<Rightarrow> int \<Rightarrow> 's \<Rightarrow> 's) \<Rightarrow> 'a bt_heap \<Rightarrow> nat \<Rightarrow> int \<Rightarrow> 's \<Rightarrow> 's option" where
  "BinaryTreeNodeTraverse traverse h node depth data =
     (if node = 0 then Some data
      else do {
        n \<leftarrow> deref h node;
        data1 \<leftarrow> BinaryTreeNodeTraverse traverse h (bt_right n) (depth + 1) data;
        BinaryTreeNodeTraverse traverse h (bt_left n) (depth + 1) (traverse n depth data1)
      })"

definition BinaryTreeTraverse :: "('a bt_node_scheme \<Rightarrow> int \<Rightarrow> 's \<Rightarrow> 's) \<Rightarrow> 'a bt_heap \<Rightarrow> bt_tree \<Rightarrow> 's \<Rightarrow> 's option" where
  "BinaryTreeTraverse func h tree data = BinaryTreeNodeTraverse func h (bt_root tree) 0 data"

text \<open>
  Destruction calls the destructor of the client, when there is one, for every node and frees the node.  The
  destructor may change the data it is given; it must not free the node.
\<close>

partial_function (option) BinaryTreeNodeDelete ::
  "('a bt_node_scheme \<Rightarrow> 's \<Rightarrow> 's) option \<Rightarrow> nat \<Rightarrow> 'a bt_heap \<times> 's \<Rightarrow> ('a bt_heap \<times> 's) option" where
  "BinaryTreeNodeDelete destructor node s =
     (if node = 0 then Some s
      else do {
        n \<leftarrow> deref (fst s) node;
        s1 \<leftarrow> BinaryTreeNodeDelete destructor (bt_left n) s;
        m \<leftarrow> deref (fst s1) node;
        s2 \<leftarrow> BinaryTreeNodeDelete destructor (bt_right m) s1;
        k \<leftarrow> deref (fst s2) node;
        let data = (case destructor of None \<Rightarrow> snd s2 | Some d \<Rightarrow> d k (snd s2));
        Some ((fst s2)(node := None), data)
      })"

definition BinaryTreeDestruct ::
  "('a bt_node_scheme \<Rightarrow> 's \<Rightarrow> 's) option \<Rightarrow> bt_tree option \<Rightarrow> 'a bt_heap \<times> 's \<Rightarrow> ('a bt_heap \<times> 's) option" where
  "BinaryTreeDestruct destructor tree s =
     (case tree of None \<Rightarrow> Some s | Some t \<Rightarrow> BinaryTreeNodeDelete destructor (bt_root t) s)"

declare InsertNode.simps [code] fix_loop.simps [code] BinaryTreeNodeSearch.simps [code]
  BinaryTreeNodeTraverse.simps [code] BinaryTreeNodeDelete.simps [code]

end
