(* ===== verification/CSymTab.thy ===== *)
theory CSymTab
  imports CTree
begin

text \<open>
  The symbol tables of a scope (\<open>frontend/syntax/symbol_table.c\<close>): a tree of symbol nodes by name,
  the namespace aliases of the scope, and the stack of scopes.  A \<open>String\<close> is the list of its bytes
  without the last terminator; comparison and copying stop at the first zero byte.  Of a symbol the fields that these functions use are kept.  Allocation of a node
  is a parameter; \<open>NewSymbolNode\<close> leaves a node as \<open>BinaryTreeNodeInit\<close> does.
\<close>

section \<open>Names\<close>

type_synonym name = "u8 list"

text \<open>The C library's \<open>strcmp\<close>, on unsigned characters.\<close>

fun strcmp :: "name \<Rightarrow> name \<Rightarrow> int" where
  "strcmp [] [] = 0"
| "strcmp [] (y # ys) = - uint y"
| "strcmp (x # xs) [] = uint x"
| "strcmp (x # xs) (y # ys) = (if x = y \<and> x \<noteq> 0 then strcmp xs ys else uint x - uint y)"

text \<open>What \<open>StringInit\<close> copies of a name.\<close>

definition c_str :: "name \<Rightarrow> name" where
  "c_str str = takeWhile (\<lambda>b. b \<noteq> 0) str"

definition StringEqualString :: "name \<Rightarrow> name \<Rightarrow> bool" where
  "StringEqualString str1 str2 \<longleftrightarrow> strcmp str1 str2 = 0"

definition StringCompareString :: "name \<Rightarrow> name \<Rightarrow> int" where
  "StringCompareString str1 str2 = strcmp str1 str2"

section \<open>Tables\<close>

text \<open>The part of a symbol node after its header.\<close>

record sym_part =
  sn_name :: name
  sn_symbol :: nat

record symbol =
  sy_name :: name
  sy_is_name_independent :: bool
  sy_lookup_ambiguous :: bool

type_synonym symbol_store = "nat \<Rightarrow> symbol option"

record ns_alias =
  na_name :: name
  na_target :: nat

record local_table =
  lt_table :: bt_tree
  lt_namespace_aliases :: "ns_alias list"

definition SymbolNodeInsertCompare :: "sym_part \<Rightarrow> sym_part \<Rightarrow> int" where
  "SymbolNodeInsertCompare node1 node2 = StringCompareString (sn_name node1) (sn_name node2)"

definition SymbolNodeSearchCompare :: "sym_part \<Rightarrow> name \<Rightarrow> int" where
  "SymbolNodeSearchCompare node name = StringCompareString (sn_name node) name"

text \<open>The destructor deletes the symbol of a node when it is told to: the symbols to delete are its data.\<close>

definition SymbolNodeDestructor :: "bool \<Rightarrow> sym_part bt_node_scheme \<Rightarrow> symbol_store \<Rightarrow> symbol_store" where
  "SymbolNodeDestructor delete_symbols node syms =
     (if delete_symbols then syms(sn_symbol (bt_node.more node) := None) else syms)"

definition NewSymbolNode :: "(sym_part bt_heap \<Rightarrow> nat) \<Rightarrow> symbol_store \<Rightarrow> nat \<Rightarrow> sym_part bt_heap \<Rightarrow> (sym_part bt_heap \<times> nat) option" where
  "NewSymbolNode malloc syms symbol h = do {
     sy \<leftarrow> (if symbol = 0 then None else syms symbol);
     let node = malloc h;
         raw = bt_node.extend \<lparr>bt_color = Black, bt_left = 0, bt_right = 0, bt_parent = 0, bt_index = 0\<rparr>
                 \<lparr>sn_name = c_str (sy_name sy), sn_symbol = symbol\<rparr>
     in Some (h(node \<mapsto> BinaryTreeNodeInit raw), node)
   }"

definition SymbolNodeDelete :: "nat \<Rightarrow> sym_part bt_heap \<Rightarrow> sym_part bt_heap" where
  "SymbolNodeDelete node h = (if node = 0 then h else h(node := None))"

definition FindSymbol :: "sym_part bt_heap \<Rightarrow> bt_tree option \<Rightarrow> name \<Rightarrow> nat option" where
  "FindSymbol h table name =
     (case table of None \<Rightarrow> Some 0
      | Some t \<Rightarrow> do {
          node \<leftarrow> BinaryTreeSearch SymbolNodeSearchCompare name h (Some t);
          if node = 0 then Some 0 else map_option (\<lambda>n. sn_symbol (bt_node.more n)) (deref h node)
        })"

section \<open>Namespace aliases\<close>

fun FindNamespaceAliasInVector :: "ns_alias list \<Rightarrow> name \<Rightarrow> nat" where
  "FindNamespaceAliasInVector [] name = 0"
| "FindNamespaceAliasInVector (alias # aliases) name =
     (if StringEqualString (na_name alias) name then na_target alias else FindNamespaceAliasInVector aliases name)"

datatype alias_result = kNamespaceAliasInserted | kNamespaceAliasRedeclared | kNamespaceAliasConflict

definition InsertNamespaceAliasInVector :: "ns_alias list \<Rightarrow> name \<Rightarrow> nat \<Rightarrow> ns_alias list \<times> alias_result" where
  "InsertNamespaceAliasInVector aliases name target =
     (let existing = FindNamespaceAliasInVector aliases name
      in if existing \<noteq> 0
         then (aliases, if existing = target then kNamespaceAliasRedeclared else kNamespaceAliasConflict)
         else (aliases @ [\<lparr>na_name = name, na_target = target\<rparr>], kNamespaceAliasInserted))"

definition FindDirectLocalNamespaceAlias :: "local_table option \<Rightarrow> name \<Rightarrow> nat" where
  "FindDirectLocalNamespaceAlias table name =
     (case table of None \<Rightarrow> 0 | Some t \<Rightarrow> FindNamespaceAliasInVector (lt_namespace_aliases t) name)"

definition InsertLocalNamespaceAlias :: "local_table option \<Rightarrow> name \<Rightarrow> nat \<Rightarrow> local_table option \<times> alias_result" where
  "InsertLocalNamespaceAlias table name target =
     (case table of None \<Rightarrow> (None, kNamespaceAliasConflict)
      | Some t \<Rightarrow>
          if target = 0 then (Some t, kNamespaceAliasConflict)
          else let (aliases, r) = InsertNamespaceAliasInVector (lt_namespace_aliases t) name target
               in (Some (t\<lparr>lt_namespace_aliases := aliases\<rparr>), r))"

section \<open>Scopes\<close>

definition NewLocalSymbolTable :: local_table where
  "NewLocalSymbolTable = \<lparr>lt_table = BinaryTreeInit, lt_namespace_aliases = []\<rparr>"

text \<open>The nodes, the symbols and the table.\<close>

type_synonym scope_state = "sym_part bt_heap \<times> symbol_store \<times> local_table"

definition LocalSymbolTableDelete :: "scope_state \<Rightarrow> (sym_part bt_heap \<times> symbol_store) option" where
  "LocalSymbolTableDelete s =
     (case s of (h, syms, table) \<Rightarrow>
        BinaryTreeDestruct (Some (SymbolNodeDestructor False)) (Some (lt_table table)) (h, syms))"

definition set_ambiguous :: "nat \<Rightarrow> symbol_store \<Rightarrow> symbol_store option" where
  "set_ambiguous symbol syms = do {
     sy \<leftarrow> syms symbol;
     Some (syms(symbol \<mapsto> sy\<lparr>sy_lookup_ambiguous := True\<rparr>))
   }"

definition InsertLocalSymbol :: "(sym_part bt_heap \<Rightarrow> nat) \<Rightarrow> nat \<Rightarrow> scope_state \<Rightarrow> (scope_state \<times> bool) option" where
  "InsertLocalSymbol malloc symbol s =
     (case s of (h, syms, table) \<Rightarrow> do {
        sy \<leftarrow> (if symbol = 0 then None else syms symbol);
        if \<not> sy_is_name_independent sy \<and> FindDirectLocalNamespaceAlias (Some table) (sy_name sy) \<noteq> 0
        then Some (s, False)
        else do {
          existing \<leftarrow> FindSymbol h (Some (lt_table table)) (sy_name sy);
          if existing \<noteq> 0 \<and> sy_is_name_independent sy
          then do {
            syms1 \<leftarrow> set_ambiguous existing syms;
            syms2 \<leftarrow> set_ambiguous symbol syms1;
            Some ((h, syms2, table), True)
          }
          else do {
            (h1, node) \<leftarrow> NewSymbolNode malloc syms symbol h;
            ((h2, t), ok) \<leftarrow> BinaryTreeInsert SymbolNodeInsertCompare node (h1, lt_table table);
            let h3 = (if ok then h2 else SymbolNodeDelete node h2);
            Some ((h3, syms, table\<lparr>lt_table := t\<rparr>), ok)
          }
        }
      })"

definition FindTopLocalSymbol :: "sym_part bt_heap \<Rightarrow> local_table \<Rightarrow> name \<Rightarrow> nat option" where
  "FindTopLocalSymbol h table name = FindSymbol h (Some (lt_table table)) name"

text \<open>A table and those it reaches through \<open>prev\<close>, innermost first.\<close>

fun FindLocalSymbol :: "sym_part bt_heap \<Rightarrow> local_table list \<Rightarrow> name \<Rightarrow> nat option" where
  "FindLocalSymbol h [] name = Some 0"
| "FindLocalSymbol h (table # tables) name = do {
     symbol \<leftarrow> FindSymbol h (Some (lt_table table)) name;
     if symbol \<noteq> 0 then Some symbol else FindLocalSymbol h tables name
   }"

section \<open>Removal\<close>

partial_function (option) CollectSymbolsFromTree ::
  "sym_part bt_heap \<Rightarrow> nat \<Rightarrow> nat \<Rightarrow> nat list \<Rightarrow> nat list option" where
  "CollectSymbolsFromTree h skip node symbols =
     (if node = 0 then Some symbols
      else do {
        n \<leftarrow> deref h node;
        symbols1 \<leftarrow> CollectSymbolsFromTree h skip (bt_left n) symbols;
        symbols2 \<leftarrow> CollectSymbolsFromTree h skip (bt_right n) symbols1;
        let symbol = sn_symbol (bt_node.more n);
        Some (if symbol \<noteq> 0 \<and> symbol \<noteq> skip then symbols2 @ [symbol] else symbols2)
      })"

fun reinsert :: "(sym_part bt_heap \<Rightarrow> nat) \<Rightarrow> symbol_store \<Rightarrow> nat list \<Rightarrow> sym_part bt_state \<Rightarrow> sym_part bt_state option" where
  "reinsert malloc syms [] s = Some s"
| "reinsert malloc syms (symbol # symbols) s = do {
     (h1, node) \<leftarrow> NewSymbolNode malloc syms symbol (fst s);
     (s1, ok) \<leftarrow> BinaryTreeInsert SymbolNodeInsertCompare node (h1, snd s);
     reinsert malloc syms symbols s1
   }"

definition RebuildBinaryTreeWithout ::
  "(sym_part bt_heap \<Rightarrow> nat) \<Rightarrow> symbol_store \<Rightarrow> nat \<Rightarrow> sym_part bt_state \<Rightarrow> sym_part bt_state option" where
  "RebuildBinaryTreeWithout malloc syms removed s =
     (if removed = 0 then Some s
      else do {
        symbols \<leftarrow> CollectSymbolsFromTree (fst s) removed (bt_root (snd s)) [];
        (h, syms1) \<leftarrow> BinaryTreeDestruct (Some (SymbolNodeDestructor False)) (Some (snd s)) (fst s, syms);
        reinsert malloc syms1 symbols (h, (snd s)\<lparr>bt_root := 0, bt_count := 0\<rparr>)
      })"

definition UninstallLocalSymbol :: "(sym_part bt_heap \<Rightarrow> nat) \<Rightarrow> nat \<Rightarrow> scope_state \<Rightarrow> (scope_state \<times> bool) option" where
  "UninstallLocalSymbol malloc symbol s =
     (case s of (h, syms, table) \<Rightarrow>
        if symbol = 0 then Some (s, False)
        else do {
          sy \<leftarrow> syms symbol;
          found \<leftarrow> FindSymbol h (Some (lt_table table)) (sy_name sy);
          if found \<noteq> symbol then Some (s, False)
          else do {
            (h1, t) \<leftarrow> RebuildBinaryTreeWithout malloc syms symbol (h, lt_table table);
            Some ((h1, syms, table\<lparr>lt_table := t\<rparr>), True)
          }
        })"

declare CollectSymbolsFromTree.simps [code]

end
