(* ===== verification/CTreeShape.thy ===== *)
theory CTreeShape
  imports CTree
begin

text \<open>
  The shape of a tree in the heap: trees over pointers, the path from a subtree up to the root, and what a
  rotation does to both.
\<close>

section \<open>Trees over pointers\<close>

datatype btr = Tip | Bin btr nat bt_color btr

fun rt :: "btr \<Rightarrow> nat" where
  "rt Tip = 0"
| "rt (Bin a x c b) = x"

fun tcolor :: "btr \<Rightarrow> bt_color" where
  "tcolor Tip = Black"
| "tcolor (Bin a x c b) = c"

text \<open>The pointers in the order of the tree.\<close>

fun refs :: "btr \<Rightarrow> nat list" where
  "refs Tip = []"
| "refs (Bin a x c b) = refs a @ x # refs b"

definition node_is :: "'a bt_heap \<Rightarrow> nat \<Rightarrow> bt_color \<Rightarrow> nat \<Rightarrow> nat \<Rightarrow> nat \<Rightarrow> bool" where
  "node_is h x c l r p \<longleftrightarrow>
     x \<noteq> 0 \<and> (\<exists>n. h x = Some n \<and> bt_color n = c \<and> bt_left n = l \<and> bt_right n = r \<and> bt_parent n = p)"

fun shape :: "'a bt_heap \<Rightarrow> nat \<Rightarrow> btr \<Rightarrow> bool" where
  "shape h p Tip = True"
| "shape h p (Bin a x c b) = (node_is h x c (rt a) (rt b) p \<and> shape h x a \<and> shape h x b)"

text \<open>The path from a subtree up to the root, with the other subtrees that hang off it.\<close>

datatype bt_frame = InL nat bt_color btr | InR btr nat bt_color

fun frame_ref :: "bt_frame \<Rightarrow> nat" where
  "frame_ref (InL x c b) = x"
| "frame_ref (InR a x c) = x"

fun frame_color :: "bt_frame \<Rightarrow> bt_color" where
  "frame_color (InL x c b) = c"
| "frame_color (InR a x c) = c"

fun up :: "bt_frame list \<Rightarrow> nat" where
  "up [] = 0"
| "up (f # k) = frame_ref f"

fun path_at :: "'a bt_heap \<Rightarrow> nat \<Rightarrow> bt_frame list \<Rightarrow> bool" where
  "path_at h r [] = True"
| "path_at h r (InL x c b # k) = (node_is h x c r (rt b) (up k) \<and> shape h x b \<and> path_at h x k)"
| "path_at h r (InR a x c # k) = (node_is h x c (rt a) r (up k) \<and> shape h x a \<and> path_at h x k)"

fun top_ref :: "nat \<Rightarrow> bt_frame list \<Rightarrow> nat" where
  "top_ref r [] = r"
| "top_ref r (f # k) = top_ref (frame_ref f) k"

fun before :: "bt_frame list \<Rightarrow> nat list" where
  "before [] = []"
| "before (InL x c b # k) = before k"
| "before (InR a x c # k) = before k @ refs a @ [x]"

fun behind :: "bt_frame list \<Rightarrow> nat list" where
  "behind [] = []"
| "behind (InL x c b # k) = x # refs b @ behind k"
| "behind (InR a x c # k) = behind k"

text \<open>A subtree \<open>T\<close> at the end of a path \<open>k\<close> in the heap, and the whole tree it is in.\<close>

definition holds :: "'a bt_state \<Rightarrow> bt_frame list \<Rightarrow> btr \<Rightarrow> bool" where
  "holds s k T \<longleftrightarrow> shape (fst s) (up k) T \<and> path_at (fst s) (rt T) k \<and> bt_root (snd s) = top_ref (rt T) k \<and>
     distinct (before k @ refs T @ behind k)"

fun plug :: "bt_frame list \<Rightarrow> btr \<Rightarrow> btr" where
  "plug [] T = T"
| "plug (InL x c b # k) T = plug k (Bin T x c b)"
| "plug (InR a x c # k) T = plug k (Bin a x c T)"

lemma refs_plug [simp]: "refs (plug k T) = before k @ refs T @ behind k"
  by (induction k T rule: plug.induct) auto

lemma rt_plug: "rt (plug k T) = top_ref (rt T) k"
  by (induction k T rule: plug.induct) auto

lemma shape_rt: "shape h p T \<Longrightarrow> rt T = 0 \<longleftrightarrow> T = Tip"
  by (cases T) (auto simp: node_is_def)

text \<open>A subtree at the end of a path is part of the whole tree.\<close>

lemma holds_up:
  "holds s (InL x c b # k) T \<longleftrightarrow> holds s k (Bin T x c b)" "holds s (InR a x c # k) T \<longleftrightarrow> holds s k (Bin a x c T)"
  unfolding holds_def by (simp_all add: conj_ac)

lemma holds_plug: "holds s k T \<longleftrightarrow> holds s [] (plug k T)"
proof (induction k arbitrary: T)
  case (Cons f k)
  then show ?case by (cases f) (simp_all only: holds_up plug.simps)
qed simp

section \<open>Changes outside\<close>

lemma shape_cong:
  assumes "\<And>r. r \<in> set (refs T) \<Longrightarrow> h' r = h r"
  shows "shape h' p T = shape h p T"
  using assms by (induction T arbitrary: p) (auto simp: node_is_def)

lemma path_cong:
  assumes "\<And>r. r \<in> set (before k) \<union> set (behind k) \<Longrightarrow> h' r = h r"
  shows "path_at h' p k = path_at h p k"
  using assms
proof (induction k arbitrary: p)
  case (Cons f k)
  then show ?case
  proof (cases f)
    case (InL x c b)
    have "shape h' x b = shape h x b" by (rule shape_cong) (use Cons.prems InL in simp)
    moreover have "path_at h' x k = path_at h x k" by (rule Cons.IH) (use InL in \<open>auto intro: Cons.prems\<close>)
    ultimately show ?thesis using Cons.prems InL by (simp add: node_is_def)
  next
    case (InR a x c)
    have "shape h' x a = shape h x a" by (rule shape_cong) (use Cons.prems InR in simp)
    moreover have "path_at h' x k = path_at h x k" by (rule Cons.IH) (use InR in \<open>auto intro: Cons.prems\<close>)
    ultimately show ?thesis using Cons.prems InR by (simp add: node_is_def)
  qed
qed simp

text \<open>What no operation on a tree touches: the index and the client's part of a node.\<close>

definition payload :: "'a bt_node_scheme option \<Rightarrow> (u32 \<times> 'a) option" where
  "payload n = map_option (\<lambda>n. (bt_index n, bt_node.more n)) n"

definition keeps :: "nat set \<Rightarrow> 'a bt_state \<Rightarrow> 'a bt_state \<Rightarrow> bool" where
  "keeps X s s' \<longleftrightarrow> (\<forall>r. payload (fst s' r) = payload (fst s r)) \<and> (\<forall>r. r \<notin> X \<longrightarrow> fst s' r = fst s r) \<and>
     bt_count (snd s') = bt_count (snd s)"

lemma keeps_refl [simp]: "keeps X s s"
  by (simp add: keeps_def)

lemma keeps_trans: "keeps X s s' \<Longrightarrow> keeps X s' s'' \<Longrightarrow> keeps X s s''"
  by (simp add: keeps_def)

lemma payload_fields [simp]:
  "payload (Some (n\<lparr>bt_color := c\<rparr>)) = payload (Some n)" "payload (Some (n\<lparr>bt_left := r\<rparr>)) = payload (Some n)"
  "payload (Some (n\<lparr>bt_right := r\<rparr>)) = payload (Some n)" "payload (Some (n\<lparr>bt_parent := r\<rparr>)) = payload (Some n)"
  by (simp_all add: payload_def)

lemma rt_other: "x \<noteq> 0 \<Longrightarrow> x \<notin> set (refs T) \<Longrightarrow> x \<noteq> rt T"
  by (cases T) auto

lemma shape_upd [simp]: "r \<notin> set (refs T) \<Longrightarrow> shape (h(r := v)) p T = shape h p T"
  by (rule shape_cong) auto

lemma path_upd [simp]: "r \<notin> set (before k) \<Longrightarrow> r \<notin> set (behind k) \<Longrightarrow> path_at (h(r := v)) p k = path_at h p k"
  by (rule path_cong) auto

section \<open>Rotations\<close>

lemma node_isE:
  assumes "node_is h x c l r p"
  obtains n where "x \<noteq> 0" "h x = Some n" "bt_color n = c" "bt_left n = l" "bt_right n = r" "bt_parent n = p"
  using assms by (auto simp: node_is_def)

lemmas heap_ops = deref_def assign_def relink_def

definition whole :: "bt_frame list \<Rightarrow> btr \<Rightarrow> nat set" where
  "whole k T = set (before k) \<union> set (refs T) \<union> set (behind k)"

lemma RotateLeft_holds:
  assumes h: "holds (h, t) k (Bin a x cx (Bin b y cy c))"
  shows "\<exists>s'. RotateLeft x (h, t) = Some s' \<and> holds s' k (Bin (Bin a x cx b) y cy c) \<and>
    keeps (whole k (Bin a x cx (Bin b y cy c))) (h, t) s'"
proof -
  have sh: "node_is h x cx (rt a) y (up k)" "node_is h y cy (rt b) (rt c) x" "shape h x a" "shape h y b" "shape h y c"
    "path_at h x k" "bt_root t = top_ref x k" and d: "distinct (before k @ (refs a @ x # refs b @ y # refs c) @ behind k)"
    using h by (simp_all add: holds_def)
  obtain nx where nx: "x \<noteq> 0" "h x = Some nx" "bt_color nx = cx" "bt_left nx = rt a" "bt_right nx = y" "bt_parent nx = up k"
    using sh(1) by (rule node_isE)
  obtain ny where ny: "y \<noteq> 0" "h y = Some ny" "bt_color ny = cy" "bt_left ny = rt b" "bt_right ny = rt c" "bt_parent ny = x"
    using sh(2) by (rule node_isE)
  note defs = RotateLeft_def heap_ops holds_def node_is_def keeps_def whole_def
  show ?thesis
  proof (cases k)
    case Nil
    then show ?thesis
      using d sh nx ny by (cases b) (auto simp: defs)
  next
    case (Cons f k1)
    obtain nf where nf: "frame_ref f \<noteq> 0" "h (frame_ref f) = Some nf" using sh(6) Cons by (cases f) (auto simp: node_is_def)
    show ?thesis
    proof (cases f)
      case (InL q cq e)
      then show ?thesis
        using d sh nx ny nf Cons by (cases b) (auto simp: defs)
    next
      case (InR e q cq)
      then have "x \<noteq> rt e" using rt_other [of x e] d nx(1) Cons by auto
      then show ?thesis
        using InR d sh nx ny nf Cons by (cases b) (auto simp: defs)
    qed
  qed
qed

lemma RotateRight_holds:
  assumes h: "holds (h, t) k (Bin (Bin a y cy b) x cx c)"
  shows "\<exists>s'. RotateRight x (h, t) = Some s' \<and> holds s' k (Bin a y cy (Bin b x cx c)) \<and>
    keeps (whole k (Bin (Bin a y cy b) x cx c)) (h, t) s'"
proof -
  have sh: "node_is h x cx y (rt c) (up k)" "node_is h y cy (rt a) (rt b) x" "shape h y a" "shape h y b" "shape h x c"
    "path_at h x k" "bt_root t = top_ref x k" and d: "distinct (before k @ ((refs a @ y # refs b) @ x # refs c) @ behind k)"
    using h by (simp_all add: holds_def)
  obtain nx where nx: "x \<noteq> 0" "h x = Some nx" "bt_color nx = cx" "bt_left nx = y" "bt_right nx = rt c" "bt_parent nx = up k"
    using sh(1) by (rule node_isE)
  obtain ny where ny: "y \<noteq> 0" "h y = Some ny" "bt_color ny = cy" "bt_left ny = rt a" "bt_right ny = rt b" "bt_parent ny = x"
    using sh(2) by (rule node_isE)
  note defs = RotateRight_def heap_ops holds_def node_is_def keeps_def whole_def
  show ?thesis
  proof (cases k)
    case Nil
    then show ?thesis
      using d sh nx ny by (cases b) (auto simp: defs)
  next
    case (Cons f k1)
    obtain nf where nf: "frame_ref f \<noteq> 0" "h (frame_ref f) = Some nf" using sh(6) Cons by (cases f) (auto simp: node_is_def)
    show ?thesis
    proof (cases f)
      case (InL q cq e)
      then show ?thesis
        using d sh nx ny nf Cons by (cases b) (auto simp: defs)
    next
      case (InR e q cq)
      then have "x \<noteq> rt e" using rt_other [of x e] d nx(1) Cons by auto
      then show ?thesis
        using InR d sh nx ny nf Cons by (cases b) (auto simp: defs)
    qed
  qed
qed


end
