(* ===== verification/CTreeBalance.thy ===== *)
theory CTreeBalance
  imports CTreeShape
begin

text \<open>
  A round of the loop that repairs the colors after an insertion, on each side of the grandparent.
\<close>

section \<open>Nodes of a tree\<close>

lemma holds_node:
  assumes "holds s k (Bin a x c b)"
  obtains n where "deref (fst s) x = Some n" "bt_color n = c" "bt_left n = rt a" "bt_right n = rt b" "bt_parent n = up k" "x \<noteq> 0"
  using assms by (auto simp: holds_def node_is_def deref_def)

text \<open>Where a tree keeps a node: the steps between a subtree and its children.\<close>

lemma holds_left: "holds s k (Bin a x c b) \<longleftrightarrow> holds s (InL x c b # k) a"
  by (simp add: holds_up)

lemma holds_right: "holds s k (Bin a x c b) \<longleftrightarrow> holds s (InR a x c # k) b"
  by (simp add: holds_up)

lemma paint_holds:
  assumes "holds (h, t) k (Bin a x c b)"
  shows "\<exists>h'. paint x c' h = Some h' \<and> holds (h', t) k (Bin a x c' b) \<and> keeps (whole k (Bin a x c b)) (h, t) (h', t)"
proof -
  obtain n where n: "x \<noteq> 0" "h x = Some n" "bt_color n = c" "bt_left n = rt a" "bt_right n = rt b" "bt_parent n = up k"
    using assms by (auto simp: holds_def node_is_def)
  have d: "x \<notin> set (refs a)" "x \<notin> set (refs b)" "x \<notin> set (before k)" "x \<notin> set (behind k)"
    using assms by (auto simp: holds_def)
  have "paint x c' h = Some (h(x \<mapsto> n\<lparr>bt_color := c'\<rparr>))" using n by (simp add: paint_def heap_ops)
  moreover have "holds (h(x \<mapsto> n\<lparr>bt_color := c'\<rparr>), t) k (Bin a x c' b)"
    using assms n d by (simp add: holds_def node_is_def)
  moreover have "keeps (whole k (Bin a x c b)) (h, t) (h(x \<mapsto> n\<lparr>bt_color := c'\<rparr>), t)"
    using n by (simp add: keeps_def whole_def)
  ultimately show ?thesis by blast
qed

lemma whole_left: "whole (InL x c b # k) a = whole k (Bin a x c b)"
  by (auto simp: whole_def)

lemma whole_right: "whole (InR a x c # k) b = whole k (Bin a x c b)"
  by (auto simp: whole_def)

lemma whole_same: "set (refs T) = set (refs T') \<Longrightarrow> whole k T = whole k T'"
  by (simp add: whole_def)

lemma paint_left:
  assumes "holds (h, t) k (Bin (Bin a x c b) y cy e)"
  shows "\<exists>h'. paint x c' h = Some h' \<and> holds (h', t) k (Bin (Bin a x c' b) y cy e) \<and>
    keeps (whole k (Bin (Bin a x c b) y cy e)) (h, t) (h', t)"
  using paint_holds [of h t "InL y cy e # k" a x c b c'] assms by (simp only: holds_left whole_left)

lemma paint_right:
  assumes "holds (h, t) k (Bin e y cy (Bin a x c b))"
  shows "\<exists>h'. paint x c' h = Some h' \<and> holds (h', t) k (Bin e y cy (Bin a x c' b)) \<and>
    keeps (whole k (Bin e y cy (Bin a x c b))) (h, t) (h', t)"
  using paint_holds [of h t "InR e y cy # k" a x c b c'] assms by (simp only: holds_right whole_right)

section \<open>The aunt is black\<close>

lemma holds_deref: "holds (h, t) k (Bin a x c b) \<Longrightarrow>
    \<exists>n. deref h x = Some n \<and> bt_color n = c \<and> bt_left n = rt a \<and> bt_right n = rt b \<and> bt_parent n = up k"
  by (auto simp: holds_def node_is_def deref_def)

lemmas deref_left = holds_deref [OF iffD1 [OF holds_left], simplified up.simps frame_ref.simps]
lemmas deref_right = holds_deref [OF iffD1 [OF holds_right], simplified up.simps frame_ref.simps]
lemmas deref_LL = holds_deref [OF iffD1 [OF holds_left, OF iffD1 [OF holds_left]], simplified up.simps frame_ref.simps]
lemmas deref_LR = holds_deref [OF iffD1 [OF holds_right, OF iffD1 [OF holds_left]], simplified up.simps frame_ref.simps]
lemmas deref_RL = holds_deref [OF iffD1 [OF holds_left, OF iffD1 [OF holds_right]], simplified up.simps frame_ref.simps]
lemmas deref_RR = holds_deref [OF iffD1 [OF holds_right, OF iffD1 [OF holds_right]], simplified up.simps frame_ref.simps]

lemma raise_left:
  assumes h: "holds (h, t) k (Bin (Bin (Bin a x xc b) q qc e) g gc A)" (is "holds _ _ ?G")
  shows "\<exists>s'. raise_parent RotateRight x (h, t) = Some (x, s') \<and>
    holds s' k (Bin (Bin a x xc b) q Black (Bin e g Red A)) \<and> keeps (whole k ?G) (h, t) s'"
proof -
  obtain h1 where h1: "paint q Black h = Some h1" "holds (h1, t) k (Bin (Bin (Bin a x xc b) q Black e) g gc A)" "keeps (whole k ?G) (h, t) (h1, t)"
    using paint_left [OF h, of Black] by blast
  obtain h2 where h2: "paint g Red h1 = Some h2" "holds (h2, t) k (Bin (Bin (Bin a x xc b) q Black e) g Red A)" "keeps (whole k ?G) (h1, t) (h2, t)"
    using paint_holds [OF h1(2), of Red] by (auto simp: whole_def)
  obtain s' where s': "RotateRight g (h2, t) = Some s'" "holds s' k (Bin (Bin a x xc b) q Black (Bin e g Red A))" "keeps (whole k ?G) (h2, t) s'"
    using RotateRight_holds [OF h2(2)] by (auto simp: whole_def)
  have "raise_parent RotateRight x (h, t) = Some (x, s')"
    using deref_LL [OF h] deref_LL [OF h1(2)] deref_left [OF h1(2)] deref_LL [OF h2(2)] deref_left [OF h2(2)] h1(1) h2(1) s'(1)
    by (auto simp: raise_parent_def)
  then show ?thesis using s'(2) keeps_trans [OF keeps_trans [OF h1(3) h2(3)] s'(3)] by blast
qed

lemma raise_right:
  assumes h: "holds (h, t) k (Bin A g gc (Bin e q qc (Bin a x xc b)))" (is "holds _ _ ?G")
  shows "\<exists>s'. raise_parent RotateLeft x (h, t) = Some (x, s') \<and>
    holds s' k (Bin (Bin A g Red e) q Black (Bin a x xc b)) \<and> keeps (whole k ?G) (h, t) s'"
proof -
  obtain h1 where h1: "paint q Black h = Some h1" "holds (h1, t) k (Bin A g gc (Bin e q Black (Bin a x xc b)))" "keeps (whole k ?G) (h, t) (h1, t)"
    using paint_right [OF h, of Black] by blast
  obtain h2 where h2: "paint g Red h1 = Some h2" "holds (h2, t) k (Bin A g Red (Bin e q Black (Bin a x xc b)))" "keeps (whole k ?G) (h1, t) (h2, t)"
    using paint_holds [OF h1(2), of Red] by (auto simp: whole_def)
  obtain s' where s': "RotateLeft g (h2, t) = Some s'" "holds s' k (Bin (Bin A g Red e) q Black (Bin a x xc b))" "keeps (whole k ?G) (h2, t) s'"
    using RotateLeft_holds [OF h2(2)] by (auto simp: whole_def)
  have "raise_parent RotateLeft x (h, t) = Some (x, s')"
    using deref_RR [OF h] deref_RR [OF h1(2)] deref_right [OF h1(2)] deref_RR [OF h2(2)] deref_right [OF h2(2)] h1(1) h2(1) s'(1)
    by (auto simp: raise_parent_def)
  then show ?thesis using s'(2) keeps_trans [OF keeps_trans [OF h1(3) h2(3)] s'(3)] by blast
qed


section \<open>The aunt is red\<close>

lemma recolor_steps:
  assumes x: "deref h x = Some nx" "bt_parent nx = q" and q: "deref h q = Some nq" "bt_parent nq = g"
    and d: "x \<noteq> q" "x \<noteq> A" "x \<noteq> g" "q \<noteq> g" "q \<noteq> A"
    and p: "paint q Black h = Some h1" "paint A Black h1 = Some h2" "paint g Red h2 = Some h3"
  shows "recolor x A (h, t) = Some (g, (h3, t))"
proof -
  have "deref h2 x = Some nx" "deref h3 x = Some nx" "\<exists>m. deref h2 q = Some m \<and> bt_parent m = g" "\<exists>m. deref h3 q = Some m \<and> bt_parent m = g"
    using p x q d by (auto simp: paint_def assign_def deref_def split: if_splits bind_splits)
  then show ?thesis using x q p by (auto simp: recolor_def)
qed

lemma paint_family_left:
  assumes h: "holds (h, t) k (Bin (Bin a q qc b) g gc (Bin c u uc d))" (is "holds _ _ ?G")
  shows "\<exists>h1 h2 h3. paint q Black h = Some h1 \<and> paint u Black h1 = Some h2 \<and> paint g Red h2 = Some h3 \<and>
    holds (h3, t) k (Bin (Bin a q Black b) g Red (Bin c u Black d)) \<and> keeps (whole k ?G) (h, t) (h3, t)"
proof -
  obtain h1 where h1: "paint q Black h = Some h1" "holds (h1, t) k (Bin (Bin a q Black b) g gc (Bin c u uc d))" "keeps (whole k ?G) (h, t) (h1, t)"
    using paint_left [OF h, of Black] by blast
  obtain h2 where h2: "paint u Black h1 = Some h2" "holds (h2, t) k (Bin (Bin a q Black b) g gc (Bin c u Black d))" "keeps (whole k ?G) (h1, t) (h2, t)"
    using paint_right [OF h1(2), of Black] by (auto simp: whole_def)
  obtain h3 where h3: "paint g Red h2 = Some h3" "holds (h3, t) k (Bin (Bin a q Black b) g Red (Bin c u Black d))" "keeps (whole k ?G) (h2, t) (h3, t)"
    using paint_holds [OF h2(2), of Red] by (auto simp: whole_def)
  show ?thesis using h1(1) h2(1) h3(1,2) keeps_trans [OF keeps_trans [OF h1(3) h2(3)] h3(3)] by blast
qed

lemma paint_family_right:
  assumes h: "holds (h, t) k (Bin (Bin c u uc d) g gc (Bin a q qc b))" (is "holds _ _ ?G")
  shows "\<exists>h1 h2 h3. paint q Black h = Some h1 \<and> paint u Black h1 = Some h2 \<and> paint g Red h2 = Some h3 \<and>
    holds (h3, t) k (Bin (Bin c u Black d) g Red (Bin a q Black b)) \<and> keeps (whole k ?G) (h, t) (h3, t)"
proof -
  obtain h1 where h1: "paint q Black h = Some h1" "holds (h1, t) k (Bin (Bin c u uc d) g gc (Bin a q Black b))" "keeps (whole k ?G) (h, t) (h1, t)"
    using paint_right [OF h, of Black] by blast
  obtain h2 where h2: "paint u Black h1 = Some h2" "holds (h2, t) k (Bin (Bin c u Black d) g gc (Bin a q Black b))" "keeps (whole k ?G) (h1, t) (h2, t)"
    using paint_left [OF h1(2), of Black] by (auto simp: whole_def)
  obtain h3 where h3: "paint g Red h2 = Some h3" "holds (h3, t) k (Bin (Bin c u Black d) g Red (Bin a q Black b))" "keeps (whole k ?G) (h2, t) (h3, t)"
    using paint_holds [OF h2(2), of Red] by (auto simp: whole_def)
  show ?thesis using h1(1) h2(1) h3(1,2) keeps_trans [OF keeps_trans [OF h1(3) h2(3)] h3(3)] by blast
qed

section \<open>The cases of a round\<close>

lemma child_deref:
  assumes "holds (h, t) k (Bin a q c b)" "x \<noteq> 0" "x = rt a \<or> x = rt b"
  shows "\<exists>n. deref h x = Some n \<and> bt_parent n = q" "x \<in> set (refs a) \<union> set (refs b)"
proof -
  have "(\<exists>n. deref h x = Some n \<and> bt_parent n = q) \<and> x \<in> set (refs a) \<union> set (refs b)"
    using assms(3)
  proof
    assume "x = rt a"
    then obtain a1 ac a2 where "a = Bin a1 x ac a2" using assms(2) by (cases a) auto
    then show ?thesis using assms(1) deref_left [of h t k a1 x ac a2 q c b] by auto
  next
    assume "x = rt b"
    then obtain b1 bc b2 where "b = Bin b1 x bc b2" using assms(2) by (cases b) auto
    then show ?thesis using assms(1) deref_right [of h t k a q c b1 x bc b2] by auto
  qed
  then show "\<exists>n. deref h x = Some n \<and> bt_parent n = q" "x \<in> set (refs a) \<union> set (refs b)" by blast+
qed

lemma is_red_aunt:
  assumes "holds (h, t) k A"
  shows "is_red h (rt A) = Some (tcolor A = Red)"
proof (cases A)
  case (Bin a x c b)
  then show ?thesis using holds_deref [of h t k a x c b] assms by (auto simp: is_red_def deref_def split: if_splits)
qed (simp add: is_red_def)

lemma holds_distinct: "holds s k T \<Longrightarrow> distinct (refs T)"
  by (simp add: holds_def)

lemma fix_left:
  assumes h: "holds (h, t) k (Bin (Bin a q qc b) g gc A)" and x: "x \<noteq> 0" "x = rt a \<or> x = rt b"
  shows "fix_node x (h, t) =
    (if tcolor A = Red then recolor x (rt A) (h, t)
     else if x = rt b then do { s1 \<leftarrow> RotateLeft q (h, t); raise_parent RotateRight q s1 }
     else raise_parent RotateRight x (h, t))"
proof -
  obtain nx where nx: "deref h x = Some nx" "bt_parent nx = q" using child_deref(1) [OF iffD1 [OF holds_left h] x] by blast
  obtain nq where nq: "deref h q = Some nq" "bt_parent nq = g" "bt_right nq = rt b" using deref_left [OF h] by auto
  obtain ng where ng: "deref h g = Some ng" "bt_left ng = q" "bt_right ng = rt A" using holds_deref [OF h] by auto
  have "is_red h (rt A) = Some (tcolor A = Red)" using is_red_aunt iffD1 [OF holds_right h] by blast
  then show ?thesis using nx nq ng by (simp add: fix_node_def)
qed

lemma fix_right:
  assumes h: "holds (h, t) k (Bin A g gc (Bin a q qc b))" and x: "x \<noteq> 0" "x = rt a \<or> x = rt b"
  shows "fix_node x (h, t) =
    (if tcolor A = Red then recolor x (rt A) (h, t)
     else if x = rt a then do { s1 \<leftarrow> RotateRight q (h, t); raise_parent RotateLeft q s1 }
     else raise_parent RotateLeft x (h, t))"
proof -
  obtain nx where nx: "deref h x = Some nx" "bt_parent nx = q" using child_deref(1) [OF iffD1 [OF holds_right h] x] by blast
  obtain nq where nq: "deref h q = Some nq" "bt_parent nq = g" "bt_left nq = rt a" using deref_right [OF h] by auto
  obtain ng where ng: "deref h g = Some ng" "bt_left ng = rt A" using holds_deref [OF h] by auto
  have "q \<noteq> 0" using nq(1) by (simp add: deref_def split: if_splits)
  then have "q \<noteq> rt A" using holds_distinct [OF h] rt_other [of q A] by auto
  moreover have "is_red h (rt A) = Some (tcolor A = Red)" using is_red_aunt iffD1 [OF holds_left h] by blast
  ultimately show ?thesis using nx nq ng by (simp add: fix_node_def)
qed

text \<open>The outcome of a round: a smaller path, a red node at its end, the same order of nodes.\<close>

definition round_to :: "'a bt_state \<Rightarrow> nat \<Rightarrow> bt_frame list \<Rightarrow> btr \<Rightarrow> bt_frame list \<Rightarrow> btr \<Rightarrow> bool" where
  "round_to s x k0 T0 k T \<longleftrightarrow>
     (\<exists>s'. fix_node x s = Some (rt T, s') \<and> holds s' k T \<and> keeps (whole k0 T0) s s' \<and> T \<noteq> Tip)"

lemma round_red_left:
  assumes h: "holds s k (Bin (Bin a q qc b) g gc (Bin c u Red d))" and x: "x \<noteq> 0" "x = rt a \<or> x = rt b"
  shows "round_to s x k (Bin (Bin a q qc b) g gc (Bin c u Red d)) k (Bin (Bin a q Black b) g Red (Bin c u Black d))"
proof -
  obtain h0 t where s: "s = (h0, t)" by (cases s)
  note h = h [unfolded s]
  obtain h1 h2 h3 where p: "paint q Black h0 = Some h1" "paint u Black h1 = Some h2" "paint g Red h2 = Some h3"
    "holds (h3, t) k (Bin (Bin a q Black b) g Red (Bin c u Black d))" "keeps (whole k (Bin (Bin a q qc b) g gc (Bin c u Red d))) (h0, t) (h3, t)"
    using paint_family_left [OF h] by blast
  note cd = child_deref [OF iffD1 [OF holds_left h] x]
  obtain nx where nx: "deref h0 x = Some nx" "bt_parent nx = q" using cd(1) by blast
  obtain nq where nq: "deref h0 q = Some nq" "bt_parent nq = g" using deref_left [OF h] by auto
  have d: "x \<noteq> q" "x \<noteq> u" "x \<noteq> g" "q \<noteq> g" "q \<noteq> u" using holds_distinct [OF h] cd(2) by auto
  show ?thesis
    unfolding round_to_def s using fix_left [OF h x] recolor_steps [OF nx nq d p(1-3), of t] p(4,5) by auto
qed

lemma round_red_right:
  assumes h: "holds s k (Bin (Bin c u Red d) g gc (Bin a q qc b))" and x: "x \<noteq> 0" "x = rt a \<or> x = rt b"
  shows "round_to s x k (Bin (Bin c u Red d) g gc (Bin a q qc b)) k (Bin (Bin c u Black d) g Red (Bin a q Black b))"
proof -
  obtain h0 t where s: "s = (h0, t)" by (cases s)
  note h = h [unfolded s]
  obtain h1 h2 h3 where p: "paint q Black h0 = Some h1" "paint u Black h1 = Some h2" "paint g Red h2 = Some h3"
    "holds (h3, t) k (Bin (Bin c u Black d) g Red (Bin a q Black b))" "keeps (whole k (Bin (Bin c u Red d) g gc (Bin a q qc b))) (h0, t) (h3, t)"
    using paint_family_right [OF h] by blast
  note cd = child_deref [OF iffD1 [OF holds_right h] x]
  obtain nx where nx: "deref h0 x = Some nx" "bt_parent nx = q" using cd(1) by blast
  obtain nq where nq: "deref h0 q = Some nq" "bt_parent nq = g" using deref_right [OF h] by auto
  have d: "x \<noteq> q" "x \<noteq> u" "x \<noteq> g" "q \<noteq> g" "q \<noteq> u" using holds_distinct [OF h] cd(2) by auto
  show ?thesis
    unfolding round_to_def s using fix_right [OF h x] recolor_steps [OF nx nq d p(1-3), of t] p(4,5) by auto
qed

lemma round_outer_left:
  assumes h: "holds s k (Bin (Bin (Bin a x xc b) q qc e) g gc A)" and A: "tcolor A = Black"
  shows "round_to s x k (Bin (Bin (Bin a x xc b) q qc e) g gc A) (InL q Black (Bin e g Red A) # k) (Bin a x xc b)"
proof -
  obtain h0 t where s: "s = (h0, t)" by (cases s)
  note h = h [unfolded s]
  have x: "x \<noteq> 0" using deref_LL [OF h] by (auto simp: deref_def split: if_splits)
  have "x \<noteq> rt e" using holds_distinct [OF h] x rt_other [of x e] by auto
  then have "fix_node x (h0, t) = raise_parent RotateRight x (h0, t)" using fix_left [OF h x] A by simp
  then show ?thesis unfolding round_to_def s using raise_left [OF h] by (auto simp: holds_up)
qed

lemma round_outer_right:
  assumes h: "holds s k (Bin A g gc (Bin e q qc (Bin a x xc b)))" and A: "tcolor A = Black"
  shows "round_to s x k (Bin A g gc (Bin e q qc (Bin a x xc b))) (InR (Bin A g Red e) q Black # k) (Bin a x xc b)"
proof -
  obtain h0 t where s: "s = (h0, t)" by (cases s)
  note h = h [unfolded s]
  have x: "x \<noteq> 0" using deref_RR [OF h] by (auto simp: deref_def split: if_splits)
  have "x \<noteq> rt e" using holds_distinct [OF h] x rt_other [of x e] by auto
  then have "fix_node x (h0, t) = raise_parent RotateLeft x (h0, t)" using fix_right [OF h x] A by simp
  then show ?thesis unfolding round_to_def s using raise_right [OF h] by (auto simp: holds_up)
qed

lemma round_inner_left:
  assumes h: "holds s k (Bin (Bin e q qc (Bin a x xc b)) g gc A)" (is "holds _ _ ?G") and A: "tcolor A = Black"
  shows "round_to s x k ?G (InL x Black (Bin b g Red A) # k) (Bin e q qc a)"
proof -
  obtain h0 t where s: "s = (h0, t)" by (cases s)
  note h = h [unfolded s]
  have x: "x \<noteq> 0" using deref_LR [OF h] by (auto simp: deref_def split: if_splits)
  obtain s1 where s1: "RotateLeft q (h0, t) = Some s1" "holds s1 (InL g gc A # k) (Bin (Bin e q qc a) x xc b)" "keeps (whole k ?G) (h0, t) s1"
    using RotateLeft_holds [OF iffD1 [OF holds_left h]] by (auto simp: whole_left)
  obtain h1 t1 where e: "s1 = (h1, t1)" by (cases s1)
  have "holds (h1, t1) k (Bin (Bin (Bin e q qc a) x xc b) g gc A)" using s1(2) by (simp add: e holds_up)
  then obtain s2 where s2: "raise_parent RotateRight q s1 = Some (q, s2)" "holds s2 k (Bin (Bin e q qc a) x Black (Bin b g Red A))"
    "keeps (whole k (Bin (Bin (Bin e q qc a) x xc b) g gc A)) s1 s2" using raise_left e by blast
  then have "keeps (whole k ?G) s1 s2" by (simp add: whole_def insert_commute)
  then have "keeps (whole k ?G) (h0, t) s2" by (rule keeps_trans [OF s1(3)])
  then show ?thesis unfolding round_to_def s using fix_left [OF h x] A s1(1) s2(1,2) by (auto simp: holds_up)
qed

lemma round_inner_right:
  assumes h: "holds s k (Bin A g gc (Bin (Bin a x xc b) q qc e))" (is "holds _ _ ?G") and A: "tcolor A = Black"
  shows "round_to s x k ?G (InR (Bin A g Red a) x Black # k) (Bin b q qc e)"
proof -
  obtain h0 t where s: "s = (h0, t)" by (cases s)
  note h = h [unfolded s]
  have x: "x \<noteq> 0" using deref_RL [OF h] by (auto simp: deref_def split: if_splits)
  obtain s1 where s1: "RotateRight q (h0, t) = Some s1" "holds s1 (InR A g gc # k) (Bin a x xc (Bin b q qc e))" "keeps (whole k ?G) (h0, t) s1"
    using RotateRight_holds [OF iffD1 [OF holds_right h]] by (auto simp: whole_right)
  obtain h1 t1 where e: "s1 = (h1, t1)" by (cases s1)
  have "holds (h1, t1) k (Bin A g gc (Bin a x xc (Bin b q qc e)))" using s1(2) by (simp add: e holds_up)
  then obtain s2 where s2: "raise_parent RotateLeft q s1 = Some (q, s2)" "holds s2 k (Bin (Bin A g Red a) x Black (Bin b q qc e))"
    "keeps (whole k (Bin A g gc (Bin a x xc (Bin b q qc e)))) s1 s2" using raise_right e by blast
  then have "keeps (whole k ?G) s1 s2" by (simp add: whole_def insert_commute)
  then have "keeps (whole k ?G) (h0, t) s2" by (rule keeps_trans [OF s1(3)])
  then show ?thesis unfolding round_to_def s using fix_right [OF h x] A s1(1) s2(1,2) by (auto simp: holds_up)
qed

end
