(* ===== verification/CTreeInsert.thy ===== *)
theory CTreeInsert
  imports CTreeBalance
begin

text \<open>
  The red-black invariant through the loop, and insertion into a search tree.
\<close>

section \<open>Balance\<close>

fun bheight :: "btr \<Rightarrow> nat" where
  "bheight Tip = 0"
| "bheight (Bin a x c b) = bheight a + (if c = Black then 1 else 0)"

fun balanced :: "btr \<Rightarrow> bool" where
  "balanced Tip = True"
| "balanced (Bin a x c b) =
     ((c = Red \<longrightarrow> tcolor a = Black \<and> tcolor b = Black) \<and> bheight a = bheight b \<and> balanced a \<and> balanced b)"

text \<open>A path into which a subtree of black height \<open>n\<close> fits.\<close>

definition black_above :: "bt_frame list \<Rightarrow> bool" where
  "black_above k \<longleftrightarrow> k = [] \<or> frame_color (hd k) = Black"

fun side :: "bt_frame \<Rightarrow> btr" where
  "side (InL x c b) = b"
| "side (InR a x c) = a"

fun path_ok :: "nat \<Rightarrow> bt_frame list \<Rightarrow> bool" where
  "path_ok n [] = True"
| "path_ok n (f # k) = (balanced (side f) \<and> bheight (side f) = n \<and>
     (frame_color f = Red \<longrightarrow> tcolor (side f) = Black \<and> k \<noteq> [] \<and> black_above k) \<and>
     path_ok (n + (if frame_color f = Black then 1 else 0)) k)"

lemma bt_color_cases: "c \<noteq> Black \<longleftrightarrow> c = Red" "c \<noteq> Red \<longleftrightarrow> c = Black"
  by (cases c; simp)+

lemma plug_balanced:
  assumes "balanced T" "path_ok (bheight T) k" "tcolor T = Red \<longrightarrow> black_above k"
  shows "balanced (plug k T) \<and> (k \<noteq> [] \<longrightarrow> tcolor (plug k T) = Black)"
  using assms
proof (induction k arbitrary: T)
  case (Cons f k)
  show ?case
  proof (cases f)
    case (InL x c b)
    then show ?thesis using Cons.IH [of "Bin T x c b"] Cons.prems by (cases "k = []") (auto simp: black_above_def bt_color_cases)
  next
    case (InR a x c)
    then show ?thesis using Cons.IH [of "Bin a x c T"] Cons.prems by (cases "k = []") (auto simp: black_above_def bt_color_cases)
  qed
qed simp

lemma unplug_balanced:
  assumes "balanced (plug k T)" "tcolor (plug k T) = Black"
  shows "balanced T \<and> path_ok (bheight T) k \<and> (tcolor T = Red \<longrightarrow> k \<noteq> [] \<and> black_above k)"
  using assms
proof (induction k arbitrary: T)
  case (Cons f k)
  show ?case
  proof (cases f)
    case (InL x c b)
    then show ?thesis using Cons.IH [of "Bin T x c b"] Cons.prems by (auto simp: black_above_def bt_color_cases)
  next
    case (InR a x c)
    then show ?thesis using Cons.IH [of "Bin a x c T"] Cons.prems by (auto simp: black_above_def bt_color_cases)
  qed
qed auto

section \<open>The loop\<close>

definition loop_inv :: "'a bt_state \<Rightarrow> bt_frame list \<Rightarrow> btr \<Rightarrow> bool" where
  "loop_inv s k T \<longleftrightarrow> holds s k T \<and> T \<noteq> Tip \<and> tcolor T = Red \<and> balanced T \<and> path_ok (bheight T) k"

definition round_ok :: "'a bt_state \<Rightarrow> bt_frame list \<Rightarrow> btr \<Rightarrow> bool" where
  "round_ok s k T \<longleftrightarrow>
     (\<exists>k' T'. round_to s (rt T) k T k' T' \<and> balanced T' \<and> tcolor T' = Red \<and> path_ok (bheight T') k' \<and>
        length k' < length k \<and> refs (plug k' T') = refs (plug k T))"

lemma round_okI:
  assumes "round_to s x k2 G k' T'" "x = rt T" "plug k T = plug k2 G"
    "balanced T'" "tcolor T' = Red" "path_ok (bheight T') k'" "length k' < length k" "refs (plug k' T') = refs (plug k2 G)"
  shows "round_ok s k T"
proof -
  have "whole k2 G = set (refs (plug k2 G))" "whole k T = set (refs (plug k T))" by (auto simp: whole_def)
  then have "whole k2 G = whole k T" using assms(3) by simp
  then have "round_to s (rt T) k T k' T'" using assms(1,2) by (simp add: round_to_def)
  then show ?thesis using assms(3-8) unfolding round_ok_def by auto
qed

lemma loop_red:
  assumes I: "loop_inv s (f # f2 # k) T" and f: "frame_color f = Red" "tcolor (side f2) = Red"
  shows "round_ok s (f # f2 # k) T"
proof -
  obtain a x b where T: "T = Bin a x Red b" using I by (cases T) (auto simp: loop_inv_def)
  obtain c u d where A: "side f2 = Bin c u Red d" using f(2) by (cases "side f2") auto
  have h: "holds s (f # f2 # k) (Bin a x Red b)" and x: "x \<noteq> 0" using I T by (auto simp: loop_inv_def holds_def node_is_def)
  note P = I [unfolded loop_inv_def T]
  show ?thesis
  proof (cases f2)
    case f2: (InL g gc e)
    show ?thesis
    proof (cases f)
      case (InL q qc e')
      show ?thesis
        by (rule round_okI [OF round_red_left [of s k "Bin a x Red b" q qc e' g gc c u d]])
          (use h x P f f2 InL A T in \<open>auto simp: holds_up black_above_def\<close>)
    next
      case (InR e' q qc)
      show ?thesis
        by (rule round_okI [OF round_red_left [of s k e' q qc "Bin a x Red b" g gc c u d]])
          (use h x P f f2 InR A T in \<open>auto simp: holds_up black_above_def\<close>)
    qed
  next
    case f2: (InR e g gc)
    show ?thesis
    proof (cases f)
      case (InL q qc e')
      show ?thesis
        by (rule round_okI [OF round_red_right [of s k c u d g gc "Bin a x Red b" q qc e']])
          (use h x P f f2 InL A T in \<open>auto simp: holds_up black_above_def\<close>)
    next
      case (InR e' q qc)
      show ?thesis
        by (rule round_okI [OF round_red_right [of s k c u d g gc e' q qc "Bin a x Red b"]])
          (use h x P f f2 InR A T in \<open>auto simp: holds_up black_above_def\<close>)
    qed
  qed
qed

lemma loop_black:
  assumes I: "loop_inv s (f # f2 # k) T" and f: "frame_color f = Red" "tcolor (side f2) = Black"
  shows "round_ok s (f # f2 # k) T"
proof -
  obtain a x b where T: "T = Bin a x Red b" using I by (cases T) (auto simp: loop_inv_def)
  have h: "holds s (f # f2 # k) (Bin a x Red b)" using I T by (auto simp: loop_inv_def)
  note P = I [unfolded loop_inv_def T]
  show ?thesis
  proof (cases f2)
    case f2: (InL g gc A)
    show ?thesis
    proof (cases f)
      case (InL q qc e)
      show ?thesis
        by (rule round_okI [OF round_outer_left [of s k a x Red b q qc e g gc A]])
          (use h P f f2 InL T in \<open>auto simp: holds_up black_above_def\<close>)
    next
      case (InR e q qc)
      show ?thesis
        by (rule round_okI [OF round_inner_left [of s k e q qc a x Red b g gc A]])
          (use h P f f2 InR T in \<open>auto simp: holds_up black_above_def\<close>)
    qed
  next
    case f2: (InR A g gc)
    show ?thesis
    proof (cases f)
      case (InL q qc e)
      show ?thesis
        by (rule round_okI [OF round_inner_right [of s k A g gc a x Red b q qc e]])
          (use h P f f2 InL T in \<open>auto simp: holds_up black_above_def\<close>)
    next
      case (InR e q qc)
      show ?thesis
        by (rule round_okI [OF round_outer_right [of s k A g gc e q qc a x Red b]])
          (use h P f f2 InR T in \<open>auto simp: holds_up black_above_def\<close>)
    qed
  qed
qed

text \<open>The loop ends: a round shortens the path.\<close>

lemma top_ref_in: "k \<noteq> [] \<Longrightarrow> top_ref r k \<in> set (before k) \<union> set (behind k)"
proof (induction k arbitrary: r)
  case (Cons f k)
  then show ?case by (cases f; cases "k = []") auto
qed simp

lemma fix_loop_holds:
  assumes "loop_inv s k T"
  shows "\<exists>s' k' T'. fix_loop (rt T) s = Some s' \<and> loop_inv s' k' T' \<and> black_above k' \<and>
    refs (plug k' T') = refs (plug k T) \<and> keeps (whole k T) s s'"
  using assms
proof (induction "length k" arbitrary: s k T rule: less_induct)
  case less
  note H = less.prems [unfolded loop_inv_def]
  obtain a x b where T: "T = Bin a x Red b" using H by (cases T) auto
  show ?case
  proof (cases "k = []")
    case True
    then have "fix_loop (rt T) s = Some s" using H by (subst fix_loop.simps) (simp add: holds_def)
    then show ?thesis using less.prems True by (intro exI [of _ s] exI [of _ k] exI [of _ T]) (simp add: black_above_def)
  next
    case False
    then obtain f k1 where k: "k = f # k1" by (cases k) auto
    have root: "rt T \<noteq> bt_root (snd s)" using H T top_ref_in [OF False, of x] by (auto simp: holds_def)
    obtain n where n: "deref (fst s) x = Some n" "bt_parent n = frame_ref f" using H T k by (auto elim: holds_node)
    obtain m where m: "deref (fst s) (frame_ref f) = Some m" "bt_color m = frame_color f"
      using H k by (cases f) (auto simp: holds_up elim: holds_node)
    show ?thesis
    proof (cases "frame_color f")
      case Black
      then have "fix_loop (rt T) s = Some s" using root n m T by (subst fix_loop.simps) simp
      then show ?thesis using less.prems k Black by (intro exI [of _ s] exI [of _ k] exI [of _ T]) (simp add: black_above_def)
    next
      case Red
      then obtain f2 k2 where k2: "k1 = f2 # k2" using H k by (cases k1) (auto simp: black_above_def)
      have "round_ok s k T" using loop_red [of s f f2 k2 T] loop_black [of s f f2 k2 T] less.prems k k2 Red bt_color_cases by metis
      then obtain k' T' s1 where r: "fix_node (rt T) s = Some (rt T', s1)" "loop_inv s1 k' T'" "keeps (whole k T) s s1"
        "length k' < length k" "refs (plug k' T') = refs (plug k T)"
        unfolding round_ok_def round_to_def loop_inv_def by blast
      have "whole k' T' = whole k T" using arg_cong [OF r(5), of set] by (simp add: whole_def Un_assoc)
      moreover have "fix_loop (rt T) s = fix_loop (rt T') s1" using root n m T Red r(1) by (subst fix_loop.simps) simp
      ultimately show ?thesis using less.hyps [OF r(4,2)] keeps_trans [OF r(3)] r(5) by metis
    qed
  qed
qed

section \<open>Insertion of a leaf\<close>

fun slot_of :: "bt_frame list \<Rightarrow> bt_slot" where
  "slot_of [] = RootSlot"
| "slot_of (InL x c b # k) = LeftSlot x"
| "slot_of (InR a x c # k) = RightSlot x"

lemma load_slot_of: "holds s k T \<Longrightarrow> load_slot (slot_of k) s = Some (rt T)"
proof (induction k rule: slot_of.induct)
  case 1
  then show ?case by (simp add: holds_def)
next
  case (2 x c b k)
  then show ?case by (auto simp: holds_up elim: holds_node)
next
  case (3 a x c k)
  then show ?case by (auto simp: holds_up elim: holds_node)
qed

text \<open>A node that is not in the tree, as \<open>BinaryTreeNodeInit\<close> leaves it.\<close>

definition fresh_node :: "'a bt_heap \<Rightarrow> nat \<Rightarrow> nat set \<Rightarrow> bool" where
  "fresh_node h x X \<longleftrightarrow> x \<noteq> 0 \<and> x \<notin> X \<and> (\<exists>n. h x = Some n \<and> bt_color n = Red \<and> bt_left n = 0 \<and> bt_right n = 0)"

lemma add_leaf:
  assumes h: "holds s k Tip" and f: "fresh_node (fst s) x (whole k Tip)"
  shows "\<exists>s'. InsertNode compare (slot_of k) x (up k) s = Some (s', True) \<and> holds s' k (Bin Tip x Red Tip) \<and>
    keeps (insert x (whole k Tip)) s s'"
proof -
  obtain n where n: "x \<noteq> 0" "fst s x = Some n" "bt_color n = Red" "bt_left n = 0" "bt_right n = 0" "x \<notin> whole k Tip"
    using f by (auto simp: fresh_node_def)
  have load: "load_slot (slot_of k) s = Some 0" using load_slot_of [OF h] by simp
  note defs = heap_ops holds_def node_is_def keeps_def whole_def
  show ?thesis
  proof (cases k)
    case Nil
    then show ?thesis using n h load by (subst InsertNode.simps) (simp add: defs)
  next
    case (Cons f k1)
    obtain m where m: "frame_ref f \<noteq> 0" "fst s (frame_ref f) = Some m"
      using h Cons by (cases f) (auto simp: holds_def node_is_def)
    show ?thesis
    proof (cases f)
      case (InL q c b)
      then show ?thesis using n m h load Cons by (subst InsertNode.simps) (auto simp: defs)
    next
      case (InR a q c)
      then show ?thesis using n m h load Cons by (subst InsertNode.simps) (auto simp: defs)
    qed
  qed
qed

section \<open>The order of the keys\<close>

text \<open>The comparison functions of a client compare keys, that of a search with the key it is given.\<close>

locale tree_order =
  fixes compare :: "'a \<Rightarrow> 'a \<Rightarrow> int" and search :: "'a \<Rightarrow> 'q \<Rightarrow> int"
    and key :: "'a \<Rightarrow> 'k::linorder" and skey :: "'q \<Rightarrow> 'k"
  assumes compare_zero: "compare a b = 0 \<longleftrightarrow> key a = key b" and compare_pos: "0 < compare a b \<longleftrightarrow> key b < key a"
    and search_zero: "search a q = 0 \<longleftrightarrow> key a = skey q" and search_pos: "0 < search a q \<longleftrightarrow> skey q < key a"

definition key_at :: "('a \<Rightarrow> 'k) \<Rightarrow> 'a bt_heap \<Rightarrow> nat \<Rightarrow> 'k" where
  "key_at key h r = key (bt_node.more (the (h r)))"

definition keys_of :: "('a \<Rightarrow> 'k) \<Rightarrow> 'a bt_heap \<Rightarrow> btr \<Rightarrow> 'k list" where
  "keys_of key h T = map (key_at key h) (refs T)"

lemma key_at_deref: "deref h r = Some n \<Longrightarrow> key_at key h r = key (bt_node.more n)"
  by (simp add: key_at_def deref_def split: if_splits)

lemma sorted_wrt_middle:
  fixes xs :: "'k::linorder list"
  shows "sorted_wrt (<) (xs @ y # ys) \<longleftrightarrow>
    sorted_wrt (<) xs \<and> sorted_wrt (<) ys \<and> (\<forall>x \<in> set xs. x < y) \<and> (\<forall>z \<in> set ys. y < z) \<and> (\<forall>x \<in> set xs. \<forall>z \<in> set ys. x < z)"
  by (auto simp: sorted_wrt_append)

text \<open>The place of a key: where the search for it ends.\<close>

definition placed :: "('a \<Rightarrow> 'k::linorder) \<Rightarrow> 'a bt_heap \<Rightarrow> 'k \<Rightarrow> bt_frame list \<Rightarrow> bool" where
  "placed key h v k \<longleftrightarrow> (\<forall>r \<in> set (before k). key_at key h r < v) \<and> (\<forall>r \<in> set (behind k). v < key_at key h r)"

context tree_order begin

lemma InsertNode_spec:
  assumes "holds s k T" "fresh_node (fst s) x (whole k T)" "sorted_wrt (<) (keys_of key (fst s) T)"
    "placed key (fst s) (key_at key (fst s) x) k"
  shows "if key_at key (fst s) x \<in> set (keys_of key (fst s) T) then InsertNode compare (slot_of k) x (up k) s = Some (s, False)
    else \<exists>s' k'. InsertNode compare (slot_of k) x (up k) s = Some (s', True) \<and> holds s' k' (Bin Tip x Red Tip) \<and>
      plug k' Tip = plug k T \<and> placed key (fst s) (key_at key (fst s) x) k' \<and> keeps (insert x (whole k T)) s s'"
  using assms
proof (induction T arbitrary: k)
  case Tip
  then show ?case using add_leaf [of s k x compare] by (auto simp: keys_of_def)
next
  case (Bin a y c b)
  let ?v = "key_at key (fst s) x" and ?w = "key_at key (fst s) y"
  obtain n where n: "deref (fst s) y = Some n" "bt_left n = rt a" "bt_right n = rt b" "y \<noteq> 0" using Bin.prems(1) by (rule holds_node)
  obtain m where m: "deref (fst s) x = Some m" using Bin.prems(2) by (auto simp: fresh_node_def deref_def)
  note keys = key_at_deref [OF n(1), of key] key_at_deref [OF m, of key]
  have cmp: "compare (bt_node.more n) (bt_node.more m) = 0 \<longleftrightarrow> ?w = ?v" "0 < compare (bt_node.more n) (bt_node.more m) \<longleftrightarrow> ?v < ?w"
    by (simp_all add: keys compare_zero compare_pos)
  have load: "load_slot (slot_of k) s = Some y" using load_slot_of [OF Bin.prems(1)] by simp
  note step = InsertNode.simps [of compare "slot_of k" x "up k" s]
  have S: "sorted_wrt (<) (keys_of key (fst s) a)" "sorted_wrt (<) (keys_of key (fst s) b)"
    "\<forall>r \<in> set (refs a). key_at key (fst s) r < ?w" "\<forall>r \<in> set (refs b). ?w < key_at key (fst s) r"
    using Bin.prems(3) by (auto simp: keys_of_def sorted_wrt_middle)
  consider "?v = ?w" | "?v < ?w" | "?w < ?v" by fastforce
  then show ?case
  proof cases
    case 1
    then show ?thesis using step load n m cmp by (simp add: keys_of_def)
  next
    case 2
    have "InsertNode compare (slot_of k) x (up k) s = InsertNode compare (LeftSlot y) x y s" using step load n m cmp 2 by simp
    moreover have "placed key (fst s) ?v (InL y c b # k)" using Bin.prems(4) S(4) 2 by (auto simp: placed_def)
    moreover have "?v \<in> set (keys_of key (fst s) (Bin a y c b)) \<longleftrightarrow> ?v \<in> set (keys_of key (fst s) a)" using 2 S(4) by (auto simp: keys_of_def)
    ultimately show ?thesis using Bin.IH(1) [of "InL y c b # k"] Bin.prems(2) S(1) iffD1 [OF holds_left Bin.prems(1)] by (cases "?v \<in> set (keys_of key (fst s) a)") (simp_all add: whole_left)
  next
    case 3
    have "InsertNode compare (slot_of k) x (up k) s = InsertNode compare (RightSlot y) x y s"
      using step load n m cmp 3 less_imp_neq [OF 3] less_not_sym [OF 3] by simp
    moreover have "placed key (fst s) ?v (InR a y c # k)" using Bin.prems(4) S(3) 3 by (auto simp: placed_def)
    moreover have "?v \<in> set (keys_of key (fst s) (Bin a y c b)) \<longleftrightarrow> ?v \<in> set (keys_of key (fst s) b)" using 3 S(3) by (auto simp: keys_of_def)
    ultimately show ?thesis using Bin.IH(2) [of "InR a y c # k"] Bin.prems(2) S(2) iffD1 [OF holds_right Bin.prems(1)] by (cases "?v \<in> set (keys_of key (fst s) b)") (simp_all add: whole_right)
  qed
qed

end

end
