(* ===== verification/CTreeSpec.thy ===== *)
theory CTreeSpec
  imports CTreeInsert "HOL-Library.Multiset"
begin

text \<open>
  The operations on a well-formed tree: insertion, search, traversal and destruction.
\<close>

section \<open>Well-formed trees\<close>

text \<open>A red-black tree whose keys increase in the order of the tree.\<close>

definition tree_ok :: "('a \<Rightarrow> 'k::linorder) \<Rightarrow> 'a bt_state \<Rightarrow> btr \<Rightarrow> bool" where
  "tree_ok key s T \<longleftrightarrow> holds s [] T \<and> balanced T \<and> tcolor T = Black \<and> sorted_wrt (<) (keys_of key (fst s) T)"

text \<open>What an insertion leaves of the heap and of the header: the new node gets the next index.\<close>

definition inserted_into :: "nat \<Rightarrow> btr \<Rightarrow> 'a bt_state \<Rightarrow> 'a bt_state \<Rightarrow> bool" where
  "inserted_into x T s s' \<longleftrightarrow>
     bt_count (snd s') = bt_count (snd s) + 1 \<and>
     payload (fst s' x) = map_option (\<lambda>n. (bt_count (snd s) + 1, bt_node.more n)) (fst s x) \<and>
     (\<forall>r. r \<noteq> x \<longrightarrow> payload (fst s' r) = payload (fst s r)) \<and>
     (\<forall>r. r \<notin> insert x (set (refs T)) \<longrightarrow> fst s' r = fst s r)"

lemma key_at_payload: "map_option snd (payload (h' r)) = map_option snd (payload (h r)) \<Longrightarrow> key_at key h' r = key_at key h r"
  by (cases "h r"; cases "h' r") (auto simp: payload_def key_at_def)

lemma key_at_keeps: "keeps X s s' \<Longrightarrow> key_at key (fst s') = key_at key (fst s)"
  by (intro ext key_at_payload) (simp add: keeps_def)

lemma key_at_inserted:
  assumes "inserted_into x T s s'"
  shows "key_at key (fst s') = key_at key (fst s)"
proof (intro ext key_at_payload)
  fix r show "map_option snd (payload (fst s' r)) = map_option snd (payload (fst s r))"
    using assms by (cases "r = x"; cases "fst s x") (auto simp: inserted_into_def payload_def)
qed

lemma whole_top: "whole [] T = set (refs T)"
  by (simp add: whole_def)

lemma set_index_holds:
  assumes "holds (h, t) k T" "x \<notin> whole k T"
  shows "holds (h(x \<mapsto> n), t\<lparr>bt_count := c\<rparr>) k T"
  using assms by (simp add: holds_def whole_def)

context tree_order begin

lemma insert_new:
  assumes R: "balanced T" "tcolor T = Black" and i: "holds s1 k (Bin Tip x Red Tip)" "plug k Tip = T"
  shows "\<exists>s2 h T'. fix_loop x s1 = Some s2 \<and> paint (bt_root (snd s2)) Black (fst s2) = Some h \<and>
    holds (h, snd s2) [] T' \<and> balanced T' \<and> tcolor T' = Black \<and> refs T' = before k @ x # behind k \<and>
    keeps (insert x (set (refs T))) s1 (h, snd s2)"
proof -
  have "path_ok 0 k" using unplug_balanced [of k Tip] R i(2) by auto
  then have "loop_inv s1 k (Bin Tip x Red Tip)" using i(1) by (simp add: loop_inv_def)
  from fix_loop_holds [OF this] obtain s2 k2 T2 where l: "fix_loop x s1 = Some s2" "loop_inv s2 k2 T2" "black_above k2"
    "refs (plug k2 T2) = before k @ x # behind k" "keeps (whole k (Bin Tip x Red Tip)) s1 s2" by auto
  obtain h t where s2: "s2 = (h, t)" by (cases s2)
  have T: "refs T = before k @ behind k" using arg_cong [OF i(2), of refs] by simp
  then have w: "whole k (Bin Tip x Red Tip) = insert x (set (refs T))" by (auto simp: whole_def)
  have P: "holds (h, t) [] (plug k2 T2)" "balanced (plug k2 T2)"
    using l(2,3) holds_plug plug_balanced [of T2 k2] s2 unfolding loop_inv_def by blast+
  obtain a y c b where U: "plug k2 T2 = Bin a y c b" using l(4) by (cases "plug k2 T2") auto
  obtain h' where h': "paint y Black h = Some h'" "holds (h', t) [] (Bin a y Black b)" "keeps (whole [] (Bin a y c b)) (h, t) (h', t)"
    using paint_holds [of h t "[]" a y c b Black] P(1) U by auto
  have "bt_root t = y" using P(1) U by (simp add: holds_def)
  moreover have "whole [] (Bin a y c b) = insert x (set (refs T))"
    using arg_cong [OF l(4), of set] U T by (simp add: whole_top)
  moreover have "refs (Bin a y Black b) = before k @ x # behind k" "balanced (Bin a y Black b)" using l(4) P(2) U by auto
  moreover have "keeps (insert x (set (refs T))) s1 (h', t)"
    using keeps_trans [of _ s1 "(h, t)" "(h', t)"] l(5) h'(3) calculation(2) s2 w by simp
  ultimately show ?thesis using l(1) h'(1,2) s2 by (intro exI [of _ s2] exI [of _ h'] exI [of _ "Bin a y Black b"]) auto
qed

lemma keeps_after_index:
  assumes "keeps (insert x (set (refs T))) (h(x \<mapsto> n\<lparr>bt_index := c\<rparr>), t\<lparr>bt_count := c\<rparr>) s'" "h x = Some n" "c = bt_count t + 1"
  shows "inserted_into x T (h, t) s'"
  using assms by (auto simp: keeps_def inserted_into_def payload_def)

lemma BinaryTreeInsert_spec:
  assumes ok: "tree_ok key s T" and f: "fresh_node (fst s) x (set (refs T))"
  shows "\<exists>s' T'. BinaryTreeInsert compare x s = Some (s', key_at key (fst s) x \<notin> set (keys_of key (fst s) T)) \<and>
    tree_ok key s' T' \<and> inserted_into x T s s' \<and>
    (if key_at key (fst s) x \<in> set (keys_of key (fst s) T) then T' = T
     else \<exists>xs ys. refs T = xs @ ys \<and> refs T' = xs @ x # ys)"
proof -
  obtain h t where s: "s = (h, t)" by (cases s)
  obtain n where n: "x \<noteq> 0" "h x = Some n" "bt_color n = Red" "bt_left n = 0" "bt_right n = 0" "x \<notin> set (refs T)"
    using f s by (auto simp: fresh_node_def)
  let ?c = "bt_count t + 1"
  let ?s = "(h(x \<mapsto> n\<lparr>bt_index := ?c\<rparr>), t\<lparr>bt_count := ?c\<rparr>)"
  have run: "BinaryTreeInsert compare x s = BinaryTreeNodeInsert compare x ?s"
    using n by (simp add: BinaryTreeInsert_def heap_ops s)
  have h0: "holds ?s [] T" using ok n(6) s by (intro set_index_holds) (auto simp: tree_ok_def whole_top)
  have ins: "inserted_into x T s ?s" using n by (simp add: inserted_into_def payload_def s)
  note K = key_at_inserted [OF ins, of key]
  have K2: "keys_of key (fst ?s) = keys_of key (fst s)" by (intro ext) (simp only: keys_of_def K)
  have Kp: "placed key (fst ?s) = placed key (fst s)" by (intro ext) (simp only: placed_def K)
  have "fresh_node (fst ?s) x (whole [] T)" using n by (simp add: fresh_node_def whole_top)
  moreover have "sorted_wrt (<) (keys_of key (fst ?s) T)" using ok unfolding K2 tree_ok_def by simp
  moreover have "placed key (fst ?s) (key_at key (fst ?s) x) []" by (simp add: placed_def)
  ultimately have I: "if key_at key (fst s) x \<in> set (keys_of key (fst s) T) then InsertNode compare RootSlot x 0 ?s = Some (?s, False)
    else \<exists>s' k'. InsertNode compare RootSlot x 0 ?s = Some (s', True) \<and> holds s' k' (Bin Tip x Red Tip) \<and>
      plug k' Tip = T \<and> placed key (fst s) (key_at key (fst s) x) k' \<and> keeps (insert x (set (refs T))) ?s s'"
    using InsertNode_spec [OF h0, of x] unfolding K K2 Kp whole_top slot_of.simps up.simps plug.simps by blast
  show ?thesis
  proof (cases "key_at key (fst s) x \<in> set (keys_of key (fst s) T)")
    case True
    then have "BinaryTreeInsert compare x s = Some (?s, False)" using I run by (simp add: BinaryTreeNodeInsert_def)
    moreover have "tree_ok key ?s T" using h0 ok K2 by (simp add: tree_ok_def)
    ultimately show ?thesis using True ins by auto
  next
    case False
    then obtain s1 k where i: "InsertNode compare RootSlot x 0 ?s = Some (s1, True)" "holds s1 k (Bin Tip x Red Tip)"
      "plug k Tip = T" "placed key (fst s) (key_at key (fst s) x) k" "keeps (insert x (set (refs T))) ?s s1" using I by auto
    obtain s2 h2 T' where r: "fix_loop x s1 = Some s2" "paint (bt_root (snd s2)) Black (fst s2) = Some h2"
      "holds (h2, snd s2) [] T'" "balanced T'" "tcolor T' = Black" "refs T' = before k @ x # behind k"
      "keeps (insert x (set (refs T))) s1 (h2, snd s2)"
      using insert_new [OF _ _ i(2,3)] ok unfolding tree_ok_def by blast
    have into: "inserted_into x T s (h2, snd s2)"
      using keeps_after_index [OF keeps_trans [OF i(5) r(7)] n(2) refl] s by simp
    have T: "refs T = before k @ behind k" using arg_cong [OF i(3), of refs] by simp
    have "sorted_wrt (<) (keys_of key h2 T')"
      using ok i(4) key_at_inserted [OF into, of key] unfolding tree_ok_def keys_of_def T r(6) placed_def
      by (auto simp: sorted_wrt_append)
    then have "tree_ok key (h2, snd s2) T'" using r(3-5) by (simp add: tree_ok_def)
    moreover have "BinaryTreeInsert compare x s = Some ((h2, snd s2), True)" using run i(1) r(1,2) by (simp add: BinaryTreeNodeInsert_def)
    ultimately show ?thesis using False into T r(6) by auto
  qed
qed

lemma search_spec:
  assumes "shape h p T" "sorted_wrt (<) (keys_of key h T)"
  shows "\<exists>r. BinaryTreeNodeSearch search q h (rt T) = Some r \<and>
    (if skey q \<in> set (keys_of key h T) then r \<in> set (refs T) \<and> key_at key h r = skey q else r = 0)"
  using assms
proof (induction T arbitrary: p)
  case Tip
  show ?case by (subst BinaryTreeNodeSearch.simps) (simp add: keys_of_def)
next
  case (Bin a y c b)
  obtain n where n: "deref h y = Some n" "bt_left n = rt a" "bt_right n = rt b" "y \<noteq> 0"
    using Bin.prems(1) by (auto simp: node_is_def deref_def)
  let ?w = "key_at key h y"
  have cmp: "search (bt_node.more n) q = 0 \<longleftrightarrow> ?w = skey q" "0 < search (bt_node.more n) q \<longleftrightarrow> skey q < ?w"
    by (simp_all add: key_at_deref [OF n(1)] search_zero search_pos)
  note step = BinaryTreeNodeSearch.simps [of search q h y]
  have S: "sorted_wrt (<) (keys_of key h a)" "sorted_wrt (<) (keys_of key h b)"
    "\<forall>r \<in> set (refs a). key_at key h r < ?w" "\<forall>r \<in> set (refs b). ?w < key_at key h r"
    using Bin.prems(2) by (auto simp: keys_of_def sorted_wrt_middle)
  have sub: "shape h y a" "shape h y b" using Bin.prems(1) by auto
  consider "skey q = ?w" | "skey q < ?w" | "?w < skey q" by fastforce
  then show ?case
  proof cases
    case 1
    then show ?thesis using step n cmp by (simp add: keys_of_def)
  next
    case 2
    have "BinaryTreeNodeSearch search q h y = BinaryTreeNodeSearch search q h (rt a)" using step n cmp 2 by simp
    moreover have "skey q \<in> set (keys_of key h (Bin a y c b)) \<longleftrightarrow> skey q \<in> set (keys_of key h a)" using 2 S(4) by (auto simp: keys_of_def)
    ultimately show ?thesis using Bin.IH(1) [OF sub(1) S(1)] by (cases "skey q \<in> set (keys_of key h a)") auto
  next
    case 3
    have "BinaryTreeNodeSearch search q h y = BinaryTreeNodeSearch search q h (rt b)"
      using step n cmp 3 less_imp_neq [OF 3] less_not_sym [OF 3] by simp
    moreover have "skey q \<in> set (keys_of key h (Bin a y c b)) \<longleftrightarrow> skey q \<in> set (keys_of key h b)" using 3 S(3) by (auto simp: keys_of_def)
    ultimately show ?thesis using Bin.IH(2) [OF sub(2) S(2)] by (cases "skey q \<in> set (keys_of key h b)") auto
  qed
qed

lemma BinaryTreeSearch_spec:
  assumes "tree_ok key s T"
  shows "\<exists>r. BinaryTreeSearch search q (fst s) (Some (snd s)) = Some r \<and>
    (if skey q \<in> set (keys_of key (fst s) T) then r \<in> set (refs T) \<and> key_at key (fst s) r = skey q else r = 0)"
  using search_spec [of "fst s" 0 T q] assms by (auto simp: tree_ok_def holds_def BinaryTreeSearch_def)

end

section \<open>Traversal\<close>

text \<open>The nodes in order with their depths; the traversal goes from right to left.\<close>

fun depths :: "int \<Rightarrow> btr \<Rightarrow> (nat \<times> int) list" where
  "depths d Tip = []"
| "depths d (Bin a x c b) = depths (d + 1) a @ (x, d) # depths (d + 1) b"

lemma map_fst_depths [simp]: "map fst (depths d T) = refs T"
  by (induction T arbitrary: d) auto

lemma traverse_spec:
  "shape h p T \<Longrightarrow> BinaryTreeNodeTraverse f h (rt T) d data = Some (foldr (\<lambda>(r, e). f (the (h r)) e) (depths d T) data)"
proof (induction T arbitrary: p d data)
  case Tip
  show ?case by (subst BinaryTreeNodeTraverse.simps) simp
next
  case (Bin a x c b)
  obtain n where n: "h x = Some n" "bt_left n = rt a" "bt_right n = rt b" "x \<noteq> 0" using Bin.prems by (auto simp: node_is_def)
  have sub: "shape h x a" "shape h x b" using Bin.prems by auto
  show ?case using n Bin.IH(1) [OF sub(1)] Bin.IH(2) [OF sub(2)] by (subst BinaryTreeNodeTraverse.simps) (simp add: deref_def)
qed

section \<open>Destruction\<close>

fun postorder :: "btr \<Rightarrow> nat list" where
  "postorder Tip = []"
| "postorder (Bin a x c b) = postorder a @ postorder b @ [x]"

lemma postorder_refs: "mset (postorder T) = mset (refs T)"
  by (induction T) auto

definition without :: "'a bt_heap \<Rightarrow> nat set \<Rightarrow> 'a bt_heap" where
  "without h X = (\<lambda>r. if r \<in> X then None else h r)"

definition destroy :: "('a bt_node_scheme \<Rightarrow> 's \<Rightarrow> 's) option \<Rightarrow> 'a bt_heap \<Rightarrow> nat list \<Rightarrow> 's \<Rightarrow> 's" where
  "destroy D h rs data = (case D of None \<Rightarrow> data | Some d \<Rightarrow> fold (\<lambda>r. d (the (h r))) rs data)"

lemma destroy_append: "destroy D h (rs @ rs') data = destroy D h rs' (destroy D h rs data)"
  by (simp add: destroy_def split: option.split)

lemma destroy_cong: "(\<And>r. r \<in> set rs \<Longrightarrow> h' r = h r) \<Longrightarrow> destroy D h' rs data = destroy D h rs data"
  by (auto simp: destroy_def split: option.split intro!: fold_cong)

lemma set_postorder: "set (postorder T) = set (refs T)"
  by (induction T) auto

lemma delete_spec:
  "shape h p T \<Longrightarrow> distinct (refs T) \<Longrightarrow>
   BinaryTreeNodeDelete D (rt T) (h, data) = Some (without h (set (refs T)), destroy D h (postorder T) data)"
proof (induction T arbitrary: p h data)
  case Tip
  show ?case by (subst BinaryTreeNodeDelete.simps) (simp add: without_def destroy_def split: option.split)
next
  case (Bin a x c b)
  obtain n where n: "h x = Some n" "bt_left n = rt a" "bt_right n = rt b" "x \<noteq> 0" using Bin.prems by (auto simp: node_is_def)
  have d: "x \<notin> set (refs a)" "x \<notin> set (refs b)" "set (refs a) \<inter> set (refs b) = {}" "distinct (refs a)" "distinct (refs b)"
    using Bin.prems by auto
  let ?h1 = "without h (set (refs a))"
  let ?h2 = "without ?h1 (set (refs b))"
  have x: "?h1 x = Some n" "?h2 x = Some n" using d n by (simp_all add: without_def)
  have "shape ?h1 x b" using Bin.prems d by (subst shape_cong [of b _ h]) (auto simp: without_def)
  note IH2 = Bin.IH(2) [OF this d(5)]
  have "shape h x a" using Bin.prems by simp
  note IH1 = Bin.IH(1) [OF this d(4)]
  have b: "destroy D ?h1 (postorder b) data' = destroy D h (postorder b) data'" for data'
    by (rule destroy_cong) (use d in \<open>auto simp: without_def set_postorder\<close>)
  have "?h2(x := None) = without h (set (refs (Bin a x c b)))" by (auto simp: without_def)
  then show ?case
    using n x IH1 IH2 b by (subst BinaryTreeNodeDelete.simps) (auto simp: deref_def destroy_append destroy_def split: option.split)
qed

section \<open>Height\<close>

fun theight :: "btr \<Rightarrow> nat" where
  "theight Tip = 0"
| "theight (Bin a x c b) = Suc (max (theight a) (theight b))"

lemma height_bheight: "balanced T \<Longrightarrow> theight T \<le> 2 * bheight T + (if tcolor T = Red then 1 else 0)"
proof (induction T)
  case (Bin a x c b)
  then have IH: "theight a \<le> 2 * bheight a + (if tcolor a = Red then 1 else 0)"
    "theight b \<le> 2 * bheight b + (if tcolor b = Red then 1 else 0)" "bheight a = bheight b" by auto
  then show ?case using Bin.prems by (cases c) (auto split: if_splits)
qed simp

lemma bheight_size: "balanced T \<Longrightarrow> 2 ^ bheight T \<le> length (refs T) + 1"
proof (induction T)
  case (Bin a x c b)
  then have "2 ^ bheight a \<le> length (refs a) + 1" "2 ^ bheight a \<le> length (refs b) + 1" by auto
  then show ?case by auto
qed simp

lemma tree_height:
  assumes "balanced T" "tcolor T = Black"
  shows "2 ^ theight T \<le> (length (refs T) + 1)\<^sup>2"
proof -
  have "(2::nat) ^ theight T \<le> 2 ^ (2 * bheight T)" using height_bheight [OF assms(1)] assms(2) by (intro power_increasing) auto
  also have "\<dots> = (2 ^ bheight T)\<^sup>2" by (simp add: power_mult [symmetric] mult.commute)
  also have "\<dots> \<le> (length (refs T) + 1)\<^sup>2" using bheight_size [OF assms(1)] by (intro power_mono) auto
  finally show ?thesis .
qed

end
