(* ===== verification/CSymTabSpec.thy ===== *)
theory CSymTabSpec
  imports CSymTab CTreeSpec "HOL-Library.List_Lexorder"
begin

text \<open>
  A scope as a finite map from names to symbols, and what the operations on it do to the map.
\<close>

section \<open>Names\<close>

lemma c_str_simps [simp]: "c_str [] = []" "c_str (x # xs) = (if x = 0 then [] else x # c_str xs)"
  by (simp_all add: c_str_def)

lemma uint_byte: "0 < uint (x :: u8) \<longleftrightarrow> x \<noteq> 0" "uint x = uint y \<longleftrightarrow> x = y" "uint y < uint x \<longleftrightarrow> y < x"
proof -
  show "uint x = uint y \<longleftrightarrow> x = y" by (rule word_uint_eq_iff [symmetric])
  show "uint y < uint x \<longleftrightarrow> y < x" by (simp add: word_less_def)
  show "0 < uint x \<longleftrightarrow> x \<noteq> 0" using uint_ge_0 [of x] by (auto simp: uint_0_iff less_le)
qed

lemma strcmp_order: "strcmp a b = 0 \<longleftrightarrow> c_str a = c_str b" "0 < strcmp a b \<longleftrightarrow> c_str b < c_str a"
proof (induction a b rule: strcmp.induct)
  case (2 y ys)
  { case 1 show ?case by (simp add: uint_0_iff) next case 2 show ?case by (simp add: not_less) }
next
  case (3 x xs)
  { case 1 show ?case by (simp add: uint_0_iff) next case 2 show ?case by (simp add: uint_byte) }
next
  case (4 x xs y ys)
  { case 1 show ?case using 4 by (auto simp: uint_byte uint_0_iff)
  next case 2 show ?case using 4 by (cases "y = 0") (auto simp: uint_byte uint_0_iff less_le word_le_def) }
qed simp_all

abbreviation part_name :: "sym_part \<Rightarrow> name" where
  "part_name p \<equiv> c_str (sn_name p)"

interpretation names: tree_order SymbolNodeInsertCompare SymbolNodeSearchCompare part_name c_str
  by unfold_locales (simp_all add: SymbolNodeInsertCompare_def SymbolNodeSearchCompare_def StringCompareString_def strcmp_order)

lemma StringEqualString_iff: "StringEqualString a b \<longleftrightarrow> c_str a = c_str b"
  by (simp add: StringEqualString_def strcmp_order)

section \<open>The map of a tree\<close>

definition name_at :: "sym_part bt_heap \<Rightarrow> nat \<Rightarrow> name" where
  "name_at h r = key_at part_name h r"

definition symbol_at :: "sym_part bt_heap \<Rightarrow> nat \<Rightarrow> nat" where
  "symbol_at h r = sn_symbol (bt_node.more (the (h r)))"

definition tree_map :: "sym_part bt_heap \<Rightarrow> btr \<Rightarrow> name \<Rightarrow> nat option" where
  "tree_map h T = map_of (map (\<lambda>r. (name_at h r, symbol_at h r)) (refs T))"

text \<open>Every node stands for an allocated symbol of its name.\<close>

definition symbols_ok :: "sym_part bt_heap \<Rightarrow> symbol_store \<Rightarrow> btr \<Rightarrow> bool" where
  "symbols_ok h syms T \<longleftrightarrow>
     (\<forall>r \<in> set (refs T). symbol_at h r \<noteq> 0 \<and> (\<exists>sy. syms (symbol_at h r) = Some sy \<and> name_at h r = c_str (sy_name sy)))"

definition table_ok :: "symbol_store \<Rightarrow> sym_part bt_state \<Rightarrow> btr \<Rightarrow> bool" where
  "table_ok syms s T \<longleftrightarrow> tree_ok part_name s T \<and> symbols_ok (fst s) syms T \<and> finite (dom (fst s))"

lemma keys_of_names: "keys_of part_name h T = map (name_at h) (refs T)"
  by (simp add: keys_of_def name_at_def)

lemma tree_names_distinct: "tree_ok part_name s T \<Longrightarrow> distinct (map (name_at (fst s)) (refs T))"
  unfolding tree_ok_def keys_of_names by (metis strict_sorted_iff)

lemma tree_map_dom: "tree_map h T v = None \<longleftrightarrow> v \<notin> set (keys_of part_name h T)"
  by (auto simp: tree_map_def keys_of_names map_of_eq_None_iff image_image)

lemma tree_map_at: "tree_ok part_name s T \<Longrightarrow> r \<in> set (refs T) \<Longrightarrow> tree_map (fst s) T (name_at (fst s) r) = Some (symbol_at (fst s) r)"
  unfolding tree_map_def by (rule map_of_is_SomeI) (use tree_names_distinct [of s T] in \<open>auto simp: comp_def\<close>)

lemma refs_nonzero: "shape h p T \<Longrightarrow> r \<in> set (refs T) \<Longrightarrow> r \<noteq> 0 \<and> h r \<noteq> None"
  by (induction T arbitrary: p) (auto simp: node_is_def)

lemma tree_ok_refs: "tree_ok key s T \<Longrightarrow> r \<in> set (refs T) \<Longrightarrow> r \<noteq> 0 \<and> fst s r \<noteq> None"
  using refs_nonzero [of "fst s" 0 T] by (simp add: tree_ok_def holds_def)

lemma FindSymbol_spec:
  assumes "table_ok syms s T"
  shows "FindSymbol (fst s) (Some (snd s)) v = Some (case tree_map (fst s) T (c_str v) of None \<Rightarrow> 0 | Some sy \<Rightarrow> sy)"
proof -
  have ok: "tree_ok part_name s T" using assms by (simp add: table_ok_def)
  obtain r where r: "BinaryTreeSearch SymbolNodeSearchCompare v (fst s) (Some (snd s)) = Some r"
    "if c_str v \<in> set (keys_of part_name (fst s) T) then r \<in> set (refs T) \<and> key_at part_name (fst s) r = c_str v else r = 0"
    using names.BinaryTreeSearch_spec [OF ok, of v] by blast
  show ?thesis
  proof (cases "c_str v \<in> set (keys_of part_name (fst s) T)")
    case True
    then have in_T: "r \<in> set (refs T)" "name_at (fst s) r = c_str v" using r(2) by (simp_all add: name_at_def)
    then have "tree_map (fst s) T (c_str v) = Some (symbol_at (fst s) r)" using tree_map_at [OF ok in_T(1)] by simp
    moreover have "r \<noteq> 0" "fst s r \<noteq> None" using tree_ok_refs [OF ok in_T(1)] by simp_all
    ultimately show ?thesis using r(1) by (auto simp: FindSymbol_def deref_def symbol_at_def)
  next
    case False
    then have "tree_map (fst s) T (c_str v) = None" by (simp add: tree_map_dom)
    then show ?thesis using r False by (simp add: FindSymbol_def)
  qed
qed

section \<open>A new node\<close>

definition fresh_cell :: "(sym_part bt_heap \<Rightarrow> nat) \<Rightarrow> bool" where
  "fresh_cell malloc \<longleftrightarrow> (\<forall>h. finite (dom h) \<longrightarrow> malloc h \<noteq> 0 \<and> h (malloc h) = None)"

text \<open>Other cells of the heap stay, and the nodes of the new tree are old ones of the tree or new cells.\<close>

definition apart :: "btr \<Rightarrow> sym_part bt_heap \<Rightarrow> btr \<Rightarrow> sym_part bt_heap \<Rightarrow> bool" where
  "apart T h T' h' \<longleftrightarrow> (\<forall>r. r \<notin> set (refs T) \<longrightarrow> h r \<noteq> None \<longrightarrow> h' r = h r) \<and>
     set (refs T') \<subseteq> set (refs T) \<union> {r. h r = None}"

lemma map_of_middle:
  "v \<notin> fst ` set xs \<Longrightarrow> map_of (xs @ (v, y) # ys) = (map_of (xs @ ys))(v \<mapsto> y)"
  by (induction xs) auto

lemma tree_map_add:
  assumes T: "refs T = xs @ ys" "refs T' = xs @ x # ys" and n: "name_at h' x = v" "symbol_at h' x = sy" "v \<notin> name_at h ` set (refs T)"
    and k: "\<And>r. r \<in> set (refs T) \<Longrightarrow> name_at h' r = name_at h r \<and> symbol_at h' r = symbol_at h r"
  shows "tree_map h' T' = (tree_map h T)(v \<mapsto> sy)"
proof -
  have same: "map (\<lambda>r. (name_at h' r, symbol_at h' r)) xs = map (\<lambda>r. (name_at h r, symbol_at h r)) xs"
    "map (\<lambda>r. (name_at h' r, symbol_at h' r)) ys = map (\<lambda>r. (name_at h r, symbol_at h r)) ys" using k T(1) by auto
  have "tree_map h' T' = map_of (map (\<lambda>r. (name_at h r, symbol_at h r)) xs @ (v, sy) # map (\<lambda>r. (name_at h r, symbol_at h r)) ys)"
    unfolding tree_map_def T(2) map_append list.map n(1,2) same ..
  also have "\<dots> = (map_of (map (\<lambda>r. (name_at h r, symbol_at h r)) xs @ map (\<lambda>r. (name_at h r, symbol_at h r)) ys))(v \<mapsto> sy)"
    by (rule map_of_middle) (use n(3) T(1) in auto)
  finally show ?thesis using T(1) by (simp add: tree_map_def)
qed

lemma symbol_at_payload: "payload (h' r) = Some (i, p) \<Longrightarrow> symbol_at h' r = sn_symbol p \<and> name_at h' r = part_name p"
  by (auto simp: payload_def symbol_at_def name_at_def key_at_def)

lemma at_payload: "payload (h' r) = payload (h r) \<Longrightarrow> name_at h' r = name_at h r \<and> symbol_at h' r = symbol_at h r"
  by (cases "h r"; cases "h' r") (auto simp: payload_def symbol_at_def name_at_def key_at_def)

lemma upd_tree_ok:
  assumes "tree_ok key (h, t) T" "x \<notin> set (refs T)"
  shows "tree_ok key (h(x := v), t) T"
proof -
  have "keys_of key (h(x := v)) T = keys_of key h T" using assms(2) by (auto simp: keys_of_def key_at_def)
  then show ?thesis using assms by (simp add: tree_ok_def holds_def)
qed

lemma NewSymbolNode_spec:
  assumes "table_ok syms (h, t) T" "fresh_cell malloc" "symbol \<noteq> 0" "syms symbol = Some sy"
  obtains h1 where "NewSymbolNode malloc syms symbol h = Some (h1, malloc h)" "table_ok syms (h1, t) T"
    "fresh_node h1 (malloc h) (set (refs T))" "malloc h \<noteq> 0" "h (malloc h) = None" "\<forall>r. r \<noteq> malloc h \<longrightarrow> h1 r = h r"
    "name_at h1 (malloc h) = c_str (sy_name sy)" "symbol_at h1 (malloc h) = symbol" "h1 (malloc h) \<noteq> None"
proof -
  have ok: "tree_ok part_name (h, t) T" and fin: "finite (dom h)" and sok: "symbols_ok h syms T" using assms(1) by (simp_all add: table_ok_def)
  have x: "malloc h \<noteq> 0" "h (malloc h) = None" using assms(2) fin by (simp_all add: fresh_cell_def)
  then have nin: "malloc h \<notin> set (refs T)" using tree_ok_refs [OF ok, of "malloc h"] by auto
  define n where "n = BinaryTreeNodeInit (bt_node.extend \<lparr>bt_color = Black, bt_left = 0, bt_right = 0, bt_parent = 0, bt_index = 0\<rparr>
                 \<lparr>sn_name = c_str (sy_name sy), sn_symbol = symbol\<rparr>)"
  have n: "NewSymbolNode malloc syms symbol h = Some (h(malloc h \<mapsto> n), malloc h)" "bt_color n = Red" "bt_left n = 0" "bt_right n = 0"
    "bt_node.more n = \<lparr>sn_name = c_str (sy_name sy), sn_symbol = symbol\<rparr>"
    using assms(3,4) by (simp_all add: n_def NewSymbolNode_def BinaryTreeNodeInit_def bt_node.defs Let_def)
  let ?h1 = "h(malloc h \<mapsto> n)"
  have idem: "c_str (c_str str) = c_str str" for str by (induction str) auto
  have "symbols_ok ?h1 syms T" using sok nin unfolding symbols_ok_def by (auto simp: symbol_at_def name_at_def key_at_def)
  then have "table_ok syms (?h1, t) T" using upd_tree_ok [OF ok nin] fin by (simp add: table_ok_def)
  moreover have "fresh_node ?h1 (malloc h) (set (refs T))" using x nin n by (simp add: fresh_node_def)
  moreover have "name_at ?h1 (malloc h) = c_str (sy_name sy)" "symbol_at ?h1 (malloc h) = symbol"
    using n(5) by (simp_all add: name_at_def key_at_def symbol_at_def idem)
  ultimately show thesis using that [of ?h1] n(1) x by simp
qed

lemma inserted_dom: "inserted_into x T s s' \<Longrightarrow> dom (fst s') = dom (fst s)"
proof -
  assume i: "inserted_into x T s s'"
  have "fst s' r = None \<longleftrightarrow> fst s r = None" for r
    using i by (cases "r = x"; cases "fst s r"; cases "fst s' r") (auto simp: inserted_into_def payload_def)
  then show ?thesis by (auto simp: dom_def)
qed

lemma inserted_at:
  assumes "inserted_into x T s s'"
  shows "name_at (fst s') r = name_at (fst s) r" "symbol_at (fst s') r = symbol_at (fst s) r"
proof -
  have "payload (fst s' r) = map_option (\<lambda>n. (if r = x then bt_count (snd s) + 1 else bt_index n, bt_node.more n)) (fst s r)"
    using assms by (cases "r = x") (auto simp: inserted_into_def payload_def)
  then show "name_at (fst s') r = name_at (fst s) r" "symbol_at (fst s') r = symbol_at (fst s) r"
    by (cases "fst s r"; cases "fst s' r"; auto simp: payload_def name_at_def key_at_def symbol_at_def)+
qed

text \<open>A new node inserted into a table; \<open>ok\<close> says that the name is new.\<close>

definition added :: "symbol_store \<Rightarrow> nat \<Rightarrow> name \<Rightarrow> nat \<Rightarrow> sym_part bt_state \<Rightarrow> btr \<Rightarrow> sym_part bt_state \<Rightarrow> btr \<Rightarrow> bool \<Rightarrow> bool" where
  "added syms x v symbol s T s' T' ok \<longleftrightarrow>
     (ok \<longleftrightarrow> tree_map (fst s) T v = None) \<and> table_ok syms s' T' \<and> apart T (fst s) T' (fst s') \<and>
     tree_map (fst s') T' = (if ok then (tree_map (fst s) T)(v \<mapsto> symbol) else tree_map (fst s) T) \<and>
     (\<not> ok \<longrightarrow> T' = T) \<and> x \<notin> set (refs T) \<and> x \<noteq> 0 \<and> fst s x = None"

lemma add_symbol:
  assumes "table_ok syms s T" "fresh_cell malloc" "symbol \<noteq> 0" "syms symbol = Some sy"
  shows "\<exists>h1 x s' T' ok. NewSymbolNode malloc syms symbol (fst s) = Some (h1, x) \<and>
    BinaryTreeInsert SymbolNodeInsertCompare x (h1, snd s) = Some (s', ok) \<and> added syms x (c_str (sy_name sy)) symbol s T s' T' ok"
proof -
  obtain h t where s: "s = (h, t)" by (cases s)
  let ?v = "c_str (sy_name sy)" and ?x = "malloc h"
  obtain h1 where n: "NewSymbolNode malloc syms symbol h = Some (h1, ?x)" "table_ok syms (h1, t) T" "fresh_node h1 ?x (set (refs T))"
    "?x \<noteq> 0" "h ?x = None" "\<forall>r. r \<noteq> ?x \<longrightarrow> h1 r = h r" "name_at h1 ?x = ?v" "symbol_at h1 ?x = symbol" "h1 ?x \<noteq> None"
    using NewSymbolNode_spec [of syms h t T malloc symbol sy] assms s by metis
  have ok1: "tree_ok part_name (h1, t) T" "symbols_ok h1 syms T" "finite (dom h1)" using n(2) by (simp_all add: table_ok_def)
  have nin: "?x \<notin> set (refs T)" using n(3) by (simp add: fresh_node_def)
  have same: "name_at h1 r = name_at h r \<and> symbol_at h1 r = symbol_at h r" if "r \<in> set (refs T)" for r
  proof -
    have "h1 r = h r" using n(6) that nin by metis
    then show ?thesis by (simp add: name_at_def key_at_def symbol_at_def)
  qed
  then have map1: "tree_map h1 T = tree_map h T" unfolding tree_map_def by (intro arg_cong [of _ _ map_of] map_cong) auto
  have key: "key_at part_name h1 ?x = ?v" using n(7) by (simp add: name_at_def)
  obtain s' T' where i: "BinaryTreeInsert SymbolNodeInsertCompare ?x (h1, t) = Some (s', ?v \<notin> set (keys_of part_name h1 T))"
    "tree_ok part_name s' T'" "inserted_into ?x T (h1, t) s'"
    "if ?v \<in> set (keys_of part_name h1 T) then T' = T else \<exists>xs ys. refs T = xs @ ys \<and> refs T' = xs @ ?x # ys"
    using names.BinaryTreeInsert_spec [OF ok1(1), of ?x] n(3) unfolding fst_conv key by blast
  let ?ok = "?v \<notin> set (keys_of part_name h1 T)"
  have at: "name_at (fst s') r = name_at h1 r" "symbol_at (fst s') r = symbol_at h1 r" for r using inserted_at [OF i(3)] by simp_all
  have refs': "set (refs T') = (if ?ok then insert ?x (set (refs T)) else set (refs T))" using i(4) by (auto split: if_splits)
  have "symbols_ok (fst s') syms T'"
    using ok1(2) n(7,8) assms(3,4) unfolding symbols_ok_def refs' at by auto
  then have "table_ok syms s' T'" using i(2) inserted_dom [OF i(3)] ok1(3) by (simp add: table_ok_def)
  moreover have "fst s' r = h r" if r: "r \<notin> set (refs T)" "h r \<noteq> None" for r
  proof -
    have "r \<noteq> ?x" using r n(5) by auto
    then show ?thesis using i(3) n(6) r(1) by (simp add: inserted_into_def)
  qed
  then have "apart T h T' (fst s')" using n(5) unfolding apart_def refs' by auto
  moreover have "tree_map (fst s') T' = (if ?ok then (tree_map h T)(?v \<mapsto> symbol) else tree_map h T)"
  proof (cases ?ok)
    case True
    then obtain xs ys where "refs T = xs @ ys" "refs T' = xs @ ?x # ys" using i(4) by auto
    then have "tree_map (fst s') T' = (tree_map h1 T)(?v \<mapsto> symbol)"
      by (rule tree_map_add) (use at n(7,8) True in \<open>auto simp: keys_of_names\<close>)
    then show ?thesis using True map1 by simp
  next
    case False
    then have "tree_map (fst s') T' = tree_map h1 T" using i(4) by (simp add: tree_map_def at)
    then show ?thesis using False map1 by simp
  qed
  moreover have "?ok \<longleftrightarrow> tree_map h T ?v = None" by (simp add: tree_map_dom [symmetric] map1)
  ultimately have "added syms ?x ?v symbol s T s' T' ?ok" using nin n(4,5) i(4) s by (auto simp: added_def)
  then show ?thesis using n(1) i(1) unfolding s fst_conv snd_conv by blast
qed

section \<open>Insertion into a scope\<close>

definition mark :: "nat \<Rightarrow> symbol_store \<Rightarrow> symbol_store" where
  "mark symbol syms = syms(symbol \<mapsto> (the (syms symbol))\<lparr>sy_lookup_ambiguous := True\<rparr>)"

lemma set_ambiguous_mark: "syms symbol \<noteq> None \<Longrightarrow> set_ambiguous symbol syms = Some (mark symbol syms)"
  by (auto simp: set_ambiguous_def mark_def)

lemma mark_name: "syms symbol \<noteq> None \<Longrightarrow> map_option sy_name (mark symbol syms r) = map_option sy_name (syms r)"
  by (auto simp: mark_def)

lemma symbols_ok_names:
  assumes "symbols_ok h syms T" "\<And>r. map_option sy_name (syms' r) = map_option sy_name (syms r)"
  shows "symbols_ok h syms' T"
  unfolding symbols_ok_def
proof
  fix r assume "r \<in> set (refs T)"
  then obtain sy where sy: "symbol_at h r \<noteq> 0" "syms (symbol_at h r) = Some sy" "name_at h r = c_str (sy_name sy)"
    using assms(1) by (auto simp: symbols_ok_def)
  then obtain sy' where "syms' (symbol_at h r) = Some sy'" "sy_name sy' = sy_name sy" using assms(2) [of "symbol_at h r"] by auto
  then show "symbol_at h r \<noteq> 0 \<and> (\<exists>sy. syms' (symbol_at h r) = Some sy \<and> name_at h r = c_str (sy_name sy))" using sy by auto
qed

lemma tree_map_symbol:
  assumes "table_ok syms s T" "tree_map (fst s) T v = Some symbol"
  shows "symbol \<noteq> 0 \<and> (\<exists>sy. syms symbol = Some sy \<and> c_str (sy_name sy) = v)"
proof -
  obtain r where "r \<in> set (refs T)" "name_at (fst s) r = v" "symbol_at (fst s) r = symbol"
    using map_of_SomeD [OF assms(2) [unfolded tree_map_def]] by auto
  then show ?thesis using assms(1) by (auto simp: table_ok_def symbols_ok_def)
qed

lemma apart_refl [simp]: "apart T h T h"
  by (auto simp: apart_def)

text \<open>What \<open>InsertLocalSymbol\<close> promises for a symbol \<open>sy\<close>.\<close>

definition insertable :: "symbol \<Rightarrow> local_table \<Rightarrow> bool" where
  "insertable sy table \<longleftrightarrow> sy_is_name_independent sy \<or> FindNamespaceAliasInVector (lt_namespace_aliases table) (sy_name sy) = 0"

definition local_inserted :: "symbol \<Rightarrow> nat \<Rightarrow> scope_state \<Rightarrow> btr \<Rightarrow> scope_state \<Rightarrow> btr \<Rightarrow> bool \<Rightarrow> bool" where
  "local_inserted sy symbol s T s' T' ok \<longleftrightarrow>
     (case (s, s') of ((h, syms, table), (h', syms', table')) \<Rightarrow>
        let v = c_str (sy_name sy); old = tree_map h T v
        in table_ok syms' (h', lt_table table') T' \<and> apart T h T' h' \<and>
          lt_namespace_aliases table' = lt_namespace_aliases table \<and>
          (ok \<longleftrightarrow> insertable sy table \<and> (old = None \<or> sy_is_name_independent sy)) \<and>
          tree_map h' T' = (if insertable sy table \<and> old = None then (tree_map h T)(v \<mapsto> symbol) else tree_map h T) \<and>
          syms' = (if sy_is_name_independent sy \<and> old \<noteq> None then mark symbol (mark (the old) syms) else syms))"

lemma drop_node:
  assumes a: "added syms x v symbol s T (h', t') T' False"
  shows "table_ok syms (SymbolNodeDelete x h', t') T \<and> apart T (fst s) T (SymbolNodeDelete x h') \<and>
    tree_map (SymbolNodeDelete x h') T = tree_map (fst s) T"
proof -
  have A: "table_ok syms (h', t') T" "apart T (fst s) T h'" "tree_map h' T = tree_map (fst s) T" "x \<notin> set (refs T)" "x \<noteq> 0" "fst s x = None"
    using a by (auto simp: added_def)
  have D: "SymbolNodeDelete x h' = h'(x := None)" using A(5) by (simp add: SymbolNodeDelete_def)
  have at: "name_at (h'(x := None)) r = name_at h' r" "symbol_at (h'(x := None)) r = symbol_at h' r" if "r \<in> set (refs T)" for r
    using that A(4) by (auto simp: name_at_def key_at_def symbol_at_def)
  have "symbols_ok (h'(x := None)) syms T" using A(1) at by (simp add: table_ok_def symbols_ok_def)
  then have "table_ok syms (h'(x := None), t') T" using A(1) upd_tree_ok [of part_name h' t' T x None] A(4) by (simp add: table_ok_def)
  moreover have "tree_map (h'(x := None)) T = tree_map h' T" unfolding tree_map_def using at by (intro arg_cong [of _ _ map_of] map_cong) auto
  moreover have "apart T (fst s) T (h'(x := None))" using A(2,6) by (auto simp: apart_def)
  ultimately show ?thesis using A(3) D by simp
qed

lemma insert_ambiguous:
  assumes ok: "table_ok syms (h, lt_table table) T" and sy: "symbol \<noteq> 0" "syms symbol = Some sy"
    and i: "sy_is_name_independent sy" "tree_map h T (c_str (sy_name sy)) = Some e"
  shows "\<exists>s'. InsertLocalSymbol malloc symbol (h, syms, table) = Some (s', True) \<and> local_inserted sy symbol (h, syms, table) T s' T True"
proof -
  have e: "e \<noteq> 0" "syms e \<noteq> None" using tree_map_symbol [OF ok] i(2) by auto
  have find: "FindSymbol h (Some (lt_table table)) (sy_name sy) = Some e" using FindSymbol_spec [OF ok] i(2) by simp
  have m: "mark e syms symbol \<noteq> None" using sy(2) by (simp add: mark_def)
  have "InsertLocalSymbol malloc symbol (h, syms, table) = Some ((h, mark symbol (mark e syms), table), True)"
    using sy i(1) find e(1) set_ambiguous_mark [of syms e] e(2) set_ambiguous_mark [of "mark e syms" symbol] m by (simp add: InsertLocalSymbol_def)
  moreover have "table_ok (mark symbol (mark e syms)) (h, lt_table table) T"
    using ok symbols_ok_names [of h syms T] mark_name [of syms e] e(2) mark_name [of "mark e syms" symbol] m by (simp add: table_ok_def)
  ultimately show ?thesis using i by (auto simp: local_inserted_def insertable_def)
qed

lemma InsertLocalSymbol_spec:
  assumes ok: "table_ok syms (h, lt_table table) T" and m: "fresh_cell malloc" and sy: "symbol \<noteq> 0" "syms symbol = Some sy"
  shows "\<exists>s' T' ok. InsertLocalSymbol malloc symbol (h, syms, table) = Some (s', ok) \<and> local_inserted sy symbol (h, syms, table) T s' T' ok"
proof -
  let ?v = "c_str (sy_name sy)"
  have find: "FindSymbol h (Some (lt_table table)) (sy_name sy) = Some (case tree_map h T ?v of None \<Rightarrow> 0 | Some e \<Rightarrow> e)"
    using FindSymbol_spec [OF ok] by simp
  show ?thesis
  proof (cases "insertable sy table \<and> \<not> (sy_is_name_independent sy \<and> tree_map h T ?v \<noteq> None)")
    case False
    then consider "\<not> insertable sy table" | e where "sy_is_name_independent sy" "tree_map h T ?v = Some e" by auto
    then show ?thesis
    proof cases
      case 1
      then have "InsertLocalSymbol malloc symbol (h, syms, table) = Some ((h, syms, table), False)"
        using sy by (simp add: InsertLocalSymbol_def insertable_def FindDirectLocalNamespaceAlias_def)
      moreover have "local_inserted sy symbol (h, syms, table) T (h, syms, table) T False"
        using 1 ok by (auto simp: local_inserted_def insertable_def)
      ultimately show ?thesis by blast
    next
      case 2
      then show ?thesis using insert_ambiguous [OF ok sy] by blast
    qed
  next
    case True
    obtain h1 x h2 t2 T' b where a: "NewSymbolNode malloc syms symbol h = Some (h1, x)"
      "BinaryTreeInsert SymbolNodeInsertCompare x (h1, lt_table table) = Some ((h2, t2), b)"
      "added syms x ?v symbol (h, lt_table table) T (h2, t2) T' b"
      using add_symbol [OF ok m sy] by auto
    let ?h3 = "if b then h2 else SymbolNodeDelete x h2"
    have "InsertLocalSymbol malloc symbol (h, syms, table) = Some ((?h3, syms, table\<lparr>lt_table := t2\<rparr>), b)"
      using sy True find a(1,2) by (auto simp: InsertLocalSymbol_def insertable_def FindDirectLocalNamespaceAlias_def split: option.splits)
    moreover have "local_inserted sy symbol (h, syms, table) T (?h3, syms, table\<lparr>lt_table := t2\<rparr>) T' b"
    proof (cases b)
      case True': True
      then show ?thesis using True a(3) by (auto simp: local_inserted_def added_def)
    next
      case False
      have "T' = T" "tree_map h T ?v \<noteq> None" using a(3) False by (auto simp: added_def)
      then show ?thesis using True False drop_node [of syms x ?v symbol _ T h2 t2 T'] a(3) by (auto simp: local_inserted_def)
    qed
    ultimately show ?thesis by blast
  qed
qed

end
