(* ===== verification/CScopes.thy ===== *)
theory CScopes
  imports CSymTabSpec
begin

text \<open>
  The stack of scopes as a chain of maps, and the removal of a symbol from a scope.
\<close>

section \<open>The stack of scopes\<close>

fun chain_map :: "sym_part bt_heap \<Rightarrow> btr list \<Rightarrow> name \<Rightarrow> nat option" where
  "chain_map h [] = Map.empty"
| "chain_map h (T # Ts) = chain_map h Ts ++ tree_map h T"

text \<open>Well-formed tables with nodes of their own.\<close>

definition scopes_ok :: "sym_part bt_heap \<Rightarrow> symbol_store \<Rightarrow> local_table list \<Rightarrow> btr list \<Rightarrow> bool" where
  "scopes_ok h syms tables Ts \<longleftrightarrow> list_all2 (\<lambda>table T. table_ok syms (h, lt_table table) T) tables Ts \<and>
     distinct (concat (map refs Ts))"

lemma tree_map_nonzero: "table_ok syms s T \<Longrightarrow> tree_map (fst s) T v \<noteq> Some 0"
  using tree_map_symbol [of syms s T v 0] by auto

lemma FindLocalSymbol_spec:
  assumes "list_all2 (\<lambda>table T. table_ok syms (h, lt_table table) T) tables Ts"
  shows "FindLocalSymbol h tables v = Some (case chain_map h Ts (c_str v) of None \<Rightarrow> 0 | Some sy \<Rightarrow> sy)"
  using assms
proof (induction tables Ts rule: list_all2_induct)
  case (Cons table tables T Ts)
  have f: "FindSymbol h (Some (lt_table table)) v = Some (case tree_map h T (c_str v) of None \<Rightarrow> 0 | Some sy \<Rightarrow> sy)"
    using FindSymbol_spec [OF Cons.hyps(1)] by simp
  show ?case
  proof (cases "tree_map h T (c_str v)")
    case None
    then show ?thesis using f Cons.IH by (simp add: map_add_def)
  next
    case (Some sy)
    then have "sy \<noteq> 0" using tree_map_nonzero [OF Cons.hyps(1), of "c_str v"] by auto
    then show ?thesis using f Some by (simp add: map_add_def)
  qed
qed simp

text \<open>A table whose nodes are not touched.\<close>

lemma tree_map_cong: "(\<And>r. r \<in> set (refs T) \<Longrightarrow> h' r = h r) \<Longrightarrow> tree_map h' T = tree_map h T"
  unfolding tree_map_def by (intro arg_cong [of _ _ map_of] map_cong) (auto simp: name_at_def key_at_def symbol_at_def)

lemma table_ok_cong:
  assumes "table_ok syms (h, t) T" "\<And>r. r \<in> set (refs T) \<Longrightarrow> h' r = h r" "finite (dom h')"
    "\<And>r. map_option sy_name (syms' r) = map_option sy_name (syms r)"
  shows "table_ok syms' (h', t) T"
proof -
  have at: "name_at h' r = name_at h r" "symbol_at h' r = symbol_at h r" if "r \<in> set (refs T)" for r
    using assms(2) [OF that] by (simp_all add: name_at_def key_at_def symbol_at_def)
  have "keys_of part_name h' T = keys_of part_name h T" using at(1) by (simp add: keys_of_names)
  moreover have "shape h' 0 T = shape h 0 T" using assms(2) by (rule shape_cong)
  ultimately have "tree_ok part_name (h', t) T" using assms(1) by (simp add: table_ok_def tree_ok_def holds_def)
  moreover have "symbols_ok h' syms T" using assms(1) at by (simp add: table_ok_def symbols_ok_def)
  ultimately show ?thesis using symbols_ok_names [OF _ assms(4)] assms(3) by (simp add: table_ok_def)
qed

lemma other_scopes:
  assumes t: "list_all2 (\<lambda>table T. table_ok syms (h, lt_table table) T) tables Ts" and a: "apart T h T' h'"
    and d: "set (refs T) \<inter> set (concat (map refs Ts)) = {}" and fin: "finite (dom h')"
    and names: "\<And>r. map_option sy_name (syms' r) = map_option sy_name (syms r)"
  shows "list_all2 (\<lambda>table T. table_ok syms' (h', lt_table table) T) tables Ts \<and> chain_map h' Ts = chain_map h Ts \<and>
    set (refs T') \<inter> set (concat (map refs Ts)) = {}"
  using t d
proof (induction tables Ts rule: list_all2_induct)
  case (Cons table tables U Us)
  have U: "h' r = h r \<and> h r \<noteq> None" if "r \<in> set (refs U)" for r
    using a tree_ok_refs [of part_name "(h, lt_table table)" U r] Cons.hyps(1) Cons.prems that by (auto simp: table_ok_def apart_def)
  have "table_ok syms' (h', lt_table table) U" by (rule table_ok_cong [OF Cons.hyps(1) _ fin names]) (use U in blast)
  moreover have "tree_map h' U = tree_map h U" by (rule tree_map_cong) (use U in blast)
  moreover have "set (refs T') \<inter> set (refs U) = {}" using a U Cons.prems unfolding apart_def by fastforce
  ultimately show ?case using Cons.IH Cons.prems by (auto simp: Int_Un_distrib)
qed simp

text \<open>The names of symbols do not change, and the other scopes keep their bindings.\<close>

lemma InsertLocalSymbol_scopes:
  assumes ok: "scopes_ok h syms (table # tables) (T # Ts)" and m: "fresh_cell malloc" and sy: "symbol \<noteq> 0" "syms symbol = Some sy"
  shows "\<exists>h' syms' table' T' ok. InsertLocalSymbol malloc symbol (h, syms, table) = Some ((h', syms', table'), ok) \<and>
    local_inserted sy symbol (h, syms, table) T (h', syms', table') T' ok \<and> scopes_ok h' syms' (table' # tables) (T' # Ts) \<and>
    chain_map h' Ts = chain_map h Ts"
proof -
  have O: "table_ok syms (h, lt_table table) T" "list_all2 (\<lambda>table T. table_ok syms (h, lt_table table) T) tables Ts"
    "set (refs T) \<inter> set (concat (map refs Ts)) = {}" "distinct (concat (map refs Ts))"
    using ok by (simp_all add: scopes_ok_def)
  obtain h' syms' table' T' b where i: "InsertLocalSymbol malloc symbol (h, syms, table) = Some ((h', syms', table'), b)"
    "local_inserted sy symbol (h, syms, table) T (h', syms', table') T' b"
    using InsertLocalSymbol_spec [OF O(1) m sy] by auto
  have L: "table_ok syms' (h', lt_table table') T'" "apart T h T' h'" using i(2) by (auto simp: local_inserted_def Let_def)
  have names: "map_option sy_name (syms' r) = map_option sy_name (syms r)" for r
  proof (cases "sy_is_name_independent sy \<and> tree_map h T (c_str (sy_name sy)) \<noteq> None")
    case True
    then obtain e where e: "tree_map h T (c_str (sy_name sy)) = Some e" by auto
    have 1: "syms e \<noteq> None" using tree_map_symbol [OF O(1)] e by auto
    have 2: "mark e syms symbol \<noteq> None" using sy(2) by (simp add: mark_def)
    have "syms' = mark symbol (mark e syms)" using i(2) True e by (simp add: local_inserted_def Let_def)
    then show ?thesis using mark_name [of syms e r] 1 mark_name [of "mark e syms" symbol r] 2 by simp
  next
    case False
    then show ?thesis using i(2) by (auto simp: local_inserted_def Let_def split: if_splits)
  qed
  have fin: "finite (dom h')" using L(1) by (simp add: table_ok_def)
  note R = other_scopes [OF O(2) L(2) O(3) fin names]
  have "distinct (refs T')" using L(1) holds_distinct by (auto simp: table_ok_def tree_ok_def)
  then have "scopes_ok h' syms' (table' # tables) (T' # Ts)" using L(1) R O(4) by (simp add: scopes_ok_def)
  then show ?thesis using i R by blast
qed

section \<open>Removal\<close>

definition symbol_name :: "symbol_store \<Rightarrow> nat \<Rightarrow> name" where
  "symbol_name syms symbol = c_str (sy_name (the (syms symbol)))"

lemma collect_spec:
  "shape h p T \<Longrightarrow> CollectSymbolsFromTree h skip (rt T) symbols =
    Some (symbols @ filter (\<lambda>y. y \<noteq> 0 \<and> y \<noteq> skip) (map (symbol_at h) (postorder T)))"
proof (induction T arbitrary: p symbols)
  case Tip
  show ?case by (subst CollectSymbolsFromTree.simps) simp
next
  case (Bin a x c b)
  obtain n where n: "h x = Some n" "bt_left n = rt a" "bt_right n = rt b" "x \<noteq> 0" using Bin.prems by (auto simp: node_is_def)
  have sub: "shape h x a" "shape h x b" using Bin.prems by auto
  have "sn_symbol (bt_node.more n) = symbol_at h x" using n(1) by (simp add: symbol_at_def)
  then show ?case using n Bin.IH(1) [OF sub(1)] Bin.IH(2) [OF sub(2)]
    by (subst CollectSymbolsFromTree.simps) (simp add: deref_def)
qed

lemma apart_trans:
  assumes 1: "apart T h T1 h1" and 2: "apart T1 h1 T2 h2"
  shows "apart T h T2 h2"
  unfolding apart_def
proof (intro conjI allI impI subsetI)
  fix r assume r: "r \<notin> set (refs T)" "h r \<noteq> None"
  then have "h1 r = h r" "r \<notin> set (refs T1)" using 1 by (auto simp: apart_def)
  then show "h2 r = h r" using 2 r(2) by (simp add: apart_def)
next
  fix r assume "r \<in> set (refs T2)"
  then have "r \<in> set (refs T1) \<or> h1 r = None" using 2 by (auto simp: apart_def)
  then show "r \<in> set (refs T) \<union> {r. h r = None}" using 1 by (auto simp: apart_def)
qed

lemma map_same:
  assumes "\<And>w y. f w = Some y \<longleftrightarrow> g w = Some y"
  shows "f = g"
proof (rule ext)
  fix w show "f w = g w"
  proof (cases "f w")
    case None
    then show ?thesis using assms [of w] by (cases "g w") auto
  next
    case (Some y)
    then show ?thesis using iffD1 [OF assms Some] by simp
  qed
qed

lemma reinsert_spec:
  assumes "table_ok syms s T" "fresh_cell malloc" "\<forall>y \<in> set ys. y \<noteq> 0 \<and> syms y \<noteq> None" "distinct (map (symbol_name syms) ys)"
    "\<forall>y \<in> set ys. tree_map (fst s) T (symbol_name syms y) = None"
  shows "\<exists>s' T'. reinsert malloc syms ys s = Some s' \<and> table_ok syms s' T' \<and> apart T (fst s) T' (fst s') \<and>
    tree_map (fst s') T' = tree_map (fst s) T ++ map_of (map (\<lambda>y. (symbol_name syms y, y)) ys)"
  using assms
proof (induction ys arbitrary: s T)
  case Nil
  then show ?case by (auto intro!: exI [of _ T])
next
  case (Cons y ys)
  obtain sy where sy: "syms y = Some sy" using Cons.prems(3) by auto
  have name: "symbol_name syms y = c_str (sy_name sy)" by (simp add: symbol_name_def sy)
  obtain h1 x s1 T1 b where a: "NewSymbolNode malloc syms y (fst s) = Some (h1, x)"
    "BinaryTreeInsert SymbolNodeInsertCompare x (h1, snd s) = Some (s1, b)" "added syms x (symbol_name syms y) y s T s1 T1 b"
    using add_symbol [OF Cons.prems(1,2) _ sy] Cons.prems(3) unfolding name by auto
  have A: "table_ok syms s1 T1" "apart T (fst s) T1 (fst s1)" "tree_map (fst s1) T1 = (tree_map (fst s) T)(symbol_name syms y \<mapsto> y)"
    using a(3) Cons.prems(5) by (auto simp: added_def)
  have new: "\<forall>z \<in> set ys. tree_map (fst s1) T1 (symbol_name syms z) = None"
  proof
    fix z assume z: "z \<in> set ys"
    have "symbol_name syms z \<noteq> symbol_name syms y" using Cons.prems(4) imageI [OF z, of "symbol_name syms"] by auto
    then show "tree_map (fst s1) T1 (symbol_name syms z) = None" using A(3) Cons.prems(5) z by simp
  qed
  have prems: "\<forall>y \<in> set ys. y \<noteq> 0 \<and> syms y \<noteq> None" "distinct (map (symbol_name syms) ys)" using Cons.prems(3,4) by simp_all
  obtain s' T' where s': "reinsert malloc syms ys s1 = Some s'" "table_ok syms s' T'" "apart T1 (fst s1) T' (fst s')"
    "tree_map (fst s') T' = tree_map (fst s1) T1 ++ map_of (map (\<lambda>y. (symbol_name syms y, y)) ys)"
    using Cons.IH [OF A(1) Cons.prems(2) prems new] by blast
  have "map_of (map (\<lambda>y. (symbol_name syms y, y)) ys) (symbol_name syms y) = None"
    using Cons.prems(4) by (auto simp: map_of_eq_None_iff image_image)
  then have "tree_map (fst s') T' = tree_map (fst s) T ++ map_of (map (\<lambda>y. (symbol_name syms y, y)) (y # ys))"
    unfolding s'(4) A(3) by (auto simp: fun_eq_iff map_add_def split: option.split)
  moreover have "reinsert malloc syms (y # ys) s = Some s'" using s'(1) a(1,2) by simp
  ultimately show ?case using s'(2) apart_trans [OF A(2) s'(3)] by blast
qed

lemma destroy_keeps: "destroy (Some (SymbolNodeDestructor False)) h rs syms = syms"
  by (induction rs arbitrary: syms) (simp_all add: destroy_def SymbolNodeDestructor_def)

lemma table_map_iff:
  assumes "table_ok syms s T"
  shows "tree_map (fst s) T v = Some y \<longleftrightarrow> (\<exists>r \<in> set (refs T). name_at (fst s) r = v \<and> symbol_at (fst s) r = y)"
proof -
  have "distinct (map fst (map (\<lambda>r. (name_at (fst s) r, symbol_at (fst s) r)) (refs T)))"
    using assms tree_names_distinct [of s T] by (simp add: table_ok_def comp_def)
  then show ?thesis unfolding tree_map_def by (auto simp: map_of_eq_Some_iff)
qed

text \<open>The symbols of a table without one of them, as they are collected.\<close>

lemma others:
  assumes ok: "table_ok syms s T" and ys: "ys = filter (\<lambda>y. y \<noteq> 0 \<and> y \<noteq> removed) (map (symbol_at (fst s)) (postorder T))"
    and r: "tree_map (fst s) T v = Some removed"
  shows "\<forall>y \<in> set ys. y \<noteq> 0 \<and> syms y \<noteq> None" "distinct (map (symbol_name syms) ys)"
    "map_of (map (\<lambda>y. (symbol_name syms y, y)) ys) = (tree_map (fst s) T)(v := None)"
proof -
  have S: "symbol_at (fst s) r \<noteq> 0 \<and> syms (symbol_at (fst s) r) \<noteq> None \<and> symbol_name syms (symbol_at (fst s) r) = name_at (fst s) r"
    if "r \<in> set (refs T)" for r using ok that by (auto simp: table_ok_def symbols_ok_def symbol_name_def)
  have ys': "ys = map (symbol_at (fst s)) (filter (\<lambda>r. symbol_at (fst s) r \<noteq> removed) (postorder T))"
    unfolding ys filter_map comp_def by (intro arg_cong [of _ _ "map (symbol_at (fst s))"] filter_cong) (use S set_postorder in auto)
  show "\<forall>y \<in> set ys. y \<noteq> 0 \<and> syms y \<noteq> None" using S by (auto simp: ys set_postorder)
  have d: "distinct (map (name_at (fst s)) (refs T))" using ok tree_names_distinct by (auto simp: table_ok_def)
  then have "distinct (refs T)" "inj_on (name_at (fst s)) (set (refs T))" by (simp_all add: distinct_map)
  moreover have "distinct (postorder T)" using calculation(1) postorder_refs [of T] by (metis mset_eq_imp_distinct_iff)
  ultimately have dn: "distinct (map (name_at (fst s)) (filter (\<lambda>r. symbol_at (fst s) r \<noteq> removed) (postorder T)))"
    by (auto simp: distinct_map set_postorder intro: inj_on_subset)
  have names: "map (symbol_name syms) ys = map (name_at (fst s)) (filter (\<lambda>r. symbol_at (fst s) r \<noteq> removed) (postorder T))"
    unfolding ys' map_map by (intro map_cong refl) (use S set_postorder in auto)
  show D: "distinct (map (symbol_name syms) ys)" unfolding names by (rule dn)
  have v: "name_at (fst s) a = v \<longleftrightarrow> symbol_at (fst s) a = removed" if a: "a \<in> set (refs T)" for a
  proof
    assume "name_at (fst s) a = v"
    then show "symbol_at (fst s) a = removed" using r a tree_map_at [of s T a] ok by (auto simp: table_ok_def)
  next
    assume "symbol_at (fst s) a = removed"
    moreover have "symbol_name syms removed = v" using tree_map_symbol [OF ok r] by (auto simp: symbol_name_def)
    ultimately show "name_at (fst s) a = v" using S [OF a] by simp
  qed
  have "map_of (map (\<lambda>y. (symbol_name syms y, y)) ys) w = Some y \<longleftrightarrow> ((tree_map (fst s) T)(v := None)) w = Some y" for w y
  proof -
    have "map_of (map (\<lambda>y. (symbol_name syms y, y)) ys) w = Some y \<longleftrightarrow> y \<in> set ys \<and> symbol_name syms y = w"
      using D by (auto simp: map_of_eq_Some_iff comp_def)
    also have "\<dots> \<longleftrightarrow> (\<exists>r \<in> set (refs T). symbol_at (fst s) r = y \<and> name_at (fst s) r = w \<and> y \<noteq> removed)"
      using S by (auto simp: ys' set_postorder)
    also have "\<dots> \<longleftrightarrow> ((tree_map (fst s) T)(v := None)) w = Some y"
      using v table_map_iff [OF ok, of w y] by (cases "w = v") auto
    finally show ?thesis .
  qed
  then show "map_of (map (\<lambda>y. (symbol_name syms y, y)) ys) = (tree_map (fst s) T)(v := None)"
    by (rule map_same)
qed

lemma Rebuild_spec:
  assumes ok: "table_ok syms s T" and m: "fresh_cell malloc" and r: "tree_map (fst s) T v = Some removed"
  shows "\<exists>s' T'. RebuildBinaryTreeWithout malloc syms removed s = Some s' \<and> table_ok syms s' T' \<and> apart T (fst s) T' (fst s') \<and>
    tree_map (fst s') T' = (tree_map (fst s) T)(v := None)"
proof -
  let ?h = "without (fst s) (set (refs T))" and ?t = "(snd s)\<lparr>bt_root := 0, bt_count := 0\<rparr>"
  define ys where "ys = filter (\<lambda>y. y \<noteq> 0 \<and> y \<noteq> removed) (map (symbol_at (fst s)) (postorder T))"
  have sh: "shape (fst s) 0 T" "bt_root (snd s) = rt T" "distinct (refs T)" using ok by (simp_all add: table_ok_def tree_ok_def holds_def)
  note O = others [OF ok ys_def r]
  have c: "CollectSymbolsFromTree (fst s) removed (bt_root (snd s)) [] = Some ys"
    using collect_spec [OF sh(1), of removed "[]"] sh(2) by (simp add: ys_def)
  have d: "BinaryTreeDestruct (Some (SymbolNodeDestructor False)) (Some (snd s)) (fst s, syms) = Some (?h, syms)"
    using delete_spec [OF sh(1,3), of "Some (SymbolNodeDestructor False)" syms] sh(2) by (simp add: BinaryTreeDestruct_def destroy_keeps)
  have "dom ?h \<subseteq> dom (fst s)" by (auto simp: without_def split: if_splits)
  then have "finite (dom ?h)" using ok finite_subset by (auto simp: table_ok_def)
  then have e: "table_ok syms (?h, ?t) Tip" by (simp add: table_ok_def tree_ok_def holds_def symbols_ok_def keys_of_def)
  have n: "\<forall>y \<in> set ys. tree_map (fst (?h, ?t)) Tip (symbol_name syms y) = None" by (simp add: tree_map_def)
  obtain s' T' where s': "reinsert malloc syms ys (?h, ?t) = Some s'" "table_ok syms s' T'" "apart Tip ?h T' (fst s')"
    "tree_map (fst s') T' = tree_map ?h Tip ++ map_of (map (\<lambda>y. (symbol_name syms y, y)) ys)"
    using reinsert_spec [OF e m O(1,2) n] by auto
  have "removed \<noteq> 0" using tree_map_symbol [OF ok r] by simp
  then have "RebuildBinaryTreeWithout malloc syms removed s = Some s'" using c d s'(1) by (simp add: RebuildBinaryTreeWithout_def)
  moreover have "apart T (fst s) T' (fst s')" using s'(3) by (auto simp: apart_def without_def)
  moreover have "tree_map (fst s') T' = (tree_map (fst s) T)(v := None)" using s'(4) O(3) by (simp add: tree_map_def)
  ultimately show ?thesis using s'(2) by blast
qed

lemma UninstallLocalSymbol_scopes:
  assumes ok: "scopes_ok h syms (table # tables) (T # Ts)" and m: "fresh_cell malloc" and sy: "symbol \<noteq> 0" "syms symbol = Some sy"
  shows "\<exists>h' table' T' ok. UninstallLocalSymbol malloc symbol (h, syms, table) = Some ((h', syms, table'), ok) \<and>
    (ok \<longleftrightarrow> tree_map h T (c_str (sy_name sy)) = Some symbol) \<and> scopes_ok h' syms (table' # tables) (T' # Ts) \<and>
    tree_map h' T' = (if ok then (tree_map h T)(c_str (sy_name sy) := None) else tree_map h T) \<and>
    chain_map h' Ts = chain_map h Ts"
proof -
  have O: "table_ok syms (h, lt_table table) T" "list_all2 (\<lambda>table T. table_ok syms (h, lt_table table) T) tables Ts"
    "set (refs T) \<inter> set (concat (map refs Ts)) = {}" "distinct (concat (map refs Ts))"
    using ok by (simp_all add: scopes_ok_def)
  have find: "FindSymbol h (Some (lt_table table)) (sy_name sy) = Some (case tree_map h T (c_str (sy_name sy)) of None \<Rightarrow> 0 | Some e \<Rightarrow> e)"
    using FindSymbol_spec [OF O(1), of "sy_name sy"] by simp
  show ?thesis
  proof (cases "tree_map h T (c_str (sy_name sy)) = Some symbol")
    case False
    then have "UninstallLocalSymbol malloc symbol (h, syms, table) = Some ((h, syms, table), False)"
      using find sy by (auto simp: UninstallLocalSymbol_def split: option.splits)
    then show ?thesis using False ok by auto
  next
    case True
    obtain h' t T' where r: "RebuildBinaryTreeWithout malloc syms symbol (h, lt_table table) = Some (h', t)" "table_ok syms (h', t) T'"
      "apart T h T' h'" "tree_map h' T' = (tree_map h T)(c_str (sy_name sy) := None)"
      using Rebuild_spec [OF O(1) m, of "c_str (sy_name sy)" symbol] True by auto
    have "UninstallLocalSymbol malloc symbol (h, syms, table) = Some ((h', syms, table\<lparr>lt_table := t\<rparr>), True)"
      using find True sy r(1) by (simp add: UninstallLocalSymbol_def)
    moreover have "finite (dom h')" "distinct (refs T')" using r(2) holds_distinct by (auto simp: table_ok_def tree_ok_def)
    note R = other_scopes [OF O(2) r(3) O(3) this(1) refl]
    have "scopes_ok h' syms (table\<lparr>lt_table := t\<rparr> # tables) (T' # Ts)" using r(2) R O(4) \<open>distinct (refs T')\<close> by (simp add: scopes_ok_def)
    ultimately show ?thesis using True r(4) R by auto
  qed
qed

end
