(* ===== verification/CGlobals.thy ===== *)
theory CGlobals
  imports CScopes
begin

text \<open>
  The hash table of \<open>util/hashtable.c\<close> and the global symbol table, whose entries are trees.  The table
  calls functions of its client for the hash of a value and for work on an entry; an entry is a pointer that
  only the table holds, here the header of a tree.
\<close>

section \<open>Hash tables\<close>

datatype hash_mode = kHashSearch | kHashInsert

record 'e hash_table =
  ht_entries :: "'e option list"
  ht_size :: nat
  ht_object_count :: u64

definition HashTableInit :: "nat \<Rightarrow> 'e hash_table" where
  "HashTableInit n_entries = \<lparr>ht_entries = replicate n_entries None, ht_size = n_entries, ht_object_count = 0\<rparr>"

text \<open>The functions of the client, on its state: the hash, insertion into an entry, search in an entry.\<close>

type_synonym ('v, 's) hasher = "'s \<Rightarrow> 'v \<Rightarrow> hash_mode \<Rightarrow> u64 option"
type_synonym ('e, 'v, 's) inserter = "'e option \<Rightarrow> 'v \<Rightarrow> 's \<Rightarrow> ('e option \<times> 's \<times> bool) option"

definition hash_index :: "('v, 's) hasher \<Rightarrow> 'e hash_table \<Rightarrow> 's \<Rightarrow> 'v \<Rightarrow> hash_mode \<Rightarrow> nat option" where
  "hash_index hash table s v mode = do {
     hash_value \<leftarrow> hash s v mode;
     if ht_size table = 0 then None else Some (unat hash_value mod ht_size table)
   }"

definition HashTableInsert ::
  "('v, 's) hasher \<Rightarrow> ('e, 'v, 's) inserter \<Rightarrow> 'e hash_table \<Rightarrow> 'v \<Rightarrow> 's \<Rightarrow> ('e hash_table \<times> 's \<times> bool) option" where
  "HashTableInsert hash inserter table v s = do {
     i \<leftarrow> hash_index hash table s v kHashInsert;
     (entry, s1, ok) \<leftarrow> inserter (ht_entries table ! i) v s;
     let table1 = table\<lparr>ht_entries := (ht_entries table)[i := entry]\<rparr>;
     Some (if ok then table1\<lparr>ht_object_count := ht_object_count table1 + 1\<rparr> else table1, s1, ok)
   }"

definition HashTableSearch ::
  "('v, 's) hasher \<Rightarrow> ('e option \<Rightarrow> 'v \<Rightarrow> 's \<Rightarrow> 'r option) \<Rightarrow> 'e hash_table \<Rightarrow> 'v \<Rightarrow> 's \<Rightarrow> 'r option" where
  "HashTableSearch hash search table v s = do {
     i \<leftarrow> hash_index hash table s v kHashSearch;
     search (ht_entries table ! i) v s
   }"

section \<open>Global symbols\<close>

text \<open>A value is a pointer to a node, when it is inserted, or to a name, when it is searched.\<close>

datatype symbol_value = NodeValue nat | NameValue name

text \<open>The loop over a name; \<open>char\<close> is signed.\<close>

fun hash_chars :: "u32 \<Rightarrow> name \<Rightarrow> u32" where
  "hash_chars hash [] = hash"
| "hash_chars hash (c # nm) = (if c = 0 then hash else hash_chars (push_bit 5 hash + hash + scast c) nm)"

definition HashSymbol :: "(symbol_value, sym_part bt_heap) hasher" where
  "HashSymbol h v mode = do {
     nm \<leftarrow> (case (mode, v) of
              (kHashInsert, NodeValue r) \<Rightarrow> map_option (\<lambda>n. sn_name (bt_node.more n)) (deref h r)
            | (kHashSearch, NameValue nm) \<Rightarrow> Some nm
            | _ \<Rightarrow> None);
     Some (ucast (hash_chars 5381 nm))
   }"

definition InsertSymbolIntoHashTable :: "(bt_tree, symbol_value, sym_part bt_heap) inserter" where
  "InsertSymbolIntoHashTable table v h =
     (case v of
        NodeValue node \<Rightarrow> do {
          let tree = (case table of None \<Rightarrow> BinaryTreeInit | Some t \<Rightarrow> t);
          ((h1, t), ok) \<leftarrow> BinaryTreeInsert SymbolNodeInsertCompare node (h, tree);
          Some (Some t, h1, ok)
        }
      | NameValue _ \<Rightarrow> None)"

definition FindSymbolInHashTable :: "bt_tree option \<Rightarrow> symbol_value \<Rightarrow> sym_part bt_heap \<Rightarrow> nat option" where
  "FindSymbolInHashTable table v h = (case v of NameValue nm \<Rightarrow> FindSymbol h table nm | NodeValue _ \<Rightarrow> None)"

definition InsertGlobalSymbol ::
  "(sym_part bt_heap \<Rightarrow> nat) \<Rightarrow> symbol_store \<Rightarrow> nat \<Rightarrow> sym_part bt_heap \<times> bt_tree hash_table \<Rightarrow>
   ((sym_part bt_heap \<times> bt_tree hash_table) \<times> bool) option" where
  "InsertGlobalSymbol malloc syms symbol s = do {
     (h1, node) \<leftarrow> NewSymbolNode malloc syms symbol (fst s);
     (table, h2, ok) \<leftarrow> HashTableInsert HashSymbol InsertSymbolIntoHashTable (snd s) (NodeValue node) h1;
     Some ((if ok then h2 else SymbolNodeDelete node h2, table), ok)
   }"

definition FindGlobalSymbol :: "sym_part bt_heap \<Rightarrow> bt_tree hash_table \<Rightarrow> name \<Rightarrow> nat option" where
  "FindGlobalSymbol h table name = HashTableSearch HashSymbol FindSymbolInHashTable table (NameValue name) h"

section \<open>The table as a map\<close>

definition slot :: "nat \<Rightarrow> name \<Rightarrow> nat" where
  "slot n_entries v = unat (ucast (hash_chars 5381 v) :: u64) mod n_entries"

lemma hash_c_str: "hash_chars hash (c_str v) = hash_chars hash v"
  by (induction hash v rule: hash_chars.induct) auto

lemma slot_c_str: "slot n_entries (c_str v) = slot n_entries v"
  by (simp add: slot_def hash_c_str)

definition bucket :: "bt_tree option \<Rightarrow> bt_tree" where
  "bucket entry = (case entry of None \<Rightarrow> BinaryTreeInit | Some t \<Rightarrow> t)"

text \<open>Every entry is a tree of its own with the names of its slot.\<close>

definition globals_ok :: "symbol_store \<Rightarrow> sym_part bt_heap \<Rightarrow> bt_tree hash_table \<Rightarrow> btr list \<Rightarrow> bool" where
  "globals_ok syms h table Ts \<longleftrightarrow>
     length Ts = ht_size table \<and> length (ht_entries table) = ht_size table \<and> 0 < ht_size table \<and>
     (\<forall>i < ht_size table. table_ok syms (h, bucket (ht_entries table ! i)) (Ts ! i) \<and>
        (\<forall>r \<in> set (refs (Ts ! i)). slot (ht_size table) (name_at h r) = i)) \<and>
     (\<forall>i < ht_size table. \<forall>j < ht_size table. i \<noteq> j \<longrightarrow> set (refs (Ts ! i)) \<inter> set (refs (Ts ! j)) = {})"

lemma globals_okD:
  assumes "globals_ok syms h table Ts"
  shows "length Ts = ht_size table" "length (ht_entries table) = ht_size table" "0 < ht_size table"
    "i < ht_size table \<Longrightarrow> table_ok syms (h, bucket (ht_entries table ! i)) (Ts ! i)"
    "i < ht_size table \<Longrightarrow> r \<in> set (refs (Ts ! i)) \<Longrightarrow> slot (ht_size table) (name_at h r) = i"
    "i < ht_size table \<Longrightarrow> j < ht_size table \<Longrightarrow> i \<noteq> j \<Longrightarrow> set (refs (Ts ! i)) \<inter> set (refs (Ts ! j)) = {}"
  using assms unfolding globals_ok_def by blast+

lemma slot_less: "0 < n_entries \<Longrightarrow> slot n_entries v < n_entries"
  by (simp add: slot_def)

lemma FindSymbol_bucket: "FindSymbol h entry v = FindSymbol h (Some (bucket entry)) v"
proof (cases entry)
  case None
  have "BinaryTreeNodeSearch SymbolNodeSearchCompare v h 0 = Some 0" by (subst BinaryTreeNodeSearch.simps) simp
  then show ?thesis using None by (simp add: FindSymbol_def bucket_def BinaryTreeInit_def BinaryTreeSearch_def)
qed (simp add: bucket_def)

lemma FindGlobalSymbol_spec:
  assumes "globals_ok syms h table Ts"
  shows "FindGlobalSymbol h table v =
    Some (case tree_map h (Ts ! slot (ht_size table) v) (c_str v) of None \<Rightarrow> 0 | Some y \<Rightarrow> y)"
proof -
  note D = globals_okD [OF assms]
  let ?i = "slot (ht_size table) v"
  have "FindGlobalSymbol h table v = FindSymbol h (ht_entries table ! ?i) v"
    using D(3) by (simp add: FindGlobalSymbol_def HashTableSearch_def hash_index_def HashSymbol_def FindSymbolInHashTable_def slot_def)
  then show ?thesis using FindSymbol_spec [OF D(4) [OF slot_less [OF D(3)]], of v] by (simp add: FindSymbol_bucket [of h "ht_entries table ! ?i"])
qed

text \<open>A bucket that changes among those that do not.\<close>

lemma names_in_map: "table_ok syms s T \<Longrightarrow> r \<in> set (refs T) \<Longrightarrow> tree_map (fst s) T (name_at (fst s) r) \<noteq> None"
  using tree_map_at [of s T r] by (simp add: table_ok_def)

lemma bucket_update:
  assumes ok: "globals_ok syms h table Ts" and i: "i < ht_size table"
    and t: "table_ok syms (h', t) T'" "apart (Ts ! i) h T' h'"
    and names: "\<And>v. tree_map h' T' v \<noteq> None \<Longrightarrow> tree_map h (Ts ! i) v \<noteq> None \<or> slot (ht_size table) v = i"
    and table': "ht_entries table' = (ht_entries table)[i := Some t]" "ht_size table' = ht_size table"
  shows "globals_ok syms h' table' (Ts[i := T'])" "j < ht_size table \<Longrightarrow> j \<noteq> i \<Longrightarrow> tree_map h' (Ts ! j) = tree_map h (Ts ! j)"
proof -
  note D = globals_okD [OF ok]
  have same: "h' r = h r \<and> h r \<noteq> None \<and> r \<notin> set (refs T')" if "j < ht_size table" "j \<noteq> i" "r \<in> set (refs (Ts ! j))" for r j
  proof -
    have "r \<notin> set (refs (Ts ! i))" using D(6) [OF that(1) i that(2)] that(3) by auto
    moreover have "h r \<noteq> None" using tree_ok_refs [of part_name "(h, bucket (ht_entries table ! j))" "Ts ! j" r] that(3) D(4) [OF that(1)] by (auto simp: table_ok_def)
    ultimately show ?thesis using t(2) by (auto simp: apart_def)
  qed
  show "tree_map h' (Ts ! j) = tree_map h (Ts ! j)" if "j < ht_size table" "j \<noteq> i"
    by (rule tree_map_cong) (use same [OF that] in blast)
  have fin: "finite (dom h')" using t(1) by (simp add: table_ok_def)
  have others: "table_ok syms (h', bucket (ht_entries table ! j)) (Ts ! j) \<and> (\<forall>r \<in> set (refs (Ts ! j)). slot (ht_size table) (name_at h' r) = j)"
    if j: "j < ht_size table" "j \<noteq> i" for j
  proof
    show "table_ok syms (h', bucket (ht_entries table ! j)) (Ts ! j)"
      by (rule table_ok_cong [OF D(4) [OF j(1)] _ fin refl]) (use same [OF j] in blast)
    show "\<forall>r \<in> set (refs (Ts ! j)). slot (ht_size table) (name_at h' r) = j"
      using same [OF j] D(5) [OF j(1)] by (auto simp: name_at_def key_at_def)
  qed
  have mine: "slot (ht_size table) (name_at h' r) = i" if "r \<in> set (refs T')" for r
  proof -
    from names [of "name_at h' r"] names_in_map [OF t(1) that]
    consider "tree_map h (Ts ! i) (name_at h' r) \<noteq> None" | "slot (ht_size table) (name_at h' r) = i" by auto
    then show ?thesis
    proof cases
      case 1
      then obtain q where "q \<in> set (refs (Ts ! i))" "name_at h q = name_at h' r"
        using table_map_iff [OF D(4) [OF i]] by auto
      then show ?thesis using D(5) [OF i] by metis
    qed
  qed
  have "set (refs (Ts[i := T'] ! a)) \<inter> set (refs (Ts[i := T'] ! b)) = {}" if "a < ht_size table" "b < ht_size table" "a \<noteq> b" for a b
    using i D(1) D(6) [OF that] same [of a] same [of b] that by (cases "a = i"; cases "b = i") (auto simp: nth_list_update)
  then show "globals_ok syms h' table' (Ts[i := T'])"
    using D(1-3) others mine t(1) i unfolding globals_ok_def table' by (auto simp: nth_list_update bucket_def)
qed

lemma HashTableInsert_symbol:
  assumes ok: "globals_ok syms h table Ts" and n: "\<exists>n. deref h1 x = Some n \<and> slot (ht_size table) (sn_name (bt_node.more n)) = i"
    and b: "BinaryTreeInsert SymbolNodeInsertCompare x (h1, bucket (ht_entries table ! i)) = Some ((h2, t), ok')"
  shows "\<exists>table'. HashTableInsert HashSymbol InsertSymbolIntoHashTable table (NodeValue x) h1 = Some (table', h2, ok') \<and>
    ht_entries table' = (ht_entries table)[i := Some t] \<and> ht_size table' = ht_size table"
  using n b globals_okD(3) [OF ok]
  by (auto simp: HashTableInsert_def hash_index_def HashSymbol_def InsertSymbolIntoHashTable_def slot_def bucket_def Let_def)

lemma InsertGlobalSymbol_spec:
  assumes ok: "globals_ok syms h table Ts" and m: "fresh_cell malloc" and sy: "symbol \<noteq> 0" "syms symbol = Some sy"
  shows "\<exists>h' table' Ts' ok. InsertGlobalSymbol malloc syms symbol (h, table) = Some ((h', table'), ok) \<and>
    globals_ok syms h' table' Ts' \<and> ht_size table' = ht_size table \<and>
    (ok \<longleftrightarrow> tree_map h (Ts ! slot (ht_size table) (sy_name sy)) (c_str (sy_name sy)) = None) \<and>
    (\<forall>j < ht_size table. tree_map h' (Ts' ! j) =
       (if ok \<and> j = slot (ht_size table) (sy_name sy) then (tree_map h (Ts ! j))(c_str (sy_name sy) \<mapsto> symbol) else tree_map h (Ts ! j)))"
proof -
  note D = globals_okD [OF ok]
  define i where "i = slot (ht_size table) (sy_name sy)"
  have i: "i < ht_size table" unfolding i_def by (rule slot_less [OF D(3)])
  let ?v = "c_str (sy_name sy)"
  obtain h1 x h2 t T' b where a: "NewSymbolNode malloc syms symbol h = Some (h1, x)"
    "BinaryTreeInsert SymbolNodeInsertCompare x (h1, bucket (ht_entries table ! i)) = Some ((h2, t), b)"
    "added syms x ?v symbol (h, bucket (ht_entries table ! i)) (Ts ! i) (h2, t) T' b"
    using add_symbol [OF D(4) [OF i] m sy] by auto
  have "x \<noteq> 0" using a(3) by (simp add: added_def)
  then have "\<exists>n. deref h1 x = Some n \<and> sn_name (bt_node.more n) = ?v"
    using a(1) sy by (auto simp: NewSymbolNode_def Let_def deref_def BinaryTreeNodeInit_def bt_node.defs)
  then have "\<exists>n. deref h1 x = Some n \<and> slot (ht_size table) (sn_name (bt_node.more n)) = i" by (auto simp: i_def slot_c_str)
  from HashTableInsert_symbol [OF ok this a(2)] obtain table' where t': "HashTableInsert HashSymbol InsertSymbolIntoHashTable table (NodeValue x) h1 = Some (table', h2, b)"
    "ht_entries table' = (ht_entries table)[i := Some t]" "ht_size table' = ht_size table" by blast
  define h3 where "h3 = (if b then h2 else SymbolNodeDelete x h2)"
  have run: "InsertGlobalSymbol malloc syms symbol (h, table) = Some ((h3, table'), b)" using a(1) t'(1) by (simp add: InsertGlobalSymbol_def h3_def)
  have F: "table_ok syms (h3, t) T'" "apart (Ts ! i) h T' h3" "b \<longleftrightarrow> tree_map h (Ts ! i) ?v = None"
    "tree_map h3 T' = (if b then (tree_map h (Ts ! i))(?v \<mapsto> symbol) else tree_map h (Ts ! i))"
    using a(3) drop_node [of syms x ?v symbol _ "Ts ! i" h2 t T'] by (cases b; auto simp: added_def h3_def)+
  have "tree_map h (Ts ! i) v \<noteq> None \<or> slot (ht_size table) v = i" if "tree_map h3 T' v \<noteq> None" for v
    using that F(4) by (auto simp: i_def slot_c_str split: if_splits)
  note U = bucket_update [OF ok i F(1,2) this t'(2,3)]
  have "tree_map h3 (Ts[i := T'] ! j) = (if b \<and> j = i then (tree_map h (Ts ! j))(?v \<mapsto> symbol) else tree_map h (Ts ! j))"
    if "j < ht_size table" for j using that U(2) F(4) D(1) by (cases "j = i") auto
  then show ?thesis using run U(1) t'(3) F(3) unfolding i_def by blast
qed

end
