(* ===== verification/CTreeTheorems.thy ===== *)
theory CTreeTheorems
  imports CGlobals
begin

text \<open>
  The properties of the red-black tree, of the scopes and of the global symbol table built on it.
\<close>

section \<open>Small inputs\<close>

definition demo_cell :: "sym_part bt_heap \<Rightarrow> nat" where
  "demo_cell h = Suc (Max (insert 0 (dom h)))"

lemma demo_cell_fresh: "fresh_cell demo_cell"
proof -
  have "h (demo_cell h) = None" if "finite (dom h)" for h
  proof (rule ccontr)
    assume "h (demo_cell h) \<noteq> None"
    then have "Suc (Max (insert 0 (dom h))) \<le> Max (insert 0 (dom h))" using that unfolding demo_cell_def by (intro Max_ge) auto
    then show False by simp
  qed
  then show ?thesis by (simp add: fresh_cell_def demo_cell_def)
qed

text \<open>Symbol 1 is \<open>x\<close>, symbol 2 is \<open>y\<close>.\<close>

definition demo_symbols :: symbol_store where
  "demo_symbols = [1 \<mapsto> \<lparr>sy_name = [120], sy_is_name_independent = False, sy_lookup_ambiguous = False\<rparr>,
     2 \<mapsto> \<lparr>sy_name = [121], sy_is_name_independent = False, sy_lookup_ambiguous = False\<rparr>]"

lemma demo_scope: "scopes_ok Map.empty demo_symbols [NewLocalSymbolTable] [Tip]"
  by (simp add: scopes_ok_def table_ok_def tree_ok_def holds_def symbols_ok_def keys_of_def NewLocalSymbolTable_def BinaryTreeInit_def)

text \<open>A tree of two nodes and a node to insert.\<close>

definition demo_sym_node :: "bt_color \<Rightarrow> nat \<Rightarrow> nat \<Rightarrow> nat \<Rightarrow> name \<Rightarrow> sym_part bt_node_scheme" where
  "demo_sym_node c l r p v = bt_node.extend \<lparr>bt_color = c, bt_left = l, bt_right = r, bt_parent = p, bt_index = 0\<rparr>
     \<lparr>sn_name = v, sn_symbol = 1\<rparr>"

definition demo_tree :: "sym_part bt_state" where
  "demo_tree = ([1 \<mapsto> demo_sym_node Black 0 2 0 [97], 2 \<mapsto> demo_sym_node Red 0 0 1 [98], 3 \<mapsto> demo_sym_node Red 0 0 0 [99]],
     \<lparr>bt_root = 1, bt_count = 2\<rparr>)"

abbreviation demo_btr :: btr where
  "demo_btr \<equiv> Bin Tip 1 Black (Bin Tip 2 Red Tip)"

lemma demo_tree_ok: "tree_ok part_name demo_tree demo_btr" "fresh_node (fst demo_tree) 3 {1, 2}"
  "keys_of part_name (fst demo_tree) demo_btr = [[97], [98]]" "key_at part_name (fst demo_tree) 3 = [99]"
  by (simp_all add: tree_ok_def holds_def node_is_def keys_of_def key_at_def fresh_node_def demo_tree_def demo_sym_node_def bt_node.defs)

section \<open>The tree\<close>

text \<open>
  C3. Insertion is correct on every red-black tree. A node whose key is new is linked in at its place in
  the order of keys, one with a key of the tree is not, and the return value says which. The result is
  again a red-black tree in key order: no red node has a red parent, every path to a leaf has as many
  black nodes, the links to parents agree with those to children. No pointer is followed that is null,
  the loop that repairs the colors ends, the client's part of no node and no node outside the tree
  change, and the count goes up by one either way.
\<close>

theorem BinaryTreeInsert_refines:
  assumes "tree_order compare search key skey" "tree_ok key s T" "fresh_node (fst s) x (set (refs T))"
  shows "\<exists>s' T'. BinaryTreeInsert compare x s = Some (s', key_at key (fst s) x \<notin> set (keys_of key (fst s) T)) \<and>
    tree_ok key s' T' \<and> inserted_into x T s s' \<and>
    (if key_at key (fst s) x \<in> set (keys_of key (fst s) T) then T' = T
     else \<exists>xs ys. refs T = xs @ ys \<and> refs T' = xs @ x # ys)"
  by (rule tree_order.BinaryTreeInsert_spec [OF assms])

theorem BinaryTreeInsert_refines_witness:
  "\<exists>s' T'. BinaryTreeInsert SymbolNodeInsertCompare 3 demo_tree = Some (s', True) \<and> tree_ok part_name s' T' \<and> set (refs T') = {1, 2, 3}"
proof -
  obtain s' T' xs ys where "BinaryTreeInsert SymbolNodeInsertCompare 3 demo_tree = Some (s', True)" "tree_ok part_name s' T'"
    "refs demo_btr = xs @ ys" "refs T' = xs @ 3 # ys"
    using BinaryTreeInsert_refines [OF names.tree_order_axioms demo_tree_ok(1), of 3] demo_tree_ok(2-4) by auto
  moreover have "set (xs @ ys) = {1, 2}" using calculation(3) by (metis refs.simps append_Nil list.simps(15) empty_set)
  ultimately show ?thesis by auto
qed

text \<open>
  C39. A search ends with the node of the key, or with the null pointer exactly when the tree has no such
  key; and the tree is balanced: its height is at most twice the logarithm of the number of its nodes.
\<close>

theorem BinaryTreeSearch_finds:
  assumes "tree_order compare search key skey" "tree_ok key s T"
  shows "(\<exists>r. BinaryTreeSearch search q (fst s) (Some (snd s)) = Some r \<and>
      (if skey q \<in> set (keys_of key (fst s) T) then r \<in> set (refs T) \<and> key_at key (fst s) r = skey q else r = 0)) \<and>
    2 ^ theight T \<le> (length (refs T) + 1)\<^sup>2"
  using tree_order.BinaryTreeSearch_spec [OF assms, of q] tree_height [of T] assms(2) by (simp add: tree_ok_def)

theorem BinaryTreeSearch_finds_witness:
  "\<exists>r. BinaryTreeSearch SymbolNodeSearchCompare [98] (fst demo_tree) (Some (snd demo_tree)) = Some r \<and> r \<noteq> 0 \<and>
    key_at part_name (fst demo_tree) r = [98]"
  using BinaryTreeSearch_finds [OF names.tree_order_axioms demo_tree_ok(1), of "[98]"] demo_tree_ok(3) by (auto split: if_splits)

text \<open>
  C40. A traversal calls the function once for every node, from the greatest key to the least, with the depth
  of the node; destruction calls the destructor once for every node, children first, and frees all of
  them and nothing else.
\<close>

theorem BinaryTree_visits:
  assumes "tree_ok key s T"
  shows "BinaryTreeTraverse f (fst s) (snd s) data = Some (foldr (\<lambda>(r, e). f (the (fst s r)) e) (depths 0 T) data) \<and>
    map fst (depths 0 T) = refs T \<and> sorted_wrt (<) (map (key_at key (fst s)) (refs T)) \<and>
    BinaryTreeDestruct D (Some (snd s)) (fst s, data') = Some (without (fst s) (set (refs T)), destroy D (fst s) (postorder T) data') \<and>
    mset (postorder T) = mset (refs T) \<and> distinct (refs T)"
proof -
  have T: "shape (fst s) 0 T" "bt_root (snd s) = rt T" "distinct (refs T)" "sorted_wrt (<) (keys_of key (fst s) T)"
    using assms by (simp_all add: tree_ok_def holds_def)
  show ?thesis using traverse_spec [OF T(1), of f 0 data] delete_spec [OF T(1,3), of D data'] T(2-4) postorder_refs [of T]
    by (simp add: BinaryTreeTraverse_def BinaryTreeDestruct_def keys_of_def)
qed

theorem BinaryTree_visits_witness:
  "BinaryTreeTraverse (\<lambda>n d ds. ds @ [d]) (fst demo_tree) (snd demo_tree) [] = Some [1, 0] \<and>
   BinaryTreeDestruct (Some (\<lambda>n. Suc)) (Some (snd demo_tree)) (fst demo_tree, 0) =
     Some (without (fst demo_tree) {1, 2}, Suc (Suc 0))"
  using BinaryTree_visits [OF demo_tree_ok(1), of "\<lambda>n d ds. ds @ [d]" "[]" "Some (\<lambda>n. Suc)" 0] by (simp add: destroy_def)

section \<open>Scopes\<close>

text \<open>
  C6. A declaration enters the innermost scope and shadows the outer ones. Insertion succeeds for a name that
  is no namespace alias of the scope and not bound in it (for a name-independent symbol always); then a
  search from the scope for that name gives the new symbol if the name was not bound in the scope, and
  every other search, in whatever scope the name is bound, gives what it gave before. The trees of all
  scopes stay well-formed, and the node of a refused symbol is freed.
\<close>

theorem InsertLocalSymbol_shadows:
  assumes "scopes_ok h syms (table # tables) (T # Ts)" "fresh_cell malloc" "symbol \<noteq> 0" "syms symbol = Some sy"
  shows "\<exists>h' syms' table' T' ok. InsertLocalSymbol malloc symbol (h, syms, table) = Some ((h', syms', table'), ok) \<and>
    scopes_ok h' syms' (table' # tables) (T' # Ts) \<and>
    (ok \<longleftrightarrow> insertable sy table \<and> (FindTopLocalSymbol h table (sy_name sy) = Some 0 \<or> sy_is_name_independent sy)) \<and>
    (\<forall>v. FindLocalSymbol h' (table' # tables) v =
       (if insertable sy table \<and> FindTopLocalSymbol h table (sy_name sy) = Some 0 \<and> c_str v = c_str (sy_name sy)
        then Some symbol else FindLocalSymbol h (table # tables) v))"
proof -
  have O: "list_all2 (\<lambda>table T. table_ok syms (h, lt_table table) T) (table # tables) (T # Ts)" "table_ok syms (h, lt_table table) T"
    using assms(1) by (simp_all add: scopes_ok_def)
  obtain h' syms' table' T' ok where i: "InsertLocalSymbol malloc symbol (h, syms, table) = Some ((h', syms', table'), ok)"
    "local_inserted sy symbol (h, syms, table) T (h', syms', table') T' ok" "scopes_ok h' syms' (table' # tables) (T' # Ts)"
    "chain_map h' Ts = chain_map h Ts"
    using InsertLocalSymbol_scopes [OF assms] by blast
  have O': "list_all2 (\<lambda>table T. table_ok syms' (h', lt_table table) T) (table' # tables) (T' # Ts)" using i(3) by (simp add: scopes_ok_def)
  have top: "FindTopLocalSymbol h table (sy_name sy) = Some 0 \<longleftrightarrow> tree_map h T (c_str (sy_name sy)) = None"
    using FindSymbol_spec [OF O(2), of "sy_name sy"] tree_map_nonzero [OF O(2), of "c_str (sy_name sy)"]
    by (auto simp: FindTopLocalSymbol_def split: option.splits)
  note L = i(2) [unfolded local_inserted_def Let_def, simplified]
  have "FindLocalSymbol h' (table' # tables) v =
       (if insertable sy table \<and> FindTopLocalSymbol h table (sy_name sy) = Some 0 \<and> c_str v = c_str (sy_name sy)
        then Some symbol else FindLocalSymbol h (table # tables) v)" for v
    unfolding FindLocalSymbol_spec [OF O(1)] FindLocalSymbol_spec [OF O'] top using L i(4)
    by (cases "insertable sy table \<and> tree_map h T (c_str (sy_name sy)) = None") (auto simp: map_add_def)
  then show ?thesis using i(1,3) L unfolding top by blast
qed

theorem InsertLocalSymbol_shadows_witness:
  "\<exists>h' syms' table'. InsertLocalSymbol demo_cell 1 (Map.empty, demo_symbols, NewLocalSymbolTable) = Some ((h', syms', table'), True) \<and>
    FindLocalSymbol h' [table'] [120] = Some 1 \<and> FindLocalSymbol h' [table'] [121] = Some 0"
proof -
  let ?sy = "\<lparr>sy_name = [120], sy_is_name_independent = False, sy_lookup_ambiguous = False\<rparr>"
  have e: "FindTopLocalSymbol Map.empty NewLocalSymbolTable v = Some 0" for v
    using FindSymbol_spec [of demo_symbols "(Map.empty, lt_table NewLocalSymbolTable)" Tip v] demo_scope
    by (simp add: FindTopLocalSymbol_def scopes_ok_def tree_map_def)
  have "demo_symbols 1 = Some ?sy" "insertable ?sy NewLocalSymbolTable" by (simp_all add: demo_symbols_def insertable_def NewLocalSymbolTable_def)
  then show ?thesis
    using InsertLocalSymbol_shadows [OF demo_scope demo_cell_fresh, of 1 ?sy] e [unfolded FindTopLocalSymbol_def] e by auto
qed

text \<open>
  C8. Removal of a symbol undoes its declaration. It succeeds exactly when the scope binds the name of the
  symbol to it; then the tree is rebuilt without it, a search for the name goes on to the outer
  scopes, and every other search gives what it gave before.
\<close>

theorem UninstallLocalSymbol_exact:
  assumes "scopes_ok h syms (table # tables) (T # Ts)" "fresh_cell malloc" "symbol \<noteq> 0" "syms symbol = Some sy"
  shows "\<exists>h' table' T' ok. UninstallLocalSymbol malloc symbol (h, syms, table) = Some ((h', syms, table'), ok) \<and>
    scopes_ok h' syms (table' # tables) (T' # Ts) \<and>
    (ok \<longleftrightarrow> FindTopLocalSymbol h table (sy_name sy) = Some symbol) \<and>
    (\<forall>v. FindLocalSymbol h' (table' # tables) v =
       (if ok \<and> c_str v = c_str (sy_name sy) then FindLocalSymbol h tables v else FindLocalSymbol h (table # tables) v))"
proof -
  obtain h' table' T' ok where u: "UninstallLocalSymbol malloc symbol (h, syms, table) = Some ((h', syms, table'), ok)"
    "ok \<longleftrightarrow> tree_map h T (c_str (sy_name sy)) = Some symbol" "scopes_ok h' syms (table' # tables) (T' # Ts)"
    "tree_map h' T' = (if ok then (tree_map h T)(c_str (sy_name sy) := None) else tree_map h T)" "chain_map h' Ts = chain_map h Ts"
    using UninstallLocalSymbol_scopes [OF assms] by blast
  have O: "list_all2 (\<lambda>table T. table_ok syms (h, lt_table table) T) (table # tables) (T # Ts)" "table_ok syms (h, lt_table table) T"
    "list_all2 (\<lambda>table T. table_ok syms (h, lt_table table) T) tables Ts"
    "list_all2 (\<lambda>table T. table_ok syms (h', lt_table table) T) (table' # tables) (T' # Ts)"
    using assms(1) u(3) by (simp_all add: scopes_ok_def)
  have top: "FindTopLocalSymbol h table (sy_name sy) = Some symbol \<longleftrightarrow> ok"
    using FindSymbol_spec [OF O(2), of "sy_name sy"] u(2) assms(3) by (auto simp: FindTopLocalSymbol_def split: option.splits)
  have "FindLocalSymbol h' (table' # tables) v =
       (if ok \<and> c_str v = c_str (sy_name sy) then FindLocalSymbol h tables v else FindLocalSymbol h (table # tables) v)" for v
    unfolding FindLocalSymbol_spec [OF O(1)] FindLocalSymbol_spec [OF O(3)] FindLocalSymbol_spec [OF O(4)] using u(4,5)
    by (cases ok) (auto simp: map_add_def)
  then show ?thesis using u(1,3) top by blast
qed

theorem UninstallLocalSymbol_exact_witness:
  "\<exists>h table h' table'. FindTopLocalSymbol h table [120] = Some 1 \<and>
    UninstallLocalSymbol demo_cell 1 (h, demo_symbols, table) = Some ((h', demo_symbols, table'), True) \<and>
    FindLocalSymbol h' [table'] [120] = Some 0"
proof -
  let ?sy = "\<lparr>sy_name = [120], sy_is_name_independent = False, sy_lookup_ambiguous = False\<rparr>"
  have sy: "(1::nat) \<noteq> 0" "demo_symbols 1 = Some ?sy" "insertable ?sy NewLocalSymbolTable"
    by (simp_all add: demo_symbols_def insertable_def NewLocalSymbolTable_def)
  obtain h syms table T ok where i: "local_inserted ?sy 1 (Map.empty, demo_symbols, NewLocalSymbolTable) Tip (h, syms, table) T ok"
    "scopes_ok h syms [table] [T]"
    using InsertLocalSymbol_scopes [OF demo_scope demo_cell_fresh sy(1,2)] by blast
  have s: "syms = demo_symbols" "tree_map h T [120] = Some 1" using i(1) sy(3) by (simp_all add: local_inserted_def tree_map_def)
  then have ok: "scopes_ok h demo_symbols [table] [T]" using i(2) by simp
  have "table_ok demo_symbols (h, lt_table table) T" using ok by (simp add: scopes_ok_def)
  then have top: "FindTopLocalSymbol h table [120] = Some 1"
    using FindSymbol_spec [of demo_symbols "(h, lt_table table)" T "[120]"] s(2) by (simp add: FindTopLocalSymbol_def)
  obtain h' table' ok' where u: "UninstallLocalSymbol demo_cell 1 (h, demo_symbols, table) = Some ((h', demo_symbols, table'), ok')"
    "ok' \<longleftrightarrow> FindTopLocalSymbol h table [120] = Some 1"
    "FindLocalSymbol h' [table'] [120] = (if ok' then FindLocalSymbol h [] [120] else FindLocalSymbol h [table] [120])"
    using UninstallLocalSymbol_exact [OF ok demo_cell_fresh sy(1,2)] by auto
  then show ?thesis using top by auto
qed

section \<open>Global symbols\<close>

text \<open>
  C7. The global symbol table is a finite map, whatever the hashes of the names. Insertion succeeds exactly
  for a name that has no symbol yet; afterwards a search for the name gives the inserted symbol and a
  search for any other name, in the same bucket or another, gives what it gave before. The buckets stay
  well-formed trees of their own, each with the names of its slot.
\<close>

theorem InsertGlobalSymbol_finds:
  assumes "globals_ok syms h table Ts" "fresh_cell malloc" "symbol \<noteq> 0" "syms symbol = Some sy"
  shows "\<exists>h' table' Ts' ok. InsertGlobalSymbol malloc syms symbol (h, table) = Some ((h', table'), ok) \<and>
    globals_ok syms h' table' Ts' \<and> (ok \<longleftrightarrow> FindGlobalSymbol h table (sy_name sy) = Some 0) \<and>
    (\<forall>v. FindGlobalSymbol h' table' v = (if ok \<and> c_str v = c_str (sy_name sy) then Some symbol else FindGlobalSymbol h table v))"
proof -
  note D = globals_okD [OF assms(1)]
  let ?i = "slot (ht_size table) (sy_name sy)" and ?v = "c_str (sy_name sy)"
  obtain h' table' Ts' ok where i: "InsertGlobalSymbol malloc syms symbol (h, table) = Some ((h', table'), ok)"
    "globals_ok syms h' table' Ts'" "ht_size table' = ht_size table" "ok \<longleftrightarrow> tree_map h (Ts ! ?i) ?v = None"
    "\<forall>j < ht_size table. tree_map h' (Ts' ! j) = (if ok \<and> j = ?i then (tree_map h (Ts ! j))(?v \<mapsto> symbol) else tree_map h (Ts ! j))"
    using InsertGlobalSymbol_spec [OF assms] by blast
  have "FindGlobalSymbol h table (sy_name sy) = Some 0 \<longleftrightarrow> ok"
    using FindGlobalSymbol_spec [OF assms(1), of "sy_name sy"] tree_map_nonzero [OF D(4) [OF slot_less [OF D(3)]], of "sy_name sy" ?v] i(4)
    by (auto split: option.splits)
  moreover have "FindGlobalSymbol h' table' v = (if ok \<and> c_str v = ?v then Some symbol else FindGlobalSymbol h table v)" for v
  proof -
    have "c_str v = ?v \<Longrightarrow> slot (ht_size table) v = ?i" by (metis slot_c_str)
    then show ?thesis
      using FindGlobalSymbol_spec [OF assms(1), of v] FindGlobalSymbol_spec [OF i(2), of v] i(3,5) slot_less [OF D(3), of v] by auto
  qed
  ultimately show ?thesis using i(1,2) by blast
qed

lemma demo_globals: "globals_ok syms Map.empty (HashTableInit 1009) (replicate 1009 Tip)"
  by (simp add: globals_ok_def HashTableInit_def table_ok_def tree_ok_def holds_def symbols_ok_def keys_of_def bucket_def BinaryTreeInit_def)

theorem InsertGlobalSymbol_finds_witness:
  "\<exists>h' table'. InsertGlobalSymbol demo_cell demo_symbols 1 (Map.empty, HashTableInit 1009) = Some ((h', table'), True) \<and>
    FindGlobalSymbol h' table' [120] = Some 1 \<and> FindGlobalSymbol h' table' [121] = Some 0"
proof -
  let ?sy = "\<lparr>sy_name = [120], sy_is_name_independent = False, sy_lookup_ambiguous = False\<rparr>"
  have e: "FindGlobalSymbol Map.empty (HashTableInit 1009) v = Some 0" for v
  proof -
    have "slot 1009 v < 1009" by (rule slot_less) simp
    then show ?thesis using FindGlobalSymbol_spec [OF demo_globals [of demo_symbols], of v] by (simp add: HashTableInit_def tree_map_def)
  qed
  have "demo_symbols 1 = Some ?sy" by (simp add: demo_symbols_def)
  then show ?thesis using InsertGlobalSymbol_finds [OF demo_globals demo_cell_fresh, of 1 demo_symbols ?sy] e by auto
qed

end
