(* ===== verification/Spec2Isabelle.thy ===== *)
theory Spec2Isabelle
  imports Containers WireTheorems BpfTheorems IrOpsTheorems IrGraphTheorems SccpTheorems StrengthTheorems CfgTheorems SsaTheorems CfgBuildTheorems DceTheorems CTreeTheorems
begin

text \<open>
  A verification development for the C and C++ compiler under \<open>src/c_compiler\<close> and the eBPF
  interpreter under \<open>src/bpf_interpreter\<close>.

  \<^bold>\<open>The program.\<close>  The front end turns a translation unit into IR nodes (\<open>backend/ir.h\<close>): an
  instruction list per function whose nodes point to their operands and users.
  \<open>backend/codegen.c\<close> cuts the list into basic blocks, links them and analyses the graph;
  the passes of \<open>optimization/\<close> rewrite it; a back end lowers it; \<open>serialize/\<close> writes it to
  files and reads it back.  All of them keep their data in the containers of \<open>util/\<close>.
  The development follows these layers from the bottom.

  \<^bold>\<open>Conventions.\<close>  A C struct is a record, a pointer to a node or to a block is a number with 0 for
  the null pointer (blocks are named by their index in the generator), a machine integer is
  a word of its width, a failed assertion, a call of \<open>abort\<close>, a dangling pointer and a loop
  without end are \<open>None\<close>.  Loops that need an argument to end are \<open>partial_function (option)\<close>, and
  the theorems say that they return.  Fuel occurs in two places: the recursion of
  \<open>BasicBlockIsUnreachable\<close> marks a block before it descends and so passes each once, and that of
  \<open>BasicBlockDominatedBy\<close> goes down a tree; the number of blocks bounds both.

  \<^bold>\<open>Containers\<close> (\<open>util/\<close>).  \<open>CPrelude\<close> holds the integer types, the C library's block operations and
  the shared lemmas; \<open>COrder\<close> the contract of a comparison function (the locale \<open>key_compare\<close>) and
  the binary search of \<open>bsearch\<close>.  \<open>CVector\<close>, \<open>CMap\<close>, \<open>CSet\<close>, \<open>CBitSet\<close> and \<open>CList\<close> model
  \<open>vector.c\<close>, \<open>map.c\<close>, \<open>set.c\<close>, \<open>bitset.c\<close> and \<open>list.c\<close>; \<open>CMapSpec\<close>, \<open>CBitSetSpec\<close> and \<open>Containers\<close>
  show that they refine finite maps, sets of numbers and lists, whichever of two insertion
  routines runs and whenever a buffer grows.

  \<^bold>\<open>Trees\<close> (\<open>util/binary_tree.c\<close>).  \<open>CTree\<close> is the red-black tree under the symbol and macro tables, nodes in
  a heap linked to children and parents; \<open>CTreeShape\<close> relates the heap to trees and proves the rotations,
  \<open>CTreeBalance\<close> the repair of colors, \<open>CTreeInsert\<close> the balance through the loop and the search for the place
  of a key (the locale \<open>tree_order\<close> is the contract of the comparison functions), \<open>CTreeSpec\<close> the operations.

  \<^bold>\<open>Symbol tables\<close> (\<open>frontend/syntax/symbol_table.c\<close>, \<open>util/hashtable.c\<close>).  \<open>CSymTab\<close> has the scopes, trees of symbol
  nodes with namespace aliases; \<open>CSymTabSpec\<close> and \<open>CScopes\<close> show that a scope is a finite map and the stack a
  chain of maps.  \<open>CGlobals\<close> is the hash table with trees as its entries.  \<open>CTreeTheorems\<close> states the
  properties.  The allocator of nodes is a parameter (\<open>fresh_cell\<close>); the global table and the scopes are
  arguments, not fields of one compiler state.

  \<^bold>\<open>Wire format\<close> (\<open>serialize/wireformat.c\<close>).  \<open>CWire\<close> is the buffer and its readers and writers,
  \<open>CWireSpec\<close> the contract of writers that append and readers that parse, \<open>WireTheorems\<close> the round
  trip of messages, the safety of reading arbitrary bytes, and the length check that wraps.

  \<^bold>\<open>eBPF\<close> (\<open>bpf/bpf_machine.h\<close>, \<open>bpf_interpreter.c\<close>).  \<open>Bpf\<close> is the encoding and the interpreter as a
  step function on a machine state, with system calls as a parameter; \<open>BpfTheorems\<close> has the
  round trip of the encoding, arithmetic at two widths, memory, and the calling convention as
  an invariant of the reachable states.

  \<^bold>\<open>IR\<close> (\<open>backend/ir.c\<close>, \<open>codegen.c\<close>, \<open>basic_block.c\<close>).  \<open>IrOps\<close> has the opcodes, nodes, types and the
  predicates on them; \<open>IrGraph\<close> the def-use edges, kept at both ends, the instruction list and the
  blocks.  \<open>IrGraphSpec\<close> has the invariant (\<open>graph_ok\<close>: both copies of every edge agree) and the
  effect of each operation, \<open>IrOpsTheorems\<close> and \<open>IrGraphTheorems\<close> the properties.

  \<^bold>\<open>Control flow\<close> (\<open>codegen.c\<close>, \<open>basic_block.c\<close>).  \<open>Cfg\<close> has the edges of the blocks and the analysis:
  the depth-first search, both computations of immediate dominators, frontiers and the
  dominator tree.  \<open>Dominance\<close> is the theory of dominators and the invariant of the iteration,
  \<open>CfgPostorder\<close>, \<open>CfgDominators\<close>, \<open>CfgAnalysis\<close>, \<open>CfgFrontier\<close> and \<open>CfgTree\<close> prove one stage each, and
  \<open>CfgTheorems\<close> states that the analysis ends and is exact.  \<open>CfgBuild\<close> is what comes before: the cut
  of the list into blocks, the edges of ordinary control (\<open>build_flow_graph\<close>), and those of unwinding to
  landing pads (\<open>AddExceptionHandlerEdges\<close>).  Between the two \<open>StraightenGraph\<close> merges blocks; of it
  only the test that finds a block to merge is modelled (\<open>coalesces\<close>), so what spans both is stated of graphs
  with nothing to merge.  \<open>CfgCut\<close> and \<open>CfgEdges\<close> prove the blocks and the edges of branches,
  \<open>CfgGraph\<close> the regions and the whole graph, \<open>CfgBuildTheorems\<close> that the edges are the control
  flow of the list, that every run, throws included, is carried by the analysed graph, and that the
  graph is ready for phi nodes.

  \<^bold>\<open>SSA construction\<close> (\<open>optimization/ssa.c\<close>, \<open>BasicBlockInsertPhi\<close>).  \<open>Ssa\<close> is the placement of phi nodes;
  allocation is a parameter that gives a node not in use (\<open>fresh_alloc\<close>).  \<open>SsaSpec\<close> describes the
  code and the blocks with new nodes in them, \<open>SsaRun\<close> the loops, \<open>SsaTheorems\<close> that the nodes are those
  of the iterated dominance frontiers and that one definition is left to reach every other block with code.

  \<^bold>\<open>Constant propagation\<close> (\<open>optimization/sccp.c\<close>).  \<open>Sccp\<close> is the analysis; \<open>SccpSpec\<close> its lattice and
  why the rounds end, \<open>SccpFold\<close> C's arithmetic on integers of a width (\<open>c_arith\<close>, \<open>wrapped_arith\<close>, the
  conditions on types \<open>op_types\<close>) and the folding against it, \<open>SccpRun\<close> the executions, whose integer
  operations are that arithmetic, \<open>SccpTheorems\<close> termination, folding and soundness, and a
  branch on a bit field that the analysis misses.

  \<^bold>\<open>Dead code elimination\<close> (\<open>optimization/dce.c\<close>).  \<open>Dce\<close> is the pass on the graph, \<open>DceSpec\<close> what it leaves
  (the graph without a set of instructions that justifies itself), \<open>DceTheorems\<close> the property and a
  call that loses its argument because the pass does not ask for the users of a store.

  \<^bold>\<open>Strength reduction\<close> (\<open>optimization/optimizer.c\<close>).  \<open>StrengthReduction\<close> decides for an instruction
  and the operands the pass looks into, as an expression, what replaces it; \<open>MagicNumbers\<close> and
  \<open>MagicSigned\<close> prove the loops that look for magic numbers and division by multiplication,
  \<open>StrengthSpec\<close> and \<open>StrengthOps\<close> prove the single rewritings, for the operands of \<open>known_operand\<close> and
  types that suit (\<open>operands_suit\<close>), \<open>StrengthTheorems\<close> that values are kept.

  \<^bold>\<open>Not modelled.\<close>  The front end apart from its symbol tables (lexer, preprocessor, parser,
  semantics, templates, constant evaluation), whose state is the whole language; the lowering of the syntax tree; the passes
  that move or duplicate code (loops, vectors, aliases, value numbering); the target back ends,
  assemblers, linker, loaders and the other interpreters; the C library; printing, files and
  allocation.  Of types and symbols only the fields that the modelled passes read are kept.
\<close>

end
